(* ===== verification/Prelude.thy ===== *)
theory Prelude
  imports Main "HOL-Library.Word" "HOL-Library.Multiset"
begin

text \<open>
  Vocabulary shared by every component: the width-limited integers the library uses
  (\<open>std::size_t\<close> and \<open>int64_t\<close> of a 64-bit build), error codes, raw bytes, and the
  generic lemmas on lists and on functions updated at an address that the component
  theories rely on.
\<close>

section \<open>Machine integers and bytes\<close>

type_synonym byte = "8 word"

text \<open>
  Sizes are naturals; \<open>size_max\<close> is \<open>(std::numeric_limits<std::size_t>::max)()\<close>, which the
  code uses as a sentinel.
\<close>

definition size_max :: nat where
  "size_max = 2 ^ 64 - 1"

text \<open>The range of \<open>int64_t\<close>.\<close>

definition int64_min :: int where
  "int64_min = - (2 ^ 63)"

definition int64_max :: int where
  "int64_max = 2 ^ 63 - 1"

text \<open>
  Signed arithmetic whose overflow is undefined behaviour in C++: \<open>None\<close> stands for the
  overflow.
\<close>

definition s64 :: "int \<Rightarrow> int option" where
  "s64 x = (if int64_min \<le> x \<and> x \<le> int64_max then Some x else None)"

definition in_s64 :: "int \<Rightarrow> bool" where
  "in_s64 x \<longleftrightarrow> int64_min \<le> x \<and> x \<le> int64_max"

lemma s64_in [simp]: "in_s64 x \<Longrightarrow> s64 x = Some x"
  by (simp add: s64_def in_s64_def)

lemma size_max_pos [simp]: "0 < size_max" "size_max \<noteq> 0"
  by (simp_all add: size_max_def)

section \<open>Error codes\<close>

text \<open>
  \<open>asio::error_code\<close>: a value with its category. The success code tests false; the
  constructors are the errors the modelled code itself creates or tests, and \<open>Sys_error\<close>
  stands for any other value of the system category.
\<close>

datatype error_code =
    Ok_code
  | Operation_aborted
  | Not_found
  | Eof
  | Invalid_argument
  | Address_family_not_supported
  | Would_block
  | Try_again
  | In_progress
  | Already_open
  | Bad_descriptor
  | Operation_not_supported
  | Connection_aborted
  | Interrupted
  | No_buffer_space
  | Not_socket
  | Channel_closed
  | Fd_set_failure
  | Channel_cancelled
  | Sys_error int

definition failed :: "error_code \<Rightarrow> bool" where
  "failed ec \<longleftrightarrow> ec \<noteq> Ok_code"

lemma failed_simps [simp]:
  "\<not> failed Ok_code" "failed Operation_aborted" "failed Not_found" "failed Eof"
  "failed Invalid_argument" "failed (Sys_error n)"
  by (simp_all add: failed_def)

lemma not_failed_iff: "\<not> failed ec \<longleftrightarrow> ec = Ok_code"
  by (simp add: failed_def)

text \<open>
  Exceptions the modelled code throws, as values: \<open>throw_error\<close> raises a
  \<open>system_error\<close> carrying the code when it is set and returns otherwise.
\<close>

datatype exn =
    System_error error_code
  | Length_error
  | Out_of_range
  | Invalid_argument_exn
  | Bad_address_cast

definition throw_error :: "error_code \<Rightarrow> 'a \<Rightarrow> exn + 'a" where
  "throw_error ec a = (if failed ec then Inl (System_error ec) else Inr a)"

text \<open>\<open>detail/socket_types.hpp\<close>: the descriptor that stands for none.\<close>

definition invalid_socket :: int where
  "invalid_socket = -1"

section \<open>Loops that may not end\<close>

text \<open>Two such loops are equal when each returns what the other does.\<close>

lemma option_eqI: "(\<And>r. x = Some r \<Longrightarrow> y = Some r) \<Longrightarrow> (\<And>r. y = Some r \<Longrightarrow> x = Some r) \<Longrightarrow> x = y"
  by (cases x; cases y) auto

section \<open>Lists\<close>

named_theorems seg \<open>decomposition of lists at a position\<close>

lemma take_add_drop [seg]: "take (m + n) xs = take m xs @ take n (drop m xs)"
  by (metis take_add)

lemma list_update_swap_mset:
  assumes "i < length xs" "j < length xs"
  shows "mset (xs[i := xs ! j, j := xs ! i]) = mset xs"
  by (rule mset_swap [OF assms(2,1)])

lemma set_butlast_distinct:
  assumes "distinct xs" "xs \<noteq> []"
  shows "set (butlast xs) = set xs - {last xs}"
proof -
  from assms(2) obtain ys y where xs: "xs = ys @ [y]"
    by (cases xs rule: rev_cases) auto
  with assms(1) show ?thesis by auto
qed

end
