(* ===== verification/BinaryHeap.thy ===== *)
theory BinaryHeap
  imports Prelude
begin

text \<open>
  Order-theoretic facts about an array-based binary min-heap, used by the timer queue: what
  it means for a list of keys to be a heap, to be a heap except that one key may be too
  small for its place (\<open>up_ok\<close>) or too large for it (\<open>down_ok\<close>), and what one exchange of
  neighbouring levels does to these.
\<close>

definition par :: "nat \<Rightarrow> nat" where
  "par i = (i - 1) div 2"

definition heap_ok :: "'t::linorder list \<Rightarrow> bool" where
  "heap_ok xs \<longleftrightarrow> (\<forall>i < length xs. 0 < i \<longrightarrow> xs ! par i \<le> xs ! i)"

definition up_ok :: "nat \<Rightarrow> 't::linorder list \<Rightarrow> bool" where
  "up_ok k xs \<longleftrightarrow>
     (\<forall>i < length xs. 0 < i \<longrightarrow> i \<noteq> k \<longrightarrow> xs ! par i \<le> xs ! i) \<and>
     (0 < k \<longrightarrow> (\<forall>i < length xs. 0 < i \<longrightarrow> par i = k \<longrightarrow> xs ! par k \<le> xs ! i))"

definition down_ok :: "nat \<Rightarrow> 't::linorder list \<Rightarrow> bool" where
  "down_ok k xs \<longleftrightarrow>
     (\<forall>i < length xs. 0 < i \<longrightarrow> par i \<noteq> k \<longrightarrow> xs ! par i \<le> xs ! i) \<and>
     (0 < k \<longrightarrow> (\<forall>i < length xs. 0 < i \<longrightarrow> par i = k \<longrightarrow> xs ! par k \<le> xs ! i))"

definition swapped :: "nat \<Rightarrow> nat \<Rightarrow> 'a list \<Rightarrow> 'a list" where
  "swapped i j xs = xs[i := xs ! j, j := xs ! i]"

lemma length_swapped [simp]: "length (swapped i j xs) = length xs"
  by (simp add: swapped_def)

lemma nth_swapped:
  "i < length xs \<Longrightarrow> j < length xs \<Longrightarrow> k < length xs \<Longrightarrow>
   swapped i j xs ! k = (if k = j then xs ! i else if k = i then xs ! j else xs ! k)"
  by (simp add: swapped_def nth_list_update)

lemma mset_swapped [simp]:
  "i < length xs \<Longrightarrow> j < length xs \<Longrightarrow> mset (swapped i j xs) = mset xs"
  unfolding swapped_def by (rule list_update_swap_mset)

lemma map_swapped:
  "i < length xs \<Longrightarrow> j < length xs \<Longrightarrow> map f (swapped i j xs) = swapped i j (map f xs)"
  by (simp add: swapped_def map_update)

lemma par_less: "0 < i \<Longrightarrow> par i < i"
  by (auto simp: par_def)

lemma par_eq_iff: "0 < i \<Longrightarrow> par i = k \<longleftrightarrow> i = 2 * k + 1 \<or> i = 2 * k + 2"
  by (auto simp: par_def)

lemma par_children [simp]: "par (Suc (2 * k)) = k" "par (Suc (Suc (2 * k))) = k"
  by (auto simp: par_def)

lemma heap_ok_least:
  assumes "heap_ok xs" "i < length xs"
  shows "xs ! 0 \<le> xs ! i"
  using assms(2)
proof (induction i rule: less_induct)
  case (less i)
  show ?case
  proof (cases "i = 0")
    case False
    then have "par i < i" by (simp add: par_less)
    with less have "xs ! 0 \<le> xs ! par i" by auto
    also have "xs ! par i \<le> xs ! i"
      using assms(1) less.prems False by (simp add: heap_ok_def)
    finally show ?thesis .
  qed simp
qed

lemma heap_ok_least_set: "heap_ok xs \<Longrightarrow> x \<in> set xs \<Longrightarrow> xs ! 0 \<le> x"
  by (metis heap_ok_least in_set_conv_nth)

lemma heap_ok_snoc_up_ok:
  "heap_ok xs \<Longrightarrow> up_ok (length xs) (xs @ [x])"
  unfolding heap_ok_def up_ok_def
proof (intro conjI allI impI)
  fix i assume h: "\<forall>i<length xs. 0 < i \<longrightarrow> xs ! par i \<le> xs ! i"
  assume "i < length (xs @ [x])" "0 < i" "i \<noteq> length xs"
  then have "i < length xs" "par i < length xs"
    using par_less [of i] by simp_all
  with h \<open>0 < i\<close> show "(xs @ [x]) ! par i \<le> (xs @ [x]) ! i" by (simp add: nth_append)
next
  fix i assume "i < length (xs @ [x])" "0 < i" "par i = length xs"
  with par_less [of i] have False by simp
  then show "(xs @ [x]) ! par (length xs) \<le> (xs @ [x]) ! i" ..
qed

lemma up_ok_stop: "up_ok k xs \<Longrightarrow> k = 0 \<or> xs ! par k \<le> xs ! k \<Longrightarrow> heap_ok xs"
  unfolding up_ok_def heap_ok_def by (metis less_nat_zero_code neq0_conv)

lemma up_ok_step:
  assumes up: "up_ok k xs" and k: "k < length xs" "0 < k" and lt: "xs ! k < xs ! par k"
  shows "up_ok (par k) (swapped k (par k) xs)"
proof -
  let ?p = "par k"
  have p: "?p < length xs" "?p < k" using k par_less [of k] by simp_all
  note nth = nth_swapped [OF k(1) p(1)]
  have main: "swapped k ?p xs ! par i \<le> swapped k ?p xs ! i"
    if i: "i < length xs" "0 < i" "i \<noteq> ?p" for i
  proof -
    have pi: "par i < length xs" using i par_less [of i] by simp
    have old: "i \<noteq> k \<Longrightarrow> xs ! par i \<le> xs ! i" using up i by (simp add: up_ok_def)
    have child: "par i = k \<Longrightarrow> xs ! ?p \<le> xs ! i" using up k i by (simp add: up_ok_def)
    consider "i = k" | "i \<noteq> k" "par i = ?p" | "i \<noteq> k" "par i = k"
      | "i \<noteq> k" "par i \<noteq> ?p" "par i \<noteq> k" by blast
    then show ?thesis
    proof cases
      case 1 with lt p i pi show ?thesis by (simp add: nth)
    next
      case 2 with old lt p i pi show ?thesis by (simp add: nth)
    next
      case 3 with child p i pi show ?thesis by (simp add: nth)
    next
      case 4 with old p i pi show ?thesis by (simp add: nth)
    qed
  qed
  have grand: "swapped k ?p xs ! par ?p \<le> swapped k ?p xs ! i"
    if i: "i < length xs" "0 < i" "par i = ?p" and p0: "0 < ?p" for i
  proof -
    have pp: "par ?p < length xs" "par ?p < ?p" using p0 p par_less [of ?p] by simp_all
    have "xs ! par ?p \<le> xs ! ?p" using up p p0 k by (simp add: up_ok_def)
    moreover have "i \<noteq> k \<Longrightarrow> xs ! ?p \<le> xs ! i" using up i by (simp add: up_ok_def) metis
    moreover have "i \<noteq> ?p" using i(3) pp by auto
    ultimately show ?thesis using i p pp by (auto simp: nth)
  qed
  show ?thesis unfolding up_ok_def using main grand by simp
qed

lemma down_ok_stop:
  assumes "down_ok k xs"
    and "\<And>c. c < length xs \<Longrightarrow> 0 < c \<Longrightarrow> par c = k \<Longrightarrow> xs ! k \<le> xs ! c"
  shows "heap_ok xs"
  unfolding heap_ok_def
proof (intro allI impI)
  fix i assume i: "i < length xs" "0 < i"
  show "xs ! par i \<le> xs ! i"
    using assms i by (cases "par i = k") (auto simp: down_ok_def)
qed

lemma down_ok_step:
  assumes down: "down_ok k xs" and k: "k < length xs" and c: "c < length xs" "0 < c" "par c = k"
    and le: "xs ! c \<le> xs ! k"
    and least: "\<And>d. d < length xs \<Longrightarrow> 0 < d \<Longrightarrow> par d = k \<Longrightarrow> xs ! c \<le> xs ! d"
  shows "down_ok c (swapped k c xs)"
proof -
  have kc: "k < c" using c par_less [of c] by simp
  note nth = nth_swapped [OF k c(1)]
  have main: "swapped k c xs ! par i \<le> swapped k c xs ! i"
    if i: "i < length xs" "0 < i" "par i \<noteq> c" for i
  proof -
    have pi: "par i < length xs" "par i < i" using i par_less [of i] by simp_all
    have old: "par i \<noteq> k \<Longrightarrow> xs ! par i \<le> xs ! i" using down i by (simp add: down_ok_def)
    consider "i = c" | "i \<noteq> c" "par i = k" | "i = k" | "i \<noteq> c" "i \<noteq> k" "par i \<noteq> k" by blast
    then show ?thesis
    proof cases
      case 1 with le c k kc i show ?thesis by (simp add: nth)
    next
      case 2
      then have "xs ! c \<le> xs ! i" using least i by blast
      with 2 i pi k show ?thesis by (simp add: nth)
    next
      case 3
      then have "xs ! par k \<le> xs ! c" using down c i by (simp add: down_ok_def)
      with 3 kc i pi show ?thesis by (simp add: nth)
    next
      case 4 with old i pi show ?thesis by (simp add: nth)
    qed
  qed
  have grand: "swapped k c xs ! par c \<le> swapped k c xs ! i"
    if i: "i < length xs" "0 < i" "par i = c" for i
  proof -
    have "c < i" using i par_less [of i] by simp
    moreover have "par i \<noteq> k" using i(3) kc by simp
    then have "xs ! c \<le> xs ! i" using down i by (auto simp: down_ok_def)
    ultimately show ?thesis using i c k kc by (simp add: nth)
  qed
  show ?thesis unfolding down_ok_def using main grand by simp
qed

text \<open>
  Replacing the key at \<open>k\<close> in a heap and dropping the last key leaves an array that is a
  heap except at \<open>k\<close>; whether the new key is too small or not too small for its place
  decides the direction.
\<close>

lemma heap_ok_replace_up:
  assumes "heap_ok xs" "k < length xs" "0 < k" "x < xs ! par k"
  shows "up_ok k (xs[k := x])"
  unfolding up_ok_def
proof (intro conjI allI impI)
  fix i assume i: "i < length (xs[k := x])" "0 < i" "i \<noteq> k"
  have h: "xs ! par i \<le> xs ! i" using assms(1) i by (simp add: heap_ok_def)
  show "xs[k := x] ! par i \<le> xs[k := x] ! i"
  proof (cases "par i = k")
    case True
    have "xs ! par k \<le> xs ! k" using assms(1-3) by (simp add: heap_ok_def)
    also have "\<dots> \<le> xs ! i" using h True by simp
    finally have "x \<le> xs ! i" using assms(4) by simp
    with True i assms(2) show ?thesis by simp
  next
    case False with h i show ?thesis by simp
  qed
next
  fix i assume i: "i < length (xs[k := x])" "0 < i" "par i = k"
  then have "k < i" using par_less [of i] by simp
  have "xs ! par k \<le> xs ! k" "xs ! k \<le> xs ! i"
    using assms(1-3) i by (auto simp: heap_ok_def)
  moreover have "par k \<noteq> k" using par_less [OF assms(3)] by simp
  ultimately show "xs[k := x] ! par k \<le> xs[k := x] ! i" using \<open>k < i\<close> by simp
qed

lemma heap_ok_replace_down:
  assumes "heap_ok xs" "k < length xs" "k = 0 \<or> \<not> x < xs ! par k"
  shows "down_ok k (xs[k := x])"
  unfolding down_ok_def
proof (intro conjI allI impI)
  fix i assume i: "i < length (xs[k := x])" "0 < i" "par i \<noteq> k"
  have h: "xs ! par i \<le> xs ! i" using assms(1) i by (simp add: heap_ok_def)
  then show "xs[k := x] ! par i \<le> xs[k := x] ! i"
    using i assms(2,3) by (cases "i = k") auto
next
  fix i assume k: "0 < k" and i: "i < length (xs[k := x])" "0 < i" "par i = k"
  then have "k < i" using par_less [of i] by simp
  have "xs ! par k \<le> xs ! k" "xs ! k \<le> xs ! i"
    using assms(1,2) k i by (auto simp: heap_ok_def)
  moreover have "par k \<noteq> k" using par_less [OF k] by simp
  ultimately show "xs[k := x] ! par k \<le> xs[k := x] ! i" using \<open>k < i\<close> by simp
qed

lemma heap_ok_butlast: "heap_ok xs \<Longrightarrow> heap_ok (butlast xs)"
  unfolding heap_ok_def
proof (intro allI impI)
  fix i assume h: "\<forall>i<length xs. 0 < i \<longrightarrow> xs ! par i \<le> xs ! i"
  assume i: "i < length (butlast xs)" "0 < i"
  then have "par i < length (butlast xs)" using par_less [of i] by linarith
  with h i show "butlast xs ! par i \<le> butlast xs ! i" by (simp add: nth_butlast)
qed

end
