(* ===== verification/TimerQueueCorrect.thy ===== *)
theory TimerQueueCorrect
  imports TimerQueue
begin

text \<open>
  Correctness of the timer queue: the heap functions permute the heap and keep every
  timer's index equal to its position, removal takes out exactly the timer's entry, the
  list of active timers stays a doubly linked list, and from these the behaviour of the
  operations of \<open>timer_queue\<close>.
\<close>

section \<open>Reading a state after one assignment\<close>

named_theorems tq \<open>field reads after the primitive assignments of the timer queue\<close>

lemma set_index_reads [tq]:
  "timers (set_index t i q) = timers q" "heap (set_index t i q) = heap q"
  "tdata (set_index t i q) u = (if u = t then (tdata q t)\<lparr>heap_index := i\<rparr> else tdata q u)"
  by (simp_all add: set_index_def)

lemma set_ops_reads [tq]:
  "timers (set_ops t xs q) = timers q" "heap (set_ops t xs q) = heap q"
  "tdata (set_ops t xs q) u = (if u = t then (tdata q t)\<lparr>ops_q := xs\<rparr> else tdata q u)"
  by (simp_all add: set_ops_def)

lemma set_next_t_reads [tq]:
  "timers (set_next_t t p q) = timers q" "heap (set_next_t t p q) = heap q"
  "tdata (set_next_t t p q) u = (if u = t then (tdata q t)\<lparr>next_t := p\<rparr> else tdata q u)"
  by (simp_all add: set_next_t_def)

lemma set_prev_t_reads [tq]:
  "timers (set_prev_t t p q) = timers q" "heap (set_prev_t t p q) = heap q"
  "tdata (set_prev_t t p q) u = (if u = t then (tdata q t)\<lparr>prev_t := p\<rparr> else tdata q u)"
  by (simp_all add: set_prev_t_def)

lemma on_timer_reads [tq]:
  "timers (on_timer p (\<lambda>t. set_next_t t v) q) = timers q"
  "heap (on_timer p (\<lambda>t. set_next_t t v) q) = heap q"
  "tdata (on_timer p (\<lambda>t. set_next_t t v) q) u =
     (if p = Some u then (tdata q u)\<lparr>next_t := v\<rparr> else tdata q u)"
  "timers (on_timer p (\<lambda>t. set_prev_t t v) q) = timers q"
  "heap (on_timer p (\<lambda>t. set_prev_t t v) q) = heap q"
  "tdata (on_timer p (\<lambda>t. set_prev_t t v) q) u =
     (if p = Some u then (tdata q u)\<lparr>prev_t := v\<rparr> else tdata q u)"
  by (auto simp: on_timer_def tq split: option.splits)

section \<open>The heap: positions, permutation, order\<close>

definition idx_ok :: "'t timer_queue \<Rightarrow> bool" where
  "idx_ok q \<longleftrightarrow>
     (\<forall>i < length (heap q). heap_index (tdata q (entry_timer (heap q ! i))) = i)"

definition keys :: "'t timer_queue \<Rightarrow> 't list" where
  "keys q = map entry_time (heap q)"

definition heap_timers :: "'t timer_queue \<Rightarrow> tid set" where
  "heap_timers q = entry_timer ` set (heap q)"

text \<open>
  What reordering the heap may do: permute it, with positions kept right, and touch
  nothing but the indices of the timers in it.
\<close>

definition reheap :: "'t timer_queue \<Rightarrow> 't timer_queue \<Rightarrow> bool" where
  "reheap q q' \<longleftrightarrow>
     mset (heap q') = mset (heap q) \<and> timers q' = timers q \<and>
     (\<forall>t. \<exists>i. tdata q' t = (tdata q t)\<lparr>heap_index := i\<rparr>) \<and>
     (\<forall>t. t \<notin> heap_timers q \<longrightarrow> tdata q' t = tdata q t) \<and>
     idx_ok q'"

lemma length_keys [simp]: "length (keys q) = length (heap q)"
  by (simp add: keys_def)

lemma keys_nth [simp]: "i < length (heap q) \<Longrightarrow> keys q ! i = entry_time (heap q ! i)"
  by (simp add: keys_def)

lemma idx_ok_inj:
  "idx_ok q \<Longrightarrow> i < length (heap q) \<Longrightarrow> j < length (heap q) \<Longrightarrow>
   entry_timer (heap q ! i) = entry_timer (heap q ! j) \<longleftrightarrow> i = j"
  unfolding idx_ok_def by metis

lemma same_but_index [simp]: "\<exists>i. (d :: per_timer_data) = d\<lparr>heap_index := i\<rparr>"
  by (rule exI [of _ "heap_index d"]) simp

lemma idx_ok_index:
  "idx_ok q \<Longrightarrow> i < length (heap q) \<Longrightarrow> heap_index (tdata q (entry_timer (heap q ! i))) = i"
  by (simp add: idx_ok_def)

lemma reheap_refl: "idx_ok q \<Longrightarrow> reheap q q"
  by (simp add: reheap_def)

lemma reheap_heap_timers: "reheap q q' \<Longrightarrow> heap_timers q' = heap_timers q"
  unfolding reheap_def heap_timers_def by (metis set_mset_mset)

lemma reheap_length: "reheap q q' \<Longrightarrow> length (heap q') = length (heap q)"
  unfolding reheap_def by (metis size_mset)

lemma reheap_trans:
  assumes "reheap q q'" "reheap q' q''"
  shows "reheap q q''"
proof -
  have "\<exists>i. tdata q'' t = (tdata q t)\<lparr>heap_index := i\<rparr>" for t
  proof -
    obtain i j where "tdata q' t = (tdata q t)\<lparr>heap_index := i\<rparr>"
      "tdata q'' t = (tdata q' t)\<lparr>heap_index := j\<rparr>"
      using assms unfolding reheap_def by blast
    then have "tdata q'' t = (tdata q t)\<lparr>heap_index := j\<rparr>" by simp
    then show ?thesis ..
  qed
  then show ?thesis
    using assms reheap_heap_timers [OF assms(1)] unfolding reheap_def by simp
qed

lemma heap_swap [simp]:
  "heap (swap_heap q i j) = swapped i j (heap q)"
  by (simp add: swap_heap_def swapped_def Let_def tq)

lemma timers_swap [simp]: "timers (swap_heap q i j) = timers q"
  by (simp add: swap_heap_def Let_def tq)

lemma tdata_swap:
  assumes "i < length (heap q)" "j < length (heap q)"
  shows "tdata (swap_heap q i j) t = (tdata q t)\<lparr>heap_index :=
     (if t = entry_timer (heap q ! i) then j
      else if t = entry_timer (heap q ! j) then i else heap_index (tdata q t))\<rparr>"
  using assms by (simp add: swap_heap_def Let_def tq nth_list_update)

lemma keys_swap [simp]:
  "i < length (heap q) \<Longrightarrow> j < length (heap q) \<Longrightarrow>
   keys (swap_heap q i j) = swapped i j (keys q)"
  by (simp add: keys_def map_swapped)

lemma swap_reheap:
  assumes ok: "idx_ok q" and i: "i < length (heap q)" and j: "j < length (heap q)"
  shows "reheap q (swap_heap q i j)"
proof -
  have "idx_ok (swap_heap q i j)"
    unfolding idx_ok_def
  proof (intro allI impI)
    fix k assume "k < length (heap (swap_heap q i j))"
    then have k: "k < length (heap q)" by simp
    show "heap_index (tdata (swap_heap q i j) (entry_timer (heap (swap_heap q i j) ! k))) = k"
      using ok i j k idx_ok_index [OF ok k] by (auto simp: nth_swapped tdata_swap idx_ok_inj)
  qed
  moreover have "entry_timer (heap q ! i) \<in> heap_timers q" "entry_timer (heap q ! j) \<in> heap_timers q"
    using i j by (auto simp: heap_timers_def)
  ultimately show ?thesis
    using i j by (simp add: reheap_def tdata_swap) auto
qed

lemma up_heap_reheap:
  "idx_ok q \<Longrightarrow> k < length (heap q) \<Longrightarrow> reheap q (up_heap q k)"
proof (induction q k rule: up_heap.induct)
  case (1 q k)
  show ?case
  proof (cases "k > 0 \<and> entry_time (heap q ! k) < entry_time (heap q ! ((k - 1) div 2))")
    case True
    let ?q = "swap_heap q k ((k - 1) div 2)"
    have p: "(k - 1) div 2 < length (heap q)" using True 1(3) by linarith
    have step: "reheap q ?q" using swap_reheap [OF 1(2,3) p] .
    have "reheap ?q (up_heap ?q ((k - 1) div 2))"
      using 1(1) [OF _ refl] True step p by (simp add: reheap_def)
    with step have "reheap q (up_heap ?q ((k - 1) div 2))" by (rule reheap_trans)
    with True show ?thesis by (subst up_heap.simps) (simp add: Let_def)
  next
    case False
    then show ?thesis using 1(2) by (subst up_heap.simps) (auto simp: Let_def reheap_refl)
  qed
qed

lemma up_heap_orders:
  "up_ok k (keys q) \<Longrightarrow> k < length (heap q) \<Longrightarrow> heap_ok (keys (up_heap q k))"
proof (induction q k rule: up_heap.induct)
  case (1 q k)
  show ?case
  proof (cases "k > 0 \<and> entry_time (heap q ! k) < entry_time (heap q ! ((k - 1) div 2))")
    case True
    let ?q = "swap_heap q k ((k - 1) div 2)"
    have p: "(k - 1) div 2 < length (heap q)" using True 1(3) by linarith
    have "up_ok (par k) (swapped k (par k) (keys q))"
      using up_ok_step [OF 1(2)] True 1(3) p by (simp add: par_def)
    then have "heap_ok (keys (up_heap ?q ((k - 1) div 2)))"
      using 1(1) [OF _ refl] True 1(3) p by (simp add: par_def)
    with True show ?thesis by (subst up_heap.simps) (simp add: Let_def)
  next
    case False
    have "k > 0 \<Longrightarrow> (k - 1) div 2 < length (heap q)" using 1(3) by linarith
    then have "k = 0 \<or> keys q ! par k \<le> keys q ! k"
      using False 1(3) by (cases "k = 0") (simp_all add: par_def not_less)
    with 1(2) have "heap_ok (keys q)" by (rule up_ok_stop)
    with False show ?thesis by (subst up_heap.simps) (auto simp: Let_def)
  qed
qed

text \<open>The child \<open>down_heap\<close> compares with, and one unfolding of the function in its terms.\<close>

definition min_child :: "('t::linorder) timer_queue \<Rightarrow> nat \<Rightarrow> nat" where
  "min_child q k =
     (if 2 * k + 2 = length (heap q) \<or>
         entry_time (heap q ! (2 * k + 1)) < entry_time (heap q ! (2 * k + 2))
      then 2 * k + 1 else 2 * k + 2)"

lemma down_heap_unfold:
  "down_heap q k =
     (if 2 * k + 1 < length (heap q) \<and>
         \<not> entry_time (heap q ! k) < entry_time (heap q ! min_child q k)
      then down_heap (swap_heap q k (min_child q k)) (min_child q k) else q)"
  by (subst down_heap.simps) (simp add: min_child_def Let_def mult.commute)

lemma min_child_facts:
  assumes "2 * k + 1 < length (heap q)"
  shows "min_child q k < length (heap q)" "0 < min_child q k" "par (min_child q k) = k"
    "k < min_child q k"
    "\<And>d. d < length (heap q) \<Longrightarrow> 0 < d \<Longrightarrow> par d = k \<Longrightarrow> keys q ! min_child q k \<le> keys q ! d"
  using assms by (auto simp: min_child_def par_eq_iff)

lemma down_heap_induct [case_names step stop]:
  assumes step: "\<And>q k. 2 * k + 1 < length (heap q) \<Longrightarrow>
      \<not> entry_time (heap q ! k) < entry_time (heap q ! min_child q k) \<Longrightarrow>
      P (swap_heap q k (min_child q k)) (min_child q k) \<Longrightarrow> P q k"
    and stop: "\<And>q k. \<not> (2 * k + 1 < length (heap q) \<and>
      \<not> entry_time (heap q ! k) < entry_time (heap q ! min_child q k)) \<Longrightarrow> P q k"
  shows "P q k"
proof (induction "length (heap q) - k" arbitrary: q k rule: less_induct)
  case less
  show ?case
  proof (cases "2 * k + 1 < length (heap q) \<and>
      \<not> entry_time (heap q ! k) < entry_time (heap q ! min_child q k)")
    case True
    have "P (swap_heap q k (min_child q k)) (min_child q k)"
    proof (rule less)
      show "length (heap (swap_heap q k (min_child q k))) - min_child q k
          < length (heap q) - k"
        using min_child_facts(1,4) [of k q] True by simp
    qed
    with True step show ?thesis by blast
  qed (rule stop)
qed

lemma down_heap_reheap:
  "idx_ok q \<Longrightarrow> k < length (heap q) \<Longrightarrow> reheap q (down_heap q k)"
proof (induction q k rule: down_heap_induct)
  case (step q k)
  note c = min_child_facts [OF step.hyps(1)]
  have sw: "reheap q (swap_heap q k (min_child q k))"
    using swap_reheap [OF step.prems c(1)] .
  moreover from sw have "idx_ok (swap_heap q k (min_child q k))" by (simp add: reheap_def)
  then have "reheap (swap_heap q k (min_child q k))
      (down_heap (swap_heap q k (min_child q k)) (min_child q k))"
    using step.IH c(1) by simp
  ultimately have "reheap q (down_heap (swap_heap q k (min_child q k)) (min_child q k))"
    by (rule reheap_trans)
  with step.hyps show ?case by (subst down_heap_unfold) simp
next
  case (stop q k)
  then show ?case by (subst down_heap_unfold) (auto simp: reheap_refl)
qed

lemma down_heap_orders:
  "down_ok k (keys q) \<Longrightarrow> k < length (heap q) \<Longrightarrow> heap_ok (keys (down_heap q k))"
proof (induction q k rule: down_heap_induct)
  case (step q k)
  note c = min_child_facts [OF step.hyps(1)]
  have "down_ok (min_child q k) (swapped k (min_child q k) (keys q))"
  proof (rule down_ok_step [OF step.prems(1)])
    show "keys q ! min_child q k \<le> keys q ! k"
      using step.hyps(2) step.prems(2) c(1) by simp
  qed (use step.prems c in auto)
  then have "heap_ok (keys (down_heap (swap_heap q k (min_child q k)) (min_child q k)))"
    using step.IH step.prems(2) c(1) by simp
  with step.hyps show ?case by (subst down_heap_unfold) simp
next
  case (stop q k)
  have "heap_ok (keys q)"
  proof (rule down_ok_stop [OF stop.prems(1)])
    fix c assume d: "c < length (keys q)" "0 < c" "par c = k"
    then have "2 * k + 1 < length (heap q)" by (auto simp: par_eq_iff)
    then show "keys q ! k \<le> keys q ! c"
      using stop.hyps min_child_facts(1,5) [of k q] d stop.prems(2) by fastforce
  qed
  with stop.hyps show ?case by (subst down_heap_unfold) auto
qed

section \<open>Putting an entry in, taking an entry out\<close>

definition tq_heap :: "('t::linorder) timer_queue \<Rightarrow> bool" where
  "tq_heap q \<longleftrightarrow> idx_ok q \<and> heap_ok (keys q)"

text \<open>The part of \<open>enqueue_timer\<close> that arms a timer.\<close>

lemma push_heap:
  assumes ok: "tq_heap q" and t: "t \<notin> heap_timers q"
    and q1: "q1 = set_index t (length (heap q)) q"
    and q2: "q2 = q1\<lparr>heap := heap q1 @ [\<lparr>entry_time = tm, entry_timer = t\<rparr>]\<rparr>"
    and q3: "q3 = up_heap q2 (length (heap q2) - 1)"
  shows "tq_heap q3" "reheap q2 q3"
    "mset (heap q3) = add_mset \<lparr>entry_time = tm, entry_timer = t\<rparr> (mset (heap q))"
proof -
  have h2: "heap q2 = heap q @ [\<lparr>entry_time = tm, entry_timer = t\<rparr>]"
    by (simp add: q1 q2 tq)
  have "idx_ok q2"
    unfolding idx_ok_def
  proof (intro allI impI)
    fix i assume "i < length (heap q2)"
    then consider "i < length (heap q)" | "i = length (heap q)" by (fastforce simp: h2 less_Suc_eq)
    then show "heap_index (tdata q2 (entry_timer (heap q2 ! i))) = i"
    proof cases
      case 1
      then have "entry_timer (heap q ! i) \<noteq> t" using t by (auto simp: heap_timers_def)
      with 1 ok show ?thesis by (simp add: h2 q1 q2 tq nth_append tq_heap_def idx_ok_def)
    next
      case 2
      then show ?thesis by (simp add: h2 q1 q2 tq)
    qed
  qed
  then show rh: "reheap q2 q3" unfolding q3 by (rule up_heap_reheap) (simp add: h2)
  have "up_ok (length (keys q)) (keys q @ [tm])"
    using ok by (intro heap_ok_snoc_up_ok) (simp add: tq_heap_def)
  then have "up_ok (length (heap q2) - 1) (keys q2)" by (simp add: h2 keys_def)
  then have "heap_ok (keys q3)" unfolding q3 by (rule up_heap_orders) (simp add: h2)
  with rh show "tq_heap q3" by (simp add: tq_heap_def reheap_def)
  show "mset (heap q3) = add_mset \<lparr>entry_time = tm, entry_timer = t\<rparr> (mset (heap q))"
    using rh by (simp add: reheap_def h2)
qed

text \<open>
  \<open>remove_from_heap\<close> takes out exactly the entry at the timer's index, whatever its position.
\<close>

lemma idx_ok_butlast:
  assumes ok: "idx_ok q" and ne: "heap q \<noteq> []" and t: "entry_timer (last (heap q)) = t"
  shows "idx_ok ((set_index t i q)\<lparr>heap := butlast (heap q)\<rparr>)"
  unfolding idx_ok_def
proof (intro allI impI)
  fix k assume "k < length (heap ((set_index t i q)\<lparr>heap := butlast (heap q)\<rparr>))"
  then have k: "k < length (heap q) - 1" by simp
  then have "entry_timer (heap q ! k) \<noteq> t"
    using ok ne t idx_ok_inj [of q k "length (heap q) - 1"] by (simp add: last_conv_nth)
  with k ok show "heap_index (tdata ((set_index t i q)\<lparr>heap := butlast (heap q)\<rparr>)
      (entry_timer (heap ((set_index t i q)\<lparr>heap := butlast (heap q)\<rparr>) ! k))) = k"
    by (simp add: tq nth_butlast idx_ok_def)
qed

lemma idx_ok_distinct: "idx_ok q \<Longrightarrow> distinct (map entry_timer (heap q))"
  by (auto simp: distinct_conv_nth idx_ok_inj)

lemma heap_timers_remove:
  assumes idx: "idx_ok q" and i: "i < length (heap q)"
    and m: "mset (heap q') = mset (heap q) - {#heap q ! i#}"
  shows "heap_timers q' = heap_timers q - {entry_timer (heap q ! i)}"
proof -
  have "mset (heap q) = mset (heap q ! i # heap q')" using m i by simp
  then have "mset (map entry_timer (heap q)) = mset (map entry_timer (heap q ! i # heap q'))"
    by (simp only: mset_map)
  with idx_ok_distinct [OF idx]
  have "distinct (map entry_timer (heap q ! i # heap q'))"
    and "set (map entry_timer (heap q)) = set (map entry_timer (heap q ! i # heap q'))"
    by (metis mset_eq_imp_distinct_iff, metis mset_eq_setD)
  then show ?thesis by (auto simp: heap_timers_def)
qed

lemma mset_butlast: "xs \<noteq> [] \<Longrightarrow> mset (butlast xs) = mset xs - {#last xs#}"
  by (cases xs rule: rev_cases) auto

lemma butlast_swapped_last:
  assumes "k < length xs - 1"
  shows "butlast (swapped k (length xs - 1) xs) = (butlast xs)[k := last xs]"
proof (rule nth_equalityI)
  fix i assume "i < length (butlast (swapped k (length xs - 1) xs))"
  then have "i < length xs - 1" by simp
  moreover have "xs \<noteq> []" using assms by auto
  ultimately show "butlast (swapped k (length xs - 1) xs) ! i = (butlast xs)[k := last xs] ! i"
    using assms by (simp add: nth_butlast nth_swapped nth_list_update last_conv_nth)
qed simp

lemma remove_from_heap_spec:
  assumes ok: "tq_heap q" and i: "heap_index (tdata q t) = i" "i < length (heap q)"
    and ti: "entry_timer (heap q ! i) = t" and q': "q' = remove_from_heap q t"
  shows "tq_heap q'" "mset (heap q') = mset (heap q) - {#heap q ! i#}"
    "timers q' = timers q" "heap_index (tdata q' t) = size_max"
    "\<exists>j. tdata q' u = (tdata q u)\<lparr>heap_index := j\<rparr>"
    "u \<notin> heap_timers q \<Longrightarrow> tdata q' u = tdata q u"
proof -
  let ?n = "length (heap q) - 1"
  have ne: "heap q \<noteq> []" using i by auto
  have idx: "idx_ok q" and ord: "heap_ok (keys q)" using ok by (auto simp: tq_heap_def)
  have "entry_timer (heap q ! i) \<in> heap_timers q"
    unfolding heap_timers_def using i(2) by (intro imageI nth_mem)
  then have tin: "t \<in> heap_timers q" by (simp add: ti)
  have keys_bl: "map entry_time (butlast (heap q)) = butlast (keys q)"
    by (simp add: keys_def map_butlast)
  have "tq_heap q' \<and> mset (heap q') = mset (heap q) - {#heap q ! i#} \<and>
    timers q' = timers q \<and> heap_index (tdata q' t) = size_max \<and>
    (\<exists>j. tdata q' u = (tdata q u)\<lparr>heap_index := j\<rparr>) \<and>
    (u \<notin> heap_timers q \<longrightarrow> tdata q' u = tdata q u)"
  proof (cases "i = ?n")
    case True
    then have lst: "last (heap q) = heap q ! i" using ne by (simp add: last_conv_nth)
    have q'_eq: "q' = (set_index t size_max q)\<lparr>heap := butlast (heap q)\<rparr>"
      using i ne True by (simp add: q' remove_from_heap_def Let_def tq)
    have "idx_ok q'" unfolding q'_eq using idx ne ti lst by (intro idx_ok_butlast) simp_all
    moreover have "heap_ok (keys q')"
      using heap_ok_butlast [OF ord] by (simp add: q'_eq keys_def map_butlast)
    ultimately show ?thesis
      using ne lst tin by (auto simp: tq_heap_def q'_eq tq mset_butlast)
  next
    case False
    then have i': "i < ?n" using i by simp
    define q1 where "q1 = swap_heap q i ?n"
    define q3 where "q3 = (set_index t size_max q1)\<lparr>heap := butlast (heap q1)\<rparr>"
    have n: "?n < length (heap q)" using ne by (cases "heap q") auto
    have sw: "reheap q q1" unfolding q1_def by (rule swap_reheap [OF idx i(2) n])
    have h1: "heap q1 = swapped i ?n (heap q)" by (simp add: q1_def)
    have h3: "heap q3 = (butlast (heap q))[i := last (heap q)]"
      using butlast_swapped_last [OF i'] by (simp add: q3_def h1)
    have l1: "heap q1 \<noteq> []" "entry_timer (last (heap q1)) = t" "last (heap q1) = heap q ! i"
      using ne i n ti by (auto simp: h1 last_conv_nth nth_swapped simp flip: length_0_conv)
    have idx3: "idx_ok q3" unfolding q3_def
      using sw l1 by (intro idx_ok_butlast) (auto simp: reheap_def)
    have k3: "keys q3 = (butlast (keys q))[i := last (keys q)]"
      using ne by (simp add: keys_def h3 map_update keys_bl last_map map_butlast)
    have bl: "heap_ok (butlast (keys q))" by (rule heap_ok_butlast [OF ord])
    have i3: "i < length (heap q3)" using i' by (simp add: h3)
    have pi: "0 < i \<Longrightarrow> par i < length (heap q3)" "0 < i \<Longrightarrow> par i \<noteq> i"
      using i3 par_less [of i] by auto
    define up where "up \<longleftrightarrow> i > 0 \<and> entry_time (heap q3 ! i) < entry_time (heap q3 ! ((i - 1) div 2))"
    have upk: "up \<longleftrightarrow> 0 < i \<and> last (keys q) < butlast (keys q) ! par i"
    proof (cases "0 < i")
      case True
      have "entry_time (heap q3 ! i) = last (keys q)"
        using i3 i' by (simp flip: keys_nth add: k3)
      moreover have "entry_time (heap q3 ! par i) = butlast (keys q) ! par i"
        using pi True by (simp flip: keys_nth add: k3)
      ultimately show ?thesis using True by (simp add: up_def par_def)
    qed (simp add: up_def)
    have q'_eq: "q' = (if up then up_heap q3 i else down_heap q3 i)"
      using i ne False by (simp add: q' remove_from_heap_def Let_def up_def q3_def q1_def tq)
    have rh: "reheap q3 q'"
      unfolding q'_eq using up_heap_reheap [OF idx3 i3] down_heap_reheap [OF idx3 i3] by simp
    have hok: "heap_ok (keys q')"
    proof (cases up)
      case True
      then have "up_ok i (keys q3)"
        unfolding k3 using upk i' bl by (intro heap_ok_replace_up) auto
      with True i3 show ?thesis by (simp add: q'_eq up_heap_orders)
    next
      case False
      then have "down_ok i (keys q3)"
        unfolding k3 using upk i' bl by (intro heap_ok_replace_down) auto
      with False i3 show ?thesis by (simp add: q'_eq down_heap_orders)
    qed
    have m3: "mset (heap q3) = mset (heap q) - {#heap q ! i#}"
      using sw l1 by (simp add: reheap_def q3_def mset_butlast)
    have ht3: "heap_timers q3 = heap_timers q - {t}"
      using heap_timers_remove [OF idx i(2) m3] ti by simp
    have d3: "tdata q3 v = (if v = t then (tdata q1 t)\<lparr>heap_index := size_max\<rparr> else tdata q1 v)" for v
      by (simp add: q3_def tq)
    have d31: "\<exists>j. tdata q3 u = (tdata q1 u)\<lparr>heap_index := j\<rparr>" by (auto simp: d3)
    have "\<exists>j. tdata q1 u = (tdata q u)\<lparr>heap_index := j\<rparr>"
      "\<exists>j. tdata q' u = (tdata q3 u)\<lparr>heap_index := j\<rparr>"
      using sw rh unfolding reheap_def by blast+
    with d31 have du: "\<exists>j. tdata q' u = (tdata q u)\<lparr>heap_index := j\<rparr>" by auto
    have out: "v \<notin> heap_timers q3 \<Longrightarrow> tdata q' v = tdata q3 v" for v
      using rh unfolding reheap_def by blast
    have "u \<notin> heap_timers q \<Longrightarrow> tdata q1 u = tdata q u"
      using sw unfolding reheap_def by blast
    then have frame: "u \<notin> heap_timers q \<Longrightarrow> tdata q' u = tdata q u"
      using out [of u] d3 [of u] tin ht3 by auto
    have "heap_index (tdata q' t) = size_max" using out [of t] d3 [of t] ht3 by simp
    moreover have "timers q' = timers q" using rh sw by (simp add: reheap_def q3_def tq)
    ultimately show ?thesis
      using rh hok m3 du frame by (simp add: tq_heap_def reheap_def)
  qed
  then show "tq_heap q'" "mset (heap q') = mset (heap q) - {#heap q ! i#}"
    "timers q' = timers q" "heap_index (tdata q' t) = size_max"
    "\<exists>j. tdata q' u = (tdata q u)\<lparr>heap_index := j\<rparr>"
    "u \<notin> heap_timers q \<Longrightarrow> tdata q' u = tdata q u" by blast+
qed

section \<open>The list of active timers\<close>

text \<open>
  \<open>dseg d pr p xs e\<close>: from \<open>p\<close>, following \<open>next_\<close>, come the timers \<open>xs\<close> and then the
  pointer \<open>e\<close>; the \<open>prev_\<close> of the first is \<open>pr\<close>.
\<close>

fun dseg :: "(tid \<Rightarrow> per_timer_data) \<Rightarrow> tid option \<Rightarrow> tid option \<Rightarrow> tid list \<Rightarrow> tid option \<Rightarrow> bool" where
  "dseg d pr p [] e \<longleftrightarrow> p = e"
| "dseg d pr p (x # xs) e \<longleftrightarrow>
     p = Some x \<and> prev_t (d x) = pr \<and> dseg d (Some x) (next_t (d x)) xs e"

definition end_of :: "tid option \<Rightarrow> tid list \<Rightarrow> tid option" where
  "end_of pr xs = (if xs = [] then pr else Some (last xs))"

lemma end_of_simps [simp]: "end_of pr [] = pr" "end_of pr (x # xs) = end_of (Some x) xs"
  by (auto simp: end_of_def)

lemma dseg_append:
  "dseg d pr p (xs @ ys) e \<longleftrightarrow> (\<exists>m. dseg d pr p xs m \<and> dseg d (end_of pr xs) m ys e)"
  by (induction xs arbitrary: pr p) auto

lemma dseg_cong:
  "(\<And>x. x \<in> set xs \<Longrightarrow> next_t (d' x) = next_t (d x) \<and> prev_t (d' x) = prev_t (d x)) \<Longrightarrow>
   dseg d' pr p xs e = dseg d pr p xs e"
  by (induction xs arbitrary: pr p) auto

lemma dseg_new_end:
  "dseg d pr p xs m \<Longrightarrow> distinct xs \<Longrightarrow> xs \<noteq> [] \<Longrightarrow>
   (\<And>x. x \<in> set xs \<Longrightarrow> prev_t (d' x) = prev_t (d x) \<and>
      next_t (d' x) = (if x = last xs then m' else next_t (d x))) \<Longrightarrow>
   dseg d' pr p xs m'"
proof (induction xs arbitrary: pr p)
  case (Cons x xs)
  show ?case
  proof (cases "xs = []")
    case False
    moreover have "x \<noteq> last xs" using Cons.prems(2) False by auto
    moreover have "dseg d' (Some x) (next_t (d x)) xs m'"
      by (rule Cons.IH) (use Cons.prems False in auto)
    ultimately show ?thesis using Cons.prems by simp
  qed (use Cons.prems in simp)
qed simp

lemma dseg_new_start:
  "dseg d pr p xs e \<Longrightarrow> distinct xs \<Longrightarrow> xs \<noteq> [] \<Longrightarrow>
   (\<And>x. x \<in> set xs \<Longrightarrow> next_t (d' x) = next_t (d x) \<and>
      prev_t (d' x) = (if x = hd xs then pr' else prev_t (d x))) \<Longrightarrow>
   dseg d' pr' p xs e"
proof (cases xs)
  case (Cons x ys)
  assume h: "dseg d pr p xs e" "distinct xs"
    "\<And>x. x \<in> set xs \<Longrightarrow> next_t (d' x) = next_t (d x) \<and>
      prev_t (d' x) = (if x = hd xs then pr' else prev_t (d x))"
  then have "dseg d' (Some x) (next_t (d x)) ys e = dseg d (Some x) (next_t (d x)) ys e"
    using Cons by (intro dseg_cong) auto
  with h Cons show ?thesis by simp
qed simp

definition active :: "'t timer_queue \<Rightarrow> tid list \<Rightarrow> bool" where
  "active q ts \<longleftrightarrow> dseg (tdata q) None (timers q) ts None \<and> distinct ts"

lemma active_Nil: "active q [] \<longleftrightarrow> timers q = None"
  by (simp add: active_def)

lemma dseg_unique: "dseg d pr p xs None \<Longrightarrow> dseg d pr p ys None \<Longrightarrow> xs = ys"
proof (induction xs arbitrary: pr p ys)
  case Nil
  then show ?case by (cases ys) auto
next
  case (Cons x xs)
  then show ?case by (cases ys) auto
qed

lemma dseg_prev_in:
  "dseg d pr p xs e \<Longrightarrow> x \<in> set xs \<Longrightarrow> prev_t (d x) = None \<Longrightarrow> pr = None \<Longrightarrow> p = Some x"
proof (induction xs arbitrary: pr p)
  case (Cons y ys)
  show ?case
  proof (cases "x = y")
    case False
    have "dseg d (Some y) (next_t (d y)) ys e \<Longrightarrow> x \<in> set ys \<Longrightarrow> prev_t (d x) \<noteq> None" for y ys
      by (induction ys arbitrary: y) auto
    with Cons.prems False show ?thesis by auto
  qed (use Cons.prems in simp)
qed simp

text \<open>For timers whose links are reset when they leave, the code's test is membership.\<close>

lemma linked_iff:
  assumes "active q ts" and "\<And>t. t \<notin> set ts \<Longrightarrow> prev_t (tdata q t) = None"
  shows "linked q t \<longleftrightarrow> t \<in> set ts"
proof
  assume l: "linked q t"
  show "t \<in> set ts"
  proof (rule ccontr)
    assume "t \<notin> set ts"
    with l assms have "timers q = Some t" by (simp add: linked_def)
    with assms(1) \<open>t \<notin> set ts\<close> show False by (cases ts) (auto simp: active_def)
  qed
next
  assume "t \<in> set ts"
  with assms(1) show "linked q t"
    using dseg_prev_in [of "tdata q" None "timers q" ts None t] by (auto simp: linked_def active_def)
qed

lemma unlink_timer_spec:
  assumes act: "active q (us @ t # vs)" and q': "q' = unlink_timer q t"
  shows "active q' (us @ vs)" "heap q' = heap q"
    "next_t (tdata q' t) = None" "prev_t (tdata q' t) = None"
    "ops_q (tdata q' u) = ops_q (tdata q u)" "heap_index (tdata q' u) = heap_index (tdata q u)"
    "u \<notin> set (us @ t # vs) \<Longrightarrow> tdata q' u = tdata q u"
proof -
  let ?d = "tdata q" and ?pr = "end_of None us" and ?nx = "next_t (tdata q t)"
  have dist: "distinct us" "distinct vs" "t \<notin> set us" "t \<notin> set vs" "set us \<inter> set vs = {}"
    using act by (auto simp: active_def)
  have segs: "dseg ?d None (timers q) us (Some t)" "prev_t (?d t) = ?pr" "dseg ?d (Some t) ?nx vs None"
    using act by (auto simp: active_def dseg_append)
  have nx: "?nx = (if vs = [] then None else Some (hd vs))"
    using segs(3) by (cases vs) auto
  have pr: "?pr = (if us = [] then None else Some (last us))" by (simp add: end_of_def)
  have ne: "?pr \<noteq> Some t" "?nx \<noteq> Some t"
    using dist nx pr by auto
  have tm: "timers q = Some t \<longleftrightarrow> us = []"
    using segs(1) dist by (cases us) auto
  have d': "tdata q' v = (if v = t then (?d t)\<lparr>next_t := None, prev_t := None\<rparr>
      else (?d v)\<lparr>next_t := (if ?pr = Some v then ?nx else next_t (?d v)),
                prev_t := (if ?nx = Some v then ?pr else prev_t (?d v))\<rparr>)" for v
    using ne by (simp add: q' unlink_timer_def Let_def tq segs(2))
  have t': "timers q' = (if us = [] then ?nx else timers q)"
    by (simp add: q' unlink_timer_def Let_def tq tm)
  show "heap q' = heap q" by (simp add: q' unlink_timer_def Let_def tq)
  show "next_t (tdata q' t) = None" "prev_t (tdata q' t) = None"
    "ops_q (tdata q' u) = ops_q (tdata q u)" "heap_index (tdata q' u) = heap_index (tdata q u)"
    by (simp_all add: d')
  have front: "dseg (tdata q') None (timers q') us ?nx"
  proof (cases "us = []")
    case False
    then have lu: "last us \<in> set us" by simp
    show ?thesis unfolding t'
    proof (simp add: False, rule dseg_new_end [OF segs(1) dist(1) False])
      fix x assume "x \<in> set us"
      with dist have "x \<noteq> t" "?nx \<noteq> Some x" by (auto simp: nx dest: hd_in_set split: if_splits)
      with False show "prev_t (tdata q' x) = prev_t (?d x) \<and>
          next_t (tdata q' x) = (if x = last us then ?nx else next_t (?d x))"
        by (auto simp: d' pr)
    qed
  qed (simp add: t')
  have rear: "dseg (tdata q') ?pr ?nx vs None"
  proof (cases "vs = []")
    case False
    show ?thesis
    proof (rule dseg_new_start [OF segs(3) dist(2) False])
      fix x assume "x \<in> set vs"
      with dist have "x \<noteq> t" "?pr \<noteq> Some x" by (auto simp: pr dest: last_in_set split: if_splits)
      with False show "next_t (tdata q' x) = next_t (?d x) \<and>
          prev_t (tdata q' x) = (if x = hd vs then ?pr else prev_t (?d x))"
        by (auto simp: d' nx)
    qed
  qed (simp add: nx)
  show "active q' (us @ vs)"
    unfolding active_def dseg_append using front rear dist by auto
  assume "u \<notin> set (us @ t # vs)"
  then have "u \<noteq> t" "?pr \<noteq> Some u" "?nx \<noteq> Some u"
    by (auto simp: pr nx dest: last_in_set hd_in_set split: if_splits)
  then show "tdata q' u = tdata q u" by (simp add: d')
qed

section \<open>The invariant\<close>

text \<open>
  \<open>tq_inv X q ts\<close>: the active timers are \<open>ts\<close>; all but those in \<open>X\<close> have a pending
  operation. Between operations \<open>X\<close> is empty; \<open>remove_timer\<close> is called when the queue of
  one timer has just been emptied. A timer that is not active is as a fresh one.
\<close>

definition tq_inv :: "tid set \<Rightarrow> ('t::linorder) timer_queue \<Rightarrow> tid list \<Rightarrow> bool" where
  "tq_inv X q ts \<longleftrightarrow>
     active q ts \<and> tq_heap q \<and> heap_timers q \<subseteq> set ts \<and> length (heap q) \<le> size_max \<and>
     (\<forall>t \<in> set ts - X. ops_q (tdata q t) \<noteq> []) \<and>
     (\<forall>t \<in> set ts - heap_timers q. heap_index (tdata q t) = size_max) \<and>
     (\<forall>t. t \<notin> set ts \<longrightarrow> tdata q t = new_timer_data)"

lemma tq_inv_new: "tq_inv {} new_timer_queue []"
  by (simp add: tq_inv_def new_timer_queue_def active_def tq_heap_def idx_ok_def heap_ok_def
      heap_timers_def)

lemma new_timer_data_reads [simp]:
  "ops_q new_timer_data = []" "heap_index new_timer_data = size_max"
  "next_t new_timer_data = None" "prev_t new_timer_data = None"
  by (simp_all add: new_timer_data_def)

lemma tq_inv_linked: "tq_inv X q ts \<Longrightarrow> linked q t \<longleftrightarrow> t \<in> set ts"
  by (rule linked_iff) (auto simp: tq_inv_def)

lemma heap_timers_nth: "i < length (heap q) \<Longrightarrow> entry_timer (heap q ! i) \<in> heap_timers q"
  unfolding heap_timers_def by (intro imageI nth_mem)

lemma heap_timersE:
  assumes "t \<in> heap_timers q"
  obtains i where "i < length (heap q)" "entry_timer (heap q ! i) = t"
  using assms by (auto simp: heap_timers_def in_set_conv_nth)

lemma active_same_links:
  "(\<And>t. t \<in> set ts \<Longrightarrow> next_t (tdata q' t) = next_t (tdata q t) \<and>
      prev_t (tdata q' t) = prev_t (tdata q t)) \<Longrightarrow>
   timers q' = timers q \<Longrightarrow> active q' ts = active q ts"
  by (simp add: active_def dseg_cong [of ts "tdata q'" "tdata q"])

lemma set_ops_heap_index [simp]: "heap_index (tdata (set_ops t xs q) u) = heap_index (tdata q u)"
  by (simp add: tq)

lemma set_ops_same [simp]: "ops_q (tdata (set_ops t xs q) t) = xs"
  by (simp add: tq)

lemma tq_inv_set_ops:
  assumes "tq_inv X q ts" "t \<in> set ts" "xs = [] \<Longrightarrow> t \<in> Y" "X - {t} \<subseteq> Y"
  shows "tq_inv Y (set_ops t xs q) ts"
proof -
  have "active (set_ops t xs q) ts"
    using assms(1) active_same_links [of ts "set_ops t xs q" q] by (simp add: tq_inv_def tq)
  moreover have "idx_ok (set_ops t xs q) = idx_ok q"
    by (simp add: idx_ok_def set_ops_reads(2))
  moreover have "keys (set_ops t xs q) = keys q" by (simp add: keys_def tq)
  moreover have "heap_timers (set_ops t xs q) = heap_timers q" by (simp add: heap_timers_def tq)
  ultimately show ?thesis using assms by (auto simp: tq_inv_def tq tq_heap_def)
qed

text \<open>
  Removing a timer whose queue has been emptied: it leaves the list and, if it was armed,
  its entry leaves the heap; nothing else changes.
\<close>

definition entries_of :: "'t timer_queue \<Rightarrow> tid \<Rightarrow> 't heap_entry multiset" where
  "entries_of q t = filter_mset (\<lambda>e. entry_timer e = t) (mset (heap q))"

lemma entries_of_armed:
  assumes "idx_ok q" "i < length (heap q)"
  shows "entries_of q (entry_timer (heap q ! i)) = {#heap q ! i#}"
proof -
  let ?e = "heap q ! i" and ?q = "q\<lparr>heap := remove1 (heap q ! i) (heap q)\<rparr>"
  have e: "?e \<in># mset (heap q)" using assms(2) by simp
  have "heap_timers ?q = heap_timers q - {entry_timer ?e}"
    using heap_timers_remove [OF assms, of ?q] by simp
  then have "filter_mset (\<lambda>e. entry_timer e = entry_timer ?e) (mset (heap q) - {#?e#}) = {#}"
    by (auto simp: heap_timers_def simp flip: mset_remove1)
  then have "filter_mset (\<lambda>e. entry_timer e = entry_timer ?e) (add_mset ?e (mset (heap q) - {#?e#}))
      = {#?e#}" by simp
  with e show ?thesis by (simp add: entries_of_def)
qed

lemma entries_of_unarmed: "t \<notin> heap_timers q \<Longrightarrow> entries_of q t = {#}"
  by (auto simp: entries_of_def heap_timers_def)

lemma remove_from_heap_inv:
  assumes inv: "tq_inv {t} q ts" and t: "t \<in> set ts" and q': "q' = remove_from_heap q t"
  shows "tq_heap q' \<and> mset (heap q') = mset (heap q) - entries_of q t \<and>
    heap_timers q' = heap_timers q - {t} \<and> timers q' = timers q \<and>
    heap_index (tdata q' t) = size_max \<and>
    (\<forall>u. \<exists>j. tdata q' u = (tdata q u)\<lparr>heap_index := j\<rparr>) \<and>
    (\<forall>u. u \<notin> heap_timers q \<longrightarrow> tdata q' u = tdata q u)"
proof (cases "t \<in> heap_timers q")
  case True
  then obtain i where i: "i < length (heap q)" "entry_timer (heap q ! i) = t"
    by (rule heap_timersE)
  have h: "tq_heap q" "idx_ok q" using inv by (auto simp: tq_inv_def tq_heap_def)
  then have ix: "heap_index (tdata q t) = i" using i by (auto simp: idx_ok_def)
  note spec = remove_from_heap_spec [OF h(1) ix i q']
  have "heap_timers q' = heap_timers q - {t}"
    using heap_timers_remove [OF h(2) i(1) spec(2)] i by simp
  moreover have "entries_of q t = {#heap q ! i#}"
    using entries_of_armed [OF h(2) i(1)] i(2) by simp
  moreover have "\<forall>u. \<exists>j. tdata q' u = (tdata q u)\<lparr>heap_index := j\<rparr>" using spec(5) by blast
  moreover have "\<forall>u. u \<notin> heap_timers q \<longrightarrow> tdata q' u = tdata q u" using spec(6) by blast
  ultimately show ?thesis using spec(1-4) by simp
next
  case False
  then have "q' = q"
    using inv t by (simp add: q' remove_from_heap_def tq_inv_def Let_def)
  moreover have "tq_heap q" "heap_index (tdata q t) = size_max"
    using inv t False by (simp_all add: tq_inv_def)
  ultimately show ?thesis using False by (simp add: entries_of_unarmed)
qed

lemma remove_timer_spec:
  assumes inv: "tq_inv {t} q ts" and t: "t \<in> set ts" and ops: "ops_q (tdata q t) = []"
    and q': "q' = remove_timer q t"
  shows "tq_inv {} q' (remove1 t ts)" "mset (heap q') = mset (heap q) - entries_of q t"
    "heap_timers q' = heap_timers q - {t}" "ops_q (tdata q' u) = ops_q (tdata q u)"
proof -
  define q1 where "q1 = remove_from_heap q t"
  note r = remove_from_heap_inv [OF inv t q1_def]
  obtain us vs where ts: "ts = us @ t # vs" by (metis t split_list)
  have dist: "distinct ts" using inv by (simp add: tq_inv_def active_def)
  have links: "next_t (tdata q1 u) = next_t (tdata q u) \<and> prev_t (tdata q1 u) = prev_t (tdata q u)"
    "ops_q (tdata q1 u) = ops_q (tdata q u)" for u
  proof -
    obtain j where "tdata q1 u = (tdata q u)\<lparr>heap_index := j\<rparr>" using r by blast
    then show "next_t (tdata q1 u) = next_t (tdata q u) \<and> prev_t (tdata q1 u) = prev_t (tdata q u)"
      "ops_q (tdata q1 u) = ops_q (tdata q u)" by simp_all
  qed
  have act: "active q1 (us @ t # vs)"
    using inv r links active_same_links [of ts q1 q] by (simp add: tq_inv_def ts)
  have q'1: "q' = unlink_timer q1 t" by (simp add: q' q1_def remove_timer_def)
  note un = unlink_timer_spec [OF act q'1]
  have rm: "remove1 t ts = us @ vs" using dist by (simp add: ts remove1_append)
  show h': "mset (heap q') = mset (heap q) - entries_of q t" using un(2) r by simp
  show ht: "heap_timers q' = heap_timers q - {t}" using un(2) r by (simp add: heap_timers_def)
  show "ops_q (tdata q' u) = ops_q (tdata q u)" using un(5) links by simp
  have len: "length (heap q') \<le> length (heap q)"
  proof -
    have "size (mset (heap q')) \<le> size (mset (heap q))"
      unfolding h' by (rule size_mset_mono) simp
    then show ?thesis by simp
  qed
  have heap: "tq_heap q'" using r un(2,6) by (simp add: tq_heap_def idx_ok_def keys_def)
  have fresh: "tdata q' t = new_timer_data"
    using un(3-6) r ops links by (intro per_timer_data.equality) auto
  have out: "tdata q' u = new_timer_data" if "u \<notin> set ts" for u
    using un(7) [of u] that r inv by (auto simp: ts tq_inv_def)
  have unarmed: "heap_index (tdata q' u) = size_max" if "u \<in> set ts" "u \<noteq> t" "u \<notin> heap_timers q" for u
    using un(6) [of u] r inv that by (simp add: tq_inv_def)
  show "tq_inv {} q' (remove1 t ts)"
    unfolding tq_inv_def
  proof (intro conjI ballI allI impI)
    show "active q' (remove1 t ts)" "tq_heap q'" using un(1) rm heap by simp_all
    show "heap_timers q' \<subseteq> set (remove1 t ts)" using ht inv dist by (auto simp: tq_inv_def)
    show "length (heap q') \<le> size_max" using len inv by (simp add: tq_inv_def)
    show "ops_q (tdata q' u) \<noteq> []" if "u \<in> set (remove1 t ts) - {}" for u
      using that un(5) [of u] links inv dist by (auto simp: tq_inv_def)
    show "heap_index (tdata q' u) = size_max" if "u \<in> set (remove1 t ts) - heap_timers q'" for u
      using that unarmed ht dist by auto
    show "tdata q' u = new_timer_data" if "u \<notin> set (remove1 t ts)" for u
      using that fresh out dist by (cases "u = t") auto
  qed
qed

section \<open>Expired timers\<close>

definition completed :: "error_code \<Rightarrow> wait_op list \<Rightarrow> wait_op list" where
  "completed ec xs = map (\<lambda>op. op\<lparr>wop_ec := ec\<rparr>) xs"

lemma take_ready_eq: "take_ready xs ops = ops @ completed Ok_code xs"
  by (induction xs arbitrary: ops) (auto simp: completed_def)

definition ready_ops :: "'t timer_queue \<Rightarrow> 't heap_entry list \<Rightarrow> wait_op list" where
  "ready_ops q es = concat (map (\<lambda>e. completed Ok_code (ops_q (tdata q (entry_timer e)))) es)"

definition without :: "'t heap_entry list \<Rightarrow> tid list \<Rightarrow> tid list" where
  "without es ts = filter (\<lambda>t. t \<notin> entry_timer ` set es) ts"

lemma without_Cons: "distinct ts \<Longrightarrow> without es (remove1 (entry_timer e) ts) = without (e # es) ts"
  by (simp add: without_def distinct_remove1_removeAll removeAll_filter_not_eq eq_commute conj_commute)

lemma top_is_least:
  assumes "tq_heap q" "e \<in> set (heap q)"
  shows "entry_time (heap q ! 0) \<le> entry_time e"
proof -
  have "entry_time e \<in> set (keys q)" using assms(2) by (simp add: keys_def)
  with assms have "keys q ! 0 \<le> entry_time e" by (simp add: tq_heap_def heap_ok_least_set)
  moreover have "heap q \<noteq> []" using assms(2) by auto
  ultimately show ?thesis by simp
qed

text \<open>One round of the outer loop: the earliest timer leaves with all its operations.\<close>

lemma pop_earliest:
  assumes inv: "tq_inv {} q ts" and ne: "heap q \<noteq> []" and e: "e = heap q ! 0"
    and q': "q' = remove_timer (set_ops (entry_timer e) [] q) (entry_timer e)"
  shows "tq_inv {} q' (remove1 (entry_timer e) ts)" "mset (heap q) = add_mset e (mset (heap q'))"
    "ops_q (tdata q' u) = (if u = entry_timer e then [] else ops_q (tdata q u))"
    "entry_timer e \<notin> heap_timers q'"
proof -
  let ?t = "entry_timer e" and ?q1 = "set_ops (entry_timer e) [] q"
  have idx: "idx_ok q" and tin: "?t \<in> set ts"
    using inv ne heap_timers_nth [of 0 q] by (auto simp: tq_inv_def tq_heap_def e)
  have inv1: "tq_inv {?t} ?q1 ts" using inv tin by (rule tq_inv_set_ops) auto
  note rm = remove_timer_spec [OF inv1 tin _ q']
  have "entries_of ?q1 ?t = {#e#}"
    using entries_of_armed [OF idx, of 0] ne by (simp add: entries_of_def e tq)
  then show "mset (heap q) = add_mset e (mset (heap q'))"
    using rm(2) ne nth_mem [of 0 "heap q"] by (simp add: tq e)
  show "tq_inv {} q' (remove1 ?t ts)" using rm(1) by (simp add: tq)
  show "ops_q (tdata q' u) = (if u = ?t then [] else ops_q (tdata q u))"
    using rm(4) by (simp add: tq)
  show "?t \<notin> heap_timers q'" using rm(3) by (simp add: tq)
qed

lemma get_ready_timers_correct:
  assumes "tq_inv {} q ts"
  shows "\<exists>q' es. get_ready_timers now q ops = Some (q', ops @ ready_ops q es) \<and>
    mset es = filter_mset (\<lambda>e. \<not> now < entry_time e) (mset (heap q)) \<and>
    sorted (map entry_time es) \<and>
    mset (heap q') = filter_mset (\<lambda>e. now < entry_time e) (mset (heap q)) \<and>
    tq_inv {} q' (without es ts) \<and>
    (\<forall>u. ops_q (tdata q' u) = (if u \<in> entry_timer ` set es then [] else ops_q (tdata q u)))"
  using assms
proof (induction "length (heap q)" arbitrary: q ts ops rule: less_induct)
  case less
  define e where "e = heap q ! 0"
  have heap: "tq_heap q" and dist: "distinct ts"
    using less.prems by (auto simp: tq_inv_def active_def)
  show ?case
  proof (cases "heap q \<noteq> [] \<and> \<not> now < entry_time e")
    case False
    then have "get_ready_timers now q ops = Some (q, ops)"
      by (subst get_ready_timers.simps) (auto simp: e_def)
    moreover have late: "\<And>e'. e' \<in> set (heap q) \<Longrightarrow> now < entry_time e'"
      using False top_is_least [OF heap] e_def by (cases "heap q") (auto intro: less_le_trans)
    then have "filter_mset (\<lambda>e. \<not> now < entry_time e) (mset (heap q)) = {#}"
      "filter_mset (\<lambda>e. now < entry_time e) (mset (heap q)) = mset (heap q)"
      by (auto simp: filter_mset_eq_conv)
    ultimately show ?thesis using less.prems
      by (intro exI [of _ q] exI [of _ "[]"]) (simp add: ready_ops_def without_def)
  next
    case True
    define q1 where "q1 = remove_timer (set_ops (entry_timer e) [] q) (entry_timer e)"
    have ne: "heap q \<noteq> []" using True by simp
    note pop = pop_earliest [OF less.prems ne e_def q1_def]
    define ops1 where "ops1 = ops @ completed Ok_code (ops_q (tdata q (entry_timer e)))"
    have "length (heap q1) < length (heap q)"
      using arg_cong [OF pop(2), of size] by simp
    from less.hyps [OF this pop(1), of ops1] obtain q' es where
      run: "get_ready_timers now q1 ops1 = Some (q', ops1 @ ready_ops q1 es)" and
      es: "mset es = filter_mset (\<lambda>e. \<not> now < entry_time e) (mset (heap q1))"
        "sorted (map entry_time es)" and
      q': "mset (heap q') = filter_mset (\<lambda>e. now < entry_time e) (mset (heap q1))"
        "tq_inv {} q' (without es (remove1 (entry_timer e) ts))"
        "\<forall>u. ops_q (tdata q' u) = (if u \<in> entry_timer ` set es then [] else ops_q (tdata q1 u))"
      by blast
    have in_q1: "set es \<subseteq> set (heap q1)"
      using arg_cong [OF es(1), of set_mset] by auto
    then have notin: "\<forall>e' \<in> set es. entry_timer e' \<noteq> entry_timer e"
      using pop(4) unfolding heap_timers_def by (metis imageI subsetD)
    have "set (heap q1) \<subseteq> set (heap q)" using arg_cong [OF pop(2), of set_mset] by auto
    then have "\<forall>e' \<in> set es. entry_time e \<le> entry_time e'"
      using in_q1 top_is_least [OF heap] e_def by blast
    moreover have "ready_ops q1 es = ready_ops q es"
      unfolding ready_ops_def using notin pop(3)
      by (intro arg_cong [of _ _ concat] map_cong) auto
    moreover have "get_ready_timers now q ops = get_ready_timers now q1 ops1"
      using True by (subst get_ready_timers.simps)
        (simp add: Let_def take_ready_eq ops1_def q1_def e_def)
    ultimately show ?thesis
      using run es q' pop True notin
      by (intro exI [of _ q'] exI [of _ "e # es"])
        (auto simp: ready_ops_def ops1_def without_Cons [OF dist])
  qed
qed

section \<open>Cancellation\<close>

lemma cancel_loop_eq:
  "n \<le> m \<Longrightarrow> cancel_loop xs ops n m =
     (drop (m - n) xs, ops @ completed Operation_aborted (take (m - n) xs),
      n + min (m - n) (length xs))"
proof (induction xs ops n m rule: cancel_loop.induct)
  case (2 op rest ops n m)
  show ?case
  proof (cases "n = m")
    case False
    then have "m - n = Suc (m - (n + 1))" using 2 by simp
    with False 2 show ?thesis by (simp add: completed_def)
  qed (simp add: completed_def)
qed (simp add: completed_def)

lemma cancel_key_loop_eq:
  "cancel_key_loop key xs ops other =
     (ops @ completed Operation_aborted (filter (\<lambda>op. wop_key op = key) xs),
      other @ filter (\<lambda>op. wop_key op \<noteq> key) xs)"
  by (induction key xs ops other rule: cancel_key_loop.induct) (auto simp: completed_def)

text \<open>Replacing the operations of an active timer, and removing it if none are left.\<close>

lemma replace_ops_spec:
  assumes inv: "tq_inv {} q ts" and t: "t \<in> set ts"
    and q': "q' = (if rest = [] then remove_timer (set_ops t rest q) t else set_ops t rest q)"
  shows "tq_inv {} q' (if rest = [] then remove1 t ts else ts)"
    "mset (heap q') = (if rest = [] then mset (heap q) - entries_of q t else mset (heap q))"
    "ops_q (tdata q' u) = (if u = t then rest else ops_q (tdata q u))"
proof -
  have "tq_inv {} q' (if rest = [] then remove1 t ts else ts) \<and>
    mset (heap q') = (if rest = [] then mset (heap q) - entries_of q t else mset (heap q)) \<and>
    ops_q (tdata q' u) = (if u = t then rest else ops_q (tdata q u))"
  proof (cases "rest = []")
    case True
    have "tq_inv {t} (set_ops t rest q) ts" using inv t by (rule tq_inv_set_ops) auto
    note rm = remove_timer_spec [OF this t _ refl]
    with True q' show ?thesis by (simp add: tq entries_of_def)
  next
    case False
    have "tq_inv {} (set_ops t rest q) ts" using inv t False by (intro tq_inv_set_ops) auto
    with False q' show ?thesis by (simp add: tq)
  qed
  then show "tq_inv {} q' (if rest = [] then remove1 t ts else ts)"
    "mset (heap q') = (if rest = [] then mset (heap q) - entries_of q t else mset (heap q))"
    "ops_q (tdata q' u) = (if u = t then rest else ops_q (tdata q u))" by simp_all
qed

lemma tq_inv_inactive:
  "tq_inv X q ts \<Longrightarrow> t \<notin> set ts \<Longrightarrow> ops_q (tdata q t) = [] \<and> entries_of q t = {#}"
  by (auto simp: tq_inv_def intro!: entries_of_unarmed)

lemma cancel_timer_correct:
  assumes inv: "tq_inv {} q ts" and run: "cancel_timer t ops m q = (q', ops', n)"
  defines "pending \<equiv> ops_q (tdata q t)"
  shows "n = min m (length pending)"
    "ops' = ops @ completed Operation_aborted (take m pending)"
    "ops_q (tdata q' u) = (if u = t then drop m pending else ops_q (tdata q u))"
    "tq_inv {} q' (if length pending \<le> m then remove1 t ts else ts)"
    "mset (heap q') = (if length pending \<le> m then mset (heap q) - entries_of q t else mset (heap q))"
proof -
  have "n = min m (length pending) \<and> ops' = ops @ completed Operation_aborted (take m pending) \<and>
    ops_q (tdata q' u) = (if u = t then drop m pending else ops_q (tdata q u)) \<and>
    tq_inv {} q' (if length pending \<le> m then remove1 t ts else ts) \<and>
    mset (heap q') = (if length pending \<le> m then mset (heap q) - entries_of q t else mset (heap q))"
  proof (cases "t \<in> set ts")
    case True
    then have l: "linked q t" using tq_inv_linked [OF inv] by simp
    note rp = replace_ops_spec [OF inv True refl, of "drop m pending"]
    show ?thesis
      using run l rp by (auto simp: cancel_timer_def cancel_loop_eq Let_def pending_def)
  next
    case False
    then have "\<not> linked q t" using tq_inv_linked [OF inv] by simp
    with run inv False tq_inv_inactive [OF inv False] show ?thesis
      by (auto simp: cancel_timer_def pending_def completed_def remove1_idem)
  qed
  then show "n = min m (length pending)"
    "ops' = ops @ completed Operation_aborted (take m pending)"
    "ops_q (tdata q' u) = (if u = t then drop m pending else ops_q (tdata q u))"
    "tq_inv {} q' (if length pending \<le> m then remove1 t ts else ts)"
    "mset (heap q') = (if length pending \<le> m then mset (heap q) - entries_of q t else mset (heap q))"
    by blast+
qed

lemma cancel_timer_by_key_correct:
  assumes inv: "tq_inv {} q ts" and run: "cancel_timer_by_key t ops key q = (q', ops')"
  defines "kept \<equiv> filter (\<lambda>op. wop_key op \<noteq> key) (ops_q (tdata q t))"
  shows "ops' = ops @ completed Operation_aborted
      (filter (\<lambda>op. wop_key op = key) (ops_q (tdata q t)))"
    "ops_q (tdata q' u) = (if u = t then kept else ops_q (tdata q u))"
    "tq_inv {} q' (if kept = [] then remove1 t ts else ts)"
    "mset (heap q') \<subseteq># mset (heap q)"
proof -
  have "ops' = ops @ completed Operation_aborted
      (filter (\<lambda>op. wop_key op = key) (ops_q (tdata q t))) \<and>
    ops_q (tdata q' u) = (if u = t then kept else ops_q (tdata q u)) \<and>
    tq_inv {} q' (if kept = [] then remove1 t ts else ts) \<and> mset (heap q') \<subseteq># mset (heap q)"
  proof (cases "t \<in> set ts")
    case True
    then have l: "linked q t" using tq_inv_linked [OF inv] by simp
    note rp = replace_ops_spec [OF inv True refl, of kept]
    show ?thesis
      using run l rp
      by (auto simp: cancel_timer_by_key_def cancel_key_loop_eq Let_def kept_def)
  next
    case False
    then have "\<not> linked q t" using tq_inv_linked [OF inv] by simp
    with run inv False tq_inv_inactive [OF inv False] show ?thesis
      by (auto simp: cancel_timer_by_key_def kept_def completed_def remove1_idem)
  qed
  then show "ops' = ops @ completed Operation_aborted
      (filter (\<lambda>op. wop_key op = key) (ops_q (tdata q t)))"
    "ops_q (tdata q' u) = (if u = t then kept else ops_q (tdata q u))"
    "tq_inv {} q' (if kept = [] then remove1 t ts else ts)" "mset (heap q') \<subseteq># mset (heap q)" by blast+
qed

section \<open>Shutdown: taking every operation\<close>

lemma get_all_loop_correct:
  assumes "dseg (tdata q) None (timers q) ts None" "distinct ts"
  shows "\<exists>q'. get_all_loop q ops = Some (q', ops @ concat (map (\<lambda>t. ops_q (tdata q t)) ts)) \<and>
    timers q' = None \<and> (\<forall>u \<in> set ts. ops_q (tdata q' u) = []) \<and>
    (\<forall>u. u \<notin> set ts \<longrightarrow> tdata q' u = tdata q u)"
proof -
  have "\<exists>q'. get_all_loop q ops = Some (q', ops @ concat (map (\<lambda>t. ops_q (tdata q t)) ts)) \<and>
    timers q' = None \<and> (\<forall>u \<in> set ts. ops_q (tdata q' u) = []) \<and>
    (\<forall>u. u \<notin> set ts \<longrightarrow> tdata q' u = tdata q u)"
    if "dseg (tdata q) pr (timers q) ts None" "distinct ts" for q :: "'a timer_queue" and ops pr
    using that
  proof (induction ts arbitrary: q ops pr)
    case Nil
    then show ?case by (intro exI [of _ q]) (simp add: get_all_loop.simps)
  next
    case (Cons t ts)
    define q1 where "q1 = set_prev_t t None (set_next_t t None
      (set_ops t [] (q\<lparr>timers := next_t (tdata q t)\<rparr>)))"
    have d1: "tdata q1 u = (if u = t then (tdata q t)\<lparr>ops_q := [], next_t := None, prev_t := None\<rparr>
        else tdata q u)" for u
      by (simp add: q1_def tq)
    have "timers q1 = next_t (tdata q t)" by (simp add: q1_def tq)
    moreover have "dseg (tdata q1) (Some t) p ts None = dseg (tdata q) (Some t) p ts None" for p
      using Cons.prems(2) by (intro dseg_cong) (auto simp: d1)
    ultimately have "dseg (tdata q1) (Some t) (timers q1) ts None"
      using Cons.prems by simp
    from Cons.IH [OF this, of "ops @ ops_q (tdata q t)"] Cons.prems obtain q' where
      "get_all_loop q1 (ops @ ops_q (tdata q t)) =
         Some (q', (ops @ ops_q (tdata q t)) @ concat (map (\<lambda>t. ops_q (tdata q1 t)) ts))"
      "timers q' = None" "\<forall>u \<in> set ts. ops_q (tdata q' u) = []"
      "\<forall>u. u \<notin> set ts \<longrightarrow> tdata q' u = tdata q1 u" by auto
    moreover have "concat (map (\<lambda>t. ops_q (tdata q1 t)) ts) = concat (map (\<lambda>t. ops_q (tdata q t)) ts)"
      using Cons.prems(2) d1 by (intro arg_cong [of _ _ concat] map_cong) auto
    moreover have "get_all_loop q ops = get_all_loop q1 (ops @ ops_q (tdata q t))"
      using Cons.prems(1) by (subst get_all_loop.simps) (simp add: q1_def Let_def)
    moreover have "ops_q (tdata q1 t) = []" "\<And>u. u \<notin> set (t # ts) \<Longrightarrow> tdata q1 u = tdata q u"
      by (simp_all add: d1)
    ultimately show ?case using Cons.prems(2) by (intro exI [of _ q']) auto
  qed
  with assms show ?thesis by blast
qed

lemma get_all_timers_correct:
  assumes "tq_inv {} q ts"
  shows "\<exists>q'. get_all_timers q ops = Some (q', ops @ concat (map (\<lambda>t. ops_q (tdata q t)) ts)) \<and>
    tq_empty q' \<and> heap q' = [] \<and> (\<forall>u. ops_q (tdata q' u) = [])"
proof -
  have "active q ts" and out: "\<And>u. u \<notin> set ts \<Longrightarrow> ops_q (tdata q u) = []"
    using assms by (auto simp: tq_inv_def)
  then obtain q' where
    "get_all_loop q ops = Some (q', ops @ concat (map (\<lambda>t. ops_q (tdata q t)) ts))"
    "timers q' = None" "\<forall>u \<in> set ts. ops_q (tdata q' u) = []"
    "\<forall>u. u \<notin> set ts \<longrightarrow> tdata q' u = tdata q u"
    using get_all_loop_correct unfolding active_def by blast
  with out show ?thesis
    by (intro exI [of _ "q'\<lparr>heap := []\<rparr>"]) (auto simp: get_all_timers_def tq_empty_def)
qed

section \<open>Enqueueing\<close>

text \<open>Linking a timer that is not in the list at its head.\<close>

lemma link_front:
  assumes act: "active qa ts" and t: "t \<notin> set ts"
    and q1: "q1 = (on_timer (timers qa) (\<lambda>p. set_prev_t p (Some t))
      (set_prev_t t None (set_next_t t (timers qa) qa)))\<lparr>timers := Some t\<rparr>"
  shows "active q1 (t # ts)" "heap q1 = heap qa" "ops_q (tdata q1 u) = ops_q (tdata qa u)"
    "heap_index (tdata q1 u) = heap_index (tdata qa u)"
    "u \<notin> set (t # ts) \<Longrightarrow> tdata q1 u = tdata qa u"
proof -
  have p: "timers qa = (if ts = [] then None else Some (hd ts))"
    using act by (cases ts) (auto simp: active_def)
  have tp: "timers qa \<noteq> Some t" using t by (auto simp: p)
  have d1: "tdata q1 v = (if v = t then (tdata qa t)\<lparr>next_t := timers qa, prev_t := None\<rparr>
      else if timers qa = Some v then (tdata qa v)\<lparr>prev_t := Some t\<rparr> else tdata qa v)" for v
    using tp by (simp add: q1 tq)
  show "heap q1 = heap qa" by (simp add: q1 tq)
  show "ops_q (tdata q1 u) = ops_q (tdata qa u)"
    "heap_index (tdata q1 u) = heap_index (tdata qa u)" by (simp_all add: d1)
  have "dseg (tdata q1) (Some t) (timers qa) ts None"
  proof (cases "ts = []")
    case False
    show ?thesis
    proof (rule dseg_new_start)
      show "dseg (tdata qa) None (timers qa) ts None" "distinct ts" "ts \<noteq> []"
        using act False by (simp_all add: active_def)
      show "next_t (tdata q1 x) = next_t (tdata qa x) \<and>
          prev_t (tdata q1 x) = (if x = hd ts then Some t else prev_t (tdata qa x))"
        if "x \<in> set ts" for x
        using that t False by (auto simp: d1 p)
    qed
  qed (simp add: p)
  then show "active q1 (t # ts)" using act t by (simp add: active_def d1) (simp add: q1)
  assume "u \<notin> set (t # ts)"
  then show "tdata q1 u = tdata qa u" by (auto simp: d1 p dest: hd_in_set split: if_splits)
qed

text \<open>The heap entry \<open>enqueue_timer\<close> adds, if any.\<close>

definition new_entry :: "('t \<Rightarrow> bool) \<Rightarrow> 't \<Rightarrow> tid \<Rightarrow> 't heap_entry multiset" where
  "new_entry is_inf tm t =
     (if is_inf tm then {#} else {#\<lparr>entry_time = tm, entry_timer = t\<rparr>#})"

definition arm_timer :: "('t \<Rightarrow> bool) \<Rightarrow> 't \<Rightarrow> tid \<Rightarrow> ('t::linorder) timer_queue \<Rightarrow> 't timer_queue" where
  "arm_timer is_inf tm t q =
     (if is_inf tm then set_index t size_max q
      else (let qb = set_index t (length (heap q)) q;
                qc = qb\<lparr>heap := heap qb @ [\<lparr>entry_time = tm, entry_timer = t\<rparr>]\<rparr>
            in up_heap qc (length (heap qc) - 1)))"

lemma arm_timer_spec:
  assumes inv: "tq_inv {} q ts" and t: "t \<notin> set ts" and qa: "qa = arm_timer is_inf tm t q"
  shows "tq_heap qa" "mset (heap qa) = mset (heap q) + new_entry is_inf tm t" "timers qa = timers q"
    "\<exists>j. tdata qa u = (tdata q u)\<lparr>heap_index := j\<rparr>"
    "u \<notin> insert t (heap_timers q) \<Longrightarrow> tdata qa u = tdata q u"
    "t \<notin> heap_timers qa \<Longrightarrow> heap_index (tdata qa t) = size_max"
proof -
  have h: "tq_heap q" "t \<notin> heap_timers q" using inv t by (auto simp: tq_inv_def)
  have "tq_heap qa \<and> mset (heap qa) = mset (heap q) + new_entry is_inf tm t \<and>
    timers qa = timers q \<and> (\<exists>j. tdata qa u = (tdata q u)\<lparr>heap_index := j\<rparr>) \<and>
    (u \<notin> insert t (heap_timers q) \<longrightarrow> tdata qa u = tdata q u) \<and>
    (t \<notin> heap_timers qa \<longrightarrow> heap_index (tdata qa t) = size_max)"
  proof (cases "is_inf tm")
    case True
    have "idx_ok (set_index t size_max q) = idx_ok q"
      using h heap_timers_nth [of _ q] by (auto simp: idx_ok_def tq)
    with True h show ?thesis
      by (auto simp: qa arm_timer_def new_entry_def tq tq_heap_def keys_def)
  next
    case False
    define qb where "qb = set_index t (length (heap q)) q"
    define qc where "qc = qb\<lparr>heap := heap qb @ [\<lparr>entry_time = tm, entry_timer = t\<rparr>]\<rparr>"
    have qa': "qa = up_heap qc (length (heap qc) - 1)"
      using False by (simp add: qa arm_timer_def qb_def qc_def Let_def)
    note push = push_heap [OF h qb_def qc_def qa']
    have c: "tdata qc v = (if v = t then (tdata q t)\<lparr>heap_index := length (heap q)\<rparr> else tdata q v)"
      "timers qc = timers q" "heap_timers qc = insert t (heap_timers q)" for v
      by (auto simp: qc_def qb_def tq heap_timers_def)
    have "\<exists>j. tdata qa u = (tdata qc u)\<lparr>heap_index := j\<rparr>"
      "u \<notin> heap_timers qc \<longrightarrow> tdata qa u = tdata qc u" "timers qa = timers qc"
      using push(2) unfolding reheap_def by blast+
    moreover have "\<exists>j. tdata qc u = (tdata q u)\<lparr>heap_index := j\<rparr>" by (auto simp: c)
    moreover have "t \<in> heap_timers qa" using reheap_heap_timers [OF push(2)] c by simp
    ultimately show ?thesis using False push(1,3) c by (auto simp: new_entry_def)
  qed
  then show "tq_heap qa" "mset (heap qa) = mset (heap q) + new_entry is_inf tm t" "timers qa = timers q"
    "\<exists>j. tdata qa u = (tdata q u)\<lparr>heap_index := j\<rparr>"
    "u \<notin> insert t (heap_timers q) \<Longrightarrow> tdata qa u = tdata q u"
    "t \<notin> heap_timers qa \<Longrightarrow> heap_index (tdata qa t) = size_max" by blast+
qed

lemma heap_timers_mset: "heap_timers q = entry_timer ` set_mset (mset (heap q))"
  by (simp add: heap_timers_def)

lemma index_zero_iff:
  assumes "tq_heap q" "t \<notin> heap_timers q \<Longrightarrow> heap_index (tdata q t) = size_max"
  shows "heap_index (tdata q t) = 0 \<longleftrightarrow> heap q \<noteq> [] \<and> entry_timer (heap q ! 0) = t"
proof (cases "t \<in> heap_timers q")
  case True
  then obtain i where i: "i < length (heap q)" "entry_timer (heap q ! i) = t" by (rule heap_timersE)
  then have "heap_index (tdata q t) = i" using assms(1) by (auto simp: tq_heap_def idx_ok_def)
  moreover have "entry_timer (heap q ! 0) = t \<longleftrightarrow> i = 0"
    using i assms(1) idx_ok_inj [of q 0 i] by (fastforce simp: tq_heap_def)
  ultimately show ?thesis using i by auto
next
  case False
  then have "heap q \<noteq> [] \<Longrightarrow> entry_timer (heap q ! 0) \<noteq> t" using heap_timers_nth [of 0 q] by auto
  with False assms show ?thesis by auto
qed

lemma enqueue_timer_correct:
  assumes inv: "tq_inv {} q ts" and room: "length (heap q) < size_max"
    and run: "enqueue_timer is_inf tm t op q = (q', earliest)"
  shows "tq_inv {} q' (if t \<in> set ts then ts else t # ts)"
    "mset (heap q') = mset (heap q) + (if t \<in> set ts then {#} else new_entry is_inf tm t)"
    "ops_q (tdata q' u) = (if u = t then ops_q (tdata q t) @ [op] else ops_q (tdata q u))"
    "earliest \<longleftrightarrow> heap q' \<noteq> [] \<and> entry_timer (heap q' ! 0) = t \<and>
       wop_id (hd (ops_q (tdata q' t))) = wop_id op"
proof -
  define qa where "qa = arm_timer is_inf tm t q"
  define q1 where "q1 = (if t \<in> set ts then q else
    (on_timer (timers qa) (\<lambda>p. set_prev_t p (Some t))
      (set_prev_t t None (set_next_t t (timers qa) qa)))\<lparr>timers := Some t\<rparr>)"
  have q': "q' = set_ops t (ops_q (tdata q1 t) @ [op]) q1"
    and e: "earliest \<longleftrightarrow> heap_index (tdata q' t) = 0 \<and> wop_id (hd (ops_q (tdata q' t))) = wop_id op"
    using run tq_inv_linked [OF inv, of t]
    by (auto simp: enqueue_timer_def q1_def qa_def arm_timer_def Let_def tq split: if_splits)
  have main: "tq_inv {t} q1 (if t \<in> set ts then ts else t # ts) \<and>
    mset (heap q1) = mset (heap q) + (if t \<in> set ts then {#} else new_entry is_inf tm t) \<and>
    (\<forall>u. ops_q (tdata q1 u) = ops_q (tdata q u))"
  proof (cases "t \<in> set ts")
    case True
    with inv show ?thesis by (simp add: q1_def tq_inv_def)
  next
    case False
    note arm = arm_timer_spec [OF inv False qa_def]
    have lk: "next_t (tdata qa u) = next_t (tdata q u) \<and> prev_t (tdata qa u) = prev_t (tdata q u) \<and>
        ops_q (tdata qa u) = ops_q (tdata q u)" for u
      using arm(4) [of u] by auto
    have "active qa ts"
      using inv lk arm(3) active_same_links [of ts qa q] by (simp add: tq_inv_def)
    moreover have q1: "q1 = (on_timer (timers qa) (\<lambda>p. set_prev_t p (Some t))
      (set_prev_t t None (set_next_t t (timers qa) qa)))\<lparr>timers := Some t\<rparr>"
      using False by (simp add: q1_def)
    ultimately have link: "active q1 (t # ts)" "heap q1 = heap qa"
        "\<And>u. ops_q (tdata q1 u) = ops_q (tdata qa u)"
        "\<And>u. heap_index (tdata q1 u) = heap_index (tdata qa u)"
        "\<And>u. u \<notin> set (t # ts) \<Longrightarrow> tdata q1 u = tdata qa u"
      using link_front [OF _ False q1] by simp_all
    have ht: "heap_timers q1 \<subseteq> insert t (heap_timers q)" "heap_timers q \<subseteq> heap_timers q1"
      by (auto simp: heap_timers_mset link(2) arm(2) new_entry_def)
    have "tq_inv {t} q1 (t # ts)"
      unfolding tq_inv_def
    proof (intro conjI ballI allI impI)
      show "active q1 (t # ts)" by (rule link(1))
      show "tq_heap q1" using arm(1) link(2,4) by (simp add: tq_heap_def idx_ok_def keys_def)
      show "heap_timers q1 \<subseteq> set (t # ts)" using ht inv by (auto simp: tq_inv_def)
      have "size (mset (heap q1)) \<le> Suc (length (heap q))"
        unfolding link(2) arm(2) by (simp add: new_entry_def)
      then show "length (heap q1) \<le> size_max" using room by simp
      show "ops_q (tdata q1 u) \<noteq> []" if "u \<in> set (t # ts) - {t}" for u
        using that inv link(3) [of u] lk by (auto simp: tq_inv_def)
      show "heap_index (tdata q1 u) = size_max" if "u \<in> set (t # ts) - heap_timers q1" for u
      proof (cases "u = t")
        case True
        with that arm(6) show ?thesis by (simp add: link(4) heap_timers_def link(2))
      next
        case False
        have nin: "u \<notin> heap_timers q" using that ht(2) by blast
        with False arm(5) [of u] have "tdata qa u = tdata q u" by simp
        moreover have "u \<in> set ts" using that False by simp
        ultimately show ?thesis using nin inv by (simp add: link(4) tq_inv_def)
      qed
      show "tdata q1 u = new_timer_data" if "u \<notin> set (t # ts)" for u
        using that link(5) arm(5) [of u] inv ht by (auto simp: tq_inv_def)
    qed
    with False show ?thesis using link(2,3) arm(2) lk by simp
  qed
  have inv': "tq_inv {} q' (if t \<in> set ts then ts else t # ts)"
    unfolding q' using main by (intro tq_inv_set_ops [of "{t}"]) auto
  then show "tq_inv {} q' (if t \<in> set ts then ts else t # ts)" .
  show "mset (heap q') = mset (heap q) + (if t \<in> set ts then {#} else new_entry is_inf tm t)"
    "ops_q (tdata q' u) = (if u = t then ops_q (tdata q t) @ [op] else ops_q (tdata q u))"
    using main by (simp_all add: q' tq)
  have "heap_index (tdata q' t) = 0 \<longleftrightarrow> heap q' \<noteq> [] \<and> entry_timer (heap q' ! 0) = t"
    using inv' by (intro index_zero_iff) (auto simp: tq_inv_def split: if_splits)
  with e show "earliest \<longleftrightarrow> heap q' \<noteq> [] \<and> entry_timer (heap q' ! 0) = t \<and>
       wop_id (hd (ops_q (tdata q' t))) = wop_id op" by blast
qed

section \<open>Moving a timer\<close>

lemma dseg_prev_within:
  "dseg d (Some b) p xs e \<Longrightarrow> y \<in> set xs \<Longrightarrow> \<exists>z \<in> insert b (set xs). prev_t (d y) = Some z"
proof (induction xs arbitrary: b p)
  case (Cons x xs)
  show ?case
  proof (cases "y = x")
    case False
    with Cons.prems have "dseg d (Some x) (next_t (d x)) xs e" "y \<in> set xs" by auto
    from Cons.IH [OF this] show ?thesis by auto
  qed (use Cons.prems in auto)
qed simp

lemma dseg_next_within:
  "dseg d pr p xs e \<Longrightarrow> x \<in> set xs \<Longrightarrow>
   next_t (d x) = e \<or> (\<exists>z \<in> set xs. next_t (d x) = Some z)"
proof (induction xs arbitrary: pr p)
  case (Cons y ys)
  show ?case
  proof (cases "x = y")
    case True
    with Cons.prems show ?thesis by (cases ys) auto
  next
    case False
    with Cons.prems have "dseg d (Some y) (next_t (d y)) ys e" "x \<in> set ys" by auto
    from Cons.IH [OF this] show ?thesis by auto
  qed
qed simp

lemma dseg_head_prev:
  assumes "dseg d (Some a) p xs e" "a \<notin> set xs" "distinct xs" "y \<in> set xs"
  shows "prev_t (d y) = Some a \<longleftrightarrow> p = Some y"
proof (cases xs)
  case (Cons b bs)
  show ?thesis
  proof (cases "y = b")
    case False
    with assms Cons have "y \<in> set bs" "dseg d (Some b) (next_t (d b)) bs e" by auto
    then obtain z where z: "z \<in> insert b (set bs)" "prev_t (d y) = Some z"
      using dseg_prev_within [of d b] by blast
    have "z \<noteq> a" using z(1) assms(2) Cons by auto
    moreover have "p = Some b" using assms(1) Cons by simp
    ultimately show ?thesis using z(2) False by simp
  qed (use assms Cons in auto)
qed (use assms in simp)

lemma dseg_next_prev:
  "dseg d pr p xs e \<Longrightarrow> distinct xs \<Longrightarrow> \<forall>z \<in> set xs. pr \<noteq> Some z \<and> e \<noteq> Some z \<Longrightarrow>
   x \<in> set xs \<Longrightarrow> y \<in> set xs \<Longrightarrow> next_t (d x) = Some y \<longleftrightarrow> prev_t (d y) = Some x"
proof (induction xs arbitrary: pr p)
  case (Cons a as)
  have seg: "dseg d (Some a) (next_t (d a)) as e" and pa: "prev_t (d a) = pr"
    using Cons.prems by auto
  have nin: "a \<notin> set as" "distinct as" using Cons.prems by auto
  show ?case
  proof (cases "x = a"; cases "y = a")
    assume "x = a" "y = a"
    moreover have "next_t (d a) \<noteq> Some a"
      using seg nin Cons.prems by (cases as) auto
    ultimately show ?thesis using pa Cons.prems by auto
  next
    assume "x = a" "y \<noteq> a"
    then show ?thesis using dseg_head_prev [OF seg nin, of y] Cons.prems by auto
  next
    assume h: "x \<noteq> a" "y = a"
    then have "next_t (d x) \<noteq> Some a"
      using dseg_next_within [OF seg, of x] Cons.prems nin by auto
    with h pa Cons.prems show ?thesis by auto
  next
    assume "x \<noteq> a" "y \<noteq> a"
    then show ?thesis using Cons.IH [OF seg nin(2)] Cons.prems by auto
  qed
qed simp

lemma dseg_rename:
  "dseg d pr p xs e \<Longrightarrow>
   (\<And>x. x \<in> set xs \<Longrightarrow> next_t (d' (f x)) = map_option f (next_t (d x)) \<and>
      prev_t (d' (f x)) = map_option f (prev_t (d x))) \<Longrightarrow>
   dseg d' (map_option f pr) (map_option f p) (map f xs) (map_option f e)"
proof (induction xs arbitrary: pr p)
  case (Cons x xs)
  from Cons.prems(1) have x: "p = Some x" "prev_t (d x) = pr"
    and "dseg d (Some x) (next_t (d x)) xs e" by auto
  then have "dseg d' (map_option f (Some x)) (map_option f (next_t (d x))) (map f xs) (map_option f e)"
    using Cons.prems(2) by (intro Cons.IH) auto
  with x Cons.prems(2) [of x] show ?case by simp
qed simp

definition renamed :: "tid \<Rightarrow> tid \<Rightarrow> tid \<Rightarrow> tid" where
  "renamed source target t = (if t = source then target else t)"

definition retarget :: "tid \<Rightarrow> tid \<Rightarrow> 't heap_entry \<Rightarrow> 't heap_entry" where
  "retarget source target e = (if entry_timer e = source then e\<lparr>entry_timer := target\<rparr> else e)"

text \<open>The data of a timer with its links renamed.\<close>

definition retarget_links :: "(tid \<Rightarrow> tid) \<Rightarrow> per_timer_data \<Rightarrow> per_timer_data" where
  "retarget_links f d = d\<lparr>next_t := map_option f (next_t d), prev_t := map_option f (prev_t d)\<rparr>"

lemma renamed_inj: "target \<notin> set ts \<Longrightarrow> inj_on (renamed source target) (set ts)"
  by (auto simp: inj_on_def renamed_def)

lemma map_retarget:
  assumes idx: "idx_ok q"
  shows "map (retarget source target) (heap q) =
     (if source \<in> heap_timers q
      then (heap q)[heap_index (tdata q source) :=
             (heap q ! heap_index (tdata q source))\<lparr>entry_timer := target\<rparr>]
      else heap q)"
proof (cases "source \<in> heap_timers q")
  case False
  then have "map (retarget source target) (heap q) = map id (heap q)"
    by (intro map_cong) (auto simp: retarget_def heap_timers_def)
  with False show ?thesis by simp
next
  case True
  then obtain i where i: "i < length (heap q)" "entry_timer (heap q ! i) = source"
    by (rule heap_timersE)
  then have si: "heap_index (tdata q source) = i" using idx by (auto simp: idx_ok_def)
  have "entry_timer (heap q ! j) = source \<longleftrightarrow> j = i" if "j < length (heap q)" for j
    using idx_ok_inj [OF idx that i(1)] i(2) by auto
  then have "map (retarget source target) (heap q) =
      (heap q)[i := (heap q ! i)\<lparr>entry_timer := target\<rparr>]"
    by (intro nth_equalityI) (auto simp: retarget_def nth_list_update)
  with True si show ?thesis by simp
qed

lemma move_timer_spec:
  assumes inv: "tq_inv {} q ts" and src: "source \<in> set ts" and tgt: "target \<notin> set ts"
    and q': "q' = move_timer target source q"
  shows "tdata q' v = (if v = source then new_timer_data
      else retarget_links (renamed source target) (tdata q (if v = target then source else v)))"
    "timers q' = map_option (renamed source target) (timers q)"
    "heap q' = map (retarget source target) (heap q)"
proof -
  let ?d = "tdata q" and ?f = "renamed source target"
  have seg: "dseg ?d None (timers q) ts None" and dist: "distinct ts"
    using inv by (auto simp: tq_inv_def active_def)
  have td: "?d target = new_timer_data" using inv tgt by (simp add: tq_inv_def)
  have st: "source \<noteq> target" using src tgt by auto
  have np: "next_t (?d x) = Some y \<longleftrightarrow> prev_t (?d y) = Some x" if "x \<in> set ts" "y \<in> set ts" for x y
    using dseg_next_prev [OF seg dist _ that] by simp
  have nxt: "next_t (?d x) = None \<or> (\<exists>z \<in> set ts. next_t (?d x) = Some z)" if "x \<in> set ts" for x
    using dseg_next_within [OF seg that] .
  have prv: "prev_t (?d x) = None \<or> (\<exists>z \<in> set ts. prev_t (?d x) = Some z)" if "x \<in> set ts" for x
  proof (cases ts)
    case (Cons a as)
    show ?thesis
    proof (cases "x = a")
      case False
      with that seg Cons have "dseg ?d (Some a) (next_t (?d a)) as None" "x \<in> set as" by auto
      then show ?thesis using dseg_prev_within [of ?d a] Cons by simp
    qed (use seg Cons in simp)
  qed (use that in simp)
  have out: "?d x = new_timer_data" if "x \<notin> set ts" for x using inv that by (simp add: tq_inv_def)
  have nf: "(if prev_t (?d source) = Some v then Some target else next_t (?d v)) = map_option ?f (next_t (?d v))"
    if "v \<noteq> source" for v
  proof (cases "v \<in> set ts")
    case True
    then show ?thesis using np [OF True src] nxt [OF True] by (auto simp: renamed_def)
  next
    case False
    with prv [OF src] show ?thesis by (auto simp: out [OF False])
  qed
  have pf: "(if next_t (?d source) = Some v then Some target else prev_t (?d v)) = map_option ?f (prev_t (?d v))"
    if "v \<noteq> source" for v
  proof (cases "v \<in> set ts")
    case True
    then show ?thesis using np [OF src True] prv [OF True] by (auto simp: renamed_def)
  next
    case False
    with nxt [OF src] show ?thesis by (auto simp: out [OF False])
  qed
  have self: "next_t (?d source) \<noteq> Some source" "prev_t (?d source) \<noteq> Some source"
    "next_t (?d source) \<noteq> Some target" "prev_t (?d source) \<noteq> Some target"
  proof -
    from src obtain us vs where ts: "ts = us @ source # vs" by (auto simp: in_set_conv_decomp)
    then have segs: "prev_t (?d source) = end_of None us" "dseg ?d (Some source) (next_t (?d source)) vs None"
      using seg by (auto simp: dseg_append)
    show "prev_t (?d source) \<noteq> Some source" "prev_t (?d source) \<noteq> Some target"
      using segs(1) dist tgt ts by (auto simp: end_of_def dest: last_in_set)
    show "next_t (?d source) \<noteq> Some source" "next_t (?d source) \<noteq> Some target"
      using segs(2) dist tgt ts by (cases vs, auto)+
  qed
  show "timers q' = map_option ?f (timers q)"
    by (cases "timers q") (auto simp: q' move_timer_def Let_def tq renamed_def)
  have "heap q' = (if heap_index (?d source) < length (heap q)
      then (heap q)[heap_index (?d source) := (heap q ! heap_index (?d source))\<lparr>entry_timer := target\<rparr>]
      else heap q)"
    using st by (simp add: q' move_timer_def Let_def tq)
  moreover have "heap_index (?d source) < length (heap q) \<longleftrightarrow> source \<in> heap_timers q"
  proof (cases "source \<in> heap_timers q")
    case True
    then obtain i where "i < length (heap q)" "entry_timer (heap q ! i) = source" by (rule heap_timersE)
    then show ?thesis using inv True by (auto simp: tq_inv_def tq_heap_def idx_ok_def)
  next
    case False
    with inv src have "heap_index (?d source) = size_max" "length (heap q) \<le> size_max"
      by (auto simp: tq_inv_def)
    with False show ?thesis by simp
  qed
  moreover have "idx_ok q" using inv by (simp add: tq_inv_def tq_heap_def)
  ultimately show "heap q' = map (retarget source target) (heap q)"
    by (simp add: map_retarget)
  have td': "tdata q' v = (if v = source then new_timer_data
      else if v = target then (?d source)\<lparr>ops_q := ops_q (?d source)\<rparr>
      else (?d v)\<lparr>next_t := (if prev_t (?d source) = Some v then Some target else next_t (?d v)),
                prev_t := (if next_t (?d source) = Some v then Some target else prev_t (?d v))\<rparr>)"
  proof -
    consider "v = source" | "v = target" "v \<noteq> source" | "v \<noteq> source" "v \<noteq> target" by blast
    then show ?thesis
      by cases (use st self td in \<open>simp_all add: q' move_timer_def Let_def tq new_timer_data_def\<close>)
  qed
  have "map_option ?f (next_t (?d source)) = next_t (?d source)"
    "map_option ?f (prev_t (?d source)) = prev_t (?d source)"
    using self by (auto intro!: option.map_ident_strong simp: renamed_def)
  then show "tdata q' v = (if v = source then new_timer_data
      else retarget_links ?f (tdata q (if v = target then source else v)))"
    using td' nf pf by (simp add: retarget_links_def)
qed

lemma move_timer_correct:
  assumes inv: "tq_inv {} q ts" and src: "source \<in> set ts" and tgt: "target \<notin> set ts"
    and q': "q' = move_timer target source q"
  shows "tq_inv {} q' (map (renamed source target) ts)"
    "heap q' = map (retarget source target) (heap q)"
    "ops_q (tdata q' u) = (if u = target then ops_q (tdata q source)
       else if u = source then [] else ops_q (tdata q u))"
proof -
  let ?f = "renamed source target"
  note spec = move_timer_spec [OF assms]
  show h: "heap q' = map (retarget source target) (heap q)" by (rule spec(3))
  have st: "source \<noteq> target" using src tgt by auto
  have out: "tdata q x = new_timer_data" if "x \<notin> set ts" for x using inv that by (simp add: tq_inv_def)
  have d': "tdata q' (?f x) = retarget_links ?f (tdata q x)" if "x \<in> set ts" for x
    using spec(1) [of "?f x"] that st tgt by (auto simp: renamed_def)
  have o': "tdata q' x = new_timer_data" if "x \<notin> ?f ` set ts" for x
  proof (cases "x = source")
    case False
    have "x \<noteq> target" using that src by (auto simp: renamed_def)
    moreover have "x \<notin> set ts"
    proof
      assume "x \<in> set ts"
      then have "?f x \<in> ?f ` set ts" by simp
      with that False show False by (simp add: renamed_def)
    qed
    ultimately show ?thesis using spec(1) [of x] False out [of x] by (simp add: retarget_links_def)
  qed (simp add: spec(1))
  show "ops_q (tdata q' u) = (if u = target then ops_q (tdata q source)
       else if u = source then [] else ops_q (tdata q u))"
    using st by (simp add: spec(1) retarget_links_def)
  have "dseg (tdata q) None (timers q) ts None" and dist: "distinct ts"
    using inv by (auto simp: tq_inv_def active_def)
  then have "dseg (tdata q') (map_option ?f None) (map_option ?f (timers q)) (map ?f ts) (map_option ?f None)"
    by (intro dseg_rename) (simp_all add: d' retarget_links_def)
  moreover have "distinct (map ?f ts)"
    using dist renamed_inj [OF tgt] by (simp add: distinct_map)
  ultimately have act: "active q' (map ?f ts)" by (simp add: active_def spec(2))
  have et: "entry_timer (retarget source target e) = ?f (entry_timer e)"
    "entry_time (retarget source target e) = entry_time e" for e :: "'a heap_entry"
    by (simp_all add: retarget_def renamed_def)
  have ht: "heap_timers q' = ?f ` heap_timers q"
    by (simp add: heap_timers_def h image_image et)
  have sub: "heap_timers q \<subseteq> set ts" using inv by (simp add: tq_inv_def)
  have "tq_heap q'"
  proof -
    have "keys q' = keys q" by (simp add: keys_def h et o_def)
    moreover have "idx_ok q'"
      unfolding idx_ok_def
    proof (intro allI impI)
      fix i assume "i < length (heap q')"
      then have i: "i < length (heap q)" by (simp add: h)
      then have "entry_timer (heap q ! i) \<in> set ts" using sub heap_timers_nth [OF i] by auto
      then show "heap_index (tdata q' (entry_timer (heap q' ! i))) = i"
        using i inv by (simp add: h et d' retarget_links_def tq_inv_def tq_heap_def idx_ok_def)
    qed
    ultimately show ?thesis using inv by (simp add: tq_inv_def tq_heap_def)
  qed
  moreover have "ops_q (tdata q' t) \<noteq> []" if "t \<in> ?f ` set ts" for t
    using that d' inv by (auto simp: retarget_links_def tq_inv_def)
  moreover have "heap_index (tdata q' t) = size_max" if "t \<in> ?f ` set ts - ?f ` heap_timers q" for t
    using that d' inv by (auto simp: retarget_links_def tq_inv_def)
  ultimately show "tq_inv {} q' (map ?f ts)"
    using act sub o' inv by (auto simp: tq_inv_def ht h)
qed

end
