(* ===== verification/TimerQueueProps.thy ===== *)
theory TimerQueueProps
  imports TimerQueueCorrect
begin

text \<open>
  The timer queue as a state machine: \<open>tq_step\<close> is one call of a member function by a
  service that respects the documented preconditions (a timer is only moved onto an empty
  one, the heap does not outgrow \<open>size_t\<close>), \<open>tq_reachable\<close> the queues a program can reach.
  The theorems state what each operation does on a reachable queue. \<open>get_all_timers\<close> is the
  shutdown operation: it is a final step, since it leaves stale heap positions behind.
\<close>

section \<open>Reachable queues\<close>

inductive tq_step ::
  "('t \<Rightarrow> bool) \<Rightarrow> ('t::linorder) timer_queue \<Rightarrow> 't timer_queue \<Rightarrow> bool" for is_inf
where
  enq: "length (heap q) < size_max \<Longrightarrow> enqueue_timer is_inf tm t op q = (q', earliest) \<Longrightarrow>
    tq_step is_inf q q'"
| ready: "get_ready_timers now q ops = Some (q', ops') \<Longrightarrow> tq_step is_inf q q'"
| cancel: "cancel_timer t ops m q = (q', ops', n) \<Longrightarrow> tq_step is_inf q q'"
| cancel_key: "cancel_timer_by_key t ops key q = (q', ops') \<Longrightarrow> tq_step is_inf q q'"
| move: "source \<noteq> target \<Longrightarrow> \<not> linked q target \<Longrightarrow> tq_step is_inf q (move_timer target source q)"

inductive tq_reachable :: "('t \<Rightarrow> bool) \<Rightarrow> ('t::linorder) timer_queue \<Rightarrow> bool" for is_inf where
  start: "tq_reachable is_inf new_timer_queue"
| step: "tq_reachable is_inf q \<Longrightarrow> tq_step is_inf q q' \<Longrightarrow> tq_reachable is_inf q'"

inductive_cases tq_stepE: "tq_step is_inf q q'"

lemma move_unlinked:
  assumes inv: "tq_inv {} q ts" and "source \<notin> set ts" "target \<notin> set ts" "source \<noteq> target"
  shows "move_timer target source q = q"
proof -
  have d: "tdata q source = new_timer_data" "tdata q target = new_timer_data"
    and len: "\<not> size_max < length (heap q)"
    using assms by (auto simp: tq_inv_def)
  have "\<not> linked q source" using inv assms(2) tq_inv_linked by blast
  then have tm: "timers q \<noteq> Some source" by (simp add: linked_def)
  have "tdata (move_timer target source q) u = tdata q u" for u
    using d tm len assms(4) by (cases "u = source"; cases "u = target")
      (simp_all add: move_timer_def Let_def tq new_timer_data_def)
  then have "tdata (move_timer target source q) = tdata q" by (rule ext)
  moreover have "timers (move_timer target source q) = timers q"
    "heap (move_timer target source q) = heap q"
    using d tm len assms(4) by (simp_all add: move_timer_def Let_def tq)
  ultimately show ?thesis by simp
qed

lemma tq_step_inv:
  assumes "tq_step is_inf q q'" "tq_inv {} q ts"
  shows "\<exists>ts'. tq_inv {} q' ts'"
  using assms(1)
proof (cases rule: tq_step.cases)
  case (enq tm t op earliest)
  then show ?thesis using enqueue_timer_correct(1) [OF assms(2)] by blast
next
  case (ready now ops ops')
  with get_ready_timers_correct [OF assms(2), of now ops] show ?thesis by force
next
  case (cancel t ops m ops' n)
  then show ?thesis using cancel_timer_correct(4) [OF assms(2)] by blast
next
  case (cancel_key t ops key ops')
  then show ?thesis using cancel_timer_by_key_correct(3) [OF assms(2)] by blast
next
  case (move source target)
  then have "target \<notin> set ts" using tq_inv_linked [OF assms(2)] by simp
  then show ?thesis
    using move_timer_correct(1) [OF assms(2) _ _ refl, of source target]
      move_unlinked [OF assms(2), of source target] move assms(2)
    by (cases "source \<in> set ts") auto
qed

lemma tq_reachable_inv: "tq_reachable is_inf q \<Longrightarrow> \<exists>ts. tq_inv {} q ts"
proof (induction rule: tq_reachable.induct)
  case start
  then show ?case using tq_inv_new by blast
next
  case (step q q')
  then show ?case using tq_step_inv by blast
qed

lemma reachableE:
  assumes "tq_reachable is_inf q"
  obtains ts where "tq_inv {} q ts"
  using tq_reachable_inv [OF assms] by blast

text \<open>A queue with two armed timers, for the witnesses.\<close>

definition demo_op :: "nat \<Rightarrow> nat option \<Rightarrow> wait_op" where
  "demo_op n key = \<lparr>wop_id = n, wop_ec = Would_block, wop_key = key\<rparr>"

definition demo_queue :: "int timer_queue" where
  "demo_queue =
     fst (enqueue_timer (\<lambda>_. False) 3 1 (demo_op 10 (Some 7))
       (fst (enqueue_timer (\<lambda>_. False) 5 2 (demo_op 20 None) new_timer_queue)))"

lemmas demo_defs =
  demo_queue_def new_timer_queue_def enqueue_timer_def linked_def on_timer_def swap_heap_def
  set_index_def set_ops_def set_next_t_def set_prev_t_def up_heap.simps Let_def
  new_timer_data_def

lemma demo_reachable: "tq_reachable (\<lambda>_. False) demo_queue"
proof -
  let ?q1 = "fst (enqueue_timer (\<lambda>_. False) 5 2 (demo_op 20 None) (new_timer_queue :: int timer_queue))"
  have "tq_step (\<lambda>_. False) new_timer_queue ?q1"
    by (rule enq [OF _ prod.collapse [symmetric]]) (simp add: new_timer_queue_def)
  then have q1: "tq_reachable (\<lambda>_. False) ?q1" by (rule tq_reachable.step [OF start])
  have "heap ?q1 = [\<lparr>entry_time = 5, entry_timer = 2\<rparr>]" by (simp add: demo_defs)
  then have "tq_step (\<lambda>_. False) ?q1 demo_queue"
    unfolding demo_queue_def
    by (intro enq [OF _ prod.collapse [symmetric]]) (simp add: size_max_def)
  with q1 show ?thesis by (rule tq_reachable.step)
qed


lemma demo_values:
  "heap demo_queue = [\<lparr>entry_time = 3, entry_timer = 1\<rparr>, \<lparr>entry_time = 5, entry_timer = 2\<rparr>]"
  "ops_q (tdata demo_queue 1) = [demo_op 10 (Some 7)]"
  "ops_q (tdata demo_queue 2) = [demo_op 20 None]"
  "linked demo_queue 1" "linked demo_queue 2" "\<not> linked demo_queue 3"
  by (simp_all add: demo_defs)


lemmas demo_values_Suc = demo_values demo_values [unfolded One_nat_def]

section \<open>Properties\<close>

text \<open>C8: On every queue reachable by calls of \<open>enqueue_timer\<close>, \<open>get_ready_timers\<close>,
  \<open>cancel_timer\<close>, \<open>cancel_timer_by_key\<close> and \<open>move_timer\<close>, the list from \<open>timers_\<close> is a
  well-formed doubly linked list of exactly the timers with a pending operation, \<open>heap_\<close> is a
  binary min-heap whose entries belong to those timers, every armed timer's \<open>heap_index_\<close> is
  its position, and every other timer is as freshly constructed.\<close>

theorem tq_invariant:
  assumes "tq_reachable is_inf q"
  shows "\<exists>ts. dseg (tdata q) None (timers q) ts None \<and> distinct ts \<and>
    heap_ok (map entry_time (heap q)) \<and> entry_timer ` set (heap q) \<subseteq> set ts \<and>
    (\<forall>i < length (heap q). heap_index (tdata q (entry_timer (heap q ! i))) = i) \<and>
    (\<forall>t. t \<in> set ts \<longleftrightarrow> ops_q (tdata q t) \<noteq> []) \<and>
    (\<forall>t. t \<notin> set ts \<longrightarrow> tdata q t = new_timer_data)"
proof -
  from assms obtain ts where "tq_inv {} q ts" by (rule reachableE)
  then show ?thesis
    by (intro exI [of _ ts])
      (auto simp: tq_inv_def active_def tq_heap_def idx_ok_def keys_def heap_timers_def)
qed

theorem tq_invariant_witness:
  "\<exists>ts. dseg (tdata demo_queue) None (timers demo_queue) ts None \<and> distinct ts"
  using tq_invariant [OF demo_reachable] by auto

text \<open>C14: \<open>get_ready_timers\<close> terminates; it appends the operations of exactly the timers whose
  expiry is not after \<open>now\<close>, each completed with success, in the order of their expiries and,
  within a timer, in the order they were enqueued; those timers leave the heap and have no
  operation left, and all others keep theirs.\<close>

theorem tq_ready_timers:
  assumes "tq_reachable is_inf q"
  shows "\<exists>q' es. get_ready_timers now q ops =
      Some (q', ops @ concat (map (\<lambda>e. completed Ok_code (ops_q (tdata q (entry_timer e)))) es)) \<and>
    mset es = filter_mset (\<lambda>e. entry_time e \<le> now) (mset (heap q)) \<and>
    sorted (map entry_time es) \<and>
    mset (heap q') = filter_mset (\<lambda>e. now < entry_time e) (mset (heap q)) \<and>
    (\<forall>u. ops_q (tdata q' u) = (if u \<in> entry_timer ` set es then [] else ops_q (tdata q u)))"
proof -
  from assms obtain ts where "tq_inv {} q ts" by (rule reachableE)
  from get_ready_timers_correct [OF this, of now ops] show ?thesis
    unfolding ready_ops_def not_less by blast
qed

theorem tq_ready_timers_witness:
  "\<exists>q' es. get_ready_timers 4 demo_queue [] = Some (q', concat (map (\<lambda>e.
      completed Ok_code (ops_q (tdata demo_queue (entry_timer e)))) es)) \<and>
    mset es = {#\<lparr>entry_time = 3, entry_timer = 1\<rparr>#}"
  using tq_ready_timers [OF demo_reachable, of 4 "[]"] by (auto simp: demo_values_Suc)

text \<open>\<open>enqueue_timer\<close> appends the operation to the timer's queue and touches no other
  timer's operations; a timer that was idle gets one heap entry with its expiry (none for an
  infinite one), an active timer none; the result is true exactly if the timer is now the
  earliest of the heap and the operation the first of its queue, so that the reactor's wait
  has to be shortened.\<close>

theorem tq_enqueue:
  assumes "tq_reachable is_inf q" "length (heap q) < size_max"
    and "enqueue_timer is_inf tm t op q = (q', earliest)"
  shows "ops_q (tdata q' u) = (if u = t then ops_q (tdata q t) @ [op] else ops_q (tdata q u)) \<and>
    mset (heap q') = mset (heap q) + (if linked q t \<or> is_inf tm then {#}
      else {#\<lparr>entry_time = tm, entry_timer = t\<rparr>#}) \<and>
    (earliest \<longleftrightarrow> heap q' \<noteq> [] \<and> entry_timer (heap q' ! 0) = t \<and>
       wop_id (hd (ops_q (tdata q' t))) = wop_id op)"
proof -
  from assms(1) obtain ts where inv: "tq_inv {} q ts" by (rule reachableE)
  note e = enqueue_timer_correct [OF inv assms(2,3)]
  have "(if t \<in> set ts then {#} else new_entry is_inf tm t) =
      (if linked q t \<or> is_inf tm then {#} else {#\<lparr>entry_time = tm, entry_timer = t\<rparr>#})"
    using tq_inv_linked [OF inv, of t] by (simp add: new_entry_def)
  with e(2,3,4) show ?thesis by simp
qed

theorem tq_enqueue_witness:
  "\<exists>q' e. enqueue_timer (\<lambda>_. False) 1 4 (demo_op 30 None) demo_queue = (q', e) \<and>
     mset (heap q') = mset (heap demo_queue) + {#\<lparr>entry_time = 1, entry_timer = 4\<rparr>#}"
proof -
  obtain q' e where r: "enqueue_timer (\<lambda>_. False) 1 4 (demo_op 30 None) demo_queue = (q', e)"
    by fastforce
  have "length (heap demo_queue) < size_max" by (simp add: demo_values_Suc size_max_def)
  from tq_enqueue [OF demo_reachable this r] have "mset (heap q') = mset (heap demo_queue) +
      (if linked demo_queue 4 \<or> False then {#} else {#\<lparr>entry_time = 1, entry_timer = 4\<rparr>#})"
    by blast
  moreover have "\<not> linked demo_queue 4" by (simp add: demo_defs)
  ultimately show ?thesis using r by simp
qed

text \<open>\<open>cancel_timer\<close> aborts the oldest \<open>max_cancelled\<close> operations of the timer and reports
  how many; the rest stay pending in order, no other timer is affected, and a timer whose
  queue runs empty loses its heap entry (and only its own).\<close>

theorem tq_cancel:
  assumes "tq_reachable is_inf q" and "cancel_timer t ops m q = (q', ops', n)"
  shows "n = min m (length (ops_q (tdata q t))) \<and>
    ops' = ops @ completed Operation_aborted (take m (ops_q (tdata q t))) \<and>
    ops_q (tdata q' u) = (if u = t then drop m (ops_q (tdata q t)) else ops_q (tdata q u)) \<and>
    mset (heap q') = filter_mset (\<lambda>e. m < length (ops_q (tdata q t)) \<or> entry_timer e \<noteq> t)
      (mset (heap q))"
proof -
  from assms(1) obtain ts where inv: "tq_inv {} q ts" by (rule reachableE)
  have "mset (heap q) - entries_of q t = filter_mset (\<lambda>e. entry_timer e \<noteq> t) (mset (heap q))"
    by (simp add: entries_of_def) (metis add_diff_cancel_left' multiset_partition)
  with cancel_timer_correct [OF inv assms(2)] show ?thesis by (auto simp: not_le)
qed

theorem tq_cancel_witness:
  "\<exists>q' ops'. cancel_timer 1 [] 5 demo_queue = (q', ops', 1) \<and>
     ops' = [(demo_op 10 (Some 7))\<lparr>wop_ec := Operation_aborted\<rparr>]"
proof -
  obtain q' ops' n where r: "cancel_timer 1 [] 5 demo_queue = (q', ops', n)"
    by (metis prod_cases3)
  from tq_cancel [OF demo_reachable r] r show ?thesis by (simp add: demo_values_Suc completed_def)
qed

text \<open>\<open>cancel_timer_by_key\<close> aborts exactly the operations of the timer that carry the
  cancellation key, in order, and keeps the others in order.\<close>

theorem tq_cancel_by_key:
  assumes "tq_reachable is_inf q" and "cancel_timer_by_key t ops key q = (q', ops')"
  shows "ops' = ops @ completed Operation_aborted
      (filter (\<lambda>op. wop_key op = key) (ops_q (tdata q t))) \<and>
    ops_q (tdata q' u) = (if u = t then filter (\<lambda>op. wop_key op \<noteq> key) (ops_q (tdata q t))
      else ops_q (tdata q u)) \<and> tq_reachable is_inf q'"
proof -
  from assms(1) obtain ts where inv: "tq_inv {} q ts" by (rule reachableE)
  moreover have "tq_reachable is_inf q'"
    using assms by (blast intro: tq_reachable.step tq_step.cancel_key)
  ultimately show ?thesis using cancel_timer_by_key_correct [OF inv assms(2)] by auto
qed

theorem tq_cancel_by_key_witness:
  "\<exists>q'. cancel_timer_by_key 1 [] (Some 8) demo_queue = (q', []) \<and>
     ops_q (tdata q' 1) = [demo_op 10 (Some 7)]"
proof -
  obtain q' ops' where r: "cancel_timer_by_key 1 [] (Some 8) demo_queue = (q', ops')" by fastforce
  from tq_cancel_by_key [OF demo_reachable r, of 1] r show ?thesis
    by (auto simp: demo_values_Suc completed_def demo_op_def)
qed

text \<open>\<open>move_timer\<close> gives an idle target timer everything the source had: its pending
  operations and its heap entry at the same expiry; the source becomes a fresh timer, every
  other timer keeps its operations, and the queue is again a reachable one.\<close>

theorem tq_move:
  assumes "tq_reachable is_inf q" "linked q source" "\<not> linked q target"
  shows "tq_reachable is_inf (move_timer target source q) \<and>
    tdata (move_timer target source q) source = new_timer_data \<and>
    ops_q (tdata (move_timer target source q) u) =
      (if u = target then ops_q (tdata q source) else if u = source then [] else ops_q (tdata q u)) \<and>
    heap (move_timer target source q) = map (\<lambda>e. if entry_timer e = source
      then e\<lparr>entry_timer := target\<rparr> else e) (heap q)"
proof -
  from assms(1) obtain ts where inv: "tq_inv {} q ts" by (rule reachableE)
  have st: "source \<in> set ts" "target \<notin> set ts"
    using assms tq_inv_linked [OF inv] by auto
  note m = move_timer_correct [OF inv st refl]
  have "source \<noteq> target" using assms(2,3) by auto
  then have "tq_reachable is_inf (move_timer target source q)"
    using assms by (blast intro: tq_reachable.step tq_step.move)
  moreover have "retarget source target = (\<lambda>e :: 'a heap_entry. if entry_timer e = source
      then e\<lparr>entry_timer := target\<rparr> else e)" by (simp add: retarget_def fun_eq_iff)
  ultimately show ?thesis
    using m(2,3) move_timer_spec(1) [OF inv st refl, of source] by simp
qed

theorem tq_move_witness:
  "ops_q (tdata (move_timer 3 1 demo_queue) 3) = [demo_op 10 (Some 7)] \<and>
   heap (move_timer 3 1 demo_queue) =
     [\<lparr>entry_time = 3, entry_timer = 3\<rparr>, \<lparr>entry_time = 5, entry_timer = 2\<rparr>]"
  using tq_move [OF demo_reachable demo_values(4,6), of 3] by (simp add: demo_values_Suc)

text \<open>\<open>get_all_timers\<close>, run at shutdown, terminates and hands over every pending operation
  of every timer, leaving an empty queue with no operation behind.\<close>

theorem tq_get_all:
  assumes "tq_reachable is_inf q"
  shows "\<exists>q' ts. get_all_timers q ops = Some (q', ops @ concat (map (\<lambda>t. ops_q (tdata q t)) ts)) \<and>
    distinct ts \<and> set ts = {t. ops_q (tdata q t) \<noteq> []} \<and>
    tq_empty q' \<and> heap q' = [] \<and> (\<forall>u. ops_q (tdata q' u) = [])"
proof -
  from assms obtain ts where inv: "tq_inv {} q ts" by (rule reachableE)
  then have "distinct ts" "set ts = {t. ops_q (tdata q t) \<noteq> []}"
    by (auto simp: tq_inv_def active_def)
  with get_all_timers_correct [OF inv, of ops] show ?thesis by blast
qed

theorem tq_get_all_witness:
  "\<exists>q' ts. get_all_timers demo_queue [] =
     Some (q', concat (map (\<lambda>t. ops_q (tdata demo_queue t)) ts)) \<and> 1 \<in> set ts"
proof -
  have "1 \<in> {t. ops_q (tdata demo_queue t) \<noteq> []}" by (simp add: demo_values_Suc)
  then show ?thesis using tq_get_all [OF demo_reachable, of "[]"] by force
qed

end
