(* ===== verification/OpQueue.thy ===== *)
theory OpQueue
  imports Prelude
begin

text \<open>
  \<open>op_queue<Operation>\<close> of \<open>include/asio/detail/op_queue.hpp\<close>: an intrusive singly linked
  FIFO. An operation is an address of type \<open>'a\<close>; the store \<open>links\<close> gives the \<open>next_\<close>
  pointer of every operation (\<open>scheduler_operation::next_\<close>), with \<open>None\<close> for the null
  pointer. The queue object holds the two pointers \<open>front_\<close> and \<open>back_\<close> (fields \<open>front_p\<close> and \<open>back_p\<close>). Every operation
  below returns the updated store next to the updated queue, because the queue writes into
  the operations themselves.

  The theory relates the pointer structure to the list of operations it holds
  (\<open>queue_rep\<close>) and shows that each member function implements the list operation; the
  locale \<open>fifo\<close> is the contract the users of the queue rely on.
\<close>

section \<open>The code\<close>

type_synonym 'a links = "'a \<Rightarrow> 'a option"

record 'a op_queue =
  front_p :: "'a option"
  back_p :: "'a option"

definition op_queue_new :: "'a op_queue" where
  "op_queue_new = \<lparr>front_p = None, back_p = None\<rparr>"

text \<open>\<open>op_queue_access::next\<close>, the reading and the writing overload.\<close>

definition next_of :: "'a links \<Rightarrow> 'a \<Rightarrow> 'a option" where
  "next_of s op = s op"

definition set_next :: "'a links \<Rightarrow> 'a \<Rightarrow> 'a option \<Rightarrow> 'a links" where
  "set_next s o1 o2 = s(o1 := o2)"

definition op_front :: "'a op_queue \<Rightarrow> 'a option" where
  "op_front q = front_p q"

definition op_pop :: "'a links \<Rightarrow> 'a op_queue \<Rightarrow> 'a links \<times> 'a op_queue" where
  "op_pop s q =
     (case front_p q of
        None \<Rightarrow> (s, q)
      | Some tmp \<Rightarrow>
          (let q1 = q\<lparr>front_p := next_of s tmp\<rparr>;
               q2 = (if front_p q1 = None then q1\<lparr>back_p := None\<rparr> else q1)
           in (set_next s tmp None, q2)))"

definition op_push :: "'a links \<Rightarrow> 'a op_queue \<Rightarrow> 'a \<Rightarrow> 'a links \<times> 'a op_queue" where
  "op_push s q h =
     (let s1 = set_next s h None
      in (case back_p q of
            Some b \<Rightarrow> (set_next s1 b (Some h), q\<lparr>back_p := Some h\<rparr>)
          | None \<Rightarrow> (s1, q\<lparr>front_p := Some h, back_p := Some h\<rparr>)))"

text \<open>
  \<open>push(op_queue& q)\<close> splices the whole of \<open>other\<close> onto the end and leaves \<open>other\<close>
  empty.
\<close>

definition op_push_queue ::
  "'a links \<Rightarrow> 'a op_queue \<Rightarrow> 'a op_queue \<Rightarrow> 'a links \<times> 'a op_queue \<times> 'a op_queue" where
  "op_push_queue s q other =
     (case front_p other of
        None \<Rightarrow> (s, q, other)
      | Some other_front \<Rightarrow>
          (let (s1, q1) =
             (case back_p q of
                Some b \<Rightarrow> (set_next s b (Some other_front), q)
              | None \<Rightarrow> (s, q\<lparr>front_p := Some other_front\<rparr>))
           in (s1, q1\<lparr>back_p := back_p other\<rparr>, other\<lparr>front_p := None, back_p := None\<rparr>)))"

definition op_empty :: "'a op_queue \<Rightarrow> bool" where
  "op_empty q \<longleftrightarrow> front_p q = None"

definition is_enqueued :: "'a links \<Rightarrow> 'a op_queue \<Rightarrow> 'a \<Rightarrow> bool" where
  "is_enqueued s q op \<longleftrightarrow> next_of s op \<noteq> None \<or> back_p q = Some op"

text \<open>
  The destructor pops and destroys until the queue is empty; the result lists the
  operations in the order they are destroyed. On a cyclic chain the loop would not end,
  hence the option.
\<close>

partial_function (option) op_destroy ::
  "'a links \<Rightarrow> 'a op_queue \<Rightarrow> 'a list \<Rightarrow> ('a links \<times> 'a op_queue \<times> 'a list) option" where
  "op_destroy s q destroyed =
     (case front_p q of
        None \<Rightarrow> Some (s, q, destroyed)
      | Some op \<Rightarrow>
          (case op_pop s q of (s1, q1) \<Rightarrow> op_destroy s1 q1 (destroyed @ [op])))"

section \<open>The list a queue represents\<close>

fun chain :: "'a links \<Rightarrow> 'a option \<Rightarrow> 'a list \<Rightarrow> bool" where
  "chain s p [] \<longleftrightarrow> p = None"
| "chain s p (x # xs) \<longleftrightarrow> p = Some x \<and> chain s (s x) xs"

definition queue_rep :: "'a links \<Rightarrow> 'a op_queue \<Rightarrow> 'a list \<Rightarrow> bool" where
  "queue_rep s q xs \<longleftrightarrow>
     chain s (front_p q) xs \<and> distinct xs \<and>
     back_p q = (if xs = [] then None else Some (last xs))"

lemmas op_queue_defs =
  next_of_def set_next_def op_front_def op_pop_def op_push_def op_push_queue_def
  op_empty_def is_enqueued_def queue_rep_def

lemma chain_None [simp]: "chain s None xs \<longleftrightarrow> xs = []"
  by (cases xs) auto

lemma chain_frame [simp]: "y \<notin> set xs \<Longrightarrow> chain (s(y := v)) p xs = chain s p xs"
  by (induction xs arbitrary: p) auto

lemma chain_unique: "chain s p xs \<Longrightarrow> chain s p ys \<Longrightarrow> xs = ys"
proof (induction xs arbitrary: p ys)
  case (Cons x xs)
  then show ?case by (cases ys) auto
qed simp

lemma chain_append:
  "distinct (xs @ ys) \<Longrightarrow> chain s p xs \<Longrightarrow> xs \<noteq> [] \<Longrightarrow> chain s r ys \<Longrightarrow>
   chain (s(last xs := r)) p (xs @ ys)"
  by (induction xs arbitrary: p) auto

lemma chain_next_None:
  "chain s p xs \<Longrightarrow> distinct xs \<Longrightarrow> x \<in> set xs \<Longrightarrow> s x = None \<Longrightarrow> x = last xs"
proof (induction xs arbitrary: p)
  case (Cons y ys)
  then show ?case by (cases "x = y") auto
qed simp

lemma queue_rep_new: "queue_rep s op_queue_new []"
  by (simp add: op_queue_new_def queue_rep_def)

lemma queue_rep_unique: "queue_rep s q xs \<Longrightarrow> queue_rep s q ys \<Longrightarrow> xs = ys"
  by (auto simp: queue_rep_def intro: chain_unique)

lemma queue_rep_frame:
  "y \<notin> set xs \<Longrightarrow> queue_rep (s(y := v)) q xs = queue_rep s q xs"
  by (simp add: queue_rep_def)

lemma queue_rep_front:
  "queue_rep s q xs \<Longrightarrow> op_front q = (case xs of [] \<Rightarrow> None | x # _ \<Rightarrow> Some x)"
  by (cases xs) (auto simp: op_queue_defs)

lemma queue_rep_empty: "queue_rep s q xs \<Longrightarrow> op_empty q \<longleftrightarrow> xs = []"
  by (cases xs) (auto simp: op_queue_defs)

lemma queue_rep_pop:
  "queue_rep s q (x # xs) \<Longrightarrow> op_pop s q = (s', q') \<Longrightarrow> queue_rep s' q' xs"
  by (cases xs) (auto simp: op_queue_defs Let_def)

lemma op_pop_links:
  "queue_rep s q (x # xs) \<Longrightarrow> op_pop s q = (s', q') \<Longrightarrow> s' = s(x := None)"
  by (auto simp: op_queue_defs Let_def)

lemma op_pop_empty: "queue_rep s q [] \<Longrightarrow> op_pop s q = (s, q)"
  by (simp add: op_queue_defs)

lemma queue_rep_push:
  assumes rep: "queue_rep s q xs" and fresh: "x \<notin> set xs"
    and push: "op_push s q x = (s', q')"
  shows "queue_rep s' q' (xs @ [x])"
proof (cases "xs = []")
  case True
  with rep push show ?thesis by (auto simp: op_queue_defs)
next
  case False
  with rep fresh have "chain (s(x := None)) (front_p q) xs" "distinct (xs @ [x])"
    by (auto simp: queue_rep_def)
  then have "chain ((s(x := None))(last xs := Some x)) (front_p q) (xs @ [x])"
    using False by (intro chain_append) auto
  with rep push False \<open>distinct (xs @ [x])\<close> show ?thesis
    by (auto simp: op_queue_defs)
qed

lemma op_push_frame:
  assumes "queue_rep s q xs" "queue_rep s r ys" "x \<notin> set ys" "set xs \<inter> set ys = {}"
    and "op_push s q x = (s', q')"
  shows "queue_rep s' r ys"
proof (cases "xs = []")
  case True
  with assms show ?thesis by (auto simp: op_queue_defs)
next
  case False
  then have "last xs \<notin> set ys" using assms(4) by (meson disjoint_iff last_in_set)
  with assms False show ?thesis by (auto simp: op_queue_defs)
qed

lemma queue_rep_push_queue:
  assumes q: "queue_rep s q xs" and r: "queue_rep s r ys"
    and disj: "set xs \<inter> set ys = {}"
    and push: "op_push_queue s q r = (s', q', r')"
  shows "queue_rep s' q' (xs @ ys) \<and> queue_rep s' r' []"
proof (cases "ys = [] \<or> xs = []")
  case True
  with q r push show ?thesis by (cases ys) (auto simp: op_queue_defs)
next
  case False
  with q r disj have "chain (s(last xs := front_p r)) (front_p q) (xs @ ys)"
    by (intro chain_append) (auto simp: queue_rep_def)
  with False q r disj push show ?thesis
    by (cases ys) (auto simp: op_queue_defs)
qed

lemma op_destroy_all:
  "queue_rep s q xs \<Longrightarrow>
   \<exists>s' q'. op_destroy s q ds = Some (s', q', ds @ xs) \<and> queue_rep s' q' []"
proof (induction xs arbitrary: s q ds)
  case Nil
  then have "front_p q = None" by (simp add: queue_rep_def)
  with Nil show ?case by (subst op_destroy.simps) auto
next
  case (Cons x xs)
  obtain s1 q1 where pop: "op_pop s q = (s1, q1)" by fastforce
  have "queue_rep s1 q1 xs" by (rule queue_rep_pop [OF Cons.prems pop])
  then obtain s' q' where
    "op_destroy s1 q1 (ds @ [x]) = Some (s', q', (ds @ [x]) @ xs)" "queue_rep s' q' []"
    using Cons.IH [of s1 q1 "ds @ [x]"] by blast
  moreover have "front_p q = Some x" using Cons.prems by (simp add: queue_rep_def)
  ultimately show ?case using pop by (subst op_destroy.simps) auto
qed

section \<open>The contract of a FIFO, and draining one queue into another\<close>

text \<open>
  The users of the queue (the timer queue, the reactors, the scheduler) read the front,
  pop it and push it onto another queue. \<open>rep s q xs\<close> says that in store \<open>s\<close> the queue
  \<open>q\<close> holds \<open>xs\<close>.
\<close>

locale fifo =
  fixes rep :: "'s \<Rightarrow> 'q \<Rightarrow> 'a list \<Rightarrow> bool"
    and front :: "'q \<Rightarrow> 'a option"
    and pop :: "'s \<Rightarrow> 'q \<Rightarrow> 's \<times> 'q"
    and push :: "'s \<Rightarrow> 'q \<Rightarrow> 'a \<Rightarrow> 's \<times> 'q"
  assumes front_law: "rep s q xs \<Longrightarrow> front q = (case xs of [] \<Rightarrow> None | x # _ \<Rightarrow> Some x)"
    and pop_law: "rep s q (x # xs) \<Longrightarrow> pop s q = (s', q') \<Longrightarrow> rep s' q' xs"
    and pop_frame: "rep s q (x # xs) \<Longrightarrow> rep s r ys \<Longrightarrow> x \<notin> set ys \<Longrightarrow>
      pop s q = (s', q') \<Longrightarrow> rep s' r ys"
    and push_law: "rep s q xs \<Longrightarrow> x \<notin> set xs \<Longrightarrow> push s q x = (s', q') \<Longrightarrow>
      rep s' q' (xs @ [x])"
    and push_frame: "rep s q xs \<Longrightarrow> rep s r ys \<Longrightarrow> x \<notin> set ys \<Longrightarrow>
      set xs \<inter> set ys = {} \<Longrightarrow> push s q x = (s', q') \<Longrightarrow> rep s' r ys"
    and rep_distinct: "rep s q xs \<Longrightarrow> distinct xs"

text \<open>
  The loop \<open>while (op = q.front()) { q.pop(); r.push(op); }\<close> of
  \<open>timer_queue::get_ready_timers\<close> and \<open>cancel_timer\<close>, over any FIFO.
\<close>

partial_function (option) drain_loop ::
  "('q \<Rightarrow> 'a option) \<Rightarrow> ('s \<Rightarrow> 'q \<Rightarrow> 's \<times> 'q) \<Rightarrow> ('s \<Rightarrow> 'q \<Rightarrow> 'a \<Rightarrow> 's \<times> 'q) \<Rightarrow>
   's \<Rightarrow> 'q \<Rightarrow> 'q \<Rightarrow> ('s \<times> 'q \<times> 'q) option" where
  "drain_loop front pop push s q r =
     (case front q of
        None \<Rightarrow> Some (s, q, r)
      | Some op \<Rightarrow>
          (case pop s q of (s1, q1) \<Rightarrow>
             (case push s1 r op of (s2, r1) \<Rightarrow> drain_loop front pop push s2 q1 r1)))"

context fifo
begin

lemma drain_moves_all:
  "rep s q xs \<Longrightarrow> rep s r ys \<Longrightarrow> set xs \<inter> set ys = {} \<Longrightarrow>
   \<exists>s' q' r'. drain_loop front pop push s q r = Some (s', q', r') \<and>
     rep s' q' [] \<and> rep s' r' (ys @ xs)"
proof (induction xs arbitrary: s q r ys)
  case Nil
  then show ?case using front_law [of s q "[]"] by (subst drain_loop.simps) auto
next
  case (Cons x xs)
  from Cons.prems front_law have f: "front q = Some x" by fastforce
  obtain s1 q1 where p: "pop s q = (s1, q1)" by fastforce
  obtain s2 r1 where h: "push s1 r x = (s2, r1)" by fastforce
  have q1: "rep s1 q1 xs" by (rule pop_law [OF Cons.prems(1) p])
  have r: "rep s1 r ys" using pop_frame [OF Cons.prems(1,2) _ p] Cons.prems(3) by simp
  have xs: "x \<notin> set xs" using rep_distinct [OF Cons.prems(1)] by simp
  have "rep s2 r1 (ys @ [x])" using push_law [OF r _ h] Cons.prems(3) by simp
  moreover have "rep s2 q1 xs"
    using push_frame [OF r q1 xs _ h] Cons.prems(3) by auto
  moreover have "set xs \<inter> set (ys @ [x]) = {}" using Cons.prems(3) xs by auto
  ultimately obtain s' q' r' where
    "drain_loop front pop push s2 q1 r1 = Some (s', q', r')"
    "rep s' q' []" "rep s' r' ((ys @ [x]) @ xs)"
    using Cons.IH [of s2 q1 r1 "ys @ [x]"] by blast
  with f p h show ?case by (subst drain_loop.simps) auto
qed

end

interpretation opq: fifo queue_rep op_front op_pop op_push
proof
  fix s :: "'a links" and q r :: "'a op_queue" and x xs ys s' q'
  show "queue_rep s q xs \<Longrightarrow> op_front q = (case xs of [] \<Rightarrow> None | x # _ \<Rightarrow> Some x)"
    by (rule queue_rep_front)
  show "queue_rep s q (x # xs) \<Longrightarrow> op_pop s q = (s', q') \<Longrightarrow> queue_rep s' q' xs"
    by (rule queue_rep_pop)
  show "queue_rep s q (x # xs) \<Longrightarrow> queue_rep s r ys \<Longrightarrow> x \<notin> set ys \<Longrightarrow>
      op_pop s q = (s', q') \<Longrightarrow> queue_rep s' r ys"
    using op_pop_links [of s q x xs s' q'] queue_rep_frame [of x ys s None r] by simp
  show "queue_rep s q xs \<Longrightarrow> x \<notin> set xs \<Longrightarrow> op_push s q x = (s', q') \<Longrightarrow>
      queue_rep s' q' (xs @ [x])"
    by (rule queue_rep_push)
  show "queue_rep s q xs \<Longrightarrow> queue_rep s r ys \<Longrightarrow> x \<notin> set ys \<Longrightarrow>
      set xs \<inter> set ys = {} \<Longrightarrow> op_push s q x = (s', q') \<Longrightarrow> queue_rep s' r ys"
    by (rule op_push_frame)
  show "queue_rep s q xs \<Longrightarrow> distinct xs" by (simp add: queue_rep_def)
qed

section \<open>Sequences of calls\<close>

text \<open>
  Two queues over one store, as the reactors and the scheduler use them: every call of
  a client, run on the pointers and on the lists. Pushing an operation that is already in
  a queue is outside the contract.
\<close>

datatype 'a op_call = Push 'a | Pop | Splice

fun run_calls :: "'a op_call list \<Rightarrow> 'a links \<times> 'a op_queue \<times> 'a op_queue \<Rightarrow>
    'a links \<times> 'a op_queue \<times> 'a op_queue" where
  "run_calls [] st = st"
| "run_calls (Push a # cs) (s, q, r) = (case op_push s r a of (s', r') \<Rightarrow> run_calls cs (s', q, r'))"
| "run_calls (Pop # cs) (s, q, r) = (case op_pop s q of (s', q') \<Rightarrow> run_calls cs (s', q', r))"
| "run_calls (Splice # cs) (s, q, r) =
     (case op_push_queue s q r of (s', q', r') \<Rightarrow> run_calls cs (s', q', r'))"

fun list_calls :: "'a op_call list \<Rightarrow> 'a list \<times> 'a list \<Rightarrow> ('a list \<times> 'a list) option" where
  "list_calls [] st = Some st"
| "list_calls (Push a # cs) (xs, ys) =
     (if a \<in> set xs \<union> set ys then None else list_calls cs (xs, ys @ [a]))"
| "list_calls (Pop # cs) (xs, ys) = list_calls cs (tl xs, ys)"
| "list_calls (Splice # cs) (xs, ys) = list_calls cs (xs @ ys, [])"

definition queues_rep :: "'a links \<times> 'a op_queue \<times> 'a op_queue \<Rightarrow> 'a list \<times> 'a list \<Rightarrow> bool" where
  "queues_rep st l \<longleftrightarrow>
     queue_rep (fst st) (fst (snd st)) (fst l) \<and> queue_rep (fst st) (snd (snd st)) (snd l) \<and>
     set (fst l) \<inter> set (snd l) = {}"

lemma run_calls_rep:
  "queues_rep st l \<Longrightarrow> list_calls cs l = Some l' \<Longrightarrow> queues_rep (run_calls cs st) l'"
proof (induction cs arbitrary: st l)
  case (Cons c cs)
  obtain s q r where st: "st = (s, q, r)" by (metis prod_cases3)
  obtain xs ys where l: "l = (xs, ys)" by fastforce
  have rep: "queue_rep s q xs" "queue_rep s r ys" "set xs \<inter> set ys = {}"
    using Cons.prems(1) by (simp_all add: queues_rep_def st l)
  show ?case
  proof (cases c)
    case (Push a)
    with Cons.prems(2) l have new: "a \<notin> set xs" "a \<notin> set ys"
      and more: "list_calls cs (xs, ys @ [a]) = Some l'" by (auto split: if_splits)
    obtain s' r' where p: "op_push s r a = (s', r')" by fastforce
    have "set ys \<inter> set xs = {}" using rep(3) by blast
    then have "queues_rep (s', q, r') (xs, ys @ [a])"
      using opq.push_law [OF rep(2) new(2) p] opq.push_frame [OF rep(2,1) new(1) _ p] rep(3) new
      by (auto simp: queues_rep_def)
    from Cons.IH [OF this more] show ?thesis by (simp add: Push st p)
  next
    case Pop
    obtain s' q' where p: "op_pop s q = (s', q')" by fastforce
    have "queues_rep (s', q', r) (tl xs, ys)"
    proof (cases xs)
      case Nil
      with rep p show ?thesis by (simp add: op_pop_empty queues_rep_def)
    next
      case (Cons x xs')
      with rep have x: "x \<notin> set ys" "queue_rep s q (x # xs')" by auto
      then have "queue_rep s' q' xs'" "queue_rep s' r ys"
        using opq.pop_law [OF x(2) p] opq.pop_frame [OF x(2) rep(2) x(1) p] by blast+
      with Cons rep(3) show ?thesis by (auto simp: queues_rep_def)
    qed
    from Cons.IH [OF this] Cons.prems(2) show ?thesis by (simp add: Pop st l p)
  next
    case Splice
    obtain s' q' r' where p: "op_push_queue s q r = (s', q', r')" by (metis prod_cases3)
    have "queues_rep (s', q', r') (xs @ ys, [])"
      using queue_rep_push_queue [OF rep p] by (simp add: queues_rep_def)
    from Cons.IH [OF this] Cons.prems(2) show ?thesis by (simp add: Splice st l p)
  qed
qed simp

lemma chain_next_Some: "chain s p xs \<Longrightarrow> x \<in> set xs \<Longrightarrow> x \<noteq> last xs \<Longrightarrow> s x \<noteq> None"
proof (induction xs arbitrary: p)
  case (Cons y ys)
  then show ?case by (cases ys) (auto split: if_splits)
qed simp

lemma chain_last_None: "chain s p xs \<Longrightarrow> xs \<noteq> [] \<Longrightarrow> s (last xs) = None"
  by (induction xs arbitrary: p) (auto split: if_splits)

text \<open>The operations in neither queue have a null \<open>next_\<close>, if they had one to begin with.\<close>

definition clean_links :: "'a set \<Rightarrow> 'a links \<times> 'a op_queue \<times> 'a op_queue \<Rightarrow> 'a list \<times> 'a list \<Rightarrow> bool" where
  "clean_links A st l \<longleftrightarrow> (\<forall>a \<in> A. a \<notin> set (fst l) \<union> set (snd l) \<longrightarrow> fst st a = None)"

lemma run_calls_clean:
  "clean_links A st l \<Longrightarrow> queues_rep st l \<Longrightarrow> list_calls cs l = Some l' \<Longrightarrow> clean_links A (run_calls cs st) l'"
proof (induction cs arbitrary: st l)
  case (Cons c cs)
  obtain s q r where st: "st = (s, q, r)" by (metis prod_cases3)
  obtain xs ys where l: "l = (xs, ys)" by fastforce
  obtain st1 l1 where one: "run_calls [c] st = st1" "list_calls [c] l = Some l1" and
    more: "run_calls (c # cs) st = run_calls cs st1" "list_calls cs l1 = Some l'"
    using Cons.prems(3) by (cases c) (auto simp: st l split: prod.splits if_splits)
  have rep1: "queues_rep st1 l1" using run_calls_rep [OF Cons.prems(2) one(2)] one(1) by simp
  have rep: "queue_rep s q xs" "queue_rep s r ys" and clean: "\<And>a. a \<in> A \<Longrightarrow> a \<notin> set xs \<Longrightarrow> a \<notin> set ys \<Longrightarrow> s a = None"
    using Cons.prems(1,2) by (auto simp: queues_rep_def clean_links_def st l)
  have "clean_links A st1 l1"
  proof (cases c)
    case (Push a)
    then have l1: "l1 = (xs, ys @ [a])" using one(2) l by (auto split: if_splits)
    have "fst st1 b = s b" if "b \<noteq> a" "b \<notin> set ys" for b
      using one(1) Push that rep(2) last_in_set [of ys] by (auto simp: st op_queue_defs Let_def split: if_splits prod.splits)
    then show ?thesis using clean by (simp add: clean_links_def l1)
  next
    case Pop
    then have l1: "l1 = (tl xs, ys)" using one(2) l by simp
    show ?thesis
    proof (cases xs)
      case Nil
      then have "fst st1 = s" using one(1) Pop rep(1) by (auto simp: st op_pop_empty)
      then show ?thesis using clean Nil by (simp add: clean_links_def l1)
    next
      case (Cons x xs')
      obtain s' q' where p: "op_pop s q = (s', q')" by fastforce
      then have "fst st1 = s(x := None)" using one(1) Pop op_pop_links [OF rep(1) [unfolded Cons] p] by (auto simp: st)
      then show ?thesis using clean Cons by (auto simp: clean_links_def l1)
    qed
  next
    case Splice
    then have l1: "l1 = (xs @ ys, [])" using one(2) l by simp
    have "fst st1 b = s b" if "b \<notin> set xs" for b
      using one(1) Splice that rep(1) last_in_set [of xs]
      by (auto simp: st op_queue_defs Let_def split: if_splits prod.splits option.splits)
    then show ?thesis using clean by (auto simp: clean_links_def l1)
  qed
  from Cons.IH [OF this rep1 more(2)] show ?case by (simp add: more(1))
qed simp

section \<open>Properties\<close>

text \<open>C39: The intrusive queue refines a list. For every sequence of calls on two queues that
  share one store of operations (push onto the second, pop from the first, splice the second
  onto the first), starting from two freshly constructed queues, the pointer structures hold
  exactly the lists obtained by append, tail and concatenation: \<open>front\<close> and \<open>empty\<close> answer as
  on those lists, and destroying a queue destroys its operations in order. \<open>is_enqueued\<close> holds of
  the operations in the queue and, since it looks at \<open>next_\<close> only, of those in the other queue except
  its last; of every other operation that was constructed with a null \<open>next_\<close> it does not hold.\<close>

theorem op_queue_refines_lists:
  assumes "list_calls cs ([], []) = Some (xs, ys)"
    and "run_calls cs (s, op_queue_new, op_queue_new) = (s', q, r)"
  shows "op_front q = (case xs of [] \<Rightarrow> None | x # _ \<Rightarrow> Some x) \<and>
    (op_empty q \<longleftrightarrow> xs = []) \<and> distinct (xs @ ys) \<and>
    (\<forall>a. a \<in> set xs \<longrightarrow> is_enqueued s' q a) \<and>
    (\<forall>a. s a = None \<longrightarrow> is_enqueued s' q a = (a \<in> set xs \<or> (a \<in> set ys \<and> a \<noteq> last ys))) \<and>
    (\<exists>s'' q'. op_destroy s' q [] = Some (s'', q', xs) \<and> op_empty q')"
proof -
  have "queues_rep (s, op_queue_new, op_queue_new) ([], [])"
    by (simp add: queues_rep_def queue_rep_new)
  from run_calls_rep [OF this assms(1)] assms(2)
  have rep: "queue_rep s' q xs" "queue_rep s' r ys" "set xs \<inter> set ys = {}"
    by (simp_all add: queues_rep_def)
  have "clean_links {a. s a = None} (s', q, r) (xs, ys)"
    using run_calls_clean [OF _ \<open>queues_rep (s, op_queue_new, op_queue_new) ([], [])\<close> assms(1),
        of "{a. s a = None}"] assms(2) by (simp add: clean_links_def)
  then have clean: "s a = None \<Longrightarrow> a \<notin> set xs \<Longrightarrow> a \<notin> set ys \<Longrightarrow> s' a = None" for a
    by (simp add: clean_links_def)
  have inq: "is_enqueued s' q a" if "a \<in> set xs" for a
    using chain_next_None [of s' "front_p q" xs a] rep(1) that
    by (auto simp: op_queue_defs)
  have bk: "back_p q \<noteq> Some a" if "a \<notin> set xs" for a
    using rep(1) that by (auto simp: queue_rep_def)
  have "is_enqueued s' q a = (a \<in> set xs \<or> (a \<in> set ys \<and> a \<noteq> last ys))" if "s a = None" for a
  proof (cases "a \<in> set xs")
    case False
    have "a \<in> set ys \<Longrightarrow> s' a \<noteq> None \<longleftrightarrow> a \<noteq> last ys"
      using rep(2) chain_next_Some [of s' "front_p r" ys a] chain_last_None [of s' "front_p r" ys]
      by (cases "ys = []") (auto simp: queue_rep_def)
    then show ?thesis using clean [OF that False] bk [OF False] False
      by (cases "a \<in> set ys") (simp_all add: is_enqueued_def next_of_def)
  qed (simp add: inq)
  moreover have "\<exists>s'' q'. op_destroy s' q [] = Some (s'', q', xs) \<and> op_empty q'"
    using op_destroy_all [OF rep(1), of "[]"] queue_rep_empty by fastforce
  ultimately show ?thesis
    using opq.front_law [OF rep(1)] queue_rep_empty [OF rep(1)] opq.rep_distinct rep inq by auto
qed

theorem op_queue_refines_lists_witness:
  "\<exists>s' q r. run_calls [Push (1 :: nat), Push 2, Splice, Push 3, Pop] (Map.empty, op_queue_new, op_queue_new) = (s', q, r) \<and>
     op_front q = Some 2 \<and> is_enqueued s' q 2 \<and> \<not> is_enqueued s' q 1 \<and> \<not> is_enqueued s' q 3"
proof -
  obtain s' q r where run: "run_calls [Push (1 :: nat), Push 2, Splice, Push 3, Pop]
    (Map.empty, op_queue_new, op_queue_new) = (s', q, r)" by (metis prod_cases3)
  have "list_calls [Push (1 :: nat), Push 2, Splice, Push 3, Pop] ([], []) = Some ([2], [3])" by simp
  from op_queue_refines_lists [OF this run] run show ?thesis by simp
qed

text \<open>The loop that pops every operation of one queue and pushes it onto another, with which
  the timer queue and the reactors hand over operations, terminates, empties the first queue
  and leaves the second holding its old operations followed by the moved ones, in order.\<close>

theorem op_queue_drain:
  assumes "queue_rep s q xs" "queue_rep s r ys" "set xs \<inter> set ys = {}"
  shows "\<exists>s' q' r'. drain_loop op_front op_pop op_push s q r = Some (s', q', r') \<and>
     op_empty q' \<and> queue_rep s' r' (ys @ xs)"
  using opq.drain_moves_all [OF assms] queue_rep_empty by blast

theorem op_queue_drain_witness:
  "\<exists>s' q' r'. drain_loop op_front op_pop op_push [1 \<mapsto> 2 :: nat]
     \<lparr>front_p = Some 1, back_p = Some 2\<rparr> op_queue_new = Some (s', q', r') \<and> queue_rep s' r' [1, 2]"
proof -
  have "queue_rep [1 \<mapsto> 2 :: nat] \<lparr>front_p = Some 1, back_p = Some 2\<rparr> [1, 2]"
    by (simp add: queue_rep_def)
  from op_queue_drain [OF this queue_rep_new] show ?thesis by auto
qed

end
