(* ===== verification/InetText.thy ===== *)
theory InetText
  imports Prelude
begin

text \<open>
  The text forms of Internet addresses: \<open>inet_ntop\<close> and \<open>inet_pton\<close> of
  \<open>include/asio/detail/impl/socket_ops.ipp\<close>, in the variant the library implements itself
  (the Windows Runtime build; on the other platforms both call the C library). An address is
  its bytes in network order. The standard library's \<open>printf\<close> and \<open>scanf\<close> conversions
  \<open>%u\<close>, \<open>%lu\<close> and \<open>%x\<close> are defined first; a C string is the list of its characters, the
  terminating null character being the end of the list.
\<close>

section \<open>Digits, printf and scanf\<close>

definition digit_char :: "nat \<Rightarrow> char" where
  "digit_char d = (if d < 10 then char_of (48 + d) else char_of (87 + d))"

fun digits :: "nat \<Rightarrow> nat \<Rightarrow> string" where
  "digits b n =
     (if b < 2 \<or> n < b then [digit_char n] else digits b (n div b) @ [digit_char (n mod b)])"

declare digits.simps [simp del]

abbreviation dec_string :: "nat \<Rightarrow> string" where "dec_string \<equiv> digits 10"
abbreviation hex_string :: "nat \<Rightarrow> string" where "hex_string \<equiv> digits 16"

definition is_digit :: "char \<Rightarrow> bool" where
  "is_digit c \<longleftrightarrow> 48 \<le> (of_char c :: nat) \<and> (of_char c :: nat) \<le> 57"

definition digit_val :: "char \<Rightarrow> nat" where
  "digit_val c = of_char c - 48"

definition hex_val :: "char \<Rightarrow> nat option" where
  "hex_val c =
     (let n = of_char c :: nat
      in if 48 \<le> n \<and> n \<le> 57 then Some (n - 48)
         else if 97 \<le> n \<and> n \<le> 102 then Some (n - 97 + 10)
         else if 65 \<le> n \<and> n \<le> 70 then Some (n - 65 + 10)
         else None)"

fun dec_value :: "nat \<Rightarrow> string \<Rightarrow> nat" where
  "dec_value v [] = v"
| "dec_value v (c # cs) = dec_value (v * 10 + digit_val c) cs"

definition is_space :: "char \<Rightarrow> bool" where
  "is_space c \<longleftrightarrow> (of_char c :: nat) \<in> {32, 9, 10, 11, 12, 13}"

text \<open>
  \<open>%u\<close> of \<open>sscanf\<close>: white space, an optional sign, digits; converted as \<open>strtoul\<close> does, an
  unrepresentable number giving the largest one and a minus sign negating modulo \<open>2 ^ 32\<close>.
\<close>

definition uint_max :: nat where
  "uint_max = 4294967295"

definition scan_u :: "string \<Rightarrow> (nat \<times> string) option" where
  "scan_u s =
     (let s1 = dropWhile is_space s;
          (neg, s2) = (case s1 of
             [] \<Rightarrow> (False, s1)
           | c # r \<Rightarrow> if c = CHR ''-'' then (True, r) else if c = CHR ''+'' then (False, r) else (False, s1));
          ds = takeWhile is_digit s2;
          v = dec_value 0 ds
      in if ds = [] then None
         else Some (if v > uint_max then uint_max
                    else if neg then (uint_max + 1 - v) mod (uint_max + 1) else v,
                    dropWhile is_digit s2))"

definition scan_dot :: "string \<Rightarrow> string option" where
  "scan_dot s = (case s of [] \<Rightarrow> None | c # r \<Rightarrow> if c = CHR ''.'' then Some r else None)"

section \<open>IPv4\<close>

type_synonym in4_addr = "byte \<times> byte \<times> byte \<times> byte"

fun inet_ntop4 :: "in4_addr \<Rightarrow> string" where
  "inet_ntop4 (b0, b1, b2, b3) =
     dec_string (unat b0) @ ''.'' @ dec_string (unat b1) @ ''.'' @
     dec_string (unat b2) @ ''.'' @ dec_string (unat b3)"

text \<open>\<open>sscanf(src, "%u.%u.%u.%u", ...)\<close> must convert four numbers; what follows them is not looked at.\<close>

definition inet_pton4 :: "string \<Rightarrow> error_code + in4_addr" where
  "inet_pton4 src =
     (case scan_u src of None \<Rightarrow> Inl Invalid_argument | Some (b0, r0) \<Rightarrow>
     (case scan_dot r0 of None \<Rightarrow> Inl Invalid_argument | Some s1 \<Rightarrow>
     (case scan_u s1 of None \<Rightarrow> Inl Invalid_argument | Some (b1, r1) \<Rightarrow>
     (case scan_dot r1 of None \<Rightarrow> Inl Invalid_argument | Some s2 \<Rightarrow>
     (case scan_u s2 of None \<Rightarrow> Inl Invalid_argument | Some (b2, r2) \<Rightarrow>
     (case scan_dot r2 of None \<Rightarrow> Inl Invalid_argument | Some s3 \<Rightarrow>
     (case scan_u s3 of None \<Rightarrow> Inl Invalid_argument | Some (b3, r3) \<Rightarrow>
       if b0 > 255 \<or> b1 > 255 \<or> b2 > 255 \<or> b3 > 255 then Inl Invalid_argument
       else Inr (of_nat b0, of_nat b1, of_nat b2, of_nat b3))))))))"

section \<open>IPv6, printing\<close>

text \<open>
  \<open>sprintf_s\<close> into the rest of a buffer of the given length that holds \<open>dest\<close> so far; it does
  not return when the text and its null character do not fit.
\<close>

definition sprintf_s :: "nat \<Rightarrow> string \<Rightarrow> string \<Rightarrow> string option" where
  "sprintf_s len dest s = (if length dest + length s < len then Some (dest @ s) else None)"

definition zero_pair :: "byte list \<Rightarrow> nat \<Rightarrow> bool" where
  "zero_pair bytes b \<longleftrightarrow> bytes ! b = 0 \<and> bytes ! (b + 1) = 0"

definition pair_word :: "byte list \<Rightarrow> nat \<Rightarrow> nat" where
  "pair_word bytes b = unat (bytes ! b) * 256 + unat (bytes ! (b + 1))"

function zero_run :: "byte list \<Rightarrow> nat \<Rightarrow> nat" where
  "zero_run bytes b = (if b < 16 \<and> zero_pair bytes b then zero_run bytes (b + 2) else b)"
  by pat_completeness auto
termination by (relation "measure (\<lambda>(_, b). 16 - b)") auto

declare zero_run.simps [simp del]

lemma zero_run_ge: "b \<le> zero_run bytes b"
  by (induction bytes b rule: zero_run.induct) (subst zero_run.simps, auto)

function ntop6_loop :: "byte list \<Rightarrow> nat \<Rightarrow> string \<Rightarrow> nat \<Rightarrow> nat \<Rightarrow> string option" where
  "ntop6_loop bytes len dest b z =
     (if length dest < len \<and> b < 16 then
        (if zero_pair bytes b \<and> z = 0 then
           (let b1 = zero_run bytes (b + 2)
            in case sprintf_s len dest ('':'' @ (if b1 < 16 then '''' else '':'')) of
                 None \<Rightarrow> None
               | Some dest1 \<Rightarrow> ntop6_loop bytes len dest1 b1 (z + 1))
         else
           (case sprintf_s len dest ((if b = 0 then '''' else '':'') @ hex_string (pair_word bytes b)) of
              None \<Rightarrow> None
            | Some dest1 \<Rightarrow> ntop6_loop bytes len dest1 (b + 2) z))
      else Some dest)"
  by pat_completeness auto
termination
proof (relation "measure (\<lambda>(_, _, _, b, _). 16 - b)", goal_cases)
  case (2 bytes len dest b z x x2)
  then have "b < 16" "x = zero_run bytes (b + 2)" by simp_all
  then have "16 - x < 16 - b" using zero_run_ge [of "b + 2" bytes] by linarith
  then show ?case by simp
qed auto

declare ntop6_loop.simps [simp del]

definition inet_ntop6 :: "byte list \<Rightarrow> nat \<Rightarrow> nat \<Rightarrow> string option" where
  "inet_ntop6 bytes len scope_id =
     (case ntop6_loop bytes len [] 0 0 of
        None \<Rightarrow> None
      | Some dest \<Rightarrow>
          if scope_id \<noteq> 0 then sprintf_s len dest (''%'' @ dec_string scope_id) else Some dest)"

section \<open>IPv6, parsing\<close>

datatype pton_state = Fword | Fcolon | Bword | Scope | Done

record pton6 =
  ptr :: string
  state :: pton_state
  current_word :: nat
  front_bytes :: "byte list"
  back_bytes :: "byte list"
  scope_out :: nat

text \<open>
  The two words of \<open>bytes\<close> and \<open>back_bytes\<close> written so far are kept as the lists of the
  bytes up to \<open>num_front_bytes\<close> and \<open>num_back_bytes\<close>.
\<close>

definition word_bytes :: "nat \<Rightarrow> byte list" where
  "word_bytes w = [of_nat (w div 256), of_nat w]"

text \<open>One round of the loop; \<open>None\<close> is the return with \<open>invalid_argument\<close>.\<close>

definition fword_step :: "pton6 \<Rightarrow> pton6 option" where
  "fword_step s =
     (case map_option hex_val (if ptr s = [] then None else Some (hd (ptr s))) of
        Some (Some d) \<Rightarrow> Some (s\<lparr>current_word := current_word s * 16 + d, ptr := tl (ptr s)\<rparr>)
      | _ \<Rightarrow>
          if length (front_bytes s) = 16 then None
          else (let s1 = s\<lparr>front_bytes := front_bytes s @ word_bytes (current_word s), current_word := 0\<rparr>
                in (case ptr s1 of
                      [] \<Rightarrow> Some (s1\<lparr>state := Done\<rparr>)
                    | c # r \<Rightarrow>
                        if c = CHR '':'' then Some (s1\<lparr>state := Fcolon, ptr := r\<rparr>)
                        else if c = CHR ''%'' then Some (s1\<lparr>state := Scope, ptr := r\<rparr>)
                        else None)))"

definition bword_step :: "pton6 \<Rightarrow> pton6 option" where
  "bword_step s =
     (case map_option hex_val (if ptr s = [] then None else Some (hd (ptr s))) of
        Some (Some d) \<Rightarrow> Some (s\<lparr>current_word := current_word s * 16 + d, ptr := tl (ptr s)\<rparr>)
      | _ \<Rightarrow>
          if length (front_bytes s) + length (back_bytes s) = 16 then None
          else (let s1 = s\<lparr>back_bytes := back_bytes s @ word_bytes (current_word s), current_word := 0\<rparr>
                in (case ptr s1 of
                      [] \<Rightarrow> Some (s1\<lparr>state := Done\<rparr>)
                    | c # r \<Rightarrow>
                        if c = CHR '':'' then Some (s1\<lparr>state := Bword, ptr := r\<rparr>)
                        else if c = CHR ''%'' then Some (s1\<lparr>state := Scope, ptr := r\<rparr>)
                        else None)))"

definition fcolon_step :: "pton6 \<Rightarrow> pton6 option" where
  "fcolon_step s =
     (case ptr s of
        [] \<Rightarrow> Some (s\<lparr>state := Fword\<rparr>)
      | c # r \<Rightarrow> if c = CHR '':'' then Some (s\<lparr>state := Bword, ptr := r\<rparr>) else Some (s\<lparr>state := Fword\<rparr>))"

definition scope_step :: "pton6 \<Rightarrow> pton6 option" where
  "scope_step s =
     (case ptr s of
        [] \<Rightarrow> Some (s\<lparr>scope_out := current_word s, state := Done\<rparr>)
      | c # r \<Rightarrow>
          if is_digit c then Some (s\<lparr>current_word := current_word s * 10 + digit_val c, ptr := r\<rparr>)
          else None)"

definition pton6_step :: "pton6 \<Rightarrow> pton6 option" where
  "pton6_step s =
     (if current_word s > 65535 then None
      else case state s of
        Fword \<Rightarrow> fword_step s
      | Fcolon \<Rightarrow> fcolon_step s
      | Bword \<Rightarrow> bword_step s
      | Scope \<Rightarrow> scope_step s
      | Done \<Rightarrow> Some s)"

definition pton6_measure :: "pton6 \<Rightarrow> nat" where
  "pton6_measure s =
     (if state s = Done then 0
      else 2 * length (ptr s) + (if state s = Fcolon then 2 else 1))"

lemma pton6_step_measure:
  assumes "pton6_step s = Some s'" "state s \<noteq> Done"
  shows "pton6_measure s' < pton6_measure s"
proof (cases "state s")
  case Fword
  with assms show ?thesis
    by (cases "ptr s") (auto simp: pton6_step_def fword_step_def pton6_measure_def Let_def
        split: if_splits option.splits)
next
  case Fcolon
  with assms show ?thesis
    by (cases "ptr s") (auto simp: pton6_step_def fcolon_step_def pton6_measure_def split: if_splits)
next
  case Bword
  with assms show ?thesis
    by (cases "ptr s") (auto simp: pton6_step_def bword_step_def pton6_measure_def Let_def
        split: if_splits option.splits)
next
  case Scope
  with assms show ?thesis
    by (cases "ptr s") (auto simp: pton6_step_def scope_step_def pton6_measure_def split: if_splits)
qed (use assms in simp)

function pton6_loop :: "pton6 \<Rightarrow> pton6 option" where
  "pton6_loop s =
     (if state s = Done then Some s
      else case pton6_step s of None \<Rightarrow> None | Some s1 \<Rightarrow> pton6_loop s1)"
  by pat_completeness auto
termination by (relation "measure pton6_measure") (auto intro: pton6_step_measure)

declare pton6_loop.simps [simp del]

definition pton6_init :: "string \<Rightarrow> pton6" where
  "pton6_init src = \<lparr>ptr = src, state = Fword, current_word = 0, front_bytes = [],
     back_bytes = [], scope_out = 0\<rparr>"

text \<open>
  The caller passes a scope of zero, which stays as it is when the text has none. The bytes
  between the front and the back words are zero from the initial \<open>memset\<close>.
\<close>

definition pton6_finish :: "pton6 option \<Rightarrow> error_code + (byte list \<times> nat)" where
  "pton6_finish r =
     (case r of
        None \<Rightarrow> Inl Invalid_argument
      | Some s \<Rightarrow>
          Inr (front_bytes s @ replicate (16 - length (front_bytes s) - length (back_bytes s)) 0 @
               back_bytes s, scope_out s))"

definition inet_pton6 :: "string \<Rightarrow> error_code + (byte list \<times> nat)" where
  "inet_pton6 src = pton6_finish (pton6_loop (pton6_init src))"

section \<open>Printing and scanning digits\<close>

lemma digit_char_facts:
  assumes "d < 16"
  shows "hex_val (digit_char d) = Some d"
    "d < 10 \<Longrightarrow> is_digit (digit_char d) \<and> digit_val (digit_char d) = d"
  using assms by (auto simp: digit_char_def hex_val_def is_digit_def digit_val_def Let_def)

text \<open>Reading digits in a base, most significant first.\<close>

fun base_value :: "nat \<Rightarrow> nat \<Rightarrow> nat list \<Rightarrow> nat" where
  "base_value b v [] = v"
| "base_value b v (d # ds) = base_value b (v * b + d) ds"

lemma base_value_append: "base_value b v (xs @ ys) = base_value b (base_value b v xs) ys"
  by (induction xs arbitrary: v) auto

lemma base_value_ge: "1 \<le> b \<Longrightarrow> v \<le> base_value b v ds"
proof (induction ds arbitrary: v)
  case (Cons d ds)
  have "v \<le> v * b + d" using Cons.prems by (simp add: trans_le_add1)
  also have "\<dots> \<le> base_value b (v * b + d) ds" using Cons by blast
  finally show ?case by simp
qed simp

lemma digits_values:
  assumes "2 \<le> b"
  shows "\<exists>ds. digits b n = map digit_char ds \<and> (\<forall>d \<in> set ds. d < b) \<and> base_value b 0 ds = n \<and> ds \<noteq> []"
  using assms
proof (induction b n rule: digits.induct)
  case (1 b n)
  show ?case
  proof (cases "n < b")
    case True
    then show ?thesis by (intro exI [of _ "[n]"]) (simp add: digits.simps)
  next
    case False
    with 1 obtain ds where ds: "digits b (n div b) = map digit_char ds" "\<forall>d \<in> set ds. d < b"
      "base_value b 0 ds = n div b" by auto
    from False 1 have "digits b n = map digit_char (ds @ [n mod b])"
      by (subst digits.simps) (simp add: ds)
    moreover have "\<forall>d \<in> set (ds @ [n mod b]). d < b" using ds 1 by auto
    moreover have "base_value b 0 (ds @ [n mod b]) = n" by (simp add: base_value_append ds)
    ultimately show ?thesis by blast
  qed
qed

lemma dec_value_map:
  "\<forall>d \<in> set ds. d < 10 \<Longrightarrow> dec_value v (map digit_char ds) = base_value 10 v ds"
  by (induction ds arbitrary: v) (auto simp: digit_char_facts)

lemma dec_string_facts:
  "dec_value 0 (dec_string n) = n" "\<forall>c \<in> set (dec_string n). is_digit c" "dec_string n \<noteq> []"
proof -
  obtain ds where "dec_string n = map digit_char ds" "\<forall>d \<in> set ds. d < 10" "base_value 10 0 ds = n" "ds \<noteq> []"
    using digits_values [of 10 n] by auto
  then show "dec_value 0 (dec_string n) = n" "\<forall>c \<in> set (dec_string n). is_digit c" "dec_string n \<noteq> []"
    by (auto simp: dec_value_map digit_char_facts)
qed

lemma takeWhile_digits:
  assumes "\<forall>c \<in> set xs. P c" "rest = [] \<or> \<not> P (hd rest)"
  shows "takeWhile P (xs @ rest) = xs" "dropWhile P (xs @ rest) = rest"
  using assms by (induction xs) (cases rest; auto)+

lemma digit_not_special:
  assumes "is_digit c"
  shows "\<not> is_space c" "c \<noteq> CHR ''-''" "c \<noteq> CHR ''+''"
  using assms by (auto simp: is_digit_def is_space_def)

lemma scan_u_dec:
  assumes "n \<le> uint_max" "rest = [] \<or> \<not> is_digit (hd rest)"
  shows "scan_u (dec_string n @ rest) = Some (n, rest)"
proof -
  obtain c cs where c: "dec_string n = c # cs" using dec_string_facts(3) [of n] by (cases "dec_string n") auto
  then have d: "is_digit c" using dec_string_facts(2) [of n] by auto
  have "dropWhile is_space (dec_string n @ rest) = dec_string n @ rest"
    using digit_not_special(1) [OF d] by (simp add: c)
  moreover have "(case dec_string n @ rest of [] \<Rightarrow> (False, dec_string n @ rest)
      | c # r \<Rightarrow> if c = CHR ''-'' then (True, r) else if c = CHR ''+'' then (False, r)
        else (False, dec_string n @ rest)) = (False, dec_string n @ rest)"
    using digit_not_special(2,3) [OF d] by (simp add: c)
  ultimately show ?thesis
    using takeWhile_digits [OF dec_string_facts(2) assms(2), of n] assms(1)
    by (simp add: scan_u_def Let_def dec_string_facts)
qed

lemma pton4_ntop4: "inet_pton4 (inet_ntop4 b) = Inr b"
proof -
  obtain b0 b1 b2 b3 where b: "b = (b0, b1, b2, b3)" by (metis prod_cases4)
  have le: "unat w \<le> 255" for w :: byte
    using unsigned_less [of w, where ?'a = nat] by simp
  then have le': "unat w \<le> uint_max" for w :: byte
    by (rule order_trans) (simp add: uint_max_def)
  have dot: "\<not> is_digit (CHR ''.'')" by (simp add: is_digit_def)
  have "scan_u (dec_string (unat w) @ CHR ''.'' # r) = Some (unat w, CHR ''.'' # r)" for w :: byte and r
    by (rule scan_u_dec [OF le']) (simp add: dot)
  moreover have "scan_u (dec_string (unat w)) = Some (unat w, [])" for w :: byte
    using scan_u_dec [OF le', of "[]"] by simp
  ultimately show ?thesis
    using le by (simp add: b inet_pton4_def scan_dot_def not_less)
qed

section \<open>IPv6: what the printer prints\<close>

text \<open>
  The text of the words \<open>ws\<close> that remain: \<open>z\<close> when a run of zeros has been shortened
  already, \<open>first\<close> at the start.
\<close>

lemma length_dropWhile_Suc [termination_simp]: "length (dropWhile P ws) < Suc (length ws)"
  by (simp add: less_Suc_eq_le length_dropWhile_le)

fun words_text :: "bool \<Rightarrow> bool \<Rightarrow> nat list \<Rightarrow> string" where
  "words_text z first [] = []"
| "words_text z first (w # ws) =
     (if w = 0 \<and> \<not> z
      then '':'' @ (let r = dropWhile (\<lambda>w. w = 0) ws in if r = [] then '':'' else words_text True False r)
      else (if first then [] else '':'') @ hex_string w @ words_text z False ws)"

definition words_of :: "byte list \<Rightarrow> nat list" where
  "words_of bytes = map (\<lambda>i. pair_word bytes (2 * i)) [0..<8]"

lemma length_words_of [simp]: "length (words_of bytes) = 8"
  by (simp add: words_of_def)

lemma words_of_nth [simp]: "i < 8 \<Longrightarrow> words_of bytes ! i = pair_word bytes (2 * i)"
  by (simp add: words_of_def)

lemma drop_words_of: "i < 8 \<Longrightarrow> drop i (words_of bytes) = pair_word bytes (2 * i) # drop (Suc i) (words_of bytes)"
  by (metis Cons_nth_drop_Suc length_words_of words_of_nth)

lemma zero_pair_iff: "zero_pair bytes b \<longleftrightarrow> pair_word bytes b = 0"
  by (simp add: zero_pair_def pair_word_def unsigned_eq_0_iff)

lemma byte_le: "unat (w :: byte) \<le> 255"
  using unsigned_less [of w, where ?'a = nat] by simp

lemma pair_word_le: "pair_word bytes b \<le> 65535"
  using byte_le [of "bytes ! b"] byte_le [of "bytes ! (b + 1)"] by (simp add: pair_word_def)

lemma length_digits: "2 \<le> b \<Longrightarrow> n < b ^ Suc k \<Longrightarrow> length (digits b n) \<le> Suc k"
proof (induction k arbitrary: n)
  case (Suc k)
  show ?case
  proof (cases "n < b")
    case False
    from Suc.prems have "n div b < b ^ Suc k" by (simp add: less_mult_imp_div_less mult.commute)
    from Suc.IH [OF Suc.prems(1) this] False show ?thesis by (subst digits.simps) simp
  qed (simp add: digits.simps)
qed (simp add: digits.simps)

lemma length_hex_word: "w \<le> 65535 \<Longrightarrow> length (hex_string w) \<le> 4"
  using length_digits [of 16 w 3] by simp

lemma length_dec_word: "w \<le> 65535 \<Longrightarrow> length (dec_string w) \<le> 5"
  using length_digits [of 10 w 4] by simp

lemma zero_run_dropWhile:
  "i \<le> 8 \<Longrightarrow> \<exists>j. zero_run bytes (2 * i) = 2 * j \<and> i \<le> j \<and> j \<le> 8 \<and>
     dropWhile (\<lambda>w. w = 0) (drop i (words_of bytes)) = drop j (words_of bytes)"
proof (induction "8 - i" arbitrary: i)
  case 0
  then show ?case by (intro exI [of _ 8]) (simp add: zero_run.simps)
next
  case (Suc n)
  then have i: "i < 8" by simp
  show ?case
  proof (cases "zero_pair bytes (2 * i)")
    case True
    have "n = 8 - Suc i" using Suc.hyps(2) by simp
    from Suc.hyps(1) [OF this] i obtain j where "zero_run bytes (2 * Suc i) = 2 * j" "Suc i \<le> j" "j \<le> 8"
      "dropWhile (\<lambda>w. w = 0) (drop (Suc i) (words_of bytes)) = drop j (words_of bytes)" by auto
    moreover have "zero_run bytes (2 * i) = zero_run bytes (2 * Suc i)"
      using True i by (subst zero_run.simps) simp
    ultimately show ?thesis
      using True i by (intro exI [of _ j]) (simp add: drop_words_of [OF i] zero_pair_iff)
  next
    case False
    then show ?thesis using i
      by (intro exI [of _ i]) (subst zero_run.simps, simp add: drop_words_of [OF i] zero_pair_iff)
  qed
qed

lemma ntop6_loop_text:
  "i \<le> 8 \<Longrightarrow> length dest + 5 * (8 - i) + 1 < len \<Longrightarrow>
   ntop6_loop bytes len dest (2 * i) z =
     Some (dest @ words_text (z \<noteq> 0) (i = 0) (drop i (words_of bytes)))"
proof (induction "8 - i" arbitrary: i dest z rule: less_induct)
  case less
  show ?case
  proof (cases "i = 8")
    case True
    then show ?thesis by (simp add: ntop6_loop.simps)
  next
    case False
    then have i: "i < 8" using less.prems by simp
    let ?w = "pair_word bytes (2 * i)"
    have ws: "drop i (words_of bytes) = ?w # drop (Suc i) (words_of bytes)" by (rule drop_words_of [OF i])
    show ?thesis
    proof (cases "?w = 0 \<and> z = 0")
      case True
      obtain j where j: "zero_run bytes (2 * Suc i) = 2 * j" "Suc i \<le> j" "j \<le> 8"
        "dropWhile (\<lambda>w. w = 0) (drop (Suc i) (words_of bytes)) = drop j (words_of bytes)"
        using zero_run_dropWhile [of "Suc i" bytes] i by auto
      let ?d1 = "dest @ '':'' @ (if 2 * j < 16 then '''' else '':'')"
      have "5 \<le> 5 * (8 - i)" using i by simp
      then have fit: "sprintf_s len dest ('':'' @ (if 2 * j < 16 then '''' else '':'')) = Some ?d1"
        using less.prems i by (simp add: sprintf_s_def)
      have "length ?d1 + 5 * (8 - j) + 1 < len" using less.prems(2) j i by (cases "j = 8") auto
      then have "ntop6_loop bytes len ?d1 (2 * j) (z + 1) =
          Some (?d1 @ words_text True False (drop j (words_of bytes)))"
        using less.hyps [of j ?d1 "z + 1"] j i by simp
      moreover have "ntop6_loop bytes len dest (2 * i) z = ntop6_loop bytes len ?d1 (2 * j) (z + 1)"
        using True less.prems i j(1) fit
        by (subst ntop6_loop.simps) (simp add: zero_pair_iff Let_def)
      moreover have "drop j (words_of bytes) = [] \<longleftrightarrow> \<not> 2 * j < 16" using j(3) by auto
      ultimately show ?thesis using True j(4) ws by (simp add: Let_def)
    next
      case False
      let ?s = "(if 2 * i = 0 then '''' else '':'') @ hex_string ?w"
      have len: "length ?s \<le> 5" using length_hex_word [OF pair_word_le, of bytes "2 * i"] by (cases "i = 0") simp_all
      then have fit: "sprintf_s len dest ?s = Some (dest @ ?s)"
        using less.prems i by (simp add: sprintf_s_def)
      have "length (dest @ ?s) + 5 * (8 - Suc i) + 1 < len" using len less.prems i by simp
      then have "ntop6_loop bytes len (dest @ ?s) (2 * Suc i) z =
          Some ((dest @ ?s) @ words_text (z \<noteq> 0) False (drop (Suc i) (words_of bytes)))"
        using less.hyps [of "Suc i" "dest @ ?s" z] i by simp
      moreover have "ntop6_loop bytes len dest (2 * i) z = ntop6_loop bytes len (dest @ ?s) (2 * Suc i) z"
        using False less.prems i fit by (subst ntop6_loop.simps) (auto simp: zero_pair_iff)
      ultimately show ?thesis using False ws by auto
    qed
  qed
qed

lemma length_words_text:
  "\<forall>w \<in> set ws. w \<le> 65535 \<Longrightarrow> length (words_text z first ws) \<le> 5 * length ws + 1"
proof (induction z first ws rule: words_text.induct)
  case (2 z first w ws)
  let ?r = "dropWhile (\<lambda>w. w = 0) ws"
  show ?case
  proof (cases "w = 0 \<and> \<not> z")
    case True
    have "\<forall>w \<in> set ?r. w \<le> 65535" using 2(3) by (auto dest: set_dropWhileD)
    then have "?r \<noteq> [] \<Longrightarrow> length (words_text True False ?r) \<le> 5 * length ?r + 1"
      using 2(1) [OF True refl] by blast
    moreover have "length ?r \<le> length ws" by (rule length_dropWhile_le)
    moreover have "length (words_text z first (w # ws)) =
        1 + (if ?r = [] then 1 else length (words_text True False ?r))"
      using True by (auto simp: Let_def)
    ultimately show ?thesis by (cases "?r = []") (simp_all del: words_text.simps dropWhile_eq_Nil_conv)
  next
    case False
    then have "length (words_text z False ws) \<le> 5 * length ws + 1" using 2 by simp
    moreover have "length (hex_string w) \<le> 4" using 2(3) by (simp add: length_hex_word)
    ultimately show ?thesis using False by auto
  qed
qed simp

section \<open>IPv6: what the parser reads\<close>

lemmas pton6_run = pton6_loop.simps [of s for s] pton6_step_def fword_step_def bword_step_def
  fcolon_step_def

lemma hex_digits_run:
  assumes "state s = Fword \<or> state s = Bword" "ptr s = map digit_char ds @ rest"
    "\<forall>d \<in> set ds. d < 16" "base_value 16 (current_word s) ds \<le> 65535"
  shows "pton6_loop s = pton6_loop (s\<lparr>ptr := rest, current_word := base_value 16 (current_word s) ds\<rparr>)"
  using assms
proof (induction ds arbitrary: s)
  case Nil
  then show ?case by (cases s) simp
next
  case (Cons d ds)
  let ?s1 = "s\<lparr>current_word := current_word s * 16 + d, ptr := map digit_char ds @ rest\<rparr>"
  have "current_word s \<le> base_value 16 (current_word s) (d # ds)" by (rule base_value_ge) simp
  then have "current_word s \<le> 65535" using Cons.prems(4) by linarith
  then have "pton6_step s = Some ?s1"
    using Cons.prems by (auto simp: pton6_step_def fword_step_def bword_step_def digit_char_facts)
  then have "pton6_loop s = pton6_loop ?s1"
    using Cons.prems(1) by (subst pton6_loop.simps) auto
  also have "\<dots> = pton6_loop (?s1\<lparr>ptr := rest, current_word := base_value 16 (current_word ?s1) ds\<rparr>)"
    using Cons.prems by (intro Cons.IH) auto
  finally show ?case by simp
qed

lemma hex_word_run:
  assumes "state s = Fword \<or> state s = Bword" "ptr s = hex_string w @ rest" "current_word s = 0" "w \<le> 65535"
  shows "pton6_loop s = pton6_loop (s\<lparr>ptr := rest, current_word := w\<rparr>)"
proof -
  obtain ds where ds: "hex_string w = map digit_char ds" "\<forall>d \<in> set ds. d < 16" "base_value 16 0 ds = w"
    using digits_values [of 16 w] by auto
  show ?thesis using hex_digits_run [of s ds rest] assms ds by simp
qed

text \<open>The scope suffix: none, or a percent sign and a number.\<close>

definition scope_text :: "nat \<Rightarrow> string" where
  "scope_text n = (if n = 0 then [] else ''%'' @ dec_string n)"

lemma scope_digits_run:
  assumes "state s = Scope" "ptr s = map digit_char ds" "\<forall>d \<in> set ds. d < 10"
    "base_value 10 (current_word s) ds \<le> 65535"
  shows "pton6_loop s = Some (s\<lparr>ptr := [], current_word := base_value 10 (current_word s) ds,
    scope_out := base_value 10 (current_word s) ds, state := Done\<rparr>)"
  using assms
proof (induction ds arbitrary: s)
  case Nil
  then show ?case by (simp add: pton6_loop.simps pton6_step_def scope_step_def)
next
  case (Cons d ds)
  let ?s1 = "s\<lparr>current_word := current_word s * 10 + d, ptr := map digit_char ds\<rparr>"
  have "current_word s \<le> base_value 10 (current_word s) (d # ds)" by (rule base_value_ge) simp
  then have "current_word s \<le> 65535" using Cons.prems(4) by linarith
  then have "pton6_loop s = pton6_loop ?s1"
    using Cons.prems by (subst pton6_loop.simps) (simp add: pton6_step_def scope_step_def digit_char_facts)
  also have "\<dots> = Some (?s1\<lparr>ptr := [], current_word := base_value 10 (current_word ?s1) ds,
    scope_out := base_value 10 (current_word ?s1) ds, state := Done\<rparr>)"
    using Cons.prems by (intro Cons.IH) auto
  finally show ?case by simp
qed

text \<open>
  Once the last word of the text has been read, only the scope suffix is left; the loop
  pushes the word and ends.
\<close>

lemma last_word_run:
  assumes st: "state s = Fword \<and> length (front_bytes s) \<noteq> 16 \<or>
      state s = Bword \<and> length (front_bytes s) + length (back_bytes s) \<noteq> 16"
    and s: "ptr s = scope_text n" "current_word s \<le> 65535" "n \<le> 65535" "scope_out s = 0"
  shows "\<exists>s'. pton6_loop s = Some s' \<and> scope_out s' = n \<and>
    front_bytes s' = (if state s = Fword then front_bytes s @ word_bytes (current_word s) else front_bytes s) \<and>
    back_bytes s' = (if state s = Fword then back_bytes s else back_bytes s @ word_bytes (current_word s))"
proof (cases "n = 0")
  case True
  then show ?thesis using st s
    by (auto simp: pton6_loop.simps pton6_step_def fword_step_def bword_step_def scope_text_def)
next
  case False
  obtain ds where ds: "dec_string n = map digit_char ds" "\<forall>d \<in> set ds. d < 10" "base_value 10 0 ds = n"
    using digits_values [of 10 n] by auto
  define s1 where "s1 = (if state s = Fword
    then s\<lparr>front_bytes := front_bytes s @ word_bytes (current_word s), current_word := 0,
           state := Scope, ptr := map digit_char ds\<rparr>
    else s\<lparr>back_bytes := back_bytes s @ word_bytes (current_word s), current_word := 0,
           state := Scope, ptr := map digit_char ds\<rparr>)"
  have "hex_val (CHR ''%'') = None" by (simp add: hex_val_def)
  then have "pton6_loop s = pton6_loop s1"
    using st s False by (subst pton6_loop.simps)
      (auto simp: pton6_step_def fword_step_def bword_step_def scope_text_def ds s1_def Let_def)
  also have "\<dots> = Some (s1\<lparr>ptr := [], current_word := n, scope_out := n, state := Done\<rparr>)"
    using scope_digits_run [of s1 ds] ds s(3) by (simp add: s1_def)
  finally show ?thesis by (simp add: s1_def)
qed

lemma hex_val_colon [simp]: "hex_val (CHR '':'') = None"
  by (simp add: hex_val_def)

definition words_bytes :: "nat list \<Rightarrow> byte list" where
  "words_bytes ws = concat (map word_bytes ws)"

lemma words_bytes_simps [simp]:
  "words_bytes [] = []" "words_bytes (w # ws) = word_bytes w @ words_bytes ws"
  by (simp_all add: words_bytes_def)

lemma length_word_bytes [simp]: "length (word_bytes w) = 2"
  by (simp add: word_bytes_def)

lemma length_words_bytes [simp]: "length (words_bytes ws) = 2 * length ws"
  by (induction ws) auto

lemma words_bytes_zeros:
  "words_bytes ws = replicate (2 * (length ws - length (dropWhile (\<lambda>w. w = 0) ws))) 0 @
     words_bytes (dropWhile (\<lambda>w. w = 0) ws)"
proof (induction ws)
  case (Cons w ws)
  have "length (dropWhile (\<lambda>w. w = 0) ws) \<le> length ws" by (rule length_dropWhile_le)
  then show ?case
    using Cons by (auto simp: word_bytes_def Suc_diff_le)
qed simp

text \<open>Reading the words behind the double colon.\<close>

lemma back_words_run:
  assumes "state s = Bword" "current_word s \<le> 65535" "scope_out s = 0"
    "ptr s = words_text True False r @ scope_text n" "n \<le> 65535" "\<forall>w \<in> set r. w \<le> 65535"
    "length (front_bytes s) + length (back_bytes s) + 2 * Suc (length r) \<le> 16"
  shows "\<exists>s'. pton6_loop s = Some s' \<and> scope_out s' = n \<and> front_bytes s' = front_bytes s \<and>
    back_bytes s' = back_bytes s @ words_bytes (current_word s # r)"
  using assms
proof (induction r arbitrary: s)
  case Nil
  then show ?case using last_word_run [of s n] by auto
next
  case (Cons w r)
  let ?rest = "words_text True False r @ scope_text n"
  define s1 where "s1 = s\<lparr>back_bytes := back_bytes s @ word_bytes (current_word s), current_word := 0,
    state := Bword, ptr := hex_string w @ ?rest\<rparr>"
  have "pton6_loop s = pton6_loop s1"
    using Cons.prems by (subst pton6_loop.simps) (simp add: pton6_step_def bword_step_def s1_def)
  also have "\<dots> = pton6_loop (s1\<lparr>ptr := ?rest, current_word := w\<rparr>)"
    using Cons.prems by (intro hex_word_run) (simp_all add: s1_def)
  finally show ?case
    using Cons.IH [of "s1\<lparr>ptr := ?rest, current_word := w\<rparr>"] Cons.prems by (simp add: s1_def)
qed

text \<open>From the first colon of a double colon on.\<close>

lemma double_colon_run:
  assumes s: "state s = Fcolon" "current_word s = 0" "scope_out s = 0" "back_bytes s = []"
    "ptr s = (if r = [] then '':'' else words_text True False r) @ scope_text n" "n \<le> 65535"
    and r: "\<forall>w \<in> set r. w \<le> 65535" "length (front_bytes s) + 2 * length r \<le> 16" "length (front_bytes s) < 16"
  shows "\<exists>s'. pton6_loop s = Some s' \<and> scope_out s' = n \<and> front_bytes s' = front_bytes s \<and>
    back_bytes s' = (if r = [] then word_bytes 0 else words_bytes r)"
proof (cases r)
  case Nil
  let ?s1 = "s\<lparr>state := Bword, ptr := scope_text n\<rparr>"
  have "pton6_loop s = pton6_loop ?s1"
    using s Nil by (subst pton6_loop.simps) (simp add: pton6_step_def fcolon_step_def)
  then show ?thesis using last_word_run [of ?s1 n] s r Nil by auto
next
  case (Cons w ws)
  let ?rest = "words_text True False ws @ scope_text n"
  let ?s1 = "s\<lparr>state := Bword, ptr := hex_string w @ ?rest\<rparr>"
  have "pton6_loop s = pton6_loop ?s1"
    using s Cons by (subst pton6_loop.simps) (simp add: pton6_step_def fcolon_step_def)
  also have "\<dots> = pton6_loop (?s1\<lparr>ptr := ?rest, current_word := w\<rparr>)"
    using s r Cons by (intro hex_word_run) simp_all
  finally show ?thesis
    using back_words_run [of "?s1\<lparr>ptr := ?rest, current_word := w\<rparr>" ws n] s r Cons by simp
qed

lemma finish_zeros:
  assumes "pton6_loop s = Some s'" "scope_out s' = n" "front_bytes s' = fb"
    "back_bytes s' = (if r = [] then word_bytes 0 else words_bytes r)" "length fb \<le> 14"
  shows "pton6_finish (pton6_loop s) =
    Inr (fb @ replicate (16 - length fb - 2 * length r) 0 @ words_bytes r, n)"
proof (cases "r = []")
  case True
  have "replicate (16 - length fb - 2) (0 :: byte) @ word_bytes 0 =
      replicate (16 - length fb - 2) 0 @ replicate 2 0"
    by (simp add: word_bytes_def numeral_2_eq_2)
  also have "\<dots> = replicate (16 - length fb - 2 + 2) 0" by (rule replicate_add [symmetric])
  also have "16 - length fb - 2 + 2 = 16 - length fb" using assms(5) by simp
  finally show ?thesis using assms(1-4) True by (simp add: pton6_finish_def)
qed (use assms in \<open>simp add: pton6_finish_def\<close>)

lemma zeros_then:
  assumes "r = dropWhile (\<lambda>w. w = 0) ws" "m = 2 * (Suc (length ws) - length r)"
  shows "replicate m 0 @ words_bytes r = words_bytes (0 # ws)"
  using words_bytes_zeros [of "0 # ws"] assms by simp

lemma front_words_run:
  assumes "state s = Fword" "current_word s \<le> 65535" "scope_out s = 0" "back_bytes s = []"
    "ptr s = words_text False False ws @ scope_text n" "n \<le> 65535" "\<forall>w \<in> set ws. w \<le> 65535"
    "length (front_bytes s) + 2 * Suc (length ws) = 16"
  shows "pton6_finish (pton6_loop s) = Inr (front_bytes s @ words_bytes (current_word s # ws), n)"
  using assms
proof (induction ws arbitrary: s)
  case Nil
  then show ?case using last_word_run [of s n] by (auto simp: pton6_finish_def)
next
  case (Cons w ws)
  let ?fb = "front_bytes s @ word_bytes (current_word s)"
  show ?case
  proof (cases "w = 0")
    case True
    let ?r = "dropWhile (\<lambda>w. w = 0) ws"
    let ?s1 = "s\<lparr>front_bytes := ?fb, current_word := 0, state := Fcolon,
      ptr := (if ?r = [] then '':'' else words_text True False ?r) @ scope_text n\<rparr>"
    have eq: "pton6_loop s = pton6_loop ?s1"
      using Cons.prems True
      by (subst pton6_loop.simps) (simp add: pton6_step_def fword_step_def Let_def del: dropWhile_eq_Nil_conv)
    have wr: "\<forall>w \<in> set ?r. w \<le> 65535" using Cons.prems(7) by (auto dest: set_dropWhileD)
    have "\<exists>s'. pton6_loop ?s1 = Some s' \<and> scope_out s' = n \<and> front_bytes s' = ?fb \<and>
        back_bytes s' = (if ?r = [] then word_bytes 0 else words_bytes ?r)"
      using double_colon_run [of ?s1 ?r n] Cons.prems wr length_dropWhile_le [of "\<lambda>w. w = 0" ws]
      by (simp del: dropWhile_eq_Nil_conv)
    then obtain s' where s': "pton6_loop ?s1 = Some s'" "scope_out s' = n" "front_bytes s' = ?fb"
      "back_bytes s' = (if ?r = [] then word_bytes 0 else words_bytes ?r)" by blast
    have "length ?fb \<le> 14" using Cons.prems(8) by simp
    note fin = finish_zeros [OF s' this]
    have "16 - length ?fb - 2 * length ?r = 2 * (Suc (length ws) - length ?r)"
      using Cons.prems(8) length_dropWhile_le [of "\<lambda>w. w = 0" ws] by simp
    note z = zeros_then [OF refl this]
    show ?thesis unfolding eq fin z True by simp
  next
    case False
    let ?rest = "words_text False False ws @ scope_text n"
    let ?s1 = "s\<lparr>front_bytes := ?fb, current_word := 0, state := Fcolon, ptr := hex_string w @ ?rest\<rparr>"
    let ?s2 = "?s1\<lparr>state := Fword\<rparr>"
    obtain d ds where "hex_string w = digit_char d # ds" "d < 16"
      using digits_values [of 16 w] by (auto simp: neq_Nil_conv)
    then have nc: "hex_string w = digit_char d # ds" "digit_char d \<noteq> CHR '':''"
      using digit_char_facts(1) [of d] by auto
    have "pton6_loop s = pton6_loop ?s1"
      using Cons.prems False by (subst pton6_loop.simps) (simp add: pton6_step_def fword_step_def)
    also have "\<dots> = pton6_loop ?s2"
      by (subst pton6_loop.simps) (simp add: pton6_step_def fcolon_step_def nc)
    also have "\<dots> = pton6_loop (?s2\<lparr>ptr := ?rest, current_word := w\<rparr>)"
      using Cons.prems by (intro hex_word_run) simp_all
    finally show ?thesis
      using Cons.IH [of "?s2\<lparr>ptr := ?rest, current_word := w\<rparr>"] Cons.prems by simp
  qed
qed

lemma text_run:
  assumes ws: "length ws = 8" "\<forall>w \<in> set ws. w \<le> 65535" and n: "n \<le> 65535"
  shows "inet_pton6 (words_text False True ws @ scope_text n) = Inr (words_bytes ws, n)"
proof -
  obtain w us where w: "ws = w # us" "length us = 7" using ws(1) by (cases ws) auto
  let ?s = "pton6_init (words_text False True ws @ scope_text n)"
  show ?thesis
  proof (cases "w = 0")
    case True
    let ?r = "dropWhile (\<lambda>w. w = 0) us"
    let ?s1 = "?s\<lparr>front_bytes := word_bytes 0, state := Fcolon,
      ptr := (if ?r = [] then '':'' else words_text True False ?r) @ scope_text n\<rparr>"
    have eq: "pton6_loop ?s = pton6_loop ?s1"
      using True w
      by (subst pton6_loop.simps)
        (simp add: pton6_step_def fword_step_def Let_def pton6_init_def del: dropWhile_eq_Nil_conv)
    have "\<exists>s'. pton6_loop ?s1 = Some s' \<and> scope_out s' = n \<and> front_bytes s' = front_bytes ?s1 \<and>
        back_bytes s' = (if ?r = [] then word_bytes 0 else words_bytes ?r)"
      using ws w n length_dropWhile_le [of "\<lambda>w. w = 0" us]
      by (intro double_colon_run) (auto dest: set_dropWhileD simp: pton6_init_def simp del: dropWhile_eq_Nil_conv)
    then obtain s' where s': "pton6_loop ?s1 = Some s'" "scope_out s' = n" "front_bytes s' = word_bytes 0"
      "back_bytes s' = (if ?r = [] then word_bytes 0 else words_bytes ?r)" by auto
    note fin = finish_zeros [OF s']
    have le: "length ?r \<le> 7" using length_dropWhile_le [of "\<lambda>w. w = 0" us] w by simp
    have "replicate 2 0 @ replicate (14 - 2 * length ?r) 0 = replicate (2 + (14 - 2 * length ?r)) (0 :: byte)"
      by (rule replicate_add [symmetric])
    moreover have "2 + (14 - 2 * length ?r) = 2 * (Suc (length us) - length ?r)" using le w by simp
    moreover have "word_bytes 0 = replicate 2 0" by (simp add: word_bytes_def numeral_2_eq_2)
    ultimately have "word_bytes 0 @ replicate (14 - 2 * length ?r) 0 @ words_bytes ?r = words_bytes ws"
      using zeros_then [OF refl refl, of us] True w by (metis append_assoc)
    then show ?thesis using fin by (simp add: inet_pton6_def eq)
  next
    case False
    let ?rest = "words_text False False us @ scope_text n"
    have "pton6_loop ?s = pton6_loop (?s\<lparr>ptr := ?rest, current_word := w\<rparr>)"
      using w ws False by (intro hex_word_run) (simp_all add: pton6_init_def)
    moreover have "pton6_finish (pton6_loop (?s\<lparr>ptr := ?rest, current_word := w\<rparr>)) = Inr (words_bytes ws, n)"
      using front_words_run [of "?s\<lparr>ptr := ?rest, current_word := w\<rparr>" us n] w ws n
      by (simp add: pton6_init_def)
    ultimately show ?thesis by (simp add: inet_pton6_def)
  qed
qed

lemma words_bytes_of:
  assumes "length bytes = 16"
  shows "words_bytes (words_of bytes) = bytes"
proof -
  have pair: "word_bytes (pair_word bytes i) = [bytes ! i, bytes ! (i + 1)]" for i
  proof -
    have byte_256: "(256 :: byte) = 0" by code_simp
    have "pair_word bytes i div 256 = unat (bytes ! i)"
      using byte_le [of "bytes ! (i + 1)"] by (simp add: pair_word_def)
    moreover have "(of_nat (pair_word bytes i) :: byte) = bytes ! (i + 1)"
      by (simp add: pair_word_def byte_256)
    ultimately show ?thesis by (simp add: word_bytes_def)
  qed
  have "words_bytes (words_of bytes) = concat (map (\<lambda>i. [bytes ! (2 * i), bytes ! (2 * i + 1)]) [0..<8])"
    by (simp add: words_bytes_def words_of_def pair o_def)
  also have "\<dots> = map ((!) bytes) [0..<16]" by (simp add: upt_rec numeral_eq_Suc)
  also have "\<dots> = bytes" using assms by (simp add: map_nth flip: assms)
  finally show ?thesis .
qed

lemma pton6_ntop6:
  assumes "length bytes = 16" "n \<le> 65535"
  obtains str where "inet_ntop6 bytes 256 n = Some str" "inet_pton6 str = Inr (bytes, n)"
proof -
  let ?ws = "words_of bytes" and ?t = "words_text False True (words_of bytes)"
  have ws: "\<forall>w \<in> set ?ws. w \<le> 65535" by (auto simp: words_of_def intro: pair_word_le)
  have "ntop6_loop bytes 256 [] 0 0 = Some ?t"
    using ntop6_loop_text [of 0 "[]" 256 bytes 0] by simp
  moreover have "length ?t \<le> 41" using length_words_text [OF ws, of False True] by simp
  ultimately have "inet_ntop6 bytes 256 n = Some (?t @ scope_text n)"
    using length_dec_word [OF assms(2)] by (simp add: inet_ntop6_def scope_text_def sprintf_s_def)
  moreover have "inet_pton6 (?t @ scope_text n) = Inr (bytes, n)"
    using text_run [of ?ws n] ws assms words_bytes_of by simp
  ultimately show ?thesis by (rule that)
qed

end
