(* ===== verification/IpAddress.thy ===== *)
theory IpAddress
  imports InetText
begin

text \<open>
  The address types of \<open>include/asio/ip\<close>: \<open>address_v4\<close> (its four bytes in network order, the
  memory image of \<open>s_addr\<close>), \<open>address_v6\<close> (sixteen bytes and a scope identifier) and the
  variant \<open>address\<close>, with construction, classification, comparison and text conversion.
  An exception is a left value; the functions with an \<open>error_code&\<close> argument return the code
  and the value.
\<close>

unbundle bit_operations_syntax

section \<open>Byte order\<close>

text \<open>
  \<open>network_to_host_long\<close> and \<open>host_to_network_long\<close>, in the variant written out in
  \<open>socket_ops.ipp\<close>: the network value is its four bytes in memory.
\<close>

fun network_to_host_long :: "in4_addr \<Rightarrow> 32 word" where
  "network_to_host_long (b0, b1, b2, b3) =
     push_bit 24 (ucast b0) OR push_bit 16 (ucast b1) OR push_bit 8 (ucast b2) OR ucast b3"

definition host_to_network_long :: "32 word \<Rightarrow> in4_addr" where
  "host_to_network_long value =
     (ucast (drop_bit 24 value AND 0xFF), ucast (drop_bit 16 value AND 0xFF),
      ucast (drop_bit 8 value AND 0xFF), ucast (value AND 0xFF))"

fun network_to_host_short :: "byte \<times> byte \<Rightarrow> 16 word" where
  "network_to_host_short (b0, b1) = push_bit 8 (ucast b0) OR ucast b1"

definition host_to_network_short :: "16 word \<Rightarrow> byte \<times> byte" where
  "host_to_network_short value = (ucast (drop_bit 8 value AND 0xFF), ucast (value AND 0xFF))"

lemma ff_mask: "(255 :: 'a::len word) = mask 8"
  by (simp add: mask_eq_exp_minus_1)

lemma byte_bit_out: "\<not> n < 8 \<Longrightarrow> \<not> bit (w :: byte) n"
  using bit_imp_le_length [of w n] by auto

lemma host_network_long [simp]: "network_to_host_long (host_to_network_long w) = w"
proof (rule bit_word_eqI)
  fix n assume "n < LENGTH(32)"
  then show "bit (network_to_host_long (host_to_network_long w)) n \<longleftrightarrow> bit w n"
    unfolding host_to_network_long_def ff_mask network_to_host_long.simps
    by (cases "n < 8"; cases "n < 16"; cases "n < 24")
      (simp_all add: bit_simps not_less less_diff_conv2)
qed

lemma network_host_long [simp]: "host_to_network_long (network_to_host_long b) = b"
proof -
  obtain b0 b1 b2 b3 where b: "b = (b0, b1, b2, b3)" by (metis prod_cases4)
  have "(ucast (drop_bit 24 (network_to_host_long b) AND 0xFF) :: byte) = b0"
    "(ucast (drop_bit 16 (network_to_host_long b) AND 0xFF) :: byte) = b1"
    "(ucast (drop_bit 8 (network_to_host_long b) AND 0xFF) :: byte) = b2"
    "(ucast (network_to_host_long b AND 0xFF) :: byte) = b3"
    unfolding ff_mask by (rule bit_word_eqI; simp add: b bit_simps byte_bit_out)+
  then show ?thesis by (simp add: host_to_network_long_def b)
qed

lemma host_network_short: "network_to_host_short (host_to_network_short w) = w"
proof (rule bit_word_eqI)
  fix n assume "n < LENGTH(16)"
  then show "bit (network_to_host_short (host_to_network_short w)) n \<longleftrightarrow> bit w n"
    unfolding host_to_network_short_def ff_mask network_to_host_short.simps
    by (cases "n < 8") (simp_all add: bit_simps not_less less_diff_conv2)
qed

section \<open>IPv4 addresses\<close>

datatype address_v4 = Address_v4 (s_addr: in4_addr)

definition v4_default :: address_v4 where
  "v4_default = Address_v4 (0, 0, 0, 0)"

definition v4_of_bytes :: "in4_addr \<Rightarrow> address_v4" where
  "v4_of_bytes bytes = Address_v4 bytes"

definition v4_of_uint :: "32 word \<Rightarrow> address_v4" where
  "v4_of_uint addr = Address_v4 (host_to_network_long addr)"

definition v4_to_bytes :: "address_v4 \<Rightarrow> in4_addr" where
  "v4_to_bytes a = s_addr a"

definition v4_to_uint :: "address_v4 \<Rightarrow> 32 word" where
  "v4_to_uint a = network_to_host_long (s_addr a)"

definition v4_to_string :: "address_v4 \<Rightarrow> string" where
  "v4_to_string a = inet_ntop4 (s_addr a)"

definition v4_is_loopback :: "address_v4 \<Rightarrow> bool" where
  "v4_is_loopback a \<longleftrightarrow> v4_to_uint a AND 0xFF000000 = 0x7F000000"

definition v4_is_unspecified :: "address_v4 \<Rightarrow> bool" where
  "v4_is_unspecified a \<longleftrightarrow> v4_to_uint a = 0"

definition v4_is_class_a :: "address_v4 \<Rightarrow> bool" where
  "v4_is_class_a a \<longleftrightarrow> v4_to_uint a AND 0x80000000 = 0"

definition v4_is_class_b :: "address_v4 \<Rightarrow> bool" where
  "v4_is_class_b a \<longleftrightarrow> v4_to_uint a AND 0xC0000000 = 0x80000000"

definition v4_is_class_c :: "address_v4 \<Rightarrow> bool" where
  "v4_is_class_c a \<longleftrightarrow> v4_to_uint a AND 0xE0000000 = 0xC0000000"

definition v4_is_multicast :: "address_v4 \<Rightarrow> bool" where
  "v4_is_multicast a \<longleftrightarrow> v4_to_uint a AND 0xF0000000 = 0xE0000000"

definition v4_broadcast :: "address_v4 \<Rightarrow> address_v4 \<Rightarrow> address_v4" where
  "v4_broadcast addr netmask = v4_of_uint (v4_to_uint addr OR (v4_to_uint netmask XOR 0xFFFFFFFF))"

definition v4_netmask :: "address_v4 \<Rightarrow> address_v4" where
  "v4_netmask addr =
     (if v4_is_class_a addr then v4_of_uint 0xFF000000
      else if v4_is_class_b addr then v4_of_uint 0xFFFF0000
      else if v4_is_class_c addr then v4_of_uint 0xFFFFFF00
      else v4_of_uint 0xFFFFFFFF)"

text \<open>
  \<open>make_address_v4\<close> with an error code and the throwing overload. A \<open>std::string\<close> is passed on
  through \<open>c_str\<close>, which ends at the first null character.
\<close>

definition c_str :: "string \<Rightarrow> string" where
  "c_str s = takeWhile (\<lambda>c. c \<noteq> CHR 0x00) s"

definition make_address_v4 :: "string \<Rightarrow> error_code \<times> address_v4" where
  "make_address_v4 str =
     (case inet_pton4 (c_str str) of
        Inl ec \<Rightarrow> (ec, v4_default)
      | Inr bytes \<Rightarrow> (Ok_code, v4_of_bytes bytes))"

definition make_address_v4_throw :: "string \<Rightarrow> exn + address_v4" where
  "make_address_v4_throw str = (case make_address_v4 str of (ec, addr) \<Rightarrow> throw_error ec addr)"

text \<open>\<open>operator<\<close> compares host-order values, \<open>operator==\<close> the stored ones.\<close>

definition v4_less :: "address_v4 \<Rightarrow> address_v4 \<Rightarrow> bool" where
  "v4_less a1 a2 \<longleftrightarrow> v4_to_uint a1 < v4_to_uint a2"

definition v4_less_eq :: "address_v4 \<Rightarrow> address_v4 \<Rightarrow> bool" where
  "v4_less_eq a1 a2 \<longleftrightarrow> v4_to_uint a1 \<le> v4_to_uint a2"

instantiation address_v4 :: linorder
begin

definition less_address_v4 :: "address_v4 \<Rightarrow> address_v4 \<Rightarrow> bool" where
  "less_address_v4 = v4_less"

definition less_eq_address_v4 :: "address_v4 \<Rightarrow> address_v4 \<Rightarrow> bool" where
  "less_eq_address_v4 = v4_less_eq"

instance
proof
  fix a b c :: address_v4
  show "a < b \<longleftrightarrow> a \<le> b \<and> \<not> b \<le> a" by (auto simp: less_address_v4_def v4_less_def less_eq_address_v4_def v4_less_eq_def)
  show "a \<le> a" "a \<le> b \<Longrightarrow> b \<le> c \<Longrightarrow> a \<le> c" "a \<le> b \<or> b \<le> a"
    by (auto simp: less_eq_address_v4_def v4_less_eq_def)
  show "a \<le> b \<Longrightarrow> b \<le> a \<Longrightarrow> a = b"
    by (metis address_v4.exhaust_sel antisym less_eq_address_v4_def v4_less_eq_def network_host_long v4_to_uint_def)
qed

end

lemma v4_uint [simp]: "v4_to_uint (v4_of_uint w) = w" "v4_of_uint (v4_to_uint a) = a"
  by (simp_all add: v4_to_uint_def v4_of_uint_def)

lemma v4_eq_iff: "a = b \<longleftrightarrow> v4_to_uint a = v4_to_uint b"
  by (metis v4_uint(2))

section \<open>IPv6 addresses\<close>

datatype address_v6 = Address_v6 (s6_addr: "byte list") (v6_scope: "32 word")

text \<open>The array has sixteen elements.\<close>

definition v6_ok :: "address_v6 \<Rightarrow> bool" where
  "v6_ok a \<longleftrightarrow> length (s6_addr a) = 16"

definition v6_default :: address_v6 where
  "v6_default = Address_v6 (replicate 16 0) 0"

definition v6_of_bytes :: "byte list \<Rightarrow> 32 word \<Rightarrow> address_v6" where
  "v6_of_bytes bytes scope = Address_v6 bytes scope"

definition v6_to_bytes :: "address_v6 \<Rightarrow> byte list" where
  "v6_to_bytes a = s6_addr a"

definition v6_to_string :: "address_v6 \<Rightarrow> string option" where
  "v6_to_string a = inet_ntop6 (s6_addr a) 256 (unat (v6_scope a))"

definition zero_bytes :: "address_v6 \<Rightarrow> nat \<Rightarrow> bool" where
  "zero_bytes a n \<longleftrightarrow> (\<forall>i \<in> set [0..<n]. s6_addr a ! i = 0)"

definition v6_is_loopback :: "address_v6 \<Rightarrow> bool" where
  "v6_is_loopback a \<longleftrightarrow> zero_bytes a 15 \<and> s6_addr a ! 15 = 1"

definition v6_is_unspecified :: "address_v6 \<Rightarrow> bool" where
  "v6_is_unspecified a \<longleftrightarrow> zero_bytes a 16"

definition v6_is_link_local :: "address_v6 \<Rightarrow> bool" where
  "v6_is_link_local a \<longleftrightarrow> s6_addr a ! 0 = 0xFE \<and> s6_addr a ! 1 AND 0xC0 = 0x80"

definition v6_is_site_local :: "address_v6 \<Rightarrow> bool" where
  "v6_is_site_local a \<longleftrightarrow> s6_addr a ! 0 = 0xFE \<and> s6_addr a ! 1 AND 0xC0 = 0xC0"

definition v6_is_v4_mapped :: "address_v6 \<Rightarrow> bool" where
  "v6_is_v4_mapped a \<longleftrightarrow> zero_bytes a 10 \<and> s6_addr a ! 10 = 0xFF \<and> s6_addr a ! 11 = 0xFF"

definition v6_is_v4_compatible :: "address_v6 \<Rightarrow> bool" where
  "v6_is_v4_compatible a \<longleftrightarrow>
     zero_bytes a 12 \<and>
     \<not> (s6_addr a ! 12 = 0 \<and> s6_addr a ! 13 = 0 \<and> s6_addr a ! 14 = 0 \<and>
        (s6_addr a ! 15 = 0 \<or> s6_addr a ! 15 = 1))"

definition v6_is_multicast :: "address_v6 \<Rightarrow> bool" where
  "v6_is_multicast a \<longleftrightarrow> s6_addr a ! 0 = 0xFF"

text \<open>\<open>is_multicast_global\<close> and its companions differ in the scope nibble.\<close>

definition v6_multicast_scope :: "byte \<Rightarrow> address_v6 \<Rightarrow> bool" where
  "v6_multicast_scope sc a \<longleftrightarrow> s6_addr a ! 0 = 0xFF \<and> s6_addr a ! 1 AND 0x0F = sc"

definition v6_is_multicast_global :: "address_v6 \<Rightarrow> bool" where
  "v6_is_multicast_global = v6_multicast_scope 0x0E"

definition v6_is_multicast_link_local :: "address_v6 \<Rightarrow> bool" where
  "v6_is_multicast_link_local = v6_multicast_scope 0x02"

definition v6_is_multicast_node_local :: "address_v6 \<Rightarrow> bool" where
  "v6_is_multicast_node_local = v6_multicast_scope 0x01"

definition v6_is_multicast_org_local :: "address_v6 \<Rightarrow> bool" where
  "v6_is_multicast_org_local = v6_multicast_scope 0x08"

definition v6_is_multicast_site_local :: "address_v6 \<Rightarrow> bool" where
  "v6_is_multicast_site_local = v6_multicast_scope 0x05"

definition v6_loopback :: address_v6 where
  "v6_loopback = Address_v6 ((replicate 16 0)[15 := 1]) 0"

text \<open>\<open>memcmp\<close> on two blocks of the same size.\<close>

fun memcmp :: "byte list \<Rightarrow> byte list \<Rightarrow> int" where
  "memcmp (a # as) (b # bs) = (if a < b then -1 else if b < a then 1 else memcmp as bs)"
| "memcmp (a # as) [] = 1"
| "memcmp [] (b # bs) = -1"
| "memcmp [] [] = 0"

lemma memcmp_refl: "memcmp as as = 0"
  by (induction as) auto

lemma memcmp_eq0: "memcmp as bs = 0 \<longleftrightarrow> as = bs"
  by (induction as bs rule: memcmp.induct) auto

lemma memcmp_flip: "memcmp as bs < 0 \<longleftrightarrow> memcmp bs as > 0"
  by (induction as bs rule: memcmp.induct) auto

lemma memcmp_trans: "memcmp as bs < 0 \<Longrightarrow> memcmp bs cs < 0 \<Longrightarrow> memcmp as cs < 0"
proof (induction as bs arbitrary: cs rule: memcmp.induct)
  case (1 a as b bs)
  then show ?case by (cases cs) (auto split: if_splits)
next
  case (3 b bs)
  then show ?case by (cases cs) (auto split: if_splits)
qed auto

definition v6_less :: "address_v6 \<Rightarrow> address_v6 \<Rightarrow> bool" where
  "v6_less a1 a2 \<longleftrightarrow>
     (let memcmp_result = memcmp (s6_addr a1) (s6_addr a2)
      in if memcmp_result < 0 then True
         else if memcmp_result > 0 then False
         else v6_scope a1 < v6_scope a2)"

definition v6_less_eq :: "address_v6 \<Rightarrow> address_v6 \<Rightarrow> bool" where
  "v6_less_eq a1 a2 \<longleftrightarrow> \<not> v6_less a2 a1"

instantiation address_v6 :: linorder
begin

definition less_address_v6 :: "address_v6 \<Rightarrow> address_v6 \<Rightarrow> bool" where
  "less_address_v6 = v6_less"

definition less_eq_address_v6 :: "address_v6 \<Rightarrow> address_v6 \<Rightarrow> bool" where
  "less_eq_address_v6 = v6_less_eq"

instance
proof
  fix a b c :: address_v6
  have less: "a < b \<longleftrightarrow> memcmp (s6_addr a) (s6_addr b) < 0 \<or>
      s6_addr a = s6_addr b \<and> v6_scope a < v6_scope b" for a b :: address_v6
    using memcmp_eq0 [of "s6_addr a" "s6_addr b"] by (auto simp: less_address_v6_def v6_less_def Let_def)
  have le: "a \<le> b \<longleftrightarrow> a < b \<or> a = b" for a b :: address_v6
  proof (cases "s6_addr a = s6_addr b")
    case True
    then have "a = b \<longleftrightarrow> v6_scope a = v6_scope b" by (cases a; cases b) simp
    with True show ?thesis by (auto simp: less_eq_address_v6_def v6_less_eq_def less_address_v6_def [symmetric] less memcmp_refl)
  next
    case False
    then have "a \<noteq> b" "memcmp (s6_addr a) (s6_addr b) \<noteq> 0" by (auto simp: memcmp_eq0)
    with False memcmp_flip [of "s6_addr b" "s6_addr a"] show ?thesis
      by (simp add: less_eq_address_v6_def v6_less_eq_def less_address_v6_def [symmetric] less) linarith
  qed
  show "a < b \<longleftrightarrow> a \<le> b \<and> \<not> b \<le> a" "a \<le> a" "a \<le> b \<or> b \<le> a"
    by (metis le less_eq_address_v6_def v6_less_eq_def less_address_v6_def)+
  show "a \<le> b \<Longrightarrow> b \<le> c \<Longrightarrow> a \<le> c"
    unfolding le less using memcmp_trans [of "s6_addr a" "s6_addr b" "s6_addr c"] by auto
  show "a \<le> b \<Longrightarrow> b \<le> a \<Longrightarrow> a = b"
    by (metis le less_eq_address_v6_def v6_less_eq_def less_address_v6_def)
qed

end

text \<open>The scope identifier is an \<open>unsigned long\<close> in \<open>inet_pton\<close>, narrowed by the constructor.\<close>

definition make_address_v6 :: "string \<Rightarrow> error_code \<times> address_v6" where
  "make_address_v6 str =
     (case inet_pton6 (c_str str) of
        Inl ec \<Rightarrow> (ec, v6_default)
      | Inr (bytes, scope_id) \<Rightarrow> (Ok_code, v6_of_bytes bytes (of_nat scope_id)))"

definition make_address_v6_throw :: "string \<Rightarrow> exn + address_v6" where
  "make_address_v6_throw str = (case make_address_v6 str of (ec, addr) \<Rightarrow> throw_error ec addr)"

definition last_four :: "byte list \<Rightarrow> in4_addr" where
  "last_four bytes = (bytes ! 12, bytes ! 13, bytes ! 14, bytes ! 15)"

definition four_list :: "in4_addr \<Rightarrow> byte list" where
  "four_list b = (case b of (b0, b1, b2, b3) \<Rightarrow> [b0, b1, b2, b3])"

definition v6_to_v4 :: "address_v6 \<Rightarrow> exn + address_v4" where
  "v6_to_v4 a =
     (if \<not> v6_is_v4_mapped a \<and> \<not> v6_is_v4_compatible a then Inl Bad_address_cast
      else Inr (v4_of_bytes (last_four (s6_addr a))))"

definition v6_v4_mapped :: "address_v4 \<Rightarrow> address_v6" where
  "v6_v4_mapped addr =
     v6_of_bytes (replicate 10 0 @ [0xFF, 0xFF] @ four_list (v4_to_bytes addr)) 0"

definition v6_v4_compatible :: "address_v4 \<Rightarrow> address_v6" where
  "v6_v4_compatible addr = v6_of_bytes (replicate 12 0 @ four_list (v4_to_bytes addr)) 0"

definition make_v4_from_mapped :: "address_v6 \<Rightarrow> exn + address_v4" where
  "make_v4_from_mapped a =
     (if \<not> v6_is_v4_mapped a then Inl Bad_address_cast
      else Inr (v4_of_bytes (last_four (v6_to_bytes a))))"

definition make_v6_mapped :: "address_v4 \<Rightarrow> address_v6" where
  "make_v6_mapped addr =
     v6_of_bytes (replicate 10 0 @ [0xFF, 0xFF] @ four_list (v4_to_bytes addr)) 0"

section \<open>Version-independent addresses\<close>

datatype address_type = Ipv4 | Ipv6

record address =
  addr_type :: address_type
  ipv4_address :: address_v4
  ipv6_address :: address_v6

definition addr_default :: address where
  "addr_default = \<lparr>addr_type = Ipv4, ipv4_address = v4_default, ipv6_address = v6_default\<rparr>"

definition addr_of_v4 :: "address_v4 \<Rightarrow> address" where
  "addr_of_v4 a = \<lparr>addr_type = Ipv4, ipv4_address = a, ipv6_address = v6_default\<rparr>"

definition addr_of_v6 :: "address_v6 \<Rightarrow> address" where
  "addr_of_v6 a = \<lparr>addr_type = Ipv6, ipv4_address = v4_default, ipv6_address = a\<rparr>"

definition addr_assign_v4 :: "address \<Rightarrow> address_v4 \<Rightarrow> address" where
  "addr_assign_v4 s a = s\<lparr>addr_type := Ipv4, ipv4_address := a, ipv6_address := v6_default\<rparr>"

definition addr_assign_v6 :: "address \<Rightarrow> address_v6 \<Rightarrow> address" where
  "addr_assign_v6 s a = s\<lparr>addr_type := Ipv6, ipv4_address := v4_default, ipv6_address := a\<rparr>"

definition make_address :: "string \<Rightarrow> error_code \<times> address" where
  "make_address str =
     (case make_address_v6 str of (ec, ipv6) \<Rightarrow>
        if \<not> failed ec then (ec, addr_of_v6 ipv6)
        else (case make_address_v4 str of (ec, ipv4) \<Rightarrow>
          if \<not> failed ec then (ec, addr_of_v4 ipv4) else (ec, addr_default)))"

definition make_address_throw :: "string \<Rightarrow> exn + address" where
  "make_address_throw str = (case make_address str of (ec, addr) \<Rightarrow> throw_error ec addr)"

definition addr_to_v4 :: "address \<Rightarrow> exn + address_v4" where
  "addr_to_v4 a = (if addr_type a \<noteq> Ipv4 then Inl Bad_address_cast else Inr (ipv4_address a))"

definition addr_to_v6 :: "address \<Rightarrow> exn + address_v6" where
  "addr_to_v6 a = (if addr_type a \<noteq> Ipv6 then Inl Bad_address_cast else Inr (ipv6_address a))"

definition addr_to_string :: "address \<Rightarrow> string option" where
  "addr_to_string a =
     (if addr_type a = Ipv6 then v6_to_string (ipv6_address a)
      else Some (v4_to_string (ipv4_address a)))"

definition addr_is_loopback :: "address \<Rightarrow> bool" where
  "addr_is_loopback a =
     (if addr_type a = Ipv4 then v4_is_loopback (ipv4_address a) else v6_is_loopback (ipv6_address a))"

definition addr_is_unspecified :: "address \<Rightarrow> bool" where
  "addr_is_unspecified a =
     (if addr_type a = Ipv4 then v4_is_unspecified (ipv4_address a)
      else v6_is_unspecified (ipv6_address a))"

definition addr_is_multicast :: "address \<Rightarrow> bool" where
  "addr_is_multicast a =
     (if addr_type a = Ipv4 then v4_is_multicast (ipv4_address a) else v6_is_multicast (ipv6_address a))"

definition addr_eq :: "address \<Rightarrow> address \<Rightarrow> bool" where
  "addr_eq a1 a2 =
     (if addr_type a1 \<noteq> addr_type a2 then False
      else if addr_type a1 = Ipv6 then ipv6_address a1 = ipv6_address a2
      else ipv4_address a1 = ipv4_address a2)"

fun type_rank :: "address_type \<Rightarrow> nat" where
  "type_rank Ipv4 = 0"
| "type_rank Ipv6 = 1"

definition addr_less :: "address \<Rightarrow> address \<Rightarrow> bool" where
  "addr_less a1 a2 =
     (if type_rank (addr_type a1) < type_rank (addr_type a2) then True
      else if type_rank (addr_type a1) > type_rank (addr_type a2) then False
      else if addr_type a1 = Ipv6 then ipv6_address a1 < ipv6_address a2
      else ipv4_address a1 < ipv4_address a2)"

end
