(* ===== verification/IpNetwork.thy ===== *)
theory IpNetwork
  imports IpAddress
begin

text \<open>
  Networks, address iterators and address ranges: \<open>network_v4\<close>, \<open>network_v6\<close>,
  \<open>address_v4_iterator\<close>, \<open>address_v6_iterator\<close> and the two ranges of \<open>include/asio/ip\<close>.
\<close>

section \<open>Iterators and ranges\<close>

definition v4_inc :: "address_v4 \<Rightarrow> address_v4" where
  "v4_inc a = v4_of_uint ((v4_to_uint a + 1) AND 0xFFFFFFFF)"

definition v4_dec :: "address_v4 \<Rightarrow> address_v4" where
  "v4_dec a = v4_of_uint ((v4_to_uint a - 1) AND 0xFFFFFFFF)"

text \<open>The loops over the bytes from the last to the first; the argument is one more than \<open>i\<close>.\<close>

fun v6_inc_loop :: "nat \<Rightarrow> byte list \<Rightarrow> byte list" where
  "v6_inc_loop 0 bs = bs"
| "v6_inc_loop (Suc i) bs =
     (if bs ! i < 0xFF then bs[i := bs ! i + 1] else v6_inc_loop i (bs[i := 0]))"

fun v6_dec_loop :: "nat \<Rightarrow> byte list \<Rightarrow> byte list" where
  "v6_dec_loop 0 bs = bs"
| "v6_dec_loop (Suc i) bs =
     (if bs ! i > 0 then bs[i := bs ! i - 1] else v6_dec_loop i (bs[i := 0xFF]))"

definition v6_inc :: "address_v6 \<Rightarrow> address_v6" where
  "v6_inc a = Address_v6 (v6_inc_loop 16 (s6_addr a)) (v6_scope a)"

definition v6_dec :: "address_v6 \<Rightarrow> address_v6" where
  "v6_dec a = Address_v6 (v6_dec_loop 16 (s6_addr a)) (v6_scope a)"

record 'a addr_range =
  range_begin :: 'a
  range_end :: 'a

definition v4_range_size :: "address_v4 addr_range \<Rightarrow> nat" where
  "v4_range_size r = unat (v4_to_uint (range_end r) - v4_to_uint (range_begin r))"

definition v4_range_empty :: "address_v4 addr_range \<Rightarrow> bool" where
  "v4_range_empty r \<longleftrightarrow> v4_range_size r = 0"

definition v4_range_find :: "address_v4 addr_range \<Rightarrow> address_v4 \<Rightarrow> address_v4" where
  "v4_range_find r addr =
     (if addr \<ge> range_begin r \<and> addr < range_end r then addr else range_end r)"

definition v6_range_empty :: "address_v6 addr_range \<Rightarrow> bool" where
  "v6_range_empty r \<longleftrightarrow> range_begin r = range_end r"

definition v6_range_find :: "address_v6 addr_range \<Rightarrow> address_v6 \<Rightarrow> address_v6" where
  "v6_range_find r addr =
     (if addr \<ge> range_begin r \<and> addr < range_end r then addr else range_end r)"

section \<open>IPv4 networks\<close>

record network_v4 =
  net4_address :: address_v4
  net4_prefix :: nat

definition net4_default :: network_v4 where
  "net4_default = \<lparr>net4_address = v4_default, net4_prefix = 0\<rparr>"

definition net4_new :: "address_v4 \<Rightarrow> nat \<Rightarrow> exn + network_v4" where
  "net4_new addr prefix_len =
     (if prefix_len > 32 then Inl Out_of_range
      else Inr \<lparr>net4_address = addr, net4_prefix = prefix_len\<rparr>)"

text \<open>
  The loop of the constructor from a netmask: the switch gives the bits a byte adds, and
  every byte but 255 ends the mask.
\<close>

definition mask_byte_bits :: "byte \<Rightarrow> nat option" where
  "mask_byte_bits b =
     (if b = 255 then Some 8 else if b = 254 then Some 7 else if b = 252 then Some 6
      else if b = 248 then Some 5 else if b = 240 then Some 4 else if b = 224 then Some 3
      else if b = 192 then Some 2 else if b = 128 then Some 1 else if b = 0 then Some 0
      else None)"

fun mask_loop :: "byte list \<Rightarrow> bool \<Rightarrow> nat \<Rightarrow> exn + nat" where
  "mask_loop [] finished prefix_length = Inr prefix_length"
| "mask_loop (b # bs) finished prefix_length =
     (if finished then
        (if b \<noteq> 0 then Inl Invalid_argument_exn else mask_loop bs finished prefix_length)
      else (case mask_byte_bits b of
              None \<Rightarrow> Inl Out_of_range
            | Some bits \<Rightarrow> mask_loop bs (b \<noteq> 255) (prefix_length + bits)))"

definition net4_of_mask :: "address_v4 \<Rightarrow> address_v4 \<Rightarrow> exn + network_v4" where
  "net4_of_mask addr netmask =
     (case mask_loop (four_list (v4_to_bytes netmask)) False 0 of
        Inl e \<Rightarrow> Inl e
      | Inr n \<Rightarrow> Inr \<lparr>net4_address = addr, net4_prefix = n\<rparr>)"

definition net4_netmask :: "network_v4 \<Rightarrow> address_v4" where
  "net4_netmask n =
     v4_of_uint (if net4_prefix n = 0 then 0 else push_bit (32 - net4_prefix n) 0xFFFFFFFF)"

definition net4_network :: "network_v4 \<Rightarrow> address_v4" where
  "net4_network n = v4_of_uint (v4_to_uint (net4_address n) AND v4_to_uint (net4_netmask n))"

definition net4_broadcast :: "network_v4 \<Rightarrow> address_v4" where
  "net4_broadcast n =
     v4_of_uint (v4_to_uint (net4_network n) OR (v4_to_uint (net4_netmask n) XOR 0xFFFFFFFF))"

definition net4_canonical :: "network_v4 \<Rightarrow> exn + network_v4" where
  "net4_canonical n = net4_new (net4_network n) (net4_prefix n)"

definition net4_is_host :: "network_v4 \<Rightarrow> bool" where
  "net4_is_host n \<longleftrightarrow> net4_prefix n = 32"

definition net4_hosts :: "network_v4 \<Rightarrow> address_v4 addr_range" where
  "net4_hosts n =
     (if net4_is_host n
      then \<lparr>range_begin = net4_address n,
            range_end = v4_of_uint (v4_to_uint (net4_address n) + 1)\<rparr>
      else \<lparr>range_begin = v4_of_uint (v4_to_uint (net4_network n) + 1),
            range_end = net4_broadcast n\<rparr>)"

definition net4_is_subnet_of :: "network_v4 \<Rightarrow> network_v4 \<Rightarrow> exn + bool" where
  "net4_is_subnet_of n other =
     (if net4_prefix other \<ge> net4_prefix n then Inr False
      else case net4_new (net4_address n) (net4_prefix other) of
        Inl e \<Rightarrow> Inl e
      | Inr me \<Rightarrow>
          (case net4_canonical other of Inl e \<Rightarrow> Inl e
           | Inr c1 \<Rightarrow> (case net4_canonical me of Inl e \<Rightarrow> Inl e | Inr c2 \<Rightarrow> Inr (c1 = c2))))"

definition net4_to_string :: "network_v4 \<Rightarrow> string" where
  "net4_to_string n = v4_to_string (net4_address n) @ ''/'' @ dec_string (net4_prefix n)"

text \<open>
  \<open>std::atoi\<close> on a text of decimal digits; its behaviour is undefined, here \<open>None\<close>, if the
  number is no \<open>int\<close>.
\<close>

definition atoi :: "string \<Rightarrow> nat option" where
  "atoi s = (let v = dec_value 0 s in if v \<le> 2147483647 then Some v else None)"

text \<open>
  \<open>make_network_v4\<close> and \<open>make_network_v6\<close> split the text in the same way: \<open>Inl\<close> is
  \<open>invalid_argument\<close>, \<open>Inr\<close> the two parts. \<open>make_network_v4\<close> then parses the address, stops
  at its error, and reads the prefix length; the result \<open>None\<close> is the undefined \<open>atoi\<close>.
\<close>

definition split_network :: "string \<Rightarrow> error_code + string \<times> string" where
  "split_network str =
     (let pos = length (takeWhile (\<lambda>c. c \<noteq> CHR ''/'') str)
      in if pos = length str then Inl Invalid_argument
         else if pos = length str - 1 then Inl Invalid_argument
         else if \<exists>c \<in> set (drop (pos + 1) str). \<not> is_digit c then Inl Invalid_argument
         else Inr (take pos str, drop (pos + 1) str))"

definition make_network_v4 :: "string \<Rightarrow> (error_code \<times> network_v4) option" where
  "make_network_v4 str =
     (case split_network str of
        Inl ec \<Rightarrow> Some (ec, net4_default)
      | Inr (astr, pstr) \<Rightarrow>
          (case make_address_v4 astr of (ec, addr) \<Rightarrow>
             if failed ec then Some (ec, net4_default)
             else case atoi pstr of
               None \<Rightarrow> None
             | Some prefix_len \<Rightarrow>
                 if prefix_len > 32 then Some (Invalid_argument, net4_default)
                 else Some (ec, \<lparr>net4_address = addr, net4_prefix = prefix_len\<rparr>)))"

section \<open>IPv6 networks\<close>

record network_v6 =
  net6_address :: address_v6
  net6_prefix :: nat

definition net6_default :: network_v6 where
  "net6_default = \<lparr>net6_address = v6_default, net6_prefix = 0\<rparr>"

definition net6_new :: "address_v6 \<Rightarrow> nat \<Rightarrow> exn + network_v6" where
  "net6_new addr prefix_len =
     (if prefix_len > 128 then Inl Out_of_range
      else Inr \<lparr>net6_address = addr, net6_prefix = prefix_len\<rparr>)"

text \<open>The byte at \<open>i\<close> with the bits behind the prefix cleared or set; \<open>0xFF00 >> k\<close> is cut to a byte.\<close>

definition clear_host_bits :: "nat \<Rightarrow> nat \<Rightarrow> byte \<Rightarrow> byte" where
  "clear_host_bits prefix_length i b =
     (if prefix_length \<le> i * 8 then 0
      else if prefix_length < (i + 1) * 8
           then b AND ucast (drop_bit (prefix_length mod 8) (0xFF00 :: 32 word))
      else b)"

definition set_host_bits :: "nat \<Rightarrow> nat \<Rightarrow> byte \<Rightarrow> byte" where
  "set_host_bits prefix_length i b =
     (if prefix_length \<le> i * 8 then 0xFF
      else if prefix_length < (i + 1) * 8
           then b OR ucast (drop_bit (prefix_length mod 8) (0xFF :: 32 word))
      else b)"

definition on_bytes :: "(nat \<Rightarrow> byte \<Rightarrow> byte) \<Rightarrow> byte list \<Rightarrow> byte list" where
  "on_bytes f bytes = map (\<lambda>i. f i (bytes ! i)) [0..<16]"

definition net6_network :: "network_v6 \<Rightarrow> address_v6" where
  "net6_network n =
     v6_of_bytes (on_bytes (clear_host_bits (net6_prefix n)) (v6_to_bytes (net6_address n)))
       (v6_scope (net6_address n))"

definition net6_hosts :: "network_v6 \<Rightarrow> address_v6 addr_range" where
  "net6_hosts n =
     (let begin_bytes = on_bytes (clear_host_bits (net6_prefix n)) (v6_to_bytes (net6_address n));
          end_bytes = on_bytes (set_host_bits (net6_prefix n)) (v6_to_bytes (net6_address n))
      in \<lparr>range_begin = v6_of_bytes begin_bytes (v6_scope (net6_address n)),
          range_end = v6_inc (v6_of_bytes end_bytes (v6_scope (net6_address n)))\<rparr>)"

definition net6_canonical :: "network_v6 \<Rightarrow> exn + network_v6" where
  "net6_canonical n = net6_new (net6_network n) (net6_prefix n)"

definition net6_is_host :: "network_v6 \<Rightarrow> bool" where
  "net6_is_host n \<longleftrightarrow> net6_prefix n = 128"

definition net6_is_subnet_of :: "network_v6 \<Rightarrow> network_v6 \<Rightarrow> exn + bool" where
  "net6_is_subnet_of n other =
     (if net6_prefix other \<ge> net6_prefix n then Inr False
      else case net6_new (net6_address n) (net6_prefix other) of
        Inl e \<Rightarrow> Inl e
      | Inr me \<Rightarrow>
          (case net6_canonical other of Inl e \<Rightarrow> Inl e
           | Inr c1 \<Rightarrow> (case net6_canonical me of Inl e \<Rightarrow> Inl e | Inr c2 \<Rightarrow> Inr (c1 = c2))))"

definition net6_to_string :: "network_v6 \<Rightarrow> string option" where
  "net6_to_string n =
     (case v6_to_string (net6_address n) of None \<Rightarrow> None
      | Some s \<Rightarrow> Some (s @ ''/'' @ dec_string (net6_prefix n)))"

definition make_network_v6 :: "string \<Rightarrow> (error_code \<times> network_v6) option" where
  "make_network_v6 str =
     (case split_network str of
        Inl ec \<Rightarrow> Some (ec, net6_default)
      | Inr (astr, pstr) \<Rightarrow>
          (case make_address_v6 astr of (ec, addr) \<Rightarrow>
             if failed ec then Some (ec, net6_default)
             else case atoi pstr of
               None \<Rightarrow> None
             | Some prefix_len \<Rightarrow>
                 if prefix_len > 128 then Some (Invalid_argument, net6_default)
                 else Some (ec, \<lparr>net6_address = addr, net6_prefix = prefix_len\<rparr>)))"

end
