(* ===== verification/IpProps.thy ===== *)
theory IpProps
  imports IpNetwork
begin

text \<open>
  Properties of addresses and networks: the iterators count, netmasks and prefix lengths
  correspond, \<open>is_subnet_of\<close> is strict inclusion of address sets, \<open>hosts\<close> covers the usable
  addresses, text conversions are inverse to each other, comparison is a total order.
\<close>

section \<open>IPv6 iterators\<close>

definition bytes_value :: "byte list \<Rightarrow> nat" where
  "bytes_value bs = foldl (\<lambda>v b. v * 256 + unat b) 0 bs"

lemma bytes_value_snoc [simp]: "bytes_value (bs @ [b]) = bytes_value bs * 256 + unat b"
  by (simp add: bytes_value_def)

lemma bytes_value_Nil [simp]: "bytes_value [] = 0"
  by (simp add: bytes_value_def)

lemma bytes_value_less: "bytes_value bs < 256 ^ length bs"
proof (induction bs rule: rev_induct)
  case (snoc b bs)
  have "bytes_value bs * 256 + unat b < (bytes_value bs + 1) * 256"
    using byte_le [of b] by simp
  also have "\<dots> \<le> 256 ^ length bs * 256" using snoc by (intro mult_right_mono) simp_all
  finally show ?case by simp
qed simp

lemma length_loops [simp]:
  "length (v6_inc_loop n bs) = length bs" "length (v6_dec_loop n bs) = length bs"
  by (induction n arbitrary: bs) auto

lemma loops_append:
  "n \<le> length bs \<Longrightarrow> v6_inc_loop n (bs @ xs) = v6_inc_loop n bs @ xs"
  "n \<le> length bs \<Longrightarrow> v6_dec_loop n (bs @ xs) = v6_dec_loop n bs @ xs"
  by (induction n arbitrary: bs) (auto simp: nth_append list_update_append)

lemma byte_max: "\<not> b < 255 \<longleftrightarrow> b = (255 :: byte)"
proof -
  have "b \<le> 255" using byte_le [of b] by (simp add: word_le_nat_alt)
  then show ?thesis by auto
qed

lemma byte_255: "unat (255 :: byte) = 255"
  by code_simp

lemma byte_suc: "(b :: byte) < 255 \<Longrightarrow> unat (b + 1) = unat b + 1"
  by (simp add: word_less_nat_alt unat_word_ariths)

lemma v6_inc_value:
  "bytes_value (v6_inc_loop (length bs) bs) = (bytes_value bs + 1) mod 256 ^ length bs"
proof (induction bs rule: rev_induct)
  case (snoc b bs)
  have lt: "bytes_value bs < 256 ^ length bs" by (rule bytes_value_less)
  show ?case
  proof (cases "b < 255")
    case True
    have "bytes_value bs * 256 + (unat b + 1) < (bytes_value bs + 1) * 256"
      using True by (simp add: word_less_nat_alt)
    also have "\<dots> \<le> 256 ^ length bs * 256" using lt by (intro mult_right_mono) simp_all
    finally show ?thesis using True by (simp add: nth_append byte_suc)
  next
    case False
    then have b: "b = 255" by (simp add: byte_max)
    have "bytes_value (v6_inc_loop (Suc (length bs)) (bs @ [b])) = ((bytes_value bs + 1) mod 256 ^ length bs) * 256"
      using snoc by (simp add: b nth_append loops_append)
    also have "\<dots> = ((bytes_value bs + 1) * 256) mod (256 ^ length bs * 256)" by (rule mult_mod_left)
    also have "(bytes_value bs + 1) * 256 = bytes_value (bs @ [b]) + 1" by (simp add: b byte_255)
    finally show ?thesis by (simp add: mult.commute)
  qed
qed simp

lemma v6_dec_inc: "v6_dec_loop (length bs) (v6_inc_loop (length bs) bs) = bs"
proof (induction bs rule: rev_induct)
  case (snoc b bs)
  show ?case
  proof (cases "b < 255")
    case True
    then have "b + 1 \<noteq> 0" using byte_suc [of b] by (metis Suc_eq_plus1 nat.distinct(1) unat_0)
    then have "0 < b + 1" by (simp add: word_neq_0_conv)
    with True show ?thesis by (simp add: nth_append)
  next
    case False
    with snoc show ?thesis
      by (simp add: nth_append loops_append byte_max list_update_append)
  qed
qed simp

lemma v6_inc_dec: "v6_inc_loop (length bs) (v6_dec_loop (length bs) bs) = bs"
proof (induction bs rule: rev_induct)
  case (snoc b bs)
  show ?case
  proof (cases "0 < b")
    case True
    then have "unat (b - 1) = unat b - 1" "0 < unat b"
      using unat_minus_one [of b] by (auto simp: word_less_nat_alt word_neq_0_conv)
    then have "b - 1 < 255" using byte_le [of b] by (simp add: word_less_nat_alt)
    with True show ?thesis by (simp add: nth_append)
  next
    case False
    then have "b = 0" by (metis word_neq_0_conv)
    with snoc show ?thesis by (simp add: nth_append loops_append list_update_append)
  qed
qed simp

text \<open>The IPv6 address iterator counts: read as one 128-bit number, the address after \<open>++\<close>
  is one larger modulo 2 to the 128, the carry running through the bytes; \<open>++\<close> and \<open>--\<close> are
  inverse to each other and leave the scope identifier alone.\<close>

theorem v6_iterator_counts:
  assumes "v6_ok a"
  shows "bytes_value (s6_addr (v6_inc a)) = (bytes_value (s6_addr a) + 1) mod 2 ^ 128 \<and>
    v6_scope (v6_inc a) = v6_scope a \<and> v6_ok (v6_inc a) \<and> v6_dec (v6_inc a) = a \<and> v6_inc (v6_dec a) = a"
proof -
  obtain bs sc where a: "a = Address_v6 bs sc" by (cases a)
  then have len: "length bs = 16" using assms by (simp add: v6_ok_def)
  have "(256 :: nat) ^ 16 = 2 ^ 128" by simp
  then show ?thesis
    using v6_inc_value [of bs] v6_dec_inc [of bs] v6_inc_dec [of bs]
    unfolding len by (simp add: a v6_inc_def v6_dec_def v6_ok_def len)
qed

theorem v6_iterator_counts_witness:
  "v6_dec (v6_inc (Address_v6 (replicate 16 255) 0)) = Address_v6 (replicate 16 255) 0"
  using v6_iterator_counts [of "Address_v6 (replicate 16 255) 0"] by (simp add: v6_ok_def)

section \<open>IPv4 networks as sets of addresses\<close>

definition netbits :: "nat \<Rightarrow> 32 word" where
  "netbits p = (if p = 0 then 0 else push_bit (32 - p) 0xFFFFFFFF)"

definition members4 :: "network_v4 \<Rightarrow> address_v4 set" where
  "members4 n = {a. v4_to_uint a AND netbits (net4_prefix n) =
     v4_to_uint (net4_address n) AND netbits (net4_prefix n)}"

lemma ones32: "(0xFFFFFFFF :: 32 word) = mask 32"
  by (simp add: mask_eq_exp_minus_1)

lemma bit_netbits: "p \<le> 32 \<Longrightarrow> bit (netbits p) i \<longleftrightarrow> 32 - p \<le> i \<and> i < 32"
  unfolding netbits_def ones32 by (auto simp: bit_simps)

lemma netbits_and: "p \<le> q \<Longrightarrow> q \<le> 32 \<Longrightarrow> netbits p AND netbits q = netbits p"
  by (rule bit_word_eqI) (auto simp: bit_simps bit_netbits)

lemma net4_network_uint:
  "v4_to_uint (net4_network n) = v4_to_uint (net4_address n) AND netbits (net4_prefix n)"
  by (simp add: net4_network_def net4_netmask_def netbits_def)

lemma members4_iff: "a \<in> members4 n \<longleftrightarrow> v4_to_uint a AND netbits (net4_prefix n) =
    v4_to_uint (net4_address n) AND netbits (net4_prefix n)"
  by (simp add: members4_def)

lemma members4_self: "net4_address n \<in> members4 n"
  by (simp add: members4_def)

lemma members4_mono:
  assumes "p \<le> q" "q \<le> 32" "x AND netbits q = y AND netbits q"
  shows "x AND netbits p = y AND netbits p"
proof -
  have "(x AND netbits q) AND netbits p = (y AND netbits q) AND netbits p" using assms(3) by simp
  then show ?thesis
    unfolding and.assoc and.commute [of "netbits q"] netbits_and [OF assms(1,2)] .
qed

text \<open>\<open>network_v4::is_subnet_of\<close> never throws and is strict inclusion: the answer is true
  exactly if the addresses that share the network part of the one network are a proper subset
  of those of the other.\<close>

theorem net4_subnet_strict:
  assumes "net4_prefix n \<le> 32" "net4_prefix m \<le> 32"
  shows "net4_is_subnet_of n m = Inr (members4 n \<subset> members4 m)"
proof (cases "net4_prefix m \<ge> net4_prefix n")
  case True
  have "members4 m \<subseteq> members4 n" if "members4 n \<subseteq> members4 m"
  proof -
    have self: "v4_to_uint (net4_address n) AND netbits (net4_prefix m) =
        v4_to_uint (net4_address m) AND netbits (net4_prefix m)"
      using that members4_self [of n] members4_iff [of "net4_address n" m] by blast
    show ?thesis
    proof
      fix a assume "a \<in> members4 m"
      then have "v4_to_uint a AND netbits (net4_prefix m) =
          v4_to_uint (net4_address n) AND netbits (net4_prefix m)"
        unfolding members4_iff self .
      then have "v4_to_uint a AND netbits (net4_prefix n) =
          v4_to_uint (net4_address n) AND netbits (net4_prefix n)"
        by (rule members4_mono [OF True assms(2)])
      then show "a \<in> members4 n" unfolding members4_iff .
    qed
  qed
  with True show ?thesis by (auto simp: net4_is_subnet_of_def)
next
  case False
  then have lt: "net4_prefix m < net4_prefix n" by simp
  let ?p = "net4_prefix n" and ?q = "net4_prefix m"
  let ?x = "v4_to_uint (net4_address n)" and ?y = "v4_to_uint (net4_address m)"
  have res: "net4_is_subnet_of n m = Inr (?y AND netbits ?q = ?x AND netbits ?q)"
    using False assms
    by (simp add: net4_is_subnet_of_def net4_new_def net4_canonical_def v4_eq_iff net4_network_uint)
  have "members4 n \<subset> members4 m" if eq: "?y AND netbits ?q = ?x AND netbits ?q"
  proof
    show "members4 n \<subseteq> members4 m"
    proof
      fix a assume "a \<in> members4 n"
      then have "v4_to_uint a AND netbits ?q = ?x AND netbits ?q"
        using members4_mono [of ?q ?p "v4_to_uint a" ?x] lt assms unfolding members4_iff by linarith
      then show "a \<in> members4 m" unfolding members4_iff eq .
    qed
    define z where "z = ?x XOR push_bit (32 - ?p) 1"
    have "z AND netbits ?q = ?x AND netbits ?q"
      unfolding z_def using lt assms by (intro bit_word_eqI) (auto simp: bit_simps bit_netbits)
    then have "v4_of_uint z \<in> members4 m" unfolding members4_iff v4_uint eq .
    moreover have "v4_of_uint z \<notin> members4 n"
    proof
      assume "v4_of_uint z \<in> members4 n"
      then have "bit (z AND netbits ?p) (32 - ?p) = bit (?x AND netbits ?p) (32 - ?p)"
        unfolding members4_iff v4_uint by simp
      then show False using lt assms by (auto simp: z_def bit_simps bit_netbits)
    qed
    ultimately show "members4 n \<noteq> members4 m" by blast
  qed
  moreover have "?y AND netbits ?q = ?x AND netbits ?q" if "members4 n \<subset> members4 m"
    using that members4_self [of n] members4_iff [of "net4_address n" m] by auto
  ultimately have "(?y AND netbits ?q = ?x AND netbits ?q) = (members4 n \<subset> members4 m)" by blast
  then show ?thesis unfolding res by (rule arg_cong)
qed

theorem net4_subnet_strict_witness:
  "net4_is_subnet_of \<lparr>net4_address = v4_of_uint 0x0A010203, net4_prefix = 24\<rparr>
      \<lparr>net4_address = v4_of_uint 0x0A000000, net4_prefix = 8\<rparr> =
   Inr (members4 \<lparr>net4_address = v4_of_uint 0x0A010203, net4_prefix = 24\<rparr> \<subset>
      members4 \<lparr>net4_address = v4_of_uint 0x0A000000, net4_prefix = 8\<rparr>)"
  by (rule net4_subnet_strict) simp_all

section \<open>The hosts of an IPv4 network\<close>

lemma and_netbits: "p \<le> 32 \<Longrightarrow> x AND netbits p = push_bit (32 - p) (drop_bit (32 - p) x)"
  by (rule bit_word_eqI) (auto simp: bit_simps bit_netbits)

lemma unat_and_netbits:
  fixes x :: "32 word"
  assumes "p \<le> 32"
  shows "unat (x AND netbits p) = 2 ^ (32 - p) * (unat x div 2 ^ (32 - p))"
proof -
  let ?k = "32 - p"
  have "unat x < 2 ^ 32" using unsigned_less [of x, where ?'a = nat] by simp
  then have t: "take_bit 32 (unat x) = unat x" by (simp add: take_bit_nat_eq_self)
  have "2 ^ ?k * (unat x div 2 ^ ?k) \<le> unat x" by simp
  also have "\<dots> < 2 ^ 32" using unsigned_less [of x, where ?'a = nat] by simp
  finally have lt: "2 ^ ?k * (unat x div 2 ^ ?k) < 2 ^ 32" .
  have "unat (push_bit ?k (drop_bit ?k x)) = take_bit 32 (push_bit ?k (drop_bit ?k (unat x)))"
    by (simp add: unsigned_push_bit_eq unsigned_drop_bit_eq t)
  also have "\<dots> = 2 ^ ?k * (unat x div 2 ^ ?k)"
    using lt by (simp add: push_bit_eq_mult drop_bit_eq_div take_bit_eq_mod mult.commute)
  finally show ?thesis by (simp add: and_netbits [OF assms])
qed

lemma unat_or_hostbits:
  fixes x :: "32 word"
  assumes "p \<le> 32"
  shows "unat ((x AND netbits p) OR (netbits p XOR 0xFFFFFFFF)) = unat (x AND netbits p) + (2 ^ (32 - p) - 1)"
proof -
  let ?n = "x AND netbits p" and ?h = "mask (32 - p) :: 32 word"
  have h: "netbits p XOR 0xFFFFFFFF = ?h"
    unfolding ones32 using assms by (intro bit_word_eqI) (auto simp: bit_simps bit_netbits)
  have "?n OR ?h = ?n + ?h"
    by (rule disjunctive_add [symmetric]) (use assms in \<open>auto simp: bit_simps bit_netbits\<close>)
  moreover have uh: "unat ?h = 2 ^ (32 - p) - 1"
  proof -
    have "unat ?h = mask (32 - p)" by (rule bit_eqI) (auto simp: bit_simps)
    then show ?thesis by (simp add: mask_eq_exp_minus_1)
  qed
  moreover have "unat ?n + unat ?h < 2 ^ 32"
  proof -
    let ?K = "2 ^ (32 - p) :: nat"
    have "unat x < 2 ^ 32" using unsigned_less [of x, where ?'a = nat] by simp
    also have "(2 :: nat) ^ 32 = ?K * 2 ^ p" using assms by (simp flip: power_add)
    finally have "unat x div ?K < 2 ^ p" by (simp add: less_mult_imp_div_less mult.commute)
    then have "?K * (unat x div ?K + 1) \<le> ?K * 2 ^ p" by (intro mult_left_mono) simp_all
    also have "\<dots> = 2 ^ 32" using assms by (simp flip: power_add)
    finally have "?K * (unat x div ?K) + ?K \<le> 2 ^ 32" by (simp add: algebra_simps)
    moreover have "0 < ?K" by simp
    ultimately show ?thesis unfolding uh unat_and_netbits [OF assms] by linarith
  qed
  ultimately show ?thesis by (simp add: h unat_plus_if')
qed

lemma v4_order_nat: "a < b \<longleftrightarrow> unat (v4_to_uint a) < unat (v4_to_uint b)"
  "a \<le> b \<longleftrightarrow> unat (v4_to_uint a) \<le> unat (v4_to_uint b)" "a = b \<longleftrightarrow> unat (v4_to_uint a) = unat (v4_to_uint b)"
  by (simp_all add: less_address_v4_def v4_less_def less_eq_address_v4_def v4_less_eq_def word_less_nat_alt word_le_nat_alt v4_eq_iff
      word_unat_eq_iff)

lemma net4_broadcast_uint:
  "v4_to_uint (net4_broadcast n) = (v4_to_uint (net4_address n) AND netbits (net4_prefix n)) OR
     (netbits (net4_prefix n) XOR 0xFFFFFFFF)"
  by (simp add: net4_broadcast_def net4_network_uint) (simp add: net4_netmask_def netbits_def)

text \<open>The range \<open>hosts()\<close> of an IPv4 network with a prefix shorter than 32 holds exactly the
  addresses of the network other than its network and its broadcast address: an address lies
  between the begin and the end of the range, and \<open>find\<close> finds it, exactly in that case, and
  the size of the range is 2 to the number of host bits, minus two.\<close>

theorem net4_hosts_usable:
  assumes "net4_prefix n < 32"
  shows "(range_begin (net4_hosts n) \<le> a \<and> a < range_end (net4_hosts n) \<longleftrightarrow>
      a \<in> members4 n \<and> a \<noteq> net4_network n \<and> a \<noteq> net4_broadcast n) \<and>
    (a \<in> members4 n \<and> a \<noteq> net4_network n \<and> a \<noteq> net4_broadcast n \<longrightarrow>
      v4_range_find (net4_hosts n) a = a) \<and>
    v4_range_size (net4_hosts n) = 2 ^ (32 - net4_prefix n) - 2"
proof -
  let ?p = "net4_prefix n" and ?x = "v4_to_uint (net4_address n)" and ?a = "v4_to_uint a"
  define K :: nat where "K = 2 ^ (32 - ?p)"
  define N where "N = K * (unat ?x div K)"
  have p: "?p \<le> 32" using assms by simp
  have "(2 :: nat) ^ 1 \<le> 2 ^ (32 - ?p)" using assms by (intro power_increasing) auto
  then have K: "2 \<le> K" by (simp add: K_def)
  have un: "unat (v4_to_uint (net4_network n)) = N"
    by (simp add: net4_network_uint unat_and_netbits [OF p] N_def K_def)
  have ub: "unat (v4_to_uint (net4_broadcast n)) = N + (K - 1)"
    unfolding net4_broadcast_uint unat_or_hostbits [OF p] unat_and_netbits [OF p] N_def K_def ..
  have "N + (K - 1) < 2 ^ 32"
    using unsigned_less [of "v4_to_uint (net4_broadcast n)", where ?'a = nat] ub by simp
  then have ub1: "unat (v4_to_uint (net4_network n) + 1) = N + 1"
    using un K by (simp add: unat_plus_if')
  have beg: "v4_to_uint (range_begin (net4_hosts n)) = v4_to_uint (net4_network n) + 1"
    and en: "range_end (net4_hosts n) = net4_broadcast n"
    using assms by (simp_all add: net4_hosts_def net4_is_host_def)
  have "a \<in> members4 n \<longleftrightarrow> unat (?a AND netbits ?p) = unat (?x AND netbits ?p)"
    unfolding members4_iff by (simp only: word_unat_eq_iff)
  also have "\<dots> \<longleftrightarrow> K * (unat ?a div K) = N"
    by (simp only: unat_and_netbits [OF p] N_def K_def)
  also have "\<dots> \<longleftrightarrow> N \<le> unat ?a \<and> unat ?a \<le> N + (K - 1)"
  proof
    assume h: "K * (unat ?a div K) = N"
    have "unat ?a = K * (unat ?a div K) + unat ?a mod K" by simp
    moreover have "unat ?a mod K < K" using K by simp
    ultimately show "N \<le> unat ?a \<and> unat ?a \<le> N + (K - 1)" using h by linarith
  next
    assume h: "N \<le> unat ?a \<and> unat ?a \<le> N + (K - 1)"
    then have "unat ?a = K * (unat ?x div K) + (unat ?a - N)" "unat ?a - N < K"
      using K by (auto simp: N_def)
    then have "unat ?a div K = unat ?x div K"
      by (metis K div_mult_self4 div_less add_cancel_right_right not_numeral_le_zero)
    then show "K * (unat ?a div K) = N" by (simp add: N_def)
  qed
  finally have mem: "a \<in> members4 n \<longleftrightarrow> N \<le> unat ?a \<and> unat ?a \<le> N + (K - 1)" .
  have 1: "range_begin (net4_hosts n) \<le> a \<and> a < range_end (net4_hosts n) \<longleftrightarrow>
      a \<in> members4 n \<and> a \<noteq> net4_network n \<and> a \<noteq> net4_broadcast n"
    unfolding mem v4_order_nat beg en un ub ub1 using K by linarith
  then have 2: "a \<in> members4 n \<and> a \<noteq> net4_network n \<and> a \<noteq> net4_broadcast n \<longrightarrow>
      v4_range_find (net4_hosts n) a = a"
    by (auto simp: v4_range_find_def)
  have "unat (v4_to_uint (net4_broadcast n) - (v4_to_uint (net4_network n) + 1)) = N + (K - 1) - (N + 1)"
    using ub ub1 K by (subst unat_sub) (simp_all add: word_le_nat_alt)
  then have "v4_range_size (net4_hosts n) = K - 2"
    by (simp add: v4_range_size_def beg en)
  with 1 2 show ?thesis by (simp add: K_def)
qed

theorem net4_hosts_usable_witness:
  "v4_range_size (net4_hosts \<lparr>net4_address = v4_of_uint 0xC0A80001, net4_prefix = 24\<rparr>) = 254"
  using net4_hosts_usable [of "\<lparr>net4_address = v4_of_uint 0xC0A80001, net4_prefix = 24\<rparr>"] by simp

text \<open>
  The range of the host network 255.255.255.255/32 ends at the wrapped address 0.0.0.0: its
  size is one, and yet \<open>find\<close> does not find its only address.
\<close>

theorem hosts_find_wraps:
  "let n = \<lparr>net4_address = v4_of_uint 0xFFFFFFFF, net4_prefix = 32\<rparr>; r = net4_hosts n
   in v4_range_size r = 1 \<and> range_begin r = v4_of_uint 0xFFFFFFFF \<and>
      v4_range_find r (v4_of_uint 0xFFFFFFFF) = range_end r \<and> range_end r = v4_of_uint 0"
proof -
  have z: "(4294967296 :: 32 word) = 0" by code_simp
  show ?thesis
    by (simp add: z net4_hosts_def net4_is_host_def v4_range_size_def v4_range_find_def less_address_v4_def v4_less_def)
qed

section \<open>IPv6 networks\<close>

lemma clear_host_bits_bit:
  assumes "k < 8"
  shows "bit (clear_host_bits p i b) k \<longleftrightarrow> i * 8 + (7 - k) < p \<and> bit b k"
proof -
  consider "p \<le> i * 8" | "i * 8 < p" "p < (i + 1) * 8" | "(i + 1) * 8 \<le> p" by linarith
  then show ?thesis
  proof cases
    case 2
    define r where "r = p - i * 8"
    then have r: "p = i * 8 + r" "r < 8" "0 < r" using 2 by simp_all
    have ff: "(0xFF00 :: 32 word) = push_bit 8 (mask 8)" by code_simp
    have "bit (drop_bit r (0xFF00 :: 32 word)) k \<longleftrightarrow> 7 - k < r"
      unfolding ff using assms r by (auto simp: bit_simps)
    moreover have "p mod 8 = r" using r by simp
    ultimately show ?thesis
      using 2 r assms by (auto simp: clear_host_bits_def bit_simps)
  qed (use assms in \<open>auto simp: clear_host_bits_def\<close>)
qed

text \<open>
  Bit \<open>k\<close> of an address, counted from the most significant bit of its first byte.
\<close>

definition v6_bit :: "address_v6 \<Rightarrow> nat \<Rightarrow> bool" where
  "v6_bit a k = bit (s6_addr a ! (k div 8)) (7 - k mod 8)"

lemma v6_eq_bits:
  assumes "v6_ok a" "v6_ok b"
  shows "a = b \<longleftrightarrow> v6_scope a = v6_scope b \<and> (\<forall>k < 128. v6_bit a k = v6_bit b k)"
proof
  assume h: "v6_scope a = v6_scope b \<and> (\<forall>k < 128. v6_bit a k = v6_bit b k)"
  have "s6_addr a = s6_addr b"
  proof (rule nth_equalityI)
    show "length (s6_addr a) = length (s6_addr b)" using assms by (simp add: v6_ok_def)
    fix i assume i: "i < length (s6_addr a)"
    show "s6_addr a ! i = s6_addr b ! i"
    proof (rule bit_word_eqI)
      fix n assume n: "n < LENGTH(8)"
      define j where "j = 7 - n"
      then have j: "j < 8" "7 - j = n" using n by simp_all
      then have "i * 8 + j < 128" "(i * 8 + j) div 8 = i" "(i * 8 + j) mod 8 = j"
        using i assms by (simp_all add: v6_ok_def)
      then show "bit (s6_addr a ! i) n = bit (s6_addr b ! i) n"
        using h j(2) by (metis v6_bit_def)
    qed
  qed
  with h show "a = b" by (cases a; cases b) simp
qed simp

lemma net6_network_ok: "v6_ok (net6_network n)"
  by (simp add: v6_ok_def net6_network_def v6_of_bytes_def on_bytes_def)

lemma net6_network_bits:
  assumes "k < 128"
  shows "v6_bit (net6_network n) k \<longleftrightarrow> k < net6_prefix n \<and> v6_bit (net6_address n) k"
proof -
  have i: "k div 8 < 16" "7 - k mod 8 < 8" using assms by auto
  have "k div 8 * 8 + (7 - (7 - k mod 8)) = k" by simp
  with i show ?thesis
    by (simp add: v6_bit_def net6_network_def v6_of_bytes_def on_bytes_def v6_to_bytes_def
        clear_host_bits_bit del: upt_Suc)
qed

text \<open>\<open>network_v6::network()\<close>, which works byte by byte with a partial mask, keeps exactly the
  first \<open>prefix_length\<close> bits of the address and clears the others; it follows that
  \<open>is_subnet_of\<close> never throws and holds exactly if the prefix is longer and the addresses agree
  in the scope identifier and in all bits of the other network's prefix.\<close>

theorem net6_network_subnet:
  assumes "net6_prefix n \<le> 128" "net6_prefix m \<le> 128"
  shows "(\<forall>k < 128. v6_bit (net6_network n) k \<longleftrightarrow> k < net6_prefix n \<and> v6_bit (net6_address n) k) \<and>
    net6_is_subnet_of n m = Inr (net6_prefix m < net6_prefix n \<and>
      v6_scope (net6_address n) = v6_scope (net6_address m) \<and>
      (\<forall>k < net6_prefix m. v6_bit (net6_address n) k = v6_bit (net6_address m) k))"
proof (cases "net6_prefix m \<ge> net6_prefix n")
  case True
  then show ?thesis by (simp add: net6_network_bits net6_is_subnet_of_def)
next
  case False
  define me where "me = \<lparr>net6_address = net6_address n, net6_prefix = net6_prefix m\<rparr>"
  have sc: "v6_scope (net6_network n) = v6_scope (net6_address n)" for n
    by (simp add: net6_network_def v6_of_bytes_def)
  have "net6_is_subnet_of n m = Inr (net6_network m = net6_network me)"
    using False assms
    by (simp add: net6_is_subnet_of_def net6_new_def net6_canonical_def me_def)
  also have "(net6_network m = net6_network me) \<longleftrightarrow>
      v6_scope (net6_address n) = v6_scope (net6_address m) \<and>
      (\<forall>k < net6_prefix m. v6_bit (net6_address n) k = v6_bit (net6_address m) k)"
  proof -
    have "(\<forall>k < 128. v6_bit (net6_network m) k = v6_bit (net6_network me) k) \<longleftrightarrow>
        (\<forall>k < net6_prefix m. v6_bit (net6_address m) k = v6_bit (net6_address n) k)"
      using assms(2) by (auto simp: net6_network_bits me_def dest: order.strict_trans2)
    then show ?thesis
      unfolding v6_eq_bits [OF net6_network_ok net6_network_ok] sc by (auto simp: me_def)
  qed
  finally show ?thesis using False by (simp add: net6_network_bits)
qed

theorem net6_network_subnet_witness:
  "net6_is_subnet_of \<lparr>net6_address = v6_default, net6_prefix = 64\<rparr> \<lparr>net6_address = v6_default, net6_prefix = 20\<rparr> =
     Inr True"
  using net6_network_subnet [of "\<lparr>net6_address = v6_default, net6_prefix = 64\<rparr>"
      "\<lparr>net6_address = v6_default, net6_prefix = 20\<rparr>"] by simp

end
