(* ===== verification/IpMask.thy ===== *)
theory IpMask
  imports IpNetwork
begin

text \<open>
  Netmasks and prefix lengths of IPv4 networks: the constructor of \<open>network_v4\<close> from a netmask
  and \<open>netmask()\<close> are inverse to each other.
\<close>

section \<open>Netmasks\<close>

lemma mask_byte_inj: "mask_byte_bits a = Some k \<Longrightarrow> mask_byte_bits b = Some k \<Longrightarrow> a = b"
  by (auto simp: mask_byte_bits_def split: if_splits)

lemma mask_byte_255: "mask_byte_bits b = Some k \<Longrightarrow> k \<le> 8 \<and> (k = 8 \<longleftrightarrow> b = 255)"
  by (auto simp: mask_byte_bits_def split: if_splits)

lemma mask_loop_finished: "mask_loop bs True p = Inr n \<Longrightarrow> n = p \<and> (\<forall>b \<in> set bs. b = 0)"
  by (induction bs) (auto split: if_splits)

lemma mask_loop_ge: "mask_loop bs f p = Inr n \<Longrightarrow> p \<le> n"
  by (induction bs f p rule: mask_loop.induct) (fastforce split: if_splits option.splits)+

lemma mask_loop_inj:
  "mask_loop bs f p = Inr n \<Longrightarrow> mask_loop cs f p = Inr n \<Longrightarrow> length bs = length cs \<Longrightarrow> bs = cs"
proof (induction bs arbitrary: cs f p)
  case (Cons b bs)
  then obtain c cs' where cs: "cs = c # cs'" by (cases cs) auto
  show ?case
  proof (cases f)
    case True
    with Cons cs show ?thesis by (auto split: if_splits)
  next
    case False
    obtain k where k: "mask_byte_bits b = Some k" "mask_loop bs (b \<noteq> 255) (p + k) = Inr n"
      using Cons.prems(1) False by (auto split: option.splits)
    obtain l where l: "mask_byte_bits c = Some l" "mask_loop cs' (c \<noteq> 255) (p + l) = Inr n"
      using Cons.prems(2) False cs by (auto split: option.splits)
    have "b = 255 \<or> n = p + k" using k(2) mask_loop_finished by (cases "b = 255") auto
    moreover have "c = 255 \<or> n = p + l" using l(2) mask_loop_finished by (cases "c = 255") auto
    ultimately have "k = l"
      using mask_loop_ge [OF k(2)] mask_loop_ge [OF l(2)] mask_byte_255 [OF k(1)] mask_byte_255 [OF l(1)]
      by auto
    then have "b = c" using k(1) l(1) mask_byte_inj by blast
    with Cons.IH [of "b \<noteq> 255" "p + k" cs'] k l Cons.prems(3) cs \<open>k = l\<close> show ?thesis by simp
  qed
qed simp

lemma mask_loop_netmask:
  assumes "n \<in> set [1..<33]"
  shows "mask_loop (four_list (host_to_network_long (push_bit (32 - n) 0xFFFFFFFF))) False 0 = Inr n"
  using assms
  apply (simp add: upt_rec del: push_bit_numeral)
  apply (elim disjE)
  apply (simp_all add: host_to_network_long_def four_list_def mask_byte_bits_def)
  done

lemma mask_loop_zero: "mask_loop (four_list (host_to_network_long 0)) False 0 = Inr 0"
  by (simp add: host_to_network_long_def four_list_def mask_byte_bits_def)

lemma net4_of_netmask:
  assumes "net4_prefix n \<le> 32"
  shows "net4_of_mask addr (net4_netmask n) = Inr \<lparr>net4_address = addr, net4_prefix = net4_prefix n\<rparr>"
proof (cases "net4_prefix n = 0")
  case False
  then have "net4_prefix n \<in> set [1..<33]" using assms by auto
  from mask_loop_netmask [OF this] False show ?thesis
    by (simp add: net4_of_mask_def net4_netmask_def v4_to_bytes_def v4_of_uint_def)
qed (simp add: net4_of_mask_def net4_netmask_def v4_to_bytes_def v4_of_uint_def mask_loop_zero)

lemma mask_loop_le: "mask_loop bs f p = Inr n \<Longrightarrow> n \<le> p + 8 * length bs"
proof (induction bs f p rule: mask_loop.induct)
  case (2 b bs f p)
  show ?case
  proof (cases f)
    case True
    with 2 show ?thesis by (auto split: if_splits)
  next
    case False
    with 2 obtain k where k: "mask_byte_bits b = Some k" "n \<le> p + k + 8 * length bs"
      by (auto split: option.splits)
    with mask_byte_255 [OF k(1)] show ?thesis by simp
  qed
qed simp

text \<open>Constructing an IPv4 network from a netmask accepts exactly the netmasks of prefix
  lengths 0 to 32 and yields that prefix length: \<open>netmask()\<close> of every network is accepted and
  gives its prefix length back, and whenever a mask is accepted it is the \<open>netmask()\<close> of the
  network built; every other mask raises an exception.\<close>

theorem net4_mask_prefix:
  "(\<forall>n. net4_prefix n \<le> 32 \<longrightarrow>
      net4_of_mask addr (net4_netmask n) = Inr \<lparr>net4_address = addr, net4_prefix = net4_prefix n\<rparr>) \<and>
   (\<forall>m n. net4_of_mask addr m = Inr n \<longrightarrow>
      net4_prefix n \<le> 32 \<and> net4_address n = addr \<and> m = net4_netmask n)"
proof (intro conjI allI impI)
  fix n :: network_v4 assume "net4_prefix n \<le> 32"
  then show "net4_of_mask addr (net4_netmask n) = Inr \<lparr>net4_address = addr, net4_prefix = net4_prefix n\<rparr>"
    by (rule net4_of_netmask)
next
  fix m and n :: network_v4 assume *: "net4_of_mask addr m = Inr n"
  then have loop: "mask_loop (four_list (v4_to_bytes m)) False 0 = Inr (net4_prefix n)"
    and a: "net4_address n = addr"
    by (auto simp: net4_of_mask_def split: sum.splits)
  have len: "length (four_list b) = 4" for b by (cases b) (simp add: four_list_def)
  from mask_loop_le [OF loop] len show le: "net4_prefix n \<le> 32" by simp
  show "net4_address n = addr" by (rule a)
  have "mask_loop (four_list (v4_to_bytes (net4_netmask n))) False 0 = Inr (net4_prefix n)"
    using net4_of_netmask [OF le, of addr] by (auto simp: net4_of_mask_def split: sum.splits)
  from mask_loop_inj [OF loop this] len
  have "four_list (v4_to_bytes m) = four_list (v4_to_bytes (net4_netmask n))" by simp
  then have "v4_to_bytes m = v4_to_bytes (net4_netmask n)"
    by (cases "v4_to_bytes m"; cases "v4_to_bytes (net4_netmask n)") (auto simp: four_list_def)
  then show "m = net4_netmask n" by (simp add: v4_to_bytes_def address_v4.expand)
qed

theorem net4_mask_prefix_witness:
  "net4_of_mask v4_default (v4_of_uint 0xFFFFFF00) = Inr \<lparr>net4_address = v4_default, net4_prefix = 24\<rparr>"
proof -
  have "net4_netmask \<lparr>net4_address = v4_default, net4_prefix = 24\<rparr> = v4_of_uint 0xFFFFFF00"
    by code_simp
  moreover have "net4_of_mask v4_default (net4_netmask \<lparr>net4_address = v4_default, net4_prefix = 24\<rparr>) =
      Inr \<lparr>net4_address = v4_default, net4_prefix = 24\<rparr>"
    using conjunct1 [OF net4_mask_prefix, rule_format, of "\<lparr>net4_address = v4_default, net4_prefix = 24\<rparr>"]
    by simp
  ultimately show ?thesis by simp
qed

end
