(* ===== verification/IpTextProps.thy ===== *)
theory IpTextProps
  imports IpNetwork
begin

text \<open>
  Parsing what was printed: addresses of both versions, the version-independent address, and
  networks; conversion between IPv4 and mapped IPv6 addresses; the order on addresses.
\<close>

section \<open>No null characters in printed text\<close>

lemma digit_char_not_null: "d < 16 \<Longrightarrow> digit_char d \<noteq> CHR 0x00 \<and> digit_char d \<noteq> CHR ''/''"
  using digit_char_facts(1) [of d] by (auto simp: hex_val_def)

definition plain :: "string \<Rightarrow> bool" where
  "plain s \<longleftrightarrow> CHR 0x00 \<notin> set s \<and> CHR ''/'' \<notin> set s"

lemma plain_simps [simp]:
  "plain []" "plain (c # s) \<longleftrightarrow> c \<noteq> CHR 0x00 \<and> c \<noteq> CHR ''/'' \<and> plain s"
  "plain (s @ t) \<longleftrightarrow> plain s \<and> plain t"
  by (auto simp: plain_def)

lemma plain_map: "(\<And>x. x \<in> set xs \<Longrightarrow> plain [f x]) \<Longrightarrow> plain (map f xs)"
  by (induction xs) auto

lemma digits_not_null:
  assumes "2 \<le> b" "b \<le> 16"
  shows "plain (digits b n)"
proof -
  obtain ds where ds: "digits b n = map digit_char ds" "\<forall>d \<in> set ds. d < b"
    using digits_values [OF assms(1), of n] by blast
  then have "\<forall>d \<in> set ds. d < 16" using assms(2) by fastforce
  then show ?thesis using digit_char_not_null unfolding ds(1) by (intro plain_map) simp
qed

lemma words_text_not_null: "plain (words_text z first ws)"
proof (induction z first ws rule: words_text.induct)
  case (2 z first w ws)
  have "plain (hex_string w)"
    by (rule digits_not_null) simp_all
  moreover have "plain (words_text z False ws)"
    if "\<not> (w = 0 \<and> \<not> z)" using 2(2) that .
  moreover have "plain (words_text z first (w # ws))"
    if z: "w = 0 \<and> \<not> z"
  proof -
    let ?r = "dropWhile (\<lambda>w. w = 0) ws"
    have "words_text z first (w # ws) = CHR '':'' # (if ?r = [] then '':'' else words_text True False ?r)"
      using z by (simp add: Let_def)
    moreover have "?r = [] \<or> (plain (words_text True False ?r))"
      using 2(1) [OF z refl] by blast
    ultimately show ?thesis by (auto simp del: dropWhile_eq_Nil_conv words_text.simps)
  qed
  ultimately show ?case by (cases "w = 0 \<and> \<not> z") auto
qed simp

lemma c_str_id: "plain s \<Longrightarrow> c_str s = s"
  by (auto simp: c_str_def takeWhile_eq_all_conv plain_def)

lemma ntop4_chars: "plain (inet_ntop4 b)"
  using digits_not_null [of 10] by (cases b) auto

lemma ntop6_text:
  assumes "n \<le> 65535"
  shows "inet_ntop6 bytes 256 n = Some (words_text False True (words_of bytes) @ scope_text n)"
proof -
  let ?ws = "words_of bytes" and ?t = "words_text False True (words_of bytes)"
  have ws: "\<forall>w \<in> set ?ws. w \<le> 65535" by (auto simp: words_of_def intro: pair_word_le)
  have "ntop6_loop bytes 256 [] 0 0 = Some ?t"
    using ntop6_loop_text [of 0 "[]" 256 bytes 0] by simp
  moreover have "length ?t \<le> 41" using length_words_text [OF ws, of False True] by simp
  ultimately show ?thesis
    using length_dec_word [OF assms] by (simp add: inet_ntop6_def scope_text_def sprintf_s_def)
qed

lemma ntop6_chars:
  assumes "n \<le> 65535" "inet_ntop6 bytes 256 n = Some str"
  shows "plain str"
  using assms words_text_not_null [of False True "words_of bytes"] digits_not_null [of 10 n]
  by (auto simp: ntop6_text scope_text_def)

section \<open>A dotted quad is no IPv6 address\<close>

lemma base_value_less: "\<forall>d \<in> set ds. d < b \<Longrightarrow> base_value b v ds < (v + 1) * b ^ length ds"
proof (induction ds arbitrary: v)
  case (Cons d ds)
  have "\<forall>d \<in> set ds. d < b" using Cons.prems by simp
  then have "base_value b (v * b + d) ds < (v * b + d + 1) * b ^ length ds" by (rule Cons.IH)
  also have "v * b + d + 1 \<le> (v + 1) * b" using Cons.prems by simp
  then have "(v * b + d + 1) * b ^ length ds \<le> (v + 1) * b * b ^ length ds" by (rule mult_right_mono) simp
  finally show ?case by (simp add: algebra_simps)
qed simp

lemma pton6_quad: "inet_pton6 (inet_ntop4 b) = Inl Invalid_argument"
proof -
  obtain b0 b1 b2 b3 where b: "b = (b0, b1, b2, b3)" by (metis prod_cases4)
  obtain rest where rest: "inet_ntop4 b = dec_string (unat b0) @ CHR ''.'' # rest"
    by (simp add: b)
  obtain ds where ds: "dec_string (unat b0) = map digit_char ds" "\<forall>d \<in> set ds. d < 10"
    using digits_values [of 10 "unat b0"] by auto
  have "length ds \<le> 3"
    using length_digits [of 10 "unat b0" 2] byte_le [of b0] by (simp add: ds)
  then have "(16 :: nat) ^ length ds \<le> 16 ^ 3" by (intro power_increasing) simp_all
  moreover have d16: "\<forall>d \<in> set ds. d < 16" using ds(2) by fastforce
  ultimately have small: "base_value 16 0 ds \<le> 65535"
    using base_value_less [OF d16, of 0] by simp
  let ?s = "pton6_init (inet_ntop4 b)"
  let ?s1 = "?s\<lparr>ptr := CHR ''.'' # rest, current_word := base_value 16 0 ds\<rparr>"
  have "pton6_loop ?s = pton6_loop ?s1"
    using hex_digits_run [of ?s ds "CHR ''.'' # rest"] small d16 by (simp add: pton6_init_def rest ds)
  also have "\<dots> = None"
  proof -
    have "hex_val (CHR ''.'') = None" by (simp add: hex_val_def)
    then show ?thesis using small
      by (subst pton6_loop.simps) (simp add: pton6_step_def fword_step_def pton6_init_def)
  qed
  finally show ?thesis by (simp add: inet_pton6_def pton6_finish_def)
qed

section \<open>Properties\<close>

text \<open>C38: Printing and parsing IP addresses are inverse: every IPv4 address, every IPv6 address
  with a scope identifier up to 65535, and every version-independent address made from one of
  them is read back from its text as the same address of the same version, without error; the
  IPv6 text, with its shortened run of zero words, always fits the 256-character buffer.\<close>

theorem address_text_roundtrip:
  assumes "v6_ok a6" "unat (v6_scope a6) \<le> 65535"
  shows "make_address_v4 (v4_to_string a4) = (Ok_code, a4) \<and>
    make_address (v4_to_string a4) = (Ok_code, addr_of_v4 a4) \<and>
    (\<exists>str. v6_to_string a6 = Some str \<and> make_address_v6 str = (Ok_code, a6) \<and>
       make_address str = (Ok_code, addr_of_v6 a6))"
proof -
  have c4: "c_str (v4_to_string a4) = inet_ntop4 (s_addr a4)"
    using ntop4_chars by (simp add: v4_to_string_def c_str_id)
  have m4: "make_address_v4 (v4_to_string a4) = (Ok_code, a4)"
    by (simp add: make_address_v4_def c4 pton4_ntop4 v4_of_bytes_def)
  have "make_address_v6 (v4_to_string a4) = (Invalid_argument, v6_default)"
    by (simp add: make_address_v6_def c4 pton6_quad)
  with m4 have a: "make_address (v4_to_string a4) = (Ok_code, addr_of_v4 a4)"
    by (simp add: make_address_def)
  obtain str where str: "v6_to_string a6 = Some str" "inet_pton6 str = Inr (s6_addr a6, unat (v6_scope a6))"
    using pton6_ntop6 [of "s6_addr a6" "unat (v6_scope a6)"] assms
    by (auto simp: v6_ok_def v6_to_string_def)
  have "c_str str = str"
    using str(1) ntop6_chars [OF assms(2)] by (intro c_str_id) (auto simp: v6_to_string_def)
  then have "make_address_v6 str = (Ok_code, a6)"
    by (simp add: make_address_v6_def str v6_of_bytes_def)
  moreover from this have "make_address str = (Ok_code, addr_of_v6 a6)" by (simp add: make_address_def)
  ultimately show ?thesis using m4 a str(1) by blast
qed

theorem address_text_roundtrip_witness:
  "\<exists>str. v6_to_string v6_loopback = Some str \<and> make_address_v6 str = (Ok_code, v6_loopback)"
  using address_text_roundtrip [of v6_loopback] by (auto simp: v6_ok_def v6_loopback_def)

lemma split_network_text:
  assumes "plain s"
  shows "split_network (s @ ''/'' @ dec_string p) = Inr (s, dec_string p)"
proof -
  let ?t = "s @ ''/'' @ dec_string p"
  have "takeWhile (\<lambda>c. c \<noteq> CHR ''/'') ?t = s"
    using assms by (auto simp: takeWhile_append plain_def)
  then show ?thesis
    using dec_string_facts(2,3) [of p] by (auto simp: split_network_def Let_def)
qed

lemma atoi_dec: "p \<le> 128 \<Longrightarrow> atoi (dec_string p) = Some p"
  by (simp add: atoi_def dec_string_facts)

text \<open>Printing and parsing networks are inverse: the text "address/prefix" of every IPv4
  network and of every IPv6 network with a scope identifier up to 65535 parses, without error
  and without undefined behaviour, to the same network.\<close>

theorem network_text_roundtrip:
  assumes "net4_prefix n4 \<le> 32" "net6_prefix n6 \<le> 128"
    and "v6_ok (net6_address n6)" "unat (v6_scope (net6_address n6)) \<le> 65535"
  shows "make_network_v4 (net4_to_string n4) = Some (Ok_code, n4) \<and>
    (\<exists>str. net6_to_string n6 = Some str \<and> make_network_v6 str = Some (Ok_code, n6))"
proof -
  have "split_network (net4_to_string n4) = Inr (v4_to_string (net4_address n4), dec_string (net4_prefix n4))"
    unfolding net4_to_string_def v4_to_string_def using ntop4_chars by (intro split_network_text) blast
  moreover have "make_address_v4 (v4_to_string (net4_address n4)) = (Ok_code, net4_address n4)"
    using ntop4_chars by (simp add: make_address_v4_def v4_to_string_def c_str_id pton4_ntop4 v4_of_bytes_def)
  ultimately have 1: "make_network_v4 (net4_to_string n4) = Some (Ok_code, n4)"
    using assms(1) by (simp add: make_network_v4_def atoi_dec)
  let ?a = "net6_address n6"
  obtain str where str: "v6_to_string ?a = Some str" "inet_pton6 str = Inr (s6_addr ?a, unat (v6_scope ?a))"
    using pton6_ntop6 [of "s6_addr ?a" "unat (v6_scope ?a)"] assms
    by (auto simp: v6_ok_def v6_to_string_def)
  have chars: "plain str"
    using str(1) ntop6_chars [OF assms(4)] by (simp add: v6_to_string_def)
  then have "make_address_v6 str = (Ok_code, ?a)"
    by (simp add: make_address_v6_def str v6_of_bytes_def c_str_id)
  moreover have "split_network (str @ ''/'' @ dec_string (net6_prefix n6)) = Inr (str, dec_string (net6_prefix n6))"
    using chars by (intro split_network_text) blast
  ultimately have "make_network_v6 (str @ ''/'' @ dec_string (net6_prefix n6)) = Some (Ok_code, n6)"
    using assms(2) by (simp add: make_network_v6_def atoi_dec)
  with 1 show ?thesis by (simp add: net6_to_string_def str(1))
qed

theorem network_text_roundtrip_witness:
  "make_network_v4 (net4_to_string \<lparr>net4_address = v4_of_uint 0x0A000000, net4_prefix = 8\<rparr>) =
     Some (Ok_code, \<lparr>net4_address = v4_of_uint 0x0A000000, net4_prefix = 8\<rparr>)"
  using network_text_roundtrip [of "\<lparr>net4_address = v4_of_uint 0x0A000000, net4_prefix = 8\<rparr>" net6_default]
  by (simp add: net6_default_def v6_default_def v6_ok_def)

text \<open>Mapping an IPv4 address into IPv6 and back is the identity: the mapped address is
  recognised as mapped and by no other classification test, both ways back return the original,
  and an address that is not mapped is refused with \<open>bad_address_cast\<close>; comparison of
  version-independent addresses is a strict total order on addresses built by the library,
  with all IPv4 before all IPv6 addresses.\<close>

theorem address_mapping_order:
  "make_v4_from_mapped (make_v6_mapped a4) = Inr a4 \<and> v6_to_v4 (v6_v4_mapped a4) = Inr a4 \<and>
   v6_is_v4_mapped (make_v6_mapped a4) \<and> \<not> v6_is_v4_compatible (make_v6_mapped a4) \<and>
   \<not> v6_is_loopback (make_v6_mapped a4) \<and> \<not> v6_is_multicast (make_v6_mapped a4) \<and>
   \<not> v6_is_link_local (make_v6_mapped a4) \<and>
   (\<not> v6_is_v4_mapped a6 \<longrightarrow> make_v4_from_mapped a6 = Inl Bad_address_cast) \<and>
   addr_less (addr_of_v4 a4) (addr_of_v6 a6) \<and>
   addr_less (addr_of_v4 a4) (addr_of_v4 b4) = (a4 < b4) \<and>
   addr_less (addr_of_v6 a6) (addr_of_v6 b6) = (a6 < b6) \<and>
   (addr_less x y \<or> addr_eq x y \<or> addr_less y x) \<and> \<not> (addr_less x y \<and> addr_less y x) \<and>
   (addr_less x y \<and> addr_less y z \<longrightarrow> addr_less x z) \<and> (addr_eq x y \<longrightarrow> \<not> addr_less x y)"
proof -
  obtain b0 b1 b2 b3 where b: "s_addr a4 = (b0, b1, b2, b3)" by (metis prod_cases4)
  have bytes: "s6_addr (make_v6_mapped a4) = [0, 0, 0, 0, 0, 0, 0, 0, 0, 0, 0xFF, 0xFF, b0, b1, b2, b3]"
    by (simp add: make_v6_mapped_def v6_of_bytes_def four_list_def v4_to_bytes_def b numeral_eq_Suc)
  have eq: "v6_v4_mapped a4 = make_v6_mapped a4" by (simp add: v6_v4_mapped_def make_v6_mapped_def)
  have ff: "(0xFF :: byte) \<noteq> 0" by simp
  have m: "v6_is_v4_mapped (make_v6_mapped a4)"
    by (simp add: v6_is_v4_mapped_def zero_bytes_def bytes upt_rec)
  have lf: "v4_of_bytes (last_four (s6_addr (make_v6_mapped a4))) = a4"
  proof -
    have "a4 = Address_v4 (b0, b1, b2, b3)" using b by (cases a4) simp
    then show ?thesis unfolding bytes by (simp add: last_four_def v4_of_bytes_def)
  qed
  have cl: "\<not> v6_is_v4_compatible (make_v6_mapped a4)" "\<not> v6_is_loopback (make_v6_mapped a4)"
    "\<not> v6_is_multicast (make_v6_mapped a4)" "\<not> v6_is_link_local (make_v6_mapped a4)"
    by (simp_all add: v6_is_v4_compatible_def v6_is_loopback_def v6_is_multicast_def v6_is_link_local_def
        zero_bytes_def bytes upt_rec)
  have r: "t = Ipv4 \<or> t = Ipv6" for t :: address_type by (cases t) auto
  have o: "(addr_less x y \<or> addr_eq x y \<or> addr_less y x) \<and> \<not> (addr_less x y \<and> addr_less y x) \<and>
      (addr_less x y \<and> addr_less y z \<longrightarrow> addr_less x z) \<and> (addr_eq x y \<longrightarrow> \<not> addr_less x y)"
    using r [of "addr_type x"] r [of "addr_type y"] r [of "addr_type z"]
    by (elim disjE) (auto simp: addr_less_def addr_eq_def)
  show ?thesis
    using m lf cl o eq
    by (simp add: make_v4_from_mapped_def v6_to_v4_def v6_to_bytes_def addr_less_def addr_of_v4_def
        addr_of_v6_def)
qed

theorem address_mapping_order_witness:
  "make_v4_from_mapped v6_loopback = Inl Bad_address_cast"
  using address_mapping_order [of _ v6_loopback]
  by (simp add: v6_is_v4_mapped_def v6_loopback_def)

end
