(* ===== verification/Buffers.thy ===== *)
theory Buffers
  imports Prelude
begin

text \<open>
  Buffers of \<open>include/asio/buffer.hpp\<close>: a buffer is a pointer and a size (\<open>mutable_buffer\<close>,
  \<open>const_buffer\<close>), a buffer sequence a list of them. Memory is a function from addresses to
  bytes. The abstraction of a buffer sequence is the list \<open>addrs\<close> of the addresses it
  covers, in order; \<open>buffer_size\<close> is its length and \<open>buffer_copy\<close> moves bytes from one address
  list to another.
\<close>

section \<open>Buffers\<close>

type_synonym mem = "nat \<Rightarrow> byte"

record abuf =
  buf_data :: nat
  buf_size :: nat

text \<open>\<open>operator+=\<close> and \<open>operator+\<close>: the offset is clamped to the size.\<close>

definition buf_advance :: "abuf \<Rightarrow> nat \<Rightarrow> abuf" where
  "buf_advance b n =
     (let offset = (if n < buf_size b then n else buf_size b)
      in b\<lparr>buf_data := buf_data b + offset, buf_size := buf_size b - offset\<rparr>)"

definition buf_plus :: "abuf \<Rightarrow> nat \<Rightarrow> abuf" where
  "buf_plus b n =
     (let offset = (if n < buf_size b then n else buf_size b);
          new_data = buf_data b + offset;
          new_size = buf_size b - offset
      in \<lparr>buf_data = new_data, buf_size = new_size\<rparr>)"

text \<open>\<open>asio::buffer(b, max_size_in_bytes)\<close>.\<close>

definition buf_limit :: "abuf \<Rightarrow> nat \<Rightarrow> abuf" where
  "buf_limit b max_size = \<lparr>buf_data = buf_data b,
     buf_size = (if buf_size b < max_size then buf_size b else max_size)\<rparr>"

fun buffer_size_from :: "abuf list \<Rightarrow> nat \<Rightarrow> nat" where
  "buffer_size_from [] total_buffer_size = total_buffer_size"
| "buffer_size_from (b # bs) total_buffer_size = buffer_size_from bs (total_buffer_size + buf_size b)"

definition buffer_size :: "abuf list \<Rightarrow> nat" where
  "buffer_size bs = buffer_size_from bs 0"

section \<open>Copying\<close>

text \<open>\<open>memcpy\<close>; its operands must not overlap.\<close>

definition memcpy :: "mem \<Rightarrow> nat \<Rightarrow> nat \<Rightarrow> nat \<Rightarrow> mem" where
  "memcpy m dst src n = (\<lambda>a. if dst \<le> a \<and> a < dst + n then m (src + (a - dst)) else m a)"

definition buffer_copy_1 :: "mem \<Rightarrow> abuf \<Rightarrow> abuf \<Rightarrow> mem \<times> nat" where
  "buffer_copy_1 m target source =
     (let target_size = buf_size target;
          source_size = buf_size source;
          n = (if target_size < source_size then target_size else source_size)
      in (if n > 0 then memcpy m (buf_data target) (buf_data source) n else m, n))"

text \<open>
  One target, several sources; several targets, one source. The bytes copied so far are
  \<open>copied\<close> (\<open>total_bytes_copied\<close>).
\<close>

fun copy_one_many :: "mem \<Rightarrow> abuf \<Rightarrow> abuf list \<Rightarrow> nat \<Rightarrow> mem \<times> nat" where
  "copy_one_many m target [] copied = (m, copied)"
| "copy_one_many m target (s # ss) copied =
     (if buf_size target = 0 then (m, copied)
      else (case buffer_copy_1 m target s of (m1, bytes_copied) \<Rightarrow>
        copy_one_many m1 (buf_advance target bytes_copied) ss (copied + bytes_copied)))"

fun copy_many_one :: "mem \<Rightarrow> abuf list \<Rightarrow> abuf \<Rightarrow> nat \<Rightarrow> mem \<times> nat" where
  "copy_many_one m [] source copied = (m, copied)"
| "copy_many_one m (t # ts) source copied =
     (if buf_size source = 0 then (m, copied)
      else (case buffer_copy_1 m t source of (m1, bytes_copied) \<Rightarrow>
        copy_many_one m1 ts (buf_advance source bytes_copied) (copied + bytes_copied)))"

text \<open>
  Several targets, several sources: an iterator and an offset on either side, with a limit.
\<close>

partial_function (option) copy_many_many ::
  "mem \<Rightarrow> abuf list \<Rightarrow> nat \<Rightarrow> abuf list \<Rightarrow> nat \<Rightarrow> nat \<Rightarrow> nat \<Rightarrow> (mem \<times> nat) option" where
  "copy_many_many m ts toff ss soff max_bytes copied =
     (if copied \<noteq> max_bytes \<and> ts \<noteq> [] \<and> ss \<noteq> [] then
        (let target = buf_plus (hd ts) toff;
             source = buf_plus (hd ss) soff;
             (m1, bytes_copied) = buffer_copy_1 m target (buf_limit source (max_bytes - copied));
             (ts1, toff1) = (if bytes_copied = buf_size target then (tl ts, 0)
                             else (ts, toff + bytes_copied));
             (ss1, soff1) = (if bytes_copied = buf_size source then (tl ss, 0)
                             else (ss, soff + bytes_copied))
         in copy_many_many m1 ts1 toff1 ss1 soff1 max_bytes (copied + bytes_copied))
      else Some (m, copied))"

text \<open>The overload without a limit has the same loop without the two uses of the limit.\<close>

partial_function (option) copy_many_many_all ::
  "mem \<Rightarrow> abuf list \<Rightarrow> nat \<Rightarrow> abuf list \<Rightarrow> nat \<Rightarrow> nat \<Rightarrow> (mem \<times> nat) option" where
  "copy_many_many_all m ts toff ss soff copied =
     (if ts \<noteq> [] \<and> ss \<noteq> [] then
        (let target = buf_plus (hd ts) toff;
             source = buf_plus (hd ss) soff;
             (m1, bytes_copied) = buffer_copy_1 m target source;
             (ts1, toff1) = (if bytes_copied = buf_size target then (tl ts, 0)
                             else (ts, toff + bytes_copied));
             (ss1, soff1) = (if bytes_copied = buf_size source then (tl ss, 0)
                             else (ss, soff + bytes_copied))
         in copy_many_many_all m1 ts1 toff1 ss1 soff1 (copied + bytes_copied))
      else Some (m, copied))"

text \<open>
  \<open>buffer_copy\<close> selects the overload by whether either argument is a single buffer.
\<close>

datatype bufseq = One abuf | Many "abuf list"

fun bufs_of :: "bufseq \<Rightarrow> abuf list" where
  "bufs_of (One b) = [b]"
| "bufs_of (Many bs) = bs"

fun buffer_copy :: "mem \<Rightarrow> bufseq \<Rightarrow> bufseq \<Rightarrow> (mem \<times> nat) option" where
  "buffer_copy m (One t) (One s) = Some (buffer_copy_1 m t s)"
| "buffer_copy m (One t) (Many ss) = Some (copy_one_many m (buf_limit t size_max) ss 0)"
| "buffer_copy m (Many ts) (One s) = Some (copy_many_one m ts (buf_limit s size_max) 0)"
| "buffer_copy m (Many ts) (Many ss) = copy_many_many_all m ts 0 ss 0 0"

fun buffer_copy_max :: "mem \<Rightarrow> bufseq \<Rightarrow> bufseq \<Rightarrow> nat \<Rightarrow> (mem \<times> nat) option" where
  "buffer_copy_max m (One t) (One s) max_bytes = Some (buffer_copy_1 m t (buf_limit s max_bytes))"
| "buffer_copy_max m (One t) (Many ss) max_bytes = Some (copy_one_many m (buf_limit t max_bytes) ss 0)"
| "buffer_copy_max m (Many ts) (One s) max_bytes = Some (copy_many_one m ts (buf_limit s max_bytes) 0)"
| "buffer_copy_max m (Many ts) (Many ss) max_bytes = copy_many_many m ts 0 ss 0 max_bytes 0"

section \<open>The addresses a buffer sequence covers\<close>

definition baddrs :: "abuf \<Rightarrow> nat list" where
  "baddrs b = [buf_data b..<buf_data b + buf_size b]"

definition addrs :: "abuf list \<Rightarrow> nat list" where
  "addrs bs = concat (map baddrs bs)"

lemma addrs_simps [simp]: "addrs [] = []" "addrs (b # bs) = baddrs b @ addrs bs"
  by (simp_all add: addrs_def)

lemma length_baddrs [simp]: "length (baddrs b) = buf_size b"
  by (simp add: baddrs_def)

lemma buffer_size_from_eq: "buffer_size_from bs n = n + length (addrs bs)"
  by (induction bs arbitrary: n) auto

lemma buffer_size_eq: "buffer_size bs = length (addrs bs)"
  by (simp add: buffer_size_def buffer_size_from_eq)

lemma baddrs_plus: "baddrs (buf_plus b n) = drop n (baddrs b)"
  by (auto simp: buf_plus_def baddrs_def)

lemma buf_size_plus [simp]: "buf_size (buf_plus b n) = buf_size b - n"
  by (simp add: buf_plus_def)

lemma buf_advance_plus: "buf_advance b n = buf_plus b n"
  by (simp add: buf_advance_def buf_plus_def Let_def)

lemma buf_limit_facts [simp]: "buf_size (buf_limit b n) = min (buf_size b) n"
  "buf_data (buf_limit b n) = buf_data b"
  by (auto simp: buf_limit_def)

lemma baddrs_limit: "baddrs (buf_limit b n) = take n (baddrs b)"
  by (auto simp: baddrs_def buf_limit_def)

section \<open>Copying between address lists\<close>

text \<open>
  \<open>copy_list m ts ss\<close> stores the bytes at \<open>ss\<close>, read in the memory \<open>m\<close>, at the addresses \<open>ts\<close>.
\<close>

definition put_bytes :: "mem \<Rightarrow> nat list \<Rightarrow> byte list \<Rightarrow> mem" where
  "put_bytes m ts vs = fold (\<lambda>(t, v) m. m(t := v)) (zip ts vs) m"

lemma put_bytes_Cons [simp]: "put_bytes m (t # ts) (v # vs) = put_bytes (m(t := v)) ts vs"
  by (simp add: put_bytes_def)

definition get_bytes :: "mem \<Rightarrow> nat list \<Rightarrow> byte list" where
  "get_bytes m ss = map m ss"

lemma put_bytes_Nil [simp]: "put_bytes m [] vs = m" "put_bytes m ts [] = m"
  by (simp_all add: put_bytes_def)

lemma put_bytes_other: "a \<notin> set ts \<Longrightarrow> put_bytes m ts vs a = m a"
proof (induction ts arbitrary: m vs)
  case (Cons t ts)
  then show ?case by (cases vs) auto
qed simp

lemma put_bytes_append:
  "length ts = length vs \<Longrightarrow> put_bytes m (ts @ ts') (vs @ vs') = put_bytes (put_bytes m ts vs) ts' vs'"
proof (induction ts arbitrary: m vs)
  case (Cons t ts)
  then show ?case by (cases vs) (auto simp del: fun_upd_apply)
qed simp

lemma put_bytes_nth:
  "distinct ts \<Longrightarrow> i < length ts \<Longrightarrow> i < length vs \<Longrightarrow> put_bytes m ts vs (ts ! i) = vs ! i"
proof (induction ts arbitrary: m vs i)
  case (Cons t ts)
  then obtain v vs' where "vs = v # vs'" by (cases vs) auto
  with Cons show ?case by (cases i) (auto simp: put_bytes_other)
qed simp

lemma put_bytes_take: "put_bytes m ts vs = put_bytes m (take (length vs) ts) vs"
proof (induction ts arbitrary: m vs)
  case (Cons t ts)
  then show ?case by (cases vs) (auto simp del: fun_upd_apply)
qed simp

lemma get_bytes_frame: "set ss \<inter> set ts = {} \<Longrightarrow> get_bytes (put_bytes m ts vs) ss = get_bytes m ss"
  by (auto simp: get_bytes_def intro!: put_bytes_other)

lemma get_bytes_simps [simp]: "get_bytes m [] = []" "get_bytes m (xs @ ys) = get_bytes m xs @ get_bytes m ys"
  "length (get_bytes m xs) = length xs" "get_bytes m (a # xs) = m a # get_bytes m xs"
  by (simp_all add: get_bytes_def)

lemma get_put_bytes:
  "distinct ts \<Longrightarrow> length vs = length ts \<Longrightarrow> get_bytes (put_bytes m ts vs) ts = vs"
  by (rule nth_equalityI) (simp_all add: get_bytes_def put_bytes_nth)

text \<open>\<open>memcpy\<close> on disjoint blocks.\<close>

lemma put_bytes_block:
  "put_bytes m [d..<d + n] (map f [0..<n]) = (\<lambda>a. if d \<le> a \<and> a < d + n then f (a - d) else m a)"
proof (rule ext)
  fix a
  show "put_bytes m [d..<d + n] (map f [0..<n]) a = (if d \<le> a \<and> a < d + n then f (a - d) else m a)"
  proof (cases "d \<le> a \<and> a < d + n")
    case True
    then have "a - d < n" "[d..<d + n] ! (a - d) = a" by auto
    then show ?thesis
      using put_bytes_nth [of "[d..<d + n]" "a - d" "map f [0..<n]" m] True by simp
  next
    case False
    then have "a \<notin> set [d..<d + n]" by auto
    then have "put_bytes m [d..<d + n] (map f [0..<n]) a = m a" by (rule put_bytes_other)
    then show ?thesis unfolding if_not_P [OF False] .
  qed
qed

lemma memcpy_put: "memcpy m d s n = put_bytes m [d..<d + n] (get_bytes m [s..<s + n])"
proof -
  have "get_bytes m [s..<s + n] = map (\<lambda>i. m (s + i)) [0..<n]"
    by (rule nth_equalityI) (simp_all add: get_bytes_def)
  then show ?thesis by (simp add: memcpy_def put_bytes_block)
qed

lemma take_baddrs: "n \<le> buf_size b \<Longrightarrow> take n (baddrs b) = [buf_data b..<buf_data b + n]"
  by (simp add: baddrs_def)

text \<open>\<open>copied m ts ss n\<close>: the memory after the first \<open>n\<close> bytes at \<open>ss\<close> have been stored at \<open>ts\<close>.\<close>

definition copied :: "mem \<Rightarrow> nat list \<Rightarrow> nat list \<Rightarrow> nat \<Rightarrow> mem" where
  "copied m ts ss n = put_bytes m (take n ts) (get_bytes m (take n ss))"

lemma buffer_copy_1_copied:
  "buffer_copy_1 m t s = (copied m (baddrs t) (baddrs s) n, n)" if "n = min (buf_size t) (buf_size s)"
  using that by (auto simp: buffer_copy_1_def copied_def Let_def take_baddrs memcpy_put)

lemma copied_0 [simp]: "copied m ts ss 0 = m"
  by (simp add: copied_def)

lemma copied_add:
  assumes "set ts \<inter> set ss = {}" "k \<le> length ts" "k \<le> length ss"
  shows "copied (copied m ts ss k) (drop k ts) (drop k ss) n = copied m ts ss (k + n)"
proof -
  have "set (take n (drop k ss)) \<inter> set (take k ts) = {}"
    using assms(1) by (meson disjoint_iff in_set_dropD in_set_takeD)
  then have "get_bytes (copied m ts ss k) (take n (drop k ss)) = get_bytes m (take n (drop k ss))"
    by (simp add: copied_def get_bytes_frame)
  then show ?thesis
    using assms(2,3) put_bytes_append [of "take k ts" "get_bytes m (take k ss)"]
    by (simp add: copied_def take_add)
qed

lemma copied_prefix: "n \<le> length xs \<Longrightarrow> n \<le> length ys \<Longrightarrow> copied m (xs @ ts) (ys @ ss) n = copied m xs ys n"
  by (simp add: copied_def)

lemma copied_take: "n \<le> k \<Longrightarrow> copied m ts (take k ss) n = copied m ts ss n"
  "n \<le> k \<Longrightarrow> copied m (take k ts) ss n = copied m ts ss n"
  by (simp_all add: copied_def min_absorb1)

lemma disjoint_drop: "set ts \<inter> set ss = {} \<Longrightarrow> set (drop k ts) \<inter> set (drop l ss) = {}"
  by (meson disjoint_iff in_set_dropD)

lemma copy_one_many_copied:
  "set (baddrs t) \<inter> set (addrs ss) = {} \<Longrightarrow>
   copy_one_many m t ss c =
     (copied m (baddrs t) (addrs ss) (min (buf_size t) (length (addrs ss))),
      c + min (buf_size t) (length (addrs ss)))"
proof (induction ss arbitrary: m t c)
  case (Cons s ss)
  show ?case
  proof (cases "buf_size t = 0")
    case False
    define n where "n = min (buf_size t) (buf_size s)"
    let ?t = "buf_advance t n" and ?m = "copied m (baddrs t) (baddrs s) n"
    have ba: "baddrs ?t = drop n (baddrs t)" "buf_size ?t = buf_size t - n"
      by (simp_all add: buf_advance_plus baddrs_plus)
    have dj: "set (baddrs ?t) \<inter> set (addrs ss) = {}"
      using Cons.prems by (auto simp: ba dest: in_set_dropD)
    let ?k = "min (buf_size t - n) (length (addrs ss))"
    have "copy_one_many m t (s # ss) c = copy_one_many ?m ?t ss (c + n)"
      using False by (simp add: buffer_copy_1_copied n_def)
    also have "\<dots> = (copied ?m (drop n (baddrs t)) (addrs ss) ?k, c + n + ?k)"
      using Cons.IH [OF dj] by (simp add: ba)
    also have "copied ?m (drop n (baddrs t)) (addrs ss) ?k =
        copied m (baddrs t) (addrs (s # ss)) (n + ?k)"
    proof (cases "buf_size s \<le> buf_size t")
      case True
      then have n: "n = buf_size s" by (simp add: n_def)
      have "?m = copied m (baddrs t) (addrs (s # ss)) n"
        using copied_prefix [of n "baddrs t" "baddrs s" m "[]" "addrs ss"] n True by simp
      moreover have "drop n (addrs (s # ss)) = addrs ss" using n by simp
      ultimately show ?thesis
        using copied_add [OF Cons.prems, of n m ?k] n True by simp
    next
      case False
      then have "n = buf_size t" by (simp add: n_def)
      then show ?thesis
        using copied_prefix [of n "baddrs t" "baddrs s" m "[]" "addrs ss"] False by simp
    qed
    also have "n + ?k = min (buf_size t) (length (addrs (s # ss)))" by (simp add: n_def)
    moreover have "c + n + ?k = c + min (buf_size t) (length (addrs (s # ss)))" by (simp add: n_def)
    ultimately show ?thesis by simp
  qed simp
qed simp

lemma copy_many_one_copied:
  "set (addrs ts) \<inter> set (baddrs s) = {} \<Longrightarrow>
   copy_many_one m ts s c =
     (copied m (addrs ts) (baddrs s) (min (length (addrs ts)) (buf_size s)),
      c + min (length (addrs ts)) (buf_size s))"
proof (induction ts arbitrary: m s c)
  case (Cons t ts)
  show ?case
  proof (cases "buf_size s = 0")
    case False
    define n where "n = min (buf_size t) (buf_size s)"
    let ?s = "buf_advance s n" and ?m = "copied m (baddrs t) (baddrs s) n"
    have ba: "baddrs ?s = drop n (baddrs s)" "buf_size ?s = buf_size s - n"
      by (simp_all add: buf_advance_plus baddrs_plus)
    have dj: "set (addrs ts) \<inter> set (baddrs ?s) = {}"
      using Cons.prems by (auto simp: ba dest: in_set_dropD)
    let ?k = "min (length (addrs ts)) (buf_size s - n)"
    have "copy_many_one m (t # ts) s c = copy_many_one ?m ts ?s (c + n)"
      using False by (simp add: buffer_copy_1_copied n_def)
    also have "\<dots> = (copied ?m (addrs ts) (drop n (baddrs s)) ?k, c + n + ?k)"
      using Cons.IH [OF dj] by (simp add: ba)
    also have "copied ?m (addrs ts) (drop n (baddrs s)) ?k = copied m (addrs (t # ts)) (baddrs s) (n + ?k)"
    proof (cases "buf_size t \<le> buf_size s")
      case True
      then have n: "n = buf_size t" by (simp add: n_def)
      have "?m = copied m (addrs (t # ts)) (baddrs s) n"
        using copied_prefix [of n "baddrs t" "baddrs s" m "addrs ts" "[]"] n True by simp
      moreover have "drop n (addrs (t # ts)) = addrs ts" using n by simp
      ultimately show ?thesis
        using copied_add [OF Cons.prems, of n m ?k] n True by simp
    next
      case False
      then have "n = buf_size s" by (simp add: n_def)
      then show ?thesis
        using copied_prefix [of n "baddrs t" "baddrs s" m "addrs ts" "[]"] False by simp
    qed
    also have "n + ?k = min (length (addrs (t # ts))) (buf_size s)" by (simp add: n_def)
    moreover have "c + n + ?k = c + min (length (addrs (t # ts))) (buf_size s)" by (simp add: n_def)
    ultimately show ?thesis by simp
  qed simp
qed simp

text \<open>One round of the two-sided loops, on the addresses that are left.\<close>

lemma advance_side:
  assumes "ts \<noteq> []" "off \<le> buf_size (hd ts)" "n \<le> buf_size (hd ts) - off"
    and "(ts1, off1) = (if n = buf_size (buf_plus (hd ts) off) then (tl ts, 0) else (ts, off + n))"
  shows "drop off1 (addrs ts1) = drop n (drop off (addrs ts))" "ts1 \<noteq> [] \<Longrightarrow> off1 \<le> buf_size (hd ts1)"
    "drop off (addrs ts) = baddrs (buf_plus (hd ts) off) @ addrs (tl ts)"
    "n = buf_size (buf_plus (hd ts) off) \<Longrightarrow> length ts1 < length ts" "length ts1 \<le> length ts"
proof -
  obtain t ts' where ts: "ts = t # ts'" using assms(1) by (cases ts) auto
  show "drop off (addrs ts) = baddrs (buf_plus (hd ts) off) @ addrs (tl ts)"
    using assms(2) by (simp add: ts baddrs_plus)
  show "drop off1 (addrs ts1) = drop n (drop off (addrs ts))"
    using assms by (auto simp: ts add.commute split: if_splits)
  show "ts1 \<noteq> [] \<Longrightarrow> off1 \<le> buf_size (hd ts1)" "n = buf_size (buf_plus (hd ts) off) \<Longrightarrow> length ts1 < length ts"
    "length ts1 \<le> length ts"
    using assms by (auto simp: ts split: if_splits)
qed

lemma copy_many_many_copied:
  "set (drop toff (addrs ts)) \<inter> set (drop soff (addrs ss)) = {} \<Longrightarrow>
   (ts \<noteq> [] \<Longrightarrow> toff \<le> buf_size (hd ts)) \<Longrightarrow> (ss \<noteq> [] \<Longrightarrow> soff \<le> buf_size (hd ss)) \<Longrightarrow> c \<le> max_bytes \<Longrightarrow>
   k = min (max_bytes - c) (min (length (drop toff (addrs ts))) (length (drop soff (addrs ss)))) \<Longrightarrow>
   copy_many_many m ts toff ss soff max_bytes c =
     Some (copied m (drop toff (addrs ts)) (drop soff (addrs ss)) k, c + k)"
proof (induction "length ts + length ss + (if c = max_bytes then 0 else 1)"
    arbitrary: m ts toff ss soff c k rule: less_induct)
  case less
  show ?case
  proof (cases "c \<noteq> max_bytes \<and> ts \<noteq> [] \<and> ss \<noteq> []")
    case False
    then have "k = 0" using less.prems(4,5) by auto
    with False show ?thesis by (subst copy_many_many.simps) auto
  next
    case True
    let ?t = "buf_plus (hd ts) toff" and ?s = "buf_plus (hd ss) soff"
    let ?ls = "buf_limit ?s (max_bytes - c)"
    define n where "n = min (buf_size ?t) (buf_size ?ls)"
    obtain ts1 toff1 where t1: "(ts1, toff1) = (if n = buf_size ?t then (tl ts, 0) else (ts, toff + n))"
      by (metis surj_pair)
    obtain ss1 soff1 where s1: "(ss1, soff1) = (if n = buf_size ?s then (tl ss, 0) else (ss, soff + n))"
      by (metis surj_pair)
    have n: "n \<le> buf_size (hd ts) - toff" "n \<le> buf_size (hd ss) - soff" "n \<le> max_bytes - c"
      by (auto simp: n_def)
    have ne: "ts \<noteq> []" "ss \<noteq> []" using True by auto
    note ts = advance_side [OF ne(1) less.prems(2) [OF ne(1)] n(1) t1]
    note ss = advance_side [OF ne(2) less.prems(3) [OF ne(2)] n(2) s1]
    let ?T = "drop toff (addrs ts)" and ?S = "drop soff (addrs ss)"
    let ?m = "copied m ?T ?S n"
    have lens: "n \<le> length ?T" "n \<le> length ?S"
      unfolding ts(3) ss(3) length_append length_baddrs n_def by simp_all
    have cp: "copied m (baddrs ?t) (baddrs ?ls) n = ?m"
      unfolding ts(3) ss(3) baddrs_limit
      by (subst copied_take) (simp_all add: n_def copied_prefix)
    have eq: "copy_many_many m ts toff ss soff max_bytes c =
        copy_many_many ?m ts1 toff1 ss1 soff1 max_bytes (c + n)"
    proof -
      have "buffer_copy_1 m ?t ?ls = (?m, n)" using buffer_copy_1_copied [OF n_def] cp by simp
      then show ?thesis
        using True t1 s1 by (subst copy_many_many.simps) (simp add: Let_def split: if_splits)
    qed
    define k1 where "k1 = min (max_bytes - (c + n)) (min (length ?T - n) (length ?S - n))"
    have k: "k = n + k1" unfolding k1_def less.prems(5) using lens n(3) less.prems(4) by linarith
    have "n = buf_size ?t \<or> n = buf_size ?s \<or> c + n = max_bytes"
      using less.prems(4) unfolding n_def buf_limit_facts by linarith
    then have dec: "length ts1 + length ss1 + (if c + n = max_bytes then 0 else 1) <
        length ts + length ss + (if c = max_bytes then 0 else 1)"
      using ts(4,5) ss(4,5) ne True by fastforce
    have "copy_many_many ?m ts1 toff1 ss1 soff1 max_bytes (c + n) =
        Some (copied ?m (drop toff1 (addrs ts1)) (drop soff1 (addrs ss1)) k1, c + n + k1)"
    proof (rule less.hyps [OF dec])
      show "set (drop toff1 (addrs ts1)) \<inter> set (drop soff1 (addrs ss1)) = {}"
        unfolding ts(1) ss(1) by (rule disjoint_drop [OF less.prems(1)])
      show "ts1 \<noteq> [] \<Longrightarrow> toff1 \<le> buf_size (hd ts1)" "ss1 \<noteq> [] \<Longrightarrow> soff1 \<le> buf_size (hd ss1)"
        using ts(2) ss(2) by blast+
      show "c + n \<le> max_bytes" using n(3) less.prems(4) by simp
      show "k1 = min (max_bytes - (c + n)) (min (length (drop toff1 (addrs ts1))) (length (drop soff1 (addrs ss1))))"
        unfolding ts(1) ss(1) by (simp add: k1_def add.commute)
    qed
    also have "copied ?m (drop toff1 (addrs ts1)) (drop soff1 (addrs ss1)) k1 = copied m ?T ?S (n + k1)"
      unfolding ts(1) ss(1) by (rule copied_add [OF less.prems(1) lens])
    finally show ?thesis using eq k by (simp add: add.assoc)
  qed
qed

lemma copy_many_many_all_copied:
  "set (drop toff (addrs ts)) \<inter> set (drop soff (addrs ss)) = {} \<Longrightarrow>
   (ts \<noteq> [] \<Longrightarrow> toff \<le> buf_size (hd ts)) \<Longrightarrow> (ss \<noteq> [] \<Longrightarrow> soff \<le> buf_size (hd ss)) \<Longrightarrow>
   k = min (length (drop toff (addrs ts))) (length (drop soff (addrs ss))) \<Longrightarrow>
   copy_many_many_all m ts toff ss soff c =
     Some (copied m (drop toff (addrs ts)) (drop soff (addrs ss)) k, c + k)"
proof (induction "length ts + length ss" arbitrary: m ts toff ss soff c k rule: less_induct)
  case less
  show ?case
  proof (cases "ts \<noteq> [] \<and> ss \<noteq> []")
    case False
    then have "k = 0" using less.prems(4) by auto
    with False show ?thesis by (subst copy_many_many_all.simps) auto
  next
    case True
    let ?t = "buf_plus (hd ts) toff" and ?s = "buf_plus (hd ss) soff"
    define n where "n = min (buf_size ?t) (buf_size ?s)"
    obtain ts1 toff1 where t1: "(ts1, toff1) = (if n = buf_size ?t then (tl ts, 0) else (ts, toff + n))"
      by (metis surj_pair)
    obtain ss1 soff1 where s1: "(ss1, soff1) = (if n = buf_size ?s then (tl ss, 0) else (ss, soff + n))"
      by (metis surj_pair)
    have ne: "ts \<noteq> []" "ss \<noteq> []" using True by auto
    have n: "n \<le> buf_size (hd ts) - toff" "n \<le> buf_size (hd ss) - soff" by (auto simp: n_def)
    note ts = advance_side [OF ne(1) less.prems(2) [OF ne(1)] n(1) t1]
    note ss = advance_side [OF ne(2) less.prems(3) [OF ne(2)] n(2) s1]
    let ?T = "drop toff (addrs ts)" and ?S = "drop soff (addrs ss)"
    let ?m = "copied m ?T ?S n"
    have lens: "n \<le> length ?T" "n \<le> length ?S"
      unfolding ts(3) ss(3) length_append length_baddrs n_def by simp_all
    have cp: "copied m (baddrs ?t) (baddrs ?s) n = ?m"
      unfolding ts(3) ss(3) by (simp add: n_def copied_prefix)
    have eq: "copy_many_many_all m ts toff ss soff c = copy_many_many_all ?m ts1 toff1 ss1 soff1 (c + n)"
    proof -
      have "buffer_copy_1 m ?t ?s = (?m, n)" using buffer_copy_1_copied [OF n_def] cp by simp
      then show ?thesis
        using True t1 s1 by (subst copy_many_many_all.simps) (simp add: Let_def split: if_splits)
    qed
    define k1 where "k1 = min (length ?T - n) (length ?S - n)"
    have k: "k = n + k1" unfolding k1_def less.prems(4) using lens by linarith
    have "n = buf_size ?t \<or> n = buf_size ?s" by (auto simp: n_def)
    then have dec: "length ts1 + length ss1 < length ts + length ss"
      using ts(4,5) ss(4,5) by fastforce
    have "copy_many_many_all ?m ts1 toff1 ss1 soff1 (c + n) =
        Some (copied ?m (drop toff1 (addrs ts1)) (drop soff1 (addrs ss1)) k1, c + n + k1)"
    proof (rule less.hyps [OF dec])
      show "set (drop toff1 (addrs ts1)) \<inter> set (drop soff1 (addrs ss1)) = {}"
        unfolding ts(1) ss(1) by (rule disjoint_drop [OF less.prems(1)])
      show "ts1 \<noteq> [] \<Longrightarrow> toff1 \<le> buf_size (hd ts1)" "ss1 \<noteq> [] \<Longrightarrow> soff1 \<le> buf_size (hd ss1)"
        using ts(2) ss(2) by blast+
      show "k1 = min (length (drop toff1 (addrs ts1))) (length (drop soff1 (addrs ss1)))"
        unfolding ts(1) ss(1) by (simp add: k1_def add.commute)
    qed
    also have "copied ?m (drop toff1 (addrs ts1)) (drop soff1 (addrs ss1)) k1 = copied m ?T ?S (n + k1)"
      unfolding ts(1) ss(1) by (rule copied_add [OF less.prems(1) lens])
    finally show ?thesis using eq k by (simp add: add.assoc)
  qed
qed

section \<open>Properties\<close>

lemma buffer_copy_max_copied:
  assumes dj: "set (addrs (bufs_of t)) \<inter> set (addrs (bufs_of s)) = {}"
  shows "buffer_copy_max m t s max_bytes =
    (let n = min max_bytes (min (length (addrs (bufs_of t))) (length (addrs (bufs_of s))))
     in Some (copied m (addrs (bufs_of t)) (addrs (bufs_of s)) n, n))"
proof (cases t; cases s)
  fix tb sb assume eq: "t = One tb" "s = One sb"
  let ?n = "min max_bytes (min (buf_size tb) (buf_size sb))"
  have "buffer_copy_1 m tb (buf_limit sb max_bytes) =
      (copied m (baddrs tb) (baddrs (buf_limit sb max_bytes)) ?n, ?n)"
    by (rule buffer_copy_1_copied) auto
  also have "copied m (baddrs tb) (baddrs (buf_limit sb max_bytes)) ?n = copied m (baddrs tb) (baddrs sb) ?n"
    unfolding baddrs_limit by (rule copied_take) simp
  finally show ?thesis by (simp add: eq Let_def)
next
  fix tb ss assume eq: "t = One tb" "s = Many ss"
  have "set (baddrs (buf_limit tb max_bytes)) \<inter> set (addrs ss) = {}"
    using dj unfolding baddrs_limit by (auto simp: eq dest: in_set_takeD)
  from copy_one_many_copied [OF this, of m 0] show ?thesis
    unfolding baddrs_limit by (simp add: eq Let_def copied_take min.commute min.left_commute)
next
  fix ts sb assume eq: "t = Many ts" "s = One sb"
  have "set (addrs ts) \<inter> set (baddrs (buf_limit sb max_bytes)) = {}"
    using dj unfolding baddrs_limit by (auto simp: eq dest: in_set_takeD)
  from copy_many_one_copied [OF this, of m 0] show ?thesis
    unfolding baddrs_limit by (simp add: eq Let_def copied_take min.commute min.left_commute)
next
  fix ts ss assume eq: "t = Many ts" "s = Many ss"
  then show ?thesis
    using copy_many_many_copied [of 0 ts 0 ss 0 max_bytes _ m] dj by (simp add: Let_def)
qed

text \<open>C24: \<open>buffer_copy\<close>, in each of the four overloads for single buffers and buffer sequences,
  with and without a limit, terminates and copies exactly the minimum of the limit and the two
  total sizes: the bytes of the source sequence, in order and as they were before the call, end
  up at the addresses of the target sequence, all other memory is unchanged, and the number of
  bytes is returned. The memory areas must not overlap (the documented precondition).\<close>

theorem buffer_copy_correct:
  assumes "set (addrs (bufs_of t)) \<inter> set (addrs (bufs_of s)) = {}" "distinct (addrs (bufs_of t))"
    and "length (addrs (bufs_of t)) \<le> size_max" "length (addrs (bufs_of s)) \<le> size_max"
    and "n = min max_bytes (min (length (addrs (bufs_of t))) (length (addrs (bufs_of s))))"
  shows "\<exists>m'. buffer_copy_max m t s max_bytes = Some (m', n) \<and>
      (max_bytes = size_max \<longrightarrow> buffer_copy m t s = Some (m', n)) \<and>
      get_bytes m' (take n (addrs (bufs_of t))) = get_bytes m (take n (addrs (bufs_of s))) \<and>
      (\<forall>a. a \<notin> set (take n (addrs (bufs_of t))) \<longrightarrow> m' a = m a)"
proof -
  let ?m = "copied m (addrs (bufs_of t)) (addrs (bufs_of s)) n"
  have 1: "buffer_copy_max m t s max_bytes = Some (?m, n)"
    using buffer_copy_max_copied [OF assms(1), of m max_bytes] assms(5) by (simp add: Let_def)
  have "buffer_copy m t s = Some (?m, n)" if "max_bytes = size_max"
  proof (cases t; cases s)
    fix ts ss assume eq: "t = Many ts" "s = Many ss"
    then show ?thesis
      using copy_many_many_all_copied [of 0 ts 0 ss _ m 0] assms that by simp
  next
    fix tb sb assume eq: "t = One tb" "s = One sb"
    then show ?thesis
      using buffer_copy_1_copied [of n tb sb m] assms that by simp
  qed (use 1 that in auto)
  moreover have "get_bytes ?m (take n (addrs (bufs_of t))) = get_bytes m (take n (addrs (bufs_of s)))"
    using assms unfolding copied_def by (intro get_put_bytes) simp_all
  moreover have "\<forall>a. a \<notin> set (take n (addrs (bufs_of t))) \<longrightarrow> ?m a = m a"
    by (simp add: copied_def put_bytes_other)
  ultimately show ?thesis using 1 by blast
qed

theorem buffer_copy_correct_witness:
  "\<exists>m'. buffer_copy (\<lambda>a. of_nat a) (Many [\<lparr>buf_data = 0, buf_size = 1\<rparr>, \<lparr>buf_data = 3, buf_size = 2\<rparr>])
     (Many [\<lparr>buf_data = 10, buf_size = 2\<rparr>, \<lparr>buf_data = 20, buf_size = 5\<rparr>]) = Some (m', 3) \<and>
     get_bytes m' [0, 3, 4] = [10, 11, 20]"
proof -
  let ?t = "Many [\<lparr>buf_data = 0, buf_size = 1\<rparr>, \<lparr>buf_data = 3, buf_size = 2\<rparr>]"
  let ?s = "Many [\<lparr>buf_data = 10, buf_size = 2\<rparr>, \<lparr>buf_data = 20, buf_size = 5\<rparr>]"
  have a: "addrs (bufs_of ?t) = [0, 3, 4]" "addrs (bufs_of ?s) = [10, 11, 20, 21, 22, 23, 24]"
    by (simp_all add: baddrs_def upt_rec)
  have "(3 :: nat) = min size_max (min (length (addrs (bufs_of ?t))) (length (addrs (bufs_of ?s))))"
    unfolding a by (simp add: size_max_def)
  from buffer_copy_correct [of ?t ?s, OF _ _ _ _ this, of "\<lambda>a. of_nat a"] show ?thesis
    unfolding a by (auto simp: size_max_def numeral_3_eq_3)
qed

end
