(* ===== verification/ConsumingBuffers.thy ===== *)
theory ConsumingBuffers
  imports Buffers
begin

text \<open>
  \<open>consuming_buffers\<close> of \<open>include/asio/detail/consuming_buffers.hpp\<close>: the view of a buffer
  sequence that the composed read and write operations consume piece by piece. There are three
  implementations (any sequence, a single buffer, an array of two); the locale \<open>consuming\<close> is
  the contract they share, over the abstraction \<open>rest\<close>, the addresses not consumed yet.
\<close>

section \<open>Any buffer sequence\<close>

text \<open>\<open>max_buffers\<close>: at most sixteen buffers are prepared at a time.\<close>

definition prepared_max :: "nat \<Rightarrow> nat" where
  "prepared_max max_of_type = (if max_of_type < 16 then max_of_type else 16)"

record consuming_buffers =
  cb_buffers :: "abuf list"
  cb_max_buffers :: nat
  cb_total_size :: nat
  cb_total_consumed :: nat
  cb_next_elem :: nat
  cb_next_elem_offset :: nat

definition cb_new :: "nat \<Rightarrow> abuf list \<Rightarrow> consuming_buffers" where
  "cb_new max_of_type buffers =
     \<lparr>cb_buffers = buffers, cb_max_buffers = prepared_max max_of_type,
      cb_total_size = buffer_size buffers, cb_total_consumed = 0,
      cb_next_elem = 0, cb_next_elem_offset = 0\<rparr>"

definition cb_empty :: "consuming_buffers \<Rightarrow> bool" where
  "cb_empty c \<longleftrightarrow> cb_total_consumed c \<ge> cb_total_size c"

text \<open>The loop of \<open>prepare\<close>: the buffers from \<open>next\<close> on, the offset, the size left, the result so far.\<close>

fun cb_prepare_loop :: "nat \<Rightarrow> abuf list \<Rightarrow> nat \<Rightarrow> nat \<Rightarrow> abuf list \<Rightarrow> abuf list" where
  "cb_prepare_loop max_buffers [] elem_offset max_size result = result"
| "cb_prepare_loop max_buffers (b # bs) elem_offset max_size result =
     (if max_size > 0 \<and> length result < max_buffers then
        (let next_buf = buf_plus b elem_offset;
             elem = buf_limit next_buf max_size
         in cb_prepare_loop max_buffers bs 0 (max_size - buf_size elem)
              (if buf_size elem > 0 then result @ [elem] else result))
      else result)"

definition cb_prepare :: "consuming_buffers \<Rightarrow> nat \<Rightarrow> abuf list" where
  "cb_prepare c max_size =
     cb_prepare_loop (cb_max_buffers c) (drop (cb_next_elem c) (cb_buffers c))
       (cb_next_elem_offset c) max_size []"

text \<open>The loop of \<open>consume\<close>, returning the new \<open>next_elem_\<close> and \<open>next_elem_offset_\<close>.\<close>

fun cb_consume_loop :: "abuf list \<Rightarrow> nat \<Rightarrow> nat \<Rightarrow> nat \<Rightarrow> nat \<times> nat" where
  "cb_consume_loop [] sz next_elem next_elem_offset = (next_elem, next_elem_offset)"
| "cb_consume_loop (b # bs) sz next_elem next_elem_offset =
     (if sz > 0 then
        (let next_buf = buf_plus b next_elem_offset
         in if sz < buf_size next_buf
            then cb_consume_loop (b # bs) 0 next_elem (next_elem_offset + sz)
            else cb_consume_loop bs (sz - buf_size next_buf) (next_elem + 1) 0)
      else (next_elem, next_elem_offset))"

definition cb_consume :: "consuming_buffers \<Rightarrow> nat \<Rightarrow> consuming_buffers" where
  "cb_consume c sz =
     (let (elem, offset) = cb_consume_loop (drop (cb_next_elem c) (cb_buffers c)) sz
            (cb_next_elem c) (cb_next_elem_offset c)
      in c\<lparr>cb_total_consumed := cb_total_consumed c + sz, cb_next_elem := elem,
           cb_next_elem_offset := offset\<rparr>)"

section \<open>A single buffer\<close>

record consuming_single_buffer =
  csb_buffer :: abuf
  csb_total_consumed :: nat

definition csb_new :: "abuf \<Rightarrow> consuming_single_buffer" where
  "csb_new b = \<lparr>csb_buffer = b, csb_total_consumed = 0\<rparr>"

definition csb_empty :: "consuming_single_buffer \<Rightarrow> bool" where
  "csb_empty c \<longleftrightarrow> csb_total_consumed c \<ge> buf_size (csb_buffer c)"

definition csb_prepare :: "consuming_single_buffer \<Rightarrow> nat \<Rightarrow> abuf list" where
  "csb_prepare c max_size = [buf_limit (buf_plus (csb_buffer c) (csb_total_consumed c)) max_size]"

definition csb_consume :: "consuming_single_buffer \<Rightarrow> nat \<Rightarrow> consuming_single_buffer" where
  "csb_consume c sz = c\<lparr>csb_total_consumed := csb_total_consumed c + sz\<rparr>"

section \<open>An array of two buffers\<close>

record consuming_pair =
  cpr_first :: abuf
  cpr_second :: abuf
  cpr_total_consumed :: nat

definition cpr_new :: "abuf \<Rightarrow> abuf \<Rightarrow> consuming_pair" where
  "cpr_new b0 b1 = \<lparr>cpr_first = b0, cpr_second = b1, cpr_total_consumed = 0\<rparr>"

definition cpr_empty :: "consuming_pair \<Rightarrow> bool" where
  "cpr_empty c \<longleftrightarrow> cpr_total_consumed c \<ge> buf_size (cpr_first c) + buf_size (cpr_second c)"

definition cpr_prepare :: "consuming_pair \<Rightarrow> nat \<Rightarrow> abuf list" where
  "cpr_prepare c max_size =
     (let buffer0_size = buf_size (cpr_first c);
          r0 = buf_limit (buf_plus (cpr_first c) (cpr_total_consumed c)) max_size;
          r1 = buf_limit (buf_plus (cpr_second c)
                 (if cpr_total_consumed c < buffer0_size then 0 else cpr_total_consumed c - buffer0_size))
                 (max_size - buf_size r0)
      in [r0, r1])"

definition cpr_consume :: "consuming_pair \<Rightarrow> nat \<Rightarrow> consuming_pair" where
  "cpr_consume c sz = c\<lparr>cpr_total_consumed := cpr_total_consumed c + sz\<rparr>"

section \<open>The contract\<close>

locale consuming =
  fixes ok :: "'c \<Rightarrow> bool"
    and rest :: "'c \<Rightarrow> nat list"
    and empty :: "'c \<Rightarrow> bool"
    and prepare :: "'c \<Rightarrow> nat \<Rightarrow> abuf list"
    and consume :: "'c \<Rightarrow> nat \<Rightarrow> 'c"
    and total_consumed :: "'c \<Rightarrow> nat"
  assumes empty_law: "ok c \<Longrightarrow> empty c \<longleftrightarrow> rest c = []"
    and prepare_law: "ok c \<Longrightarrow> addrs (prepare c n) = take (length (addrs (prepare c n))) (rest c) \<and>
      length (addrs (prepare c n)) \<le> n"
    and prepare_some: "ok c \<Longrightarrow> rest c \<noteq> [] \<Longrightarrow> 0 < n \<Longrightarrow> addrs (prepare c n) \<noteq> []"
    and consume_law: "ok c \<Longrightarrow> n \<le> length (rest c) \<Longrightarrow>
      ok (consume c n) \<and> rest (consume c n) = drop n (rest c) \<and>
      total_consumed (consume c n) = total_consumed c + n"
begin

text \<open>What the composed operations need of one round: prepare, transfer, consume.\<close>

lemma prepare_bound:
  assumes "ok c"
  shows "length (addrs (prepare c n)) \<le> min n (length (rest c))"
proof -
  have "length (addrs (prepare c n)) = length (take (length (addrs (prepare c n))) (rest c))"
    using prepare_law [OF assms, of n] by simp
  then have "length (addrs (prepare c n)) \<le> length (rest c)" by simp
  with prepare_law [OF assms, of n] show ?thesis by simp
qed

lemma consume_prepared:
  assumes "ok c" "k \<le> length (addrs (prepare c n))"
  shows "ok (consume c k)" "rest (consume c k) = drop k (rest c)"
    "total_consumed (consume c k) = total_consumed c + k" "take k (addrs (prepare c n)) = take k (rest c)"
proof -
  have "k \<le> length (rest c)" using prepare_bound [OF assms(1), of n] assms(2) by simp
  from consume_law [OF assms(1) this] show "ok (consume c k)" "rest (consume c k) = drop k (rest c)"
    "total_consumed (consume c k) = total_consumed c + k" by blast+
  have "take k (addrs (prepare c n)) = take k (take (length (addrs (prepare c n))) (rest c))"
    using prepare_law [OF assms(1), of n] by simp
  then show "take k (addrs (prepare c n)) = take k (rest c)" using assms(2) by (simp add: min_def)
qed

end

section \<open>The three implementations meet the contract\<close>

definition cb_rest :: "consuming_buffers \<Rightarrow> nat list" where
  "cb_rest c = drop (cb_next_elem_offset c) (addrs (drop (cb_next_elem c) (cb_buffers c)))"

definition cb_ok :: "consuming_buffers \<Rightarrow> bool" where
  "cb_ok c \<longleftrightarrow>
     cb_total_size c = length (addrs (cb_buffers c)) \<and> 0 < cb_max_buffers c \<and>
     (drop (cb_next_elem c) (cb_buffers c) \<noteq> [] \<longrightarrow>
        cb_next_elem_offset c \<le> buf_size (hd (drop (cb_next_elem c) (cb_buffers c)))) \<and>
     cb_total_consumed c + length (cb_rest c) = cb_total_size c"

lemma addrs_append: "addrs (xs @ ys) = addrs xs @ addrs ys"
  by (simp add: addrs_def)

lemma cb_prepare_loop_addrs:
  "(bs \<noteq> [] \<Longrightarrow> off \<le> buf_size (hd bs)) \<Longrightarrow>
   \<exists>k. addrs (cb_prepare_loop mb bs off n res) = addrs res @ take k (drop off (addrs bs)) \<and> k \<le> n \<and>
     (0 < n \<longrightarrow> length res < mb \<longrightarrow> drop off (addrs bs) \<noteq> [] \<longrightarrow> 0 < k)"
proof (induction bs arbitrary: off n res)
  case Nil
  then show ?case by (intro exI [of _ 0]) simp
next
  case (Cons b bs)
  let ?e = "buf_limit (buf_plus b off) n"
  let ?res = "if buf_size ?e > 0 then res @ [?e] else res"
  show ?case
  proof (cases "n > 0 \<and> length res < mb")
    case False
    then show ?thesis by (intro exI [of _ 0]) auto
  next
    case True
    obtain k where k: "addrs (cb_prepare_loop mb bs 0 (n - buf_size ?e) ?res) = addrs ?res @ take k (addrs bs)"
      "k \<le> n - buf_size ?e"
      "0 < n - buf_size ?e \<longrightarrow> length ?res < mb \<longrightarrow> addrs bs \<noteq> [] \<longrightarrow> 0 < k"
      using Cons.IH [of 0 "n - buf_size ?e" ?res] by auto
    have off: "off \<le> buf_size b" using Cons.prems by simp
    have ares: "addrs ?res = addrs res @ take n (drop off (baddrs b))"
      by (auto simp: addrs_append baddrs_limit baddrs_plus)
    let ?k = "buf_size ?e + k"
    have tk: "take n (drop off (baddrs b)) @ take k (addrs bs) = take ?k (drop off (addrs (b # bs)))"
      using k(2) off by (cases "buf_size b - off \<le> n") auto
    have "0 < ?k" if "drop off (addrs (b # bs)) \<noteq> []"
    proof (cases "buf_size ?e = 0")
      case True
      then have "buf_size b = off" using \<open>n > 0 \<and> length res < mb\<close> off by auto
      then have "addrs bs \<noteq> []" using that by auto
      moreover have "?res = res" using True by simp
      ultimately show ?thesis using k(3) True \<open>n > 0 \<and> length res < mb\<close> by simp
    qed simp
    moreover have "cb_prepare_loop mb (b # bs) off n res = cb_prepare_loop mb bs 0 (n - buf_size ?e) ?res"
      using True by (simp add: Let_def)
    moreover have "?k \<le> n" using k(2) by simp
    moreover have "addrs (cb_prepare_loop mb bs 0 (n - buf_size ?e) ?res) =
        addrs res @ take ?k (drop off (addrs (b # bs)))"
      unfolding k(1) ares tk [symmetric] by simp
    ultimately show ?thesis by metis
  qed
qed

lemma cb_consume_loop_facts:
  "(bs \<noteq> [] \<Longrightarrow> off \<le> buf_size (hd bs)) \<Longrightarrow> n \<le> length (drop off (addrs bs)) \<Longrightarrow>
   cb_consume_loop bs n i off = (i', off') \<Longrightarrow>
   \<exists>j \<le> length bs. i' = i + j \<and> drop off' (addrs (drop j bs)) = drop n (drop off (addrs bs)) \<and>
     (drop j bs \<noteq> [] \<longrightarrow> off' \<le> buf_size (hd (drop j bs)))"
proof (induction bs arbitrary: off n i)
  case Nil
  then show ?case by simp
next
  case (Cons b bs)
  have off: "off \<le> buf_size b" using Cons.prems(1) by simp
  show ?case
  proof (cases "0 < n \<and> \<not> n < buf_size b - off")
    case False
    then have "n = 0 \<or> n < buf_size b - off" by auto
    then have "i' = i \<and> off' = off + n" using Cons.prems(3) by (auto split: if_splits)
    then show ?thesis using off False
      by (intro exI [of _ 0]) (auto simp: add.commute)
  next
    case True
    then have run: "cb_consume_loop bs (n - (buf_size b - off)) (i + 1) 0 = (i', off')"
      using Cons.prems(3) by simp
    have "n - (buf_size b - off) \<le> length (drop 0 (addrs bs))"
      using Cons.prems(2) off by simp
    from Cons.IH [OF _ this run] obtain j where j: "j \<le> length bs" "i' = i + 1 + j"
      "drop off' (addrs (drop j bs)) = drop (n - (buf_size b - off)) (addrs bs)"
      "drop j bs \<noteq> [] \<longrightarrow> off' \<le> buf_size (hd (drop j bs))" by auto
    have "buf_size b \<le> n + off" using True by linarith
    then have "drop n (drop off (addrs (b # bs))) = drop (n - (buf_size b - off)) (addrs bs)"
      using off by simp
    with j show ?thesis by (intro exI [of _ "Suc j"]) auto
  qed
qed

interpretation cb: consuming cb_ok cb_rest cb_empty cb_prepare cb_consume cb_total_consumed
proof
  fix c :: consuming_buffers and n :: nat
  assume ok: "cb_ok c"
  then show "cb_empty c \<longleftrightarrow> cb_rest c = []"
    by (auto simp: cb_empty_def cb_ok_def simp flip: length_0_conv)
  obtain k where k: "addrs (cb_prepare c n) = take k (cb_rest c)" "k \<le> n"
    "0 < n \<longrightarrow> cb_rest c \<noteq> [] \<longrightarrow> 0 < k"
    using cb_prepare_loop_addrs [of "drop (cb_next_elem c) (cb_buffers c)" "cb_next_elem_offset c"
        "cb_max_buffers c" n "[]"] ok
    by (auto simp: cb_prepare_def cb_rest_def cb_ok_def)
  then show "addrs (cb_prepare c n) = take (length (addrs (cb_prepare c n))) (cb_rest c) \<and>
      length (addrs (cb_prepare c n)) \<le> n"
    by (cases "k \<le> length (cb_rest c)") auto
  show "cb_rest c \<noteq> [] \<Longrightarrow> 0 < n \<Longrightarrow> addrs (cb_prepare c n) \<noteq> []" using k by simp
  assume n: "n \<le> length (cb_rest c)"
  obtain i' off' where run: "cb_consume_loop (drop (cb_next_elem c) (cb_buffers c)) n
      (cb_next_elem c) (cb_next_elem_offset c) = (i', off')" by fastforce
  obtain j where j: "i' = cb_next_elem c + j"
    "drop off' (addrs (drop j (drop (cb_next_elem c) (cb_buffers c)))) = drop n (cb_rest c)"
    "drop j (drop (cb_next_elem c) (cb_buffers c)) \<noteq> [] \<longrightarrow>
       off' \<le> buf_size (hd (drop j (drop (cb_next_elem c) (cb_buffers c))))"
    using cb_consume_loop_facts [OF _ _ run] ok n by (auto simp: cb_ok_def cb_rest_def)
  have eq: "cb_consume c n = c\<lparr>cb_total_consumed := cb_total_consumed c + n, cb_next_elem := i',
      cb_next_elem_offset := off'\<rparr>"
    by (simp add: cb_consume_def run)
  then have "cb_rest (cb_consume c n) = drop n (cb_rest c)"
    using j(1,2) by (simp add: cb_rest_def add.commute)
  moreover have "cb_ok (cb_consume c n)"
    using ok n j calculation by (auto simp: cb_ok_def eq add.commute)
  ultimately show "cb_ok (cb_consume c n) \<and> cb_rest (cb_consume c n) = drop n (cb_rest c) \<and>
      cb_total_consumed (cb_consume c n) = cb_total_consumed c + n"
    by (simp add: eq)
qed

lemma cb_new_ok: "0 < max_of_type \<Longrightarrow> cb_ok (cb_new max_of_type bs)" "cb_rest (cb_new max_of_type bs) = addrs bs"
  by (auto simp: cb_ok_def cb_new_def cb_rest_def buffer_size_eq prepared_max_def)

definition csb_rest :: "consuming_single_buffer \<Rightarrow> nat list" where
  "csb_rest c = drop (csb_total_consumed c) (baddrs (csb_buffer c))"

interpretation csb: consuming "\<lambda>_. True" csb_rest csb_empty csb_prepare csb_consume csb_total_consumed
  by unfold_locales
    (auto simp: csb_rest_def csb_empty_def csb_prepare_def csb_consume_def baddrs_limit baddrs_plus
      add.commute min_def)

definition cpr_rest :: "consuming_pair \<Rightarrow> nat list" where
  "cpr_rest c = drop (cpr_total_consumed c) (baddrs (cpr_first c) @ baddrs (cpr_second c))"

interpretation cpr: consuming "\<lambda>_. True" cpr_rest cpr_empty cpr_prepare cpr_consume cpr_total_consumed
proof
  fix c n
  show "cpr_empty c \<longleftrightarrow> cpr_rest c = []" by (auto simp: cpr_empty_def cpr_rest_def)
  have ad: "addrs (cpr_prepare c n) = take n (cpr_rest c)"
    by (cases "n \<le> buf_size (cpr_first c) - cpr_total_consumed c")
      (auto simp: cpr_prepare_def cpr_rest_def Let_def baddrs_limit baddrs_plus)
  then show "addrs (cpr_prepare c n) = take (length (addrs (cpr_prepare c n))) (cpr_rest c) \<and>
      length (addrs (cpr_prepare c n)) \<le> n"
    by (simp add: min_def)
  show "cpr_rest c \<noteq> [] \<Longrightarrow> 0 < n \<Longrightarrow> addrs (cpr_prepare c n) \<noteq> []" by (simp add: ad)
  show "True \<and> cpr_rest (cpr_consume c n) = drop n (cpr_rest c) \<and>
      cpr_total_consumed (cpr_consume c n) = cpr_total_consumed c + n"
    by (simp add: cpr_rest_def cpr_consume_def add.commute del: drop_append)
qed

end
