(* ===== verification/Completion.thy ===== *)
theory Completion
  imports Prelude
begin

text \<open>
  What decides when a composed operation ends: the completion conditions of
  \<open>include/asio/completion_condition.hpp\<close> and the cancellation state of
  \<open>cancellation_state.hpp\<close>. A completion condition is a pure function of the last error and
  the bytes transferred; its result, a \<open>bool\<close> or a size, is the argument of the overloaded
  \<open>adapt_completion_condition_result\<close>.
\<close>

section \<open>Completion conditions\<close>

definition default_max_transfer_size :: nat where
  "default_max_transfer_size = 65536"

datatype cc_result = Complete bool | Max_size nat

fun adapt_completion_condition_result :: "cc_result \<Rightarrow> nat" where
  "adapt_completion_condition_result (Complete result) = (if result then 0 else default_max_transfer_size)"
| "adapt_completion_condition_result (Max_size result) = result"

type_synonym completion_condition = "error_code \<Rightarrow> nat \<Rightarrow> cc_result"

definition transfer_all :: completion_condition where
  "transfer_all err n = Max_size (if failed err then 0 else default_max_transfer_size)"

definition transfer_at_least :: "nat \<Rightarrow> completion_condition" where
  "transfer_at_least minimum err bytes_transferred =
     Max_size (if failed err \<or> bytes_transferred \<ge> minimum then 0 else default_max_transfer_size)"

definition transfer_exactly :: "nat \<Rightarrow> completion_condition" where
  "transfer_exactly n err bytes_transferred =
     Max_size (if failed err \<or> bytes_transferred \<ge> n then 0
               else (if n - bytes_transferred < default_max_transfer_size
                     then n - bytes_transferred else default_max_transfer_size))"

text \<open>\<open>base_from_completion_cond::check_for_completion\<close>.\<close>

definition check_for_completion :: "completion_condition \<Rightarrow> error_code \<Rightarrow> nat \<Rightarrow> nat" where
  "check_for_completion cc ec total_transferred =
     adapt_completion_condition_result (cc ec total_transferred)"

text \<open>A condition that ends the operation at the first error, as the three of the library do.\<close>

definition stops_on_error :: "completion_condition \<Rightarrow> bool" where
  "stops_on_error cc \<longleftrightarrow> (\<forall>ec n. failed ec \<longrightarrow> check_for_completion cc ec n = 0)"

lemma check_transfer_all [simp]:
  "check_for_completion transfer_all ec n = (if failed ec then 0 else default_max_transfer_size)"
  by (simp add: check_for_completion_def transfer_all_def)

lemma check_at_least [simp]:
  "check_for_completion (transfer_at_least k) ec n =
     (if failed ec \<or> n \<ge> k then 0 else default_max_transfer_size)"
  by (simp add: check_for_completion_def transfer_at_least_def)

lemma check_exactly [simp]:
  "check_for_completion (transfer_exactly k) ec n =
     (if failed ec then 0 else min (k - n) default_max_transfer_size)"
  by (auto simp: check_for_completion_def transfer_exactly_def)

lemma default_max_pos [simp]: "0 < default_max_transfer_size" "default_max_transfer_size \<noteq> 0"
  by (simp_all add: default_max_transfer_size_def)

lemma library_conditions_stop [simp, intro]:
  "stops_on_error transfer_all" "stops_on_error (transfer_at_least k)" "stops_on_error (transfer_exactly k)"
  by (simp_all add: stops_on_error_def)

section \<open>Cancellation\<close>

text \<open>\<open>cancellation_type\<close>: a 32-bit set of flags.\<close>

type_synonym cancellation_type = "32 word"

definition ct_none :: cancellation_type where "ct_none = 0"
definition ct_terminal :: cancellation_type where "ct_terminal = 1"
definition ct_partial :: cancellation_type where "ct_partial = 2"
definition ct_total :: cancellation_type where "ct_total = 4"
definition ct_all :: cancellation_type where "ct_all = 0xFFFFFFFF"

definition cancellation_filter :: "cancellation_type \<Rightarrow> cancellation_type \<Rightarrow> cancellation_type" where
  "cancellation_filter flags type = and type flags"

definition enable_terminal_cancellation :: "cancellation_type \<Rightarrow> cancellation_type" where
  "enable_terminal_cancellation = cancellation_filter ct_terminal"

definition enable_partial_cancellation :: "cancellation_type \<Rightarrow> cancellation_type" where
  "enable_partial_cancellation = cancellation_filter (or ct_terminal ct_partial)"

definition enable_total_cancellation :: "cancellation_type \<Rightarrow> cancellation_type" where
  "enable_total_cancellation = cancellation_filter (or (or ct_terminal ct_partial) ct_total)"

text \<open>
  A cancellation state: not connected to a slot (a null \<open>impl_\<close>), or the flags that arrived last,
  filtered, with the two filters. \<open>cs_signal\<close> is the handler's \<open>impl::operator()\<close>: the new state
  and what it emits to the outgoing signal.
\<close>

record cancellation_impl =
  ci_cancelled :: cancellation_type
  ci_in_filter :: "cancellation_type \<Rightarrow> cancellation_type"
  ci_out_filter :: "cancellation_type \<Rightarrow> cancellation_type"

type_synonym cancellation_state = "cancellation_impl option"

definition cs_new ::
  "bool \<Rightarrow> (cancellation_type \<Rightarrow> cancellation_type) \<Rightarrow> (cancellation_type \<Rightarrow> cancellation_type) \<Rightarrow> cancellation_state"
where
  "cs_new is_connected in_filter out_filter =
     (if is_connected
      then Some \<lparr>ci_cancelled = 0, ci_in_filter = in_filter, ci_out_filter = out_filter\<rparr>
      else None)"

definition cs_cancelled :: "cancellation_state \<Rightarrow> cancellation_type" where
  "cs_cancelled cs = (case cs of None \<Rightarrow> 0 | Some impl \<Rightarrow> ci_cancelled impl)"

definition cs_clear :: "cancellation_type \<Rightarrow> cancellation_state \<Rightarrow> cancellation_state" where
  "cs_clear flags cs =
     (case cs of None \<Rightarrow> None
      | Some impl \<Rightarrow> Some (impl\<lparr>ci_cancelled := and (ci_cancelled impl) (not flags)\<rparr>))"

definition cs_signal :: "cancellation_type \<Rightarrow> cancellation_state \<Rightarrow> cancellation_state \<times> cancellation_type option" where
  "cs_signal type cs =
     (case cs of None \<Rightarrow> (None, None)
      | Some impl \<Rightarrow>
          (let cancelled = ci_in_filter impl type;
               out = ci_out_filter impl cancelled
           in (Some (impl\<lparr>ci_cancelled := cancelled\<rparr>), if out \<noteq> ct_none then Some out else None)))"

end
