(* ===== verification/ReadWrite.thy ===== *)
theory ReadWrite
  imports ConsumingBuffers Completion
begin

text \<open>
  The composed operations on buffer sequences: \<open>read\<close>, \<open>write\<close> of \<open>impl/read.hpp\<close> and
  \<open>impl/write.hpp\<close>, \<open>read_at\<close>, \<open>write_at\<close>, and the asynchronous \<open>read_op\<close> and \<open>write_op\<close>.
  The stream is a parameter: \<open>read_some\<close> takes the sizes of the buffers it is given and returns
  its new state, the bytes it delivers and an error code; \<open>write_some\<close> takes the bytes of the
  buffers and returns how many it accepted.
\<close>

section \<open>The consuming buffers of a buffer sequence\<close>

text \<open>
  The partial specialisations of \<open>consuming_buffers\<close>: one buffer, an array of two, and any other
  sequence, with the \<open>max_buffers\<close> of its type.
\<close>

datatype bufarg = Single abuf | Pair abuf abuf | Seq nat "abuf list"

datatype con = Con_single consuming_single_buffer | Con_pair consuming_pair | Con_seq consuming_buffers

fun con_new :: "bufarg \<Rightarrow> con" where
  "con_new (Single b) = Con_single (csb_new b)"
| "con_new (Pair b0 b1) = Con_pair (cpr_new b0 b1)"
| "con_new (Seq max_of_type bs) = Con_seq (cb_new max_of_type bs)"

fun con_empty :: "con \<Rightarrow> bool" where
  "con_empty (Con_single c) = csb_empty c"
| "con_empty (Con_pair c) = cpr_empty c"
| "con_empty (Con_seq c) = cb_empty c"

fun con_prepare :: "con \<Rightarrow> nat \<Rightarrow> abuf list" where
  "con_prepare (Con_single c) max_size = csb_prepare c max_size"
| "con_prepare (Con_pair c) max_size = cpr_prepare c max_size"
| "con_prepare (Con_seq c) max_size = cb_prepare c max_size"

fun con_consume :: "con \<Rightarrow> nat \<Rightarrow> con" where
  "con_consume (Con_single c) sz = Con_single (csb_consume c sz)"
| "con_consume (Con_pair c) sz = Con_pair (cpr_consume c sz)"
| "con_consume (Con_seq c) sz = Con_seq (cb_consume c sz)"

fun con_total_consumed :: "con \<Rightarrow> nat" where
  "con_total_consumed (Con_single c) = csb_total_consumed c"
| "con_total_consumed (Con_pair c) = cpr_total_consumed c"
| "con_total_consumed (Con_seq c) = cb_total_consumed c"

fun con_ok :: "con \<Rightarrow> bool" where
  "con_ok (Con_single c) = True"
| "con_ok (Con_pair c) = True"
| "con_ok (Con_seq c) = cb_ok c"

fun con_rest :: "con \<Rightarrow> nat list" where
  "con_rest (Con_single c) = csb_rest c"
| "con_rest (Con_pair c) = cpr_rest c"
| "con_rest (Con_seq c) = cb_rest c"

lemma con_empty_law: "con_ok c \<Longrightarrow> con_empty c \<longleftrightarrow> con_rest c = []"
  using csb.empty_law cpr.empty_law cb.empty_law by (cases c) simp_all

lemma con_prepare_law:
  "con_ok c \<Longrightarrow> addrs (con_prepare c n) = take (length (addrs (con_prepare c n))) (con_rest c) \<and>
     length (addrs (con_prepare c n)) \<le> n"
  using csb.prepare_law cpr.prepare_law cb.prepare_law
  by (cases c; simp only: con_prepare.simps con_rest.simps con_ok.simps)

lemma con_prepare_some: "con_ok c \<Longrightarrow> con_rest c \<noteq> [] \<Longrightarrow> 0 < n \<Longrightarrow> addrs (con_prepare c n) \<noteq> []"
  using csb.prepare_some cpr.prepare_some cb.prepare_some
  by (cases c; simp only: con_prepare.simps con_rest.simps con_ok.simps)

lemma con_consume_law:
  assumes "con_ok c" "n \<le> length (con_rest c)"
  shows "con_ok (con_consume c n) \<and> con_rest (con_consume c n) = drop n (con_rest c) \<and>
     con_total_consumed (con_consume c n) = con_total_consumed c + n"
proof (cases c)
  case (Con_single c')
  then show ?thesis using csb.consume_law [where c = c' and n = n] assms(2) by simp
next
  case (Con_pair c')
  then show ?thesis using cpr.consume_law [where c = c' and n = n] assms(2) by simp
next
  case (Con_seq c')
  then have "cb_ok c'" "n \<le> length (cb_rest c')" using assms by simp_all
  from cb.consume_law [OF this] show ?thesis using Con_seq by simp
qed

interpretation con: consuming con_ok con_rest con_empty con_prepare con_consume con_total_consumed
proof
  fix c :: con and n :: nat
  assume ok: "con_ok c"
  show "con_empty c \<longleftrightarrow> con_rest c = []" using ok by (rule con_empty_law)
  show "addrs (con_prepare c n) = take (length (addrs (con_prepare c n))) (con_rest c) \<and>
      length (addrs (con_prepare c n)) \<le> n"
    using ok by (rule con_prepare_law)
  show "con_rest c \<noteq> [] \<Longrightarrow> 0 < n \<Longrightarrow> addrs (con_prepare c n) \<noteq> []" by (rule con_prepare_some [OF ok])
  show "n \<le> length (con_rest c) \<Longrightarrow> con_ok (con_consume c n) \<and>
      con_rest (con_consume c n) = drop n (con_rest c) \<and>
      con_total_consumed (con_consume c n) = con_total_consumed c + n"
    by (rule con_consume_law [OF ok])
qed

fun arg_bufs :: "bufarg \<Rightarrow> abuf list" where
  "arg_bufs (Single b) = [b]"
| "arg_bufs (Pair b0 b1) = [b0, b1]"
| "arg_bufs (Seq max_of_type bs) = bs"

text \<open>A type of buffer sequences has room for at least one buffer.\<close>

fun arg_ok :: "bufarg \<Rightarrow> bool" where
  "arg_ok (Seq max_of_type bs) \<longleftrightarrow> 0 < max_of_type"
| "arg_ok _ \<longleftrightarrow> True"

lemma con_new_facts:
  assumes "arg_ok b"
  shows "con_ok (con_new b)" "con_rest (con_new b) = addrs (arg_bufs b)" "con_total_consumed (con_new b) = 0"
proof -
  show "con_ok (con_new b)" using assms by (cases b) (simp_all add: cb_new_ok)
  show "con_rest (con_new b) = addrs (arg_bufs b)"
    by (cases b) (simp_all add: cb_new_ok csb_rest_def csb_new_def cpr_rest_def cpr_new_def)
  show "con_total_consumed (con_new b) = 0"
    by (cases b) (simp_all add: csb_new_def cpr_new_def cb_new_def)
qed

section \<open>Synchronous reads\<close>

type_synonym 's reader = "'s \<Rightarrow> nat list \<Rightarrow> 's \<times> byte list \<times> error_code"

partial_function (option) read_loop ::
  "'s reader \<Rightarrow> completion_condition \<Rightarrow> con \<Rightarrow> error_code \<Rightarrow> 's \<Rightarrow> mem \<Rightarrow>
   (nat \<times> error_code \<times> 's \<times> mem) option"
where
  "read_loop read_some cc tmp ec s m =
     (if \<not> con_empty tmp then
        (let max_size = adapt_completion_condition_result (cc ec (con_total_consumed tmp))
         in if max_size \<noteq> 0 then
              (case read_some s (map buf_size (con_prepare tmp max_size)) of (s1, data, ec1) \<Rightarrow>
                read_loop read_some cc (con_consume tmp (length data)) ec1 s1
                  (put_bytes m (addrs (con_prepare tmp max_size)) data))
            else Some (con_total_consumed tmp, ec, s, m))
      else Some (con_total_consumed tmp, ec, s, m))"

declare read_loop.simps [code]

definition read_buffer_sequence ::
  "'s reader \<Rightarrow> 's \<Rightarrow> mem \<Rightarrow> bufarg \<Rightarrow> completion_condition \<Rightarrow> (nat \<times> error_code \<times> 's \<times> mem) option"
where
  "read_buffer_sequence read_some s m buffers cc =
     read_loop read_some cc (con_new buffers) Ok_code s m"

text \<open>The overloads of \<open>read\<close>: with a default condition, and throwing.\<close>

definition read_ec :: "'s reader \<Rightarrow> 's \<Rightarrow> mem \<Rightarrow> bufarg \<Rightarrow> (nat \<times> error_code \<times> 's \<times> mem) option" where
  "read_ec read_some s m buffers = read_buffer_sequence read_some s m buffers transfer_all"

definition read_throw ::
  "'s reader \<Rightarrow> 's \<Rightarrow> mem \<Rightarrow> bufarg \<Rightarrow> completion_condition \<Rightarrow> ((exn + nat) \<times> 's \<times> mem) option"
where
  "read_throw read_some s m buffers cc =
     (case read_buffer_sequence read_some s m buffers cc of
        None \<Rightarrow> None
      | Some (n, ec, s', m') \<Rightarrow> Some (throw_error ec n, s', m'))"

text \<open>
  What is known of a stream: it delivers at most what the buffers hold (\<open>out\<close> is the bytes it has
  delivered so far), and when there is room it delivers something or reports an error.
\<close>

definition conforming_reader :: "('s \<Rightarrow> byte list) \<Rightarrow> 's reader \<Rightarrow> bool" where
  "conforming_reader out read_some \<longleftrightarrow>
     (\<forall>s sizes s' data ec. read_some s sizes = (s', data, ec) \<longrightarrow>
        length data \<le> sum_list sizes \<and> out s' = out s @ data)"

definition progressing_reader :: "'s reader \<Rightarrow> bool" where
  "progressing_reader read_some \<longleftrightarrow>
     (\<forall>s sizes s' data ec. read_some s sizes = (s', data, ec) \<longrightarrow> sum_list sizes > 0 \<longrightarrow>
        data \<noteq> [] \<or> failed ec)"

lemma conforming_readerD:
  assumes "conforming_reader out read_some" "read_some s sizes = (s', data, ec)"
  shows "length data \<le> sum_list sizes" "out s' = out s @ data"
  using assms unfolding conforming_reader_def by blast+

lemma sum_sizes: "sum_list (map buf_size bs) = length (addrs bs)"
  by (induction bs) simp_all

text \<open>One round of the loop.\<close>

lemma round_facts:
  assumes ok: "con_ok c" and rd: "read_some s (map buf_size (con_prepare c n)) = (s1, data, ec1)"
    and conf: "conforming_reader out read_some"
  shows "con_ok (con_consume c (length data))"
    "con_rest (con_consume c (length data)) = drop (length data) (con_rest c)"
    "con_total_consumed (con_consume c (length data)) = con_total_consumed c + length data"
    "put_bytes m (addrs (con_prepare c n)) data = put_bytes m (con_rest c) data"
    "out s1 = out s @ data" "length data \<le> n" "length data \<le> length (con_rest c)"
proof -
  have len: "length data \<le> length (addrs (con_prepare c n))" and out: "out s1 = out s @ data"
    using conforming_readerD [OF conf rd] by (simp_all add: sum_sizes)
  show "out s1 = out s @ data" by (fact out)
  note cp = con.consume_prepared [OF ok len]
  show "con_ok (con_consume c (length data))"
    "con_rest (con_consume c (length data)) = drop (length data) (con_rest c)"
    "con_total_consumed (con_consume c (length data)) = con_total_consumed c + length data"
    by (fact cp)+
  show "put_bytes m (addrs (con_prepare c n)) data = put_bytes m (con_rest c) data"
    using put_bytes_take [of m "addrs (con_prepare c n)" data] put_bytes_take [of m "con_rest c" data] cp(4)
    by simp
  show "length data \<le> n" "length data \<le> length (con_rest c)"
    using con.prepare_bound [OF ok, of n] len by simp_all
qed

lemma put_bytes_two:
  assumes "length vs \<le> length ts"
  shows "put_bytes (put_bytes m ts vs) (drop (length vs) ts) ws = put_bytes m ts (vs @ ws)"
proof -
  have "put_bytes m ts (vs @ ws) = put_bytes m (take (length vs) ts @ drop (length vs) ts) (vs @ ws)"
    by simp
  also have "\<dots> = put_bytes (put_bytes m (take (length vs) ts) vs) (drop (length vs) ts) ws"
    using assms by (intro put_bytes_append) simp
  finally show ?thesis by (simp flip: put_bytes_take)
qed

text \<open>What one call of the loop has done when it returns.\<close>

definition read_done ::
  "('s \<Rightarrow> byte list) \<Rightarrow> completion_condition \<Rightarrow> con \<Rightarrow> 's \<Rightarrow> mem \<Rightarrow> nat \<times> error_code \<times> 's \<times> mem \<Rightarrow> bool"
where
  "read_done out cc c s m r \<longleftrightarrow> (case r of (n, ec, s', m') \<Rightarrow>
     (\<exists>data. out s' = out s @ data \<and> n = con_total_consumed c + length data \<and>
        length data \<le> length (con_rest c) \<and> m' = put_bytes m (con_rest c) data \<and>
        (length data = length (con_rest c) \<or> check_for_completion cc ec n = 0)) \<and>
     (\<forall>k. (\<forall>e i. check_for_completion cc e i \<le> k - i) \<longrightarrow> con_total_consumed c \<le> k \<longrightarrow> n \<le> k))"

lemma read_done_stop:
  assumes "con_ok c" "con_rest c = [] \<or> check_for_completion cc ec (con_total_consumed c) = 0"
  shows "read_done out cc c s m (con_total_consumed c, ec, s, m)"
  using assms by (auto simp: read_done_def)

lemma read_done_round:
  assumes ok: "con_ok c"
    and rd: "read_some s (map buf_size (con_prepare c (check_for_completion cc ec (con_total_consumed c)))) =
      (s1, data, ec1)"
    and conf: "conforming_reader out read_some"
    and fin: "read_done out cc (con_consume c (length data)) s1
      (put_bytes m (addrs (con_prepare c (check_for_completion cc ec (con_total_consumed c)))) data) r"
  shows "read_done out cc c s m r"
proof -
  note rf = round_facts [OF ok rd conf]
  obtain n ec' s' m' where r: "r = (n, ec', s', m')" by (cases r)
  from fin obtain more where more: "out s' = out s1 @ more"
    "n = con_total_consumed c + length data + length more" "length more \<le> length (con_rest c) - length data"
    "m' = put_bytes (put_bytes m (con_rest c) data) (drop (length data) (con_rest c)) more"
    "length more = length (con_rest c) - length data \<or> check_for_completion cc ec' n = 0"
    unfolding read_done_def r rf(2-4) by (auto simp: add.assoc)
  have "n \<le> k" if k: "\<forall>e i. check_for_completion cc e i \<le> k - i" "con_total_consumed c \<le> k" for k
  proof -
    have "length data \<le> k - con_total_consumed c" using rf(6) k(1) le_trans by blast
    then have "con_total_consumed (con_consume c (length data)) \<le> k" using k(2) rf(3) by simp
    then show ?thesis using fin k(1) by (simp add: read_done_def r)
  qed
  moreover have "\<exists>data. out s' = out s @ data \<and> n = con_total_consumed c + length data \<and>
        length data \<le> length (con_rest c) \<and> m' = put_bytes m (con_rest c) data \<and>
        (length data = length (con_rest c) \<or> check_for_completion cc ec' n = 0)"
    using more rf(5,7) put_bytes_two [OF rf(7)] by (intro exI [of _ "data @ more"]) auto
  ultimately show ?thesis by (simp add: read_done_def r)
qed

lemma read_loop_done:
  assumes conf: "conforming_reader out read_some"
    and res: "read_loop read_some cc c ec s m = Some r"
    and ok: "con_ok c"
  shows "read_done out cc c s m r"
proof -
  let ?P = "\<lambda>read_some' cc' c (ec::error_code) s m r.
    read_some' = read_some \<longrightarrow> cc' = cc \<longrightarrow> con_ok c \<longrightarrow> read_done out cc c s m r"
  have "?P read_some cc c ec s m r"
  proof (rule read_loop.raw_induct [where P = ?P, OF _ res], intro impI)
    fix loop read_some' cc' c ec s m r
    assume IH: "\<And>a b c (ec::error_code) s m r. loop a b c ec s m = Some r \<Longrightarrow> ?P a b c ec s m r"
      and body: "(if \<not> con_empty c then
        (let max_size = adapt_completion_condition_result (cc' ec (con_total_consumed c))
         in if max_size \<noteq> 0 then
              (case read_some' s (map buf_size (con_prepare c max_size)) of (s1, data, ec1) \<Rightarrow>
                loop read_some' cc' (con_consume c (length data)) ec1 s1
                  (put_bytes m (addrs (con_prepare c max_size)) data))
            else Some (con_total_consumed c, ec, s, m))
      else Some (con_total_consumed c, ec, s, m)) = Some r"
      and eqs: "read_some' = read_some" "cc' = cc" and ok: "con_ok c"
    let ?n = "check_for_completion cc ec (con_total_consumed c)"
    show "read_done out cc c s m r"
    proof (cases "con_rest c = [] \<or> ?n = 0")
      case True
      then have "r = (con_total_consumed c, ec, s, m)"
        using body eqs con.empty_law [OF ok] by (auto simp: check_for_completion_def Let_def)
      then show ?thesis using read_done_stop [OF ok True] by simp
    next
      case False
      obtain s1 data ec1 where rd: "read_some s (map buf_size (con_prepare c ?n)) = (s1, data, ec1)"
        by (metis prod_cases3)
      have "loop read_some cc (con_consume c (length data)) ec1 s1
          (put_bytes m (addrs (con_prepare c ?n)) data) = Some r"
        using body eqs False con.empty_law [OF ok] rd by (simp add: check_for_completion_def Let_def)
      from IH [OF this] round_facts(1) [OF ok rd conf]
      show ?thesis by (intro read_done_round [OF ok rd conf]) simp
    qed
  qed
  with ok show ?thesis by simp
qed

lemma read_loop_returns:
  assumes conf: "conforming_reader out read_some" and prog: "progressing_reader read_some"
    and stops: "stops_on_error cc"
  shows "con_ok c \<Longrightarrow> \<exists>r. read_loop read_some cc c ec s m = Some r"
proof (induction "length (con_rest c)" arbitrary: c ec s m rule: less_induct)
  case less
  let ?n = "check_for_completion cc ec (con_total_consumed c)"
  show ?case
  proof (cases "con_rest c = [] \<or> ?n = 0")
    case True
    then show ?thesis using con.empty_law [OF less.prems]
      by (subst read_loop.simps) (auto simp: check_for_completion_def Let_def)
  next
    case False
    obtain s1 data ec1 where rd: "read_some s (map buf_size (con_prepare c ?n)) = (s1, data, ec1)"
      by (metis prod_cases3)
    let ?c = "con_consume c (length data)"
    let ?m = "put_bytes m (addrs (con_prepare c ?n)) data"
    have step: "read_loop read_some cc c ec s m = read_loop read_some cc ?c ec1 s1 ?m"
      using False con.empty_law [OF less.prems] rd
      by (subst read_loop.simps) (simp add: check_for_completion_def Let_def)
    note rf = round_facts [OF less.prems rd conf]
    have "addrs (con_prepare c ?n) \<noteq> []" using con.prepare_some [OF less.prems] False by simp
    then have "data \<noteq> [] \<or> failed ec1"
      using prog rd unfolding progressing_reader_def by (metis length_greater_0_conv sum_sizes)
    then show ?thesis
    proof
      assume "data \<noteq> []"
      then have "length (con_rest ?c) < length (con_rest c)" using rf(2) False by simp
      from less.hyps [OF this rf(1)] show ?thesis unfolding step .
    next
      assume "failed ec1"
      then have "check_for_completion cc ec1 (con_total_consumed ?c) = 0"
        using stops by (simp add: stops_on_error_def)
      then have "read_loop read_some cc ?c ec1 s1 ?m = Some (con_total_consumed ?c, ec1, s1, ?m)"
        by (subst read_loop.simps) (simp add: check_for_completion_def Let_def)
      then show ?thesis unfolding step by blast
    qed
  qed
qed

end
