(* ===== verification/WriteLoop.thy ===== *)
theory WriteLoop
  imports ReadWrite
begin

text \<open>
  \<open>write\<close> of \<open>impl/write.hpp\<close>: the loop over the consuming buffers, with a stream that takes the
  bytes of the buffers it is given and returns how many it accepted.
\<close>

type_synonym 's writer = "'s \<Rightarrow> byte list list \<Rightarrow> 's \<times> nat \<times> error_code"

definition buf_bytes :: "mem \<Rightarrow> abuf list \<Rightarrow> byte list list" where
  "buf_bytes m bs = map (\<lambda>b. get_bytes m (baddrs b)) bs"

partial_function (option) write_loop ::
  "'s writer \<Rightarrow> completion_condition \<Rightarrow> mem \<Rightarrow> con \<Rightarrow> error_code \<Rightarrow> 's \<Rightarrow> (nat \<times> error_code \<times> 's) option"
where
  "write_loop write_some cc m tmp ec s =
     (if \<not> con_empty tmp then
        (let max_size = adapt_completion_condition_result (cc ec (con_total_consumed tmp))
         in if max_size \<noteq> 0 then
              (case write_some s (buf_bytes m (con_prepare tmp max_size)) of (s1, n, ec1) \<Rightarrow>
                write_loop write_some cc m (con_consume tmp n) ec1 s1)
            else Some (con_total_consumed tmp, ec, s))
      else Some (con_total_consumed tmp, ec, s))"

declare write_loop.simps [code]

definition write_buffer_sequence ::
  "'s writer \<Rightarrow> 's \<Rightarrow> mem \<Rightarrow> bufarg \<Rightarrow> completion_condition \<Rightarrow> (nat \<times> error_code \<times> 's) option"
where
  "write_buffer_sequence write_some s m buffers cc =
     write_loop write_some cc m (con_new buffers) Ok_code s"

definition write_ec :: "'s writer \<Rightarrow> 's \<Rightarrow> mem \<Rightarrow> bufarg \<Rightarrow> (nat \<times> error_code \<times> 's) option" where
  "write_ec write_some s m buffers = write_buffer_sequence write_some s m buffers transfer_all"

definition write_throw ::
  "'s writer \<Rightarrow> 's \<Rightarrow> mem \<Rightarrow> bufarg \<Rightarrow> completion_condition \<Rightarrow> ((exn + nat) \<times> 's) option"
where
  "write_throw write_some s m buffers cc =
     (case write_buffer_sequence write_some s m buffers cc of
        None \<Rightarrow> None
      | Some (n, ec, s') \<Rightarrow> Some (throw_error ec n, s'))"

text \<open>
  The stream accepts a prefix of what it is given (\<open>out\<close> is what it has accepted so far), and when it is
  given something it accepts something or reports an error.
\<close>

definition conforming_writer :: "('s \<Rightarrow> byte list) \<Rightarrow> 's writer \<Rightarrow> bool" where
  "conforming_writer out write_some \<longleftrightarrow>
     (\<forall>s bss s' n ec. write_some s bss = (s', n, ec) \<longrightarrow>
        n \<le> length (concat bss) \<and> out s' = out s @ take n (concat bss))"

definition progressing_writer :: "'s writer \<Rightarrow> bool" where
  "progressing_writer write_some \<longleftrightarrow>
     (\<forall>s bss s' n ec. write_some s bss = (s', n, ec) \<longrightarrow> concat bss \<noteq> [] \<longrightarrow> 0 < n \<or> failed ec)"

lemma concat_buf_bytes: "concat (buf_bytes m bs) = get_bytes m (addrs bs)"
  by (induction bs) (simp_all add: buf_bytes_def)

lemma take_get_bytes: "take n (get_bytes m as) = get_bytes m (take n as)"
  by (simp add: get_bytes_def take_map)

lemma write_round_facts:
  assumes ok: "con_ok c" and wr: "write_some s (buf_bytes m (con_prepare c mx)) = (s1, n, ec1)"
    and conf: "conforming_writer out write_some"
  shows "con_ok (con_consume c n)" "con_rest (con_consume c n) = drop n (con_rest c)"
    "con_total_consumed (con_consume c n) = con_total_consumed c + n"
    "out s1 = out s @ get_bytes m (take n (con_rest c))" "n \<le> mx" "n \<le> length (con_rest c)"
proof -
  have len: "n \<le> length (addrs (con_prepare c mx))"
    and out: "out s1 = out s @ get_bytes m (take n (addrs (con_prepare c mx)))"
    using conf wr unfolding conforming_writer_def
    by (metis concat_buf_bytes get_bytes_simps(3), metis concat_buf_bytes take_get_bytes)
  note cp = con.consume_prepared [OF ok len]
  show "con_ok (con_consume c n)" "con_rest (con_consume c n) = drop n (con_rest c)"
    "con_total_consumed (con_consume c n) = con_total_consumed c + n"
    by (fact cp)+
  show "out s1 = out s @ get_bytes m (take n (con_rest c))" using out cp(4) by simp
  show "n \<le> mx" "n \<le> length (con_rest c)" using con.prepare_bound [OF ok, of mx] len by simp_all
qed

definition write_done ::
  "('s \<Rightarrow> byte list) \<Rightarrow> completion_condition \<Rightarrow> mem \<Rightarrow> con \<Rightarrow> 's \<Rightarrow> nat \<times> error_code \<times> 's \<Rightarrow> bool"
where
  "write_done out cc m c s r \<longleftrightarrow> (case r of (n, ec, s') \<Rightarrow>
     (\<exists>k \<le> length (con_rest c). n = con_total_consumed c + k \<and>
        out s' = out s @ get_bytes m (take k (con_rest c)) \<and>
        (k = length (con_rest c) \<or> check_for_completion cc ec n = 0)) \<and>
     (\<forall>k. (\<forall>e i. check_for_completion cc e i \<le> k - i) \<longrightarrow> con_total_consumed c \<le> k \<longrightarrow> n \<le> k))"

lemma write_done_stop:
  assumes "con_ok c" "con_rest c = [] \<or> check_for_completion cc ec (con_total_consumed c) = 0"
  shows "write_done out cc m c s (con_total_consumed c, ec, s)"
  using assms by (auto simp: write_done_def intro!: exI [of _ 0])

lemma write_done_round:
  assumes ok: "con_ok c"
    and wr: "write_some s (buf_bytes m (con_prepare c (check_for_completion cc ec (con_total_consumed c)))) =
      (s1, n, ec1)"
    and conf: "conforming_writer out write_some"
    and fin: "write_done out cc m (con_consume c n) s1 r"
  shows "write_done out cc m c s r"
proof -
  note wf = write_round_facts [OF ok wr conf]
  obtain n' ec' s' where r: "r = (n', ec', s')" by (cases r)
  from fin obtain k where k: "k \<le> length (con_rest c) - n" "n' = con_total_consumed c + (n + k)"
    "out s' = out s1 @ get_bytes m (take k (drop n (con_rest c)))"
    "k = length (con_rest c) - n \<or> check_for_completion cc ec' n' = 0"
    unfolding write_done_def r wf(2,3) by (auto simp: add.assoc)
  have "n' \<le> b" if b: "\<forall>e i. check_for_completion cc e i \<le> b - i" "con_total_consumed c \<le> b" for b
  proof -
    have "n \<le> b - con_total_consumed c" using wf(5) b(1) le_trans by blast
    then have "con_total_consumed (con_consume c n) \<le> b" using b(2) wf(3) by simp
    then show ?thesis using fin b(1) by (simp add: write_done_def r)
  qed
  moreover have "out s' = out s @ get_bytes m (take (n + k) (con_rest c))"
    using k(3) wf(4) by (simp add: take_add)
  moreover have "n + k \<le> length (con_rest c)" using k(1) wf(6) by simp
  ultimately show ?thesis using k wf(6) by (auto simp: write_done_def r intro!: exI [of _ "n + k"])
qed

lemma write_loop_done:
  assumes conf: "conforming_writer out write_some"
    and res: "write_loop write_some cc m c ec s = Some r"
    and ok: "con_ok c"
  shows "write_done out cc m c s r"
proof -
  let ?P = "\<lambda>write_some' cc' m' c (ec::error_code) s r.
    write_some' = write_some \<longrightarrow> cc' = cc \<longrightarrow> m' = m \<longrightarrow> con_ok c \<longrightarrow> write_done out cc m c s r"
  have "?P write_some cc m c ec s r"
  proof (rule write_loop.raw_induct [where P = ?P, OF _ res], intro impI)
    fix loop write_some' cc' m' c ec s r
    assume IH: "\<And>a b m c (ec::error_code) s r. loop a b m c ec s = Some r \<Longrightarrow> ?P a b m c ec s r"
      and body: "(if \<not> con_empty c then
        (let max_size = adapt_completion_condition_result (cc' ec (con_total_consumed c))
         in if max_size \<noteq> 0 then
              (case write_some' s (buf_bytes m' (con_prepare c max_size)) of (s1, n, ec1) \<Rightarrow>
                loop write_some' cc' m' (con_consume c n) ec1 s1)
            else Some (con_total_consumed c, ec, s))
      else Some (con_total_consumed c, ec, s)) = Some r"
      and eqs: "write_some' = write_some" "cc' = cc" "m' = m" and ok: "con_ok c"
    let ?n = "check_for_completion cc ec (con_total_consumed c)"
    show "write_done out cc m c s r"
    proof (cases "con_rest c = [] \<or> ?n = 0")
      case True
      then have "r = (con_total_consumed c, ec, s)"
        using body eqs con.empty_law [OF ok] by (auto simp: check_for_completion_def Let_def)
      then show ?thesis using write_done_stop [OF ok True] by simp
    next
      case False
      obtain s1 n ec1 where wr: "write_some s (buf_bytes m (con_prepare c ?n)) = (s1, n, ec1)"
        by (metis prod_cases3)
      have "loop write_some cc m (con_consume c n) ec1 s1 = Some r"
        using body eqs False con.empty_law [OF ok] wr by (simp add: check_for_completion_def Let_def)
      from IH [OF this] write_round_facts(1) [OF ok wr conf]
      show ?thesis by (intro write_done_round [OF ok wr conf]) simp
    qed
  qed
  with ok show ?thesis by simp
qed

lemma write_loop_returns:
  assumes conf: "conforming_writer out write_some" and prog: "progressing_writer write_some"
    and stops: "stops_on_error cc"
  shows "con_ok c \<Longrightarrow> \<exists>r. write_loop write_some cc m c ec s = Some r"
proof (induction "length (con_rest c)" arbitrary: c ec s rule: less_induct)
  case less
  let ?n = "check_for_completion cc ec (con_total_consumed c)"
  show ?case
  proof (cases "con_rest c = [] \<or> ?n = 0")
    case True
    then show ?thesis using con.empty_law [OF less.prems]
      by (subst write_loop.simps) (auto simp: check_for_completion_def Let_def)
  next
    case False
    obtain s1 n ec1 where wr: "write_some s (buf_bytes m (con_prepare c ?n)) = (s1, n, ec1)"
      by (metis prod_cases3)
    let ?c = "con_consume c n"
    have step: "write_loop write_some cc m c ec s = write_loop write_some cc m ?c ec1 s1"
      using False con.empty_law [OF less.prems] wr
      by (subst write_loop.simps) (simp add: check_for_completion_def Let_def)
    note wf = write_round_facts [OF less.prems wr conf]
    have "addrs (con_prepare c ?n) \<noteq> []" using con.prepare_some [OF less.prems] False by simp
    then have "concat (buf_bytes m (con_prepare c ?n)) \<noteq> []"
      unfolding concat_buf_bytes by (simp add: get_bytes_def)
    then have "0 < n \<or> failed ec1" using prog wr unfolding progressing_writer_def by blast
    then show ?thesis
    proof
      assume "0 < n"
      then have "length (con_rest ?c) < length (con_rest c)" using wf(2) False by simp
      from less.hyps [OF this wf(1)] show ?thesis unfolding step .
    next
      assume "failed ec1"
      then have "check_for_completion cc ec1 (con_total_consumed ?c) = 0"
        using stops by (simp add: stops_on_error_def)
      then have "write_loop write_some cc m ?c ec1 s1 = Some (con_total_consumed ?c, ec1, s1)"
        by (subst write_loop.simps) (simp add: check_for_completion_def Let_def)
      then show ?thesis unfolding step by blast
    qed
  qed
qed

end
