(* ===== verification/AsyncOps.thy ===== *)
theory AsyncOps
  imports WriteLoop
begin

text \<open>
  The asynchronous \<open>read_op\<close> of \<open>impl/read.hpp\<close> and \<open>write_op\<close> of \<open>impl/write.hpp\<close>. Each is a
  resumable function: called with \<open>start = 1\<close> it issues the first operation, called back with
  the result of an operation it either issues the next one or invokes the handler. The step
  relation \<open>async_read_step\<close> interleaves the completions of the stream with cancellation signals.
\<close>

section \<open>The operations\<close>

record rw_op =
  rw_buffers :: con
  rw_start :: int
  rw_cancel :: cancellation_state

datatype op_action = Issue "abuf list" | Invoke error_code nat

definition read_op_new :: "bufarg \<Rightarrow> bool \<Rightarrow> rw_op" where
  "read_op_new buffers slot_connected =
     \<lparr>rw_buffers = con_new buffers, rw_start = 0,
      rw_cancel = cs_new slot_connected enable_partial_cancellation enable_partial_cancellation\<rparr>"

definition read_op_call ::
  "completion_condition \<Rightarrow> rw_op \<Rightarrow> error_code \<Rightarrow> nat \<Rightarrow> int \<Rightarrow> rw_op \<times> op_action"
where
  "read_op_call cc op0 ec bytes_transferred start =
     (let op = op0\<lparr>rw_start := start\<rparr> in
      if start = 1 then
        (let max_size = check_for_completion cc ec (con_total_consumed (rw_buffers op))
         in (op, Issue (con_prepare (rw_buffers op) max_size)))
      else
        (let buffers = con_consume (rw_buffers op) bytes_transferred;
             op = op\<lparr>rw_buffers := buffers\<rparr>
         in if (\<not> failed ec \<and> bytes_transferred = 0) \<or> con_empty buffers
            then (op, Invoke ec (con_total_consumed buffers))
            else
              (let max_size = check_for_completion cc ec (con_total_consumed buffers)
               in if max_size = 0 then (op, Invoke ec (con_total_consumed buffers))
                  else if cs_cancelled (rw_cancel op) \<noteq> ct_none
                  then (op, Invoke Operation_aborted (con_total_consumed buffers))
                  else (op, Issue (con_prepare buffers max_size)))))"

definition start_read_op :: "completion_condition \<Rightarrow> bufarg \<Rightarrow> bool \<Rightarrow> rw_op \<times> op_action" where
  "start_read_op cc buffers slot_connected =
     read_op_call cc (read_op_new buffers slot_connected) Ok_code 0 1"

definition write_op_new :: "bufarg \<Rightarrow> bool \<Rightarrow> rw_op" where
  "write_op_new buffers slot_connected =
     \<lparr>rw_buffers = con_new buffers, rw_start = 0,
      rw_cancel = cs_new slot_connected enable_partial_cancellation enable_partial_cancellation\<rparr>"

definition write_op_call ::
  "completion_condition \<Rightarrow> rw_op \<Rightarrow> error_code \<Rightarrow> nat \<Rightarrow> int \<Rightarrow> rw_op \<times> op_action"
where
  "write_op_call cc op0 ec bytes_transferred start =
     (let op = op0\<lparr>rw_start := start\<rparr> in
      if start = 1 then
        (let max_size = check_for_completion cc ec (con_total_consumed (rw_buffers op))
         in (op, Issue (con_prepare (rw_buffers op) max_size)))
      else
        (let buffers = con_consume (rw_buffers op) bytes_transferred;
             op = op\<lparr>rw_buffers := buffers\<rparr>
         in if (\<not> failed ec \<and> bytes_transferred = 0) \<or> con_empty buffers
            then (op, Invoke ec (con_total_consumed buffers))
            else
              (let max_size = check_for_completion cc ec (con_total_consumed buffers)
               in if max_size = 0 then (op, Invoke ec (con_total_consumed buffers))
                  else if cs_cancelled (rw_cancel op) \<noteq> ct_none
                  then (op, Invoke Operation_aborted (con_total_consumed buffers))
                  else (op, Issue (con_prepare buffers max_size)))))"

definition start_write_op :: "completion_condition \<Rightarrow> bufarg \<Rightarrow> bool \<Rightarrow> rw_op \<times> op_action" where
  "start_write_op cc buffers slot_connected =
     write_op_call cc (write_op_new buffers slot_connected) Ok_code 0 1"

section \<open>Running a read\<close>

text \<open>
  A pending operation has one \<open>async_read_some\<close> outstanding, on the buffers shown. The stream
  completes it, or the slot of the handler receives a cancellation; what passes the filters is
  emitted to the outstanding operation (\<open>on_cancel\<close>).
\<close>

datatype 's async_read = Pending_read rw_op "abuf list" 's mem | Read_done error_code nat 's mem

fun after_action :: "rw_op \<times> op_action \<Rightarrow> 's \<Rightarrow> mem \<Rightarrow> 's async_read" where
  "after_action (op, Issue bufs) s m = Pending_read op bufs s m"
| "after_action (op, Invoke ec n) s m = Read_done ec n s m"

inductive async_read_step ::
  "'s reader \<Rightarrow> (cancellation_type \<Rightarrow> 's \<Rightarrow> 's) \<Rightarrow> completion_condition \<Rightarrow>
   's async_read \<Rightarrow> 's async_read \<Rightarrow> bool"
for read_some on_cancel cc where
  deliver: "read_some s (map buf_size bufs) = (s1, data, ec) \<Longrightarrow>
    async_read_step read_some on_cancel cc (Pending_read op bufs s m)
      (after_action (read_op_call cc op ec (length data) 0) s1 (put_bytes m (addrs bufs) data))"
| cancel: "cs_signal type (rw_cancel op) = (cs, emitted) \<Longrightarrow>
    async_read_step read_some on_cancel cc (Pending_read op bufs s m)
      (Pending_read (op\<lparr>rw_cancel := cs\<rparr>) bufs
        (case emitted of None \<Rightarrow> s | Some t \<Rightarrow> on_cancel t s) m)"

inductive_cases async_read_stepE: "async_read_step rs oc cc st st'"

definition start_read :: "completion_condition \<Rightarrow> bufarg \<Rightarrow> bool \<Rightarrow> 's \<Rightarrow> mem \<Rightarrow> 's async_read" where
  "start_read cc buffers slot_connected s m = after_action (start_read_op cc buffers slot_connected) s m"

inductive async_read_reach ::
  "'s reader \<Rightarrow> (cancellation_type \<Rightarrow> 's \<Rightarrow> 's) \<Rightarrow> completion_condition \<Rightarrow>
   's async_read \<Rightarrow> 's async_read \<Rightarrow> bool"
for read_some on_cancel cc st0 where
  start: "async_read_reach read_some on_cancel cc st0 st0"
| next_step: "async_read_reach read_some on_cancel cc st0 st \<Longrightarrow>
    async_read_step read_some on_cancel cc st st' \<Longrightarrow>
    async_read_reach read_some on_cancel cc st0 st'"

text \<open>Without cancellation the run is a function.\<close>

partial_function (option) run_async_read ::
  "'s reader \<Rightarrow> completion_condition \<Rightarrow> rw_op \<Rightarrow> abuf list \<Rightarrow> 's \<Rightarrow> mem \<Rightarrow>
   (nat \<times> error_code \<times> 's \<times> mem) option"
where
  "run_async_read read_some cc op bufs s m =
     (case read_some s (map buf_size bufs) of (s1, data, ec) \<Rightarrow>
        (case read_op_call cc op ec (length data) 0 of (op1, act) \<Rightarrow>
          (case act of
             Issue bufs1 \<Rightarrow> run_async_read read_some cc op1 bufs1 s1 (put_bytes m (addrs bufs) data)
           | Invoke ec1 n \<Rightarrow> Some (n, ec1, s1, put_bytes m (addrs bufs) data))))"

declare run_async_read.simps [code]

definition async_read ::
  "'s reader \<Rightarrow> completion_condition \<Rightarrow> 's \<Rightarrow> mem \<Rightarrow> bufarg \<Rightarrow> (nat \<times> error_code \<times> 's \<times> mem) option"
where
  "async_read read_some cc s m buffers =
     (case start_read_op cc buffers False of
        (op, Issue bufs) \<Rightarrow> run_async_read read_some cc op bufs s m
      | (op, Invoke ec n) \<Rightarrow> Some (n, ec, s, m))"

section \<open>The invariant of a read\<close>

text \<open>
  Relative to the initial stream and memory: the bytes delivered so far are the ones consumed, and
  they fill the buffers from the front; a pending operation has been given the next part of the
  buffers. When it is done, it says how many bytes were delivered, and why it stopped.
\<close>

definition delivered :: "('s \<Rightarrow> byte list) \<Rightarrow> abuf list \<Rightarrow> 's \<Rightarrow> mem \<Rightarrow> nat \<Rightarrow> 's \<Rightarrow> mem \<Rightarrow> bool" where
  "delivered out bufs s0 m0 n s m \<longleftrightarrow>
     (\<exists>data. out s = out s0 @ data \<and> length data = n \<and> n \<le> buffer_size bufs \<and>
        m = put_bytes m0 (addrs bufs) data)"

fun async_read_inv ::
  "('s \<Rightarrow> byte list) \<Rightarrow> completion_condition \<Rightarrow> bufarg \<Rightarrow> 's \<Rightarrow> mem \<Rightarrow> 's async_read \<Rightarrow> bool"
where
  "async_read_inv out cc buffers s0 m0 (Pending_read op bufs s m) \<longleftrightarrow>
     con_ok (rw_buffers op) \<and>
     con_rest (rw_buffers op) = drop (con_total_consumed (rw_buffers op)) (addrs (arg_bufs buffers)) \<and>
     (\<exists>mx. bufs = con_prepare (rw_buffers op) mx) \<and>
     (addrs bufs = [] \<longrightarrow> addrs (arg_bufs buffers) = [] \<or> check_for_completion cc Ok_code 0 = 0) \<and>
     delivered out (arg_bufs buffers) s0 m0 (con_total_consumed (rw_buffers op)) s m"
| "async_read_inv out cc buffers s0 m0 (Read_done ec n s m) \<longleftrightarrow>
     delivered out (arg_bufs buffers) s0 m0 n s m \<and>
     (n = buffer_size (arg_bufs buffers) \<or> check_for_completion cc ec n = 0 \<or>
      ec = Operation_aborted \<or> check_for_completion cc Ok_code 0 = 0)"

lemma after_action_cases:
  obtains (Issue) op bufs where "call = (op, Issue bufs)" "after_action call s m = Pending_read op bufs s m"
  | (Invoke) op ec n where "call = (op, Invoke ec n)" "after_action call s m = Read_done ec n s m"
  by (metis after_action.simps op_action.exhaust prod.exhaust)

lemma read_op_resumed:
  "read_op_call cc op ec k 0 =
     (let c = con_consume (rw_buffers op) k; op = op\<lparr>rw_start := 0, rw_buffers := c\<rparr> in
      if (\<not> failed ec \<and> k = 0) \<or> con_empty c \<or> check_for_completion cc ec (con_total_consumed c) = 0
      then (op, Invoke ec (con_total_consumed c))
      else if cs_cancelled (rw_cancel op) \<noteq> ct_none then (op, Invoke Operation_aborted (con_total_consumed c))
      else (op, Issue (con_prepare c (check_for_completion cc ec (con_total_consumed c)))))"
  by (simp add: read_op_call_def Let_def)

lemma deliver_inv:
  assumes inv: "async_read_inv out cc buffers s0 m0 (Pending_read op bufs s m)"
    and rd: "read_some s (map buf_size bufs) = (s1, data, ec)"
    and conf: "conforming_reader out read_some" and prog: "progressing_reader read_some"
  shows "async_read_inv out cc buffers s0 m0
    (after_action (read_op_call cc op ec (length data) 0) s1 (put_bytes m (addrs bufs) data))"
proof -
  let ?c = "rw_buffers op"
  from inv obtain mx where ok: "con_ok ?c" and bufs: "bufs = con_prepare ?c mx"
    and rest: "con_rest ?c = drop (con_total_consumed ?c) (addrs (arg_bufs buffers))"
    and del: "delivered out (arg_bufs buffers) s0 m0 (con_total_consumed ?c) s m" by auto
  note rf = round_facts [OF ok rd [unfolded bufs] conf]
  from del obtain old where old: "out s = out s0 @ old" "length old = con_total_consumed ?c"
    "length old \<le> length (addrs (arg_bufs buffers))" "m = put_bytes m0 (addrs (arg_bufs buffers)) old"
    unfolding delivered_def buffer_size_eq by auto
  have "put_bytes m (addrs bufs) data = put_bytes m0 (addrs (arg_bufs buffers)) (old @ data)"
    unfolding bufs rf(4) rest old(2) [symmetric] old(4) using put_bytes_two [OF old(3)] by simp
  moreover have "length (old @ data) \<le> length (addrs (arg_bufs buffers))"
    using rf(7) old(2,3) by (simp add: rest)
  ultimately have "delivered out (arg_bufs buffers) s0 m0 (con_total_consumed (con_consume ?c (length data))) s1
      (put_bytes m (addrs bufs) data)"
    unfolding delivered_def buffer_size_eq using rf(3,5) old(1,2) by (intro exI [of _ "old @ data"]) simp
  moreover have "con_empty (con_consume ?c (length data)) \<longleftrightarrow>
      con_total_consumed ?c + length data \<ge> buffer_size (arg_bufs buffers)"
    using con.empty_law [OF rf(1)] rf(2) by (simp add: rest buffer_size_eq add.commute)
  moreover have "addrs (arg_bufs buffers) = [] \<or> check_for_completion cc Ok_code 0 = 0"
    if "\<not> failed ec" "data = []"
  proof -
    have "addrs bufs = []"
      using prog rd that unfolding progressing_reader_def by (metis length_greater_0_conv sum_sizes)
    then show ?thesis using inv by simp
  qed
  moreover have "addrs (con_prepare (con_consume ?c (length data)) n) \<noteq> []"
    if "\<not> con_empty (con_consume ?c (length data))" "n \<noteq> 0" for n
    using con.prepare_some [OF rf(1)] con.empty_law [OF rf(1)] that by simp
  ultimately show ?thesis
    using rf(1-3) unfolding read_op_resumed Let_def
    by (auto simp: rest add.commute delivered_def buffer_size_eq)
qed

lemma start_read_inv:
  assumes "arg_ok buffers"
  shows "async_read_inv out cc buffers s m (start_read cc buffers slot s m)"
  using con_new_facts [OF assms] con.prepare_some [OF con_new_facts(1) [OF assms]]
  by (auto simp: start_read_def start_read_op_def read_op_call_def read_op_new_def delivered_def)

lemma async_read_reach_inv:
  assumes conf: "conforming_reader out read_some" and prog: "progressing_reader read_some"
    and cancel: "\<And>t s. out (on_cancel t s) = out s"
    and ok: "arg_ok buffers"
    and reach: "async_read_reach read_some on_cancel cc (start_read cc buffers slot s0 m0) st"
  shows "async_read_inv out cc buffers s0 m0 st"
  using reach
proof (induction rule: async_read_reach.induct)
  case start
  show ?case by (rule start_read_inv [OF ok])
next
  case (next_step st st')
  from next_step.hyps(2) next_step.IH show ?case
  proof (cases rule: async_read_step.cases)
    case (deliver s bufs s1 data ec op m)
    then show ?thesis using deliver_inv [OF _ _ conf prog] next_step.IH by blast
  next
    case (cancel type op cs emitted bufs s m)
    then show ?thesis using next_step.IH assms(3)
      by (auto simp: delivered_def split: option.splits)
  qed
qed

section \<open>Without cancellation an asynchronous read is the synchronous one\<close>

text \<open>One round of both, after which either has finished or both go on.\<close>

definition round_stops :: "completion_condition \<Rightarrow> con \<Rightarrow> error_code \<Rightarrow> bool" where
  "round_stops cc c ec \<longleftrightarrow> con_empty c \<or> check_for_completion cc ec (con_total_consumed c) = 0"

lemma read_op_round:
  assumes "conforming_reader out read_some" "progressing_reader read_some"
    and ok: "con_ok c" and go: "\<not> round_stops cc c ec0" and none: "cs_cancelled (rw_cancel op) = ct_none" and c: "rw_buffers op = c"
    and rd: "read_some s (map buf_size (con_prepare c (check_for_completion cc ec0 (con_total_consumed c)))) = (s1, data, ec)"
  shows "con_ok (con_consume c (length data))"
    "read_op_call cc op ec (length data) 0 = (op\<lparr>rw_start := 0, rw_buffers := con_consume c (length data)\<rparr>,
      if round_stops cc (con_consume c (length data)) ec
      then Invoke ec (con_total_consumed (con_consume c (length data)))
      else Issue (con_prepare (con_consume c (length data))
        (check_for_completion cc ec (con_total_consumed (con_consume c (length data))))))"
proof -
  note rf = round_facts [OF ok rd assms(1)]
  show "con_ok (con_consume c (length data))" by (rule rf(1))
  have "addrs (con_prepare c (check_for_completion cc ec0 (con_total_consumed c))) \<noteq> []"
    using con.prepare_some [OF ok] con.empty_law [OF ok] go by (simp add: round_stops_def)
  then have "data \<noteq> [] \<or> failed ec"
    using assms(2) rd unfolding progressing_reader_def by (metis length_greater_0_conv sum_sizes)
  then show "read_op_call cc op ec (length data) 0 = (op\<lparr>rw_start := 0, rw_buffers := con_consume c (length data)\<rparr>,
      if round_stops cc (con_consume c (length data)) ec
      then Invoke ec (con_total_consumed (con_consume c (length data)))
      else Issue (con_prepare (con_consume c (length data))
        (check_for_completion cc ec (con_total_consumed (con_consume c (length data))))))"
    using none c by (auto simp: read_op_resumed round_stops_def Let_def)
qed

lemma read_loop_run:
  assumes conf: "conforming_reader out read_some" and prog: "progressing_reader read_some"
    and res: "read_loop read_some cc c ec s m = Some r" and ok: "con_ok c"
  shows "if round_stops cc c ec then r = (con_total_consumed c, ec, s, m)
    else \<forall>op. rw_buffers op = c \<longrightarrow> cs_cancelled (rw_cancel op) = ct_none \<longrightarrow>
      run_async_read read_some cc op (con_prepare c (check_for_completion cc ec (con_total_consumed c))) s m = Some r"
proof -
  let ?P = "\<lambda>read_some' cc' c (ec::error_code) s m r.
    read_some' = read_some \<longrightarrow> cc' = cc \<longrightarrow> con_ok c \<longrightarrow>
    (if round_stops cc c ec then r = (con_total_consumed c, ec, s, m)
     else \<forall>op. rw_buffers op = c \<longrightarrow> cs_cancelled (rw_cancel op) = ct_none \<longrightarrow>
      run_async_read read_some cc op (con_prepare c (check_for_completion cc ec (con_total_consumed c))) s m = Some r)"
  have "?P read_some cc c ec s m r"
  proof (rule read_loop.raw_induct [where P = ?P, OF _ res], intro impI)
    fix loop read_some' cc' c ec s m r
    assume IH: "\<And>a b c (ec::error_code) s m r. loop a b c ec s m = Some r \<Longrightarrow> ?P a b c ec s m r"
      and body: "(if \<not> con_empty c then
        (let max_size = adapt_completion_condition_result (cc' ec (con_total_consumed c))
         in if max_size \<noteq> 0 then
              (case read_some' s (map buf_size (con_prepare c max_size)) of (s1, data, ec1) \<Rightarrow>
                loop read_some' cc' (con_consume c (length data)) ec1 s1
                  (put_bytes m (addrs (con_prepare c max_size)) data))
            else Some (con_total_consumed c, ec, s, m))
      else Some (con_total_consumed c, ec, s, m)) = Some r"
      and eqs: "read_some' = read_some" "cc' = cc" and ok: "con_ok c"
    let ?bufs = "con_prepare c (check_for_completion cc ec (con_total_consumed c))"
    show "if round_stops cc c ec then r = (con_total_consumed c, ec, s, m)
     else \<forall>op. rw_buffers op = c \<longrightarrow> cs_cancelled (rw_cancel op) = ct_none \<longrightarrow> run_async_read read_some cc op ?bufs s m = Some r"
    proof (cases "round_stops cc c ec")
      case True
      then show ?thesis using body eqs
        by (cases "con_empty c") (simp_all add: round_stops_def check_for_completion_def Let_def)
    next
      case False
      obtain s1 data ec1 where rd: "read_some s (map buf_size ?bufs) = (s1, data, ec1)" by (metis prod_cases3)
      have "loop read_some cc (con_consume c (length data)) ec1 s1 (put_bytes m (addrs ?bufs) data) = Some r"
        using body eqs False rd by (simp add: round_stops_def check_for_completion_def Let_def)
      note ih = IH [OF this]
      have "run_async_read read_some cc op ?bufs s m = Some r"
        if op: "rw_buffers op = c" "cs_cancelled (rw_cancel op) = ct_none" for op
      proof -
        note R = read_op_round [OF conf prog ok False op(2,1) rd]
        show ?thesis using ih R(1) op(2)
          by (subst run_async_read.simps) (auto simp: rd R(2) split: if_splits)
      qed
      then show ?thesis using False by simp
    qed
  qed
  with ok show ?thesis by simp
qed

lemma run_read_loop:
  assumes conf: "conforming_reader out read_some" and prog: "progressing_reader read_some"
    and res: "run_async_read read_some cc op bufs s m = Some r"
  shows "con_ok (rw_buffers op) \<Longrightarrow> cs_cancelled (rw_cancel op) = ct_none \<Longrightarrow> \<not> round_stops cc (rw_buffers op) ec \<Longrightarrow>
    bufs = con_prepare (rw_buffers op) (check_for_completion cc ec (con_total_consumed (rw_buffers op))) \<Longrightarrow>
    read_loop read_some cc (rw_buffers op) ec s m = Some r"
proof -
  let ?P = "\<lambda>read_some' cc' op bufs s m r. \<forall>ec. read_some' = read_some \<longrightarrow> cc' = cc \<longrightarrow>
    con_ok (rw_buffers op) \<longrightarrow> cs_cancelled (rw_cancel op) = ct_none \<longrightarrow> \<not> round_stops cc (rw_buffers op) ec \<longrightarrow>
    bufs = con_prepare (rw_buffers op) (check_for_completion cc ec (con_total_consumed (rw_buffers op))) \<longrightarrow>
    read_loop read_some cc (rw_buffers op) ec s m = Some r"
  have "?P read_some cc op bufs s m r"
  proof (rule run_async_read.raw_induct [where P = ?P, OF _ res], intro allI impI)
    fix run read_some' cc' op bufs s m r ec
    assume IH: "\<And>a b op bufs s m r. run a b op bufs s m = Some r \<Longrightarrow> ?P a b op bufs s m r"
      and body: "(case read_some' s (map buf_size bufs) of (s1, data, ec) \<Rightarrow>
        (case read_op_call cc' op ec (length data) 0 of (op1, act) \<Rightarrow>
          (case act of
             Issue bufs1 \<Rightarrow> run read_some' cc' op1 bufs1 s1 (put_bytes m (addrs bufs) data)
           | Invoke ec1 n \<Rightarrow> Some (n, ec1, s1, put_bytes m (addrs bufs) data)))) = Some r"
      and eqs: "read_some' = read_some" "cc' = cc" and ok: "con_ok (rw_buffers op)"
      and none: "cs_cancelled (rw_cancel op) = ct_none" and go: "\<not> round_stops cc (rw_buffers op) ec"
      and bufs: "bufs = con_prepare (rw_buffers op) (check_for_completion cc ec (con_total_consumed (rw_buffers op)))"
    obtain s1 data ec1 where rd: "read_some s (map buf_size bufs) = (s1, data, ec1)" by (metis prod_cases3)
    note R = read_op_round [OF conf prog ok go none refl rd [unfolded bufs]]
    let ?c = "con_consume (rw_buffers op) (length data)" and ?m = "put_bytes m (addrs bufs) data"
    have step: "read_loop read_some cc (rw_buffers op) ec s m = read_loop read_some cc ?c ec1 s1 ?m"
      using go rd bufs by (subst read_loop.simps) (simp add: round_stops_def check_for_completion_def Let_def)
    show "read_loop read_some cc (rw_buffers op) ec s m = Some r"
    proof (cases "round_stops cc ?c ec1")
      case True
      then have "read_loop read_some cc ?c ec1 s1 ?m = Some (con_total_consumed ?c, ec1, s1, ?m)"
        by (subst read_loop.simps) (auto simp: round_stops_def check_for_completion_def Let_def)
      then show ?thesis using body True eqs rd R(2) step by simp
    next
      case False
      let ?op = "op\<lparr>rw_start := 0, rw_buffers := ?c\<rparr>"
      have "run read_some cc ?op (con_prepare ?c (check_for_completion cc ec1 (con_total_consumed ?c))) s1 ?m = Some r"
        using body False eqs rd R(2) by simp
      from IH [OF this] show ?thesis using R(1) none False step by simp
    qed
  qed
  then show "con_ok (rw_buffers op) \<Longrightarrow> cs_cancelled (rw_cancel op) = ct_none \<Longrightarrow> \<not> round_stops cc (rw_buffers op) ec \<Longrightarrow>
    bufs = con_prepare (rw_buffers op) (check_for_completion cc ec (con_total_consumed (rw_buffers op))) \<Longrightarrow>
    read_loop read_some cc (rw_buffers op) ec s m = Some r" by simp
qed

lemma run_async_read_eq:
  assumes "conforming_reader out read_some" "progressing_reader read_some"
    and "con_ok (rw_buffers op)" "cs_cancelled (rw_cancel op) = ct_none" "\<not> round_stops cc (rw_buffers op) ec"
    and "bufs = con_prepare (rw_buffers op) (check_for_completion cc ec (con_total_consumed (rw_buffers op)))"
  shows "run_async_read read_some cc op bufs s m = read_loop read_some cc (rw_buffers op) ec s m"
proof (rule option_eqI)
  fix r
  show "read_loop read_some cc (rw_buffers op) ec s m = Some r" if "run_async_read read_some cc op bufs s m = Some r"
    by (rule run_read_loop [OF assms(1,2) that assms(3-6)])
  show "run_async_read read_some cc op bufs s m = Some r" if "read_loop read_some cc (rw_buffers op) ec s m = Some r"
    using read_loop_run [OF assms(1,2) that assms(3)] assms(4-6) by simp
qed

lemma write_op_is_read_op: "write_op_call = read_op_call" "write_op_new = read_op_new"
  "start_write_op = start_read_op"
proof -
  show eqs: "write_op_call = read_op_call" "write_op_new = read_op_new"
    by (intro ext; simp add: write_op_call_def read_op_call_def write_op_new_def read_op_new_def)+
  then show "start_write_op = start_read_op" by (intro ext) (simp add: start_write_op_def start_read_op_def)
qed

end
