(* ===== verification/DynamicBuffer.thy ===== *)
theory DynamicBuffer
  imports Buffers
begin

text \<open>
  The dynamic buffers of \<open>include/asio/buffer.hpp\<close> (\<open>dynamic_string_buffer\<close>,
  \<open>dynamic_vector_buffer\<close>) and \<open>basic_streambuf\<close>. Each owns the bytes it manages: a region is an
  offset into its storage and a length, and \<open>_store\<close> is what an operation that was given a region
  does to it. The locale \<open>dynamic_buffer\<close> is the DynamicBuffer\_v1 contract over the abstraction
  \<open>contents\<close>, the readable bytes.
\<close>

section \<open>Standard containers\<close>

text \<open>
  A \<open>std::string\<close> or \<open>std::vector\<close> of bytes: contents, capacity, its own \<open>max_size()\<close> and the
  implementation's growth policy (old capacity and needed size to new capacity).
\<close>

record container =
  ct_data :: "byte list"
  ct_capacity :: nat
  ct_max_size :: nat
  ct_policy :: "nat \<Rightarrow> nat \<Rightarrow> nat"

definition ct_resize :: "container \<Rightarrow> nat \<Rightarrow> exn + container" where
  "ct_resize c n =
     (if n > ct_max_size c then Inl Length_error
      else Inr (c\<lparr>ct_data := (if n \<le> length (ct_data c) then take n (ct_data c)
                              else ct_data c @ replicate (n - length (ct_data c)) 0),
                  ct_capacity := (if n \<le> ct_capacity c then ct_capacity c
                                  else ct_policy c (ct_capacity c) n)\<rparr>))"

definition ct_shrink :: "container \<Rightarrow> nat \<Rightarrow> container" where
  "ct_shrink c n = (case ct_resize c n of Inr c' \<Rightarrow> c' | Inl e \<Rightarrow> c)"

definition ct_erase_front :: "container \<Rightarrow> nat \<Rightarrow> container" where
  "ct_erase_front c n = c\<lparr>ct_data := drop n (ct_data c)\<rparr>"

text \<open>Storing bytes at an offset.\<close>

definition store_at :: "byte list \<Rightarrow> nat \<Rightarrow> byte list \<Rightarrow> byte list" where
  "store_at xs off d = take off xs @ d @ drop (off + length d) xs"

definition ct_store :: "container \<Rightarrow> nat \<Rightarrow> byte list \<Rightarrow> container" where
  "ct_store c off d = c\<lparr>ct_data := store_at (ct_data c) off d\<rparr>"

type_synonym region = "nat \<times> nat"

text \<open>\<open>asio::buffer\<close> of a container, with a limit; \<open>operator+\<close>; a limit again.\<close>

definition rg_plus :: "region \<Rightarrow> nat \<Rightarrow> region" where
  "rg_plus r n = (let offset = (if n < snd r then n else snd r) in (fst r + offset, snd r - offset))"

definition rg_limit :: "region \<Rightarrow> nat \<Rightarrow> region" where
  "rg_limit r max_size = (fst r, if snd r < max_size then snd r else max_size)"

definition ct_buffer :: "container \<Rightarrow> region" where
  "ct_buffer c = (0, length (ct_data c))"

definition rg_bytes :: "byte list \<Rightarrow> region \<Rightarrow> byte list" where
  "rg_bytes xs r = take (snd r) (drop (fst r) xs)"

text \<open>Subtraction of \<open>std::size_t\<close>.\<close>

definition size_sub :: "nat \<Rightarrow> nat \<Rightarrow> nat" where
  "size_sub a b = (if b \<le> a then a - b else a + 2 ^ 64 - b)"

section \<open>dynamic\_string\_buffer\<close>

text \<open>
  The \<open>size_\<close> member is \<open>size_max\<close> until \<open>prepare\<close> enables the version-one behaviour.
\<close>

record dynamic_string_buffer =
  dsb_string :: container
  dsb_size_mem :: nat
  dsb_max_size :: nat

definition dsb_new :: "container \<Rightarrow> nat \<Rightarrow> dynamic_string_buffer" where
  "dsb_new s maximum_size = \<lparr>dsb_string = s, dsb_size_mem = size_max, dsb_max_size = maximum_size\<rparr>"

definition dsb_size :: "dynamic_string_buffer \<Rightarrow> nat" where
  "dsb_size b = (if dsb_size_mem b \<noteq> size_max then dsb_size_mem b
                 else min (length (ct_data (dsb_string b))) (dsb_max_size b))"

definition dsb_capacity :: "dynamic_string_buffer \<Rightarrow> nat" where
  "dsb_capacity b = min (ct_capacity (dsb_string b)) (dsb_max_size b)"

definition dsb_data :: "dynamic_string_buffer \<Rightarrow> region" where
  "dsb_data b = rg_limit (ct_buffer (dsb_string b)) (dsb_size_mem b)"

definition dsb_data_at :: "dynamic_string_buffer \<Rightarrow> nat \<Rightarrow> nat \<Rightarrow> region" where
  "dsb_data_at b pos n = rg_limit (rg_plus (rg_limit (ct_buffer (dsb_string b)) (dsb_max_size b)) pos) n"

definition dsb_prepare :: "dynamic_string_buffer \<Rightarrow> nat \<Rightarrow> dynamic_string_buffer \<times> (exn + region)" where
  "dsb_prepare b n =
     (if dsb_size b > dsb_max_size b \<or> dsb_max_size b - dsb_size b < n then (b, Inl Length_error)
      else
        (let b = (if dsb_size_mem b = size_max
                  then b\<lparr>dsb_size_mem := length (ct_data (dsb_string b))\<rparr> else b)
         in (case ct_resize (dsb_string b) (dsb_size_mem b + n) of
               Inl e \<Rightarrow> (b, Inl e)
             | Inr s \<Rightarrow> (b\<lparr>dsb_string := s\<rparr>, Inr (rg_limit (rg_plus (ct_buffer s) (dsb_size_mem b)) n)))))"

definition dsb_store :: "dynamic_string_buffer \<Rightarrow> nat \<Rightarrow> byte list \<Rightarrow> dynamic_string_buffer" where
  "dsb_store b off d = b\<lparr>dsb_string := ct_store (dsb_string b) off d\<rparr>"

definition dsb_commit :: "dynamic_string_buffer \<Rightarrow> nat \<Rightarrow> dynamic_string_buffer" where
  "dsb_commit b n =
     (let sz = dsb_size_mem b + min n (length (ct_data (dsb_string b)) - dsb_size_mem b)
      in b\<lparr>dsb_size_mem := sz, dsb_string := ct_shrink (dsb_string b) sz\<rparr>)"

definition dsb_grow :: "dynamic_string_buffer \<Rightarrow> nat \<Rightarrow> exn + dynamic_string_buffer" where
  "dsb_grow b n =
     (if dsb_size b > dsb_max_size b \<or> dsb_max_size b - dsb_size b < n then Inl Length_error
      else (case ct_resize (dsb_string b) (dsb_size b + n) of
              Inl e \<Rightarrow> Inl e
            | Inr s \<Rightarrow> Inr (b\<lparr>dsb_string := s\<rparr>)))"

definition dsb_shrink :: "dynamic_string_buffer \<Rightarrow> nat \<Rightarrow> dynamic_string_buffer" where
  "dsb_shrink b n = b\<lparr>dsb_string := ct_shrink (dsb_string b) (if n > dsb_size b then 0 else dsb_size b - n)\<rparr>"

definition dsb_consume :: "dynamic_string_buffer \<Rightarrow> nat \<Rightarrow> dynamic_string_buffer" where
  "dsb_consume b n =
     (if dsb_size_mem b \<noteq> size_max then
        (let consume_length = min n (dsb_size_mem b)
         in b\<lparr>dsb_string := ct_erase_front (dsb_string b) consume_length,
              dsb_size_mem := dsb_size_mem b - consume_length\<rparr>)
      else b\<lparr>dsb_string := ct_erase_front (dsb_string b) n\<rparr>)"

section \<open>dynamic\_vector\_buffer\<close>

record dynamic_vector_buffer =
  dvb_vector :: container
  dvb_size_mem :: nat
  dvb_max_size :: nat

definition dvb_new :: "container \<Rightarrow> nat \<Rightarrow> dynamic_vector_buffer" where
  "dvb_new v maximum_size = \<lparr>dvb_vector = v, dvb_size_mem = size_max, dvb_max_size = maximum_size\<rparr>"

definition dvb_size :: "dynamic_vector_buffer \<Rightarrow> nat" where
  "dvb_size b = (if dvb_size_mem b \<noteq> size_max then dvb_size_mem b
                 else min (length (ct_data (dvb_vector b))) (dvb_max_size b))"

definition dvb_capacity :: "dynamic_vector_buffer \<Rightarrow> nat" where
  "dvb_capacity b = min (ct_capacity (dvb_vector b)) (dvb_max_size b)"

definition dvb_data :: "dynamic_vector_buffer \<Rightarrow> region" where
  "dvb_data b = rg_limit (ct_buffer (dvb_vector b)) (dvb_size_mem b)"

definition dvb_data_at :: "dynamic_vector_buffer \<Rightarrow> nat \<Rightarrow> nat \<Rightarrow> region" where
  "dvb_data_at b pos n = rg_limit (rg_plus (rg_limit (ct_buffer (dvb_vector b)) (dvb_max_size b)) pos) n"

definition dvb_prepare :: "dynamic_vector_buffer \<Rightarrow> nat \<Rightarrow> dynamic_vector_buffer \<times> (exn + region)" where
  "dvb_prepare b n =
     (if dvb_size b > dvb_max_size b \<or> dvb_max_size b - dvb_size b < n then (b, Inl Length_error)
      else
        (let b = (if dvb_size_mem b = size_max
                  then b\<lparr>dvb_size_mem := length (ct_data (dvb_vector b))\<rparr> else b)
         in (case ct_resize (dvb_vector b) (dvb_size_mem b + n) of
               Inl e \<Rightarrow> (b, Inl e)
             | Inr v \<Rightarrow> (b\<lparr>dvb_vector := v\<rparr>, Inr (rg_limit (rg_plus (ct_buffer v) (dvb_size_mem b)) n)))))"

definition dvb_store :: "dynamic_vector_buffer \<Rightarrow> nat \<Rightarrow> byte list \<Rightarrow> dynamic_vector_buffer" where
  "dvb_store b off d = b\<lparr>dvb_vector := ct_store (dvb_vector b) off d\<rparr>"

definition dvb_commit :: "dynamic_vector_buffer \<Rightarrow> nat \<Rightarrow> dynamic_vector_buffer" where
  "dvb_commit b n =
     (let sz = dvb_size_mem b + min n (length (ct_data (dvb_vector b)) - dvb_size_mem b)
      in b\<lparr>dvb_size_mem := sz, dvb_vector := ct_shrink (dvb_vector b) sz\<rparr>)"

definition dvb_grow :: "dynamic_vector_buffer \<Rightarrow> nat \<Rightarrow> exn + dynamic_vector_buffer" where
  "dvb_grow b n =
     (if dvb_size b > dvb_max_size b \<or> dvb_max_size b - dvb_size b < n then Inl Length_error
      else (case ct_resize (dvb_vector b) (dvb_size b + n) of
              Inl e \<Rightarrow> Inl e
            | Inr v \<Rightarrow> Inr (b\<lparr>dvb_vector := v\<rparr>)))"

definition dvb_shrink :: "dynamic_vector_buffer \<Rightarrow> nat \<Rightarrow> dynamic_vector_buffer" where
  "dvb_shrink b n = b\<lparr>dvb_vector := ct_shrink (dvb_vector b) (if n > dvb_size b then 0 else dvb_size b - n)\<rparr>"

definition dvb_consume :: "dynamic_vector_buffer \<Rightarrow> nat \<Rightarrow> dynamic_vector_buffer" where
  "dvb_consume b n =
     (if dvb_size_mem b \<noteq> size_max then
        (let consume_length = min n (dvb_size_mem b)
         in b\<lparr>dvb_vector := ct_erase_front (dvb_vector b) consume_length,
              dvb_size_mem := dvb_size_mem b - consume_length\<rparr>)
      else b\<lparr>dvb_vector := ct_erase_front (dvb_vector b) (min (dvb_size b) n)\<rparr>)"

section \<open>basic\_streambuf\<close>

text \<open>
  The get and put areas of \<open>std::streambuf\<close> are offsets from \<open>&buffer_[0]\<close>; \<open>eback\<close> is always zero
  and \<open>pbase\<close> is never read, so neither is kept. \<open>pbump\<close> and \<open>gbump\<close> take an \<open>int\<close>, to which the
  code converts a size: \<open>int_of_size\<close> keeps the low 32 bits, as a signed number.
\<close>

record basic_streambuf =
  sb_max_size :: nat
  sb_buffer :: container
  sb_gptr :: nat
  sb_egptr :: nat
  sb_pptr :: nat
  sb_epptr :: nat

definition int_of_size :: "nat \<Rightarrow> int" where
  "int_of_size n = sint (word_of_nat n :: 32 word)"

definition bump :: "nat \<Rightarrow> int \<Rightarrow> nat" where
  "bump p i = nat (int p + i)"

definition buffer_delta :: nat where
  "buffer_delta = 128"

definition sb_new :: "container \<Rightarrow> nat \<Rightarrow> exn + basic_streambuf" where
  "sb_new empty_buffer maximum_size =
     (let pend = min maximum_size buffer_delta
      in (case ct_resize empty_buffer (max pend 1) of
            Inl e \<Rightarrow> Inl e
          | Inr buffer \<Rightarrow> Inr \<lparr>sb_max_size = maximum_size, sb_buffer = buffer, sb_gptr = 0, sb_egptr = 0,
              sb_pptr = 0, sb_epptr = pend\<rparr>))"

definition sb_size :: "basic_streambuf \<Rightarrow> nat" where
  "sb_size b = size_sub (sb_pptr b) (sb_gptr b)"

definition sb_capacity :: "basic_streambuf \<Rightarrow> nat" where
  "sb_capacity b = ct_capacity (sb_buffer b)"

definition sb_data :: "basic_streambuf \<Rightarrow> region" where
  "sb_data b = (sb_gptr b, size_sub (sb_pptr b) (sb_gptr b))"

text \<open>\<open>reserve\<close>: the buffer is left as the \<open>memmove\<close> made it when it throws.\<close>

definition sb_reserve :: "basic_streambuf \<Rightarrow> nat \<Rightarrow> basic_streambuf \<times> (exn + unit)" where
  "sb_reserve b n =
     (let gnext = sb_gptr b; pnext = sb_pptr b; pend = sb_epptr b in
      if n \<le> size_sub pend pnext then (b, Inr ())
      else
        (let (b, pnext) =
               (if gnext > 0
                then (b\<lparr>sb_buffer := ct_store (sb_buffer b) 0
                         (take (size_sub pnext gnext) (drop gnext (ct_data (sb_buffer b))))\<rparr>,
                      size_sub pnext gnext)
                else (b, pnext))
         in if n > size_sub pend pnext then
              (if n \<le> sb_max_size b \<and> pnext \<le> sb_max_size b - n then
                 (let pend = pnext + n
                  in (case ct_resize (sb_buffer b) (max pend 1) of
                        Inl e \<Rightarrow> (b, Inl e)
                      | Inr buffer \<Rightarrow> (b\<lparr>sb_buffer := buffer, sb_gptr := 0, sb_egptr := pnext,
                          sb_pptr := pnext, sb_epptr := pend\<rparr>, Inr ())))
               else (b, Inl Length_error))
            else (b\<lparr>sb_gptr := 0, sb_egptr := pnext, sb_pptr := pnext, sb_epptr := pend\<rparr>, Inr ())))"

definition sb_prepare :: "basic_streambuf \<Rightarrow> nat \<Rightarrow> basic_streambuf \<times> (exn + region)" where
  "sb_prepare b n =
     (case sb_reserve b n of
        (b1, Inl e) \<Rightarrow> (b1, Inl e)
      | (b1, Inr u) \<Rightarrow> (b1, Inr (sb_pptr b1, n)))"

definition sb_store :: "basic_streambuf \<Rightarrow> nat \<Rightarrow> byte list \<Rightarrow> basic_streambuf" where
  "sb_store b off d = b\<lparr>sb_buffer := ct_store (sb_buffer b) off d\<rparr>"

definition sb_commit :: "basic_streambuf \<Rightarrow> nat \<Rightarrow> basic_streambuf" where
  "sb_commit b n =
     (let n = min n (size_sub (sb_epptr b) (sb_pptr b));
          pptr = bump (sb_pptr b) (int_of_size n)
      in b\<lparr>sb_pptr := pptr, sb_egptr := pptr\<rparr>)"

definition sb_consume :: "basic_streambuf \<Rightarrow> nat \<Rightarrow> basic_streambuf" where
  "sb_consume b n =
     (let b = (if sb_egptr b < sb_pptr b then b\<lparr>sb_egptr := sb_pptr b\<rparr> else b);
          n = (if sb_gptr b + n > sb_pptr b then size_sub (sb_pptr b) (sb_gptr b) else n)
      in b\<lparr>sb_gptr := bump (sb_gptr b) (int_of_size n)\<rparr>)"

text \<open>The virtual functions of \<open>std::streambuf\<close>: \<open>None\<close> is \<open>traits_type::eof()\<close>.\<close>

definition sb_underflow :: "basic_streambuf \<Rightarrow> basic_streambuf \<times> byte option" where
  "sb_underflow b =
     (if sb_gptr b < sb_pptr b
      then (b\<lparr>sb_egptr := sb_pptr b\<rparr>, Some (ct_data (sb_buffer b) ! sb_gptr b))
      else (b, None))"

definition sb_overflow :: "basic_streambuf \<Rightarrow> byte option \<Rightarrow> basic_streambuf \<times> (exn + byte option)" where
  "sb_overflow b c =
     (case c of
        None \<Rightarrow> (b, Inr (Some 0))
      | Some ch \<Rightarrow>
          (let (b1, res) =
                 (if sb_pptr b = sb_epptr b then
                    (let buffer_size = size_sub (sb_pptr b) (sb_gptr b)
                     in if buffer_size < sb_max_size b \<and> sb_max_size b - buffer_size < buffer_delta
                        then sb_reserve b (sb_max_size b - buffer_size)
                        else sb_reserve b buffer_delta)
                  else (b, Inr ()))
           in (case res of
                 Inl e \<Rightarrow> (b1, Inl e)
               | Inr u \<Rightarrow> (b1\<lparr>sb_buffer := ct_store (sb_buffer b1) (sb_pptr b1) [ch],
                              sb_pptr := bump (sb_pptr b1) 1\<rparr>, Inr (Some ch)))))"

section \<open>The buffers a read operation takes\<close>

text \<open>
  The DynamicBuffer\_v1 types (\<open>basic_streambuf_ref\<close> forwards to the streambuf it refers to), and
  the DynamicBuffer\_v2 types.
\<close>

datatype dynbuf =
    Dyn_string dynamic_string_buffer
  | Dyn_vector dynamic_vector_buffer
  | Dyn_streambuf basic_streambuf

fun db_size :: "dynbuf \<Rightarrow> nat" where
  "db_size (Dyn_string b) = dsb_size b"
| "db_size (Dyn_vector b) = dvb_size b"
| "db_size (Dyn_streambuf b) = sb_size b"

fun db_max_size :: "dynbuf \<Rightarrow> nat" where
  "db_max_size (Dyn_string b) = dsb_max_size b"
| "db_max_size (Dyn_vector b) = dvb_max_size b"
| "db_max_size (Dyn_streambuf b) = sb_max_size b"

fun db_capacity :: "dynbuf \<Rightarrow> nat" where
  "db_capacity (Dyn_string b) = dsb_capacity b"
| "db_capacity (Dyn_vector b) = dvb_capacity b"
| "db_capacity (Dyn_streambuf b) = sb_capacity b"

fun db_data :: "dynbuf \<Rightarrow> region" where
  "db_data (Dyn_string b) = dsb_data b"
| "db_data (Dyn_vector b) = dvb_data b"
| "db_data (Dyn_streambuf b) = sb_data b"

fun db_storage :: "dynbuf \<Rightarrow> byte list" where
  "db_storage (Dyn_string b) = ct_data (dsb_string b)"
| "db_storage (Dyn_vector b) = ct_data (dvb_vector b)"
| "db_storage (Dyn_streambuf b) = ct_data (sb_buffer b)"

fun db_prepare :: "dynbuf \<Rightarrow> nat \<Rightarrow> dynbuf \<times> (exn + region)" where
  "db_prepare (Dyn_string b) n = map_prod Dyn_string id (dsb_prepare b n)"
| "db_prepare (Dyn_vector b) n = map_prod Dyn_vector id (dvb_prepare b n)"
| "db_prepare (Dyn_streambuf b) n = map_prod Dyn_streambuf id (sb_prepare b n)"

fun db_store :: "dynbuf \<Rightarrow> nat \<Rightarrow> byte list \<Rightarrow> dynbuf" where
  "db_store (Dyn_string b) off d = Dyn_string (dsb_store b off d)"
| "db_store (Dyn_vector b) off d = Dyn_vector (dvb_store b off d)"
| "db_store (Dyn_streambuf b) off d = Dyn_streambuf (sb_store b off d)"

fun db_commit :: "dynbuf \<Rightarrow> nat \<Rightarrow> dynbuf" where
  "db_commit (Dyn_string b) n = Dyn_string (dsb_commit b n)"
| "db_commit (Dyn_vector b) n = Dyn_vector (dvb_commit b n)"
| "db_commit (Dyn_streambuf b) n = Dyn_streambuf (sb_commit b n)"

fun db_consume :: "dynbuf \<Rightarrow> nat \<Rightarrow> dynbuf" where
  "db_consume (Dyn_string b) n = Dyn_string (dsb_consume b n)"
| "db_consume (Dyn_vector b) n = Dyn_vector (dvb_consume b n)"
| "db_consume (Dyn_streambuf b) n = Dyn_streambuf (sb_consume b n)"

datatype dynbuf2 = Dyn2_string dynamic_string_buffer | Dyn2_vector dynamic_vector_buffer

fun db2_size :: "dynbuf2 \<Rightarrow> nat" where
  "db2_size (Dyn2_string b) = dsb_size b"
| "db2_size (Dyn2_vector b) = dvb_size b"

fun db2_max_size :: "dynbuf2 \<Rightarrow> nat" where
  "db2_max_size (Dyn2_string b) = dsb_max_size b"
| "db2_max_size (Dyn2_vector b) = dvb_max_size b"

fun db2_capacity :: "dynbuf2 \<Rightarrow> nat" where
  "db2_capacity (Dyn2_string b) = dsb_capacity b"
| "db2_capacity (Dyn2_vector b) = dvb_capacity b"

fun db2_storage :: "dynbuf2 \<Rightarrow> byte list" where
  "db2_storage (Dyn2_string b) = ct_data (dsb_string b)"
| "db2_storage (Dyn2_vector b) = ct_data (dvb_vector b)"

fun db2_data_at :: "dynbuf2 \<Rightarrow> nat \<Rightarrow> nat \<Rightarrow> region" where
  "db2_data_at (Dyn2_string b) pos n = dsb_data_at b pos n"
| "db2_data_at (Dyn2_vector b) pos n = dvb_data_at b pos n"

fun db2_grow :: "dynbuf2 \<Rightarrow> nat \<Rightarrow> exn + dynbuf2" where
  "db2_grow (Dyn2_string b) n = map_sum id Dyn2_string (dsb_grow b n)"
| "db2_grow (Dyn2_vector b) n = map_sum id Dyn2_vector (dvb_grow b n)"

fun db2_store :: "dynbuf2 \<Rightarrow> nat \<Rightarrow> byte list \<Rightarrow> dynbuf2" where
  "db2_store (Dyn2_string b) off d = Dyn2_string (dsb_store b off d)"
| "db2_store (Dyn2_vector b) off d = Dyn2_vector (dvb_store b off d)"

fun db2_shrink :: "dynbuf2 \<Rightarrow> nat \<Rightarrow> dynbuf2" where
  "db2_shrink (Dyn2_string b) n = Dyn2_string (dsb_shrink b n)"
| "db2_shrink (Dyn2_vector b) n = Dyn2_vector (dvb_shrink b n)"

fun db2_consume :: "dynbuf2 \<Rightarrow> nat \<Rightarrow> dynbuf2" where
  "db2_consume (Dyn2_string b) n = Dyn2_string (dsb_consume b n)"
| "db2_consume (Dyn2_vector b) n = Dyn2_vector (dvb_consume b n)"

end
