(* ===== verification/DynamicBufferLaws.thy ===== *)
theory DynamicBufferLaws
  imports DynamicBuffer
begin

text \<open>
  The contracts of the dynamic buffers, as the locales \<open>dynamic_buffer\<close> (version one) and
  \<open>dynamic_buffer_v2\<close>, and the proof that the three buffer types of the library meet them.
\<close>

section \<open>Containers\<close>

definition ct_ok :: "container \<Rightarrow> bool" where
  "ct_ok c \<longleftrightarrow> length (ct_data c) \<le> ct_capacity c \<and> length (ct_data c) \<le> ct_max_size c \<and>
     0 < ct_max_size c \<and> ct_max_size c < size_max \<and> (\<forall>a n. n \<le> ct_policy c a n)"

lemma length_store_at: "off + length d \<le> length xs \<Longrightarrow> length (store_at xs off d) = length xs"
  by (simp add: store_at_def)

lemma take_store_at: "off + length d \<le> length xs \<Longrightarrow> take (off + length d) (store_at xs off d) = take off xs @ d"
  by (simp add: store_at_def)

lemma ct_resize_ok:
  assumes "ct_ok c" "n \<le> ct_max_size c"
  shows "\<exists>c'. ct_resize c n = Inr c' \<and> ct_ok c' \<and> length (ct_data c') = n \<and>
    take (length (ct_data c)) (ct_data c') = take n (ct_data c) \<and> ct_max_size c' = ct_max_size c"
  using assms le_trans by (auto simp: ct_resize_def ct_ok_def)

lemma ct_shrink_ok:
  assumes "ct_ok c" "n \<le> length (ct_data c)"
  shows "ct_ok (ct_shrink c n)" "ct_data (ct_shrink c n) = take n (ct_data c)"
    "ct_max_size (ct_shrink c n) = ct_max_size c"
  using assms by (auto simp: ct_shrink_def ct_resize_def ct_ok_def)

lemma ct_store_ok:
  assumes "ct_ok c" "off + length d \<le> length (ct_data c)"
  shows "ct_ok (ct_store c off d)" "ct_data (ct_store c off d) = store_at (ct_data c) off d"
    "ct_max_size (ct_store c off d) = ct_max_size c"
  using assms by (auto simp: ct_store_def ct_ok_def length_store_at)

lemma ct_erase_ok:
  assumes "ct_ok c"
  shows "ct_ok (ct_erase_front c n)" "ct_data (ct_erase_front c n) = drop n (ct_data c)"
    "ct_max_size (ct_erase_front c n) = ct_max_size c"
  using assms by (auto simp: ct_erase_front_def ct_ok_def)

lemma length_less_size_max: "ct_ok c \<Longrightarrow> length (ct_data c) < size_max"
  by (auto simp: ct_ok_def)

text \<open>Resize, store in the new part, shrink to what was stored.\<close>

lemma ct_fill:
  assumes c: "ct_ok c" and k: "k \<le> length (ct_data c)" and n: "k + n \<le> ct_max_size c" and d: "length d \<le> n"
  obtains c1 where "ct_resize c (k + n) = Inr c1" "rg_limit (rg_plus (ct_buffer c1) k) n = (k, n)"
    "length (ct_data (ct_store c1 k d)) = k + n"
    "ct_ok (ct_shrink (ct_store c1 k d) (k + length d))"
    "ct_data (ct_shrink (ct_store c1 k d) (k + length d)) = take k (ct_data c) @ d"
    "ct_max_size (ct_shrink (ct_store c1 k d) (k + length d)) = ct_max_size c"
proof -
  obtain c1 where c1: "ct_resize c (k + n) = Inr c1" "ct_ok c1" "length (ct_data c1) = k + n"
    "take (length (ct_data c)) (ct_data c1) = take (k + n) (ct_data c)" "ct_max_size c1 = ct_max_size c"
    using ct_resize_ok [OF c n] by blast
  have off: "k + length d \<le> length (ct_data c1)" using c1(3) d by simp
  have "take k (ct_data c1) = take k (take (length (ct_data c)) (ct_data c1))" using k by (simp add: min_def)
  also have "\<dots> = take k (ct_data c)" unfolding c1(4) by (simp add: min_def)
  finally have front: "take k (ct_data c1) = take k (ct_data c)" .
  note st = ct_store_ok [OF c1(2) off]
  have len: "length (ct_data (ct_store c1 k d)) = k + n"
    using st(2) length_store_at [OF off] c1(3) by simp
  have le: "k + length d \<le> length (ct_data (ct_store c1 k d))" using len d by simp
  note sh = ct_shrink_ok [OF st(1) le]
  have "ct_data (ct_shrink (ct_store c1 k d) (k + length d)) = take k (ct_data c) @ d"
    using sh(2) st(2) take_store_at [OF off] front by simp
  moreover have "rg_limit (rg_plus (ct_buffer c1) k) n = (k, n)"
    using c1(3) by (simp add: rg_limit_def rg_plus_def ct_buffer_def Let_def)
  ultimately show ?thesis using that c1(1,5) len sh(1,3) st(3) by simp
qed

section \<open>The contracts\<close>

text \<open>
  Version one: \<open>prepare\<close> gives a region of the size asked for, as long as the readable bytes and it
  fit \<open>limit\<close>; storing into it and committing what was stored appends that to the readable bytes.
  Otherwise it throws. The chunk committed or consumed is one that \<open>fits\<close>: any for a string and a
  vector, below \<open>2 ^ 31\<close> for a streambuf, which converts it to an \<open>int\<close>.
\<close>

locale dynamic_buffer =
  fixes ok :: "'b \<Rightarrow> bool"
    and contents :: "'b \<Rightarrow> byte list"
    and limit :: "'b \<Rightarrow> nat"
    and fits :: "'b \<Rightarrow> nat \<Rightarrow> bool"
    and sz :: "'b \<Rightarrow> nat"
    and max_size :: "'b \<Rightarrow> nat"
    and capacity :: "'b \<Rightarrow> nat"
    and bytes :: "'b \<Rightarrow> byte list"
    and prepare :: "'b \<Rightarrow> nat \<Rightarrow> 'b \<times> (exn + region)"
    and store :: "'b \<Rightarrow> nat \<Rightarrow> byte list \<Rightarrow> 'b"
    and commit :: "'b \<Rightarrow> nat \<Rightarrow> 'b"
    and consume :: "'b \<Rightarrow> nat \<Rightarrow> 'b"
  assumes size_law: "ok b \<Longrightarrow> sz b = length (contents b) \<and> sz b \<le> max_size b \<and> sz b \<le> capacity b"
    and data_law: "ok b \<Longrightarrow> bytes b = contents b"
    and fill_law: "ok b \<Longrightarrow> sz b + n \<le> limit b \<Longrightarrow> length d \<le> n \<Longrightarrow> fits b (length d) \<Longrightarrow>
      \<exists>b1 off. prepare b n = (b1, Inr (off, n)) \<and> ok (commit (store b1 off d) (length d)) \<and>
        contents (commit (store b1 off d) (length d)) = contents b @ d \<and>
        max_size (commit (store b1 off d) (length d)) = max_size b \<and>
        limit (commit (store b1 off d) (length d)) = limit b"
    and overflow_law: "ok b \<Longrightarrow> limit b < sz b + n \<Longrightarrow> \<exists>b1. prepare b n = (b1, Inl Length_error)"
    and limit_law: "ok b \<Longrightarrow> sz b \<le> limit b \<and> limit b \<le> max_size b"
    and consume_law: "ok b \<Longrightarrow> n \<le> sz b \<Longrightarrow> fits b n \<Longrightarrow>
      ok (consume b n) \<and> contents (consume b n) = drop n (contents b) \<and>
      max_size (consume b n) = max_size b \<and> limit (consume b n) = limit b"

text \<open>Version two: \<open>grow\<close>, store at the old end, \<open>shrink\<close> by what was not stored.\<close>

locale dynamic_buffer_v2 =
  fixes ok :: "'b \<Rightarrow> bool"
    and contents :: "'b \<Rightarrow> byte list"
    and limit :: "'b \<Rightarrow> nat"
    and sz :: "'b \<Rightarrow> nat"
    and max_size :: "'b \<Rightarrow> nat"
    and capacity :: "'b \<Rightarrow> nat"
    and data_at :: "'b \<Rightarrow> nat \<Rightarrow> nat \<Rightarrow> region"
    and bytes_at :: "'b \<Rightarrow> nat \<Rightarrow> nat \<Rightarrow> byte list"
    and grow :: "'b \<Rightarrow> nat \<Rightarrow> exn + 'b"
    and store :: "'b \<Rightarrow> nat \<Rightarrow> byte list \<Rightarrow> 'b"
    and shrink :: "'b \<Rightarrow> nat \<Rightarrow> 'b"
    and consume :: "'b \<Rightarrow> nat \<Rightarrow> 'b"
  assumes size_law: "ok b \<Longrightarrow> sz b = length (contents b) \<and> sz b \<le> max_size b \<and> sz b \<le> capacity b"
    and data_law: "ok b \<Longrightarrow> bytes_at b pos n = take n (drop pos (contents b))"
    and grow_law: "ok b \<Longrightarrow> sz b + n \<le> limit b \<Longrightarrow> length d \<le> n \<Longrightarrow>
      \<exists>b1. grow b n = Inr b1 \<and> data_at b1 (sz b) n = (sz b, n) \<and>
        ok (shrink (store b1 (sz b) d) (n - length d)) \<and>
        contents (shrink (store b1 (sz b) d) (n - length d)) = contents b @ d \<and>
        max_size (shrink (store b1 (sz b) d) (n - length d)) = max_size b \<and>
        limit (shrink (store b1 (sz b) d) (n - length d)) = limit b"
    and overflow_law: "ok b \<Longrightarrow> limit b < sz b + n \<Longrightarrow> grow b n = Inl Length_error"
    and limit_law: "ok b \<Longrightarrow> sz b \<le> limit b \<and> limit b \<le> max_size b"
    and consume_law: "ok b \<Longrightarrow> n \<le> sz b \<Longrightarrow>
      ok (consume b n) \<and> contents (consume b n) = drop n (contents b) \<and>
      max_size (consume b n) = max_size b \<and> limit (consume b n) = limit b"

section \<open>Strings and vectors\<close>

definition dsb_contents :: "dynamic_string_buffer \<Rightarrow> byte list" where
  "dsb_contents b = (if dsb_size_mem b = size_max then ct_data (dsb_string b)
                     else take (dsb_size_mem b) (ct_data (dsb_string b)))"

definition dsb_ok :: "dynamic_string_buffer \<Rightarrow> bool" where
  "dsb_ok b \<longleftrightarrow> ct_ok (dsb_string b) \<and> length (dsb_contents b) \<le> dsb_max_size b \<and>
     (dsb_size_mem b \<noteq> size_max \<longrightarrow> dsb_size_mem b \<le> length (ct_data (dsb_string b)))"

definition dsb_limit :: "dynamic_string_buffer \<Rightarrow> nat" where
  "dsb_limit b = min (dsb_max_size b) (ct_max_size (dsb_string b))"

lemma dsb_size_contents: "dsb_ok b \<Longrightarrow> dsb_size b = length (dsb_contents b)"
  by (auto simp: dsb_size_def dsb_contents_def dsb_ok_def)

lemma dsb_fill_law:
  assumes ok: "dsb_ok b" and n: "dsb_size b + n \<le> dsb_limit b" and d: "length d \<le> n"
  shows "\<exists>b1 off. dsb_prepare b n = (b1, Inr (off, n)) \<and> dsb_ok (dsb_commit (dsb_store b1 off d) (length d)) \<and>
        dsb_contents (dsb_commit (dsb_store b1 off d) (length d)) = dsb_contents b @ d \<and>
        dsb_max_size (dsb_commit (dsb_store b1 off d) (length d)) = dsb_max_size b \<and>
        dsb_limit (dsb_commit (dsb_store b1 off d) (length d)) = dsb_limit b"
proof -
  let ?k = "dsb_size b"
  have c: "ct_ok (dsb_string b)" using ok by (simp add: dsb_ok_def)
  have sz: "?k = length (dsb_contents b)" by (rule dsb_size_contents [OF ok])
  have k: "?k \<le> length (ct_data (dsb_string b))" "take ?k (ct_data (dsb_string b)) = dsb_contents b"
    using ok by (auto simp: sz dsb_contents_def dsb_ok_def)
  have mem: "(if dsb_size_mem b = size_max then length (ct_data (dsb_string b)) else dsb_size_mem b) = ?k"
    using ok by (auto simp: dsb_size_def dsb_ok_def dsb_contents_def)
  obtain c1 where c1: "ct_resize (dsb_string b) (?k + n) = Inr c1" "rg_limit (rg_plus (ct_buffer c1) ?k) n = (?k, n)"
    "length (ct_data (ct_store c1 ?k d)) = ?k + n"
    "ct_ok (ct_shrink (ct_store c1 ?k d) (?k + length d))"
    "ct_data (ct_shrink (ct_store c1 ?k d) (?k + length d)) = dsb_contents b @ d"
    "ct_max_size (ct_shrink (ct_store c1 ?k d) (?k + length d)) = ct_max_size (dsb_string b)"
    using ct_fill [OF c k(1) _ d, of thesis] n k(2) by (auto simp: dsb_limit_def)
  let ?b1 = "b\<lparr>dsb_size_mem := ?k, dsb_string := c1\<rparr>"
  have "dsb_prepare b n = (?b1, Inr (?k, n))"
    using n c1(1,2) mem by (auto simp: dsb_prepare_def dsb_limit_def Let_def split: if_splits)
  moreover have "dsb_commit (dsb_store ?b1 ?k d) (length d) =
      b\<lparr>dsb_size_mem := ?k + length d, dsb_string := ct_shrink (ct_store c1 ?k d) (?k + length d)\<rparr>"
    using c1(3) d by (simp add: dsb_commit_def dsb_store_def Let_def)
  moreover have "?k + length d < size_max"
    using n d c by (auto simp: dsb_limit_def ct_ok_def)
  ultimately show ?thesis
    using c1(4-6) n d sz by (auto simp: dsb_ok_def dsb_contents_def dsb_limit_def)
qed

interpretation dsb: dynamic_buffer dsb_ok dsb_contents dsb_limit "\<lambda>_ _. True" dsb_size dsb_max_size dsb_capacity
  "\<lambda>b. rg_bytes (ct_data (dsb_string b)) (dsb_data b)" dsb_prepare dsb_store dsb_commit dsb_consume
proof
  fix b :: dynamic_string_buffer and n :: nat and d :: "byte list"
  assume ok: "dsb_ok b"
  then have c: "ct_ok (dsb_string b)" by (simp add: dsb_ok_def)
  show "dsb_size b = length (dsb_contents b) \<and> dsb_size b \<le> dsb_max_size b \<and> dsb_size b \<le> dsb_capacity b"
    using dsb_size_contents [OF ok] ok by (auto simp: dsb_ok_def ct_ok_def dsb_capacity_def dsb_contents_def)
  show "rg_bytes (ct_data (dsb_string b)) (dsb_data b) = dsb_contents b"
    using length_less_size_max [OF c] ok
    by (auto simp: rg_bytes_def dsb_data_def rg_limit_def ct_buffer_def dsb_contents_def dsb_ok_def)
  show "dsb_size b + n \<le> dsb_limit b \<Longrightarrow> length d \<le> n \<Longrightarrow>
      \<exists>b1 off. dsb_prepare b n = (b1, Inr (off, n)) \<and> dsb_ok (dsb_commit (dsb_store b1 off d) (length d)) \<and>
        dsb_contents (dsb_commit (dsb_store b1 off d) (length d)) = dsb_contents b @ d \<and>
        dsb_max_size (dsb_commit (dsb_store b1 off d) (length d)) = dsb_max_size b \<and>
        dsb_limit (dsb_commit (dsb_store b1 off d) (length d)) = dsb_limit b"
    by (rule dsb_fill_law [OF ok])
  show "dsb_limit b < dsb_size b + n \<Longrightarrow> \<exists>b1. dsb_prepare b n = (b1, Inl Length_error)"
    using ok by (auto simp: dsb_prepare_def dsb_limit_def ct_resize_def dsb_size_def Let_def dsb_ok_def
      dsb_contents_def)
  show "dsb_size b \<le> dsb_limit b \<and> dsb_limit b \<le> dsb_max_size b"
    using dsb_size_contents [OF ok] ok by (auto simp: dsb_ok_def ct_ok_def dsb_limit_def dsb_contents_def)
  show "n \<le> dsb_size b \<Longrightarrow> dsb_ok (dsb_consume b n) \<and> dsb_contents (dsb_consume b n) = drop n (dsb_contents b) \<and>
      dsb_max_size (dsb_consume b n) = dsb_max_size b \<and> dsb_limit (dsb_consume b n) = dsb_limit b"
  proof -
    assume n: "n \<le> dsb_size b"
    have "dsb_size_mem b - n \<noteq> size_max" if "dsb_size_mem b \<noteq> size_max"
      using that ok length_less_size_max [OF c] by (auto simp: dsb_ok_def)
    then show ?thesis
      using n ok ct_erase_ok [OF c] by (auto simp: dsb_consume_def dsb_ok_def dsb_contents_def dsb_limit_def
        dsb_size_def drop_take)
  qed
qed

definition dsb2_ok :: "dynamic_string_buffer \<Rightarrow> bool" where
  "dsb2_ok b \<longleftrightarrow> dsb_size_mem b = size_max \<and> ct_ok (dsb_string b) \<and> length (ct_data (dsb_string b)) \<le> dsb_max_size b"

definition dsb2_contents :: "dynamic_string_buffer \<Rightarrow> byte list" where
  "dsb2_contents b = ct_data (dsb_string b)"

lemma dsb2_grow_law:
  assumes ok: "dsb2_ok b" and n: "dsb_size b + n \<le> dsb_limit b" and d: "length d \<le> n"
  shows "\<exists>b1. dsb_grow b n = Inr b1 \<and> dsb_data_at b1 (dsb_size b) n = (dsb_size b, n) \<and>
        dsb2_ok (dsb_shrink (dsb_store b1 (dsb_size b) d) (n - length d)) \<and>
        dsb2_contents (dsb_shrink (dsb_store b1 (dsb_size b) d) (n - length d)) = dsb2_contents b @ d \<and>
        dsb_max_size (dsb_shrink (dsb_store b1 (dsb_size b) d) (n - length d)) = dsb_max_size b \<and>
        dsb_limit (dsb_shrink (dsb_store b1 (dsb_size b) d) (n - length d)) = dsb_limit b"
proof -
  let ?k = "dsb_size b"
  have c: "ct_ok (dsb_string b)" and mem: "dsb_size_mem b = size_max" using ok by (simp_all add: dsb2_ok_def)
  have k: "?k = length (ct_data (dsb_string b))" using ok by (auto simp: dsb2_ok_def dsb_size_def)
  obtain c1 where c1: "ct_resize (dsb_string b) (?k + n) = Inr c1" "rg_limit (rg_plus (ct_buffer c1) ?k) n = (?k, n)"
    "length (ct_data (ct_store c1 ?k d)) = ?k + n"
    "ct_ok (ct_shrink (ct_store c1 ?k d) (?k + length d))"
    "ct_data (ct_shrink (ct_store c1 ?k d) (?k + length d)) = ct_data (dsb_string b) @ d"
    "ct_max_size (ct_shrink (ct_store c1 ?k d) (?k + length d)) = ct_max_size (dsb_string b)"
    using ct_fill [OF c _ _ d, of ?k thesis] n k by (auto simp: dsb_limit_def)
  let ?b1 = "b\<lparr>dsb_string := c1\<rparr>"
  have "length (ct_data c1) = ?k + n" using ct_resize_ok [OF c] c1(1) n by (fastforce simp: dsb_limit_def)
  then have at: "dsb_data_at ?b1 ?k n = (?k, n)"
    using n by (auto simp: dsb_data_at_def dsb_limit_def ct_buffer_def rg_limit_def rg_plus_def Let_def)
  have grow: "dsb_grow b n = Inr ?b1" using n c1(1) by (auto simp: dsb_grow_def dsb_limit_def)
  have "dsb_size (dsb_store ?b1 ?k d) = ?k + n"
    using c1(3) n mem by (auto simp: dsb_size_def dsb_store_def dsb_limit_def)
  then have "dsb_shrink (dsb_store ?b1 ?k d) (n - length d) =
      b\<lparr>dsb_string := ct_shrink (ct_store c1 ?k d) (?k + length d)\<rparr>"
    using d by (simp add: dsb_shrink_def) (simp add: dsb_store_def)
  with grow at show ?thesis
    using c1(4-6) n d k mem by (auto simp: dsb2_ok_def dsb2_contents_def dsb_limit_def)
qed

lemma rg_bytes_at:
  assumes "length xs \<le> m"
  shows "rg_bytes xs (rg_limit (rg_plus (rg_limit (0, length xs) m) pos) n) = take n (drop pos xs)"
  using assms by (auto simp: rg_bytes_def rg_limit_def rg_plus_def Let_def)

interpretation dsb2: dynamic_buffer_v2 dsb2_ok dsb2_contents dsb_limit dsb_size dsb_max_size dsb_capacity
  dsb_data_at "\<lambda>b pos n. rg_bytes (ct_data (dsb_string b)) (dsb_data_at b pos n)"
  dsb_grow dsb_store dsb_shrink dsb_consume
proof
  fix b :: dynamic_string_buffer and n pos :: nat and d :: "byte list"
  assume ok: "dsb2_ok b"
  then have c: "ct_ok (dsb_string b)" by (simp add: dsb2_ok_def)
  show "dsb_size b = length (dsb2_contents b) \<and> dsb_size b \<le> dsb_max_size b \<and> dsb_size b \<le> dsb_capacity b"
    using ok by (auto simp: dsb2_ok_def ct_ok_def dsb_size_def dsb_capacity_def dsb2_contents_def)
  show "rg_bytes (ct_data (dsb_string b)) (dsb_data_at b pos n) = take n (drop pos (dsb2_contents b))"
    using ok by (simp add: dsb_data_at_def ct_buffer_def rg_bytes_at dsb2_ok_def dsb2_contents_def)
  show "dsb_size b + n \<le> dsb_limit b \<Longrightarrow> length d \<le> n \<Longrightarrow>
      \<exists>b1. dsb_grow b n = Inr b1 \<and> dsb_data_at b1 (dsb_size b) n = (dsb_size b, n) \<and>
        dsb2_ok (dsb_shrink (dsb_store b1 (dsb_size b) d) (n - length d)) \<and>
        dsb2_contents (dsb_shrink (dsb_store b1 (dsb_size b) d) (n - length d)) = dsb2_contents b @ d \<and>
        dsb_max_size (dsb_shrink (dsb_store b1 (dsb_size b) d) (n - length d)) = dsb_max_size b \<and>
        dsb_limit (dsb_shrink (dsb_store b1 (dsb_size b) d) (n - length d)) = dsb_limit b"
    by (rule dsb2_grow_law [OF ok])
  show "dsb_limit b < dsb_size b + n \<Longrightarrow> dsb_grow b n = Inl Length_error"
    by (auto simp: dsb_grow_def dsb_limit_def ct_resize_def)
  show "dsb_size b \<le> dsb_limit b \<and> dsb_limit b \<le> dsb_max_size b"
    using ok by (auto simp: dsb2_ok_def ct_ok_def dsb_limit_def dsb_size_def)
  show "n \<le> dsb_size b \<Longrightarrow> dsb2_ok (dsb_consume b n) \<and> dsb2_contents (dsb_consume b n) = drop n (dsb2_contents b) \<and>
      dsb_max_size (dsb_consume b n) = dsb_max_size b \<and> dsb_limit (dsb_consume b n) = dsb_limit b"
    using ok ct_erase_ok [OF c] by (auto simp: dsb_consume_def dsb2_ok_def dsb2_contents_def dsb_limit_def)
qed

text \<open>A vector buffer behaves as the string buffer with the same members.\<close>

definition as_string :: "dynamic_vector_buffer \<Rightarrow> dynamic_string_buffer" where
  "as_string b = \<lparr>dsb_string = dvb_vector b, dsb_size_mem = dvb_size_mem b, dsb_max_size = dvb_max_size b\<rparr>"

definition of_string :: "dynamic_string_buffer \<Rightarrow> dynamic_vector_buffer" where
  "of_string b = \<lparr>dvb_vector = dsb_string b, dvb_size_mem = dsb_size_mem b, dvb_max_size = dsb_max_size b\<rparr>"

lemma as_of_string [simp]: "as_string (of_string b) = b" "of_string (as_string v) = v"
  by (simp_all add: as_string_def of_string_def)

lemma as_string_reads:
  "dvb_size b = dsb_size (as_string b)" "dvb_capacity b = dsb_capacity (as_string b)"
  "dvb_data b = dsb_data (as_string b)" "dvb_data_at b pos n = dsb_data_at (as_string b) pos n"
  "dvb_max_size b = dsb_max_size (as_string b)" "ct_data (dvb_vector b) = ct_data (dsb_string (as_string b))"
  by (simp_all add: as_string_def dvb_size_def dsb_size_def dvb_capacity_def dsb_capacity_def dvb_data_def
    dsb_data_def dvb_data_at_def dsb_data_at_def)

lemma as_string_updates:
  "dvb_prepare b n = map_prod of_string id (dsb_prepare (as_string b) n)"
  "dvb_store b off d = of_string (dsb_store (as_string b) off d)"
  "dvb_commit b n = of_string (dsb_commit (as_string b) n)"
  "dvb_grow b n = map_sum id of_string (dsb_grow (as_string b) n)"
  "dvb_shrink b n = of_string (dsb_shrink (as_string b) n)"
  by (auto simp: as_string_def of_string_def dvb_prepare_def dsb_prepare_def dvb_size_def dsb_size_def
    dvb_store_def dsb_store_def dvb_commit_def dsb_commit_def dvb_grow_def dsb_grow_def dvb_shrink_def
    dsb_shrink_def Let_def split: sum.splits)

lemma as_string_consume:
  assumes "dsb_ok (as_string b) \<or> dsb2_ok (as_string b)"
  shows "dvb_consume b n = of_string (dsb_consume (as_string b) n)"
proof -
  have "min (dvb_size b) n = min (length (ct_data (dvb_vector b))) n" if "dvb_size_mem b = size_max"
    using assms that by (auto simp: as_string_def dsb_ok_def dsb2_ok_def dsb_contents_def dvb_size_def min_def)
  moreover have "ct_erase_front c (min (length (ct_data c)) n) = ct_erase_front c n" for c
    by (simp add: ct_erase_front_def min_def)
  ultimately show ?thesis
    by (auto simp: dvb_consume_def dsb_consume_def as_string_def of_string_def Let_def)
qed

interpretation dvb: dynamic_buffer "\<lambda>b. dsb_ok (as_string b)" "\<lambda>b. dsb_contents (as_string b)"
  "\<lambda>b. dsb_limit (as_string b)" "\<lambda>_ _. True" dvb_size dvb_max_size dvb_capacity
  "\<lambda>b. rg_bytes (ct_data (dvb_vector b)) (dvb_data b)" dvb_prepare dvb_store dvb_commit dvb_consume
proof
  fix b :: dynamic_vector_buffer and n :: nat and d :: "byte list"
  assume ok: "dsb_ok (as_string b)"
  show "dvb_size b = length (dsb_contents (as_string b)) \<and> dvb_size b \<le> dvb_max_size b \<and> dvb_size b \<le> dvb_capacity b"
    using dsb.size_law [OF ok] by (simp add: as_string_reads)
  show "rg_bytes (ct_data (dvb_vector b)) (dvb_data b) = dsb_contents (as_string b)"
    using dsb.data_law [OF ok] by (simp add: as_string_reads)
  show "dvb_size b + n \<le> dsb_limit (as_string b) \<Longrightarrow> length d \<le> n \<Longrightarrow>
      \<exists>b1 off. dvb_prepare b n = (b1, Inr (off, n)) \<and>
        dsb_ok (as_string (dvb_commit (dvb_store b1 off d) (length d))) \<and>
        dsb_contents (as_string (dvb_commit (dvb_store b1 off d) (length d))) = dsb_contents (as_string b) @ d \<and>
        dvb_max_size (dvb_commit (dvb_store b1 off d) (length d)) = dvb_max_size b \<and>
        dsb_limit (as_string (dvb_commit (dvb_store b1 off d) (length d))) = dsb_limit (as_string b)"
    using dsb_fill_law [OF ok, of n d] by (force simp: as_string_reads as_string_updates)
  show "dsb_limit (as_string b) < dvb_size b + n \<Longrightarrow> \<exists>b1. dvb_prepare b n = (b1, Inl Length_error)"
    using dsb.overflow_law [OF ok] by (force simp: as_string_reads as_string_updates)
  show "dvb_size b \<le> dsb_limit (as_string b) \<and> dsb_limit (as_string b) \<le> dvb_max_size b"
    using dsb.limit_law [OF ok] by (simp add: as_string_reads)
  show "n \<le> dvb_size b \<Longrightarrow> dsb_ok (as_string (dvb_consume b n)) \<and>
      dsb_contents (as_string (dvb_consume b n)) = drop n (dsb_contents (as_string b)) \<and>
      dvb_max_size (dvb_consume b n) = dvb_max_size b \<and>
      dsb_limit (as_string (dvb_consume b n)) = dsb_limit (as_string b)"
    using dsb.consume_law [OF ok] ok by (simp add: as_string_reads as_string_consume)
qed

interpretation dvb2: dynamic_buffer_v2 "\<lambda>b. dsb2_ok (as_string b)" "\<lambda>b. dsb2_contents (as_string b)"
  "\<lambda>b. dsb_limit (as_string b)" dvb_size dvb_max_size dvb_capacity
  dvb_data_at "\<lambda>b pos n. rg_bytes (ct_data (dvb_vector b)) (dvb_data_at b pos n)"
  dvb_grow dvb_store dvb_shrink dvb_consume
proof
  fix b :: dynamic_vector_buffer and n pos :: nat and d :: "byte list"
  assume ok: "dsb2_ok (as_string b)"
  show "dvb_size b = length (dsb2_contents (as_string b)) \<and> dvb_size b \<le> dvb_max_size b \<and> dvb_size b \<le> dvb_capacity b"
    using dsb2.size_law [OF ok] by (simp add: as_string_reads)
  show "rg_bytes (ct_data (dvb_vector b)) (dvb_data_at b pos n) = take n (drop pos (dsb2_contents (as_string b)))"
    using dsb2.data_law [OF ok] by (simp add: as_string_reads)
  show "dvb_size b + n \<le> dsb_limit (as_string b) \<Longrightarrow> length d \<le> n \<Longrightarrow>
      \<exists>b1. dvb_grow b n = Inr b1 \<and> dvb_data_at b1 (dvb_size b) n = (dvb_size b, n) \<and>
        dsb2_ok (as_string (dvb_shrink (dvb_store b1 (dvb_size b) d) (n - length d))) \<and>
        dsb2_contents (as_string (dvb_shrink (dvb_store b1 (dvb_size b) d) (n - length d))) =
          dsb2_contents (as_string b) @ d \<and>
        dvb_max_size (dvb_shrink (dvb_store b1 (dvb_size b) d) (n - length d)) = dvb_max_size b \<and>
        dsb_limit (as_string (dvb_shrink (dvb_store b1 (dvb_size b) d) (n - length d))) = dsb_limit (as_string b)"
    using dsb2_grow_law [OF ok, of n d] by (auto simp: as_string_reads as_string_updates)
  show "dsb_limit (as_string b) < dvb_size b + n \<Longrightarrow> dvb_grow b n = Inl Length_error"
    using dsb2.overflow_law [OF ok] by (auto simp: as_string_reads as_string_updates)
  show "dvb_size b \<le> dsb_limit (as_string b) \<and> dsb_limit (as_string b) \<le> dvb_max_size b"
    using dsb2.limit_law [OF ok] by (simp add: as_string_reads)
  show "n \<le> dvb_size b \<Longrightarrow> dsb2_ok (as_string (dvb_consume b n)) \<and>
      dsb2_contents (as_string (dvb_consume b n)) = drop n (dsb2_contents (as_string b)) \<and>
      dvb_max_size (dvb_consume b n) = dvb_max_size b \<and>
      dsb_limit (as_string (dvb_consume b n)) = dsb_limit (as_string b)"
    using dsb2.consume_law [OF ok] ok by (simp add: as_string_reads as_string_consume)
qed

section \<open>The streambuf\<close>

definition sb_ok :: "basic_streambuf \<Rightarrow> bool" where
  "sb_ok b \<longleftrightarrow> ct_ok (sb_buffer b) \<and> sb_gptr b \<le> sb_pptr b \<and> sb_pptr b \<le> sb_epptr b \<and>
     sb_epptr b \<le> length (ct_data (sb_buffer b)) \<and> sb_epptr b \<le> sb_max_size b"

definition sb_contents :: "basic_streambuf \<Rightarrow> byte list" where
  "sb_contents b = take (sb_pptr b - sb_gptr b) (drop (sb_gptr b) (ct_data (sb_buffer b)))"

definition sb_limit :: "basic_streambuf \<Rightarrow> nat" where
  "sb_limit b = min (sb_max_size b) (ct_max_size (sb_buffer b))"

lemma size_sub_le [simp]: "b \<le> a \<Longrightarrow> size_sub a b = a - b"
  by (simp add: size_sub_def)

lemma int_of_size_small [simp]: "n < 2 ^ 31 \<Longrightarrow> int_of_size n = int n"
  unfolding int_of_size_def by transfer (simp add: signed_take_bit_int_eq_self)

lemma bump_size [simp]: "bump p (int n) = p + n"
  by (simp add: bump_def nat_int_add)

lemma sb_size_contents: "sb_ok b \<Longrightarrow> sb_size b = length (sb_contents b)"
  by (auto simp: sb_ok_def sb_size_def sb_contents_def)

lemma take_drop_store_front:
  assumes "length ys \<le> length xs"
  shows "take (length ys) (store_at xs 0 ys) = ys"
  using assms by (simp add: store_at_def)

text \<open>\<open>reserve\<close> makes room for \<open>n\<close> more bytes behind the contents.\<close>

lemma sb_reserve_ok:
  assumes ok: "sb_ok b" and n: "sb_size b + n \<le> sb_limit b"
  shows "\<exists>b1. sb_reserve b n = (b1, Inr ()) \<and> sb_ok b1 \<and> sb_contents b1 = sb_contents b \<and>
    sb_pptr b1 + n \<le> sb_epptr b1 \<and> sb_max_size b1 = sb_max_size b \<and> sb_limit b1 = sb_limit b"
proof (cases "n \<le> sb_epptr b - sb_pptr b")
  case True
  then show ?thesis using ok by (auto simp: sb_reserve_def sb_ok_def Let_def)
next
  case False
  let ?k = "sb_pptr b - sb_gptr b"
  let ?buf = "if sb_gptr b > 0
    then ct_store (sb_buffer b) 0 (take ?k (drop (sb_gptr b) (ct_data (sb_buffer b)))) else sb_buffer b"
  note o = ok [unfolded sb_ok_def]
  have k: "sb_size b = ?k" using o by (simp add: sb_size_def)
  have lenc: "length (take ?k (drop (sb_gptr b) (ct_data (sb_buffer b)))) = ?k"
    using o by (auto simp: min_def)
  have "0 + length (take ?k (drop (sb_gptr b) (ct_data (sb_buffer b)))) \<le> length (ct_data (sb_buffer b))"
    using o by simp
  note st = ct_store_ok [OF conjunct1 [OF o] this]
  have buf: "ct_ok ?buf" "ct_max_size ?buf = ct_max_size (sb_buffer b)"
    "length (ct_data ?buf) = length (ct_data (sb_buffer b))"
    using o st by (auto simp: length_store_at)
  have front: "take ?k (ct_data ?buf) = sb_contents b"
  proof (cases "sb_gptr b > 0")
    case True
    then show ?thesis
      using take_drop_store_front [of "take ?k (drop (sb_gptr b) (ct_data (sb_buffer b)))" "ct_data (sb_buffer b)"]
        lenc o by (simp add: ct_store_def sb_contents_def)
  next
    case False
    then show ?thesis by (simp add: sb_contents_def)
  qed
  show ?thesis
  proof (cases "n \<le> sb_epptr b - ?k")
    case True
    let ?b1 = "b\<lparr>sb_buffer := ?buf, sb_gptr := 0, sb_egptr := ?k, sb_pptr := ?k\<rparr>"
    have "sb_reserve b n = (?b1, Inr ())"
      using False True o by (auto simp: sb_reserve_def Let_def)
    moreover have "sb_ok ?b1" "sb_limit ?b1 = sb_limit b" using o buf by (auto simp: sb_ok_def sb_limit_def)
    moreover have "sb_contents ?b1 = sb_contents b" using front by (simp add: sb_contents_def)
    moreover have "?k + n \<le> sb_epptr b" using True o by auto
    ultimately show ?thesis by (intro exI [of _ ?b1]) simp
  next
    case grow: False
    have lim: "max (?k + n) 1 \<le> ct_max_size ?buf"
      using n k buf o by (auto simp: sb_limit_def ct_ok_def)
    obtain c' where c': "ct_resize ?buf (max (?k + n) 1) = Inr c'" "ct_ok c'" "length (ct_data c') = max (?k + n) 1"
      "take (length (ct_data ?buf)) (ct_data c') = take (max (?k + n) 1) (ct_data ?buf)"
      "ct_max_size c' = ct_max_size ?buf"
      using ct_resize_ok [OF buf(1) lim] by blast
    have "?k \<le> length (ct_data ?buf)" using buf(3) o by auto
    then have "take ?k (ct_data c') = take ?k (take (length (ct_data ?buf)) (ct_data c'))" by (simp add: min_def)
    also have "\<dots> = take ?k (ct_data ?buf)" unfolding c'(4) by (simp add: min_def max_def)
    finally have kept: "take ?k (ct_data c') = sb_contents b" using front by simp
    let ?b1 = "b\<lparr>sb_buffer := c', sb_gptr := 0, sb_egptr := ?k, sb_pptr := ?k, sb_epptr := ?k + n\<rparr>"
    have "n \<le> sb_max_size b \<and> ?k \<le> sb_max_size b - n" using n k by (auto simp: sb_limit_def)
    then have "sb_reserve b n = (?b1, Inr ())"
      using False grow o c'(1) by (auto simp: sb_reserve_def Let_def)
    moreover have "sb_ok ?b1" "sb_limit ?b1 = sb_limit b" using n k c' buf(2) by (auto simp: sb_ok_def sb_limit_def)
    moreover have "sb_contents ?b1 = sb_contents b" using kept by (simp add: sb_contents_def)
    ultimately show ?thesis by (intro exI [of _ ?b1]) simp
  qed
qed

lemma sb_fill_law:
  assumes ok: "sb_ok b" and n: "sb_size b + n \<le> sb_limit b" and d: "length d \<le> n" "length d < 2 ^ 31"
  shows "\<exists>b1 off. sb_prepare b n = (b1, Inr (off, n)) \<and> sb_ok (sb_commit (sb_store b1 off d) (length d)) \<and>
        sb_contents (sb_commit (sb_store b1 off d) (length d)) = sb_contents b @ d \<and>
        sb_max_size (sb_commit (sb_store b1 off d) (length d)) = sb_max_size b \<and>
        sb_limit (sb_commit (sb_store b1 off d) (length d)) = sb_limit b"
proof -
  obtain b1 where b1: "sb_reserve b n = (b1, Inr ())" "sb_ok b1" "sb_contents b1 = sb_contents b"
    "sb_pptr b1 + n \<le> sb_epptr b1" "sb_max_size b1 = sb_max_size b" "sb_limit b1 = sb_limit b"
    using sb_reserve_ok [OF ok n] by blast
  note o = b1(2) [unfolded sb_ok_def]
  let ?p = "sb_pptr b1"
  have off: "?p + length d \<le> length (ct_data (sb_buffer b1))" using o b1(4) d(1) by linarith
  note st = ct_store_ok [OF conjunct1 [OF o] off]
  let ?b2 = "sb_commit (sb_store b1 ?p d) (length d)"
  have b2: "?b2 = b1\<lparr>sb_buffer := ct_store (sb_buffer b1) ?p d, sb_pptr := ?p + length d, sb_egptr := ?p + length d\<rparr>"
    using b1(4) d o by (simp add: sb_commit_def sb_store_def Let_def)
  have "sb_ok ?b2"
    unfolding b2 using st o b1(4) d(1) length_store_at [OF off] by (simp add: sb_ok_def)
  moreover have "sb_contents ?b2 = sb_contents b1 @ d"
  proof -
    have "sb_contents ?b2 = drop (sb_gptr b1) (take (?p + length d) (store_at (ct_data (sb_buffer b1)) ?p d))"
      unfolding b2 using st(2) o by (simp add: sb_contents_def drop_take)
    also have "\<dots> = drop (sb_gptr b1) (take ?p (ct_data (sb_buffer b1)) @ d)"
      unfolding take_store_at [OF off] ..
    also have "\<dots> = sb_contents b1 @ d" using o by (simp add: sb_contents_def drop_take)
    finally show ?thesis .
  qed
  moreover have "sb_max_size ?b2 = sb_max_size b" "sb_limit ?b2 = sb_limit b"
    unfolding b2 using b1(5,6) st(3) by (simp_all add: sb_limit_def)
  moreover have "sb_prepare b n = (b1, Inr (?p, n))" by (simp add: sb_prepare_def b1(1))
  ultimately show ?thesis using b1(3) by (intro exI [of _ b1] exI [of _ ?p]) simp
qed

lemma sb_overflow_law:
  assumes ok: "sb_ok b" and n: "sb_limit b < sb_size b + n"
  shows "\<exists>b1. sb_prepare b n = (b1, Inl Length_error)"
proof -
  note o = ok [unfolded sb_ok_def]
  have k: "sb_size b = sb_pptr b - sb_gptr b" using o by (simp add: sb_size_def)
  have "\<not> n \<le> sb_epptr b - sb_pptr b" "n > sb_epptr b - (sb_pptr b - sb_gptr b)"
    "\<not> (n \<le> sb_max_size b \<and> sb_pptr b - sb_gptr b \<le> sb_max_size b - n) \<or>
     ct_max_size (sb_buffer b) < max (sb_pptr b - sb_gptr b + n) 1"
    using n k o by (auto simp: sb_limit_def ct_ok_def)
  then show ?thesis using o by (auto simp: sb_prepare_def sb_reserve_def Let_def ct_resize_def ct_store_def)
qed

interpretation sb: dynamic_buffer sb_ok sb_contents sb_limit "\<lambda>_ n. n < 2 ^ 31" sb_size sb_max_size sb_capacity
  "\<lambda>b. rg_bytes (ct_data (sb_buffer b)) (sb_data b)" sb_prepare sb_store sb_commit sb_consume
proof
  fix b :: basic_streambuf and n :: nat and d :: "byte list"
  assume ok: "sb_ok b"
  show "sb_size b = length (sb_contents b) \<and> sb_size b \<le> sb_max_size b \<and> sb_size b \<le> sb_capacity b"
    using ok sb_size_contents [OF ok] by (auto simp: sb_ok_def ct_ok_def sb_size_def sb_capacity_def)
  show "rg_bytes (ct_data (sb_buffer b)) (sb_data b) = sb_contents b"
    using ok by (simp add: rg_bytes_def sb_data_def sb_contents_def sb_ok_def)
  show "sb_size b + n \<le> sb_limit b \<Longrightarrow> length d \<le> n \<Longrightarrow> length d < 2 ^ 31 \<Longrightarrow>
      \<exists>b1 off. sb_prepare b n = (b1, Inr (off, n)) \<and> sb_ok (sb_commit (sb_store b1 off d) (length d)) \<and>
        sb_contents (sb_commit (sb_store b1 off d) (length d)) = sb_contents b @ d \<and>
        sb_max_size (sb_commit (sb_store b1 off d) (length d)) = sb_max_size b \<and>
        sb_limit (sb_commit (sb_store b1 off d) (length d)) = sb_limit b"
    by (rule sb_fill_law [OF ok])
  show "sb_limit b < sb_size b + n \<Longrightarrow> \<exists>b1. sb_prepare b n = (b1, Inl Length_error)"
    by (rule sb_overflow_law [OF ok])
  show "sb_size b \<le> sb_limit b \<and> sb_limit b \<le> sb_max_size b"
    using ok by (auto simp: sb_ok_def ct_ok_def sb_limit_def sb_size_def)
  show "n \<le> sb_size b \<Longrightarrow> n < 2 ^ 31 \<Longrightarrow> sb_ok (sb_consume b n) \<and> sb_contents (sb_consume b n) = drop n (sb_contents b) \<and>
      sb_max_size (sb_consume b n) = sb_max_size b \<and> sb_limit (sb_consume b n) = sb_limit b"
    using ok by (auto simp: sb_consume_def sb_ok_def sb_contents_def sb_limit_def sb_size_def Let_def drop_take
      add.commute)
qed

section \<open>The types a read operation takes\<close>

fun db_ok :: "dynbuf \<Rightarrow> bool" where
  "db_ok (Dyn_string b) \<longleftrightarrow> dsb_ok b"
| "db_ok (Dyn_vector b) \<longleftrightarrow> dsb_ok (as_string b)"
| "db_ok (Dyn_streambuf b) \<longleftrightarrow> sb_ok b"

fun db_contents :: "dynbuf \<Rightarrow> byte list" where
  "db_contents (Dyn_string b) = dsb_contents b"
| "db_contents (Dyn_vector b) = dsb_contents (as_string b)"
| "db_contents (Dyn_streambuf b) = sb_contents b"

fun db_limit :: "dynbuf \<Rightarrow> nat" where
  "db_limit (Dyn_string b) = dsb_limit b"
| "db_limit (Dyn_vector b) = dsb_limit (as_string b)"
| "db_limit (Dyn_streambuf b) = sb_limit b"

text \<open>The chunks a commit or consume takes as they are.\<close>

fun db_fits :: "dynbuf \<Rightarrow> nat \<Rightarrow> bool" where
  "db_fits (Dyn_string b) n \<longleftrightarrow> True"
| "db_fits (Dyn_vector b) n \<longleftrightarrow> True"
| "db_fits (Dyn_streambuf b) n \<longleftrightarrow> n < 2 ^ 31"

lemma db_fits_small: "n < 2 ^ 31 \<Longrightarrow> db_fits b n"
  by (cases b) simp_all

lemma db_fits_kept:
  "db_prepare b n = (b1, r) \<Longrightarrow> db_fits (db_commit (db_store b1 off d) m) k \<longleftrightarrow> db_fits b k"
  by (cases b) (auto simp: map_prod_def split: prod.splits)

definition db_bytes :: "dynbuf \<Rightarrow> byte list" where
  "db_bytes b = rg_bytes (db_storage b) (db_data b)"

lemma db_fill_law:
  assumes "db_ok b" "db_size b + n \<le> db_limit b" "length d \<le> n" "db_fits b (length d)"
  shows "\<exists>b1 off. db_prepare b n = (b1, Inr (off, n)) \<and> db_ok (db_commit (db_store b1 off d) (length d)) \<and>
        db_contents (db_commit (db_store b1 off d) (length d)) = db_contents b @ d \<and>
        db_max_size (db_commit (db_store b1 off d) (length d)) = db_max_size b \<and>
        db_limit (db_commit (db_store b1 off d) (length d)) = db_limit b"
proof (cases b)
  case (Dyn_string x)
  then show ?thesis using dsb.fill_law [of x n d] assms by force
next
  case (Dyn_vector x)
  then show ?thesis using dvb.fill_law [of x n d] assms by force
next
  case (Dyn_streambuf x)
  then show ?thesis using sb.fill_law [of x n d] assms by force
qed

interpretation db: dynamic_buffer db_ok db_contents db_limit db_fits db_size db_max_size db_capacity
  db_bytes db_prepare db_store db_commit db_consume
proof
  fix b :: dynbuf and n :: nat and d :: "byte list"
  assume ok: "db_ok b"
  show "db_size b = length (db_contents b) \<and> db_size b \<le> db_max_size b \<and> db_size b \<le> db_capacity b"
    using ok dsb.size_law dvb.size_law sb.size_law
    by (cases b; simp only: db_size.simps db_ok.simps db_contents.simps db_max_size.simps db_capacity.simps; blast)
  show "db_bytes b = db_contents b"
    using ok dsb.data_law dvb.data_law sb.data_law by (cases b) (simp_all add: db_bytes_def)
  show "db_size b + n \<le> db_limit b \<Longrightarrow> length d \<le> n \<Longrightarrow> db_fits b (length d) \<Longrightarrow>
      \<exists>b1 off. db_prepare b n = (b1, Inr (off, n)) \<and> db_ok (db_commit (db_store b1 off d) (length d)) \<and>
        db_contents (db_commit (db_store b1 off d) (length d)) = db_contents b @ d \<and>
        db_max_size (db_commit (db_store b1 off d) (length d)) = db_max_size b \<and>
        db_limit (db_commit (db_store b1 off d) (length d)) = db_limit b"
    by (rule db_fill_law [OF ok])
  show "db_limit b < db_size b + n \<Longrightarrow> \<exists>b1. db_prepare b n = (b1, Inl Length_error)"
    using ok dsb.overflow_law dvb.overflow_law sb.overflow_law by (cases b) fastforce+
  show "db_size b \<le> db_limit b \<and> db_limit b \<le> db_max_size b"
    using ok dsb.limit_law dvb.limit_law sb.limit_law by (cases b) simp_all
  show "n \<le> db_size b \<Longrightarrow> db_fits b n \<Longrightarrow> db_ok (db_consume b n) \<and> db_contents (db_consume b n) = drop n (db_contents b) \<and>
      db_max_size (db_consume b n) = db_max_size b \<and> db_limit (db_consume b n) = db_limit b"
    using ok dsb.consume_law dvb.consume_law sb.consume_law by (cases b) simp_all
qed

fun db2_ok :: "dynbuf2 \<Rightarrow> bool" where
  "db2_ok (Dyn2_string b) \<longleftrightarrow> dsb2_ok b"
| "db2_ok (Dyn2_vector b) \<longleftrightarrow> dsb2_ok (as_string b)"

fun db2_contents :: "dynbuf2 \<Rightarrow> byte list" where
  "db2_contents (Dyn2_string b) = dsb2_contents b"
| "db2_contents (Dyn2_vector b) = dsb2_contents (as_string b)"

fun db2_limit :: "dynbuf2 \<Rightarrow> nat" where
  "db2_limit (Dyn2_string b) = dsb_limit b"
| "db2_limit (Dyn2_vector b) = dsb_limit (as_string b)"

definition db2_bytes_at :: "dynbuf2 \<Rightarrow> nat \<Rightarrow> nat \<Rightarrow> byte list" where
  "db2_bytes_at b pos n = rg_bytes (db2_storage b) (db2_data_at b pos n)"

lemma db2_grow_law:
  assumes "db2_ok b" "db2_size b + n \<le> db2_limit b" "length d \<le> n"
  shows "\<exists>b1. db2_grow b n = Inr b1 \<and> db2_data_at b1 (db2_size b) n = (db2_size b, n) \<and>
        db2_ok (db2_shrink (db2_store b1 (db2_size b) d) (n - length d)) \<and>
        db2_contents (db2_shrink (db2_store b1 (db2_size b) d) (n - length d)) = db2_contents b @ d \<and>
        db2_max_size (db2_shrink (db2_store b1 (db2_size b) d) (n - length d)) = db2_max_size b \<and>
        db2_limit (db2_shrink (db2_store b1 (db2_size b) d) (n - length d)) = db2_limit b"
proof (cases b)
  case (Dyn2_string x)
  then show ?thesis using dsb2.grow_law [of x n d] assms by force
next
  case (Dyn2_vector x)
  then show ?thesis using dvb2.grow_law [of x n d] assms by force
qed

interpretation db2: dynamic_buffer_v2 db2_ok db2_contents db2_limit db2_size db2_max_size db2_capacity
  db2_data_at db2_bytes_at db2_grow db2_store db2_shrink db2_consume
proof
  fix b :: dynbuf2 and n pos :: nat and d :: "byte list"
  assume ok: "db2_ok b"
  show "db2_size b = length (db2_contents b) \<and> db2_size b \<le> db2_max_size b \<and> db2_size b \<le> db2_capacity b"
    using ok dsb2.size_law dvb2.size_law
    by (cases b; simp only: db2_size.simps db2_ok.simps db2_contents.simps db2_max_size.simps db2_capacity.simps; blast)
  show "db2_bytes_at b pos n = take n (drop pos (db2_contents b))"
    using ok dsb2.data_law dvb2.data_law by (cases b) (simp_all add: db2_bytes_at_def)
  show "db2_size b + n \<le> db2_limit b \<Longrightarrow> length d \<le> n \<Longrightarrow>
      \<exists>b1. db2_grow b n = Inr b1 \<and> db2_data_at b1 (db2_size b) n = (db2_size b, n) \<and>
        db2_ok (db2_shrink (db2_store b1 (db2_size b) d) (n - length d)) \<and>
        db2_contents (db2_shrink (db2_store b1 (db2_size b) d) (n - length d)) = db2_contents b @ d \<and>
        db2_max_size (db2_shrink (db2_store b1 (db2_size b) d) (n - length d)) = db2_max_size b \<and>
        db2_limit (db2_shrink (db2_store b1 (db2_size b) d) (n - length d)) = db2_limit b"
    by (rule db2_grow_law [OF ok])
  show "db2_limit b < db2_size b + n \<Longrightarrow> db2_grow b n = Inl Length_error"
    using ok dsb2.overflow_law dvb2.overflow_law by (cases b) simp_all
  show "db2_size b \<le> db2_limit b \<and> db2_limit b \<le> db2_max_size b"
    using ok dsb2.limit_law dvb2.limit_law by (cases b) simp_all
  show "n \<le> db2_size b \<Longrightarrow> db2_ok (db2_consume b n) \<and> db2_contents (db2_consume b n) = drop n (db2_contents b) \<and>
      db2_max_size (db2_consume b n) = db2_max_size b \<and> db2_limit (db2_consume b n) = db2_limit b"
    using ok dsb2.consume_law dvb2.consume_law by (cases b) simp_all
qed

end
