(* ===== verification/ReadDynbuf.thy ===== *)
theory ReadDynbuf
  imports AsyncOps DynamicBufferLaws
begin

text \<open>
  \<open>read\<close> and \<open>async_read\<close> into a dynamic buffer (\<open>impl/read.hpp\<close>): the loops that prepare, read,
  commit (version one) and grow, read, shrink (version two), and the asynchronous
  \<open>read_dynbuf_v1_op\<close> and \<open>read_dynbuf_v2_op\<close>.
\<close>

section \<open>Synchronous\<close>

text \<open>The number of bytes the next round asks for.\<close>

definition bytes_to_read :: "nat \<Rightarrow> nat \<Rightarrow> nat \<Rightarrow> nat \<Rightarrow> nat" where
  "bytes_to_read capacity sz buf_max_size max_size =
     min (max 512 (size_sub capacity sz)) (min max_size (size_sub buf_max_size sz))"

definition db_available :: "dynbuf \<Rightarrow> nat \<Rightarrow> nat" where
  "db_available b max_size = bytes_to_read (db_capacity b) (db_size b) (db_max_size b) max_size"

definition db2_available :: "dynbuf2 \<Rightarrow> nat \<Rightarrow> nat" where
  "db2_available b max_size = bytes_to_read (db2_capacity b) (db2_size b) (db2_max_size b) max_size"

partial_function (option) read_v1_loop ::
  "'s reader \<Rightarrow> completion_condition \<Rightarrow> dynbuf \<Rightarrow> error_code \<Rightarrow> 's \<Rightarrow> nat \<Rightarrow> nat \<Rightarrow>
   ((exn + nat \<times> error_code) \<times> 's \<times> dynbuf) option"
where
  "read_v1_loop read_some cc b ec s total_transferred bytes_available =
     (if bytes_available > 0 then
        (case db_prepare b bytes_available of (b1, prepared) \<Rightarrow>
          (case prepared of
             Inl e \<Rightarrow> Some (Inl e, s, b1)
           | Inr (off, len) \<Rightarrow>
               (case read_some s [len] of (s1, data, ec1) \<Rightarrow>
                 (let b2 = db_commit (db_store b1 off data) (length data);
                      total1 = total_transferred + length data;
                      max_size = adapt_completion_condition_result (cc ec1 total1)
                  in read_v1_loop read_some cc b2 ec1 s1 total1 (db_available b2 max_size)))))
      else Some (Inr (total_transferred, ec), s, b))"

declare read_v1_loop.simps [code]

definition read_v1 ::
  "'s reader \<Rightarrow> 's \<Rightarrow> dynbuf \<Rightarrow> completion_condition \<Rightarrow> ((exn + nat \<times> error_code) \<times> 's \<times> dynbuf) option"
where
  "read_v1 read_some s b cc =
     (let max_size = adapt_completion_condition_result (cc Ok_code 0)
      in read_v1_loop read_some cc b Ok_code s 0 (db_available b max_size))"

partial_function (option) read_v2_loop ::
  "'s reader \<Rightarrow> completion_condition \<Rightarrow> dynbuf2 \<Rightarrow> error_code \<Rightarrow> 's \<Rightarrow> nat \<Rightarrow> nat \<Rightarrow>
   ((exn + nat \<times> error_code) \<times> 's \<times> dynbuf2) option"
where
  "read_v2_loop read_some cc b ec s total_transferred bytes_available =
     (if bytes_available > 0 then
        (let pos = db2_size b in
         (case db2_grow b bytes_available of
            Inl e \<Rightarrow> Some (Inl e, s, b)
          | Inr b1 \<Rightarrow>
              (case db2_data_at b1 pos bytes_available of (off, len) \<Rightarrow>
                (case read_some s [len] of (s1, data, ec1) \<Rightarrow>
                  (let b2 = db2_shrink (db2_store b1 off data) (size_sub bytes_available (length data));
                       total1 = total_transferred + length data;
                       max_size = adapt_completion_condition_result (cc ec1 total1)
                   in read_v2_loop read_some cc b2 ec1 s1 total1 (db2_available b2 max_size))))))
      else Some (Inr (total_transferred, ec), s, b))"

declare read_v2_loop.simps [code]

definition read_v2 ::
  "'s reader \<Rightarrow> 's \<Rightarrow> dynbuf2 \<Rightarrow> completion_condition \<Rightarrow> ((exn + nat \<times> error_code) \<times> 's \<times> dynbuf2) option"
where
  "read_v2 read_some s b cc =
     (let max_size = adapt_completion_condition_result (cc Ok_code 0)
      in read_v2_loop read_some cc b Ok_code s 0 (db2_available b max_size))"

text \<open>The throwing overloads, with their default condition \<open>transfer_all\<close> or a given one.\<close>

definition throwing :: "((exn + nat \<times> error_code) \<times> 's \<times> 'b) option \<Rightarrow> ((exn + nat) \<times> 's \<times> 'b) option" where
  "throwing res = (case res of None \<Rightarrow> None
     | Some (Inl e, s, b) \<Rightarrow> Some (Inl e, s, b)
     | Some (Inr (n, ec), s, b) \<Rightarrow> Some (throw_error ec n, s, b))"

definition read_v1_throw where
  "read_v1_throw read_some s b cc = throwing (read_v1 read_some s b cc)"

definition read_v2_throw where
  "read_v2_throw read_some s b cc = throwing (read_v2 read_some s b cc)"

section \<open>Asynchronous\<close>

text \<open>
  \<open>start_\<close>, \<open>total_transferred_\<close> and, for version two, \<open>bytes_available_\<close>. A call issues a read into a
  region, invokes the handler, or lets the exception of \<open>prepare\<close> or \<open>grow\<close> escape.
\<close>

record read_dynbuf_v1_op =
  v1_buffers :: dynbuf
  v1_start :: int
  v1_total :: nat
  v1_cancel :: cancellation_state

datatype dyn_action = Dyn_issue region | Dyn_invoke error_code nat | Dyn_throw exn

definition v1_issue :: "read_dynbuf_v1_op \<Rightarrow> nat \<Rightarrow> read_dynbuf_v1_op \<times> dyn_action" where
  "v1_issue op bytes_available =
     (case db_prepare (v1_buffers op) bytes_available of
        (b1, Inl e) \<Rightarrow> (op\<lparr>v1_buffers := b1\<rparr>, Dyn_throw e)
      | (b1, Inr r) \<Rightarrow> (op\<lparr>v1_buffers := b1\<rparr>, Dyn_issue r))"

definition read_dynbuf_v1_call ::
  "completion_condition \<Rightarrow> read_dynbuf_v1_op \<Rightarrow> error_code \<Rightarrow> nat \<Rightarrow> int \<Rightarrow> read_dynbuf_v1_op \<times> dyn_action"
where
  "read_dynbuf_v1_call cc op0 ec bytes_transferred start =
     (let op = op0\<lparr>v1_start := start\<rparr> in
      if start = 1 then
        (let max_size = check_for_completion cc ec (v1_total op);
             bytes_available = db_available (v1_buffers op) max_size
         in v1_issue op bytes_available)
      else
        (let op = op\<lparr>v1_total := v1_total op + bytes_transferred,
                     v1_buffers := db_commit (v1_buffers op) bytes_transferred\<rparr>;
             max_size = check_for_completion cc ec (v1_total op);
             bytes_available = db_available (v1_buffers op) max_size
         in if (\<not> failed ec \<and> bytes_transferred = 0) \<or> bytes_available = 0
            then (op, Dyn_invoke ec (v1_total op))
            else if cs_cancelled (v1_cancel op) \<noteq> ct_none
            then (op, Dyn_invoke Operation_aborted (v1_total op))
            else v1_issue op bytes_available))"

record read_dynbuf_v2_op =
  v2_buffers :: dynbuf2
  v2_start :: int
  v2_total :: nat
  v2_bytes_available :: nat
  v2_cancel :: cancellation_state

definition v2_issue :: "read_dynbuf_v2_op \<Rightarrow> read_dynbuf_v2_op \<times> dyn_action" where
  "v2_issue op =
     (let pos = db2_size (v2_buffers op) in
      (case db2_grow (v2_buffers op) (v2_bytes_available op) of
         Inl e \<Rightarrow> (op, Dyn_throw e)
       | Inr b1 \<Rightarrow> (op\<lparr>v2_buffers := b1\<rparr>, Dyn_issue (db2_data_at b1 pos (v2_bytes_available op)))))"

definition read_dynbuf_v2_call ::
  "completion_condition \<Rightarrow> read_dynbuf_v2_op \<Rightarrow> error_code \<Rightarrow> nat \<Rightarrow> int \<Rightarrow> read_dynbuf_v2_op \<times> dyn_action"
where
  "read_dynbuf_v2_call cc op0 ec bytes_transferred start =
     (let op = op0\<lparr>v2_start := start\<rparr> in
      if start = 1 then
        (let max_size = check_for_completion cc ec (v2_total op)
         in v2_issue (op\<lparr>v2_bytes_available := db2_available (v2_buffers op) max_size\<rparr>))
      else
        (let op = op\<lparr>v2_total := v2_total op + bytes_transferred,
                     v2_buffers := db2_shrink (v2_buffers op)
                       (size_sub (v2_bytes_available op) bytes_transferred)\<rparr>;
             max_size = check_for_completion cc ec (v2_total op);
             op = op\<lparr>v2_bytes_available := db2_available (v2_buffers op) max_size\<rparr>
         in if (\<not> failed ec \<and> bytes_transferred = 0) \<or> v2_bytes_available op = 0
            then (op, Dyn_invoke ec (v2_total op))
            else if cs_cancelled (v2_cancel op) \<noteq> ct_none
            then (op, Dyn_invoke Operation_aborted (v2_total op))
            else v2_issue op))"

text \<open>Running an operation whose region is outstanding, without cancellation.\<close>

partial_function (option) run_v1 ::
  "'s reader \<Rightarrow> completion_condition \<Rightarrow> read_dynbuf_v1_op \<Rightarrow> dyn_action \<Rightarrow> 's \<Rightarrow>
   ((exn + nat \<times> error_code) \<times> 's \<times> dynbuf) option"
where
  "run_v1 read_some cc op act s =
     (case act of
        Dyn_invoke ec n \<Rightarrow> Some (Inr (n, ec), s, v1_buffers op)
      | Dyn_throw e \<Rightarrow> Some (Inl e, s, v1_buffers op)
      | Dyn_issue r \<Rightarrow>
          (case read_some s [snd r] of (s1, data, ec) \<Rightarrow>
            (case read_dynbuf_v1_call cc (op\<lparr>v1_buffers := db_store (v1_buffers op) (fst r) data\<rparr>)
                    ec (length data) 0 of (op1, act1) \<Rightarrow>
               run_v1 read_some cc op1 act1 s1)))"

declare run_v1.simps [code]

definition async_read_v1 ::
  "'s reader \<Rightarrow> completion_condition \<Rightarrow> 's \<Rightarrow> dynbuf \<Rightarrow> ((exn + nat \<times> error_code) \<times> 's \<times> dynbuf) option"
where
  "async_read_v1 read_some cc s b =
     (case read_dynbuf_v1_call cc \<lparr>v1_buffers = b, v1_start = 0, v1_total = 0, v1_cancel = None\<rparr> Ok_code 0 1 of
        (op, act) \<Rightarrow> run_v1 read_some cc op act s)"

partial_function (option) run_v2 ::
  "'s reader \<Rightarrow> completion_condition \<Rightarrow> read_dynbuf_v2_op \<Rightarrow> dyn_action \<Rightarrow> 's \<Rightarrow>
   ((exn + nat \<times> error_code) \<times> 's \<times> dynbuf2) option"
where
  "run_v2 read_some cc op act s =
     (case act of
        Dyn_invoke ec n \<Rightarrow> Some (Inr (n, ec), s, v2_buffers op)
      | Dyn_throw e \<Rightarrow> Some (Inl e, s, v2_buffers op)
      | Dyn_issue r \<Rightarrow>
          (case read_some s [snd r] of (s1, data, ec) \<Rightarrow>
            (case read_dynbuf_v2_call cc (op\<lparr>v2_buffers := db2_store (v2_buffers op) (fst r) data\<rparr>)
                    ec (length data) 0 of (op1, act1) \<Rightarrow>
               run_v2 read_some cc op1 act1 s1)))"

declare run_v2.simps [code]

definition async_read_v2 ::
  "'s reader \<Rightarrow> completion_condition \<Rightarrow> 's \<Rightarrow> dynbuf2 \<Rightarrow> ((exn + nat \<times> error_code) \<times> 's \<times> dynbuf2) option"
where
  "async_read_v2 read_some cc s b =
     (case read_dynbuf_v2_call cc
             \<lparr>v2_buffers = b, v2_start = 0, v2_total = 0, v2_bytes_available = 0, v2_cancel = None\<rparr> Ok_code 0 1 of
        (op, act) \<Rightarrow> run_v2 read_some cc op act s)"

end
