(* ===== verification/Search.thy ===== *)
theory Search
  imports Prelude "HOL-Library.Sublist"
begin

text \<open>
  The searches of \<open>read_until\<close>: for a delimiter character, for a delimiter string with
  \<open>detail::partial_search\<close> (both of \<open>impl/read_until.hpp\<close>), for a regular expression, and with a
  match condition. Each looks at the buffered bytes from a position on and either finds the end
  of the match or says where to resume when more bytes have arrived. The locale \<open>scanner\<close> is the
  contract: what is found is the end of the first match, whatever was read in which pieces.
\<close>

section \<open>partial\_search\<close>

datatype ps_result = Ps_full | Ps_partial | Ps_none

text \<open>The inner loop, from \<open>test_iter1\<close> and \<open>test_iter2\<close>; \<open>moved\<close> is \<open>test_iter2 != first2\<close>.\<close>

fun ps_match :: "byte list \<Rightarrow> byte list \<Rightarrow> bool \<Rightarrow> ps_result" where
  "ps_match xs [] moved = Ps_full"
| "ps_match [] (p # ps) moved = (if moved then Ps_partial else Ps_none)"
| "ps_match (x # xs) (p # ps) moved = (if x \<noteq> p then Ps_none else ps_match xs ps True)"

text \<open>The outer loop; the result is the offset of \<open>iter1\<close> from \<open>first1\<close>.\<close>

fun partial_search_from :: "byte list \<Rightarrow> byte list \<Rightarrow> nat \<Rightarrow> nat \<times> bool" where
  "partial_search_from [] pat i = (i, False)"
| "partial_search_from (x # xs) pat i =
     (case ps_match (x # xs) pat False of
        Ps_full \<Rightarrow> (i, True)
      | Ps_partial \<Rightarrow> (i, False)
      | Ps_none \<Rightarrow> partial_search_from xs pat (i + 1))"

definition partial_search :: "byte list \<Rightarrow> byte list \<Rightarrow> nat \<times> bool" where
  "partial_search xs pat = partial_search_from xs pat 0"

section \<open>The four searches\<close>

text \<open>
  The buffered bytes and the search position; \<open>Found n\<close> is the number of bytes up to and including
  the match, \<open>Resume p\<close> the new search position.
\<close>

datatype scan_result = Found nat | Resume nat

type_synonym scan = "byte list \<Rightarrow> nat \<Rightarrow> scan_result"

fun find_index :: "byte \<Rightarrow> byte list \<Rightarrow> nat option" where
  "find_index delim [] = None"
| "find_index delim (x # xs) = (if x = delim then Some 0 else map_option Suc (find_index delim xs))"

definition char_scan :: "byte \<Rightarrow> scan" where
  "char_scan delim bytes search_position =
     (case find_index delim (drop search_position bytes) of
        Some i \<Rightarrow> Found (search_position + i + 1)
      | None \<Rightarrow> Resume (length bytes))"

definition string_scan :: "byte list \<Rightarrow> scan" where
  "string_scan delim bytes search_position =
     (case partial_search (drop search_position bytes) delim of (i, found) \<Rightarrow>
       (if search_position + i \<noteq> length bytes then
          (if found then Found (search_position + i + length delim)
           else Resume (search_position + i))
        else Resume (length bytes)))"

text \<open>
  A regular expression search is code of Boost: it is the parameter \<open>regex_search\<close>, which returns
  whether the match is complete, its start and its end. A match condition is a parameter as
  well: it returns an offset and whether it has matched.
\<close>

definition regex_scan :: "(byte list \<Rightarrow> (bool \<times> nat \<times> nat) option) \<Rightarrow> scan" where
  "regex_scan regex_search bytes search_position =
     (case regex_search (drop search_position bytes) of
        Some (matched, first, second) \<Rightarrow>
          (if matched then Found (search_position + second) else Resume (search_position + first))
      | None \<Rightarrow> Resume (length bytes))"

definition match_scan :: "(byte list \<Rightarrow> nat \<times> bool) \<Rightarrow> scan" where
  "match_scan match_condition bytes search_position =
     (case match_condition (drop search_position bytes) of (i, found) \<Rightarrow>
       (if found then Found (search_position + i)
        else if search_position + i \<noteq> length bytes then Resume (search_position + i)
        else Resume (length bytes)))"

section \<open>The contract\<close>

text \<open>
  \<open>first_end bytes\<close> is the end of the first match in the bytes; more bytes do not change it. A
  search position is valid for some bytes when a search from it misses nothing.
\<close>

locale scanner =
  fixes scan :: scan
    and first_end :: "byte list \<Rightarrow> nat option"
    and valid :: "byte list \<Rightarrow> nat \<Rightarrow> bool"
  assumes valid_start: "valid bytes 0"
    and valid_bound: "valid bytes p \<Longrightarrow> p \<le> length bytes"
    and found_law: "valid bytes p \<Longrightarrow> scan bytes p = Found n \<Longrightarrow> first_end bytes = Some n"
    and resume_law: "valid bytes p \<Longrightarrow> scan bytes p = Resume p' \<Longrightarrow>
      first_end bytes = None \<and> valid (bytes @ more) p'"
    and stable: "first_end bytes = Some n \<Longrightarrow> n \<le> length bytes \<and> first_end (bytes @ more) = Some n"
begin

text \<open>Searching again from the start would give the same answer.\<close>

lemma scan_from_start:
  assumes "valid bytes p" "scan bytes p = Found n"
  shows "scan bytes 0 = Found n"
proof (cases "scan bytes 0")
  case (Found n')
  then show ?thesis using found_law [OF valid_start Found] found_law [OF assms] by simp
next
  case (Resume p')
  then show ?thesis using resume_law [OF valid_start Resume] found_law [OF assms] by simp
qed

lemma no_earlier_match:
  assumes "valid bytes p" "scan bytes p = Resume p'" "k \<le> length bytes"
  shows "first_end (take k bytes) = None"
  using stable [of "take k bytes" _ "drop k bytes"] resume_law [OF assms(1,2)] by fastforce

end

section \<open>Searching for a character\<close>

lemma find_index_None: "find_index c xs = None \<longleftrightarrow> c \<notin> set xs"
  by (induction xs) auto

lemma find_index_Some: "find_index c xs = Some i \<longleftrightarrow> i < length xs \<and> xs ! i = c \<and> c \<notin> set (take i xs)"
proof (induction xs arbitrary: i)
  case (Cons x xs)
  then show ?case by (cases i) auto
qed simp

lemma find_index_append: "find_index c xs = Some i \<Longrightarrow> find_index c (xs @ ys) = Some i"
  by (auto simp: find_index_Some nth_append)

lemma find_index_drop:
  assumes "c \<notin> set (take p xs)" "p \<le> length xs"
  shows "find_index c xs = map_option ((+) p) (find_index c (drop p xs))"
  using assms
proof (induction xs arbitrary: p)
  case (Cons x xs)
  then show ?case by (cases p) (auto simp: option.map_comp comp_def)
qed simp

definition char_end :: "byte \<Rightarrow> byte list \<Rightarrow> nat option" where
  "char_end delim bytes = map_option Suc (find_index delim bytes)"

interpretation char_search: scanner "char_scan delim" "char_end delim"
  "\<lambda>bytes p. p \<le> length bytes \<and> delim \<notin> set (take p bytes)"
proof
  fix bytes more :: "byte list" and p n p' :: nat
  show "0 \<le> length bytes \<and> delim \<notin> set (take 0 bytes)" by simp
  show "p \<le> length bytes \<and> delim \<notin> set (take p bytes) \<Longrightarrow> p \<le> length bytes" by simp
  show "char_end delim bytes = Some n \<Longrightarrow> n \<le> length bytes \<and> char_end delim (bytes @ more) = Some n"
    by (auto simp: char_end_def find_index_Some nth_append)
  assume p: "p \<le> length bytes \<and> delim \<notin> set (take p bytes)"
  note drop = find_index_drop [OF conjunct2 [OF p] conjunct1 [OF p]]
  show "char_scan delim bytes p = Found n \<Longrightarrow> char_end delim bytes = Some n"
    unfolding char_end_def drop by (auto simp: char_scan_def split: option.splits)
  show "char_scan delim bytes p = Resume p' \<Longrightarrow> char_end delim bytes = None \<and>
      p' \<le> length (bytes @ more) \<and> delim \<notin> set (take p' (bytes @ more))"
    using drop find_index_None [of delim bytes]
    by (auto simp: char_scan_def char_end_def split: option.splits)
qed

section \<open>Searching for a string\<close>

fun first_occ :: "byte list \<Rightarrow> byte list \<Rightarrow> nat option" where
  "first_occ pat [] = None"
| "first_occ pat (x # xs) = (if prefix pat (x # xs) then Some 0 else map_option Suc (first_occ pat xs))"

definition string_end :: "byte list \<Rightarrow> byte list \<Rightarrow> nat option" where
  "string_end pat bytes = map_option (\<lambda>i. i + length pat) (first_occ pat bytes)"

definition clash :: "byte list \<Rightarrow> byte list \<Rightarrow> bool" where
  "clash pat xs \<longleftrightarrow> \<not> prefix pat xs \<and> \<not> prefix xs pat"

definition string_valid :: "byte list \<Rightarrow> byte list \<Rightarrow> nat \<Rightarrow> bool" where
  "string_valid pat bytes p \<longleftrightarrow> p \<le> length bytes \<and> (\<forall>j<p. clash pat (drop j bytes))"

lemma clash_append: "clash pat xs \<Longrightarrow> clash pat (xs @ more)"
  unfolding clash_def by (metis append_prefixD prefix_def prefix_same_cases)

lemma string_valid_append: "string_valid pat bytes p \<Longrightarrow> string_valid pat (bytes @ more) p"
  by (auto simp: string_valid_def clash_append)

lemma first_occ_Some:
  "first_occ pat xs = Some i \<longleftrightarrow> i < length xs \<and> prefix pat (drop i xs) \<and> (\<forall>j<i. \<not> prefix pat (drop j xs))"
proof (induction xs arbitrary: i)
  case (Cons x xs)
  then show ?case by (cases i) (auto simp: All_less_Suc2 split: if_splits)
qed simp

lemma first_occ_None: "first_occ pat xs = None \<longleftrightarrow> (\<forall>j<length xs. \<not> prefix pat (drop j xs))"
proof (induction xs)
  case (Cons x xs)
  then show ?case by (auto simp: All_less_Suc2)
qed simp

lemma first_occ_stable:
  assumes "first_occ pat xs = Some i"
  shows "first_occ pat (xs @ more) = Some i"
proof -
  have i: "i < length xs" "prefix pat (drop i xs)" "\<forall>j<i. \<not> prefix pat (drop j xs)"
    using assms by (auto simp: first_occ_Some)
  have "\<not> prefix pat (drop j (xs @ more))" if "j < i" for j
  proof
    assume "prefix pat (drop j (xs @ more))"
    moreover have "prefix (drop j xs) (drop j (xs @ more))" by (simp add: prefix_def)
    moreover have "length pat \<le> length (drop j xs)"
      using prefix_length_le [OF i(2)] that by simp
    ultimately have "prefix pat (drop j xs)" by (meson prefix_length_prefix)
    with i(3) that show False by blast
  qed
  then show ?thesis using i by (auto simp: first_occ_Some)
qed

lemma first_occ_length: "first_occ pat xs = Some i \<Longrightarrow> i + length pat \<le> length xs"
  using prefix_length_le by (fastforce simp: first_occ_Some)

lemma ps_match_iff:
  "ps_match xs pat moved = Ps_full \<longleftrightarrow> prefix pat xs"
  "ps_match xs pat moved = Ps_partial \<longleftrightarrow> \<not> prefix pat xs \<and> prefix xs pat \<and> (moved \<or> xs \<noteq> [])"
  by (induction xs pat moved rule: ps_match.induct) auto

lemma ps_match_none: "xs \<noteq> [] \<Longrightarrow> ps_match xs pat moved = Ps_none \<longleftrightarrow> clash pat xs"
  using ps_match_iff [of xs pat moved] by (cases "ps_match xs pat moved") (auto simp: clash_def)

lemma partial_search_from_facts:
  assumes "partial_search_from xs pat k = (i, found)"
  shows "k \<le> i \<and> i \<le> k + length xs \<and> (\<forall>j<i - k. clash pat (drop j xs)) \<and>
    (if found then first_occ pat xs = Some (i - k) else first_occ pat xs = None \<or> i - k = length xs) \<and>
    (found \<longrightarrow> i < k + length xs) \<and> (\<not> found \<longrightarrow> pat \<noteq> [] \<longrightarrow> first_occ pat xs = None)"
  using assms
proof (induction xs pat k rule: partial_search_from.induct)
  case (1 pat k)
  then show ?case by auto
next
  case (2 x xs pat k)
  show ?case
  proof (cases "ps_match (x # xs) pat False")
    case Ps_full
    then have "i = k" "found" using 2 by simp_all
    moreover have "prefix pat (x # xs)" using Ps_full by (simp add: ps_match_iff)
    ultimately show ?thesis by simp
  next
    case Ps_partial
    then have ik: "i = k" "\<not> found" using 2 by simp_all
    have pre: "\<not> prefix pat (x # xs)" "prefix (x # xs) pat" using Ps_partial by (simp_all add: ps_match_iff)
    have "\<not> prefix pat (drop j (x # xs))" if "j < length (x # xs)" for j
    proof
      assume "prefix pat (drop j (x # xs))"
      then have "length pat \<le> length (x # xs) - j" using prefix_length_le by fastforce
      moreover have "length (x # xs) \<le> length pat" using prefix_length_le [OF pre(2)] .
      ultimately have "length pat = length (x # xs)" by linarith
      then have "pat = x # xs" using pre(2) by (metis append_eq_conv_conj prefix_def take_all_iff order_refl)
      with pre(1) show False by simp
    qed
    then have "first_occ pat (x # xs) = None" unfolding first_occ_None by blast
    with ik show ?thesis by (auto simp del: first_occ.simps)
  next
    case Ps_none
    then have cl: "clash pat (x # xs)" by (simp add: ps_match_none)
    have rec: "partial_search_from xs pat (k + 1) = (i, found)" using 2(2) Ps_none by simp
    note IH = 2(1) [OF Ps_none rec]
    have "clash pat (drop j (x # xs))" if "j < i - k" for j
      using IH cl that by (cases j) auto
    moreover have "\<not> prefix pat (x # xs)" using cl by (simp add: clash_def)
    moreover have "Suc (i - Suc k) = i - k" using conjunct1 [OF IH] by linarith
    ultimately show ?thesis using IH by (auto split: if_splits)
  qed
qed

lemma first_occ_drop:
  assumes "string_valid pat xs p"
  shows "first_occ pat xs = map_option ((+) p) (first_occ pat (drop p xs))"
  using assms
proof (induction xs arbitrary: p)
  case (Cons x xs)
  show ?case
  proof (cases p)
    case (Suc q)
    have "clash pat (drop (Suc j) (x # xs))" if "j < q" for j
      using Cons.prems Suc that by (simp only: string_valid_def)
    then have "string_valid pat xs q" using Cons.prems Suc by (simp add: string_valid_def)
    moreover have "clash pat (drop 0 (x # xs))" using Cons.prems Suc unfolding string_valid_def by blast
    then have "\<not> prefix pat (x # xs)" by (simp add: clash_def)
    ultimately show ?thesis using Cons.IH [of q] Suc by (simp add: option.map_comp comp_def)
  qed (simp add: option.map_ident)
qed simp

lemma string_scan_laws:
  assumes pat: "pat \<noteq> []" and p: "string_valid pat bytes p"
  shows "string_scan pat bytes p = Found n \<Longrightarrow> string_end pat bytes = Some n"
    and "string_scan pat bytes p = Resume p' \<Longrightarrow> string_end pat bytes = None \<and> string_valid pat bytes p'"
proof -
  obtain i found where ps: "partial_search_from (drop p bytes) pat 0 = (i, found)" by fastforce
  note facts = partial_search_from_facts [OF ps]
  have le: "p \<le> length bytes" using p by (simp add: string_valid_def)
  note drop = first_occ_drop [OF p]
  have cl: "clash pat (drop j bytes)" if "j < p + i" for j
  proof (cases "j < p")
    case True
    then show ?thesis using p by (simp add: string_valid_def)
  next
    case False
    then have "j - p < i - 0" using that by linarith
    then have "clash pat (drop (j - p) (drop p bytes))" using facts by blast
    then show ?thesis using False by simp
  qed
  show "string_scan pat bytes p = Found n \<Longrightarrow> string_end pat bytes = Some n"
    using facts drop ps by (auto simp: string_scan_def partial_search_def string_end_def split: if_splits)
  show "string_scan pat bytes p = Resume p' \<Longrightarrow> string_end pat bytes = None \<and> string_valid pat bytes p'"
    using facts drop ps pat cl le
    by (auto simp: string_scan_def partial_search_def string_end_def string_valid_def split: if_splits)
qed

text \<open>The delimiter of the interpretation is the string \<open>d # ds\<close>, since an empty one matches nothing definite.\<close>

interpretation string_search: scanner "string_scan (d # ds)" "string_end (d # ds)" "string_valid (d # ds)"
proof
  fix bytes more :: "byte list" and p n p' :: nat
  show "string_valid (d # ds) bytes 0" by (simp add: string_valid_def)
  show "string_valid (d # ds) bytes p \<Longrightarrow> p \<le> length bytes" by (simp add: string_valid_def)
  show "string_end (d # ds) bytes = Some n \<Longrightarrow>
      n \<le> length bytes \<and> string_end (d # ds) (bytes @ more) = Some n"
    using first_occ_length first_occ_stable by (fastforce simp: string_end_def)
  assume p: "string_valid (d # ds) bytes p"
  show "string_scan (d # ds) bytes p = Found n \<Longrightarrow> string_end (d # ds) bytes = Some n"
    by (rule string_scan_laws(1) [OF _ p]) simp
  show "string_scan (d # ds) bytes p = Resume p' \<Longrightarrow>
      string_end (d # ds) bytes = None \<and> string_valid (d # ds) (bytes @ more) p'"
    using string_scan_laws(2) [OF _ p] string_valid_append by blast
qed

section \<open>The property of the search\<close>

text \<open>\<open>partial_search\<close> agrees with the reference definition: it reports a full match exactly when the
  pattern occurs, at its first occurrence; otherwise no occurrence, in these bytes or in any
  extension of them, starts before the position it returns, so that a search resumed there
  misses nothing.\<close>

theorem partial_search_correct:
  assumes "pat \<noteq> []" "partial_search xs pat = (i, found)"
  shows "(found \<longleftrightarrow> (\<exists>j. prefix pat (drop j xs))) \<and>
    (found \<longrightarrow> prefix pat (drop i xs)) \<and> i \<le> length xs \<and>
    (\<forall>more j. j < i \<longrightarrow> \<not> prefix pat (drop j (xs @ more)))"
proof -
  note facts = partial_search_from_facts [OF assms(2) [unfolded partial_search_def]]
  have "\<not> prefix pat (drop j (xs @ more))" if "j < i" for j more
  proof -
    have "clash pat (drop j xs)" "j \<le> length xs" using facts that by auto
    then have "clash pat (drop j xs @ more)" by (simp add: clash_append)
    then show ?thesis using \<open>j \<le> length xs\<close> by (simp add: clash_def)
  qed
  moreover have "(\<exists>j. prefix pat (drop j xs)) \<longleftrightarrow> first_occ pat xs \<noteq> None"
  proof
    assume "\<exists>j. prefix pat (drop j xs)"
    then obtain j where j: "prefix pat (drop j xs)" ..
    then have "j < length xs" using assms(1) by (cases "j < length xs") auto
    with j show "first_occ pat xs \<noteq> None" unfolding first_occ_None by blast
  qed (auto simp: first_occ_Some)
  moreover have "found \<longleftrightarrow> first_occ pat xs \<noteq> None" using facts assms(1) by (cases found) auto
  moreover have "found \<longrightarrow> prefix pat (drop i xs)" using facts by (auto simp: first_occ_Some)
  moreover have "i \<le> length xs" using facts by simp
  ultimately show ?thesis by blast
qed

theorem partial_search_correct_witness:
  "partial_search [1, 13, 13, 10, 5] [13, 10] = (2, True) \<and> partial_search [1, 13] [13, 10] = (1, False) \<and>
   \<not> prefix [13, 10] (drop 0 ([1, 13] @ [10 :: byte]))"
proof -
  have a: "partial_search [1, 13, 13, 10, 5] [13, 10] = (2, True)"
    and b: "partial_search [1, 13] [13, 10] = (1, False)" by code_simp+
  have "\<not> prefix [13, 10] (drop 0 ([1, 13] @ [10 :: byte]))"
    using partial_search_correct [OF _ b] by blast
  with a b show ?thesis by blast
qed

end
