(* ===== verification/ReadUntil.thy ===== *)
theory ReadUntil
  imports ReadDynbuf Search
begin

text \<open>
  \<open>read_until\<close> and \<open>async_read_until\<close> (\<open>impl/read_until.hpp\<close>), for a character, a string, a regular
  expression and a match condition, on dynamic buffers of both versions. The eight synchronous
  overloads share one loop and the eight asynchronous operations one body, each with the search
  of \<open>Search\<close> in place of the block that looks at the buffered bytes.
\<close>

section \<open>Synchronous\<close>

partial_function (option) read_until_v1_loop ::
  "'s reader \<Rightarrow> scan \<Rightarrow> dynbuf \<Rightarrow> 's \<Rightarrow> nat \<Rightarrow> ((exn + nat \<times> error_code) \<times> 's \<times> dynbuf) option"
where
  "read_until_v1_loop read_some scan b s search_position =
     (case scan (db_bytes b) search_position of
        Found n \<Rightarrow> Some (Inr (n, Ok_code), s, b)
      | Resume search_position1 \<Rightarrow>
          (if db_size b = db_max_size b then Some (Inr (0, Not_found), s, b)
           else
             (case db_prepare b (db_available b 65536) of (b1, prepared) \<Rightarrow>
               (case prepared of
                  Inl e \<Rightarrow> Some (Inl e, s, b1)
                | Inr (off, len) \<Rightarrow>
                    (case read_some s [len] of (s1, data, ec) \<Rightarrow>
                      (let b2 = db_commit (db_store b1 off data) (length data)
                       in if failed ec then Some (Inr (0, ec), s1, b2)
                          else read_until_v1_loop read_some scan b2 s1 search_position1))))))"

declare read_until_v1_loop.simps [code]

definition read_until_char_v1 where
  "read_until_char_v1 read_some s b delim = read_until_v1_loop read_some (char_scan delim) b s 0"

definition read_until_string_v1 where
  "read_until_string_v1 read_some s b delim = read_until_v1_loop read_some (string_scan delim) b s 0"

definition read_until_expr_v1 where
  "read_until_expr_v1 read_some s b regex_search = read_until_v1_loop read_some (regex_scan regex_search) b s 0"

definition read_until_match_v1 where
  "read_until_match_v1 read_some s b match_condition =
     read_until_v1_loop read_some (match_scan match_condition) b s 0"

partial_function (option) read_until_v2_loop ::
  "'s reader \<Rightarrow> scan \<Rightarrow> dynbuf2 \<Rightarrow> 's \<Rightarrow> nat \<Rightarrow> ((exn + nat \<times> error_code) \<times> 's \<times> dynbuf2) option"
where
  "read_until_v2_loop read_some scan b s search_position =
     (case scan (db2_bytes_at b 0 (db2_size b)) search_position of
        Found n \<Rightarrow> Some (Inr (n, Ok_code), s, b)
      | Resume search_position1 \<Rightarrow>
          (if db2_size b = db2_max_size b then Some (Inr (0, Not_found), s, b)
           else
             (let bytes_to_read = db2_available b 65536; pos = db2_size b in
              (case db2_grow b bytes_to_read of
                 Inl e \<Rightarrow> Some (Inl e, s, b)
               | Inr b1 \<Rightarrow>
                   (case db2_data_at b1 pos bytes_to_read of (off, len) \<Rightarrow>
                     (case read_some s [len] of (s1, data, ec) \<Rightarrow>
                       (let b2 = db2_shrink (db2_store b1 off data) (size_sub bytes_to_read (length data))
                        in if failed ec then Some (Inr (0, ec), s1, b2)
                           else read_until_v2_loop read_some scan b2 s1 search_position1)))))))"

declare read_until_v2_loop.simps [code]

definition read_until_char_v2 where
  "read_until_char_v2 read_some s b delim = read_until_v2_loop read_some (char_scan delim) b s 0"

definition read_until_string_v2 where
  "read_until_string_v2 read_some s b delim = read_until_v2_loop read_some (string_scan delim) b s 0"

definition read_until_expr_v2 where
  "read_until_expr_v2 read_some s b regex_search = read_until_v2_loop read_some (regex_scan regex_search) b s 0"

definition read_until_match_v2 where
  "read_until_match_v2 read_some s b match_condition =
     read_until_v2_loop read_some (match_scan match_condition) b s 0"

text \<open>The throwing overloads, of each kind, and the ones on a streambuf, which wrap it in a reference.\<close>

definition read_until_char_v1_throw where
  "read_until_char_v1_throw read_some s b delim = throwing (read_until_char_v1 read_some s b delim)"

definition read_until_string_v1_throw where
  "read_until_string_v1_throw read_some s b delim = throwing (read_until_string_v1 read_some s b delim)"

definition read_until_expr_v1_throw where
  "read_until_expr_v1_throw read_some s b regex_search = throwing (read_until_expr_v1 read_some s b regex_search)"

definition read_until_match_v1_throw where
  "read_until_match_v1_throw read_some s b match_condition =
     throwing (read_until_match_v1 read_some s b match_condition)"

definition read_until_char_v2_throw where
  "read_until_char_v2_throw read_some s b delim = throwing (read_until_char_v2 read_some s b delim)"

definition read_until_string_v2_throw where
  "read_until_string_v2_throw read_some s b delim = throwing (read_until_string_v2 read_some s b delim)"

definition read_until_expr_v2_throw where
  "read_until_expr_v2_throw read_some s b regex_search = throwing (read_until_expr_v2 read_some s b regex_search)"

definition read_until_match_v2_throw where
  "read_until_match_v2_throw read_some s b match_condition =
     throwing (read_until_match_v2 read_some s b match_condition)"

definition streambuf_read_until_char where
  "streambuf_read_until_char read_some s b delim = read_until_char_v1 read_some s (Dyn_streambuf b) delim"

definition streambuf_read_until_string where
  "streambuf_read_until_string read_some s b delim = read_until_string_v1 read_some s (Dyn_streambuf b) delim"

definition streambuf_read_until_expr where
  "streambuf_read_until_expr read_some s b regex_search =
     read_until_expr_v1 read_some s (Dyn_streambuf b) regex_search"

definition streambuf_read_until_match where
  "streambuf_read_until_match read_some s b match_condition =
     read_until_match_v1 read_some s (Dyn_streambuf b) match_condition"

section \<open>Asynchronous\<close>

text \<open>
  The members of an operation; \<open>search_position_\<close> is \<open>size_max\<close> when the buffer is full without a
  match, and holds the result when there is one.
\<close>

record read_until_op_v1 =
  ru1_buffers :: dynbuf
  ru1_start :: int
  ru1_search_position :: nat
  ru1_cancel :: cancellation_state

text \<open>The block that searches, and the number of bytes it decides to read.\<close>

definition ru_search :: "scan \<Rightarrow> byte list \<Rightarrow> nat \<Rightarrow> bool \<Rightarrow> nat \<Rightarrow> nat \<times> nat" where
  "ru_search scan bytes search_position full available =
     (case scan bytes search_position of
        Found n \<Rightarrow> (n, 0)
      | Resume p \<Rightarrow> if full then (size_max, 0) else (p, available))"

definition ru_finish :: "nat \<Rightarrow> error_code \<Rightarrow> dyn_action" where
  "ru_finish search_position ec =
     Dyn_invoke (if search_position = size_max then Not_found else ec)
       (if failed ec \<or> search_position = size_max then 0 else search_position)"

definition ru1_round :: "scan \<Rightarrow> read_until_op_v1 \<Rightarrow> error_code \<Rightarrow> int \<Rightarrow> read_until_op_v1 \<times> dyn_action" where
  "ru1_round scan op ec start =
     (let (search_position, bytes_to_read) =
            ru_search scan (db_bytes (ru1_buffers op)) (ru1_search_position op)
              (db_size (ru1_buffers op) = db_max_size (ru1_buffers op)) (db_available (ru1_buffers op) 65536);
          op = op\<lparr>ru1_search_position := search_position\<rparr>
      in if start = 0 \<and> bytes_to_read = 0 then (op, ru_finish search_position ec)
         else (case db_prepare (ru1_buffers op) bytes_to_read of
                 (b1, Inl e) \<Rightarrow> (op\<lparr>ru1_buffers := b1\<rparr>, Dyn_throw e)
               | (b1, Inr r) \<Rightarrow> (op\<lparr>ru1_buffers := b1\<rparr>, Dyn_issue r)))"

definition read_until_call_v1 ::
  "scan \<Rightarrow> read_until_op_v1 \<Rightarrow> error_code \<Rightarrow> nat \<Rightarrow> int \<Rightarrow> read_until_op_v1 \<times> dyn_action"
where
  "read_until_call_v1 scan op0 ec bytes_transferred start =
     (let op = op0\<lparr>ru1_start := start\<rparr> in
      if start = 1 then ru1_round scan op ec start
      else
        (let op = op\<lparr>ru1_buffers := db_commit (ru1_buffers op) bytes_transferred\<rparr>
         in if failed ec \<or> bytes_transferred = 0 then (op, ru_finish (ru1_search_position op) ec)
            else if cs_cancelled (ru1_cancel op) \<noteq> ct_none
            then (op, ru_finish (ru1_search_position op) Operation_aborted)
            else ru1_round scan op ec start))"

definition read_until_delim_call_v1 where
  "read_until_delim_call_v1 delim = read_until_call_v1 (char_scan delim)"

definition read_until_delim_string_call_v1 where
  "read_until_delim_string_call_v1 delim = read_until_call_v1 (string_scan delim)"

definition read_until_expr_call_v1 where
  "read_until_expr_call_v1 regex_search = read_until_call_v1 (regex_scan regex_search)"

definition read_until_match_call_v1 where
  "read_until_match_call_v1 match_condition = read_until_call_v1 (match_scan match_condition)"

record read_until_op_v2 =
  ru2_buffers :: dynbuf2
  ru2_start :: int
  ru2_search_position :: nat
  ru2_bytes_to_read :: nat
  ru2_cancel :: cancellation_state

definition ru2_round :: "scan \<Rightarrow> read_until_op_v2 \<Rightarrow> error_code \<Rightarrow> int \<Rightarrow> read_until_op_v2 \<times> dyn_action" where
  "ru2_round scan op ec start =
     (let (search_position, bytes_to_read) =
            ru_search scan (db2_bytes_at (ru2_buffers op) 0 (db2_size (ru2_buffers op))) (ru2_search_position op)
              (db2_size (ru2_buffers op) = db2_max_size (ru2_buffers op)) (db2_available (ru2_buffers op) 65536);
          op = op\<lparr>ru2_search_position := search_position, ru2_bytes_to_read := bytes_to_read\<rparr>
      in if start = 0 \<and> bytes_to_read = 0 then (op, ru_finish search_position ec)
         else (let pos = db2_size (ru2_buffers op) in
               (case db2_grow (ru2_buffers op) bytes_to_read of
                  Inl e \<Rightarrow> (op, Dyn_throw e)
                | Inr b1 \<Rightarrow> (op\<lparr>ru2_buffers := b1\<rparr>, Dyn_issue (db2_data_at b1 pos bytes_to_read)))))"

definition read_until_call_v2 ::
  "scan \<Rightarrow> read_until_op_v2 \<Rightarrow> error_code \<Rightarrow> nat \<Rightarrow> int \<Rightarrow> read_until_op_v2 \<times> dyn_action"
where
  "read_until_call_v2 scan op0 ec bytes_transferred start =
     (let op = op0\<lparr>ru2_start := start\<rparr> in
      if start = 1 then ru2_round scan op ec start
      else
        (let op = op\<lparr>ru2_buffers := db2_shrink (ru2_buffers op)
                       (size_sub (ru2_bytes_to_read op) bytes_transferred)\<rparr>
         in if failed ec \<or> bytes_transferred = 0 then (op, ru_finish (ru2_search_position op) ec)
            else if cs_cancelled (ru2_cancel op) \<noteq> ct_none
            then (op, ru_finish (ru2_search_position op) Operation_aborted)
            else ru2_round scan op ec start))"

definition read_until_delim_call_v2 where
  "read_until_delim_call_v2 delim = read_until_call_v2 (char_scan delim)"

definition read_until_delim_string_call_v2 where
  "read_until_delim_string_call_v2 delim = read_until_call_v2 (string_scan delim)"

definition read_until_expr_call_v2 where
  "read_until_expr_call_v2 regex_search = read_until_call_v2 (regex_scan regex_search)"

definition read_until_match_call_v2 where
  "read_until_match_call_v2 match_condition = read_until_call_v2 (match_scan match_condition)"

text \<open>Running an operation of the first version, without cancellation.\<close>

partial_function (option) run_ru1 ::
  "'s reader \<Rightarrow> scan \<Rightarrow> read_until_op_v1 \<Rightarrow> dyn_action \<Rightarrow> 's \<Rightarrow>
   ((exn + nat \<times> error_code) \<times> 's \<times> dynbuf) option"
where
  "run_ru1 read_some scan op act s =
     (case act of
        Dyn_invoke ec n \<Rightarrow> Some (Inr (n, ec), s, ru1_buffers op)
      | Dyn_throw e \<Rightarrow> Some (Inl e, s, ru1_buffers op)
      | Dyn_issue r \<Rightarrow>
          (case read_some s [snd r] of (s1, data, ec) \<Rightarrow>
            (case read_until_call_v1 scan (op\<lparr>ru1_buffers := db_store (ru1_buffers op) (fst r) data\<rparr>)
                    ec (length data) 0 of (op1, act1) \<Rightarrow>
               run_ru1 read_some scan op1 act1 s1)))"

declare run_ru1.simps [code]

definition async_read_until_v1 where
  "async_read_until_v1 read_some scan s b =
     (case read_until_call_v1 scan
             \<lparr>ru1_buffers = b, ru1_start = 0, ru1_search_position = 0, ru1_cancel = None\<rparr> Ok_code 0 1 of
        (op, act) \<Rightarrow> run_ru1 read_some scan op act s)"

partial_function (option) run_ru2 ::
  "'s reader \<Rightarrow> scan \<Rightarrow> read_until_op_v2 \<Rightarrow> dyn_action \<Rightarrow> 's \<Rightarrow>
   ((exn + nat \<times> error_code) \<times> 's \<times> dynbuf2) option"
where
  "run_ru2 read_some scan op act s =
     (case act of
        Dyn_invoke ec n \<Rightarrow> Some (Inr (n, ec), s, ru2_buffers op)
      | Dyn_throw e \<Rightarrow> Some (Inl e, s, ru2_buffers op)
      | Dyn_issue r \<Rightarrow>
          (case read_some s [snd r] of (s1, data, ec) \<Rightarrow>
            (case read_until_call_v2 scan (op\<lparr>ru2_buffers := db2_store (ru2_buffers op) (fst r) data\<rparr>)
                    ec (length data) 0 of (op1, act1) \<Rightarrow>
               run_ru2 read_some scan op1 act1 s1)))"

declare run_ru2.simps [code]

definition async_read_until_v2 where
  "async_read_until_v2 read_some scan s b =
     (case read_until_call_v2 scan
             \<lparr>ru2_buffers = b, ru2_start = 0, ru2_search_position = 0, ru2_bytes_to_read = 0,
              ru2_cancel = None\<rparr> Ok_code 0 1 of
        (op, act) \<Rightarrow> run_ru2 read_some scan op act s)"

end
