(* ===== verification/IoProps.thy ===== *)
theory IoProps
  imports AsyncOps
begin

text \<open>
  The properties of the composed reads and writes, and the streams on which they are exercised.
\<close>

section \<open>Concrete streams\<close>

text \<open>
  A stream that delivers at most two bytes at a time from a source and then the end of file, and
  one that accepts at most three bytes at a time.
\<close>

definition chunk_reader :: "(byte list \<times> byte list) reader" where
  "chunk_reader s sizes = (case s of (hist, src) \<Rightarrow>
     (let data = take (min 2 (sum_list sizes)) src
      in ((hist @ data, drop (length data) src), data, if src = [] then Eof else Ok_code)))"

definition chunk_writer :: "byte list writer" where
  "chunk_writer s bss = (let data = take 3 (concat bss) in (s @ data, length data, Ok_code))"

lemma chunk_reader_conforming: "conforming_reader fst chunk_reader"
  by (auto simp: conforming_reader_def chunk_reader_def Let_def split: prod.splits)

lemma chunk_reader_progressing: "progressing_reader chunk_reader"
proof -
  have "min 2 x \<noteq> 0" if "0 < x" for x :: nat using that by simp
  then show ?thesis
    by (auto simp: progressing_reader_def chunk_reader_def Let_def failed_def simp del: sum_list_eq_0_iff
        split: prod.splits)
qed

lemma chunk_writer_conforming: "conforming_writer id chunk_writer"
  by (auto simp: conforming_writer_def chunk_writer_def Let_def min_def)

lemma chunk_writer_progressing: "progressing_writer chunk_writer"
  by (auto simp: progressing_writer_def chunk_writer_def Let_def)

definition demo_bufs :: bufarg where
  "demo_bufs = Seq 4 [\<lparr>buf_data = 10, buf_size = 3\<rparr>, \<lparr>buf_data = 20, buf_size = 2\<rparr>]"

section \<open>Reads\<close>

lemma read_done_new:
  assumes "arg_ok buffers"
  shows "read_done out cc (con_new buffers) s m (n, ec, s', m') \<longleftrightarrow>
    (\<exists>data. out s' = out s @ data \<and> length data = n \<and> n \<le> buffer_size (arg_bufs buffers) \<and>
       m' = put_bytes m (addrs (arg_bufs buffers)) data \<and>
       (n = buffer_size (arg_bufs buffers) \<or> check_for_completion cc ec n = 0)) \<and>
    (\<forall>k. (\<forall>e i. check_for_completion cc e i \<le> k - i) \<longrightarrow> n \<le> k)"
  using con_new_facts [OF assms] by (auto simp: read_done_def buffer_size_eq)

lemma exactly_zero: "check_for_completion (transfer_exactly k) ec n = 0 \<longleftrightarrow> failed ec \<or> k \<le> n"
  by (auto simp: min_def)

lemma get_put_prefix:
  assumes "distinct ts" "length vs \<le> length ts"
  shows "get_bytes (put_bytes m ts vs) (take (length vs) ts) = vs"
  using get_put_bytes [of "take (length vs) ts" vs m] assms by (simp flip: put_bytes_take)

text \<open>C20: a synchronous \<open>read\<close> that returns has filled its buffers from the front, across buffer
  boundaries and in order, with exactly the bytes the stream delivered; the count it returns is
  their number, never more than the buffers hold; and it stopped because the buffers were full or
  because the completion condition asked for no more.\<close>

theorem read_correct:
  assumes "conforming_reader out read_some" "arg_ok buffers"
    and "read_buffer_sequence read_some s m buffers cc = Some (n, ec, s', m')"
  shows "n \<le> buffer_size (arg_bufs buffers) \<and>
    (\<exists>data. length data = n \<and> out s' = out s @ data \<and> m' = put_bytes m (addrs (arg_bufs buffers)) data \<and>
       (distinct (addrs (arg_bufs buffers)) \<longrightarrow> get_bytes m' (take n (addrs (arg_bufs buffers))) = data)) \<and>
    (n = buffer_size (arg_bufs buffers) \<or> check_for_completion cc ec n = 0)"
proof -
  have "read_done out cc (con_new buffers) s m (n, ec, s', m')"
    using read_loop_done [OF assms(1)] assms(3) con_new_facts(1) [OF assms(2)]
    unfolding read_buffer_sequence_def by blast
  then obtain data where data: "out s' = out s @ data" "length data = n" "n \<le> buffer_size (arg_bufs buffers)"
    "m' = put_bytes m (addrs (arg_bufs buffers)) data"
    "n = buffer_size (arg_bufs buffers) \<or> check_for_completion cc ec n = 0"
    unfolding read_done_new [OF assms(2)] by blast
  moreover have "distinct (addrs (arg_bufs buffers)) \<longrightarrow> get_bytes m' (take n (addrs (arg_bufs buffers))) = data"
    using get_put_prefix [of _ data m] data by (auto simp: buffer_size_eq)
  ultimately show ?thesis by blast
qed

definition demo_cond :: completion_condition where
  "demo_cond ec n = Max_size (if failed ec then 0 else 4 - n div 2)"

lemma demo_read:
  "map_option (\<lambda>(n, ec, s', m'). (n, ec, s')) (read_buffer_sequence chunk_reader ([], [1, 2, 3, 4, 5, 6])
     (\<lambda>_. 0) demo_bufs demo_cond) = Some (5, Ok_code, ([1, 2, 3, 4, 5], [6]))"
  by code_simp

lemma demo_arg: "arg_ok demo_bufs" "buffer_size (arg_bufs demo_bufs) = 5"
  "addrs (arg_bufs demo_bufs) = [10, 11, 12, 20, 21]"
  by code_simp+

theorem read_correct_witness:
  "\<exists>s' m'. read_buffer_sequence chunk_reader ([], [1, 2, 3, 4, 5, 6]) (\<lambda>_. 0) demo_bufs demo_cond =
     Some (5, Ok_code, s', m') \<and> get_bytes m' [10, 11, 12, 20, 21] = [1, 2, 3, 4, 5]"
proof -
  obtain m' where m': "read_buffer_sequence chunk_reader ([], [1, 2, 3, 4, 5, 6]) (\<lambda>_. 0) demo_bufs demo_cond =
      Some (5, Ok_code, ([1, 2, 3, 4, 5], [6]), m')"
    using demo_read by auto
  from read_correct [OF chunk_reader_conforming demo_arg(1) m'] m' show ?thesis
    by (auto simp: demo_arg)
qed

text \<open>over a stream that delivers something or fails whenever there is room, \<open>read\<close> always
  returns. Without an error, \<open>transfer_all\<close> has filled the buffers, \<open>transfer_at_least\<close> has the
  minimum (or all there was room for), and \<open>transfer_exactly\<close> exactly the size asked for, which it
  never exceeds.\<close>

theorem read_completes:
  assumes "conforming_reader out read_some" "progressing_reader read_some" "arg_ok buffers"
  shows "(\<exists>n ec s' m'. read_buffer_sequence read_some s m buffers transfer_all = Some (n, ec, s', m') \<and>
      (\<not> failed ec \<longrightarrow> n = buffer_size (arg_bufs buffers))) \<and>
    (\<exists>n ec s' m'. read_buffer_sequence read_some s m buffers (transfer_at_least k) = Some (n, ec, s', m') \<and>
      (\<not> failed ec \<longrightarrow> min k (buffer_size (arg_bufs buffers)) \<le> n)) \<and>
    (\<exists>n ec s' m'. read_buffer_sequence read_some s m buffers (transfer_exactly k) = Some (n, ec, s', m') \<and>
      n \<le> min k (buffer_size (arg_bufs buffers)) \<and>
      (\<not> failed ec \<longrightarrow> n = min k (buffer_size (arg_bufs buffers))))"
proof -
  have run: "\<exists>n ec s' m'. read_buffer_sequence read_some s m buffers cc = Some (n, ec, s', m') \<and>
      n \<le> buffer_size (arg_bufs buffers) \<and>
      (n = buffer_size (arg_bufs buffers) \<or> check_for_completion cc ec n = 0) \<and>
      ((\<forall>e i. check_for_completion cc e i \<le> k - i) \<longrightarrow> n \<le> k)" if stops: "stops_on_error cc" for cc
  proof -
    obtain r where r: "read_loop read_some cc (con_new buffers) Ok_code s m = Some r"
      using read_loop_returns [OF assms(1,2) stops con_new_facts(1) [OF assms(3)]] by blast
    have rd: "read_done out cc (con_new buffers) s m r"
      by (rule read_loop_done [OF assms(1) r con_new_facts(1) [OF assms(3)]])
    obtain n ec s' m' where "r = (n, ec, s', m')" by (cases r)
    with r rd show ?thesis unfolding read_buffer_sequence_def by (auto simp: read_done_new [OF assms(3)])
  qed
  have ex: "\<forall>e i. check_for_completion (transfer_exactly k) e i \<le> k - i" by simp
  show ?thesis
  proof (intro conjI)
    show "\<exists>n ec s' m'. read_buffer_sequence read_some s m buffers transfer_all = Some (n, ec, s', m') \<and>
      (\<not> failed ec \<longrightarrow> n = buffer_size (arg_bufs buffers))"
      using run [of transfer_all] by (auto split: if_splits)
    show "\<exists>n ec s' m'. read_buffer_sequence read_some s m buffers (transfer_at_least k) = Some (n, ec, s', m') \<and>
      (\<not> failed ec \<longrightarrow> min k (buffer_size (arg_bufs buffers)) \<le> n)"
      using run [of "transfer_at_least k"] by (fastforce split: if_splits)
    obtain n ec s' m' where n: "read_buffer_sequence read_some s m buffers (transfer_exactly k) = Some (n, ec, s', m')"
      "n \<le> buffer_size (arg_bufs buffers)" "n \<le> k"
      "n = buffer_size (arg_bufs buffers) \<or> check_for_completion (transfer_exactly k) ec n = 0"
      using run [of "transfer_exactly k"] ex by auto
    then have "\<not> failed ec \<longrightarrow> n = min k (buffer_size (arg_bufs buffers))"
      by (auto simp: exactly_zero simp del: check_exactly)
    with n show "\<exists>n ec s' m'. read_buffer_sequence read_some s m buffers (transfer_exactly k) = Some (n, ec, s', m') \<and>
      n \<le> min k (buffer_size (arg_bufs buffers)) \<and>
      (\<not> failed ec \<longrightarrow> n = min k (buffer_size (arg_bufs buffers)))" by auto
  qed
qed

theorem read_completes_witness:
  "\<exists>n ec s' m'. read_buffer_sequence chunk_reader ([], [1, 2, 3, 4]) (\<lambda>_. 0) demo_bufs (transfer_exactly 3) =
     Some (n, ec, s', m') \<and> n \<le> 3"
  using read_completes [OF chunk_reader_conforming chunk_reader_progressing demo_arg(1),
      of "([], [1, 2, 3, 4])" "\<lambda>_. 0" 3]
  by auto

section \<open>Writes\<close>

lemma write_done_new:
  assumes "arg_ok buffers"
  shows "write_done out cc m (con_new buffers) s (n, ec, s') \<longleftrightarrow>
    (n \<le> buffer_size (arg_bufs buffers) \<and> out s' = out s @ get_bytes m (take n (addrs (arg_bufs buffers))) \<and>
       (n = buffer_size (arg_bufs buffers) \<or> check_for_completion cc ec n = 0)) \<and>
    (\<forall>k. (\<forall>e i. check_for_completion cc e i \<le> k - i) \<longrightarrow> n \<le> k)"
  using con_new_facts [OF assms] by (auto simp: write_done_def buffer_size_eq)

lemma write_returns:
  assumes "conforming_writer out write_some" "progressing_writer write_some" "arg_ok buffers" "stops_on_error cc"
  shows "\<exists>n ec s'. write_buffer_sequence write_some s m buffers cc = Some (n, ec, s') \<and>
      n \<le> buffer_size (arg_bufs buffers) \<and> out s' = out s @ get_bytes m (take n (addrs (arg_bufs buffers))) \<and>
      (n = buffer_size (arg_bufs buffers) \<or> check_for_completion cc ec n = 0) \<and>
      ((\<forall>e i. check_for_completion cc e i \<le> k - i) \<longrightarrow> n \<le> k)"
proof -
  obtain r where r: "write_loop write_some cc m (con_new buffers) Ok_code s = Some r"
    using write_loop_returns [OF assms(1,2,4) con_new_facts(1) [OF assms(3)]] by blast
  have wd: "write_done out cc m (con_new buffers) s r"
    by (rule write_loop_done [OF assms(1) r con_new_facts(1) [OF assms(3)]])
  obtain n ec s' where "r = (n, ec, s')" by (cases r)
  with r wd show ?thesis unfolding write_buffer_sequence_def by (auto simp: write_done_new [OF assms(3)])
qed

text \<open>C21: \<open>write\<close>, over a stream that accepts a prefix of what it is given: it returns whenever the
  stream accepts something or fails, the stream has then accepted exactly the first \<open>n\<close> bytes of
  the buffers, each once and in order, and without an error the three conditions have written
  all of them, at least the minimum, or exactly the size asked for.\<close>

theorem write_correct:
  assumes "conforming_writer out write_some" "progressing_writer write_some" "arg_ok buffers"
  shows "(\<exists>n ec s'. write_buffer_sequence write_some s m buffers transfer_all = Some (n, ec, s') \<and>
      out s' = out s @ get_bytes m (take n (addrs (arg_bufs buffers))) \<and>
      (\<not> failed ec \<longrightarrow> n = buffer_size (arg_bufs buffers))) \<and>
    (\<exists>n ec s'. write_buffer_sequence write_some s m buffers (transfer_at_least k) = Some (n, ec, s') \<and>
      out s' = out s @ get_bytes m (take n (addrs (arg_bufs buffers))) \<and>
      (\<not> failed ec \<longrightarrow> min k (buffer_size (arg_bufs buffers)) \<le> n)) \<and>
    (\<exists>n ec s'. write_buffer_sequence write_some s m buffers (transfer_exactly k) = Some (n, ec, s') \<and>
      out s' = out s @ get_bytes m (take n (addrs (arg_bufs buffers))) \<and>
      n \<le> min k (buffer_size (arg_bufs buffers)) \<and>
      (\<not> failed ec \<longrightarrow> n = min k (buffer_size (arg_bufs buffers))))"
proof -
  note run = write_returns [OF assms, where k = k and s = s and m = m]
  have ex: "\<forall>e i. check_for_completion (transfer_exactly k) e i \<le> k - i" by simp
  show ?thesis
  proof (intro conjI)
    show "\<exists>n ec s'. write_buffer_sequence write_some s m buffers transfer_all = Some (n, ec, s') \<and>
      out s' = out s @ get_bytes m (take n (addrs (arg_bufs buffers))) \<and>
      (\<not> failed ec \<longrightarrow> n = buffer_size (arg_bufs buffers))"
      using run [of transfer_all] by (auto split: if_splits)
    show "\<exists>n ec s'. write_buffer_sequence write_some s m buffers (transfer_at_least k) = Some (n, ec, s') \<and>
      out s' = out s @ get_bytes m (take n (addrs (arg_bufs buffers))) \<and>
      (\<not> failed ec \<longrightarrow> min k (buffer_size (arg_bufs buffers)) \<le> n)"
      using run [of "transfer_at_least k"] by (fastforce split: if_splits)
    obtain n ec s' where n: "write_buffer_sequence write_some s m buffers (transfer_exactly k) = Some (n, ec, s')"
      "n \<le> buffer_size (arg_bufs buffers)" "n \<le> k" "out s' = out s @ get_bytes m (take n (addrs (arg_bufs buffers)))"
      "n = buffer_size (arg_bufs buffers) \<or> check_for_completion (transfer_exactly k) ec n = 0"
      using run [of "transfer_exactly k"] ex by auto
    then have "\<not> failed ec \<longrightarrow> n = min k (buffer_size (arg_bufs buffers))"
      by (auto simp: exactly_zero simp del: check_exactly)
    with n show "\<exists>n ec s'. write_buffer_sequence write_some s m buffers (transfer_exactly k) = Some (n, ec, s') \<and>
      out s' = out s @ get_bytes m (take n (addrs (arg_bufs buffers))) \<and>
      n \<le> min k (buffer_size (arg_bufs buffers)) \<and>
      (\<not> failed ec \<longrightarrow> n = min k (buffer_size (arg_bufs buffers)))" by auto
  qed
qed

theorem write_correct_witness:
  "\<exists>n ec s'. write_buffer_sequence chunk_writer [] of_nat demo_bufs transfer_all = Some (n, ec, s') \<and>
     s' = take n [10, 11, 12, 20, 21]"
  using write_correct [OF chunk_writer_conforming chunk_writer_progressing demo_arg(1), of "[]" of_nat 1]
  by (auto simp: demo_arg get_bytes_def take_map [symmetric])

section \<open>Asynchronous operations\<close>

text \<open>in every state an asynchronous read can reach, with completions and cancellation signals in
  any order, the bytes delivered are exactly those counted and fill the buffers from the front.
  When its handler has been called, the count is the bytes delivered, nothing further happens,
  and the buffers are full, the condition asked for no more, or the error is
  \<open>operation_aborted\<close> (a condition that asked for nothing to begin with is the one exception: the
  operation still issues one empty read).\<close>

theorem async_read_invariant:
  assumes "conforming_reader out read_some" "progressing_reader read_some"
    and "\<And>t s. out (on_cancel t s) = out s" "arg_ok buffers"
    and "async_read_reach read_some on_cancel cc (start_read cc buffers slot s0 m0) st"
  shows "(\<forall>op bufs s m. st = Pending_read op bufs s m \<longrightarrow>
      delivered out (arg_bufs buffers) s0 m0 (con_total_consumed (rw_buffers op)) s m) \<and>
    (\<forall>ec n s m. st = Read_done ec n s m \<longrightarrow>
      delivered out (arg_bufs buffers) s0 m0 n s m \<and>
      (n = buffer_size (arg_bufs buffers) \<or> check_for_completion cc ec n = 0 \<or>
       ec = Operation_aborted \<or> check_for_completion cc Ok_code 0 = 0) \<and>
      (\<nexists>st'. async_read_step read_some on_cancel cc st st'))"
  using async_read_reach_inv [OF assms] by (auto elim: async_read_stepE)

text \<open>A read of four bytes, cancelled while the first operation is outstanding, ends after it with two bytes.\<close>

definition demo_single :: bufarg where
  "demo_single = Single \<lparr>buf_data = 10, buf_size = 4\<rparr>"

lemma demo_cancelled_reach:
  "async_read_reach chunk_reader (\<lambda>_ s. s) transfer_all
     (start_read transfer_all demo_single True ([], [1, 2, 3]) (\<lambda>_. 0))
     (Read_done Operation_aborted 2 ([1, 2], [3]) (put_bytes (\<lambda>_. 0) [10, 11] [1, 2]))"
proof -
  let ?reach = "async_read_reach chunk_reader (\<lambda>_ s. s) transfer_all
     (start_read transfer_all demo_single True ([], [1, 2, 3]) (\<lambda>_. 0))"
  let ?op = "(read_op_new demo_single True)\<lparr>rw_start := 1\<rparr>"
  let ?b = "[\<lparr>buf_data = 10, buf_size = 4\<rparr>]"
  obtain cs e where cs: "cs_signal ct_terminal (rw_cancel ?op) = (cs, e)" by fastforce
  then have cancelled: "cs_cancelled cs \<noteq> ct_none"
    by (auto simp: read_op_new_def cs_new_def cs_signal_def Let_def cs_cancelled_def
      enable_partial_cancellation_def cancellation_filter_def ct_terminal_def ct_partial_def ct_none_def
      split: if_splits)
  have "start_read transfer_all demo_single True ([], [1, 2, 3 :: byte]) (\<lambda>_. 0) =
      Pending_read ?op ?b ([] :: byte list, [1, 2, 3 :: byte]) (\<lambda>_. 0)"
    by (simp add: start_read_def start_read_op_def read_op_call_def read_op_new_def demo_single_def
      csb_new_def csb_prepare_def buf_plus_def buf_limit_def default_max_transfer_size_def)
  then have "?reach (Pending_read ?op ?b ([], [1, 2, 3]) (\<lambda>_. 0))"
    using async_read_reach.start by metis
  then have "?reach (Pending_read (?op\<lparr>rw_cancel := cs\<rparr>) ?b ([], [1, 2, 3]) (\<lambda>_. 0))"
    using async_read_step.cancel [OF cs, of chunk_reader "\<lambda>_ s. s" transfer_all ?b "([], [1, 2, 3])" "\<lambda>_. 0"]
    by (cases e) (simp_all, (blast intro: async_read_reach.next_step)+)
  moreover have rd: "chunk_reader ([], [1, 2, 3]) (map buf_size ?b) = (([1, 2], [3]), [1, 2], Ok_code)"
    by (simp add: chunk_reader_def Let_def)
  moreover note async_read_step.deliver [where read_some = chunk_reader and bufs = ?b and s = "([], [1, 2, 3])"
      and m = "\<lambda>_. 0" and op = "?op\<lparr>rw_cancel := cs\<rparr>" and on_cancel = "\<lambda>_ s. s" and cc = transfer_all, OF rd]
  ultimately have "?reach (after_action (read_op_call transfer_all (?op\<lparr>rw_cancel := cs\<rparr>) Ok_code (length [1, 2 :: byte]) 0)
      ([1, 2], [3]) (put_bytes (\<lambda>_. 0) (addrs ?b) [1, 2]))"
    by (blast intro: async_read_reach.next_step)
  moreover have "read_op_call transfer_all (?op\<lparr>rw_cancel := cs\<rparr>) Ok_code (length [1, 2 :: byte]) 0 =
      (?op\<lparr>rw_cancel := cs, rw_start := 0, rw_buffers := con_consume (rw_buffers ?op) 2\<rparr>,
       Invoke Operation_aborted 2)"
    using cancelled by (simp add: read_op_resumed Let_def read_op_new_def demo_single_def csb_new_def
      csb_consume_def csb_empty_def)
  moreover have "put_bytes (\<lambda>_. 0) (addrs ?b) [1, 2] = put_bytes (\<lambda>_. 0) [10, 11] [1, 2 :: byte]"
    by (simp add: baddrs_def upt_rec)
  ultimately show ?thesis by (simp only: after_action.simps)
qed

theorem async_read_invariant_witness:
  "delivered fst (arg_bufs demo_single) ([], [1, 2, 3 :: byte]) (\<lambda>_. 0) 2 ([1, 2], [3])
     (put_bytes (\<lambda>_. 0) [10, 11] [1, 2])"
  using async_read_invariant [OF chunk_reader_conforming chunk_reader_progressing refl _ demo_cancelled_reach]
  by (simp add: demo_single_def)

text \<open>C22: without cancellation, an asynchronous read of a non-empty buffer sequence, with any
  condition that asks for something to begin with, ends with exactly the result of the synchronous
  read, the same count, error, stream and memory, or neither ends; conditions that go on after an
  error are included. It does end if the condition asks for no more after an error.\<close>

theorem async_read_is_read:
  assumes "conforming_reader out read_some" "progressing_reader read_some"
    and "arg_ok buffers" "0 < buffer_size (arg_bufs buffers)" "check_for_completion cc Ok_code 0 \<noteq> 0"
  shows "async_read read_some cc s m buffers = read_buffer_sequence read_some s m buffers cc \<and>
    (stops_on_error cc \<longrightarrow> async_read read_some cc s m buffers \<noteq> None)"
proof -
  note new = con_new_facts [OF assms(3)]
  let ?op = "(read_op_new buffers False)\<lparr>rw_start := 1\<rparr>"
  have op: "rw_buffers ?op = con_new buffers" "cs_cancelled (rw_cancel ?op) = ct_none"
    by (simp_all add: read_op_new_def cs_new_def cs_cancelled_def ct_none_def)
  have "async_read read_some cc s m buffers =
      run_async_read read_some cc ?op (con_prepare (con_new buffers) (check_for_completion cc Ok_code 0)) s m"
    using new by (simp add: async_read_def start_read_op_def read_op_call_def op read_op_new_def)
  also have "\<dots> = read_loop read_some cc (con_new buffers) Ok_code s m"
    using run_async_read_eq [OF assms(1,2), of ?op cc Ok_code] con.empty_law [OF new(1)] new op assms(4,5)
    by (simp add: buffer_size_eq round_stops_def)
  finally show ?thesis
    using read_loop_returns [OF assms(1,2) _ new(1)] by (auto simp: read_buffer_sequence_def)
qed

theorem async_read_is_read_witness:
  "async_read chunk_reader transfer_all ([], [1, 2, 3, 4, 5, 6]) (\<lambda>_. 0) demo_bufs \<noteq> None"
  using async_read_is_read [OF chunk_reader_conforming chunk_reader_progressing demo_arg(1),
      of transfer_all "([], [1, 2, 3, 4, 5, 6])" "\<lambda>_. 0"]
  unfolding demo_arg check_transfer_all by (metis default_max_pos(2) failed_simps(1) library_conditions_stop(1) zero_less_numeral)

end
