(* ===== verification/ReadDynbufProps.thy ===== *)
theory ReadDynbufProps
  imports ReadDynbuf IoProps
begin

text \<open>
  Correctness of the reads into a dynamic buffer, and of the asynchronous versions against the
  synchronous ones.
\<close>

section \<open>The loop of version one\<close>

definition bounded_condition :: "completion_condition \<Rightarrow> bool" where
  "bounded_condition cc \<longleftrightarrow> (\<forall>e n. check_for_completion cc e n < 2 ^ 31)"

lemma library_conditions_bounded [simp]:
  "bounded_condition transfer_all" "bounded_condition (transfer_at_least k)" "bounded_condition (transfer_exactly k)"
  by (auto simp: bounded_condition_def default_max_transfer_size_def min_def)

lemma bytes_to_read_facts:
  assumes "sz \<le> cap" "sz \<le> mxsz"
  shows "bytes_to_read cap sz mxsz mx \<le> mx" "bytes_to_read cap sz mxsz mx \<le> mxsz - sz"
    "bytes_to_read cap sz mxsz mx = 0 \<longleftrightarrow> mx = 0 \<or> sz = mxsz"
  using assms by (auto simp: bytes_to_read_def min_def)

definition dyn_done ::
  "('s \<Rightarrow> byte list) \<Rightarrow> completion_condition \<Rightarrow> ('b \<Rightarrow> byte list) \<Rightarrow> ('b \<Rightarrow> bool) \<Rightarrow> ('b \<Rightarrow> nat) \<Rightarrow> ('b \<Rightarrow> nat) \<Rightarrow>
   's \<Rightarrow> 'b \<Rightarrow> nat \<Rightarrow> (exn + nat \<times> error_code) \<times> 's \<times> 'b \<Rightarrow> bool"
where
  "dyn_done out cc contents ok max_size limit s b n0 r \<longleftrightarrow> (case r of (res, s', b') \<Rightarrow>
     (case res of
        Inl e \<Rightarrow> e = Length_error \<and> limit b < max_size b
      | Inr (n, ec) \<Rightarrow>
          (\<exists>data. out s' = out s @ data \<and> n = n0 + length data \<and> contents b' = contents b @ data) \<and>
          ok b' \<and> max_size b' = max_size b \<and> limit b' = limit b \<and>
          (length (contents b') = max_size b \<or> check_for_completion cc ec n = 0) \<and>
          (\<forall>k. (\<forall>e i. check_for_completion cc e i \<le> k - i) \<longrightarrow> n0 \<le> k \<longrightarrow> n \<le> k)))"

lemma dyn_done_round:
  assumes "dyn_done out cc contents ok max_size limit s1 b1 (n0 + length d) r"
    and "out s1 = out s @ d" "contents b1 = contents b @ d" "max_size b1 = max_size b" "limit b1 = limit b"
    and "length d \<le> check_for_completion cc ec n0"
  shows "dyn_done out cc contents ok max_size limit s b n0 r"
proof -
  have le: "n0 + length d \<le> k" if "\<forall>e i. check_for_completion cc e i \<le> k - i" "n0 \<le> k" for k
    using that assms(6) by (metis Nat.le_diff_conv2 add.commute le_trans)
  obtain res s' b' where r: "r = (res, s', b')" by (cases r)
  show ?thesis
  proof (cases res)
    case (Inl e)
    then show ?thesis using assms(1,4,5) by (simp add: dyn_done_def r)
  next
    case (Inr x)
    obtain n ec' where x: "x = (n, ec')" by (cases x)
    have fin: "\<exists>data. out s' = out s1 @ data \<and> n = n0 + length d + length data \<and> contents b' = contents b1 @ data"
      "ok b'" "max_size b' = max_size b1" "limit b' = limit b1"
      "length (contents b') = max_size b1 \<or> check_for_completion cc ec' n = 0"
      "\<And>k. (\<forall>e i. check_for_completion cc e i \<le> k - i) \<Longrightarrow> n0 + length d \<le> k \<Longrightarrow> n \<le> k"
      using assms(1) by (auto simp: dyn_done_def r Inr x)
    then obtain data where "out s' = out s @ (d @ data)" "n = n0 + length (d @ data)"
      "contents b' = contents b @ (d @ data)" using assms(2,3) by auto
    moreover have "n \<le> k" if "\<forall>e i. check_for_completion cc e i \<le> k - i" "n0 \<le> k" for k
      using fin(6) le that by blast
    ultimately show ?thesis using fin(2-5) assms(4,5) unfolding dyn_done_def r Inr x by auto
  qed
qed

lemma db_available_facts:
  assumes "db_ok b"
  shows "db_available b mx \<le> mx" "db_available b mx \<le> db_max_size b - db_size b"
    "db_available b mx = 0 \<longleftrightarrow> mx = 0 \<or> db_size b = db_max_size b"
  using bytes_to_read_facts db.size_law [OF assms] by (simp_all add: db_available_def)

lemma read_v1_loop_done:
  assumes conf: "conforming_reader out read_some" and prog: "progressing_reader read_some"
    and stops: "stops_on_error cc" and bnd: "bounded_condition cc"
  shows "db_ok b \<Longrightarrow> \<exists>r. read_v1_loop read_some cc b ec s n (db_available b (check_for_completion cc ec n)) = Some r \<and>
    dyn_done out cc db_contents db_ok db_max_size db_limit s b n r"
proof (induction "db_max_size b - db_size b" arbitrary: b ec s n rule: less_induct)
  case less
  note ok = less.prems
  let ?mx = "check_for_completion cc ec n"
  let ?av = "db_available b ?mx"
  note av = db_available_facts [OF ok, of ?mx]
  note sz = db.size_law [OF ok]
  show ?case
  proof (cases "?av = 0")
    case True
    then show ?thesis
      using av(3) sz ok by (subst read_v1_loop.simps) (auto simp: dyn_done_def)
  next
    case False
    show ?thesis
    proof (cases "db_size b + ?av \<le> db_limit b")
      case exc: False
      then obtain b1 where "db_prepare b ?av = (b1, Inl Length_error)" using db.overflow_law [OF ok] by force
      moreover have "db_limit b < db_max_size b" using exc av(2) sz by linarith
      ultimately show ?thesis
        using False by (subst read_v1_loop.simps) (simp add: dyn_done_def)
    next
      case fits: True
      obtain s1 d ec1 where rd: "read_some s [?av] = (s1, d, ec1)" by (metis prod_cases3)
      note cr = conforming_readerD [OF conf rd]
      have d: "length d \<le> ?av" "length d < 2 ^ 31"
        using cr(1) av(1) bnd le_less_trans [of "length d" ?mx "2 ^ 31"] by (auto simp: bounded_condition_def)
      obtain b1 off where b1: "db_prepare b ?av = (b1, Inr (off, ?av))"
        "db_ok (db_commit (db_store b1 off d) (length d))"
        "db_contents (db_commit (db_store b1 off d) (length d)) = db_contents b @ d"
        "db_max_size (db_commit (db_store b1 off d) (length d)) = db_max_size b"
        "db_limit (db_commit (db_store b1 off d) (length d)) = db_limit b"
        using db.fill_law [OF ok fits d(1) db_fits_small [OF d(2)]] by blast
      let ?b2 = "db_commit (db_store b1 off d) (length d)"
      let ?av2 = "db_available ?b2 (check_for_completion cc ec1 (n + length d))"
      have step: "read_v1_loop read_some cc b ec s n ?av = read_v1_loop read_some cc ?b2 ec1 s1 (n + length d) ?av2"
        using False b1(1) rd by (subst read_v1_loop.simps) (simp add: check_for_completion_def Let_def)
      have "\<exists>r. read_v1_loop read_some cc ?b2 ec1 s1 (n + length d) ?av2 = Some r \<and>
          dyn_done out cc db_contents db_ok db_max_size db_limit s1 ?b2 (n + length d) r"
      proof (cases "d = []")
        case True
        then have "failed ec1" using prog rd False unfolding progressing_reader_def by fastforce
        then have "check_for_completion cc ec1 (n + length d) = 0" using stops by (simp add: stops_on_error_def)
        moreover from this have "?av2 = 0" using db_available_facts(3) [OF b1(2)] by simp
        ultimately show ?thesis
          using b1(2) by (subst read_v1_loop.simps) (simp add: dyn_done_def)
      next
        case False
        have "db_size ?b2 = db_size b + length d" using db.size_law [OF b1(2)] sz b1(3) by simp
        then have "db_max_size ?b2 - db_size ?b2 < db_max_size b - db_size b"
          using False b1(4) d(1) av(2) by (cases d) auto
        from less.hyps [OF this b1(2)] show ?thesis .
      qed
      then obtain r where r: "read_v1_loop read_some cc ?b2 ec1 s1 (n + length d) ?av2 = Some r"
        "dyn_done out cc db_contents db_ok db_max_size db_limit s1 ?b2 (n + length d) r" by blast
      have "length d \<le> check_for_completion cc ec n" using d(1) av(1) by linarith
      with r(2) cr(2) b1(3-5) have "dyn_done out cc db_contents db_ok db_max_size db_limit s b n r"
        by (rule dyn_done_round)
      with r(1) show ?thesis unfolding step by blast
    qed
  qed
qed

section \<open>The loop of version two\<close>

lemma db2_available_facts:
  assumes "db2_ok b"
  shows "db2_available b mx \<le> mx" "db2_available b mx \<le> db2_max_size b - db2_size b"
    "db2_available b mx = 0 \<longleftrightarrow> mx = 0 \<or> db2_size b = db2_max_size b"
  using bytes_to_read_facts db2.size_law [OF assms] by (simp_all add: db2_available_def)

lemma read_v2_loop_done:
  assumes conf: "conforming_reader out read_some" and prog: "progressing_reader read_some"
    and stops: "stops_on_error cc"
  shows "db2_ok b \<Longrightarrow> \<exists>r. read_v2_loop read_some cc b ec s n (db2_available b (check_for_completion cc ec n)) = Some r \<and>
    dyn_done out cc db2_contents db2_ok db2_max_size db2_limit s b n r"
proof (induction "db2_max_size b - db2_size b" arbitrary: b ec s n rule: less_induct)
  case less
  note ok = less.prems
  let ?mx = "check_for_completion cc ec n"
  let ?av = "db2_available b ?mx"
  note av = db2_available_facts [OF ok, of ?mx]
  note sz = db2.size_law [OF ok]
  show ?case
  proof (cases "?av = 0")
    case True
    then show ?thesis
      using av(3) sz ok by (subst read_v2_loop.simps) (auto simp: dyn_done_def)
  next
    case False
    show ?thesis
    proof (cases "db2_size b + ?av \<le> db2_limit b")
      case exc: False
      then have "db2_grow b ?av = Inl Length_error" using db2.overflow_law [OF ok] by force
      moreover have "db2_limit b < db2_max_size b" using exc av(2) sz by linarith
      ultimately show ?thesis
        using False by (subst read_v2_loop.simps) (simp add: dyn_done_def Let_def)
    next
      case fits: True
      obtain s1 d ec1 where rd: "read_some s [?av] = (s1, d, ec1)" by (metis prod_cases3)
      note cr = conforming_readerD [OF conf rd]
      have d: "length d \<le> ?av" using cr(1) by simp
      obtain b1 where grown: "db2_grow b ?av = Inr b1" "db2_data_at b1 (db2_size b) ?av = (db2_size b, ?av)"
        and b1: "db2_ok (db2_shrink (db2_store b1 (db2_size b) d) (?av - length d))"
        "db2_contents (db2_shrink (db2_store b1 (db2_size b) d) (?av - length d)) = db2_contents b @ d"
        "db2_max_size (db2_shrink (db2_store b1 (db2_size b) d) (?av - length d)) = db2_max_size b"
        "db2_limit (db2_shrink (db2_store b1 (db2_size b) d) (?av - length d)) = db2_limit b"
        using db2.grow_law [OF ok fits d] by blast
      let ?b2 = "db2_shrink (db2_store b1 (db2_size b) d) (?av - length d)"
      let ?av2 = "db2_available ?b2 (check_for_completion cc ec1 (n + length d))"
      have step: "read_v2_loop read_some cc b ec s n ?av = read_v2_loop read_some cc ?b2 ec1 s1 (n + length d) ?av2"
        using False grown rd d by (subst read_v2_loop.simps) (simp add: check_for_completion_def Let_def)
      have "\<exists>r. read_v2_loop read_some cc ?b2 ec1 s1 (n + length d) ?av2 = Some r \<and>
          dyn_done out cc db2_contents db2_ok db2_max_size db2_limit s1 ?b2 (n + length d) r"
      proof (cases "d = []")
        case True
        then have "failed ec1" using prog rd False unfolding progressing_reader_def by fastforce
        then have "check_for_completion cc ec1 (n + length d) = 0" using stops by (simp add: stops_on_error_def)
        moreover from this have "?av2 = 0" using db2_available_facts(3) [OF b1(1)] by simp
        ultimately show ?thesis
          using b1(1) by (subst read_v2_loop.simps) (simp add: dyn_done_def)
      next
        case False
        have "db2_size ?b2 = db2_size b + length d" using db2.size_law [OF b1(1)] sz b1(2) by simp
        then have "db2_max_size ?b2 - db2_size ?b2 < db2_max_size b - db2_size b"
          using False b1(3) d av(2) by (cases d) auto
        from less.hyps [OF this b1(1)] show ?thesis .
      qed
      then obtain r where r: "read_v2_loop read_some cc ?b2 ec1 s1 (n + length d) ?av2 = Some r"
        "dyn_done out cc db2_contents db2_ok db2_max_size db2_limit s1 ?b2 (n + length d) r" by blast
      have "length d \<le> check_for_completion cc ec n" using d av(1) by linarith
      with r(2) cr(2) b1(2-4) have "dyn_done out cc db2_contents db2_ok db2_max_size db2_limit s b n r"
        by (rule dyn_done_round)
      with r(1) show ?thesis unfolding step by blast
    qed
  qed
qed

text \<open>Whatever the condition does after an error: a result of the loop, if there is one, is right.\<close>

lemma read_v2_loop_sound:
  assumes conf: "conforming_reader out read_some"
    and res: "read_v2_loop read_some cc b ec s n (db2_available b (check_for_completion cc ec n)) = Some r"
    and ok: "db2_ok b"
  shows "dyn_done out cc db2_contents db2_ok db2_max_size db2_limit s b n r"
proof -
  let ?P = "\<lambda>read_some' cc' b (ec::error_code) s n av r. read_some' = read_some \<longrightarrow> cc' = cc \<longrightarrow> db2_ok b \<longrightarrow>
    av = db2_available b (check_for_completion cc ec n) \<longrightarrow>
    dyn_done out cc db2_contents db2_ok db2_max_size db2_limit s b n r"
  have "?P read_some cc b ec s n (db2_available b (check_for_completion cc ec n)) r"
  proof (rule read_v2_loop.raw_induct [where P = ?P, OF _ res], intro impI)
    fix loop read_some' cc' b ec s n av r
    assume IH: "\<And>a c b (ec::error_code) s n av r. loop a c b ec s n av = Some r \<Longrightarrow> ?P a c b ec s n av r"
      and body: "(if av > 0 then
        (let pos = db2_size b in
         (case db2_grow b av of
            Inl e \<Rightarrow> Some (Inl e, s, b)
          | Inr b1 \<Rightarrow>
              (case db2_data_at b1 pos av of (off, len) \<Rightarrow>
                (case read_some' s [len] of (s1, data, ec1) \<Rightarrow>
                  (let b2 = db2_shrink (db2_store b1 off data) (size_sub av (length data));
                       total1 = n + length data;
                       max_size = adapt_completion_condition_result (cc' ec1 total1)
                   in loop read_some' cc' b2 ec1 s1 total1 (db2_available b2 max_size))))))
      else Some (Inr (n, ec), s, b)) = Some r"
      and eqs: "read_some' = read_some" "cc' = cc" and ok: "db2_ok b"
      and av: "av = db2_available b (check_for_completion cc ec n)"
    note facts = db2_available_facts [OF ok, of "check_for_completion cc ec n", folded av]
    note sz = db2.size_law [OF ok]
    show "dyn_done out cc db2_contents db2_ok db2_max_size db2_limit s b n r"
    proof (cases "av = 0")
      case True
      then show ?thesis using body facts(3) sz ok by (auto simp: dyn_done_def)
    next
      case False
      show ?thesis
      proof (cases "db2_size b + av \<le> db2_limit b")
        case exc: False
        then have "db2_grow b av = Inl Length_error" using db2.overflow_law [OF ok] by force
        moreover have "db2_limit b < db2_max_size b" using exc facts(2) sz by linarith
        ultimately show ?thesis using False body by (auto simp: dyn_done_def Let_def)
      next
        case fits: True
        obtain s1 d ec1 where rd: "read_some s [av] = (s1, d, ec1)" by (metis prod_cases3)
        note cr = conforming_readerD [OF conf rd]
        have d: "length d \<le> av" using cr(1) by simp
        obtain b1 where grown: "db2_grow b av = Inr b1" "db2_data_at b1 (db2_size b) av = (db2_size b, av)"
          and b1: "db2_ok (db2_shrink (db2_store b1 (db2_size b) d) (av - length d))"
          "db2_contents (db2_shrink (db2_store b1 (db2_size b) d) (av - length d)) = db2_contents b @ d"
          "db2_max_size (db2_shrink (db2_store b1 (db2_size b) d) (av - length d)) = db2_max_size b"
          "db2_limit (db2_shrink (db2_store b1 (db2_size b) d) (av - length d)) = db2_limit b"
          using db2.grow_law [OF ok fits d] by blast
        have "loop read_some cc (db2_shrink (db2_store b1 (db2_size b) d) (av - length d)) ec1 s1 (n + length d)
            (db2_available (db2_shrink (db2_store b1 (db2_size b) d) (av - length d))
              (check_for_completion cc ec1 (n + length d))) = Some r"
          using body False grown eqs rd d by (simp add: check_for_completion_def Let_def)
        from IH [OF this] b1(1)
        have "dyn_done out cc db2_contents db2_ok db2_max_size db2_limit s1
            (db2_shrink (db2_store b1 (db2_size b) d) (av - length d)) (n + length d) r" by simp
        moreover note cr(2) b1(2-4)
        moreover have "length d \<le> check_for_completion cc ec n" using d facts(1) by linarith
        ultimately show ?thesis by (rule dyn_done_round)
      qed
    qed
  qed
  with ok show ?thesis by simp
qed

section \<open>The asynchronous operations without cancellation\<close>

lemma run_v1_eq:
  assumes conf: "conforming_reader out read_some" and prog: "progressing_reader read_some"
    and stops: "stops_on_error cc" and bnd: "bounded_condition cc"
  shows "db_ok (v1_buffers op) \<Longrightarrow> cs_cancelled (v1_cancel op) = ct_none \<Longrightarrow>
    av = db_available (v1_buffers op) (check_for_completion cc ec (v1_total op)) \<Longrightarrow> 0 < av \<Longrightarrow>
    (case v1_issue op av of (op1, act) \<Rightarrow> run_v1 read_some cc op1 act s) =
      read_v1_loop read_some cc (v1_buffers op) ec s (v1_total op) av"
proof (induction "db_max_size (v1_buffers op) - db_size (v1_buffers op)" arbitrary: op ec s av rule: less_induct)
  case less
  let ?b = "v1_buffers op"
  let ?n = "v1_total op"
  note ok = less.prems(1)
  note av = db_available_facts [OF ok, of "check_for_completion cc ec ?n"]
  show ?case
  proof (cases "db_size ?b + av \<le> db_limit ?b")
    case False
    then obtain b1 where "db_prepare ?b av = (b1, Inl Length_error)" using db.overflow_law [OF ok] by force
    then show ?thesis using less.prems(4)
      by (subst read_v1_loop.simps, subst run_v1.simps) (simp add: v1_issue_def)
  next
    case fits: True
    obtain s1 d ec1 where rd: "read_some s [av] = (s1, d, ec1)" by (metis prod_cases3)
    have "length d \<le> av" using conforming_readerD(1) [OF conf rd] by simp
    moreover from this have "length d < 2 ^ 31"
      using av(1) bnd less.prems(3) unfolding bounded_condition_def by (meson le_less_trans)
    ultimately obtain b1 off where b1: "db_prepare ?b av = (b1, Inr (off, av))"
      "db_ok (db_commit (db_store b1 off d) (length d))"
      "db_contents (db_commit (db_store b1 off d) (length d)) = db_contents ?b @ d"
      "db_max_size (db_commit (db_store b1 off d) (length d)) = db_max_size ?b"
      using db.fill_law [OF ok fits _ db_fits_small] by blast
    let ?b2 = "db_commit (db_store b1 off d) (length d)"
    let ?av2 = "db_available ?b2 (check_for_completion cc ec1 (?n + length d))"
    let ?op2 = "op\<lparr>v1_start := 0, v1_total := ?n + length d, v1_buffers := ?b2\<rparr>"
    have some: "failed ec1 \<or> d \<noteq> []" using prog rd less.prems(4) unfolding progressing_reader_def by fastforce
    have sync: "read_v1_loop read_some cc ?b ec s ?n av = read_v1_loop read_some cc ?b2 ec1 s1 (?n + length d) ?av2"
      using less.prems(4) b1(1) rd by (subst read_v1_loop.simps) (simp add: check_for_completion_def Let_def)
    have call: "read_dynbuf_v1_call cc ((op\<lparr>v1_buffers := b1\<rparr>)\<lparr>v1_buffers := db_store b1 off d\<rparr>) ec1 (length d) 0 =
        (if ?av2 = 0 then (?op2, Dyn_invoke ec1 (?n + length d)) else v1_issue ?op2 ?av2)"
      using some less.prems(2) by (auto simp: read_dynbuf_v1_call_def Let_def)
    have async: "(case v1_issue op av of (op1, act) \<Rightarrow> run_v1 read_some cc op1 act s) =
        (case (if ?av2 = 0 then (?op2, Dyn_invoke ec1 (?n + length d)) else v1_issue ?op2 ?av2) of
          (op1, act) \<Rightarrow> run_v1 read_some cc op1 act s1)"
      unfolding v1_issue_def [of op] b1(1) using rd call [simplified] by (simp add: run_v1.simps [of _ _ _ "Dyn_issue (off, av)"])
    show ?thesis
    proof (cases "?av2 = 0")
      case True
      then show ?thesis unfolding async sync
        by (subst read_v1_loop.simps, simp, subst run_v1.simps) simp
    next
      case False
      then have "check_for_completion cc ec1 (?n + length d) \<noteq> 0" using db_available_facts(3) [OF b1(2)] by simp
      then have "\<not> failed ec1" using stops by (auto simp: stops_on_error_def)
      then have "d \<noteq> []" using some by simp
      moreover have "db_size ?b2 = db_size ?b + length d"
        using db.size_law [OF b1(2)] db.size_law [OF ok] b1(3) by simp
      ultimately have "db_max_size (v1_buffers ?op2) - db_size (v1_buffers ?op2) < db_max_size ?b - db_size ?b"
        using b1(4) db.size_law [OF b1(2)] by (cases d) auto
      from less.hyps [OF this, of ?av2 ec1 s1] b1(2) less.prems(2) False show ?thesis
        unfolding async sync by simp
    qed
  qed
qed

lemma run_v2_eq:
  assumes conf: "conforming_reader out read_some" and prog: "progressing_reader read_some"
    and stops: "stops_on_error cc"
  shows "db2_ok (v2_buffers op) \<Longrightarrow> cs_cancelled (v2_cancel op) = ct_none \<Longrightarrow>
    av = db2_available (v2_buffers op) (check_for_completion cc ec (v2_total op)) \<Longrightarrow> 0 < av \<Longrightarrow>
    (case v2_issue (op\<lparr>v2_bytes_available := av\<rparr>) of (op1, act) \<Rightarrow> run_v2 read_some cc op1 act s) =
      read_v2_loop read_some cc (v2_buffers op) ec s (v2_total op) av"
proof (induction "db2_max_size (v2_buffers op) - db2_size (v2_buffers op)" arbitrary: op ec s av rule: less_induct)
  case less
  let ?b = "v2_buffers op"
  let ?n = "v2_total op"
  note ok = less.prems(1)
  note av = db2_available_facts [OF ok, of "check_for_completion cc ec ?n"]
  show ?case
  proof (cases "db2_size ?b + av \<le> db2_limit ?b")
    case False
    then have "db2_grow ?b av = Inl Length_error" using db2.overflow_law [OF ok] by force
    then show ?thesis using less.prems(4)
      by (subst read_v2_loop.simps, subst run_v2.simps) (simp add: v2_issue_def Let_def less.prems)
  next
    case fits: True
    obtain s1 d ec1 where rd: "read_some s [av] = (s1, d, ec1)" by (metis prod_cases3)
    have d: "length d \<le> av" using conforming_readerD(1) [OF conf rd] by simp
    then obtain b1 where grown: "db2_grow ?b av = Inr b1" "db2_data_at b1 (db2_size ?b) av = (db2_size ?b, av)"
      and b1: "db2_ok (db2_shrink (db2_store b1 (db2_size ?b) d) (av - length d))"
      "db2_contents (db2_shrink (db2_store b1 (db2_size ?b) d) (av - length d)) = db2_contents ?b @ d"
      "db2_max_size (db2_shrink (db2_store b1 (db2_size ?b) d) (av - length d)) = db2_max_size ?b"
      using db2.grow_law [OF ok fits] by blast
    let ?b2 = "db2_shrink (db2_store b1 (db2_size ?b) d) (av - length d)"
    let ?av2 = "db2_available ?b2 (check_for_completion cc ec1 (?n + length d))"
    let ?op2 = "op\<lparr>v2_start := 0, v2_total := ?n + length d, v2_buffers := ?b2, v2_bytes_available := ?av2\<rparr>"
    have some: "failed ec1 \<or> d \<noteq> []" using prog rd less.prems(4) unfolding progressing_reader_def by fastforce
    have sync: "read_v2_loop read_some cc ?b ec s ?n av = read_v2_loop read_some cc ?b2 ec1 s1 (?n + length d) ?av2"
      using less.prems(4) grown rd d by (subst read_v2_loop.simps) (simp add: check_for_completion_def Let_def)
    have call: "read_dynbuf_v2_call cc (op\<lparr>v2_bytes_available := av, v2_buffers := db2_store b1 (db2_size ?b) d\<rparr>)
          ec1 (length d) 0 =
        (if ?av2 = 0 then (?op2, Dyn_invoke ec1 (?n + length d)) else v2_issue ?op2)"
      using some less.prems(2) d by (auto simp: read_dynbuf_v2_call_def Let_def)
    have async: "(case v2_issue (op\<lparr>v2_bytes_available := av\<rparr>) of (op1, act) \<Rightarrow> run_v2 read_some cc op1 act s) =
        (case (if ?av2 = 0 then (?op2, Dyn_invoke ec1 (?n + length d)) else v2_issue ?op2) of
          (op1, act) \<Rightarrow> run_v2 read_some cc op1 act s1)"
      using rd call grown by (simp add: v2_issue_def [of "op\<lparr>v2_bytes_available := av\<rparr>"]
        run_v2.simps [of _ _ _ "Dyn_issue (db2_size ?b, av)"])
    show ?thesis
    proof (cases "?av2 = 0")
      case True
      then show ?thesis unfolding async sync
        by (subst read_v2_loop.simps, simp, subst run_v2.simps) simp
    next
      case False
      then have "check_for_completion cc ec1 (?n + length d) \<noteq> 0" using db2_available_facts(3) [OF b1(1)] by simp
      then have "\<not> failed ec1" using stops by (auto simp: stops_on_error_def)
      then have "0 < length d" using some by simp
      moreover have "db2_size ?b2 = db2_size ?b + length d"
        using db2.size_law [OF b1(1)] db2.size_law [OF ok] b1(2) by simp
      moreover have "db2_size ?b2 \<le> db2_max_size ?b" using db2.size_law [OF b1(1)] b1(3) by simp
      ultimately have "db2_max_size ?b2 - db2_size ?b2 < db2_max_size ?b - db2_size ?b"
        using b1(3) by linarith
      then have "db2_max_size (v2_buffers ?op2) - db2_size (v2_buffers ?op2) < db2_max_size ?b - db2_size ?b"
        by simp
      from less.hyps [OF this, of ?av2 ec1 s1] b1(1) less.prems(2) False show ?thesis
        unfolding async sync by simp
    qed
  qed
qed

section \<open>The properties\<close>

lemma read_v1_new:
  assumes "conforming_reader out read_some" "progressing_reader read_some"
    and "stops_on_error cc" "bounded_condition cc" "db_ok b"
  obtains r where "read_v1 read_some s b cc = Some r"
    "dyn_done out cc db_contents db_ok db_max_size db_limit s b 0 r"
  using read_v1_loop_done [OF assms, of Ok_code s 0]
  by (auto simp: read_v1_def check_for_completion_def Let_def)

lemma read_v2_new:
  assumes "conforming_reader out read_some" "progressing_reader read_some" "stops_on_error cc" "db2_ok b"
  obtains r where "read_v2 read_some s b cc = Some r"
    "dyn_done out cc db2_contents db2_ok db2_max_size db2_limit s b 0 r"
  using read_v2_loop_done [OF assms, of Ok_code s 0]
  by (auto simp: read_v2_def check_for_completion_def Let_def)

lemma db2_all_bytes: "db2_ok b \<Longrightarrow> db2_bytes_at b 0 (db2_size b) = db2_contents b"
  using db2.data_law [of b 0 "db2_size b"] db2.size_law [of b] by simp

text \<open>The string \<open>[9]\<close> as a dynamic buffer of at most six bytes.\<close>

definition demo_container :: container where
  "demo_container = \<lparr>ct_data = [9], ct_capacity = 15, ct_max_size = 1000, ct_policy = (\<lambda>c n. max (2 * c) n)\<rparr>"

definition demo_dsb :: dynamic_string_buffer where
  "demo_dsb = dsb_new demo_container 6"

lemma demo_dsb_facts:
  "db_ok (Dyn_string demo_dsb)" "db_bytes (Dyn_string demo_dsb) = [9]"
  "db_size (Dyn_string demo_dsb) = 1" "db_limit (Dyn_string demo_dsb) = 6" "db_max_size (Dyn_string demo_dsb) = 6"
  "db2_ok (Dyn2_string demo_dsb)" "db2_size (Dyn2_string demo_dsb) = 1" "db2_limit (Dyn2_string demo_dsb) = 6"
  "db2_max_size (Dyn2_string demo_dsb) = 6" "db2_contents (Dyn2_string demo_dsb) = [9]"
  by (simp_all add: demo_dsb_def dsb_new_def dsb_ok_def dsb2_ok_def demo_container_def ct_ok_def size_max_def
    dsb_contents_def db_bytes_def rg_bytes_def dsb_data_def rg_limit_def ct_buffer_def dsb_size_def dsb_limit_def
    dsb2_contents_def)

text \<open>C37: a dynamic buffer (string, vector or streambuf) is a byte queue with a bound. \<open>prepare\<close> of
  \<open>n\<close> bytes succeeds exactly when the readable bytes and they fit the limit, and throws
  \<open>length_error\<close> otherwise. Filling part of the prepared region and committing it appends those
  bytes to \<open>data()\<close>, whatever the buffer moved or reallocated; \<open>consume\<close> then removes from the
  front. For a streambuf the chunks committed and consumed are below \<open>2 ^ 31\<close> (\<open>db_fits\<close>), since it
  converts them to an \<open>int\<close>; for a string and a vector they are any.\<close>

theorem dynamic_buffer_queue:
  assumes "db_ok b" "length d \<le> n" "db_fits b (length d)" "k \<le> db_size b + length d" "db_fits b k"
  shows "if db_size b + n \<le> db_limit b
    then (\<exists>b1 off. db_prepare b n = (b1, Inr (off, n)) \<and>
      db_bytes (db_commit (db_store b1 off d) (length d)) = db_bytes b @ d \<and>
      db_bytes (db_consume (db_commit (db_store b1 off d) (length d)) k) = drop k (db_bytes b @ d))
    else snd (db_prepare b n) = Inl Length_error"
proof (cases "db_size b + n \<le> db_limit b")
  case True
  obtain b1 off where b1: "db_prepare b n = (b1, Inr (off, n))" "db_ok (db_commit (db_store b1 off d) (length d))"
    "db_contents (db_commit (db_store b1 off d) (length d)) = db_contents b @ d"
    using db.fill_law [OF assms(1) True assms(2,3)] by blast
  let ?b2 = "db_commit (db_store b1 off d) (length d)"
  have "k \<le> db_size ?b2" using db.size_law [OF b1(2)] db.size_law [OF assms(1)] b1(3) assms(4) by simp
  note cons = db.consume_law [OF b1(2) this, unfolded db_fits_kept [OF b1(1)], OF assms(5)]
  have "db_bytes ?b2 = db_bytes b @ d" using b1 assms(1) by (simp add: db.data_law)
  moreover have "db_bytes (db_consume ?b2 k) = drop k (db_bytes b @ d)"
    using cons b1 assms(1) by (simp add: db.data_law)
  ultimately show ?thesis using True b1(1) by auto
next
  case False
  then show ?thesis using db.overflow_law [OF assms(1), of n] by force
qed

theorem dynamic_buffer_queue_witness:
  "snd (db_prepare (Dyn_string demo_dsb) 6) = Inl Length_error \<and>
   (\<exists>b1 off. db_prepare (Dyn_string demo_dsb) 4 = (b1, Inr (off, 4)) \<and>
      db_bytes (db_commit (db_store b1 off [7, 8]) (length [7, 8 :: byte])) = [9, 7, 8])"
  using dynamic_buffer_queue [of "Dyn_string demo_dsb" "[7, 8]" 6 0]
    dynamic_buffer_queue [of "Dyn_string demo_dsb" "[7, 8]" 4 0]
  by (auto simp: demo_dsb_facts simp del: db_prepare.simps db_commit.simps db_store.simps db_size.simps
    db_limit.simps db_ok.simps)

text \<open>\<open>read\<close> into a DynamicBuffer\_v1 returns, and appends to the buffer exactly the bytes the
  stream delivered, as many as it reports. It stops only when the buffer has reached its maximum
  size or the completion condition asks for no more. The one exception is \<open>length_error\<close>, when
  the container cannot hold the buffer's maximum size.\<close>

theorem read_dynbuf_v1_correct:
  assumes "conforming_reader out read_some" "progressing_reader read_some"
    and "stops_on_error cc" "bounded_condition cc" "db_ok b"
  shows "\<exists>res s' b'. read_v1 read_some s b cc = Some (res, s', b') \<and>
    (case res of
       Inl e \<Rightarrow> e = Length_error \<and> db_limit b < db_max_size b
     | Inr (n, ec) \<Rightarrow>
         (\<exists>data. out s' = out s @ data \<and> length data = n \<and> db_bytes b' = db_bytes b @ data) \<and>
         (db_size b' = db_max_size b \<or> check_for_completion cc ec n = 0))"
proof -
  obtain r where r: "read_v1 read_some s b cc = Some r"
    "dyn_done out cc db_contents db_ok db_max_size db_limit s b 0 r" by (rule read_v1_new [OF assms])
  obtain res s' b' where "r = (res, s', b')" by (cases r)
  with r show ?thesis
    using db.data_law db.size_law [of b'] assms(5)
    by (cases res) (auto simp: dyn_done_def)
qed

theorem read_dynbuf_v1_correct_witness:
  "\<exists>n ec s' b'. read_v1 chunk_reader ([], [1, 2, 3]) (Dyn_string demo_dsb) transfer_all = Some (Inr (n, ec), s', b')"
proof -
  obtain res s' b' where run: "read_v1 chunk_reader ([], [1, 2, 3]) (Dyn_string demo_dsb) transfer_all = Some (res, s', b')"
    and res: "case res of Inl e \<Rightarrow> e = Length_error \<and> db_limit (Dyn_string demo_dsb) < db_max_size (Dyn_string demo_dsb)
      | Inr (n, ec) \<Rightarrow> (\<exists>data. fst s' = fst ([], [1, 2, 3 :: byte]) @ data \<and> length data = n \<and> db_bytes b' = db_bytes (Dyn_string demo_dsb) @ data) \<and>
         (db_size b' = db_max_size (Dyn_string demo_dsb) \<or> check_for_completion transfer_all ec n = 0)"
    using read_dynbuf_v1_correct [OF chunk_reader_conforming chunk_reader_progressing
        library_conditions_stop(1) library_conditions_bounded(1) demo_dsb_facts(1), of "([], [1, 2, 3])"] by blast
  then show ?thesis
    using demo_dsb_facts(4,5,8,9) by (cases res) (auto simp only: sum.case less_irrefl)
qed

text \<open>C32: a \<open>read\<close> into a DynamicBuffer\_v2 that returns without an exception has appended to the
  buffer exactly the bytes the stream delivered, in their order and as many as it reports; it stopped
  because the buffer reached its maximum size or because the completion condition, asked with the last
  error and the total, asked for no more. The only exception is \<open>length_error\<close>, and only if the
  container cannot hold the buffer's maximum size. With a condition that asks for no more after an
  error, and a stream whose reads deliver something or fail, it returns. So each round grows the
  container, reads into the new part and shrinks it by exactly what was not read.\<close>

theorem read_dynbuf_v2_correct:
  assumes "conforming_reader out read_some" "progressing_reader read_some" "db2_ok b"
  shows "(stops_on_error cc \<longrightarrow> read_v2 read_some s b cc \<noteq> None) \<and>
    (case read_v2 read_some s b cc of
       None \<Rightarrow> True
     | Some (Inl e, s', b') \<Rightarrow> e = Length_error \<and> db2_limit b < db2_max_size b
     | Some (Inr (n, ec), s', b') \<Rightarrow>
         (\<exists>data. out s' = out s @ data \<and> length data = n \<and>
            db2_bytes_at b' 0 (db2_size b') = db2_bytes_at b 0 (db2_size b) @ data) \<and>
         (db2_size b' = db2_max_size b \<or> check_for_completion cc ec n = 0))"
proof
  show "stops_on_error cc \<longrightarrow> read_v2 read_some s b cc \<noteq> None"
    using read_v2_new [OF assms(1,2) _ assms(3)] by (metis option.discI)
  show "case read_v2 read_some s b cc of
       None \<Rightarrow> True
     | Some (Inl e, s', b') \<Rightarrow> e = Length_error \<and> db2_limit b < db2_max_size b
     | Some (Inr (n, ec), s', b') \<Rightarrow>
         (\<exists>data. out s' = out s @ data \<and> length data = n \<and>
            db2_bytes_at b' 0 (db2_size b') = db2_bytes_at b 0 (db2_size b) @ data) \<and>
         (db2_size b' = db2_max_size b \<or> check_for_completion cc ec n = 0)"
  proof (cases "read_v2 read_some s b cc")
    case (Some r)
    then have fin: "dyn_done out cc db2_contents db2_ok db2_max_size db2_limit s b 0 r"
      by (intro read_v2_loop_sound [OF assms(1) _ assms(3), of _ Ok_code])
        (simp add: read_v2_def check_for_completion_def Let_def)
    obtain res s' b' where r: "r = (res, s', b')" by (cases r)
    have bytes: "db2_bytes_at b' 0 (db2_size b') = db2_contents b'" "db2_size b' = length (db2_contents b')"
      if "db2_ok b'" using db2_all_bytes [OF that] db2.size_law [OF that] by simp_all
    show ?thesis
    proof (cases res)
      case (Inl e)
      then show ?thesis using Some fin by (simp add: r dyn_done_def)
    next
      case (Inr x)
      obtain n ec where x: "x = (n, ec)" by (cases x)
      show ?thesis using fin bytes db2_all_bytes [OF assms(3)] by (auto simp: Some r Inr x dyn_done_def)
    qed
  qed simp
qed

theorem read_dynbuf_v2_correct_witness:
  "\<exists>n ec s' b'. read_v2 chunk_reader ([], [1, 2, 3]) (Dyn2_string demo_dsb) transfer_all = Some (Inr (n, ec), s', b')"
proof -
  note use = read_dynbuf_v2_correct [OF chunk_reader_conforming chunk_reader_progressing demo_dsb_facts(6),
      of transfer_all "([], [1, 2, 3])"]
  from use have "read_v2 chunk_reader ([], [1, 2, 3]) (Dyn2_string demo_dsb) transfer_all \<noteq> None" by simp
  then obtain res s' b' where run: "read_v2 chunk_reader ([], [1, 2, 3]) (Dyn2_string demo_dsb) transfer_all = Some (res, s', b')"
    by auto
  with use have "res \<noteq> Inl e" for e using demo_dsb_facts(8,9) by (auto simp: run)
  then show ?thesis using run by (cases res) auto
qed

text \<open>without cancellation, \<open>async_read\<close> into a dynamic buffer of either version, started with
  something to read, ends with exactly the result of the synchronous read.\<close>

theorem async_read_dynbuf_is_read:
  assumes "conforming_reader out read_some" "progressing_reader read_some"
    and "stops_on_error cc" "bounded_condition cc"
    and "db_ok b" "0 < db_available b (check_for_completion cc Ok_code 0)"
    and "db2_ok b2" "0 < db2_available b2 (check_for_completion cc Ok_code 0)"
  shows "async_read_v1 read_some cc s b = read_v1 read_some s b cc \<and>
    async_read_v2 read_some cc s b2 = read_v2 read_some s b2 cc"
proof
  let ?op = "\<lparr>v1_buffers = b, v1_start = 1, v1_total = 0, v1_cancel = None\<rparr>"
  have "async_read_v1 read_some cc s b =
      (case v1_issue ?op (db_available b (check_for_completion cc Ok_code 0)) of (op, act) \<Rightarrow> run_v1 read_some cc op act s)"
    by (simp add: async_read_v1_def read_dynbuf_v1_call_def)
  also have "\<dots> = read_v1 read_some s b cc"
    using run_v1_eq [OF assms(1-4), of ?op _ Ok_code] assms(5,6)
    by (simp add: read_v1_def cs_cancelled_def ct_none_def check_for_completion_def)
  finally show "async_read_v1 read_some cc s b = read_v1 read_some s b cc" .
next
  let ?av = "db2_available b2 (check_for_completion cc Ok_code 0)"
  let ?op = "\<lparr>v2_buffers = b2, v2_start = 1, v2_total = 0, v2_bytes_available = 0, v2_cancel = None\<rparr>"
  have "async_read_v2 read_some cc s b2 =
      (case v2_issue (?op\<lparr>v2_bytes_available := ?av\<rparr>) of (op, act) \<Rightarrow> run_v2 read_some cc op act s)"
    by (simp add: async_read_v2_def read_dynbuf_v2_call_def)
  also have "\<dots> = read_v2 read_some s b2 cc"
    using run_v2_eq [OF assms(1-3), of ?op ?av Ok_code] assms(7,8)
    by (simp add: read_v2_def cs_cancelled_def ct_none_def check_for_completion_def)
  finally show "async_read_v2 read_some cc s b2 = read_v2 read_some s b2 cc" .
qed

theorem async_read_dynbuf_is_read_witness:
  "async_read_v1 chunk_reader transfer_all ([], [1, 2, 3]) (Dyn_string demo_dsb) =
     read_v1 chunk_reader ([], [1, 2, 3]) (Dyn_string demo_dsb) transfer_all"
proof -
  have "0 < db_available (Dyn_string demo_dsb) (check_for_completion transfer_all Ok_code 0)"
    using db_available_facts(3) [OF demo_dsb_facts(1), of "check_for_completion transfer_all Ok_code 0"]
      demo_dsb_facts(3,5) by simp
  moreover have "0 < db2_available (Dyn2_string demo_dsb) (check_for_completion transfer_all Ok_code 0)"
    using db2_available_facts(3) [OF demo_dsb_facts(6), of "check_for_completion transfer_all Ok_code 0"]
      demo_dsb_facts(7,9) by simp
  ultimately show ?thesis
    using async_read_dynbuf_is_read [OF chunk_reader_conforming chunk_reader_progressing _ _ demo_dsb_facts(1) _
        demo_dsb_facts(6)] by auto
qed

end
