(* ===== verification/ReadUntilProps.thy ===== *)
theory ReadUntilProps
  imports ReadUntil ReadDynbufProps
begin

text \<open>
  Correctness of \<open>read_until\<close> for every search that meets the contract \<open>scanner\<close>, its instances
  for the character and string delimiters, and the asynchronous operations against the
  synchronous loop.
\<close>

section \<open>What the loop does\<close>

text \<open>
  The reads a search may make: each of them while what has been gathered so far holds no match, and
  none after one that failed. \<open>reads_unmatched s xs ec s' xs'\<close>: from the stream \<open>s\<close> with \<open>xs\<close>
  gathered to \<open>s'\<close> with \<open>xs'\<close>, the last read having failed with \<open>ec\<close> if that is an error.
\<close>

inductive reads_unmatched ::
  "'s reader \<Rightarrow> (byte list \<Rightarrow> nat option) \<Rightarrow> 's \<Rightarrow> byte list \<Rightarrow> error_code \<Rightarrow> 's \<Rightarrow> byte list \<Rightarrow> bool"
  for read_some :: "'s reader" and first_end :: "byte list \<Rightarrow> nat option"
where
  no_read: "reads_unmatched read_some first_end s xs Ok_code s xs"
| a_read: "first_end xs = None \<Longrightarrow> read_some s sizes = (s1, d, ec1) \<Longrightarrow> \<not> failed ec1 \<Longrightarrow>
    reads_unmatched read_some first_end s1 (xs @ d) ec s' xs' \<Longrightarrow> reads_unmatched read_some first_end s xs ec s' xs'"
| failing_read: "first_end xs = None \<Longrightarrow> read_some s sizes = (s1, d, ec) \<Longrightarrow> failed ec \<Longrightarrow>
    reads_unmatched read_some first_end s xs ec s1 (xs @ d)"

declare reads_unmatched.no_read [intro, simp]

text \<open>With a match there already, nothing is read.\<close>

lemma reads_unmatched_matched:
  "reads_unmatched read_some first_end s xs ec s' xs' \<Longrightarrow> first_end xs \<noteq> None \<Longrightarrow> ec = Ok_code \<and> s' = s \<and> xs' = xs"
  by (cases rule: reads_unmatched.cases) auto

definition until_done ::
  "'s reader \<Rightarrow> ('s \<Rightarrow> byte list) \<Rightarrow> (byte list \<Rightarrow> nat option) \<Rightarrow> ('b \<Rightarrow> byte list) \<Rightarrow> ('b \<Rightarrow> bool) \<Rightarrow>
   ('b \<Rightarrow> nat) \<Rightarrow> ('b \<Rightarrow> nat) \<Rightarrow> 's \<Rightarrow> 'b \<Rightarrow> (exn + nat \<times> error_code) \<times> 's \<times> 'b \<Rightarrow> bool"
where
  "until_done read_some out first_end contents ok max_size limit s b r \<longleftrightarrow> (case r of (res, s', b') \<Rightarrow>
     (case res of
        Inl e \<Rightarrow> e = Length_error \<and> limit b < max_size b \<and>
          (\<exists>xs'. reads_unmatched read_some first_end s (contents b) Ok_code s' xs')
      | Inr (n, ec) \<Rightarrow>
          (\<exists>data. out s' = out s @ data \<and> contents b' = contents b @ data) \<and>
          ok b' \<and> max_size b' = max_size b \<and> limit b' = limit b \<and>
          (\<exists>ec0. reads_unmatched read_some first_end s (contents b) ec0 s' (contents b') \<and>
             (\<not> failed ec \<longrightarrow> ec0 = Ok_code \<and> first_end (contents b') = Some n) \<and>
             (failed ec \<longrightarrow> n = 0 \<and>
                (ec0 = ec \<or> ec0 = Ok_code \<and> ec = Not_found \<and> length (contents b') = max_size b \<and>
                   first_end (contents b') = None)))))"

lemma until_done_round:
  assumes fin: "until_done read_some out first_end contents ok max_size limit s1 b1 r"
    and step: "out s1 = out s @ d" "contents b1 = contents b @ d" "max_size b1 = max_size b" "limit b1 = limit b"
    and none: "first_end (contents b) = None" and rd: "read_some s sizes = (s1, d, ec)" "\<not> failed ec"
  shows "until_done read_some out first_end contents ok max_size limit s b r"
proof -
  note more = reads_unmatched.a_read [where first_end = first_end and xs = "contents b" and read_some = read_some, OF none rd]
  obtain res s' b' where r: "r = (res, s', b')" by (cases r)
  show ?thesis
  proof (cases res)
    case (Inl e)
    then show ?thesis using fin step more by (auto simp: until_done_def r)
  next
    case (Inr x)
    obtain n ec where x: "x = (n, ec)" by (cases x)
    obtain data where "out s' = out s1 @ data" "contents b' = contents b1 @ data"
      using fin by (auto simp: until_done_def r Inr x)
    then have data: "\<exists>data. out s' = out s @ data \<and> contents b' = contents b @ data"
      using step(1,2) by (intro exI [of _ "d @ data"]) simp
    obtain ec0 where "reads_unmatched read_some first_end s1 (contents b1) ec0 s' (contents b')"
      "\<not> failed ec \<longrightarrow> ec0 = Ok_code \<and> first_end (contents b') = Some n"
      "failed ec \<longrightarrow> n = 0 \<and> (ec0 = ec \<or> ec0 = Ok_code \<and> ec = Not_found \<and> length (contents b') = max_size b1 \<and>
         first_end (contents b') = None)"
      using fin unfolding until_done_def r Inr x prod.case sum.case by blast
    with data fin show ?thesis using more step unfolding until_done_def r Inr x prod.case sum.case by metis
  qed
qed

lemma until_done_failing:
  assumes "out s1 = out s @ d" "contents b1 = contents b @ d" "max_size b1 = max_size b" "limit b1 = limit b" "ok b1"
    and "first_end (contents b) = None" "read_some s sizes = (s1, d, ec)" "failed ec"
  shows "until_done read_some out first_end contents ok max_size limit s b (Inr (0, ec), s1, b1)"
  using reads_unmatched.failing_read [of first_end "contents b" read_some s sizes s1 d ec] assms
  by (auto simp: until_done_def)

lemma db_limit_less: "db_ok b \<Longrightarrow> db_limit b < size_max" "db2_ok b2 \<Longrightarrow> db2_limit b2 < size_max"
  by (cases b; auto simp: dsb_limit_def dsb_ok_def ct_ok_def sb_limit_def sb_ok_def)
    (cases b2; auto simp: dsb_limit_def dsb2_ok_def ct_ok_def)

lemma available_bound: "db_ok b \<Longrightarrow> db_available b 65536 < 2 ^ 31"
  using db_available_facts(1) [of b 65536] by simp

lemma db_bytes_contents: "db_ok b \<Longrightarrow> db_bytes b = db_contents b"
  by (rule db.data_law)

lemma read_until_v1_loop_done:
  assumes sc: "scanner scan first_end valid"
    and conf: "conforming_reader out read_some" and prog: "progressing_reader read_some"
  shows "db_ok b \<Longrightarrow> valid (db_contents b) p \<Longrightarrow> \<exists>r. read_until_v1_loop read_some scan b s p = Some r \<and>
    until_done read_some out first_end db_contents db_ok db_max_size db_limit s b r"
proof (induction "db_max_size b - db_size b" arbitrary: b s p rule: less_induct)
  case less
  note ok = less.prems(1)
  note bytes = db_bytes_contents [OF ok]
  note sz = db.size_law [OF ok]
  show ?case
  proof (cases "scan (db_contents b) p")
    case (Found n)
    then have "first_end (db_contents b) = Some n" by (rule scanner.found_law [OF sc less.prems(2)])
    then show ?thesis using Found bytes ok
      by (subst read_until_v1_loop.simps) (simp add: until_done_def)
  next
    case (Resume p')
    note resume = scanner.resume_law [OF sc less.prems(2) Resume]
    then have none: "first_end (db_contents b) = None" by blast
    show ?thesis
    proof (cases "db_size b = db_max_size b")
      case True
      then show ?thesis using Resume bytes ok sz none
        by (subst read_until_v1_loop.simps) (auto simp: until_done_def failed_def)
    next
      case False
      let ?av = "db_available b 65536"
      have av: "0 < ?av" "?av \<le> db_max_size b - db_size b"
        using db_available_facts(2,3) [OF ok, of 65536] False by auto
      show ?thesis
      proof (cases "db_size b + ?av \<le> db_limit b")
        case exc: False
        then obtain b1 where "db_prepare b ?av = (b1, Inl Length_error)" using db.overflow_law [OF ok] by force
        moreover have "db_limit b < db_max_size b" using exc av(2) sz by linarith
        ultimately show ?thesis using False Resume bytes
          by (subst read_until_v1_loop.simps) (auto simp: until_done_def)
      next
        case fits: True
        obtain s1 d ec where rd: "read_some s [?av] = (s1, d, ec)" by (metis prod_cases3)
        note cr = conforming_readerD [OF conf rd]
        have d: "length d \<le> ?av" "length d < 2 ^ 31" using cr(1) available_bound [OF ok] by auto
        obtain b1 off where b1: "db_prepare b ?av = (b1, Inr (off, ?av))"
          "db_ok (db_commit (db_store b1 off d) (length d))"
          "db_contents (db_commit (db_store b1 off d) (length d)) = db_contents b @ d"
          "db_max_size (db_commit (db_store b1 off d) (length d)) = db_max_size b"
          "db_limit (db_commit (db_store b1 off d) (length d)) = db_limit b"
          using db.fill_law [OF ok fits d(1) db_fits_small [OF d(2)]] by blast
        let ?b2 = "db_commit (db_store b1 off d) (length d)"
        have step: "read_until_v1_loop read_some scan b s p =
            (if failed ec then Some (Inr (0, ec), s1, ?b2) else read_until_v1_loop read_some scan ?b2 s1 p')"
          using False Resume bytes b1(1) rd by (subst read_until_v1_loop.simps) (simp add: Let_def)
        show ?thesis
        proof (cases "failed ec")
          case True
          then show ?thesis unfolding step
            using until_done_failing [where out = out and first_end = first_end and read_some = read_some and b = b and contents = db_contents and ok = db_ok and
                max_size = db_max_size and limit = db_limit, OF cr(2) b1(3-5) b1(2) none rd] by simp
        next
          case ok_code: False
          then have "d \<noteq> []" using prog rd av(1) unfolding progressing_reader_def by fastforce
          then have "0 < length d" by simp
          moreover have "db_size ?b2 = db_size b + length d" using db.size_law [OF b1(2)] sz b1(3) by simp
          ultimately have "db_max_size ?b2 - db_size ?b2 < db_max_size b - db_size b"
            using b1(4) d(1) av(2) by linarith
          moreover have "valid (db_contents ?b2) p'" unfolding b1(3) using resume by blast
          ultimately obtain r where "read_until_v1_loop read_some scan ?b2 s1 p' = Some r"
            "until_done read_some out first_end db_contents db_ok db_max_size db_limit s1 ?b2 r"
            using less.hyps [OF _ b1(2)] by blast
          with ok_code show ?thesis unfolding step
            using until_done_round [where out = out and first_end = first_end and read_some = read_some and b = b and
                contents = db_contents and max_size = db_max_size and limit = db_limit, OF _ cr(2) b1(3-5) none rd] by auto
        qed
      qed
    qed
  qed
qed

lemma read_until_v2_loop_done:
  assumes sc: "scanner scan first_end valid"
    and conf: "conforming_reader out read_some" and prog: "progressing_reader read_some"
  shows "db2_ok b \<Longrightarrow> valid (db2_contents b) p \<Longrightarrow> \<exists>r. read_until_v2_loop read_some scan b s p = Some r \<and>
    until_done read_some out first_end db2_contents db2_ok db2_max_size db2_limit s b r"
proof (induction "db2_max_size b - db2_size b" arbitrary: b s p rule: less_induct)
  case less
  note ok = less.prems(1)
  note bytes = db2_all_bytes [OF ok]
  note sz = db2.size_law [OF ok]
  show ?case
  proof (cases "scan (db2_contents b) p")
    case (Found n)
    then have "first_end (db2_contents b) = Some n" by (rule scanner.found_law [OF sc less.prems(2)])
    then show ?thesis using Found bytes ok
      by (subst read_until_v2_loop.simps) (simp add: until_done_def)
  next
    case (Resume p')
    note resume = scanner.resume_law [OF sc less.prems(2) Resume]
    then have none: "first_end (db2_contents b) = None" by blast
    show ?thesis
    proof (cases "db2_size b = db2_max_size b")
      case True
      then show ?thesis using Resume bytes ok sz none
        by (subst read_until_v2_loop.simps) (auto simp: until_done_def failed_def)
    next
      case False
      let ?av = "db2_available b 65536"
      have av: "0 < ?av" "?av \<le> db2_max_size b - db2_size b"
        using db2_available_facts(2,3) [OF ok, of 65536] False by auto
      show ?thesis
      proof (cases "db2_size b + ?av \<le> db2_limit b")
        case exc: False
        then have "db2_grow b ?av = Inl Length_error" using db2.overflow_law [OF ok] by force
        moreover have "db2_limit b < db2_max_size b" using exc av(2) sz by linarith
        ultimately show ?thesis using False Resume bytes
          by (subst read_until_v2_loop.simps) (auto simp: until_done_def Let_def)
      next
        case fits: True
        obtain s1 d ec where rd: "read_some s [?av] = (s1, d, ec)" by (metis prod_cases3)
        note cr = conforming_readerD [OF conf rd]
        have d: "length d \<le> ?av" using cr(1) by simp
        obtain b1 where grown: "db2_grow b ?av = Inr b1" "db2_data_at b1 (db2_size b) ?av = (db2_size b, ?av)"
          and b1: "db2_ok (db2_shrink (db2_store b1 (db2_size b) d) (?av - length d))"
          "db2_contents (db2_shrink (db2_store b1 (db2_size b) d) (?av - length d)) = db2_contents b @ d"
          "db2_max_size (db2_shrink (db2_store b1 (db2_size b) d) (?av - length d)) = db2_max_size b"
          "db2_limit (db2_shrink (db2_store b1 (db2_size b) d) (?av - length d)) = db2_limit b"
          using db2.grow_law [OF ok fits d] by blast
        let ?b2 = "db2_shrink (db2_store b1 (db2_size b) d) (?av - length d)"
        have step: "read_until_v2_loop read_some scan b s p =
            (if failed ec then Some (Inr (0, ec), s1, ?b2) else read_until_v2_loop read_some scan ?b2 s1 p')"
          using False Resume bytes grown rd d by (subst read_until_v2_loop.simps) (simp add: Let_def)
        show ?thesis
        proof (cases "failed ec")
          case True
          then show ?thesis unfolding step
            using until_done_failing [where out = out and first_end = first_end and read_some = read_some and b = b and contents = db2_contents and ok = db2_ok and
                max_size = db2_max_size and limit = db2_limit, OF cr(2) b1(2-4) b1(1) none rd] by simp
        next
          case ok_code: False
          then have "d \<noteq> []" using prog rd av(1) unfolding progressing_reader_def by fastforce
          then have "0 < length d" by simp
          moreover have "db2_size ?b2 = db2_size b + length d" using db2.size_law [OF b1(1)] sz b1(2) by simp
          ultimately have "db2_max_size ?b2 - db2_size ?b2 < db2_max_size b - db2_size b"
            using b1(3) d av(2) by linarith
          moreover have "valid (db2_contents ?b2) p'" unfolding b1(2) using resume by blast
          ultimately obtain r where "read_until_v2_loop read_some scan ?b2 s1 p' = Some r"
            "until_done read_some out first_end db2_contents db2_ok db2_max_size db2_limit s1 ?b2 r"
            using less.hyps [OF _ b1(1)] by blast
          with ok_code show ?thesis unfolding step
            using until_done_round [where out = out and first_end = first_end and read_some = read_some and b = b and
                contents = db2_contents and max_size = db2_max_size and limit = db2_limit, OF _ cr(2) b1(2-4) none rd] by auto
        qed
      qed
    qed
  qed
qed

section \<open>The asynchronous operations without cancellation\<close>

lemma run_ru1_eq:
  assumes sc: "scanner scan first_end valid"
    and conf: "conforming_reader out read_some" and prog: "progressing_reader read_some"
  shows "db_ok (ru1_buffers op) \<Longrightarrow> cs_cancelled (ru1_cancel op) = ct_none \<Longrightarrow>
    valid (db_contents (ru1_buffers op)) (ru1_search_position op) \<Longrightarrow>
    start = 0 \<or> (\<exists>p'. scan (db_contents (ru1_buffers op)) (ru1_search_position op) = Resume p') \<and>
      db_size (ru1_buffers op) \<noteq> db_max_size (ru1_buffers op) \<Longrightarrow>
    (case ru1_round scan op Ok_code start of (op1, act) \<Rightarrow> run_ru1 read_some scan op1 act s) =
      read_until_v1_loop read_some scan (ru1_buffers op) s (ru1_search_position op)"
proof (induction "db_max_size (ru1_buffers op) - db_size (ru1_buffers op)" arbitrary: op s start rule: less_induct)
  case less
  let ?b = "ru1_buffers op"
  let ?p = "ru1_search_position op"
  note ok = less.prems(1)
  note bytes = db_bytes_contents [OF ok]
  note sz = db.size_law [OF ok]
  have small: "length (db_contents ?b) < size_max"
    using sz db.limit_law [OF ok] db_limit_less(1) [OF ok] by linarith
  show ?case
  proof (cases "scan (db_contents ?b) ?p")
    case (Found n)
    then have "first_end (db_contents ?b) = Some n" by (rule scanner.found_law [OF sc less.prems(3)])
    then have "n \<le> length (db_contents ?b)" using scanner.stable [OF sc] by blast
    then have "n \<noteq> size_max" using small by linarith
    moreover have "start = 0" using less.prems(4) Found by auto
    ultimately show ?thesis using Found bytes
      by (subst read_until_v1_loop.simps) (simp add: ru1_round_def ru_search_def ru_finish_def run_ru1.simps)
  next
    case (Resume p')
    show ?thesis
    proof (cases "db_size ?b = db_max_size ?b")
      case True
      then have "start = 0" using less.prems(4) by auto
      then show ?thesis using True Resume bytes
        by (subst read_until_v1_loop.simps) (simp add: ru1_round_def ru_search_def ru_finish_def run_ru1.simps)
    next
      case False
      let ?av = "db_available ?b 65536"
      have av: "0 < ?av" "?av \<le> db_max_size ?b - db_size ?b"
        using db_available_facts(2,3) [OF ok, of 65536] False by auto
      show ?thesis
      proof (cases "db_size ?b + ?av \<le> db_limit ?b")
        case exc: False
        then obtain b1 where "db_prepare ?b ?av = (b1, Inl Length_error)" using db.overflow_law [OF ok] by force
        then show ?thesis using False Resume bytes av
          by (subst read_until_v1_loop.simps) (simp add: ru1_round_def ru_search_def run_ru1.simps)
      next
        case fits: True
        obtain s1 d ec where rd: "read_some s [?av] = (s1, d, ec)" by (metis prod_cases3)
        have d: "length d \<le> ?av" "length d < 2 ^ 31"
          using conforming_readerD(1) [OF conf rd] available_bound [OF ok] by auto
        obtain b1 off where b1: "db_prepare ?b ?av = (b1, Inr (off, ?av))"
          "db_ok (db_commit (db_store b1 off d) (length d))"
          "db_contents (db_commit (db_store b1 off d) (length d)) = db_contents ?b @ d"
          "db_max_size (db_commit (db_store b1 off d) (length d)) = db_max_size ?b"
          using db.fill_law [OF ok fits d(1) db_fits_small [OF d(2)]] by blast
        let ?b2 = "db_commit (db_store b1 off d) (length d)"
        let ?op2 = "op\<lparr>ru1_search_position := p', ru1_start := 0, ru1_buffers := ?b2\<rparr>"
        have some: "failed ec \<or> d \<noteq> []" using prog rd av(1) unfolding progressing_reader_def by fastforce
        have val: "valid (db_contents ?b) p'" "valid (db_contents ?b2) p'"
          using scanner.resume_law [OF sc less.prems(3) Resume, of "[]"]
            scanner.resume_law [OF sc less.prems(3) Resume, of d] b1(3) by simp_all
        have "p' \<le> length (db_contents ?b)" by (rule scanner.valid_bound [OF sc val(1)])
        then have p': "p' \<noteq> size_max" using small by linarith
        have sync: "read_until_v1_loop read_some scan ?b s ?p =
            (if failed ec then Some (Inr (0, ec), s1, ?b2) else read_until_v1_loop read_some scan ?b2 s1 p')"
          using False Resume bytes b1(1) rd by (subst read_until_v1_loop.simps) (simp add: Let_def)
        have round: "ru1_round scan op Ok_code start =
            (op\<lparr>ru1_search_position := p', ru1_buffers := b1\<rparr>, Dyn_issue (off, ?av))"
          using False Resume bytes b1(1) av by (simp add: ru1_round_def ru_search_def)
        have call: "read_until_call_v1 scan (op\<lparr>ru1_search_position := p', ru1_buffers := db_store b1 off d\<rparr>)
              ec (length d) 0 =
            (if failed ec then (?op2, Dyn_invoke ec 0) else ru1_round scan ?op2 ec 0)"
          using some less.prems(2) p' by (auto simp: read_until_call_v1_def Let_def ru_finish_def)
        have async: "(case ru1_round scan op Ok_code start of (op1, act) \<Rightarrow> run_ru1 read_some scan op1 act s) =
            (case (if failed ec then (?op2, Dyn_invoke ec 0) else ru1_round scan ?op2 ec 0) of
              (op1, act) \<Rightarrow> run_ru1 read_some scan op1 act s1)"
          unfolding round using rd call by (simp add: run_ru1.simps [of _ _ _ "Dyn_issue (off, ?av)"])
        show ?thesis
        proof (cases "failed ec")
          case True
          then show ?thesis unfolding async sync by (simp add: run_ru1.simps)
        next
          case ok_code: False
          then have "0 < length d" using some by simp
          moreover have "db_size ?b2 = db_size ?b + length d" using db.size_law [OF b1(2)] sz b1(3) by simp
          ultimately have "db_max_size ?b2 - db_size ?b2 < db_max_size ?b - db_size ?b"
            using b1(4) d(1) av(2) by linarith
          then have "db_max_size (ru1_buffers ?op2) - db_size (ru1_buffers ?op2) < db_max_size ?b - db_size ?b"
            by simp
          from less.hyps [OF this, of 0 s1] b1(2,4) val(2) less.prems(2) ok_code
          show ?thesis unfolding async sync by (simp add: not_failed_iff)
        qed
      qed
    qed
  qed
qed

lemma run_ru2_eq:
  assumes sc: "scanner scan first_end valid"
    and conf: "conforming_reader out read_some" and prog: "progressing_reader read_some"
  shows "db2_ok (ru2_buffers op) \<Longrightarrow> cs_cancelled (ru2_cancel op) = ct_none \<Longrightarrow>
    valid (db2_contents (ru2_buffers op)) (ru2_search_position op) \<Longrightarrow>
    start = 0 \<or> (\<exists>p'. scan (db2_contents (ru2_buffers op)) (ru2_search_position op) = Resume p') \<and>
      db2_size (ru2_buffers op) \<noteq> db2_max_size (ru2_buffers op) \<Longrightarrow>
    (case ru2_round scan op Ok_code start of (op1, act) \<Rightarrow> run_ru2 read_some scan op1 act s) =
      read_until_v2_loop read_some scan (ru2_buffers op) s (ru2_search_position op)"
proof (induction "db2_max_size (ru2_buffers op) - db2_size (ru2_buffers op)" arbitrary: op s start rule: less_induct)
  case less
  let ?b = "ru2_buffers op"
  let ?p = "ru2_search_position op"
  note ok = less.prems(1)
  note bytes = db2_all_bytes [OF ok]
  note sz = db2.size_law [OF ok]
  have small: "length (db2_contents ?b) < size_max"
    using sz db2.limit_law [OF ok] db_limit_less(2) [OF ok] by linarith
  show ?case
  proof (cases "scan (db2_contents ?b) ?p")
    case (Found n)
    then have "first_end (db2_contents ?b) = Some n" by (rule scanner.found_law [OF sc less.prems(3)])
    then have "n \<le> length (db2_contents ?b)" using scanner.stable [OF sc] by blast
    then have "n \<noteq> size_max" using small by linarith
    moreover have "start = 0" using less.prems(4) Found by auto
    ultimately show ?thesis using Found bytes
      by (subst read_until_v2_loop.simps) (simp add: ru2_round_def ru_search_def ru_finish_def run_ru2.simps)
  next
    case (Resume p')
    show ?thesis
    proof (cases "db2_size ?b = db2_max_size ?b")
      case True
      then have "start = 0" using less.prems(4) by auto
      then show ?thesis using True Resume bytes
        by (subst read_until_v2_loop.simps) (simp add: ru2_round_def ru_search_def ru_finish_def run_ru2.simps)
    next
      case False
      let ?av = "db2_available ?b 65536"
      have av: "0 < ?av" "?av \<le> db2_max_size ?b - db2_size ?b"
        using db2_available_facts(2,3) [OF ok, of 65536] False by auto
      show ?thesis
      proof (cases "db2_size ?b + ?av \<le> db2_limit ?b")
        case exc: False
        then have "db2_grow ?b ?av = Inl Length_error" using db2.overflow_law [OF ok] by force
        then show ?thesis using False Resume bytes av
          by (subst read_until_v2_loop.simps) (simp add: ru2_round_def ru_search_def run_ru2.simps Let_def)
      next
        case fits: True
        obtain s1 d ec where rd: "read_some s [?av] = (s1, d, ec)" by (metis prod_cases3)
        have d: "length d \<le> ?av" using conforming_readerD(1) [OF conf rd] by simp
        obtain b1 where grown: "db2_grow ?b ?av = Inr b1" "db2_data_at b1 (db2_size ?b) ?av = (db2_size ?b, ?av)"
          and b1: "db2_ok (db2_shrink (db2_store b1 (db2_size ?b) d) (?av - length d))"
          "db2_contents (db2_shrink (db2_store b1 (db2_size ?b) d) (?av - length d)) = db2_contents ?b @ d"
          "db2_max_size (db2_shrink (db2_store b1 (db2_size ?b) d) (?av - length d)) = db2_max_size ?b"
          using db2.grow_law [OF ok fits d] by blast
        let ?b2 = "db2_shrink (db2_store b1 (db2_size ?b) d) (?av - length d)"
        let ?op1 = "op\<lparr>ru2_search_position := p', ru2_bytes_to_read := ?av, ru2_buffers := b1\<rparr>"
        let ?op2 = "op\<lparr>ru2_search_position := p', ru2_bytes_to_read := ?av, ru2_start := 0, ru2_buffers := ?b2\<rparr>"
        have some: "failed ec \<or> d \<noteq> []" using prog rd av(1) unfolding progressing_reader_def by fastforce
        have val: "valid (db2_contents ?b) p'" "valid (db2_contents ?b2) p'"
          using scanner.resume_law [OF sc less.prems(3) Resume, of "[]"]
            scanner.resume_law [OF sc less.prems(3) Resume, of d] b1(2) by simp_all
        have "p' \<le> length (db2_contents ?b)" by (rule scanner.valid_bound [OF sc val(1)])
        then have p': "p' \<noteq> size_max" using small by linarith
        have sync: "read_until_v2_loop read_some scan ?b s ?p =
            (if failed ec then Some (Inr (0, ec), s1, ?b2) else read_until_v2_loop read_some scan ?b2 s1 p')"
          using False Resume bytes grown rd d by (subst read_until_v2_loop.simps) (simp add: Let_def)
        have round: "ru2_round scan op Ok_code start =
            (?op1, Dyn_issue (db2_size ?b, ?av))"
          using False Resume bytes grown av by (simp add: ru2_round_def ru_search_def Let_def)
        have call: "read_until_call_v2 scan (?op1\<lparr>ru2_buffers := db2_store b1 (db2_size ?b) d\<rparr>)
              ec (length d) 0 =
            (if failed ec then (?op2, Dyn_invoke ec 0) else ru2_round scan ?op2 ec 0)"
          using some less.prems(2) p' d by (auto simp: read_until_call_v2_def Let_def ru_finish_def)
        have async: "(case ru2_round scan op Ok_code start of (op1, act) \<Rightarrow> run_ru2 read_some scan op1 act s) =
            (case (if failed ec then (?op2, Dyn_invoke ec 0) else ru2_round scan ?op2 ec 0) of
              (op1, act) \<Rightarrow> run_ru2 read_some scan op1 act s1)"
          unfolding round using rd call by (simp add: run_ru2.simps [of _ _ _ "Dyn_issue (db2_size ?b, ?av)"])
        show ?thesis
        proof (cases "failed ec")
          case True
          then show ?thesis unfolding async sync by (simp add: run_ru2.simps)
        next
          case ok_code: False
          then have "0 < length d" using some by simp
          moreover have "db2_size ?b2 = db2_size ?b + length d" using db2.size_law [OF b1(1)] sz b1(2) by simp
          ultimately have "db2_max_size ?b2 - db2_size ?b2 < db2_max_size ?b - db2_size ?b"
            using b1(3) d av(2) by linarith
          then have "db2_max_size (ru2_buffers ?op2) - db2_size (ru2_buffers ?op2) < db2_max_size ?b - db2_size ?b"
            by simp
          from less.hyps [OF this, of 0 s1] b1(1,3) val(2) less.prems(2) ok_code
          show ?thesis unfolding async sync by (simp add: not_failed_iff)
        qed
      qed
    qed
  qed
qed

section \<open>The properties\<close>

lemma read_until_v2_loop_start:
  assumes "scanner scan first_end valid" "conforming_reader out read_some" "progressing_reader read_some" "db2_ok b"
  shows "\<exists>r. read_until_v2_loop read_some scan b s 0 = Some r \<and>
    until_done read_some out first_end db2_contents db2_ok db2_max_size db2_limit s b r"
  using read_until_v2_loop_done [OF assms(1-4)] scanner.valid_start [OF assms(1)] by blast

lemma read_until_v1_loop_start:
  assumes "scanner scan first_end valid" "conforming_reader out read_some" "progressing_reader read_some" "db_ok b"
  shows "\<exists>r. read_until_v1_loop read_some scan b s 0 = Some r \<and>
    until_done read_some out first_end db_contents db_ok db_max_size db_limit s b r"
  using read_until_v1_loop_done [OF assms(1-4)] scanner.valid_start [OF assms(1)] by blast

text \<open>C30: \<open>read_until\<close> for a non-empty delimiter string always returns, over a stream whose reads
  deliver something or fail (\<open>until_done\<close>). It appends what the stream delivered to the buffer; success
  means that the count is the end of the first occurrence of the delimiter in the buffer, whichever
  reads the delimiter was split over; each of its reads is made while the buffer holds no
  delimiter, and none after a read that failed (\<open>reads_unmatched\<close>), so it never reads once the
  delimiter is there; a failure returns zero and either \<open>not_found\<close> with a full buffer without the
  delimiter, or the error of the last read; and the only exception is \<open>length_error\<close>, when the
  container cannot hold the buffer's maximum size.\<close>

theorem read_until_string_correct:
  assumes "conforming_reader out read_some" "progressing_reader read_some" "db_ok b" "db2_ok b2"
  shows "(\<exists>r. read_until_string_v1 read_some s b (d # ds) = Some r \<and>
      until_done read_some out (string_end (d # ds)) db_contents db_ok db_max_size db_limit s b r) \<and>
    (\<exists>r. read_until_string_v2 read_some s b2 (d # ds) = Some r \<and>
      until_done read_some out (string_end (d # ds)) db2_contents db2_ok db2_max_size db2_limit s b2 r)"
  unfolding read_until_string_v1_def read_until_string_v2_def
  using read_until_v1_loop_start [OF string_search.scanner_axioms assms(1-3)]
    read_until_v2_loop_start [OF string_search.scanner_axioms assms(1,2,4)] by blast

theorem read_until_string_correct_witness:
  "\<exists>r. read_until_string_v1 chunk_reader ([], [1, 13, 10]) (Dyn_string demo_dsb) [13, 10] = Some r"
  using read_until_string_correct [OF chunk_reader_conforming chunk_reader_progressing demo_dsb_facts(1,6)] by blast

text \<open>the same for a character: success means the count ends just behind the first occurrence of the
  delimiter character.\<close>

theorem read_until_char_correct:
  assumes "conforming_reader out read_some" "progressing_reader read_some" "db_ok b" "db2_ok b2"
  shows "(\<exists>r. read_until_char_v1 read_some s b delim = Some r \<and>
      until_done read_some out (char_end delim) db_contents db_ok db_max_size db_limit s b r) \<and>
    (\<exists>r. read_until_char_v2 read_some s b2 delim = Some r \<and>
      until_done read_some out (char_end delim) db2_contents db2_ok db2_max_size db2_limit s b2 r)"
  unfolding read_until_char_v1_def read_until_char_v2_def
  using read_until_v1_loop_start [OF char_search.scanner_axioms assms(1-3)]
    read_until_v2_loop_start [OF char_search.scanner_axioms assms(1,2,4)] by blast

theorem read_until_char_correct_witness:
  "\<exists>r. read_until_char_v1 chunk_reader ([], [1, 13, 10]) (Dyn_string demo_dsb) 10 = Some r"
  using read_until_char_correct [OF chunk_reader_conforming chunk_reader_progressing demo_dsb_facts(1,6)] by blast

text \<open>C31: without cancellation, \<open>async_read_until\<close> with any search that meets the contract \<open>scanner\<close>, over a
  stream whose reads deliver something or fail, started on a buffer without a match that is below
  its maximum size, gives exactly the result of the synchronous \<open>read_until\<close>, in both versions and
  for any maximum size, the default one included.\<close>

theorem async_read_until_is_read_until:
  assumes "scanner scan first_end valid" "conforming_reader out read_some" "progressing_reader read_some"
    and "db_ok b" "first_end (db_contents b) = None" "db_size b < db_max_size b"
    and "db2_ok b2" "first_end (db2_contents b2) = None" "db2_size b2 < db2_max_size b2"
  shows "async_read_until_v1 read_some scan s b = read_until_v1_loop read_some scan b s 0 \<and>
    async_read_until_v2 read_some scan s b2 = read_until_v2_loop read_some scan b2 s 0"
proof
  have resume: "\<exists>p'. scan bytes 0 = Resume p'" if "first_end bytes = None" for bytes
    using scanner.found_law [OF assms(1) scanner.valid_start [OF assms(1)]] that
    by (cases "scan bytes 0") fastforce+
  show "async_read_until_v1 read_some scan s b = read_until_v1_loop read_some scan b s 0"
    using run_ru1_eq [OF assms(1-3), of "\<lparr>ru1_buffers = b, ru1_start = 1, ru1_search_position = 0, ru1_cancel = None\<rparr>" 1 s]
      resume [OF assms(5)] assms(4,6) scanner.valid_start [OF assms(1)]
    by (simp add: async_read_until_v1_def read_until_call_v1_def cs_cancelled_def ct_none_def)
  show "async_read_until_v2 read_some scan s b2 = read_until_v2_loop read_some scan b2 s 0"
    using run_ru2_eq [OF assms(1-3), of "\<lparr>ru2_buffers = b2, ru2_start = 1, ru2_search_position = 0,
        ru2_bytes_to_read = 0, ru2_cancel = None\<rparr>" 1 s]
      resume [OF assms(8)] assms(7,9) scanner.valid_start [OF assms(1)]
    by (simp add: async_read_until_v2_def read_until_call_v2_def cs_cancelled_def ct_none_def)
qed

theorem async_read_until_is_read_until_witness:
  "async_read_until_v1 chunk_reader (char_scan 10) ([], [1, 13, 10]) (Dyn_string demo_dsb) =
     read_until_v1_loop chunk_reader (char_scan 10) (Dyn_string demo_dsb) ([], [1, 13, 10]) 0"
proof -
  have c: "db_contents (Dyn_string demo_dsb) = [9]"
    using demo_dsb_facts(2) db_bytes_contents [OF demo_dsb_facts(1)] by simp
  have e: "char_end 10 [9] = None" by code_simp
  show ?thesis
    using async_read_until_is_read_until [OF char_search.scanner_axioms chunk_reader_conforming
        chunk_reader_progressing demo_dsb_facts(1) _ _ demo_dsb_facts(6)]
      demo_dsb_facts c e by (simp del: db_contents.simps db_size.simps db_max_size.simps
        db2_contents.simps db2_size.simps db2_max_size.simps)
qed

text \<open>an asynchronous read that completes with no bytes and no error ends \<open>async_read_until\<close> at once,
  successfully, with the current search position as the count, although no match was found.\<close>

theorem async_read_until_zero_read:
  assumes "ru1_search_position op1 \<noteq> size_max" "ru2_search_position op2 \<noteq> size_max"
  shows "snd (read_until_call_v1 scan op1 Ok_code 0 0) = Dyn_invoke Ok_code (ru1_search_position op1) \<and>
    snd (read_until_call_v2 scan op2 Ok_code 0 0) = Dyn_invoke Ok_code (ru2_search_position op2)"
  using assms by (simp add: read_until_call_v1_def read_until_call_v2_def ru_finish_def Let_def)

theorem async_read_until_zero_read_witness:
  "snd (read_until_call_v1 (char_scan 10) \<lparr>ru1_buffers = Dyn_string demo_dsb, ru1_start = 0,
     ru1_search_position = 1, ru1_cancel = None\<rparr> Ok_code 0 0) = Dyn_invoke Ok_code 1"
proof -
  have "(1 :: nat) \<noteq> size_max" by (simp add: size_max_def)
  then show ?thesis
    using async_read_until_zero_read [of "\<lparr>ru1_buffers = Dyn_string demo_dsb, ru1_start = 0,
        ru1_search_position = 1, ru1_cancel = None\<rparr>" "\<lparr>ru2_buffers = Dyn2_string demo_dsb, ru2_start = 0,
        ru2_search_position = 1, ru2_bytes_to_read = 0, ru2_cancel = None\<rparr>" "char_scan 10"]
    by (simp del: One_nat_def)
qed

end
