(* ===== verification/Scheduler.thy ===== *)
theory Scheduler
  imports Prelude
begin

text \<open>
  The scheduler of \<open>detail/scheduler.hpp\<close> and \<open>detail/impl/scheduler.ipp\<close>, the event it
  sleeps on (\<open>detail/posix_event.hpp\<close>, \<open>detail/conditionally_enabled_event.hpp\<close>) and the
  threads that call \<open>run\<close>, \<open>run_one\<close>, \<open>wait_one\<close>, \<open>poll\<close> and \<open>poll_one\<close>.

  The code runs under one mutex. Every stretch it executes between taking and releasing the
  mutex is one function here from the scheduler to the scheduler, to what it tells the outside
  (a signal of the condition variable, an interrupt of the task) and to where the thread
  continues. The step relation interleaves those stretches, the atomic updates of
  \<open>outstanding_work_\<close> made without the mutex, and the waits of any number of threads. What a
  handler does between two calls of the scheduler, and when the task returns, is left open:
  any call may happen in any order.
\<close>

section \<open>Concurrency hints\<close>

definition CONCURRENCY_HINT_ID :: "32 word" where
  "CONCURRENCY_HINT_ID = 0xA5100000"

definition CONCURRENCY_HINT_ID_MASK :: "32 word" where
  "CONCURRENCY_HINT_ID_MASK = 0xFFFF0000"

definition LOCKING_SCHEDULER :: "32 word" where
  "LOCKING_SCHEDULER = 1"

definition LOCKING_REACTOR_REGISTRATION :: "32 word" where
  "LOCKING_REACTOR_REGISTRATION = 2"

definition LOCKING_REACTOR_IO :: "32 word" where
  "LOCKING_REACTOR_IO = 4"

definition hint_is_special :: "32 word \<Rightarrow> bool" where
  "hint_is_special hint \<longleftrightarrow> and hint CONCURRENCY_HINT_ID_MASK = CONCURRENCY_HINT_ID"

definition hint_is_locking :: "32 word \<Rightarrow> 32 word \<Rightarrow> bool" where
  "hint_is_locking facility hint \<longleftrightarrow>
     xor (and hint (or CONCURRENCY_HINT_ID_MASK facility)) CONCURRENCY_HINT_ID \<noteq> 0"

section \<open>State\<close>

text \<open>
  Operations. \<open>Task_operation\<close> is the sentinel \<open>task_operation_\<close> that stands for the reactor
  in the queue. An \<open>Operation\<close> is one the caller has counted as work; an
  \<open>Uncounted_operation\<close> is one the task queues for itself without having counted it, which
  must therefore either finish work counted for another operation or call
  \<open>compensating_work_started\<close>.
\<close>

datatype sop = Task_operation | Operation nat | Uncounted_operation nat

record scheduler =
  one_thread :: bool
  mutex_enabled :: bool
  wakeup_event :: nat
  has_task :: bool
  task_interrupted :: bool
  outstanding_work :: int
  op_queue_ops :: "sop list"
  stopped :: bool
  shut_down :: bool

text \<open>
  The constructor. \<open>own_thread\<close> counts one piece of work, so that the internal thread keeps
  running.
\<close>

definition scheduler_new :: "32 word \<Rightarrow> bool \<Rightarrow> scheduler" where
  "scheduler_new hint own_thread =
     \<lparr> one_thread = (hint = 1 \<or> \<not> hint_is_locking LOCKING_SCHEDULER hint
                      \<or> \<not> hint_is_locking LOCKING_REACTOR_IO hint),
       mutex_enabled = hint_is_locking LOCKING_SCHEDULER hint,
       wakeup_event = 0,
       has_task = False,
       task_interrupted = True,
       outstanding_work = (if own_thread then 1 else 0),
       op_queue_ops = [],
       stopped = False,
       shut_down = False \<rparr>"

text \<open>\<open>scheduler_thread_info\<close>: what a thread inside the scheduler keeps for itself.\<close>

record thread_info =
  private_op_queue :: "sop list"
  private_outstanding_work :: int

definition thread_info_new :: thread_info where
  "thread_info_new = \<lparr> private_op_queue = [], private_outstanding_work = 0 \<rparr>"

section \<open>The event\<close>

text \<open>
  The event's word: its lowest bit says that it is signalled, the rest counts twice the threads
  inside \<open>wait\<close>. What a call asks of the condition variable is a value; the step relation
  delivers it.
\<close>

datatype cond_signal = Cond_none | Cond_signal | Cond_broadcast

definition event_signal_all :: "nat \<Rightarrow> nat \<times> cond_signal" where
  "event_signal_all st = (or st 1, Cond_broadcast)"

definition event_unlock_and_signal_one :: "nat \<Rightarrow> nat \<times> cond_signal" where
  "event_unlock_and_signal_one st =
     (let st = or st 1 in (st, if st > 1 then Cond_signal else Cond_none))"

definition event_maybe_unlock_and_signal_one :: "nat \<Rightarrow> nat \<times> cond_signal \<times> bool" where
  "event_maybe_unlock_and_signal_one st =
     (let st = or st 1 in if st > 1 then (st, Cond_signal, True) else (st, Cond_none, False))"

definition event_clear :: "nat \<Rightarrow> nat" where
  "event_clear st = st - st mod 2"

text \<open>The two halves of a wait: blocking, and what a thread that has the mutex again does.\<close>

definition event_wait_enter :: "nat \<Rightarrow> nat" where
  "event_wait_enter st = st + 2"

definition event_wait_leave :: "nat \<Rightarrow> nat" where
  "event_wait_leave st = st - 2"

definition event_signalled :: "nat \<Rightarrow> bool" where
  "event_signalled st \<longleftrightarrow> st mod 2 \<noteq> 0"

text \<open>The conditionally enabled event does nothing when the scheduler's mutex is disabled.\<close>

definition cond_signal_all :: "scheduler \<Rightarrow> scheduler \<times> cond_signal" where
  "cond_signal_all s =
     (if mutex_enabled s
      then (let (st, c) = event_signal_all (wakeup_event s) in (s\<lparr>wakeup_event := st\<rparr>, c))
      else (s, Cond_none))"

definition cond_unlock_and_signal_one :: "scheduler \<Rightarrow> scheduler \<times> cond_signal" where
  "cond_unlock_and_signal_one s =
     (if mutex_enabled s
      then (let (st, c) = event_unlock_and_signal_one (wakeup_event s) in (s\<lparr>wakeup_event := st\<rparr>, c))
      else (s, Cond_none))"

definition cond_maybe_unlock_and_signal_one :: "scheduler \<Rightarrow> scheduler \<times> cond_signal \<times> bool" where
  "cond_maybe_unlock_and_signal_one s =
     (if mutex_enabled s
      then (let (st, c, b) = event_maybe_unlock_and_signal_one (wakeup_event s)
            in (s\<lparr>wakeup_event := st\<rparr>, c, b))
      else (s, Cond_none, False))"

definition cond_clear_and_wait :: "scheduler \<Rightarrow> scheduler" where
  "cond_clear_and_wait s =
     (if mutex_enabled s
      then s\<lparr>wakeup_event := event_wait_enter (event_clear (wakeup_event s))\<rparr>
      else s)"

section \<open>What a stretch of code under the mutex does\<close>

text \<open>
  Its effects on the outside: the condition variable and whether it called
  \<open>task_->interrupt()\<close>.
\<close>

type_synonym sched_effect = "cond_signal \<times> bool"

abbreviation no_effect :: sched_effect where
  "no_effect \<equiv> (Cond_none, False)"

text \<open>
  Where the thread continues after the mutex is released: in \<open>task_->run(usec, ...)\<close>, in
  \<open>o->complete(...)\<close>, in a wait on the event, or out of the \<open>do_..._one\<close> function with result
  zero.
\<close>

datatype sched_next = Go_task int | Go_op sop | Go_wait | Go_return

definition stop_all_threads :: "scheduler \<Rightarrow> scheduler \<times> sched_effect" where
  "stop_all_threads s =
     (let (s, c) = cond_signal_all (s\<lparr>stopped := True\<rparr>)
      in if \<not> task_interrupted s \<and> has_task s
         then (s\<lparr>task_interrupted := True\<rparr>, (c, True))
         else (s, (c, False)))"

definition wake_one_thread_and_unlock :: "scheduler \<Rightarrow> scheduler \<times> sched_effect" where
  "wake_one_thread_and_unlock s =
     (let (s, c, b) = cond_maybe_unlock_and_signal_one s
      in if b then (s, (c, False))
         else if \<not> task_interrupted s \<and> has_task s
              then (s\<lparr>task_interrupted := True\<rparr>, (c, True))
              else (s, (c, False)))"

definition sched_stop :: "scheduler \<Rightarrow> scheduler \<times> sched_effect" where
  "sched_stop s = stop_all_threads s"

definition sched_stopped :: "scheduler \<Rightarrow> bool" where
  "sched_stopped s = stopped s"

definition sched_restart :: "scheduler \<Rightarrow> scheduler" where
  "sched_restart s = s\<lparr>stopped := False\<rparr>"

definition init_task :: "scheduler \<Rightarrow> scheduler \<times> sched_effect" where
  "init_task s =
     (if \<not> shut_down s \<and> \<not> has_task s
      then wake_one_thread_and_unlock
             (s\<lparr>has_task := True, op_queue_ops := op_queue_ops s @ [Task_operation]\<rparr>)
      else (s, no_effect))"

text \<open>The atomic counter, changed without the mutex; \<open>work_finished\<close> also tells whether it is
  to call \<open>stop\<close>.\<close>

definition work_started :: "scheduler \<Rightarrow> scheduler" where
  "work_started s = s\<lparr>outstanding_work := outstanding_work s + 1\<rparr>"

definition work_increment :: "int \<Rightarrow> scheduler \<Rightarrow> scheduler" where
  "work_increment n s = s\<lparr>outstanding_work := outstanding_work s + n\<rparr>"

definition work_finished :: "scheduler \<Rightarrow> scheduler \<times> bool" where
  "work_finished s =
     (let s = s\<lparr>outstanding_work := outstanding_work s - 1\<rparr> in (s, outstanding_work s = 0))"

definition compensating_work_started :: "thread_info \<Rightarrow> thread_info" where
  "compensating_work_started ti =
     ti\<lparr>private_outstanding_work := private_outstanding_work ti + 1\<rparr>"

text \<open>
  Taking a handler off the front: the tail of \<open>do_wait_one\<close> and \<open>do_poll_one\<close> and the
  second branch of \<open>do_run_one\<close>.
\<close>

definition take_handler :: "sop \<Rightarrow> sop list \<Rightarrow> scheduler \<Rightarrow> scheduler \<times> sched_effect \<times> sched_next" where
  "take_handler opn rest s =
     (let s = s\<lparr>op_queue_ops := rest\<rparr>;
          more_handlers = (rest \<noteq> []);
          (s, e) = (if more_handlers \<and> \<not> one_thread s
                    then wake_one_thread_and_unlock s else (s, no_effect))
      in (s, e, Go_op opn))"

text \<open>Taking the task off the front, in \<open>do_run_one\<close> and \<open>do_wait_one\<close>.\<close>

definition take_task :: "int \<Rightarrow> sop list \<Rightarrow> scheduler \<Rightarrow> scheduler \<times> sched_effect \<times> sched_next" where
  "take_task usec rest s =
     (let more_handlers = (rest \<noteq> []);
          s = s\<lparr>op_queue_ops := rest, task_interrupted := more_handlers\<rparr>;
          (s, c) = (if more_handlers \<and> \<not> one_thread s
                    then cond_unlock_and_signal_one s else (s, Cond_none))
      in (s, (c, False), Go_task (if more_handlers then 0 else usec)))"

text \<open>One turn of the loop of \<open>do_run_one\<close>, up to where it gives up the mutex.\<close>

definition do_run_one :: "scheduler \<Rightarrow> scheduler \<times> sched_effect \<times> sched_next" where
  "do_run_one s =
     (if stopped s then (s, no_effect, Go_return)
      else case op_queue_ops s of
        [] \<Rightarrow> (cond_clear_and_wait s, no_effect, Go_wait)
      | opn # rest \<Rightarrow>
          if opn = Task_operation then take_task (-1) rest s else take_handler opn rest s)"

text \<open>
  \<open>do_wait_one\<close>: its part before the wait, the part after it (it waits at most once, and
  then polls), and the part after the task has run.
\<close>

definition wait_one_front :: "int \<Rightarrow> scheduler \<Rightarrow> scheduler \<times> sched_effect \<times> sched_next" where
  "wait_one_front usec s =
     (case op_queue_ops s of
        [] \<Rightarrow> (s, no_effect, Go_return)
      | opn # rest \<Rightarrow>
          if opn = Task_operation then take_task usec rest s else take_handler opn rest s)"

definition do_wait_one :: "int \<Rightarrow> scheduler \<Rightarrow> scheduler \<times> sched_effect \<times> sched_next" where
  "do_wait_one usec s =
     (if stopped s then (s, no_effect, Go_return)
      else if op_queue_ops s = [] then (cond_clear_and_wait s, no_effect, Go_wait)
      else wait_one_front usec s)"

definition wait_one_after_task :: "scheduler \<Rightarrow> scheduler \<times> sched_effect \<times> sched_next" where
  "wait_one_after_task s =
     (case op_queue_ops s of
        [] \<Rightarrow> (s, no_effect, Go_return)
      | opn # rest \<Rightarrow>
          if opn = Task_operation
          then (if \<not> one_thread s
                then (let (s, c, b) = cond_maybe_unlock_and_signal_one s
                      in (s, (c, False), Go_return))
                else (s, no_effect, Go_return))
          else take_handler opn rest s)"

text \<open>\<open>do_poll_one\<close>: its part before and after the task has run.\<close>

definition poll_one_after_task :: "scheduler \<Rightarrow> scheduler \<times> sched_effect \<times> sched_next" where
  "poll_one_after_task s =
     (case op_queue_ops s of
        [] \<Rightarrow> (s, no_effect, Go_return)
      | opn # rest \<Rightarrow>
          if opn = Task_operation
          then (let (s, c, b) = cond_maybe_unlock_and_signal_one s
                in (s, (c, False), Go_return))
          else take_handler opn rest s)"

definition do_poll_one :: "scheduler \<Rightarrow> scheduler \<times> sched_effect \<times> sched_next" where
  "do_poll_one s =
     (if stopped s then (s, no_effect, Go_return)
      else case op_queue_ops s of
        [] \<Rightarrow> (s, no_effect, Go_return)
      | opn # rest \<Rightarrow>
          if opn = Task_operation
          then (s\<lparr>op_queue_ops := rest\<rparr>, no_effect, Go_task 0)
          else take_handler opn rest s)"

section \<open>Leaving the task and leaving a handler\<close>

text \<open>
  The destructors \<open>~task_cleanup\<close> and \<open>~work_cleanup\<close>, each in two parts: the counter,
  changed without the mutex, and the queue, changed under it.
\<close>

definition task_cleanup_work :: "thread_info \<Rightarrow> scheduler \<Rightarrow> thread_info \<times> scheduler" where
  "task_cleanup_work ti s =
     (ti\<lparr>private_outstanding_work := 0\<rparr>,
      if private_outstanding_work ti > 0
      then work_increment (private_outstanding_work ti) s else s)"

definition task_cleanup_queue :: "thread_info \<Rightarrow> scheduler \<Rightarrow> thread_info \<times> scheduler" where
  "task_cleanup_queue ti s =
     (ti\<lparr>private_op_queue := []\<rparr>,
      s\<lparr>task_interrupted := True,
        op_queue_ops := (op_queue_ops s @ private_op_queue ti) @ [Task_operation]\<rparr>)"

definition work_cleanup_work :: "thread_info \<Rightarrow> scheduler \<Rightarrow> thread_info \<times> scheduler \<times> bool" where
  "work_cleanup_work ti s =
     (let (s, must_stop) =
            (if private_outstanding_work ti > 1
             then (work_increment (private_outstanding_work ti - 1) s, False)
             else if private_outstanding_work ti < 1 then work_finished s
             else (s, False))
      in (ti\<lparr>private_outstanding_work := 0\<rparr>, s, must_stop))"

definition work_cleanup_queue :: "thread_info \<Rightarrow> scheduler \<Rightarrow> thread_info \<times> scheduler" where
  "work_cleanup_queue ti s =
     (ti\<lparr>private_op_queue := []\<rparr>, s\<lparr>op_queue_ops := op_queue_ops s @ private_op_queue ti\<rparr>)"

section \<open>Handing operations over\<close>

text \<open>
  The posting functions. The thread information is that of the calling thread when it is
  inside this scheduler (\<open>thread_call_stack::contains\<close>). The result is either the thread
  information with the operations in the private queue, or the scheduler after the counter was
  raised; then \<open>push_and_wake\<close> follows under the mutex.
\<close>

definition post_immediate_completion ::
    "sop \<Rightarrow> bool \<Rightarrow> thread_info option \<Rightarrow> scheduler \<Rightarrow> thread_info + scheduler" where
  "post_immediate_completion opn is_continuation this_thread s =
     (if one_thread s \<or> is_continuation
      then case this_thread of
             Some ti \<Rightarrow> Inl (ti\<lparr>private_outstanding_work := private_outstanding_work ti + 1,
                               private_op_queue := private_op_queue ti @ [opn]\<rparr>)
           | None \<Rightarrow> Inr (work_started s)
      else Inr (work_started s))"

definition post_immediate_completions ::
    "nat \<Rightarrow> sop list \<Rightarrow> bool \<Rightarrow> thread_info option \<Rightarrow> scheduler \<Rightarrow> thread_info + scheduler" where
  "post_immediate_completions n opns is_continuation this_thread s =
     (if one_thread s \<or> is_continuation
      then case this_thread of
             Some ti \<Rightarrow> Inl (ti\<lparr>private_outstanding_work := private_outstanding_work ti + int n,
                               private_op_queue := private_op_queue ti @ opns\<rparr>)
           | None \<Rightarrow> Inr (work_increment (int n) s)
      else Inr (work_increment (int n) s))"

definition post_deferred_completion ::
    "sop \<Rightarrow> thread_info option \<Rightarrow> scheduler \<Rightarrow> thread_info + scheduler" where
  "post_deferred_completion opn this_thread s =
     (if one_thread s
      then case this_thread of
             Some ti \<Rightarrow> Inl (ti\<lparr>private_op_queue := private_op_queue ti @ [opn]\<rparr>)
           | None \<Rightarrow> Inr s
      else Inr s)"

text \<open>\<open>post_deferred_completions\<close> does nothing for an empty queue.\<close>

definition post_deferred_completions ::
    "sop list \<Rightarrow> thread_info option \<Rightarrow> scheduler \<Rightarrow> (thread_info + scheduler) option" where
  "post_deferred_completions opns this_thread s =
     (if opns \<noteq> []
      then Some (if one_thread s
                 then case this_thread of
                        Some ti \<Rightarrow> Inl (ti\<lparr>private_op_queue := private_op_queue ti @ opns\<rparr>)
                      | None \<Rightarrow> Inr s
                 else Inr s)
      else None)"

definition do_dispatch :: "sop \<Rightarrow> scheduler \<Rightarrow> scheduler" where
  "do_dispatch opn s = work_started s"

definition push_and_wake :: "sop list \<Rightarrow> scheduler \<Rightarrow> scheduler \<times> sched_effect" where
  "push_and_wake opns s =
     wake_one_thread_and_unlock (s\<lparr>op_queue_ops := op_queue_ops s @ opns\<rparr>)"

definition can_dispatch :: "thread_info option \<Rightarrow> bool" where
  "can_dispatch this_thread \<longleftrightarrow> this_thread \<noteq> None"

text \<open>The operations \<open>abandon_operations\<close> destroys, in order.\<close>

definition abandon_operations :: "sop list \<Rightarrow> sop list" where
  "abandon_operations opns = [] @ opns"

section \<open>Shutting down\<close>

text \<open>
  \<open>shutdown\<close> and the destructor: under the mutex the flag and, when the scheduler has its own
  thread, the stop; then, after the thread has been joined, the queue is emptied and every
  operation but the task's is destroyed (the list returned, in order).
\<close>

definition shutdown_locked :: "bool \<Rightarrow> scheduler \<Rightarrow> scheduler \<times> sched_effect" where
  "shutdown_locked own_thread s =
     (let s = s\<lparr>shut_down := True\<rparr>
      in if own_thread then stop_all_threads s else (s, no_effect))"

fun shutdown_drain :: "sop list \<Rightarrow> sop list" where
  "shutdown_drain [] = []"
| "shutdown_drain (opn # opns) =
     (if opn \<noteq> Task_operation then opn # shutdown_drain opns else shutdown_drain opns)"

definition shutdown_finish :: "scheduler \<Rightarrow> scheduler \<times> sop list" where
  "shutdown_finish s =
     (s\<lparr>op_queue_ops := [], has_task := False\<rparr>, shutdown_drain (op_queue_ops s))"

section \<open>Threads\<close>

text \<open>
  Where a thread is. \<open>Stop_return\<close>: a running function found no work and is about to call
  \<open>stop\<close> and return. \<open>Entered\<close>: about to take the mutex for the first time. \<open>Waiting b\<close>: in
  the event's wait, \<open>b\<close> when the condition variable has released it. \<open>After_task\<close>: inside
  \<open>~task_cleanup\<close> before the mutex is taken. \<open>Stopping\<close>: inside \<open>~work_cleanup\<close>, the count
  reached zero and \<open>stop\<close> is to be called. \<open>Ready\<close>: inside \<open>~work_cleanup\<close> before the mutex is
  taken.
\<close>

datatype run_mode = Run | Run_one | Wait_one int | Poll | Poll_one

datatype thread_pc =
    Outside
  | Stop_return
  | Entered
  | Waiting bool
  | In_task int
  | After_task
  | In_op sop
  | Stopping
  | Ready

text \<open>A call from a handler or from outside that has still to take the mutex.\<close>

datatype pending_call = No_call | Pushing "sop list" | Stop_call

record sthread =
  mode :: run_mode
  thread_pc :: thread_pc
  info :: thread_info
  handlers_run :: nat
  pending :: pending_call

definition sthread_new :: sthread where
  "sthread_new = \<lparr> mode = Run, thread_pc = Outside, info = thread_info_new, handlers_run = 0,
                   pending = No_call \<rparr>"

text \<open>What each running function does with the mutex at its four points.\<close>

fun loop_head :: "run_mode \<Rightarrow> scheduler \<Rightarrow> scheduler \<times> sched_effect \<times> sched_next" where
  "loop_head Run s = do_run_one s"
| "loop_head Run_one s = do_run_one s"
| "loop_head (Wait_one usec) s = do_wait_one usec s"
| "loop_head Poll s = do_poll_one s"
| "loop_head Poll_one s = do_poll_one s"

fun after_wait :: "run_mode \<Rightarrow> scheduler \<Rightarrow> scheduler \<times> sched_effect \<times> sched_next" where
  "after_wait (Wait_one usec) s = wait_one_front 0 s"
| "after_wait m s = do_run_one s"

fun after_task :: "run_mode \<Rightarrow> scheduler \<Rightarrow> scheduler \<times> sched_effect \<times> sched_next" where
  "after_task Run s = do_run_one s"
| "after_task Run_one s = do_run_one s"
| "after_task (Wait_one usec) s = wait_one_after_task s"
| "after_task Poll s = poll_one_after_task s"
| "after_task Poll_one s = poll_one_after_task s"

fun after_op :: "run_mode \<Rightarrow> scheduler \<Rightarrow> scheduler \<times> sched_effect \<times> sched_next" where
  "after_op Run s = do_run_one s"
| "after_op Poll s = do_poll_one s"
| "after_op m s = (s, no_effect, Go_return)"

text \<open>
  A thread that has the mutex again after the condition variable. \<open>wait\<close> goes back to sleep
  until the event is signalled, \<open>wait_for_usec\<close> does not, and the null event of a disabled
  mutex has no state.
\<close>

definition wake_up :: "run_mode \<Rightarrow> scheduler \<Rightarrow> scheduler \<times> sched_effect \<times> sched_next" where
  "wake_up m s =
     (if mutex_enabled s
      then (let s = s\<lparr>wakeup_event := event_wait_leave (wakeup_event s)\<rparr>
            in case m of
                 Wait_one usec \<Rightarrow> after_wait m s
               | _ \<Rightarrow> if event_signalled (wakeup_event s) then after_wait m s
                      else (s\<lparr>wakeup_event := event_wait_enter (wakeup_event s)\<rparr>,
                            no_effect, Go_wait))
      else after_wait m s)"

text \<open>The counter of \<open>run\<close> and \<open>poll\<close> stays at its maximum.\<close>

definition count_handler :: "nat \<Rightarrow> nat" where
  "count_handler n = (if n \<noteq> size_max then n + 1 else n)"

end
