(* ===== verification/SchedulerSteps.thy ===== *)
theory SchedulerSteps
  imports Scheduler
begin

text \<open>
  The scheduler with its threads: the state of all of them, the delivery of condition-variable
  signals, and the step relation that interleaves the threads' stretches of code. Ghost fields
  record what the callers have been promised (\<open>guards\<close>: work started and not yet finished or
  turned into a queued operation) and the history of the queue.
\<close>

section \<open>State\<close>

record sched_state =
  shared :: scheduler
  sthreads :: "sthread list"
  interrupt_pending :: bool
  guards :: nat
  given :: "sop multiset"
  entered :: "sop list"
  taken :: "sop list"

definition sched_init :: "32 word \<Rightarrow> bool \<Rightarrow> nat \<Rightarrow> sched_state" where
  "sched_init hint own_thread nthreads =
     \<lparr> shared = scheduler_new hint own_thread,
       sthreads = replicate nthreads sthread_new,
       interrupt_pending = False,
       guards = (if own_thread then 1 else 0),
       given = {#}, entered = [], taken = [] \<rparr>"

text \<open>
  The condition variable. A broadcast releases every waiting thread; a signal releases one,
  the thread \<open>k\<close>, which must be one that is still asleep if there is any.
\<close>

definition release :: "sthread \<Rightarrow> sthread" where
  "release th = (case thread_pc th of Waiting b \<Rightarrow> th\<lparr>thread_pc := Waiting True\<rparr> | _ \<Rightarrow> th)"

fun notify :: "cond_signal \<Rightarrow> nat \<Rightarrow> sthread list \<Rightarrow> sthread list" where
  "notify Cond_none k ths = ths"
| "notify Cond_signal k ths = (if k < length ths then ths[k := release (ths ! k)] else ths)"
| "notify Cond_broadcast k ths = map release ths"

definition asleep :: "sthread \<Rightarrow> bool" where
  "asleep th \<longleftrightarrow> thread_pc th = Waiting False"

definition choice_ok :: "cond_signal \<Rightarrow> nat \<Rightarrow> sthread list \<Rightarrow> bool" where
  "choice_ok c k ths \<longleftrightarrow>
     (c = Cond_signal \<longrightarrow> (\<exists>th \<in> set ths. asleep th) \<longrightarrow> k < length ths \<and> asleep (ths ! k))"

text \<open>Where the thread is after a stretch of code, and what it took off the queue.\<close>

fun continue_at :: "sched_next \<Rightarrow> sthread \<Rightarrow> sthread" where
  "continue_at (Go_task usec) th = th\<lparr>thread_pc := In_task usec\<rparr>"
| "continue_at (Go_op opn) th = th\<lparr>thread_pc := In_op opn\<rparr>"
| "continue_at Go_wait th = th\<lparr>thread_pc := Waiting False\<rparr>"
| "continue_at Go_return th = th\<lparr>thread_pc := Outside\<rparr>"

fun taken_by :: "sched_next \<Rightarrow> sop list" where
  "taken_by (Go_task usec) = [Task_operation]"
| "taken_by (Go_op opn) = [opn]"
| "taken_by Go_wait = []"
| "taken_by Go_return = []"

text \<open>
  The state after thread \<open>t\<close> ran a stretch of code under the mutex with result \<open>r\<close>, \<open>th\<close>
  being the thread with what the stretch changed of it, \<open>opns\<close> what it pushed on the queue and
  \<open>k\<close> the thread a signal releases. \<open>ths_after\<close> gives the threads before the signal is
  delivered.
\<close>

definition ths_after :: "nat \<Rightarrow> sthread \<Rightarrow> sched_next \<Rightarrow> sched_state \<Rightarrow> sthread list" where
  "ths_after t th nx st = (sthreads st)[t := continue_at nx th]"

definition locked ::
    "nat \<Rightarrow> nat \<Rightarrow> sthread \<Rightarrow> sop list \<Rightarrow> scheduler \<times> sched_effect \<times> sched_next \<Rightarrow>
     sched_state \<Rightarrow> sched_state" where
  "locked t k th opns r st =
     (case r of (s, (c, i), nx) \<Rightarrow>
        st\<lparr>shared := s,
           sthreads := notify c k (ths_after t th nx st),
           interrupt_pending := interrupt_pending st \<or> i,
           entered := entered st @ opns,
           taken := taken st @ taken_by nx\<rparr>)"

definition locked_ok ::
    "nat \<Rightarrow> nat \<Rightarrow> sthread \<Rightarrow> scheduler \<times> sched_effect \<times> sched_next \<Rightarrow> sched_state \<Rightarrow> bool" where
  "locked_ok t k th r st =
     (case r of (s, (c, i), nx) \<Rightarrow> choice_ok c k (ths_after t th nx st))"

text \<open>The same for a stretch after which the thread stays where it is.\<close>

definition locked_call ::
    "nat \<Rightarrow> nat \<Rightarrow> sthread \<Rightarrow> sop list \<Rightarrow> scheduler \<times> sched_effect \<Rightarrow> sched_state \<Rightarrow> sched_state" where
  "locked_call t k th opns r st =
     (case r of (s, (c, i)) \<Rightarrow>
        st\<lparr>shared := s,
           sthreads := notify c k ((sthreads st)[t := th]),
           interrupt_pending := interrupt_pending st \<or> i,
           entered := entered st @ opns\<rparr>)"

definition locked_call_ok ::
    "nat \<Rightarrow> nat \<Rightarrow> sthread \<Rightarrow> scheduler \<times> sched_effect \<Rightarrow> sched_state \<Rightarrow> bool" where
  "locked_call_ok t k th r st =
     (case r of (s, (c, i)) \<Rightarrow> choice_ok c k ((sthreads st)[t := th]))"

definition set_thread :: "nat \<Rightarrow> sthread \<Rightarrow> sched_state \<Rightarrow> sched_state" where
  "set_thread t th st = st\<lparr>sthreads := (sthreads st)[t := th]\<rparr>"

text \<open>A posting call's outcome: kept in the thread, or counted and still to be pushed.\<close>

fun posted :: "nat \<Rightarrow> sthread \<Rightarrow> sop list \<Rightarrow> thread_info + scheduler \<Rightarrow> sched_state \<Rightarrow> sched_state" where
  "posted t th opns (Inl ti) st = set_thread t (th\<lparr>info := ti\<rparr>) st"
| "posted t th opns (Inr s) st =
     (set_thread t (th\<lparr>pending := Pushing opns\<rparr>) st)\<lparr>shared := s\<rparr>"

text \<open>The thread's information as \<open>thread_call_stack::contains\<close> finds it.\<close>

definition this_thread :: "sthread \<Rightarrow> thread_info option" where
  "this_thread th = (if thread_pc th = Outside then None else Some (info th))"

text \<open>A thread runs code of the application outside the scheduler or inside a handler.\<close>

definition in_client :: "sthread \<Rightarrow> bool" where
  "in_client th \<longleftrightarrow> pending th = No_call \<and>
     (case thread_pc th of Outside \<Rightarrow> True | In_op opn \<Rightarrow> True | _ \<Rightarrow> False)"

lemma in_client_iff:
  "in_client th \<longleftrightarrow> pending th = No_call \<and>
     (thread_pc th = Outside \<or> (\<exists>opn. thread_pc th = In_op opn))"
  by (auto simp: in_client_def split: thread_pc.splits)

definition counted :: "sop \<Rightarrow> bool" where
  "counted opn = (case opn of Operation n \<Rightarrow> True | _ \<Rightarrow> False)"

definition user_ops :: "sop list \<Rightarrow> bool" where
  "user_ops opns \<longleftrightarrow> (\<forall>opn \<in> set opns. counted opn)"

section \<open>Steps\<close>

text \<open>
  \<open>allowed\<close> says which running functions the application calls. Posting an operation whose
  work was started before (\<open>post_deferred_completion\<close>) and \<open>work_finished\<close> use up a guard:
  that is the contract in the comments of \<open>scheduler.hpp\<close>.
\<close>

inductive sched_step :: "(run_mode \<Rightarrow> bool) \<Rightarrow> sched_state \<Rightarrow> sched_state \<Rightarrow> bool"
  for allowed :: "run_mode \<Rightarrow> bool" where
  start:
  "\<lbrakk> t < length (sthreads st); th = sthreads st ! t; thread_pc th = Outside; pending th = No_call;
     allowed m \<rbrakk> \<Longrightarrow>
   sched_step allowed st
     (set_thread t (th\<lparr>mode := m, info := thread_info_new, handlers_run := 0,
                       thread_pc := (if outstanding_work (shared st) = 0 then Stop_return
                                     else Entered)\<rparr>) st)"
| stop_return:
  "\<lbrakk> t < length (sthreads st); th = sthreads st ! t; thread_pc th = Stop_return;
     r = sched_stop (shared st); locked_call_ok t k (th\<lparr>thread_pc := Outside\<rparr>) r st \<rbrakk> \<Longrightarrow>
   sched_step allowed st (locked_call t k (th\<lparr>thread_pc := Outside\<rparr>) [] r st)"
| enter:
  "\<lbrakk> t < length (sthreads st); th = sthreads st ! t; thread_pc th = Entered;
     r = loop_head (mode th) (shared st); locked_ok t k th r st \<rbrakk> \<Longrightarrow>
   sched_step allowed st (locked t k th [] r st)"
| spurious:
  "\<lbrakk> t < length (sthreads st); th = sthreads st ! t; thread_pc th = Waiting False \<rbrakk> \<Longrightarrow>
   sched_step allowed st (set_thread t (th\<lparr>thread_pc := Waiting True\<rparr>) st)"
| wake:
  "\<lbrakk> t < length (sthreads st); th = sthreads st ! t; thread_pc th = Waiting True;
     r = wake_up (mode th) (shared st); locked_ok t k th r st \<rbrakk> \<Longrightarrow>
   sched_step allowed st (locked t k th [] r st)"
| task_queues:
  "\<lbrakk> t < length (sthreads st); th = sthreads st ! t; thread_pc th = In_task usec;
     ti = info th; opn \<noteq> Task_operation; counted opn \<Longrightarrow> guards st > 0 \<rbrakk> \<Longrightarrow>
   sched_step allowed st
     ((set_thread t (th\<lparr>info := ti\<lparr>private_op_queue := private_op_queue ti @ [opn]\<rparr>\<rparr>) st)
        \<lparr>guards := guards st - (if counted opn then 1 else 0),
         given := add_mset opn (given st)\<rparr>)"
| task_returns:
  "\<lbrakk> t < length (sthreads st); th = sthreads st ! t; thread_pc th = In_task usec;
     task_cleanup_work (info th) (shared st) = (ti, s) \<rbrakk> \<Longrightarrow>
   sched_step allowed st
     ((set_thread t (th\<lparr>info := ti, thread_pc := After_task\<rparr>) st)
        \<lparr>shared := s, interrupt_pending := False\<rparr>)"
| task_left:
  "\<lbrakk> t < length (sthreads st); th = sthreads st ! t; thread_pc th = After_task;
     task_cleanup_queue (info th) (shared st) = (ti, s);
     r = after_task (mode th) s; locked_ok t k (th\<lparr>info := ti\<rparr>) r st \<rbrakk> \<Longrightarrow>
   sched_step allowed st
     (locked t k (th\<lparr>info := ti\<rparr>) (private_op_queue (info th) @ [Task_operation]) r st)"
| op_ends:
  "\<lbrakk> t < length (sthreads st); th = sthreads st ! t; thread_pc th = In_op opn; counted opn;
     pending th = No_call; work_cleanup_work (info th) (shared st) = (ti, s, must_stop) \<rbrakk> \<Longrightarrow>
   sched_step allowed st
     ((set_thread t (th\<lparr>info := ti, thread_pc := (if must_stop then Stopping else Ready)\<rparr>) st)
        \<lparr>shared := s\<rparr>)"
| op_ends_compensated:
  "\<lbrakk> t < length (sthreads st); th = sthreads st ! t; thread_pc th = In_op opn; \<not> counted opn;
     pending th = No_call;
     work_cleanup_work (compensating_work_started (info th)) (shared st) = (ti, s, must_stop) \<rbrakk> \<Longrightarrow>
   sched_step allowed st
     ((set_thread t (th\<lparr>info := ti, thread_pc := (if must_stop then Stopping else Ready)\<rparr>) st)
        \<lparr>shared := s\<rparr>)"
| op_ends_adopted:
  "\<lbrakk> t < length (sthreads st); th = sthreads st ! t; thread_pc th = In_op opn; \<not> counted opn;
     pending th = No_call; guards st > 0;
     work_cleanup_work (info th) (shared st) = (ti, s, must_stop) \<rbrakk> \<Longrightarrow>
   sched_step allowed st
     ((set_thread t (th\<lparr>info := ti, thread_pc := (if must_stop then Stopping else Ready)\<rparr>) st)
        \<lparr>shared := s, guards := guards st - 1\<rparr>)"
| op_stops:
  "\<lbrakk> t < length (sthreads st); th = sthreads st ! t; thread_pc th = Stopping;
     r = sched_stop (shared st); locked_call_ok t k (th\<lparr>thread_pc := Ready\<rparr>) r st \<rbrakk> \<Longrightarrow>
   sched_step allowed st (locked_call t k (th\<lparr>thread_pc := Ready\<rparr>) [] r st)"
| op_left:
  "\<lbrakk> t < length (sthreads st); th = sthreads st ! t; thread_pc th = Ready;
     work_cleanup_queue (info th) (shared st) = (ti, s);
     th' = th\<lparr>info := ti, handlers_run := count_handler (handlers_run th)\<rparr>;
     r = after_op (mode th) s; locked_ok t k th' r st \<rbrakk> \<Longrightarrow>
   sched_step allowed st (locked t k th' (private_op_queue (info th)) r st)"
| starts_work:
  "\<lbrakk> t < length (sthreads st); th = sthreads st ! t; in_client th \<rbrakk> \<Longrightarrow>
   sched_step allowed st (st\<lparr>shared := work_started (shared st), guards := guards st + 1\<rparr>)"
| finishes_work:
  "\<lbrakk> t < length (sthreads st); th = sthreads st ! t; in_client th; guards st > 0;
     work_finished (shared st) = (s, must_stop) \<rbrakk> \<Longrightarrow>
   sched_step allowed st
     ((set_thread t (th\<lparr>pending := (if must_stop then Stop_call else No_call)\<rparr>) st)
        \<lparr>shared := s, guards := guards st - 1\<rparr>)"
| posts_immediate:
  "\<lbrakk> t < length (sthreads st); th = sthreads st ! t; in_client th; counted opn;
     r = post_immediate_completion opn is_continuation (this_thread th) (shared st) \<rbrakk> \<Longrightarrow>
   sched_step allowed st ((posted t th [opn] r st)\<lparr>given := add_mset opn (given st)\<rparr>)"
| posts_immediates:
  "\<lbrakk> t < length (sthreads st); th = sthreads st ! t; in_client th; user_ops opns;
     r = post_immediate_completions (length opns) opns is_continuation (this_thread th) (shared st) \<rbrakk> \<Longrightarrow>
   sched_step allowed st ((posted t th opns r st)\<lparr>given := mset opns + given st\<rparr>)"
| posts_deferred:
  "\<lbrakk> t < length (sthreads st); th = sthreads st ! t; in_client th; counted opn; guards st > 0;
     r = post_deferred_completion opn (this_thread th) (shared st) \<rbrakk> \<Longrightarrow>
   sched_step allowed st
     ((posted t th [opn] r st)\<lparr>given := add_mset opn (given st), guards := guards st - 1\<rparr>)"
| posts_deferreds:
  "\<lbrakk> t < length (sthreads st); th = sthreads st ! t; in_client th; user_ops opns;
     guards st \<ge> length opns;
     post_deferred_completions opns (this_thread th) (shared st) = Some r \<rbrakk> \<Longrightarrow>
   sched_step allowed st
     ((posted t th opns r st)\<lparr>given := mset opns + given st, guards := guards st - length opns\<rparr>)"
| dispatches:
  "\<lbrakk> t < length (sthreads st); th = sthreads st ! t; in_client th; counted opn;
     s = do_dispatch opn (shared st) \<rbrakk> \<Longrightarrow>
   sched_step allowed st
     ((posted t th [opn] (Inr s) st)\<lparr>given := add_mset opn (given st)\<rparr>)"
| pushes:
  "\<lbrakk> t < length (sthreads st); th = sthreads st ! t; pending th = Pushing opns;
     r = push_and_wake opns (shared st); locked_call_ok t k (th\<lparr>pending := No_call\<rparr>) r st \<rbrakk> \<Longrightarrow>
   sched_step allowed st (locked_call t k (th\<lparr>pending := No_call\<rparr>) opns r st)"
| stops_pending:
  "\<lbrakk> t < length (sthreads st); th = sthreads st ! t; pending th = Stop_call;
     r = sched_stop (shared st); locked_call_ok t k (th\<lparr>pending := No_call\<rparr>) r st \<rbrakk> \<Longrightarrow>
   sched_step allowed st (locked_call t k (th\<lparr>pending := No_call\<rparr>) [] r st)"
| stops:
  "\<lbrakk> t < length (sthreads st); th = sthreads st ! t; in_client th;
     r = sched_stop (shared st); locked_call_ok t k th r st \<rbrakk> \<Longrightarrow>
   sched_step allowed st (locked_call t k th [] r st)"
| restarts:
  "\<lbrakk> t < length (sthreads st); th = sthreads st ! t; in_client th \<rbrakk> \<Longrightarrow>
   sched_step allowed st (st\<lparr>shared := sched_restart (shared st)\<rparr>)"
| inits_task:
  "\<lbrakk> t < length (sthreads st); th = sthreads st ! t; in_client th;
     r = init_task (shared st); locked_call_ok t k th r st \<rbrakk> \<Longrightarrow>
   sched_step allowed st
     (locked_call t k th
        (if \<not> shut_down (shared st) \<and> \<not> has_task (shared st) then [Task_operation] else []) r st)"

inductive sched_reach ::
    "(run_mode \<Rightarrow> bool) \<Rightarrow> sched_state \<Rightarrow> sched_state \<Rightarrow> bool"
  for allowed :: "run_mode \<Rightarrow> bool" and st0 :: sched_state where
  reach_refl: "sched_reach allowed st0 st0"
| reach_step: "sched_reach allowed st0 st \<Longrightarrow> sched_step allowed st st' \<Longrightarrow> sched_reach allowed st0 st'"

end
