(* ===== verification/SchedulerInv.thy ===== *)
theory SchedulerInv
  imports SchedulerSteps
begin

text \<open>
  The invariant of the scheduler: work accounting, at most one thread in the task, the queue as
  a history, the event's count of waiting threads. Each stretch of code is summarised once
  (\<open>stretch\<close>), a step then only has to balance what one thread holds before and after.
\<close>

section \<open>What a thread holds\<close>

definition weight :: "sop list \<Rightarrow> int" where
  "weight opns = int (length (filter counted opns))"

definition pushing :: "sthread \<Rightarrow> sop list" where
  "pushing th = (case pending th of Pushing opns \<Rightarrow> opns | _ \<Rightarrow> [])"

definition running :: "sthread \<Rightarrow> int" where
  "running th = (case thread_pc th of In_op opn \<Rightarrow> (if counted opn then 1 else 0) | _ \<Rightarrow> 0)"

definition load :: "sthread \<Rightarrow> int" where
  "load th = weight (private_op_queue (info th)) + running th + weight (pushing th)
             - private_outstanding_work (info th)"

definition in_task :: "sthread \<Rightarrow> int" where
  "in_task th = (case thread_pc th of In_task usec \<Rightarrow> 1 | After_task \<Rightarrow> 1 | _ \<Rightarrow> 0)"

definition waiting :: "sthread \<Rightarrow> int" where
  "waiting th = (case thread_pc th of Waiting b \<Rightarrow> 1 | _ \<Rightarrow> 0)"

definition held :: "sthread \<Rightarrow> sop multiset" where
  "held th = mset (private_op_queue (info th)) + mset (pushing th)"

definition task_count :: "sop list \<Rightarrow> int" where
  "task_count opns = int (length (filter (\<lambda>opn. opn = Task_operation) opns))"

definition no_task :: "sop list \<Rightarrow> sop list" where
  "no_task opns = filter (\<lambda>opn. opn \<noteq> Task_operation) opns"

definition thread_ok :: "sthread \<Rightarrow> bool" where
  "thread_ok th \<longleftrightarrow>
     Task_operation \<notin> set (private_op_queue (info th)) \<and> user_ops (pushing th) \<and>
     (case thread_pc th of
        In_op opn \<Rightarrow> opn \<noteq> Task_operation \<and> 0 \<le> private_outstanding_work (info th) \<and>
          private_outstanding_work (info th) \<le> weight (private_op_queue (info th))
      | Outside \<Rightarrow> private_op_queue (info th) = [] \<and> private_outstanding_work (info th) = 0
      | In_task usec \<Rightarrow> private_outstanding_work (info th) = 0 \<and> pending th = No_call
      | After_task \<Rightarrow> private_outstanding_work (info th) = 0 \<and> pending th = No_call
      | Stopping \<Rightarrow> private_outstanding_work (info th) = 0 \<and> pending th = No_call
      | Ready \<Rightarrow> private_outstanding_work (info th) = 0 \<and> pending th = No_call
      | _ \<Rightarrow> private_op_queue (info th) = [] \<and> private_outstanding_work (info th) = 0
             \<and> pending th = No_call)"

lemmas holds_defs = load_def running_def in_task_def waiting_def held_def pushing_def

lemma weight_simps [simp]:
  "weight [] = 0" "weight (opn # opns) = (if counted opn then 1 else 0) + weight opns"
  "weight (opns @ opns') = weight opns + weight opns'" "0 \<le> weight opns"
  by (simp_all add: weight_def)

lemma task_count_simps [simp]:
  "task_count [] = 0"
  "task_count (opn # opns) = (if opn = Task_operation then 1 else 0) + task_count opns"
  "task_count (opns @ opns') = task_count opns + task_count opns'" "0 \<le> task_count opns"
  by (simp_all add: task_count_def)

lemma no_task_simps [simp]:
  "no_task [] = []" "no_task (opns @ opns') = no_task opns @ no_task opns'"
  "no_task (opn # opns) = (if opn = Task_operation then no_task opns else opn # no_task opns)"
  by (simp_all add: no_task_def)

lemma task_count_none [simp]: "Task_operation \<notin> set opns \<Longrightarrow> task_count opns = 0"
  by (induction opns) auto

lemma no_task_none [simp]: "Task_operation \<notin> set opns \<Longrightarrow> no_task opns = opns"
  by (induction opns) auto

lemma counted_simps [simp]:
  "counted (Operation n)" "\<not> counted (Uncounted_operation n)" "\<not> counted Task_operation"
  by (simp_all add: counted_def)

lemma user_ops_simps [simp]:
  "user_ops []" "user_ops (opn # opns) \<longleftrightarrow> counted opn \<and> user_ops opns"
  by (simp_all add: user_ops_def)

lemma user_ops_no_task: "user_ops opns \<Longrightarrow> Task_operation \<notin> set opns"
  by (auto simp: user_ops_def)

lemma user_ops_weight: "user_ops opns \<Longrightarrow> weight opns = int (length opns)"
  by (induction opns) auto

section \<open>Releasing threads changes nothing they hold\<close>

lemma release_holds [simp]:
  "info (release th) = info th" "pending (release th) = pending th" "mode (release th) = mode th"
  "load (release th) = load th" "in_task (release th) = in_task th"
  "waiting (release th) = waiting th" "held (release th) = held th"
  "thread_ok (release th) = thread_ok th"
  by (auto simp: release_def holds_defs thread_ok_def split: thread_pc.splits)

lemma notify_length [simp]: "length (notify c k ths) = length ths"
  by (cases c) simp_all

lemma map_notify:
  assumes "\<And>th. f (release th) = f th"
  shows "map f (notify c k ths) = map f ths"
  using assms by (cases c) (auto simp: map_update list_update_same_conv intro: nth_equalityI)

lemma ball_notify:
  assumes "\<And>th. P (release th) = P th"
  shows "(\<forall>th \<in> set (notify c k ths). P th) = (\<forall>th \<in> set ths. P th)"
proof -
  have "(\<forall>b \<in> set (map P (notify c k ths)). b) = (\<forall>b \<in> set (map P ths). b)"
    by (simp only: map_notify [of P, OF assms])
  then show ?thesis by simp
qed

lemma sum_list_update_add:
  fixes f :: "'a \<Rightarrow> 'b::comm_monoid_add"
  shows "t < length xs \<Longrightarrow>
    sum_list (map f (xs[t := x])) + f (xs ! t) = sum_list (map f xs) + f x"
proof (induction xs arbitrary: t)
  case (Cons y ys)
  then show ?case by (cases t) (auto simp: add_ac)
qed simp

lemma sum_list_update_int:
  fixes f :: "'a \<Rightarrow> int"
  shows "t < length xs \<Longrightarrow>
    sum_list (map f (xs[t := x])) = sum_list (map f xs) - f (xs ! t) + f x"
  using sum_list_update_add [of t xs f x] by simp

section \<open>The invariant\<close>

definition sched_inv :: "sched_state \<Rightarrow> bool" where
  "sched_inv st \<longleftrightarrow>
     (\<forall>th \<in> set (sthreads st). thread_ok th) \<and>
     outstanding_work (shared st) =
       int (guards st) + weight (op_queue_ops (shared st)) + sum_list (map load (sthreads st)) \<and>
     task_count (op_queue_ops (shared st)) + sum_list (map in_task (sthreads st)) =
       (if has_task (shared st) then 1 else 0) \<and>
     entered st = taken st @ op_queue_ops (shared st) \<and>
     given st = mset (no_task (entered st)) + sum_list (map held (sthreads st)) \<and>
     (mutex_enabled (shared st) \<longrightarrow>
        int (wakeup_event (shared st) div 2) = sum_list (map waiting (sthreads st)))"

lemma sum_list_replicate_zero:
  "sum_list (replicate n (0::'b::comm_monoid_add)) = 0"
  by (induction n) simp_all

lemma sched_inv_init: "sched_inv (sched_init hint own n)"
proof -
  have zero: "load sthread_new = 0" "in_task sthread_new = 0" "waiting sthread_new = 0"
    "held sthread_new = {#}" and ok: "thread_ok sthread_new"
    by (simp_all add: sthread_new_def thread_info_new_def holds_defs thread_ok_def)
  show ?thesis
    using ok by (auto simp: sched_inv_def sched_init_def scheduler_new_def zero
        sum_list_replicate_zero)
qed

text \<open>
  A step that turns thread \<open>t\<close> into \<open>th'\<close> (and then releases threads) keeps the invariant when
  what it changes of the shared state balances what it changes of the thread.
\<close>

lemma sched_inv_update:
  assumes inv: "sched_inv st"
    and t: "t < length (sthreads st)" and th: "th = sthreads st ! t"
    and ths: "sthreads st' = notify c k ((sthreads st)[t := th'])"
    and ok: "thread_ok th'"
    and work: "outstanding_work (shared st') - outstanding_work (shared st) =
      int (guards st') - int (guards st) + weight (op_queue_ops (shared st'))
      - weight (op_queue_ops (shared st)) + load th' - load th"
    and task: "task_count (op_queue_ops (shared st')) + in_task th'
        - (if has_task (shared st') then 1 else 0) =
      task_count (op_queue_ops (shared st)) + in_task th
        - (if has_task (shared st) then 1 else 0)"
    and hist: "entered st' = taken st' @ op_queue_ops (shared st')"
    and given: "given st' + (mset (no_task (entered st)) + held th) =
      given st + (mset (no_task (entered st')) + held th')"
    and en: "mutex_enabled (shared st') = mutex_enabled (shared st)"
    and ev: "mutex_enabled (shared st) \<Longrightarrow>
      int (wakeup_event (shared st') div 2) + waiting th =
      int (wakeup_event (shared st) div 2) + waiting th'"
  shows "sched_inv st'"
proof -
  note I = inv [unfolded sched_inv_def]
  have sums: "sum_list (map f (sthreads st')) = sum_list (map f (sthreads st)) - f th + f th'"
    if "\<And>x. f (release x) = f x" for f :: "sthread \<Rightarrow> int"
    by (simp add: ths map_notify [of f, OF that] sum_list_update_int [OF t] th)
  have all: "\<forall>x \<in> set (sthreads st'). thread_ok x"
  proof -
    from I have "\<forall>x \<in> set (sthreads st). thread_ok x" by blast
    then have "\<forall>x \<in> set ((sthreads st)[t := th']). thread_ok x"
      using ok set_update_subset_insert [of "sthreads st" t th'] by blast
    then show ?thesis by (simp add: ths ball_notify [of thread_ok])
  qed
  have g: "given st' = mset (no_task (entered st')) + sum_list (map held (sthreads st'))"
  proof -
    have "sum_list (map held (sthreads st')) + held th = sum_list (map held (sthreads st)) + held th'"
      by (simp add: ths map_notify [of held] sum_list_update_add [OF t] th)
    moreover have "given st = mset (no_task (entered st)) + sum_list (map held (sthreads st))"
      using I by blast
    ultimately have "(given st' + mset (no_task (entered st))) + held th =
      (mset (no_task (entered st')) + sum_list (map held (sthreads st')) +
       mset (no_task (entered st))) + held th"
      using given by (metis (no_types, opaque_lifting) add.assoc add.commute)
    then have "given st' + mset (no_task (entered st)) =
      (mset (no_task (entered st')) + sum_list (map held (sthreads st'))) +
      mset (no_task (entered st))"
      by (simp only: add_right_cancel)
    then show ?thesis by (simp only: add_right_cancel)
  qed
  show ?thesis
    unfolding sched_inv_def
    using all g hist work task en ev I sums [of load] sums [of in_task] sums [of waiting]
    by (auto split: if_splits)
qed

section \<open>What a stretch of code does to the scheduler\<close>

lemma or_1_div_2 [simp]: "(or st (Suc 0)) div 2 = st div (2::nat)"
  by (simp add: or_Suc_0_eq)

lemma event_div_2 [simp]:
  "event_clear st div 2 = st div 2" "event_wait_enter st div 2 = Suc (st div 2)"
  by (simp_all add: event_clear_def event_wait_enter_def minus_mod_eq_div_mult)

text \<open>
  A stretch under the mutex that ends by continuing at \<open>nx\<close>: it takes from the front of the
  queue what \<open>nx\<close> says, leaves the counters and flags alone, and counts a thread as waiting
  just when it goes to sleep.
\<close>

definition stretch :: "scheduler \<Rightarrow> scheduler \<times> sched_effect \<times> sched_next \<Rightarrow> bool" where
  "stretch s r \<longleftrightarrow> (case r of (s', e, nx) \<Rightarrow>
     outstanding_work s' = outstanding_work s \<and> has_task s' = has_task s \<and>
     mutex_enabled s' = mutex_enabled s \<and> one_thread s' = one_thread s \<and>
     stopped s' = stopped s \<and> shut_down s' = shut_down s \<and>
     op_queue_ops s = taken_by nx @ op_queue_ops s' \<and> nx \<noteq> Go_op Task_operation \<and>
     wakeup_event s' div 2 =
       wakeup_event s div 2 + (if nx = Go_wait \<and> mutex_enabled s then 1 else 0))"

text \<open>The same for a stretch that only wakes threads.\<close>

definition nudge :: "scheduler \<Rightarrow> scheduler \<Rightarrow> bool" where
  "nudge s s' \<longleftrightarrow>
     outstanding_work s' = outstanding_work s \<and> has_task s' = has_task s \<and>
     mutex_enabled s' = mutex_enabled s \<and> one_thread s' = one_thread s \<and>
     shut_down s' = shut_down s \<and> op_queue_ops s' = op_queue_ops s \<and>
     wakeup_event s' div 2 = wakeup_event s div 2"

lemma wake_one_nudge:
  "wake_one_thread_and_unlock s = (s', e) \<Longrightarrow> nudge s s' \<and> stopped s' = stopped s"
  by (auto simp: wake_one_thread_and_unlock_def cond_maybe_unlock_and_signal_one_def nudge_def
      event_maybe_unlock_and_signal_one_def Let_def split: if_splits)

lemma maybe_signal_nudge:
  "cond_maybe_unlock_and_signal_one s = (s', c, b) \<Longrightarrow> nudge s s' \<and> stopped s' = stopped s"
  by (auto simp: cond_maybe_unlock_and_signal_one_def nudge_def
      event_maybe_unlock_and_signal_one_def Let_def split: if_splits)

lemma signal_one_nudge:
  "cond_unlock_and_signal_one s = (s', c) \<Longrightarrow> nudge s s' \<and> stopped s' = stopped s"
  by (auto simp: cond_unlock_and_signal_one_def nudge_def
      event_unlock_and_signal_one_def Let_def split: if_splits)

lemma stop_all_nudge: "stop_all_threads s = (s', e) \<Longrightarrow> nudge s s' \<and> stopped s'"
  by (auto simp: stop_all_threads_def cond_signal_all_def nudge_def
      event_signal_all_def Let_def split: if_splits)

lemma take_handler_stretch:
  assumes "op_queue_ops s = opn # rest" "opn \<noteq> Task_operation"
  shows "stretch s (take_handler opn rest s)"
proof (cases "rest \<noteq> [] \<and> \<not> one_thread s")
  case True
  obtain s' e where w: "wake_one_thread_and_unlock (s\<lparr>op_queue_ops := rest\<rparr>) = (s', e)"
    by (cases "wake_one_thread_and_unlock (s\<lparr>op_queue_ops := rest\<rparr>)")
  from wake_one_nudge [OF w] True assms w show ?thesis
    by (simp add: take_handler_def stretch_def nudge_def)
next
  case False
  then show ?thesis using assms by (auto simp: take_handler_def stretch_def Let_def)
qed

lemma take_task_stretch:
  assumes "op_queue_ops s = Task_operation # rest"
  shows "stretch s (take_task usec rest s)"
proof (cases "rest \<noteq> [] \<and> \<not> one_thread s")
  case True
  let ?s = "s\<lparr>op_queue_ops := rest, task_interrupted := True\<rparr>"
  obtain s' e where w: "cond_unlock_and_signal_one ?s = (s', e)"
    by (cases "cond_unlock_and_signal_one ?s")
  from signal_one_nudge [OF w] True assms w show ?thesis
    by (simp add: take_task_def stretch_def nudge_def)
next
  case False
  then show ?thesis using assms by (auto simp: take_task_def stretch_def Let_def)
qed

lemmas takes_stretch = take_handler_stretch take_task_stretch

lemma return_stretch:
  "stretch s (s, e, Go_return)"
  "cond_maybe_unlock_and_signal_one s = (s', c, b) \<Longrightarrow> stretch s (s', e, Go_return)"
  by (auto simp: stretch_def nudge_def dest: maybe_signal_nudge)

lemma wait_stretch: "stretch s (cond_clear_and_wait s, e, Go_wait)"
  by (simp add: stretch_def cond_clear_and_wait_def)

lemma do_run_one_stretch: "stretch s (do_run_one s)"
  by (simp add: do_run_one_def wait_stretch return_stretch takes_stretch split: list.split)

lemma wait_one_front_stretch: "stretch s (wait_one_front usec s)"
  by (simp add: wait_one_front_def return_stretch takes_stretch split: list.split)

lemma do_wait_one_stretch: "stretch s (do_wait_one usec s)"
  by (simp add: do_wait_one_def wait_stretch return_stretch wait_one_front_stretch)

lemma wait_one_after_task_stretch: "stretch s (wait_one_after_task s)"
  by (simp add: wait_one_after_task_def return_stretch takes_stretch split: list.split prod.split)

lemma poll_one_after_task_stretch: "stretch s (poll_one_after_task s)"
  by (simp add: poll_one_after_task_def return_stretch takes_stretch split: list.split prod.split)

lemma do_poll_one_stretch: "stretch s (do_poll_one s)"
  by (auto simp: do_poll_one_def return_stretch takes_stretch split: list.split)
    (simp add: stretch_def)

lemma loop_head_stretch: "stretch s (loop_head m s)"
  by (cases m) (simp_all add: do_run_one_stretch do_wait_one_stretch do_poll_one_stretch)

lemma after_wait_stretch: "stretch s (after_wait m s)"
  by (cases m) (simp_all add: do_run_one_stretch wait_one_front_stretch)

lemma after_task_stretch: "stretch s (after_task m s)"
  by (cases m) (simp_all add: do_run_one_stretch wait_one_after_task_stretch
      poll_one_after_task_stretch)

lemma after_op_stretch: "stretch s (after_op m s)"
  by (cases m) (simp_all add: do_run_one_stretch do_poll_one_stretch return_stretch)

section \<open>Steps keep the invariant\<close>

lemma continue_at_holds:
  assumes "private_op_queue (info th) = []" "private_outstanding_work (info th) = 0"
    "pending th = No_call" "nx \<noteq> Go_op Task_operation"
  shows "load (continue_at nx th) = weight (taken_by nx)"
    "in_task (continue_at nx th) = task_count (taken_by nx)"
    "held (continue_at nx th) = {#}"
    "waiting (continue_at nx th) = (if nx = Go_wait then 1 else 0)"
    "thread_ok (continue_at nx th)"
  using assms by (cases nx; simp add: holds_defs thread_ok_def)+

text \<open>A stretch of code that starts by pushing what the thread held, \<open>opns\<close>, on the queue.\<close>

lemma locked_inv:
  assumes inv: "sched_inv st"
    and t: "t < length (sthreads st)" and th: "th = sthreads st ! t"
    and stretch: "stretch s1 r"
    and s1: "op_queue_ops s1 = op_queue_ops (shared st) @ opns"
      "outstanding_work s1 = outstanding_work (shared st)" "has_task s1 = has_task (shared st)"
      "mutex_enabled s1 = mutex_enabled (shared st)"
    and ev: "mutex_enabled s1 \<Longrightarrow>
      int (wakeup_event s1 div 2) + waiting th = int (wakeup_event (shared st) div 2)"
    and th1: "private_op_queue (info th1) = []" "private_outstanding_work (info th1) = 0"
      "pending th1 = No_call"
    and holds: "load th = weight opns" "in_task th = task_count opns" "held th = mset (no_task opns)"
  shows "sched_inv (locked t k th1 opns r st)"
proof -
  obtain s' c i nx where r: "r = (s', (c, i), nx)" by (metis prod.collapse)
  note S = stretch [unfolded stretch_def r, simplified]
  note C = continue_at_holds [OF th1, of nx]
  have front: "op_queue_ops (shared st) @ opns = taken_by nx @ op_queue_ops s'"
    using S s1(1) by simp
  have w: "weight (op_queue_ops (shared st)) + weight opns =
      weight (taken_by nx) + weight (op_queue_ops s')"
    using arg_cong [OF front, of weight] by simp
  have tc: "task_count (op_queue_ops (shared st)) + task_count opns =
      task_count (taken_by nx) + task_count (op_queue_ops s')"
    using arg_cong [OF front, of task_count] by simp
  have en: "entered st = taken st @ op_queue_ops (shared st)"
    using inv by (simp add: sched_inv_def)
  show ?thesis
  proof (rule sched_inv_update [OF inv t th, of _ c k "continue_at nx th1"])
    show "sthreads (locked t k th1 opns r st) = notify c k ((sthreads st)[t := continue_at nx th1])"
      by (simp add: locked_def r ths_after_def)
    show "thread_ok (continue_at nx th1)" by (rule C(5)) (use S in simp)
    show "outstanding_work (shared (locked t k th1 opns r st)) - outstanding_work (shared st) =
        int (guards (locked t k th1 opns r st)) - int (guards st)
        + weight (op_queue_ops (shared (locked t k th1 opns r st)))
        - weight (op_queue_ops (shared st)) + load (continue_at nx th1) - load th"
      using S C(1) w s1 holds by (simp add: locked_def r)
    show "task_count (op_queue_ops (shared (locked t k th1 opns r st))) + in_task (continue_at nx th1)
          - (if has_task (shared (locked t k th1 opns r st)) then 1 else 0) =
        task_count (op_queue_ops (shared st)) + in_task th
          - (if has_task (shared st) then 1 else 0)"
      using S C(2) tc s1 holds by (simp add: locked_def r)
    show "entered (locked t k th1 opns r st) =
        taken (locked t k th1 opns r st) @ op_queue_ops (shared (locked t k th1 opns r st))"
      using en front by (simp add: locked_def r)
    show "given (locked t k th1 opns r st) + (mset (no_task (entered st)) + held th) =
        given st + (mset (no_task (entered (locked t k th1 opns r st))) + held (continue_at nx th1))"
      using C(3) S holds by (simp add: locked_def r)
    show "mutex_enabled (shared (locked t k th1 opns r st)) = mutex_enabled (shared st)"
      using S s1 by (simp add: locked_def r)
    assume "mutex_enabled (shared st)"
    with S C(4) s1 ev show "int (wakeup_event (shared (locked t k th1 opns r st)) div 2) + waiting th =
        int (wakeup_event (shared st) div 2) + waiting (continue_at nx th1)"
      by (simp add: locked_def r)
  qed
qed

text \<open>A stretch that wakes threads, and pushes \<open>opns\<close> the thread was about to push.\<close>

lemma locked_call_inv:
  assumes inv: "sched_inv st"
    and t: "t < length (sthreads st)" and th: "th = sthreads st ! t"
    and nudge: "nudge s1 s'" and r: "r = (s', (c, i))"
    and s1: "op_queue_ops s1 = op_queue_ops (shared st) @ opns"
      "outstanding_work s1 = outstanding_work (shared st)"
      "mutex_enabled s1 = mutex_enabled (shared st)"
      "wakeup_event s1 = wakeup_event (shared st)"
    and task: "task_count opns = (if has_task s1 then 1 else 0) - (if has_task (shared st) then 1 else 0)"
    and ok: "thread_ok th1"
    and holds: "load th = load th1 + weight opns" "in_task th = in_task th1"
      "held th = held th1 + mset (no_task opns)" "waiting th = waiting th1"
  shows "sched_inv (locked_call t k th1 opns r st)"
proof -
  have en: "entered st = taken st @ op_queue_ops (shared st)"
    using inv by (simp add: sched_inv_def)
  show ?thesis
  proof (rule sched_inv_update [OF inv t th, of _ c k th1])
    show "sthreads (locked_call t k th1 opns r st) = notify c k ((sthreads st)[t := th1])"
      by (simp add: locked_call_def r)
  qed (use nudge en s1 task ok holds in \<open>auto simp: locked_call_def r nudge_def\<close>)
qed

text \<open>A step without the mutex.\<close>

lemma set_thread_inv:
  assumes inv: "sched_inv st"
    and t: "t < length (sthreads st)" and th: "th = sthreads st ! t"
    and ths: "sthreads st' = (sthreads st)[t := th1]"
    and same: "op_queue_ops (shared st') = op_queue_ops (shared st)"
      "has_task (shared st') = has_task (shared st)"
      "mutex_enabled (shared st') = mutex_enabled (shared st)"
      "wakeup_event (shared st') = wakeup_event (shared st)"
      "entered st' = entered st" "taken st' = taken st"
    and work: "outstanding_work (shared st') - int (guards st') + load th =
      outstanding_work (shared st) - int (guards st) + load th1"
    and held: "given st' + held th = given st + held th1"
    and ok: "thread_ok th1" and holds: "in_task th = in_task th1" "waiting th = waiting th1"
  shows "sched_inv st'"
proof (rule sched_inv_update [OF inv t th, of _ Cond_none 0 th1])
  have "entered st = taken st @ op_queue_ops (shared st)"
    using inv by (simp add: sched_inv_def)
  then show "entered st' = taken st' @ op_queue_ops (shared st')" by (simp add: same)
  show "given st' + (mset (no_task (entered st)) + held th) =
      given st + (mset (no_task (entered st')) + held th1)"
    using held by (simp add: same ac_simps)
qed (use ths same work ok holds in auto)

lemma inv_thread_ok: "sched_inv st \<Longrightarrow> t < length (sthreads st) \<Longrightarrow> thread_ok (sthreads st ! t)"
  by (simp add: sched_inv_def)

lemma inv_waiting:
  assumes inv: "sched_inv st" and t: "t < length (sthreads st)"
    and w: "thread_pc (sthreads st ! t) = Waiting b" and en: "mutex_enabled (shared st)"
  shows "2 \<le> wakeup_event (shared st)"
proof -
  have "waiting (sthreads st ! t) \<le> sum_list (map waiting (sthreads st))"
    using t by (intro member_le_sum_list) (auto simp: waiting_def split: thread_pc.splits)
  then have "1 \<le> int (wakeup_event (shared st) div 2)"
    using inv en w by (simp add: sched_inv_def waiting_def)
  then show ?thesis by simp
qed

lemma sleep_stretch:
  "mutex_enabled s \<Longrightarrow> stretch s (s\<lparr>wakeup_event := Suc (Suc (wakeup_event s))\<rparr>, e, Go_wait)"
  by (simp add: stretch_def)

lemma wake_up_stretch: "\<not> mutex_enabled s \<Longrightarrow> stretch s (wake_up m s)"
  by (simp add: wake_up_def after_wait_stretch)

lemma wake_up_stretch_enabled:
  assumes "mutex_enabled s" "2 \<le> wakeup_event s"
  shows "stretch (s\<lparr>wakeup_event := wakeup_event s - 2\<rparr>) (wake_up m s)"
  using assms sleep_stretch [of "s\<lparr>wakeup_event := wakeup_event s - 2\<rparr>" no_effect]
  by (cases m) (simp_all add: wake_up_def event_wait_leave_def event_wait_enter_def Let_def
      do_run_one_stretch wait_one_front_stretch)

lemma thread_ok_pc:
  assumes "thread_ok th"
  shows "thread_pc th = Outside \<Longrightarrow> private_op_queue (info th) = [] \<and> private_outstanding_work (info th) = 0"
    and "thread_pc th \<in> {Stop_return, Entered} \<or> thread_pc th = Waiting b \<Longrightarrow>
      private_op_queue (info th) = [] \<and> private_outstanding_work (info th) = 0 \<and> pending th = No_call"
    and "thread_pc th \<in> {After_task, Stopping, Ready} \<or> thread_pc th = In_task usec \<Longrightarrow>
      private_outstanding_work (info th) = 0 \<and> pending th = No_call"
    and "Task_operation \<notin> set (private_op_queue (info th))"
  using assms by (auto simp: thread_ok_def)

text \<open>The counter part of \<open>~work_cleanup\<close>: one piece of work is done, the private ones become
  shared.\<close>

lemma work_cleanup_work:
  assumes "work_cleanup_work ti s = (ti', s', must_stop)"
  shows "outstanding_work s' = outstanding_work s + private_outstanding_work ti - 1 \<or>
      private_outstanding_work ti < 0"
    "private_outstanding_work ti' = 0" "private_op_queue ti' = private_op_queue ti"
    "op_queue_ops s' = op_queue_ops s" "has_task s' = has_task s"
    "mutex_enabled s' = mutex_enabled s" "wakeup_event s' = wakeup_event s"
    "must_stop \<Longrightarrow> outstanding_work s' = 0" "stopped s' = stopped s"
    "task_interrupted s' = task_interrupted s" "one_thread s' = one_thread s"
  using assms
  by (auto simp: work_cleanup_work_def work_increment_def work_finished_def Let_def split: if_splits)

lemma op_ends_inv:
  assumes inv: "sched_inv st" and t: "t < length (sthreads st)" and th: "th = sthreads st ! t"
    and pc: "thread_pc th = In_op opn" and "pending th = No_call"
    and w: "work_cleanup_work ti0 (shared st) = (ti, s, must_stop)"
    and ti0: "private_op_queue ti0 = private_op_queue (info th)"
      "private_outstanding_work ti0 = private_outstanding_work (info th) + extra" "0 \<le> extra"
    and g: "int g = int (guards st) + extra + (if counted opn then 1 else 0) - 1"
  shows "sched_inv ((set_thread t (th\<lparr>info := ti, thread_pc := (if must_stop then Stopping else Ready)\<rparr>) st)
           \<lparr>shared := s, guards := g\<rparr>)"
proof -
  have ok: "thread_ok th" using inv_thread_ok [OF inv t] th by simp
  let ?th1 = "th\<lparr>info := ti, thread_pc := (if must_stop then Stopping else Ready)\<rparr>"
  have p: "0 \<le> private_outstanding_work (info th)" using ok pc by (simp add: thread_ok_def)
  with work_cleanup_work(1) [OF w] ti0
  have o: "outstanding_work s = outstanding_work (shared st) + private_outstanding_work (info th) + extra - 1"
    by auto
  note W = work_cleanup_work(2-7) [OF w]
  show ?thesis
    by (rule set_thread_inv [OF inv t th, of _ ?th1])
      (use W ok pc o g ti0 in \<open>auto simp: set_thread_def holds_defs thread_ok_def \<open>pending th = No_call\<close>\<close>)
qed

text \<open>
  A posting call: the operations end in the private queue of a thread inside the scheduler, or
  the work is counted; \<open>d\<close> of them had been counted before.
\<close>

definition hands_over ::
    "sthread \<Rightarrow> scheduler \<Rightarrow> sop list \<Rightarrow> nat \<Rightarrow> thread_info + scheduler \<Rightarrow> bool" where
  "hands_over th s opns d r \<longleftrightarrow> (case r of
     Inl ti \<Rightarrow> thread_pc th \<noteq> Outside \<and>
       private_op_queue ti = private_op_queue (info th) @ opns \<and>
       private_outstanding_work ti = private_outstanding_work (info th) + int (length opns) - int d
   | Inr s' \<Rightarrow> s' = s\<lparr>outstanding_work := outstanding_work s + int (length opns) - int d\<rparr>)"

lemma posts_hand_over:
  "hands_over th s [opn] 0 (post_immediate_completion opn is_continuation (this_thread th) s)"
  "hands_over th s opns 0
     (post_immediate_completions (length opns) opns is_continuation (this_thread th) s)"
  "hands_over th s [opn] (Suc 0) (post_deferred_completion opn (this_thread th) s)"
  "post_deferred_completions opns (this_thread th) s = Some r \<Longrightarrow>
     hands_over th s opns (length opns) r"
  "hands_over th s [opn] 0 (Inr (do_dispatch opn s))"
  by (auto simp: hands_over_def post_immediate_completion_def post_immediate_completions_def
      post_deferred_completion_def post_deferred_completions_def do_dispatch_def this_thread_def
      work_started_def work_increment_def split: if_splits)

lemma posted_inv:
  assumes inv: "sched_inv st" and t: "t < length (sthreads st)" and th: "th = sthreads st ! t"
    and client: "in_client th" and user: "user_ops opns"
    and r: "hands_over th (shared st) opns d r"
    and d: "d \<le> length opns" "d \<le> guards st"
    and st': "sthreads st' = sthreads (posted t th opns r st)"
      "shared st' = shared (posted t th opns r st)"
      "entered st' = entered st" "taken st' = taken st"
      "given st' = mset opns + given st" "guards st' = guards st - d"
  shows "sched_inv st'"
proof -
  have ok: "thread_ok th" using inv_thread_ok [OF inv t] th by simp
  have pend: "pending th = No_call" using client by (simp add: in_client_iff)
  note U = user_ops_weight [OF user] user_ops_no_task [OF user]
  show ?thesis
  proof (cases r)
    case (Inl ti)
    then obtain opn where pc: "thread_pc th = In_op opn"
      using r client by (auto simp: in_client_iff hands_over_def)
    show ?thesis
      by (rule set_thread_inv [OF inv t th, of _ "th\<lparr>info := ti\<rparr>"])
        (use Inl r U ok pend d pc st' in
          \<open>auto simp: set_thread_def holds_defs thread_ok_def hands_over_def\<close>)
  next
    case (Inr s)
    show ?thesis
      by (rule set_thread_inv [OF inv t th, of _ "th\<lparr>pending := Pushing opns\<rparr>"])
        (use Inr r U ok pend client d user st' in
          \<open>auto simp: set_thread_def holds_defs thread_ok_def in_client_iff hands_over_def\<close>)
  qed
qed

lemma posted_same [simp]:
  "entered (posted t th opns r st) = entered st" "taken (posted t th opns r st) = taken st"
  "guards (posted t th opns r st) = guards st" "given (posted t th opns r st) = given st"
  by (cases r; simp add: set_thread_def)+

theorem sched_step_inv:
  assumes "sched_step allowed st st'" and inv: "sched_inv st"
  shows "sched_inv st'"
  using assms(1)
proof cases
  case (start t th m)
  note ok = inv_thread_ok [OF inv start(2)]
  show ?thesis
    unfolding start(1)
    by (rule set_thread_inv [OF inv start(2,3), of _ "th\<lparr>mode := m, info := thread_info_new,
        handlers_run := 0, thread_pc := (if outstanding_work (shared st) = 0 then Stop_return
                                     else Entered)\<rparr>"])
      (use start thread_ok_pc(1) [OF ok] ok in
        \<open>auto simp: set_thread_def holds_defs thread_ok_def thread_info_new_def\<close>)
next
  case (stop_return t th r k)
  obtain s' c i where r: "stop_all_threads (shared st) = (s', (c, i))" by (metis prod.collapse)
  note ok = inv_thread_ok [OF inv stop_return(2)]
  show ?thesis
    unfolding stop_return(1)
    by (rule locked_call_inv [OF inv stop_return(2,3), of "shared st" s'])
      (use stop_return r stop_all_nudge [OF r] ok in
        \<open>auto simp: sched_stop_def holds_defs thread_ok_def nudge_def\<close>)
next
  case (enter t th r k)
  note ok = inv_thread_ok [OF inv enter(2)]
  show ?thesis
    unfolding enter(1) enter(5)
    by (rule locked_inv [OF inv enter(2,3) loop_head_stretch])
      (use enter(3,4) thread_ok_pc(2) [OF ok] in \<open>auto simp: holds_defs\<close>)
next
  case (spurious t th)
  note ok = inv_thread_ok [OF inv spurious(2)]
  show ?thesis
    unfolding spurious(1)
    by (rule set_thread_inv [OF inv spurious(2,3), of _ "th\<lparr>thread_pc := Waiting True\<rparr>"])
      (use spurious ok in \<open>auto simp: set_thread_def holds_defs thread_ok_def\<close>)
next
  case (wake t th r k)
  note ok = inv_thread_ok [OF inv wake(2)]
  have *: "private_op_queue (info th) = []" "private_outstanding_work (info th) = 0"
    "pending th = No_call"
    using thread_ok_pc(2) [OF ok, of True] wake(3,4) by auto
  show ?thesis
  proof (cases "mutex_enabled (shared st)")
    case True
    have two: "2 \<le> wakeup_event (shared st)"
      using inv_waiting [OF inv wake(2)] wake(3,4) True by auto
    show ?thesis
      unfolding wake(1) wake(5)
      by (rule locked_inv [OF inv wake(2,3) wake_up_stretch_enabled [OF True two]])
        (use wake(4) * two in \<open>auto simp: holds_defs\<close>)
  next
    case False
    show ?thesis
      unfolding wake(1) wake(5)
      by (rule locked_inv [OF inv wake(2,3) wake_up_stretch [OF False]])
        (use wake(4) * False in \<open>auto simp: holds_defs\<close>)
  qed
next
  case (task_queues t th usec ti opn)
  note ok = inv_thread_ok [OF inv task_queues(2)]
  show ?thesis
    unfolding task_queues(1)
    by (rule set_thread_inv [OF inv task_queues(2,3),
        of _ "th\<lparr>info := ti\<lparr>private_op_queue := private_op_queue ti @ [opn]\<rparr>\<rparr>"])
      (use task_queues ok in \<open>auto simp: set_thread_def holds_defs thread_ok_def of_nat_diff\<close>)
next
  case (task_returns t th usec ti s)
  note ok = inv_thread_ok [OF inv task_returns(2)]
  show ?thesis
    unfolding task_returns(1)
    by (rule set_thread_inv [OF inv task_returns(2,3),
        of _ "th\<lparr>info := ti, thread_pc := After_task\<rparr>"])
      (use task_returns ok in \<open>auto simp: set_thread_def holds_defs thread_ok_def task_cleanup_work_def\<close>)
next
  case (task_left t th ti s r k)
  note ok = inv_thread_ok [OF inv task_left(2)]
  show ?thesis
    unfolding task_left(1) task_left(6)
    by (rule locked_inv [OF inv task_left(2,3) after_task_stretch])
      (use task_left(3-5) thread_ok_pc(3,4) [OF ok] in \<open>auto simp: holds_defs task_cleanup_queue_def\<close>)
next
  case (op_ends t th opn ti s must_stop)
  show ?thesis
    using op_ends_inv [OF inv op_ends(2,3,4,6,7), of 0 "guards st"] op_ends(1,5)
    by (cases st) (simp add: set_thread_def)
next
  case (op_ends_compensated t th opn ti s must_stop)
  show ?thesis
    using op_ends_inv [OF inv op_ends_compensated(2,3,4,6,7), of 1 "guards st"] op_ends_compensated(1,5)
    by (cases st) (simp add: set_thread_def compensating_work_started_def)
next
  case (op_ends_adopted t th opn ti s must_stop)
  show ?thesis
    using op_ends_inv [OF inv op_ends_adopted(2,3,4,6,8), of 0 "guards st - 1"] op_ends_adopted(1,5,7)
    by simp
next
  case (op_stops t th r k)
  obtain s' c i where r: "stop_all_threads (shared st) = (s', (c, i))" by (metis prod.collapse)
  note ok = inv_thread_ok [OF inv op_stops(2)]
  show ?thesis
    unfolding op_stops(1)
    by (rule locked_call_inv [OF inv op_stops(2,3), of "shared st" s'])
      (use op_stops r stop_all_nudge [OF r] ok in
        \<open>auto simp: sched_stop_def holds_defs thread_ok_def nudge_def\<close>)
next
  case (op_left t th ti s th' r k)
  note ok = inv_thread_ok [OF inv op_left(2)]
  show ?thesis
    unfolding op_left(1) op_left(7)
    by (rule locked_inv [OF inv op_left(2,3) after_op_stretch])
      (use op_left(3-6) thread_ok_pc(3,4) [OF ok] in \<open>auto simp: holds_defs work_cleanup_queue_def\<close>)
next
  case (starts_work t th)
  show ?thesis
    unfolding starts_work(1)
    by (rule set_thread_inv [OF inv starts_work(2,3), of _ th])
      (use starts_work inv_thread_ok [OF inv starts_work(2)] in \<open>auto simp: work_started_def\<close>)
next
  case (finishes_work t th s must_stop)
  note ok = inv_thread_ok [OF inv finishes_work(2)]
  show ?thesis
    unfolding finishes_work(1)
    by (rule set_thread_inv [OF inv finishes_work(2,3),
        of _ "th\<lparr>pending := (if must_stop then Stop_call else No_call)\<rparr>"])
      (use finishes_work ok in
        \<open>auto simp: set_thread_def work_finished_def in_client_iff holds_defs thread_ok_def Let_def\<close>)
next
  case (posts_immediate t th opn r is_continuation)
  have h: "hands_over th (shared st) [opn] 0 r"
    using posts_hand_over(1) posts_immediate by simp
  show ?thesis
    by (rule posted_inv [OF inv posts_immediate(2,3,4) _ h]) (use posts_immediate in simp_all)
next
  case (posts_immediates t th opns r is_continuation)
  have h: "hands_over th (shared st) opns 0 r"
    using posts_hand_over(2) posts_immediates by simp
  show ?thesis
    by (rule posted_inv [OF inv posts_immediates(2,3,4) _ h]) (use posts_immediates in simp_all)
next
  case (posts_deferred t th opn r)
  have h: "hands_over th (shared st) [opn] (Suc 0) r"
    using posts_hand_over(3) posts_deferred by simp
  show ?thesis
    by (rule posted_inv [OF inv posts_deferred(2,3,4) _ h]) (use posts_deferred in simp_all)
next
  case (posts_deferreds t th opns r)
  have h: "hands_over th (shared st) opns (length opns) r"
    using posts_hand_over(4) [OF posts_deferreds(7)]  by simp
  show ?thesis
    by (rule posted_inv [OF inv posts_deferreds(2,3,4) _ h]) (use posts_deferreds in simp_all)
next
  case (dispatches t th opn s)
  have h: "hands_over th (shared st) [opn] 0 (Inr s)"
    using posts_hand_over(5) dispatches by simp
  show ?thesis
    by (rule posted_inv [OF inv dispatches(2,3,4) _ h]) (use dispatches in \<open>simp_all add: set_thread_def\<close>)
next
  case (pushes t th opns r k)
  let ?s = "(shared st)\<lparr>op_queue_ops := op_queue_ops (shared st) @ opns\<rparr>"
  obtain s' c i where r: "wake_one_thread_and_unlock ?s = (s', (c, i))" by (metis prod.collapse)
  note ok = inv_thread_ok [OF inv pushes(2)]
  have "user_ops opns" using ok pushes(3,4) by (simp add: thread_ok_def pushing_def)
  note U = user_ops_no_task [OF this]
  show ?thesis
    unfolding pushes(1)
    by (rule locked_call_inv [OF inv pushes(2,3), of ?s s'])
      (use pushes r wake_one_nudge [OF r] ok U in
        \<open>auto simp: push_and_wake_def holds_defs thread_ok_def split: thread_pc.splits\<close>)
next
  case (stops_pending t th r k)
  obtain s' c i where r: "stop_all_threads (shared st) = (s', (c, i))" by (metis prod.collapse)
  note ok = inv_thread_ok [OF inv stops_pending(2)]
  show ?thesis
    unfolding stops_pending(1)
    by (rule locked_call_inv [OF inv stops_pending(2,3), of "shared st" s'])
      (use stops_pending r stop_all_nudge [OF r] ok in
        \<open>auto simp: sched_stop_def holds_defs thread_ok_def nudge_def split: thread_pc.splits\<close>)
next
  case (stops t th r k)
  obtain s' c i where r: "stop_all_threads (shared st) = (s', (c, i))" by (metis prod.collapse)
  show ?thesis
    unfolding stops(1)
    by (rule locked_call_inv [OF inv stops(2,3), of "shared st" s'])
      (use stops r stop_all_nudge [OF r] inv_thread_ok [OF inv stops(2)] in
        \<open>auto simp: sched_stop_def nudge_def\<close>)
next
  case (restarts t th)
  then show ?thesis using inv by (simp add: sched_inv_def sched_restart_def)
next
  case (inits_task t th r k)
  show ?thesis
  proof (cases "\<not> shut_down (shared st) \<and> \<not> has_task (shared st)")
    case True
    let ?s = "(shared st)\<lparr>has_task := True,
      op_queue_ops := op_queue_ops (shared st) @ [Task_operation]\<rparr>"
    obtain s' c i where r: "wake_one_thread_and_unlock ?s = (s', (c, i))" by (metis prod.collapse)
    show ?thesis
      unfolding inits_task(1)
      by (rule locked_call_inv [OF inv inits_task(2,3), of ?s s'])
        (use inits_task True r wake_one_nudge [OF r] inv_thread_ok [OF inv inits_task(2)] in
          \<open>auto simp: init_task_def nudge_def\<close>)
  next
    case False
    show ?thesis
      unfolding inits_task(1)
      by (rule locked_call_inv [OF inv inits_task(2,3), of "shared st" "shared st"])
        (use inits_task False inv_thread_ok [OF inv inits_task(2)] in
          \<open>auto simp: init_task_def nudge_def\<close>)
  qed
qed

theorem sched_reach_inv:
  assumes "sched_reach allowed (sched_init hint own n) st"
  shows "sched_inv st"
  using assms by induction (auto intro: sched_inv_init sched_step_inv)

end
