(* ===== verification/SchedulerWake.thy ===== *)
theory SchedulerWake
  imports SchedulerInv
begin

text \<open>
  No wake-up is lost. When every thread uses \<open>run\<close>, a queue with an operation in it and a
  thread inside \<open>run\<close> imply that some thread is going to look at the queue: it is running, or
  the condition variable released it and the event is signalled, or it is in the task and the
  task was told to return.
\<close>

section \<open>Threads that will look at the queue\<close>

definition inside :: "sthread \<Rightarrow> bool" where
  "inside th \<longleftrightarrow> thread_pc th \<noteq> Outside"

definition awake :: "bool \<Rightarrow> bool \<Rightarrow> sthread \<Rightarrow> bool" where
  "awake signalled interrupted th \<longleftrightarrow> (case thread_pc th of
     Outside \<Rightarrow> False
   | Waiting b \<Rightarrow> b \<and> signalled
   | In_task usec \<Rightarrow> usec = 0 \<or> interrupted
   | _ \<Rightarrow> True)"

abbreviation awake_in :: "sched_state \<Rightarrow> sthread \<Rightarrow> bool" where
  "awake_in st \<equiv> awake (event_signalled (wakeup_event (shared st))) (interrupt_pending st)"

definition blocks_in_task :: "sthread \<Rightarrow> bool" where
  "blocks_in_task th \<longleftrightarrow> (\<exists>usec. thread_pc th = In_task usec \<and> usec \<noteq> 0)"

lemma awake_release:
  "awake sg intr th \<Longrightarrow> awake sg intr (release th)"
  "inside (release th) = inside th" "blocks_in_task (release th) = blocks_in_task th"
  by (auto simp: awake_def release_def inside_def blocks_in_task_def split: thread_pc.splits)

lemma awake_inside: "awake sg intr th \<Longrightarrow> inside th"
  by (auto simp: awake_def inside_def split: thread_pc.splits)

lemma awake_mono:
  "awake sg intr th \<Longrightarrow> (sg \<Longrightarrow> sg') \<Longrightarrow> (intr \<Longrightarrow> intr') \<Longrightarrow> awake sg' intr' th"
  by (auto simp: awake_def split: thread_pc.splits)

text \<open>Membership in the list of threads after an update and a notification.\<close>

lemma notify_from:
  "x \<in> set (notify c k ths) \<Longrightarrow> \<exists>y \<in> set ths. x = y \<or> x = release y"
  by (cases c) (auto split: if_splits dest!: subsetD [OF set_update_subset_insert])

lemma notify_to:
  assumes "x \<in> set ths"
  shows "x \<in> set (notify c k ths) \<or> release x \<in> set (notify c k ths)"
proof (cases c)
  case Cond_signal
  from assms obtain j where j: "j < length ths" "x = ths ! j" by (auto simp: in_set_conv_nth)
  show ?thesis
  proof (cases "j = k")
    case True
    with j show ?thesis using set_update_memI [of k ths "release x"] by (simp add: Cond_signal)
  next
    case False
    have "ths[k := release (ths ! k)] ! j = x" using False j by simp
    then have "x \<in> set (ths[k := release (ths ! k)])" using j by (metis length_list_update nth_mem)
    then show ?thesis using assms by (simp add: Cond_signal)
  qed
qed (use assms in auto)

lemma update_to:
  assumes "x \<in> set ths" "t < length ths"
  shows "x = ths ! t \<or> x \<in> set (ths[t := y])"
proof -
  from assms obtain j where j: "j < length ths" "x = ths ! j" by (auto simp: in_set_conv_nth)
  show ?thesis
  proof (cases "j = t")
    case False
    then have "ths[t := y] ! j = x" using j by simp
    then show ?thesis using j by (metis length_list_update nth_mem)
  qed (use j in simp)
qed

definition wake_inv :: "sched_state \<Rightarrow> bool" where
  "wake_inv st \<longleftrightarrow>
     mutex_enabled (shared st) \<and>
     (\<forall>th \<in> set (sthreads st). inside th \<longrightarrow> mode th = Run) \<and>
     (stopped (shared st) \<longrightarrow> (\<forall>th \<in> set (sthreads st). inside th \<longrightarrow> awake_in st th)) \<and>
     (op_queue_ops (shared st) \<noteq> [] \<longrightarrow> (\<exists>th \<in> set (sthreads st). inside th) \<longrightarrow>
        (\<exists>th \<in> set (sthreads st). awake_in st th)) \<and>
     (\<forall>th \<in> set (sthreads st). blocks_in_task th \<longrightarrow> task_interrupted (shared st) \<longrightarrow>
        interrupt_pending st)"

lemma wake_inv_init:
  assumes "hint_is_locking LOCKING_SCHEDULER hint"
  shows "wake_inv (sched_init hint own n)"
  using assms
  by (auto simp: wake_inv_def sched_init_def scheduler_new_def sthread_new_def inside_def
      blocks_in_task_def)

section \<open>Kinds of steps\<close>

text \<open>Delivering a signal keeps the invariant.\<close>

lemma notify_all:
  assumes "\<forall>y \<in> set ths. inside y \<longrightarrow> awake sg intr y"
  shows "\<forall>x \<in> set (notify c k ths). inside x \<longrightarrow> awake sg intr x"
  using assms notify_from [of _ c k ths] awake_release by metis

lemma notify_some:
  assumes "\<exists>y \<in> set ths. awake sg intr y"
  shows "\<exists>x \<in> set (notify c k ths). awake sg intr x"
  using assms notify_to [of _ ths c k] awake_release(1) by metis

lemma notify_ball:
  assumes "\<And>y. P (release y) = P y"
  shows "(\<forall>x \<in> set (notify c k ths). P x) = (\<forall>x \<in> set ths. P x)"
  by (rule ball_notify [of P, OF assms])

lemma notify_inside: "(\<exists>x \<in> set (notify c k ths). inside x) = (\<exists>x \<in> set ths. inside x)"
  using notify_ball [of "\<lambda>x. \<not> inside x" c k ths] awake_release(2) by auto

lemma wake_inv_notify:
  assumes "wake_inv (st\<lparr>sthreads := ths\<rparr>)"
  shows "wake_inv (st\<lparr>sthreads := notify c k ths\<rparr>)"
proof -
  note W = assms [unfolded wake_inv_def, simplified]
  have "\<forall>th \<in> set (notify c k ths). inside th \<longrightarrow> mode th = Run"
    using W notify_ball [of "\<lambda>th. inside th \<longrightarrow> mode th = Run" c k ths] awake_release(2) by simp
  moreover have "\<forall>th \<in> set (notify c k ths). blocks_in_task th \<longrightarrow> task_interrupted (shared st)
      \<longrightarrow> interrupt_pending st"
    using W notify_ball [of "\<lambda>th. blocks_in_task th \<longrightarrow> task_interrupted (shared st)
        \<longrightarrow> interrupt_pending st" c k ths] awake_release(3) by simp
  ultimately show ?thesis
    using W notify_all [of ths _ _ c k] notify_some [of ths _ _ c k]
    by (simp add: wake_inv_def notify_inside)
qed

text \<open>
  A step that turns thread \<open>t\<close> into \<open>th1\<close> and leaves the others at least as awake as they
  were. Either the thread is awake afterwards, or it keeps its place with nothing changed
  for it.
\<close>

lemma wake_inv_update:
  assumes W: "wake_inv st" and t: "t < length (sthreads st)" and th: "th = sthreads st ! t"
    and ths: "sthreads st' = (sthreads st)[t := th1]"
    and en: "mutex_enabled (shared st') = mutex_enabled (shared st)"
    and mode: "inside th1 \<Longrightarrow> mode th1 = Run"
    and stopped: "stopped (shared st') = stopped (shared st)"
    and others: "\<And>j. j < length (sthreads st) \<Longrightarrow> j \<noteq> t \<Longrightarrow> awake_in st (sthreads st ! j) \<Longrightarrow>
      awake_in st' (sthreads st ! j)"
    and self: "awake_in st' th1 \<or>
      op_queue_ops (shared st') = op_queue_ops (shared st) \<and> inside th1 = inside th \<and>
      (awake_in st th \<longrightarrow> awake_in st' th1)"
    and intr: "\<And>x. x \<in> set (sthreads st') \<Longrightarrow> blocks_in_task x \<Longrightarrow>
      task_interrupted (shared st') \<Longrightarrow> interrupt_pending st'"
  shows "wake_inv st'"
proof -
  note W' = W [unfolded wake_inv_def]
  have len: "length (sthreads st') = length (sthreads st)" by (simp add: ths)
  have nth: "sthreads st' ! j = (if j = t then th1 else sthreads st ! j)" if "j < length (sthreads st)" for j
    using that by (simp add: ths)
  have all: "inside x \<longrightarrow> awake_in st' x" if s: "stopped (shared st')" and x: "x \<in> set (sthreads st')" for x
  proof
    assume ins: "inside x"
    from x obtain j where j: "j < length (sthreads st)" "x = sthreads st' ! j"
      by (auto simp: in_set_conv_nth len)
    have old: "inside (sthreads st ! j) \<Longrightarrow> awake_in st (sthreads st ! j)"
      using W' s stopped j(1) by auto
    show "awake_in st' x"
      using old others [OF j(1)] self nth [OF j(1)] ins j(2) th by (cases "j = t") auto
  qed
  have some: "\<exists>x \<in> set (sthreads st'). awake_in st' x"
    if q: "op_queue_ops (shared st') \<noteq> []" and ins: "\<exists>x \<in> set (sthreads st'). inside x"
  proof (cases "awake_in st' th1")
    case True
    then show ?thesis using nth [OF t] nth_mem [of t "sthreads st'"] t len by auto
  next
    case False
    with self have same: "op_queue_ops (shared st) \<noteq> []" "inside th1 = inside th" "\<not> awake_in st th"
      using q by auto
    from ins obtain j where "j < length (sthreads st)" "inside (sthreads st' ! j)"
      by (auto simp: in_set_conv_nth len)
    then have "inside (sthreads st ! j)" "j < length (sthreads st)"
      using nth same(2) th by (auto split: if_splits)
    then have "\<exists>x \<in> set (sthreads st). inside x" by force
    with W' same(1) obtain z where z: "z \<in> set (sthreads st)" "awake_in st z" by blast
    then obtain i where i: "i < length (sthreads st)" "awake_in st (sthreads st ! i)"
      by (auto simp: in_set_conv_nth)
    with same(3) th have "i \<noteq> t" by auto
    then have "awake_in st' (sthreads st' ! i)" using others i nth by simp
    then show ?thesis using i(1) len nth_mem [of i "sthreads st'"] by auto
  qed
  have modes: "\<forall>x \<in> set (sthreads st'). inside x \<longrightarrow> mode x = Run"
    using W' mode set_update_subset_insert [of "sthreads st" t th1] by (auto simp: ths)
  show ?thesis
    unfolding wake_inv_def using W' en all some intr modes by auto
qed

text \<open>A stopped scheduler, and one that has nothing queued.\<close>

lemma wake_inv_stopped:
  assumes "mutex_enabled (shared st)" "stopped (shared st)"
    "\<And>x. x \<in> set (sthreads st) \<Longrightarrow> inside x \<Longrightarrow> mode x = Run \<and> awake_in st x"
    "\<And>x. x \<in> set (sthreads st) \<Longrightarrow> blocks_in_task x \<Longrightarrow> task_interrupted (shared st) \<Longrightarrow>
      interrupt_pending st"
  shows "wake_inv st"
  using assms unfolding wake_inv_def by blast

lemma wake_inv_idle:
  assumes "mutex_enabled (shared st)" "\<not> stopped (shared st)" "op_queue_ops (shared st) = []"
    "\<And>x. x \<in> set (sthreads st) \<Longrightarrow> inside x \<Longrightarrow> mode x = Run"
    "\<And>x. x \<in> set (sthreads st) \<Longrightarrow> blocks_in_task x \<Longrightarrow> task_interrupted (shared st) \<Longrightarrow>
      interrupt_pending st"
  shows "wake_inv st"
  using assms unfolding wake_inv_def by blast

lemma sum_list_two:
  fixes f :: "'a \<Rightarrow> int"
  assumes "i < length xs" "j < length xs" "i \<noteq> j" "\<And>x. 0 \<le> f x"
  shows "f (xs ! i) + f (xs ! j) \<le> sum_list (map f xs)"
proof -
  have "f (xs ! i) + f (xs ! j) = (\<Sum>k \<in> {i, j}. f (xs ! k))" using assms(3) by simp
  also have "\<dots> \<le> (\<Sum>k \<in> {0..<length xs}. f (xs ! k))"
    by (rule sum_mono2) (use assms in auto)
  also have "\<dots> = sum_list (map f xs)" by (simp add: sum_list_sum_nth)
  finally show ?thesis .
qed

lemma in_task_range: "0 \<le> in_task th" "in_task th \<le> 1"
  by (simp_all add: in_task_def split: thread_pc.split)

lemma one_in_task:
  assumes "sched_inv st" "i < length (sthreads st)" "j < length (sthreads st)" "i \<noteq> j"
    "in_task (sthreads st ! i) = 1"
  shows "in_task (sthreads st ! j) = 0"
proof -
  have "task_count (op_queue_ops (shared st)) + sum_list (map in_task (sthreads st)) \<le> 1"
    using assms(1) by (simp add: sched_inv_def)
  moreover have "0 \<le> task_count (op_queue_ops (shared st))" by simp
  ultimately show ?thesis
    using sum_list_two [of i "sthreads st" j in_task] assms(2-5) in_task_range [of "sthreads st ! j"]
      in_task_range by (smt (verit))
qed

lemma queued_task_not_run:
  assumes "sched_inv st" "Task_operation \<in> set (op_queue_ops (shared st))" "th \<in> set (sthreads st)"
  shows "in_task th = 0"
proof -
  have "1 \<le> task_count (op_queue_ops (shared st))"
    using assms(2) by (induction "op_queue_ops (shared st)")
      (auto simp: task_count_def filter_empty_conv Suc_le_eq simp flip: length_greater_0_conv)
  moreover have "task_count (op_queue_ops (shared st)) + sum_list (map in_task (sthreads st)) \<le> 1"
    using assms(1) by (simp add: sched_inv_def)
  moreover have "in_task th \<le> sum_list (map in_task (sthreads st))"
    using assms(3) in_task_range by (intro member_le_sum_list) auto
  ultimately show ?thesis using in_task_range [of th] by simp
qed

lemma blocks_in_task: "blocks_in_task th \<Longrightarrow> in_task th = 1"
  by (auto simp: blocks_in_task_def in_task_def)

section \<open>The loop of \<open>run\<close>\<close>

lemma signalled_or: "event_signalled (or st (Suc 0))"
  by (simp add: event_signalled_def or_Suc_0_eq mod_2_eq_odd)

lemma or_1_gt: "Suc 0 < or st (Suc 0) \<longleftrightarrow> Suc 0 < (st::nat)"
  by (cases "even st") (auto simp: or_Suc_0_eq elim!: evenE)

lemma signal_one_effect:
  assumes "cond_unlock_and_signal_one s = (s', c)" "mutex_enabled s"
  shows "event_signalled (wakeup_event s')" "task_interrupted s' = task_interrupted s"
    "op_queue_ops s' = op_queue_ops s"
  using assms signalled_or [of "wakeup_event s"]
  by (auto simp: cond_unlock_and_signal_one_def event_unlock_and_signal_one_def Let_def)

lemma wake_one_effect:
  assumes "wake_one_thread_and_unlock s = (s', (c, i))" "mutex_enabled s"
  shows "event_signalled (wakeup_event s')"
    "c = Cond_signal \<and> \<not> i \<and> task_interrupted s' = task_interrupted s \<and> wakeup_event s > 1 \<or>
     c = Cond_none \<and> wakeup_event s \<le> 1 \<and> (i \<longleftrightarrow> \<not> task_interrupted s \<and> has_task s) \<and>
     task_interrupted s' = (task_interrupted s \<or> i)"
  using assms signalled_or [of "wakeup_event s"]
  by (auto simp: wake_one_thread_and_unlock_def cond_maybe_unlock_and_signal_one_def
      event_maybe_unlock_and_signal_one_def Let_def or_1_gt not_less split: if_splits)

lemma do_run_one_cases:
  assumes r: "do_run_one s = (s', (c, i), nx)" and en: "mutex_enabled s"
  obtains
    (ret) "nx = Go_return" "stopped s" "s' = s" "c = Cond_none" "\<not> i"
  | (wait) "nx = Go_wait" "\<not> stopped s" "op_queue_ops s' = []" "c = Cond_none" "\<not> i"
      "task_interrupted s' = task_interrupted s"
  | (task) usec where "nx = Go_task usec" "\<not> stopped s" "usec = 0 \<or> op_queue_ops s' = []" "\<not> i"
      "task_interrupted s' = (usec = 0)"
      "event_signalled (wakeup_event s) \<Longrightarrow> event_signalled (wakeup_event s')"
  | (opn) opn where "nx = Go_op opn" "\<not> stopped s" "task_interrupted s' = (task_interrupted s \<or> i)"
      "event_signalled (wakeup_event s) \<Longrightarrow> event_signalled (wakeup_event s')"
proof (cases "stopped s")
  case True
  with r have "nx = Go_return" "s' = s" "c = Cond_none" "\<not> i" by (auto simp: do_run_one_def)
  with True show ?thesis by (intro ret)
next
  case False
  show ?thesis
  proof (cases "op_queue_ops s")
    case Nil
    with r False have "nx = Go_wait" "s' = cond_clear_and_wait s" "c = Cond_none" "\<not> i"
      by (auto simp: do_run_one_def)
    with False Nil show ?thesis by (intro wait) (simp_all add: cond_clear_and_wait_def)
  next
    case (Cons x rest)
    show ?thesis
    proof (cases "x = Task_operation")
      case True
      show ?thesis
      proof (cases "rest \<noteq> [] \<and> \<not> one_thread s")
        case more: True
        obtain s2 c2 where w: "cond_unlock_and_signal_one
            (s\<lparr>op_queue_ops := rest, task_interrupted := True\<rparr>) = (s2, c2)"
          by (metis prod.collapse)
        have "do_run_one s = (s2, (c2, False), Go_task 0)"
          using False Cons True more w by (simp add: do_run_one_def take_task_def)
        with r have eqs: "s' = s2" "\<not> i" "nx = Go_task 0" by simp_all
        show ?thesis
          by (rule task [of 0]) (use eqs False signal_one_effect [OF w] en in simp_all)
      next
        case more: False
        have "do_run_one s = (s\<lparr>op_queue_ops := rest, task_interrupted := rest \<noteq> []\<rparr>, no_effect,
            Go_task (if rest \<noteq> [] then 0 else -1))"
          using False Cons True more by (auto simp: do_run_one_def take_task_def Let_def)
        with r have eqs: "s' = s\<lparr>op_queue_ops := rest, task_interrupted := rest \<noteq> []\<rparr>" "\<not> i"
          "nx = Go_task (if rest \<noteq> [] then 0 else -1)" by simp_all
        show ?thesis
          by (rule task [OF eqs(3) False _ eqs(2)]) (simp_all add: eqs(1))
      qed
    next
      case ne: False
      obtain s2 c2 i2 where w: "wake_one_thread_and_unlock (s\<lparr>op_queue_ops := rest\<rparr>) = (s2, (c2, i2))"
        by (metis prod.collapse)
      from wake_one_effect [OF w] en have w2: "event_signalled (wakeup_event s2)"
        "task_interrupted s2 = (task_interrupted s \<or> i2)" by auto
      show ?thesis
        using r False Cons ne w w2
        by (intro opn [of x]) (auto simp: do_run_one_def take_handler_def Let_def split: if_splits)
    qed
  qed
qed

text \<open>
  A stretch that ends with the loop of \<open>do_run_one\<close> on \<open>s1\<close>, for a thread that was not asleep.
\<close>

lemma locked_wake:
  assumes W: "wake_inv st" and inv: "sched_inv st"
    and t: "t < length (sthreads st)" and th: "th = sthreads st ! t"
    and r: "r = do_run_one s1"
    and new: "sched_inv (locked t k th1 opns r st)"
    and s1: "mutex_enabled s1" "stopped s1 = stopped (shared st)"
      "event_signalled (wakeup_event (shared st)) \<Longrightarrow> event_signalled (wakeup_event s1)"
    and ti: "task_interrupted s1 \<Longrightarrow> task_interrupted (shared st) \<or> in_task th = 1"
    and th1: "mode th1 = Run"
  shows "wake_inv (locked t k th1 opns r st)"
proof -
  obtain s' c i nx where R: "do_run_one s1 = (s', (c, i), nx)" by (metis prod.collapse)
  let ?th2 = "continue_at nx th1"
  let ?ths = "(sthreads st)[t := ?th2]"
  let ?st1 = "st\<lparr>shared := s', sthreads := ?ths, interrupt_pending := interrupt_pending st \<or> i,
      entered := entered st @ opns, taken := taken st @ taken_by nx\<rparr>"
  have L: "locked t k th1 opns r st = ?st1\<lparr>sthreads := notify c k ?ths\<rparr>"
    by (simp add: r R locked_def ths_after_def)
  have en: "mutex_enabled s'" "stopped s' = stopped s1"
    using do_run_one_stretch [of s1] s1(1) by (simp_all add: R stretch_def)
  note W' = W [unfolded wake_inv_def]
  have m2: "mode ?th2 = Run" using th1 by (cases nx) auto
  have modes: "x \<in> set ?ths \<Longrightarrow> inside x \<Longrightarrow> mode x = Run" for x
    using W' m2 set_update_subset_insert [of "sthreads st" t ?th2] by auto
  have other: "x = ?th2 \<or> (\<exists>j < length (sthreads st). j \<noteq> t \<and> x = sthreads st ! j)"
    if "x \<in> set ?ths" for x
  proof -
    from that obtain j where "j < length (sthreads st)" "x = ?ths ! j" by (auto simp: in_set_conv_nth)
    then show ?thesis by (cases "j = t") auto
  qed
  have intr_other: "interrupt_pending st \<or> i"
    if "j < length (sthreads st)" "j \<noteq> t" "blocks_in_task (sthreads st ! j)"
      "task_interrupted s1 \<or> i" for j
  proof (cases "in_task th = 1")
    case True
    then show ?thesis
      using one_in_task [OF inv t that(1)] that(2,3) blocks_in_task th by force
  next
    case False
    then show ?thesis using ti that W' by auto
  qed
  have "wake_inv (?st1\<lparr>sthreads := ?ths\<rparr>)"
    using R s1(1)
  proof (cases rule: do_run_one_cases)
    case ret
    show ?thesis
    proof (rule wake_inv_stopped)
      show "inside x \<Longrightarrow> mode x = Run \<and> awake_in (?st1\<lparr>sthreads := ?ths\<rparr>) x"
        if "x \<in> set (sthreads (?st1\<lparr>sthreads := ?ths\<rparr>))" for x
      proof -
        assume ins: "inside x"
        with other [of x] that ret obtain j where j: "j < length (sthreads st)" "x = sthreads st ! j"
          by (auto simp: inside_def)
        then have "awake_in st x" using W' s1(2) ret(2) ins by simp
        then show ?thesis
          using modes [of x] that ins s1(3) ret(3) by (simp add: awake_mono)
      qed
      show "interrupt_pending (?st1\<lparr>sthreads := ?ths\<rparr>)"
        if "x \<in> set (sthreads (?st1\<lparr>sthreads := ?ths\<rparr>))" "blocks_in_task x"
          "task_interrupted (shared (?st1\<lparr>sthreads := ?ths\<rparr>))" for x
        using other [of x] that intr_other ret by (auto simp: blocks_in_task_def)
    qed (use en ret in simp_all)
  next
    case wait
    show ?thesis
    proof (rule wake_inv_idle)
      show "interrupt_pending (?st1\<lparr>sthreads := ?ths\<rparr>)"
        if "x \<in> set (sthreads (?st1\<lparr>sthreads := ?ths\<rparr>))" "blocks_in_task x"
          "task_interrupted (shared (?st1\<lparr>sthreads := ?ths\<rparr>))" for x
        using other [of x] that intr_other wait by (auto simp: blocks_in_task_def)
    qed (use en wait modes in simp_all)
  next
    case (task usec)
    have none: "\<not> blocks_in_task (sthreads st ! j)" if "j < length (sthreads st)" "j \<noteq> t" for j
    proof -
      have "length (sthreads (locked t k th1 opns r st)) = length (sthreads st)" by (simp add: L)
      moreover have "map in_task (sthreads (locked t k th1 opns r st)) = map in_task ?ths"
        by (simp add: L map_notify [of in_task])
      then have "in_task (sthreads (locked t k th1 opns r st) ! l) = in_task (?ths ! l)"
        if "l < length (sthreads st)" for l
        using that by (metis length_list_update length_map nth_map notify_length)
      ultimately have "in_task (?ths ! j) = 0"
        using one_in_task [OF new, of t j] t that task by (simp add: in_task_def)
      then show ?thesis using that blocks_in_task by force
    qed
    have intr: "interrupt_pending st \<or> i" if "x \<in> set ?ths" "blocks_in_task x" "task_interrupted s'" for x
      using other [OF that(1)] that none task by (auto simp: blocks_in_task_def)
    show ?thesis
    proof (cases "usec = 0")
      case True
      then have "awake_in ?st1 ?th2" using task by (simp add: awake_def)
      then show ?thesis
        by (intro wake_inv_update [OF W t th, of _ ?th2])
          (use en s1 task intr m2 W' in \<open>auto intro: awake_mono\<close>)
    next
      case False
      show ?thesis
        by (rule wake_inv_idle) (use en task modes intr False in auto)
    qed
  next
    case (opn x)
    then have "awake_in ?st1 ?th2" by (simp add: awake_def)
    moreover have "interrupt_pending st \<or> i" if "y \<in> set ?ths" "blocks_in_task y" "task_interrupted s'" for y
      using other [OF that(1)] that intr_other opn by (auto simp: blocks_in_task_def)
    ultimately show ?thesis
      by (intro wake_inv_update [OF W t th, of _ ?th2])
        (use en s1 opn m2 W' in \<open>auto intro: awake_mono\<close>)
  qed
  then have "wake_inv (?st1\<lparr>sthreads := notify c k ?ths\<rparr>)" by (rule wake_inv_notify)
  then show ?thesis by (simp only: L)
qed

section \<open>Stopping and pushing\<close>

lemma stop_all_effect:
  assumes "stop_all_threads s = (s', (c, i))" "mutex_enabled s"
  shows "c = Cond_broadcast" "event_signalled (wakeup_event s')" "stopped s'" "mutex_enabled s'"
    "i \<longleftrightarrow> \<not> task_interrupted s \<and> has_task s"
  using assms signalled_or [of "wakeup_event s"]
  by (auto simp: stop_all_threads_def cond_signal_all_def event_signal_all_def split: if_splits)

lemma blocked_interrupted:
  assumes W: "wake_inv st" and inv: "sched_inv st" and x: "x \<in> set (sthreads st)" "blocks_in_task x"
  shows "interrupt_pending st \<or> \<not> task_interrupted (shared st) \<and> has_task (shared st)"
proof (cases "task_interrupted (shared st)")
  case True
  then show ?thesis using W x by (auto simp: wake_inv_def)
next
  case False
  have "in_task x \<le> sum_list (map in_task (sthreads st))"
    using x(1) in_task_range by (intro member_le_sum_list) auto
  moreover have "task_count (op_queue_ops (shared st)) + sum_list (map in_task (sthreads st)) =
      (if has_task (shared st) then 1 else 0)" using inv by (simp add: sched_inv_def)
  moreover have "0 \<le> task_count (op_queue_ops (shared st))" by simp
  ultimately have "has_task (shared st)" using blocks_in_task [OF x(2)] by (smt (verit))
  then show ?thesis using False by simp
qed

lemma stop_wake:
  assumes W: "wake_inv st" and inv: "sched_inv st"
    and r: "r = stop_all_threads (shared st)"
    and th1: "inside th1 \<Longrightarrow> mode th1 = Run \<and> awake False False th1"
  shows "wake_inv (locked_call t k th1 opns r st)"
proof -
  obtain s' c i where R: "stop_all_threads (shared st) = (s', (c, i))" by (metis prod.collapse)
  have en: "mutex_enabled (shared st)" using W by (simp add: wake_inv_def)
  note E = stop_all_effect [OF R en]
  let ?st' = "locked_call t k th1 opns r st"
  have sh: "shared ?st' = s'" "interrupt_pending ?st' = (interrupt_pending st \<or> i)"
    "sthreads ?st' = map release ((sthreads st)[t := th1])"
    by (simp_all add: locked_call_def r R E(1))
  have from_x: "\<exists>y. x = release y \<and> (y = th1 \<or> y \<in> set (sthreads st))" if "x \<in> set (sthreads ?st')" for x
    using that set_update_subset_insert [of "sthreads st" t th1] by (auto simp: sh)
  have pend: "interrupt_pending ?st'" if x: "x \<in> set (sthreads ?st')" "blocks_in_task x" for x
  proof -
    from from_x [OF x(1)] obtain y where y: "x = release y" "y = th1 \<or> y \<in> set (sthreads st)" by blast
    then have byt: "blocks_in_task y" using x(2) awake_release(3) by simp
    then have "inside y" "\<not> awake False False y" by (auto simp: blocks_in_task_def inside_def awake_def)
    with th1 y(2) have "y \<in> set (sthreads st)" by auto
    then show ?thesis using blocked_interrupted [OF W inv _ byt] E(5) sh(2) by auto
  qed
  show ?thesis
  proof (rule wake_inv_stopped)
    fix x assume x: "x \<in> set (sthreads ?st')" "inside x"
    from from_x [OF x(1)] obtain y where y: "x = release y" "y = th1 \<or> y \<in> set (sthreads st)" by blast
    have "mode x = Run"
      using y x(2) th1 W awake_release(2) [of y] by (auto simp: wake_inv_def)
    moreover have "awake_in ?st' x"
      using x y(1) pend [OF x(1)] E(2)
      by (auto simp: awake_def release_def inside_def blocks_in_task_def sh split: thread_pc.splits)
    ultimately show "mode x = Run \<and> awake_in ?st' x" ..
  qed (use E pend in \<open>simp_all add: sh\<close>)
qed

lemma waiting_sum:
  "sched_inv st \<Longrightarrow> mutex_enabled (shared st) \<Longrightarrow>
    int (wakeup_event (shared st) div 2) = sum_list (map waiting (sthreads st))"
  by (simp add: sched_inv_def)

lemma some_waiting:
  assumes inv: "sched_inv st" and en: "mutex_enabled (shared st)"
    and ev: "Suc 0 < wakeup_event (shared st)"
  shows "\<exists>x \<in> set (sthreads st). \<exists>b. thread_pc x = Waiting b"
proof -
  have "sum_list (map waiting (sthreads st)) \<noteq> 0" using ev waiting_sum [OF inv en] by linarith
  then obtain x where x: "x \<in> set (sthreads st)" "waiting x \<noteq> 0"
    by (metis (mono_tags, lifting) map_eq_conv sum_list_0)
  then show ?thesis by (cases "thread_pc x") (auto simp: waiting_def)
qed

lemma none_waiting:
  assumes inv: "sched_inv st" and en: "mutex_enabled (shared st)"
    and ev: "wakeup_event (shared st) \<le> Suc 0" and x: "x \<in> set (sthreads st)"
  shows "thread_pc x \<noteq> Waiting b"
proof -
  have "waiting x \<le> sum_list (map waiting (sthreads st))"
    using x by (intro member_le_sum_list) (auto simp: waiting_def split: thread_pc.splits)
  then have "waiting x \<le> 0" using ev waiting_sum [OF inv en] by linarith
  then show ?thesis by (auto simp: waiting_def)
qed

text \<open>The threads of a list that are inside, and what a thread that is not awake may be doing.\<close>

lemma not_awake:
  "inside x \<Longrightarrow> \<not> awake sg intr x \<Longrightarrow>
    (\<exists>b. thread_pc x = Waiting b) \<or> blocks_in_task x \<and> \<not> intr"
  by (auto simp: awake_def inside_def blocks_in_task_def split: thread_pc.splits)

lemma awake_client: "in_client th \<Longrightarrow> inside th \<Longrightarrow> awake sg intr th"
  by (auto simp: in_client_iff awake_def inside_def)

lemma push_wake:
  assumes W: "wake_inv st" and inv: "sched_inv st"
    and t: "t < length (sthreads st)" and th: "th = sthreads st ! t"
    and r: "r = wake_one_thread_and_unlock s1"
    and s1: "mutex_enabled s1 = mutex_enabled (shared st)" "stopped s1 = stopped (shared st)"
      "wakeup_event s1 = wakeup_event (shared st)"
      "task_interrupted s1 = task_interrupted (shared st)" "has_task (shared st) \<Longrightarrow> has_task s1"
    and th1: "thread_pc th1 = thread_pc th" "mode th1 = mode th"
    and choice: "locked_call_ok t k th1 r st"
  shows "wake_inv (locked_call t k th1 opns r st)"
proof -
  obtain s' c i where R: "wake_one_thread_and_unlock s1 = (s', (c, i))" by (metis prod.collapse)
  have en: "mutex_enabled (shared st)" using W by (simp add: wake_inv_def)
  note E = wake_one_effect [OF R, unfolded s1(1), OF en]
  let ?ths = "(sthreads st)[t := th1]"
  let ?st' = "locked_call t k th1 opns r st"
  have sh: "shared ?st' = s'" "interrupt_pending ?st' = (interrupt_pending st \<or> i)"
    "sthreads ?st' = notify c k ?ths" by (simp_all add: locked_call_def r R)
  have s': "mutex_enabled s'" "stopped s' = stopped (shared st)"
    using wake_one_nudge [OF R] en s1 by (auto simp: nudge_def)
  note W' = W [unfolded wake_inv_def]
  have old: "\<exists>y \<in> set (sthreads st). thread_pc x = thread_pc y \<and> mode x = mode y" if "x \<in> set ?ths" for x
    using that set_update_subset_insert [of "sthreads st" t th1] th1 t th by (auto dest!: subsetD)
  have pc: "thread_pc (?ths ! j) = thread_pc (sthreads st ! j)" if "j < length (sthreads st)" for j
    using that th1 th by (cases "j = t") auto
  have modes: "\<forall>x \<in> set ?ths. inside x \<longrightarrow> mode x = Run"
    using old W' by (metis inside_def)
  have blocks: "\<forall>x \<in> set ?ths. blocks_in_task x \<longrightarrow> task_interrupted s' \<longrightarrow> interrupt_pending st \<or> i"
    using old W' E(2) s1(4) by (metis blocks_in_task_def)
  have stay: "\<exists>y \<in> set (notify c k ?ths). awake sg intr y"
    if "\<exists>y \<in> set ?ths. awake sg intr y" for sg intr
    using notify_some that by blast
  have some: "\<exists>x \<in> set (notify c k ?ths). awake_in ?st' x" if ins: "\<exists>x \<in> set ?ths. inside x"
  proof (cases "wakeup_event s1 > 1")
    case True
    with E(2) have c: "c = Cond_signal" by auto
    from True obtain x b where x: "x \<in> set (sthreads st)" "thread_pc x = Waiting b"
      using some_waiting [OF inv en] s1(3) by auto
    then obtain j where j: "j < length (sthreads st)" "thread_pc (?ths ! j) = Waiting b"
      using pc by (metis in_set_conv_nth)
    show ?thesis
    proof (cases "\<exists>y \<in> set ?ths. asleep y")
      case True
      with choice have k: "k < length ?ths" "asleep (?ths ! k)"
        by (auto simp: locked_call_ok_def r R choice_ok_def c)
      then have "awake_in ?st' (release (?ths ! k))"
        using E(1) by (simp add: awake_def release_def asleep_def sh)
      moreover have "release (?ths ! k) \<in> set (notify c k ?ths)"
        using k(1) by (simp add: c set_update_memI)
      ultimately show ?thesis by blast
    next
      case False
      then have "thread_pc (?ths ! j) = Waiting True"
        using j nth_mem [of j ?ths] by (cases b) (auto simp: asleep_def)
      then have "awake_in ?st' (?ths ! j)" using E(1) by (simp add: awake_def sh)
      moreover have "?ths ! j \<in> set ?ths" using j(1) by (intro nth_mem) simp
      ultimately show ?thesis using stay by blast
    qed
  next
    case False
    with E(2) have i: "i \<longleftrightarrow> \<not> task_interrupted s1 \<and> has_task s1" by auto
    from ins obtain x where x: "x \<in> set ?ths" "inside x" by blast
    with old obtain y where y: "y \<in> set (sthreads st)" "thread_pc x = thread_pc y" by blast
    have "awake_in ?st' x"
    proof (rule ccontr)
      assume na: "\<not> awake_in ?st' x"
      have "thread_pc y \<noteq> Waiting b" for b
        using none_waiting [OF inv en _ y(1)] False s1(3) by simp
      with not_awake [OF x(2) na] y(2) have "blocks_in_task y" "\<not> interrupt_pending ?st'"
        by (auto simp: blocks_in_task_def)
      with blocked_interrupted [OF W inv y(1)] i s1(4,5) sh(2) show False by auto
    qed
    then show ?thesis using stay x(1) by blast
  qed
  have all: "\<forall>x \<in> set (notify c k ?ths). inside x \<longrightarrow> awake_in ?st' x" if "stopped (shared st)"
  proof (rule notify_all, intro ballI impI)
    fix x assume x: "x \<in> set ?ths" "inside x"
    with old obtain y where y: "y \<in> set (sthreads st)" "thread_pc x = thread_pc y" by blast
    then have "awake_in st y" using W' that x(2) by (simp add: inside_def)
    then show "awake_in ?st' x" using y(2) E(1) by (auto simp: awake_def sh split: thread_pc.splits)
  qed
  have "\<forall>x \<in> set (notify c k ?ths). inside x \<longrightarrow> mode x = Run"
    using modes notify_ball [of "\<lambda>th. inside th \<longrightarrow> mode th = Run" c k ?ths] awake_release(2) by simp
  moreover have "\<forall>x \<in> set (notify c k ?ths). blocks_in_task x \<longrightarrow> task_interrupted s' \<longrightarrow>
      interrupt_pending st \<or> i"
    using blocks notify_ball [of "\<lambda>th. blocks_in_task th \<longrightarrow> task_interrupted s' \<longrightarrow>
        interrupt_pending st \<or> i" c k ?ths] awake_release(3) by simp
  ultimately show ?thesis
    using s' some all by (simp add: wake_inv_def sh notify_inside)
qed

section \<open>Steps keep the invariant\<close>

lemma awake_pc: "thread_pc x = thread_pc y \<Longrightarrow> awake sg intr x = awake sg intr y"
  "thread_pc x = thread_pc y \<Longrightarrow> inside x = inside y"
  "thread_pc x = thread_pc y \<Longrightarrow> blocks_in_task x = blocks_in_task y"
  by (simp_all add: awake_def inside_def blocks_in_task_def)

text \<open>Steps without the mutex: the thread changes its place to one where it is awake, or stays
  as awake as it was.\<close>

lemma set_thread_wake:
  assumes W: "wake_inv st" and t: "t < length (sthreads st)" and th: "th = sthreads st ! t"
    and ths: "sthreads st' = (sthreads st)[t := th1]"
    and same: "mutex_enabled (shared st') = mutex_enabled (shared st)"
      "stopped (shared st') = stopped (shared st)"
      "op_queue_ops (shared st') = op_queue_ops (shared st)"
      "wakeup_event (shared st') = wakeup_event (shared st)"
      "task_interrupted (shared st') = task_interrupted (shared st)"
      "interrupt_pending st' = interrupt_pending st"
    and mode: "inside th1 \<Longrightarrow> mode th1 = Run"
    and self: "awake False False th1 \<or> inside th1 = inside th \<and> blocks_in_task th1 = blocks_in_task th \<and>
      (awake_in st th \<longrightarrow> awake_in st th1)"
  shows "wake_inv st'"
proof (rule wake_inv_update [OF W t th ths])
  show "awake_in st' th1 \<or>
      op_queue_ops (shared st') = op_queue_ops (shared st) \<and> inside th1 = inside th \<and>
      (awake_in st th \<longrightarrow> awake_in st' th1)"
    using self same awake_mono [of False False th1] by auto
  fix x assume x: "x \<in> set (sthreads st')" "blocks_in_task x" "task_interrupted (shared st')"
  have nb: "\<not> blocks_in_task th1" if "awake False False th1"
    using that by (auto simp: awake_def blocks_in_task_def)
  have "x \<in> set (sthreads st) \<or> blocks_in_task th"
    using x nb self set_update_subset_insert [of "sthreads st" t th1] by (auto simp: ths)
  then show "interrupt_pending st'"
    using W x same t th nth_mem [OF t] by (auto simp: wake_inv_def)
qed (use same mode in simp_all)

lemma awake_busy:
  "thread_pc th \<in> {Stop_return, Entered, After_task, Stopping, Ready} \<Longrightarrow> awake sg intr th"
  by (auto simp: awake_def)

lemma task_cleanup_work:
  assumes "task_cleanup_work ti s = (ti', s')"
  shows "mutex_enabled s' = mutex_enabled s" "stopped s' = stopped s"
    "op_queue_ops s' = op_queue_ops s" "wakeup_event s' = wakeup_event s"
  using assms by (auto simp: task_cleanup_work_def work_increment_def split: if_splits)

lemma posted_interrupt [simp]: "interrupt_pending (posted t th opns r st) = interrupt_pending st"
  by (cases r) (simp_all add: set_thread_def)

lemma posted_wake:
  assumes W: "wake_inv st" and t: "t < length (sthreads st)" and th: "th = sthreads st ! t"
    and r: "hands_over th (shared st) opns d r"
    and st': "sthreads st' = sthreads (posted t th opns r st)"
      "shared st' = shared (posted t th opns r st)"
      "interrupt_pending st' = interrupt_pending st"
  shows "wake_inv st'"
proof -
  have m: "inside th \<Longrightarrow> mode th = Run" using W t th by (auto simp: wake_inv_def)
  show ?thesis
  proof (cases r)
    case (Inl ti)
    show ?thesis
      by (rule set_thread_wake [OF W t th, of _ "th\<lparr>info := ti\<rparr>"])
        (use Inl st' m awake_pc [of "th\<lparr>info := ti\<rparr>" th] in \<open>simp_all add: set_thread_def\<close>)
  next
    case (Inr s)
    show ?thesis
      by (rule set_thread_wake [OF W t th, of _ "th\<lparr>pending := Pushing opns\<rparr>"])
        (use Inr r st' m awake_pc [of "th\<lparr>pending := Pushing opns\<rparr>" th] in
          \<open>simp_all add: set_thread_def hands_over_def\<close>)
  qed
qed

lemma sched_step_wake:
  assumes step: "sched_step (\<lambda>m. m = Run) st st'" and inv: "sched_inv st" and W: "wake_inv st"
  shows "wake_inv st'"
proof -
  note new = sched_step_inv [OF step inv]
  have en: "mutex_enabled (shared st)" using W by (simp add: wake_inv_def)
  have mode: "mode (sthreads st ! t) = Run"
    if "t < length (sthreads st)" "thread_pc (sthreads st ! t) \<noteq> Outside" for t
    using W that by (auto simp: wake_inv_def inside_def)
  have client: "in_client (sthreads st ! t) \<or> thread_pc (sthreads st ! t) = Outside \<or>
      (\<exists>opn. thread_pc (sthreads st ! t) = In_op opn)"
    if "t < length (sthreads st)" "pending (sthreads st ! t) \<noteq> No_call" for t
    using inv_thread_ok [OF inv that(1)] that(2) by (auto simp: thread_ok_def split: thread_pc.splits)
  from step show ?thesis
  proof cases
    case (start t th m)
    show ?thesis
      unfolding start(1)
      by (rule set_thread_wake [OF W start(2,3), of _ "th\<lparr>mode := m, info := thread_info_new,
          handlers_run := 0, thread_pc := (if outstanding_work (shared st) = 0 then Stop_return
                                     else Entered)\<rparr>"])
        (use start in \<open>auto simp: set_thread_def awake_busy\<close>)
  next
    case (stop_return t th r k)
    show ?thesis
      unfolding stop_return(1)
      by (rule stop_wake [OF W inv]) (use stop_return in \<open>auto simp: sched_stop_def inside_def\<close>)
  next
    case (enter t th r k)
    have m: "mode th = Run" using mode [OF enter(2)] enter(3,4) by simp
    have r: "r = do_run_one (shared st)" using enter(5) m by simp
    show ?thesis
      using new unfolding enter(1)
      by (intro locked_wake [OF W inv enter(2,3) r]) (use m en in auto)
  next
    case (spurious t th)
    show ?thesis
      unfolding spurious(1)
      by (rule set_thread_wake [OF W spurious(2,3), of _ "th\<lparr>thread_pc := Waiting True\<rparr>"])
        (use spurious mode [OF spurious(2)] in
          \<open>auto simp: set_thread_def awake_def inside_def blocks_in_task_def\<close>)
  next
    case (wake t th r k)
    have m: "mode th = Run" using mode [OF wake(2)] wake(3,4) by simp
    have two: "2 \<le> wakeup_event (shared st)"
      using inv_waiting [OF inv wake(2)] wake(3,4) en by auto
    let ?s1 = "(shared st)\<lparr>wakeup_event := wakeup_event (shared st) - 2\<rparr>"
    have sig: "event_signalled (wakeup_event ?s1) = event_signalled (wakeup_event (shared st))"
      using two by (simp add: event_signalled_def mod_2_eq_odd)
    show ?thesis
    proof (cases "event_signalled (wakeup_event ?s1)")
      case True
      have r: "r = do_run_one ?s1"
        using wake(5) m en True by (simp add: wake_up_def event_wait_leave_def Let_def)
      show ?thesis
        using new unfolding wake(1)
        by (intro locked_wake [OF W inv wake(2,3) r]) (use m en sig in auto)
    next
      case False
      have r: "r = ((shared st)\<lparr>wakeup_event := wakeup_event (shared st)\<rparr>, no_effect, Go_wait)"
        using wake(5) m en False two
        by (simp add: wake_up_def event_wait_leave_def event_wait_enter_def Let_def)
      show ?thesis
        unfolding wake(1)
        by (rule set_thread_wake [OF W wake(2,3), of _ "th\<lparr>thread_pc := Waiting False\<rparr>"])
          (use r m wake(4) False sig in
            \<open>auto simp: locked_def ths_after_def inside_def awake_def blocks_in_task_def\<close>)
    qed
  next
    case (task_queues t th usec ti opn)
    show ?thesis
      unfolding task_queues(1)
      by (rule set_thread_wake [OF W task_queues(2,3),
          of _ "th\<lparr>info := ti\<lparr>private_op_queue := private_op_queue ti @ [opn]\<rparr>\<rparr>"])
        (use task_queues mode [OF task_queues(2)] in
          \<open>auto simp: set_thread_def inside_def awake_def blocks_in_task_def\<close>)
  next
    case (task_returns t th usec ti s)
    have it: "in_task (sthreads st ! t) = 1" using task_returns(3,4) by (simp add: in_task_def)
    note none = one_in_task [OF inv task_returns(2) _ _ it]
    show ?thesis
    proof (rule wake_inv_update [OF W task_returns(2,3), of _ "th\<lparr>info := ti, thread_pc := After_task\<rparr>"])
      show "awake_in st' (sthreads st ! j)"
        if "j < length (sthreads st)" "j \<noteq> t" "awake_in st (sthreads st ! j)" for j
        using that none [of j] task_returns(1) task_cleanup_work(4) [OF task_returns(5)]
        by (auto simp: awake_def in_task_def split: thread_pc.splits)
      show "interrupt_pending st'" if "x \<in> set (sthreads st')" "blocks_in_task x" for x
      proof -
        from that(1) obtain j where j: "j < length (sthreads st)" "x = sthreads st' ! j"
          by (auto simp: in_set_conv_nth task_returns(1) set_thread_def)
        show ?thesis
        proof (cases "j = t")
          case True
          then show ?thesis using j that(2) by (simp add: task_returns(1) set_thread_def blocks_in_task_def)
        next
          case False
          then have "in_task x = 0" using none [of j] j by (simp add: task_returns(1) set_thread_def)
          then show ?thesis using blocks_in_task [OF that(2)] by simp
        qed
      qed
    qed (use task_returns(1-4) task_cleanup_work [OF task_returns(5)] mode [OF task_returns(2)] in
      \<open>auto simp: set_thread_def awake_busy\<close>)
  next
    case (task_left t th ti s r k)
    have m: "mode th = Run" using mode [OF task_left(2)] task_left(3,4) by simp
    have r: "r = do_run_one s" using task_left(6) m by simp
    show ?thesis
      using new unfolding task_left(1)
      by (intro locked_wake [OF W inv task_left(2,3) r])
        (use m en task_left(4,5) in \<open>auto simp: task_cleanup_queue_def in_task_def\<close>)
  next
    case (op_ends t th opn ti s must_stop)
    note w = work_cleanup_work [OF op_ends(7)]
    show ?thesis
      unfolding op_ends(1)
      by (rule set_thread_wake [OF W op_ends(2,3),
          of _ "th\<lparr>info := ti, thread_pc := (if must_stop then Stopping else Ready)\<rparr>"])
        (use op_ends w mode [OF op_ends(2)] in \<open>auto simp: set_thread_def awake_busy\<close>)
  next
    case (op_ends_compensated t th opn ti s must_stop)
    note w = work_cleanup_work [OF op_ends_compensated(7)]
    show ?thesis
      unfolding op_ends_compensated(1)
      by (rule set_thread_wake [OF W op_ends_compensated(2,3),
          of _ "th\<lparr>info := ti, thread_pc := (if must_stop then Stopping else Ready)\<rparr>"])
        (use op_ends_compensated w mode [OF op_ends_compensated(2)] in
          \<open>auto simp: set_thread_def awake_busy\<close>)
  next
    case (op_ends_adopted t th opn ti s must_stop)
    note w = work_cleanup_work [OF op_ends_adopted(8)]
    show ?thesis
      unfolding op_ends_adopted(1)
      by (rule set_thread_wake [OF W op_ends_adopted(2,3),
          of _ "th\<lparr>info := ti, thread_pc := (if must_stop then Stopping else Ready)\<rparr>"])
        (use op_ends_adopted w mode [OF op_ends_adopted(2)] in \<open>auto simp: set_thread_def awake_busy\<close>)
  next
    case (op_stops t th r k)
    show ?thesis
      unfolding op_stops(1)
      by (rule stop_wake [OF W inv])
        (use op_stops mode [OF op_stops(2)] in \<open>auto simp: sched_stop_def awake_def\<close>)
  next
    case (op_left t th ti s th' r k)
    have m: "mode th = Run" using mode [OF op_left(2)] op_left(3,4) by simp
    have r: "r = do_run_one s" using op_left(7) m by simp
    show ?thesis
      using new unfolding op_left(1)
      by (intro locked_wake [OF W inv op_left(2,3) r])
        (use m en op_left(5,6) in \<open>auto simp: work_cleanup_queue_def\<close>)
  next
    case (starts_work t th)
    show ?thesis
      unfolding starts_work(1)
      by (rule set_thread_wake [OF W starts_work(2,3), of _ th])
        (use starts_work mode [OF starts_work(2)] in \<open>auto simp: work_started_def inside_def\<close>)
  next
    case (finishes_work t th s must_stop)
    show ?thesis
      unfolding finishes_work(1)
      by (rule set_thread_wake [OF W finishes_work(2,3),
          of _ "th\<lparr>pending := (if must_stop then Stop_call else No_call)\<rparr>"])
        (use finishes_work mode [OF finishes_work(2)] in
          \<open>auto simp: set_thread_def work_finished_def Let_def inside_def awake_def blocks_in_task_def\<close>)
  next
    case (posts_immediate t th opn r is_continuation)
    have h: "hands_over th (shared st) [opn] 0 r"
      using posts_hand_over(1) posts_immediate by simp
    show ?thesis
      by (rule posted_wake [OF W posts_immediate(2,3) h]) (use posts_immediate in simp_all)
  next
    case (posts_immediates t th opns r is_continuation)
    have h: "hands_over th (shared st) opns 0 r"
      using posts_hand_over(2) posts_immediates by simp
    show ?thesis
      by (rule posted_wake [OF W posts_immediates(2,3) h]) (use posts_immediates in simp_all)
  next
    case (posts_deferred t th opn r)
    have h: "hands_over th (shared st) [opn] (Suc 0) r"
      using posts_hand_over(3) posts_deferred by simp
    show ?thesis
      by (rule posted_wake [OF W posts_deferred(2,3) h]) (use posts_deferred in simp_all)
  next
    case (posts_deferreds t th opns r)
    have h: "hands_over th (shared st) opns (length opns) r"
      using posts_hand_over(4) [OF posts_deferreds(7)]  by simp
    show ?thesis
      by (rule posted_wake [OF W posts_deferreds(2,3) h]) (use posts_deferreds in simp_all)
  next
    case (dispatches t th opn s)
    have h: "hands_over th (shared st) [opn] 0 (Inr s)"
      using posts_hand_over(5) dispatches by simp
    show ?thesis
      by (rule posted_wake [OF W dispatches(2,3) h]) (use dispatches in \<open>simp_all add: set_thread_def\<close>)
  next
    case (pushes t th opns r k)
    show ?thesis
      unfolding pushes(1)
      by (rule push_wake [OF W inv pushes(2,3) pushes(5) [unfolded push_and_wake_def]])
        (use pushes(6) in auto)
  next
    case (stops_pending t th r k)
    show ?thesis
      unfolding stops_pending(1)
      by (rule stop_wake [OF W inv])
        (use stops_pending client [OF stops_pending(2)] mode [OF stops_pending(2)] in
          \<open>auto simp: sched_stop_def inside_def awake_def in_client_iff\<close>)
  next
    case (stops t th r k)
    show ?thesis
      unfolding stops(1)
      by (rule stop_wake [OF W inv])
        (use stops mode [OF stops(2)] in \<open>auto simp: sched_stop_def inside_def awake_def in_client_iff\<close>)
  next
    case (restarts t th)
    then show ?thesis
      using W by (auto simp: wake_inv_def sched_restart_def)
  next
    case (inits_task t th r k)
    show ?thesis
    proof (cases "\<not> shut_down (shared st) \<and> \<not> has_task (shared st)")
      case True
      then have r: "r = wake_one_thread_and_unlock ((shared st)\<lparr>has_task := True,
          op_queue_ops := op_queue_ops (shared st) @ [Task_operation]\<rparr>)"
        using inits_task(5) by (simp add: init_task_def)
      show ?thesis
        unfolding inits_task(1)
        by (rule push_wake [OF W inv inits_task(2,3) r]) (use inits_task(6) in auto)
    next
      case False
      then have r: "r = (shared st, no_effect)" using inits_task(5) by (auto simp: init_task_def)
      show ?thesis
        unfolding inits_task(1)
        by (rule set_thread_wake [OF W inits_task(2,3), of _ th])
          (use inits_task(1-4) r mode [OF inits_task(2)] in \<open>auto simp: locked_call_def inside_def\<close>)
    qed
  qed
qed

end
