(* ===== verification/SchedulerProps.thy ===== *)
theory SchedulerProps
  imports SchedulerWake
begin

text \<open>
  The properties of the scheduler, and a schedule of two threads on which they are evaluated:
  thread 0 is outside and gives the scheduler an operation while thread 1 sleeps in \<open>run\<close>; then
  thread 0 runs that operation through \<open>run_one\<close> and its handler posts a continuation.
\<close>

section \<open>A schedule\<close>

lemma count_handler_code [code]:
  "count_handler n = (if int n \<noteq> 2 ^ 64 - 1 then n + 1 else n)"
proof -
  have "int size_max = 2 ^ 64 - 1" by (simp add: size_max_def)
  then show ?thesis by (metis count_handler_def of_nat_eq_iff)
qed

definition demo_init :: sched_state where
  "demo_init = sched_init (-1) False 2"

definition dm_work :: sched_state where
  "dm_work = demo_init\<lparr>shared := work_started (shared demo_init), guards := guards demo_init + 1\<rparr>"

definition start_thread :: "nat \<Rightarrow> run_mode \<Rightarrow> sched_state \<Rightarrow> sched_state" where
  "start_thread t m st = set_thread t ((sthreads st ! t)\<lparr>mode := m, info := thread_info_new,
     handlers_run := 0, thread_pc := (if outstanding_work (shared st) = 0 then Stop_return
                                      else Entered)\<rparr>) st"

definition enter_thread :: "nat \<Rightarrow> nat \<Rightarrow> sched_state \<Rightarrow> sched_state" where
  "enter_thread t k st = locked t k (sthreads st ! t) [] (loop_head (mode (sthreads st ! t)) (shared st)) st"

definition wake_thread :: "nat \<Rightarrow> nat \<Rightarrow> sched_state \<Rightarrow> sched_state" where
  "wake_thread t k st = locked t k (sthreads st ! t) [] (wake_up (mode (sthreads st ! t)) (shared st)) st"

definition post_thread :: "nat \<Rightarrow> sop \<Rightarrow> bool \<Rightarrow> sched_state \<Rightarrow> sched_state" where
  "post_thread t opn cont st = (posted t (sthreads st ! t) [opn]
     (post_immediate_completion opn cont (this_thread (sthreads st ! t)) (shared st)) st)
     \<lparr>given := add_mset opn (given st)\<rparr>"

definition push_thread :: "nat \<Rightarrow> nat \<Rightarrow> sop list \<Rightarrow> sched_state \<Rightarrow> sched_state" where
  "push_thread t k opns st = locked_call t k ((sthreads st ! t)\<lparr>pending := No_call\<rparr>) opns
     (push_and_wake opns (shared st)) st"

definition end_op_thread :: "nat \<Rightarrow> sched_state \<Rightarrow> sched_state" where
  "end_op_thread t st = (case work_cleanup_work (info (sthreads st ! t)) (shared st) of
     (ti, s, must_stop) \<Rightarrow>
       (set_thread t ((sthreads st ! t)\<lparr>info := ti,
          thread_pc := (if must_stop then Stopping else Ready)\<rparr>) st)\<lparr>shared := s\<rparr>)"

definition leave_op_thread :: "nat \<Rightarrow> nat \<Rightarrow> sched_state \<Rightarrow> sched_state" where
  "leave_op_thread t k st = (case work_cleanup_queue (info (sthreads st ! t)) (shared st) of
     (ti, s) \<Rightarrow> locked t k ((sthreads st ! t)\<lparr>info := ti,
                 handlers_run := count_handler (handlers_run (sthreads st ! t))\<rparr>)
               (private_op_queue (info (sthreads st ! t)))
               (after_op (mode (sthreads st ! t)) s) st)"

text \<open>The states the schedule goes through.\<close>

definition dm_asleep :: sched_state where
  "dm_asleep = enter_thread 1 0 (start_thread 1 Run dm_work)"

definition dm_posting :: sched_state where
  "dm_posting = post_thread 0 (Operation 1) False dm_asleep"

definition dm_pushed :: sched_state where
  "dm_pushed = push_thread 0 1 [Operation 1] dm_posting"

definition dm_taken :: sched_state where
  "dm_taken = enter_thread 0 0 (start_thread 0 Run_one dm_pushed)"

definition dm_slept_again :: sched_state where
  "dm_slept_again = wake_thread 1 0 dm_taken"

definition dm_continuation :: sched_state where
  "dm_continuation = post_thread 0 (Operation 2) True dm_slept_again"

definition dm_op_done :: sched_state where
  "dm_op_done = end_op_thread 0 dm_continuation"

definition dm_stranded :: sched_state where
  "dm_stranded = leave_op_thread 0 0 dm_op_done"

lemma start_threadI:
  "t < length (sthreads st) \<Longrightarrow> thread_pc (sthreads st ! t) = Outside \<Longrightarrow>
   pending (sthreads st ! t) = No_call \<Longrightarrow> allowed m \<Longrightarrow>
   sched_step allowed st (start_thread t m st)"
  unfolding start_thread_def by (rule sched_step.start) auto

lemma enter_threadI:
  "t < length (sthreads st) \<Longrightarrow> thread_pc (sthreads st ! t) = Entered \<Longrightarrow>
   locked_ok t k (sthreads st ! t) (loop_head (mode (sthreads st ! t)) (shared st)) st \<Longrightarrow>
   sched_step allowed st (enter_thread t k st)"
  unfolding enter_thread_def by (rule sched_step.enter) auto

lemma wake_threadI:
  "t < length (sthreads st) \<Longrightarrow> thread_pc (sthreads st ! t) = Waiting True \<Longrightarrow>
   locked_ok t k (sthreads st ! t) (wake_up (mode (sthreads st ! t)) (shared st)) st \<Longrightarrow>
   sched_step allowed st (wake_thread t k st)"
  unfolding wake_thread_def by (rule sched_step.wake) auto

lemma post_threadI:
  "t < length (sthreads st) \<Longrightarrow> pending (sthreads st ! t) = No_call \<Longrightarrow>
   thread_pc (sthreads st ! t) = Outside \<or> thread_pc (sthreads st ! t) = In_op (Operation 1) \<Longrightarrow>
   counted opn \<Longrightarrow> sched_step allowed st (post_thread t opn cont st)"
  unfolding post_thread_def by (rule sched_step.posts_immediate) (auto simp: in_client_iff)

lemma push_threadI:
  "t < length (sthreads st) \<Longrightarrow> pending (sthreads st ! t) = Pushing opns \<Longrightarrow>
   locked_call_ok t k ((sthreads st ! t)\<lparr>pending := No_call\<rparr>) (push_and_wake opns (shared st)) st \<Longrightarrow>
   sched_step allowed st (push_thread t k opns st)"
  unfolding push_thread_def by (rule sched_step.pushes) auto

lemma end_op_threadI:
  assumes "t < length (sthreads st)" "thread_pc (sthreads st ! t) = In_op (Operation 1)"
    "pending (sthreads st ! t) = No_call"
  shows "sched_step allowed st (end_op_thread t st)"
proof -
  obtain ti s b where w: "work_cleanup_work (info (sthreads st ! t)) (shared st) = (ti, s, b)"
    by (metis prod.collapse)
  show ?thesis
    unfolding end_op_thread_def w prod.case
    by (rule op_ends [OF _ refl _ _ _ w, of "Operation 1"]) (use assms in simp_all)
qed

lemma leave_op_threadI:
  assumes "t < length (sthreads st)" "thread_pc (sthreads st ! t) = Ready"
    "mode (sthreads st ! t) = Run_one"
  shows "sched_step allowed st (leave_op_thread t k st)"
proof -
  obtain ti s where w: "work_cleanup_queue (info (sthreads st ! t)) (shared st) = (ti, s)"
    by (metis prod.collapse)
  show ?thesis
    unfolding leave_op_thread_def w prod.case
    by (rule op_left [OF _ refl _ w refl refl]) (use assms in \<open>simp_all add: locked_ok_def choice_ok_def\<close>)
qed

lemma demo_work_step: "sched_step allowed demo_init dm_work"
  unfolding dm_work_def by (rule starts_work [of 0, OF _ refl]) code_simp+

lemma dm_reach_pushed:
  assumes "allowed Run"
  shows "sched_reach allowed demo_init dm_pushed"
proof -
  have "sched_step allowed dm_work (start_thread 1 Run dm_work)"
    by (rule start_threadI) (code_simp, code_simp, code_simp, rule assms)
  moreover have "sched_step allowed (start_thread 1 Run dm_work) dm_asleep"
    unfolding dm_asleep_def by (rule enter_threadI) code_simp+
  moreover have "sched_step allowed dm_asleep dm_posting"
    unfolding dm_posting_def by (rule post_threadI) code_simp+
  moreover have "sched_step allowed dm_posting dm_pushed"
    unfolding dm_pushed_def by (rule push_threadI) code_simp+
  ultimately show ?thesis
    using demo_work_step [of allowed] by (meson reach_refl reach_step)
qed

lemma dm_reach_stranded:
  assumes "\<And>m. allowed m"
  shows "sched_reach allowed demo_init dm_stranded"
proof -
  have "sched_step allowed dm_pushed (start_thread 0 Run_one dm_pushed)"
    by (rule start_threadI) (code_simp, code_simp, code_simp, rule assms)
  moreover have "sched_step allowed (start_thread 0 Run_one dm_pushed) dm_taken"
    unfolding dm_taken_def by (rule enter_threadI) code_simp+
  moreover have "sched_step allowed dm_taken dm_slept_again"
    unfolding dm_slept_again_def by (rule wake_threadI) code_simp+
  moreover have "sched_step allowed dm_slept_again dm_continuation"
    unfolding dm_continuation_def by (rule post_threadI) code_simp+
  moreover have "sched_step allowed dm_continuation dm_op_done"
    unfolding dm_op_done_def by (rule end_op_threadI) code_simp+
  moreover have "sched_step allowed dm_op_done dm_stranded"
    unfolding dm_stranded_def by (rule leave_op_threadI) code_simp+
  ultimately show ?thesis
    using dm_reach_pushed [of allowed, OF assms] by (meson reach_step)
qed

section \<open>Properties\<close>

lemma sum_list_held_subset: "th \<in> set ths \<Longrightarrow> held th \<subseteq># sum_list (map held ths)"
  by (induction ths) (auto intro: subset_mset.order_trans)

lemma load_nonneg: "thread_ok th \<Longrightarrow> 0 \<le> load th"
proof -
  assume "thread_ok th"
  then have "0 \<le> weight (private_op_queue (info th)) - private_outstanding_work (info th)"
    "0 \<le> running th"
    by (auto simp: thread_ok_def running_def split: thread_pc.splits)
  moreover have "0 \<le> weight (pushing th)" by simp
  ultimately show ?thesis unfolding load_def by linarith
qed

lemma scheduler_invariant_facts:
  assumes "sched_reach allowed (sched_init hint own n) st"
  shows "entered st = taken st @ op_queue_ops (shared st)"
    "given st = mset (filter (\<lambda>opn. opn \<noteq> Task_operation) (entered st)) +
      (\<Sum>th \<leftarrow> sthreads st. mset (private_op_queue (info th)) + mset (pushing th))"
    "mset (filter (\<lambda>opn. opn \<noteq> Task_operation) (taken st)) \<subseteq># given st"
    "task_count (op_queue_ops (shared st)) + (\<Sum>th \<leftarrow> sthreads st. in_task th) =
      (if has_task (shared st) then 1 else 0)"
    "outstanding_work (shared st) + (\<Sum>th \<leftarrow> sthreads st. private_outstanding_work (info th)) =
      int (guards st) + weight (op_queue_ops (shared st)) +
      (\<Sum>th \<leftarrow> sthreads st. weight (private_op_queue (info th)) + weight (pushing th) + running th)"
proof -
  note I = sched_reach_inv [OF assms, unfolded sched_inv_def]
  from I show e: "entered st = taken st @ op_queue_ops (shared st)" by blast
  from I show g: "given st = mset (filter (\<lambda>opn. opn \<noteq> Task_operation) (entered st)) +
      (\<Sum>th \<leftarrow> sthreads st. mset (private_op_queue (info th)) + mset (pushing th))"
    by (simp only: no_task_def held_def [abs_def])
  have "mset (filter (\<lambda>opn. opn \<noteq> Task_operation) (taken st)) \<subseteq>#
      mset (filter (\<lambda>opn. opn \<noteq> Task_operation) (entered st))"
    by (simp add: e)
  also have "\<dots> \<subseteq># given st" unfolding g by simp
  finally show "mset (filter (\<lambda>opn. opn \<noteq> Task_operation) (taken st)) \<subseteq># given st" .
  from I show "task_count (op_queue_ops (shared st)) + (\<Sum>th \<leftarrow> sthreads st. in_task th) =
      (if has_task (shared st) then 1 else 0)" by blast
  have "(\<Sum>th \<leftarrow> ths. weight (private_op_queue (info th)) + weight (pushing th) + running th) =
      (\<Sum>th \<leftarrow> ths. load th) + (\<Sum>th \<leftarrow> ths. private_outstanding_work (info th))" for ths
    by (induction ths) (simp_all add: load_def)
  moreover have "outstanding_work (shared st) =
      int (guards st) + weight (op_queue_ops (shared st)) + (\<Sum>th \<leftarrow> sthreads st. load th)"
    using I by blast
  ultimately show "outstanding_work (shared st) +
      (\<Sum>th \<leftarrow> sthreads st. private_outstanding_work (info th)) =
      int (guards st) + weight (op_queue_ops (shared st)) +
      (\<Sum>th \<leftarrow> sthreads st. weight (private_op_queue (info th)) + weight (pushing th) + running th)"
    by simp
qed

text \<open>C1: In every reachable state of a scheduler with any number of threads in any running
  function, whatever handlers and other threads call: (1) the queue is first in, first out: what
  was pushed is what was taken, in order, followed by what is queued; (2) no operation is lost
  or run twice: the operations given to the scheduler are those pushed, those in a thread's
  private queue and those a thread is about to push, so the operations taken are among those
  given, each at most as often; (3) the task is never run by two threads at once nor queued
  while it is run, and once it is set it is always either queued once or being run; (4)
  \<open>outstanding_work_\<close> plus the threads' private counts is exactly the work the callers started
  and have not finished, the counted operations queued or about to be queued, and the counted
  handlers being run.\<close>

theorem scheduler_invariant:
  assumes "sched_reach allowed (sched_init hint own n) st"
  shows "entered st = taken st @ op_queue_ops (shared st) \<and>
    given st = mset (filter (\<lambda>opn. opn \<noteq> Task_operation) (entered st)) +
      (\<Sum>th \<leftarrow> sthreads st. mset (private_op_queue (info th)) + mset (pushing th)) \<and>
    mset (filter (\<lambda>opn. opn \<noteq> Task_operation) (taken st)) \<subseteq># given st \<and>
    task_count (op_queue_ops (shared st)) + (\<Sum>th \<leftarrow> sthreads st. in_task th) =
      (if has_task (shared st) then 1 else 0) \<and>
    outstanding_work (shared st) + (\<Sum>th \<leftarrow> sthreads st. private_outstanding_work (info th)) =
      int (guards st) + weight (op_queue_ops (shared st)) +
      (\<Sum>th \<leftarrow> sthreads st. weight (private_op_queue (info th)) + weight (pushing th) + running th)"
  by (intro conjI scheduler_invariant_facts [OF assms])

theorem scheduler_invariant_witness:
  "entered dm_stranded = taken dm_stranded @ op_queue_ops (shared dm_stranded) \<and>
   entered dm_stranded = [Operation 1, Operation 2] \<and> taken dm_stranded = [Operation 1] \<and>
   outstanding_work (shared dm_stranded) = 2"
proof -
  have "sched_reach (\<lambda>m. True) (sched_init (-1) False 2) dm_stranded"
    using dm_reach_stranded [of "\<lambda>m. True"] by (simp add: demo_init_def)
  note * = scheduler_invariant [OF this, THEN conjunct1]
  have "entered dm_stranded = [Operation 1, Operation 2]" by code_simp
  moreover have "taken dm_stranded = [Operation 1]" by code_simp
  moreover have "outstanding_work (shared dm_stranded) = 2" by code_simp
  ultimately show ?thesis using * by blast
qed

lemma scheduler_idle_facts:
  assumes reach: "sched_reach allowed (sched_init hint own n) st"
  shows "0 \<le> outstanding_work (shared st)"
    "outstanding_work (shared st) = 0 \<Longrightarrow>
      guards st = 0 \<and> (\<forall>opn \<in> set (op_queue_ops (shared st)). \<not> counted opn) \<and>
      (\<forall>th \<in> set (sthreads st). pushing th = [] \<and>
         (\<forall>opn. thread_pc th = In_op opn \<longrightarrow> \<not> counted opn) \<and>
         ((\<forall>opn. thread_pc th \<noteq> In_op opn) \<longrightarrow>
            (\<forall>opn \<in> set (private_op_queue (info th)). \<not> counted opn)))"
proof -
  note I = sched_reach_inv [OF reach, unfolded sched_inv_def]
  have ok: "\<And>th. th \<in> set (sthreads st) \<Longrightarrow> thread_ok th" using I by blast
  have eq: "outstanding_work (shared st) =
      int (guards st) + weight (op_queue_ops (shared st)) + (\<Sum>th \<leftarrow> sthreads st. load th)"
    using I by blast
  have nn: "0 \<le> (\<Sum>th \<leftarrow> sthreads st. load th)"
    using ok load_nonneg by (intro sum_list_nonneg) auto
  have w: "0 \<le> weight (op_queue_ops (shared st))" by simp
  show "0 \<le> outstanding_work (shared st)" using eq nn w by linarith
  assume zero: "outstanding_work (shared st) = 0"
  have parts: "guards st = 0" "weight (op_queue_ops (shared st)) = 0"
    "(\<Sum>th \<leftarrow> sthreads st. load th) = 0"
    using eq nn w zero by linarith+
  have none: "\<And>opns. weight opns = 0 \<Longrightarrow> (\<forall>opn \<in> set opns. \<not> counted opn)"
    by (auto simp: weight_def filter_empty_conv)
  have each: "pushing th = [] \<and>
         (\<forall>opn. thread_pc th = In_op opn \<longrightarrow> \<not> counted opn) \<and>
         ((\<forall>opn. thread_pc th \<noteq> In_op opn) \<longrightarrow>
            (\<forall>opn \<in> set (private_op_queue (info th)). \<not> counted opn))"
    if th: "th \<in> set (sthreads st)" for th
  proof -
    note o = ok [OF th]
    have "load th \<le> (\<Sum>th \<leftarrow> sthreads st. load th)"
      using th ok load_nonneg by (intro member_le_sum_list) auto
    with parts load_nonneg [OF o] have l: "load th = 0" by linarith
    have p: "0 \<le> weight (private_op_queue (info th)) - private_outstanding_work (info th)"
      "0 \<le> running th" "0 \<le> weight (pushing th)"
      using o by (auto simp: thread_ok_def running_def split: thread_pc.splits)
    have z: "weight (private_op_queue (info th)) = private_outstanding_work (info th)"
      "running th = 0" "weight (pushing th) = 0"
      using l p unfolding load_def by linarith+
    have "user_ops (pushing th)" using o by (simp add: thread_ok_def)
    with z(3) have "pushing th = []" using user_ops_weight by force
    moreover have "private_outstanding_work (info th) = 0" if "\<forall>opn. thread_pc th \<noteq> In_op opn"
      using o that by (auto simp: thread_ok_def split: thread_pc.splits)
    ultimately show ?thesis using z none by (auto simp: running_def)
  qed
  show "guards st = 0 \<and> (\<forall>opn \<in> set (op_queue_ops (shared st)). \<not> counted opn) \<and>
      (\<forall>th \<in> set (sthreads st). pushing th = [] \<and>
         (\<forall>opn. thread_pc th = In_op opn \<longrightarrow> \<not> counted opn) \<and>
         ((\<forall>opn. thread_pc th \<noteq> In_op opn) \<longrightarrow>
            (\<forall>opn \<in> set (private_op_queue (info th)). \<not> counted opn)))"
    using parts none [OF parts(2)] each by blast
qed

text \<open>C11: The scheduler stops by itself only when nothing is left. In a reachable state whose
  \<open>outstanding_work_\<close> is zero (which is what makes \<open>work_finished\<close> call \<open>stop\<close> and the running
  functions return at once) no caller has unfinished work, no counted operation is in the shared
  queue or about to be pushed, no handler of a counted operation is running, and outside the
  handlers no private queue holds a counted operation. And \<open>outstanding_work_\<close> is never
  negative.\<close>

theorem scheduler_stops_when_idle:
  assumes "sched_reach allowed (sched_init hint own n) st"
  shows "0 \<le> outstanding_work (shared st) \<and>
    (outstanding_work (shared st) = 0 \<longrightarrow>
      guards st = 0 \<and> (\<forall>opn \<in> set (op_queue_ops (shared st)). \<not> counted opn) \<and>
      (\<forall>th \<in> set (sthreads st). pushing th = [] \<and>
         (\<forall>opn. thread_pc th = In_op opn \<longrightarrow> \<not> counted opn) \<and>
         ((\<forall>opn. thread_pc th \<noteq> In_op opn) \<longrightarrow>
            (\<forall>opn \<in> set (private_op_queue (info th)). \<not> counted opn))))"
  using scheduler_idle_facts [OF assms] by blast

text \<open>A thread that starts \<open>run\<close> with no work.\<close>

definition dm_idle :: sched_state where
  "dm_idle = start_thread 0 Run demo_init"

lemma dm_reach_idle: "sched_reach (\<lambda>m. True) demo_init dm_idle"
  unfolding dm_idle_def
  by (rule reach_step [OF reach_refl], rule start_threadI) (code_simp, code_simp, code_simp, simp)

theorem scheduler_stops_when_idle_witness:
  "outstanding_work (shared dm_idle) = 0 \<and> guards dm_idle = 0 \<and>
   filter counted (op_queue_ops (shared dm_idle)) = []"
proof -
  have r: "sched_reach (\<lambda>m. True) (sched_init (-1) False 2) dm_idle"
    using dm_reach_idle by (simp add: demo_init_def)
  have z: "outstanding_work (shared dm_idle) = 0" by code_simp
  from scheduler_stops_when_idle [OF r] z show ?thesis by (simp add: filter_empty_conv)
qed

lemma scheduler_wakeup_facts:
  assumes reach: "sched_reach (\<lambda>m. m = Run) (sched_init hint own n) st"
    and locking: "hint_is_locking LOCKING_SCHEDULER hint"
  shows "op_queue_ops (shared st) \<noteq> [] \<Longrightarrow> \<exists>th \<in> set (sthreads st). inside th \<Longrightarrow>
      \<exists>th \<in> set (sthreads st). awake_in st th"
    "stopped (shared st) \<Longrightarrow> th \<in> set (sthreads st) \<Longrightarrow> inside th \<Longrightarrow> awake_in st th"
proof -
  have "sched_inv st \<and> wake_inv st"
    using reach
  proof induction
    case reach_refl
    then show ?case using sched_inv_init wake_inv_init [OF locking] by blast
  next
    case (reach_step st st')
    then show ?case using sched_step_inv sched_step_wake by blast
  qed
  then have W: "wake_inv st" by blast
  show "op_queue_ops (shared st) \<noteq> [] \<Longrightarrow> \<exists>th \<in> set (sthreads st). inside th \<Longrightarrow>
      \<exists>th \<in> set (sthreads st). awake_in st th"
    using W unfolding wake_inv_def by blast
  show "stopped (shared st) \<Longrightarrow> th \<in> set (sthreads st) \<Longrightarrow> inside th \<Longrightarrow> awake_in st th"
    using W unfolding wake_inv_def by blast
qed

text \<open>C2: No wake-up is lost among threads that call \<open>run\<close>. With locking enabled, in every
  reachable state with an operation in the queue and some thread inside \<open>run\<close>, some thread is
  going to look at the queue: it is executing, or the condition variable has released it and the
  event is signalled (so it will not go back to sleep), or it is in the task and the task has
  been told to return or not to block. And after \<open>stop\<close> every thread inside \<open>run\<close> is in one of
  these places.\<close>

theorem scheduler_no_lost_wakeup:
  assumes "sched_reach (\<lambda>m. m = Run) (sched_init hint own n) st"
    and "hint_is_locking LOCKING_SCHEDULER hint"
  shows "(op_queue_ops (shared st) \<noteq> [] \<and> (\<exists>th \<in> set (sthreads st). inside th) \<longrightarrow>
      (\<exists>th \<in> set (sthreads st). awake_in st th)) \<and>
    (stopped (shared st) \<longrightarrow> (\<forall>th \<in> set (sthreads st). inside th \<longrightarrow> awake_in st th))"
  using scheduler_wakeup_facts [OF assms] by blast

theorem scheduler_no_lost_wakeup_witness:
  "\<exists>th \<in> set (sthreads dm_pushed). awake_in dm_pushed th"
proof -
  have r: "sched_reach (\<lambda>m. m = Run) (sched_init (-1) False 2) dm_pushed"
    using dm_reach_pushed [of "\<lambda>m. m = Run"] by (simp add: demo_init_def)
  have l: "hint_is_locking LOCKING_SCHEDULER (-1)" by code_simp
  have q: "op_queue_ops (shared dm_pushed) \<noteq> []" by code_simp
  have i: "\<exists>th \<in> set (sthreads dm_pushed). inside th" by code_simp
  from scheduler_no_lost_wakeup [OF r l] q i show ?thesis by blast
qed

text \<open>
  With \<open>run_one\<close> beside \<open>run\<close> a wake-up can be lost: a handler run by \<open>run_one\<close> posts a
  continuation, \<open>~work_cleanup\<close> moves it to the shared queue without waking anybody, and the
  thread returns; the thread in \<open>run\<close> sleeps on with work in the queue.
\<close>

lemma run_one_strands_continuation:
  "sched_reach (\<lambda>m. True) (sched_init (-1) False 2) dm_stranded"
  "op_queue_ops (shared dm_stranded) = [Operation 2]"
  "map thread_pc (sthreads dm_stranded) = [Outside, Waiting False]"
  "map mode (sthreads dm_stranded) = [Run_one, Run]"
  "\<not> stopped (shared dm_stranded)" "\<not> (\<exists>th \<in> set (sthreads dm_stranded). awake_in dm_stranded th)"
  subgoal using dm_reach_stranded [of "\<lambda>m. True"] by (simp add: demo_init_def)
  by code_simp+

end
