(* ===== verification/Strand.thy ===== *)
theory Strand
  imports Prelude
begin

text \<open>
  Strands: \<open>detail/strand_executor_service.hpp\<close> and \<open>detail/impl/strand_executor_service.{hpp,ipp}\<close>
  (\<open>asio::strand\<close>), and \<open>detail/strand_service.hpp\<close> with \<open>detail/impl/strand_service.{hpp,ipp}\<close>
  (\<open>io_context::strand\<close>). The step relation interleaves the stretches of code that any number
  of threads execute on one strand; the underlying executor only keeps a number of invokers to
  run, and runs each of them once on some thread.
\<close>

section \<open>A strand\<close>

text \<open>
  \<open>strand_impl\<close>. The waiting queue and the two flags are protected by the strand's mutex; the
  ready queue is not, it belongs to whoever holds the strand. Operations are numbers.
\<close>

record strand_impl =
  locked :: bool
  shutdown_flag :: bool
  waiting_queue :: "nat list"
  ready_queue :: "nat list"

definition strand_impl_new :: strand_impl where
  "strand_impl_new = \<lparr> locked = False, shutdown_flag = False, waiting_queue = [], ready_queue = [] \<rparr>"

text \<open>
  The index of the mutex of a new strand at address \<open>addr\<close>, with the service's salt, which is
  incremented (and wraps).
\<close>

definition num_mutexes :: nat where
  "num_mutexes = 193"

definition strand_mutex_index :: "64 word \<Rightarrow> 64 word \<Rightarrow> nat \<times> 64 word" where
  "strand_mutex_index addr salt =
     (let mutex_index = addr + drop_bit 3 addr;
          mutex_index = xor mutex_index
            (salt + 0x9e3779b9 + push_bit 6 mutex_index + drop_bit 2 mutex_index)
      in (unat mutex_index mod num_mutexes, salt + 1))"

section \<open>The executor strand\<close>

text \<open>
  \<open>enqueue\<close>: what it does under the mutex and which way it goes on. After \<open>Enqueued_first\<close> the
  operation still has to be pushed on the ready queue, outside the mutex.
\<close>

datatype enqueued = Enqueued_destroyed | Enqueued_waiting | Enqueued_first

definition strand_enqueue :: "nat \<Rightarrow> strand_impl \<Rightarrow> strand_impl \<times> enqueued" where
  "strand_enqueue opn s =
     (if shutdown_flag s then (s, Enqueued_destroyed)
      else if locked s
      then (s\<lparr>waiting_queue := waiting_queue s @ [opn]\<rparr>, Enqueued_waiting)
      else (s\<lparr>locked := True\<rparr>, Enqueued_first))"

definition strand_push_ready :: "nat \<Rightarrow> strand_impl \<Rightarrow> strand_impl" where
  "strand_push_ready opn s = s\<lparr>ready_queue := ready_queue s @ [opn]\<rparr>"

definition push_waiting_to_ready :: "strand_impl \<Rightarrow> strand_impl \<times> bool" where
  "push_waiting_to_ready s =
     (let s = s\<lparr>ready_queue := ready_queue s @ waiting_queue s, waiting_queue := []\<rparr>;
          more_handlers = (ready_queue s \<noteq> [])
      in (s\<lparr>locked := more_handlers\<rparr>, more_handlers))"

text \<open>One turn of the loop of \<open>run_ready_handlers\<close>: the operation it completes, if any.\<close>

definition strand_next_ready :: "strand_impl \<Rightarrow> strand_impl \<times> nat option" where
  "strand_next_ready s =
     (case ready_queue s of
        [] \<Rightarrow> (s, None)
      | opn # rest \<Rightarrow> (s\<lparr>ready_queue := rest\<rparr>, Some opn))"

text \<open>\<open>shutdown\<close> for one strand: the operations it destroys, in order.\<close>

definition strand_shutdown :: "strand_impl \<Rightarrow> strand_impl \<times> nat list" where
  "strand_shutdown s =
     (s\<lparr>shutdown_flag := True, waiting_queue := [], ready_queue := []\<rparr>,
      ([] @ waiting_queue s) @ ready_queue s)"

text \<open>
  Whether a function is called at once instead of being queued: in \<open>do_execute\<close> when the thread
  is inside the strand and the executor may block, in \<open>dispatch\<close> when it is inside, in \<open>post\<close> and
  \<open>defer\<close> never.
\<close>

datatype submission = Submit_execute bool | Submit_dispatch | Submit_post | Submit_defer

fun runs_inline :: "submission \<Rightarrow> bool \<Rightarrow> bool" where
  "runs_inline (Submit_execute blocking_never) running_in_this_thread \<longleftrightarrow>
     \<not> blocking_never \<and> running_in_this_thread"
| "runs_inline Submit_dispatch running_in_this_thread \<longleftrightarrow> running_in_this_thread"
| "runs_inline Submit_post running_in_this_thread \<longleftrightarrow> False"
| "runs_inline Submit_defer running_in_this_thread \<longleftrightarrow> False"

text \<open>
  Whether the executor may run the invoker before the submitting call returns: it is given
  through \<open>execute\<close> or \<open>asio::dispatch\<close>, but not through \<open>asio::post\<close> or \<open>asio::defer\<close>.
\<close>

fun submits_inline :: "submission \<Rightarrow> bool" where
  "submits_inline (Submit_execute blocking_never) \<longleftrightarrow> \<not> blocking_never"
| "submits_inline Submit_dispatch \<longleftrightarrow> True"
| "submits_inline Submit_post \<longleftrightarrow> False"
| "submits_inline Submit_defer \<longleftrightarrow> False"

section \<open>The strand service of \<open>io_context::strand\<close>\<close>

text \<open>
  \<open>do_dispatch\<close>: completed at once by this thread, which then holds the strand; queued behind
  the holder; or first, to be pushed on the ready queue and the strand posted. \<open>do_post\<close> is the
  same without the first way.
\<close>

datatype dispatched = Dispatch_now | Dispatch_waiting | Dispatch_first

definition strand_do_dispatch :: "bool \<Rightarrow> nat \<Rightarrow> strand_impl \<Rightarrow> strand_impl \<times> dispatched" where
  "strand_do_dispatch can_dispatch opn s =
     (if can_dispatch \<and> \<not> locked s then (s\<lparr>locked := True\<rparr>, Dispatch_now)
      else if locked s
      then (s\<lparr>waiting_queue := waiting_queue s @ [opn]\<rparr>, Dispatch_waiting)
      else (s\<lparr>locked := True\<rparr>, Dispatch_first))"

definition strand_do_post :: "nat \<Rightarrow> strand_impl \<Rightarrow> strand_impl \<times> dispatched" where
  "strand_do_post opn s =
     (if locked s
      then (s\<lparr>waiting_queue := waiting_queue s @ [opn]\<rparr>, Dispatch_waiting)
      else (s\<lparr>locked := True\<rparr>, Dispatch_first))"

text \<open>The destructors \<open>~on_do_complete_exit\<close> and \<open>~on_dispatch_exit\<close>.\<close>

definition strand_service_exit :: "strand_impl \<Rightarrow> strand_impl \<times> bool" where
  "strand_service_exit s =
     (let s = s\<lparr>ready_queue := ready_queue s @ waiting_queue s, waiting_queue := []\<rparr>;
          more_handlers = (ready_queue s \<noteq> [])
      in (s\<lparr>locked := more_handlers\<rparr>, more_handlers))"

definition strand_service_shutdown :: "strand_impl \<Rightarrow> strand_impl \<times> nat list" where
  "strand_service_shutdown s =
     (s\<lparr>waiting_queue := [], ready_queue := []\<rparr>, ([] @ waiting_queue s) @ ready_queue s)"

definition num_implementations :: nat where
  "num_implementations = 193"

definition strand_service_index :: "64 word \<Rightarrow> 64 word \<Rightarrow> nat \<times> 64 word" where
  "strand_service_index addr salt =
     (let index = addr + drop_bit 3 addr;
          index = xor index (salt + 0x9e3779b9 + push_bit 6 index + drop_bit 2 index)
      in (unat index mod num_implementations, salt + 1))"

section \<open>Threads on a strand\<close>

text \<open>
  Where a thread is with respect to the strand. \<open>S_first\<close>: took the strand in \<open>enqueue\<close>, has not
  pushed the operation. \<open>S_submit b\<close>: pushed it, has not submitted the invoker (\<open>b\<close>: the executor
  may run it at once). \<open>S_running\<close>: in the loop of \<open>run_ready_handlers\<close> (or \<open>do_complete\<close>).
  \<open>S_handler\<close>: in a handler called from that loop. \<open>S_direct\<close>: in a handler \<open>do_dispatch\<close> calls.
  \<open>S_exit\<close>: in the destructor that gives the strand up. \<open>S_resubmit\<close>: about to submit the invoker
  again.
\<close>

datatype strand_pc =
    S_outside
  | S_first nat bool
  | S_submit bool
  | S_running
  | S_handler nat
  | S_direct nat
  | S_exit
  | S_resubmit

record strand_state =
  impl :: strand_impl
  spcs :: "strand_pc list"
  invokers :: nat
  queued :: "nat list"
  begun :: "nat list"
  destroyed :: "nat list"

definition strand_init :: "nat \<Rightarrow> strand_state" where
  "strand_init nthreads =
     \<lparr> impl = strand_impl_new, spcs = replicate nthreads S_outside, invokers = 0,
       queued = [], begun = [], destroyed = [] \<rparr>"

definition set_spc :: "nat \<Rightarrow> strand_pc \<Rightarrow> strand_state \<Rightarrow> strand_state" where
  "set_spc t p st = st\<lparr>spcs := (spcs st)[t := p]\<rparr>"

text \<open>\<open>running_in_this_thread\<close>, for the strand's own handlers.\<close>

definition inside_strand :: "strand_pc \<Rightarrow> bool" where
  "inside_strand p \<longleftrightarrow> (case p of S_handler opn \<Rightarrow> True | S_direct opn \<Rightarrow> True | _ \<Rightarrow> False)"

text \<open>The thread may touch the ready queue or run a handler: it holds the strand.\<close>

definition holds_strand :: "strand_pc \<Rightarrow> bool" where
  "holds_strand p \<longleftrightarrow> p \<noteq> S_outside"

definition client_pc :: "strand_pc \<Rightarrow> bool" where
  "client_pc p \<longleftrightarrow> p = S_outside \<or> inside_strand p"

text \<open>
  The steps. In \<open>queues\<close> a thread outside, or in a handler of this strand, submits an operation
  that is not run inline; \<open>posts_io\<close> and \<open>dispatches_io\<close> are the same for \<open>io_context::strand\<close>.
  A handler may throw (\<open>throws\<close>): the destructor then gives the strand up with operations still
  ready. \<open>shuts_down\<close> is the shutdown of the execution context, which the context calls when no
  thread is running its handlers.
\<close>

inductive strand_step :: "strand_state \<Rightarrow> strand_state \<Rightarrow> bool" where
  queues_destroyed:
  "\<lbrakk> t < length (spcs st); client_pc (spcs st ! t); \<not> runs_inline how (inside_strand (spcs st ! t));
     strand_enqueue opn (impl st) = (s, Enqueued_destroyed) \<rbrakk> \<Longrightarrow>
   strand_step st (st\<lparr>impl := s\<rparr>)"
| queues_waiting:
  "\<lbrakk> t < length (spcs st); client_pc (spcs st ! t); \<not> runs_inline how (inside_strand (spcs st ! t));
     strand_enqueue opn (impl st) = (s, Enqueued_waiting) \<rbrakk> \<Longrightarrow>
   strand_step st (st\<lparr>impl := s, queued := queued st @ [opn]\<rparr>)"
| queues_first:
  "\<lbrakk> t < length (spcs st); spcs st ! t = S_outside;
     strand_enqueue opn (impl st) = (s, Enqueued_first) \<rbrakk> \<Longrightarrow>
   strand_step st ((set_spc t (S_first opn (submits_inline how)) st)
     \<lparr>impl := s, queued := queued st @ [opn]\<rparr>)"
| pushes_ready:
  "\<lbrakk> t < length (spcs st); spcs st ! t = S_first opn b \<rbrakk> \<Longrightarrow>
   strand_step st ((set_spc t (S_submit b) st)\<lparr>impl := strand_push_ready opn (impl st)\<rparr>)"
| submits:
  "\<lbrakk> t < length (spcs st); spcs st ! t = S_submit b \<rbrakk> \<Longrightarrow>
   strand_step st ((set_spc t S_outside st)\<lparr>invokers := invokers st + 1\<rparr>)"
| submits_and_runs:
  "\<lbrakk> t < length (spcs st); spcs st ! t = S_submit True \<rbrakk> \<Longrightarrow>
   strand_step st (set_spc t S_running st)"
| invokes:
  "\<lbrakk> t < length (spcs st); spcs st ! t = S_outside; invokers st > 0 \<rbrakk> \<Longrightarrow>
   strand_step st ((set_spc t S_running st)\<lparr>invokers := invokers st - 1\<rparr>)"
| runs:
  "\<lbrakk> t < length (spcs st); spcs st ! t = S_running; strand_next_ready (impl st) = (s, Some opn) \<rbrakk> \<Longrightarrow>
   strand_step st ((set_spc t (S_handler opn) st)\<lparr>impl := s, begun := begun st @ [opn]\<rparr>)"
| runs_out:
  "\<lbrakk> t < length (spcs st); spcs st ! t = S_running; strand_next_ready (impl st) = (s, None) \<rbrakk> \<Longrightarrow>
   strand_step st ((set_spc t S_exit st)\<lparr>impl := s\<rparr>)"
| returns:
  "\<lbrakk> t < length (spcs st); spcs st ! t = S_handler opn \<rbrakk> \<Longrightarrow>
   strand_step st (set_spc t S_running st)"
| throws:
  "\<lbrakk> t < length (spcs st); spcs st ! t = S_handler opn \<rbrakk> \<Longrightarrow>
   strand_step st (set_spc t S_exit st)"
| exits:
  "\<lbrakk> t < length (spcs st); spcs st ! t = S_exit; push_waiting_to_ready (impl st) = (s, again) \<rbrakk> \<Longrightarrow>
   strand_step st ((set_spc t (if again then S_resubmit else S_outside) st)\<lparr>impl := s\<rparr>)"
| resubmits:
  "\<lbrakk> t < length (spcs st); spcs st ! t = S_resubmit \<rbrakk> \<Longrightarrow>
   strand_step st ((set_spc t S_outside st)\<lparr>invokers := invokers st + 1\<rparr>)"
| posts_io_waiting:
  "\<lbrakk> t < length (spcs st); client_pc (spcs st ! t); \<not> shutdown_flag (impl st);
     strand_do_post opn (impl st) = (s, Dispatch_waiting) \<rbrakk> \<Longrightarrow>
   strand_step st (st\<lparr>impl := s, queued := queued st @ [opn]\<rparr>)"
| posts_io_first:
  "\<lbrakk> t < length (spcs st); spcs st ! t = S_outside; \<not> shutdown_flag (impl st);
     strand_do_post opn (impl st) = (s, Dispatch_first) \<rbrakk> \<Longrightarrow>
   strand_step st ((set_spc t (S_first opn False) st)\<lparr>impl := s, queued := queued st @ [opn]\<rparr>)"
| dispatches_io:
  "\<lbrakk> t < length (spcs st); spcs st ! t = S_outside; \<not> shutdown_flag (impl st);
     strand_do_dispatch can opn (impl st) = (s, d) \<rbrakk> \<Longrightarrow>
   strand_step st
     ((set_spc t (case d of Dispatch_now \<Rightarrow> S_direct opn | Dispatch_waiting \<Rightarrow> S_outside
                  | Dispatch_first \<Rightarrow> S_first opn False) st)
        \<lparr>impl := s, queued := queued st @ [opn],
         begun := (if d = Dispatch_now then begun st @ [opn] else begun st)\<rparr>)"
| direct_ends:
  "\<lbrakk> t < length (spcs st); spcs st ! t = S_direct opn;
     strand_service_exit (impl st) = (s, again) \<rbrakk> \<Longrightarrow>
   strand_step st ((set_spc t (if again then S_resubmit else S_outside) st)\<lparr>impl := s\<rparr>)"
| shuts_down:
  "\<lbrakk> \<forall>p \<in> set (spcs st). p = S_outside; \<not> shutdown_flag (impl st);
     strand_shutdown (impl st) = (s, opns) \<rbrakk> \<Longrightarrow>
   strand_step st (st\<lparr>impl := s, destroyed := destroyed st @ opns\<rparr>)"

inductive strand_reach :: "strand_state \<Rightarrow> strand_state \<Rightarrow> bool" for st0 :: strand_state where
  strand_refl: "strand_reach st0 st0"
| strand_more: "strand_reach st0 st \<Longrightarrow> strand_step st st' \<Longrightarrow> strand_reach st0 st'"

section \<open>The invariant\<close>

text \<open>What a thread has taken the strand for and not yet pushed.\<close>

definition hand_of :: "strand_pc \<Rightarrow> nat list" where
  "hand_of p = (case p of S_first opn b \<Rightarrow> [opn] | _ \<Rightarrow> [])"

definition in_hand :: "strand_state \<Rightarrow> nat list" where
  "in_hand st = concat (map hand_of (spcs st))"

definition backlog :: "strand_state \<Rightarrow> nat list" where
  "backlog st = in_hand st @ ready_queue (impl st) @ waiting_queue (impl st)"

text \<open>
  The strand is held at most once: by one thread, or by one invoker in the executor; just when
  \<open>locked_\<close> is set.
\<close>

definition strand_inv :: "strand_state \<Rightarrow> bool" where
  "strand_inv st \<longleftrightarrow>
     (\<forall>i < length (spcs st). \<forall>j < length (spcs st). i \<noteq> j \<longrightarrow>
        spcs st ! i \<noteq> S_outside \<longrightarrow> spcs st ! j = S_outside) \<and>
     (\<forall>i < length (spcs st). spcs st ! i \<noteq> S_outside \<longrightarrow> locked (impl st) \<and> invokers st = 0) \<and>
     ((\<forall>i < length (spcs st). spcs st ! i = S_outside) \<longrightarrow>
        invokers st = (if locked (impl st) then 1 else 0)) \<and>
     (\<not> locked (impl st) \<longrightarrow> ready_queue (impl st) = [] \<and> waiting_queue (impl st) = []) \<and>
     (\<forall>i < length (spcs st). hand_of (spcs st ! i) \<noteq> [] \<longrightarrow> ready_queue (impl st) = []) \<and>
     (if shutdown_flag (impl st)
      then backlog st = [] \<and> (\<exists>rest. queued st = begun st @ rest \<and> mset rest = mset (destroyed st))
      else queued st = begun st @ backlog st \<and> destroyed st = [])"

lemma hand_of_simps [simp]:
  "hand_of S_outside = []" "hand_of (S_first opn b) = [opn]" "hand_of (S_submit b) = []"
  "hand_of S_running = []" "hand_of (S_handler opn) = []" "hand_of (S_direct opn) = []"
  "hand_of S_exit = []" "hand_of S_resubmit = []"
  by (simp_all add: hand_of_def)

lemma in_hand_only:
  assumes "t < length ps" "\<And>j. j < length ps \<Longrightarrow> j \<noteq> t \<Longrightarrow> ps ! j = S_outside"
  shows "concat (map hand_of (ps[t := p])) = hand_of p"
  using assms
proof (induction ps arbitrary: t)
  case (Cons q ps)
  have none: "concat (map hand_of qs) = []" if "\<And>j. j < length qs \<Longrightarrow> qs ! j = S_outside" for qs
    using that by (auto simp: in_set_conv_nth)
  show ?case
  proof (cases t)
    case 0
    have "ps ! j = S_outside" if "j < length ps" for j using Cons.prems(2) [of "Suc j"] that 0 by simp
    then show ?thesis using none [of ps] 0 by simp
  next
    case (Suc u)
    have "q = S_outside" using Cons.prems(2) [of 0] Suc by simp
    moreover have "concat (map hand_of (ps[u := p])) = hand_of p"
    proof (rule Cons.IH)
      show "ps ! j = S_outside" if "j < length ps" "j \<noteq> u" for j
        using Cons.prems(2) [of "Suc j"] that Suc by simp
    qed (use Cons.prems Suc in simp)
    ultimately show ?thesis using Suc by simp
  qed
qed simp

lemma in_hand_same:
  assumes "t < length ps" "\<And>j. j < length ps \<Longrightarrow> j \<noteq> t \<Longrightarrow> ps ! j = S_outside"
  shows "concat (map hand_of ps) = hand_of (ps ! t)"
  using in_hand_only [OF assms, of "ps ! t"] by simp

lemma strand_inv_init: "strand_inv (strand_init n)"
proof -
  have "concat (map hand_of (replicate n S_outside)) = []" by (induction n) simp_all
  then show ?thesis
    by (simp add: strand_inv_def strand_init_def strand_impl_new_def backlog_def in_hand_def)
qed

text \<open>
  The steps of the one thread that holds the strand, or takes it: nobody else holds it, so only
  the thread's own place, the strand and the invokers have to fit together.
\<close>

lemma strand_inv_holder:
  assumes inv: "strand_inv st" and t: "t < length (spcs st)"
    and alone: "\<And>j. j < length (spcs st) \<Longrightarrow> j \<noteq> t \<Longrightarrow> spcs st ! j = S_outside"
    and spcs: "spcs st' = (spcs st)[t := p]"
    and hold: "p \<noteq> S_outside \<Longrightarrow> locked (impl st') \<and> invokers st' = 0"
    and free: "p = S_outside \<Longrightarrow> invokers st' = (if locked (impl st') then 1 else 0)"
    and empty: "\<not> locked (impl st') \<Longrightarrow> ready_queue (impl st') = [] \<and> waiting_queue (impl st') = []"
    and first: "hand_of p \<noteq> [] \<Longrightarrow> ready_queue (impl st') = []"
    and flag: "shutdown_flag (impl st') = shutdown_flag (impl st)" "destroyed st' = destroyed st"
    and down: "shutdown_flag (impl st) \<Longrightarrow>
      hand_of p @ ready_queue (impl st') @ waiting_queue (impl st') = [] \<and>
      queued st' = queued st \<and> begun st' = begun st"
    and hist: "\<not> shutdown_flag (impl st) \<Longrightarrow>
      queued st = begun st @ hand_of (spcs st ! t) @ ready_queue (impl st) @ waiting_queue (impl st) \<Longrightarrow>
      queued st' = begun st' @ hand_of p @ ready_queue (impl st') @ waiting_queue (impl st')"
  shows "strand_inv st'"
proof -
  have h: "in_hand st = hand_of (spcs st ! t)" "in_hand st' = hand_of p"
    using in_hand_same [OF t alone] in_hand_only [OF t alone] by (simp_all add: in_hand_def spcs)
  have nth: "spcs st' ! j = (if j = t then p else S_outside)" if "j < length (spcs st)" for j
    using that alone by (simp add: spcs)
  note I = inv [unfolded strand_inv_def backlog_def h]
  have len: "length (spcs st') = length (spcs st)" by (simp add: spcs)
  show ?thesis
    unfolding strand_inv_def backlog_def h len
  proof (intro conjI allI impI)
    show "if shutdown_flag (impl st')
      then hand_of p @ ready_queue (impl st') @ waiting_queue (impl st') = [] \<and>
        (\<exists>rest. queued st' = begun st' @ rest \<and> mset rest = mset (destroyed st'))
      else queued st' = begun st' @ hand_of p @ ready_queue (impl st') @ waiting_queue (impl st') \<and>
        destroyed st' = []"
      using I flag down hist by (cases "shutdown_flag (impl st)") simp_all
  next
    assume "\<forall>i < length (spcs st). spcs st' ! i = S_outside"
    then show "invokers st' = (if locked (impl st') then 1 else 0)" using free nth [OF t] t by simp
  qed (use nth hold empty first in \<open>auto split: if_splits\<close>)
qed

text \<open>Who holds the strand holds it alone; who finds it unlocked takes it alone.\<close>

lemma alone_holder:
  assumes "strand_inv st" "t < length (spcs st)" "spcs st ! t \<noteq> S_outside"
  shows "j < length (spcs st) \<Longrightarrow> j \<noteq> t \<Longrightarrow> spcs st ! j = S_outside"
    "locked (impl st)" "invokers st = 0"
  using assms unfolding strand_inv_def by blast+

lemma alone_free:
  assumes "strand_inv st" "\<not> locked (impl st) \<or> invokers st > 0"
  shows "j < length (spcs st) \<Longrightarrow> spcs st ! j = S_outside"
    "invokers st = (if locked (impl st) then 1 else 0)"
proof -
  have "spcs st ! j = S_outside" if "j < length (spcs st)" for j
    using assms that unfolding strand_inv_def by auto
  then show "j < length (spcs st) \<Longrightarrow> spcs st ! j = S_outside"
    "invokers st = (if locked (impl st) then 1 else 0)"
    using assms(1) unfolding strand_inv_def by auto
qed

text \<open>A step that only adds to the waiting queue.\<close>

lemma strand_inv_waiting:
  assumes inv: "strand_inv st" and l: "locked (impl st)" and s: "\<not> shutdown_flag (impl st)"
  shows "strand_inv (st\<lparr>impl := (impl st)\<lparr>waiting_queue := waiting_queue (impl st) @ [opn]\<rparr>,
    queued := queued st @ [opn]\<rparr>)"
  using assms by (simp add: strand_inv_def backlog_def in_hand_def)

section \<open>Steps keep the invariant\<close>

lemma strand_step_inv:
  assumes "strand_step st st'" and inv: "strand_inv st"
  shows "strand_inv st'"
proof -
  note A = alone_holder [OF inv] and F = alone_free [OF inv]
  note I = inv [unfolded strand_inv_def]
  have free_empty: "ready_queue (impl st) = [] \<and> waiting_queue (impl st) = []" if "\<not> locked (impl st)"
    using I that by blast
  have down_empty: "ready_queue (impl st) = []" "waiting_queue (impl st) = []"
    "t < length (spcs st) \<Longrightarrow> hand_of (spcs st ! t) = []" if "shutdown_flag (impl st)" for t
    using I that by (auto simp: backlog_def in_hand_def)
  show ?thesis
    using assms(1)
  proof cases
    case (queues_destroyed t how opn s)
    then have "st' = st" by (auto simp: strand_enqueue_def split: if_splits)
    then show ?thesis using inv by simp
  next
    case (queues_waiting t how opn s)
    then show ?thesis
      using strand_inv_waiting [OF inv, of opn] by (auto simp: strand_enqueue_def split: if_splits)
  next
    case (queues_first t opn s how)
    then have f: "\<not> locked (impl st)" "\<not> shutdown_flag (impl st)" "s = (impl st)\<lparr>locked := True\<rparr>"
      by (auto simp: strand_enqueue_def split: if_splits)
    show ?thesis
      by (rule strand_inv_holder [OF inv queues_first(2), of _ "S_first opn (submits_inline how)"])
        (use queues_first(1-3) f F free_empty in \<open>auto simp: set_spc_def\<close>)
  next
    case (pushes_ready t opn b)
    note a = A [OF pushes_ready(2)]
    have "ready_queue (impl st) = []" using I pushes_ready(2,3) by force
    then show ?thesis
      by (intro strand_inv_holder [OF inv pushes_ready(2), of _ "S_submit b"])
        (use pushes_ready a down_empty(3) [OF _ pushes_ready(2)] in
          \<open>auto simp: set_spc_def strand_push_ready_def\<close>)
  next
    case (submits t b)
    note a = A [OF submits(2)]
    show ?thesis
      by (intro strand_inv_holder [OF inv submits(2), of _ S_outside])
        (use submits a down_empty in \<open>auto simp: set_spc_def\<close>)
  next
    case (submits_and_runs t)
    note a = A [OF submits_and_runs(2)]
    show ?thesis
      by (intro strand_inv_holder [OF inv submits_and_runs(2), of _ S_running])
        (use submits_and_runs a down_empty in \<open>auto simp: set_spc_def\<close>)
  next
    case (invokes t)
    note f = F [OF disjI2 [OF invokes(4)]]
    show ?thesis
      by (intro strand_inv_holder [OF inv invokes(2), of _ S_running])
        (use invokes f down_empty in \<open>auto simp: set_spc_def split: if_splits\<close>)
  next
    case (runs t s opn)
    note a = A [OF runs(2)]
    show ?thesis
      by (intro strand_inv_holder [OF inv runs(2), of _ "S_handler opn"])
        (use runs a down_empty in \<open>auto simp: set_spc_def strand_next_ready_def split: list.splits\<close>)
  next
    case (runs_out t s)
    note a = A [OF runs_out(2)]
    show ?thesis
      by (intro strand_inv_holder [OF inv runs_out(2), of _ S_exit])
        (use runs_out a down_empty in \<open>auto simp: set_spc_def strand_next_ready_def split: list.splits\<close>)
  next
    case (returns t opn)
    note a = A [OF returns(2)]
    show ?thesis
      by (intro strand_inv_holder [OF inv returns(2), of _ S_running])
        (use returns a down_empty in \<open>auto simp: set_spc_def\<close>)
  next
    case (throws t opn)
    note a = A [OF throws(2)]
    show ?thesis
      by (intro strand_inv_holder [OF inv throws(2), of _ S_exit])
        (use throws a down_empty in \<open>auto simp: set_spc_def\<close>)
  next
    case (exits t s again)
    note a = A [OF exits(2)]
    show ?thesis
      by (intro strand_inv_holder [OF inv exits(2), of _ "if again then S_resubmit else S_outside"])
        (use exits a down_empty in \<open>auto simp: set_spc_def push_waiting_to_ready_def Let_def\<close>)
  next
    case (resubmits t)
    note a = A [OF resubmits(2)]
    show ?thesis
      by (intro strand_inv_holder [OF inv resubmits(2), of _ S_outside])
        (use resubmits a down_empty in \<open>auto simp: set_spc_def\<close>)
  next
    case (posts_io_waiting t opn s)
    then show ?thesis
      using strand_inv_waiting [OF inv, of opn] by (auto simp: strand_do_post_def split: if_splits)
  next
    case (posts_io_first t opn s)
    then have f: "\<not> locked (impl st)" "s = (impl st)\<lparr>locked := True\<rparr>"
      by (auto simp: strand_do_post_def split: if_splits)
    show ?thesis
      by (rule strand_inv_holder [OF inv posts_io_first(2), of _ "S_first opn False"])
        (use posts_io_first(1-4) f F free_empty in \<open>auto simp: set_spc_def\<close>)
  next
    case (dispatches_io t can opn s d)
    show ?thesis
    proof (cases "locked (impl st)")
      case True
      then have "s = (impl st)\<lparr>waiting_queue := waiting_queue (impl st) @ [opn]\<rparr>" "d = Dispatch_waiting"
        using dispatches_io(5) by (auto simp: strand_do_dispatch_def)
      moreover have "(spcs st)[t := S_outside] = spcs st"
        using dispatches_io(3) by (metis list_update_id)
      ultimately show ?thesis
        using strand_inv_waiting [OF inv True dispatches_io(4), of opn] dispatches_io(1)
        by (simp add: set_spc_def)
    next
      case False
      then have f: "s = (impl st)\<lparr>locked := True\<rparr>" "d = (if can then Dispatch_now else Dispatch_first)"
        using dispatches_io(5) by (auto simp: strand_do_dispatch_def split: if_splits)
      show ?thesis
        by (rule strand_inv_holder [OF inv dispatches_io(2), of _ "if can then S_direct opn else S_first opn False"])
          (use dispatches_io(1-4) f False F free_empty in
            \<open>auto simp: set_spc_def split: if_split_asm\<close>)
    qed
  next
    case (direct_ends t opn s again)
    note a = A [OF direct_ends(2)]
    show ?thesis
      by (intro strand_inv_holder [OF inv direct_ends(2), of _ "if again then S_resubmit else S_outside"])
        (use direct_ends a down_empty in \<open>auto simp: set_spc_def strand_service_exit_def Let_def\<close>)
  next
    case (shuts_down s opns)
    have out: "\<forall>i < length (spcs st). spcs st ! i = S_outside" using shuts_down(2) by auto
    have "in_hand st = []" using shuts_down(2) by (auto simp: in_hand_def)
    then show ?thesis
      using I shuts_down out
      by (auto simp: strand_inv_def strand_shutdown_def backlog_def in_hand_def add.commute)
  qed
qed

lemma strand_reach_inv: "strand_reach (strand_init n) st \<Longrightarrow> strand_inv st"
  by (induction rule: strand_reach.induct) (auto intro: strand_inv_init strand_step_inv)

end
