(* ===== verification/StrandProps.thy ===== *)
theory StrandProps
  imports Strand
begin

text \<open>
  The property of strands, and a schedule of two threads: thread 0 queues two operations, thread
  1 runs the invoker and is in the handler of the first when the second is queued.
\<close>

definition strand_demo :: strand_state where
  "strand_demo =
     \<lparr> impl = \<lparr> locked = True, shutdown_flag = False, waiting_queue = [2], ready_queue = [] \<rparr>,
       spcs = [S_outside, S_handler 1], invokers = 0, queued = [1, 2], begun = [1],
       destroyed = [] \<rparr>"

lemma strand_demo_reach: "strand_reach (strand_init 2) strand_demo"
proof -
  let ?l = "strand_impl_new\<lparr>locked := True\<rparr>"
  let ?r = "?l\<lparr>ready_queue := [1]\<rparr>"
  let ?s1 = "\<lparr> impl = ?l, spcs = [S_first 1 False, S_outside], invokers = 0, queued = [1],
    begun = [], destroyed = [] \<rparr>"
  let ?s2 = "\<lparr> impl = ?r, spcs = [S_submit False, S_outside], invokers = 0, queued = [1],
    begun = [], destroyed = [] \<rparr>"
  let ?s3 = "\<lparr> impl = ?r, spcs = [S_outside, S_outside], invokers = 1, queued = [1],
    begun = [], destroyed = [] \<rparr>"
  let ?s4 = "\<lparr> impl = ?r, spcs = [S_outside, S_running], invokers = 0, queued = [1],
    begun = [], destroyed = [] \<rparr>"
  let ?s5 = "\<lparr> impl = ?l, spcs = [S_outside, S_handler 1], invokers = 0, queued = [1],
    begun = [1], destroyed = [] \<rparr>"
  have "strand_step (strand_init 2) ?s1"
    using queues_first [of 0 "strand_init 2" 1 ?l Submit_post]
    by (simp add: strand_init_def strand_impl_new_def strand_enqueue_def set_spc_def numeral_2_eq_2)
  moreover have "strand_step ?s1 ?s2"
    using pushes_ready [of 0 ?s1 1 False] by (simp add: set_spc_def strand_push_ready_def strand_impl_new_def)
  moreover have "strand_step ?s2 ?s3"
    using submits [of 0 ?s2 False] by (simp add: set_spc_def)
  moreover have "strand_step ?s3 ?s4"
    using invokes [of 1 ?s3] by (simp add: set_spc_def)
  moreover have "strand_step ?s4 ?s5"
    using runs [of 1 ?s4 ?l 1] by (simp add: set_spc_def strand_next_ready_def strand_impl_new_def)
  moreover have "strand_step ?s5 strand_demo"
    using queues_waiting [of 0 ?s5 Submit_post 2 "?l\<lparr>waiting_queue := [2]\<rparr>"]
    by (simp add: client_pc_def inside_strand_def strand_enqueue_def strand_impl_new_def strand_demo_def)
  ultimately show ?thesis using strand_refl [of "strand_init 2"] by (meson strand_more)
qed

lemma strand_facts:
  assumes reach: "strand_reach (strand_init n) st"
  shows "i < length (spcs st) \<Longrightarrow> j < length (spcs st) \<Longrightarrow> holds_strand (spcs st ! i) \<Longrightarrow>
      holds_strand (spcs st ! j) \<Longrightarrow> i = j"
    "\<exists>rest. queued st = begun st @ rest"
    "mset (queued st) = mset (begun st) + mset (backlog st) + mset (destroyed st)"
    "backlog st \<noteq> [] \<Longrightarrow> locked (impl st) \<and>
      ((\<exists>i < length (spcs st). holds_strand (spcs st ! i)) \<longleftrightarrow> invokers st = 0) \<and> invokers st \<le> 1"
    "i < length (spcs st) \<Longrightarrow> inside_strand (spcs st ! i) \<Longrightarrow>
      snd (strand_enqueue opn (impl st)) \<noteq> Enqueued_first \<and>
      snd (strand_do_post opn (impl st)) = Dispatch_waiting"
proof -
  note inv = strand_reach_inv [OF reach]
  note I = inv [unfolded strand_inv_def]
  show "i < length (spcs st) \<Longrightarrow> j < length (spcs st) \<Longrightarrow> holds_strand (spcs st ! i) \<Longrightarrow>
      holds_strand (spcs st ! j) \<Longrightarrow> i = j"
    using I unfolding holds_strand_def by blast
  show "\<exists>rest. queued st = begun st @ rest" using I by (auto split: if_splits)
  show "mset (queued st) = mset (begun st) + mset (backlog st) + mset (destroyed st)"
  proof (cases "shutdown_flag (impl st)")
    case True
    with I obtain rest where "queued st = begun st @ rest" "mset rest = mset (destroyed st)"
      "backlog st = []" by auto
    then show ?thesis by simp
  next
    case False
    with I have "queued st = begun st @ backlog st" "destroyed st = []" by simp_all
    then show ?thesis by simp
  qed
  show "backlog st \<noteq> [] \<Longrightarrow> locked (impl st) \<and>
      ((\<exists>i < length (spcs st). holds_strand (spcs st ! i)) \<longleftrightarrow> invokers st = 0) \<and> invokers st \<le> 1"
  proof -
    assume b: "backlog st \<noteq> []"
    show ?thesis
    proof (cases "\<exists>i < length (spcs st). spcs st ! i \<noteq> S_outside")
      case True
      then obtain i where i: "i < length (spcs st)" "spcs st ! i \<noteq> S_outside" by blast
      from alone_holder(2,3) [OF inv i] i show ?thesis unfolding holds_strand_def by auto
    next
      case False
      then have "in_hand st = []" by (auto simp: in_hand_def in_set_conv_nth)
      have l: "locked (impl st)"
      proof (rule ccontr)
        assume "\<not> locked (impl st)"
        with I have "ready_queue (impl st) = []" "waiting_queue (impl st) = []" by blast+
        with \<open>in_hand st = []\<close> b show False by (simp add: backlog_def)
      qed
      have "invokers st = (if locked (impl st) then 1 else 0)" using I False by blast
      then show ?thesis using l False unfolding holds_strand_def by auto
    qed
  qed
  assume i: "i < length (spcs st)" "inside_strand (spcs st ! i)"
  then have "spcs st ! i \<noteq> S_outside" by (auto simp: inside_strand_def)
  then have "locked (impl st)" using alone_holder(2) [OF inv i(1)] by blast
  then show "snd (strand_enqueue opn (impl st)) \<noteq> Enqueued_first \<and>
      snd (strand_do_post opn (impl st)) = Dispatch_waiting"
    by (simp add: strand_enqueue_def strand_do_post_def)
qed

text \<open>C3: A strand serialises its handlers. In every state that any number of threads submitting
  to one strand and running its invokers can reach: (1) at most one thread is inside the strand's
  code or in one of its handlers, so the ready queue, which no mutex protects, has one owner and
  no two handlers overlap; (2) handlers begin in the order their operations were queued, even when
  a handler throws; (3) no operation is lost or begins twice: those queued are those begun, those
  in the two queues or in the hand of a thread, and those destroyed by shutdown; (4) no operation is
  stranded: while one is left, the strand is locked and either exactly one thread is in it or
  exactly one invoker is with the executor; (5) an operation a handler submits to its own strand
  never takes the strand a second time.\<close>

theorem strand_serialises:
  assumes "strand_reach (strand_init n) st"
  shows "(\<forall>i < length (spcs st). \<forall>j < length (spcs st).
      holds_strand (spcs st ! i) \<and> holds_strand (spcs st ! j) \<longrightarrow> i = j) \<and>
    (\<exists>rest. queued st = begun st @ rest) \<and>
    mset (queued st) = mset (begun st) + mset (backlog st) + mset (destroyed st) \<and>
    (backlog st \<noteq> [] \<longrightarrow> locked (impl st) \<and>
      ((\<exists>i < length (spcs st). holds_strand (spcs st ! i)) \<longleftrightarrow> invokers st = 0) \<and> invokers st \<le> 1) \<and>
    (\<forall>i < length (spcs st). inside_strand (spcs st ! i) \<longrightarrow>
      snd (strand_enqueue opn (impl st)) \<noteq> Enqueued_first \<and>
      snd (strand_do_post opn (impl st)) = Dispatch_waiting)"
  using strand_facts [OF assms] by blast

theorem strand_serialises_witness:
  "backlog strand_demo = [2] \<and> locked (impl strand_demo) \<and>
   (\<exists>i < length (spcs strand_demo). holds_strand (spcs strand_demo ! i)) \<and>
   snd (strand_enqueue 3 (impl strand_demo)) \<noteq> Enqueued_first"
proof -
  have b: "backlog strand_demo = [2]" and i: "1 < length (spcs strand_demo)"
    "inside_strand (spcs strand_demo ! 1)" and v: "invokers strand_demo = 0"
    by code_simp+
  have "backlog strand_demo \<noteq> []" using b by simp
  with strand_serialises [OF strand_demo_reach, of 3] i v b show ?thesis by blast
qed

end
