(* ===== verification/Channel.thy ===== *)
theory Channel
  imports Prelude
begin

text \<open>
  Channels: \<open>experimental/detail/channel_service.hpp\<close> and
  \<open>experimental/detail/impl/channel_service.hpp\<close>. Every operation runs under the channel's
  mutex and is one function here, from the channel to the channel and to the completions it
  starts. The code casts the operation at the front of \<open>waiters_\<close> to a send or to a receive
  without looking; \<open>None\<close> is the outcome when the cast, or the dereference of an empty queue's
  front, is wrong.
\<close>

section \<open>State\<close>

datatype chan_state = Chan_buffer | Chan_waiter | Chan_block | Chan_closed

text \<open>
  A waiting operation: its number, its cancellation key and, for a send, its payload.
\<close>

datatype 'a chan_op = Send_op nat nat 'a | Receive_op nat nat

fun op_key :: "'a chan_op \<Rightarrow> nat" where
  "op_key (Send_op n key v) = key"
| "op_key (Receive_op n key) = key"

text \<open>The completions of operations.\<close>

datatype 'a chan_event =
    Send_complete nat
  | Send_cancelled nat
  | Send_closed nat
  | Receive_complete nat 'a
  | Receive_closed nat
  | Receive_cancelled nat

record 'a chan =
  receive_state :: chan_state
  send_state :: chan_state
  max_buffer_size :: nat
  waiters :: "'a chan_op list"
  chan_buffer :: "'a list"

definition chan_construct :: "nat \<Rightarrow> 'a chan" where
  "chan_construct max_size =
     \<lparr> receive_state = Chan_block,
       send_state = (if max_size \<noteq> 0 then Chan_buffer else Chan_block),
       max_buffer_size = max_size, waiters = [], chan_buffer = [] \<rparr>"

section \<open>The buffer\<close>

definition buffer_push :: "'a \<Rightarrow> 'a chan \<Rightarrow> 'a chan" where
  "buffer_push v c = c\<lparr>chan_buffer := chan_buffer c @ [v]\<rparr>"

fun buffer_push_n_loop :: "nat \<Rightarrow> nat \<Rightarrow> nat \<Rightarrow> 'a \<Rightarrow> 'a list \<Rightarrow> nat \<times> 'a list" where
  "buffer_push_n_loop 0 i mx v buf = (i, buf)"
| "buffer_push_n_loop (Suc n) i mx v buf =
     (if length buf < mx then buffer_push_n_loop n (i + 1) mx v (buf @ [v]) else (i, buf))"

definition buffer_push_n :: "nat \<Rightarrow> 'a \<Rightarrow> 'a chan \<Rightarrow> nat \<times> 'a chan" where
  "buffer_push_n cnt v c =
     (let (i, buf) = buffer_push_n_loop cnt 0 (max_buffer_size c) v (chan_buffer c)
      in (i, c\<lparr>chan_buffer := buf\<rparr>))"

definition buffer_pop :: "'a chan \<Rightarrow> 'a chan" where
  "buffer_pop c = c\<lparr>chan_buffer := tl (chan_buffer c)\<rparr>"

definition buffer_clear :: "'a chan \<Rightarrow> 'a chan" where
  "buffer_clear c = c\<lparr>chan_buffer := []\<rparr>"

text \<open>
  The specialisation for messages without arguments only counts: \<open>buffer_\<close> is a number.
\<close>

definition count_push_n :: "nat \<Rightarrow> nat \<Rightarrow> nat \<Rightarrow> nat \<times> nat" where
  "count_push_n cnt mx buf =
     (let available = mx - buf; cnt = (if cnt < available then cnt else available)
      in (cnt, buf + cnt))"

section \<open>Operations\<close>

definition chan_capacity :: "'a chan \<Rightarrow> nat" where
  "chan_capacity c = max_buffer_size c"

definition chan_is_open :: "'a chan \<Rightarrow> bool" where
  "chan_is_open c \<longleftrightarrow> send_state c \<noteq> Chan_closed"

definition chan_ready :: "'a chan \<Rightarrow> bool" where
  "chan_ready c \<longleftrightarrow> receive_state c \<noteq> Chan_block"

text \<open>The state a channel without waiting receives can send in.\<close>

definition chan_idle_state :: "'a chan \<Rightarrow> chan_state" where
  "chan_idle_state c = (if max_buffer_size c \<noteq> 0 then Chan_buffer else Chan_block)"

text \<open>The loop of \<open>cancel\<close>: every waiter is taken for a send in state \<open>block\<close>, for a receive
  otherwise.\<close>

definition cancel_op :: "chan_state \<Rightarrow> 'a chan_op \<Rightarrow> 'a chan_event option" where
  "cancel_op state opn =
     (if state = Chan_block
      then (case opn of Send_op n key v \<Rightarrow> Some (Send_cancelled n) | Receive_op n key \<Rightarrow> None)
      else (case opn of Receive_op n key \<Rightarrow> Some (Receive_cancelled n) | Send_op n key v \<Rightarrow> None))"

fun cancel_waiters :: "chan_state \<Rightarrow> 'a chan_op list \<Rightarrow> 'a chan_event list option" where
  "cancel_waiters state [] = Some []"
| "cancel_waiters state (opn # opns) =
     (case cancel_op state opn of
        None \<Rightarrow> None
      | Some e \<Rightarrow> (case cancel_waiters state opns of None \<Rightarrow> None | Some es \<Rightarrow> Some (e # es)))"

definition cancel_states :: "'a chan \<Rightarrow> 'a chan" where
  "cancel_states c =
     (let c = (if receive_state c = Chan_waiter then c\<lparr>receive_state := Chan_block\<rparr> else c)
      in if send_state c = Chan_waiter then c\<lparr>send_state := Chan_block\<rparr> else c)"

definition chan_cancel :: "'a chan \<Rightarrow> ('a chan \<times> 'a chan_event list) option" where
  "chan_cancel c =
     (case cancel_waiters (send_state c) (waiters c) of
        None \<Rightarrow> None
      | Some es \<Rightarrow> Some (cancel_states (c\<lparr>waiters := []\<rparr>), es))"

text \<open>The loop of \<open>cancel_by_key\<close>: the waiters with the key are cancelled, the others kept in
  order.\<close>

fun cancel_key_waiters ::
    "nat \<Rightarrow> chan_state \<Rightarrow> 'a chan_op list \<Rightarrow> 'a chan_op list \<Rightarrow> 'a chan_event list \<Rightarrow>
     ('a chan_op list \<times> 'a chan_event list) option" where
  "cancel_key_waiters key state [] other_ops es = Some (other_ops, es)"
| "cancel_key_waiters key state (opn # opns) other_ops es =
     (if op_key opn = key
      then (case cancel_op state opn of
              None \<Rightarrow> None
            | Some e \<Rightarrow> cancel_key_waiters key state opns other_ops (es @ [e]))
      else cancel_key_waiters key state opns (other_ops @ [opn]) es)"

definition chan_cancel_by_key :: "nat \<Rightarrow> 'a chan \<Rightarrow> ('a chan \<times> 'a chan_event list) option" where
  "chan_cancel_by_key key c =
     (case cancel_key_waiters key (send_state c) (waiters c) [] [] of
        None \<Rightarrow> None
      | Some (other_ops, es) \<Rightarrow>
          (let c = c\<lparr>waiters := other_ops\<rparr>
           in Some (if waiters c = [] then cancel_states c else c, es)))"

text \<open>\<open>close\<close>: only in receive state \<open>block\<close> are the waiters completed, as receives.\<close>

fun close_waiters :: "'a chan_op list \<Rightarrow> 'a chan_event list option" where
  "close_waiters [] = Some []"
| "close_waiters (opn # opns) =
     (case opn of
        Send_op n key v \<Rightarrow> None
      | Receive_op n key \<Rightarrow>
          (case close_waiters opns of None \<Rightarrow> None | Some es \<Rightarrow> Some (Receive_closed n # es)))"

definition chan_close :: "'a chan \<Rightarrow> ('a chan \<times> 'a chan_event list) option" where
  "chan_close c =
     (if receive_state c = Chan_block
      then (case close_waiters (waiters c) of
              None \<Rightarrow> None
            | Some es \<Rightarrow>
                Some (c\<lparr>waiters := [], send_state := Chan_closed, receive_state := Chan_closed\<rparr>, es))
      else Some (c\<lparr>send_state := Chan_closed, receive_state := Chan_closed\<rparr>, []))"

definition chan_reset :: "'a chan \<Rightarrow> ('a chan \<times> 'a chan_event list) option" where
  "chan_reset c =
     (case chan_cancel c of
        None \<Rightarrow> None
      | Some (c, es) \<Rightarrow>
          (let c = (if receive_state c = Chan_closed then c\<lparr>receive_state := Chan_block\<rparr> else c);
               c = (if send_state c = Chan_closed then c\<lparr>send_state := chan_idle_state c\<rparr> else c)
           in Some (buffer_clear c, es)))"

text \<open>
  \<open>move_construct\<close>: the new channel and the old one. The waiters are not moved; the new
  channel's queue is the fresh, empty one.
\<close>

definition chan_move_construct :: "'a chan \<Rightarrow> 'a chan \<times> 'a chan" where
  "chan_move_construct other =
     (\<lparr> receive_state = receive_state other, send_state = send_state other,
        max_buffer_size = max_buffer_size other, waiters = [], chan_buffer = chan_buffer other \<rparr>,
      other\<lparr>receive_state := Chan_block, send_state := chan_idle_state other, chan_buffer := []\<rparr>)"

definition chan_move_assign ::
    "'a chan \<Rightarrow> 'a chan \<Rightarrow> ('a chan \<times> 'a chan \<times> 'a chan_event list) option" where
  "chan_move_assign this other =
     (case chan_cancel this of
        None \<Rightarrow> None
      | Some (c, es) \<Rightarrow>
          Some (c\<lparr>max_buffer_size := max_buffer_size other, receive_state := receive_state other,
                  send_state := send_state other, chan_buffer := chan_buffer other\<rparr>,
                other\<lparr>receive_state := Chan_block, send_state := chan_idle_state other,
                      chan_buffer := []\<rparr>, es))"

text \<open>\<open>destroy\<close> cancels what is waiting.\<close>

definition chan_destroy :: "'a chan \<Rightarrow> 'a chan_event list option" where
  "chan_destroy c = map_option snd (chan_cancel c)"

text \<open>Sending to the receive that waits first.\<close>

definition send_to_waiter :: "'a \<Rightarrow> 'a chan \<Rightarrow> ('a chan \<times> 'a chan_event list) option" where
  "send_to_waiter v c =
     (case waiters c of
        Receive_op n key # rest \<Rightarrow>
          (let c = c\<lparr>waiters := rest\<rparr>
           in Some (if waiters c = [] then c\<lparr>send_state := chan_idle_state c\<rparr> else c,
                    [Receive_complete n v]))
      | _ \<Rightarrow> None)"

definition send_to_buffer :: "'a \<Rightarrow> 'a chan \<Rightarrow> 'a chan" where
  "send_to_buffer v c =
     (let c = (buffer_push v c)\<lparr>receive_state := Chan_buffer\<rparr>
      in if length (chan_buffer c) = max_buffer_size c then c\<lparr>send_state := Chan_block\<rparr> else c)"

definition try_send :: "'a \<Rightarrow> 'a chan \<Rightarrow> ('a chan \<times> 'a chan_event list \<times> bool) option" where
  "try_send v c =
     (case send_state c of
        Chan_block \<Rightarrow> Some (c, [], False)
      | Chan_buffer \<Rightarrow> Some (send_to_buffer v c, [], True)
      | Chan_waiter \<Rightarrow> map_option (\<lambda>(c, es). (c, es, True)) (send_to_waiter v c)
      | Chan_closed \<Rightarrow> Some (c, [], False))"

text \<open>The loop of \<open>try_send_n\<close>, \<open>i\<close> messages being sent.\<close>

function try_send_n_loop ::
    "nat \<Rightarrow> 'a \<Rightarrow> nat \<Rightarrow> 'a chan \<Rightarrow> 'a chan_event list \<Rightarrow>
     ('a chan \<times> 'a chan_event list \<times> nat) option" where
  "try_send_n_loop cnt v i c es =
     (if i < cnt then
        (case send_state c of
           Chan_block \<Rightarrow> Some (c, es, i)
         | Chan_buffer \<Rightarrow>
             (let (k, c) = buffer_push_n (cnt - i) v c;
                  c = c\<lparr>receive_state := Chan_buffer\<rparr>;
                  c = (if length (chan_buffer c) = max_buffer_size c
                       then c\<lparr>send_state := Chan_block\<rparr> else c)
              in Some (c, es, i + k))
         | Chan_waiter \<Rightarrow>
             (case send_to_waiter v c of
                None \<Rightarrow> None
              | Some (c, es') \<Rightarrow> try_send_n_loop cnt v (i + 1) c (es @ es'))
         | Chan_closed \<Rightarrow> Some (c, es, i))
      else Some (c, es, cnt))"
  by pat_completeness auto

termination by (relation "measure (\<lambda>(cnt, v, i, c, es). cnt - i)") auto

definition try_send_n :: "nat \<Rightarrow> 'a \<Rightarrow> 'a chan \<Rightarrow> ('a chan \<times> 'a chan_event list \<times> nat) option" where
  "try_send_n cnt v c =
     (if cnt = 0 then Some (c, [], 0)
      else case send_state c of
        Chan_block \<Rightarrow> Some (c, [], 0)
      | Chan_closed \<Rightarrow> Some (c, [], 0)
      | _ \<Rightarrow> try_send_n_loop cnt v 0 c [])"

definition start_send_op :: "nat \<Rightarrow> nat \<Rightarrow> 'a \<Rightarrow> 'a chan \<Rightarrow> ('a chan \<times> 'a chan_event list) option" where
  "start_send_op n key v c =
     (case send_state c of
        Chan_block \<Rightarrow>
          (let c = c\<lparr>waiters := waiters c @ [Send_op n key v]\<rparr>
           in Some (if receive_state c = Chan_block then c\<lparr>receive_state := Chan_waiter\<rparr> else c, []))
      | Chan_buffer \<Rightarrow> Some (send_to_buffer v c, [Send_complete n])
      | Chan_waiter \<Rightarrow> map_option (\<lambda>(c, es). (c, es @ [Send_complete n])) (send_to_waiter v c)
      | Chan_closed \<Rightarrow> Some (c, [Send_closed n]))"

text \<open>
  Receiving in state \<open>buffer\<close>, after the front message has been taken: a waiting send moves its
  message into the buffer. And in state \<open>waiter\<close>, from the send that waits first.
\<close>

definition refill_buffer :: "'a chan \<Rightarrow> ('a chan \<times> 'a chan_event list) option" where
  "refill_buffer c =
     (case waiters c of
        Send_op n key v # rest \<Rightarrow>
          Some ((buffer_push v (buffer_pop c))\<lparr>waiters := rest\<rparr>, [Send_complete n])
      | Receive_op n key # rest \<Rightarrow> None
      | [] \<Rightarrow>
          (let c = buffer_pop c;
               c = (if chan_buffer c = []
                    then c\<lparr>receive_state := (if send_state c = Chan_closed then Chan_closed
                                             else Chan_block)\<rparr>
                    else c)
           in Some (c\<lparr>send_state := (if send_state c = Chan_closed then Chan_closed
                                     else Chan_buffer)\<rparr>, [])))"

definition receive_from_buffer :: "'a chan \<Rightarrow> ('a chan \<times> 'a chan_event list \<times> 'a) option" where
  "receive_from_buffer c =
     (case chan_buffer c of
        [] \<Rightarrow> None
      | v # vs \<Rightarrow> map_option (\<lambda>(c, es). (c, es, v)) (refill_buffer c))"

definition receive_from_waiter :: "'a chan \<Rightarrow> ('a chan \<times> 'a chan_event list \<times> 'a) option" where
  "receive_from_waiter c =
     (case waiters c of
        Send_op n key v # rest \<Rightarrow>
          (let c = c\<lparr>waiters := rest\<rparr>
           in Some (if waiters c = []
                    then c\<lparr>receive_state := (if send_state c = Chan_closed then Chan_closed
                                             else Chan_block)\<rparr>
                    else c, [Send_complete n], v))
      | _ \<Rightarrow> None)"

text \<open>\<open>try_receive\<close>: the message its handler is called with, if it succeeds.\<close>

definition try_receive :: "'a chan \<Rightarrow> ('a chan \<times> 'a chan_event list \<times> 'a option) option" where
  "try_receive c =
     (case receive_state c of
        Chan_block \<Rightarrow> Some (c, [], None)
      | Chan_buffer \<Rightarrow> map_option (\<lambda>(c, es, v). (c, es, Some v)) (receive_from_buffer c)
      | Chan_waiter \<Rightarrow> map_option (\<lambda>(c, es, v). (c, es, Some v)) (receive_from_waiter c)
      | Chan_closed \<Rightarrow> Some (c, [], None))"

definition start_receive_op :: "nat \<Rightarrow> nat \<Rightarrow> 'a chan \<Rightarrow> ('a chan \<times> 'a chan_event list) option" where
  "start_receive_op n key c =
     (case receive_state c of
        Chan_block \<Rightarrow>
          (let c = c\<lparr>waiters := waiters c @ [Receive_op n key]\<rparr>
           in Some (if send_state c \<noteq> Chan_closed then c\<lparr>send_state := Chan_waiter\<rparr> else c, []))
      | Chan_buffer \<Rightarrow>
          map_option (\<lambda>(c, es, v). (c, Receive_complete n v # es)) (receive_from_buffer c)
      | Chan_waiter \<Rightarrow>
          map_option (\<lambda>(c, es, v). (c, es @ [Receive_complete n v])) (receive_from_waiter c)
      | Chan_closed \<Rightarrow> Some (c, [Receive_closed n]))"

end
