(* ===== verification/ChannelProps.thy ===== *)
theory ChannelProps
  imports Channel "HOL-Library.Sublist"
begin

text \<open>
  Channels as queues: the invariant that ties the two states of a channel to its buffer and its
  waiters, what each operation does to the sequence of messages in the channel, and runs of
  operations.
\<close>

section \<open>The messages in a channel\<close>

fun op_payload :: "'a chan_op \<Rightarrow> 'a list" where
  "op_payload (Send_op n key v) = [v]"
| "op_payload (Receive_op n key) = []"

fun is_send :: "'a chan_op \<Rightarrow> bool" where
  "is_send (Send_op n key v) \<longleftrightarrow> True"
| "is_send (Receive_op n key) \<longleftrightarrow> False"

text \<open>In order: the buffer, then what the waiting sends hold.\<close>

definition chan_messages :: "'a chan \<Rightarrow> 'a list" where
  "chan_messages c = chan_buffer c @ concat (map op_payload (waiters c))"

fun event_payload :: "'a chan_event \<Rightarrow> 'a list" where
  "event_payload (Receive_complete n v) = [v]"
| "event_payload _ = []"

definition delivered :: "'a chan_event list \<Rightarrow> 'a list" where
  "delivered es = concat (map event_payload es)"

lemma delivered_simps [simp]:
  "delivered [] = []" "delivered (e # es) = event_payload e @ delivered es"
  "delivered (es @ es') = delivered es @ delivered es'"
  by (simp_all add: delivered_def)

definition chan_inv :: "'a chan \<Rightarrow> bool" where
  "chan_inv c \<longleftrightarrow>
     (case (receive_state c, send_state c) of
        (Chan_block, Chan_waiter) \<Rightarrow>
          chan_buffer c = [] \<and> waiters c \<noteq> [] \<and> (\<forall>opn \<in> set (waiters c). \<not> is_send opn)
      | (Chan_waiter, Chan_block) \<Rightarrow>
          chan_buffer c = [] \<and> waiters c \<noteq> [] \<and> (\<forall>opn \<in> set (waiters c). is_send opn)
      | (Chan_buffer, Chan_buffer) \<Rightarrow>
          chan_buffer c \<noteq> [] \<and> length (chan_buffer c) < max_buffer_size c \<and> waiters c = []
      | (Chan_buffer, Chan_block) \<Rightarrow>
          chan_buffer c \<noteq> [] \<and> length (chan_buffer c) = max_buffer_size c \<and>
          (\<forall>opn \<in> set (waiters c). is_send opn)
      | (Chan_block, Chan_buffer) \<Rightarrow> chan_buffer c = [] \<and> waiters c = [] \<and> 0 < max_buffer_size c
      | (Chan_block, Chan_block) \<Rightarrow> chan_buffer c = [] \<and> waiters c = []
      | _ \<Rightarrow> False)"

lemma chan_inv_cases:
  assumes "chan_inv c"
  obtains
    (receivers) "receive_state c = Chan_block" "send_state c = Chan_waiter" "chan_buffer c = []"
      "waiters c \<noteq> []" "\<forall>opn \<in> set (waiters c). \<not> is_send opn"
  | (senders) "receive_state c = Chan_waiter" "send_state c = Chan_block" "chan_buffer c = []"
      "waiters c \<noteq> []" "\<forall>opn \<in> set (waiters c). is_send opn"
  | (some) "receive_state c = Chan_buffer" "send_state c = Chan_buffer" "chan_buffer c \<noteq> []"
      "length (chan_buffer c) < max_buffer_size c" "waiters c = []"
  | (full) "receive_state c = Chan_buffer" "send_state c = Chan_block" "chan_buffer c \<noteq> []"
      "length (chan_buffer c) = max_buffer_size c" "\<forall>opn \<in> set (waiters c). is_send opn"
  | (empty) "receive_state c = Chan_block" "send_state c = Chan_buffer" "chan_buffer c = []"
      "waiters c = []" "0 < max_buffer_size c"
  | (idle) "receive_state c = Chan_block" "send_state c = Chan_block" "chan_buffer c = []"
      "waiters c = []"
  using assms unfolding chan_inv_def
  by (cases "receive_state c"; cases "send_state c") auto

lemma chan_inv_capacity: "chan_inv c \<Longrightarrow> length (chan_buffer c) \<le> max_buffer_size c"
  by (erule chan_inv_cases) auto

lemma chan_construct_inv: "chan_inv (chan_construct mx)" "chan_messages (chan_construct mx) = []"
  by (simp_all add: chan_inv_def chan_construct_def chan_messages_def)

lemma no_send_no_payload:
  "\<forall>opn \<in> set opns. \<not> is_send opn \<Longrightarrow> concat (map op_payload opns) = []"
proof (induction opns)
  case (Cons opn opns)
  then show ?case by (cases opn) auto
qed simp

lemma send_front:
  assumes "opns \<noteq> []" "\<forall>opn \<in> set opns. is_send opn"
  obtains n key v rest where "opns = Send_op n key v # rest" "\<forall>opn \<in> set rest. is_send opn"
  using assms by (cases opns; cases "hd opns") auto

lemma receive_front:
  assumes "opns \<noteq> []" "\<forall>opn \<in> set opns. \<not> is_send opn"
  obtains n key rest where "opns = Receive_op n key # rest" "\<forall>opn \<in> set rest. \<not> is_send opn"
  using assms by (cases opns; cases "hd opns") auto

section \<open>Sending\<close>

lemma send_to_waiter_ok:
  assumes "chan_inv c" "send_state c = Chan_waiter"
  obtains c' n where "send_to_waiter v c = Some (c', [Receive_complete n v])" "chan_inv c'"
    "chan_messages c' = []" "chan_messages c = []" "max_buffer_size c' = max_buffer_size c"
    "send_state c' \<noteq> Chan_closed"
proof -
  from assms have s: "receive_state c = Chan_block" "chan_buffer c = []" "waiters c \<noteq> []"
    "\<forall>opn \<in> set (waiters c). \<not> is_send opn"
    by (auto elim: chan_inv_cases)
  from receive_front [OF s(3,4)] obtain n key rest where
    w: "waiters c = Receive_op n key # rest" "\<forall>opn \<in> set rest. \<not> is_send opn" by metis
  let ?c = "c\<lparr>waiters := rest\<rparr>"
  let ?c' = "if rest = [] then ?c\<lparr>send_state := chan_idle_state ?c\<rparr> else ?c"
  have "send_to_waiter v c = Some (?c', [Receive_complete n v])"
    by (simp add: send_to_waiter_def w(1) Let_def)
  moreover have "chan_inv ?c'"
    using s w assms(2) by (auto simp: chan_inv_def chan_idle_state_def)
  ultimately show ?thesis
    using s w no_send_no_payload [OF w(2)] no_send_no_payload [OF s(4)] assms(2)
    by (intro that [of ?c' n]) (auto simp: chan_messages_def chan_idle_state_def)
qed

lemma send_to_buffer_ok:
  assumes "chan_inv c" "send_state c = Chan_buffer"
  shows "chan_inv (send_to_buffer v c)" "chan_messages (send_to_buffer v c) = chan_messages c @ [v]"
    "max_buffer_size (send_to_buffer v c) = max_buffer_size c"
  using assms
  by (auto simp: send_to_buffer_def buffer_push_def chan_inv_def chan_messages_def Let_def
      split: chan_state.splits)

lemma try_send_ok:
  assumes inv: "chan_inv c"
  obtains c' es ok where "try_send v c = Some (c', es, ok)" "chan_inv c'"
    "delivered es @ chan_messages c' = chan_messages c @ (if ok then [v] else [])"
    "ok \<longleftrightarrow> send_state c \<noteq> Chan_block"
proof (cases "send_state c")
  case Chan_buffer
  then show ?thesis
    using send_to_buffer_ok [OF inv Chan_buffer, of v]
    by (intro that [of "send_to_buffer v c" "[]" True]) (simp_all add: try_send_def)
next
  case Chan_waiter
  obtain c' n where "send_to_waiter v c = Some (c', [Receive_complete n v])" "chan_inv c'"
    "chan_messages c' = []" "chan_messages c = []"
    using send_to_waiter_ok [OF inv Chan_waiter] by metis
  then show ?thesis
    using Chan_waiter by (intro that [of c' "[Receive_complete n v]" True]) (simp_all add: try_send_def)
next
  case Chan_block
  then show ?thesis using inv by (intro that [of c "[]" False]) (simp_all add: try_send_def)
next
  case Chan_closed
  then show ?thesis using inv by (auto elim: chan_inv_cases)
qed

lemma buffer_push_n_loop:
  "buffer_push_n_loop n i mx v buf = (k, buf') \<Longrightarrow> length buf \<le> mx \<Longrightarrow>
   k = i + min n (mx - length buf) \<and> buf' = buf @ replicate (k - i) v"
proof (induction n arbitrary: i buf)
  case (Suc n)
  show ?case
  proof (cases "length buf < mx")
    case True
    with Suc.prems have "buffer_push_n_loop n (i + 1) mx v (buf @ [v]) = (k, buf')" by simp
    from Suc.IH [OF this] True have *: "k = i + 1 + min n (mx - length (buf @ [v]))"
      "buf' = (buf @ [v]) @ replicate (k - (i + 1)) v" by auto
    from * True have "k = i + min (Suc n) (mx - length buf)" by auto
    moreover have "replicate (k - i) v = v # replicate (k - (i + 1)) v"
      using *(1) by (simp add: Suc_diff_Suc flip: replicate_Suc)
    ultimately show ?thesis using *(2) by simp
  qed (use Suc.prems in auto)
qed auto

lemma buffer_push_n_ok:
  assumes inv: "chan_inv c" and s: "send_state c = Chan_buffer" and n: "0 < n"
    and p: "buffer_push_n n v c = (k, c1)"
  defines "c2 \<equiv> c1\<lparr>receive_state := Chan_buffer\<rparr>"
  defines "c3 \<equiv> if length (chan_buffer c2) = max_buffer_size c2 then c2\<lparr>send_state := Chan_block\<rparr> else c2"
  shows "chan_inv c3" "chan_messages c3 = chan_messages c @ replicate k v" "k \<le> n" "0 < k"
proof -
  have len: "length (chan_buffer c) < max_buffer_size c" and w: "waiters c = []"
    using inv s by (auto elim: chan_inv_cases)
  obtain buf where b: "buffer_push_n_loop n 0 (max_buffer_size c) v (chan_buffer c) = (k, buf)"
    and c1: "c1 = c\<lparr>chan_buffer := buf\<rparr>"
    using p by (auto simp: buffer_push_n_def Let_def split: prod.splits)
  from buffer_push_n_loop [OF b] len have k: "k = min n (max_buffer_size c - length (chan_buffer c))"
    and buf: "buf = chan_buffer c @ replicate k v" by auto
  show "k \<le> n" "0 < k" using k n len by auto
  then show "chan_inv c3" "chan_messages c3 = chan_messages c @ replicate k v"
    using k buf s w len
    by (auto simp: c3_def c2_def c1 chan_inv_def chan_messages_def)
qed

lemma try_send_n_loop_ok:
  "chan_inv c \<Longrightarrow> i \<le> n \<Longrightarrow> \<exists>c' es' k. try_send_n_loop n v i c es = Some (c', es @ es', k) \<and>
     chan_inv c' \<and> i \<le> k \<and> k \<le> n \<and>
     delivered es' @ chan_messages c' = chan_messages c @ replicate (k - i) v"
proof (induction n v i c es rule: try_send_n_loop.induct)
  case (1 n v i c es)
  note inv = \<open>chan_inv c\<close>
  show ?case
  proof (cases "i < n")
    case less: True
    show ?thesis
    proof (cases "send_state c")
      case Chan_buffer
      obtain k c1 where p: "buffer_push_n (n - i) v c = (k, c1)" by (cases "buffer_push_n (n - i) v c")
      from buffer_push_n_ok [OF inv Chan_buffer _ p] less
      have "chan_inv (if length (chan_buffer c1) = max_buffer_size c1
          then c1\<lparr>receive_state := Chan_buffer, send_state := Chan_block\<rparr>
          else c1\<lparr>receive_state := Chan_buffer\<rparr>)"
        "chan_messages (if length (chan_buffer c1) = max_buffer_size c1
          then c1\<lparr>receive_state := Chan_buffer, send_state := Chan_block\<rparr>
          else c1\<lparr>receive_state := Chan_buffer\<rparr>) = chan_messages c @ replicate k v" "k \<le> n - i"
        by auto
      then show ?thesis using Chan_buffer less p
        by (auto simp: Let_def intro!: exI [of _ "[]"])
    next
      case Chan_waiter
      obtain c1 m where s: "send_to_waiter v c = Some (c1, [Receive_complete m v])" "chan_inv c1"
        "chan_messages c1 = []" "chan_messages c = []"
        using send_to_waiter_ok [OF inv Chan_waiter] by metis
      from "1.IH" [OF less Chan_waiter s(1) refl s(2)] less
      obtain c' es' k where r: "try_send_n_loop n v (i + 1) c1 (es @ [Receive_complete m v]) =
          Some (c', (es @ [Receive_complete m v]) @ es', k)" "chan_inv c'" "i + 1 \<le> k" "k \<le> n"
        "delivered es' @ chan_messages c' = chan_messages c1 @ replicate (k - (i + 1)) v"
        by auto
      have "replicate (k - i) v = v # replicate (k - (i + 1)) v"
        using r(3) by (simp add: Suc_diff_Suc flip: replicate_Suc)
      then show ?thesis
        using r s less Chan_waiter
        by (intro exI [of _ c'] exI [of _ "Receive_complete m v # es'"] exI [of _ k]) simp
    next
      case Chan_block
      then show ?thesis using less inv by (intro exI [of _ c] exI [of _ "[]"] exI [of _ i]) simp
    next
      case Chan_closed
      then show ?thesis using inv by (auto elim: chan_inv_cases)
    qed
  next
    case False
    then have "i = n" using 1 by simp
    then show ?thesis using inv by (intro exI [of _ c] exI [of _ "[]"] exI [of _ n]) simp
  qed
qed

lemma try_send_n_ok:
  assumes inv: "chan_inv c"
  obtains c' es k where "try_send_n n v c = Some (c', es, k)" "chan_inv c'" "k \<le> n"
    "delivered es @ chan_messages c' = chan_messages c @ replicate k v"
proof (cases "n = 0 \<or> send_state c = Chan_block")
  case True
  then show ?thesis using inv by (intro that [of c "[]" 0]) (auto simp: try_send_n_def)
next
  case False
  have "send_state c \<noteq> Chan_closed" using inv by (auto elim: chan_inv_cases)
  with False have "try_send_n n v c = try_send_n_loop n v 0 c []"
    by (auto simp: try_send_n_def split: chan_state.splits simp del: try_send_n_loop.simps)
  with try_send_n_loop_ok [OF inv, of 0 n v "[]"] that show ?thesis by auto
qed

lemma start_send_ok:
  assumes inv: "chan_inv c"
  obtains c' es where "start_send_op n key v c = Some (c', es)" "chan_inv c'"
    "delivered es @ chan_messages c' = chan_messages c @ [v]"
proof (cases "send_state c")
  case Chan_buffer
  then show ?thesis
    using send_to_buffer_ok [OF inv Chan_buffer, of v]
    by (intro that [of "send_to_buffer v c" "[Send_complete n]"]) (simp_all add: start_send_op_def)
next
  case Chan_waiter
  obtain c' m where "send_to_waiter v c = Some (c', [Receive_complete m v])" "chan_inv c'"
    "chan_messages c' = []" "chan_messages c = []"
    using send_to_waiter_ok [OF inv Chan_waiter] by metis
  then show ?thesis
    using Chan_waiter
    by (intro that [of c' "[Receive_complete m v, Send_complete n]"]) (simp_all add: start_send_op_def)
next
  case Chan_block
  let ?c = "c\<lparr>waiters := waiters c @ [Send_op n key v]\<rparr>"
  let ?c' = "if receive_state ?c = Chan_block then ?c\<lparr>receive_state := Chan_waiter\<rparr> else ?c"
  have "start_send_op n key v c = Some (?c', [])" using Chan_block by (simp add: start_send_op_def Let_def)
  moreover have "chan_inv ?c'"
    using inv Chan_block by (cases rule: chan_inv_cases) (auto simp: chan_inv_def)
  ultimately show ?thesis by (intro that [of ?c' "[]"]) (simp_all add: chan_messages_def)
next
  case Chan_closed
  then show ?thesis using inv by (auto elim: chan_inv_cases)
qed

section \<open>Receiving\<close>

lemma receive_from_buffer_ok:
  assumes inv: "chan_inv c" and s: "receive_state c = Chan_buffer"
  obtains c' es v where "receive_from_buffer c = Some (c', es, v)" "chan_inv c'"
    "delivered es = []" "chan_messages c = v # chan_messages c'"
proof -
  from inv s have st: "send_state c \<noteq> Chan_closed" "chan_buffer c \<noteq> []"
    "\<forall>opn \<in> set (waiters c). is_send opn"
    by (auto elim: chan_inv_cases)
  then obtain v vs where b: "chan_buffer c = v # vs" by (cases "chan_buffer c") auto
  show ?thesis
  proof (cases "waiters c = []")
    case True
    let ?c = "buffer_pop c"
    let ?c1 = "if chan_buffer ?c = [] then ?c\<lparr>receive_state := Chan_block\<rparr> else ?c"
    let ?c' = "?c1\<lparr>send_state := Chan_buffer\<rparr>"
    have "receive_from_buffer c = Some (?c', [], v)"
      using b True st by (simp add: receive_from_buffer_def refill_buffer_def Let_def buffer_pop_def)
    moreover have "chan_inv ?c'"
      using inv s b True by (cases rule: chan_inv_cases) (auto simp: chan_inv_def buffer_pop_def)
    ultimately show ?thesis
      using b True by (intro that [of ?c' "[]" v]) (simp_all add: chan_messages_def buffer_pop_def)
  next
    case False
    from send_front [OF False st(3)] obtain n key w rest where
      wt: "waiters c = Send_op n key w # rest" "\<forall>opn \<in> set rest. is_send opn" by metis
    let ?c' = "(buffer_push w (buffer_pop c))\<lparr>waiters := rest\<rparr>"
    have "receive_from_buffer c = Some (?c', [Send_complete n], v)"
      using b wt by (simp add: receive_from_buffer_def refill_buffer_def)
    moreover have "chan_inv ?c'"
      using inv s b wt
      by (cases rule: chan_inv_cases) (auto simp: chan_inv_def buffer_pop_def buffer_push_def)
    ultimately show ?thesis
      using b wt
      by (intro that [of ?c' "[Send_complete n]" v])
        (simp_all add: chan_messages_def buffer_pop_def buffer_push_def)
  qed
qed

lemma receive_from_waiter_ok:
  assumes inv: "chan_inv c" and s: "receive_state c = Chan_waiter"
  obtains c' es v where "receive_from_waiter c = Some (c', es, v)" "chan_inv c'"
    "delivered es = []" "chan_messages c = v # chan_messages c'"
proof -
  from inv s have st: "send_state c = Chan_block" "chan_buffer c = []" "waiters c \<noteq> []"
    "\<forall>opn \<in> set (waiters c). is_send opn"
    by (auto elim: chan_inv_cases)
  from send_front [OF st(3,4)] obtain n key v rest where
    wt: "waiters c = Send_op n key v # rest" "\<forall>opn \<in> set rest. is_send opn" by metis
  let ?c = "c\<lparr>waiters := rest\<rparr>"
  let ?c' = "if rest = [] then ?c\<lparr>receive_state := Chan_block\<rparr> else ?c"
  have "receive_from_waiter c = Some (?c', [Send_complete n], v)"
    using wt st by (simp add: receive_from_waiter_def Let_def)
  moreover have "chan_inv ?c'" using st wt s by (auto simp: chan_inv_def)
  ultimately show ?thesis
    using wt st by (intro that [of ?c' "[Send_complete n]" v]) (simp_all add: chan_messages_def)
qed

lemma inv_block_empty: "chan_inv c \<Longrightarrow> receive_state c = Chan_block \<Longrightarrow> chan_messages c = []"
  using no_send_no_payload by (auto elim!: chan_inv_cases simp: chan_messages_def)

lemma try_receive_ok:
  assumes inv: "chan_inv c"
  obtains c' es r where "try_receive c = Some (c', es, r)" "chan_inv c'" "delivered es = []"
    "chan_messages c = (case r of None \<Rightarrow> [] | Some v \<Rightarrow> v # chan_messages c')"
    "r = None \<Longrightarrow> c' = c"
proof (cases "receive_state c")
  case Chan_buffer
  obtain c' es v where "receive_from_buffer c = Some (c', es, v)" "chan_inv c'"
    "delivered es = []" "chan_messages c = v # chan_messages c'"
    using receive_from_buffer_ok [OF inv Chan_buffer] by metis
  then show ?thesis using Chan_buffer by (intro that [of c' es "Some v"]) (simp_all add: try_receive_def)
next
  case Chan_waiter
  obtain c' es v where "receive_from_waiter c = Some (c', es, v)" "chan_inv c'"
    "delivered es = []" "chan_messages c = v # chan_messages c'"
    using receive_from_waiter_ok [OF inv Chan_waiter] by metis
  then show ?thesis using Chan_waiter by (intro that [of c' es "Some v"]) (simp_all add: try_receive_def)
next
  case Chan_block
  then show ?thesis
    using inv inv_block_empty by (intro that [of c "[]" None]) (simp_all add: try_receive_def)
next
  case Chan_closed
  then show ?thesis using inv by (auto elim: chan_inv_cases)
qed

lemma start_receive_ok:
  assumes inv: "chan_inv c"
  obtains c' es where "start_receive_op n key c = Some (c', es)" "chan_inv c'"
    "delivered es @ chan_messages c' = chan_messages c"
    "chan_messages c \<noteq> [] \<Longrightarrow> Receive_complete n (hd (chan_messages c)) \<in> set es"
proof (cases "receive_state c")
  case Chan_buffer
  obtain c' es v where "receive_from_buffer c = Some (c', es, v)" "chan_inv c'"
    "delivered es = []" "chan_messages c = v # chan_messages c'"
    using receive_from_buffer_ok [OF inv Chan_buffer] by metis
  then show ?thesis
    using Chan_buffer by (intro that [of c' "Receive_complete n v # es"]) (simp_all add: start_receive_op_def)
next
  case Chan_waiter
  obtain c' es v where "receive_from_waiter c = Some (c', es, v)" "chan_inv c'"
    "delivered es = []" "chan_messages c = v # chan_messages c'"
    using receive_from_waiter_ok [OF inv Chan_waiter] by metis
  then show ?thesis
    using Chan_waiter by (intro that [of c' "es @ [Receive_complete n v]"]) (simp_all add: start_receive_op_def)
next
  case Chan_block
  let ?c' = "c\<lparr>waiters := waiters c @ [Receive_op n key], send_state := Chan_waiter\<rparr>"
  have "send_state c \<noteq> Chan_closed" using inv by (auto elim: chan_inv_cases)
  then have "start_receive_op n key c = Some (?c', [])"
    using Chan_block by (simp add: start_receive_op_def Let_def)
  moreover have "chan_inv ?c'" using inv Chan_block by (cases rule: chan_inv_cases) (auto simp: chan_inv_def)
  ultimately show ?thesis
    using inv_block_empty [OF inv Chan_block]
    by (intro that [of ?c' "[]"]) (simp_all add: chan_messages_def)
next
  case Chan_closed
  then show ?thesis using inv by (auto elim: chan_inv_cases)
qed

section \<open>Cancelling\<close>

lemma cancel_waiters_ok:
  "(state = Chan_block \<and> (\<forall>opn \<in> set opns. is_send opn)) \<or>
   (state \<noteq> Chan_block \<and> (\<forall>opn \<in> set opns. \<not> is_send opn)) \<Longrightarrow>
   \<exists>es. cancel_waiters state opns = Some es \<and> delivered es = [] \<and> length es = length opns"
proof (induction opns)
  case (Cons opn opns)
  then obtain es where "cancel_waiters state opns = Some es" "delivered es = []"
    "length es = length opns" by auto
  with Cons.prems show ?case by (cases opn) (auto simp: cancel_op_def)
qed simp

lemma cancel_key_waiters_ok:
  "(state = Chan_block \<and> (\<forall>opn \<in> set opns. is_send opn)) \<or>
   (state \<noteq> Chan_block \<and> (\<forall>opn \<in> set opns. \<not> is_send opn)) \<Longrightarrow>
   \<exists>es'. cancel_key_waiters key state opns other es =
       Some (other @ filter (\<lambda>opn. op_key opn \<noteq> key) opns, es @ es') \<and> delivered es' = []"
proof (induction opns arbitrary: other es)
  case (Cons opn opns)
  show ?case
  proof (cases "op_key opn = key")
    case True
    obtain e where e: "cancel_op state opn = Some e" "event_payload e = []"
      using Cons.prems by (cases opn) (auto simp: cancel_op_def)
    from Cons.IH [of other "es @ [e]"] Cons.prems obtain es' where
      "cancel_key_waiters key state opns other (es @ [e]) =
         Some (other @ filter (\<lambda>opn. op_key opn \<noteq> key) opns, (es @ [e]) @ es')" "delivered es' = []"
      by auto
    then show ?thesis using True e by (intro exI [of _ "e # es'"]) simp
  next
    case False
    from Cons.IH [of "other @ [opn]" es] Cons.prems obtain es' where
      "cancel_key_waiters key state opns (other @ [opn]) es =
         Some ((other @ [opn]) @ filter (\<lambda>opn. op_key opn \<noteq> key) opns, es @ es')" "delivered es' = []"
      by auto
    then show ?thesis using False by (intro exI [of _ es']) simp
  qed
qed simp

lemma inv_waiters_kind:
  assumes "chan_inv c"
  shows "(send_state c = Chan_block \<and> (\<forall>opn \<in> set (waiters c). is_send opn)) \<or>
    (send_state c \<noteq> Chan_block \<and> (\<forall>opn \<in> set (waiters c). \<not> is_send opn))"
  using assms by (cases rule: chan_inv_cases) auto

lemma cancel_states_inv:
  assumes "chan_inv c"
  shows "chan_inv (cancel_states (c\<lparr>waiters := []\<rparr>))"
    "chan_messages (cancel_states (c\<lparr>waiters := []\<rparr>)) = chan_buffer c"
    "waiters (cancel_states (c\<lparr>waiters := []\<rparr>)) = []"
  using assms
  by (cases rule: chan_inv_cases; simp add: cancel_states_def chan_inv_def chan_messages_def)+

lemma chan_cancel_ok:
  assumes inv: "chan_inv c"
  obtains c' es where "chan_cancel c = Some (c', es)" "chan_inv c'" "delivered es = []"
    "chan_messages c' = chan_buffer c" "waiters c' = []"
proof -
  obtain es where "cancel_waiters (send_state c) (waiters c) = Some es" "delivered es = []"
    using cancel_waiters_ok [OF inv_waiters_kind [OF inv]] by blast
  then show ?thesis
    using cancel_states_inv [OF inv]
    by (intro that [of "cancel_states (c\<lparr>waiters := []\<rparr>)" es]) (simp_all add: chan_cancel_def)
qed

lemma subseq_prefix: "subseq xs (xs @ ys)"
  by (induction xs) auto

lemma subseq_payloads: "subseq (concat (map op_payload (filter P opns))) (concat (map op_payload opns))"
proof (induction opns)
  case (Cons opn opns)
  then show ?case by (cases opn) (auto intro: list_emb_append2)
qed simp

lemma chan_cancel_by_key_ok:
  assumes inv: "chan_inv c"
  obtains c' es where "chan_cancel_by_key key c = Some (c', es)" "chan_inv c'" "delivered es = []"
    "subseq (chan_messages c') (chan_messages c)"
proof -
  let ?ops = "filter (\<lambda>opn. op_key opn \<noteq> key) (waiters c)"
  let ?c = "c\<lparr>waiters := ?ops\<rparr>"
  obtain es where es: "cancel_key_waiters key (send_state c) (waiters c) [] [] = Some (?ops, es)"
    "delivered es = []"
    using cancel_key_waiters_ok [OF inv_waiters_kind [OF inv], of key "[]" "[]"] by auto
  have r: "chan_cancel_by_key key c = Some (if ?ops = [] then cancel_states ?c else ?c, es)"
    by (simp add: chan_cancel_by_key_def es Let_def)
  show ?thesis
  proof (cases "?ops = []")
    case True
    then show ?thesis
      using r es(2) cancel_states_inv [OF inv]
      by (intro that [of "cancel_states ?c" es]) (simp_all add: chan_messages_def subseq_prefix)
  next
    case False
    have "chan_inv ?c"
      using inv False by (cases rule: chan_inv_cases) (auto simp: chan_inv_def)
    moreover have "subseq (chan_messages ?c) (chan_messages c)"
      by (simp add: chan_messages_def subseq_append' subseq_payloads)
    ultimately show ?thesis using r es(2) False by (intro that [of ?c es]) simp_all
  qed
qed

section \<open>Runs\<close>

text \<open>
  The operations of an open channel. A step gives the channel, the messages it accepted from the
  caller, and the messages it gave to receivers, both in order.
\<close>

datatype 'a chan_cmd =
    Try_send 'a
  | Try_send_n nat 'a
  | Async_send nat nat 'a
  | Try_receive
  | Async_receive nat nat
  | Cancel_all
  | Cancel_key nat

fun cancels :: "'a chan_cmd \<Rightarrow> bool" where
  "cancels Cancel_all \<longleftrightarrow> True"
| "cancels (Cancel_key key) \<longleftrightarrow> True"
| "cancels _ \<longleftrightarrow> False"

fun chan_step :: "'a chan_cmd \<Rightarrow> 'a chan \<Rightarrow> ('a chan \<times> 'a list \<times> 'a list) option" where
  "chan_step (Try_send v) c =
     map_option (\<lambda>(c, es, ok). (c, if ok then [v] else [], delivered es)) (try_send v c)"
| "chan_step (Try_send_n n v) c =
     map_option (\<lambda>(c, es, k). (c, replicate k v, delivered es)) (try_send_n n v c)"
| "chan_step (Async_send n key v) c =
     map_option (\<lambda>(c, es). (c, [v], delivered es)) (start_send_op n key v c)"
| "chan_step Try_receive c =
     map_option (\<lambda>(c, es, r). (c, [], case r of None \<Rightarrow> [] | Some v \<Rightarrow> [v])) (try_receive c)"
| "chan_step (Async_receive n key) c =
     map_option (\<lambda>(c, es). (c, [], delivered es)) (start_receive_op n key c)"
| "chan_step Cancel_all c = map_option (\<lambda>(c, es). (c, [], delivered es)) (chan_cancel c)"
| "chan_step (Cancel_key key) c =
     map_option (\<lambda>(c, es). (c, [], delivered es)) (chan_cancel_by_key key c)"

fun chan_run :: "'a chan_cmd list \<Rightarrow> 'a chan \<Rightarrow> ('a chan \<times> 'a list \<times> 'a list) option" where
  "chan_run [] c = Some (c, [], [])"
| "chan_run (cmd # cmds) c =
     (case chan_step cmd c of
        None \<Rightarrow> None
      | Some (c, acc, rcv) \<Rightarrow>
          map_option (\<lambda>(c, acc', rcv'). (c, acc @ acc', rcv @ rcv')) (chan_run cmds c))"

lemma max_size_ops:
  "send_to_waiter v c = Some (c', es) \<Longrightarrow> max_buffer_size c' = max_buffer_size c"
  "max_buffer_size (send_to_buffer v c) = max_buffer_size c"
  "refill_buffer c = Some (c', es) \<Longrightarrow> max_buffer_size c' = max_buffer_size c"
  "receive_from_waiter c = Some (c', es, w) \<Longrightarrow> max_buffer_size c' = max_buffer_size c"
  "max_buffer_size (cancel_states c) = max_buffer_size c"
  "buffer_push_n n v c = (k, c') \<Longrightarrow> max_buffer_size c' = max_buffer_size c"
  by (auto simp: send_to_waiter_def send_to_buffer_def refill_buffer_def receive_from_waiter_def
      cancel_states_def buffer_push_def buffer_pop_def buffer_push_n_def Let_def
      split: list.splits chan_op.splits prod.splits if_splits)

lemma max_size_send_n:
  "try_send_n_loop n v i c es = Some (c', es', k) \<Longrightarrow> max_buffer_size c' = max_buffer_size c"
proof (induction n v i c es rule: try_send_n_loop.induct)
  case (1 n v i c es)
  then show ?case
    by (auto simp: Let_def max_size_ops
        split: if_split_asm chan_state.split_asm option.split_asm prod.split_asm dest: max_size_ops(1,3,4,6))
qed

lemma max_size_step:
  assumes "chan_step cmd c = Some (c', acc, rcv)"
  shows "max_buffer_size c' = max_buffer_size c"
proof (cases cmd)
  case (Try_send_n n v)
  then show ?thesis
    using assms
    by (auto simp: try_send_n_def simp del: try_send_n_loop.simps
        split: if_splits chan_state.splits dest: max_size_send_n)
qed (use assms in \<open>auto simp: try_send_def start_send_op_def try_receive_def start_receive_op_def
    receive_from_buffer_def chan_cancel_def chan_cancel_by_key_def Let_def max_size_ops
    split: chan_state.splits option.splits list.splits if_splits prod.splits
    dest: max_size_ops(1,3,4)\<close>)

lemma chan_step_ok:
  assumes inv: "chan_inv c"
  obtains c' acc rcv where "chan_step cmd c = Some (c', acc, rcv)" "chan_inv c'"
    "subseq (rcv @ chan_messages c') (chan_messages c @ acc)"
    "\<not> cancels cmd \<Longrightarrow> rcv @ chan_messages c' = chan_messages c @ acc"
proof (cases cmd)
  case (Try_send v)
  from try_send_ok [OF inv, of v] obtain c' es ok where "try_send v c = Some (c', es, ok)" "chan_inv c'"
    "delivered es @ chan_messages c' = chan_messages c @ (if ok then [v] else [])" by metis
  then show ?thesis
    using Try_send by (intro that [of c' "if ok then [v] else []" "delivered es"]) simp_all
next
  case (Try_send_n n v)
  from try_send_n_ok [OF inv, of n v] obtain c' es k where "try_send_n n v c = Some (c', es, k)"
    "chan_inv c'" "delivered es @ chan_messages c' = chan_messages c @ replicate k v" by metis
  then show ?thesis
    using Try_send_n by (intro that [of c' "replicate k v" "delivered es"]) simp_all
next
  case (Async_send n key v)
  from start_send_ok [OF inv, of n key v] obtain c' es where "start_send_op n key v c = Some (c', es)"
    "chan_inv c'" "delivered es @ chan_messages c' = chan_messages c @ [v]" by metis
  then show ?thesis using Async_send by (intro that [of c' "[v]" "delivered es"]) simp_all
next
  case Try_receive
  from try_receive_ok [OF inv] obtain c' es r where "try_receive c = Some (c', es, r)" "chan_inv c'"
    "chan_messages c = (case r of None \<Rightarrow> [] | Some v \<Rightarrow> v # chan_messages c')"
    "r = None \<Longrightarrow> c' = c" by metis
  then show ?thesis
    using Try_receive
    by (intro that [of c' "[]" "case r of None \<Rightarrow> [] | Some v \<Rightarrow> [v]"]) (simp_all split: option.splits)
next
  case (Async_receive n key)
  from start_receive_ok [OF inv, of n key] obtain c' es where "start_receive_op n key c = Some (c', es)"
    "chan_inv c'" "delivered es @ chan_messages c' = chan_messages c" by metis
  then show ?thesis using Async_receive by (intro that [of c' "[]" "delivered es"]) simp_all
next
  case Cancel_all
  from chan_cancel_ok [OF inv] obtain c' es where "chan_cancel c = Some (c', es)" "chan_inv c'"
    "delivered es = []" "chan_messages c' = chan_buffer c" by metis
  moreover have "subseq (chan_buffer c) (chan_messages c)"
    by (simp add: chan_messages_def subseq_prefix)
  ultimately show ?thesis using Cancel_all by (intro that [of c' "[]" "[]"]) simp_all
next
  case (Cancel_key key)
  from chan_cancel_by_key_ok [OF inv, of key] obtain c' es where
    "chan_cancel_by_key key c = Some (c', es)" "chan_inv c'" "delivered es = []"
    "subseq (chan_messages c') (chan_messages c)" by metis
  then show ?thesis using Cancel_key by (intro that [of c' "[]" "[]"]) simp_all
qed

lemma chan_run_ok:
  assumes "chan_inv c"
  shows "\<exists>c' acc rcv. chan_run cmds c = Some (c', acc, rcv) \<and> chan_inv c' \<and>
    max_buffer_size c' = max_buffer_size c \<and>
    subseq (rcv @ chan_messages c') (chan_messages c @ acc) \<and>
    ((\<forall>cmd \<in> set cmds. \<not> cancels cmd) \<longrightarrow> rcv @ chan_messages c' = chan_messages c @ acc)"
  using assms
proof (induction cmds arbitrary: c)
  case Nil
  then show ?case by simp
next
  case (Cons cmd cmds)
  from chan_step_ok [OF Cons.prems, of cmd] obtain c1 acc1 rcv1 where
    s: "chan_step cmd c = Some (c1, acc1, rcv1)" "chan_inv c1"
    "subseq (rcv1 @ chan_messages c1) (chan_messages c @ acc1)"
    "\<not> cancels cmd \<Longrightarrow> rcv1 @ chan_messages c1 = chan_messages c @ acc1" by metis
  from Cons.IH [OF s(2)] obtain c2 acc2 rcv2 where
    r: "chan_run cmds c1 = Some (c2, acc2, rcv2)" "chan_inv c2"
    "max_buffer_size c2 = max_buffer_size c1"
    "subseq (rcv2 @ chan_messages c2) (chan_messages c1 @ acc2)"
    "(\<forall>cmd \<in> set cmds. \<not> cancels cmd) \<longrightarrow> rcv2 @ chan_messages c2 = chan_messages c1 @ acc2" by blast
  have "subseq (rcv1 @ rcv2 @ chan_messages c2) (rcv1 @ chan_messages c1 @ acc2)"
    using r(4) by (simp add: subseq_append')
  also have "subseq \<dots> ((chan_messages c @ acc1) @ acc2)"
    using list_emb_append_mono [OF s(3), of acc2 acc2] by simp
  finally have "subseq (rcv1 @ rcv2 @ chan_messages c2) (chan_messages c @ acc1 @ acc2)" by simp
  moreover have "rcv1 @ rcv2 @ chan_messages c2 = chan_messages c @ acc1 @ acc2"
    if "\<forall>cmd' \<in> set (cmd # cmds). \<not> cancels cmd'"
  proof -
    from that have "rcv2 @ chan_messages c2 = chan_messages c1 @ acc2" using r(5) by simp
    then show ?thesis using s(4) that by (metis append_assoc list.set_intros(1))
  qed
  ultimately show ?case using s r max_size_step [OF s(1)] by auto
qed

section \<open>Properties\<close>

text \<open>C9: An open channel is a bounded queue. Every sequence of sends, receives and cancellations,
  blocking or not, on a new channel is executed without ever taking a waiting send for a receive
  or using the front of an empty queue; the buffer never exceeds the capacity; the messages
  handed to receivers, followed by those still in the channel (buffered or held by waiting sends),
  are a subsequence of the messages accepted, in order and without repetition; and without
  cancellations nothing is lost: they are exactly the messages accepted.\<close>

theorem channel_is_queue:
  shows "\<exists>c accepted received. chan_run cmds (chan_construct mx) = Some (c, accepted, received) \<and>
      length (chan_buffer c) \<le> mx \<and> subseq (received @ chan_messages c) accepted \<and>
      ((\<forall>cmd \<in> set cmds. \<not> cancels cmd) \<longrightarrow> accepted = received @ chan_messages c)"
proof -
  from chan_run_ok [OF chan_construct_inv(1), of cmds mx] obtain c acc rcv where
    r: "chan_run cmds (chan_construct mx) = Some (c, acc, rcv)" "chan_inv c"
    "max_buffer_size c = max_buffer_size (chan_construct mx :: 'a chan)"
    "subseq (rcv @ chan_messages c) (chan_messages (chan_construct mx) @ acc)"
    "(\<forall>cmd \<in> set cmds. \<not> cancels cmd) \<longrightarrow>
       rcv @ chan_messages c = chan_messages (chan_construct mx) @ acc" by blast
  have "length (chan_buffer c) \<le> mx"
    using chan_inv_capacity [OF r(2)] r(3) by (simp add: chan_construct_def)
  then show ?thesis using r(1,4,5) chan_construct_inv(2) by auto
qed

definition demo_cmds :: "nat chan_cmd list" where
  "demo_cmds = [Try_send 1, Async_send 10 0 2, Async_send 11 0 3, Try_receive, Async_receive 12 0,
     Async_receive 13 0, Async_receive 14 0, Try_send_n 3 4]"

theorem channel_is_queue_witness:
  "\<exists>c accepted received. chan_run demo_cmds (chan_construct 1) = Some (c, accepted, received) \<and>
     accepted = [1, 2, 3, 4, 4] \<and> accepted = received @ chan_messages c"
proof -
  have n: "\<forall>cmd \<in> set demo_cmds. \<not> cancels cmd" by code_simp
  have a: "map_option (\<lambda>(c, acc, rcv). acc) (chan_run demo_cmds (chan_construct 1)) = Some [1, 2, 3, 4, 4]"
    by code_simp
  from channel_is_queue [of demo_cmds 1] n a show ?thesis by auto
qed

text \<open>What an asynchronous operation meets: while a message is in the channel a receive completes
  with the oldest; a send completes at once while the channel has room or a receiver.\<close>

lemma channel_operations_complete:
  assumes "chan_inv c"
  shows "chan_messages c \<noteq> [] \<Longrightarrow> \<exists>c' es. start_receive_op n key c = Some (c', es) \<and>
      Receive_complete n (hd (chan_messages c)) \<in> set es"
    "send_state c \<noteq> Chan_block \<Longrightarrow> \<exists>c' es. start_send_op n key v c = Some (c', es) \<and>
      Send_complete n \<in> set es"
proof -
  show "chan_messages c \<noteq> [] \<Longrightarrow> \<exists>c' es. start_receive_op n key c = Some (c', es) \<and>
      Receive_complete n (hd (chan_messages c)) \<in> set es"
    using start_receive_ok [OF assms, of n key] by metis
  assume b: "send_state c \<noteq> Chan_block"
  show "\<exists>c' es. start_send_op n key v c = Some (c', es) \<and> Send_complete n \<in> set es"
  proof (cases "send_state c")
    case Chan_waiter
    obtain c' m where "send_to_waiter v c = Some (c', [Receive_complete m v])"
      using send_to_waiter_ok [OF assms Chan_waiter] by metis
    then show ?thesis using Chan_waiter by (auto simp: start_send_op_def)
  next
    case Chan_closed
    then show ?thesis using assms by (auto elim: chan_inv_cases)
  qed (use b in \<open>simp_all add: start_send_op_def\<close>)
qed

lemma channel_close_facts:
  assumes inv: "chan_inv c"
  shows "chan_buffer c \<noteq> [] \<Longrightarrow> \<exists>c'. chan_close c = Some (c', []) \<and>
      chan_messages c' = chan_messages c \<and> try_receive c' = Some (c', [], None)"
    "waiters c \<noteq> [] \<Longrightarrow> receive_state c \<noteq> Chan_block \<Longrightarrow> \<exists>c'. chan_close c = Some (c', []) \<and>
      waiters c' = waiters c \<and> chan_cancel c' = None \<and> chan_reset c' = None \<and> chan_destroy c' = None"
    "send_state c = Chan_waiter \<Longrightarrow> \<exists>c' es. chan_cancel c = Some (c', es) \<and> waiters c' = [] \<and>
      chan_buffer c' = [] \<and> max_buffer_size c' = max_buffer_size c \<and>
      try_send v c' = Some (c', [], False)"
    "chan_buffer c \<noteq> [] \<Longrightarrow> \<exists>c' es. chan_reset c = Some (c', es) \<and> chan_buffer c' = [] \<and>
      try_receive c' = None"
    "send_state c = Chan_waiter \<Longrightarrow> try_send v (fst (chan_move_construct c)) = None"
proof -
  show "chan_buffer c \<noteq> [] \<Longrightarrow> \<exists>c'. chan_close c = Some (c', []) \<and>
      chan_messages c' = chan_messages c \<and> try_receive c' = Some (c', [], None)"
    using inv
    by (cases rule: chan_inv_cases) (simp_all add: chan_close_def chan_messages_def try_receive_def)
  show "\<exists>c'. chan_close c = Some (c', []) \<and>
      waiters c' = waiters c \<and> chan_cancel c' = None \<and> chan_reset c' = None \<and> chan_destroy c' = None"
    if w: "waiters c \<noteq> []" and r: "receive_state c \<noteq> Chan_block"
  proof -
    have "\<forall>opn \<in> set (waiters c). is_send opn"
      using inv r by (cases rule: chan_inv_cases) auto
    from send_front [OF w this] obtain n key v rest where "waiters c = Send_op n key v # rest" by metis
    then have "chan_cancel (c\<lparr>send_state := Chan_closed, receive_state := Chan_closed\<rparr>) = None"
      by (simp add: chan_cancel_def cancel_op_def)
    then show ?thesis
      using r by (simp add: chan_close_def chan_reset_def chan_destroy_def)
  qed
  show "\<exists>c' es. chan_cancel c = Some (c', es) \<and> waiters c' = [] \<and>
      chan_buffer c' = [] \<and> max_buffer_size c' = max_buffer_size c \<and>
      try_send v c' = Some (c', [], False)" if w: "send_state c = Chan_waiter"
  proof -
    obtain es where "cancel_waiters (send_state c) (waiters c) = Some es"
      using cancel_waiters_ok [OF inv_waiters_kind [OF inv]] by blast
    moreover have "receive_state c = Chan_block" "chan_buffer c = []"
      using inv w by (auto elim: chan_inv_cases)
    ultimately show ?thesis
      using w by (simp add: chan_cancel_def cancel_states_def try_send_def)
  qed
  show "\<exists>c' es. chan_reset c = Some (c', es) \<and> chan_buffer c' = [] \<and> try_receive c' = None"
    if b: "chan_buffer c \<noteq> []"
  proof -
    obtain es where "cancel_waiters (send_state c) (waiters c) = Some es"
      using cancel_waiters_ok [OF inv_waiters_kind [OF inv]] by blast
    moreover have "receive_state c = Chan_buffer" "send_state c \<in> {Chan_buffer, Chan_block}"
      using inv b by (auto elim: chan_inv_cases)
    ultimately show ?thesis
      by (auto simp: chan_reset_def chan_cancel_def cancel_states_def buffer_clear_def
          try_receive_def receive_from_buffer_def)
  qed
  show "try_send v (fst (chan_move_construct c)) = None" if "send_state c = Chan_waiter"
    using that by (simp add: chan_move_construct_def try_send_def send_to_waiter_def)
qed

text \<open>Closing, resetting, cancelling and moving a channel, where the code leaves states and
  contents apart. (1) \<open>close\<close> on a channel with buffered messages keeps them in the buffer but no
  receive can get them, although the receiving code is written to drain a closed channel. (2)
  Sends that wait when the channel is closed are neither completed nor removed, and the next
  \<open>cancel\<close>, which the destructor and \<open>reset\<close> call, takes them for receives (undefined behaviour).
  (3) Cancelling waiting receives leaves the channel refusing to send whatever its capacity. (4)
  \<open>reset\<close> on an open channel with buffered messages leaves a state in which the next receive
  takes the front of an empty buffer. (5) A channel moved while a receive waits has no waiter in
  its new place, and the next send there uses the front of an empty queue.\<close>

theorem channel_close_reset_move:
  assumes "chan_inv c"
  shows "(chan_buffer c \<noteq> [] \<longrightarrow> (\<exists>c'. chan_close c = Some (c', []) \<and>
      chan_messages c' = chan_messages c \<and> try_receive c' = Some (c', [], None))) \<and>
    (waiters c \<noteq> [] \<and> receive_state c \<noteq> Chan_block \<longrightarrow> (\<exists>c'. chan_close c = Some (c', []) \<and>
      waiters c' = waiters c \<and> chan_cancel c' = None \<and> chan_reset c' = None \<and>
      chan_destroy c' = None)) \<and>
    (send_state c = Chan_waiter \<longrightarrow> (\<exists>c' es. chan_cancel c = Some (c', es) \<and> waiters c' = [] \<and>
      chan_buffer c' = [] \<and> max_buffer_size c' = max_buffer_size c \<and>
      try_send v c' = Some (c', [], False))) \<and>
    (chan_buffer c \<noteq> [] \<longrightarrow> (\<exists>c' es. chan_reset c = Some (c', es) \<and> chan_buffer c' = [] \<and>
      try_receive c' = None)) \<and>
    (send_state c = Chan_waiter \<longrightarrow> try_send v (fst (chan_move_construct c)) = None)"
  using channel_close_facts [OF assms] by blast

theorem channel_close_reset_move_witness:
  "(let c = send_to_buffer (7 :: nat) (chan_construct 2) in
     chan_inv c \<and> (\<exists>c'. chan_close c = Some (c', []) \<and>
       chan_messages c' = [7] \<and> try_receive c' = Some (c', [], None)))"
proof -
  let ?c = "send_to_buffer (7 :: nat) (chan_construct 2)"
  have inv: "chan_inv ?c" by (rule send_to_buffer_ok(1)) (simp_all add: chan_construct_inv, code_simp)
  have b: "chan_buffer ?c \<noteq> []" by code_simp
  have m: "chan_messages ?c = [7]" by code_simp
  from channel_close_reset_move [OF inv] b have "\<exists>c'. chan_close ?c = Some (c', []) \<and>
      chan_messages c' = chan_messages ?c \<and> try_receive c' = Some (c', [], None)" by blast
  then show ?thesis using inv m by (simp add: Let_def)
qed

end
