(* ===== verification/ChronoTime.thy ===== *)
theory ChronoTime
  imports Prelude "HOL-Library.Signed_Division"
begin

text \<open>
  The clock traits of \<open>detail/chrono_time_traits.hpp\<close>. Time points and durations of the clock
  are their counts, \<open>int64_t\<close> numbers; \<open>None\<close> is a signed overflow. The epoch is zero.
\<close>

section \<open>Saturating arithmetic on time points\<close>

definition chrono_add :: "int \<Rightarrow> int \<Rightarrow> int option" where
  "chrono_add t d =
     (if t \<ge> 0 then
        (case s64 (int64_max - t) of
           None \<Rightarrow> None
         | Some room \<Rightarrow> if room < d then Some int64_max else s64 (t + d))
      else
        (case s64 (t - int64_min) of
           None \<Rightarrow> None
         | Some room \<Rightarrow>
             (case s64 (- room) of
                None \<Rightarrow> None
              | Some low \<Rightarrow> if low > d then Some int64_min else s64 (t + d))))"

definition chrono_subtract :: "int \<Rightarrow> int \<Rightarrow> int option" where
  "chrono_subtract t1 t2 =
     (if t1 \<ge> 0 then
        (if t2 \<ge> 0 then s64 (t1 - t2)
         else if t2 = int64_min then Some int64_max
         else case (s64 (int64_max - t1), s64 (0 - t2)) of
                (Some room, Some back) \<Rightarrow> if room < back then Some int64_max else s64 (t1 - t2)
              | _ \<Rightarrow> None)
      else
        (if t2 < 0 then s64 (t1 - t2)
         else if t1 = int64_min then Some int64_min
         else case (s64 (int64_max - t2), s64 (0 - t1)) of
                (Some room, Some back) \<Rightarrow>
                  if room < back then Some int64_min
                  else (case s64 (t2 - t1) of None \<Rightarrow> None | Some x \<Rightarrow> s64 (- x))
              | _ \<Rightarrow> None))"

definition chrono_less_than :: "int \<Rightarrow> int \<Rightarrow> bool" where
  "chrono_less_than t1 t2 \<longleftrightarrow> t1 < t2"

section \<open>Conversion of durations\<close>

text \<open>The template \<open>gcd\<close>.\<close>

function chrono_gcd :: "nat \<Rightarrow> nat \<Rightarrow> nat" where
  "chrono_gcd v1 v2 = (if v2 = 0 then v1 else chrono_gcd v2 (v1 mod v2))"
  by pat_completeness auto

termination by (relation "measure snd") auto

declare chrono_gcd.simps [simp del]

text \<open>
  \<open>duration_cast<Num, Den>\<close> of a count whose period is \<open>pnum/pden\<close> seconds; \<open>/\<close> truncates
  towards zero.
\<close>

definition chrono_duration_cast :: "nat \<Rightarrow> nat \<Rightarrow> nat \<Rightarrow> nat \<Rightarrow> int \<Rightarrow> int option" where
  "chrono_duration_cast pnum pden num_to den_to ticks =
     (let num1 = pnum div chrono_gcd pnum num_to;
          num2 = num_to div chrono_gcd pnum num_to;
          den1 = pden div chrono_gcd pden den_to;
          den2 = den_to div chrono_gcd pden den_to;
          num = num1 * den2;
          den = num2 * den1
      in if num = 1 \<and> den = 1 then Some ticks
         else if num \<noteq> 1 \<and> den = 1 then s64 (ticks * int num)
         else if num = 1 \<and> pden \<noteq> 1 then s64 (ticks sdiv int den)
         else (case s64 (ticks * int num) of None \<Rightarrow> None | Some x \<Rightarrow> s64 (x sdiv int den)))"

definition total_seconds :: "nat \<Rightarrow> nat \<Rightarrow> int \<Rightarrow> int option" where
  "total_seconds pnum pden ticks = chrono_duration_cast pnum pden 1 1 ticks"

definition total_milliseconds :: "nat \<Rightarrow> nat \<Rightarrow> int \<Rightarrow> int option" where
  "total_milliseconds pnum pden ticks = chrono_duration_cast pnum pden 1 1000 ticks"

definition total_microseconds :: "nat \<Rightarrow> nat \<Rightarrow> int \<Rightarrow> int option" where
  "total_microseconds pnum pden ticks = chrono_duration_cast pnum pden 1 1000000 ticks"

text \<open>
  \<open>wait_traits\<close>: a duration is itself; a time point is turned into the time from \<open>now\<close>, where
  the guards against overflow overflow themselves for a \<open>now\<close> other than zero.
\<close>

definition wait_duration_of_duration :: "int \<Rightarrow> int" where
  "wait_duration_of_duration d = d"

definition wait_duration_of_time :: "int \<Rightarrow> int \<Rightarrow> int option" where
  "wait_duration_of_time now t =
     (case s64 (now + int64_max) of
        None \<Rightarrow> None
      | Some hi \<Rightarrow>
          if hi < t then Some int64_max
          else (case s64 (now + int64_min) of
                  None \<Rightarrow> None
                | Some lo \<Rightarrow> if lo > t then Some int64_min else s64 (t - now)))"

section \<open>Correctness\<close>

definition clamp64 :: "int \<Rightarrow> int" where
  "clamp64 x = max int64_min (min int64_max x)"

lemma chrono_add_saturates:
  "in_s64 t \<Longrightarrow> in_s64 d \<Longrightarrow> chrono_add t d = Some (clamp64 (t + d))"
  by (auto simp: chrono_add_def s64_def in_s64_def clamp64_def int64_min_def int64_max_def)

lemma chrono_subtract_saturates:
  "in_s64 t1 \<Longrightarrow> in_s64 t2 \<Longrightarrow> chrono_subtract t1 t2 = Some (clamp64 (t1 - t2))"
  by (auto simp: chrono_subtract_def s64_def in_s64_def clamp64_def int64_min_def int64_max_def)

lemma wait_duration_of_time_overflows: "0 < now \<Longrightarrow> wait_duration_of_time now t = None"
  by (simp add: wait_duration_of_time_def s64_def in_s64_def)

lemma chrono_gcd: "chrono_gcd v1 v2 = gcd v1 v2"
  by (induction v1 v2 rule: chrono_gcd.induct)
    (subst chrono_gcd.simps, auto simp: gcd_red_nat [symmetric] gcd.commute)

lemma div_le_dividend_int: "0 \<le> a \<Longrightarrow> 0 < b \<Longrightarrow> a div b \<le> (a :: int)"
  by (metis div_by_1 int_one_le_iff_zero_less zdiv_mono2 zero_less_one)

lemma sdiv_cancel: "0 < c \<Longrightarrow> (a * c) sdiv (b * c) = a sdiv (b :: int)"
  by (simp add: signed_divide_int_def sgn_mult abs_mult)

lemma sdiv_1 [simp]: "a sdiv (1 :: int) = a"
  by (simp add: signed_divide_int_def mult_sgn_abs)

text \<open>Whatever branch is taken, the exact quotient truncated, unless it or the product
  overflows.\<close>

lemma chrono_duration_cast_exact:
  assumes pos: "0 < pnum" "0 < pden" "0 < num_to" "0 < den_to" and t: "in_s64 ticks"
    and r: "chrono_duration_cast pnum pden num_to den_to ticks = Some r"
  shows "r = (ticks * int pnum * int den_to) sdiv (int pden * int num_to)"
proof -
  define g1 g2 where "g1 = gcd pnum num_to" and "g2 = gcd pden den_to"
  define num1 num2 den1 den2 where "num1 = pnum div g1" and "num2 = num_to div g1"
    and "den1 = pden div g2" and "den2 = den_to div g2"
  have g: "0 < g1" "0 < g2" using pos by (simp_all add: g1_def g2_def)
  have f: "pnum = num1 * g1" "num_to = num2 * g1" "pden = den1 * g2" "den_to = den2 * g2"
    by (simp_all add: g1_def g2_def num1_def num2_def den1_def den2_def)
  have "(ticks * int pnum * int den_to) sdiv (int pden * int num_to) =
      ((ticks * int (num1 * den2)) * int (g1 * g2)) sdiv (int (num2 * den1) * int (g1 * g2))"
    by (subst f(1), subst f(2), subst f(3), subst f(4)) (simp add: ac_simps)
  also have "\<dots> = (ticks * int (num1 * den2)) sdiv int (num2 * den1)"
    by (rule sdiv_cancel) (use g in simp)
  finally have q: "(ticks * int pnum * int den_to) sdiv (int pden * int num_to) =
      (ticks * int (num1 * den2)) sdiv int (num2 * den1)" .
  have "chrono_duration_cast pnum pden num_to den_to ticks =
      (if num1 * den2 = 1 \<and> num2 * den1 = 1 then Some ticks
       else if num1 * den2 \<noteq> 1 \<and> num2 * den1 = 1 then s64 (ticks * int (num1 * den2))
       else if num1 * den2 = 1 \<and> pden \<noteq> 1 then s64 (ticks sdiv int (num2 * den1))
       else (case s64 (ticks * int (num1 * den2)) of
               None \<Rightarrow> None | Some x \<Rightarrow> s64 (x sdiv int (num2 * den1))))"
    by (simp only: chrono_duration_cast_def Let_def chrono_gcd g1_def g2_def num1_def num2_def
        den1_def den2_def)
  with r show ?thesis
    unfolding q by (auto simp: s64_def split: if_splits option.splits)
qed

text \<open>A clock of nanoseconds, as the standard clocks have.\<close>

lemma total_microseconds_nano:
  assumes "in_s64 ticks"
  shows "total_microseconds 1 1000000000 ticks = Some (ticks sdiv 1000)"
    "total_milliseconds 1 1000000000 ticks = Some (ticks sdiv 1000000)"
proof -
  have small: "in_s64 (ticks sdiv b)" if "0 < b" for b
  proof (cases "0 \<le> ticks")
    case True
    then have "ticks sdiv b = ticks div b" using that by (auto simp: signed_divide_int_def sgn_if)
    moreover have "0 \<le> ticks div b" "ticks div b \<le> ticks"
      using True that by (simp_all add: pos_imp_zdiv_nonneg_iff div_le_dividend_int)
    ultimately show ?thesis using assms by (simp add: in_s64_def int64_min_def)
  next
    case False
    then have "ticks sdiv b = - ((- ticks) div b)" using that by (auto simp: signed_divide_int_def sgn_if)
    moreover have "0 \<le> (- ticks) div b" "(- ticks) div b \<le> - ticks"
      using False that by (simp_all add: pos_imp_zdiv_nonneg_iff div_le_dividend_int)
    ultimately show ?thesis using assms by (simp add: in_s64_def int64_max_def)
  qed
  show "total_microseconds 1 1000000000 ticks = Some (ticks sdiv 1000)"
    "total_milliseconds 1 1000000000 ticks = Some (ticks sdiv 1000000)"
    using small by (simp_all add: total_microseconds_def total_milliseconds_def
        chrono_duration_cast_def chrono_gcd Let_def)
qed

end
