(* ===== verification/TimerQueueSet.thy ===== *)
theory TimerQueueSet
  imports TimerQueueCorrect ChronoTime
begin

text \<open>
  The list of timer queues a reactor serves: \<open>detail/timer_queue_set.hpp\<close> and
  \<open>detail/impl/timer_queue_set.ipp\<close>. Queues are linked through their own \<open>next_\<close> pointers; they
  are addressed by numbers and read from the state. Their clock counts in \<open>int64_t\<close> (the traits
  of \<open>ChronoTime\<close>).
\<close>

section \<open>State\<close>

type_synonym qid = nat

record tq_set =
  first :: "qid option"
  tq_next :: "qid \<Rightarrow> qid option"
  queue_at :: "qid \<Rightarrow> int timer_queue"

definition set_next_q :: "qid \<Rightarrow> qid option \<Rightarrow> tq_set \<Rightarrow> tq_set" where
  "set_next_q q n s = s\<lparr>tq_next := (tq_next s)(q := n)\<rparr>"

definition tq_set_new :: "(qid \<Rightarrow> int timer_queue) \<Rightarrow> tq_set" where
  "tq_set_new qs = \<lparr> first = None, tq_next = (\<lambda>q. None), queue_at = qs \<rparr>"

section \<open>Operations\<close>

definition tq_set_insert :: "qid \<Rightarrow> tq_set \<Rightarrow> tq_set" where
  "tq_set_insert q s = (set_next_q q (first s) s)\<lparr>first := Some q\<rparr>"

text \<open>The loop of \<open>erase\<close> at the queue \<open>p\<close>.\<close>

partial_function (option) erase_loop :: "qid \<Rightarrow> qid \<Rightarrow> tq_set \<Rightarrow> tq_set option" where
  "erase_loop q p s =
     (case tq_next s p of
        None \<Rightarrow> Some s
      | Some n \<Rightarrow>
          if n = q then Some (set_next_q q None (set_next_q p (tq_next s q) s))
          else erase_loop q n s)"

definition tq_set_erase :: "qid \<Rightarrow> tq_set \<Rightarrow> tq_set option" where
  "tq_set_erase q s =
     (case first s of
        None \<Rightarrow> Some s
      | Some f \<Rightarrow>
          if q = f then Some (set_next_q q None (s\<lparr>first := tq_next s q\<rparr>))
          else erase_loop q f s)"

partial_function (option) all_empty_loop :: "qid option \<Rightarrow> tq_set \<Rightarrow> bool option" where
  "all_empty_loop p s =
     (case p of
        None \<Rightarrow> Some True
      | Some q \<Rightarrow> if \<not> tq_empty (queue_at s q) then Some False else all_empty_loop (tq_next s q) s)"

definition tq_set_all_empty :: "tq_set \<Rightarrow> bool option" where
  "tq_set_all_empty s = all_empty_loop (first s) s"

text \<open>
  What is left until a time point, by the traits: the subtraction saturates and so has a value.
\<close>

definition chrono_remaining :: "int \<Rightarrow> int \<Rightarrow> int" where
  "chrono_remaining t now = the (chrono_subtract t now)"

definition queue_wait_msec :: "nat \<Rightarrow> nat \<Rightarrow> int \<Rightarrow> int timer_queue \<Rightarrow> int \<Rightarrow> int" where
  "queue_wait_msec pnum pden now q max_duration =
     wait_duration_msec chrono_remaining (\<lambda>d. d) (\<lambda>d. the (total_milliseconds pnum pden d)) now q
       max_duration"

definition queue_wait_usec :: "nat \<Rightarrow> nat \<Rightarrow> int \<Rightarrow> int timer_queue \<Rightarrow> int \<Rightarrow> int" where
  "queue_wait_usec pnum pden now q max_duration =
     wait_duration_usec chrono_remaining (\<lambda>d. d) (\<lambda>d. the (total_microseconds pnum pden d)) now q
       max_duration"

text \<open>The loops of \<open>wait_duration_msec\<close> and \<open>wait_duration_usec\<close>, for the function of a queue.\<close>

partial_function (option) wait_loop ::
    "(int timer_queue \<Rightarrow> int \<Rightarrow> int) \<Rightarrow> qid option \<Rightarrow> int \<Rightarrow> tq_set \<Rightarrow> int option" where
  "wait_loop wait p min_duration s =
     (case p of
        None \<Rightarrow> Some min_duration
      | Some q \<Rightarrow> wait_loop wait (tq_next s q) (wait (queue_at s q) min_duration) s)"

definition tq_set_wait_msec :: "nat \<Rightarrow> nat \<Rightarrow> int \<Rightarrow> tq_set \<Rightarrow> int \<Rightarrow> int option" where
  "tq_set_wait_msec pnum pden now s max_duration =
     wait_loop (queue_wait_msec pnum pden now) (first s) max_duration s"

definition tq_set_wait_usec :: "nat \<Rightarrow> nat \<Rightarrow> int \<Rightarrow> tq_set \<Rightarrow> int \<Rightarrow> int option" where
  "tq_set_wait_usec pnum pden now s max_duration =
     wait_loop (queue_wait_usec pnum pden now) (first s) max_duration s"

text \<open>\<open>get_ready_timers\<close> and \<open>get_all_timers\<close> of every queue in turn.\<close>

partial_function (option) each_queue ::
    "(int timer_queue \<Rightarrow> wait_op list \<Rightarrow> (int timer_queue \<times> wait_op list) option) \<Rightarrow> qid option \<Rightarrow>
     tq_set \<Rightarrow> wait_op list \<Rightarrow> (tq_set \<times> wait_op list) option" where
  "each_queue get p s ops =
     (case p of
        None \<Rightarrow> Some (s, ops)
      | Some q \<Rightarrow>
          (case get (queue_at s q) ops of
             None \<Rightarrow> None
           | Some (q', ops') \<Rightarrow>
               each_queue get (tq_next s q) (s\<lparr>queue_at := (queue_at s)(q := q')\<rparr>) ops'))"

definition tq_set_get_ready :: "int \<Rightarrow> tq_set \<Rightarrow> wait_op list \<Rightarrow> (tq_set \<times> wait_op list) option" where
  "tq_set_get_ready now s ops = each_queue (get_ready_timers now) (first s) s ops"

definition tq_set_get_all :: "tq_set \<Rightarrow> wait_op list \<Rightarrow> (tq_set \<times> wait_op list) option" where
  "tq_set_get_all s ops = each_queue get_all_timers (first s) s ops"

section \<open>The list of queues\<close>

fun qchain :: "tq_set \<Rightarrow> qid option \<Rightarrow> qid list \<Rightarrow> bool" where
  "qchain s p [] \<longleftrightarrow> p = None"
| "qchain s p (q # qs) \<longleftrightarrow> p = Some q \<and> qchain s (tq_next s q) qs"

text \<open>The set holds the queues \<open>qs\<close>, in this order; the others are not linked.\<close>

definition tq_set_of :: "tq_set \<Rightarrow> qid list \<Rightarrow> bool" where
  "tq_set_of s qs \<longleftrightarrow> qchain s (first s) qs \<and> distinct qs \<and> (\<forall>q. q \<notin> set qs \<longrightarrow> tq_next s q = None)"

lemma qchain_cong:
  "(\<And>q. q \<in> set qs \<Longrightarrow> tq_next s' q = tq_next s q) \<Longrightarrow> qchain s' p qs = qchain s p qs"
  by (induction qs arbitrary: p) auto

lemma tq_set_new_of: "tq_set_of (tq_set_new qs) []"
  by (simp add: tq_set_of_def tq_set_new_def)

lemma tq_set_insert_of:
  assumes "tq_set_of s qs" "q \<notin> set qs"
  shows "tq_set_of (tq_set_insert q s) (q # qs)"
proof -
  have "qchain (tq_set_insert q s) (first s) qs = qchain s (first s) qs"
    using assms(2) by (intro qchain_cong) (auto simp: tq_set_insert_def set_next_q_def)
  then show ?thesis
    using assms by (simp add: tq_set_of_def) (simp add: tq_set_insert_def set_next_q_def)
qed

lemma erase_loop_chain:
  "qchain s (Some p) (p # qs) \<Longrightarrow> distinct (p # qs) \<Longrightarrow> q \<noteq> p \<Longrightarrow>
   \<exists>s'. erase_loop q p s = Some s' \<and> qchain s' (Some p) (p # remove1 q qs) \<and> first s' = first s \<and>
     queue_at s' = queue_at s \<and> (q \<in> set qs \<longrightarrow> tq_next s' q = None) \<and>
     (\<forall>r. r \<notin> set (p # qs) \<longrightarrow> tq_next s' r = tq_next s r)"
proof (induction qs arbitrary: p)
  case Nil
  then show ?case by (subst erase_loop.simps) simp
next
  case (Cons r qs)
  then have n: "tq_next s p = Some r" by simp
  show ?case
  proof (cases "r = q")
    case True
    let ?s' = "set_next_q q None (set_next_q p (tq_next s q) s)"
    have "erase_loop q p s = Some ?s'" by (subst erase_loop.simps) (simp add: n True)
    moreover have "qchain ?s' (tq_next s q) qs = qchain s (tq_next s q) qs"
      using Cons.prems True by (intro qchain_cong) (auto simp: set_next_q_def)
    ultimately show ?thesis
      using Cons.prems True by (intro exI [of _ ?s']) (auto simp: set_next_q_def)
  next
    case False
    have "qchain s (Some r) (r # qs)" "distinct (r # qs)" using Cons.prems by auto
    from Cons.IH [OF this] False obtain s' where s': "erase_loop q r s = Some s'"
      "qchain s' (Some r) (r # remove1 q qs)" "first s' = first s" "queue_at s' = queue_at s"
      "q \<in> set qs \<longrightarrow> tq_next s' q = None"
      "\<forall>x. x \<notin> set (r # qs) \<longrightarrow> tq_next s' x = tq_next s x" by blast
    have "erase_loop q p s = Some s'" by (subst erase_loop.simps) (simp add: n False s')
    moreover have "tq_next s' p = Some r" using s'(6) Cons.prems n by auto
    ultimately show ?thesis using s' False by (intro exI [of _ s']) auto
  qed
qed

lemma tq_set_erase_of:
  assumes "tq_set_of s qs"
  shows "\<exists>s'. tq_set_erase q s = Some s' \<and> tq_set_of s' (remove1 q qs) \<and> queue_at s' = queue_at s"
proof (cases qs)
  case Nil
  then show ?thesis using assms by (auto simp: tq_set_erase_def tq_set_of_def)
next
  case (Cons p rest)
  with assms have f: "first s = Some p" "qchain s (Some p) (p # rest)" "distinct (p # rest)"
    and out: "\<forall>r. r \<notin> set qs \<longrightarrow> tq_next s r = None"
    by (auto simp: tq_set_of_def)
  show ?thesis
  proof (cases "q = p")
    case True
    let ?s' = "set_next_q q None (s\<lparr>first := tq_next s q\<rparr>)"
    have "qchain ?s' (tq_next s p) rest = qchain s (tq_next s p) rest"
      using f(3) True by (intro qchain_cong) (auto simp: set_next_q_def)
    moreover have "\<forall>r. r \<notin> set rest \<longrightarrow> tq_next ?s' r = None"
      using out Cons True by (auto simp: set_next_q_def)
    ultimately show ?thesis
      using f True Cons by (auto simp: tq_set_erase_def tq_set_of_def set_next_q_def)
  next
    case False
    from erase_loop_chain [OF f(2,3) False] obtain s' where s': "erase_loop q p s = Some s'"
      "qchain s' (Some p) (p # remove1 q rest)" "first s' = first s" "queue_at s' = queue_at s"
      "q \<in> set rest \<longrightarrow> tq_next s' q = None"
      "\<forall>r. r \<notin> set (p # rest) \<longrightarrow> tq_next s' r = tq_next s r" by blast
    have "tq_next s' r = None" if "r \<notin> set (p # remove1 q rest)" for r
    proof (cases "r \<in> set (p # rest)")
      case True
      with that have "r \<in> set rest" "r \<notin> set (remove1 q rest)" by auto
      then have "r = q" "q \<in> set rest" using in_set_remove1 [of r q rest] by auto
      then show ?thesis using s'(5) by simp
    qed (use s'(6) out Cons in auto)
    moreover have "distinct (p # remove1 q rest)"
      using f(3) notin_set_remove1 by auto
    ultimately show ?thesis
      using s' f False Cons by (auto simp: tq_set_erase_def tq_set_of_def)
  qed
qed

section \<open>The loops over the list\<close>

lemma all_empty_loop_chain:
  "qchain s p qs \<Longrightarrow> all_empty_loop p s = Some (\<forall>q \<in> set qs. tq_empty (queue_at s q))"
proof (induction qs arbitrary: p)
  case Nil
  then show ?case by (subst all_empty_loop.simps) simp
next
  case (Cons q qs)
  then show ?case by (subst all_empty_loop.simps) simp
qed

lemma wait_loop_chain:
  "qchain s p qs \<Longrightarrow> wait_loop wait p d s = Some (fold (\<lambda>q. wait (queue_at s q)) qs d)"
proof (induction qs arbitrary: p d)
  case Nil
  then show ?case by (subst wait_loop.simps) simp
next
  case (Cons q qs)
  then show ?case by (subst wait_loop.simps) simp
qed

text \<open>
  Every queue is served once, in order; \<open>R\<close> relates a queue to what is left of it and to the
  operations it gave.
\<close>

lemma each_queue_chain:
  assumes "\<And>q ops. q \<in> set qs \<Longrightarrow>
      \<exists>q' out. get (queue_at s q) ops = Some (q', ops @ out) \<and> R q q' out"
    and "distinct qs" "qchain s p qs"
  shows "\<exists>s' outs. each_queue get p s ops = Some (s', ops @ concat outs) \<and>
    list_all2 (\<lambda>q out. R q (queue_at s' q) out) qs outs \<and>
    (\<forall>q. q \<notin> set qs \<longrightarrow> queue_at s' q = queue_at s q) \<and> first s' = first s \<and> tq_next s' = tq_next s"
  using assms
proof (induction qs arbitrary: p s ops)
  case Nil
  then show ?case by (subst each_queue.simps) simp
next
  case (Cons q qs)
  from Cons.prems(1) [of q ops] obtain q' out where
    q': "get (queue_at s q) ops = Some (q', ops @ out)" "R q q' out" by auto
  let ?s = "s\<lparr>queue_at := (queue_at s)(q := q')\<rparr>"
  have "qchain ?s (tq_next s q) qs = qchain s (tq_next s q) qs" by (rule qchain_cong) simp
  then have c: "qchain ?s (tq_next s q) qs" using Cons.prems(3) by simp
  have "\<exists>r' out. get (queue_at ?s r) ops = Some (r', ops @ out) \<and> R r r' out" if "r \<in> set qs" for r ops
    using Cons.prems(1) [of r ops] Cons.prems(2) that by auto
  from Cons.IH [OF this _ c, of "ops @ out"] Cons.prems(2) obtain s' outs where
    s': "each_queue get (tq_next s q) ?s (ops @ out) = Some (s', (ops @ out) @ concat outs)"
    "list_all2 (\<lambda>q out. R q (queue_at s' q) out) qs outs"
    "\<forall>r. r \<notin> set qs \<longrightarrow> queue_at s' r = queue_at ?s r" "first s' = first s" "tq_next s' = tq_next s"
    by auto
  have "queue_at s' q = q'" using s'(3) Cons.prems(2) by simp
  then show ?case
    using s' q' Cons.prems(3)
    by (subst each_queue.simps) (auto intro!: exI [of _ s'] exI [of _ "out # outs"])
qed

section \<open>How long to wait\<close>

lemma chrono_remaining:
  "in_s64 t \<Longrightarrow> in_s64 now \<Longrightarrow> chrono_remaining t now = clamp64 (t - now)"
  by (simp add: chrono_remaining_def chrono_subtract_saturates)

lemma clamp64_range: "in_s64 (clamp64 x)"
  by (simp add: in_s64_def clamp64_def int64_min_def int64_max_def)

text \<open>
  What one queue does to the duration: it keeps it when empty; it never makes it longer, except
  that a fraction of a unit counts as one; it never makes it longer than any timer needs; and it
  makes it zero only for a timer that is due.
\<close>

lemma queue_wait_usec_bounds:
  assumes q: "tq_heap q" and times: "\<forall>e \<in> set (heap q). in_s64 (entry_time e)" "in_s64 now"
    and d: "0 \<le> d" "d' = queue_wait_usec 1 1000000000 now q d"
  shows "0 \<le> d'" "d' \<le> max 1 d"
    "e \<in> set (heap q) \<Longrightarrow> entry_time e \<le> now \<Longrightarrow> d' = 0"
    "e \<in> set (heap q) \<Longrightarrow> now < entry_time e \<Longrightarrow> d' \<le> max 1 ((entry_time e - now) div 1000)"
    "(\<And>e. e \<in> set (heap q) \<Longrightarrow> now < entry_time e) \<Longrightarrow> 0 < d \<Longrightarrow> 0 < d'"
proof -
  let ?t = "entry_time (heap q ! 0)"
  let ?r = "clamp64 (?t - now)"
  have empty: "d' = d" if "heap q = []" using that d by (simp add: queue_wait_usec_def wait_duration_usec_def)
  have val: "d' = (if ?t \<le> now then 0 else
      (let usec = ?r div 1000 in if usec = 0 then 1 else if usec > d then d else usec))"
    if ne: "heap q \<noteq> []"
  proof -
    have t0: "in_s64 ?t" using times(1) ne by simp
    have "the (total_microseconds 1 1000000000 ?r) = ?r sdiv 1000"
      using total_microseconds_nano(1) [OF clamp64_range] by simp
    moreover have "?r sdiv 1000 = ?r div 1000" if "0 < ?r"
      using that by (auto simp: signed_divide_int_def)
    moreover have "?r \<le> 0 \<longleftrightarrow> ?t \<le> now"
      by (auto simp: clamp64_def int64_min_def int64_max_def)
    ultimately show ?thesis
      using ne d(2) chrono_remaining [OF t0 times(2)]
      by (auto simp: queue_wait_usec_def wait_duration_usec_def to_usec_def Let_def not_le)
  qed
  have least: "?t \<le> entry_time e" if "e \<in> set (heap q)" for e
    using top_is_least [OF q that] .
  have pos: "0 \<le> ?r div 1000" if "now < ?t"
    using that by (simp add: clamp64_def int64_max_def pos_imp_zdiv_nonneg_iff)
  show "0 \<le> d'"
    using empty val d(1) pos by (cases "heap q = []") (auto simp: Let_def)
  show "d' \<le> max 1 d"
    using empty val d(1) by (cases "heap q = []") (auto simp: Let_def)
  show "d' = 0" if "e \<in> set (heap q)" "entry_time e \<le> now"
  proof -
    have "?t \<le> now" using least [OF that(1)] that(2) by simp
    moreover have "heap q \<noteq> []" using that(1) by auto
    ultimately show ?thesis using val by simp
  qed
  show "d' \<le> max 1 ((entry_time e - now) div 1000)" if e: "e \<in> set (heap q)" "now < entry_time e"
  proof -
    have ne: "heap q \<noteq> []" using e(1) by auto
    have "?r \<le> entry_time e - now"
      using least [OF e(1)] e(2) by (auto simp: clamp64_def int64_min_def)
    then have "?r div 1000 \<le> (entry_time e - now) div 1000" by (rule zdiv_mono1) simp
    moreover have "0 \<le> (entry_time e - now) div 1000" using e(2) by simp
    ultimately show ?thesis using val [OF ne] by (auto simp: Let_def max_def)
  qed
  show "0 < d'" if later: "\<And>e. e \<in> set (heap q) \<Longrightarrow> now < entry_time e" and "0 < d"
  proof (cases "heap q = []")
    case False
    have t: "now < ?t" using later [of "heap q ! 0"] False by simp
    with val [OF False] pos [OF t] \<open>0 < d\<close> show ?thesis by (auto simp: Let_def)
  qed (use empty \<open>0 < d\<close> in simp)
qed

lemma fold_wait_bounds:
  assumes "\<And>q. q \<in> set qs \<Longrightarrow> tq_heap (queue_at s q)"
    and "\<And>q e. q \<in> set qs \<Longrightarrow> e \<in> set (heap (queue_at s q)) \<Longrightarrow> in_s64 (entry_time e)"
    and "in_s64 now" "0 \<le> d"
    and "d' = fold (\<lambda>q. queue_wait_usec 1 1000000000 now (queue_at s q)) qs d"
  shows "0 \<le> d' \<and> d' \<le> max 1 d \<and>
    (\<forall>q \<in> set qs. \<forall>e \<in> set (heap (queue_at s q)).
       (entry_time e \<le> now \<longrightarrow> d' \<le> 1) \<and>
       (now < entry_time e \<longrightarrow> d' \<le> max 1 ((entry_time e - now) div 1000))) \<and>
    ((\<forall>q \<in> set qs. \<forall>e \<in> set (heap (queue_at s q)). now < entry_time e) \<longrightarrow> 0 < d \<longrightarrow> 0 < d')"
  using assms
proof (induction qs arbitrary: d)
  case (Cons q qs)
  define d1 where "d1 = queue_wait_usec 1 1000000000 now (queue_at s q) d"
  have heap: "tq_heap (queue_at s q)" and times: "\<forall>e \<in> set (heap (queue_at s q)). in_s64 (entry_time e)"
    using Cons.prems by auto
  note B = queue_wait_usec_bounds [OF heap times Cons.prems(3,4) d1_def]
  have "d' = fold (\<lambda>q. queue_wait_usec 1 1000000000 now (queue_at s q)) qs d1"
    using Cons.prems(5) by (simp add: d1_def)
  from Cons.IH [OF _ _ Cons.prems(3) B(1) this] Cons.prems
  have R: "0 \<le> d'" "d' \<le> max 1 d1"
    "\<forall>q \<in> set qs. \<forall>e \<in> set (heap (queue_at s q)).
       (entry_time e \<le> now \<longrightarrow> d' \<le> 1) \<and>
       (now < entry_time e \<longrightarrow> d' \<le> max 1 ((entry_time e - now) div 1000))"
    "(\<forall>q \<in> set qs. \<forall>e \<in> set (heap (queue_at s q)). now < entry_time e) \<longrightarrow> 0 < d1 \<longrightarrow> 0 < d'"
    by auto
  have "entry_time e \<le> now \<longrightarrow> d' \<le> 1" if "e \<in> set (heap (queue_at s q))" for e
    using R(2) B(3) [OF that] by auto
  moreover have "now < entry_time e \<longrightarrow> d' \<le> max 1 ((entry_time e - now) div 1000)"
    if "e \<in> set (heap (queue_at s q))" for e
    using R(2) B(4) [OF that] by (auto simp: max_def split: if_splits)
  moreover have "d' \<le> max 1 d" using R(2) B(2) by (auto simp: max_def split: if_splits)
  ultimately show ?case using R B(5) by auto
qed simp

end
