(* ===== verification/TimerSetProps.thy ===== *)
theory TimerSetProps
  imports TimerQueueSet TimerQueueProps
begin

text \<open>
  The clock traits and the set of timer queues: properties, with a set of two queues to evaluate
  them on.
\<close>

definition demo_set :: tq_set where
  "demo_set = tq_set_insert 1 (tq_set_insert 2
     (tq_set_new (\<lambda>q. if q = 1 then demo_queue else new_timer_queue)))"

lemma demo_set_of: "tq_set_of demo_set [1, 2]"
  unfolding demo_set_def
  by (intro tq_set_insert_of tq_set_new_of) simp_all

lemma demo_set_queues [simp]:
  "queue_at demo_set 1 = demo_queue" "queue_at demo_set (Suc 0) = demo_queue"
  "queue_at demo_set 2 = new_timer_queue"
  by (simp_all add: demo_set_def tq_set_insert_def set_next_q_def tq_set_new_def)

section \<open>Properties\<close>

text \<open>Time arithmetic never overflows. For all time points and durations an \<open>int64_t\<close> can hold,
  \<open>add\<close> and \<open>subtract\<close> compute the exact sum and difference, saturated at the least and the
  greatest value, without a signed overflow on the way. A duration is converted to another unit
  exactly, truncated towards zero, whichever branch \<open>duration_cast\<close> takes for the periods, if the
  conversion does not overflow; for a clock of nanoseconds it never does. But the default
  \<open>wait_traits::to_wait_duration\<close> of a time point overflows at every time after the epoch, in the
  very test that is to prevent it.\<close>

theorem chrono_time_saturates:
  assumes "in_s64 t" "in_s64 d"
  shows "chrono_add t d = Some (clamp64 (t + d)) \<and> chrono_subtract t d = Some (clamp64 (t - d)) \<and>
    total_microseconds 1 1000000000 d = Some (d sdiv 1000) \<and>
    total_milliseconds 1 1000000000 d = Some (d sdiv 1000000) \<and>
    (\<forall>pnum pden num_to den_to r. 0 < pnum \<and> 0 < pden \<and> 0 < num_to \<and> 0 < den_to \<and>
       chrono_duration_cast pnum pden num_to den_to d = Some r \<longrightarrow>
       r = (d * int pnum * int den_to) sdiv (int pden * int num_to)) \<and>
    (0 < t \<longrightarrow> wait_duration_of_time t d = None)"
  using wait_duration_of_time_overflows chrono_add_saturates [OF assms] chrono_subtract_saturates [OF assms]
    total_microseconds_nano [OF assms(2)] chrono_duration_cast_exact [OF _ _ _ _ assms(2)] by blast

theorem chrono_time_saturates_witness:
  "chrono_add (2 ^ 62) (2 ^ 62 + 7) = Some int64_max \<and>
   chrono_subtract (2 ^ 62) (2 ^ 62 + 7) = Some (- 7)"
proof -
  have "in_s64 (2 ^ 62)" "in_s64 (2 ^ 62 + 7)"
    by (simp_all add: in_s64_def int64_min_def int64_max_def)
  from chrono_time_saturates [OF this] show ?thesis
    by (simp add: clamp64_def int64_min_def int64_max_def)
qed

lemma timer_set_facts:
  assumes set: "tq_set_of s qs"
    and reach: "\<forall>q \<in> set qs. tq_reachable (\<lambda>_. False) (queue_at s q)"
    and times: "\<forall>q \<in> set qs. \<forall>e \<in> set (heap (queue_at s q)). in_s64 (entry_time e)"
    and now: "in_s64 now" and d: "0 \<le> d"
  shows "\<exists>d'. tq_set_wait_usec 1 1000000000 now s d = Some d' \<and> 0 \<le> d' \<and> d' \<le> max 1 d \<and>
      (\<forall>q \<in> set qs. \<forall>e \<in> set (heap (queue_at s q)).
         (entry_time e \<le> now \<longrightarrow> d' \<le> 1) \<and>
         (now < entry_time e \<longrightarrow> d' \<le> max 1 ((entry_time e - now) div 1000))) \<and>
      ((\<forall>q \<in> set qs. \<forall>e \<in> set (heap (queue_at s q)). now < entry_time e) \<longrightarrow> 0 < d \<longrightarrow> 0 < d')"
    "\<exists>s' outs. tq_set_get_ready now s [] = Some (s', concat outs) \<and> tq_set_of s' qs \<and>
      list_all2 (\<lambda>q out.
        mset (heap (queue_at s' q)) = filter_mset (\<lambda>e. now < entry_time e) (mset (heap (queue_at s q))) \<and>
        (\<exists>es. mset es = filter_mset (\<lambda>e. entry_time e \<le> now) (mset (heap (queue_at s q))) \<and>
          sorted (map entry_time es) \<and>
          out = concat (map (\<lambda>e. completed Ok_code (ops_q (tdata (queue_at s q) (entry_timer e)))) es)))
        qs outs"
proof -
  have inv: "\<exists>ts. tq_inv {} (queue_at s q) ts" if "q \<in> set qs" for q
    using tq_reachable_inv reach that by blast
  have chain: "qchain s (first s) qs" "distinct qs" using set by (simp_all add: tq_set_of_def)
  have "\<And>q. q \<in> set qs \<Longrightarrow> tq_heap (queue_at s q)" using inv by (auto simp: tq_inv_def)
  from fold_wait_bounds [OF this _ now d refl] times
  show "\<exists>d'. tq_set_wait_usec 1 1000000000 now s d = Some d' \<and> 0 \<le> d' \<and> d' \<le> max 1 d \<and>
      (\<forall>q \<in> set qs. \<forall>e \<in> set (heap (queue_at s q)).
         (entry_time e \<le> now \<longrightarrow> d' \<le> 1) \<and>
         (now < entry_time e \<longrightarrow> d' \<le> max 1 ((entry_time e - now) div 1000))) \<and>
      ((\<forall>q \<in> set qs. \<forall>e \<in> set (heap (queue_at s q)). now < entry_time e) \<longrightarrow> 0 < d \<longrightarrow> 0 < d')"
    using wait_loop_chain [OF chain(1), of "queue_wait_usec 1 1000000000 now" d]
    by (auto simp: tq_set_wait_usec_def)
  let ?R = "\<lambda>q q' out.
        mset (heap q') = filter_mset (\<lambda>e. now < entry_time e) (mset (heap (queue_at s q))) \<and>
        (\<exists>es. mset es = filter_mset (\<lambda>e. entry_time e \<le> now) (mset (heap (queue_at s q))) \<and>
          sorted (map entry_time es) \<and>
          out = concat (map (\<lambda>e. completed Ok_code (ops_q (tdata (queue_at s q) (entry_timer e)))) es))"
  have "\<exists>q' out. get_ready_timers now (queue_at s q) ops = Some (q', ops @ out) \<and> ?R q q' out"
    if "q \<in> set qs" for q ops
  proof -
    from inv [OF that] obtain ts where "tq_inv {} (queue_at s q) ts" ..
    from get_ready_timers_correct [OF this, of now ops] show ?thesis
      unfolding ready_ops_def not_less by blast
  qed
  from each_queue_chain [of qs "get_ready_timers now" s ?R "first s" "[]", OF this chain(2,1)]
  obtain s' outs where s': "each_queue (get_ready_timers now) (first s) s [] = Some (s', concat outs)"
    "list_all2 (\<lambda>q out. ?R q (queue_at s' q) out) qs outs" "first s' = first s" "tq_next s' = tq_next s"
    by auto
  have "tq_set_of s' qs"
    using set s'(3,4) qchain_cong [of qs s' s "first s"] by (simp add: tq_set_of_def)
  then show "\<exists>s' outs. tq_set_get_ready now s [] = Some (s', concat outs) \<and> tq_set_of s' qs \<and>
      list_all2 (\<lambda>q out. ?R q (queue_at s' q) out) qs outs"
    using s'(1,2) unfolding tq_set_get_ready_def by blast
qed

text \<open>C15: A set of timer queues is served in time. For queues in any reachable state, linked in the
  set's list, and a clock of nanoseconds: the loop of \<open>wait_duration_usec\<close> returns; the duration
  is not negative, not longer than the caller's limit (or one microsecond), not longer than the time
  to any armed timer of any queue (or one microsecond), at most one microsecond when a timer is
  due, and not zero when none is. And \<open>get_ready_timers\<close> on the set returns, with the operations of
  exactly the due timers of every queue completed with success, those timers gone, and all
  others kept.\<close>

theorem timer_set_serves:
  assumes set: "tq_set_of s qs"
    and reach: "\<forall>q \<in> set qs. tq_reachable (\<lambda>_. False) (queue_at s q)"
    and times: "\<forall>q \<in> set qs. \<forall>e \<in> set (heap (queue_at s q)). in_s64 (entry_time e)"
    and now: "in_s64 now" and d: "0 \<le> d"
  shows "(\<exists>d'. tq_set_wait_usec 1 1000000000 now s d = Some d' \<and> 0 \<le> d' \<and> d' \<le> max 1 d \<and>
      (\<forall>q \<in> set qs. \<forall>e \<in> set (heap (queue_at s q)).
         (entry_time e \<le> now \<longrightarrow> d' \<le> 1) \<and>
         (now < entry_time e \<longrightarrow> d' \<le> max 1 ((entry_time e - now) div 1000))) \<and>
      ((\<forall>q \<in> set qs. \<forall>e \<in> set (heap (queue_at s q)). now < entry_time e) \<longrightarrow> 0 < d \<longrightarrow> 0 < d')) \<and>
    (\<exists>s' outs. tq_set_get_ready now s [] = Some (s', concat outs) \<and> tq_set_of s' qs \<and>
      list_all2 (\<lambda>q out.
        mset (heap (queue_at s' q)) = filter_mset (\<lambda>e. now < entry_time e) (mset (heap (queue_at s q))) \<and>
        (\<exists>es. mset es = filter_mset (\<lambda>e. entry_time e \<le> now) (mset (heap (queue_at s q))) \<and>
          sorted (map entry_time es) \<and>
          out = concat (map (\<lambda>e. completed Ok_code (ops_q (tdata (queue_at s q) (entry_timer e)))) es)))
        qs outs)"
  using timer_set_facts [OF assms] by blast

theorem timer_set_serves_witness:
  "\<exists>d'. tq_set_wait_usec 1 1000000000 1 demo_set 5000 = Some d' \<and> d' = 1"
proof -
  have r: "\<forall>q \<in> set [1, 2]. tq_reachable (\<lambda>_. False) (queue_at demo_set q)"
    using demo_reachable start by auto
  have t: "\<forall>q \<in> set [1, 2]. \<forall>e \<in> set (heap (queue_at demo_set q)). in_s64 (entry_time e)"
    by (auto simp: demo_values demo_values_Suc new_timer_queue_def in_s64_def int64_min_def int64_max_def)
  have n: "in_s64 1" by (simp add: in_s64_def int64_min_def int64_max_def)
  from timer_set_serves [OF demo_set_of r t n, of 5000] obtain d' where
    d: "tq_set_wait_usec 1 1000000000 1 demo_set 5000 = Some d'"
    and b: "\<forall>q \<in> set [1, 2]. \<forall>e \<in> set (heap (queue_at demo_set q)).
         1 < entry_time e \<longrightarrow> d' \<le> max 1 ((entry_time e - 1) div 1000)"
    and p: "(\<forall>q \<in> set [1, 2]. \<forall>e \<in> set (heap (queue_at demo_set q)). 1 < entry_time e) \<longrightarrow> 0 < d'"
    by auto
  have "d' \<le> 1" using b by (simp add: demo_values demo_values_Suc)
  moreover have "0 < d'" using p by (simp add: demo_values demo_values_Suc new_timer_queue_def)
  ultimately show ?thesis using d by auto
qed

end
