(* ===== verification/ObjectPool.thy ===== *)
theory ObjectPool
  imports OpQueue
begin

text \<open>
  \<open>object_pool<Object>\<close> of \<open>detail/object_pool.hpp\<close>: the pool of descriptor states of a
  reactor. Objects are addresses; \<open>next_\<close> and \<open>prev_\<close> are read and written in two stores.
  Live objects form a doubly linked list, freed ones a singly linked list they are taken from
  again. \<open>operator new\<close> is the argument \<open>fresh\<close>.
\<close>

section \<open>The code\<close>

record 'a pool =
  live_list :: "'a option"
  free_list :: "'a option"
  pool_next :: "'a links"
  pool_prev :: "'a links"

definition pool_new :: "'a pool" where
  "pool_new = \<lparr>live_list = None, free_list = None, pool_next = (\<lambda>_. None), pool_prev = (\<lambda>_. None)\<rparr>"

definition set_pool_next :: "'a \<Rightarrow> 'a option \<Rightarrow> 'a pool \<Rightarrow> 'a pool" where
  "set_pool_next o1 o2 p = p\<lparr>pool_next := (pool_next p)(o1 := o2)\<rparr>"

definition set_pool_prev :: "'a \<Rightarrow> 'a option \<Rightarrow> 'a pool \<Rightarrow> 'a pool" where
  "set_pool_prev o1 o2 p = p\<lparr>pool_prev := (pool_prev p)(o1 := o2)\<rparr>"

definition pool_first :: "'a pool \<Rightarrow> 'a option" where
  "pool_first p = live_list p"

definition pool_alloc :: "'a \<Rightarrow> 'a pool \<Rightarrow> 'a pool \<times> 'a" where
  "pool_alloc fresh p =
     (let (p1, obj) =
        (case free_list p of
           Some f \<Rightarrow> (p\<lparr>free_list := pool_next p f\<rparr>, f)
         | None \<Rightarrow> (p, fresh));
          p2 = set_pool_prev obj None (set_pool_next obj (live_list p1) p1);
          p3 = (case live_list p2 of Some l \<Rightarrow> set_pool_prev l (Some obj) p2 | None \<Rightarrow> p2)
      in (p3\<lparr>live_list := Some obj\<rparr>, obj))"

definition pool_free :: "'a \<Rightarrow> 'a pool \<Rightarrow> 'a pool" where
  "pool_free obj p =
     (let p1 = (if live_list p = Some obj then p\<lparr>live_list := pool_next p obj\<rparr> else p);
          p2 = (case pool_prev p1 obj of
                  Some b \<Rightarrow> set_pool_next b (pool_next p1 obj) p1 | None \<Rightarrow> p1);
          p3 = (case pool_next p2 obj of
                  Some n \<Rightarrow> set_pool_prev n (pool_prev p2 obj) p2 | None \<Rightarrow> p2)
      in (set_pool_prev obj None (set_pool_next obj (free_list p3) p3))\<lparr>free_list := Some obj\<rparr>)"

text \<open>\<open>destroy_list\<close> reads the link of an object before it deletes it.\<close>

partial_function (option) destroy_list :: "'a pool \<Rightarrow> 'a option \<Rightarrow> 'a list \<Rightarrow> 'a list option" where
  "destroy_list p l deleted =
     (case l of
        None \<Rightarrow> Some deleted
      | Some obj \<Rightarrow> destroy_list p (pool_next p obj) (deleted @ [obj]))"

definition pool_destroy :: "'a pool \<Rightarrow> 'a list option" where
  "pool_destroy p =
     (case destroy_list p (live_list p) [] of
        None \<Rightarrow> None
      | Some deleted \<Rightarrow> destroy_list p (free_list p) deleted)"

lemmas pool_defs = pool_first_def pool_alloc_def pool_free_def set_pool_next_def set_pool_prev_def

section \<open>The lists a pool represents\<close>

fun dchain :: "'a pool \<Rightarrow> 'a option \<Rightarrow> 'a option \<Rightarrow> 'a list \<Rightarrow> bool" where
  "dchain p b l [] \<longleftrightarrow> l = None"
| "dchain p b l (x # xs) \<longleftrightarrow> l = Some x \<and> pool_prev p x = b \<and> dchain p (Some x) (pool_next p x) xs"

definition pool_rep :: "'a pool \<Rightarrow> 'a list \<Rightarrow> 'a list \<Rightarrow> bool" where
  "pool_rep p xs ys \<longleftrightarrow> dchain p None (live_list p) xs \<and> chain (pool_next p) (free_list p) ys \<and>
     distinct (xs @ ys)"

lemma dchain_cong:
  "(\<And>x. x \<in> set xs \<Longrightarrow> pool_next p' x = pool_next p x \<and> pool_prev p' x = pool_prev p x) \<Longrightarrow>
   dchain p' b l xs = dchain p b l xs"
  by (induction xs arbitrary: b l) auto

lemma dchain_None [simp]: "dchain p b None xs \<longleftrightarrow> xs = []"
  by (cases xs) auto

lemma dchain_Some: "dchain p b (Some x) xs \<longleftrightarrow>
    (\<exists>ys. xs = x # ys \<and> pool_prev p x = b \<and> dchain p (Some x) (pool_next p x) ys)"
  by (cases xs) auto

lemma chain_cong:
  "(\<And>x. x \<in> set xs \<Longrightarrow> s' x = s x) \<Longrightarrow> chain s' p xs = chain s p xs"
  by (induction xs arbitrary: p) auto

lemma dchain_chain: "dchain p b l xs \<Longrightarrow> chain (pool_next p) l xs"
  by (induction xs arbitrary: b l) auto

lemma chain_Some: "chain s (Some x) xs \<longleftrightarrow> (\<exists>ys. xs = x # ys \<and> chain s (s x) ys)"
  by (cases xs) auto

lemma pool_rep_new: "pool_rep pool_new [] []"
  by (simp add: pool_rep_def pool_new_def)

lemma pool_first_rep: "pool_rep p xs ys \<Longrightarrow> pool_first p = (case xs of [] \<Rightarrow> None | x # _ \<Rightarrow> Some x)"
  by (cases xs) (auto simp: pool_rep_def pool_first_def)

lemma pool_alloc_rep:
  assumes rep: "pool_rep p xs ys" and new: "fresh \<notin> set xs"
    and a: "pool_alloc fresh p = (p', x)"
  shows "x = (case ys of [] \<Rightarrow> fresh | y # _ \<Rightarrow> y)" "pool_rep p' (x # xs) (tl ys)"
proof -
  from rep have l: "dchain p None (live_list p) xs" and f: "chain (pool_next p) (free_list p) ys"
    and d: "distinct (xs @ ys)" by (auto simp: pool_rep_def)
  show x: "x = (case ys of [] \<Rightarrow> fresh | y # _ \<Rightarrow> y)"
    using a f by (auto simp: pool_defs Let_def split: option.splits list.splits)
  have fl: "free_list p' = (case ys of [] \<Rightarrow> None | y # _ \<Rightarrow> pool_next p y)"
    using a f by (auto simp: pool_defs Let_def split: option.splits list.splits)
  have nx: "pool_next p' = (pool_next p)(x := live_list p)" and ll: "live_list p' = Some x"
    and pv: "pool_prev p' = (case live_list p of
        None \<Rightarrow> (pool_prev p)(x := None) | Some l \<Rightarrow> (pool_prev p)(x := None, l := Some x))"
    using a by (auto simp: pool_defs Let_def split: option.splits)
  have nin: "x \<notin> set xs" "x \<notin> set (tl ys)" using x new d by (auto split: list.splits)
  have head: "live_list p = (case xs of [] \<Rightarrow> None | z # _ \<Rightarrow> Some z)"
    using l by (cases xs) auto
  have "dchain p' (Some x) (live_list p) xs"
  proof (cases xs)
    case (Cons z zs)
    then have "dchain p' (Some z) (pool_next p z) zs = dchain p (Some z) (pool_next p z) zs"
      using nin d head by (intro dchain_cong) (auto simp: nx pv)
    then show ?thesis using Cons l nin d head by (auto simp: nx pv)
  qed (use l in simp)
  moreover have "chain (pool_next p') (free_list p') (tl ys)"
    using f fl nin by (cases ys) (auto simp: nx)
  ultimately show "pool_rep p' (x # xs) (tl ys)"
    using nin d ll head nx pv x by (cases ys) (auto simp: pool_rep_def split: list.splits)
qed

text \<open>The neighbours of an element.\<close>

lemma dchain_neighbours:
  assumes "dchain p b l (us @ x # vs)"
  shows "pool_prev p x = (if us = [] then b else Some (last us))"
    "pool_next p x = (case vs of [] \<Rightarrow> None | v # _ \<Rightarrow> Some v)"
  using assms by (induction us arbitrary: b l) (auto split: list.splits)

lemma dchain_unlink:
  assumes "dchain p b l (us @ x # vs)" "distinct (us @ x # vs)"
    and "pool_next p' = (if us = [] then pool_next p else (pool_next p)(last us := pool_next p x))(x := n)"
    and "pool_prev p' = (case vs of [] \<Rightarrow> pool_prev p
        | v # _ \<Rightarrow> (pool_prev p)(v := pool_prev p x))(x := m)"
  shows "dchain p' b (if us = [] then pool_next p x else l) (us @ vs)"
  using assms
proof (induction us arbitrary: b l)
  case Nil
  show ?case
  proof (cases vs)
    case (Cons v ws)
    have "dchain p' (Some v) (pool_next p v) ws = dchain p (Some v) (pool_next p v) ws"
      using Nil Cons by (intro dchain_cong) auto
    then show ?thesis using Nil Cons by auto
  qed (use Nil in simp)
next
  case (Cons u us)
  show ?case
  proof (cases us)
    case Nil
    show ?thesis
    proof (cases vs)
      case vs: (Cons v ws)
      have "dchain p' (Some v) (pool_next p v) ws = dchain p (Some v) (pool_next p v) ws"
        using Nil Cons.prems vs by (intro dchain_cong) auto
      then show ?thesis using Cons.prems vs Nil by auto
    qed (use Cons.prems Nil in auto)
  next
    case us: (Cons u' us')
    have "dchain p' (Some u) (pool_next p u) (us @ vs)"
      using Cons.IH [of "Some u" "pool_next p u"] Cons.prems us by auto
    moreover have "pool_next p' u = pool_next p u" "pool_prev p' u = pool_prev p u"
      using Cons.prems us by (auto split: list.splits)
    ultimately show ?thesis using Cons.prems us by auto
  qed
qed

lemma pool_free_rep:
  assumes rep: "pool_rep p xs ys" and x: "x \<in> set xs"
  shows "pool_rep (pool_free x p) (remove1 x xs) (x # ys)"
proof -
  obtain us vs where xs: "xs = us @ x # vs" using x by (meson split_list)
  from rep have l: "dchain p None (live_list p) xs" and f: "chain (pool_next p) (free_list p) ys"
    and d: "distinct (xs @ ys)" by (auto simp: pool_rep_def)
  note nb = dchain_neighbours [OF l [unfolded xs]]
  have head: "live_list p = Some (hd xs)" using l xs by (cases us) auto
  have ends: "us \<noteq> [] \<Longrightarrow> last us \<noteq> x" "us \<noteq> [] \<Longrightarrow> hd us \<noteq> x" "\<And>v ws. vs = v # ws \<Longrightarrow> v \<noteq> x"
    using d xs by (auto simp: last_in_set in_set_conv_decomp hd_append dest: hd_in_set last_in_set)
  let ?p = "pool_free x p"
  have nx: "pool_next ?p = (if us = [] then pool_next p
      else (pool_next p)(last us := pool_next p x))(x := free_list p)"
    using nb ends head xs by (auto simp: pool_defs Let_def split: list.splits)
  have pv: "pool_prev ?p = (case vs of [] \<Rightarrow> pool_prev p
      | v # _ \<Rightarrow> (pool_prev p)(v := pool_prev p x))(x := None)"
    using nb ends head xs by (auto simp: pool_defs Let_def split: list.splits)
  have ll: "live_list ?p = (if us = [] then pool_next p x else live_list p)"
    using nb ends head xs by (cases us) (auto simp: pool_defs Let_def split: list.splits option.splits)
  have fl: "free_list ?p = Some x"
    by (simp add: pool_defs Let_def)
  have "dchain ?p None (live_list ?p) (us @ vs)"
    unfolding ll by (rule dchain_unlink [OF l [unfolded xs] _ nx pv]) (use d xs in auto)
  moreover have "chain (pool_next ?p) (free_list p) ys = chain (pool_next p) (free_list p) ys"
    using d xs by (intro chain_cong) (auto simp: nx dest: last_in_set)
  moreover have "remove1 x xs = us @ vs" using d xs by (simp add: remove1_append)
  ultimately show ?thesis
    using f d xs by (auto simp: pool_rep_def fl nx)
qed

lemma destroy_list_chain:
  "chain (pool_next p) l xs \<Longrightarrow> destroy_list p l deleted = Some (deleted @ xs)"
proof (induction xs arbitrary: l deleted)
  case Nil
  then show ?case by (subst destroy_list.simps) simp
next
  case (Cons x xs)
  then show ?case by (subst destroy_list.simps) simp
qed

lemma pool_destroy_rep: "pool_rep p xs ys \<Longrightarrow> pool_destroy p = Some (xs @ ys)"
  by (auto simp: pool_rep_def pool_destroy_def destroy_list_chain dest!: dchain_chain)

end
