(* ===== verification/EpollReactor.thy ===== *)
theory EpollReactor
  imports ObjectPool TimerQueueSet
begin

text \<open>
  The epoll reactor: \<open>detail/epoll_reactor.hpp\<close> and \<open>detail/impl/epoll_reactor.{hpp,ipp}\<close>, with
  \<open>detail/reactor_op.hpp\<close>, for a build that has \<open>timerfd\<close>. Every member function is one
  transition: it runs under the mutex of its descriptor or of the reactor.

  The operating system, the operations' own \<open>perform\<close> functions and the clock are arguments (the
  record \<open>os\<close> of functions on a world \<open>'w\<close>); the scheduler is seen through the calls made to it,
  which are logged. An \<open>op_queue\<close> is the list it represents (\<open>OpQueue\<close>).
\<close>

unbundle bit_operations_syntax

section \<open>State\<close>

type_synonym events = "32 word"

definition EPOLLIN :: events where "EPOLLIN = 1"
definition EPOLLPRI :: events where "EPOLLPRI = 2"
definition EPOLLOUT :: events where "EPOLLOUT = 4"
definition EPOLLERR :: events where "EPOLLERR = 8"
definition EPOLLHUP :: events where "EPOLLHUP = 16"
definition EPOLLET :: events where "EPOLLET = 0x80000000"

datatype perform_status = Not_done | Perform_done | Done_and_exhausted

record reactor_op =
  rop_id :: nat
  rop_ec :: error_code
  rop_key :: "nat option"
  rop_bytes :: nat

text \<open>\<open>op_types\<close>; \<open>connect_op\<close> is \<open>write_op\<close>.\<close>

datatype op_type = Read_op | Write_op | Except_op

abbreviation (input) Connect_op :: op_type where "Connect_op \<equiv> Write_op"

definition max_ops :: "op_type list" where
  "max_ops = [Read_op, Write_op, Except_op]"

type_synonym did = nat

record descr_state =
  ds_descriptor :: int
  registered_events :: events
  op_queue_of :: "op_type \<Rightarrow> reactor_op list"
  try_speculative :: "op_type \<Rightarrow> bool"
  ds_shutdown :: bool
  task_result :: events

text \<open>
  What the reactor hands to the scheduler: operations on descriptors, timer waits, and the
  descriptor states themselves, which are operations that perform the waiting ones.
\<close>

datatype operation = Io_op reactor_op | Wait_op wait_op | Descr_op did

datatype sched_call =
    Post_immediate operation bool
  | Post_deferred "operation list"
  | Work_started
  | Compensating_work_started
  | Abandon "operation list"
  | Init_task

datatype epoll_ptr = Interrupter_ptr | Timer_ptr | Descr_ptr did

datatype epoll_ctl_op = Ctl_add | Ctl_mod | Ctl_del

record 'w os =
  os_perform :: "did \<Rightarrow> op_type \<Rightarrow> reactor_op \<Rightarrow> 'w \<Rightarrow> perform_status \<times> reactor_op \<times> 'w"
  os_epoll_ctl :: "epoll_ctl_op \<Rightarrow> int \<Rightarrow> events \<Rightarrow> epoll_ptr \<Rightarrow> 'w \<Rightarrow> int \<times> 'w"
  os_epoll_wait :: "int \<Rightarrow> 'w \<Rightarrow> (epoll_ptr \<times> events) list \<times> 'w"
  os_timerfd_settime :: "bool \<Rightarrow> int \<Rightarrow> int \<Rightarrow> 'w \<Rightarrow> 'w"
  os_interrupt :: "'w \<Rightarrow> 'w"
  os_now :: "'w \<Rightarrow> int"

text \<open>
  \<open>os_epoll_ctl\<close> gives the error number, zero for success; the flag of \<open>os_timerfd_settime\<close> is
  \<open>TFD_TIMER_ABSTIME\<close>, its other arguments seconds and nanoseconds; \<open>os_interrupt\<close> writes to the interrupter.
\<close>

record 'w reactor =
  world :: 'w
  descrs :: "did pool"
  descr :: "did \<Rightarrow> descr_state"
  rx_shutdown :: bool
  timer_queues :: tq_set
  timer_fd :: int
  interrupter_fd :: int
  calls :: "sched_call list"

definition set_descr :: "did \<Rightarrow> (descr_state \<Rightarrow> descr_state) \<Rightarrow> 'w reactor \<Rightarrow> 'w reactor" where
  "set_descr d f s = s\<lparr>descr := (descr s)(d := f (descr s d))\<rparr>"

definition set_queue :: "did \<Rightarrow> op_type \<Rightarrow> reactor_op list \<Rightarrow> 'w reactor \<Rightarrow> 'w reactor" where
  "set_queue d j q = set_descr d (\<lambda>ds. ds\<lparr>op_queue_of := (op_queue_of ds)(j := q)\<rparr>)"

definition set_speculative :: "did \<Rightarrow> op_type \<Rightarrow> bool \<Rightarrow> 'w reactor \<Rightarrow> 'w reactor" where
  "set_speculative d j b = set_descr d (\<lambda>ds. ds\<lparr>try_speculative := (try_speculative ds)(j := b)\<rparr>)"

definition call :: "sched_call \<Rightarrow> 'w reactor \<Rightarrow> 'w reactor" where
  "call c s = s\<lparr>calls := calls s @ [c]\<rparr>"

definition epoll_ctl ::
  "'w os \<Rightarrow> epoll_ctl_op \<Rightarrow> int \<Rightarrow> events \<Rightarrow> epoll_ptr \<Rightarrow> 'w reactor \<Rightarrow> int \<times> 'w reactor" where
  "epoll_ctl os c fd ev p s =
     (case os_epoll_ctl os c fd ev p (world s) of (r, w) \<Rightarrow> (r, s\<lparr>world := w\<rparr>))"

section \<open>Registration of descriptors\<close>

text \<open>A new state; the members its constructor leaves unset are written before they are read.\<close>

definition new_descr :: descr_state where
  "new_descr = \<lparr>ds_descriptor = -1, registered_events = 0, op_queue_of = (\<lambda>_. []),
     try_speculative = (\<lambda>_. False), ds_shutdown = False, task_result = 0\<rparr>"

definition allocate_descriptor_state :: "did \<Rightarrow> 'w reactor \<Rightarrow> 'w reactor \<times> did" where
  "allocate_descriptor_state fresh s =
     (case pool_alloc fresh (descrs s) of (p, d) \<Rightarrow>
        ((if free_list (descrs s) = None then set_descr d (\<lambda>_. new_descr) s else s)\<lparr>descrs := p\<rparr>, d))"

definition free_descriptor_state :: "did \<Rightarrow> 'w reactor \<Rightarrow> 'w reactor" where
  "free_descriptor_state d s = s\<lparr>descrs := pool_free d (descrs s)\<rparr>"

definition default_events :: events where
  "default_events = EPOLLIN OR EPOLLERR OR EPOLLHUP OR EPOLLPRI OR EPOLLET"

definition EPERM :: int where "EPERM = 1"

text \<open>The error number and the \<open>per_descriptor_data\<close> of the caller.\<close>

definition register_descriptor :: "'w os \<Rightarrow> did \<Rightarrow> int \<Rightarrow> 'w reactor \<Rightarrow> int \<times> did option \<times> 'w reactor"
where
  "register_descriptor os fresh fd s =
     (case allocate_descriptor_state fresh s of (s1, d) \<Rightarrow>
        (let s2 = set_descr d (\<lambda>ds. ds\<lparr>ds_descriptor := fd, ds_shutdown := False,
                    try_speculative := (\<lambda>_. True), registered_events := default_events\<rparr>) s1
         in case epoll_ctl os Ctl_add fd default_events (Descr_ptr d) s2 of (result, s3) \<Rightarrow>
              if result \<noteq> 0 then
                (if result = EPERM then
                   (0, Some d, set_descr d (\<lambda>ds. ds\<lparr>registered_events := 0\<rparr>) s3)
                 else (result, Some d, s3))
              else (0, Some d, s3)))"

definition register_internal_descriptor ::
  "'w os \<Rightarrow> did \<Rightarrow> op_type \<Rightarrow> int \<Rightarrow> reactor_op \<Rightarrow> 'w reactor \<Rightarrow> int \<times> did option \<times> 'w reactor"
where
  "register_internal_descriptor os fresh j fd op s =
     (case allocate_descriptor_state fresh s of (s1, d) \<Rightarrow>
        (let s2 = set_descr d (\<lambda>ds. ds\<lparr>ds_descriptor := fd, ds_shutdown := False,
                    op_queue_of := (op_queue_of ds)(j := op_queue_of ds j @ [op]),
                    try_speculative := (\<lambda>_. True), registered_events := default_events\<rparr>) s1
         in case epoll_ctl os Ctl_add fd default_events (Descr_ptr d) s2 of (result, s3) \<Rightarrow>
              if result \<noteq> 0 then (result, Some d, s3) else (0, Some d, s3)))"

definition move_descriptor :: "did option \<Rightarrow> did option \<Rightarrow> did option \<times> did option" where
  "move_descriptor target source = (source, None)"

section \<open>Starting an operation\<close>

text \<open>
  The end of \<open>start_op\<close>: the operation is queued, and counts as work.
\<close>

definition queue_op :: "op_type \<Rightarrow> did \<Rightarrow> reactor_op \<Rightarrow> 'w reactor \<Rightarrow> 'w reactor" where
  "queue_op j d op s = call Work_started (set_queue d j (op_queue_of (descr s d) j @ [op]) s)"

definition fail_op :: "error_code \<Rightarrow> reactor_op \<Rightarrow> bool \<Rightarrow> 'w reactor \<Rightarrow> 'w reactor" where
  "fail_op ec op is_continuation s = call (Post_immediate (Io_op (op\<lparr>rop_ec := ec\<rparr>)) is_continuation) s"

text \<open>
  What follows an attempt that did not complete, or that was not made: the descriptor has to be
  registered, for writing also if a write is waiting.
\<close>

definition after_speculation :: "'w os \<Rightarrow> op_type \<Rightarrow> did \<Rightarrow> int \<Rightarrow> reactor_op \<Rightarrow> bool \<Rightarrow> 'w reactor \<Rightarrow> 'w reactor"
where
  "after_speculation os j d fd op is_continuation s =
     (if registered_events (descr s d) = 0 then fail_op Operation_not_supported op is_continuation s
      else if j = Write_op \<and> registered_events (descr s d) AND EPOLLOUT = 0 then
        (let ev = registered_events (descr s d) OR EPOLLOUT
         in case epoll_ctl os Ctl_mod fd ev (Descr_ptr d) s of (result, s1) \<Rightarrow>
              if result = 0 then
                queue_op j d op
                  (set_descr d (\<lambda>ds. ds\<lparr>registered_events := registered_events ds OR ev\<rparr>) s1)
              else fail_op (Sys_error result) op is_continuation s1)
      else queue_op j d op s)"

definition start_op ::
  "'w os \<Rightarrow> op_type \<Rightarrow> int \<Rightarrow> did option \<Rightarrow> reactor_op \<Rightarrow> bool \<Rightarrow> bool \<Rightarrow> 'w reactor \<Rightarrow> 'w reactor"
where
  "start_op os j fd data op is_continuation allow_speculative s =
     (case data of
        None \<Rightarrow> fail_op Bad_descriptor op is_continuation s
      | Some d \<Rightarrow>
          if ds_shutdown (descr s d) then call (Post_immediate (Io_op op) is_continuation) s
          else if op_queue_of (descr s d) j = [] then
            (if allow_speculative \<and> (j \<noteq> Read_op \<or> op_queue_of (descr s d) Except_op = []) then
               (if try_speculative (descr s d) j then
                  (case os_perform os d j op (world s) of (status, op1, w) \<Rightarrow>
                     (let s1 = s\<lparr>world := w\<rparr>
                      in if status \<noteq> Not_done then
                           call (Post_immediate (Io_op op1) is_continuation)
                             (if status = Done_and_exhausted \<and> registered_events (descr s1 d) \<noteq> 0
                              then set_speculative d j False s1 else s1)
                         else after_speculation os j d fd op1 is_continuation s1))
                else after_speculation os j d fd op is_continuation s)
             else if registered_events (descr s d) = 0 then
               fail_op Operation_not_supported op is_continuation s
             else
               (let s1 = (if j = Write_op
                          then set_descr d (\<lambda>ds. ds\<lparr>registered_events := registered_events ds OR EPOLLOUT\<rparr>) s
                          else s)
                in case epoll_ctl os Ctl_mod fd (registered_events (descr s1 d)) (Descr_ptr d) s1 of
                     (_, s2) \<Rightarrow> queue_op j d op s2))
          else queue_op j d op s)"

section \<open>Cancellation and deregistration\<close>

definition aborted :: "reactor_op \<Rightarrow> reactor_op" where
  "aborted op = op\<lparr>rop_ec := Operation_aborted\<rparr>"

text \<open>The inner loop of \<open>cancel_ops\<close> and \<open>deregister_descriptor\<close>.\<close>

fun abort_loop :: "reactor_op list \<Rightarrow> operation list \<Rightarrow> operation list" where
  "abort_loop [] ops = ops"
| "abort_loop (op # q) ops = abort_loop q (ops @ [Io_op (aborted op)])"

fun abort_all :: "op_type list \<Rightarrow> did \<Rightarrow> 'w reactor \<Rightarrow> operation list \<Rightarrow> 'w reactor \<times> operation list" where
  "abort_all [] d s ops = (s, ops)"
| "abort_all (j # js) d s ops =
     abort_all js d (set_queue d j [] s) (abort_loop (op_queue_of (descr s d) j) ops)"

definition cancel_ops :: "did option \<Rightarrow> 'w reactor \<Rightarrow> 'w reactor" where
  "cancel_ops data s =
     (case data of
        None \<Rightarrow> s
      | Some d \<Rightarrow> (case abort_all max_ops d s [] of (s1, ops) \<Rightarrow> call (Post_deferred ops) s1))"

fun cancel_rop_loop ::
  "nat option \<Rightarrow> reactor_op list \<Rightarrow> operation list \<Rightarrow> reactor_op list \<Rightarrow> operation list \<times> reactor_op list"
where
  "cancel_rop_loop key [] ops other_ops = (ops, other_ops)"
| "cancel_rop_loop key (op # q) ops other_ops =
     (if rop_key op = key then cancel_rop_loop key q (ops @ [Io_op (aborted op)]) other_ops
      else cancel_rop_loop key q ops (other_ops @ [op]))"

definition cancel_ops_by_key :: "did option \<Rightarrow> op_type \<Rightarrow> nat option \<Rightarrow> 'w reactor \<Rightarrow> 'w reactor" where
  "cancel_ops_by_key data j key s =
     (case data of
        None \<Rightarrow> s
      | Some d \<Rightarrow>
          (case cancel_rop_loop key (op_queue_of (descr s d) j) [] [] of (ops, other_ops) \<Rightarrow>
             call (Post_deferred ops) (set_queue d j other_ops s)))"

text \<open>The \<open>per_descriptor_data\<close> after the call, and the state.\<close>

definition deregister_descriptor ::
  "'w os \<Rightarrow> int \<Rightarrow> did option \<Rightarrow> bool \<Rightarrow> 'w reactor \<Rightarrow> did option \<times> 'w reactor" where
  "deregister_descriptor os fd data closing s =
     (case data of
        None \<Rightarrow> (None, s)
      | Some d \<Rightarrow>
          if \<not> ds_shutdown (descr s d) then
            (let s1 = (if closing then s
                       else if registered_events (descr s d) \<noteq> 0
                       then snd (epoll_ctl os Ctl_del fd 0 (Descr_ptr d) s) else s)
             in case abort_all max_ops d s1 [] of (s2, ops) \<Rightarrow>
                  (Some d, call (Post_deferred ops)
                     (set_descr d (\<lambda>ds. ds\<lparr>ds_descriptor := -1, ds_shutdown := True\<rparr>) s2)))
          else (None, s))"

text \<open>
  \<open>deregister_internal_descriptor\<close> moves the operations to a local queue, whose destructor
  destroys them.
\<close>

definition deregister_internal_descriptor ::
  "'w os \<Rightarrow> int \<Rightarrow> did option \<Rightarrow> 'w reactor \<Rightarrow> did option \<times> 'w reactor" where
  "deregister_internal_descriptor os fd data s =
     (case data of
        None \<Rightarrow> (None, s)
      | Some d \<Rightarrow>
          if \<not> ds_shutdown (descr s d) then
            (Some d, set_descr d (\<lambda>ds. ds\<lparr>op_queue_of := (\<lambda>_. []), ds_descriptor := -1, ds_shutdown := True\<rparr>)
               (snd (epoll_ctl os Ctl_del fd 0 (Descr_ptr d) s)))
          else (None, s))"

definition cleanup_descriptor_data :: "did option \<Rightarrow> 'w reactor \<Rightarrow> did option \<times> 'w reactor" where
  "cleanup_descriptor_data data s =
     (case data of None \<Rightarrow> (None, s) | Some d \<Rightarrow> (None, free_descriptor_state d s))"

section \<open>Performing operations\<close>

definition flag :: "op_type \<Rightarrow> events" where
  "flag j = (case j of Read_op \<Rightarrow> EPOLLIN | Write_op \<Rightarrow> EPOLLOUT | Except_op \<Rightarrow> EPOLLPRI)"

text \<open>
  The inner loop of \<open>perform_io\<close>: the operations that completed, what is left of the queue,
  whether the descriptor was exhausted, and the world.
\<close>

fun perform_loop :: "'w os \<Rightarrow> did \<Rightarrow> op_type \<Rightarrow> reactor_op list \<Rightarrow> 'w \<Rightarrow>
    operation list \<Rightarrow> operation list \<times> reactor_op list \<times> bool \<times> 'w" where
  "perform_loop os d j [] w ops = (ops, [], False, w)"
| "perform_loop os d j (op # q) w ops =
     (case os_perform os d j op w of (status, op1, w1) \<Rightarrow>
        (case status of
           Not_done \<Rightarrow> (ops, op1 # q, False, w1)
         | Perform_done \<Rightarrow> perform_loop os d j q w1 (ops @ [Io_op op1])
         | Done_and_exhausted \<Rightarrow> (ops @ [Io_op op1], q, True, w1)))"

definition perform_type :: "'w os \<Rightarrow> did \<Rightarrow> events \<Rightarrow> op_type \<Rightarrow> 'w reactor \<times> operation list \<Rightarrow>
    'w reactor \<times> operation list" where
  "perform_type os d ev j = (\<lambda>(s, ops).
     if ev AND (flag j OR EPOLLERR OR EPOLLHUP) \<noteq> 0 then
       (case perform_loop os d j (op_queue_of (descr s d) j) (world s) ops of (ops1, q, exhausted, w) \<Rightarrow>
          (set_queue d j q (set_speculative d j (\<not> exhausted) s)\<lparr>world := w\<rparr>, ops1))
     else (s, ops))"

text \<open>
  \<open>perform_io\<close>, with what its \<open>perform_io_cleanup_on_block_exit\<close> does at the end: the first
  completed operation is the caller's, the others go to the scheduler.
\<close>

definition perform_io :: "'w os \<Rightarrow> did \<Rightarrow> events \<Rightarrow> 'w reactor \<Rightarrow> operation option \<times> 'w reactor" where
  "perform_io os d ev s =
     (case fold (perform_type os d ev) (rev max_ops) (s, []) of (s1, ops) \<Rightarrow>
        (case ops of
           [] \<Rightarrow> (None, call Compensating_work_started s1)
         | first_op # rest \<Rightarrow>
             (Some first_op, if rest \<noteq> [] then call (Post_deferred rest) s1 else s1)))"

text \<open>
  \<open>descriptor_state::do_complete\<close>: the operation that is completed in place, if the descriptor
  state is run (it is destroyed when \<open>owner\<close> is null).
\<close>

definition descr_do_complete :: "'w os \<Rightarrow> bool \<Rightarrow> did \<Rightarrow> events \<Rightarrow> 'w reactor \<Rightarrow> operation option \<times> 'w reactor"
where
  "descr_do_complete os owner d bytes_transferred s =
     (if owner then perform_io os d bytes_transferred s else (None, s))"

section \<open>The event loop\<close>

definition get_timeout_msec :: "nat \<Rightarrow> nat \<Rightarrow> 'w os \<Rightarrow> int \<Rightarrow> 'w reactor \<Rightarrow> int option" where
  "get_timeout_msec pnum pden os msec s =
     (let max_msec = 5 * 60 * 1000
      in tq_set_wait_msec pnum pden (os_now os (world s)) (timer_queues s)
           (if msec < 0 \<or> max_msec < msec then max_msec else msec))"

text \<open>The seconds and nanoseconds of \<open>it_value\<close>, and whether they are absolute.\<close>

definition get_timeout :: "nat \<Rightarrow> nat \<Rightarrow> 'w os \<Rightarrow> 'w reactor \<Rightarrow> (int \<times> int \<times> bool) option" where
  "get_timeout pnum pden os s =
     (case tq_set_wait_usec pnum pden (os_now os (world s)) (timer_queues s) (5 * 60 * 1000 * 1000) of
        None \<Rightarrow> None
      | Some usec \<Rightarrow>
          Some (usec div 1000000, if usec \<noteq> 0 then (usec mod 1000000) * 1000 else 1, usec = 0))"

definition set_timer_fd :: "nat \<Rightarrow> nat \<Rightarrow> 'w os \<Rightarrow> 'w reactor \<Rightarrow> 'w reactor option" where
  "set_timer_fd pnum pden os s =
     (case get_timeout pnum pden os s of
        None \<Rightarrow> None
      | Some (sec, nsec, abstime) \<Rightarrow> Some (s\<lparr>world := os_timerfd_settime os abstime sec nsec (world s)\<rparr>))"

definition rx_interrupt :: "'w os \<Rightarrow> 'w reactor \<Rightarrow> 'w reactor" where
  "rx_interrupt os s =
     snd (epoll_ctl os Ctl_mod (interrupter_fd s) (EPOLLIN OR EPOLLERR OR EPOLLET) Interrupter_ptr s)"

definition update_timeout :: "nat \<Rightarrow> nat \<Rightarrow> 'w os \<Rightarrow> 'w reactor \<Rightarrow> 'w reactor option" where
  "update_timeout pnum pden os s =
     (if timer_fd s \<noteq> -1 then set_timer_fd pnum pden os s else Some (rx_interrupt os s))"

text \<open>
  One event of \<open>epoll_wait\<close>. A descriptor state is linked in no other queue when the reactor
  runs, since the scheduler runs it again only after the operations it queued before, so that
  \<open>is_enqueued\<close> is membership in \<open>ops\<close>.
\<close>

definition handle_event ::
  "epoll_ptr \<times> events \<Rightarrow> 'w reactor \<times> operation list \<times> bool \<Rightarrow> 'w reactor \<times> operation list \<times> bool"
where
  "handle_event = (\<lambda>(ptr, ev) (s, ops, check_timers).
     case ptr of
       Interrupter_ptr \<Rightarrow> (s, ops, if timer_fd s = -1 then True else check_timers)
     | Timer_ptr \<Rightarrow> (s, ops, True)
     | Descr_ptr d \<Rightarrow>
         if Descr_op d \<notin> set ops then
           (set_descr d (\<lambda>ds. ds\<lparr>task_result := ev\<rparr>) s, ops @ [Descr_op d], check_timers)
         else
           (set_descr d (\<lambda>ds. ds\<lparr>task_result := task_result ds OR ev\<rparr>) s, ops, check_timers))"

definition run_timers ::
  "nat \<Rightarrow> nat \<Rightarrow> 'w os \<Rightarrow> operation list \<Rightarrow> 'w reactor \<Rightarrow> (operation list \<times> 'w reactor) option" where
  "run_timers pnum pden os ops s =
     (case tq_set_get_ready (os_now os (world s)) (timer_queues s) [] of
        None \<Rightarrow> None
      | Some (tqs, ready) \<Rightarrow>
          (let s1 = s\<lparr>timer_queues := tqs\<rparr>
           in map_option (\<lambda>s2. (ops @ map Wait_op ready, s2))
                (if timer_fd s1 \<noteq> -1 then set_timer_fd pnum pden os s1 else Some s1)))"

definition rx_timeout :: "nat \<Rightarrow> nat \<Rightarrow> 'w os \<Rightarrow> int \<Rightarrow> 'w reactor \<Rightarrow> int option" where
  "rx_timeout pnum pden os usec s =
     (if usec = 0 then Some 0
      else (let timeout = (if usec < 0 then -1 else (usec - 1) div 1000 + 1)
            in if timer_fd s = -1 then get_timeout_msec pnum pden os timeout s else Some timeout))"

definition rx_run :: "nat \<Rightarrow> nat \<Rightarrow> 'w os \<Rightarrow> int \<Rightarrow> 'w reactor \<Rightarrow> (operation list \<times> 'w reactor) option" where
  "rx_run pnum pden os usec s =
     (case rx_timeout pnum pden os usec s of
        None \<Rightarrow> None
      | Some timeout \<Rightarrow>
          (case os_epoll_wait os timeout (world s) of (evs, w) \<Rightarrow>
             (case fold handle_event evs (s\<lparr>world := w\<rparr>, [], timer_fd s = -1) of
                (s1, ops, check_timers) \<Rightarrow>
                  if check_timers then run_timers pnum pden os ops s1 else Some (ops, s1))))"

section \<open>Timers\<close>

definition set_timer_queue :: "qid \<Rightarrow> int timer_queue \<Rightarrow> 'w reactor \<Rightarrow> 'w reactor" where
  "set_timer_queue q tq s =
     s\<lparr>timer_queues := (timer_queues s)\<lparr>queue_at := (queue_at (timer_queues s))(q := tq)\<rparr>\<rparr>"

definition add_timer_queue :: "qid \<Rightarrow> 'w reactor \<Rightarrow> 'w reactor" where
  "add_timer_queue q s = s\<lparr>timer_queues := tq_set_insert q (timer_queues s)\<rparr>"

definition remove_timer_queue :: "qid \<Rightarrow> 'w reactor \<Rightarrow> 'w reactor option" where
  "remove_timer_queue q s =
     map_option (\<lambda>tqs. s\<lparr>timer_queues := tqs\<rparr>) (tq_set_erase q (timer_queues s))"

definition schedule_timer ::
  "nat \<Rightarrow> nat \<Rightarrow> 'w os \<Rightarrow> qid \<Rightarrow> int \<Rightarrow> tid \<Rightarrow> wait_op \<Rightarrow> 'w reactor \<Rightarrow> 'w reactor option" where
  "schedule_timer pnum pden os q time timer op s =
     (if rx_shutdown s then Some (call (Post_immediate (Wait_op op) False) s)
      else (case enqueue_timer (\<lambda>_. False) time timer op (queue_at (timer_queues s) q) of
              (tq, earliest) \<Rightarrow>
                (let s1 = call Work_started (set_timer_queue q tq s)
                 in if earliest then update_timeout pnum pden os s1 else Some s1)))"

definition rx_cancel_timer :: "qid \<Rightarrow> tid \<Rightarrow> nat \<Rightarrow> 'w reactor \<Rightarrow> nat \<times> 'w reactor" where
  "rx_cancel_timer q timer max_cancelled s =
     (case cancel_timer timer [] max_cancelled (queue_at (timer_queues s) q) of (tq, ops, n) \<Rightarrow>
        (n, call (Post_deferred (map Wait_op ops)) (set_timer_queue q tq s)))"

definition rx_cancel_timer_by_key :: "qid \<Rightarrow> tid \<Rightarrow> nat option \<Rightarrow> 'w reactor \<Rightarrow> 'w reactor" where
  "rx_cancel_timer_by_key q timer key s =
     (case cancel_timer_by_key timer [] key (queue_at (timer_queues s) q) of (tq, ops) \<Rightarrow>
        call (Post_deferred (map Wait_op ops)) (set_timer_queue q tq s))"

definition rx_move_timer :: "qid \<Rightarrow> tid \<Rightarrow> tid \<Rightarrow> 'w reactor \<Rightarrow> 'w reactor" where
  "rx_move_timer q target source s =
     (case cancel_timer target [] size_max (queue_at (timer_queues s) q) of (tq, ops, _) \<Rightarrow>
        call (Post_deferred (map Wait_op ops)) (set_timer_queue q (move_timer target source tq) s))"

section \<open>Life of the reactor\<close>

definition rx_init_task :: "'w reactor \<Rightarrow> 'w reactor" where
  "rx_init_task s = call Init_task s"

text \<open>The loop of \<open>shutdown\<close> takes the first live descriptor state until there is none.\<close>

partial_function (option) shutdown_loop ::
    "'w reactor \<Rightarrow> operation list \<Rightarrow> ('w reactor \<times> operation list) option" where
  "shutdown_loop s ops =
     (case pool_first (descrs s) of
        None \<Rightarrow> Some (s, ops)
      | Some d \<Rightarrow>
          shutdown_loop
            (free_descriptor_state d
               (set_descr d (\<lambda>ds. ds\<lparr>op_queue_of := (\<lambda>_. []), ds_shutdown := True\<rparr>) s))
            (ops @ concat (map (\<lambda>j. map Io_op (op_queue_of (descr s d) j)) max_ops)))"

definition rx_shutdown_all :: "'w reactor \<Rightarrow> 'w reactor option" where
  "rx_shutdown_all s =
     (case shutdown_loop (s\<lparr>rx_shutdown := True\<rparr>) [] of
        None \<Rightarrow> None
      | Some (s1, ops) \<Rightarrow>
          (case tq_set_get_all (timer_queues s1) [] of
             None \<Rightarrow> None
           | Some (tqs, waits) \<Rightarrow>
               Some (call (Abandon (ops @ map Wait_op waits)) (s1\<lparr>timer_queues := tqs\<rparr>))))"

text \<open>
  The registrations of the reactor's own descriptors, made by the constructor and again by
  \<open>notify_fork\<close> in the child, for which the new descriptors are arguments.
\<close>

definition register_own :: "'w os \<Rightarrow> 'w reactor \<Rightarrow> 'w reactor" where
  "register_own os s =
     (let s0 = snd (epoll_ctl os Ctl_add (interrupter_fd s)
                 (EPOLLIN OR EPOLLERR OR EPOLLET) Interrupter_ptr s);
          s1 = s0\<lparr>world := os_interrupt os (world s0)\<rparr>
      in if timer_fd s1 \<noteq> -1
         then snd (epoll_ctl os Ctl_add (timer_fd s1) (EPOLLIN OR EPOLLERR) Timer_ptr s1) else s1)"

definition reactor_new :: "'w os \<Rightarrow> 'w \<Rightarrow> tq_set \<Rightarrow> int \<Rightarrow> int \<Rightarrow> 'w reactor" where
  "reactor_new os w tqs tfd ifd =
     register_own os \<lparr>world = w, descrs = pool_new, descr = (\<lambda>_. new_descr), rx_shutdown = False,
       timer_queues = tqs, timer_fd = tfd, interrupter_fd = ifd, calls = []\<rparr>"

text \<open>\<open>notify_fork\<close> in the child registers every live descriptor with the new epoll instance.\<close>

partial_function (option) fork_loop ::
    "'w os \<Rightarrow> did option \<Rightarrow> 'w reactor \<Rightarrow> (exn + 'w reactor) option" where
  "fork_loop os p s =
     (case p of
        None \<Rightarrow> Some (Inr s)
      | Some d \<Rightarrow>
          (case epoll_ctl os Ctl_add (ds_descriptor (descr s d)) (registered_events (descr s d))
                  (Descr_ptr d) s of
             (result, s1) \<Rightarrow>
               if result \<noteq> 0 then Some (Inl (System_error (Sys_error result)))
               else fork_loop os (pool_next (descrs s1) d) s1))"

definition notify_fork_child ::
  "nat \<Rightarrow> nat \<Rightarrow> 'w os \<Rightarrow> int \<Rightarrow> int \<Rightarrow> 'w reactor \<Rightarrow> (exn + 'w reactor) option" where
  "notify_fork_child pnum pden os tfd ifd s =
     (case update_timeout pnum pden os (register_own os (s\<lparr>timer_fd := tfd, interrupter_fd := ifd\<rparr>)) of
        None \<Rightarrow> None
      | Some s1 \<Rightarrow> fork_loop os (pool_first (descrs s1)) s1)"

end
