(* ===== verification/EpollSteps.thy ===== *)
theory EpollSteps
  imports EpollReactor
begin

text \<open>
  The epoll reactor at work: the steps of its clients, of the threads that run descriptor states
  and of the thread that waits, in any order; what the kernel promises of edge-triggered events;
  and how the member functions change the queues, the calls and the kernel's registrations.
\<close>

section \<open>What is waiting, what has been delivered\<close>

definition queued_ids :: "descr_state \<Rightarrow> nat multiset" where
  "queued_ids ds = mset (map rop_id (op_queue_of ds Read_op)) +
     mset (map rop_id (op_queue_of ds Write_op)) + mset (map rop_id (op_queue_of ds Except_op))"

fun io_ids :: "operation \<Rightarrow> nat list" where
  "io_ids (Io_op op) = [rop_id op]"
| "io_ids _ = []"

fun call_ops :: "sched_call \<Rightarrow> operation list" where
  "call_ops (Post_immediate op _) = [op]"
| "call_ops (Post_deferred ops) = ops"
| "call_ops (Abandon ops) = ops"
| "call_ops _ = []"

definition ids_of :: "operation list \<Rightarrow> nat multiset" where
  "ids_of ops = mset (concat (map io_ids ops))"

definition call_ids :: "sched_call list \<Rightarrow> nat multiset" where
  "call_ids cs = ids_of (concat (map call_ops cs))"

text \<open>
  The work the calls account for: a unit for \<open>work_started\<close> and \<open>compensating_work_started\<close>, less
  one for each operation posted with the work it has already.
\<close>

fun call_work :: "sched_call \<Rightarrow> int" where
  "call_work Work_started = 1"
| "call_work Compensating_work_started = 1"
| "call_work (Post_deferred ops) = - int (length ops)"
| "call_work _ = 0"

definition calls_work :: "sched_call list \<Rightarrow> int" where
  "calls_work cs = sum_list (map call_work cs)"

lemma ids_of_simps [simp]:
  "ids_of [] = {#}" "ids_of (xs @ ys) = ids_of xs + ids_of ys"
  "ids_of (Io_op op # xs) = add_mset (rop_id op) (ids_of xs)"
  by (simp_all add: ids_of_def)

lemma call_ids_simps [simp]:
  "call_ids [] = {#}" "call_ids (cs @ [c]) = call_ids cs + ids_of (call_ops c)"
  by (simp_all add: call_ids_def)

lemma calls_work_simps [simp]:
  "calls_work [] = 0" "calls_work (cs @ [c]) = calls_work cs + call_work c"
  by (simp_all add: calls_work_def)

section \<open>The kernel\<close>

text \<open>
  Observations of the world: whether an operation of a type on a descriptor could make progress,
  the events the descriptor is registered for, and whether an event that serves the type is
  pending in the epoll instance; and \<open>noted\<close>, what a model of the operations keeps in the world
  for its own accounts, which the outside world cannot change.
\<close>

record 'w kernel =
  ready :: "'w \<Rightarrow> did \<Rightarrow> op_type \<Rightarrow> bool"
  interest :: "'w \<Rightarrow> did \<Rightarrow> events"
  pend :: "'w \<Rightarrow> did \<Rightarrow> op_type \<Rightarrow> bool"
  noted :: "'w \<Rightarrow> did \<Rightarrow> op_type \<Rightarrow> bool"

definition covers :: "events \<Rightarrow> op_type \<Rightarrow> bool" where
  "covers ev j \<longleftrightarrow> ev AND flag j \<noteq> 0"

definition delivers :: "events \<Rightarrow> op_type \<Rightarrow> bool" where
  "delivers ev j \<longleftrightarrow> ev AND (flag j OR EPOLLERR OR EPOLLHUP) \<noteq> 0"

definition armed :: "'w kernel \<Rightarrow> 'w \<Rightarrow> did \<Rightarrow> op_type \<Rightarrow> bool" where
  "armed k w d j \<longleftrightarrow> ready k w d j \<longrightarrow> pend k w d j"

text \<open>The world may change so that no readiness goes unnoticed.\<close>

definition keeps :: "'w kernel \<Rightarrow> 'w \<Rightarrow> 'w \<Rightarrow> did \<Rightarrow> bool" where
  "keeps k w w' d \<longleftrightarrow> interest k w' d = interest k w d \<and>
     (\<forall>j. covers (interest k w d) j \<and> armed k w d j \<longrightarrow> armed k w' d j)"

text \<open>
  Edge-triggered epoll: an attempt that did not complete, or that exhausted the descriptor, leaves
  it not ready, or pending again, and a \<open>perform\<close> function keeps the identity of its operation
  (\<open>perform_law\<close>). \<open>epoll_ctl\<close> touches no other registration, and none if it fails, which any
  call may (\<open>ctl_frame\<close>); adding or modifying a registration makes an event pending for whatever is
  ready (\<open>ctl_success\<close>). Waiting reports events or leaves them pending (\<open>wait_law\<close>).
\<close>

definition perform_law :: "'w os \<Rightarrow> 'w kernel \<Rightarrow> bool" where
  "perform_law os k \<longleftrightarrow> (\<forall>d j op w. case os_perform os d j op w of (st, op', w') \<Rightarrow>
     rop_id op' = rop_id op \<and> (\<forall>d'. keeps k w w' d') \<and>
     (st \<noteq> Perform_done \<longrightarrow> covers (interest k w d) j \<longrightarrow> armed k w' d j))"

definition ctl_frame :: "'w os \<Rightarrow> 'w kernel \<Rightarrow> bool" where
  "ctl_frame os k \<longleftrightarrow> (\<forall>c fd ev p w. case os_epoll_ctl os c fd ev p w of (r, w') \<Rightarrow>
     \<forall>d. p \<noteq> Descr_ptr d \<or> r \<noteq> 0 \<longrightarrow> keeps k w w' d)"

definition ctl_success :: "'w os \<Rightarrow> 'w kernel \<Rightarrow> bool" where
  "ctl_success os k \<longleftrightarrow> (\<forall>c fd ev p w. case os_epoll_ctl os c fd ev p w of (r, w') \<Rightarrow>
     \<forall>d. p = Descr_ptr d \<longrightarrow> r = 0 \<longrightarrow> c \<noteq> Ctl_del \<longrightarrow>
        interest k w' d = ev \<and> (\<forall>j. covers ev j \<longrightarrow> armed k w' d j))"

definition ctl_law :: "'w os \<Rightarrow> 'w kernel \<Rightarrow> bool" where
  "ctl_law os k \<longleftrightarrow> ctl_frame os k \<and> ctl_success os k"

definition wait_law :: "'w os \<Rightarrow> 'w kernel \<Rightarrow> bool" where
  "wait_law os k \<longleftrightarrow> (\<forall>timeout w. case os_epoll_wait os timeout w of (evs, w') \<Rightarrow>
     (\<forall>d. interest k w' d = interest k w d \<and>
        (\<forall>j. covers (interest k w d) j \<longrightarrow> armed k w d j \<longrightarrow>
           armed k w' d j \<or> (\<exists>ev. (Descr_ptr d, ev) \<in> set evs \<and> delivers ev j))))"

definition settime_law :: "'w os \<Rightarrow> 'w kernel \<Rightarrow> bool" where
  "settime_law os k \<longleftrightarrow> (\<forall>abstime sec nsec w d. keeps k w (os_timerfd_settime os abstime sec nsec w) d)"

definition edge_triggered :: "'w os \<Rightarrow> 'w kernel \<Rightarrow> bool" where
  "edge_triggered os k \<longleftrightarrow> perform_law os k \<and> ctl_law os k \<and> wait_law os k \<and> settime_law os k"

text \<open>The laws without (\<open>c\<close> false) and with the promise of a successful \<open>epoll_ctl\<close>.\<close>

definition edge_laws :: "bool \<Rightarrow> 'w os \<Rightarrow> 'w kernel \<Rightarrow> bool" where
  "edge_laws c os k \<longleftrightarrow> perform_law os k \<and> ctl_frame os k \<and> wait_law os k \<and> settime_law os k \<and>
     (c \<longrightarrow> ctl_success os k)"

lemma edge_laws_True: "edge_laws True os k \<longleftrightarrow> edge_triggered os k"
  by (auto simp: edge_laws_def edge_triggered_def ctl_law_def)

lemma edge_perform:
  assumes "edge_laws c os k" "os_perform os d j op w = (st, op', w')"
  shows "rop_id op' = rop_id op" "keeps k w w' d'"
    "st \<noteq> Perform_done \<Longrightarrow> covers (interest k w d) j \<Longrightarrow> armed k w' d j"
proof -
  from assms(1) have "perform_law os k" by (simp add: edge_laws_def)
  then have law: "case os_perform os d j op w of (st, op', w') \<Rightarrow>
     rop_id op' = rop_id op \<and> (\<forall>d'. keeps k w w' d') \<and>
     (st \<noteq> Perform_done \<longrightarrow> covers (interest k w d) j \<longrightarrow> armed k w' d j)"
    unfolding perform_law_def by (elim allE)
  show "rop_id op' = rop_id op" "keeps k w w' d'"
    "st \<noteq> Perform_done \<Longrightarrow> covers (interest k w d) j \<Longrightarrow> armed k w' d j"
    using law assms(2) by simp_all
qed

lemma edge_ctl:
  assumes "edge_laws c os k" "os_epoll_ctl os op fd ev p w = (r, w')"
  shows "p \<noteq> Descr_ptr d \<or> r \<noteq> 0 \<Longrightarrow> keeps k w w' d"
    "c \<Longrightarrow> p = Descr_ptr d \<Longrightarrow> r = 0 \<Longrightarrow> op \<noteq> Ctl_del \<Longrightarrow> interest k w' d = ev"
    "c \<Longrightarrow> p = Descr_ptr d \<Longrightarrow> r = 0 \<Longrightarrow> op \<noteq> Ctl_del \<Longrightarrow> covers ev j \<Longrightarrow> armed k w' d j"
proof -
  from assms(1) have "ctl_frame os k" by (simp add: edge_laws_def)
  then have frame: "case os_epoll_ctl os op fd ev p w of (r, w') \<Rightarrow>
     \<forall>d. p \<noteq> Descr_ptr d \<or> r \<noteq> 0 \<longrightarrow> keeps k w w' d"
    unfolding ctl_frame_def by (elim allE)
  then show "p \<noteq> Descr_ptr d \<or> r \<noteq> 0 \<Longrightarrow> keeps k w w' d" using assms(2) by simp
  have law: "case os_epoll_ctl os op fd ev p w of (r, w') \<Rightarrow>
     \<forall>d. p = Descr_ptr d \<longrightarrow> r = 0 \<longrightarrow> op \<noteq> Ctl_del \<longrightarrow>
        interest k w' d = ev \<and> (\<forall>j. covers ev j \<longrightarrow> armed k w' d j)" if c
  proof -
    from assms(1) that have "ctl_success os k" by (simp add: edge_laws_def)
    then show ?thesis unfolding ctl_success_def by (elim allE)
  qed
  show "c \<Longrightarrow> p = Descr_ptr d \<Longrightarrow> r = 0 \<Longrightarrow> op \<noteq> Ctl_del \<Longrightarrow> interest k w' d = ev"
    "c \<Longrightarrow> p = Descr_ptr d \<Longrightarrow> r = 0 \<Longrightarrow> op \<noteq> Ctl_del \<Longrightarrow> covers ev j \<Longrightarrow> armed k w' d j"
    using law assms(2) by simp_all
qed

lemma edge_wait:
  assumes "edge_laws c os k" "os_epoll_wait os timeout w = (evs, w')"
  shows "interest k w' d = interest k w d"
    "covers (interest k w d) j \<Longrightarrow> armed k w d j \<Longrightarrow>
     armed k w' d j \<or> (\<exists>ev. (Descr_ptr d, ev) \<in> set evs \<and> delivers ev j)"
proof -
  from assms(1) have "wait_law os k" by (simp add: edge_laws_def)
  then have law: "case os_epoll_wait os timeout w of (evs, w') \<Rightarrow>
     (\<forall>d. interest k w' d = interest k w d \<and>
        (\<forall>j. covers (interest k w d) j \<longrightarrow> armed k w d j \<longrightarrow>
           armed k w' d j \<or> (\<exists>ev. (Descr_ptr d, ev) \<in> set evs \<and> delivers ev j)))"
    unfolding wait_law_def by (elim allE)
  show "interest k w' d = interest k w d"
    "covers (interest k w d) j \<Longrightarrow> armed k w d j \<Longrightarrow>
     armed k w' d j \<or> (\<exists>ev. (Descr_ptr d, ev) \<in> set evs \<and> delivers ev j)"
    using law assms(2) by simp_all
qed

lemma edge_settime:
  "edge_laws c os k \<Longrightarrow> keeps k w (os_timerfd_settime os abstime sec nsec w) d"
  unfolding edge_laws_def settime_law_def by blast

lemma keeps_refl [simp]: "keeps k w w d"
  by (simp add: keeps_def)

lemma keeps_trans: "keeps k w w1 d \<Longrightarrow> keeps k w1 w2 d \<Longrightarrow> keeps k w w2 d"
  by (simp add: keeps_def)

section \<open>Steps\<close>

record 'w rx_system =
  rx :: "'w reactor"
  usable :: "did set"
  inflight :: "(did \<times> events) list"
  inline_ops :: "operation list"
  started :: "nat multiset"
  descr_runs :: nat
  refused :: "did set"

text \<open>
  The states handed out by \<open>run\<close>, with the result each carries when the scheduler takes it.
\<close>

fun handed :: "'w reactor \<Rightarrow> operation list \<Rightarrow> (did \<times> events) list" where
  "handed s [] = []"
| "handed s (Descr_op d # ops) = (d, task_result (descr s d)) # handed s ops"
| "handed s (_ # ops) = handed s ops"

text \<open>
  \<open>start_op\<close> without an attempt modifies the registration before it queues the operation, and does not
  look at the result (\<open>epoll_reactor.ipp:314\<close>): whether the kernel refused it.
\<close>

definition rearm_refused :: "'w os \<Rightarrow> op_type \<Rightarrow> int \<Rightarrow> did option \<Rightarrow> bool \<Rightarrow> 'w reactor \<Rightarrow> bool" where
  "rearm_refused os j fd data allow_speculative s \<longleftrightarrow>
     (case data of
        None \<Rightarrow> False
      | Some d \<Rightarrow>
          \<not> ds_shutdown (descr s d) \<and> op_queue_of (descr s d) j = [] \<and>
          \<not> (allow_speculative \<and> (j \<noteq> Read_op \<or> op_queue_of (descr s d) Except_op = [])) \<and>
          registered_events (descr s d) \<noteq> 0 \<and>
          fst (os_epoll_ctl os Ctl_mod fd
            (if j = Write_op then registered_events (descr s d) OR EPOLLOUT else registered_events (descr s d))
            (Descr_ptr d) (world s)) \<noteq> 0)"

text \<open>
  \<open>refused\<close> are the descriptors for which that has happened since they were registered.
  \<open>usable\<close> are the descriptor states a client holds a \<open>per_descriptor_data\<close> for. A client frees
  one (\<open>cleanup_descriptor_data\<close>) after it has deregistered it, and drops one that failed to
  register.
\<close>

inductive rx_step :: "nat \<Rightarrow> nat \<Rightarrow> 'w os \<Rightarrow> 'w kernel \<Rightarrow> 'w rx_system \<Rightarrow> 'w rx_system \<Rightarrow> bool"
  for pnum pden os k where
  register: "\<lbrakk> register_descriptor os fresh fd (rx st) = (result, Some d, s');
     \<forall>live free. pool_rep (descrs (rx st)) live free \<longrightarrow> fresh \<notin> set live \<rbrakk> \<Longrightarrow>
   rx_step pnum pden os k st
     (st\<lparr>rx := s', usable := (if result = 0 then insert d (usable st) else usable st),
         refused := refused st - {d}\<rparr>)"
| start: "\<lbrakk> data = None \<or> (\<exists>d \<in> usable st. data = Some d) \<rbrakk> \<Longrightarrow>
   rx_step pnum pden os k st
     (st\<lparr>rx := start_op os j fd data op cont spec (rx st), started := add_mset (rop_id op) (started st),
         refused := (if rearm_refused os j fd data spec (rx st) then insert (the data) (refused st) else refused st)\<rparr>)"
| cancel: "\<lbrakk> d \<in> usable st \<rbrakk> \<Longrightarrow>
   rx_step pnum pden os k st (st\<lparr>rx := cancel_ops (Some d) (rx st)\<rparr>)"
| cancel_key: "\<lbrakk> d \<in> usable st \<rbrakk> \<Longrightarrow>
   rx_step pnum pden os k st (st\<lparr>rx := cancel_ops_by_key (Some d) j key (rx st)\<rparr>)"
| deregister: "\<lbrakk> d \<in> usable st; deregister_descriptor os fd (Some d) closing (rx st) = (data, s') \<rbrakk> \<Longrightarrow>
   rx_step pnum pden os k st
     (st\<lparr>rx := s', usable := (if data = None then usable st - {d} else usable st)\<rparr>)"
| cleanup: "\<lbrakk> d \<in> usable st; ds_shutdown (descr (rx st) d) \<rbrakk> \<Longrightarrow>
   rx_step pnum pden os k st
     (st\<lparr>rx := snd (cleanup_descriptor_data (Some d) (rx st)), usable := usable st - {d}\<rparr>)"
| run: "\<lbrakk> rx_run pnum pden os usec (rx st) = Some (ops, s') \<rbrakk> \<Longrightarrow>
   rx_step pnum pden os k st (st\<lparr>rx := s', inflight := inflight st @ handed s' ops\<rparr>)"
| perform: "\<lbrakk> (d, ev) \<in> set (inflight st); descr_do_complete os True d ev (rx st) = (op, s') \<rbrakk> \<Longrightarrow>
   rx_step pnum pden os k st
     (st\<lparr>rx := s', inflight := remove1 (d, ev) (inflight st),
         inline_ops := inline_ops st @ (case op of None \<Rightarrow> [] | Some x \<Rightarrow> [x]),
         descr_runs := descr_runs st + 1\<rparr>)"
| environment: "\<lbrakk> \<And>d. d \<in> usable st \<Longrightarrow> \<not> ds_shutdown (descr (rx st) d) \<Longrightarrow> keeps k (world (rx st)) w d;
     noted k w = noted k (world (rx st)) \<rbrakk> \<Longrightarrow>
   rx_step pnum pden os k st (st\<lparr>rx := (rx st)\<lparr>world := w\<rparr>\<rparr>)"

definition rx_init :: "'w reactor \<Rightarrow> 'w rx_system" where
  "rx_init s = \<lparr>rx = s, usable = {}, inflight = [], inline_ops = [], started = {#}, descr_runs = 0,
     refused = {}\<rparr>"

inductive rx_reach ::
    "nat \<Rightarrow> nat \<Rightarrow> 'w os \<Rightarrow> 'w kernel \<Rightarrow> 'w reactor \<Rightarrow> 'w rx_system \<Rightarrow> bool"
  for pnum pden os k s where
  init: "rx_reach pnum pden os k s (rx_init s)"
| step: "rx_reach pnum pden os k s st \<Longrightarrow> rx_step pnum pden os k st st' \<Longrightarrow>
    rx_reach pnum pden os k s st'"

section \<open>The invariant\<close>

text \<open>
  Of one registered descriptor: its queues are empty unless the kernel watches for their events,
  and if the next operation of a type would not be attempted at once, or one is waiting, then
  readiness will be noticed. With \<open>c\<close> the invariant has that of every descriptor for which the
  kernel has not refused a modification.
\<close>

definition descr_ok :: "'w kernel \<Rightarrow> 'w \<Rightarrow> (did \<times> events) list \<Rightarrow> did \<Rightarrow> descr_state \<Rightarrow> bool" where
  "descr_ok k w fl d ds \<longleftrightarrow>
     (if registered_events ds = 0 then \<forall>j. op_queue_of ds j = []
      else interest k w d = registered_events ds \<and>
        covers (registered_events ds) Read_op \<and> covers (registered_events ds) Except_op \<and>
        (\<forall>j. op_queue_of ds j \<noteq> [] \<longrightarrow> covers (registered_events ds) j) \<and>
        (\<forall>j. (op_queue_of ds j \<noteq> [] \<or> \<not> try_speculative ds j) \<and> covers (registered_events ds) j \<longrightarrow>
           armed k w d j \<or> (\<exists>ev. (d, ev) \<in> set fl \<and> delivers ev j)))"

definition rx_inv :: "bool \<Rightarrow> 'w kernel \<Rightarrow> 'w rx_system \<Rightarrow> bool" where
  "rx_inv c k st \<longleftrightarrow>
     (\<exists>live free. pool_rep (descrs (rx st)) live free \<and> usable st \<subseteq> set live) \<and>
     (\<forall>d j. op_queue_of (descr (rx st) d) j \<noteq> [] \<longrightarrow>
        d \<in> usable st \<and> \<not> ds_shutdown (descr (rx st) d)) \<and>
     (\<forall>d \<in> usable st. c \<and> d \<notin> refused st \<and> \<not> ds_shutdown (descr (rx st) d) \<longrightarrow>
        descr_ok k (world (rx st)) (inflight st) d (descr (rx st) d)) \<and>
     started st = call_ids (calls (rx st)) + ids_of (inline_ops st) +
       (\<Sum>d \<in> usable st. queued_ids (descr (rx st) d)) \<and>
     calls_work (calls (rx st)) =
       (\<Sum>d \<in> usable st. int (size (queued_ids (descr (rx st) d)))) + int (descr_runs st)"

end
