(* ===== verification/EpollInv.thy ===== *)
theory EpollInv
  imports EpollSteps
begin

text \<open>
  Every step of the epoll reactor keeps its invariant: operations are neither lost nor delivered
  twice, the work the scheduler counts is the work there is, and no readiness goes unnoticed.
\<close>

section \<open>Changes of one descriptor\<close>

lemmas rx_state_defs = set_descr_def set_queue_def set_speculative_def call_def

lemma descr_ok_keeps:
  assumes "descr_ok k w fl d ds" "keeps k w w' d"
    and "\<And>ev. (d, ev) \<in> set fl \<Longrightarrow> (d, ev) \<in> set fl'"
  shows "descr_ok k w' fl' d ds"
  using assms unfolding descr_ok_def keeps_def by (auto split: if_splits)

lemma queued_ids_update:
  "queued_ids (ds\<lparr>op_queue_of := (op_queue_of ds)(j := q)\<rparr>) + mset (map rop_id (op_queue_of ds j)) =
   queued_ids ds + mset (map rop_id q)"
  by (cases j) (simp_all add: queued_ids_def)

lemma queued_ids_same [simp]:
  "queued_ids (ds\<lparr>ds_descriptor := a\<rparr>) = queued_ids ds"
  "queued_ids (ds\<lparr>registered_events := b\<rparr>) = queued_ids ds"
  "queued_ids (ds\<lparr>try_speculative := c\<rparr>) = queued_ids ds"
  "queued_ids (ds\<lparr>ds_shutdown := e\<rparr>) = queued_ids ds"
  "queued_ids (ds\<lparr>task_result := f\<rparr>) = queued_ids ds"
  by (simp_all add: queued_ids_def)

text \<open>
  The balance of a change at \<open>d\<close>: the operations \<open>new\<close> came, the operations \<open>out\<close> went to the
  caller, and \<open>n\<close> units of work were used.
\<close>

definition balanced :: "did \<Rightarrow> 'w reactor \<Rightarrow> 'w reactor \<Rightarrow> nat multiset \<Rightarrow> nat multiset \<Rightarrow> int \<Rightarrow> bool" where
  "balanced d s s' new out n \<longleftrightarrow>
     queued_ids (descr s' d) + call_ids (calls s') + out = queued_ids (descr s d) + call_ids (calls s) + new \<and>
     calls_work (calls s') + int (size (queued_ids (descr s d))) =
       calls_work (calls s) + int (size (queued_ids (descr s' d))) + n"

definition only_at :: "'w kernel \<Rightarrow> did \<Rightarrow> 'w reactor \<Rightarrow> 'w reactor \<Rightarrow> bool" where
  "only_at k d s s' \<longleftrightarrow> descrs s' = descrs s \<and>
     (\<forall>d'. d' \<noteq> d \<longrightarrow> descr s' d' = descr s d' \<and> keeps k (world s) (world s') d')"

lemma only_at_refl [simp]: "only_at k d s s"
  by (simp add: only_at_def)

lemma only_at_trans: "only_at k d s s1 \<Longrightarrow> only_at k d s1 s2 \<Longrightarrow> only_at k d s s2"
  by (auto simp: only_at_def intro: keeps_trans)

lemma only_at_simps [simp]:
  "only_at k d s (call c s') = only_at k d s s'"
  "only_at k d s (set_descr d f s') = only_at k d s s'"
  "only_at k d s (set_queue d j q s') = only_at k d s s'"
  "only_at k d s (set_speculative d j b s') = only_at k d s s'"
  by (auto simp: only_at_def rx_state_defs)

lemma sum_at:
  assumes "finite U" "d \<in> U" "\<And>x. x \<in> U \<Longrightarrow> x \<noteq> d \<Longrightarrow> f' x = f x"
  shows "sum f' U + f d = sum f U + (f' d :: 'a::comm_monoid_add)"
proof -
  have "sum f' (U - {d}) = sum f (U - {d})" using assms(3) by (intro sum.cong) auto
  then show ?thesis using assms(1,2) by (simp add: sum.remove [of U d] ac_simps)
qed

lemma rx_inv_usable_finite: "rx_inv c k st \<Longrightarrow> finite (usable st)"
  by (auto simp: rx_inv_def dest: finite_subset)

lemma rx_inv_change:
  assumes inv: "rx_inv c k st" and at: "only_at k d (rx st) s'"
    and q: "\<And>j. op_queue_of (descr s' d) j \<noteq> [] \<Longrightarrow> d \<in> usable st \<and> \<not> ds_shutdown (descr s' d)"
    and ok: "c \<Longrightarrow> d \<in> usable st \<Longrightarrow> d \<notin> rf \<Longrightarrow> \<not> ds_shutdown (descr s' d) \<Longrightarrow> descr_ok k (world s') fl d (descr s' d)"
    and rf: "refused st - {d} \<subseteq> rf"
    and fl: "\<And>d' ev. d' \<noteq> d \<Longrightarrow> (d', ev) \<in> set (inflight st) \<Longrightarrow> (d', ev) \<in> set fl"
    and bal: "balanced d (rx st) s' new (ids_of out) (int n)"
  shows "rx_inv c k (st\<lparr>rx := s', inflight := fl, inline_ops := inline_ops st @ out,
      started := started st + new, descr_runs := descr_runs st + n, refused := rf\<rparr>)"
proof -
  from at have same: "descrs s' = descrs (rx st)"
    "\<And>d'. d' \<noteq> d \<Longrightarrow> descr s' d' = descr (rx st) d'" "\<And>d'. d' \<noteq> d \<Longrightarrow> keeps k (world (rx st)) (world s') d'"
    by (auto simp: only_at_def)
  note fin = rx_inv_usable_finite [OF inv]
  have none: "queued_ids (descr (rx st) d) = {#}" "queued_ids (descr s' d) = {#}" if "d \<notin> usable st"
  proof -
    have "op_queue_of (descr (rx st) d) j = []" "op_queue_of (descr s' d) j = []" for j
      using inv q that by (auto simp: rx_inv_def)
    then show "queued_ids (descr (rx st) d) = {#}" "queued_ids (descr s' d) = {#}"
      by (simp_all add: queued_ids_def)
  qed
  have away: "(\<Sum>x \<in> usable st. g (descr s' x)) = (\<Sum>x \<in> usable st. g (descr (rx st) x))"
    if "d \<notin> usable st" for g :: "descr_state \<Rightarrow> 'b::comm_monoid_add"
    using same(2) that by (metis (no_types, lifting) sum.cong)
  have s1: "(\<Sum>x \<in> usable st. queued_ids (descr s' x)) + queued_ids (descr (rx st) d) =
      (\<Sum>x \<in> usable st. queued_ids (descr (rx st) x)) + queued_ids (descr s' d)"
  proof (cases "d \<in> usable st")
    case True
    show ?thesis by (rule sum_at [OF fin True]) (simp add: same)
  qed (simp add: none away [of queued_ids])
  have s2: "(\<Sum>x \<in> usable st. int (size (queued_ids (descr s' x)))) + int (size (queued_ids (descr (rx st) d))) =
      (\<Sum>x \<in> usable st. int (size (queued_ids (descr (rx st) x)))) + int (size (queued_ids (descr s' d)))"
  proof (cases "d \<in> usable st")
    case True
    show ?thesis by (rule sum_at [OF fin True]) (simp add: same)
  qed (simp add: none away [of "\<lambda>ds. int (size (queued_ids ds))"])
  from inv have eq: "started st = call_ids (calls (rx st)) + ids_of (inline_ops st) +
       (\<Sum>d \<in> usable st. queued_ids (descr (rx st) d))"
    and work: "calls_work (calls (rx st)) =
       (\<Sum>d \<in> usable st. int (size (queued_ids (descr (rx st) d)))) + int (descr_runs st)"
    by (auto simp: rx_inv_def)
  from bal have b1: "queued_ids (descr s' d) + call_ids (calls s') + ids_of out =
      queued_ids (descr (rx st) d) + call_ids (calls (rx st)) + new"
    and b2: "calls_work (calls s') + int (size (queued_ids (descr (rx st) d))) =
       calls_work (calls (rx st)) + int (size (queued_ids (descr s' d))) + int n"
    by (auto simp: balanced_def)
  have a1: "started st + new = call_ids (calls s') + (ids_of (inline_ops st) + ids_of out) +
      (\<Sum>x \<in> usable st. queued_ids (descr s' x))"
  proof (rule multiset_eqI)
    fix x
    show "count (started st + new) x = count (call_ids (calls s') + (ids_of (inline_ops st) + ids_of out) +
        (\<Sum>x \<in> usable st. queued_ids (descr s' x))) x"
      using arg_cong [OF b1, of "\<lambda>m. count m x"] arg_cong [OF eq, of "\<lambda>m. count m x"]
        arg_cong [OF s1, of "\<lambda>m. count m x"] by simp
  qed
  have a2: "calls_work (calls s') = (\<Sum>x \<in> usable st. int (size (queued_ids (descr s' x)))) +
      int (descr_runs st + n)"
    using work b2 s2 by simp
  have "\<forall>x j. op_queue_of (descr s' x) j \<noteq> [] \<longrightarrow> x \<in> usable st \<and> \<not> ds_shutdown (descr s' x)"
  proof (intro allI impI)
    fix x j assume "op_queue_of (descr s' x) j \<noteq> []"
    then show "x \<in> usable st \<and> \<not> ds_shutdown (descr s' x)"
      using inv q same(2) [of x] unfolding rx_inv_def by (cases "x = d") auto
  qed
  moreover have "\<forall>x \<in> usable st. c \<and> x \<notin> rf \<and> \<not> ds_shutdown (descr s' x) \<longrightarrow> descr_ok k (world s') fl x (descr s' x)"
  proof (intro ballI impI)
    fix x assume x: "x \<in> usable st" "c \<and> x \<notin> rf \<and> \<not> ds_shutdown (descr s' x)"
    show "descr_ok k (world s') fl x (descr s' x)"
    proof (cases "x = d")
      case False
      with x rf inv same(2) [OF False] have "descr_ok k (world (rx st)) (inflight st) x (descr s' x)"
        by (auto simp: rx_inv_def)
      then show ?thesis by (rule descr_ok_keeps [OF _ same(3) [OF False] fl [OF False]])
    qed (use ok x in simp)
  qed
  moreover have "\<exists>live free. pool_rep (descrs s') live free \<and> usable st \<subseteq> set live"
    using inv same(1) by (auto simp: rx_inv_def)
  ultimately show ?thesis
    unfolding rx_inv_def using a1 a2 by simp
qed

section \<open>Starting an operation\<close>

lemma balanced_from:
  "balanced d s1 s' new out n \<Longrightarrow> queued_ids (descr s1 d) = queued_ids (descr s d) \<Longrightarrow>
   calls s1 = calls s \<Longrightarrow> balanced d s s' new out n"
  by (simp add: balanced_def)

lemma queue_op_balanced: "balanced d s (queue_op j d op s) {#rop_id op#} {#} 0"
  using queued_ids_update [of "descr s d" j "op_queue_of (descr s d) j @ [op]"]
  by (cases j) (simp_all add: balanced_def queue_op_def rx_state_defs queued_ids_def)

lemma fail_op_balanced: "balanced d s (fail_op ec op c s) {#rop_id op#} {#} 0"
  by (simp add: balanced_def fail_op_def rx_state_defs)

lemma post_balanced: "balanced d s (call (Post_immediate (Io_op op) c) s) {#rop_id op#} {#} 0"
  by (simp add: balanced_def rx_state_defs)

lemma op_only_at [simp]:
  "only_at k d s (queue_op j d op s') = only_at k d s s'"
  "only_at k d s (fail_op ec op c s') = only_at k d s s'"
  by (simp_all add: queue_op_def fail_op_def)

lemma op_descr [simp]:
  "ds_shutdown (descr (queue_op j d op s) d) = ds_shutdown (descr s d)"
  "descr (fail_op ec op c s) = descr s" "world (fail_op ec op c s) = world s"
  "world (queue_op j d op s) = world s" "descr (call c' s) = descr s" "world (call c' s) = world s"
  by (simp_all add: queue_op_def fail_op_def rx_state_defs)

lemma queue_op_ok:
  assumes "descr_ok k (world s) fl d (descr s d)" "registered_events (descr s d) \<noteq> 0"
    and "covers (registered_events (descr s d)) j"
    and "armed k (world s) d j \<or> (\<exists>ev. (d, ev) \<in> set fl \<and> delivers ev j)"
  shows "descr_ok k (world (queue_op j d op s)) fl d (descr (queue_op j d op s) d)"
  using assms unfolding descr_ok_def by (auto simp: queue_op_def rx_state_defs)

lemma epoll_ctl_facts:
  assumes "epoll_ctl os c fd ev p s = (r, s')"
  shows "os_epoll_ctl os c fd ev p (world s) = (r, world s')" "descr s' = descr s" "descrs s' = descrs s"
    "calls s' = calls s"
  using assms by (auto simp: epoll_ctl_def split: prod.splits)

lemma epoll_ctl_only_at:
  "edge_laws c os k \<Longrightarrow> epoll_ctl os cmd fd ev (Descr_ptr d) s = (r, s') \<Longrightarrow> only_at k d s s'"
  using epoll_ctl_facts [of os cmd fd ev "Descr_ptr d" s r s'] edge_ctl(1) [of c os k cmd fd ev "Descr_ptr d"]
  by (auto simp: only_at_def)

text \<open>
  The change made by a step at \<open>d\<close>, for an operation that comes. \<open>e\<close> says whether the registration is
  known to be in order; it is then again if \<open>e'\<close>.
\<close>

definition started_ok :: "bool \<Rightarrow> 'w kernel \<Rightarrow> (did \<times> events) list \<Rightarrow> did \<Rightarrow> nat \<Rightarrow> 'w reactor \<Rightarrow> 'w reactor \<Rightarrow> bool"
where
  "started_ok e' k fl d i s s' \<longleftrightarrow> only_at k d s s' \<and> \<not> ds_shutdown (descr s' d) \<and>
     (e' \<longrightarrow> descr_ok k (world s') fl d (descr s' d)) \<and> balanced d s s' {#i#} {#} 0"

lemma covers_or: "covers (ev OR ev') j \<longleftrightarrow> covers ev j \<or> covers ev' j"
  by (auto simp: covers_def flag_def EPOLLIN_def EPOLLOUT_def EPOLLPRI_def bit_eq_iff bit_simps
      split: op_type.splits)

lemma covers_EPOLLOUT: "covers EPOLLOUT j \<longleftrightarrow> j = Write_op"
  by (cases j) (simp_all add: covers_def flag_def EPOLLIN_def EPOLLOUT_def EPOLLPRI_def)

lemma covers_Write: "covers ev Write_op \<longleftrightarrow> ev AND EPOLLOUT \<noteq> 0"
  by (simp add: covers_def flag_def)

lemma or_self_mask: "(a OR (a OR b)) = a OR (b :: events)"
  by (simp flip: or.assoc)

text \<open>A successful modification arms every type the events cover.\<close>

lemma modified_ok:
  assumes edge: "edge_laws True os k"
    and ctl: "epoll_ctl os Ctl_mod fd ev (Descr_ptr d) s = (0, s1)"
    and ok: "descr_ok k (world s0) fl d (descr s0 d)" and r: "registered_events (descr s0 d) \<noteq> 0"
    and ev: "ev = registered_events (descr s0 d) \<or> ev = registered_events (descr s0 d) OR EPOLLOUT"
    and ds: "op_queue_of (descr s2 d) = op_queue_of (descr s0 d)" "registered_events (descr s2 d) = ev"
      "world s2 = world s1"
  shows "descr_ok k (world s2) fl d (descr s2 d)" "covers ev j \<Longrightarrow> armed k (world s2) d j" "ev \<noteq> 0"
proof -
  have c: "covers (registered_events (descr s0 d)) j \<Longrightarrow> covers ev j" for j
    using ev by (auto simp: covers_or)
  from ok r have "covers (registered_events (descr s0 d)) Read_op" by (simp add: descr_ok_def)
  with c have "covers ev Read_op" by blast
  then show "ev \<noteq> 0" by (auto simp: covers_def)
  note law = edge_ctl [OF edge epoll_ctl_facts(1) [OF ctl]]
  have arm: "covers ev j \<Longrightarrow> armed k (world s2) d j" for j using law(3) [OF TrueI refl refl] ds(3) by simp
  then show "covers ev j \<Longrightarrow> armed k (world s2) d j" .
  show "descr_ok k (world s2) fl d (descr s2 d)"
    using ok r c arm law(2) ds \<open>ev \<noteq> 0\<close> unfolding descr_ok_def by auto
qed

lemma edge_laws_if: "edge_laws c os k \<Longrightarrow> c \<Longrightarrow> edge_laws True os k"
  by simp

lemma after_speculation_ok:
  assumes edge: "edge_laws c os k" and e: "e \<Longrightarrow> c" and ok: "e \<Longrightarrow> descr_ok k (world s) fl d (descr s d)"
    and up: "\<not> ds_shutdown (descr s d)"
    and arm: "e \<Longrightarrow> covers (registered_events (descr s d)) j \<Longrightarrow>
      armed k (world s) d j \<or> (\<exists>ev. (d, ev) \<in> set fl \<and> delivers ev j)"
  shows "started_ok e k fl d (rop_id op) s (after_speculation os j d fd op cont s)"
proof (cases "registered_events (descr s d) = 0")
  case True
  then show ?thesis
    using ok up by (simp add: after_speculation_def started_ok_def fail_op_balanced)
next
  case reg: False
  show ?thesis
  proof (cases "j = Write_op \<and> registered_events (descr s d) AND EPOLLOUT = 0")
    case False
    then have "e \<Longrightarrow> covers (registered_events (descr s d)) j"
      using ok reg by (cases j) (auto simp: descr_ok_def covers_Write)
    moreover have "after_speculation os j d fd op cont s = queue_op j d op s"
      using False reg by (auto simp: after_speculation_def)
    ultimately show ?thesis
      using queue_op_ok [OF ok reg _ arm] up by (simp add: started_ok_def queue_op_balanced)
  next
    case True
    let ?ev = "registered_events (descr s d) OR EPOLLOUT"
    obtain r s1 where ctl: "epoll_ctl os Ctl_mod fd ?ev (Descr_ptr d) s = (r, s1)" by fastforce
    note f = epoll_ctl_facts [OF ctl]
    show ?thesis
    proof (cases "r = 0")
      case False
      then have "keeps k (world s) (world s1) d" using edge_ctl(1) [OF edge f(1)] by simp
      then have "e \<longrightarrow> descr_ok k (world s1) fl d (descr s1 d)" using descr_ok_keeps [OF ok] by (auto simp: f)
      moreover have "balanced d s (fail_op (Sys_error r) op cont s1) {#rop_id op#} {#} 0"
        by (rule balanced_from [OF fail_op_balanced]) (simp_all add: f)
      moreover have "only_at k d s (fail_op (Sys_error r) op cont s1)"
        using epoll_ctl_only_at [OF edge ctl] by simp
      moreover have "after_speculation os j d fd op cont s = fail_op (Sys_error r) op cont s1"
        using True reg False by (simp add: after_speculation_def Let_def ctl)
      ultimately show ?thesis using up by (simp add: started_ok_def f(2))
    next
      case r: True
      let ?s2 = "set_descr d (\<lambda>ds. ds\<lparr>registered_events := registered_events ds OR ?ev\<rparr>) s1"
      have reg2: "registered_events (descr ?s2 d) = ?ev" and ds: "op_queue_of (descr ?s2 d) = op_queue_of (descr s d)"
        "world ?s2 = world s1" "ds_shutdown (descr ?s2 d) = ds_shutdown (descr s d)"
        "queued_ids (descr ?s2 d) = queued_ids (descr s d)" "calls ?s2 = calls s"
        by (simp_all add: set_descr_def f or_self_mask)
      have "descr_ok k (world (queue_op j d op ?s2)) fl d (descr (queue_op j d op ?s2) d)" if e': e
      proof -
        note m = modified_ok [OF edge_laws_if [OF edge e [OF e']] ctl [unfolded r] ok [OF e'] reg _ ds(1) reg2 ds(2)]
        have cov: "covers ?ev j" using True by (simp add: covers_or covers_EPOLLOUT)
        show ?thesis using queue_op_ok [of k ?s2 fl d j op] m cov reg2 by simp
      qed
      moreover have "only_at k d s (queue_op j d op ?s2)"
        using epoll_ctl_only_at [OF edge ctl] by simp
      moreover have "balanced d s (queue_op j d op ?s2) {#rop_id op#} {#} 0"
        by (rule balanced_from [OF queue_op_balanced ds(4,5)])
      moreover have "after_speculation os j d fd op cont s = queue_op j d op ?s2"
        using True reg by (simp add: after_speculation_def Let_def ctl [unfolded r])
      moreover have "\<not> ds_shutdown (descr (queue_op j d op ?s2) d)"
        using up ds(3) by simp
      ultimately show ?thesis by (simp add: started_ok_def)
    qed
  qed
qed

lemma started_okI:
  assumes "only_at k d s s1" "queued_ids (descr s1 d) = queued_ids (descr s d)" "calls s1 = calls s"
    and "started_ok e k fl d i s1 s'"
  shows "started_ok e k fl d i s s'"
  using assms by (auto simp: started_ok_def intro: only_at_trans balanced_from)

lemma started_ok_weaken: "started_ok e k fl d i s s' \<Longrightarrow> (e' \<Longrightarrow> e) \<Longrightarrow> started_ok e' k fl d i s s'"
  by (simp add: started_ok_def)

text \<open>An attempt to perform an operation, whatever its outcome.\<close>

lemma performed_ok:
  assumes edge: "edge_laws c os k" and p: "os_perform os d j op (world s) = (st, op', w)"
  shows "descr_ok k (world s) fl d (descr s d) \<Longrightarrow> descr_ok k w fl d (descr s d)" "only_at k d s (s\<lparr>world := w\<rparr>)" "rop_id op' = rop_id op"
    "descr_ok k (world s) fl d (descr s d) \<Longrightarrow> st \<noteq> Perform_done \<Longrightarrow> registered_events (descr s d) \<noteq> 0 \<Longrightarrow>
     covers (registered_events (descr s d)) j \<Longrightarrow> armed k w d j"
proof -
  note law = edge_perform [OF edge p]
  show "descr_ok k (world s) fl d (descr s d) \<Longrightarrow> descr_ok k w fl d (descr s d)"
    by (rule descr_ok_keeps [OF _ law(2)])
  show "only_at k d s (s\<lparr>world := w\<rparr>)" using law(2) by (simp add: only_at_def)
  show "rop_id op' = rop_id op" by (rule law(1))
  show "descr_ok k (world s) fl d (descr s d) \<Longrightarrow> st \<noteq> Perform_done \<Longrightarrow> registered_events (descr s d) \<noteq> 0 \<Longrightarrow>
     covers (registered_events (descr s d)) j \<Longrightarrow> armed k w d j"
    using law(3) by (simp add: descr_ok_def)
qed

lemma start_op_queued:
  assumes ok: "e \<Longrightarrow> descr_ok k (world s) fl d (descr s d)"
    and up: "\<not> ds_shutdown (descr s d)" and q: "op_queue_of (descr s d) j \<noteq> []"
  shows "started_ok e k fl d (rop_id op) s (start_op os j fd (Some d) op cont spec s)"
proof -
  have "descr_ok k (world (queue_op j d op s)) fl d (descr (queue_op j d op s) d)" if e
  proof -
    have "registered_events (descr s d) \<noteq> 0" "covers (registered_events (descr s d)) j"
      "armed k (world s) d j \<or> (\<exists>ev. (d, ev) \<in> set fl \<and> delivers ev j)"
      using ok [OF that] q by (auto simp: descr_ok_def split: if_splits)
    from queue_op_ok [OF ok [OF that] this] show ?thesis .
  qed
  then show ?thesis using q up by (simp add: start_op_def started_ok_def queue_op_balanced)
qed

lemma start_op_tried:
  assumes edge: "edge_laws c os k" and e: "e \<Longrightarrow> c" and ok: "e \<Longrightarrow> descr_ok k (world s) fl d (descr s d)"
    and up: "\<not> ds_shutdown (descr s d)" and q: "op_queue_of (descr s d) j = []"
    and spec: "spec \<and> (j \<noteq> Read_op \<or> op_queue_of (descr s d) Except_op = [])"
  shows "started_ok e k fl d (rop_id op) s (start_op os j fd (Some d) op cont spec s)"
proof (cases "try_speculative (descr s d) j")
  case False
  have "e \<Longrightarrow> covers (registered_events (descr s d)) j \<Longrightarrow>
      armed k (world s) d j \<or> (\<exists>ev. (d, ev) \<in> set fl \<and> delivers ev j)"
    using ok False by (auto simp: descr_ok_def covers_def split: if_splits)
  from after_speculation_ok [OF edge e ok up this] show ?thesis
    using False q spec up by (simp add: start_op_def)
next
  case True
  obtain st op' w where p: "os_perform os d j op (world s) = (st, op', w)" by (metis prod_cases3)
  note P = performed_ok [OF edge p]
  let ?s1 = "s\<lparr>world := w\<rparr>"
  show ?thesis
  proof (cases "st = Not_done")
    case True
    have "e \<Longrightarrow> covers (registered_events (descr ?s1 d)) j \<Longrightarrow>
        armed k (world ?s1) d j \<or> (\<exists>ev. (d, ev) \<in> set fl \<and> delivers ev j)"
      using P(4) [OF ok] True by (cases "registered_events (descr s d) = 0") (auto simp: covers_def)
    with edge e P(1) [OF ok] up have "started_ok e k fl d (rop_id op') ?s1 (after_speculation os j d fd op' cont ?s1)"
      by (intro after_speculation_ok [where c = c]) simp_all
    then have "started_ok e k fl d (rop_id op) s (after_speculation os j d fd op' cont ?s1)"
      unfolding P(3) by (intro started_okI [OF P(2)]) simp_all
    then show ?thesis
      using True \<open>try_speculative (descr s d) j\<close> q spec up p by (simp add: start_op_def)
  next
    case False
    let ?s2 = "if st = Done_and_exhausted \<and> registered_events (descr ?s1 d) \<noteq> 0
      then set_speculative d j False ?s1 else ?s1"
    have "descr_ok k w fl d (descr ?s2 d)" if e
      using P(1,4) [OF ok [OF that]] by (auto simp: descr_ok_def set_speculative_def set_descr_def)
    moreover have "only_at k d s ?s2" using P(2) by simp
    moreover have "queued_ids (descr ?s2 d) = queued_ids (descr s d)" "calls ?s2 = calls s" "world ?s2 = w"
      "ds_shutdown (descr ?s2 d) = ds_shutdown (descr s d)"
      by (auto simp: set_speculative_def set_descr_def)
    ultimately have "started_ok e k fl d (rop_id op) s (call (Post_immediate (Io_op op') cont) ?s2)"
      using up post_balanced [of d ?s2 op' cont] P(3)
      by (auto simp: started_ok_def intro: balanced_from)
    then show ?thesis
      using False True q spec up p by (simp add: start_op_def Let_def)
  qed
qed

lemma start_op_untried:
  assumes edge: "edge_laws c os k" and e: "e \<Longrightarrow> c" and ok: "e \<Longrightarrow> descr_ok k (world s) fl d (descr s d)"
    and up: "\<not> ds_shutdown (descr s d)" and q: "op_queue_of (descr s d) j = []"
    and spec: "\<not> (spec \<and> (j \<noteq> Read_op \<or> op_queue_of (descr s d) Except_op = []))"
  shows "started_ok (e \<and> \<not> rearm_refused os j fd (Some d) spec s) k fl d (rop_id op) s
    (start_op os j fd (Some d) op cont spec s)"
proof (cases "registered_events (descr s d) = 0")
  case True
  then show ?thesis
    using ok up q spec fail_op_balanced [of d s Operation_not_supported op cont]
    by (auto simp: start_op_def started_ok_def)
next
  case reg: False
  let ?s1 = "if j = Write_op
    then set_descr d (\<lambda>ds. ds\<lparr>registered_events := registered_events ds OR EPOLLOUT\<rparr>) s else s"
  let ?ev = "registered_events (descr ?s1 d)"
  obtain r s2 where ctl: "epoll_ctl os Ctl_mod fd ?ev (Descr_ptr d) ?s1 = (r, s2)" by fastforce
  note f = epoll_ctl_facts [OF ctl]
  have w: "world ?s1 = world s" "op_queue_of (descr ?s1 d) = op_queue_of (descr s d)"
    "ds_shutdown (descr ?s1 d) = ds_shutdown (descr s d)" "queued_ids (descr ?s1 d) = queued_ids (descr s d)"
    "calls ?s1 = calls s"
    "?ev = registered_events (descr s d) \<or> ?ev = registered_events (descr s d) OR EPOLLOUT"
    "?ev = (if j = Write_op then registered_events (descr s d) OR EPOLLOUT else registered_events (descr s d))"
    by (simp_all add: set_descr_def)
  have ds: "op_queue_of (descr s2 d) = op_queue_of (descr s d)" "registered_events (descr s2 d) = ?ev"
    "ds_shutdown (descr s2 d) = ds_shutdown (descr s d)" "queued_ids (descr s2 d) = queued_ids (descr s d)"
    "calls s2 = calls s"
    using f(2,4) w by simp_all
  have "descr_ok k (world (queue_op j d op s2)) fl d (descr (queue_op j d op s2) d)"
    if e': e and acc: "\<not> rearm_refused os j fd (Some d) spec s"
  proof -
    have r: "r = 0"
      using acc up q spec reg f(1) unfolding w(1,7) by (auto simp: rearm_refused_def)
    note m = modified_ok [OF edge_laws_if [OF edge e [OF e']] ctl [unfolded r] ok [OF e'] reg w(6) ds(1,2) refl]
    have "covers ?ev j"
      using ok [OF e'] reg by (cases j) (auto simp: descr_ok_def covers_or covers_EPOLLOUT set_descr_def)
    then show ?thesis using queue_op_ok [of k s2 fl d j op] m ds(2) by simp
  qed
  moreover have "only_at k d s (queue_op j d op s2)"
    using only_at_trans [OF _ epoll_ctl_only_at [OF edge ctl], of s] by simp
  moreover have "balanced d s (queue_op j d op s2) {#rop_id op#} {#} 0"
    by (rule balanced_from [OF queue_op_balanced ds(4,5)])
  moreover have "start_op os j fd (Some d) op cont spec s = queue_op j d op s2"
    using q spec up reg ctl by (auto simp: start_op_def Let_def)
  ultimately show ?thesis using up ds(3) by (simp add: started_ok_def)
qed

lemma start_op_ok:
  assumes "edge_laws c os k" "e \<Longrightarrow> c" "e \<Longrightarrow> descr_ok k (world s) fl d (descr s d)" "\<not> ds_shutdown (descr s d)"
  shows "started_ok (e \<and> \<not> rearm_refused os j fd (Some d) spec s) k fl d (rop_id op) s
    (start_op os j fd (Some d) op cont spec s)"
proof (cases "op_queue_of (descr s d) j = []")
  case True
  show ?thesis
  proof (cases "spec \<and> (j \<noteq> Read_op \<or> op_queue_of (descr s d) Except_op = [])")
    case spec: True
    show ?thesis by (rule started_ok_weaken [OF start_op_tried [where e = e, OF assms True spec]]) simp_all
  qed (rule start_op_untried [OF assms True])
next
  case False
  show ?thesis by (rule started_ok_weaken [OF start_op_queued [where e = e, OF assms(3,4) False]]) simp_all
qed

section \<open>Cancelling\<close>

lemma abort_loop_eq: "abort_loop q ops = ops @ map (\<lambda>op. Io_op (aborted op)) q"
  by (induction q arbitrary: ops) simp_all

lemma ids_of_map_aborted [simp]: "ids_of (map (\<lambda>op. Io_op (aborted op)) q) = mset (map rop_id q)"
  by (induction q) (simp_all add: aborted_def)

lemma max_ops_all [simp]: "set max_ops = UNIV"
  using op_type.exhaust by (auto simp: max_ops_def)

text \<open>Every queue is emptied, and its operations are aborted, the reads first.\<close>

lemma abort_all_eq:
  "abort_all max_ops d s [] =
     (set_descr d (\<lambda>ds. ds\<lparr>op_queue_of := (\<lambda>_. [])\<rparr>) s,
      map (\<lambda>op. Io_op (aborted op)) (concat (map (op_queue_of (descr s d)) max_ops)))"
proof -
  have "(\<lambda>_. []) = f(Read_op := [], Write_op := [], Except_op := [])" for f :: "op_type \<Rightarrow> reactor_op list"
    using op_type.exhaust by (auto simp: fun_eq_iff)
  then show ?thesis
    by (simp add: max_ops_def abort_loop_eq rx_state_defs)
qed

lemma queued_ids_concat: "mset (map rop_id (concat (map (op_queue_of ds) max_ops))) = queued_ids ds"
  by (simp add: max_ops_def queued_ids_def)

lemma size_queued_ids: "size (queued_ids ds) = length (concat (map (op_queue_of ds) max_ops))"
  by (simp flip: queued_ids_concat)

lemma queued_ids_none [simp]: "queued_ids (ds\<lparr>op_queue_of := (\<lambda>_. [])\<rparr>) = {#}"
  by (simp add: queued_ids_def)

text \<open>The change made by a step that aborts operations.\<close>

definition aborted_ok :: "bool \<Rightarrow> 'w kernel \<Rightarrow> (did \<times> events) list \<Rightarrow> did \<Rightarrow> 'w reactor \<Rightarrow> 'w reactor \<Rightarrow> bool" where
  "aborted_ok e k fl d s s' \<longleftrightarrow> only_at k d s s' \<and>
     (\<forall>j. set (op_queue_of (descr s' d) j) \<subseteq> set (op_queue_of (descr s d) j)) \<and>
     (\<not> ds_shutdown (descr s' d) \<longrightarrow> \<not> ds_shutdown (descr s d) \<and> (e \<longrightarrow> descr_ok k (world s') fl d (descr s' d))) \<and>
     (ds_shutdown (descr s' d) \<longrightarrow> \<not> ds_shutdown (descr s d) \<longrightarrow> (\<forall>j. op_queue_of (descr s' d) j = [])) \<and>
     balanced d s s' {#} {#} 0"

lemma descr_ok_fewer:
  assumes "descr_ok k w fl d ds" "\<And>j. q j \<noteq> [] \<Longrightarrow> op_queue_of ds j \<noteq> []"
  shows "descr_ok k w fl d (ds\<lparr>op_queue_of := q\<rparr>)"
  using assms unfolding descr_ok_def by (auto split: if_splits)

lemma cancel_ops_balanced:
  assumes "descr s' d = f ((descr s d)\<lparr>op_queue_of := (\<lambda>_. [])\<rparr>)" "\<And>ds. queued_ids (f ds) = queued_ids ds"
    and "calls s' = calls s @ [Post_deferred (map (\<lambda>op. Io_op (aborted op))
          (concat (map (op_queue_of (descr s d)) max_ops)))]"
  shows "balanced d s s' {#} {#} 0"
proof -
  have "ids_of (map (\<lambda>op. Io_op (aborted op)) (concat (map (op_queue_of (descr s d)) max_ops))) =
      queued_ids (descr s d)"
    by (simp only: ids_of_map_aborted queued_ids_concat)
  then show ?thesis
    using assms by (simp add: balanced_def size_queued_ids)
qed

lemma cancel_ops_ok:
  assumes "e \<Longrightarrow> \<not> ds_shutdown (descr s d) \<Longrightarrow> descr_ok k (world s) fl d (descr s d)"
  shows "aborted_ok e k fl d s (cancel_ops (Some d) s)"
proof -
  have "balanced d s (cancel_ops (Some d) s) {#} {#} 0"
    by (rule cancel_ops_balanced [where f = "\<lambda>x. x"])
      (simp_all add: cancel_ops_def abort_all_eq rx_state_defs)
  then show ?thesis
    using assms descr_ok_fewer [of k "world s" fl d "descr s d" "\<lambda>_. []"]
    by (simp add: aborted_ok_def cancel_ops_def abort_all_eq) (auto simp: set_descr_def)
qed

lemma cancel_rop_loop_eq:
  "cancel_rop_loop key q ops other_ops =
     (ops @ map (\<lambda>op. Io_op (aborted op)) (filter (\<lambda>op. rop_key op = key) q),
      other_ops @ filter (\<lambda>op. rop_key op \<noteq> key) q)"
  by (induction q arbitrary: ops other_ops) simp_all

lemma mset_map_split:
  "mset (map f (filter (\<lambda>x. \<not> P x) xs)) + mset (map f (filter P xs)) = mset (map f xs)"
  by (induction xs) simp_all

lemma mset_move: "a + c = b + e \<Longrightarrow> e + f = c \<Longrightarrow> a + f = (b :: 'a multiset)"
  by auto

lemma cancel_by_key_ok:
  assumes "e \<Longrightarrow> \<not> ds_shutdown (descr s d) \<Longrightarrow> descr_ok k (world s) fl d (descr s d)"
  shows "aborted_ok e k fl d s (cancel_ops_by_key (Some d) j key s)"
proof -
  let ?q = "op_queue_of (descr s d) j"
  have m: "mset (map rop_id (filter (\<lambda>op. rop_key op \<noteq> key) ?q)) +
      mset (map rop_id (filter (\<lambda>op. rop_key op = key) ?q)) = mset (map rop_id ?q)"
    by (rule mset_map_split)
  let ?ds = "(descr s d)\<lparr>op_queue_of := (op_queue_of (descr s d))(j := filter (\<lambda>op. rop_key op \<noteq> key) ?q)\<rparr>"
  have ids: "queued_ids ?ds + mset (map rop_id (filter (\<lambda>op. rop_key op = key) ?q)) = queued_ids (descr s d)"
    by (rule mset_move [OF queued_ids_update m])
  have "size (queued_ids ?ds) + length (filter (\<lambda>op. rop_key op = key) ?q) = size (queued_ids (descr s d))"
    using arg_cong [OF ids, of size] by (simp del: mset_filter mset_map)
  then have "balanced d s (cancel_ops_by_key (Some d) j key s) {#} {#} 0"
    using ids
    by (simp add: balanced_def cancel_ops_by_key_def cancel_rop_loop_eq rx_state_defs ac_simps)
  moreover have "descr_ok k (world s) fl d (descr s d) \<Longrightarrow> descr_ok k (world s) fl d ?ds"
    by (rule descr_ok_fewer) (auto split: if_splits)
  ultimately show ?thesis
    using assms
    by (simp add: aborted_ok_def cancel_ops_by_key_def cancel_rop_loop_eq)
      (auto simp: set_queue_def set_descr_def)
qed

lemma deregister_ok:
  assumes edge: "edge_laws c os k" and up: "\<not> ds_shutdown (descr s d)"
    and r: "deregister_descriptor os fd (Some d) closing s = (data, s')"
  shows "aborted_ok e k fl d s s'" "data = Some d" "ds_shutdown (descr s' d)"
proof -
  let ?s1 = "if closing then s
    else if registered_events (descr s d) \<noteq> 0 then snd (epoll_ctl os Ctl_del fd 0 (Descr_ptr d) s) else s"
  have s1: "descr ?s1 = descr s" "calls ?s1 = calls s" "only_at k d s ?s1"
    using epoll_ctl_facts [of os Ctl_del fd 0 "Descr_ptr d" s] epoll_ctl_only_at [OF edge, of Ctl_del fd 0 d s]
    by (auto simp: prod_eq_iff)
  have s': "s' = call (Post_deferred (map (\<lambda>op. Io_op (aborted op)) (concat (map (op_queue_of (descr ?s1 d)) max_ops))))
      (set_descr d (\<lambda>ds. ds\<lparr>ds_descriptor := -1, ds_shutdown := True\<rparr>)
        (set_descr d (\<lambda>ds. ds\<lparr>op_queue_of := (\<lambda>_. [])\<rparr>) ?s1))" and data: "data = Some d"
    using r up by (auto simp: deregister_descriptor_def abort_all_eq Let_def split: if_splits)
  then show "data = Some d" "ds_shutdown (descr s' d)" by (auto simp: rx_state_defs)
  have "balanced d s s' {#} {#} 0"
    by (rule cancel_ops_balanced [where f = "\<lambda>ds. ds\<lparr>ds_descriptor := -1, ds_shutdown := True\<rparr>"])
      (use s' s1 in \<open>simp_all add: rx_state_defs\<close>)
  moreover have "op_queue_of (descr s' d) j = []" for j
    using s' by (simp add: rx_state_defs)
  ultimately show "aborted_ok e k fl d s s'"
    using s1(3) s' by (simp add: aborted_ok_def) (simp add: rx_state_defs)
qed

section \<open>Performing\<close>

lemma perform_loop_facts:
  assumes "edge_laws c os k" "perform_loop os d j q w ops = (ops', q', ex, w')"
  shows "\<exists>done. ops' = ops @ map Io_op done \<and> map rop_id q = map rop_id done @ map rop_id q' \<and>
    (\<forall>d'. keeps k w w' d') \<and> (q' \<noteq> [] \<or> ex \<longrightarrow> covers (interest k w d) j \<longrightarrow> armed k w' d j)"
  using assms
proof (induction os d j q w ops rule: perform_loop.induct)
  case (1 os d j w ops)
  then show ?case by simp
next
  case (2 os d j op q w ops)
  obtain st op1 w1 where p: "os_perform os d j op w = (st, op1, w1)" by (metis prod_cases3)
  note law = edge_perform [OF 2(2) p]
  show ?case
  proof (cases st)
    case Not_done
    then show ?thesis using 2(3) p law by (intro exI [of _ "[]"]) auto
  next
    case Done_and_exhausted
    then show ?thesis using 2(3) p law by (intro exI [of _ "[op1]"]) auto
  next
    case Perform_done
    then have "perform_loop os d j q w1 (ops @ [Io_op op1]) = (ops', q', ex, w')" using 2(3) p by simp
    from 2(1) [OF p [symmetric] refl Perform_done 2(2) this] obtain fin where
      f: "ops' = (ops @ [Io_op op1]) @ map Io_op fin" "map rop_id q = map rop_id fin @ map rop_id q'"
      "\<forall>d'. keeps k w1 w' d'" "q' \<noteq> [] \<or> ex \<longrightarrow> covers (interest k w1 d) j \<longrightarrow> armed k w' d j"
      by blast
    have "interest k w1 d = interest k w d" using law(2) [of d] by (simp add: keeps_def)
    then have "q' \<noteq> [] \<or> ex \<longrightarrow> covers (interest k w d) j \<longrightarrow> armed k w' d j" using f(4) by simp
    moreover have "\<forall>d'. keeps k w w' d'" by (intro allI keeps_trans [OF law(2)]) (use f(3) in blast)
    moreover have "ops' = ops @ map Io_op (op1 # fin)" by (simp add: f(1))
    moreover have "map rop_id (op # q) = map rop_id (op1 # fin) @ map rop_id q'" by (simp add: f(2) law(1))
    ultimately show ?thesis by blast
  qed
qed

text \<open>\<open>descr_ok\<close> with the types for which an event is on its way given as a set.\<close>

definition descr_ok_on :: "'w kernel \<Rightarrow> 'w \<Rightarrow> op_type set \<Rightarrow> did \<Rightarrow> descr_state \<Rightarrow> bool" where
  "descr_ok_on k w A d ds \<longleftrightarrow>
     (if registered_events ds = 0 then \<forall>j. op_queue_of ds j = []
      else interest k w d = registered_events ds \<and>
        covers (registered_events ds) Read_op \<and> covers (registered_events ds) Except_op \<and>
        (\<forall>j. op_queue_of ds j \<noteq> [] \<longrightarrow> covers (registered_events ds) j) \<and>
        (\<forall>j. (op_queue_of ds j \<noteq> [] \<or> \<not> try_speculative ds j) \<and> covers (registered_events ds) j \<longrightarrow>
           armed k w d j \<or> j \<in> A))"

lemma descr_ok_on_iff: "descr_ok k w fl d ds \<longleftrightarrow> descr_ok_on k w {j. \<exists>ev. (d, ev) \<in> set fl \<and> delivers ev j} d ds"
  by (simp add: descr_ok_def descr_ok_on_def)

lemma descr_ok_on_mono: "descr_ok_on k w A d ds \<Longrightarrow> A \<subseteq> B \<Longrightarrow> descr_ok_on k w B d ds"
  by (auto simp: descr_ok_on_def split: if_splits)

text \<open>What holds while the types of \<open>js\<close> are still to be served.\<close>

definition performing :: "bool \<Rightarrow> 'w kernel \<Rightarrow> op_type set \<Rightarrow> did \<Rightarrow> 'w reactor \<Rightarrow> 'w reactor \<times> operation list \<Rightarrow> bool"
where
  "performing c k A d s0 = (\<lambda>(s, ops).
     only_at k d s0 s \<and> calls s = calls s0 \<and> ds_shutdown (descr s d) = ds_shutdown (descr s0 d) \<and>
     queued_ids (descr s d) + ids_of ops = queued_ids (descr s0 d) \<and>
     int (length ops) = int (size (queued_ids (descr s0 d))) - int (size (queued_ids (descr s d))) \<and>
     (\<forall>j. op_queue_of (descr s d) j \<noteq> [] \<longrightarrow> op_queue_of (descr s0 d) j \<noteq> []) \<and>
     (c \<and> \<not> ds_shutdown (descr s d) \<longrightarrow> descr_ok_on k (world s) A d (descr s d)))"

lemma ids_of_map_Io [simp]: "ids_of (map Io_op xs) = mset (map rop_id xs)"
  by (induction xs) simp_all

lemma perform_type_ok:
  assumes edge: "edge_laws b os k" and p: "performing c k (insert j A) d s0 (s, ops)"
    and A: "\<not> delivers ev j \<Longrightarrow> j \<in> A \<or> performing c k A d s0 (s, ops)"
  shows "performing c k A d s0 (perform_type os d ev j (s, ops))"
proof (cases "delivers ev j")
  case False
  then have "perform_type os d ev j (s, ops) = (s, ops)" by (simp add: perform_type_def delivers_def)
  moreover have "insert j A = A" if "j \<in> A" using that by auto
  ultimately show ?thesis using A [OF False] p by auto
next
  case True
  obtain ops' q' ex w' where l: "perform_loop os d j (op_queue_of (descr s d) j) (world s) ops = (ops', q', ex, w')"
    by (metis prod_cases4)
  from perform_loop_facts [OF edge l] obtain fin where
    f: "ops' = ops @ map Io_op fin" "map rop_id (op_queue_of (descr s d) j) = map rop_id fin @ map rop_id q'"
      "\<forall>d'. keeps k (world s) w' d'" "q' \<noteq> [] \<or> ex \<longrightarrow> covers (interest k (world s) d) j \<longrightarrow> armed k w' d j"
    by blast
  let ?s = "set_queue d j q' (set_speculative d j (\<not> ex) s)\<lparr>world := w'\<rparr>"
  have s: "perform_type os d ev j (s, ops) = (?s, ops')"
    using True l by (simp add: perform_type_def delivers_def)
  have ds: "descr (set_queue d j q' (set_speculative d j (\<not> ex) s)) d = (descr s d)\<lparr>try_speculative := (try_speculative (descr s d))(j := \<not> ex),
      op_queue_of := (op_queue_of (descr s d))(j := q')\<rparr>"
    by (simp add: rx_state_defs)
  then have ds2: "descr ?s d = (descr s d)\<lparr>try_speculative := (try_speculative (descr s d))(j := \<not> ex),
      op_queue_of := (op_queue_of (descr s d))(j := q')\<rparr>"
    by simp
  have u: "queued_ids (descr ?s d) + mset (map rop_id (op_queue_of (descr s d) j)) =
      queued_ids (descr s d) + mset (map rop_id q')"
    using queued_ids_update [of "(descr s d)\<lparr>try_speculative := (try_speculative (descr s d))(j := \<not> ex)\<rparr>" j q']
    by (simp add: ds)
  then have ids: "queued_ids (descr ?s d) + mset (map rop_id fin) = queued_ids (descr s d)"
    unfolding f(2) by auto
  then have len: "size (queued_ids (descr ?s d)) + length fin = size (queued_ids (descr s d))"
    by (metis ids size_union size_mset length_map)
  have P: "only_at k d s0 s" "calls s = calls s0" "ds_shutdown (descr s d) = ds_shutdown (descr s0 d)"
     "queued_ids (descr s d) + ids_of ops = queued_ids (descr s0 d)"
     "int (length ops) = int (size (queued_ids (descr s0 d))) - int (size (queued_ids (descr s d)))"
     "\<forall>j. op_queue_of (descr s d) j \<noteq> [] \<longrightarrow> op_queue_of (descr s0 d) j \<noteq> []"
     "c \<and> \<not> ds_shutdown (descr s d) \<longrightarrow> descr_ok_on k (world s) (insert j A) d (descr s d)"
    using p by (auto simp: performing_def)
  have "only_at k d s ?s" using f(3) by (simp add: only_at_def rx_state_defs)
  with P(1) have "only_at k d s0 ?s" by (rule only_at_trans)
  moreover have "calls ?s = calls s0" using P(2) by (simp add: rx_state_defs)
  moreover have "queued_ids (descr ?s d) + ids_of ops' = queued_ids (descr s0 d)"
    using P(4) f(1) ids by (simp add: ac_simps flip: ids)
  moreover have "int (length ops') = int (size (queued_ids (descr s0 d))) - int (size (queued_ids (descr ?s d)))"
    using P(5) f(1) len by simp
  moreover have q: "op_queue_of (descr s d) j \<noteq> []" if "q' \<noteq> []"
    using that arg_cong [OF f(2), of length] by auto
  then have "\<forall>i. op_queue_of (descr ?s d) i \<noteq> [] \<longrightarrow> op_queue_of (descr s0 d) i \<noteq> []"
    using P(6) by (auto simp: ds)
  moreover have "descr_ok_on k w' A d (descr ?s d)" if "descr_ok_on k (world s) (insert j A) d (descr s d)"
  proof (cases "registered_events (descr s d) = 0")
    case True
    then show ?thesis using that q by (auto simp: ds descr_ok_on_def)
  next
    case False
    have "keeps k (world s) w' d" using f(3) by blast
    with False that q f(4) show ?thesis
      unfolding descr_ok_on_def ds2 by (simp add: keeps_def) blast
  qed
  ultimately show ?thesis
    unfolding s performing_def using P(3,7) by (simp add: ds)
qed

lemma performing_mono: "performing c k A d s0 x \<Longrightarrow> A \<subseteq> B \<Longrightarrow> performing c k B d s0 x"
  by (cases x) (auto simp: performing_def intro: descr_ok_on_mono)

lemma perform_types_ok:
  assumes edge: "edge_laws b os k"
  shows "performing c k (A \<union> ({j. delivers ev j} \<inter> set js)) d s0 x \<Longrightarrow>
    performing c k A d s0 (fold (perform_type os d ev) js x)"
proof (induction js arbitrary: x)
  case Nil
  then show ?case by simp
next
  case (Cons j js)
  let ?A = "A \<union> ({j. delivers ev j} \<inter> set js)"
  obtain s ops where x: "x = (s, ops)" by (cases x)
  have "performing c k ?A d s0 (perform_type os d ev j (s, ops))"
  proof (rule perform_type_ok [OF edge])
    show "performing c k (insert j ?A) d s0 (s, ops)"
      by (rule performing_mono [OF Cons.prems [unfolded x]]) auto
    assume "\<not> delivers ev j"
    then have "performing c k ?A d s0 (s, ops)"
      by (intro performing_mono [OF Cons.prems [unfolded x]]) auto
    then show "j \<in> ?A \<or> performing c k ?A d s0 (s, ops)" ..
  qed
  from Cons.IH [OF this] show ?case by (simp add: x)
qed

lemma perform_io_ok:
  assumes edge: "edge_laws b os k" and p: "perform_io os d ev s = (op, s')"
    and ok: "c \<longrightarrow> \<not> ds_shutdown (descr s d) \<longrightarrow> descr_ok k (world s) fl d (descr s d)"
  shows "only_at k d s s'" "ds_shutdown (descr s' d) = ds_shutdown (descr s d)"
    "\<And>j. op_queue_of (descr s' d) j \<noteq> [] \<Longrightarrow> op_queue_of (descr s d) j \<noteq> []"
    "c \<Longrightarrow> \<not> ds_shutdown (descr s' d) \<Longrightarrow> descr_ok k (world s') (remove1 (d, ev) fl) d (descr s' d)"
    "balanced d s s' {#} (ids_of (case op of None \<Rightarrow> [] | Some x \<Rightarrow> [x])) 1"
proof -
  let ?A = "{j. \<exists>e. (d, e) \<in> set (remove1 (d, ev) fl) \<and> delivers e j}"
  obtain s1 ops where f: "fold (perform_type os d ev) (rev max_ops) (s, []) = (s1, ops)" by fastforce
  have A: "{j. \<exists>e. (d, e) \<in> set fl \<and> delivers e j} \<subseteq> ?A \<union> ({j. delivers ev j} \<inter> set (rev max_ops))"
  proof
    fix j assume "j \<in> {j. \<exists>e. (d, e) \<in> set fl \<and> delivers e j}"
    then obtain e where e: "(d, e) \<in> set fl" "delivers e j" by blast
    then have "e \<noteq> ev \<Longrightarrow> (d, e) \<in> set (remove1 (d, ev) fl)" by simp
    with e show "j \<in> ?A \<union> ({j. delivers ev j} \<inter> set (rev max_ops))"
      unfolding set_rev max_ops_all by (cases "e = ev") blast+
  qed
  have "performing c k (?A \<union> ({j. delivers ev j} \<inter> set (rev max_ops))) d s (s, [])"
    using ok A by (auto simp: performing_def descr_ok_on_iff intro: descr_ok_on_mono)
  from perform_types_ok [OF edge this]
  have P: "only_at k d s s1" "calls s1 = calls s" "ds_shutdown (descr s1 d) = ds_shutdown (descr s d)"
     "queued_ids (descr s1 d) + ids_of ops = queued_ids (descr s d)"
     "int (length ops) = int (size (queued_ids (descr s d))) - int (size (queued_ids (descr s1 d)))"
     "\<forall>j. op_queue_of (descr s1 d) j \<noteq> [] \<longrightarrow> op_queue_of (descr s d) j \<noteq> []"
     "c \<and> \<not> ds_shutdown (descr s1 d) \<longrightarrow> descr_ok k (world s1) (remove1 (d, ev) fl) d (descr s1 d)"
    by (simp_all add: f performing_def descr_ok_on_iff)
  have s': "descr s' = descr s1" "world s' = world s1" "descrs s' = descrs s1"
    using p f by (auto simp: perform_io_def call_def split: list.splits if_splits)
  show "only_at k d s s'" using P(1) s' by (simp add: only_at_def)
  show "ds_shutdown (descr s' d) = ds_shutdown (descr s d)" using P(3) s' by simp
  show "\<And>j. op_queue_of (descr s' d) j \<noteq> [] \<Longrightarrow> op_queue_of (descr s d) j \<noteq> []" using P(6) s' by simp
  show "c \<Longrightarrow> \<not> ds_shutdown (descr s' d) \<Longrightarrow> descr_ok k (world s') (remove1 (d, ev) fl) d (descr s' d)"
    using P(7) s' by simp
  show "balanced d s s' {#} (ids_of (case op of None \<Rightarrow> [] | Some x \<Rightarrow> [x])) 1"
  proof (cases ops)
    case Nil
    then have "s' = call Compensating_work_started s1" "op = None"
      using p f by (auto simp: perform_io_def)
    then show ?thesis using P(2,4,5) Nil by (simp add: balanced_def call_def)
  next
    case (Cons x rest)
    then have r: "op = Some x" "s' = (if rest \<noteq> [] then call (Post_deferred rest) s1 else s1)"
      using p f by (auto simp: perform_io_def)
    have "ids_of (x # rest) = ids_of [x] + ids_of rest" by (simp add: ids_of_def)
    with P(4) Cons have i: "queued_ids (descr s1 d) + (ids_of [x] + ids_of rest) = queued_ids (descr s d)" by simp
    have w: "int (length rest) + 1 = int (size (queued_ids (descr s d))) - int (size (queued_ids (descr s1 d)))"
      using P(5) Cons by simp
    show ?thesis
      using i w P(2) s' r by (auto simp: balanced_def call_def ac_simps)
  qed
qed

section \<open>Registering, waiting, cleaning up\<close>

lemma or_and_zero: "(a OR b) AND m = 0 \<longleftrightarrow> a AND m = 0 \<and> b AND m = (0 :: 'a::len word)"
  by (auto simp: bit_eq_iff bit_simps)

lemma delivers_or: "delivers (a OR b) j \<longleftrightarrow> delivers a j \<or> delivers b j"
  by (simp add: delivers_def or_and_zero)

text \<open>
  The events of one wait: nothing changes but the results of the states they are for, and every
  event ends in the result of a state that is handed out.
\<close>

lemma handle_events_facts:
  "fold handle_event evs (s, ops, b) = (s', ops', b') \<Longrightarrow>
   calls s' = calls s \<and> descrs s' = descrs s \<and> world s' = world s \<and> timer_queues s' = timer_queues s \<and>
   timer_fd s' = timer_fd s \<and>
   (\<forall>d. \<exists>r. descr s' d = (descr s d)\<lparr>task_result := r\<rparr>) \<and> set ops \<subseteq> set ops' \<and>
   (\<forall>d j. Descr_op d \<in> set ops \<longrightarrow> delivers (task_result (descr s d)) j \<longrightarrow>
      delivers (task_result (descr s' d)) j) \<and>
   (\<forall>d ev j. (Descr_ptr d, ev) \<in> set evs \<longrightarrow> delivers ev j \<longrightarrow>
      Descr_op d \<in> set ops' \<and> delivers (task_result (descr s' d)) j)"
proof (induction evs arbitrary: s ops b)
  case Nil
  have "\<exists>r. descr s d = (descr s d)\<lparr>task_result := r\<rparr>" for d
    by (rule exI [of _ "task_result (descr s d)"]) simp
  with Nil show ?case by auto
next
  case (Cons e evs)
  obtain p ev where e: "e = (p, ev)" by (cases e)
  obtain s1 ops1 b1 where h: "handle_event e (s, ops, b) = (s1, ops1, b1)" by (metis prod_cases3)
  with Cons.prems have "fold handle_event evs (s1, ops1, b1) = (s', ops', b')" by simp
  note IH = Cons.IH [OF this]
  have same: "calls s1 = calls s" "descrs s1 = descrs s" "world s1 = world s"
    "timer_queues s1 = timer_queues s" "timer_fd s1 = timer_fd s" "set ops \<subseteq> set ops1"
    using h e by (auto simp: handle_event_def set_descr_def split: epoll_ptr.splits if_splits)
  have res: "\<exists>r. descr s1 d = (descr s d)\<lparr>task_result := r\<rparr>" for d
  proof -
    have "\<exists>r. descr s d = (descr s d)\<lparr>task_result := r\<rparr>"
      by (rule exI [of _ "task_result (descr s d)"]) simp
    then show ?thesis
      using h e by (auto simp: handle_event_def set_descr_def split: epoll_ptr.splits if_splits)
  qed
  have more: "delivers (task_result (descr s1 d)) j" if "Descr_op d \<in> set ops" "delivers (task_result (descr s d)) j" for d j
    using h e that by (auto simp: handle_event_def set_descr_def delivers_or split: epoll_ptr.splits if_splits)
  have new: "Descr_op d \<in> set ops1 \<and> delivers (task_result (descr s1 d)) j" if "p = Descr_ptr d" "delivers ev j" for d j
    using h e that by (auto simp: handle_event_def set_descr_def delivers_or split: if_splits)
  have "\<exists>r. descr s' d = (descr s d)\<lparr>task_result := r\<rparr>" for d
  proof -
    obtain r1 where "descr s1 d = (descr s d)\<lparr>task_result := r1\<rparr>" using res by blast
    moreover obtain r2 where "descr s' d = (descr s1 d)\<lparr>task_result := r2\<rparr>" using IH by blast
    ultimately show ?thesis by auto
  qed
  moreover have "delivers (task_result (descr s' d)) j"
    if "Descr_op d \<in> set ops" "delivers (task_result (descr s d)) j" for d j
    using more [OF that] that(1) same(6) IH by blast
  moreover have "Descr_op d \<in> set ops' \<and> delivers (task_result (descr s' d)) j"
    if "(Descr_ptr d, ev') \<in> set (e # evs)" "delivers ev' j" for d ev' j
    using that e new IH by auto
  ultimately show ?case using IH same by auto
qed

lemma handed_set: "Descr_op d \<in> set ops \<Longrightarrow> (d, task_result (descr s d)) \<in> set (handed s ops)"
  by (induction s ops rule: handed.induct) auto

lemma set_timer_fd_facts:
  assumes "edge_laws c os k" "set_timer_fd pnum pden os s = Some s'"
  shows "calls s' = calls s" "descrs s' = descrs s" "descr s' = descr s" "keeps k (world s) (world s') d"
  using assms edge_settime [OF assms(1)]
  by (auto simp: set_timer_fd_def split: option.splits prod.splits)

lemma run_timers_facts:
  assumes "edge_laws c os k" "run_timers pnum pden os ops s = Some (ops', s')"
  shows "calls s' = calls s" "descrs s' = descrs s" "descr s' = descr s" "keeps k (world s) (world s') d"
    "set ops \<subseteq> set ops'"
proof -
  obtain tqs rd where t: "tq_set_get_ready (os_now os (world s)) (timer_queues s) [] = Some (tqs, rd)"
    using assms(2) by (auto simp: run_timers_def split: option.splits)
  let ?s1 = "s\<lparr>timer_queues := tqs\<rparr>"
  have "set ops \<subseteq> set ops' \<and> (s' = ?s1 \<or> set_timer_fd pnum pden os ?s1 = Some s')"
    using assms(2) t by (auto simp: run_timers_def Let_def split: if_splits option.splits)
  then show "calls s' = calls s" "descrs s' = descrs s" "descr s' = descr s" "keeps k (world s) (world s') d"
    "set ops \<subseteq> set ops'"
    using set_timer_fd_facts [OF assms(1), of pnum pden ?s1 s'] by auto
qed

lemma rx_run_facts:
  assumes edge: "edge_laws c os k" and r: "rx_run pnum pden os usec s = Some (ops, s')"
  shows "calls s' = calls s" "descrs s' = descrs s" "\<exists>r. descr s' d = (descr s d)\<lparr>task_result := r\<rparr>"
    "interest k (world s') d = interest k (world s) d"
    "covers (interest k (world s) d) j \<Longrightarrow> armed k (world s) d j \<Longrightarrow>
     armed k (world s') d j \<or> (\<exists>ev. (d, ev) \<in> set (handed s' ops) \<and> delivers ev j)"
proof -
  obtain timeout where t: "rx_timeout pnum pden os usec s = Some timeout"
    using r by (auto simp: rx_run_def split: option.splits)
  obtain evs w where w: "os_epoll_wait os timeout (world s) = (evs, w)" by fastforce
  obtain s1 ops1 b where f: "fold handle_event evs (s\<lparr>world := w\<rparr>, [], timer_fd s = -1) = (s1, ops1, b)"
    by (metis prod_cases3)
  note H = handle_events_facts [OF f]
  have "calls s' = calls s1 \<and> descrs s' = descrs s1 \<and> descr s' = descr s1 \<and>
      keeps k (world s1) (world s') d \<and> set ops1 \<subseteq> set ops"
  proof (cases b)
    case True
    then have "run_timers pnum pden os ops1 s1 = Some (ops, s')" using r t w f by (simp add: rx_run_def)
    from run_timers_facts [OF edge this] show ?thesis by blast
  qed (use r t w f in \<open>simp add: rx_run_def\<close>)
  then have R: "calls s' = calls s1" "descrs s' = descrs s1" "descr s' = descr s1"
      "keeps k (world s1) (world s') d" "set ops1 \<subseteq> set ops" by auto
  show "calls s' = calls s" "descrs s' = descrs s" "\<exists>r. descr s' d = (descr s d)\<lparr>task_result := r\<rparr>"
    using R(1-3) H by auto
  note law = edge_wait [OF edge w]
  have k: "keeps k w (world s') d" using R(4) H by auto
  show "interest k (world s') d = interest k (world s) d"
    using k law(1) by (simp add: keeps_def)
  assume "covers (interest k (world s) d) j" "armed k (world s) d j"
  with law(2) consider "armed k w d j" | ev where "(Descr_ptr d, ev) \<in> set evs" "delivers ev j" by blast
  then show "armed k (world s') d j \<or> (\<exists>ev. (d, ev) \<in> set (handed s' ops) \<and> delivers ev j)"
  proof cases
    case 1
    then show ?thesis using k law(1) \<open>covers (interest k (world s) d) j\<close> by (simp add: keeps_def)
  next
    case 2
    then have "Descr_op d \<in> set ops1" "delivers (task_result (descr s1 d)) j" using H by auto
    then show ?thesis using R(3,5) handed_set [of d ops s'] by auto
  qed
qed

lemma register_facts:
  assumes edge: "edge_laws c os k" and rep: "pool_rep (descrs s) live free" and new: "fresh \<notin> set live"
    and r: "register_descriptor os fresh fd s = (result, Some d, s')"
    and empty: "\<forall>x j. x \<notin> set live \<longrightarrow> op_queue_of (descr s x) j = []"
  shows "d \<notin> set live" "\<exists>free'. pool_rep (descrs s') (d # live) free'" "calls s' = calls s"
    "\<And>x. x \<noteq> d \<Longrightarrow> descr s' x = descr s x" "\<And>x. x \<noteq> d \<Longrightarrow> keeps k (world s) (world s') x"
    "op_queue_of (descr s' d) j = []" "\<not> ds_shutdown (descr s' d)"
    "c \<Longrightarrow> result = 0 \<Longrightarrow> descr_ok k (world s') fl d (descr s' d)"
proof -
  obtain p' x where a: "pool_alloc fresh (descrs s) = (p', x)" by fastforce
  note A = pool_alloc_rep [OF rep new a]
  let ?s1 = "(if free_list (descrs s) = None then set_descr x (\<lambda>_. new_descr) s else s)\<lparr>descrs := p'\<rparr>"
  let ?s2 = "set_descr x (\<lambda>ds. ds\<lparr>ds_descriptor := fd, ds_shutdown := False,
                    try_speculative := (\<lambda>_. True), registered_events := default_events\<rparr>) ?s1"
  obtain e s3 where c: "epoll_ctl os Ctl_add fd default_events (Descr_ptr x) ?s2 = (e, s3)" by fastforce
  note f = epoll_ctl_facts [OF c]
  have al: "allocate_descriptor_state fresh s = (?s1, x)" by (simp add: allocate_descriptor_state_def a)
  have res: "d = x \<and> (result = e \<and> s' = s3 \<or>
      result = 0 \<and> s' = set_descr x (\<lambda>ds. ds\<lparr>registered_events := 0\<rparr>) s3)"
    using r c unfolding register_descriptor_def al by (auto simp: Let_def split: if_splits)
  have s': "descrs s' = p'" "calls s' = calls s" "world s' = world s3" "\<And>y. y \<noteq> x \<Longrightarrow> descr s' y = descr s y"
    using res f by (auto simp: set_descr_def)
  have x: "x \<notin> set live" using A(2) by (auto simp: pool_rep_def)
  have q: "op_queue_of (descr s' d) j = []" for j
    using res f(2) empty x by (auto simp: set_descr_def new_descr_def)
  have w: "world ?s2 = world s" by (simp add: set_descr_def)
  note law = edge_ctl [OF edge f(1)]
  show "d \<notin> set live" "calls s' = calls s" "\<And>y. y \<noteq> d \<Longrightarrow> descr s' y = descr s y"
    "op_queue_of (descr s' d) j = []"
    using res x s' q by auto
  show "\<exists>free'. pool_rep (descrs s') (d # live) free'" using res s'(1) A(2) by auto
  show "\<And>y. y \<noteq> d \<Longrightarrow> keeps k (world s) (world s') y" using res s'(3) law(1) w by auto
  show "\<not> ds_shutdown (descr s' d)" using res f(2) by (auto simp: set_descr_def)
  assume c and r0: "result = 0"
  show "descr_ok k (world s') fl d (descr s' d)"
  proof (cases "registered_events (descr s' d) = 0")
    case True
    then show ?thesis using q by (simp add: descr_ok_def)
  next
    case False
    then have e: "e = 0" "s' = s3" using res r0 by (auto simp: set_descr_def)
    then have "registered_events (descr s' d) = default_events" using f(2) res by (simp add: set_descr_def)
    moreover have "try_speculative (descr s' d) j" for j using e f(2) res by (simp add: set_descr_def)
    moreover have "interest k (world s') d = default_events" using law(2) [OF \<open>c\<close>] e res by simp
    moreover have "covers default_events Read_op" "covers default_events Except_op"
      by (simp_all add: covers_def flag_def default_events_def EPOLLIN_def EPOLLPRI_def EPOLLERR_def
          EPOLLHUP_def EPOLLET_def)
    ultimately show ?thesis using q False by (simp add: descr_ok_def)
  qed
qed

section \<open>Every step keeps the invariant\<close>

lemma rx_inv_start:
  assumes edge: "edge_laws c os k" and inv: "rx_inv c k st"
    and d: "data = None \<or> (\<exists>d \<in> usable st. data = Some d)"
  shows "rx_inv c k (st\<lparr>rx := start_op os j fd data op cont spec (rx st),
    started := add_mset (rop_id op) (started st),
    refused := (if rearm_refused os j fd data spec (rx st) then insert (the data) (refused st) else refused st)\<rparr>)"
proof -
  let ?s' = "start_op os j fd data op cont spec (rx st)"
  let ?rf = "if rearm_refused os j fd data spec (rx st) then insert (the data) (refused st) else refused st"
  have "\<exists>d. only_at k d (rx st) ?s' \<and> balanced d (rx st) ?s' {#rop_id op#} {#} 0 \<and>
      (\<forall>j. op_queue_of (descr ?s' d) j \<noteq> [] \<longrightarrow> d \<in> usable st \<and> \<not> ds_shutdown (descr ?s' d)) \<and>
      (c \<longrightarrow> d \<in> usable st \<longrightarrow> d \<notin> ?rf \<longrightarrow> \<not> ds_shutdown (descr ?s' d) \<longrightarrow>
        descr_ok k (world ?s') (inflight st) d (descr ?s' d))"
  proof (cases "\<exists>d. data = Some d \<and> \<not> ds_shutdown (descr (rx st) d)")
    case True
    then obtain d where d': "data = Some d" "\<not> ds_shutdown (descr (rx st) d)" "d \<in> usable st" using d by auto
    then have "c \<and> d \<notin> refused st \<Longrightarrow> descr_ok k (world (rx st)) (inflight st) d (descr (rx st) d)"
      using inv by (auto simp: rx_inv_def)
    from start_op_ok [where e = "c \<and> d \<notin> refused st" and op = op and j = j and fd = fd and spec = spec and cont = cont,
        OF edge _ this d'(2)]
    have "started_ok ((c \<and> d \<notin> refused st) \<and> \<not> rearm_refused os j fd (Some d) spec (rx st)) k (inflight st) d
        (rop_id op) (rx st) ?s'" by (simp add: d'(1))
    then show ?thesis
      unfolding d'(1) started_ok_def using d'(3) by (intro exI [of _ d]) auto
  next
    case False
    then have "descr ?s' = descr (rx st)" "world ?s' = world (rx st)" "descrs ?s' = descrs (rx st)"
      "\<exists>op'. calls ?s' = calls (rx st) @ [Post_immediate (Io_op op') cont] \<and> rop_id op' = rop_id op"
      by (auto simp: start_op_def fail_op_def call_def split: option.splits)
    moreover have "?rf = refused st"
      using False by (auto simp: rearm_refused_def split: option.splits)
    ultimately show ?thesis
      using inv by (intro exI [of _ 0]) (auto simp: rx_inv_def only_at_def balanced_def)
  qed
  then obtain d where *: "only_at k d (rx st) ?s'" "balanced d (rx st) ?s' {#rop_id op#} (ids_of []) (int 0)"
      "\<And>j. op_queue_of (descr ?s' d) j \<noteq> [] \<Longrightarrow> d \<in> usable st \<and> \<not> ds_shutdown (descr ?s' d)"
      "c \<Longrightarrow> d \<in> usable st \<Longrightarrow> d \<notin> ?rf \<Longrightarrow> \<not> ds_shutdown (descr ?s' d) \<Longrightarrow>
        descr_ok k (world ?s') (inflight st) d (descr ?s' d)" by auto
  have "refused st - {d} \<subseteq> ?rf" by auto
  from rx_inv_change [OF inv *(1,3,4) this _ *(2)] show ?thesis by simp
qed

lemma rx_inv_abort:
  assumes inv: "rx_inv c k st" and d: "d \<in> usable st"
    and ok: "aborted_ok (c \<and> d \<notin> refused st) k (inflight st) d (rx st) s'"
  shows "rx_inv c k (st\<lparr>rx := s'\<rparr>)"
proof -
  from ok have *: "only_at k d (rx st) s'" "balanced d (rx st) s' {#} (ids_of []) (int 0)"
    "c \<Longrightarrow> d \<in> usable st \<Longrightarrow> d \<notin> refused st \<Longrightarrow> \<not> ds_shutdown (descr s' d) \<Longrightarrow>
      descr_ok k (world s') (inflight st) d (descr s' d)"
    by (auto simp: aborted_ok_def)
  have "d \<in> usable st \<and> \<not> ds_shutdown (descr s' d)" if "op_queue_of (descr s' d) j \<noteq> []" for j
  proof -
    have "set (op_queue_of (descr s' d) j) \<subseteq> set (op_queue_of (descr (rx st) d) j)"
      using ok by (simp add: aborted_ok_def)
    then have "op_queue_of (descr (rx st) d) j \<noteq> []" using that by auto
    then have "\<not> ds_shutdown (descr (rx st) d)" using inv by (auto simp: rx_inv_def)
    then show ?thesis using ok that d by (auto simp: aborted_ok_def)
  qed
  from rx_inv_change [where rf = "refused st", OF inv *(1) this *(3) _ _ *(2)] show ?thesis by auto
qed

lemma rx_inv_perform:
  assumes edge: "edge_laws c os k" and inv: "rx_inv c k st"
    and p: "perform_io os d ev (rx st) = (op, s')"
  shows "rx_inv c k (st\<lparr>rx := s', inflight := remove1 (d, ev) (inflight st),
         inline_ops := inline_ops st @ (case op of None \<Rightarrow> [] | Some x \<Rightarrow> [x]),
         descr_runs := descr_runs st + 1\<rparr>)"
proof -
  have "c \<and> d \<in> usable st \<and> d \<notin> refused st \<longrightarrow> \<not> ds_shutdown (descr (rx st) d) \<longrightarrow>
      descr_ok k (world (rx st)) (inflight st) d (descr (rx st) d)"
    using inv by (auto simp: rx_inv_def)
  note P = perform_io_ok [OF edge p this]
  have q: "d \<in> usable st \<and> \<not> ds_shutdown (descr s' d)" if "op_queue_of (descr s' d) j \<noteq> []" for j
    using P(2) P(3) [OF that] inv by (auto simp: rx_inv_def)
  have "balanced d (rx st) s' {#} (ids_of (case op of None \<Rightarrow> [] | Some x \<Rightarrow> [x])) (int 1)"
    using P(5) by simp
  moreover have "c \<Longrightarrow> d \<in> usable st \<Longrightarrow> d \<notin> refused st \<Longrightarrow> \<not> ds_shutdown (descr s' d) \<Longrightarrow>
      descr_ok k (world s') (remove1 (d, ev) (inflight st)) d (descr s' d)"
    using P(4) by blast
  ultimately have "rx_inv c k (st\<lparr>rx := s', inflight := remove1 (d, ev) (inflight st),
      inline_ops := inline_ops st @ (case op of None \<Rightarrow> [] | Some x \<Rightarrow> [x]), started := started st + {#},
      descr_runs := descr_runs st + 1, refused := refused st\<rparr>)"
    by (intro rx_inv_change [OF inv P(1) q]) auto
  then show ?thesis by simp
qed

lemma rx_inv_register:
  assumes edge: "edge_laws c os k" and inv: "rx_inv c k st"
    and r: "register_descriptor os fresh fd (rx st) = (result, Some d, s')"
    and new: "\<forall>live free. pool_rep (descrs (rx st)) live free \<longrightarrow> fresh \<notin> set live"
  shows "rx_inv c k (st\<lparr>rx := s', usable := (if result = 0 then insert d (usable st) else usable st),
    refused := refused st - {d}\<rparr>)"
proof -
  from inv obtain live free where rep: "pool_rep (descrs (rx st)) live free" and live: "usable st \<subseteq> set live"
    by (auto simp: rx_inv_def)
  have empty: "op_queue_of (descr (rx st) x) j = []" if "x \<notin> usable st" for x j
    using inv that by (auto simp: rx_inv_def)
  have "fresh \<notin> set live" using new rep by blast
  note R = register_facts [OF edge rep this r]
  have out: "\<forall>x j. x \<notin> set live \<longrightarrow> op_queue_of (descr (rx st) x) j = []" using empty live by blast
  note R = R [OF out]
  have d: "d \<notin> usable st" using R(1) live by blast
  have q0: "queued_ids (descr s' d) = {#}" using R(6) by (simp add: queued_ids_def)
  let ?U = "if result = 0 then insert d (usable st) else usable st"
  note fin = rx_inv_usable_finite [OF inv]
  have sums: "(\<Sum>x \<in> ?U. g (queued_ids (descr s' x))) = (\<Sum>x \<in> usable st. g (queued_ids (descr (rx st) x)))"
    if "g {#} = 0" for g :: "nat multiset \<Rightarrow> 'b::comm_monoid_add"
  proof -
    have "(\<Sum>x \<in> usable st. g (queued_ids (descr s' x))) = (\<Sum>x \<in> usable st. g (queued_ids (descr (rx st) x)))"
      using R(4) d by (intro sum.cong refl) metis
    then show ?thesis using d fin that by (simp add: q0)
  qed
  have "\<exists>live' free'. pool_rep (descrs s') live' free' \<and> ?U \<subseteq> set live'"
    using R(2) live by fastforce
  moreover have "\<forall>x j. op_queue_of (descr s' x) j \<noteq> [] \<longrightarrow> x \<in> ?U \<and> \<not> ds_shutdown (descr s' x)"
  proof (intro allI impI)
    fix x j assume "op_queue_of (descr s' x) j \<noteq> []"
    then have "x \<noteq> d" using R(6) by auto
    with \<open>op_queue_of (descr s' x) j \<noteq> []\<close> show "x \<in> ?U \<and> \<not> ds_shutdown (descr s' x)"
      using inv R(4) [of x] by (auto simp: rx_inv_def)
  qed
  moreover have "\<forall>x \<in> ?U. c \<and> x \<notin> refused st - {d} \<and> \<not> ds_shutdown (descr s' x) \<longrightarrow>
      descr_ok k (world s') (inflight st) x (descr s' x)"
  proof (intro ballI impI)
    fix x assume x: "x \<in> ?U" "c \<and> x \<notin> refused st - {d} \<and> \<not> ds_shutdown (descr s' x)"
    show "descr_ok k (world s') (inflight st) x (descr s' x)"
    proof (cases "x = d")
      case True
      then show ?thesis using x d R(8) by (auto split: if_splits)
    next
      case False
      then have "descr_ok k (world (rx st)) (inflight st) x (descr s' x)"
        using x inv R(4) [OF False] by (auto simp: rx_inv_def split: if_splits)
      then show ?thesis by (rule descr_ok_keeps [OF _ R(5) [OF False]])
    qed
  qed
  moreover have "started st = call_ids (calls s') + ids_of (inline_ops st) + (\<Sum>x \<in> ?U. queued_ids (descr s' x))"
    using inv sums [of "\<lambda>x. x"] R(3) by (simp add: rx_inv_def)
  moreover have "calls_work (calls s') = (\<Sum>x \<in> ?U. int (size (queued_ids (descr s' x)))) + int (descr_runs st)"
    using inv sums [of "\<lambda>x. int (size x)"] R(3) by (simp add: rx_inv_def)
  ultimately show ?thesis unfolding rx_inv_def by simp
qed

text \<open>A descriptor state the client gives up, deregistered before.\<close>

lemma rx_inv_drop:
  assumes inv: "rx_inv c k st" and d: "d \<in> usable st" and sd: "ds_shutdown (descr (rx st) d)"
    and pool: "\<exists>live free. pool_rep (descrs s') live free \<and> usable st - {d} \<subseteq> set live"
    and same: "descr s' = descr (rx st)" "calls s' = calls (rx st)" "world s' = world (rx st)"
  shows "rx_inv c k (st\<lparr>rx := s', usable := usable st - {d}\<rparr>)"
proof -
  have e: "op_queue_of (descr (rx st) d) j = []" for j using inv sd by (auto simp: rx_inv_def)
  then have q: "queued_ids (descr (rx st) d) = {#}" by (simp add: queued_ids_def)
  have sums: "(\<Sum>x \<in> usable st - {d}. g (queued_ids (descr (rx st) x))) =
      (\<Sum>x \<in> usable st. g (queued_ids (descr (rx st) x)))"
    if "g {#} = 0" for g :: "nat multiset \<Rightarrow> 'b::comm_monoid_add"
    using rx_inv_usable_finite [OF inv] d q that by (simp add: sum.remove [of "usable st" d])
  show ?thesis
    using inv pool e same sums [of "\<lambda>x. x"] sums [of "\<lambda>x. int (size x)"]
    unfolding rx_inv_def by auto
qed

lemma pool_free_live:
  assumes "pool_rep p live free" "d \<in> set live"
  shows "\<exists>live' free'. pool_rep (pool_free d p) live' free' \<and> set live - {d} \<subseteq> set live'"
proof -
  have "distinct live" using assms(1) by (simp add: pool_rep_def)
  then show ?thesis
    using pool_free_rep [OF assms]
    by (intro exI [of _ "remove1 d live"] exI [of _ "d # free"]) (simp add: set_remove1_eq)
qed

lemma rx_inv_run:
  assumes edge: "edge_laws c os k" and inv: "rx_inv c k st"
    and r: "rx_run pnum pden os usec (rx st) = Some (ops, s')"
  shows "rx_inv c k (st\<lparr>rx := s', inflight := inflight st @ handed s' ops\<rparr>)"
proof -
  note R = rx_run_facts [OF edge r]
  have same: "op_queue_of (descr s' d) = op_queue_of (descr (rx st) d)"
    "ds_shutdown (descr s' d) = ds_shutdown (descr (rx st) d)"
    "registered_events (descr s' d) = registered_events (descr (rx st) d)"
    "try_speculative (descr s' d) = try_speculative (descr (rx st) d)"
    "queued_ids (descr s' d) = queued_ids (descr (rx st) d)" for d
    using R(3) [of d] by auto
  have "descr_ok k (world s') (inflight st @ handed s' ops) d (descr s' d)"
    if "d \<in> usable st" "c \<and> d \<notin> refused st \<and> \<not> ds_shutdown (descr s' d)" for d
  proof -
    have ok: "descr_ok k (world (rx st)) (inflight st) d (descr (rx st) d)"
      using inv that same by (auto simp: rx_inv_def)
    have "armed k (world s') d j \<or> (\<exists>ev. (d, ev) \<in> set (inflight st @ handed s' ops) \<and> delivers ev j)"
      if "registered_events (descr (rx st) d) \<noteq> 0"
        "op_queue_of (descr (rx st) d) j \<noteq> [] \<or> \<not> try_speculative (descr (rx st) d) j"
        "covers (registered_events (descr (rx st) d)) j" for j
    proof -
      have "armed k (world (rx st)) d j \<or> (\<exists>ev. (d, ev) \<in> set (inflight st) \<and> delivers ev j)"
        "interest k (world (rx st)) d = registered_events (descr (rx st) d)"
        using ok that by (auto simp: descr_ok_def)
      then show ?thesis using R(5) [of d j] that(3) by auto
    qed
    then show ?thesis
      using ok R(4) unfolding descr_ok_def same by auto
  qed
  then show ?thesis
    using inv R(1,2) unfolding rx_inv_def by (simp add: same)
qed

lemma rx_step_inv:
  assumes edge: "edge_laws c os k" and step: "rx_step pnum pden os k st st'" and inv: "rx_inv c k st"
  shows "rx_inv c k st'"
  using step
proof cases
  case (start data j fd op cont spec)
  then show ?thesis using rx_inv_start [OF edge inv] by simp
next
  case (cancel d)
  show ?thesis unfolding cancel(1)
    by (rule rx_inv_abort [OF inv cancel(2) cancel_ops_ok]) (use inv cancel(2) in \<open>auto simp: rx_inv_def\<close>)
next
  case (cancel_key d j key)
  show ?thesis unfolding cancel_key(1)
    by (rule rx_inv_abort [OF inv cancel_key(2) cancel_by_key_ok]) (use inv cancel_key(2) in \<open>auto simp: rx_inv_def\<close>)
next
  case (perform d ev op s')
  then show ?thesis using rx_inv_perform [OF edge inv] by (simp add: descr_do_complete_def)
next
  case (environment w)
  show ?thesis unfolding environment(1) using inv environment(2)
    by (auto simp: rx_inv_def intro: descr_ok_keeps)
next
  case (register fresh fd result d s')
  show ?thesis unfolding register(1) by (rule rx_inv_register [OF edge inv register(2,3)])
next
  case (deregister d fd closing data s')
  show ?thesis
  proof (cases "ds_shutdown (descr (rx st) d)")
    case True
    then have e: "data = None" "s' = rx st"
      using deregister(3) by (auto simp: deregister_descriptor_def)
    have "\<exists>live free. pool_rep (descrs (rx st)) live free \<and> usable st - {d} \<subseteq> set live"
      using inv unfolding rx_inv_def by blast
    from rx_inv_drop [OF inv deregister(2) True this refl refl refl] show ?thesis
      unfolding deregister(1) by (simp add: e)
  next
    case False
    note D = deregister_ok [OF edge False deregister(3)]
    from rx_inv_abort [OF inv deregister(2) D(1)] show ?thesis
      unfolding deregister(1) by (simp add: D(2))
  qed
next
  case (cleanup d)
  let ?s' = "snd (cleanup_descriptor_data (Some d) (rx st))"
  have s': "descrs ?s' = pool_free d (descrs (rx st))" "descr ?s' = descr (rx st)"
    "calls ?s' = calls (rx st)" "world ?s' = world (rx st)"
    by (simp_all add: cleanup_descriptor_data_def free_descriptor_state_def)
  obtain live free where "pool_rep (descrs (rx st)) live free" "usable st \<subseteq> set live"
    using inv unfolding rx_inv_def by blast
  with pool_free_live [of "descrs (rx st)" live free d] cleanup(2)
  have "\<exists>live free. pool_rep (descrs ?s') live free \<and> usable st - {d} \<subseteq> set live"
    unfolding s' by blast
  from rx_inv_drop [OF inv cleanup(2,3) this s'(2-4)] show ?thesis unfolding cleanup(1) .
next
  case (run usec ops s')
  show ?thesis unfolding run(1) by (rule rx_inv_run [OF edge inv run(2)])
qed

lemma rx_reach_inv:
  assumes "edge_laws c os k" "pool_rep (descrs s) [] free" "calls s = []"
    and "\<And>d j. op_queue_of (descr s d) j = []" "rx_reach pnum pden os k s st"
  shows "rx_inv c k st"
  using assms(5)
proof (induction rule: rx_reach.induct)
  case init
  then show ?case
    using assms(2-4) by (auto simp: rx_inv_def rx_init_def)
next
  case (step st st')
  show ?case by (rule rx_step_inv [OF assms(1) step.hyps(2) step.IH])
qed

end
