(* ===== verification/EpollProps.thy ===== *)
theory EpollProps
  imports EpollInv
begin

text \<open>
  Properties of the epoll reactor, with a small edge-triggered kernel to evaluate it on.
\<close>

section \<open>A kernel\<close>

record demo_world =
  dw_interest :: "did \<Rightarrow> events"
  dw_ready :: "did \<Rightarrow> op_type \<Rightarrow> bool"
  dw_pend :: "did \<Rightarrow> op_type \<Rightarrow> bool"

text \<open>It serves reads of descriptor 0: an attempt exhausts it, a wait reports it once.\<close>

definition demo_os :: "demo_world os" where
  "demo_os = \<lparr>
     os_perform = (\<lambda>d j op w.
       if dw_ready w d j
       then (Done_and_exhausted, op\<lparr>rop_bytes := 5\<rparr>, w\<lparr>dw_ready := (dw_ready w)(d := (dw_ready w d)(j := False))\<rparr>)
       else (Not_done, op, w)),
     os_epoll_ctl = (\<lambda>c fd ev p w.
       (case p of
          Descr_ptr d \<Rightarrow> (0, w\<lparr>dw_interest := (dw_interest w)(d := ev),
            dw_pend := (dw_pend w)(d := dw_ready w d)\<rparr>)
        | _ \<Rightarrow> (0, w))),
     os_epoll_wait = (\<lambda>timeout w.
       if dw_pend w 0 Read_op
       then ([(Descr_ptr 0, EPOLLIN)],
             w\<lparr>dw_pend := (dw_pend w)(0 := (dw_pend w 0)(Read_op := False))\<rparr>)
       else ([], w)),
     os_timerfd_settime = (\<lambda>abstime sec nsec w. w),
     os_interrupt = (\<lambda>w. w),
     os_now = (\<lambda>w. 0)\<rparr>"

definition demo_kernel :: "demo_world kernel" where
  "demo_kernel = \<lparr>ready = dw_ready, interest = dw_interest, pend = dw_pend, noted = (\<lambda>_ _ _. False)\<rparr>"

lemma delivers_EPOLLIN [simp]: "delivers EPOLLIN j \<longleftrightarrow> j = Read_op"
  by (cases j) (simp_all add: delivers_def flag_def EPOLLIN_def EPOLLOUT_def EPOLLPRI_def
      EPOLLERR_def EPOLLHUP_def)

lemma demo_edge: "edge_triggered demo_os demo_kernel"
proof -
  have "perform_law demo_os demo_kernel"
    by (auto simp: perform_law_def demo_os_def demo_kernel_def keeps_def armed_def)
  moreover have "ctl_law demo_os demo_kernel"
    by (auto simp: ctl_law_def ctl_frame_def ctl_success_def demo_os_def demo_kernel_def keeps_def armed_def
        split: epoll_ptr.splits)
  moreover have "wait_law demo_os demo_kernel"
    by (auto simp: wait_law_def demo_os_def demo_kernel_def armed_def)
  ultimately show ?thesis
    by (simp add: edge_triggered_def settime_law_def demo_os_def keeps_def)
qed

definition demo_world0 :: demo_world where
  "demo_world0 = \<lparr>dw_interest = (\<lambda>_. 0), dw_ready = (\<lambda>_ _. False), dw_pend = (\<lambda>_ _. False)\<rparr>"

definition demo_reactor :: "demo_world reactor" where
  "demo_reactor = reactor_new demo_os demo_world0 (tq_set_new (\<lambda>_. new_timer_queue)) 4 3"

definition demo_read :: reactor_op where
  "demo_read = \<lparr>rop_id = 7, rop_ec = Ok_code, rop_key = None, rop_bytes = 0\<rparr>"

text \<open>
  Descriptor 9 is registered and a read is started, which has to wait; then data arrives and the
  reactor waits for events.
\<close>

definition demo_rx1 :: "demo_world reactor" where
  "demo_rx1 = snd (snd (register_descriptor demo_os 0 9 demo_reactor))"

definition demo_st1 :: "demo_world rx_system" where
  "demo_st1 = (rx_init demo_reactor)\<lparr>rx := demo_rx1, usable := {0}\<rparr>"

definition demo_st2 :: "demo_world rx_system" where
  "demo_st2 = demo_st1\<lparr>rx := start_op demo_os Read_op 9 (Some 0) demo_read False True (rx demo_st1), started := {#7#}\<rparr>"

definition demo_data :: "demo_world \<Rightarrow> demo_world" where
  "demo_data w = w\<lparr>dw_ready := (dw_ready w)(0 := (dw_ready w 0)(Read_op := True)),
     dw_pend := (dw_pend w)(0 := (dw_pend w 0)(Read_op := True))\<rparr>"

definition demo_st3 :: "demo_world rx_system" where
  "demo_st3 = demo_st2\<lparr>rx := (rx demo_st2)\<lparr>world := demo_data (world (rx demo_st2))\<rparr>\<rparr>"

definition demo_rx4 :: "demo_world reactor" where
  "demo_rx4 = snd (the (rx_run 1 1000000000 demo_os (-1) (rx demo_st3)))"

definition demo_st4 :: "demo_world rx_system" where
  "demo_st4 = demo_st3\<lparr>rx := demo_rx4, inflight := [(0, EPOLLIN)]\<rparr>"

lemmas demo_defs = demo_st1_def demo_st2_def demo_st3_def demo_st4_def demo_rx1_def demo_rx4_def demo_reactor_def demo_os_def
  demo_kernel_def demo_world0_def demo_read_def demo_data_def reactor_new_def register_own_def rx_init_def
  register_descriptor_def allocate_descriptor_state_def epoll_ctl_def pool_new_def pool_defs rx_state_defs
  start_op_def after_speculation_def queue_op_def new_descr_def

lemma default_events_nonzero [simp]: "default_events \<noteq> 0"
  by (simp add: default_events_def EPOLLIN_def EPOLLPRI_def EPOLLERR_def EPOLLHUP_def EPOLLET_def)

lemma demo_register:
  "register_descriptor demo_os 0 9 demo_reactor = (0, Some 0, demo_rx1)"
  by (simp add: demo_defs Let_def)

lemma demo_reach1: "rx_reach 1 1000000000 demo_os demo_kernel demo_reactor demo_st1"
proof (rule rx_reach.step [OF rx_reach.init])
  have pool: "\<forall>live free. pool_rep (descrs (rx (rx_init demo_reactor))) live free \<longrightarrow> 0 \<notin> set live"
    by (auto simp: rx_init_def demo_reactor_def reactor_new_def register_own_def epoll_ctl_def demo_os_def
        pool_new_def pool_rep_def)
  have "register_descriptor demo_os 0 9 (rx (rx_init demo_reactor)) = (0, Some 0, demo_rx1)"
    by (simp add: rx_init_def demo_register)
  from rx_step.register [OF this pool, of 1 1000000000 demo_kernel]
  show "rx_step 1 1000000000 demo_os demo_kernel (rx_init demo_reactor) demo_st1"
    by (simp add: demo_st1_def rx_init_def)
qed

lemma demo_not_refused: "\<not> rearm_refused demo_os Read_op 9 (Some 0) True demo_rx1"
  by (simp add: rearm_refused_def demo_defs Let_def)

lemma demo_reach2: "rx_reach 1 1000000000 demo_os demo_kernel demo_reactor demo_st2"
proof (rule rx_reach.step [OF demo_reach1])
  have "Some 0 = (None :: did option) \<or> (\<exists>d \<in> usable demo_st1. Some 0 = Some d)"
    by (simp add: demo_st1_def)
  from rx_step.start [OF this, where op = demo_read and os = demo_os and k = demo_kernel and j = Read_op
      and fd = 9 and cont = False and spec = True and pnum = 1 and pden = 1000000000]
  show "rx_step 1 1000000000 demo_os demo_kernel demo_st1 demo_st2"
    by (simp add: demo_st2_def demo_st1_def rx_init_def demo_read_def demo_not_refused)
qed

lemma demo_reach3: "rx_reach 1 1000000000 demo_os demo_kernel demo_reactor demo_st3"
proof (rule rx_reach.step [OF demo_reach2])
  have "keeps demo_kernel w (demo_data w) d" for w d
    by (auto simp: keeps_def demo_kernel_def demo_data_def armed_def)
  then show "rx_step 1 1000000000 demo_os demo_kernel demo_st2 demo_st3"
    unfolding demo_st3_def by (intro rx_step.environment) (simp_all add: demo_kernel_def)
qed

lemma demo_run:
  "rx_run 1 1000000000 demo_os (-1) (rx demo_st3) = Some ([Descr_op 0], demo_rx4)"
  "task_result (descr demo_rx4 0) = EPOLLIN" "inflight demo_st3 = []"
  by (simp_all add: demo_defs Let_def rx_run_def rx_timeout_def handle_event_def)

lemma demo_reach4: "rx_reach 1 1000000000 demo_os demo_kernel demo_reactor demo_st4"
proof (rule rx_reach.step [OF demo_reach3])
  from rx_step.run [OF demo_run(1), of demo_kernel]
  show "rx_step 1 1000000000 demo_os demo_kernel demo_st3 demo_st4"
    by (simp add: demo_st4_def demo_run(2,3))
qed

lemma demo_st4_facts:
  "usable demo_st4 = {0}" "\<not> ds_shutdown (descr (rx demo_st4) 0)"
  "op_queue_of (descr (rx demo_st4) 0) Read_op = [demo_read]" "ready demo_kernel (world (rx demo_st4)) 0 Read_op"
  "\<not> pend demo_kernel (world (rx demo_st4)) 0 Read_op" "started demo_st4 = {#7#}" "inline_ops demo_st4 = []"
  "calls (rx demo_st4) = [Work_started]" "descr_runs demo_st4 = 0" "refused demo_st4 = {}"
  by (simp_all add: demo_defs Let_def rx_run_def rx_timeout_def handle_event_def)

lemma reach_inv_new:
  assumes "edge_laws c os k" "rx_reach pnum pden os k (reactor_new os w tqs tfd ifd) st"
  shows "rx_inv c k st"
proof (rule rx_reach_inv [OF assms(1) _ _ _ assms(2)])
  show "pool_rep (descrs (reactor_new os w tqs tfd ifd)) [] []" "calls (reactor_new os w tqs tfd ifd) = []"
    "\<And>d j. op_queue_of (descr (reactor_new os w tqs tfd ifd) d) j = []"
    by (simp_all add: reactor_new_def register_own_def epoll_ctl_def Let_def new_descr_def pool_rep_new
        split: prod.splits)
qed

lemma demo_perform:
  "\<exists>s'. perform_io demo_os 0 EPOLLIN demo_rx4 = (Some (Io_op (demo_read\<lparr>rop_bytes := 5\<rparr>)), s') \<and>
     op_queue_of (descr s' 0) Read_op = []"
proof -
  have "delivers EPOLLIN Read_op" by simp
  then show ?thesis
    by (simp add: perform_io_def perform_type_def max_ops_def delivers_def)
      (simp add: demo_defs Let_def rx_run_def rx_timeout_def handle_event_def flag_def EPOLLIN_def
        EPOLLOUT_def EPOLLPRI_def EPOLLERR_def EPOLLHUP_def)
qed

section \<open>What one run of a descriptor state does\<close>

text \<open>The operations \<open>fin\<close> complete in the order they were started; the others stay in theirs.\<close>

definition served :: "'w kernel \<Rightarrow> did \<Rightarrow> events \<Rightarrow> op_type \<Rightarrow> 'w reactor \<Rightarrow> 'w reactor \<Rightarrow> reactor_op list \<Rightarrow> bool"
where
  "served k d ev j s s' fin \<longleftrightarrow>
     map rop_id (op_queue_of (descr s d) j) = map rop_id fin @ map rop_id (op_queue_of (descr s' d) j) \<and>
     (\<not> delivers ev j \<longrightarrow> fin = [] \<and> op_queue_of (descr s' d) j = op_queue_of (descr s d) j) \<and>
     (delivers ev j \<and> covers (interest k (world s) d) j \<and> op_queue_of (descr s' d) j \<noteq> [] \<longrightarrow>
        armed k (world s') d j)"

lemma perform_type_served:
  assumes edge: "edge_laws c os k" and p: "perform_type os d ev j (s, ops) = (s', ops')"
  shows "\<exists>fin. ops' = ops @ map Io_op fin \<and> served k d ev j s s' fin \<and>
    (\<forall>i. i \<noteq> j \<longrightarrow> op_queue_of (descr s' d) i = op_queue_of (descr s d) i) \<and>
    calls s' = calls s \<and> keeps k (world s) (world s') d"
proof (cases "delivers ev j")
  case False
  then have "s' = s" "ops' = ops" using p by (auto simp: perform_type_def delivers_def)
  then show ?thesis using False by (intro exI [of _ "[]"]) (simp add: served_def)
next
  case True
  obtain ops1 q ex w where l: "perform_loop os d j (op_queue_of (descr s d) j) (world s) ops = (ops1, q, ex, w)"
    by (metis prod_cases4)
  from perform_loop_facts [OF edge l] obtain fin where
    f: "ops1 = ops @ map Io_op fin" "map rop_id (op_queue_of (descr s d) j) = map rop_id fin @ map rop_id q"
      "\<forall>d'. keeps k (world s) w d'" "q \<noteq> [] \<or> ex \<longrightarrow> covers (interest k (world s) d) j \<longrightarrow> armed k w d j"
    by blast
  have s': "s' = set_queue d j q (set_speculative d j (\<not> ex) s)\<lparr>world := w\<rparr>" "ops' = ops1"
    using True p l by (simp_all add: perform_type_def delivers_def)
  then have "op_queue_of (descr s' d) j = q" "world s' = w" "calls s' = calls s"
    "\<forall>i. i \<noteq> j \<longrightarrow> op_queue_of (descr s' d) i = op_queue_of (descr s d) i"
    by (simp_all add: rx_state_defs)
  then show ?thesis using f True s'(2) by (intro exI [of _ fin]) (simp add: served_def)
qed

lemma perform_types_served:
  assumes edge: "edge_laws c os k"
  shows "fold (perform_type os d ev) js (s, ops) = (s', ops') \<Longrightarrow> distinct js \<Longrightarrow>
    \<exists>fin. ops' = ops @ map Io_op (concat (map fin js)) \<and> (\<forall>j \<in> set js. served k d ev j s s' (fin j)) \<and>
      (\<forall>j. j \<notin> set js \<longrightarrow> op_queue_of (descr s' d) j = op_queue_of (descr s d) j) \<and>
      calls s' = calls s \<and> keeps k (world s) (world s') d"
proof (induction js arbitrary: s ops)
  case Nil
  then show ?case by simp
next
  case (Cons j js)
  obtain s1 ops1 where p: "perform_type os d ev j (s, ops) = (s1, ops1)" by fastforce
  from perform_type_served [OF edge p] obtain f1 where f1: "ops1 = ops @ map Io_op f1"
      "served k d ev j s s1 f1" "\<forall>i. i \<noteq> j \<longrightarrow> op_queue_of (descr s1 d) i = op_queue_of (descr s d) i"
      "calls s1 = calls s" "keeps k (world s) (world s1) d" by blast
  from Cons.IH [of s1 ops1] Cons.prems p obtain fin where
    fin: "ops' = ops1 @ map Io_op (concat (map fin js))" "\<forall>j \<in> set js. served k d ev j s1 s' (fin j)"
      "\<forall>i. i \<notin> set js \<longrightarrow> op_queue_of (descr s' d) i = op_queue_of (descr s1 d) i"
      "calls s' = calls s1" "keeps k (world s1) (world s') d" by auto
  have j: "j \<notin> set js" using Cons.prems(2) by simp
  let ?f = "fin(j := f1)"
  have "interest k (world s1) d = interest k (world s) d" using f1(5) by (simp add: keeps_def)
  then have rest: "served k d ev i s s' (fin i)" if "i \<in> set js" for i
  proof -
    have "op_queue_of (descr s1 d) i = op_queue_of (descr s d) i" using f1(3) j that by metis
    with bspec [OF fin(2) that] \<open>interest k (world s1) d = interest k (world s) d\<close>
    show ?thesis by (simp add: served_def)
  qed
  have here: "served k d ev j s s' f1"
    using f1(2,5) fin(3,5) j by (auto simp: served_def keeps_def)
  have "\<forall>i \<in> set (j # js). served k d ev i s s' (?f i)" using rest here j by auto
  moreover have "map ?f js = map fin js" using j by (intro map_cong) auto
  then have "ops' = ops @ map Io_op (concat (map ?f (j # js)))"
    using f1(1) fin(1) by (simp only: list.map concat.simps fun_upd_same map_append append_assoc)
  moreover have "\<forall>i. i \<notin> set (j # js) \<longrightarrow> op_queue_of (descr s' d) i = op_queue_of (descr s d) i"
    using f1(3) fin(3) by simp
  moreover have "keeps k (world s) (world s') d" by (rule keeps_trans [OF f1(5) fin(5)])
  moreover have "calls s' = calls s" using f1(4) fin(4) by simp
  ultimately show ?case by blast
qed

section \<open>Without assumptions on the kernel\<close>

text \<open>The kernel that promises nothing: no change of the world is excluded by it.\<close>

definition no_kernel :: "'w kernel" where
  "no_kernel = \<lparr>ready = (\<lambda>_ _ _. False), interest = (\<lambda>_ _. 0), pend = (\<lambda>_ _ _. False),
     noted = (\<lambda>_ _ _. False)\<rparr>"

definition keeps_ids :: "'w os \<Rightarrow> bool" where
  "keeps_ids os \<longleftrightarrow> (\<forall>d j op w. case os_perform os d j op w of (status, op', w') \<Rightarrow> rop_id op' = rop_id op)"

lemma no_kernel_keeps [simp]: "keeps no_kernel w w' d" "armed no_kernel w d j" "interest no_kernel w d = 0"
  "noted no_kernel w = (\<lambda>_ _. False)"
  by (simp_all add: no_kernel_def keeps_def armed_def)

lemma no_kernel_laws: "keeps_ids os \<Longrightarrow> edge_laws False os no_kernel"
  by (simp add: edge_laws_def keeps_ids_def perform_law_def ctl_frame_def wait_law_def settime_law_def case_prod_beta)

lemma no_kernel_step: "rx_step pnum pden os k st st' \<Longrightarrow> rx_step pnum pden os no_kernel st st'"
proof (induction rule: rx_step.induct)
  case register
  then show ?case by (rule rx_step.register)
next
  case start
  then show ?case by (rule rx_step.start)
next
  case cancel
  then show ?case by (rule rx_step.cancel)
next
  case cancel_key
  then show ?case by (rule rx_step.cancel_key)
next
  case deregister
  then show ?case by (rule rx_step.deregister)
next
  case cleanup
  then show ?case by (rule rx_step.cleanup)
next
  case run
  then show ?case by (rule rx_step.run)
next
  case perform
  then show ?case by (rule rx_step.perform)
next
  case environment
  show ?case by (rule rx_step.environment) simp_all
qed

lemma no_kernel_reach: "rx_reach pnum pden os k s st \<Longrightarrow> rx_reach pnum pden os no_kernel s st"
  by (induction rule: rx_reach.induct) (rule rx_reach.init, rule rx_reach.step [OF _ no_kernel_step])

section \<open>Properties\<close>

text \<open>C10: The reactor neither loses an operation nor delivers it twice, in any interleaving of
  registrations, started, cancelled and completed operations, deregistrations, waits and changes
  of the outside world, whatever the kernel answers, a refused \<open>epoll_ctl\<close> included: the operations
  started are, each exactly once, those waiting in a queue of a descriptor in use, those posted to
  the scheduler and those completed in place. A deregistered descriptor holds none. The work the
  scheduler was told of is one unit for every waiting operation and one for every descriptor state it
  has run. The only assumption is that the \<open>perform\<close> functions keep the identity of their operation
  (\<open>keeps_ids\<close>); \<open>k\<close> only restricts how the outside world may change, with \<open>no_kernel\<close> not at all.\<close>

theorem epoll_ops_accounted:
  assumes "keeps_ids os" "rx_reach pnum pden os k (reactor_new os w tqs tfd ifd) st"
  shows "started st = call_ids (calls (rx st)) + ids_of (inline_ops st) +
      (\<Sum>d \<in> usable st. queued_ids (descr (rx st) d)) \<and>
    (\<forall>d j. op_queue_of (descr (rx st) d) j \<noteq> [] \<longrightarrow> d \<in> usable st \<and> \<not> ds_shutdown (descr (rx st) d)) \<and>
    calls_work (calls (rx st)) =
      (\<Sum>d \<in> usable st. int (size (queued_ids (descr (rx st) d)))) + int (descr_runs st)"
  using reach_inv_new [OF no_kernel_laws [OF assms(1)] no_kernel_reach [OF assms(2)]] by (simp add: rx_inv_def)

theorem epoll_ops_accounted_witness:
  "(\<Sum>d \<in> usable demo_st4. queued_ids (descr (rx demo_st4) d)) = {#7#}"
proof -
  have "keeps_ids demo_os" by (simp add: keeps_ids_def demo_os_def)
  from epoll_ops_accounted [OF this demo_reach4 [unfolded demo_reactor_def]] show ?thesis
    by (simp add: demo_st4_facts call_ids_def)
qed

lemma waiting_noticed:
  assumes "edge_triggered os k" "rx_reach pnum pden os k (reactor_new os w tqs tfd ifd) st"
    and "op_queue_of (descr (rx st) d) j \<noteq> []" "d \<notin> refused st"
  shows "covers (interest k (world (rx st)) d) j"
    "ready k (world (rx st)) d j \<Longrightarrow>
       pend k (world (rx st)) d j \<or> (\<exists>ev. (d, ev) \<in> set (inflight st) \<and> delivers ev j)"
proof -
  from reach_inv_new [OF assms(1) [folded edge_laws_True] assms(2)] have inv: "rx_inv True k st" .
  then have "descr_ok k (world (rx st)) (inflight st) d (descr (rx st) d)"
    using assms(3,4) by (auto simp: rx_inv_def)
  then show "covers (interest k (world (rx st)) d) j"
    "ready k (world (rx st)) d j \<Longrightarrow>
       pend k (world (rx st)) d j \<or> (\<exists>ev. (d, ev) \<in> set (inflight st) \<and> delivers ev j)"
    using assms(3) by (auto simp: descr_ok_def armed_def split: if_splits)
qed

text \<open>A refused modification: the operation is queued all the same, the reactor's record of the registration
  covers its events, and the kernel watches for what it watched before. Nothing tells the
  operation that it may never be woken.\<close>

lemma epoll_refused_modification:
  assumes "ctl_frame os k" "rearm_refused os j fd (Some d) spec s"
  shows "op_queue_of (descr (start_op os j fd (Some d) op cont spec s) d) j = [op]"
    "interest k (world (start_op os j fd (Some d) op cont spec s)) d = interest k (world s) d"
    "j = Write_op \<Longrightarrow> covers (registered_events (descr (start_op os j fd (Some d) op cont spec s) d)) j"
    "calls (start_op os j fd (Some d) op cont spec s) = calls s @ [Work_started]"
proof -
  let ?ev = "if j = Write_op then registered_events (descr s d) OR EPOLLOUT else registered_events (descr s d)"
  obtain r w where c: "os_epoll_ctl os Ctl_mod fd ?ev (Descr_ptr d) (world s) = (r, w)" by fastforce
  have r: "r \<noteq> 0" "op_queue_of (descr s d) j = []" "registered_events (descr s d) \<noteq> 0" "\<not> ds_shutdown (descr s d)"
    "\<not> (spec \<and> (j \<noteq> Read_op \<or> op_queue_of (descr s d) Except_op = []))"
    using assms(2) c by (auto simp: rearm_refused_def)
  from assms(1) have "case os_epoll_ctl os Ctl_mod fd ?ev (Descr_ptr d) (world s) of (r, w') \<Rightarrow>
     \<forall>d'. Descr_ptr d \<noteq> Descr_ptr d' \<or> r \<noteq> 0 \<longrightarrow> keeps k (world s) w' d'" unfolding ctl_frame_def by (elim allE)
  with c r(1) have keep: "keeps k (world s) w d" by simp
  let ?s1 = "if j = Write_op
    then set_descr d (\<lambda>ds. ds\<lparr>registered_events := registered_events ds OR EPOLLOUT\<rparr>) s else s"
  have ctl: "epoll_ctl os Ctl_mod fd (registered_events (descr ?s1 d)) (Descr_ptr d) ?s1 = (r, ?s1\<lparr>world := w\<rparr>)"
    using c by (simp add: epoll_ctl_def set_descr_def split: if_splits)
  have "start_op os j fd (Some d) op cont spec s = queue_op j d op (?s1\<lparr>world := w\<rparr>)"
    using r ctl by (auto simp: start_op_def Let_def)
  then show "op_queue_of (descr (start_op os j fd (Some d) op cont spec s) d) j = [op]"
    "interest k (world (start_op os j fd (Some d) op cont spec s)) d = interest k (world s) d"
    "j = Write_op \<Longrightarrow> covers (registered_events (descr (start_op os j fd (Some d) op cont spec s) d)) j"
    "calls (start_op os j fd (Some d) op cont spec s) = calls s @ [Work_started]"
    using r(2) keep by (auto simp: queue_op_def rx_state_defs keeps_def covers_or covers_EPOLLOUT)
qed

text \<open>C4: No readiness is lost with edge-triggered events. In every reachable state, if an operation waits on a
  descriptor in use, the kernel watches the descriptor for its events, and if the operation
  could make progress now, then an event that serves it is pending in epoll or has been
  handed to the scheduler with the descriptor state. Assumed is what edge-triggered epoll promises
  (\<open>edge_triggered\<close>: an event becomes pending when a registration is made or modified for something ready;
  an attempt that did not complete, or that reports the descriptor exhausted, leaves it not ready or
  pending; a wait reports events or keeps them), not that \<open>epoll_ctl\<close> succeeds. The descriptors excepted are those for which the
  kernel has refused, since they were registered, the one modification whose result the code does
  not look at (\<open>refused\<close>, \<open>epoll_reactor.ipp:314\<close>). The outside world may change at any time, into
  anything that makes pending what it makes ready (\<open>keeps\<close>).\<close>

theorem epoll_no_lost_readiness:
  assumes "edge_triggered os k" "rx_reach pnum pden os k (reactor_new os w tqs tfd ifd) st"
    and "op_queue_of (descr (rx st) d) j \<noteq> []" "d \<notin> refused st"
  shows "covers (interest k (world (rx st)) d) j \<and>
    (ready k (world (rx st)) d j \<longrightarrow>
       pend k (world (rx st)) d j \<or> (\<exists>ev. (d, ev) \<in> set (inflight st) \<and> delivers ev j))"
  using waiting_noticed [OF assms] by blast

theorem epoll_no_lost_readiness_witness:
  "\<exists>ev. (0, ev) \<in> set (inflight demo_st4) \<and> delivers ev Read_op"
proof -
  have "op_queue_of (descr (rx demo_st4) 0) Read_op \<noteq> []" "0 \<notin> refused demo_st4" by (simp_all add: demo_st4_facts)
  from epoll_no_lost_readiness [OF demo_edge demo_reach4 [unfolded demo_reactor_def] this]
  show ?thesis using demo_st4_facts(4,5) by blast
qed

text \<open>A run of a descriptor state performs the waiting operations of every type its events deliver, exception
  operations first and reads last, each type in the order the operations were started, until
  one cannot complete or has exhausted the descriptor; what stays behind is noticed when
  it becomes ready. The first completed operation is returned, the others are posted with the
  work they have; if there is none, the unit the scheduler will take for the run is made up for.\<close>

theorem epoll_perform_io:
  assumes "edge_triggered os k" "perform_io os d ev s = (op, s')"
  shows "\<exists>fin. (\<forall>j. served k d ev j s s' (fin j)) \<and>
    (case map Io_op (fin Except_op @ fin Write_op @ fin Read_op) of
       [] \<Rightarrow> op = None \<and> calls s' = calls s @ [Compensating_work_started]
     | op1 # rest \<Rightarrow> op = Some op1 \<and>
         calls s' = calls s @ (if rest = [] then [] else [Post_deferred rest]))"
proof -
  obtain s1 ops where f: "fold (perform_type os d ev) (rev max_ops) (s, []) = (s1, ops)" by fastforce
  have "distinct (rev max_ops)" by (simp add: max_ops_def)
  from perform_types_served [OF assms(1) [folded edge_laws_True] f this] obtain fin where
    f0: "ops = [] @ map Io_op (concat (map fin (rev max_ops)))"
      "\<forall>j \<in> set (rev max_ops). served k d ev j s s1 (fin j)" "calls s1 = calls s" by blast
  have fin: "ops = map Io_op (fin Except_op @ fin Write_op @ fin Read_op)"
    "\<forall>j. served k d ev j s s1 (fin j)" "calls s1 = calls s"
    using f0 by (simp_all add: max_ops_def) (use f0(2) in simp)
  have "descr s' = descr s1" "world s' = world s1"
    using assms(2) f by (auto simp: perform_io_def call_def split: list.splits if_splits)
  then have "served k d ev j s s' (fin j)" for j using fin(2) by (simp add: served_def)
  moreover have "case ops of [] \<Rightarrow> op = None \<and> calls s' = calls s @ [Compensating_work_started]
     | op1 # rest \<Rightarrow> op = Some op1 \<and>
         calls s' = calls s @ (if rest = [] then [] else [Post_deferred rest])"
    using assms(2) f fin(3) by (auto simp: perform_io_def call_def split: list.splits if_splits)
  ultimately show ?thesis unfolding fin(1) by blast
qed

theorem epoll_perform_io_witness:
  "\<exists>fin :: op_type \<Rightarrow> reactor_op list. map rop_id (fin Read_op) = [7] \<and> fin Write_op = [] \<and> fin Except_op = []"
proof -
  obtain s' where p: "perform_io demo_os 0 EPOLLIN demo_rx4 = (Some (Io_op (demo_read\<lparr>rop_bytes := 5\<rparr>)), s')"
    and q: "op_queue_of (descr s' 0) Read_op = []"
    using demo_perform by blast
  have old: "op_queue_of (descr demo_rx4 0) Read_op = [demo_read]"
    using demo_st4_facts(3) by (simp add: demo_st4_def)
  from epoll_perform_io [OF demo_edge p] obtain fin where
    "\<forall>j. served demo_kernel 0 EPOLLIN j demo_rx4 s' (fin j)" by blast
  then have s: "served demo_kernel 0 EPOLLIN j demo_rx4 s' (fin j)" for j by blast
  have "map rop_id (fin Read_op) = [7]" using s [of Read_op] q old by (simp add: served_def demo_read_def)
  moreover have "fin Write_op = []" "fin Except_op = []"
    using s [of Write_op] s [of Except_op] by (simp_all add: served_def)
  ultimately show ?thesis by (intro exI [of _ fin] conjI)
qed

text \<open>Deregistering a descriptor aborts every waiting operation, each queue in order, and posts them with the
  work they have; when the descriptor is being closed the kernel is not asked. The state stays with the
  caller, marked as shut down: an operation started on it afterwards is posted at once and waits
  nowhere, and a second deregistration only drops the pointer.\<close>

theorem epoll_deregister:
  assumes "\<not> ds_shutdown (descr s d)"
    and "deregister_descriptor os fd (Some d) closing s = (data, s')"
  shows "data = Some d \<and> (\<forall>j. op_queue_of (descr s' d) j = []) \<and>
    calls s' = calls s @ [Post_deferred (map (\<lambda>op. Io_op (aborted op))
      (op_queue_of (descr s d) Read_op @ op_queue_of (descr s d) Write_op @ op_queue_of (descr s d) Except_op))] \<and>
    (closing \<longrightarrow> world s' = world s) \<and>
    (\<forall>j op cont spec. start_op os j fd data op cont spec s' = call (Post_immediate (Io_op op) cont) s') \<and>
    deregister_descriptor os fd data closing s' = (None, s')"
proof -
  let ?s1 = "if closing then s
    else if registered_events (descr s d) \<noteq> 0 then snd (epoll_ctl os Ctl_del fd 0 (Descr_ptr d) s) else s"
  have s1: "descr ?s1 = descr s" "calls ?s1 = calls s" "closing \<longrightarrow> world ?s1 = world s"
    using epoll_ctl_facts [of os Ctl_del fd 0 "Descr_ptr d" s] by (auto simp: prod_eq_iff)
  have s': "s' = call (Post_deferred (map (\<lambda>op. Io_op (aborted op)) (concat (map (op_queue_of (descr ?s1 d)) max_ops))))
      (set_descr d (\<lambda>ds. ds\<lparr>ds_descriptor := -1, ds_shutdown := True\<rparr>)
        (set_descr d (\<lambda>ds. ds\<lparr>op_queue_of := (\<lambda>_. [])\<rparr>) ?s1))" "data = Some d"
    using assms by (auto simp: deregister_descriptor_def abort_all_eq Let_def split: if_splits)
  have d: "descr s' d = (descr s d)\<lparr>op_queue_of := (\<lambda>_. []), ds_descriptor := -1, ds_shutdown := True\<rparr>"
    unfolding s'(1) using s1(1) by (simp add: rx_state_defs)
  have c: "calls s' = calls s @ [Post_deferred (map (\<lambda>op. Io_op (aborted op))
      (concat (map (op_queue_of (descr s d)) max_ops)))]"
    unfolding s'(1) using s1(1,2) by (simp add: rx_state_defs)
  have w: "closing \<longrightarrow> world s' = world s"
    unfolding s'(1) using s1(3) by (simp add: rx_state_defs)
  show ?thesis
    using d c w s'(2) by (simp add: max_ops_def start_op_def deregister_descriptor_def)
qed

theorem epoll_deregister_witness:
  "calls (snd (deregister_descriptor demo_os 9 (Some 0) True demo_rx4)) =
     [Work_started, Post_deferred [Io_op (aborted demo_read)]]"
proof -
  have up: "\<not> ds_shutdown (descr demo_rx4 0)" and q: "op_queue_of (descr demo_rx4 0) Read_op = [demo_read]"
    "calls demo_rx4 = [Work_started]"
    using demo_st4_facts(2,3,8) by (simp_all add: demo_st4_def)
  have "op_queue_of (descr demo_rx4 0) Write_op = []" "op_queue_of (descr demo_rx4 0) Except_op = []"
    by (simp_all add: demo_defs Let_def rx_run_def rx_timeout_def handle_event_def)
  with epoll_deregister [OF up prod.collapse [symmetric], of demo_os 9 True] q
  show ?thesis by simp
qed

end
