(* ===== verification/EpollTimers.thy ===== *)
theory EpollTimers
  imports EpollInv TimerSetProps
begin

text \<open>
  The timers of an epoll reactor, on a clock of nanoseconds: whatever is scheduled, cancelled and
  moved, the \<open>timerfd\<close> never expires later than the earliest timer.
\<close>

section \<open>The timer descriptor\<close>

text \<open>When it expires, if it is armed, and when it was set.\<close>

record 'w timerfd =
  expiry :: "'w \<Rightarrow> int option"
  set_at :: "'w \<Rightarrow> int"

text \<open>
  \<open>timerfd_settime\<close>, given a time within the ranges of a \<open>timespec\<close>, arms the descriptor, but disarms it
  when seconds and nanoseconds are both zero; nothing is known of it for other arguments. No
  other call changes it, and the clock does not go back.
\<close>

definition same_timer :: "'w os \<Rightarrow> 'w timerfd \<Rightarrow> 'w \<Rightarrow> 'w \<Rightarrow> bool" where
  "same_timer os f w w' \<longleftrightarrow> expiry f w' = expiry f w \<and> set_at f w' = set_at f w \<and>
     os_now os w \<le> os_now os w'"

definition timerfd_law :: "'w os \<Rightarrow> 'w timerfd \<Rightarrow> bool" where
  "timerfd_law os f \<longleftrightarrow>
     (\<forall>w. 0 \<le> os_now os w \<and> in_s64 (os_now os w)) \<and>
     (\<forall>abstime sec nsec w. 0 \<le> sec \<longrightarrow> 0 \<le> nsec \<longrightarrow> nsec < 1000000000 \<longrightarrow>
        expiry f (os_timerfd_settime os abstime sec nsec w) =
          (if sec = 0 \<and> nsec = 0 then None
           else Some ((if abstime then 0 else os_now os w) + sec * 1000000000 + nsec)) \<and>
        set_at f (os_timerfd_settime os abstime sec nsec w) = os_now os w) \<and>
     (\<forall>timeout w. same_timer os f w (snd (os_epoll_wait os timeout w)))"

lemma timerfd_lawD:
  assumes "timerfd_law os f"
  shows "0 \<le> os_now os w" "in_s64 (os_now os w)"
    "0 \<le> sec \<Longrightarrow> 0 \<le> nsec \<Longrightarrow> nsec < 1000000000 \<Longrightarrow> sec \<noteq> 0 \<or> nsec \<noteq> 0 \<Longrightarrow>
     expiry f (os_timerfd_settime os abstime sec nsec w) =
       Some ((if abstime then 0 else os_now os w) + sec * 1000000000 + nsec)"
    "0 \<le> sec \<Longrightarrow> 0 \<le> nsec \<Longrightarrow> nsec < 1000000000 \<Longrightarrow>
     set_at f (os_timerfd_settime os abstime sec nsec w) = os_now os w"
    "same_timer os f w (snd (os_epoll_wait os timeout w))"
proof -
  have now: "\<forall>w. 0 \<le> os_now os w \<and> in_s64 (os_now os w)"
    and set: "\<forall>abstime sec nsec w. 0 \<le> sec \<longrightarrow> 0 \<le> nsec \<longrightarrow> nsec < 1000000000 \<longrightarrow>
      expiry f (os_timerfd_settime os abstime sec nsec w) =
        (if sec = 0 \<and> nsec = 0 then None
         else Some ((if abstime then 0 else os_now os w) + sec * 1000000000 + nsec)) \<and>
      set_at f (os_timerfd_settime os abstime sec nsec w) = os_now os w"
    and wait: "\<forall>timeout w. same_timer os f w (snd (os_epoll_wait os timeout w))"
    by (rule conjunct1 [OF assms [unfolded timerfd_law_def]],
        rule conjunct1 [OF conjunct2 [OF assms [unfolded timerfd_law_def]]],
        rule conjunct2 [OF conjunct2 [OF assms [unfolded timerfd_law_def]]])
  show "0 \<le> os_now os w" "in_s64 (os_now os w)" using now by simp_all
  show "same_timer os f w (snd (os_epoll_wait os timeout w))" using wait by simp
  assume range: "0 \<le> sec" "0 \<le> nsec" "nsec < 1000000000"
  note st = set [rule_format, OF range, of abstime w]
  show "set_at f (os_timerfd_settime os abstime sec nsec w) = os_now os w" using st by (rule conjunct2)
  assume "sec \<noteq> 0 \<or> nsec \<noteq> 0"
  then show "expiry f (os_timerfd_settime os abstime sec nsec w) =
       Some ((if abstime then 0 else os_now os w) + sec * 1000000000 + nsec)"
    using st by (simp only: if_not_P de_Morgan_conj)
qed

section \<open>Steps\<close>

inductive tm_step :: "'w os \<Rightarrow> 'w timerfd \<Rightarrow> 'w reactor \<Rightarrow> 'w reactor \<Rightarrow> bool" for os f where
  add: "\<lbrakk> \<forall>qs. tq_set_of (timer_queues s) qs \<longrightarrow> q \<notin> set qs; queue_at (timer_queues s) q = new_timer_queue \<rbrakk> \<Longrightarrow>
   tm_step os f s (add_timer_queue q s)"
| remove: "remove_timer_queue q s = Some s' \<Longrightarrow> tm_step os f s s'"
| schedule: "\<lbrakk> length (heap (queue_at (timer_queues s) q)) < size_max; in_s64 time;
     schedule_timer 1 1000000000 os q time timer op s = Some s' \<rbrakk> \<Longrightarrow> tm_step os f s s'"
| cancel: "rx_cancel_timer q timer m s = (n, s') \<Longrightarrow> tm_step os f s s'"
| cancel_key: "tm_step os f s (rx_cancel_timer_by_key q timer key s)"
| move: "\<lbrakk> source \<noteq> target; length (ops_q (tdata (queue_at (timer_queues s) q) target)) \<le> size_max \<rbrakk> \<Longrightarrow>
   tm_step os f s (rx_move_timer q target source s)"
| run: "rx_run 1 1000000000 os usec s = Some (ops, s') \<Longrightarrow> tm_step os f s s'"
| environment: "same_timer os f (world s) w \<Longrightarrow> tm_step os f s (s\<lparr>world := w\<rparr>)"

inductive tm_reach :: "'w os \<Rightarrow> 'w timerfd \<Rightarrow> 'w reactor \<Rightarrow> 'w reactor \<Rightarrow> bool" for os f s0 where
  init: "tm_reach os f s0 s0"
| step: "tm_reach os f s0 s \<Longrightarrow> tm_step os f s s' \<Longrightarrow> tm_reach os f s0 s'"

section \<open>The invariant\<close>

definition queue_fine :: "int timer_queue \<Rightarrow> bool" where
  "queue_fine q \<longleftrightarrow> tq_reachable (\<lambda>_. False) q \<and> (\<forall>e \<in> set (heap q). in_s64 (entry_time e))"

definition in_time :: "'w timerfd \<Rightarrow> 'w \<Rightarrow> int timer_queue \<Rightarrow> bool" where
  "in_time f w q \<longleftrightarrow> (\<forall>e \<in> set (heap q). \<exists>t. expiry f w = Some t \<and> t \<le> max (entry_time e) (set_at f w) + 1000)"

definition tm_inv :: "'w timerfd \<Rightarrow> 'w reactor \<Rightarrow> bool" where
  "tm_inv f s \<longleftrightarrow> (\<forall>q. queue_fine (queue_at (timer_queues s) q)) \<and> timer_fd s \<noteq> -1 \<and>
     (\<exists>qs. tq_set_of (timer_queues s) qs \<and> (\<forall>q \<in> set qs. in_time f (world s) (queue_at (timer_queues s) q)))"

text \<open>A change that leaves every entry's time among those there were.\<close>

definition fewer_times :: "int timer_queue \<Rightarrow> int timer_queue \<Rightarrow> bool" where
  "fewer_times q q' \<longleftrightarrow> entry_time ` set (heap q') \<subseteq> entry_time ` set (heap q)"

lemma fewer_times_refl [simp]: "fewer_times q q"
  by (simp add: fewer_times_def)

lemma fewer_in_time:
  assumes "in_time f w q" "fewer_times q q'"
  shows "in_time f w q'"
  unfolding in_time_def
proof
  fix e assume "e \<in> set (heap q')"
  then obtain e0 where "e0 \<in> set (heap q)" "entry_time e = entry_time e0"
    using assms(2) unfolding fewer_times_def by blast
  then show "\<exists>t. expiry f w = Some t \<and> t \<le> max (entry_time e) (set_at f w) + 1000"
    using assms(1) by (simp add: in_time_def)
qed

lemma fewer_fine:
  assumes "queue_fine q" "fewer_times q q'" "tq_step (\<lambda>_. False) q q'"
  shows "queue_fine q'"
proof -
  have "tq_reachable (\<lambda>_. False) q'"
    using assms(1,3) by (simp add: queue_fine_def tq_reachable.step [of _ q])
  moreover have "in_s64 (entry_time e)" if "e \<in> set (heap q')" for e
  proof -
    have "entry_time e \<in> entry_time ` set (heap q)"
      using assms(2) that by (auto simp: fewer_times_def)
    then show ?thesis using assms(1) by (auto simp: queue_fine_def)
  qed
  ultimately show ?thesis by (simp add: queue_fine_def)
qed

lemma same_timer_in_time: "in_time f w q \<Longrightarrow> same_timer os f w w' \<Longrightarrow> in_time f w' q"
  by (simp add: in_time_def same_timer_def)

lemma mset_fewer: "mset (heap q') \<subseteq># mset (heap q) \<Longrightarrow> fewer_times q q'"
  using set_mset_mono [of "mset (heap q')" "mset (heap q)"] by (auto simp: fewer_times_def)

lemma cancel_fewer:
  assumes "tq_reachable is_inf q" "cancel_timer t ops m q = (q', ops', n)"
  shows "fewer_times q q'"
proof -
  from assms(1) obtain ts where "tq_inv {} q ts" by (rule reachableE)
  from cancel_timer_correct(5) [OF this assms(2)] show ?thesis
    by (intro mset_fewer) (simp split: if_splits)
qed

lemma cancel_key_fewer:
  assumes "tq_reachable is_inf q" "cancel_timer_by_key t ops key q = (q', ops')"
  shows "fewer_times q q'"
proof -
  from assms(1) obtain ts where "tq_inv {} q ts" by (rule reachableE)
  from cancel_timer_by_key_correct(4) [OF this assms(2)] show ?thesis by (rule mset_fewer)
qed

lemma move_fewer:
  assumes "tq_reachable is_inf q" "source \<noteq> target" "\<not> linked q target"
  shows "fewer_times q (move_timer target source q)"
proof -
  from assms(1) obtain ts where inv: "tq_inv {} q ts" by (rule reachableE)
  have t: "target \<notin> set ts" using tq_inv_linked [OF inv] assms(3) by simp
  show ?thesis
  proof (cases "source \<in> set ts")
    case True
    from move_timer_correct(2) [OF inv True t refl]
    have "heap (move_timer target source q) = map (retarget source target) (heap q)" .
    then show ?thesis by (auto simp: fewer_times_def retarget_def)
  next
    case False
    then show ?thesis using move_unlinked [OF inv False t assms(2)] by simp
  qed
qed

section \<open>Setting the timer descriptor\<close>

lemma set_timer_fd_in_time:
  assumes law: "timerfd_law os f" and fine: "\<forall>q. queue_fine (queue_at (timer_queues s) q)"
    and set: "tq_set_of (timer_queues s) qs"
  shows "\<exists>s'. set_timer_fd 1 1000000000 os s = Some s' \<and> timer_queues s' = timer_queues s \<and>
    timer_fd s' = timer_fd s \<and> (\<forall>q \<in> set qs. in_time f (world s') (queue_at (timer_queues s) q))"
proof -
  let ?now = "os_now os (world s)"
  note L = timerfd_lawD [OF law]
  have reach: "\<forall>q \<in> set qs. tq_reachable (\<lambda>_. False) (queue_at (timer_queues s) q)"
    and times: "\<forall>q \<in> set qs. \<forall>e \<in> set (heap (queue_at (timer_queues s) q)). in_s64 (entry_time e)"
    using fine by (simp_all add: queue_fine_def)
  from timer_set_facts(1) [OF set reach times L(2) [of "world s"], of "5 * 60 * 1000 * 1000"] obtain u where
    u: "tq_set_wait_usec 1 1000000000 ?now (timer_queues s) (5 * 60 * 1000 * 1000) = Some u" "0 \<le> u"
      "\<And>q e. q \<in> set qs \<Longrightarrow> e \<in> set (heap (queue_at (timer_queues s) q)) \<Longrightarrow>
         (entry_time e \<le> ?now \<longrightarrow> u \<le> 1) \<and>
         (?now < entry_time e \<longrightarrow> u \<le> max 1 ((entry_time e - ?now) div 1000))"
    by auto
  let ?w = "os_timerfd_settime os (u = 0) (u div 1000000) (if u \<noteq> 0 then (u mod 1000000) * 1000 else 1) (world s)"
  have s': "set_timer_fd 1 1000000000 os s = Some (s\<lparr>world := ?w\<rparr>)"
    unfolding set_timer_fd_def get_timeout_def u(1) by simp
  let ?sec = "u div 1000000" and ?nsec = "if u \<noteq> 0 then (u mod 1000000) * 1000 else 1"
  have range: "0 \<le> ?sec" "0 \<le> ?nsec" "?nsec < 1000000000"
    using u(2) pos_mod_bound [of 1000000 u] by (auto simp: pos_imp_zdiv_nonneg_iff)
  have some: "?sec \<noteq> 0 \<or> ?nsec \<noteq> 0"
    using div_mult_mod_eq [of u 1000000] by (auto split: if_splits)
  define x where "x = (if u = 0 then 0 else ?now) + ?sec * 1000000000 + ?nsec"
  have ex: "expiry f ?w = Some x" and at: "set_at f ?w = ?now"
    using L(3) [OF range some, of "u = 0" "world s"] L(4) [OF range, of "u = 0" "world s"] unfolding x_def by simp_all
  have le: "x \<le> (if u = 0 then 1 else ?now + u * 1000)"
    by (auto simp: x_def minus_div_mult_eq_mod [symmetric])
  have "x \<le> max (entry_time e) ?now + 1000"
    if e: "q \<in> set qs" "e \<in> set (heap (queue_at (timer_queues s) q))" for q e
  proof -
    have now: "0 \<le> ?now" by (rule L(1))
    consider "u \<le> 1" | "?now < entry_time e" "u \<le> (entry_time e - ?now) div 1000"
      using u(3) [OF e] by (cases "entry_time e \<le> ?now") (auto simp: max_def split: if_splits)
    then show ?thesis
    proof cases
      case 1
      then show ?thesis using le u(2) now by (auto simp: max_def split: if_splits)
    next
      case 2
      have "u * 1000 \<le> entry_time e - ?now" using 2(2) by (simp add: mult.commute)
      then show ?thesis using le now 2(1) by (auto simp: max_def split: if_splits)
    qed
  qed
  then show ?thesis using s' at ex by (auto simp: in_time_def)
qed

section \<open>Every step keeps the invariant\<close>

lemma tq_set_of_queue_at [simp]: "tq_set_of (s\<lparr>queue_at := x\<rparr>) qs = tq_set_of s qs"
  using qchain_cong [of qs "s\<lparr>queue_at := x\<rparr>" s "first s"] by (simp add: tq_set_of_def)

lemma tm_inv_update:
  assumes inv: "tm_inv f s" and fine: "queue_fine tq"
    and time: "in_time f (world s) (queue_at (timer_queues s) q) \<Longrightarrow> in_time f (world s) tq"
    and s': "timer_queues s' = (timer_queues s)\<lparr>queue_at := (queue_at (timer_queues s))(q := tq)\<rparr>"
      "world s' = world s" "timer_fd s' = timer_fd s"
  shows "tm_inv f s'"
  using inv fine time s' unfolding tm_inv_def by auto

lemma tm_inv_fewer:
  assumes inv: "tm_inv f s" and step: "tq_step (\<lambda>_. False) (queue_at (timer_queues s) q) tq"
    and fewer: "fewer_times (queue_at (timer_queues s) q) tq"
    and s': "timer_queues s' = (timer_queues s)\<lparr>queue_at := (queue_at (timer_queues s))(q := tq)\<rparr>"
      "world s' = world s" "timer_fd s' = timer_fd s"
  shows "tm_inv f s'"
proof (rule tm_inv_update [OF inv _ _ s'])
  show "queue_fine tq"
    using inv by (intro fewer_fine [OF _ fewer step]) (simp add: tm_inv_def)
  show "in_time f (world s) (queue_at (timer_queues s) q) \<Longrightarrow> in_time f (world s) tq"
    by (rule fewer_in_time [OF _ fewer])
qed

lemma enqueue_in_time:
  assumes fine: "queue_fine tq" and room: "length (heap tq) < size_max" and tm: "in_s64 tm"
    and e: "enqueue_timer (\<lambda>_. False) tm t op tq = (tq', earliest)"
  shows "queue_fine tq'" "\<not> earliest \<Longrightarrow> in_time f w tq \<Longrightarrow> in_time f w tq'"
proof -
  from fine obtain ts where inv: "tq_inv {} tq ts"
    by (auto simp: queue_fine_def elim: reachableE)
  note E = enqueue_timer_correct [OF inv room e]
  have heap': "set (heap tq') = set (heap tq) \<union> (if t \<in> set ts then {} else {\<lparr>entry_time = tm, entry_timer = t\<rparr>})"
    using arg_cong [OF E(2), of set_mset] by (simp add: new_entry_def)
  have "tq_reachable (\<lambda>_. False) tq'"
    using fine room e by (auto simp: queue_fine_def intro: tq_reachable.step tq_step.enq)
  then show "queue_fine tq'"
    using fine tm heap' by (auto simp: queue_fine_def split: if_splits)
  assume late: "\<not> earliest" and time: "in_time f w tq"
  show "in_time f w tq'"
  proof (cases "t \<in> set ts")
    case True
    then show ?thesis using time heap' by (simp add: in_time_def)
  next
    case False
    have hp: "tq_heap tq'" using E(1) by (simp add: tq_inv_def)
    have new: "\<lparr>entry_time = tm, entry_timer = t\<rparr> \<in> set (heap tq')" using heap' False by simp
    then have ne: "heap tq' \<noteq> []" by auto
    let ?top = "heap tq' ! 0"
    have "ops_q (tdata tq t) = []" using tq_inv_inactive [OF inv False] by simp
    then have "entry_timer ?top \<noteq> t" using late E(3) [of t] E(4) ne by simp
    then have "?top \<in> set (heap tq)" using heap' False nth_mem [of 0 "heap tq'"] ne by auto
    moreover have "entry_time ?top \<le> tm" using top_is_least [OF hp new] by simp
    ultimately have "\<exists>t. expiry f w = Some t \<and> t \<le> max tm (set_at f w) + 1000" using time by (fastforce simp: in_time_def)
    then show ?thesis using time heap' False by (simp add: in_time_def)
  qed
qed

lemma tm_inv_set:
  assumes law: "timerfd_law os f" and fine: "\<forall>q. queue_fine (queue_at (timer_queues s) q)"
    and set: "tq_set_of (timer_queues s) qs" and fd: "timer_fd s \<noteq> -1"
    and s': "set_timer_fd 1 1000000000 os s = Some s'"
  shows "tm_inv f s'"
  using set_timer_fd_in_time [OF law fine set] fine set fd s' unfolding tm_inv_def by auto

lemma schedule_tm_inv:
  assumes law: "timerfd_law os f" and inv: "tm_inv f s"
    and room: "length (heap (queue_at (timer_queues s) q)) < size_max" and tm: "in_s64 tm"
  shows "\<exists>s'. schedule_timer 1 1000000000 os q tm t op s = Some s' \<and> tm_inv f s'"
proof (cases "rx_shutdown s")
  case True
  then show ?thesis using inv by (simp add: schedule_timer_def call_def tm_inv_def)
next
  case False
  obtain tq earliest where e: "enqueue_timer (\<lambda>_. False) tm t op (queue_at (timer_queues s) q) = (tq, earliest)"
    by fastforce
  have fine: "queue_fine (queue_at (timer_queues s) q)" using inv by (simp add: tm_inv_def)
  note E = enqueue_in_time [OF fine room tm e]
  let ?s1 = "call Work_started (set_timer_queue q tq s)"
  have s1: "timer_queues ?s1 = (timer_queues s)\<lparr>queue_at := (queue_at (timer_queues s))(q := tq)\<rparr>"
    "world ?s1 = world s" "timer_fd ?s1 = timer_fd s" by (simp_all add: call_def set_timer_queue_def)
  show ?thesis
  proof (cases earliest)
    case True
    obtain qs where qs: "tq_set_of (timer_queues s) qs" using inv by (auto simp: tm_inv_def)
    have "\<forall>q. queue_fine (queue_at (timer_queues ?s1) q)" "tq_set_of (timer_queues ?s1) qs" "timer_fd ?s1 \<noteq> -1"
      using inv E(1) qs unfolding s1 by (simp_all add: tm_inv_def)
    with set_timer_fd_in_time [OF law, of ?s1 qs] tm_inv_set [OF law, of ?s1 qs]
    obtain s' where "set_timer_fd 1 1000000000 os ?s1 = Some s'" "tm_inv f s'" by blast
    then show ?thesis
      using False True e \<open>timer_fd ?s1 \<noteq> -1\<close> by (simp add: schedule_timer_def update_timeout_def Let_def)
  next
    case l: False
    from tm_inv_update [OF inv E(1) E(2) [OF l] s1] show ?thesis
      using False l e by (simp add: schedule_timer_def Let_def)
  qed
qed

lemma run_timers_tm_inv:
  assumes law: "timerfd_law os f" and inv: "tm_inv f s"
  shows "\<exists>ops' s'. run_timers 1 1000000000 os ops s = Some (ops', s') \<and> tm_inv f s'"
proof -
  obtain qs where qs: "tq_set_of (timer_queues s) qs" using inv by (auto simp: tm_inv_def)
  then have chain: "qchain (timer_queues s) (first (timer_queues s)) qs" "distinct qs"
    by (simp_all add: tq_set_of_def)
  let ?now = "os_now os (world s)"
  let ?R = "\<lambda>q q' (out :: wait_op list). queue_fine q'"
  have "\<exists>q' out. get_ready_timers ?now (queue_at (timer_queues s) q) ops = Some (q', ops @ out) \<and> ?R q q' out"
    for q ops
  proof -
    have fine: "queue_fine (queue_at (timer_queues s) q)" using inv by (simp add: tm_inv_def)
    then obtain ts where ts: "tq_inv {} (queue_at (timer_queues s) q) ts"
      by (auto simp: queue_fine_def elim: reachableE)
    from get_ready_timers_correct [OF ts, of ?now ops] obtain q' out where
      r: "get_ready_timers ?now (queue_at (timer_queues s) q) ops = Some (q', ops @ out)"
      "mset (heap q') \<subseteq># mset (heap (queue_at (timer_queues s) q))"
      by (metis multiset_filter_subset)
    have "queue_fine q'" by (rule fewer_fine [OF fine mset_fewer [OF r(2)] tq_step.ready [OF r(1)]])
    with r(1) show ?thesis by blast
  qed
  from each_queue_chain [of qs "get_ready_timers ?now" "timer_queues s" ?R, OF this chain(2,1), of "[]"]
  obtain tqs outs where t: "each_queue (get_ready_timers ?now) (first (timer_queues s)) (timer_queues s) [] =
      Some (tqs, concat outs)" "list_all2 (\<lambda>q out. queue_fine (queue_at tqs q)) qs outs"
    "\<forall>q. q \<notin> set qs \<longrightarrow> queue_at tqs q = queue_at (timer_queues s) q" "first tqs = first (timer_queues s)"
    "tq_next tqs = tq_next (timer_queues s)"
    by auto
  let ?s1 = "s\<lparr>timer_queues := tqs\<rparr>"
  have "queue_fine (queue_at tqs q)" for q
  proof (cases "q \<in> set qs")
    case True
    then show ?thesis using t(2) by (auto simp: list_all2_conv_all_nth in_set_conv_nth)
  next
    case False
    then show ?thesis using t(3) inv by (simp add: tm_inv_def)
  qed
  then have fine: "\<forall>q. queue_fine (queue_at (timer_queues ?s1) q)" by simp
  have set: "tq_set_of (timer_queues ?s1) qs"
    using qs t(4,5) qchain_cong [of qs tqs "timer_queues s" "first tqs"] by (simp add: tq_set_of_def)
  have fd: "timer_fd ?s1 \<noteq> -1" using inv by (simp add: tm_inv_def)
  from set_timer_fd_in_time [OF law fine set] tm_inv_set [OF law fine set fd]
  obtain s' where "set_timer_fd 1 1000000000 os ?s1 = Some s'" "tm_inv f s'" by blast
  then show ?thesis using fd t(1) by (simp add: run_timers_def tq_set_get_ready_def)
qed

lemma rx_run_tm_inv:
  assumes law: "timerfd_law os f" and inv: "tm_inv f s"
  shows "\<exists>ops s'. rx_run 1 1000000000 os usec s = Some (ops, s') \<and> tm_inv f s'"
proof -
  have fd: "timer_fd s \<noteq> -1" using inv by (simp add: tm_inv_def)
  then obtain timeout where t: "rx_timeout 1 1000000000 os usec s = Some timeout"
    by (cases "usec = 0") (auto simp: rx_timeout_def)
  obtain evs w where w: "os_epoll_wait os timeout (world s) = (evs, w)" by fastforce
  obtain s1 ops1 b where ev: "fold handle_event evs (s\<lparr>world := w\<rparr>, [], timer_fd s = -1) = (s1, ops1, b)"
    by (metis prod_cases3)
  note H = handle_events_facts [OF ev]
  have "same_timer os f (world s) w" using timerfd_lawD(5) [OF law, of "world s" timeout] w by simp
  then have "in_time f (world s) q \<Longrightarrow> in_time f w q" for q by (rule same_timer_in_time [rotated])
  then have inv1: "tm_inv f s1" using inv H by (auto simp: tm_inv_def)
  show ?thesis
  proof (cases b)
    case True
    then show ?thesis using run_timers_tm_inv [OF law inv1, of ops1] t w ev by (simp add: rx_run_def)
  next
    case False
    then show ?thesis using inv1 t w ev by (simp add: rx_run_def)
  qed
qed

lemma qchain_unique: "qchain s p qs \<Longrightarrow> qchain s p qs' \<Longrightarrow> qs = qs'"
proof (induction qs arbitrary: p qs')
  case Nil
  then show ?case by (cases qs') auto
next
  case (Cons q qs)
  then show ?case by (cases qs') auto
qed

lemma tq_set_of_unique: "tq_set_of s qs \<Longrightarrow> tq_set_of s qs' \<Longrightarrow> qs = qs'"
  unfolding tq_set_of_def using qchain_unique by blast

lemma new_queue_fine [simp]: "queue_fine new_timer_queue"
  using tq_reachable.start by (simp add: queue_fine_def new_timer_queue_def)

lemma tm_step_inv:
  assumes law: "timerfd_law os f" and step: "tm_step os f s s'" and inv: "tm_inv f s"
  shows "tm_inv f s'"
  using step
proof cases
  case (add q)
  obtain qs where qs: "tq_set_of (timer_queues s) qs"
    "\<forall>q \<in> set qs. in_time f (world s) (queue_at (timer_queues s) q)" using inv by (auto simp: tm_inv_def)
  then have "tq_set_of (tq_set_insert q (timer_queues s)) (q # qs)" using add(2) by (intro tq_set_insert_of) auto
  moreover have "queue_at (tq_set_insert q (timer_queues s)) = queue_at (timer_queues s)"
    by (simp add: tq_set_insert_def set_next_q_def)
  moreover have "in_time f (world s) (queue_at (timer_queues s) q)"
    using add(3) by (simp add: in_time_def new_timer_queue_def)
  ultimately show ?thesis
    using inv qs(2) unfolding add(1) tm_inv_def add_timer_queue_def
    by (intro conjI exI [of _ "q # qs"]) auto
next
  case (remove q)
  obtain qs where qs: "tq_set_of (timer_queues s) qs"
    "\<forall>q \<in> set qs. in_time f (world s) (queue_at (timer_queues s) q)" using inv by (auto simp: tm_inv_def)
  from tq_set_erase_of [OF qs(1), of q] obtain tqs where
    e: "tq_set_erase q (timer_queues s) = Some tqs" "tq_set_of tqs (remove1 q qs)"
      "queue_at tqs = queue_at (timer_queues s)" by blast
  then have "s' = s\<lparr>timer_queues := tqs\<rparr>" using remove by (simp add: remove_timer_queue_def)
  then show ?thesis
    using inv qs(2) e notin_set_remove1 unfolding tm_inv_def by (auto intro!: exI [of _ "remove1 q qs"])
next
  case (schedule q time timer op)
  then show ?thesis using schedule_tm_inv [OF law inv schedule(1,2), of timer op] by simp
next
  case (cancel q timer m n)
  obtain tq ops n' where c: "cancel_timer timer [] m (queue_at (timer_queues s) q) = (tq, ops, n')"
    by (metis prod_cases3)
  have "tq_reachable (\<lambda>_. False) (queue_at (timer_queues s) q)"
    using inv by (simp add: tm_inv_def queue_fine_def)
  note fewer = cancel_fewer [OF this c]
  show ?thesis
    by (rule tm_inv_fewer [OF inv tq_step.cancel [OF c] fewer])
      (use cancel c in \<open>auto simp: rx_cancel_timer_def call_def set_timer_queue_def\<close>)
next
  case (cancel_key q timer key)
  obtain tq ops where c: "cancel_timer_by_key timer [] key (queue_at (timer_queues s) q) = (tq, ops)"
    by fastforce
  have "tq_reachable (\<lambda>_. False) (queue_at (timer_queues s) q)"
    using inv by (simp add: tm_inv_def queue_fine_def)
  note fewer = cancel_key_fewer [OF this c]
  show ?thesis
    by (rule tm_inv_fewer [OF inv tq_step.cancel_key [OF c] fewer])
      (use cancel_key c in \<open>auto simp: rx_cancel_timer_by_key_def call_def set_timer_queue_def\<close>)
next
  case (move source target q)
  let ?q = "queue_at (timer_queues s) q"
  obtain tq ops n where c: "cancel_timer target [] size_max ?q = (tq, ops, n)"
    by (metis prod_cases3)
  have fine: "queue_fine ?q" using inv by (simp add: tm_inv_def)
  then have r: "tq_reachable (\<lambda>_. False) ?q" by (simp add: queue_fine_def)
  then obtain ts where ts: "tq_inv {} ?q ts" by (auto elim: reachableE)
  note C = cancel_timer_correct [OF ts c]
  have "tq_inv {} tq (remove1 target ts)" "distinct ts"
    using C(4) move(3) ts by (auto simp: tq_inv_def active_def)
  then have "\<not> linked tq target" using tq_inv_linked [of "{}" tq "remove1 target ts"] by auto
  have r1: "tq_reachable (\<lambda>_. False) tq" by (rule tq_reachable.step [OF r tq_step.cancel [OF c]])
  let ?s1 = "set_timer_queue q tq s"
  have inv1: "tm_inv f ?s1"
    by (rule tm_inv_fewer [OF inv tq_step.cancel [OF c] cancel_fewer [OF r c]])
      (simp_all add: set_timer_queue_def)
  have q1: "queue_at (timer_queues ?s1) q = tq" by (simp add: set_timer_queue_def)
  show ?thesis
    by (rule tm_inv_fewer [OF inv1, of q, unfolded q1,
          OF tq_step.move [OF move(2) \<open>\<not> linked tq target\<close>]
             move_fewer [OF r1 move(2) \<open>\<not> linked tq target\<close>]])
      (use c move(1) in \<open>auto simp: rx_move_timer_def call_def set_timer_queue_def\<close>)
next
  case (run usec ops)
  then show ?thesis using rx_run_tm_inv [OF law inv, of usec] by simp
next
  case (environment w)
  then show ?thesis
    using inv same_timer_in_time [OF _ environment(2)] by (auto simp: tm_inv_def)
qed

lemma tm_reach_inv:
  assumes "timerfd_law os f" "tfd \<noteq> -1"
    and "tm_reach os f (reactor_new os w (tq_set_new (\<lambda>_. new_timer_queue)) tfd ifd) s"
  shows "tm_inv f s"
  using assms(3)
proof (induction rule: tm_reach.induct)
  case init
  have "timer_queues (reactor_new os w (tq_set_new (\<lambda>_. new_timer_queue)) tfd ifd) =
      tq_set_new (\<lambda>_. new_timer_queue)" "timer_fd (reactor_new os w (tq_set_new (\<lambda>_. new_timer_queue)) tfd ifd) = tfd"
    by (auto simp: reactor_new_def register_own_def epoll_ctl_def Let_def split: prod.splits)
  then show ?case
    using assms(2) tq_set_new_of by (auto simp: tm_inv_def tq_set_new_def intro!: exI [of _ "[]"])
next
  case (step s s')
  show ?case by (rule tm_step_inv [OF assms(1) step.hyps(2) step.IH])
qed

section \<open>Properties\<close>

text \<open>C12: Timers fire on time. However timers are scheduled, cancelled, moved and served, on queues
  added to and removed from the reactor, and however time passes in between: while a timer waits the
  timer descriptor is armed, set to expire at the latest one microsecond after the expiry of the earliest timer of every
  queue (or after it was set last, if the timer was due by then), so that the reactor wakes up to
  serve it. The loop's \<open>run\<close> and \<open>schedule_timer\<close> always return.\<close>

theorem timers_on_time:
  assumes "timerfd_law os f" "tfd \<noteq> -1"
    and "tm_reach os f (reactor_new os w (tq_set_new (\<lambda>_. new_timer_queue)) tfd ifd) s"
    and "tq_set_of (timer_queues s) qs" "q \<in> set qs" "length (heap (queue_at (timer_queues s) q)) < size_max"
    and "in_s64 time"
  shows "(\<forall>e \<in> set (heap (queue_at (timer_queues s) q)).
       \<exists>t. expiry f (world s) = Some t \<and> t \<le> max (entry_time e) (set_at f (world s)) + 1000) \<and>
    (\<exists>s'. schedule_timer 1 1000000000 os q time timer op s = Some s') \<and>
    (\<exists>ops s'. rx_run 1 1000000000 os usec s = Some (ops, s'))"
proof -
  have inv: "tm_inv f s" by (rule tm_reach_inv [OF assms(1-3)])
  then have "in_time f (world s) (queue_at (timer_queues s) q)"
    using assms(4,5) tq_set_of_unique unfolding tm_inv_def by blast
  then show ?thesis
    using schedule_tm_inv [OF assms(1) inv assms(6,7)] rx_run_tm_inv [OF assms(1) inv]
    unfolding in_time_def by blast
qed

text \<open>A world that has only a clock and a timer descriptor.\<close>

record clock_world =
  cw_now :: int
  cw_expiry :: "int option"
  cw_set :: int

definition clock_os :: "clock_world os" where
  "clock_os = \<lparr>
     os_perform = (\<lambda>d j op w. (Not_done, op, w)),
     os_epoll_ctl = (\<lambda>c fd ev p w. (0, w)),
     os_epoll_wait = (\<lambda>timeout w. ([], w)),
     os_timerfd_settime = (\<lambda>abstime sec nsec w.
       w\<lparr>cw_expiry := (if sec = 0 \<and> nsec = 0 then None
           else Some ((if abstime then 0 else max 0 (min int64_max (cw_now w))) + sec * 1000000000 + nsec)),
         cw_set := max 0 (min int64_max (cw_now w))\<rparr>),
     os_interrupt = (\<lambda>w. w),
     os_now = (\<lambda>w. max 0 (min int64_max (cw_now w)))\<rparr>"

definition clock_fd :: "clock_world timerfd" where
  "clock_fd = \<lparr>expiry = cw_expiry, set_at = cw_set\<rparr>"

lemma clock_law: "timerfd_law clock_os clock_fd"
  by (auto simp: timerfd_law_def clock_os_def clock_fd_def same_timer_def in_s64_def int64_min_def
      int64_max_def)

definition clock_start :: "clock_world reactor" where
  "clock_start = reactor_new clock_os \<lparr>cw_now = 7000, cw_expiry = None, cw_set = 0\<rparr>
     (tq_set_new (\<lambda>_. new_timer_queue)) 4 3"

lemma wait_loop_simps [simp]:
  "wait_loop wt None d s = Some d"
  "wait_loop wt (Some q) d s = wait_loop wt (tq_next s q) (wt (queue_at s q) d) s"
  by (subst wait_loop.simps, simp)+

definition clock_one :: "clock_world reactor" where
  "clock_one = the (schedule_timer 1 1000000000 clock_os 0 5007000 1 (demo_op 10 None)
     (add_timer_queue 0 clock_start))"

lemma clock_queues:
  "timer_queues clock_start = tq_set_new (\<lambda>_. new_timer_queue)" "timer_fd clock_start = 4"
  "rx_shutdown clock_start = False" "world clock_start = \<lparr>cw_now = 7000, cw_expiry = None, cw_set = 0\<rparr>"
  by (simp_all add: clock_start_def reactor_new_def register_own_def epoll_ctl_def clock_os_def)

lemma clock_reach0:
  "tm_reach clock_os clock_fd clock_start (add_timer_queue 0 clock_start)"
proof (rule tm_reach.step [OF tm_reach.init tm_step.add])
  show "\<forall>qs. tq_set_of (timer_queues clock_start) qs \<longrightarrow> 0 \<notin> set qs"
    using tq_set_of_unique [OF tq_set_new_of] by (fastforce simp: clock_queues)
  show "queue_at (timer_queues clock_start) 0 = new_timer_queue"
    by (simp add: clock_queues tq_set_new_def)
qed

lemma clock_scheduled:
  "schedule_timer 1 1000000000 clock_os 0 5007000 1 (demo_op 10 None) (add_timer_queue 0 clock_start) =
     Some clock_one"
  "heap (queue_at (timer_queues clock_one) 0) = [\<lparr>entry_time = 5007000, entry_timer = 1\<rparr>]"
  "tq_set_of (timer_queues clock_one) [0]"
proof -
  let ?s0 = "add_timer_queue 0 clock_start"
  obtain tq :: "int timer_queue" where tq: "enqueue_timer (\<lambda>_. False) 5007000 1 (demo_op 10 None) new_timer_queue = (tq, True)"
    "heap tq = [\<lparr>entry_time = 5007000, entry_timer = 1\<rparr>]"
    by (simp add: demo_defs)
  let ?s1 = "call Work_started (set_timer_queue 0 tq ?s0)"
  have inv: "tm_inv clock_fd ?s0"
    using tm_reach_inv [OF clock_law, of 4] clock_reach0 by (simp add: clock_start_def)
  have set: "tq_set_of (timer_queues ?s1) [0]"
    using tq_set_insert_of [OF tq_set_new_of, of 0 "\<lambda>_. new_timer_queue"]
    by (simp add: call_def set_timer_queue_def add_timer_queue_def clock_queues)
  have q0: "queue_at (timer_queues ?s0) 0 = new_timer_queue"
    by (simp add: add_timer_queue_def clock_queues tq_set_insert_def set_next_q_def tq_set_new_def)
  have "queue_fine tq"
    by (rule enqueue_in_time(1) [OF new_queue_fine _ _ tq(1)])
      (simp_all add: new_timer_queue_def in_s64_def int64_min_def int64_max_def)
  then have "\<forall>q. queue_fine (queue_at (timer_queues ?s1) q)"
    using inv by (simp add: tm_inv_def call_def set_timer_queue_def)
  from set_timer_fd_in_time [OF clock_law this set] obtain s' where
    s': "set_timer_fd 1 1000000000 clock_os ?s1 = Some s'" "timer_queues s' = timer_queues ?s1" by blast
  have "rx_shutdown ?s0 = False" "timer_fd ?s1 = 4"
    by (simp_all add: add_timer_queue_def clock_queues call_def set_timer_queue_def)
  then have run: "schedule_timer 1 1000000000 clock_os 0 5007000 1 (demo_op 10 None) ?s0 = Some s'"
    using s'(1) tq(1) q0 by (simp add: schedule_timer_def update_timeout_def Let_def)
  then have one: "clock_one = s'" by (simp add: clock_one_def)
  show "schedule_timer 1 1000000000 clock_os 0 5007000 1 (demo_op 10 None) ?s0 = Some clock_one"
    using run one by simp
  show "heap (queue_at (timer_queues clock_one) 0) = [\<lparr>entry_time = 5007000, entry_timer = 1\<rparr>]"
    "tq_set_of (timer_queues clock_one) [0]"
    unfolding one s'(2) using set tq(2) by (simp_all add: call_def set_timer_queue_def)
qed

lemma clock_reach: "tm_reach clock_os clock_fd clock_start clock_one"
proof (rule tm_reach.step [OF clock_reach0 tm_step.schedule [OF _ _ clock_scheduled(1)]])
  show "length (heap (queue_at (timer_queues (add_timer_queue 0 clock_start)) 0)) < size_max"
    by (simp add: add_timer_queue_def clock_queues tq_set_insert_def set_next_q_def tq_set_new_def
        new_timer_queue_def)
  show "in_s64 5007000" by (simp add: in_s64_def int64_min_def int64_max_def)
qed

theorem timers_on_time_witness:
  "\<exists>t. cw_expiry (world clock_one) = Some t \<and> t \<le> max 5007000 (cw_set (world clock_one)) + 1000"
proof -
  have room: "length (heap (queue_at (timer_queues clock_one) 0)) < size_max"
    by (simp add: clock_scheduled(2) size_max_def)
  have i: "in_s64 0" by (simp add: in_s64_def int64_min_def int64_max_def)
  from timers_on_time [OF clock_law _ clock_reach [unfolded clock_start_def] clock_scheduled(3) _ room i]
  show ?thesis by (simp add: clock_scheduled(2) clock_fd_def)
qed

end
