(* ===== verification/WriteDynbuf.thy ===== *)
theory WriteDynbuf
  imports ReadDynbufProps
begin

text \<open>
  The rest of \<open>impl/write.hpp\<close>: running the asynchronous \<open>write_op\<close>, and \<open>write\<close> and \<open>async_write\<close> of
  a dynamic buffer, which write its data and then consume what was written.
\<close>

section \<open>Running a write\<close>

text \<open>Without cancellation: each write is given the buffers issued, the operation is called back with its result.\<close>

partial_function (option) run_async_write ::
  "'s writer \<Rightarrow> completion_condition \<Rightarrow> mem \<Rightarrow> rw_op \<Rightarrow> abuf list \<Rightarrow> 's \<Rightarrow> (nat \<times> error_code \<times> 's) option"
where
  "run_async_write write_some cc m op bufs s =
     (case write_some s (buf_bytes m bufs) of (s1, n, ec) \<Rightarrow>
        (case write_op_call cc op ec n 0 of (op1, act) \<Rightarrow>
          (case act of
             Issue bufs1 \<Rightarrow> run_async_write write_some cc m op1 bufs1 s1
           | Invoke ec1 n1 \<Rightarrow> Some (n1, ec1, s1))))"

declare run_async_write.simps [code]

definition async_write ::
  "'s writer \<Rightarrow> completion_condition \<Rightarrow> 's \<Rightarrow> mem \<Rightarrow> bufarg \<Rightarrow> (nat \<times> error_code \<times> 's) option"
where
  "async_write write_some cc s m buffers =
     (case start_write_op cc buffers False of
        (op, Issue bufs) \<Rightarrow> run_async_write write_some cc m op bufs s
      | (op, Invoke ec n) \<Rightarrow> Some (n, ec, s))"

lemma write_op_round:
  assumes "conforming_writer out write_some" "progressing_writer write_some"
    and ok: "con_ok c" and go: "\<not> round_stops cc c ec0" and none: "cs_cancelled (rw_cancel op) = ct_none" and c: "rw_buffers op = c"
    and wr: "write_some s (buf_bytes m (con_prepare c (check_for_completion cc ec0 (con_total_consumed c)))) = (s1, n, ec)"
  shows "con_ok (con_consume c n)"
    "write_op_call cc op ec n 0 = (op\<lparr>rw_start := 0, rw_buffers := con_consume c n\<rparr>,
      if round_stops cc (con_consume c n) ec
      then Invoke ec (con_total_consumed (con_consume c n))
      else Issue (con_prepare (con_consume c n) (check_for_completion cc ec (con_total_consumed (con_consume c n)))))"
proof -
  show "con_ok (con_consume c n)" by (rule write_round_facts(1) [OF ok wr assms(1)])
  have "addrs (con_prepare c (check_for_completion cc ec0 (con_total_consumed c))) \<noteq> []"
    using con.prepare_some [OF ok] con.empty_law [OF ok] go by (simp add: round_stops_def)
  then have "0 < n \<or> failed ec"
    using assms(2) wr unfolding progressing_writer_def concat_buf_bytes [symmetric]
    by (metis concat_buf_bytes get_bytes_def map_is_Nil_conv)
  then show "write_op_call cc op ec n 0 = (op\<lparr>rw_start := 0, rw_buffers := con_consume c n\<rparr>,
      if round_stops cc (con_consume c n) ec
      then Invoke ec (con_total_consumed (con_consume c n))
      else Issue (con_prepare (con_consume c n) (check_for_completion cc ec (con_total_consumed (con_consume c n)))))"
    using none c by (auto simp: write_op_is_read_op read_op_resumed round_stops_def Let_def)
qed

lemma write_loop_unfold:
  "write_loop write_some cc m c ec s =
    (if round_stops cc c ec then Some (con_total_consumed c, ec, s)
     else case write_some s (buf_bytes m (con_prepare c (check_for_completion cc ec (con_total_consumed c)))) of
       (s1, n, ec1) \<Rightarrow> write_loop write_some cc m (con_consume c n) ec1 s1)"
  by (subst write_loop.simps) (simp add: round_stops_def check_for_completion_def Let_def)

lemma write_loop_run:
  assumes conf: "conforming_writer out write_some" and prog: "progressing_writer write_some"
    and res: "write_loop write_some cc m c ec s = Some r" and ok: "con_ok c"
  shows "if round_stops cc c ec then r = (con_total_consumed c, ec, s)
    else \<forall>op. rw_buffers op = c \<longrightarrow> cs_cancelled (rw_cancel op) = ct_none \<longrightarrow>
      run_async_write write_some cc m op (con_prepare c (check_for_completion cc ec (con_total_consumed c))) s = Some r"
proof -
  let ?P = "\<lambda>write_some' cc' m' c (ec::error_code) s r.
    write_some' = write_some \<longrightarrow> cc' = cc \<longrightarrow> m' = m \<longrightarrow> con_ok c \<longrightarrow>
    (if round_stops cc c ec then r = (con_total_consumed c, ec, s)
     else \<forall>op. rw_buffers op = c \<longrightarrow> cs_cancelled (rw_cancel op) = ct_none \<longrightarrow>
      run_async_write write_some cc m op (con_prepare c (check_for_completion cc ec (con_total_consumed c))) s = Some r)"
  have "?P write_some cc m c ec s r"
  proof (rule write_loop.raw_induct [where P = ?P, OF _ res], intro impI)
    fix loop write_some' cc' m' c ec s r
    assume IH: "\<And>a b m c (ec::error_code) s r. loop a b m c ec s = Some r \<Longrightarrow> ?P a b m c ec s r"
      and body: "(if \<not> con_empty c then
        (let max_size = adapt_completion_condition_result (cc' ec (con_total_consumed c))
         in if max_size \<noteq> 0 then
              (case write_some' s (buf_bytes m' (con_prepare c max_size)) of (s1, n, ec1) \<Rightarrow>
                loop write_some' cc' m' (con_consume c n) ec1 s1)
            else Some (con_total_consumed c, ec, s))
      else Some (con_total_consumed c, ec, s)) = Some r"
      and eqs: "write_some' = write_some" "cc' = cc" "m' = m" and ok: "con_ok c"
    let ?bufs = "con_prepare c (check_for_completion cc ec (con_total_consumed c))"
    show "if round_stops cc c ec then r = (con_total_consumed c, ec, s)
     else \<forall>op. rw_buffers op = c \<longrightarrow> cs_cancelled (rw_cancel op) = ct_none \<longrightarrow>
      run_async_write write_some cc m op ?bufs s = Some r"
    proof (cases "round_stops cc c ec")
      case True
      then show ?thesis using body eqs
        by (cases "con_empty c") (simp_all add: round_stops_def check_for_completion_def Let_def)
    next
      case False
      obtain s1 n ec1 where wr: "write_some s (buf_bytes m ?bufs) = (s1, n, ec1)" by (metis prod_cases3)
      have "loop write_some cc m (con_consume c n) ec1 s1 = Some r"
        using body eqs False wr by (simp add: round_stops_def check_for_completion_def Let_def)
      note ih = IH [OF this]
      have "run_async_write write_some cc m op ?bufs s = Some r"
        if op: "rw_buffers op = c" "cs_cancelled (rw_cancel op) = ct_none" for op
      proof -
        note R = write_op_round [OF conf prog ok False op(2,1) wr]
        show ?thesis using ih R(1) op(2)
          by (subst run_async_write.simps) (auto simp: wr R(2) split: if_splits)
      qed
      then show ?thesis using False by simp
    qed
  qed
  with ok show ?thesis by simp
qed

lemma run_write_loop:
  assumes conf: "conforming_writer out write_some" and prog: "progressing_writer write_some"
    and res: "run_async_write write_some cc m op bufs s = Some r"
  shows "con_ok (rw_buffers op) \<Longrightarrow> cs_cancelled (rw_cancel op) = ct_none \<Longrightarrow> \<not> round_stops cc (rw_buffers op) ec \<Longrightarrow>
    bufs = con_prepare (rw_buffers op) (check_for_completion cc ec (con_total_consumed (rw_buffers op))) \<Longrightarrow>
    write_loop write_some cc m (rw_buffers op) ec s = Some r"
proof -
  let ?P = "\<lambda>write_some' cc' m' op bufs s r. \<forall>ec. write_some' = write_some \<longrightarrow> cc' = cc \<longrightarrow> m' = m \<longrightarrow>
    con_ok (rw_buffers op) \<longrightarrow> cs_cancelled (rw_cancel op) = ct_none \<longrightarrow> \<not> round_stops cc (rw_buffers op) ec \<longrightarrow>
    bufs = con_prepare (rw_buffers op) (check_for_completion cc ec (con_total_consumed (rw_buffers op))) \<longrightarrow>
    write_loop write_some cc m (rw_buffers op) ec s = Some r"
  have "?P write_some cc m op bufs s r"
  proof (rule run_async_write.raw_induct [where P = ?P, OF _ res], intro allI impI)
    fix run write_some' cc' m' op bufs s r ec
    assume IH: "\<And>a b m op bufs s r. run a b m op bufs s = Some r \<Longrightarrow> ?P a b m op bufs s r"
      and body: "(case write_some' s (buf_bytes m' bufs) of (s1, n, ec) \<Rightarrow>
        (case write_op_call cc' op ec n 0 of (op1, act) \<Rightarrow>
          (case act of
             Issue bufs1 \<Rightarrow> run write_some' cc' m' op1 bufs1 s1
           | Invoke ec1 n1 \<Rightarrow> Some (n1, ec1, s1)))) = Some r"
      and eqs: "write_some' = write_some" "cc' = cc" "m' = m" and ok: "con_ok (rw_buffers op)"
      and none: "cs_cancelled (rw_cancel op) = ct_none" and go: "\<not> round_stops cc (rw_buffers op) ec"
      and bufs: "bufs = con_prepare (rw_buffers op) (check_for_completion cc ec (con_total_consumed (rw_buffers op)))"
    obtain s1 n ec1 where wr: "write_some s (buf_bytes m bufs) = (s1, n, ec1)" by (metis prod_cases3)
    note R = write_op_round [OF conf prog ok go none refl wr [unfolded bufs]]
    let ?c = "con_consume (rw_buffers op) n"
    have step: "write_loop write_some cc m (rw_buffers op) ec s = write_loop write_some cc m ?c ec1 s1"
      using go wr bufs by (subst write_loop_unfold) simp
    show "write_loop write_some cc m (rw_buffers op) ec s = Some r"
    proof (cases "round_stops cc ?c ec1")
      case True
      then show ?thesis using body eqs wr R(2) unfolding step by (subst write_loop_unfold) simp
    next
      case False
      let ?op = "op\<lparr>rw_start := 0, rw_buffers := ?c\<rparr>"
      have "run write_some cc m ?op (con_prepare ?c (check_for_completion cc ec1 (con_total_consumed ?c))) s1 = Some r"
        using body False eqs wr R(2) by simp
      from IH [OF this] show ?thesis using R(1) none False step by simp
    qed
  qed
  then show "con_ok (rw_buffers op) \<Longrightarrow> cs_cancelled (rw_cancel op) = ct_none \<Longrightarrow> \<not> round_stops cc (rw_buffers op) ec \<Longrightarrow>
    bufs = con_prepare (rw_buffers op) (check_for_completion cc ec (con_total_consumed (rw_buffers op))) \<Longrightarrow>
    write_loop write_some cc m (rw_buffers op) ec s = Some r" by simp
qed

lemma run_async_write_eq:
  assumes "conforming_writer out write_some" "progressing_writer write_some"
    and "con_ok (rw_buffers op)" "cs_cancelled (rw_cancel op) = ct_none" "\<not> round_stops cc (rw_buffers op) ec"
    and "bufs = con_prepare (rw_buffers op) (check_for_completion cc ec (con_total_consumed (rw_buffers op)))"
  shows "run_async_write write_some cc m op bufs s = write_loop write_some cc m (rw_buffers op) ec s"
proof (rule option_eqI)
  fix r
  show "write_loop write_some cc m (rw_buffers op) ec s = Some r" if "run_async_write write_some cc m op bufs s = Some r"
    by (rule run_write_loop [OF assms(1,2) that assms(3-6)])
  show "run_async_write write_some cc m op bufs s = Some r" if "write_loop write_some cc m (rw_buffers op) ec s = Some r"
    using write_loop_run [OF assms(1,2) that assms(3)] assms(4-6) by simp
qed

lemma async_write_facts:
  assumes "conforming_writer out write_some" "progressing_writer write_some"
    and "arg_ok buffers" "0 < buffer_size (arg_bufs buffers)" "check_for_completion cc Ok_code 0 \<noteq> 0"
  shows "async_write write_some cc s m buffers = write_buffer_sequence write_some s m buffers cc"
proof -
  note new = con_new_facts [OF assms(3)]
  let ?op = "(read_op_new buffers False)\<lparr>rw_start := 1\<rparr>"
  have op: "rw_buffers ?op = con_new buffers" "cs_cancelled (rw_cancel ?op) = ct_none"
    by (simp_all add: read_op_new_def cs_new_def cs_cancelled_def ct_none_def)
  have "async_write write_some cc s m buffers =
      run_async_write write_some cc m ?op (con_prepare (con_new buffers) (check_for_completion cc Ok_code 0)) s"
    using new by (simp add: async_write_def write_op_is_read_op start_read_op_def read_op_call_def op read_op_new_def)
  also have "\<dots> = write_loop write_some cc m (con_new buffers) Ok_code s"
    using run_async_write_eq [OF assms(1,2), of ?op cc Ok_code] con.empty_law [OF new(1)] new op assms(4,5)
    by (simp add: buffer_size_eq round_stops_def)
  finally show ?thesis by (simp add: write_buffer_sequence_def)
qed

section \<open>Dynamic buffers\<close>

text \<open>
  What \<open>data()\<close> designates: a buffer into the storage of the container, whose first byte is at
  address zero of a memory of its own.
\<close>

definition storage_mem :: "byte list \<Rightarrow> mem" where
  "storage_mem xs = (\<lambda>a. if a < length xs then xs ! a else 0)"

definition region_buf :: "region \<Rightarrow> bufarg" where
  "region_buf r = Single \<lparr>buf_data = fst r, buf_size = snd r\<rparr>"

definition write_v1 ::
  "'s writer \<Rightarrow> 's \<Rightarrow> dynbuf \<Rightarrow> completion_condition \<Rightarrow> (nat \<times> error_code \<times> 's \<times> dynbuf) option"
where
  "write_v1 write_some s b cc =
     (case write_buffer_sequence write_some s (storage_mem (db_storage b)) (region_buf (db_data b)) cc of
        None \<Rightarrow> None
      | Some (bytes_transferred, ec, s1) \<Rightarrow>
          Some (bytes_transferred, ec, s1, db_consume b bytes_transferred))"

definition write_v2 ::
  "'s writer \<Rightarrow> 's \<Rightarrow> dynbuf2 \<Rightarrow> completion_condition \<Rightarrow> (nat \<times> error_code \<times> 's \<times> dynbuf2) option"
where
  "write_v2 write_some s b cc =
     (case write_buffer_sequence write_some s (storage_mem (db2_storage b))
             (region_buf (db2_data_at b 0 (db2_size b))) cc of
        None \<Rightarrow> None
      | Some (bytes_transferred, ec, s1) \<Rightarrow>
          Some (bytes_transferred, ec, s1, db2_consume b bytes_transferred))"

text \<open>The throwing overloads; the buffer is consumed before the exception.\<close>

definition write_v1_throw ::
  "'s writer \<Rightarrow> 's \<Rightarrow> dynbuf \<Rightarrow> completion_condition \<Rightarrow> ((exn + nat) \<times> 's \<times> dynbuf) option"
where
  "write_v1_throw write_some s b cc =
     map_option (\<lambda>(n, ec, s1, b1). (throw_error ec n, s1, b1)) (write_v1 write_some s b cc)"

definition write_v2_throw ::
  "'s writer \<Rightarrow> 's \<Rightarrow> dynbuf2 \<Rightarrow> completion_condition \<Rightarrow> ((exn + nat) \<times> 's \<times> dynbuf2) option"
where
  "write_v2_throw write_some s b cc =
     map_option (\<lambda>(n, ec, s1, b1). (throw_error ec n, s1, b1)) (write_v2 write_some s b cc)"

text \<open>
  \<open>write_dynbuf_v1_op\<close> and \<open>write_dynbuf_v2_op\<close>: started, they write the data with \<open>async_write\<close>;
  called back, they consume and invoke the handler.
\<close>

datatype wdyn_action = Write_data region | Write_handler error_code nat

definition write_dynbuf_v1_call ::
  "dynbuf \<Rightarrow> error_code \<Rightarrow> nat \<Rightarrow> int \<Rightarrow> dynbuf \<times> wdyn_action"
where
  "write_dynbuf_v1_call buffers ec bytes_transferred start =
     (if start = 1 then (buffers, Write_data (db_data buffers))
      else (db_consume buffers bytes_transferred, Write_handler ec bytes_transferred))"

definition write_dynbuf_v2_call ::
  "dynbuf2 \<Rightarrow> error_code \<Rightarrow> nat \<Rightarrow> int \<Rightarrow> dynbuf2 \<times> wdyn_action"
where
  "write_dynbuf_v2_call buffers ec bytes_transferred start =
     (if start = 1 then (buffers, Write_data (db2_data_at buffers 0 (db2_size buffers)))
      else (db2_consume buffers bytes_transferred, Write_handler ec bytes_transferred))"

text \<open>Running either of them: \<open>call\<close> is its function call operator, \<open>storage\<close> the bytes of its container.\<close>

definition async_write_dynbuf ::
  "('b \<Rightarrow> error_code \<Rightarrow> nat \<Rightarrow> int \<Rightarrow> 'b \<times> wdyn_action) \<Rightarrow> ('b \<Rightarrow> byte list) \<Rightarrow>
   's writer \<Rightarrow> completion_condition \<Rightarrow> 's \<Rightarrow> 'b \<Rightarrow> (nat \<times> error_code \<times> 's \<times> 'b) option"
where
  "async_write_dynbuf call storage write_some cc s b =
     (case call b Ok_code 0 1 of
        (b, Write_handler ec n) \<Rightarrow> Some (n, ec, s, b)
      | (b, Write_data r) \<Rightarrow>
          (case async_write write_some cc s (storage_mem (storage b)) (region_buf r) of
             None \<Rightarrow> None
           | Some (n, ec, s1) \<Rightarrow>
               (case call b ec n 0 of
                  (b1, Write_handler ec1 n1) \<Rightarrow> Some (n1, ec1, s1, b1)
                | (b1, Write_data r1) \<Rightarrow> None)))"

definition async_write_v1 ::
  "'s writer \<Rightarrow> completion_condition \<Rightarrow> 's \<Rightarrow> dynbuf \<Rightarrow> (nat \<times> error_code \<times> 's \<times> dynbuf) option"
where
  "async_write_v1 = async_write_dynbuf write_dynbuf_v1_call db_storage"

definition async_write_v2 ::
  "'s writer \<Rightarrow> completion_condition \<Rightarrow> 's \<Rightarrow> dynbuf2 \<Rightarrow> (nat \<times> error_code \<times> 's \<times> dynbuf2) option"
where
  "async_write_v2 = async_write_dynbuf write_dynbuf_v2_call db2_storage"

section \<open>What they do\<close>

lemma region_buf_facts [simp]:
  "arg_ok (region_buf r)" "arg_bufs (region_buf r) = [\<lparr>buf_data = fst r, buf_size = snd r\<rparr>]"
  by (simp_all add: region_buf_def)

lemma region_bytes:
  assumes "fst r + snd r \<le> length xs"
  shows "get_bytes (storage_mem xs) (take n (addrs (arg_bufs (region_buf r)))) = take n (rg_bytes xs r)"
  using assms
  by (intro nth_equalityI) (auto simp: get_bytes_def baddrs_def rg_bytes_def storage_mem_def)

lemma db_data_region:
  assumes "db_ok b"
  shows "fst (db_data b) + snd (db_data b) \<le> length (db_storage b)" "snd (db_data b) = db_size b"
    "rg_bytes (db_storage b) (db_data b) = db_contents b"
proof -
  show bytes: "rg_bytes (db_storage b) (db_data b) = db_contents b"
    using db.data_law [OF assms] by (simp add: db_bytes_def)
  show le: "fst (db_data b) + snd (db_data b) \<le> length (db_storage b)"
    using assms by (cases b) (auto simp: dsb_data_def dvb_data_def rg_limit_def ct_buffer_def sb_data_def sb_ok_def)
  show "snd (db_data b) = db_size b"
    using db.size_law [OF assms] le arg_cong [OF bytes, of length] by (simp add: rg_bytes_def)
qed

lemma db2_data_region:
  assumes "db2_ok b"
  shows "fst (db2_data_at b 0 (db2_size b)) + snd (db2_data_at b 0 (db2_size b)) \<le> length (db2_storage b)"
    "snd (db2_data_at b 0 (db2_size b)) = db2_size b"
    "rg_bytes (db2_storage b) (db2_data_at b 0 (db2_size b)) = db2_contents b"
proof -
  show bytes: "rg_bytes (db2_storage b) (db2_data_at b 0 (db2_size b)) = db2_contents b"
    using db2.data_law [OF assms, of 0 "db2_size b"] db2.size_law [OF assms] by (simp add: db2_bytes_at_def)
  show le: "fst (db2_data_at b 0 (db2_size b)) + snd (db2_data_at b 0 (db2_size b)) \<le> length (db2_storage b)"
    using assms by (cases b) (auto simp: dsb_data_at_def dvb_data_at_def rg_limit_def rg_plus_def ct_buffer_def Let_def)
  show "snd (db2_data_at b 0 (db2_size b)) = db2_size b"
    using db2.size_law [OF assms] le arg_cong [OF bytes, of length] by (simp add: rg_bytes_def)
qed

lemma write_sequence_sound:
  assumes "conforming_writer out write_some" "arg_ok buffers"
    and "write_buffer_sequence write_some s m buffers cc = Some (n, ec, s')"
  shows "n \<le> buffer_size (arg_bufs buffers)" "out s' = out s @ get_bytes m (take n (addrs (arg_bufs buffers)))"
    "n = buffer_size (arg_bufs buffers) \<or> check_for_completion cc ec n = 0"
proof -
  have "write_done out cc m (con_new buffers) s (n, ec, s')"
    using assms(3) by (intro write_loop_done [OF assms(1) _ con_new_facts(1) [OF assms(2)]])
      (simp add: write_buffer_sequence_def)
  then show "n \<le> buffer_size (arg_bufs buffers)" "out s' = out s @ get_bytes m (take n (addrs (arg_bufs buffers)))"
    "n = buffer_size (arg_bufs buffers) \<or> check_for_completion cc ec n = 0"
    by (simp_all add: write_done_new [OF assms(2)])
qed

lemma db_fits_less: "db_fits b k \<Longrightarrow> n \<le> k \<Longrightarrow> db_fits b n"
  by (cases b) simp_all

lemma write_v1_facts:
  assumes "conforming_writer out write_some" "db_ok b" "db_fits b (db_size b)"
    and res: "write_v1 write_some s b cc = Some (n, ec, s', b')"
  shows "db_ok b' \<and> out s' = out s @ take n (db_bytes b) \<and> db_bytes b' = drop n (db_bytes b) \<and>
    n \<le> db_size b \<and> (n = db_size b \<or> check_for_completion cc ec n = 0)"
proof -
  note rg = db_data_region [OF assms(2)]
  obtain wr: "write_buffer_sequence write_some s (storage_mem (db_storage b)) (region_buf (db_data b)) cc = Some (n, ec, s')"
    and b': "b' = db_consume b n"
    using res by (auto simp: write_v1_def split: option.splits)
  note ws = write_sequence_sound [OF assms(1) region_buf_facts(1) wr]
  have n: "n \<le> db_size b" "n = db_size b \<or> check_for_completion cc ec n = 0"
    using ws(1,3) rg(2) by (simp_all add: buffer_size_eq baddrs_def)
  have "out s' = out s @ take n (db_bytes b)"
    using ws(2) region_bytes [OF rg(1), of n] rg(3) db.data_law [OF assms(2)] by simp
  then show ?thesis
    using db.consume_law [OF assms(2) n(1) db_fits_less [OF assms(3) n(1)]] n db.data_law assms(2) by (simp add: b')
qed

lemma write_v2_facts:
  assumes "conforming_writer out write_some" "db2_ok b"
    and res: "write_v2 write_some s b cc = Some (n, ec, s', b')"
  shows "db2_ok b' \<and> out s' = out s @ take n (db2_contents b) \<and> db2_contents b' = drop n (db2_contents b) \<and>
    n \<le> db2_size b \<and> (n = db2_size b \<or> check_for_completion cc ec n = 0)"
proof -
  note rg = db2_data_region [OF assms(2)]
  obtain wr: "write_buffer_sequence write_some s (storage_mem (db2_storage b)) (region_buf (db2_data_at b 0 (db2_size b))) cc =
      Some (n, ec, s')"
    and b': "b' = db2_consume b n"
    using res by (auto simp: write_v2_def split: option.splits)
  note ws = write_sequence_sound [OF assms(1) region_buf_facts(1) wr]
  have n: "n \<le> db2_size b" "n = db2_size b \<or> check_for_completion cc ec n = 0"
    using ws(1,3) rg(2) by (simp_all add: buffer_size_eq baddrs_def)
  have "out s' = out s @ take n (db2_contents b)" using ws(2) region_bytes [OF rg(1), of n] rg(3) by simp
  then show ?thesis using db2.consume_law [OF assms(2) n(1)] n by (simp add: b')
qed

lemma write_dynbuf_returns:
  assumes "conforming_writer out write_some" "progressing_writer write_some" "stops_on_error cc"
  shows "write_v1 write_some s b cc \<noteq> None" "write_v2 write_some s b2 cc \<noteq> None"
  using write_returns [OF assms(1,2) region_buf_facts(1) assms(3), where k = 0 and s = s]
  by (fastforce simp: write_v1_def write_v2_def split: option.splits)+

text \<open>C33: a \<open>write\<close> of a dynamic buffer that returns has moved a prefix of the buffer's data to the
  stream: what the stream accepted followed by what is left in the buffer is the data there was, no
  byte lost or sent twice, in the right order. The count is the number of bytes moved, and something
  is left only when the completion condition, asked with the last error and the count, asked for no
  more. With a condition that asks for no more after an error, and a stream that accepts something or
  fails, it returns. This holds for the DynamicBuffer\_v1 types, a streambuf holding less than \<open>2 ^ 31\<close> bytes (\<open>db_fits\<close>:
  its \<open>consume\<close> converts the count to an \<open>int\<close>) and a string or vector of any size, and for the two
  DynamicBuffer\_v2 types.\<close>

theorem write_dynbuf_correct:
  assumes "conforming_writer out write_some" "progressing_writer write_some"
    and "db_ok b" "db_fits b (db_size b)" "db2_ok b2"
  shows "(stops_on_error cc \<longrightarrow> write_v1 write_some s b cc \<noteq> None \<and> write_v2 write_some s b2 cc \<noteq> None) \<and>
    (\<forall>n ec s' b'. write_v1 write_some s b cc = Some (n, ec, s', b') \<longrightarrow>
      out s' @ db_bytes b' = out s @ db_bytes b \<and> length (db_bytes b') = length (db_bytes b) - n \<and>
      n \<le> length (db_bytes b) \<and> (db_bytes b' = [] \<or> check_for_completion cc ec n = 0)) \<and>
    (\<forall>n ec s' b'. write_v2 write_some s b2 cc = Some (n, ec, s', b') \<longrightarrow>
      out s' @ db2_contents b' = out s @ db2_contents b2 \<and>
      length (db2_contents b') = length (db2_contents b2) - n \<and>
      n \<le> length (db2_contents b2) \<and> (db2_contents b' = [] \<or> check_for_completion cc ec n = 0))"
proof (intro conjI allI impI)
  have "length (db_bytes b) = db_size b" using db.size_law db.data_law assms(3) by simp
  moreover fix n ec s' b'
  assume "write_v1 write_some s b cc = Some (n, ec, s', b')"
  note write_v1_facts [OF assms(1,3,4) this]
  ultimately show "out s' @ db_bytes b' = out s @ db_bytes b" "length (db_bytes b') = length (db_bytes b) - n"
    "n \<le> length (db_bytes b)" "db_bytes b' = [] \<or> check_for_completion cc ec n = 0" by auto
next
  have "length (db2_contents b2) = db2_size b2" using db2.size_law assms(5) by simp
  moreover fix n ec s' b'
  assume "write_v2 write_some s b2 cc = Some (n, ec, s', b')"
  note write_v2_facts [OF assms(1,5) this]
  ultimately show "out s' @ db2_contents b' = out s @ db2_contents b2"
    "length (db2_contents b') = length (db2_contents b2) - n"
    "n \<le> length (db2_contents b2)" "db2_contents b' = [] \<or> check_for_completion cc ec n = 0" by auto
qed (use write_dynbuf_returns [OF assms(1,2)] in auto)

theorem write_dynbuf_correct_witness:
  "\<exists>n ec s' b'. write_v1 chunk_writer [7] (Dyn_string demo_dsb) transfer_all = Some (n, ec, s', b') \<and>
     s' @ db_bytes b' = [7, 9]"
  using write_dynbuf_correct [OF chunk_writer_conforming chunk_writer_progressing
      demo_dsb_facts(1) _ demo_dsb_facts(6), of transfer_all "[7]"]
  by (auto simp: demo_dsb_facts simp del: db_size.simps)

text \<open>C23: without cancellation, an asynchronous write of a non-empty buffer sequence, or of a
  non-empty dynamic buffer of either version, with any condition that asks for something to begin
  with, ends with exactly the result of the synchronous write, the same count, error, stream and, for a
  dynamic buffer, buffer, or neither ends; conditions that go on after an error are included. They
  all end if the condition asks for no more after an error.\<close>

theorem async_write_is_write:
  assumes "conforming_writer out write_some" "progressing_writer write_some"
    and "check_for_completion cc Ok_code 0 \<noteq> 0"
    and "arg_ok buffers" "0 < buffer_size (arg_bufs buffers)"
    and "db_ok b" "0 < db_size b" "db2_ok b2" "0 < db2_size b2"
  shows "async_write write_some cc s m buffers = write_buffer_sequence write_some s m buffers cc \<and>
    async_write_v1 write_some cc s b = write_v1 write_some s b cc \<and>
    async_write_v2 write_some cc s b2 = write_v2 write_some s b2 cc \<and>
    (stops_on_error cc \<longrightarrow> async_write write_some cc s m buffers \<noteq> None \<and>
      async_write_v1 write_some cc s b \<noteq> None \<and> async_write_v2 write_some cc s b2 \<noteq> None)"
proof -
  note seq = async_write_facts [OF assms(1,2) _ _ assms(3)]
  have "0 < buffer_size (arg_bufs (region_buf (db_data b)))"
    "0 < buffer_size (arg_bufs (region_buf (db2_data_at b2 0 (db2_size b2))))"
    using db_data_region(2) db2_data_region(2) assms(6-9) by (simp_all add: buffer_size_eq baddrs_def)
  note v1 = seq [OF region_buf_facts(1) this(1)] and v2 = seq [OF region_buf_facts(1) this(2)]
  have eqs: "async_write write_some cc s m buffers = write_buffer_sequence write_some s m buffers cc"
    "async_write_v1 write_some cc s b = write_v1 write_some s b cc"
    "async_write_v2 write_some cc s b2 = write_v2 write_some s b2 cc"
    using seq [OF assms(4,5)] v1 v2
    by (simp_all add: async_write_v1_def async_write_v2_def async_write_dynbuf_def write_dynbuf_v1_call_def
        write_dynbuf_v2_call_def write_v1_def write_v2_def split: option.split)
  have "write_buffer_sequence write_some s m buffers cc \<noteq> None" if "stops_on_error cc"
    using write_returns [OF assms(1,2,4) that, of s m 0] by auto
  then show ?thesis unfolding eqs using write_dynbuf_returns [OF assms(1,2)] by auto
qed

theorem async_write_is_write_witness:
  "async_write_v1 chunk_writer transfer_all [] (Dyn_string demo_dsb) =
     write_v1 chunk_writer [] (Dyn_string demo_dsb) transfer_all"
  using async_write_is_write [OF chunk_writer_conforming chunk_writer_progressing
      _ demo_arg(1) _ demo_dsb_facts(1) _ demo_dsb_facts(6)]
  by (simp add: demo_arg demo_dsb_facts del: db_size.simps db2_size.simps)

end
