(* ===== verification/HashMap.thy ===== *)
theory HashMap
  imports Prelude
begin

text \<open>
  \<open>hash_map<K, V>\<close> of \<open>detail/hash_map.hpp\<close>: one \<open>std::list\<close> of all entries, kept so that the
  entries of a bucket are neighbours, and for each bucket the iterators of its first and last entry.
  The list is the sequence of its nodes (an iterator is a node, or \<open>None\<close> for \<open>end()\<close>), the contents
  of the nodes are kept beside it, so that iterators survive splicing.
\<close>

section \<open>Lists and their iterators\<close>

type_synonym iter = "nat option"

text \<open>The nodes from an iterator on, \<open>++it\<close>, \<open>--it\<close>, and placing a node before an iterator.\<close>

definition from_it :: "nat list \<Rightarrow> iter \<Rightarrow> nat list" where
  "from_it xs it = dropWhile (\<lambda>j. Some j \<noteq> it) xs"

definition upto_it :: "nat list \<Rightarrow> iter \<Rightarrow> nat list" where
  "upto_it xs it = takeWhile (\<lambda>j. Some j \<noteq> it) xs"

definition iter_inc :: "nat list \<Rightarrow> iter \<Rightarrow> iter" where
  "iter_inc xs it = (case from_it xs it of _ # j # _ \<Rightarrow> Some j | _ \<Rightarrow> None)"

definition iter_dec :: "nat list \<Rightarrow> iter \<Rightarrow> iter" where
  "iter_dec xs it = (case rev (upto_it xs it) of j # _ \<Rightarrow> Some j | [] \<Rightarrow> None)"

definition insert_at :: "nat list \<Rightarrow> iter \<Rightarrow> nat \<Rightarrow> nat list" where
  "insert_at xs it i = upto_it xs it @ i # from_it xs it"

section \<open>The map\<close>

text \<open>
  What copying, assigning and default construction of the template arguments do. The value type of
  \<open>reactor_op_queue\<close> has its own: neither its copy constructor nor its assignment copies.
\<close>

record ('k, 'v) value_ops =
  copy_of :: "'v \<Rightarrow> 'v"
  assign_to :: "'v \<Rightarrow> 'v \<Rightarrow> 'v"
  default_key :: 'k
  default_value :: 'v

text \<open>\<open>hm_fresh\<close> is the node the next allocation gives.\<close>

record ('k, 'v) hash_map =
  hm_size :: nat
  hm_values :: "nat list"
  hm_spares :: "nat list"
  hm_buckets :: "(iter \<times> iter) list"
  hm_num_buckets :: nat
  hm_node :: "nat \<Rightarrow> 'k \<times> 'v"
  hm_fresh :: nat

definition calculate_hash_value_int :: "32 word \<Rightarrow> nat" where
  "calculate_hash_value_int i = unat (scast i :: 64 word)"

definition calculate_hash_value_ptr :: "64 word \<Rightarrow> nat" where
  "calculate_hash_value_ptr p = unat (p + drop_bit 3 p)"

definition hm_new :: "(nat \<Rightarrow> 'k \<times> 'v) \<Rightarrow> ('k, 'v) hash_map" where
  "hm_new nodes = \<lparr>hm_size = 0, hm_values = [], hm_spares = [], hm_buckets = [], hm_num_buckets = 0,
     hm_node = nodes, hm_fresh = 0\<rparr>"

definition hm_empty :: "('k, 'v) hash_map \<Rightarrow> bool" where
  "hm_empty h \<longleftrightarrow> hm_values h = []"

definition hm_begin :: "('k, 'v) hash_map \<Rightarrow> iter" where
  "hm_begin h = (case hm_values h of [] \<Rightarrow> None | i # _ \<Rightarrow> Some i)"

text \<open>The loop over the entries of a bucket, along the list to \<open>end_it\<close>.\<close>

fun hm_scan :: "(nat \<Rightarrow> 'k \<times> 'v) \<Rightarrow> 'k \<Rightarrow> iter \<Rightarrow> nat list \<Rightarrow> iter" where
  "hm_scan node k end_it [] = None"
| "hm_scan node k end_it (i # is) =
     (if Some i = end_it then None
      else if fst (node i) = k then Some i
      else hm_scan node k end_it is)"

definition hm_find :: "('k \<Rightarrow> nat) \<Rightarrow> ('k, 'v) hash_map \<Rightarrow> 'k \<Rightarrow> iter" where
  "hm_find hash h k =
     (if hm_num_buckets h \<noteq> 0 then
        (let bucket = hash k mod hm_num_buckets h;
             it = fst (hm_buckets h ! bucket)
         in if it = None then None
            else
              (let end_it = iter_inc (hm_values h) (snd (hm_buckets h ! bucket))
               in hm_scan (hm_node h) k end_it (from_it (hm_values h) it)))
      else None)"

definition hash_sizes :: "nat list" where
  "hash_sizes = [3, 13, 23, 53, 97, 193, 389, 769, 1543, 3079, 6151, 12289, 24593,
     49157, 98317, 196613, 393241, 786433, 1572869, 3145739, 6291469,
     12582917, 25165843]"

definition hash_size :: "nat \<Rightarrow> nat" where
  "hash_size num_elems =
     (case List.find (\<lambda>s. num_elems < s) (butlast hash_sizes) of Some s \<Rightarrow> s | None \<Rightarrow> last hash_sizes)"

text \<open>
  The loop of \<open>rehash\<close>: the list argument is the nodes from \<open>iter\<close> on; \<open>iter++\<close> comes before the
  splice, which moves the node to a place in front of them.
\<close>

fun hm_rehash_loop :: "('k \<Rightarrow> nat) \<Rightarrow> ('k, 'v) hash_map \<Rightarrow> nat list \<Rightarrow> ('k, 'v) hash_map" where
  "hm_rehash_loop hash h [] = h"
| "hm_rehash_loop hash h (i # rest) =
     (let bucket = hash (fst (hm_node h i)) mod hm_num_buckets h;
          b = hm_buckets h ! bucket
      in if snd b = None
         then hm_rehash_loop hash (h\<lparr>hm_buckets := (hm_buckets h)[bucket := (Some i, Some i)]\<rparr>) rest
         else
           (let next_it = iter_inc (hm_values h) (snd b)
            in if next_it = Some i
               then hm_rehash_loop hash (h\<lparr>hm_buckets := (hm_buckets h)[bucket := (fst b, next_it)]\<rparr>) rest
               else
                 (let vs = insert_at (remove1 i (hm_values h)) next_it i
                  in hm_rehash_loop hash
                       (h\<lparr>hm_values := vs, hm_buckets := (hm_buckets h)[bucket := (fst b, iter_dec vs next_it)]\<rparr>)
                       rest)))"

definition hm_rehash :: "('k \<Rightarrow> nat) \<Rightarrow> ('k, 'v) hash_map \<Rightarrow> nat \<Rightarrow> ('k, 'v) hash_map" where
  "hm_rehash hash h num_buckets =
     (if num_buckets = hm_num_buckets h then h
      else hm_rehash_loop hash
             (h\<lparr>hm_buckets := replicate num_buckets (None, None), hm_num_buckets := num_buckets\<rparr>)
             (hm_values h))"

definition hm_values_insert ::
  "('k, 'v) value_ops \<Rightarrow> ('k, 'v) hash_map \<Rightarrow> iter \<Rightarrow> 'k \<times> 'v \<Rightarrow> ('k, 'v) hash_map \<times> iter"
where
  "hm_values_insert V h it v =
     (case hm_spares h of
        [] \<Rightarrow>
          (let i = hm_fresh h
           in (h\<lparr>hm_fresh := Suc i, hm_node := (hm_node h)(i := (fst v, copy_of V (snd v))),
                 hm_values := insert_at (hm_values h) it i\<rparr>, Some i))
      | i # spares \<Rightarrow>
          (let vs = insert_at (hm_values h) it i
           in (h\<lparr>hm_node := (hm_node h)(i := (fst v, assign_to V (snd (hm_node h i)) (snd v))),
                 hm_spares := spares, hm_values := vs\<rparr>, iter_dec vs it)))"

definition hm_values_erase :: "('k, 'v) value_ops \<Rightarrow> ('k, 'v) hash_map \<Rightarrow> nat \<Rightarrow> ('k, 'v) hash_map" where
  "hm_values_erase V h i =
     h\<lparr>hm_node := (hm_node h)(i := (default_key V, assign_to V (snd (hm_node h i)) (default_value V))),
       hm_values := remove1 i (hm_values h), hm_spares := i # hm_spares h\<rparr>"

definition hm_insert ::
  "('k \<Rightarrow> nat) \<Rightarrow> ('k, 'v) value_ops \<Rightarrow> ('k, 'v) hash_map \<Rightarrow> 'k \<times> 'v \<Rightarrow> ('k, 'v) hash_map \<times> iter \<times> bool"
where
  "hm_insert hash V h0 v =
     (let h = (if hm_size h0 + 1 \<ge> hm_num_buckets h0 then hm_rehash hash h0 (hash_size (hm_size h0 + 1)) else h0);
          bucket = hash (fst v) mod hm_num_buckets h;
          it = fst (hm_buckets h ! bucket)
      in if it = None then
           (case hm_values_insert V h None v of (h1, j) \<Rightarrow>
              (h1\<lparr>hm_buckets := (hm_buckets h1)[bucket := (j, j)], hm_size := hm_size h1 + 1\<rparr>, j, True))
         else
           (let end_it = iter_inc (hm_values h) (snd (hm_buckets h ! bucket))
            in (case hm_scan (hm_node h) (fst v) end_it (from_it (hm_values h) it) of
                  Some i \<Rightarrow> (h, Some i, False)
                | None \<Rightarrow>
                    (case hm_values_insert V h end_it v of (h1, j) \<Rightarrow>
                       (h1\<lparr>hm_buckets := (hm_buckets h1)[bucket := (it, j)], hm_size := hm_size h1 + 1\<rparr>, j, True)))))"

definition hm_erase_at ::
  "('k \<Rightarrow> nat) \<Rightarrow> ('k, 'v) value_ops \<Rightarrow> ('k, 'v) hash_map \<Rightarrow> nat \<Rightarrow> ('k, 'v) hash_map"
where
  "hm_erase_at hash V h i =
     (let bucket = hash (fst (hm_node h i)) mod hm_num_buckets h;
          b = hm_buckets h ! bucket;
          is_first = (Some i = fst b);
          is_last = (Some i = snd b);
          b1 = (if is_first \<and> is_last then (None, None)
                else if is_first then (iter_inc (hm_values h) (fst b), snd b)
                else if is_last then (fst b, iter_dec (hm_values h) (snd b))
                else b);
          h1 = hm_values_erase V (h\<lparr>hm_buckets := (hm_buckets h)[bucket := b1]\<rparr>) i
      in h1\<lparr>hm_size := hm_size h1 - 1\<rparr>)"

definition hm_erase ::
  "('k \<Rightarrow> nat) \<Rightarrow> ('k, 'v) value_ops \<Rightarrow> ('k, 'v) hash_map \<Rightarrow> 'k \<Rightarrow> ('k, 'v) hash_map"
where
  "hm_erase hash V h k = (case hm_find hash h k of None \<Rightarrow> h | Some i \<Rightarrow> hm_erase_at hash V h i)"

definition hm_clear :: "('k, 'v) hash_map \<Rightarrow> ('k, 'v) hash_map" where
  "hm_clear h = h\<lparr>hm_values := [], hm_size := 0, hm_buckets := replicate (hm_num_buckets h) (None, None)\<rparr>"

text \<open>Assigning to \<open>it->second\<close>, by a user of the map.\<close>

definition hm_store :: "('k, 'v) hash_map \<Rightarrow> nat \<Rightarrow> 'v \<Rightarrow> ('k, 'v) hash_map" where
  "hm_store h i v = h\<lparr>hm_node := (hm_node h)(i := (fst (hm_node h i), v))\<rparr>"

end
