(* ===== verification/HashMapCorrect.thy ===== *)
theory HashMapCorrect
  imports HashMap
begin

text \<open>
  Correctness of the hash map: the entries of a bucket stay neighbours under insertion, removal
  and rehashing, so that the search of a bucket is the search of the whole list, and the operations
  are those of a finite map.
\<close>

section \<open>Positions in a list\<close>

definition hd_it :: "nat list \<Rightarrow> iter" where
  "hd_it ws = (case ws of [] \<Rightarrow> None | w # _ \<Rightarrow> Some w)"

lemma hd_it_simps [simp]: "hd_it [] = None" "hd_it (w # ws) = Some w"
  by (simp_all add: hd_it_def)

lemma parts_at:
  assumes "distinct (us @ ws)"
  shows "upto_it (us @ ws) (hd_it ws) = us" "from_it (us @ ws) (hd_it ws) = ws"
proof -
  have "\<forall>j \<in> set us. Some j \<noteq> hd_it ws" using assms by (auto simp: hd_it_def split: list.splits)
  moreover have "takeWhile (\<lambda>j. Some j \<noteq> hd_it ws) ws = []" "dropWhile (\<lambda>j. Some j \<noteq> hd_it ws) ws = ws"
    by (cases ws; simp)+
  ultimately show "upto_it (us @ ws) (hd_it ws) = us" "from_it (us @ ws) (hd_it ws) = ws"
    by (simp_all add: upto_it_def from_it_def takeWhile_append dropWhile_append)
qed

lemma insert_at_parts: "distinct (us @ ws) \<Longrightarrow> insert_at (us @ ws) (hd_it ws) i = us @ i # ws"
  by (simp add: insert_at_def parts_at)

lemma iter_inc_parts: "distinct (us @ i # ws) \<Longrightarrow> iter_inc (us @ i # ws) (Some i) = hd_it ws"
  using parts_at(2) [of us "i # ws"] by (cases ws) (simp_all add: iter_inc_def)

lemma iter_inc_last:
  assumes "distinct (us @ ms @ ws)" "ms \<noteq> []"
  shows "iter_inc (us @ ms @ ws) (Some (last ms)) = hd_it ws"
proof -
  have "us @ ms @ ws = (us @ butlast ms) @ last ms # ws" using assms(2) by simp
  then show ?thesis using assms iter_inc_parts [of "us @ butlast ms" "last ms" ws] by metis
qed

lemma iter_dec_parts:
  assumes "distinct (us @ i # ws)"
  shows "iter_dec (us @ i # ws) (hd_it ws) = Some i"
  using parts_at(1) [of "us @ [i]" ws] assms by (simp add: iter_dec_def)

section \<open>Groups\<close>

text \<open>The entries of bucket \<open>b\<close> are neighbours in \<open>xs\<close>, and \<open>e\<close> is the first and the last of them.\<close>

definition split_at :: "(nat \<Rightarrow> nat) \<Rightarrow> nat \<Rightarrow> nat list \<Rightarrow> nat list \<Rightarrow> nat list \<Rightarrow> iter \<times> iter \<Rightarrow> bool" where
  "split_at \<beta> b us ms ws e \<longleftrightarrow> (\<forall>i \<in> set ms. \<beta> i = b) \<and> (\<forall>i \<in> set us \<union> set ws. \<beta> i \<noteq> b) \<and>
     e = (if ms = [] then (None, None) else (Some (hd ms), Some (last ms)))"

definition neighbours :: "(nat \<Rightarrow> nat) \<Rightarrow> nat \<Rightarrow> nat list \<Rightarrow> iter \<times> iter \<Rightarrow> bool" where
  "neighbours \<beta> b xs e \<longleftrightarrow> (\<exists>us ms ws. xs = us @ ms @ ws \<and> split_at \<beta> b us ms ws e)"

definition grouped :: "(nat \<Rightarrow> nat) \<Rightarrow> nat \<Rightarrow> nat list \<Rightarrow> (iter \<times> iter) list \<Rightarrow> bool" where
  "grouped \<beta> n xs bs \<longleftrightarrow> length bs = n \<and> (\<forall>b < n. neighbours \<beta> b xs (bs ! b))"

lemma grouped_Nil: "grouped \<beta> n [] (replicate n (None, None))"
  by (auto simp: grouped_def neighbours_def split_at_def)

lemma neighbours_cong:
  assumes "neighbours \<beta> b xs e" "\<And>i. i \<in> set xs \<Longrightarrow> \<beta> i = \<gamma> i"
  shows "neighbours \<gamma> b xs e"
proof -
  obtain us ms ws where xs: "xs = us @ ms @ ws" and sp: "split_at \<beta> b us ms ws e"
    using assms(1) by (auto simp: neighbours_def)
  have "\<forall>i \<in> set us \<union> set ms \<union> set ws. \<beta> i = \<gamma> i" using assms(2) xs by auto
  then have "split_at \<gamma> b us ms ws e" using sp unfolding split_at_def by force
  then show ?thesis unfolding neighbours_def xs by blast
qed

lemma grouped_cong: "grouped \<beta> n xs bs \<Longrightarrow> (\<And>i. i \<in> set xs \<Longrightarrow> \<beta> i = \<gamma> i) \<Longrightarrow> grouped \<gamma> n xs bs"
  unfolding grouped_def using neighbours_cong by blast

lemma neighbours_insert_other:
  assumes nb: "neighbours \<beta> b (pre @ ws) e" and i: "\<beta> i \<noteq> b"
    and pos: "ws = [] \<or> (pre \<noteq> [] \<and> \<beta> (last pre) \<noteq> b)"
  shows "neighbours \<beta> b (pre @ i # ws) e"
proof -
  obtain us ms vs where xs: "pre @ ws = us @ ms @ vs" and sp: "split_at \<beta> b us ms vs e"
    using nb by (auto simp: neighbours_def)
  from xs consider (left) ys where "pre = us @ ys" "ys @ ws = ms @ vs" | (right) ys where "us = pre @ ys" "ws = ys @ ms @ vs"
    by (auto simp: append_eq_append_conv2)
  then show ?thesis
  proof cases
    case right
    then have "pre @ i # ws = (pre @ i # ys) @ ms @ vs" by simp
    moreover have "split_at \<beta> b (pre @ i # ys) ms vs e" using sp i right(1) by (auto simp: split_at_def)
    ultimately show ?thesis unfolding neighbours_def by blast
  next
    case left
    from left(2) consider (after) zs where "ys = ms @ zs" "vs = zs @ ws" | (inside) zs where "ms = ys @ zs" "ws = zs @ vs"
      by (auto simp: append_eq_append_conv2)
    then show ?thesis
    proof cases
      case after
      then have "pre @ i # ws = us @ ms @ (zs @ i # ws)" using left(1) by simp
      moreover have "split_at \<beta> b us ms (zs @ i # ws) e" using sp i after(2) by (auto simp: split_at_def)
      ultimately show ?thesis unfolding neighbours_def by blast
    next
      case inside
      show ?thesis
      proof (cases "ys = [] \<or> zs = []")
        case True
        then have "pre @ i # ws = (if ys = [] then (us @ [i]) @ ms @ vs else us @ ms @ i # vs)"
          using left(1) inside by auto
        moreover have "split_at \<beta> b (us @ [i]) ms vs e" "split_at \<beta> b us ms (i # vs) e"
          using sp i by (auto simp: split_at_def)
        ultimately show ?thesis unfolding neighbours_def by metis
      next
        case False
        then have "\<beta> (last pre) = b" using sp left(1) inside(1) by (simp add: split_at_def)
        then show ?thesis using pos False inside(2) by simp
      qed
    qed
  qed
qed

lemma grouped_insert:
  assumes g: "grouped \<beta> n (us @ ms @ ws) bs" and b: "\<beta> i = b" "b < n"
    and sp: "split_at \<beta> b us ms ws (bs ! b)" and pos: "ms = [] \<longrightarrow> ws = []"
  shows "grouped \<beta> n (us @ ms @ i # ws) (bs[b := (if ms = [] then Some i else fst (bs ! b), Some i)])"
  unfolding grouped_def
proof (intro conjI allI impI)
  show "length (bs[b := (if ms = [] then Some i else fst (bs ! b), Some i)]) = n" using g by (simp add: grouped_def)
  fix c assume c: "c < n"
  show "neighbours \<beta> c (us @ ms @ i # ws) (bs[b := (if ms = [] then Some i else fst (bs ! b), Some i)] ! c)"
  proof (cases "c = b")
    case True
    have "split_at \<beta> b us (ms @ [i]) ws (if ms = [] then Some i else fst (bs ! b), Some i)"
      using sp b(1) by (auto simp: split_at_def)
    moreover have "us @ ms @ i # ws = us @ (ms @ [i]) @ ws" by simp
    ultimately show ?thesis using True b(2) g unfolding neighbours_def grouped_def
      by (metis nth_list_update_eq)
  next
    case False
    have "ws = [] \<or> (us @ ms \<noteq> [] \<and> \<beta> (last (us @ ms)) \<noteq> c)"
      using pos sp False by (cases "ms = []") (simp_all add: split_at_def)
    then show ?thesis
      using neighbours_insert_other [of \<beta> c "us @ ms" ws "bs ! c" i] g c False b(1) by (simp add: grouped_def)
  qed
qed

lemma neighbours_remove_other:
  assumes "neighbours \<beta> b xs e" "\<beta> i \<noteq> b"
  shows "neighbours \<beta> b (remove1 i xs) e"
proof -
  obtain us ms ws where xs: "xs = us @ ms @ ws" and sp: "split_at \<beta> b us ms ws e"
    using assms(1) by (auto simp: neighbours_def)
  have "i \<notin> set ms" using sp assms(2) by (auto simp: split_at_def)
  then have "remove1 i xs = (if i \<in> set us then remove1 i us @ ms @ ws else us @ ms @ remove1 i ws)"
    by (simp add: xs remove1_append)
  moreover have "split_at \<beta> b (remove1 i us) ms ws e" "split_at \<beta> b us ms (remove1 i ws) e"
    using sp notin_set_remove1 unfolding split_at_def by fastforce+
  ultimately show ?thesis unfolding neighbours_def by metis
qed

lemma grouped_remove:
  assumes g: "grouped \<beta> n (us @ ms @ ws) bs" and b: "\<beta> i = b" "b < n"
    and e: "split_at \<beta> b us (remove1 i ms) ws e" and i: "i \<in> set ms" "distinct (us @ ms @ ws)"
  shows "grouped \<beta> n (remove1 i (us @ ms @ ws)) (bs[b := e])"
  unfolding grouped_def
proof (intro conjI allI impI)
  show "length (bs[b := e]) = n" using g by (simp add: grouped_def)
  fix c assume c: "c < n"
  show "neighbours \<beta> c (remove1 i (us @ ms @ ws)) (bs[b := e] ! c)"
  proof (cases "c = b")
    case True
    have "i \<notin> set us" using i by auto
    then have "remove1 i (us @ ms @ ws) = us @ remove1 i ms @ ws" using i(1) by (simp add: remove1_append)
    then show ?thesis using e True b(2) g unfolding neighbours_def grouped_def by (metis nth_list_update_eq)
  next
    case False
    then show ?thesis using neighbours_remove_other g c b(1) by (simp add: grouped_def)
  qed
qed

section \<open>The invariant\<close>

definition hm_bucket :: "('k \<Rightarrow> nat) \<Rightarrow> ('k, 'v) hash_map \<Rightarrow> nat \<Rightarrow> nat" where
  "hm_bucket hash h i = hash (fst (hm_node h i)) mod hm_num_buckets h"

text \<open>A node is recyclable when assigning to it gives what a new node would hold.\<close>

definition recyclable :: "('k, 'v) value_ops \<Rightarrow> 'v \<Rightarrow> bool" where
  "recyclable V old \<longleftrightarrow> (\<forall>v. assign_to V old v = copy_of V v)"

definition hm_nodes_ok :: "('k, 'v) value_ops \<Rightarrow> ('k, 'v) hash_map \<Rightarrow> bool" where
  "hm_nodes_ok V h \<longleftrightarrow> distinct (hm_values h @ hm_spares h) \<and>
     (\<forall>i \<in> set (hm_values h @ hm_spares h). i < hm_fresh h) \<and>
     hm_size h = length (hm_values h) \<and> distinct (map (fst \<circ> hm_node h) (hm_values h)) \<and>
     (\<forall>i \<in> set (hm_spares h). recyclable V (snd (hm_node h i)))"

definition hm_ok :: "('k \<Rightarrow> nat) \<Rightarrow> ('k, 'v) value_ops \<Rightarrow> ('k, 'v) hash_map \<Rightarrow> bool" where
  "hm_ok hash V h \<longleftrightarrow> hm_nodes_ok V h \<and> (hm_num_buckets h = 0 \<longrightarrow> hm_values h = []) \<and>
     grouped (hm_bucket hash h) (hm_num_buckets h) (hm_values h) (hm_buckets h)"

definition hm_map :: "('k, 'v) hash_map \<Rightarrow> 'k \<rightharpoonup> 'v" where
  "hm_map h = map_of (map (hm_node h) (hm_values h))"

lemma hm_new_ok: "hm_ok hash V (hm_new nodes)" "hm_map (hm_new nodes) = Map.empty"
  using grouped_Nil [of "hm_bucket hash (hm_new nodes)" 0]
  by (simp_all add: hm_ok_def hm_nodes_ok_def hm_new_def hm_map_def)

lemma hm_groups:
  assumes "hm_ok hash V h" "hm_num_buckets h \<noteq> 0"
  obtains us ms ws where "hm_values h = us @ ms @ ws" "distinct (us @ ms @ ws)"
    "split_at (hm_bucket hash h) (hash k mod hm_num_buckets h) us ms ws (hm_buckets h ! (hash k mod hm_num_buckets h))"
  using assms unfolding hm_ok_def hm_nodes_ok_def grouped_def neighbours_def
  by (metis distinct_append mod_less_divisor not_gr_zero)

section \<open>Searching\<close>

lemma hm_scan_find: "distinct (ms @ ws) \<Longrightarrow> hm_scan node k (hd_it ws) (ms @ ws) = List.find (\<lambda>i. fst (node i) = k) ms"
  by (induction ms) (cases ws; auto simp: hd_it_def split: list.splits)+

lemma find_only_middle:
  assumes "\<forall>x \<in> set us \<union> set ws. \<not> P x"
  shows "List.find P (us @ ms @ ws) = List.find P ms"
proof -
  have none: "List.find P xs = None" if "\<forall>x \<in> set xs. \<not> P x" for xs using that by (simp add: find_None_iff)
  have "List.find P (xs @ ys) = (case List.find P xs of None \<Rightarrow> List.find P ys | r \<Rightarrow> r)" for xs ys
    by (induction xs) auto
  then show ?thesis using assms none by (simp split: option.split)
qed

text \<open>The search of one bucket finds what a search of the whole list would.\<close>

lemma hm_scan_bucket:
  assumes parts: "hm_values h = us @ ms @ ws" "distinct (us @ ms @ ws)"
    and sp: "split_at (hm_bucket hash h) (hash k mod hm_num_buckets h) us ms ws (hm_buckets h ! (hash k mod hm_num_buckets h))"
    and ne: "ms \<noteq> []"
  shows "iter_inc (hm_values h) (snd (hm_buckets h ! (hash k mod hm_num_buckets h))) = hd_it ws"
    "hm_scan (hm_node h) k (hd_it ws) (from_it (hm_values h) (fst (hm_buckets h ! (hash k mod hm_num_buckets h)))) =
       List.find (\<lambda>i. fst (hm_node h i) = k) (hm_values h)"
proof -
  show "iter_inc (hm_values h) (snd (hm_buckets h ! (hash k mod hm_num_buckets h))) = hd_it ws"
    using iter_inc_last [OF parts(2) ne] sp ne parts(1) by (simp add: split_at_def)
  have "fst (hm_buckets h ! (hash k mod hm_num_buckets h)) = hd_it (ms @ ws)"
    using sp ne by (cases ms) (simp_all add: split_at_def)
  then have "from_it (hm_values h) (fst (hm_buckets h ! (hash k mod hm_num_buckets h))) = ms @ ws"
    using parts_at(2) parts by metis
  moreover have "\<forall>i \<in> set us \<union> set ws. fst (hm_node h i) \<noteq> k"
    using sp by (auto simp: split_at_def hm_bucket_def)
  ultimately show "hm_scan (hm_node h) k (hd_it ws)
      (from_it (hm_values h) (fst (hm_buckets h ! (hash k mod hm_num_buckets h)))) =
       List.find (\<lambda>i. fst (hm_node h i) = k) (hm_values h)"
    using hm_scan_find [of ms ws] parts find_only_middle [of us ws "\<lambda>i. fst (hm_node h i) = k" ms] by simp
qed

lemma find_not_in_group:
  assumes "hm_values h = us @ ws"
    and "split_at (hm_bucket hash h) (hash k mod hm_num_buckets h) us [] ws e"
  shows "List.find (\<lambda>i. fst (hm_node h i) = k) (hm_values h) = None"
  using assms by (auto simp: find_None_iff split_at_def hm_bucket_def)

lemma hm_find_eq:
  assumes "hm_ok hash V h"
  shows "hm_find hash h k = List.find (\<lambda>i. fst (hm_node h i) = k) (hm_values h)"
proof (cases "hm_num_buckets h = 0")
  case True
  then show ?thesis using assms by (simp add: hm_find_def hm_ok_def)
next
  case False
  obtain us ms ws where parts: "hm_values h = us @ ms @ ws" "distinct (us @ ms @ ws)"
    and sp: "split_at (hm_bucket hash h) (hash k mod hm_num_buckets h) us ms ws
      (hm_buckets h ! (hash k mod hm_num_buckets h))" using hm_groups [OF assms False] by metis
  show ?thesis
  proof (cases "ms = []")
    case True
    then have "fst (hm_buckets h ! (hash k mod hm_num_buckets h)) = None" using sp by (simp add: split_at_def)
    then show ?thesis using find_not_in_group [of h us ws hash k] parts(1) sp True False
      by (simp add: hm_find_def Let_def)
  next
    case ne: False
    then obtain y where "fst (hm_buckets h ! (hash k mod hm_num_buckets h)) = Some y" using sp by (simp add: split_at_def)
    then show ?thesis using hm_scan_bucket [OF parts sp ne] False by (simp add: hm_find_def Let_def)
  qed
qed

lemma hm_find_map:
  assumes "hm_ok hash V h"
  shows "hm_find hash h k = None \<longleftrightarrow> hm_map h k = None"
    "hm_find hash h k = Some i \<longleftrightarrow> i \<in> set (hm_values h) \<and> fst (hm_node h i) = k"
    "hm_find hash h k = Some i \<Longrightarrow> hm_map h k = Some (snd (hm_node h i))"
proof -
  have dist: "distinct (map fst (map (hm_node h) (hm_values h)))" and inj: "inj_on (fst \<circ> hm_node h) (set (hm_values h))"
    using assms by (simp_all add: hm_ok_def hm_nodes_ok_def distinct_map)
  show "hm_find hash h k = None \<longleftrightarrow> hm_map h k = None"
    by (auto simp: hm_find_eq [OF assms] find_None_iff hm_map_def map_of_eq_None_iff)
  have some: "i \<in> set (hm_values h) \<and> fst (hm_node h i) = k" if "hm_find hash h k = Some i" for i
    using that by (auto simp: hm_find_eq [OF assms] find_Some_iff)
  moreover have "hm_find hash h k = Some i" if "i \<in> set (hm_values h) \<and> fst (hm_node h i) = k"
  proof -
    have "hm_find hash h k \<noteq> None" using that by (auto simp: hm_find_eq [OF assms] find_None_iff)
    then obtain j where "hm_find hash h k = Some j" by blast
    then show ?thesis using some that inj by (metis comp_apply inj_onD)
  qed
  ultimately show "hm_find hash h k = Some i \<longleftrightarrow> i \<in> set (hm_values h) \<and> fst (hm_node h i) = k" by blast
  show "hm_map h k = Some (snd (hm_node h i))" if "hm_find hash h k = Some i"
    using some [OF that] dist by (auto simp: hm_map_def intro!: map_of_is_SomeI image_eqI [of _ _ i])
qed

section \<open>Rehashing\<close>

lemma hm_bucket_update [simp]:
  "hm_bucket hash (h\<lparr>hm_values := vs\<rparr>) = hm_bucket hash h"
  "hm_bucket hash (h\<lparr>hm_buckets := bs\<rparr>) = hm_bucket hash h"
  "hm_bucket hash (h\<lparr>hm_size := n\<rparr>) = hm_bucket hash h"
  by (simp_all add: hm_bucket_def fun_eq_iff)

text \<open>
  The entries before \<open>iter\<close> are grouped. The next one either opens its bucket, stands already behind
  the last of its bucket, or is moved there.
\<close>

lemma hm_rehash_loop_ok:
  assumes "hm_values h = pre @ rest" "distinct (pre @ rest)" "0 < hm_num_buckets h"
    and "grouped (hm_bucket hash h) (hm_num_buckets h) pre (hm_buckets h)"
  shows "\<exists>vs bs. hm_rehash_loop hash h rest = h\<lparr>hm_values := vs, hm_buckets := bs\<rparr> \<and>
    mset vs = mset (pre @ rest) \<and> grouped (hm_bucket hash h) (hm_num_buckets h) vs bs"
  using assms
proof (induction rest arbitrary: h pre)
  case Nil
  then show ?case by (intro exI [of _ pre] exI [of _ "hm_buckets h"]) simp
next
  case (Cons i rest)
  let ?n = "hm_num_buckets h"
  let ?b = "hash (fst (hm_node h i)) mod ?n"
  let ?e = "hm_buckets h ! ?b"
  have b: "hm_bucket hash h i = ?b" "?b < ?n" using Cons.prems(3) by (simp_all add: hm_bucket_def)
  then obtain us ms ws where pre: "pre = us @ ms @ ws" and sp: "split_at (hm_bucket hash h) ?b us ms ws ?e"
    using Cons.prems(4) by (auto simp: grouped_def neighbours_def)
  have dist: "distinct (us @ ms @ ws @ i # rest)" using Cons.prems(2) by (simp add: pre)
  have vals: "hm_values h = us @ ms @ ws @ i # rest" using Cons.prems(1) by (simp add: pre)
  have inc: "iter_inc (hm_values h) (snd ?e) = hd_it (ws @ i # rest)" if "ms \<noteq> []"
    using iter_inc_last [of us ms "ws @ i # rest"] dist sp that by (simp add: split_at_def vals)
  note g = Cons.prems(4) [unfolded pre]
  have same: "h\<lparr>hm_values := (pre @ [i]) @ rest, hm_buckets := bs\<rparr> = h\<lparr>hm_buckets := bs\<rparr>" for bs
    using Cons.prems(1) by (intro hash_map.equality) simp_all
  have done_by: ?case
    if "hm_rehash_loop hash h (i # rest) = hm_rehash_loop hash (h\<lparr>hm_values := pre1 @ rest, hm_buckets := bs\<rparr>) rest"
      "mset pre1 = mset (pre @ [i])" "grouped (hm_bucket hash h) ?n pre1 bs" for pre1 bs
  proof -
    let ?h = "h\<lparr>hm_values := pre1 @ rest, hm_buckets := bs\<rparr>"
    have "set pre1 = set (pre @ [i])" using that(2) mset_eq_setD by blast
    moreover have "distinct pre1" using that(2) Cons.prems(2) mset_eq_imp_distinct_iff [of pre1 "pre @ [i]"] by simp
    ultimately have "distinct (pre1 @ rest)" using Cons.prems(2) by auto
    then have "\<exists>vs bs'. hm_rehash_loop hash ?h rest = ?h\<lparr>hm_values := vs, hm_buckets := bs'\<rparr> \<and>
        mset vs = mset (pre1 @ rest) \<and> grouped (hm_bucket hash ?h) (hm_num_buckets ?h) vs bs'"
      using that(3) Cons.prems(3) by (intro Cons.IH) simp_all
    then show ?thesis using that(1,2) by (auto simp: add.commute)
  qed
  show ?case
  proof (cases "ms = []")
    case True
    then have none: "snd ?e = None" using sp by (simp add: split_at_def)
    have "split_at (hm_bucket hash h) ?b pre [] [] ?e" using sp True by (auto simp: split_at_def pre)
    moreover have "grouped (hm_bucket hash h) ?n (pre @ [] @ []) (hm_buckets h)" using Cons.prems(4) by simp
    ultimately have "grouped (hm_bucket hash h) ?n (pre @ [i]) ((hm_buckets h)[?b := (Some i, Some i)])"
      using grouped_insert [of "hm_bucket hash h" ?n pre "[]" "[]" "hm_buckets h" i ?b] b by simp
    moreover have "hm_rehash_loop hash h (i # rest) =
        hm_rehash_loop hash (h\<lparr>hm_values := (pre @ [i]) @ rest, hm_buckets := (hm_buckets h)[?b := (Some i, Some i)]\<rparr>) rest"
      using none unfolding same by (simp add: Let_def)
    ultimately show ?thesis by (intro done_by [of _ "pre @ [i]"]) simp_all
  next
    case ne: False
    then have some: "(snd ?e = None) = False" using sp by (simp add: split_at_def)
    have g1: "grouped (hm_bucket hash h) ?n (us @ ms @ i # ws) ((hm_buckets h)[?b := (fst ?e, Some i)])"
      using grouped_insert [OF g b sp] ne by simp
    show ?thesis
    proof (cases "ws = []")
      case True
      then have "hm_rehash_loop hash h (i # rest) =
          hm_rehash_loop hash (h\<lparr>hm_values := (pre @ [i]) @ rest, hm_buckets := (hm_buckets h)[?b := (fst ?e, Some i)]\<rparr>) rest"
        using inc [OF ne] unfolding same by (simp add: Let_def some)
      then show ?thesis using g1 True by (intro done_by [of _ "pre @ [i]"]) (simp_all add: pre)
    next
      case False
      have rem: "remove1 i (hm_values h) = us @ ms @ ws @ rest"
        using dist by (auto simp: vals remove1_append)
      have hd: "hd_it (ws @ i # rest) = hd_it (ws @ rest)" using False by (cases ws) simp_all
      have neq: "hd_it (ws @ rest) \<noteq> Some i" using False dist by (cases ws) auto
      have ins: "insert_at (us @ ms @ ws @ rest) (hd_it (ws @ rest)) i = us @ ms @ i # ws @ rest"
        using insert_at_parts [of "us @ ms" "ws @ rest" i] dist by simp
      have dec: "iter_dec (us @ ms @ i # ws @ rest) (hd_it (ws @ rest)) = Some i"
        using iter_dec_parts [of "us @ ms" i "ws @ rest"] dist by auto
      have "hm_rehash_loop hash h (i # rest) =
          hm_rehash_loop hash (h\<lparr>hm_values := (us @ ms @ i # ws) @ rest,
            hm_buckets := (hm_buckets h)[?b := (fst ?e, Some i)]\<rparr>) rest"
        using inc [OF ne] rem hd neq ins dec by (simp add: Let_def some)
      then show ?thesis using g1 by (intro done_by [of _ "us @ ms @ i # ws"]) (simp_all add: pre)
    qed
  qed
qed

lemma map_of_mset:
  assumes "mset xs = mset ys" "distinct (map fst xs)"
  shows "map_of xs = map_of ys"
proof -
  have "distinct (map fst ys)"
    using assms mset_eq_imp_distinct_iff [of "map fst xs" "map fst ys"] by (simp add: mset_map)
  then show ?thesis using assms map_of_inject_set [of xs ys] mset_eq_setD by blast
qed

lemma hm_rehash_ok:
  assumes "hm_ok hash V h" "0 < n"
  shows "hm_ok hash V (hm_rehash hash h n)" "hm_map (hm_rehash hash h n) = hm_map h"
    "hm_num_buckets (hm_rehash hash h n) = n"
    "\<exists>vs bs. hm_rehash hash h n = h\<lparr>hm_values := vs, hm_buckets := bs, hm_num_buckets := n\<rparr> \<and> mset vs = mset (hm_values h)"
proof -
  have *: "\<exists>vs bs. hm_rehash hash h n = h\<lparr>hm_values := vs, hm_buckets := bs, hm_num_buckets := n\<rparr> \<and>
      mset vs = mset (hm_values h) \<and> grouped (\<lambda>i. hash (fst (hm_node h i)) mod n) n vs bs"
  proof (cases "n = hm_num_buckets h")
    case True
    then show ?thesis using assms(1)
      by (intro exI [of _ "hm_values h"] exI [of _ "hm_buckets h"]) (simp add: hm_rehash_def hm_ok_def hm_bucket_def [abs_def])
  next
    case False
    let ?h = "h\<lparr>hm_buckets := replicate n (None, None), hm_num_buckets := n\<rparr>"
    have bk: "hm_bucket hash ?h = (\<lambda>i. hash (fst (hm_node h i)) mod n)" by (simp add: hm_bucket_def [abs_def])
    obtain vs bs where r: "hm_rehash_loop hash ?h (hm_values h) = ?h\<lparr>hm_values := vs, hm_buckets := bs\<rparr>"
      "mset vs = mset (hm_values h)" "grouped (hm_bucket hash ?h) n vs bs"
      using hm_rehash_loop_ok [of ?h "[]" "hm_values h" hash] assms grouped_Nil by (auto simp: hm_ok_def hm_nodes_ok_def)
    then show ?thesis using False by (intro exI [of _ vs] exI [of _ bs]) (simp add: hm_rehash_def bk)
  qed
  then show "\<exists>vs bs. hm_rehash hash h n = h\<lparr>hm_values := vs, hm_buckets := bs, hm_num_buckets := n\<rparr> \<and>
      mset vs = mset (hm_values h)" by blast
  from * obtain vs bs where r: "hm_rehash hash h n = h\<lparr>hm_values := vs, hm_buckets := bs, hm_num_buckets := n\<rparr>"
    and perm: "mset vs = mset (hm_values h)" and g: "grouped (\<lambda>i. hash (fst (hm_node h i)) mod n) n vs bs" by blast
  show "hm_num_buckets (hm_rehash hash h n) = n" by (simp add: r)
  have nodes: "hm_nodes_ok V h" using assms(1) by (simp add: hm_ok_def)
  have sets: "set vs = set (hm_values h)" using perm mset_eq_setD by blast
  moreover have len: "length vs = length (hm_values h)" using perm mset_eq_length by blast
  moreover have "distinct vs" using perm nodes mset_eq_imp_distinct_iff [of vs] by (simp add: hm_nodes_ok_def)
  moreover have keys: "mset (map (fst \<circ> hm_node h) vs) = mset (map (fst \<circ> hm_node h) (hm_values h))"
    using perm by simp
  then have "distinct (map (fst \<circ> hm_node h) vs)"
    using nodes mset_eq_imp_distinct_iff unfolding hm_nodes_ok_def by blast
  ultimately have "hm_nodes_ok V (hm_rehash hash h n)"
    using nodes by (simp add: hm_nodes_ok_def r)
  then show "hm_ok hash V (hm_rehash hash h n)" using g assms(2) by (simp add: hm_ok_def r hm_bucket_def [abs_def])
  show "hm_map (hm_rehash hash h n) = hm_map h"
    unfolding hm_map_def r using perm nodes by (intro map_of_mset) (simp_all add: hm_nodes_ok_def mset_map \<open>distinct (map (fst \<circ> hm_node h) vs)\<close>)
qed

section \<open>Insertion and removal\<close>

lemma hash_size_pos: "0 < hash_size n"
proof -
  have "\<forall>s \<in> set hash_sizes. 0 < s" by (simp add: hash_sizes_def)
  moreover have "hash_size n \<in> set hash_sizes"
    by (auto simp: hash_size_def find_Some_iff hash_sizes_def split: option.split)
  ultimately show ?thesis by blast
qed

lemma hm_values_insert_ok:
  assumes "hm_nodes_ok V h" "hm_values h = us @ ws"
  obtains h1 i where "hm_values_insert V h (hd_it ws) v = (h1, Some i)"
    "hm_values h1 = us @ i # ws" "i \<notin> set (hm_values h)"
    "hm_node h1 = (hm_node h)(i := (fst v, copy_of V (snd v)))"
    "hm_buckets h1 = hm_buckets h" "hm_num_buckets h1 = hm_num_buckets h" "hm_size h1 = hm_size h"
    "distinct (hm_values h1 @ hm_spares h1)" "\<forall>j \<in> set (hm_values h1 @ hm_spares h1). j < hm_fresh h1"
    "\<forall>j \<in> set (hm_spares h1). recyclable V (snd (hm_node h1 j))"
proof (cases "hm_spares h")
  case Nil
  let ?i = "hm_fresh h"
  show ?thesis
  proof (rule that)
    show "hm_values_insert V h (hd_it ws) v = (h\<lparr>hm_fresh := Suc ?i,
        hm_node := (hm_node h)(?i := (fst v, copy_of V (snd v))), hm_values := us @ ?i # ws\<rparr>, Some ?i)"
      using Nil assms by (simp add: hm_values_insert_def hm_nodes_ok_def Let_def insert_at_parts)
  qed (use Nil assms in \<open>auto simp: hm_nodes_ok_def less_Suc_eq\<close>)
next
  case (Cons i spares)
  have dist: "distinct (us @ i # ws)" using assms Cons by (auto simp: hm_nodes_ok_def)
  have rec: "assign_to V (snd (hm_node h i)) w = copy_of V w" for w
    using assms Cons by (simp add: hm_nodes_ok_def recyclable_def)
  show ?thesis
  proof (rule that)
    show "hm_values_insert V h (hd_it ws) v = (h\<lparr>hm_node := (hm_node h)(i := (fst v, copy_of V (snd v))),
        hm_spares := spares, hm_values := us @ i # ws\<rparr>, Some i)"
      using Cons assms dist iter_dec_parts [OF dist]
      by (simp add: hm_values_insert_def hm_nodes_ok_def Let_def insert_at_parts rec)
  qed (use Cons assms in \<open>auto simp: hm_nodes_ok_def\<close>)
qed

lemma map_of_insert_middle:
  assumes "k \<notin> set (map fst (xs @ ys))"
  shows "map_of (xs @ (k, v) # ys) = (map_of (xs @ ys))(k \<mapsto> v)"
  using assms by (induction xs) (auto simp: fun_eq_iff)

lemma hm_insert_node_ok:
  assumes ok: "hm_ok hash V h" and n: "0 < hm_num_buckets h" and new: "hm_map h k = None"
    and vals: "hm_values h = us @ ms @ ws" and pos: "ms = [] \<longrightarrow> ws = []"
    and b: "b = hash k mod hm_num_buckets h"
    and sp: "split_at (hm_bucket hash h) b us ms ws (hm_buckets h ! b)"
    and ins: "hm_values_insert V h (hd_it ws) (k, v) = (h1, j)"
    and h2: "h2 = h1\<lparr>hm_buckets := (hm_buckets h1)[b := (if ms = [] then j else fst (hm_buckets h ! b), j)],
      hm_size := hm_size h1 + 1\<rparr>"
  shows "hm_ok hash V h2" "hm_map h2 = (hm_map h)(k \<mapsto> copy_of V v)" "hm_find hash h2 k = j" "j \<noteq> None"
proof -
  have nodes: "hm_nodes_ok V h" and g: "grouped (hm_bucket hash h) (hm_num_buckets h) (us @ ms @ ws) (hm_buckets h)"
    using ok by (simp_all add: hm_ok_def vals)
  have vals': "hm_values h = (us @ ms) @ ws" by (simp add: vals)
  obtain i where i: "j = Some i" "hm_values h1 = (us @ ms) @ i # ws" "i \<notin> set (hm_values h)"
    "hm_node h1 = (hm_node h)(i := (k, copy_of V v))"
    "hm_buckets h1 = hm_buckets h" "hm_num_buckets h1 = hm_num_buckets h" "hm_size h1 = hm_size h"
    "distinct (hm_values h1 @ hm_spares h1)" "\<forall>j \<in> set (hm_values h1 @ hm_spares h1). j < hm_fresh h1"
    "\<forall>j \<in> set (hm_spares h1). recyclable V (snd (hm_node h1 j))"
    using hm_values_insert_ok [OF nodes vals', of "(k, v)"] ins by (metis fst_conv snd_conv prod.inject)
  have keys: "k \<notin> fst ` hm_node h ` set (hm_values h)"
    using new by (auto simp: hm_map_def map_of_eq_None_iff)
  have bk: "hm_bucket hash h2 = (hm_bucket hash h)(i := b)"
    by (auto simp: hm_bucket_def fun_eq_iff h2 i b)
  have out: "\<forall>x \<in> set us \<union> set ms \<union> set ws. x \<noteq> i" using i(3) by (auto simp: vals)
  have "grouped (hm_bucket hash h2) (hm_num_buckets h) (us @ ms @ ws) (hm_buckets h)"
    by (rule grouped_cong [OF g]) (use out in \<open>auto simp: bk\<close>)
  moreover have "split_at (hm_bucket hash h2) b us ms ws (hm_buckets h ! b)"
    using sp out unfolding split_at_def bk by auto
  moreover have "hm_bucket hash h2 i = b" "b < hm_num_buckets h" using n by (simp_all add: bk b)
  ultimately have "grouped (hm_bucket hash h2) (hm_num_buckets h) (us @ ms @ i # ws)
      ((hm_buckets h)[b := (if ms = [] then Some i else fst (hm_buckets h ! b), Some i)])"
    using pos by (intro grouped_insert)
  moreover have "hm_values h2 = us @ ms @ i # ws" "hm_num_buckets h2 = hm_num_buckets h"
    "hm_buckets h2 = (hm_buckets h)[b := (if ms = [] then Some i else fst (hm_buckets h ! b), Some i)]"
    by (simp_all add: h2 i)
  ultimately have "grouped (hm_bucket hash h2) (hm_num_buckets h2) (hm_values h2) (hm_buckets h2)"
    by (simp only:)
  moreover have "hm_nodes_ok V h2"
    unfolding hm_nodes_ok_def
  proof (intro conjI)
    have keys2: "map (fst \<circ> hm_node h2) (hm_values h2) =
        map (fst \<circ> hm_node h) us @ map (fst \<circ> hm_node h) ms @ k # map (fst \<circ> hm_node h) ws"
      using out by (auto simp: h2 i)
    have "distinct (map (fst \<circ> hm_node h) us @ map (fst \<circ> hm_node h) ms @ map (fst \<circ> hm_node h) ws)"
      using nodes by (simp add: hm_nodes_ok_def vals)
    moreover have "k \<notin> set (map (fst \<circ> hm_node h) us @ map (fst \<circ> hm_node h) ms @ map (fst \<circ> hm_node h) ws)"
      using keys by (auto simp: vals)
    ultimately show "distinct (map (fst \<circ> hm_node h2) (hm_values h2))"
      unfolding keys2 by auto
    show "hm_size h2 = length (hm_values h2)" using nodes by (simp add: h2 i hm_nodes_ok_def vals)
  qed (use i in \<open>simp_all add: h2\<close>)
  ultimately show ok2: "hm_ok hash V h2" using n by (simp add: hm_ok_def h2 i)
  have "map (hm_node h2) (hm_values h2) = map (hm_node h) (us @ ms) @ (k, copy_of V v) # map (hm_node h) ws"
    using out by (auto simp: h2 i)
  then have "hm_map h2 = map_of (map (hm_node h) (us @ ms) @ (k, copy_of V v) # map (hm_node h) ws)"
    by (simp only: hm_map_def)
  also have "\<dots> = (hm_map h)(k \<mapsto> copy_of V v)"
    using keys by (subst map_of_insert_middle) (auto simp: hm_map_def vals)
  finally show "hm_map h2 = (hm_map h)(k \<mapsto> copy_of V v)" .
  have "i \<in> set (hm_values h2)" "fst (hm_node h2 i) = k" by (simp_all add: h2 i)
  then have "hm_find hash h2 k = Some i" by (subst hm_find_map(2) [OF ok2]) simp
  then show "hm_find hash h2 k = j" "j \<noteq> None" by (simp_all add: i)
qed

lemma hm_insert_ok:
  assumes "hm_ok hash V h0" "hm_insert hash V h0 (k, v) = (h', j, new)"
  shows "hm_ok hash V h'" "new \<longleftrightarrow> hm_map h0 k = None" "hm_find hash h' k = j" "j \<noteq> None"
    "hm_map h' = (if new then (hm_map h0)(k \<mapsto> copy_of V v) else hm_map h0)"
proof -
  define h where "h = (if hm_size h0 + 1 \<ge> hm_num_buckets h0 then hm_rehash hash h0 (hash_size (hm_size h0 + 1)) else h0)"
  have ok: "hm_ok hash V h" and n: "0 < hm_num_buckets h" and same: "hm_map h = hm_map h0"
    using hm_rehash_ok [OF assms(1) hash_size_pos] assms(1) hash_size_pos by (auto simp: h_def)
  let ?b = "hash k mod hm_num_buckets h"
  note body = assms(2) [unfolded hm_insert_def Let_def fst_conv, folded h_def]
  obtain us ms ws where vals: "hm_values h = us @ ms @ ws" "distinct (us @ ms @ ws)"
    and sp: "split_at (hm_bucket hash h) ?b us ms ws (hm_buckets h ! ?b)"
    using hm_groups [OF ok] n by (metis not_gr_zero)
  have nodes: "hm_nodes_ok V h" using ok by (simp add: hm_ok_def)
  have "hm_ok hash V h' \<and> (new \<longleftrightarrow> hm_map h0 k = None) \<and> hm_find hash h' k = j \<and> j \<noteq> None \<and>
    hm_map h' = (if new then (hm_map h0)(k \<mapsto> copy_of V v) else hm_map h0)"
  proof (cases "ms = []")
    case True
    have none: "fst (hm_buckets h ! ?b) = None" using sp True by (simp add: split_at_def)
    have sp': "split_at (hm_bucket hash h) ?b (us @ ws) [] [] (hm_buckets h ! ?b)"
      using sp True by (auto simp: split_at_def)
    have absent: "hm_map h k = None"
      using find_not_in_group [of h us ws hash k] vals(1) sp True hm_find_eq [OF ok] hm_find_map(1) [OF ok] by simp
    obtain h1 j1 where ins: "hm_values_insert V h (hd_it []) (k, v) = (h1, j1)" by (cases "hm_values_insert V h (hd_it []) (k, v)")
    note r = hm_insert_node_ok [OF ok n absent _ _ refl sp' ins refl]
    have "h' = h1\<lparr>hm_buckets := (hm_buckets h1)[?b := (j1, j1)], hm_size := hm_size h1 + 1\<rparr>" "j = j1" "new"
      using body none ins by auto
    then show ?thesis using r absent vals True by (simp add: same)
  next
    case ne: False
    then have some: "(fst (hm_buckets h ! ?b) = None) = False" using sp by (simp add: split_at_def)
    note scan = hm_scan_bucket [OF vals sp ne]
    show ?thesis
    proof (cases "hm_find hash h k")
      case (Some i)
      then have "h' = h" "j = Some i" "\<not> new"
        using body scan hm_find_eq [OF ok, of k] by (simp_all add: some)
      moreover have "hm_map h k \<noteq> None" using hm_find_map(1) [OF ok, of k] Some by simp
      ultimately show ?thesis using ok Some by (simp add: same)
    next
      case None
      then have absent: "hm_map h k = None" using hm_find_map(1) [OF ok] by simp
      obtain h1 j1 where ins: "hm_values_insert V h (hd_it ws) (k, v) = (h1, j1)" by (cases "hm_values_insert V h (hd_it ws) (k, v)")
      note r = hm_insert_node_ok [OF ok n absent vals(1) _ refl sp ins refl]
      have "h' = h1\<lparr>hm_buckets := (hm_buckets h1)[?b := (fst (hm_buckets h ! ?b), j1)], hm_size := hm_size h1 + 1\<rparr>"
        "j = j1" "new"
        using body scan hm_find_eq [OF ok, of k] None ins
        by (auto simp: some)
      then show ?thesis using r absent ne by (simp add: same)
    qed
  qed
  then show "hm_ok hash V h'" "new \<longleftrightarrow> hm_map h0 k = None" "hm_find hash h' k = j" "j \<noteq> None"
    "hm_map h' = (if new then (hm_map h0)(k \<mapsto> copy_of V v) else hm_map h0)" by blast+
qed

lemma hm_erase_at_ok:
  assumes ok: "hm_ok hash V h" and found: "hm_find hash h k = Some i"
    and rec: "recyclable V (assign_to V (snd (hm_node h i)) (default_value V))"
  shows "hm_ok hash V (hm_erase_at hash V h i)" "hm_map (hm_erase_at hash V h i) = (hm_map h)(k := None)"
    "hm_values (hm_erase_at hash V h i) = remove1 i (hm_values h)"
    "\<And>j. j \<noteq> i \<Longrightarrow> hm_node (hm_erase_at hash V h i) j = hm_node h j"
proof -
  have i: "i \<in> set (hm_values h)" "fst (hm_node h i) = k" using hm_find_map(2) [OF ok] found by blast+
  have nodes: "hm_nodes_ok V h" and g: "grouped (hm_bucket hash h) (hm_num_buckets h) (hm_values h) (hm_buckets h)"
    using ok by (simp_all add: hm_ok_def)
  have n: "hm_num_buckets h \<noteq> 0" using ok i(1) by (auto simp: hm_ok_def)
  let ?b = "hash k mod hm_num_buckets h"
  obtain us ms ws where vals: "hm_values h = us @ ms @ ws" "distinct (us @ ms @ ws)"
    and sp: "split_at (hm_bucket hash h) ?b us ms ws (hm_buckets h ! ?b)"
    using hm_groups [OF ok n] by metis
  have im: "i \<in> set ms" using i vals(1) sp by (auto simp: split_at_def hm_bucket_def)
  then obtain xs ys where ms: "ms = xs @ i # ys" by (meson split_list)
  define e where "e = (if xs = [] \<and> ys = [] then (None, None)
    else if xs = [] then (iter_inc (hm_values h) (fst (hm_buckets h ! ?b)), snd (hm_buckets h ! ?b))
    else if ys = [] then (fst (hm_buckets h ! ?b), iter_dec (hm_values h) (snd (hm_buckets h ! ?b)))
    else hm_buckets h ! ?b)"
  have old: "hm_buckets h ! ?b = (Some (hd ms), Some (last ms))" using sp ms by (simp add: split_at_def)
  have ends: "Some i = fst (hm_buckets h ! ?b) \<longleftrightarrow> xs = []" "Some i = snd (hm_buckets h ! ?b) \<longleftrightarrow> ys = []"
    using vals(2) by (auto simp: old ms hd_append)
  have rem: "remove1 i ms = xs @ ys" using vals(2) by (simp add: ms remove1_append)
  have inc: "iter_inc (hm_values h) (Some i) = Some y" if "xs = []" "ys = y # zs" for y zs
    using iter_inc_parts [of us i "ys @ ws"] vals that by (simp add: ms)
  have dec: "iter_dec (hm_values h) (Some i) = Some x" if "ys = []" "xs = zs @ [x]" for x zs
    using iter_dec_parts [of "us @ zs" x "i # ws"] vals that by (simp add: ms)
  have "e = (if xs @ ys = [] then (None, None) else (Some (hd (xs @ ys)), Some (last (xs @ ys))))"
    using inc dec by (cases ys; cases xs rule: rev_cases) (auto simp: e_def old ms hd_append)
  then have e: "split_at (hm_bucket hash h) ?b us (remove1 i ms) ws e"
    using sp by (simp add: split_at_def rem) (simp add: ms)
  let ?h = "hm_erase_at hash V h i"
  have h': "?h = h\<lparr>hm_buckets := (hm_buckets h)[?b := e],
      hm_node := (hm_node h)(i := (default_key V, assign_to V (snd (hm_node h i)) (default_value V))),
      hm_values := remove1 i (hm_values h), hm_spares := i # hm_spares h, hm_size := hm_size h - 1\<rparr>"
    unfolding hm_erase_at_def Let_def i(2) ends by (simp add: hm_values_erase_def e_def)
  have i_out: "i \<notin> set (remove1 i (hm_values h))" using vals by (simp add: vals(1))
  have "grouped (hm_bucket hash h) (hm_num_buckets h) (remove1 i (us @ ms @ ws)) ((hm_buckets h)[?b := e])"
    using grouped_remove [OF g [unfolded vals(1)] _ _ e im vals(2)] i n by (simp add: hm_bucket_def)
  then have "grouped (hm_bucket hash ?h) (hm_num_buckets h) (remove1 i (us @ ms @ ws)) ((hm_buckets h)[?b := e])"
    by (rule grouped_cong) (use i_out in \<open>auto simp: hm_bucket_def h' vals(1)\<close>)
  moreover have same: "map F (remove1 i (hm_values h)) = map G (remove1 i (hm_values h))"
    if "\<And>j. j \<noteq> i \<Longrightarrow> F j = G j" for F G :: "nat \<Rightarrow> 'z"
    by (rule map_cong [OF refl]) (use that i_out in metis)
  have "distinct (map (fst \<circ> hm_node h) (remove1 i (hm_values h)))"
    using nodes by (auto simp: hm_nodes_ok_def distinct_map distinct_remove1 intro: inj_on_subset [OF _ Diff_subset])
  then have "distinct (map (fst \<circ> hm_node ?h) (remove1 i (hm_values h)))"
    using arg_cong [OF same [of "fst \<circ> hm_node ?h" "fst \<circ> hm_node h"], of distinct] by (simp add: h')
  then have "hm_nodes_ok V ?h"
    using nodes i rec set_remove1_subset [of i "hm_values h"]
    by (auto simp: hm_nodes_ok_def h' distinct_remove1 length_remove1)
  ultimately show "hm_ok hash V ?h" using n by (simp add: hm_ok_def h' vals(1))
  show "hm_values ?h = remove1 i (hm_values h)" by (simp add: h')
  show "\<And>j. j \<noteq> i \<Longrightarrow> hm_node ?h j = hm_node h j" by (simp add: h')
  have keys: "distinct (map fst (map (hm_node h) (hm_values h)))" using nodes by (simp add: hm_nodes_ok_def)
  have "map (hm_node ?h) (remove1 i (hm_values h)) = map (hm_node h) (remove1 i (hm_values h))"
    by (rule same) (simp add: h')
  moreover have "remove1 i (hm_values h) = (us @ xs) @ (ys @ ws)"
    using vals(2) im rem by (auto simp: vals(1) remove1_append)
  moreover have "hm_map ?h = map_of (map (hm_node ?h) (remove1 i (hm_values h)))" by (simp add: hm_map_def h')
  ultimately have "hm_map ?h = map_of (map (hm_node h) ((us @ xs) @ (ys @ ws)))" by (simp only:)
  also have "\<dots> = (hm_map h)(k := None)"
  proof -
    have "hm_map h = map_of (map (hm_node h) (us @ xs) @ (k, snd (hm_node h i)) # map (hm_node h) (ys @ ws))"
      using i(2) by (simp add: hm_map_def vals(1) ms)
    moreover have k: "k \<notin> set (map fst (map (hm_node h) (us @ xs) @ map (hm_node h) (ys @ ws)))"
      using keys i(2) by (auto simp: vals(1) ms)
    ultimately have "hm_map h = (map_of (map (hm_node h) ((us @ xs) @ (ys @ ws))))(k \<mapsto> snd (hm_node h i))"
      using map_of_insert_middle [OF k] by (simp only: map_append)
    moreover have "map_of (map (hm_node h) ((us @ xs) @ (ys @ ws))) k = None"
      using k by (auto simp: map_of_eq_None_iff simp del: map_append)
    ultimately show ?thesis by (simp only: fun_upd_upd) (metis fun_upd_triv)
  qed
  finally show "hm_map ?h = (hm_map h)(k := None)" .
qed

lemma hm_store_ok:
  assumes ok: "hm_ok hash V h" and found: "hm_find hash h k = Some i"
  shows "hm_ok hash V (hm_store h i v)" "hm_map (hm_store h i v) = (hm_map h)(k \<mapsto> v)"
    "hm_find hash (hm_store h i v) k = Some i"
proof -
  have i: "i \<in> set (hm_values h)" "fst (hm_node h i) = k" using hm_find_map(2) [OF ok] found by blast+
  have nodes: "hm_nodes_ok V h" using ok by (simp add: hm_ok_def)
  have fst: "fst (hm_node (hm_store h i v) j) = fst (hm_node h j)" for j by (simp add: hm_store_def)
  then have bk: "hm_bucket hash (hm_store h i v) = hm_bucket hash h"
    by (simp add: hm_bucket_def fun_eq_iff) (simp add: hm_store_def)
  have "i \<notin> set (hm_spares h)" using nodes i(1) by (auto simp: hm_nodes_ok_def)
  then have "\<forall>j \<in> set (hm_spares h). hm_node (hm_store h i v) j = hm_node h j" by (auto simp: hm_store_def)
  moreover have "fst \<circ> hm_node (hm_store h i v) = fst \<circ> hm_node h" using fst by (simp add: fun_eq_iff)
  ultimately have "hm_nodes_ok V (hm_store h i v)"
    using nodes unfolding hm_nodes_ok_def by (simp add: hm_store_def)
  then show ok': "hm_ok hash V (hm_store h i v)" using ok unfolding hm_ok_def bk by (simp add: hm_store_def)
  show found': "hm_find hash (hm_store h i v) k = Some i"
    using i by (subst hm_find_map(2) [OF ok']) (simp add: hm_store_def)
  have vals: "hm_values (hm_store h i v) = hm_values h" by (simp add: hm_store_def)
  have same: "hm_find hash (hm_store h i v) k' = hm_find hash h k'" for k'
    unfolding hm_find_eq [OF ok'] hm_find_eq [OF ok] fst vals ..
  have "hm_map (hm_store h i v) k' = ((hm_map h)(k \<mapsto> v)) k'" for k'
  proof (cases "hm_find hash h k'")
    case None
    then have "hm_map (hm_store h i v) k' = None" "hm_map h k' = None"
      using hm_find_map(1) [OF ok', of k'] hm_find_map(1) [OF ok, of k'] same by simp_all
    moreover have "k' \<noteq> k" using None found by auto
    ultimately show ?thesis by simp
  next
    case (Some j)
    then have j: "j \<in> set (hm_values h)" "fst (hm_node h j) = k'" using hm_find_map(2) [OF ok, of k' j] by simp_all
    have "hm_find hash (hm_store h i v) k' = Some j" by (simp only: same Some)
    from hm_find_map(3) [OF ok' this] have "hm_map (hm_store h i v) k' = Some (snd (hm_node (hm_store h i v) j))" .
    moreover have "j = i \<longleftrightarrow> k' = k" using i(2) j(2) Some found by (metis option.inject)
    moreover have "hm_map h k' = Some (snd (hm_node h j))" by (rule hm_find_map(3) [OF ok Some])
    ultimately show ?thesis by (simp add: hm_store_def)
  qed
  then show "hm_map (hm_store h i v) = (hm_map h)(k \<mapsto> v)" by blast
qed

lemma hm_clear_ok:
  assumes "hm_ok hash V h"
  shows "hm_ok hash V (hm_clear h)" "hm_map (hm_clear h) = Map.empty"
  using assms grouped_Nil by (auto simp: hm_ok_def hm_nodes_ok_def hm_clear_def hm_map_def hm_bucket_def)

section \<open>A hash map is a finite map\<close>

text \<open>Calls of a client that stores values by key, and what it observes.\<close>

datatype ('k, 'v) map_call = Insert 'k 'v | Erase 'k | Find 'k | Clear

datatype 'v observation = Inserted bool | Found "'v option" | Nothing

fun hm_call :: "('k \<Rightarrow> nat) \<Rightarrow> ('k, 'v) value_ops \<Rightarrow> ('k, 'v) map_call \<Rightarrow> ('k, 'v) hash_map \<Rightarrow>
    ('k, 'v) hash_map \<times> 'v observation"
where
  "hm_call hash V (Insert k v) h = (case hm_insert hash V h (k, v) of (h1, it, new) \<Rightarrow> (h1, Inserted new))"
| "hm_call hash V (Erase k) h = (hm_erase hash V h k, Nothing)"
| "hm_call hash V (Find k) h = (h, Found (map_option (\<lambda>i. snd (hm_node h i)) (hm_find hash h k)))"
| "hm_call hash V Clear h = (hm_clear h, Nothing)"

fun hm_run :: "('k \<Rightarrow> nat) \<Rightarrow> ('k, 'v) value_ops \<Rightarrow> ('k, 'v) map_call list \<Rightarrow> ('k, 'v) hash_map \<Rightarrow>
    ('k, 'v) hash_map \<times> 'v observation list"
where
  "hm_run hash V [] h = (h, [])"
| "hm_run hash V (c # cs) h =
     (case hm_call hash V c h of (h1, ob) \<Rightarrow> (case hm_run hash V cs h1 of (h2, obs) \<Rightarrow> (h2, ob # obs)))"

fun map_call_spec :: "('k, 'v) map_call \<Rightarrow> ('k \<rightharpoonup> 'v) \<Rightarrow> ('k \<rightharpoonup> 'v) \<times> 'v observation" where
  "map_call_spec (Insert k v) m = (if m k = None then (m(k \<mapsto> v), Inserted True) else (m, Inserted False))"
| "map_call_spec (Erase k) m = (m(k := None), Nothing)"
| "map_call_spec (Find k) m = (m, Found (m k))"
| "map_call_spec Clear m = (Map.empty, Nothing)"

fun map_run :: "('k, 'v) map_call list \<Rightarrow> ('k \<rightharpoonup> 'v) \<Rightarrow> ('k \<rightharpoonup> 'v) \<times> 'v observation list" where
  "map_run [] m = (m, [])"
| "map_run (c # cs) m =
     (case map_call_spec c m of (m1, ob) \<Rightarrow> (case map_run cs m1 of (m2, obs) \<Rightarrow> (m2, ob # obs)))"

text \<open>The default: copying and assigning copy.\<close>

definition plain_values :: "'k \<Rightarrow> 'v \<Rightarrow> ('k, 'v) value_ops" where
  "plain_values k v = \<lparr>copy_of = (\<lambda>x. x), assign_to = (\<lambda>old x. x), default_key = k, default_value = v\<rparr>"

lemma plain_copy [simp]: "copy_of (plain_values k v) x = x"
  by (simp add: plain_values_def)

lemma plain_recyclable [simp]: "recyclable (plain_values k v) old"
  by (simp add: recyclable_def plain_values_def)

lemma hm_call_ok:
  assumes ok: "hm_ok hash (plain_values k0 v0) h" and c: "hm_call hash (plain_values k0 v0) c h = (h1, ob)"
  shows "hm_ok hash (plain_values k0 v0) h1 \<and> map_call_spec c (hm_map h) = (hm_map h1, ob)"
proof (cases c)
  case (Insert k v)
  obtain h2 it new where ins: "hm_insert hash (plain_values k0 v0) h (k, v) = (h2, it, new)" by (metis prod_cases3)
  show ?thesis using c hm_insert_ok [OF ok ins] by (auto simp: Insert ins)
next
  case (Erase k)
  show ?thesis
  proof (cases "hm_find hash h k")
    case None
    then have "hm_map h k = None" using hm_find_map(1) [OF ok] by simp
    then have "(hm_map h)(k := None) = hm_map h" by (simp add: fun_upd_idem)
    then show ?thesis using c ok None by (auto simp: Erase hm_erase_def)
  next
    case (Some i)
    then show ?thesis using c hm_erase_at_ok [OF ok Some] by (auto simp: Erase hm_erase_def)
  qed
next
  case (Find k)
  show ?thesis
  proof (cases "hm_find hash h k")
    case None
    then show ?thesis using c ok hm_find_map(1) [OF ok, of k] by (auto simp: Find)
  next
    case (Some i)
    then show ?thesis using c ok hm_find_map(3) [OF ok Some] by (auto simp: Find)
  qed
next
  case Clear
  then show ?thesis using c hm_clear_ok [OF ok] by auto
qed

lemma hm_run_ok:
  "hm_ok hash (plain_values k0 v0) h \<Longrightarrow> hm_run hash (plain_values k0 v0) cs h = (h1, obs) \<Longrightarrow>
    hm_ok hash (plain_values k0 v0) h1 \<and> map_run cs (hm_map h) = (hm_map h1, obs)"
proof (induction cs arbitrary: h obs)
  case (Cons c cs)
  obtain h2 ob obs2 where step: "hm_call hash (plain_values k0 v0) c h = (h2, ob)"
    and rest: "hm_run hash (plain_values k0 v0) cs h2 = (h1, obs2)" "obs = ob # obs2"
    using Cons.prems(2) by (auto split: prod.splits)
  note ok = hm_call_ok [OF Cons.prems(1) step]
  then show ?case using Cons.IH [of h2 obs2] rest by simp
qed simp

text \<open>C13: whatever is inserted, erased and cleared, and whatever the hash function, a hash map answers
  every call as a finite map does: the searches of single buckets, the recycling of nodes and the
  moves of a rehash are never visible. At every moment its iterators go through exactly the
  entries of that map, each key once, the entries of a bucket next to one another; the bucket holds
  the first and the last of them.\<close>

theorem hash_map_refines_map:
  assumes "hm_run hash (plain_values k0 v0) cs (hm_new nodes) = (h, obs)"
  shows "map_run cs Map.empty = (hm_map h, obs) \<and>
    distinct (map (fst \<circ> hm_node h) (hm_values h)) \<and>
    set (map (hm_node h) (hm_values h)) = {(k, v). hm_map h k = Some v} \<and>
    hm_size h = length (hm_values h) \<and>
    (\<forall>i \<in> set (hm_values h). hash (fst (hm_node h i)) mod hm_num_buckets h < hm_num_buckets h) \<and>
    (\<forall>b < hm_num_buckets h. \<exists>us ms ws. hm_values h = us @ ms @ ws \<and>
       (\<forall>i \<in> set ms. hash (fst (hm_node h i)) mod hm_num_buckets h = b) \<and>
       (\<forall>i \<in> set us \<union> set ws. hash (fst (hm_node h i)) mod hm_num_buckets h \<noteq> b) \<and>
       hm_buckets h ! b = (if ms = [] then (None, None) else (Some (hd ms), Some (last ms))))"
proof -
  have ok: "hm_ok hash (plain_values k0 v0) h" and run: "map_run cs Map.empty = (hm_map h, obs)"
    using hm_run_ok [OF hm_new_ok(1) assms, unfolded hm_new_ok(2)] by simp_all
  have nodes: "distinct (map fst (map (hm_node h) (hm_values h)))" "hm_size h = length (hm_values h)"
    using ok by (simp_all add: hm_ok_def hm_nodes_ok_def)
  have "set (map (hm_node h) (hm_values h)) = {(k, v). hm_map h k = Some v}"
    using nodes(1) by (auto simp: hm_map_def dest: map_of_SomeD intro: map_of_is_SomeI)
  moreover have "hash (fst (hm_node h i)) mod hm_num_buckets h < hm_num_buckets h" if "i \<in> set (hm_values h)" for i
    using ok that by (cases "hm_num_buckets h = 0") (auto simp: hm_ok_def)
  moreover have "\<exists>us ms ws. hm_values h = us @ ms @ ws \<and>
       (\<forall>i \<in> set ms. hash (fst (hm_node h i)) mod hm_num_buckets h = b) \<and>
       (\<forall>i \<in> set us \<union> set ws. hash (fst (hm_node h i)) mod hm_num_buckets h \<noteq> b) \<and>
       hm_buckets h ! b = (if ms = [] then (None, None) else (Some (hd ms), Some (last ms)))"
    if "b < hm_num_buckets h" for b
    using ok that unfolding hm_ok_def grouped_def neighbours_def split_at_def hm_bucket_def by blast
  ultimately show ?thesis using run nodes(2) nodes(1) [unfolded map_map] by blast
qed

theorem hash_map_refines_map_witness:
  "snd (hm_run (\<lambda>k. k) (plain_values 0 ''x'') [Insert 1 ''a'', Insert 4 ''b'', Insert 2 ''c'', Insert 14 ''d'', Erase 1, Find 14, Find 1] (hm_new (\<lambda>_. (0 :: nat, ''''))))
    = [Inserted True, Inserted True, Inserted True, Inserted True, Nothing, Found (Some ''d''), Found None]"
proof -
  obtain h obs where run: "hm_run (\<lambda>k. k) (plain_values 0 ''x'') [Insert 1 ''a'', Insert 4 ''b'', Insert 2 ''c'',
      Insert 14 ''d'', Erase 1, Find 14, Find 1] (hm_new (\<lambda>_. (0 :: nat, ''''))) = (h, obs)" by (metis surj_pair)
  show ?thesis using conjunct1 [OF hash_map_refines_map [OF run]] run by simp
qed

end
