(* ===== verification/ReactorOpQueue.thy ===== *)
theory ReactorOpQueue
  imports HashMapCorrect EpollReactor
begin

text \<open>
  \<open>reactor_op_queue<Descriptor>\<close> of \<open>detail/reactor_op_queue.hpp\<close>: the operations waiting on each
  descriptor, in a \<open>hash_map\<close> from descriptors to queues. What it asks of the map is the locale
  \<open>iterated_map\<close>. A queue is the list it represents (\<open>OpQueue\<close>); the descriptors are those of POSIX
  systems, numbers hashed as \<open>int\<close>.
\<close>

section \<open>Operations\<close>

type_synonym roq = "(int, reactor_op list) hash_map"

definition fd_hash :: "int \<Rightarrow> nat" where
  "fd_hash d = calculate_hash_value_int (word_of_int d)"

text \<open>\<open>mapped_type\<close>: a copy is an empty queue, and an assignment leaves the queue as it is.\<close>

definition mapped_type :: "(int, reactor_op list) value_ops" where
  "mapped_type = \<lparr>copy_of = (\<lambda>_. []), assign_to = (\<lambda>old _. old), default_key = 0, default_value = []\<rparr>"

definition roq_new :: roq where
  "roq_new = hm_new (\<lambda>_. (0, []))"

definition roq_enqueue :: "roq \<Rightarrow> int \<Rightarrow> reactor_op \<Rightarrow> roq \<times> bool" where
  "roq_enqueue q descriptor op =
     (case hm_insert fd_hash mapped_type q (descriptor, []) of
        (q1, Some i, new) \<Rightarrow> (hm_store q1 i (snd (hm_node q1 i) @ [op]), new)
      | (q1, None, new) \<Rightarrow> (q1, new))"

text \<open>The loops over one queue.\<close>

fun roq_cancel_loop :: "error_code \<Rightarrow> reactor_op list \<Rightarrow> reactor_op list \<Rightarrow> reactor_op list" where
  "roq_cancel_loop ec [] ops = ops"
| "roq_cancel_loop ec (op # q) ops = roq_cancel_loop ec q (ops @ [op\<lparr>rop_ec := ec\<rparr>])"

fun roq_cancel_key_loop ::
  "nat option \<Rightarrow> error_code \<Rightarrow> reactor_op list \<Rightarrow> reactor_op list \<Rightarrow> reactor_op list \<Rightarrow> bool \<Rightarrow>
   reactor_op list \<times> reactor_op list \<times> bool"
where
  "roq_cancel_key_loop key ec [] ops other_ops result = (ops, other_ops, result)"
| "roq_cancel_key_loop key ec (op # q) ops other_ops result =
     (if rop_key op = key
      then roq_cancel_key_loop key ec q (ops @ [op\<lparr>rop_ec := ec\<rparr>]) other_ops True
      else roq_cancel_key_loop key ec q ops (other_ops @ [op]) result)"

fun roq_perform_loop ::
  "(reactor_op \<Rightarrow> 'w \<Rightarrow> perform_status \<times> reactor_op \<times> 'w) \<Rightarrow> reactor_op list \<Rightarrow> 'w \<Rightarrow> reactor_op list \<Rightarrow>
   reactor_op list \<times> 'w \<times> reactor_op list"
where
  "roq_perform_loop perform [] w ops = ([], w, ops)"
| "roq_perform_loop perform (op # q) w ops =
     (case perform op w of (status, op1, w1) \<Rightarrow>
        if status \<noteq> Not_done then roq_perform_loop perform q w1 (ops @ [op1])
        else (op1 # q, w1, ops))"

definition roq_cancel_at :: "roq \<Rightarrow> iter \<Rightarrow> reactor_op list \<Rightarrow> error_code \<Rightarrow> roq \<times> reactor_op list \<times> bool" where
  "roq_cancel_at q it ops ec =
     (case it of
        Some i \<Rightarrow> (hm_erase_at fd_hash mapped_type (hm_store q i []) i,
                   roq_cancel_loop ec (snd (hm_node q i)) ops, True)
      | None \<Rightarrow> (q, ops, False))"

definition roq_cancel :: "roq \<Rightarrow> int \<Rightarrow> reactor_op list \<Rightarrow> error_code \<Rightarrow> roq \<times> reactor_op list \<times> bool" where
  "roq_cancel q descriptor = roq_cancel_at q (hm_find fd_hash q descriptor)"

definition roq_cancel_by_key_at ::
  "roq \<Rightarrow> iter \<Rightarrow> reactor_op list \<Rightarrow> nat option \<Rightarrow> error_code \<Rightarrow> roq \<times> reactor_op list \<times> bool"
where
  "roq_cancel_by_key_at q it ops key ec =
     (case it of
        Some i \<Rightarrow>
          (case roq_cancel_key_loop key ec (snd (hm_node q i)) ops [] False of (ops1, other_ops, result) \<Rightarrow>
             (let q1 = hm_store q i other_ops
              in (if other_ops = [] then hm_erase_at fd_hash mapped_type q1 i else q1, ops1, result)))
      | None \<Rightarrow> (q, ops, False))"

definition roq_cancel_by_key ::
  "roq \<Rightarrow> int \<Rightarrow> reactor_op list \<Rightarrow> nat option \<Rightarrow> error_code \<Rightarrow> roq \<times> reactor_op list \<times> bool"
where
  "roq_cancel_by_key q descriptor = roq_cancel_by_key_at q (hm_find fd_hash q descriptor)"

definition roq_empty :: "roq \<Rightarrow> bool" where
  "roq_empty q \<longleftrightarrow> hm_empty q"

definition roq_has_operation :: "roq \<Rightarrow> int \<Rightarrow> bool" where
  "roq_has_operation q descriptor \<longleftrightarrow> hm_find fd_hash q descriptor \<noteq> None"

definition roq_perform_at ::
  "(reactor_op \<Rightarrow> 'w \<Rightarrow> perform_status \<times> reactor_op \<times> 'w) \<Rightarrow> roq \<Rightarrow> iter \<Rightarrow> 'w \<Rightarrow> reactor_op list \<Rightarrow>
   roq \<times> 'w \<times> reactor_op list \<times> bool"
where
  "roq_perform_at perform q it w ops =
     (case it of
        Some i \<Rightarrow>
          (case roq_perform_loop perform (snd (hm_node q i)) w ops of (rest, w1, ops1) \<Rightarrow>
             if rest \<noteq> [] then (hm_store q i rest, w1, ops1, True)
             else (hm_erase_at fd_hash mapped_type (hm_store q i []) i, w1, ops1, False))
      | None \<Rightarrow> (q, w, ops, False))"

definition roq_perform ::
  "(reactor_op \<Rightarrow> 'w \<Rightarrow> perform_status \<times> reactor_op \<times> 'w) \<Rightarrow> roq \<Rightarrow> int \<Rightarrow> 'w \<Rightarrow> reactor_op list \<Rightarrow>
   roq \<times> 'w \<times> reactor_op list \<times> bool"
where
  "roq_perform perform q descriptor = roq_perform_at perform q (hm_find fd_hash q descriptor)"

text \<open>The loop of \<open>get_all_operations\<close>; the list is the entries from \<open>i\<close> on.\<close>

fun roq_get_all_loop :: "roq \<Rightarrow> nat list \<Rightarrow> reactor_op list \<Rightarrow> roq \<times> reactor_op list" where
  "roq_get_all_loop q [] ops = (q, ops)"
| "roq_get_all_loop q (i # is) ops =
     roq_get_all_loop (hm_erase_at fd_hash mapped_type (hm_store q i []) i) is (ops @ snd (hm_node q i))"

definition roq_get_all :: "roq \<Rightarrow> reactor_op list \<Rightarrow> roq \<times> reactor_op list" where
  "roq_get_all q ops = roq_get_all_loop q (hm_values q) ops"

section \<open>What the queue asks of the map\<close>

text \<open>
  \<open>content\<close> is the finite map, \<open>at\<close> dereferences an iterator, \<open>order\<close> is what iteration visits. A key
  can be removed when its value is \<open>init\<close> again, the value a new key gets.
\<close>

locale iterated_map =
  fixes ok :: "'m \<Rightarrow> bool"
    and content :: "'m \<Rightarrow> 'k \<rightharpoonup> 'v"
    and at :: "'m \<Rightarrow> nat \<Rightarrow> 'k \<times> 'v"
    and order :: "'m \<Rightarrow> nat list"
    and init :: 'v
    and find :: "'m \<Rightarrow> 'k \<Rightarrow> nat option"
    and insert :: "'m \<Rightarrow> 'k \<Rightarrow> 'm \<times> nat option \<times> bool"
    and store :: "'m \<Rightarrow> nat \<Rightarrow> 'v \<Rightarrow> 'm"
    and erase :: "'m \<Rightarrow> nat \<Rightarrow> 'm"
  assumes find_law: "ok m \<Longrightarrow> find m k = None \<Longrightarrow> content m k = None"
    and found_law: "ok m \<Longrightarrow> find m k = Some i \<Longrightarrow> content m k = Some (snd (at m i)) \<and> i \<in> set (order m)"
    and order_law: "ok m \<Longrightarrow> i \<in> set (order m) \<Longrightarrow> find m (fst (at m i)) = Some i"
    and distinct_law: "ok m \<Longrightarrow> distinct (order m)"
    and insert_law: "ok m \<Longrightarrow> insert m k = (m1, it, new) \<Longrightarrow>
      ok m1 \<and> it = find m1 k \<and> it \<noteq> None \<and> (new \<longleftrightarrow> content m k = None) \<and>
      content m1 = (if new then (content m)(k \<mapsto> init) else content m)"
    and store_law: "ok m \<Longrightarrow> find m k = Some i \<Longrightarrow>
      ok (store m i v) \<and> content (store m i v) = (content m)(k \<mapsto> v) \<and> find (store m i v) k = Some i \<and>
      order (store m i v) = order m \<and> at (store m i v) i = (k, v) \<and> (\<forall>j. j \<noteq> i \<longrightarrow> at (store m i v) j = at m j)"
    and erase_law: "ok m \<Longrightarrow> find m k = Some i \<Longrightarrow> content m k = Some init \<Longrightarrow>
      ok (erase m i) \<and> content (erase m i) = (content m)(k := None) \<and> order (erase m i) = remove1 i (order m) \<and>
      (\<forall>j. j \<noteq> i \<longrightarrow> at (erase m i) j = at m j)"
begin

text \<open>Taking everything out of an entry and removing it.\<close>

lemma drained:
  assumes "ok m" "find m k = Some i"
  shows "ok (erase (store m i init) i)" "content (erase (store m i init) i) = (content m)(k := None)"
    "order (erase (store m i init) i) = remove1 i (order m)"
    "j \<noteq> i \<Longrightarrow> at (erase (store m i init) i) j = at m j"
proof -
  have st: "ok (store m i init)" "content (store m i init) = (content m)(k \<mapsto> init)" "find (store m i init) k = Some i"
    "order (store m i init) = order m" "\<forall>j. j \<noteq> i \<longrightarrow> at (store m i init) j = at m j"
    using store_law [OF assms, of init] by blast+
  moreover have "content (store m i init) k = Some init" by (simp add: st(2))
  ultimately show "ok (erase (store m i init) i)" "content (erase (store m i init) i) = (content m)(k := None)"
    "order (erase (store m i init) i) = remove1 i (order m)"
    "j \<noteq> i \<Longrightarrow> at (erase (store m i init) i) j = at m j"
    using erase_law [OF st(1,3)] by auto
qed

text \<open>Changing the value of a key, which is entered first when it is new.\<close>

lemma entered:
  assumes "ok m" "insert m k = (m1, it, new)"
  obtains i where "it = Some i" "ok (store m1 i v)" "content (store m1 i v) = (content m)(k \<mapsto> v)"
    "new \<longleftrightarrow> content m k = None" "snd (at m1 i) = (case content m k of None \<Rightarrow> init | Some old \<Rightarrow> old)"
proof -
  note ins = insert_law [OF assms]
  then obtain i where i: "it = Some i" "find m1 k = Some i" by fastforce
  have "content m1 k = Some (snd (at m1 i))" using found_law ins i(2) by blast
  then have "snd (at m1 i) = (case content m k of None \<Rightarrow> init | Some old \<Rightarrow> old)"
    using ins by (auto split: if_splits option.splits)
  moreover have "ok (store m1 i v)" "content (store m1 i v) = (content m1)(k \<mapsto> v)"
    using store_law [of m1 k i v] ins i(2) by blast+
  ultimately show thesis using that [OF i(1)] ins by (auto split: if_splits)
qed

end

interpretation rq: iterated_map "hm_ok fd_hash mapped_type" hm_map hm_node hm_values "[]" "hm_find fd_hash"
  "\<lambda>m k. hm_insert fd_hash mapped_type m (k, [])" hm_store "hm_erase_at fd_hash mapped_type"
proof
  fix m m1 :: roq and k i it new and v :: "reactor_op list"
  assume ok: "hm_ok fd_hash mapped_type m"
  show "hm_find fd_hash m k = None \<Longrightarrow> hm_map m k = None" using hm_find_map(1) [OF ok] by simp
  show "hm_find fd_hash m k = Some i \<Longrightarrow> hm_map m k = Some (snd (hm_node m i)) \<and> i \<in> set (hm_values m)"
    using hm_find_map(2,3) [OF ok, of k i] by simp
  show "i \<in> set (hm_values m) \<Longrightarrow> hm_find fd_hash m (fst (hm_node m i)) = Some i"
    using hm_find_map(2) [OF ok] by blast
  show "distinct (hm_values m)" using ok by (simp add: hm_ok_def hm_nodes_ok_def)
  show "hm_insert fd_hash mapped_type m (k, []) = (m1, it, new) \<Longrightarrow>
      hm_ok fd_hash mapped_type m1 \<and> it = hm_find fd_hash m1 k \<and> it \<noteq> None \<and> (new \<longleftrightarrow> hm_map m k = None) \<and>
      hm_map m1 = (if new then (hm_map m)(k \<mapsto> []) else hm_map m)"
    using hm_insert_ok [OF ok, of k "[]" m1 it new] by (simp add: mapped_type_def)
  assume found: "hm_find fd_hash m k = Some i"
  then have key: "fst (hm_node m i) = k" using hm_find_map(2) [OF ok, of k i] by simp
  show "hm_ok fd_hash mapped_type (hm_store m i v) \<and> hm_map (hm_store m i v) = (hm_map m)(k \<mapsto> v) \<and>
      hm_find fd_hash (hm_store m i v) k = Some i \<and> hm_values (hm_store m i v) = hm_values m \<and>
      hm_node (hm_store m i v) i = (k, v) \<and> (\<forall>j. j \<noteq> i \<longrightarrow> hm_node (hm_store m i v) j = hm_node m j)"
    using hm_store_ok [OF ok found, of v] key by (simp add: hm_store_def)
  assume "hm_map m k = Some []"
  then have "snd (hm_node m i) = []" using hm_find_map(3) [OF ok found] by simp
  then have "recyclable mapped_type (assign_to mapped_type (snd (hm_node m i)) (default_value mapped_type))"
    by (simp add: recyclable_def mapped_type_def)
  then show "hm_ok fd_hash mapped_type (hm_erase_at fd_hash mapped_type m i) \<and>
      hm_map (hm_erase_at fd_hash mapped_type m i) = (hm_map m)(k := None) \<and>
      hm_values (hm_erase_at fd_hash mapped_type m i) = remove1 i (hm_values m) \<and>
      (\<forall>j. j \<noteq> i \<longrightarrow> hm_node (hm_erase_at fd_hash mapped_type m i) j = hm_node m j)"
    using hm_erase_at_ok [OF ok found] by blast
qed

section \<open>The queues of the descriptors\<close>

definition roq_ops :: "roq \<Rightarrow> int \<Rightarrow> reactor_op list" where
  "roq_ops q d = (case hm_map q d of None \<Rightarrow> [] | Some l \<Rightarrow> l)"

text \<open>No descriptor is entered with an empty queue.\<close>

definition roq_ok :: "roq \<Rightarrow> bool" where
  "roq_ok q \<longleftrightarrow> hm_ok fd_hash mapped_type q \<and> (\<forall>d. hm_map q d \<noteq> Some [])"

definition with_ec :: "error_code \<Rightarrow> reactor_op \<Rightarrow> reactor_op" where
  "with_ec ec op = op\<lparr>rop_ec := ec\<rparr>"

lemma roq_cancel_loop_eq: "roq_cancel_loop ec q ops = ops @ map (with_ec ec) q"
  by (induction ec q ops rule: roq_cancel_loop.induct) (simp_all add: with_ec_def)

lemma roq_cancel_key_loop_eq:
  "roq_cancel_key_loop key ec q ops others r =
     (ops @ map (with_ec ec) (filter (\<lambda>op. rop_key op = key) q), others @ filter (\<lambda>op. rop_key op \<noteq> key) q,
      r \<or> (\<exists>op \<in> set q. rop_key op = key))"
  by (induction key ec q ops others r rule: roq_cancel_key_loop.induct) (auto simp: with_ec_def)

lemma roq_okD: "roq_ok q \<Longrightarrow> hm_ok fd_hash mapped_type q" "roq_ok q \<Longrightarrow> hm_map q d \<noteq> Some []"
  by (simp_all add: roq_ok_def)

lemma roq_ops_Nil: "roq_ok q \<Longrightarrow> roq_ops q d = [] \<longleftrightarrow> hm_map q d = None"
  by (auto simp: roq_ok_def roq_ops_def split: option.splits)

lemma roq_find_cases:
  assumes "roq_ok q"
  obtains (none) "hm_find fd_hash q d = None" "roq_ops q d = []"
  | (some) i where "hm_find fd_hash q d = Some i" "snd (hm_node q i) = roq_ops q d" "roq_ops q d \<noteq> []"
proof (cases "hm_find fd_hash q d")
  case None
  then show ?thesis using rq.find_law [OF roq_okD(1) [OF assms]] none by (simp add: roq_ops_def)
next
  case (Some i)
  then show ?thesis using rq.found_law [OF roq_okD(1) [OF assms] Some] roq_okD(2) [OF assms, of d] some
    by (simp add: roq_ops_def)
qed

text \<open>Putting another queue in the place of a descriptor's, which removes the entry when it is empty.\<close>

definition put_back :: "roq \<Rightarrow> nat \<Rightarrow> reactor_op list \<Rightarrow> roq" where
  "put_back q i rest = (if rest = [] then hm_erase_at fd_hash mapped_type (hm_store q i []) i else hm_store q i rest)"

lemma put_back_ok:
  assumes "roq_ok q" "hm_find fd_hash q d = Some i"
  shows "roq_ok (put_back q i rest)" "roq_ops (put_back q i rest) = (roq_ops q)(d := rest)"
proof -
  note ok = roq_okD(1) [OF assms(1)]
  have m: "hm_ok fd_hash mapped_type (put_back q i rest)"
    "hm_map (put_back q i rest) = (if rest = [] then (hm_map q)(d := None) else (hm_map q)(d \<mapsto> rest))"
    using rq.drained(1,2) [OF ok assms(2)] rq.store_law [OF ok assms(2), of rest] by (simp_all add: put_back_def)
  show "roq_ok (put_back q i rest)" using m assms(1) by (auto simp: roq_ok_def split: if_splits)
  show "roq_ops (put_back q i rest) = (roq_ops q)(d := rest)" using m(2) by (auto simp: roq_ops_def fun_eq_iff)
qed

lemma roq_at_put_back:
  "roq_cancel_at q (Some i) ops ec = (put_back q i [], roq_cancel_loop ec (snd (hm_node q i)) ops, True)"
  "roq_cancel_by_key_at q (Some i) ops key ec =
     (case roq_cancel_key_loop key ec (snd (hm_node q i)) ops [] False of (ops1, other, r) \<Rightarrow> (put_back q i other, ops1, r))"
  "roq_perform_at perform q (Some i) w ops =
     (case roq_perform_loop perform (snd (hm_node q i)) w ops of (rest, w1, ops1) \<Rightarrow> (put_back q i rest, w1, ops1, rest \<noteq> []))"
  by (auto simp: roq_cancel_at_def roq_cancel_by_key_at_def roq_perform_at_def put_back_def Let_def split: prod.splits)

lemma roq_ops_upd: "hm_map q1 = (hm_map q)(d \<mapsto> l) \<Longrightarrow> roq_ops q1 = (roq_ops q)(d := l)"
  by (auto simp: roq_ops_def fun_eq_iff)

lemma roq_enqueue_ok:
  assumes "roq_ok q" "roq_enqueue q d op = (q1, new)"
  shows "roq_ok q1" "roq_ops q1 = (roq_ops q)(d := roq_ops q d @ [op])" "new \<longleftrightarrow> roq_ops q d = []"
proof -
  obtain q0 it isnew where ins: "hm_insert fd_hash mapped_type q (d, []) = (q0, it, isnew)" by (metis prod_cases3)
  let ?v = "roq_ops q d @ [op]"
  obtain i where i: "it = Some i" "hm_ok fd_hash mapped_type (hm_store q0 i ?v)"
    "hm_map (hm_store q0 i ?v) = (hm_map q)(d \<mapsto> ?v)" "isnew \<longleftrightarrow> hm_map q d = None"
    "snd (hm_node q0 i) = (case hm_map q d of None \<Rightarrow> [] | Some old \<Rightarrow> old)"
    by (rule rq.entered [OF roq_okD(1) [OF assms(1)] ins])
  have q1: "q1 = hm_store q0 i ?v" "new = isnew"
    using assms(2) ins i(1,5) by (simp_all add: roq_enqueue_def roq_ops_def)
  show "roq_ok q1" using i(2,3) assms(1) by (simp add: roq_ok_def q1)
  show "roq_ops q1 = (roq_ops q)(d := ?v)" unfolding q1(1) by (rule roq_ops_upd [OF i(3)])
  show "new \<longleftrightarrow> roq_ops q d = []" using roq_ops_Nil [OF assms(1)] i(4) q1(2) by simp
qed

lemma roq_cancel_ok:
  assumes "roq_ok q" "roq_cancel q d ops ec = (q1, ops1, r)"
  shows "roq_ok q1 \<and> roq_ops q1 = (roq_ops q)(d := []) \<and> ops1 = ops @ map (with_ec ec) (roq_ops q d) \<and>
    (r \<longleftrightarrow> roq_ops q d \<noteq> [])"
proof (cases rule: roq_find_cases [OF assms(1), of d])
  case 1
  then show ?thesis using assms by (auto simp: roq_cancel_def roq_cancel_at_def)
next
  case (2 i)
  then have eqs: "q1 = put_back q i []" "ops1 = ops @ map (with_ec ec) (roq_ops q d)" "r"
    using assms(2) by (auto simp: roq_cancel_def roq_at_put_back roq_cancel_loop_eq)
  then show ?thesis using put_back_ok [OF assms(1) 2(1)] 2 by simp
qed

lemma roq_cancel_by_key_ok:
  assumes "roq_ok q" "roq_cancel_by_key q d ops key ec = (q1, ops1, r)"
  shows "roq_ok q1 \<and> roq_ops q1 = (roq_ops q)(d := filter (\<lambda>op. rop_key op \<noteq> key) (roq_ops q d)) \<and>
    ops1 = ops @ map (with_ec ec) (filter (\<lambda>op. rop_key op = key) (roq_ops q d)) \<and>
    (r \<longleftrightarrow> (\<exists>op \<in> set (roq_ops q d). rop_key op = key))"
proof (cases rule: roq_find_cases [OF assms(1), of d])
  case 1
  then show ?thesis using assms by (auto simp: roq_cancel_by_key_def roq_cancel_by_key_at_def)
next
  case (2 i)
  then have eqs: "q1 = put_back q i (filter (\<lambda>op. rop_key op \<noteq> key) (roq_ops q d))"
    "ops1 = ops @ map (with_ec ec) (filter (\<lambda>op. rop_key op = key) (roq_ops q d))"
    "r \<longleftrightarrow> (\<exists>op \<in> set (roq_ops q d). rop_key op = key)"
    using assms(2) by (auto simp: roq_cancel_by_key_def roq_at_put_back roq_cancel_key_loop_eq)
  then show ?thesis using put_back_ok [OF assms(1) 2(1)] by simp
qed

text \<open>
  Performing: a prefix of the queue is done, and the operation at which it stopped, if any, stays
  at the front as it was left.
\<close>

lemma roq_perform_loop_split:
  assumes id: "\<forall>op w. rop_id (fst (snd (perform op w))) = rop_id op"
  shows "roq_perform_loop perform q w ops = (rest, w1, ops1) \<Longrightarrow>
    \<exists>performed. ops1 = ops @ performed \<and> map rop_id (performed @ rest) = map rop_id q"
proof (induction q arbitrary: w ops)
  case (Cons op q)
  obtain st op1 w2 where p: "perform op w = (st, op1, w2)" by (metis prod_cases3)
  have rid: "rop_id op1 = rop_id op" using id p by (metis fst_conv snd_conv)
  show ?case
  proof (cases "st = Not_done")
    case True
    then show ?thesis using Cons.prems p rid by auto
  next
    case False
    then have "roq_perform_loop perform q w2 (ops @ [op1]) = (rest, w1, ops1)" using Cons.prems p by simp
    from Cons.IH [OF this] obtain performed where "ops1 = ops @ op1 # performed"
      "map rop_id (performed @ rest) = map rop_id q" by auto
    then show ?thesis using rid by (intro exI [of _ "op1 # performed"]) simp
  qed
qed simp

lemma roq_perform_ok:
  assumes "roq_ok q" "roq_perform perform q d w ops = (q1, w1, ops1, busy)"
    and "\<forall>op w. rop_id (fst (snd (perform op w))) = rop_id op"
  shows "roq_ok q1 \<and> (\<exists>performed rest. roq_ops q1 = (roq_ops q)(d := rest) \<and> ops1 = ops @ performed \<and>
    map rop_id (performed @ rest) = map rop_id (roq_ops q d) \<and> (busy \<longleftrightarrow> rest \<noteq> []))"
proof (cases rule: roq_find_cases [OF assms(1), of d])
  case 1
  then show ?thesis using assms by (auto simp: roq_perform_def roq_perform_at_def)
next
  case (2 i)
  obtain rest w2 ops2 where loop: "roq_perform_loop perform (roq_ops q d) w ops = (rest, w2, ops2)" by (metis prod_cases3)
  then have eqs: "q1 = put_back q i rest" "ops1 = ops2" "busy \<longleftrightarrow> rest \<noteq> []"
    using assms(2) 2 by (auto simp: roq_perform_def roq_at_put_back)
  obtain performed where "ops2 = ops @ performed" "map rop_id (performed @ rest) = map rop_id (roq_ops q d)"
    using roq_perform_loop_split [OF assms(3) loop] by blast
  then show ?thesis using put_back_ok [OF assms(1) 2(1), of rest] eqs by blast
qed

lemma roq_get_all_loop_ok:
  assumes "roq_ok q" "hm_values q = is" "roq_get_all_loop q is ops = (q1, ops1)"
  shows "roq_ok q1 \<and> hm_values q1 = [] \<and> hm_map q1 = Map.empty \<and>
    ops1 = ops @ concat (map (roq_ops q) (map (fst \<circ> hm_node q) is))"
  using assms
proof (induction "is" arbitrary: q ops)
  case Nil
  then show ?case by (auto simp: hm_map_def)
next
  case (Cons i "is")
  note ok = roq_okD(1) [OF Cons.prems(1)]
  let ?d = "fst (hm_node q i)"
  have found: "hm_find fd_hash q ?d = Some i" using rq.order_law [OF ok, of i] Cons.prems(2) by simp
  let ?q = "put_back q i []"
  note dr = rq.drained [OF ok found]
  have pb: "?q = hm_erase_at fd_hash mapped_type (hm_store q i []) i" by (simp add: put_back_def)
  have dist: "i \<notin> set is" using rq.distinct_law [OF ok] Cons.prems(2) by simp
  have vals: "hm_values ?q = is" using dr(3) Cons.prems(2) by (simp add: pb)
  have nodes: "map (fst \<circ> hm_node ?q) is = map (fst \<circ> hm_node q) is"
  proof (rule map_cong [OF refl])
    fix j assume "j \<in> set is"
    with dist have "j \<noteq> i" by blast
    then show "(fst \<circ> hm_node ?q) j = (fst \<circ> hm_node q) j" using dr(4) [of j] by (simp add: pb)
  qed
  note pbo = put_back_ok [OF Cons.prems(1) found, of "[]"]
  have "roq_get_all_loop ?q is (ops @ snd (hm_node q i)) = (q1, ops1)" using Cons.prems(3) by (simp add: pb)
  note IH = Cons.IH [OF pbo(1) vals this]
  have front: "snd (hm_node q i) = roq_ops q ?d" using rq.found_law [OF ok found] by (simp add: roq_ops_def)
  have "fst (hm_node q j) \<noteq> ?d" if "j \<in> set is" for j
    using rq.order_law [OF ok, of j] found that dist Cons.prems(2) by (metis list.set_intros(2) option.inject)
  then have "map (roq_ops ?q) (map (fst \<circ> hm_node q) is) = map (roq_ops q) (map (fst \<circ> hm_node q) is)"
    using pbo(2) by (auto simp: fun_eq_iff)
  then have "ops1 = (ops @ snd (hm_node q i)) @ concat (map (roq_ops q) (map (fst \<circ> hm_node q) is))"
    using IH unfolding nodes by (simp only:)
  then show ?case using IH front by (simp add: comp_def)
qed

lemma roq_get_all_ok:
  assumes "roq_ok q" "roq_get_all q ops = (q1, ops1)"
  shows "roq_ok q1 \<and> roq_empty q1 \<and> roq_ops q1 = (\<lambda>_. []) \<and>
    (\<exists>ds. distinct ds \<and> set ds = {d. roq_ops q d \<noteq> []} \<and> ops1 = ops @ concat (map (roq_ops q) ds))"
proof -
  let ?ds = "map (fst \<circ> hm_node q) (hm_values q)"
  note ok = roq_okD(1) [OF assms(1)]
  have r: "roq_ok q1" "hm_values q1 = []" "hm_map q1 = Map.empty" "ops1 = ops @ concat (map (roq_ops q) ?ds)"
    using roq_get_all_loop_ok [OF assms(1) refl assms(2) [unfolded roq_get_all_def]] by blast+
  have "distinct ?ds" using ok by (simp add: hm_ok_def hm_nodes_ok_def)
  moreover have "set ?ds = dom (hm_map q)" by (auto simp: hm_map_def dom_map_of_conv_image_fst)
  then have "set ?ds = {d. roq_ops q d \<noteq> []}" using roq_ops_Nil [OF assms(1)] by auto
  ultimately show ?thesis
    using r by (intro conjI exI [of _ ?ds]) (simp_all add: roq_empty_def hm_empty_def roq_ops_def fun_eq_iff)
qed

lemma roq_new_ok: "roq_ok roq_new" "roq_ops roq_new = (\<lambda>_. [])"
  using hm_new_ok(1) [of fd_hash mapped_type "\<lambda>_. (0, [])"] hm_new_ok(2) [of "\<lambda>_. (0, []) :: int \<times> reactor_op list"]
  by (simp_all add: roq_ok_def roq_new_def roq_ops_def fun_eq_iff)

lemma roq_has_operation_eq: "roq_ok q \<Longrightarrow> roq_has_operation q d \<longleftrightarrow> roq_ops q d \<noteq> []"
  using rq.find_law rq.found_law roq_okD roq_ops_Nil unfolding roq_has_operation_def
  by (metis not_None_eq option.distinct(1))

lemma roq_empty_eq:
  assumes "roq_ok q"
  shows "roq_empty q \<longleftrightarrow> roq_ops q = (\<lambda>_. [])"
proof -
  have "hm_values q = [] \<longleftrightarrow> hm_map q = Map.empty" by (cases "hm_values q") (auto simp: hm_map_def fun_eq_iff)
  also have "\<dots> \<longleftrightarrow> roq_ops q = (\<lambda>_. [])" using roq_ops_Nil [OF assms] by (simp add: fun_eq_iff)
  finally show ?thesis by (simp add: roq_empty_def hm_empty_def)
qed

text \<open>C25: a \<open>reactor_op_queue\<close> is a queue of operations for each descriptor. Enqueuing appends to one
  queue and says whether it was empty; cancelling empties one queue, or takes out the operations with a
  key, giving them back in order with the error; \<open>get_all_operations\<close> gives everything back once. That
  the copy constructor and the assignment of the map's value type do not copy is never seen, because
  no entry is removed before its queue is empty.\<close>

theorem reactor_op_queue_correct:
  assumes "roq_ok q"
  shows "(\<forall>d op q1 new. roq_enqueue q d op = (q1, new) \<longrightarrow>
      roq_ok q1 \<and> roq_ops q1 = (roq_ops q)(d := roq_ops q d @ [op]) \<and> (new \<longleftrightarrow> roq_ops q d = [])) \<and>
    (\<forall>d ec q1 ops1 r. roq_cancel q d [] ec = (q1, ops1, r) \<longrightarrow>
      roq_ok q1 \<and> roq_ops q1 = (roq_ops q)(d := []) \<and> ops1 = map (with_ec ec) (roq_ops q d)) \<and>
    (\<forall>d key ec q1 ops1 r. roq_cancel_by_key q d [] key ec = (q1, ops1, r) \<longrightarrow>
      roq_ok q1 \<and> roq_ops q1 = (roq_ops q)(d := filter (\<lambda>op. rop_key op \<noteq> key) (roq_ops q d)) \<and>
      ops1 = map (with_ec ec) (filter (\<lambda>op. rop_key op = key) (roq_ops q d)) \<and> (r \<longleftrightarrow> ops1 \<noteq> [])) \<and>
    (\<forall>q1 ops1. roq_get_all q [] = (q1, ops1) \<longrightarrow> roq_ok q1 \<and> roq_empty q1 \<and>
      (\<exists>ds. distinct ds \<and> set ds = {d. roq_ops q d \<noteq> []} \<and> ops1 = concat (map (roq_ops q) ds)))"
proof (intro conjI)
  show "\<forall>d op q1 new. roq_enqueue q d op = (q1, new) \<longrightarrow>
      roq_ok q1 \<and> roq_ops q1 = (roq_ops q)(d := roq_ops q d @ [op]) \<and> (new \<longleftrightarrow> roq_ops q d = [])"
    using roq_enqueue_ok [OF assms] by blast
  show "\<forall>d ec q1 ops1 r. roq_cancel q d [] ec = (q1, ops1, r) \<longrightarrow>
      roq_ok q1 \<and> roq_ops q1 = (roq_ops q)(d := []) \<and> ops1 = map (with_ec ec) (roq_ops q d)"
    using roq_cancel_ok [OF assms, where ops = "[]"] unfolding append_Nil by blast
  show "\<forall>d key ec q1 ops1 r. roq_cancel_by_key q d [] key ec = (q1, ops1, r) \<longrightarrow>
      roq_ok q1 \<and> roq_ops q1 = (roq_ops q)(d := filter (\<lambda>op. rop_key op \<noteq> key) (roq_ops q d)) \<and>
      ops1 = map (with_ec ec) (filter (\<lambda>op. rop_key op = key) (roq_ops q d)) \<and> (r \<longleftrightarrow> ops1 \<noteq> [])"
    using roq_cancel_by_key_ok [OF assms, where ops = "[]"] by (fastforce simp: filter_empty_conv)
  show "\<forall>q1 ops1. roq_get_all q [] = (q1, ops1) \<longrightarrow> roq_ok q1 \<and> roq_empty q1 \<and>
      (\<exists>ds. distinct ds \<and> set ds = {d. roq_ops q d \<noteq> []} \<and> ops1 = concat (map (roq_ops q) ds))"
    using roq_get_all_ok [OF assms, where ops = "[]"] unfolding append_Nil by blast
qed

theorem reactor_op_queue_correct_witness:
  "roq_ops (fst (roq_enqueue roq_new 5 \<lparr>rop_id = 1, rop_ec = Ok_code, rop_key = None, rop_bytes = 0\<rparr>)) 5 =
     [\<lparr>rop_id = 1, rop_ec = Ok_code, rop_key = None, rop_bytes = 0\<rparr>]"
proof -
  obtain q1 new where "roq_enqueue roq_new 5 \<lparr>rop_id = 1, rop_ec = Ok_code, rop_key = None, rop_bytes = 0\<rparr> = (q1, new)"
    by (metis surj_pair)
  then show ?thesis using reactor_op_queue_correct [OF roq_new_ok(1)] by (simp add: roq_new_ok(2))
qed

end
