(* ===== verification/SelectReactor.thy ===== *)
theory SelectReactor
  imports ReactorOpQueue
begin

text \<open>
  The reactor of systems without epoll, kqueue or \<open>/dev/poll\<close>: \<open>detail/select_reactor.hpp\<close>,
  \<open>detail/impl/select_reactor.{hpp,ipp}\<close> and the descriptor sets of
  \<open>detail/posix_fd_set_adapter.hpp\<close>, for a POSIX build without I/O completion ports. A member
  function is one transition under the mutex; \<open>run\<close>, which unlocks it around \<open>select\<close>, is two. The
  system calls and the \<open>perform\<close> functions of operations are arguments (\<open>select_os\<close>).
\<close>

section \<open>Descriptor sets\<close>

definition FD_SETSIZE :: int where "FD_SETSIZE = 1024"


text \<open>An \<open>fd_set\<close> is the characteristic function of its bits.\<close>

record fd_set_adapter =
  fd_set :: "int \<Rightarrow> bool"
  max_descriptor :: int

definition fsa_new :: fd_set_adapter where
  "fsa_new = \<lparr>fd_set = (\<lambda>_. False), max_descriptor = invalid_socket\<rparr>"

definition fsa_reset :: "fd_set_adapter \<Rightarrow> fd_set_adapter" where
  "fsa_reset a = a\<lparr>fd_set := (\<lambda>_. False)\<rparr>"

definition fsa_set :: "int \<Rightarrow> fd_set_adapter \<Rightarrow> fd_set_adapter \<times> bool" where
  "fsa_set descriptor a =
     (if descriptor < FD_SETSIZE then
        (let a = (if max_descriptor a = invalid_socket \<or> descriptor > max_descriptor a
                  then a\<lparr>max_descriptor := descriptor\<rparr> else a)
         in (a\<lparr>fd_set := (fd_set a)(descriptor := True)\<rparr>, True))
      else (a, False))"

definition fsa_is_set :: "fd_set_adapter \<Rightarrow> int \<Rightarrow> bool" where
  "fsa_is_set a descriptor \<longleftrightarrow> fd_set a descriptor"

text \<open>The loops over the entries of a \<open>reactor_op_queue\<close>; the list is the entries from \<open>i\<close> on.\<close>

fun fsa_set_loop ::
  "fd_set_adapter \<Rightarrow> roq \<Rightarrow> nat list \<Rightarrow> reactor_op list \<Rightarrow> fd_set_adapter \<times> roq \<times> reactor_op list"
where
  "fsa_set_loop a q [] ops = (a, q, ops)"
| "fsa_set_loop a q (i # is) ops =
     (case fsa_set (fst (hm_node q i)) a of
        (a1, True) \<Rightarrow> fsa_set_loop a1 q is ops
      | (a1, False) \<Rightarrow>
          (case roq_cancel_at q (Some i) ops Fd_set_failure of (q1, ops1, _) \<Rightarrow> fsa_set_loop a1 q1 is ops1))"

definition fsa_set_all :: "fd_set_adapter \<Rightarrow> roq \<Rightarrow> reactor_op list \<Rightarrow> fd_set_adapter \<times> roq \<times> reactor_op list" where
  "fsa_set_all a q ops = fsa_set_loop a q (hm_values q) ops"

fun fsa_perform_loop ::
  "(reactor_op \<Rightarrow> 'w \<Rightarrow> perform_status \<times> reactor_op \<times> 'w) \<Rightarrow> fd_set_adapter \<Rightarrow> roq \<Rightarrow> nat list \<Rightarrow> 'w \<Rightarrow>
   reactor_op list \<Rightarrow> roq \<times> 'w \<times> reactor_op list"
where
  "fsa_perform_loop perform a q [] w ops = (q, w, ops)"
| "fsa_perform_loop perform a q (i # is) w ops =
     (if fsa_is_set a (fst (hm_node q i)) then
        (case roq_perform_at perform q (Some i) w ops of (q1, w1, ops1, _) \<Rightarrow>
           fsa_perform_loop perform a q1 is w1 ops1)
      else fsa_perform_loop perform a q is w ops)"

definition fsa_perform ::
  "(reactor_op \<Rightarrow> 'w \<Rightarrow> perform_status \<times> reactor_op \<times> 'w) \<Rightarrow> fd_set_adapter \<Rightarrow> roq \<Rightarrow> 'w \<Rightarrow>
   reactor_op list \<Rightarrow> roq \<times> 'w \<times> reactor_op list"
where
  "fsa_perform perform a q w ops = fsa_perform_loop perform a q (hm_values q) w ops"

section \<open>The reactor\<close>

text \<open>
  \<open>so_select\<close> is given the number of descriptors to look at, the three sets and the timeout in
  seconds and microseconds; it gives \<open>retval\<close> and the sets as the kernel leaves them.
\<close>

record 'w select_os =
  so_perform :: "op_type \<Rightarrow> reactor_op \<Rightarrow> 'w \<Rightarrow> perform_status \<times> reactor_op \<times> 'w"
  so_select :: "int \<Rightarrow> (op_type \<Rightarrow> int \<Rightarrow> bool) \<Rightarrow> int \<times> int \<Rightarrow> 'w \<Rightarrow> int \<times> (op_type \<Rightarrow> int \<Rightarrow> bool) \<times> 'w"
  so_interrupt :: "'w \<Rightarrow> 'w"
  so_reset :: "'w \<Rightarrow> bool \<times> 'w"
  so_recreate :: "'w \<Rightarrow> int \<times> 'w"
  so_now :: "'w \<Rightarrow> int"

record 'w select_reactor =
  sr_world :: 'w
  sr_queue :: "op_type \<Rightarrow> roq"
  sr_fd_sets :: "op_type \<Rightarrow> fd_set_adapter"
  sr_timers :: tq_set
  sr_interrupter_fd :: int
  sr_shutdown :: bool
  sr_calls :: "sched_call list"

definition sr_call :: "sched_call \<Rightarrow> 'w select_reactor \<Rightarrow> 'w select_reactor" where
  "sr_call c s = s\<lparr>sr_calls := sr_calls s @ [c]\<rparr>"

definition sr_interrupt :: "'w select_os \<Rightarrow> 'w select_reactor \<Rightarrow> 'w select_reactor" where
  "sr_interrupt os s = s\<lparr>sr_world := so_interrupt os (sr_world s)\<rparr>"

definition sr_set_queue :: "op_type \<Rightarrow> roq \<Rightarrow> 'w select_reactor \<Rightarrow> 'w select_reactor" where
  "sr_set_queue j q s = s\<lparr>sr_queue := (sr_queue s)(j := q)\<rparr>"

definition sr_new :: "'w \<Rightarrow> tq_set \<Rightarrow> int \<Rightarrow> 'w select_reactor" where
  "sr_new w tqs ifd = \<lparr>sr_world = w, sr_queue = (\<lambda>_. roq_new), sr_fd_sets = (\<lambda>_. fsa_new), sr_timers = tqs,
     sr_interrupter_fd = ifd, sr_shutdown = False, sr_calls = []\<rparr>"

fun sr_get_all :: "op_type list \<Rightarrow> 'w select_reactor \<Rightarrow> reactor_op list \<Rightarrow> 'w select_reactor \<times> reactor_op list" where
  "sr_get_all [] s ops = (s, ops)"
| "sr_get_all (j # js) s ops =
     (case roq_get_all (sr_queue s j) ops of (q, ops1) \<Rightarrow> sr_get_all js (sr_set_queue j q s) ops1)"

definition sr_shutdown_all :: "'w select_reactor \<Rightarrow> 'w select_reactor option" where
  "sr_shutdown_all s =
     (case sr_get_all max_ops (s\<lparr>sr_shutdown := True\<rparr>) [] of (s1, ops) \<Rightarrow>
        (case tq_set_get_all (sr_timers s1) [] of
           None \<Rightarrow> None
         | Some (tqs, waits) \<Rightarrow>
             Some (sr_call (Abandon (map Io_op ops @ map Wait_op waits)) (s1\<lparr>sr_timers := tqs\<rparr>))))"

definition sr_recreate :: "'w select_os \<Rightarrow> 'w select_reactor \<Rightarrow> 'w select_reactor" where
  "sr_recreate os s = (case so_recreate os (sr_world s) of (fd, w) \<Rightarrow> s\<lparr>sr_interrupter_fd := fd, sr_world := w\<rparr>)"

definition sr_notify_fork :: "'w select_os \<Rightarrow> bool \<Rightarrow> 'w select_reactor \<Rightarrow> 'w select_reactor" where
  "sr_notify_fork os fork_child s = (if fork_child then sr_recreate os s else s)"

definition sr_init_task :: "'w select_reactor \<Rightarrow> 'w select_reactor" where
  "sr_init_task s = sr_call Init_task s"

definition sr_register_internal_descriptor ::
  "'w select_os \<Rightarrow> op_type \<Rightarrow> int \<Rightarrow> reactor_op \<Rightarrow> 'w select_reactor \<Rightarrow> int \<times> 'w select_reactor"
where
  "sr_register_internal_descriptor os j descriptor op s =
     (case roq_enqueue (sr_queue s j) descriptor op of (q, _) \<Rightarrow> (0, sr_interrupt os (sr_set_queue j q s)))"

definition sr_start_op ::
  "'w select_os \<Rightarrow> op_type \<Rightarrow> int \<Rightarrow> reactor_op \<Rightarrow> bool \<Rightarrow> 'w select_reactor \<Rightarrow> 'w select_reactor"
where
  "sr_start_op os j descriptor op is_continuation s =
     (if sr_shutdown s then sr_call (Post_immediate (Io_op op) is_continuation) s
      else
        (case roq_enqueue (sr_queue s j) descriptor op of (q, first_op) \<Rightarrow>
           (let s1 = sr_call Work_started (sr_set_queue j q s)
            in if first_op then sr_interrupt os s1 else s1)))"

fun sr_cancel_loop ::
  "op_type list \<Rightarrow> int \<Rightarrow> error_code \<Rightarrow> 'w select_reactor \<Rightarrow> reactor_op list \<Rightarrow> bool \<Rightarrow>
   'w select_reactor \<times> reactor_op list \<times> bool"
where
  "sr_cancel_loop [] descriptor ec s ops need_interrupt = (s, ops, need_interrupt)"
| "sr_cancel_loop (j # js) descriptor ec s ops need_interrupt =
     (case roq_cancel (sr_queue s j) descriptor ops ec of (q, ops1, r) \<Rightarrow>
        sr_cancel_loop js descriptor ec (sr_set_queue j q s) ops1 (r \<or> need_interrupt))"

definition sr_cancel_ops_unlocked ::
  "'w select_os \<Rightarrow> int \<Rightarrow> error_code \<Rightarrow> 'w select_reactor \<Rightarrow> 'w select_reactor"
where
  "sr_cancel_ops_unlocked os descriptor ec s =
     (case sr_cancel_loop max_ops descriptor ec s [] False of (s1, ops, need_interrupt) \<Rightarrow>
        (let s2 = sr_call (Post_deferred (map Io_op ops)) s1
         in if need_interrupt then sr_interrupt os s2 else s2))"

definition sr_cancel_ops :: "'w select_os \<Rightarrow> int \<Rightarrow> 'w select_reactor \<Rightarrow> 'w select_reactor" where
  "sr_cancel_ops os descriptor s = sr_cancel_ops_unlocked os descriptor Operation_aborted s"

definition sr_cancel_ops_by_key ::
  "'w select_os \<Rightarrow> int \<Rightarrow> op_type \<Rightarrow> nat option \<Rightarrow> 'w select_reactor \<Rightarrow> 'w select_reactor"
where
  "sr_cancel_ops_by_key os descriptor j key s =
     (case roq_cancel_by_key (sr_queue s j) descriptor [] key Operation_aborted of (q, ops, need_interrupt) \<Rightarrow>
        (let s1 = sr_call (Post_deferred (map Io_op ops)) (sr_set_queue j q s)
         in if need_interrupt then sr_interrupt os s1 else s1))"

definition sr_deregister_descriptor :: "'w select_os \<Rightarrow> int \<Rightarrow> 'w select_reactor \<Rightarrow> 'w select_reactor" where
  "sr_deregister_descriptor os descriptor s = sr_cancel_ops_unlocked os descriptor Operation_aborted s"

text \<open>The operations of an internal descriptor are destroyed with the local queue.\<close>

definition sr_deregister_internal_descriptor :: "int \<Rightarrow> 'w select_reactor \<Rightarrow> 'w select_reactor" where
  "sr_deregister_internal_descriptor descriptor s =
     fst (sr_cancel_loop max_ops descriptor Operation_aborted s [] False)"

section \<open>The event loop\<close>

definition sr_get_timeout :: "nat \<Rightarrow> nat \<Rightarrow> 'w select_os \<Rightarrow> int \<Rightarrow> 'w select_reactor \<Rightarrow> (int \<times> int) option" where
  "sr_get_timeout pnum pden os usec s =
     (let max_usec = 5 * 60 * 1000 * 1000
      in map_option (\<lambda>usec. (usec div 1000000, usec mod 1000000))
           (tq_set_wait_usec pnum pden (so_now os (sr_world s)) (sr_timers s)
             (if usec < 0 \<or> max_usec < usec then max_usec else usec)))"

text \<open>The loop that fills the sets: \<open>have_work_to_do\<close> and \<open>max_fd\<close> are carried along.\<close>

fun sr_fill_loop ::
  "op_type list \<Rightarrow> 'w select_reactor \<Rightarrow> reactor_op list \<Rightarrow> bool \<Rightarrow> int \<Rightarrow>
   'w select_reactor \<times> reactor_op list \<times> bool \<times> int"
where
  "sr_fill_loop [] s ops have_work_to_do max_fd = (s, ops, have_work_to_do, max_fd)"
| "sr_fill_loop (j # js) s ops have_work_to_do max_fd =
     (let have_work_to_do = have_work_to_do \<or> \<not> roq_empty (sr_queue s j)
      in case fsa_set_all (sr_fd_sets s j) (sr_queue s j) ops of (a, q, ops1) \<Rightarrow>
           sr_fill_loop js ((sr_set_queue j q s)\<lparr>sr_fd_sets := (sr_fd_sets s)(j := a)\<rparr>) ops1 have_work_to_do
             (if max_descriptor a > max_fd then max_descriptor a else max_fd))"

text \<open>
  Up to the call of \<open>select\<close>: the state, the operations taken out so far and, unless \<open>run\<close> returns,
  the arguments of \<open>select\<close>.
\<close>

definition sr_run_before ::
  "nat \<Rightarrow> nat \<Rightarrow> 'w select_os \<Rightarrow> int \<Rightarrow> 'w select_reactor \<Rightarrow>
   ('w select_reactor \<times> reactor_op list \<times> (int \<times> int \<times> int) option) option"
where
  "sr_run_before pnum pden os usec s =
     (let sets = (\<lambda>j. fsa_reset (sr_fd_sets s j));
          sets = sets(Read_op := fst (fsa_set (sr_interrupter_fd s) (sets Read_op)))
      in case tq_set_all_empty (sr_timers s) of
           None \<Rightarrow> None
         | Some timers_empty \<Rightarrow>
             (case sr_fill_loop max_ops (s\<lparr>sr_fd_sets := sets\<rparr>) [] (\<not> timers_empty) 0 of
                (s1, ops, have_work_to_do, max_fd) \<Rightarrow>
                  if usec = 0 \<and> \<not> have_work_to_do then Some (s1, ops, None)
                  else if usec \<noteq> 0 then
                    (case sr_get_timeout pnum pden os usec s1 of
                       None \<Rightarrow> None
                     | Some (sec, us) \<Rightarrow> Some (s1, ops, Some (max_fd + 1, sec, us)))
                  else Some (s1, ops, Some (max_fd + 1, 0, 0))))"

fun sr_perform_loop ::
  "'w select_os \<Rightarrow> op_type list \<Rightarrow> 'w select_reactor \<Rightarrow> reactor_op list \<Rightarrow> 'w select_reactor \<times> reactor_op list"
where
  "sr_perform_loop os [] s ops = (s, ops)"
| "sr_perform_loop os (j # js) s ops =
     (case fsa_perform (so_perform os j) (sr_fd_sets s j) (sr_queue s j) (sr_world s) ops of (q, w, ops1) \<Rightarrow>
        sr_perform_loop os js ((sr_set_queue j q s)\<lparr>sr_world := w\<rparr>) ops1)"

text \<open>What follows \<open>select\<close>, with its results. The last loop goes through the sets backwards.\<close>

definition sr_run_after ::
  "'w select_os \<Rightarrow> int \<Rightarrow> (op_type \<Rightarrow> int \<Rightarrow> bool) \<Rightarrow> reactor_op list \<Rightarrow> 'w select_reactor \<Rightarrow>
   (operation list \<times> 'w select_reactor) option"
where
  "sr_run_after os retval ready ops s0 =
     (let s = s0\<lparr>sr_fd_sets := (\<lambda>j. (sr_fd_sets s0 j)\<lparr>fd_set := ready j\<rparr>)\<rparr>;
          (retval, s) =
            (if retval > 0 \<and> fsa_is_set (sr_fd_sets s Read_op) (sr_interrupter_fd s) then
               (case so_reset os (sr_world s) of (ok, w) \<Rightarrow>
                  (retval - 1, if ok then s\<lparr>sr_world := w\<rparr> else sr_recreate os (s\<lparr>sr_world := w\<rparr>)))
             else (retval, s));
          (s, ops) = (if retval > 0 then sr_perform_loop os (rev max_ops) s ops else (s, ops))
      in case tq_set_get_ready (so_now os (sr_world s)) (sr_timers s) [] of
           None \<Rightarrow> None
         | Some (tqs, waits) \<Rightarrow> Some (map Io_op ops @ map Wait_op waits, s\<lparr>sr_timers := tqs\<rparr>))"

text \<open>\<open>run\<close> when nothing else happens during the call of \<open>select\<close>.\<close>

definition sr_run ::
  "nat \<Rightarrow> nat \<Rightarrow> 'w select_os \<Rightarrow> int \<Rightarrow> 'w select_reactor \<Rightarrow> (operation list \<times> 'w select_reactor) option"
where
  "sr_run pnum pden os usec s =
     (case sr_run_before pnum pden os usec s of
        None \<Rightarrow> None
      | Some (s1, ops, None) \<Rightarrow> Some (map Io_op ops, s1)
      | Some (s1, ops, Some (nfds, tv)) \<Rightarrow>
          (case so_select os nfds (\<lambda>j. fd_set (sr_fd_sets s1 j)) tv (sr_world s1) of (retval, ready, w) \<Rightarrow>
             sr_run_after os retval ready ops (s1\<lparr>sr_world := w\<rparr>)))"

section \<open>Timers\<close>

definition sr_set_timer_queue :: "qid \<Rightarrow> int timer_queue \<Rightarrow> 'w select_reactor \<Rightarrow> 'w select_reactor" where
  "sr_set_timer_queue q tq s =
     s\<lparr>sr_timers := (sr_timers s)\<lparr>queue_at := (queue_at (sr_timers s))(q := tq)\<rparr>\<rparr>"

definition sr_add_timer_queue :: "qid \<Rightarrow> 'w select_reactor \<Rightarrow> 'w select_reactor" where
  "sr_add_timer_queue q s = s\<lparr>sr_timers := tq_set_insert q (sr_timers s)\<rparr>"

definition sr_remove_timer_queue :: "qid \<Rightarrow> 'w select_reactor \<Rightarrow> 'w select_reactor option" where
  "sr_remove_timer_queue q s = map_option (\<lambda>tqs. s\<lparr>sr_timers := tqs\<rparr>) (tq_set_erase q (sr_timers s))"

definition sr_schedule_timer ::
  "'w select_os \<Rightarrow> qid \<Rightarrow> int \<Rightarrow> tid \<Rightarrow> wait_op \<Rightarrow> 'w select_reactor \<Rightarrow> 'w select_reactor"
where
  "sr_schedule_timer os q time timer op s =
     (if sr_shutdown s then sr_call (Post_immediate (Wait_op op) False) s
      else (case enqueue_timer (\<lambda>_. False) time timer op (queue_at (sr_timers s) q) of (tq, earliest) \<Rightarrow>
              (let s1 = sr_call Work_started (sr_set_timer_queue q tq s)
               in if earliest then sr_interrupt os s1 else s1)))"

definition sr_cancel_timer :: "qid \<Rightarrow> tid \<Rightarrow> nat \<Rightarrow> 'w select_reactor \<Rightarrow> nat \<times> 'w select_reactor" where
  "sr_cancel_timer q timer max_cancelled s =
     (case cancel_timer timer [] max_cancelled (queue_at (sr_timers s) q) of (tq, ops, n) \<Rightarrow>
        (n, sr_call (Post_deferred (map Wait_op ops)) (sr_set_timer_queue q tq s)))"

definition sr_cancel_timer_by_key :: "qid \<Rightarrow> tid \<Rightarrow> nat option \<Rightarrow> 'w select_reactor \<Rightarrow> 'w select_reactor" where
  "sr_cancel_timer_by_key q timer key s =
     (case cancel_timer_by_key timer [] key (queue_at (sr_timers s) q) of (tq, ops) \<Rightarrow>
        sr_call (Post_deferred (map Wait_op ops)) (sr_set_timer_queue q tq s))"

definition sr_move_timer :: "qid \<Rightarrow> tid \<Rightarrow> tid \<Rightarrow> 'w select_reactor \<Rightarrow> 'w select_reactor" where
  "sr_move_timer q target source s =
     (case cancel_timer target [] size_max (queue_at (sr_timers s) q) of (tq, ops, _) \<Rightarrow>
        sr_call (Post_deferred (map Wait_op ops)) (sr_set_timer_queue q (move_timer target source tq) s))"

end
