(* ===== verification/SelectProps.thy ===== *)
theory SelectProps
  imports SelectReactor
begin

text \<open>
  Properties of the select reactor: what a round of \<open>run\<close> watches and performs, and that every
  operation started is in a queue or has been handed on, whatever its clients and \<open>run\<close> do.
\<close>

section \<open>The operations in a queue\<close>

definition op_ids :: "reactor_op list \<Rightarrow> nat multiset" where
  "op_ids ops = mset (map rop_id ops)"

lemma op_ids_simps [simp]:
  "op_ids [] = {#}" "op_ids (op # ops) = add_mset (rop_id op) (op_ids ops)" "op_ids (xs @ ys) = op_ids xs + op_ids ys"
  by (simp_all add: op_ids_def)

lemma op_ids_with_ec [simp]: "op_ids (map (with_ec ec) ops) = op_ids ops"
  by (simp add: op_ids_def with_ec_def comp_def)

lemma op_ids_filter: "op_ids (filter P ops) + op_ids (filter (\<lambda>op. \<not> P op) ops) = op_ids ops"
  by (induction ops) auto

definition support :: "(int \<Rightarrow> reactor_op list) \<Rightarrow> int set" where
  "support f = {d. f d \<noteq> []}"

definition queued :: "(int \<Rightarrow> reactor_op list) \<Rightarrow> nat multiset" where
  "queued f = (\<Sum>d \<in> support f. op_ids (f d))"

lemma queued_over:
  assumes "finite D" "support f \<subseteq> D"
  shows "queued f = (\<Sum>d \<in> D. op_ids (f d))"
  unfolding queued_def using assms by (intro sum.mono_neutral_left) (auto simp: support_def)

lemma queued_upd:
  assumes "finite (support f)"
  shows "queued (f(d := l)) + op_ids (f d) = queued f + op_ids l"
proof -
  let ?D = "insert d (support f)"
  have "support (f(d := l)) \<subseteq> ?D" by (auto simp: support_def)
  then have "queued (f(d := l)) = (\<Sum>x \<in> ?D. op_ids ((f(d := l)) x))" using assms by (intro queued_over) auto
  also have "\<dots> = op_ids l + (\<Sum>x \<in> support f - {d}. op_ids (f x))"
    using assms by (simp add: sum.insert_remove)
  finally have "queued (f(d := l)) = op_ids l + (\<Sum>x \<in> support f - {d}. op_ids (f x))" .
  moreover have "queued f = (\<Sum>x \<in> ?D. op_ids (f x))" using assms by (intro queued_over) auto
  then have "queued f = op_ids (f d) + (\<Sum>x \<in> support f - {d}. op_ids (f x))"
    using assms by (simp add: sum.insert_remove)
  ultimately show ?thesis by simp
qed

lemma queued_list:
  assumes "distinct ds" "set ds = support f"
  shows "queued f = op_ids (concat (map f ds))"
proof -
  have "(\<Sum>d \<in> set xs. op_ids (f d)) = op_ids (concat (map f xs))" if "distinct xs" for xs
    using that by (induction xs) simp_all
  then show ?thesis using assms(1) unfolding queued_def assms(2) [symmetric] by blast
qed

lemma roq_support: "roq_ok q \<Longrightarrow> support (roq_ops q) = dom (hm_map q)"
  using roq_ops_Nil by (auto simp: support_def)

lemma finite_roq_support: "roq_ok q \<Longrightarrow> finite (support (roq_ops q))"
  by (simp add: roq_support hm_map_def finite_dom_map_of)

lemma queued_put_back:
  assumes "roq_ok q" "hm_find fd_hash q d = Some i"
  shows "queued (roq_ops (put_back q i rest)) + op_ids (roq_ops q d) = queued (roq_ops q) + op_ids rest"
  using put_back_ok(2) [OF assms] queued_upd [OF finite_roq_support [OF assms(1)]] by simp

section \<open>The loops over the entries\<close>

text \<open>The entries still to be visited: distinct entries of the queue.\<close>

definition entries_of :: "roq \<Rightarrow> nat list \<Rightarrow> bool" where
  "entries_of q is \<longleftrightarrow> roq_ok q \<and> distinct is \<and> set is \<subseteq> set (hm_values q)"

lemma entries_all: "roq_ok q \<Longrightarrow> entries_of q (hm_values q)"
  using rq.distinct_law roq_okD(1) by (simp add: entries_of_def)

lemma entries_find: "entries_of q is \<Longrightarrow> i \<in> set is \<Longrightarrow> hm_find fd_hash q (fst (hm_node q i)) = Some i"
  using rq.order_law roq_okD(1) unfolding entries_of_def by blast

lemma entries_tl: "entries_of q (i # is) \<Longrightarrow> entries_of q is"
  by (simp add: entries_of_def)

lemma entries_put_back:
  assumes "entries_of q (i # is)"
  shows "entries_of (put_back q i rest) is" "j \<in> set is \<Longrightarrow> hm_node (put_back q i rest) j = hm_node q j"
    "j \<in> set is \<Longrightarrow> fst (hm_node q j) \<noteq> fst (hm_node q i)"
proof -
  have found: "hm_find fd_hash q (fst (hm_node q i)) = Some i" using entries_find [OF assms] by simp
  have ok: "roq_ok q" and dist: "i \<notin> set is" "distinct is" and sub: "set is \<subseteq> set (hm_values q)"
    using assms by (auto simp: entries_of_def)
  note store = rq.store_law [OF roq_okD(1) [OF ok] found, of rest] and drained = rq.drained [OF roq_okD(1) [OF ok] found]
  have "set is \<subseteq> set (hm_values (put_back q i rest))"
    using store drained(3) sub dist rq.distinct_law [OF roq_okD(1) [OF ok]] by (auto simp: put_back_def)
  then show "entries_of (put_back q i rest) is"
    using put_back_ok(1) [OF ok found] dist by (simp add: entries_of_def)
  show "hm_node (put_back q i rest) j = hm_node q j" if "j \<in> set is"
  proof -
    have "j \<noteq> i" using that dist by blast
    then show ?thesis using store drained(4) by (simp add: put_back_def)
  qed
  show "fst (hm_node q j) \<noteq> fst (hm_node q i)" if "j \<in> set is"
    using entries_find [OF assms, of j] found that dist by (metis list.set_intros(2) option.inject)
qed

lemma entry_ops: "entries_of q (i # is) \<Longrightarrow> snd (hm_node q i) = roq_ops q (fst (hm_node q i))"
  using entries_find [of q "i # is" i] rq.found_law roq_okD(1) unfolding entries_of_def
  by (fastforce simp: roq_ops_def)

definition keys_of :: "roq \<Rightarrow> nat list \<Rightarrow> int set" where
  "keys_of q is = (\<lambda>i. fst (hm_node q i)) ` set is"

lemma keys_of_simps [simp]: "keys_of q [] = {}" "keys_of q (i # is) = insert (fst (hm_node q i)) (keys_of q is)"
  by (simp_all add: keys_of_def)

lemma keys_all: "roq_ok q \<Longrightarrow> keys_of q (hm_values q) = support (roq_ops q)"
  by (auto simp: keys_of_def roq_support hm_map_def dom_map_of_conv_image_fst)

lemma keys_put_back: "entries_of q (i # is) \<Longrightarrow> keys_of (put_back q i rest) is = keys_of q is"
  unfolding keys_of_def using entries_put_back(2) by (intro image_cong) auto

lemma key_fresh: "entries_of q (i # is) \<Longrightarrow> fst (hm_node q i) \<notin> keys_of q is"
  using entries_put_back(3) unfolding keys_of_def by fastforce

lemma fsa_set_cases:
  obtains (small) a1 where "d < FD_SETSIZE" "fsa_set d a = (a1, True)" "fd_set a1 = (fd_set a)(d := True)"
    "max_descriptor a1 = (if max_descriptor a = invalid_socket \<or> d > max_descriptor a then d else max_descriptor a)"
  | (large) "FD_SETSIZE \<le> d" "fsa_set d a = (a, False)"
proof (cases "d < FD_SETSIZE")
  case True
  then show ?thesis by (intro small [of "fst (fsa_set d a)"]) (auto simp: fsa_set_def Let_def)
next
  case False
  then show ?thesis by (intro large) (auto simp: fsa_set_def)
qed

text \<open>\<open>set\<close> puts every descriptor that fits into the set, and fails the operations of the others.\<close>

lemma fsa_set_loop_ok:
  assumes "fsa_set_loop a q is ops = (a1, q1, ops1)" "entries_of q is"
  shows "roq_ok q1 \<and>
    roq_ops q1 = (\<lambda>d. if d \<in> keys_of q is \<and> FD_SETSIZE \<le> d then [] else roq_ops q d) \<and>
    fd_set a1 = (\<lambda>d. fd_set a d \<or> (d \<in> keys_of q is \<and> d < FD_SETSIZE)) \<and>
    set ops \<subseteq> set ops1 \<and>
    (\<forall>d \<in> keys_of q is. FD_SETSIZE \<le> d \<longrightarrow> set (map (with_ec Fd_set_failure) (roq_ops q d)) \<subseteq> set ops1) \<and>
    op_ids ops1 + queued (roq_ops q1) = op_ids ops + queued (roq_ops q)"
  using assms
proof (induction "is" arbitrary: a q ops)
  case Nil
  then show ?case by (auto simp: entries_of_def)
next
  case (Cons i "is")
  let ?d = "fst (hm_node q i)"
  note fresh = key_fresh [OF Cons.prems(2)]
  show ?case
  proof (cases rule: fsa_set_cases [of ?d a])
    case (small a2)
    then have "fsa_set_loop a2 q is ops = (a1, q1, ops1)" using Cons.prems(1) by simp
    note IH = Cons.IH [OF this entries_tl [OF Cons.prems(2)]]
    then show ?thesis using small by (auto simp: fun_eq_iff)
  next
    case large
    let ?q = "put_back q i []"
    let ?ops = "ops @ map (with_ec Fd_set_failure) (roq_ops q ?d)"
    have "roq_cancel_at q (Some i) ops Fd_set_failure = (?q, ?ops, True)"
      by (simp add: roq_at_put_back roq_cancel_loop_eq entry_ops [OF Cons.prems(2)])
    then have "fsa_set_loop a ?q is ?ops = (a1, q1, ops1)" using Cons.prems(1) large by simp
    note IH = Cons.IH [OF this entries_put_back(1) [OF Cons.prems(2)]]
    have found: "hm_find fd_hash q ?d = Some i" using entries_find [OF Cons.prems(2)] by simp
    have ok: "roq_ok q" using Cons.prems(2) by (simp add: entries_of_def)
    note upd = put_back_ok(2) [OF ok found, of "[]"] and cnt = queued_put_back [OF ok found, of "[]"]
    note keys = keys_put_back [OF Cons.prems(2), of "[]"]
    have "op_ids ops1 + queued (roq_ops q1) = op_ids ops + queued (roq_ops q)"
    proof -
      have "op_ids ops1 + queued (roq_ops q1) = op_ids ?ops + queued (roq_ops ?q)" using IH by blast
      then show ?thesis using cnt by (simp add: ac_simps)
    qed
    moreover have "\<forall>d \<in> keys_of q is. roq_ops ?q d = roq_ops q d" using fresh upd by auto
    ultimately show ?thesis using IH large(1) fresh unfolding keys upd by (auto simp: fun_eq_iff)
  qed
qed

text \<open>\<open>perform\<close> leaves the queues of the other descriptors alone.\<close>

lemma fsa_perform_loop_ok:
  assumes id: "\<forall>op w. rop_id (fst (snd (perform op w))) = rop_id op"
  shows "fsa_perform_loop perform a q is w ops = (q1, w1, ops1) \<Longrightarrow> entries_of q is \<Longrightarrow>
    roq_ok q1 \<and> (\<forall>d. \<exists>performed. map rop_id (performed @ roq_ops q1 d) = map rop_id (roq_ops q d) \<and>
      (d \<in> keys_of q is \<and> fsa_is_set a d \<and> set performed \<subseteq> set ops1 \<or> roq_ops q1 d = roq_ops q d)) \<and>
    set ops \<subseteq> set ops1 \<and>
    op_ids ops1 + queued (roq_ops q1) = op_ids ops + queued (roq_ops q)"
proof (induction "is" arbitrary: q w ops)
  case Nil
  then show ?case by (auto simp: entries_of_def intro!: exI [of _ "[]"])
next
  case (Cons i "is")
  let ?d = "fst (hm_node q i)"
  note fresh = key_fresh [OF Cons.prems(2)]
  show ?case
  proof (cases "fsa_is_set a ?d")
    case False
    then have "fsa_perform_loop perform a q is w ops = (q1, w1, ops1)" using Cons.prems(1) by simp
    from Cons.IH [OF this entries_tl [OF Cons.prems(2)]] show ?thesis by auto
  next
    case True
    obtain rest w2 ops2 where loop: "roq_perform_loop perform (roq_ops q ?d) w ops = (rest, w2, ops2)" by (metis prod_cases3)
    let ?q = "put_back q i rest"
    have "fsa_perform_loop perform a ?q is w2 ops2 = (q1, w1, ops1)"
      using Cons.prems(1) True loop by (simp add: roq_at_put_back entry_ops [OF Cons.prems(2)])
    note IH = Cons.IH [OF this entries_put_back(1) [OF Cons.prems(2)]]
    have found: "hm_find fd_hash q ?d = Some i" using entries_find [OF Cons.prems(2)] by simp
    have ok: "roq_ok q" using Cons.prems(2) by (simp add: entries_of_def)
    note upd = put_back_ok(2) [OF ok found, of rest] and cnt = queued_put_back [OF ok found, of rest]
    note keys = keys_put_back [OF Cons.prems(2), of rest]
    obtain performed where p: "ops2 = ops @ performed" "map rop_id (performed @ rest) = map rop_id (roq_ops q ?d)"
      using roq_perform_loop_split [OF id loop] by blast
    have perm: "op_ids (performed @ rest) = op_ids (roq_ops q ?d)" using p(2) by (simp add: op_ids_def)
    have total: "op_ids ops1 + queued (roq_ops q1) = op_ids ops + queued (roq_ops q)"
    proof -
      have "op_ids ops1 + queued (roq_ops q1) = op_ids ops2 + queued (roq_ops ?q)" using IH by blast
      then have "op_ids ops1 + queued (roq_ops q1) + op_ids (roq_ops q ?d) = op_ids ops + queued (roq_ops q) + op_ids (roq_ops q ?d)"
        using cnt perm p(1) by (simp add: ac_simps)
      then show ?thesis by simp
    qed
    have each: "\<exists>performed. map rop_id (performed @ roq_ops q1 d) = map rop_id (roq_ops q d) \<and>
        (d \<in> keys_of q (i # is) \<and> fsa_is_set a d \<and> set performed \<subseteq> set ops1 \<or> roq_ops q1 d = roq_ops q d)" for d
    proof -
      obtain p1 where p1: "map rop_id (p1 @ roq_ops q1 d) = map rop_id (roq_ops ?q d)"
        "d \<in> keys_of ?q is \<and> fsa_is_set a d \<and> set p1 \<subseteq> set ops1 \<or> roq_ops q1 d = roq_ops ?q d" using IH by blast
      show ?thesis
      proof (cases "d = ?d")
        case d: True
        then have "roq_ops q1 d = rest" using p1(2) fresh unfolding keys upd by simp
        moreover have "set performed \<subseteq> set ops1" using IH p(1) by auto
        ultimately show ?thesis using p(2) d True by (intro exI [of _ performed]) simp
      next
        case d: False
        then have "roq_ops ?q d = roq_ops q d" by (simp add: upd)
        then show ?thesis using p1 unfolding keys by (intro exI [of _ p1]) auto
      qed
    qed
    have "set ops \<subseteq> set ops1" using IH p(1) by auto
    with total each IH show ?thesis by blast
  qed
qed

text \<open>The largest descriptor of a set is known, as long as no descriptor is negative.\<close>

definition fsa_ok :: "fd_set_adapter \<Rightarrow> bool" where
  "fsa_ok a \<longleftrightarrow> -1 \<le> max_descriptor a \<and> (\<forall>d. fd_set a d \<longrightarrow> 0 \<le> d \<and> d \<le> max_descriptor a)"

lemma fsa_set_ok: "fsa_ok a \<Longrightarrow> 0 \<le> d \<Longrightarrow> fsa_ok (fst (fsa_set d a))"
  by (cases rule: fsa_set_cases [of d a]) (auto simp: fsa_ok_def invalid_socket_def)

lemma fsa_set_loop_max:
  assumes "fsa_set_loop a q is ops = (a1, q1, ops1)" "entries_of q is" "fsa_ok a" "\<forall>d \<in> keys_of q is. 0 \<le> d"
  shows "fsa_ok a1"
  using assms
proof (induction "is" arbitrary: a q ops)
  case (Cons i "is")
  let ?d = "fst (hm_node q i)"
  have a: "fsa_ok (fst (fsa_set ?d a))" using fsa_set_ok Cons.prems(3,4) by simp
  show ?case
  proof (cases rule: fsa_set_cases [of ?d a])
    case (small a2)
    then show ?thesis using Cons.IH [OF _ entries_tl [OF Cons.prems(2)]] Cons.prems a by simp
  next
    case large
    let ?ops = "ops @ map (with_ec Fd_set_failure) (roq_ops q ?d)"
    have "roq_cancel_at q (Some i) ops Fd_set_failure = (put_back q i [], ?ops, True)"
      by (simp add: roq_at_put_back roq_cancel_loop_eq entry_ops [OF Cons.prems(2)])
    then have "fsa_set_loop a (put_back q i []) is ?ops = (a1, q1, ops1)" using Cons.prems(1) large by simp
    from Cons.IH [OF this entries_put_back(1) [OF Cons.prems(2)] Cons.prems(3)]
    show ?thesis using Cons.prems(4) keys_put_back [OF Cons.prems(2)] by simp
  qed
qed simp

section \<open>What the loops do to the reactor\<close>

definition sr_ok :: "'w select_reactor \<Rightarrow> bool" where
  "sr_ok s \<longleftrightarrow> (\<forall>j. roq_ok (sr_queue s j))"

abbreviation ops_of :: "'w select_reactor \<Rightarrow> op_type \<Rightarrow> int \<Rightarrow> reactor_op list" where
  "ops_of s j \<equiv> roq_ops (sr_queue s j)"

definition pending :: "'w select_reactor \<Rightarrow> nat multiset" where
  "pending s = queued (ops_of s Read_op) + queued (ops_of s Write_op) + queued (ops_of s Except_op)"

lemma sr_set_queue_simps [simp]:
  "sr_queue (sr_set_queue j q s) = (sr_queue s)(j := q)" "sr_world (sr_set_queue j q s) = sr_world s"
  "sr_fd_sets (sr_set_queue j q s) = sr_fd_sets s" "sr_timers (sr_set_queue j q s) = sr_timers s"
  "sr_interrupter_fd (sr_set_queue j q s) = sr_interrupter_fd s" "sr_shutdown (sr_set_queue j q s) = sr_shutdown s"
  "sr_calls (sr_set_queue j q s) = sr_calls s"
  by (simp_all add: sr_set_queue_def)

lemma pending_set_queue: "pending (sr_set_queue j q s) + queued (ops_of s j) = pending s + queued (roq_ops q)"
  by (cases j) (simp_all add: pending_def ac_simps)

lemma mset_exchange:
  fixes x :: "'a multiset"
  assumes "x + y = u + v" "p1 + v = p + y"
  shows "x + p1 = u + p"
proof (rule multiset_eqI)
  fix a
  show "count (x + p1) a = count (u + p) a"
    using arg_cong [OF assms(1), of "\<lambda>m. count m a"] arg_cong [OF assms(2), of "\<lambda>m. count m a"] by simp
qed

lemma pending_cong: "sr_queue s = sr_queue s' \<Longrightarrow> pending s = pending s'"
  by (simp add: pending_def)

lemma sr_ok_set_queue: "sr_ok s \<Longrightarrow> roq_ok q \<Longrightarrow> sr_ok (sr_set_queue j q s)"
  by (simp add: sr_ok_def)

lemma fsa_set_all_ok:
  assumes "fsa_set_all a0 q0 ops = (a, q, ops2)" "roq_ok q0"
  shows "roq_ok q" "roq_ops q = (\<lambda>d. if FD_SETSIZE \<le> d then [] else roq_ops q0 d)"
    "fd_set a = (\<lambda>d. fd_set a0 d \<or> (roq_ops q0 d \<noteq> [] \<and> d < FD_SETSIZE))"
    "set ops \<subseteq> set ops2" "FD_SETSIZE \<le> d \<Longrightarrow> with_ec Fd_set_failure ` set (roq_ops q0 d) \<subseteq> set ops2"
    "op_ids ops2 + queued (roq_ops q) = op_ids ops + queued (roq_ops q0)"
    "fsa_ok a0 \<Longrightarrow> \<forall>d. roq_ops q0 d \<noteq> [] \<longrightarrow> 0 \<le> d \<Longrightarrow> fsa_ok a"
proof -
  note ent = entries_all [OF assms(2)] and loop = assms(1) [unfolded fsa_set_all_def]
  have sup: "d \<in> keys_of q0 (hm_values q0) \<longleftrightarrow> roq_ops q0 d \<noteq> []" for d
    by (simp add: keys_all [OF assms(2)] support_def)
  note st = fsa_set_loop_ok [OF loop ent]
  show "roq_ok q" "set ops \<subseteq> set ops2" "op_ids ops2 + queued (roq_ops q) = op_ids ops + queued (roq_ops q0)"
    using st by blast+
  show "roq_ops q = (\<lambda>d. if FD_SETSIZE \<le> d then [] else roq_ops q0 d)"
    using st unfolding sup by (auto simp: fun_eq_iff)
  show "fd_set a = (\<lambda>d. fd_set a0 d \<or> (roq_ops q0 d \<noteq> [] \<and> d < FD_SETSIZE))"
    using st unfolding sup by (auto simp: fun_eq_iff)
  show "with_ec Fd_set_failure ` set (roq_ops q0 d) \<subseteq> set ops2" if "FD_SETSIZE \<le> d"
  proof (cases "roq_ops q0 d = []")
    case False
    then have "d \<in> keys_of q0 (hm_values q0)" by (simp add: sup)
    then show ?thesis using st that by simp
  qed simp
  show "fsa_ok a" if "fsa_ok a0" "\<forall>d. roq_ops q0 d \<noteq> [] \<longrightarrow> 0 \<le> d"
    using fsa_set_loop_max [OF loop ent that(1)] that(2) sup by blast
qed

text \<open>What one turn of the loop of \<open>run\<close> does to the queue and the set of \<open>j\<close>.\<close>

definition filled :: "'w select_reactor \<Rightarrow> 'w select_reactor \<Rightarrow> reactor_op list \<Rightarrow> int \<Rightarrow> op_type \<Rightarrow> bool" where
  "filled s s1 ops1 mf1 j \<longleftrightarrow> ops_of s1 j = (\<lambda>d. if FD_SETSIZE \<le> d then [] else ops_of s j d) \<and>
     fd_set (sr_fd_sets s1 j) = (\<lambda>d. fd_set (sr_fd_sets s j) d \<or> (ops_of s j d \<noteq> [] \<and> d < FD_SETSIZE)) \<and>
     (\<forall>d. FD_SETSIZE \<le> d \<longrightarrow> with_ec Fd_set_failure ` set (ops_of s j d) \<subseteq> set ops1) \<and>
     max_descriptor (sr_fd_sets s1 j) \<le> mf1 \<and>
     (fsa_ok (sr_fd_sets s j) \<longrightarrow> (\<forall>d. ops_of s j d \<noteq> [] \<longrightarrow> 0 \<le> d) \<longrightarrow> fsa_ok (sr_fd_sets s1 j))"

definition same_rest :: "'w select_reactor \<Rightarrow> 'w select_reactor \<Rightarrow> bool" where
  "same_rest s s1 \<longleftrightarrow> sr_timers s1 = sr_timers s \<and> sr_calls s1 = sr_calls s \<and> sr_shutdown s1 = sr_shutdown s"

lemma filled_cong:
  "filled s s1 ops1 mf1 j \<Longrightarrow> sr_queue s' j = sr_queue s j \<Longrightarrow> sr_fd_sets s' j = sr_fd_sets s j \<Longrightarrow> filled s' s1 ops1 mf1 j"
  unfolding filled_def by (simp only: simp_thms) blast

lemma sr_fill_loop_ok:
  "sr_fill_loop js s ops hw mf = (s1, ops1, hw1, mf1) \<Longrightarrow> sr_ok s \<Longrightarrow> distinct js \<Longrightarrow>
    sr_ok s1 \<and> set ops \<subseteq> set ops1 \<and> mf \<le> mf1 \<and> op_ids ops1 + pending s1 = op_ids ops + pending s \<and>
    same_rest s s1 \<and> sr_world s1 = sr_world s \<and> sr_interrupter_fd s1 = sr_interrupter_fd s \<and>
    (\<forall>j. j \<notin> set js \<longrightarrow> sr_queue s1 j = sr_queue s j \<and> sr_fd_sets s1 j = sr_fd_sets s j) \<and>
    (\<forall>j \<in> set js. filled s s1 ops1 mf1 j)"
proof (induction js arbitrary: s ops hw mf)
  case (Cons j js)
  obtain a q ops2 where set: "fsa_set_all (sr_fd_sets s j) (sr_queue s j) ops = (a, q, ops2)" by (metis prod_cases3)
  let ?s = "(sr_set_queue j q s)\<lparr>sr_fd_sets := (sr_fd_sets s)(j := a)\<rparr>"
  let ?mf = "if max_descriptor a > mf then max_descriptor a else mf"
  have "roq_ok (sr_queue s j)" using Cons.prems(2) by (simp add: sr_ok_def)
  note st = fsa_set_all_ok [OF set this]
  have loop: "sr_fill_loop js ?s ops2 (hw \<or> \<not> roq_empty (sr_queue s j)) ?mf = (s1, ops1, hw1, mf1)"
    using Cons.prems(1) set by (simp add: Let_def)
  have oks: "sr_ok ?s" using Cons.prems(2) st(1) by (simp add: sr_ok_def)
  have nj: "j \<notin> set js" "distinct js" using Cons.prems(3) by simp_all
  note IH = Cons.IH [OF loop oks nj(2)]
  have "pending ?s = pending (sr_set_queue j q s)" by (rule pending_cong) simp
  then have "pending ?s + queued (ops_of s j) = pending s + queued (roq_ops q)"
    using pending_set_queue [of j q s] by simp
  from mset_exchange [OF st(6) this] have cnt: "op_ids ops1 + pending s1 = op_ids ops + pending s" using IH by simp
  have sub: "set ops2 \<subseteq> set ops1" "set ops \<subseteq> set ops1" "mf \<le> mf1" "max_descriptor a \<le> mf1"
    using st(4) IH by (auto split: if_splits)
  have heads: "sr_queue s1 j = q" "sr_fd_sets s1 j = a" using IH nj by simp_all
  have "filled s s1 ops1 mf1 j"
    unfolding filled_def heads
  proof (intro conjI impI allI)
    show "with_ec Fd_set_failure ` set (ops_of s j d) \<subseteq> set ops1" if "FD_SETSIZE \<le> d" for d
      using st(5) [OF that] sub(1) by (rule subset_trans)
  qed (use st(2,3,7) sub(4) in simp_all)
  moreover have "filled s s1 ops1 mf1 k" if "k \<in> set js" for k
  proof (rule filled_cong)
    show "filled ?s s1 ops1 mf1 k" using IH that by blast
  qed (use that nj in auto)
  moreover have "same_rest s s1" using IH by (simp add: same_rest_def)
  moreover have "sr_queue s1 k = sr_queue s k \<and> sr_fd_sets s1 k = sr_fd_sets s k" if "k \<notin> set (j # js)" for k
    using IH that by simp
  ultimately show ?case using IH cnt sub by simp
qed (simp add: same_rest_def)

text \<open>The loop that performs, over the sets that \<open>select\<close> left.\<close>

definition performed_in :: "'w select_reactor \<Rightarrow> 'w select_reactor \<Rightarrow> reactor_op list \<Rightarrow> op_type \<Rightarrow> bool" where
  "performed_in s s1 ops1 j \<longleftrightarrow> (\<forall>d. \<exists>performed.
     map rop_id (performed @ ops_of s1 j d) = map rop_id (ops_of s j d) \<and>
     (fsa_is_set (sr_fd_sets s j) d \<and> set performed \<subseteq> set ops1 \<or> ops_of s1 j d = ops_of s j d))"

definition keeps_ids :: "'w select_os \<Rightarrow> bool" where
  "keeps_ids os \<longleftrightarrow> (\<forall>j op w. rop_id (fst (snd (so_perform os j op w))) = rop_id op)"

lemma performed_in_cong:
  "performed_in s s1 ops1 j \<Longrightarrow> sr_queue s' j = sr_queue s j \<Longrightarrow> sr_fd_sets s' j = sr_fd_sets s j \<Longrightarrow>
    performed_in s' s1 ops1 j"
  unfolding performed_in_def by (simp only: simp_thms)

lemma sr_perform_loop_ok:
  assumes "keeps_ids os"
  shows "sr_perform_loop os js s ops = (s1, ops1) \<Longrightarrow> sr_ok s \<Longrightarrow> distinct js \<Longrightarrow>
    sr_ok s1 \<and> set ops \<subseteq> set ops1 \<and> op_ids ops1 + pending s1 = op_ids ops + pending s \<and>
    same_rest s s1 \<and> sr_fd_sets s1 = sr_fd_sets s \<and>
    (\<forall>j. j \<notin> set js \<longrightarrow> sr_queue s1 j = sr_queue s j) \<and> (\<forall>j \<in> set js. performed_in s s1 ops1 j)"
proof (induction js arbitrary: s ops)
  case (Cons j js)
  obtain q w ops2 where p: "fsa_perform (so_perform os j) (sr_fd_sets s j) (sr_queue s j) (sr_world s) ops = (q, w, ops2)"
    by (metis prod_cases3)
  let ?s = "(sr_set_queue j q s)\<lparr>sr_world := w\<rparr>"
  have ok: "roq_ok (sr_queue s j)" using Cons.prems(2) by (simp add: sr_ok_def)
  have ids: "\<forall>op w. rop_id (fst (snd (so_perform os j op w))) = rop_id op" using assms by (simp add: keeps_ids_def)
  note st = fsa_perform_loop_ok [OF ids p [unfolded fsa_perform_def] entries_all [OF ok]]
  have loop: "sr_perform_loop os js ?s ops2 = (s1, ops1)" using Cons.prems(1) p by simp
  have oks: "sr_ok ?s" using Cons.prems(2) st by (simp add: sr_ok_def)
  have nj: "j \<notin> set js" "distinct js" using Cons.prems(3) by simp_all
  note IH = Cons.IH [OF loop oks nj(2)]
  have "pending ?s = pending (sr_set_queue j q s)" by (rule pending_cong) simp
  then have "pending ?s + queued (ops_of s j) = pending s + queued (roq_ops q)"
    using pending_set_queue [of j q s] by simp
  moreover have "op_ids ops2 + queued (roq_ops q) = op_ids ops + queued (ops_of s j)" using st by blast
  ultimately have "op_ids ops2 + pending ?s = op_ids ops + pending s" using mset_exchange by blast
  then have cnt: "op_ids ops1 + pending s1 = op_ids ops + pending s" using IH by simp
  have head: "sr_queue s1 j = q" using IH nj by simp
  have sub: "set ops2 \<subseteq> set ops1" "set ops \<subseteq> set ops1" using IH st by blast+
  have "performed_in s s1 ops1 j"
    unfolding performed_in_def head
  proof
    fix d
    obtain pf where "map rop_id (pf @ roq_ops q d) = map rop_id (ops_of s j d)"
      "fsa_is_set (sr_fd_sets s j) d \<and> set pf \<subseteq> set ops2 \<or> roq_ops q d = ops_of s j d" using st by blast
    then show "\<exists>pf. map rop_id (pf @ roq_ops q d) = map rop_id (ops_of s j d) \<and>
        (fsa_is_set (sr_fd_sets s j) d \<and> set pf \<subseteq> set ops1 \<or> roq_ops q d = ops_of s j d)"
      using sub(1) by blast
  qed
  moreover have "performed_in s s1 ops1 k" if "k \<in> set js" for k
  proof (rule performed_in_cong)
    show "performed_in ?s s1 ops1 k" using IH that by blast
  qed (use that nj in auto)
  moreover have "same_rest s s1" using IH by (simp add: same_rest_def)
  moreover have "sr_queue s1 k = sr_queue s k" if "k \<notin> set (j # js)" for k using IH that by simp
  ultimately show ?case using IH cnt sub by simp
qed (simp add: same_rest_def)

section \<open>A round of the event loop\<close>

lemma sr_run_before_ok:
  assumes "sr_run_before pnum pden os usec s = Some (s1, ops, next_call)" "sr_ok s"
  shows "sr_ok s1" "op_ids ops + pending s1 = pending s" "same_rest s s1"
    "next_call = Some (nfds, tv) \<Longrightarrow> \<exists>mf. nfds = mf + 1 \<and>
      (\<forall>j. filled (s\<lparr>sr_fd_sets := (\<lambda>j. fsa_reset (sr_fd_sets s j))
          (Read_op := fst (fsa_set (sr_interrupter_fd s) (fsa_reset (sr_fd_sets s Read_op))))\<rparr>) s1 ops mf j)"
proof -
  let ?sets = "(\<lambda>j. fsa_reset (sr_fd_sets s j))
    (Read_op := fst (fsa_set (sr_interrupter_fd s) (fsa_reset (sr_fd_sets s Read_op))))"
  let ?s = "s\<lparr>sr_fd_sets := ?sets\<rparr>"
  obtain empty where e: "tq_set_all_empty (sr_timers s) = Some empty"
    using assms(1) by (auto simp: sr_run_before_def Let_def split: option.splits)
  obtain s2 ops2 hw mf where loop: "sr_fill_loop max_ops ?s [] (\<not> empty) 0 = (s2, ops2, hw, mf)" by (metis prod_cases4)
  have "sr_ok ?s" using assms(2) by (simp add: sr_ok_def)
  note fl = sr_fill_loop_ok [OF loop this]
  have all: "distinct max_ops" "j \<in> set max_ops" for j by (cases j; simp add: max_ops_def)+
  have eqs: "s1 = s2" "ops = ops2" "next_call = Some (nfds, tv) \<Longrightarrow> nfds = mf + 1" for nfds tv
    using assms(1) e loop by (auto simp: sr_run_before_def Let_def split: if_splits option.splits)
  have "pending ?s = pending s" by (rule pending_cong) simp
  then show "sr_ok s1" "op_ids ops + pending s1 = pending s" "same_rest s s1"
    using fl all(1) eqs(1,2) by (simp_all add: same_rest_def)
  show "\<exists>mf. nfds = mf + 1 \<and> (\<forall>j. filled ?s s1 ops mf j)" if "next_call = Some (nfds, tv)"
    using fl all eqs that by blast
qed

text \<open>what the select reactor watches. When \<open>run\<close> calls \<open>select\<close>, the interrupter and every
  descriptor with waiting operations that fits an \<open>fd_set\<close> is in the set of its kind of operation and
  below the number of descriptors to look at, and no other descriptor is in a set. The operations
  of a descriptor that does not fit have been taken out of the queue with \<open>fd_set_failure\<close>.\<close>

theorem select_watches:
  assumes "sr_run_before pnum pden os usec s = Some (s1, ops, Some (nfds, tv))" "sr_ok s"
    and "0 \<le> sr_interrupter_fd s" "sr_interrupter_fd s < FD_SETSIZE"
    and "\<forall>j. -1 \<le> max_descriptor (sr_fd_sets s j)" "\<forall>j d. ops_of s j d \<noteq> [] \<longrightarrow> 0 \<le> d"
  shows "\<forall>j d. (fd_set (sr_fd_sets s1 j) d \<longleftrightarrow>
        (j = Read_op \<and> d = sr_interrupter_fd s) \<or> (ops_of s j d \<noteq> [] \<and> d < FD_SETSIZE)) \<and>
      (fd_set (sr_fd_sets s1 j) d \<longrightarrow> d < nfds) \<and>
      (if d < FD_SETSIZE then ops_of s1 j d = ops_of s j d
       else ops_of s1 j d = [] \<and> with_ec Fd_set_failure ` set (ops_of s j d) \<subseteq> set ops)"
proof (intro allI conjI)
  fix j d
  let ?sets = "(\<lambda>j. fsa_reset (sr_fd_sets s j))
    (Read_op := fst (fsa_set (sr_interrupter_fd s) (fsa_reset (sr_fd_sets s Read_op))))"
  obtain mf where mf: "nfds = mf + 1" "filled (s\<lparr>sr_fd_sets := ?sets\<rparr>) s1 ops mf j"
    using sr_run_before_ok(4) [OF assms(1,2) refl] by blast
  have reset: "fsa_ok (fsa_reset (sr_fd_sets s k))" for k using assms(5) by (simp add: fsa_reset_def fsa_ok_def)
  have intr: "fsa_ok (?sets j)" using reset fsa_set_ok assms(3) by simp
  have start: "fd_set (?sets j) d \<longleftrightarrow> j = Read_op \<and> d = sr_interrupter_fd s"
    using assms(4) by (auto simp: fsa_set_def fsa_reset_def Let_def)
  show set: "fd_set (sr_fd_sets s1 j) d \<longleftrightarrow>
        (j = Read_op \<and> d = sr_interrupter_fd s) \<or> (ops_of s j d \<noteq> [] \<and> d < FD_SETSIZE)"
    using mf(2) start by (simp add: filled_def)
  have "fsa_ok (sr_fd_sets s1 j)" "max_descriptor (sr_fd_sets s1 j) \<le> mf"
    using mf(2) intr assms(6) by (simp_all add: filled_def)
  then show "fd_set (sr_fd_sets s1 j) d \<longrightarrow> d < nfds" using mf(1) by (force simp: fsa_ok_def)
  show "if d < FD_SETSIZE then ops_of s1 j d = ops_of s j d
      else ops_of s1 j d = [] \<and> with_ec Fd_set_failure ` set (ops_of s j d) \<subseteq> set ops"
    using mf(2) by (simp add: filled_def)
qed

lemma sr_run_after_ok:
  assumes "sr_run_after os retval ready ops s = Some (result, s1)" "sr_ok s" "keeps_ids os"
  shows "\<exists>ops1 waits. result = map Io_op ops1 @ map Wait_op waits \<and> sr_ok s1 \<and>
    op_ids ops1 + pending s1 = op_ids ops + pending s \<and> sr_calls s1 = sr_calls s \<and> sr_shutdown s1 = sr_shutdown s"
proof -
  define s2 where "s2 = s\<lparr>sr_fd_sets := (\<lambda>j. (sr_fd_sets s j)\<lparr>fd_set := ready j\<rparr>)\<rparr>"
  define rs where "rs = (if retval > 0 \<and> fsa_is_set (sr_fd_sets s2 Read_op) (sr_interrupter_fd s2) then
    (case so_reset os (sr_world s2) of (ok, w) \<Rightarrow>
       (retval - 1, if ok then s2\<lparr>sr_world := w\<rparr> else sr_recreate os (s2\<lparr>sr_world := w\<rparr>))) else (retval, s2))"
  obtain r s3 where r: "rs = (r, s3)" by (cases rs)
  define so where "so = (if r > 0 then sr_perform_loop os (rev max_ops) s3 ops else (s3, ops))"
  obtain s4 ops1 where so: "so = (s4, ops1)" by (cases so)
  obtain waits tqs where res: "result = map Io_op ops1 @ map Wait_op waits" "s1 = s4\<lparr>sr_timers := tqs\<rparr>"
    using assms(1) r so unfolding sr_run_after_def Let_def s2_def [symmetric] rs_def [symmetric]
    by (auto simp: so_def split: option.splits if_splits)
  have s3: "sr_queue s3 = sr_queue s" "sr_calls s3 = sr_calls s" "sr_shutdown s3 = sr_shutdown s"
    using r by (auto simp: rs_def s2_def sr_recreate_def split: if_splits prod.splits)
  then have ok3: "sr_ok s3" using assms(2) by (simp add: sr_ok_def)
  have "distinct (rev max_ops)" by (simp add: max_ops_def)
  note pl = sr_perform_loop_ok [OF assms(3) _ ok3 this, of ops s4 ops1]
  have "sr_ok s4 \<and> op_ids ops1 + pending s4 = op_ids ops + pending s3 \<and> sr_calls s4 = sr_calls s3 \<and> sr_shutdown s4 = sr_shutdown s3"
    using so pl ok3 by (auto simp: so_def same_rest_def split: if_splits)
  moreover have "pending s1 = pending s4" "pending s3 = pending s" using res(2) s3(1) by (auto intro!: pending_cong)
  moreover have "sr_ok s1 = sr_ok s4" using res(2) by (simp add: sr_ok_def)
  ultimately show ?thesis using res s3 by auto
qed

section \<open>Every operation is accounted for\<close>

fun io_id :: "operation \<Rightarrow> nat multiset" where
  "io_id (Io_op op) = {#rop_id op#}"
| "io_id _ = {#}"

definition io_ids :: "operation list \<Rightarrow> nat multiset" where
  "io_ids l = sum_list (map io_id l)"

fun call_ids :: "sched_call \<Rightarrow> nat multiset" where
  "call_ids (Post_immediate op _) = io_id op"
| "call_ids (Post_deferred l) = io_ids l"
| "call_ids (Abandon l) = io_ids l"
| "call_ids _ = {#}"

definition handed :: "'w select_reactor \<Rightarrow> nat multiset" where
  "handed s = sum_list (map call_ids (sr_calls s))"

lemma io_ids_Nil [simp]: "io_ids [] = {#}"
  by (simp add: io_ids_def)

lemma io_ids_simps [simp]: "io_ids (xs @ ys) = io_ids xs + io_ids ys" "io_ids (map Io_op ops) = op_ids ops"
  "io_ids (map Wait_op ws) = {#}"
  by (simp add: io_ids_def, induction ops) (simp_all add: io_ids_def comp_def)

text \<open>
  The reactor with its clients: \<open>sel_run\<close> is what the thread inside \<open>select\<close> has taken out so far; the
  ghost fields are the operations started and those \<open>run\<close> has returned. Between the two parts of
  \<open>run\<close> the clients go on; \<open>select\<close> may report anything.
\<close>

record 'w selecting =
  sel_rx :: "'w select_reactor"
  sel_run :: "reactor_op list option"
  sel_started :: "nat multiset"
  sel_returned :: "nat multiset"

inductive sel_step :: "nat \<Rightarrow> nat \<Rightarrow> 'w select_os \<Rightarrow> 'w selecting \<Rightarrow> 'w selecting \<Rightarrow> bool"
for pnum pden os where
  start_op: "sel_step pnum pden os st (st\<lparr>sel_rx := sr_start_op os j d op cont (sel_rx st),
      sel_started := add_mset (rop_id op) (sel_started st)\<rparr>)"
| cancel: "sel_step pnum pden os st (st\<lparr>sel_rx := sr_cancel_ops os d (sel_rx st)\<rparr>)"
| cancel_by_key: "sel_step pnum pden os st (st\<lparr>sel_rx := sr_cancel_ops_by_key os d j key (sel_rx st)\<rparr>)"
| deregister: "sel_step pnum pden os st (st\<lparr>sel_rx := sr_deregister_descriptor os d (sel_rx st)\<rparr>)"
| timer: "sel_step pnum pden os st (st\<lparr>sel_rx := sr_schedule_timer os q t tm wop (sel_rx st)\<rparr>)"
| cancel_timer: "sel_step pnum pden os st (st\<lparr>sel_rx := snd (sr_cancel_timer q tm n (sel_rx st))\<rparr>)"
| run_returns: "sel_run st = None \<Longrightarrow> sr_run_before pnum pden os usec (sel_rx st) = Some (s1, ops, None) \<Longrightarrow>
    sel_step pnum pden os st (st\<lparr>sel_rx := s1, sel_returned := sel_returned st + op_ids ops\<rparr>)"
| run_selects: "sel_run st = None \<Longrightarrow> sr_run_before pnum pden os usec (sel_rx st) = Some (s1, ops, Some next_call) \<Longrightarrow>
    sel_step pnum pden os st (st\<lparr>sel_rx := s1, sel_run := Some ops\<rparr>)"
| run_finishes: "sel_run st = Some ops \<Longrightarrow>
    sr_run_after os retval ready ops ((sel_rx st)\<lparr>sr_world := w\<rparr>) = Some (result, s1) \<Longrightarrow>
    sel_step pnum pden os st (st\<lparr>sel_rx := s1, sel_run := None, sel_returned := sel_returned st + io_ids result\<rparr>)"
| shutdown: "sr_shutdown_all (sel_rx st) = Some s1 \<Longrightarrow> sel_step pnum pden os st (st\<lparr>sel_rx := s1\<rparr>)"

inductive sel_reach :: "nat \<Rightarrow> nat \<Rightarrow> 'w select_os \<Rightarrow> 'w selecting \<Rightarrow> bool" for pnum pden os where
  initial: "sel_reach pnum pden os
    \<lparr>sel_rx = sr_new w tqs ifd, sel_run = None, sel_started = {#}, sel_returned = {#}\<rparr>"
| further: "sel_reach pnum pden os st \<Longrightarrow> sel_step pnum pden os st st' \<Longrightarrow> sel_reach pnum pden os st'"

inductive_cases sel_stepE: "sel_step pnum pden os st st'"

definition taken :: "'w selecting \<Rightarrow> nat multiset" where
  "taken st = (case sel_run st of None \<Rightarrow> {#} | Some ops \<Rightarrow> op_ids ops)"

definition sel_inv :: "'w selecting \<Rightarrow> bool" where
  "sel_inv st \<longleftrightarrow> sr_ok (sel_rx st) \<and>
     sel_started st = pending (sel_rx st) + handed (sel_rx st) + taken st + sel_returned st"

text \<open>What a client does keeps the queues in order and hands on what it takes out of them.\<close>

definition balanced :: "'w select_reactor \<Rightarrow> 'w select_reactor \<Rightarrow> nat multiset \<Rightarrow> bool" where
  "balanced s s1 added \<longleftrightarrow> sr_ok s1 \<and> pending s1 + handed s1 = pending s + handed s + added"

lemma handed_simps [simp]: "handed (sr_call c s) = handed s + call_ids c" "handed (sr_interrupt os s) = handed s"
  "handed (sr_set_queue j q s) = handed s" "handed (sr_set_timer_queue tq q' s) = handed s"
  by (simp_all add: handed_def sr_call_def sr_interrupt_def sr_set_timer_queue_def)

lemma pending_simps [simp]: "pending (sr_call c s) = pending s" "pending (sr_interrupt os s) = pending s"
  "pending (sr_set_timer_queue tq q s) = pending s" "sr_ok (sr_call c s) = sr_ok s" "sr_ok (sr_interrupt os s) = sr_ok s"
  "sr_ok (sr_set_timer_queue tq q s) = sr_ok s"
  by (auto simp: sr_call_def sr_interrupt_def sr_set_timer_queue_def sr_ok_def intro!: pending_cong)

lemma sr_queue_simps [simp]: "sr_queue (sr_call c s) = sr_queue s" "sr_queue (sr_interrupt os s) = sr_queue s"
  by (simp_all add: sr_call_def sr_interrupt_def)

lemma sr_cancel_loop_ok:
  "sr_cancel_loop js d ec s ops r = (s1, ops1, r1) \<Longrightarrow> sr_ok s \<Longrightarrow>
    sr_ok s1 \<and> op_ids ops1 + pending s1 = op_ids ops + pending s \<and> handed s1 = handed s"
proof (induction js arbitrary: s ops r)
  case (Cons j js)
  obtain q ops2 r2 where c: "roq_cancel (sr_queue s j) d ops ec = (q, ops2, r2)" by (metis prod_cases3)
  have ok: "roq_ok (sr_queue s j)" using Cons.prems(2) by (simp add: sr_ok_def)
  note cn = roq_cancel_ok [OF ok c]
  let ?s = "sr_set_queue j q s"
  have "sr_cancel_loop js d ec ?s ops2 (r2 \<or> r) = (s1, ops1, r1)" using Cons.prems(1) c by simp
  note IH = Cons.IH [OF this sr_ok_set_queue [OF Cons.prems(2)]]
  have "queued (roq_ops q) + op_ids (ops_of s j d) = queued (ops_of s j)"
    using queued_upd [OF finite_roq_support [OF ok], of d "[]"] cn by simp
  then have "op_ids ops2 + queued (roq_ops q) = op_ids ops + queued (ops_of s j)" using cn by (simp add: ac_simps)
  from mset_exchange [OF this pending_set_queue] show ?case using IH cn by simp
qed simp

lemma sr_client_balanced:
  assumes "sr_ok s"
  shows "balanced s (sr_start_op os j d op cont s) {#rop_id op#}" "balanced s (sr_cancel_ops os d s) {#}"
    "balanced s (sr_deregister_descriptor os d s) {#}" "balanced s (sr_cancel_ops_by_key os d j key s) {#}"
    "balanced s (sr_schedule_timer os q t tm wop s) {#}" "balanced s (snd (sr_cancel_timer q tm n s)) {#}"
proof -
  have ok: "roq_ok (sr_queue s j)" using assms by (simp add: sr_ok_def)
  show "balanced s (sr_start_op os j d op cont s) {#rop_id op#}"
  proof (cases "sr_shutdown s")
    case False
    obtain q fst_op where e: "roq_enqueue (sr_queue s j) d op = (q, fst_op)" by (metis surj_pair)
    note en = roq_enqueue_ok [OF ok e]
    have "queued (roq_ops q) = queued (ops_of s j) + {#rop_id op#}"
      using queued_upd [OF finite_roq_support [OF ok], of d "ops_of s j d @ [op]"] en(2) by simp
    then have "pending (sr_set_queue j q s) = pending s + {#rop_id op#}"
      using pending_set_queue [of j q s] by simp
    then show ?thesis using False e sr_ok_set_queue [OF assms en(1)]
      by (simp add: balanced_def sr_start_op_def Let_def ac_simps)
  qed (use assms in \<open>simp add: balanced_def sr_start_op_def\<close>)
  have cu: "balanced s (sr_cancel_ops_unlocked os d ec s) {#}" for ec
  proof -
    obtain s1 ops r where l: "sr_cancel_loop max_ops d ec s [] False = (s1, ops, r)" by (metis prod_cases3)
    then show ?thesis using sr_cancel_loop_ok [OF l assms]
      by (auto simp: balanced_def sr_cancel_ops_unlocked_def Let_def ac_simps)
  qed
  then show "balanced s (sr_cancel_ops os d s) {#}" "balanced s (sr_deregister_descriptor os d s) {#}"
    by (simp_all add: sr_cancel_ops_def sr_deregister_descriptor_def)
  show "balanced s (sr_cancel_ops_by_key os d j key s) {#}"
  proof -
    obtain q ops r where c: "roq_cancel_by_key (sr_queue s j) d [] key Operation_aborted = (q, ops, r)" by (metis prod_cases3)
    note cn = roq_cancel_by_key_ok [OF ok c]
    let ?keep = "filter (\<lambda>op. rop_key op \<noteq> key) (ops_of s j d)" and ?out = "filter (\<lambda>op. rop_key op = key) (ops_of s j d)"
    have "op_ids ?out + op_ids ?keep = {#} + op_ids (ops_of s j d)"
      unfolding add_0 by (rule op_ids_filter)
    moreover have "queued (roq_ops q) + op_ids (ops_of s j d) = queued (ops_of s j) + op_ids ?keep"
      using queued_upd [OF finite_roq_support [OF ok], of d ?keep] cn by simp
    ultimately have "op_ids ?out + queued (roq_ops q) = {#} + queued (ops_of s j)"
      by (rule mset_exchange)
    then have "op_ids ops + queued (roq_ops q) = op_ids [] + queued (ops_of s j)" using cn by simp
    from mset_exchange [OF this pending_set_queue] have "pending (sr_set_queue j q s) + op_ids ops = pending s"
      by (simp add: ac_simps)
    moreover have "sr_ok (sr_set_queue j q s)" using cn sr_ok_set_queue [OF assms] by blast
    ultimately show ?thesis by (simp add: balanced_def sr_cancel_ops_by_key_def c Let_def ac_simps)
  qed
  show "balanced s (sr_schedule_timer os q t tm wop s) {#}"
    using assms by (auto simp: balanced_def sr_schedule_timer_def Let_def split: prod.splits)
  show "balanced s (snd (sr_cancel_timer q tm n s)) {#}"
    using assms by (auto simp: balanced_def sr_cancel_timer_def split: prod.splits)
qed

lemma sr_get_all_ok:
  "sr_get_all js s ops = (s1, ops1) \<Longrightarrow> sr_ok s \<Longrightarrow>
    sr_ok s1 \<and> op_ids ops1 + pending s1 = op_ids ops + pending s \<and> handed s1 = handed s \<and> sr_calls s1 = sr_calls s"
proof (induction js arbitrary: s ops)
  case (Cons j js)
  obtain q ops2 where g: "roq_get_all (sr_queue s j) ops = (q, ops2)" by (metis surj_pair)
  have ok: "roq_ok (sr_queue s j)" using Cons.prems(2) by (simp add: sr_ok_def)
  obtain ds where ga: "roq_ok q" "roq_ops q = (\<lambda>_. [])" "distinct ds" "set ds = support (ops_of s j)"
    "ops2 = ops @ concat (map (ops_of s j) ds)"
    using roq_get_all_ok [OF ok g] unfolding support_def by blast
  have "queued (roq_ops q) = {#}" by (simp add: ga(2) queued_def)
  then have out: "op_ids ops2 + queued (roq_ops q) = op_ids ops + queued (ops_of s j)"
    using queued_list [OF ga(3,4)] ga(5) by simp
  have "sr_get_all js (sr_set_queue j q s) ops2 = (s1, ops1)" using Cons.prems(1) g by simp
  note IH = Cons.IH [OF this sr_ok_set_queue [OF Cons.prems(2) ga(1)]]
  show ?case using IH mset_exchange [OF out pending_set_queue] by simp
qed simp

lemma sr_shutdown_balanced:
  assumes "sr_ok s" "sr_shutdown_all s = Some s1"
  shows "balanced s s1 {#}"
proof -
  let ?s = "s\<lparr>sr_shutdown := True\<rparr>"
  obtain s2 ops where g: "sr_get_all max_ops ?s [] = (s2, ops)" by (metis surj_pair)
  have eqs: "sr_ok ?s" "pending ?s = pending s" "handed ?s = handed s"
    using assms(1) by (auto simp: sr_ok_def handed_def intro: pending_cong)
  note ga = sr_get_all_ok [OF g eqs(1)]
  obtain tqs waits where s1: "s1 = sr_call (Abandon (map Io_op ops @ map Wait_op waits)) (s2\<lparr>sr_timers := tqs\<rparr>)"
    using assms(2) g by (auto simp: sr_shutdown_all_def split: option.splits)
  have "pending (s2\<lparr>sr_timers := tqs\<rparr>) = pending s2" "handed (s2\<lparr>sr_timers := tqs\<rparr>) = handed s2"
    "sr_ok (s2\<lparr>sr_timers := tqs\<rparr>) = sr_ok s2"
    by (auto simp: sr_ok_def handed_def intro: pending_cong)
  then show ?thesis using ga eqs unfolding s1 by (simp add: balanced_def ac_simps)
qed

lemma sel_step_inv:
  assumes "sel_step pnum pden os st st'" "sel_inv st" "keeps_ids os"
  shows "sel_inv st'"
proof -
  have ok: "sr_ok (sel_rx st)" and acc: "sel_started st = pending (sel_rx st) + handed (sel_rx st) + taken st + sel_returned st"
    using assms(2) by (simp_all add: sel_inv_def)
  note cl = sr_client_balanced [OF ok]
  have client: "sel_inv (st\<lparr>sel_rx := s1\<rparr>)" if "balanced (sel_rx st) s1 {#}" for s1
    using that acc by (simp add: sel_inv_def balanced_def taken_def)
  from assms(1) show ?thesis
  proof (cases rule: sel_step.cases)
    case (start_op op j d cont)
    then show ?thesis using cl(1) [of os j d op cont] acc
      by (simp add: sel_inv_def balanced_def taken_def ac_simps)
  next
    case (run_returns usec s1 ops)
    note rb = sr_run_before_ok [OF run_returns(3) ok]
    have "handed s1 = handed (sel_rx st)" using rb(3) by (simp add: same_rest_def handed_def)
    then show ?thesis using rb(1,2) acc unfolding run_returns(1)
      by (simp add: sel_inv_def taken_def run_returns(2) ac_simps)
  next
    case (run_selects usec s1 ops next_call)
    note rb = sr_run_before_ok [OF run_selects(3) ok]
    have "handed s1 = handed (sel_rx st)" using rb(3) by (simp add: same_rest_def handed_def)
    then show ?thesis using rb(1,2) acc unfolding run_selects(1)
      by (simp add: sel_inv_def taken_def run_selects(2) ac_simps)
  next
    case (run_finishes ops retval ready w result s1)
    have "sr_ok ((sel_rx st)\<lparr>sr_world := w\<rparr>)" using ok by (simp add: sr_ok_def)
    from sr_run_after_ok [OF run_finishes(3) this assms(3)]
    obtain ops1 waits where ra: "result = map Io_op ops1 @ map Wait_op waits" "sr_ok s1"
      "op_ids ops1 + pending s1 = op_ids ops + pending (sel_rx st)" "sr_calls s1 = sr_calls (sel_rx st)"
      using pending_cong [of "(sel_rx st)\<lparr>sr_world := w\<rparr>" "sel_rx st"] by auto
    have "handed s1 = handed (sel_rx st)" using ra(4) by (simp add: handed_def)
    then show ?thesis using ra acc unfolding run_finishes(1)
      by (simp add: sel_inv_def taken_def run_finishes(2) ac_simps)
  next
    case (shutdown s1)
    then show ?thesis using client sr_shutdown_balanced [OF ok] by simp
  qed (use client cl in simp_all)
qed

lemma sel_reach_inv:
  assumes "keeps_ids os" "sel_reach pnum pden os st"
  shows "sel_inv st"
  using assms(2)
proof (induction rule: sel_reach.induct)
  case (initial w tqs ifd)
  then show ?case using roq_new_ok
    by (simp add: sel_inv_def sr_new_def sr_ok_def pending_def queued_def support_def handed_def taken_def)
next
  case (further st st')
  then show ?case using sel_step_inv assms(1) by blast
qed

text \<open>C26: the select reactor accounts for every operation. Whatever its clients start, cancel and
  deregister, in any order and also while \<open>run\<close> is inside \<open>select\<close>, and whatever \<open>select\<close> reports:
  each operation started is, once, in a queue, or has been handed to the scheduler, or has been taken
  out by the running thread, or has been returned by \<open>run\<close>. Nothing is lost or completed twice.\<close>

theorem select_ops_accounted:
  assumes "keeps_ids os" "sel_reach pnum pden os st"
  shows "sel_started st = pending (sel_rx st) + handed (sel_rx st) + taken st + sel_returned st"
  using sel_reach_inv [OF assms] by (simp add: sel_inv_def)

text \<open>One operation of each of two descriptors is started and that of the first cancelled.\<close>

definition demo_select_os :: "unit select_os" where
  "demo_select_os = \<lparr>so_perform = (\<lambda>j op w. (Perform_done, op, w)), so_select = (\<lambda>n r tv w. (1, r, w)),
     so_interrupt = (\<lambda>w. w), so_reset = (\<lambda>w. (True, w)), so_recreate = (\<lambda>w. (4, w)), so_now = (\<lambda>_. 0)\<rparr>"

definition demo_rop :: "nat \<Rightarrow> reactor_op" where
  "demo_rop n = \<lparr>rop_id = n, rop_ec = Ok_code, rop_key = None, rop_bytes = 0\<rparr>"

definition demo_selecting :: "unit selecting" where
  "demo_selecting =
     (let rx0 = sr_new () (tq_set_new (\<lambda>_. new_timer_queue)) 3;
          rx1 = sr_start_op demo_select_os Read_op 5 (demo_rop 1) False rx0;
          rx2 = sr_start_op demo_select_os Write_op 6 (demo_rop 2) False rx1
      in \<lparr>sel_rx = sr_cancel_ops demo_select_os 5 rx2, sel_run = None, sel_started = {#1, 2#}, sel_returned = {#}\<rparr>)"

lemma demo_selecting_reach: "sel_reach 1 1 demo_select_os demo_selecting"
proof -
  let ?os = demo_select_os
  let ?st = "\<lambda>rx n. \<lparr>sel_rx = rx, sel_run = None, sel_started = n, sel_returned = {#}\<rparr>"
  let ?rx0 = "sr_new () (tq_set_new (\<lambda>_. new_timer_queue)) 3"
  let ?rx1 = "sr_start_op ?os Read_op 5 (demo_rop 1) False ?rx0"
  let ?rx2 = "sr_start_op ?os Write_op 6 (demo_rop 2) False ?rx1"
  have "sel_reach 1 1 ?os (?st ?rx0 {#})" by (rule sel_reach.initial)
  moreover have "sel_step 1 1 ?os (?st ?rx0 {#}) (?st ?rx1 {#1#})"
    using sel_step.start_op [of 1 1 ?os "?st ?rx0 {#}" "demo_rop 1" Read_op 5 False] by (simp add: demo_rop_def)
  moreover have "sel_step 1 1 ?os (?st ?rx1 {#1#}) (?st ?rx2 {#1, 2#})"
    using sel_step.start_op [of 1 1 ?os "?st ?rx1 {#1#}" "demo_rop 2" Write_op 6 False]
    by (simp add: demo_rop_def add_mset_commute)
  moreover have "sel_step 1 1 ?os (?st ?rx2 {#1, 2#}) demo_selecting"
    using sel_step.cancel [of 1 1 ?os "?st ?rx2 {#1, 2#}" 5] by (simp add: demo_selecting_def Let_def)
  ultimately show ?thesis by (meson sel_reach.further)
qed

theorem select_ops_accounted_witness:
  "{#1, 2#} = pending (sel_rx demo_selecting) + handed (sel_rx demo_selecting)"
proof -
  have "keeps_ids demo_select_os" by (simp add: keeps_ids_def demo_select_os_def)
  from select_ops_accounted [OF this demo_selecting_reach] show ?thesis
    by (simp add: demo_selecting_def Let_def taken_def)
qed

text \<open>A reactor with one read waiting on descriptor 5.\<close>

definition demo_reading :: "unit select_reactor" where
  "demo_reading = sr_start_op demo_select_os Read_op 5 (demo_rop 1) False (sr_new () (tq_set_new (\<lambda>_. new_timer_queue)) 3)"

lemma demo_reading_facts:
  "sr_ok demo_reading" "ops_of demo_reading j d = (if j = Read_op \<and> d = 5 then [demo_rop 1] else [])"
  "sr_interrupter_fd demo_reading = 3" "max_descriptor (sr_fd_sets demo_reading j) = -1"
  "sr_timers demo_reading = tq_set_new (\<lambda>_. new_timer_queue)"
proof -
  obtain q fst_op where e: "roq_enqueue roq_new 5 (demo_rop 1) = (q, fst_op)" by (metis surj_pair)
  note en = roq_enqueue_ok [OF roq_new_ok(1) e]
  have d: "demo_reading = sr_call Work_started (sr_set_queue Read_op q (sr_new () (tq_set_new (\<lambda>_. new_timer_queue)) 3))"
    using e en(3) by (simp add: demo_reading_def sr_start_op_def sr_new_def Let_def roq_new_ok sr_interrupt_def demo_select_os_def sr_call_def sr_set_queue_def)
  show "sr_ok demo_reading" using en(1) roq_new_ok by (simp add: d sr_ok_def sr_new_def)
  show "ops_of demo_reading j d = (if j = Read_op \<and> d = 5 then [demo_rop 1] else [])"
    using en(2) roq_new_ok by (simp add: d sr_new_def)
  show "sr_interrupter_fd demo_reading = 3" "max_descriptor (sr_fd_sets demo_reading j) = -1"
    "sr_timers demo_reading = tq_set_new (\<lambda>_. new_timer_queue)"
    by (simp_all add: d sr_new_def sr_call_def fsa_new_def invalid_socket_def)
qed

theorem select_watches_witness:
  "\<exists>s1 ops nfds tv. sr_run_before 1 1 demo_select_os (-1) demo_reading = Some (s1, ops, Some (nfds, tv)) \<and>
     fd_set (sr_fd_sets s1 Read_op) 5 \<and> 5 < nfds"
proof -
  let ?s = "demo_reading\<lparr>sr_fd_sets := (\<lambda>j. fsa_reset (sr_fd_sets demo_reading j))
    (Read_op := fst (fsa_set 3 (fsa_reset (sr_fd_sets demo_reading Read_op))))\<rparr>"
  obtain s1 ops hw mf where loop: "sr_fill_loop max_ops ?s [] False 0 = (s1, ops, hw, mf)" by (metis prod_cases4)
  have "sr_ok ?s" using demo_reading_facts(1) by (simp add: sr_ok_def)
  moreover have "distinct max_ops" by (simp add: max_ops_def)
  ultimately have "same_rest ?s s1" using sr_fill_loop_ok [OF loop] by blast
  then have "sr_timers s1 = tq_set_new (\<lambda>_. new_timer_queue)" by (simp add: same_rest_def demo_reading_facts)
  then obtain tv where "sr_get_timeout 1 1 demo_select_os (-1) s1 = Some tv"
    by (auto simp: sr_get_timeout_def tq_set_wait_usec_def tq_set_new_def wait_loop.simps)
  then have run: "sr_run_before 1 1 demo_select_os (-1) demo_reading = Some (s1, ops, Some (mf + 1, tv))"
    using loop by (simp add: sr_run_before_def demo_reading_facts tq_set_all_empty_def tq_set_new_def all_empty_loop.simps Let_def split: prod.split)
  have "fd_set (sr_fd_sets s1 Read_op) 5 \<and> 5 < mf + 1"
    using select_watches [OF run demo_reading_facts(1)] by (simp add: demo_reading_facts FD_SETSIZE_def)
  with run show ?thesis by blast
qed

end
