(* ===== verification/BufferedStorage.thy ===== *)
theory BufferedStorage
  imports DynamicBuffer WriteLoop "HOL-Library.Monad_Syntax"
begin

text \<open>
  The storage of the buffered streams, \<open>detail/buffered_stream_storage.hpp\<close>: a vector of fixed size
  and the two offsets of the bytes in use. The vector lies in the memory of \<open>Buffers\<close>, from
  \<open>sto_base\<close> on, so that buffers over it and the copies between them and the user's buffers are those
  of \<open>buffer.hpp\<close>. An operation whose \<open>ASIO_ASSERT\<close> fails is \<open>None\<close>. The bytes in use are
  \<open>sto_bytes\<close>; \<open>sto_ok\<close> is the well-formedness of the offsets.
\<close>

section \<open>The storage\<close>

record sto =
  begin_offset :: nat
  end_offset :: nat
  sto_base :: nat
  sto_capacity :: nat

definition sto_new :: "nat \<Rightarrow> nat \<Rightarrow> sto" where
  "sto_new base buffer_capacity =
     \<lparr>begin_offset = 0, end_offset = 0, sto_base = base, sto_capacity = buffer_capacity\<rparr>"

definition sto_clear :: "sto \<Rightarrow> sto" where
  "sto_clear st = st\<lparr>begin_offset := 0, end_offset := 0\<rparr>"

text \<open>\<open>asio::buffer(buffer_)\<close> of a vector: a null pointer when it is empty.\<close>

definition sto_buffer :: "sto \<Rightarrow> abuf" where
  "sto_buffer st =
     \<lparr>buf_data = (if sto_capacity st \<noteq> 0 then sto_base st else 0), buf_size = sto_capacity st\<rparr>"

definition sto_data :: "sto \<Rightarrow> abuf" where
  "sto_data st = buf_plus (sto_buffer st) (begin_offset st)"

definition sto_empty :: "sto \<Rightarrow> bool" where
  "sto_empty st \<longleftrightarrow> begin_offset st = end_offset st"

definition sto_size :: "sto \<Rightarrow> nat" where
  "sto_size st = size_sub (end_offset st) (begin_offset st)"

text \<open>\<open>memmove\<close>: as \<open>memcpy\<close>, but the source is read before the target is written.\<close>

definition memmove :: "mem \<Rightarrow> nat \<Rightarrow> nat \<Rightarrow> nat \<Rightarrow> mem" where
  "memmove m dst src n = put_bytes m [dst..<dst + n] (get_bytes m [src..<src + n])"

definition sto_resize :: "sto \<Rightarrow> mem \<Rightarrow> nat \<Rightarrow> (sto \<times> mem) option" where
  "sto_resize st m len =
     (if len \<le> sto_capacity st then
        (if begin_offset st + len \<le> sto_capacity st
         then Some (st\<lparr>end_offset := begin_offset st + len\<rparr>, m)
         else Some (st\<lparr>end_offset := len, begin_offset := 0\<rparr>,
                    memmove m (sto_base st) (sto_base st + begin_offset st) (sto_size st)))
      else None)"

definition sto_consume :: "sto \<Rightarrow> nat \<Rightarrow> sto option" where
  "sto_consume st n =
     (if begin_offset st + n \<le> end_offset st then
        (let st = st\<lparr>begin_offset := begin_offset st + n\<rparr>
         in Some (if sto_empty st then sto_clear st else st))
      else None)"

text \<open>
  \<open>buffer_resize_guard\<close>: the size at construction, \<open>size_max\<close> once committed; the destructor rolls
  back the resize.
\<close>

definition guard_new :: "sto \<Rightarrow> nat" where
  "guard_new st = sto_size st"

definition guard_commit :: "nat \<Rightarrow> nat" where
  "guard_commit old_size = size_max"

definition guard_destroy :: "sto \<Rightarrow> mem \<Rightarrow> nat \<Rightarrow> (sto \<times> mem) option" where
  "guard_destroy st m old_size = (if old_size \<noteq> size_max then sto_resize st m old_size else Some (st, m))"

section \<open>Well-formedness and contents\<close>

text \<open>The size of a vector is below \<open>size_max\<close>.\<close>

definition sto_ok :: "sto \<Rightarrow> bool" where
  "sto_ok st \<longleftrightarrow> begin_offset st \<le> end_offset st \<and> end_offset st \<le> sto_capacity st \<and>
     sto_capacity st < size_max"

definition sto_area :: "sto \<Rightarrow> nat set" where
  "sto_area st = {sto_base st..<sto_base st + sto_capacity st}"

definition sto_addrs :: "sto \<Rightarrow> nat list" where
  "sto_addrs st = [sto_base st + begin_offset st..<sto_base st + end_offset st]"

definition sto_bytes :: "sto \<Rightarrow> mem \<Rightarrow> byte list" where
  "sto_bytes st m = get_bytes m (sto_addrs st)"

text \<open>The same vector, and the same memory outside an area.\<close>

definition same_vector :: "sto \<Rightarrow> sto \<Rightarrow> bool" where
  "same_vector st st' \<longleftrightarrow> sto_base st' = sto_base st \<and> sto_capacity st' = sto_capacity st"

definition unchanged_outside :: "nat set \<Rightarrow> mem \<Rightarrow> mem \<Rightarrow> bool" where
  "unchanged_outside A m m' \<longleftrightarrow> (\<forall>a. a \<notin> A \<longrightarrow> m' a = m a)"

lemma same_vector_refl [simp, intro]: "same_vector st st"
  by (simp add: same_vector_def)

lemma same_vector_trans [trans]: "same_vector a b \<Longrightarrow> same_vector b c \<Longrightarrow> same_vector a c"
  by (simp add: same_vector_def)

lemma same_vector_area: "same_vector st st' \<Longrightarrow> sto_area st' = sto_area st"
  by (simp add: same_vector_def sto_area_def)

lemma unchanged_refl [simp, intro]: "unchanged_outside A m m"
  by (simp add: unchanged_outside_def)

lemma unchanged_trans: "unchanged_outside A m m1 \<Longrightarrow> unchanged_outside A m1 m2 \<Longrightarrow> unchanged_outside A m m2"
  by (simp add: unchanged_outside_def)

lemma unchanged_mono: "unchanged_outside A m m' \<Longrightarrow> A \<subseteq> B \<Longrightarrow> unchanged_outside B m m'"
  by (auto simp: unchanged_outside_def)

lemma unchanged_put: "set ts \<subseteq> A \<Longrightarrow> unchanged_outside A m (put_bytes m ts vs)"
  by (auto simp: unchanged_outside_def intro!: put_bytes_other)

lemma unchanged_get: "unchanged_outside A m m' \<Longrightarrow> set xs \<inter> A = {} \<Longrightarrow> get_bytes m' xs = get_bytes m xs"
  by (auto simp: unchanged_outside_def get_bytes_def)

lemma sto_size_ok [simp]: "sto_ok st \<Longrightarrow> sto_size st = end_offset st - begin_offset st"
  by (simp add: sto_ok_def sto_size_def size_sub_def)

lemma length_sto_bytes: "sto_ok st \<Longrightarrow> length (sto_bytes st m) = sto_size st"
  by (simp add: sto_bytes_def sto_addrs_def)

lemma sto_new_ok: "capacity < size_max \<Longrightarrow> sto_ok (sto_new base capacity)" "sto_bytes (sto_new base c) m = []"
  by (simp_all add: sto_ok_def sto_new_def sto_bytes_def sto_addrs_def)

lemma sto_empty_bytes: "sto_ok st \<Longrightarrow> sto_empty st \<longleftrightarrow> sto_bytes st m = []"
  by (auto simp: sto_empty_def sto_ok_def sto_bytes_def sto_addrs_def get_bytes_def)

lemma baddrs_sto_data: "sto_ok st \<Longrightarrow> baddrs (sto_data st) = [sto_base st + begin_offset st..<sto_base st + sto_capacity st]"
  unfolding sto_data_def baddrs_plus by (auto simp: sto_buffer_def baddrs_def)

lemma sto_addrs_data: "sto_ok st \<Longrightarrow> sto_addrs st = take (sto_size st) (baddrs (sto_data st))"
  by (auto simp: baddrs_sto_data sto_addrs_def sto_ok_def take_upt)

lemma sto_addrs_area: "sto_ok st \<Longrightarrow> set (sto_addrs st) \<subseteq> sto_area st"
  by (auto simp: sto_addrs_def sto_area_def sto_ok_def)

text \<open>\<open>consume\<close> removes a prefix.\<close>

lemma sto_consume_facts:
  assumes ok: "sto_ok st" and n: "n \<le> sto_size st"
  obtains st' where "sto_consume st n = Some st'" "sto_ok st'" "same_vector st st'"
    "\<And>m. sto_bytes st' m = drop n (sto_bytes st m)"
proof -
  let ?st = "if begin_offset st + n = end_offset st
     then st\<lparr>begin_offset := 0, end_offset := 0\<rparr> else st\<lparr>begin_offset := begin_offset st + n\<rparr>"
  have le: "begin_offset st + n \<le> end_offset st" using ok n by (auto simp: sto_ok_def)
  then have "sto_consume st n = Some ?st" by (simp add: sto_consume_def Let_def sto_empty_def sto_clear_def)
  moreover have "sto_ok ?st" using ok le by (auto simp: sto_ok_def)
  moreover have "same_vector st ?st" by (simp add: same_vector_def)
  moreover have "sto_bytes ?st m = drop n (sto_bytes st m)" for m
    by (auto simp: sto_bytes_def sto_addrs_def get_bytes_def drop_map add.assoc)
  ultimately show thesis by (rule that)
qed

text \<open>\<open>resize\<close> keeps the bytes that fit, also when it moves them to the front.\<close>

lemma memmove_bytes: "get_bytes (memmove m dst src n) [dst..<dst + n] = get_bytes m [src..<src + n]"
  unfolding memmove_def by (rule get_put_bytes) simp_all

lemma take_upt_min: "take n [i..<j] = [i..<min j (i + n)]"
  by (rule nth_equalityI) auto

lemma sto_resize_facts:
  assumes ok: "sto_ok st" and n: "n \<le> sto_capacity st"
  obtains st' m' where "sto_resize st m n = Some (st', m')" "sto_ok st'" "same_vector st st'"
    "sto_size st' = n" "take (sto_size st) (sto_bytes st' m') = take n (sto_bytes st m)"
    "unchanged_outside (sto_area st) m m'" "n = sto_capacity st \<Longrightarrow> begin_offset st' = 0"
proof (cases "begin_offset st + n \<le> sto_capacity st")
  case True
  let ?st = "st\<lparr>end_offset := begin_offset st + n\<rparr>"
  have ok': "sto_ok ?st" using ok True by (auto simp: sto_ok_def)
  show thesis
  proof (rule that [of ?st m])
    show "sto_resize st m n = Some (?st, m)" using n True by (simp add: sto_resize_def)
    have "min (sto_base st + (begin_offset st + n)) (sto_base st + begin_offset st + sto_size st) =
        min (sto_base st + end_offset st) (sto_base st + begin_offset st + n)"
      using ok by (auto simp: sto_ok_def)
    then show "take (sto_size st) (sto_bytes ?st m) = take n (sto_bytes st m)"
      by (simp add: sto_bytes_def sto_addrs_def get_bytes_def take_map take_upt_min del: sto_size_ok)
  qed (use ok' True in \<open>simp_all add: same_vector_def\<close>)
next
  case False
  let ?st = "st\<lparr>end_offset := n, begin_offset := 0\<rparr>" and ?k = "sto_size st"
  let ?m = "memmove m (sto_base st) (sto_base st + begin_offset st) ?k"
  have ok': "sto_ok ?st" using ok n by (auto simp: sto_ok_def)
  have k: "?k < n" "end_offset st = begin_offset st + ?k" using ok False by (auto simp: sto_ok_def)
  show thesis
  proof (rule that [of ?st ?m])
    show "sto_resize st m n = Some (?st, ?m)" using n False by (simp add: sto_resize_def)
    have "take ?k (sto_bytes ?st ?m) = get_bytes ?m [sto_base st..<sto_base st + ?k]"
      using k by (simp add: sto_bytes_def sto_addrs_def get_bytes_def take_map)
    also have "\<dots> = sto_bytes st m"
      unfolding memmove_bytes sto_bytes_def sto_addrs_def k(2) by (simp add: add.assoc)
    finally show "take ?k (sto_bytes ?st ?m) = take n (sto_bytes st m)"
      using k length_sto_bytes [OF ok, of m] by simp
    show "unchanged_outside (sto_area st) m ?m"
      unfolding memmove_def by (rule unchanged_put) (use ok in \<open>auto simp: sto_area_def sto_ok_def\<close>)
  qed (use ok' in \<open>simp_all add: same_vector_def\<close>)
qed

end
