(* ===== verification/BufferedStream.thy ===== *)
theory BufferedStream
  imports BufferedStorage
begin

text \<open>
  The buffered streams: \<open>buffered_read_stream\<close>, \<open>buffered_write_stream\<close> (\<open>impl/\<close> files of the same
  names) and \<open>buffered_stream\<close>, which stacks the first on the second. The next layer is a parameter,
  the \<open>reader\<close> and \<open>writer\<close> of the composed operations; its throwing overload is the same call
  followed by \<open>throw_error\<close>. An operation that fails an assertion or never returns is \<open>None\<close>.
\<close>

record 's bstream =
  next_layer :: 's
  storage :: sto

section \<open>The read stream\<close>

definition brs_new :: "'s \<Rightarrow> nat \<Rightarrow> nat \<Rightarrow> 's bstream" where
  "brs_new a base capacity = \<lparr>next_layer = a, storage = sto_new base capacity\<rparr>"

text \<open>The free space after the bytes in use, which \<open>fill\<close> gives to the next layer.\<close>

definition fill_buffer :: "sto \<Rightarrow> nat \<Rightarrow> abuf" where
  "fill_buffer st previous_size =
     buf_limit (buf_plus (sto_data st) previous_size) (size_sub (sto_size st) previous_size)"

definition brs_fill_ec :: "'s reader \<Rightarrow> 's bstream \<Rightarrow> mem \<Rightarrow> ('s bstream \<times> mem \<times> nat \<times> error_code) option"
where
  "brs_fill_ec read_some b m =
     (let resize_guard = guard_new (storage b);
          previous_size = sto_size (storage b) in do {
        (st1, m1) \<leftarrow> sto_resize (storage b) m (sto_capacity (storage b));
        let buf = fill_buffer st1 previous_size;
        let (s1, data, ec) = read_some (next_layer b) [buf_size buf];
        (st2, m2) \<leftarrow> sto_resize st1 (put_bytes m1 (baddrs buf) data) (previous_size + length data);
        (st3, m3) \<leftarrow> guard_destroy st2 m2 (guard_commit resize_guard);
        Some (\<lparr>next_layer = s1, storage = st3\<rparr>, m3, size_sub (sto_size st3) previous_size, ec)
      })"

definition brs_fill :: "'s reader \<Rightarrow> 's bstream \<Rightarrow> mem \<Rightarrow> ('s bstream \<times> mem \<times> (exn + nat)) option" where
  "brs_fill read_some b m =
     (let resize_guard = guard_new (storage b);
          previous_size = sto_size (storage b) in do {
        (st1, m1) \<leftarrow> sto_resize (storage b) m (sto_capacity (storage b));
        let buf = fill_buffer st1 previous_size;
        let (s1, data, ec) = read_some (next_layer b) [buf_size buf];
        let m2 = put_bytes m1 (baddrs buf) data;
        case throw_error ec (length data) of
          Inl e \<Rightarrow> do {
            (st2, m3) \<leftarrow> guard_destroy st1 m2 resize_guard;
            Some (\<lparr>next_layer = s1, storage = st2\<rparr>, m3, Inl e)
          }
        | Inr n \<Rightarrow> do {
            (st2, m3) \<leftarrow> sto_resize st1 m2 (previous_size + n);
            (st3, m4) \<leftarrow> guard_destroy st2 m3 (guard_commit resize_guard);
            Some (\<lparr>next_layer = s1, storage = st3\<rparr>, m4, Inr (size_sub (sto_size st3) previous_size))
          }
      })"

definition brs_peek_copy :: "'s bstream \<Rightarrow> mem \<Rightarrow> bufseq \<Rightarrow> (mem \<times> nat) option" where
  "brs_peek_copy b m buffers =
     buffer_copy_max m buffers (One (sto_data (storage b))) (sto_size (storage b))"

definition brs_copy :: "'s bstream \<Rightarrow> mem \<Rightarrow> bufseq \<Rightarrow> ('s bstream \<times> mem \<times> nat) option" where
  "brs_copy b m buffers = do {
     (m1, bytes_copied) \<leftarrow> buffer_copy_max m buffers (One (sto_data (storage b))) (sto_size (storage b));
     st1 \<leftarrow> sto_consume (storage b) bytes_copied;
     Some (b\<lparr>storage := st1\<rparr>, m1, bytes_copied)
   }"

definition brs_read_some :: "'s reader \<Rightarrow> 's bstream \<Rightarrow> mem \<Rightarrow> bufseq \<Rightarrow> ('s bstream \<times> mem \<times> (exn + nat)) option"
where
  "brs_read_some read_some b m buffers =
     (if buffer_size (bufs_of buffers) = 0 then Some (b, m, Inr 0) else do {
        (b1, m1, r) \<leftarrow> (if sto_empty (storage b) then brs_fill read_some b m else Some (b, m, Inr 0));
        case r of
          Inl e \<Rightarrow> Some (b1, m1, Inl e)
        | Inr _ \<Rightarrow> do {
            (b2, m2, n) \<leftarrow> brs_copy b1 m1 buffers;
            Some (b2, m2, Inr n)
          }
      })"

definition brs_read_some_ec ::
  "'s reader \<Rightarrow> 's bstream \<Rightarrow> mem \<Rightarrow> bufseq \<Rightarrow> ('s bstream \<times> mem \<times> nat \<times> error_code) option"
where
  "brs_read_some_ec read_some b m buffers =
     (if buffer_size (bufs_of buffers) = 0 then Some (b, m, 0, Ok_code)
      else if sto_empty (storage b) then do {
        (b1, m1, n, ec) \<leftarrow> brs_fill_ec read_some b m;
        if n = 0 then Some (b1, m1, 0, ec)
        else do {
          (b2, m2, n2) \<leftarrow> brs_copy b1 m1 buffers;
          Some (b2, m2, n2, ec)
        }
      }
      else do {
        (b2, m2, n2) \<leftarrow> brs_copy b m buffers;
        Some (b2, m2, n2, Ok_code)
      })"

definition brs_peek :: "'s reader \<Rightarrow> 's bstream \<Rightarrow> mem \<Rightarrow> bufseq \<Rightarrow> ('s bstream \<times> mem \<times> (exn + nat)) option"
where
  "brs_peek read_some b m buffers = do {
     (b1, m1, r) \<leftarrow> (if sto_empty (storage b) then brs_fill read_some b m else Some (b, m, Inr 0));
     case r of
       Inl e \<Rightarrow> Some (b1, m1, Inl e)
     | Inr _ \<Rightarrow> do {
         (m2, n) \<leftarrow> brs_peek_copy b1 m1 buffers;
         Some (b1, m2, Inr n)
       }
   }"

definition brs_peek_ec ::
  "'s reader \<Rightarrow> 's bstream \<Rightarrow> mem \<Rightarrow> bufseq \<Rightarrow> ('s bstream \<times> mem \<times> nat \<times> error_code) option"
where
  "brs_peek_ec read_some b m buffers =
     (if sto_empty (storage b) then do {
        (b1, m1, n, ec) \<leftarrow> brs_fill_ec read_some b m;
        if n = 0 then Some (b1, m1, 0, ec)
        else do {
          (m2, n2) \<leftarrow> brs_peek_copy b1 m1 buffers;
          Some (b1, m2, n2, ec)
        }
      }
      else do {
        (m2, n2) \<leftarrow> brs_peek_copy b m buffers;
        Some (b, m2, n2, Ok_code)
      })"

definition brs_in_avail :: "'s bstream \<Rightarrow> nat" where
  "brs_in_avail b = sto_size (storage b)"

text \<open>
  The asynchronous read: what the initiating function asks of the next layer, and the handler of its
  completion. \<open>Read_none\<close> is the \<open>async_read_some\<close> with the null buffer.
\<close>

datatype read_request = Read_none | Read_fill nat abuf

definition initiate_async_buffered_fill :: "'s bstream \<Rightarrow> mem \<Rightarrow> ('s bstream \<times> mem \<times> nat \<times> abuf) option"
where
  "initiate_async_buffered_fill b m =
     (let previous_size = sto_size (storage b) in do {
        (st1, m1) \<leftarrow> sto_resize (storage b) m (sto_capacity (storage b));
        Some (b\<lparr>storage := st1\<rparr>, m1, previous_size, fill_buffer st1 previous_size)
      })"

definition buffered_fill_handler :: "'s bstream \<Rightarrow> mem \<Rightarrow> nat \<Rightarrow> nat \<Rightarrow> ('s bstream \<times> mem) option" where
  "buffered_fill_handler b m previous_size bytes_transferred = do {
     (st1, m1) \<leftarrow> sto_resize (storage b) m (previous_size + bytes_transferred);
     Some (b\<lparr>storage := st1\<rparr>, m1)
   }"

definition initiate_async_buffered_read_some ::
  "'s bstream \<Rightarrow> mem \<Rightarrow> bufseq \<Rightarrow> ('s bstream \<times> mem \<times> read_request) option"
where
  "initiate_async_buffered_read_some b m buffers =
     (if buffer_size (bufs_of buffers) = 0 \<or> \<not> sto_empty (storage b) then Some (b, m, Read_none)
      else do {
        (b1, m1, previous_size, buf) \<leftarrow> initiate_async_buffered_fill b m;
        Some (b1, m1, Read_fill previous_size buf)
      })"

definition buffered_read_some_handler ::
  "'s bstream \<Rightarrow> mem \<Rightarrow> bufseq \<Rightarrow> error_code \<Rightarrow> ('s bstream \<times> mem \<times> nat \<times> error_code) option"
where
  "buffered_read_some_handler b m buffers ec =
     (if failed ec \<or> sto_empty (storage b) then Some (b, m, 0, ec)
      else do {
        (m1, bytes_copied) \<leftarrow> buffer_copy_max m buffers (One (sto_data (storage b))) (sto_size (storage b));
        st1 \<leftarrow> sto_consume (storage b) bytes_copied;
        Some (b\<lparr>storage := st1\<rparr>, m1, bytes_copied, ec)
      })"

text \<open>
  The whole operation when the next layer completes the read it is asked for with what its
  \<open>read_some\<close> delivers.
\<close>

definition brs_async_read_some ::
  "'s reader \<Rightarrow> 's bstream \<Rightarrow> mem \<Rightarrow> bufseq \<Rightarrow> ('s bstream \<times> mem \<times> nat \<times> error_code) option"
where
  "brs_async_read_some read_some b m buffers = do {
     (b1, m1, request) \<leftarrow> initiate_async_buffered_read_some b m buffers;
     case request of
       Read_none \<Rightarrow>
         let (s1, data, ec) = read_some (next_layer b1) [0]
         in buffered_read_some_handler (b1\<lparr>next_layer := s1\<rparr>) m1 buffers ec
     | Read_fill previous_size buf \<Rightarrow>
         let (s1, data, ec) = read_some (next_layer b1) [buf_size buf] in do {
           (b2, m2) \<leftarrow> buffered_fill_handler (b1\<lparr>next_layer := s1\<rparr>) (put_bytes m1 (baddrs buf) data)
                        previous_size (length data);
           buffered_read_some_handler b2 m2 buffers ec
         }
   }"


section \<open>The write stream\<close>

text \<open>\<open>buffer(storage_.data(), storage_.size())\<close>.\<close>

definition flush_buffer :: "sto \<Rightarrow> abuf" where
  "flush_buffer st = buf_limit (sto_data st) (sto_size st)"

definition bws_flush :: "'s writer \<Rightarrow> 's bstream \<Rightarrow> mem \<Rightarrow> ('s bstream \<times> (exn + nat)) option" where
  "bws_flush write_some b m = do {
     (r, s1) \<leftarrow> write_throw write_some (next_layer b) m (Single (flush_buffer (storage b))) transfer_all;
     case r of
       Inl e \<Rightarrow> Some (b\<lparr>next_layer := s1\<rparr>, Inl e)
     | Inr bytes_written \<Rightarrow> do {
         st1 \<leftarrow> sto_consume (storage b) bytes_written;
         Some (\<lparr>next_layer = s1, storage = st1\<rparr>, Inr bytes_written)
       }
   }"

definition bws_flush_ec :: "'s writer \<Rightarrow> 's bstream \<Rightarrow> mem \<Rightarrow> ('s bstream \<times> nat \<times> error_code) option" where
  "bws_flush_ec write_some b m = do {
     (bytes_written, ec, s1) \<leftarrow>
       write_buffer_sequence write_some (next_layer b) m (Single (flush_buffer (storage b))) transfer_all;
     st1 \<leftarrow> sto_consume (storage b) bytes_written;
     Some (\<lparr>next_layer = s1, storage = st1\<rparr>, bytes_written, ec)
   }"

definition bws_copy :: "'s bstream \<Rightarrow> mem \<Rightarrow> bufseq \<Rightarrow> ('s bstream \<times> mem \<times> nat) option" where
  "bws_copy b m buffers =
     (let orig_size = sto_size (storage b);
          space_avail = size_sub (sto_capacity (storage b)) orig_size;
          bytes_avail = buffer_size (bufs_of buffers);
          len = (if bytes_avail < space_avail then bytes_avail else space_avail) in do {
        (st1, m1) \<leftarrow> sto_resize (storage b) m (orig_size + len);
        (m2, bytes_copied) \<leftarrow> buffer_copy_max m1 (One (buf_plus (sto_data st1) orig_size)) buffers len;
        Some (b\<lparr>storage := st1\<rparr>, m2, bytes_copied)
      })"

definition bws_write_some ::
  "'s writer \<Rightarrow> 's bstream \<Rightarrow> mem \<Rightarrow> bufseq \<Rightarrow> ('s bstream \<times> mem \<times> (exn + nat)) option"
where
  "bws_write_some write_some b m buffers =
     (if buffer_size (bufs_of buffers) = 0 then Some (b, m, Inr 0) else do {
        (b1, r) \<leftarrow> (if sto_size (storage b) = sto_capacity (storage b)
                    then bws_flush write_some b m else Some (b, Inr 0));
        case r of
          Inl e \<Rightarrow> Some (b1, m, Inl e)
        | Inr _ \<Rightarrow> do {
            (b2, m2, n) \<leftarrow> bws_copy b1 m buffers;
            Some (b2, m2, Inr n)
          }
      })"

definition bws_write_some_ec ::
  "'s writer \<Rightarrow> 's bstream \<Rightarrow> mem \<Rightarrow> bufseq \<Rightarrow> ('s bstream \<times> mem \<times> nat \<times> error_code) option"
where
  "bws_write_some_ec write_some b m buffers =
     (if buffer_size (bufs_of buffers) = 0 then Some (b, m, 0, Ok_code)
      else if sto_size (storage b) = sto_capacity (storage b) then do {
        (b1, n, ec) \<leftarrow> bws_flush_ec write_some b m;
        if n = 0 then Some (b1, m, 0, ec)
        else do {
          (b2, m2, n2) \<leftarrow> bws_copy b1 m buffers;
          Some (b2, m2, n2, ec)
        }
      }
      else do {
        (b2, m2, n2) \<leftarrow> bws_copy b m buffers;
        Some (b2, m2, n2, Ok_code)
      })"

datatype write_request = Write_none | Write_flush abuf

definition initiate_async_buffered_write_some :: "'s bstream \<Rightarrow> bufseq \<Rightarrow> write_request" where
  "initiate_async_buffered_write_some b buffers =
     (if buffer_size (bufs_of buffers) = 0 \<or> sto_size (storage b) < sto_capacity (storage b)
      then Write_none else Write_flush (flush_buffer (storage b)))"

definition buffered_flush_handler :: "'s bstream \<Rightarrow> nat \<Rightarrow> 's bstream option" where
  "buffered_flush_handler b bytes_written = do {
     st1 \<leftarrow> sto_consume (storage b) bytes_written;
     Some (b\<lparr>storage := st1\<rparr>)
   }"

definition buffered_write_some_handler ::
  "'s bstream \<Rightarrow> mem \<Rightarrow> bufseq \<Rightarrow> error_code \<Rightarrow> ('s bstream \<times> mem \<times> nat \<times> error_code) option"
where
  "buffered_write_some_handler b m buffers ec =
     (if failed ec then Some (b, m, 0, ec)
      else
        (let orig_size = sto_size (storage b);
             space_avail = size_sub (sto_capacity (storage b)) orig_size;
             bytes_avail = buffer_size (bufs_of buffers);
             len = (if bytes_avail < space_avail then bytes_avail else space_avail) in do {
           (st1, m1) \<leftarrow> sto_resize (storage b) m (orig_size + len);
           (m2, bytes_copied) \<leftarrow> buffer_copy_max m1 (One (buf_plus (sto_data st1) orig_size)) buffers len;
           Some (b\<lparr>storage := st1\<rparr>, m2, bytes_copied, ec)
         }))"

text \<open>
  The whole operation when the next layer completes the write of no bytes as its \<open>write_some\<close>, and
  the \<open>async_write\<close> of the flush as \<open>write\<close> (\<open>AsyncOps\<close> relates the two).
\<close>

definition bws_async_write_some ::
  "'s writer \<Rightarrow> 's bstream \<Rightarrow> mem \<Rightarrow> bufseq \<Rightarrow> ('s bstream \<times> mem \<times> nat \<times> error_code) option"
where
  "bws_async_write_some write_some b m buffers =
     (case initiate_async_buffered_write_some b buffers of
        Write_none \<Rightarrow>
          let (s1, n, ec) = write_some (next_layer b) [[]]
          in buffered_write_some_handler (b\<lparr>next_layer := s1\<rparr>) m buffers ec
      | Write_flush buf \<Rightarrow> do {
          (n, ec, s1) \<leftarrow> write_buffer_sequence write_some (next_layer b) m (Single buf) transfer_all;
          b1 \<leftarrow> buffered_flush_handler (b\<lparr>next_layer := s1\<rparr>) n;
          buffered_write_some_handler b1 m buffers ec
        })"

text \<open>Reads pass through the write stream to its next layer.\<close>

definition bws_read_some :: "'s reader \<Rightarrow> 's bstream reader" where
  "bws_read_some read_some w sizes =
     (let (s1, data, ec) = read_some (next_layer w) sizes in (w\<lparr>next_layer := s1\<rparr>, data, ec))"

section \<open>Both\<close>

text \<open>
  \<open>buffered_stream\<close>: a read stream (\<open>stream_impl_\<close>) over a write stream (\<open>inner_stream_impl_\<close>); flushes
  and writes go to the inner stream, the rest to the outer one.
\<close>

type_synonym 's buffered_stream = "'s bstream bstream"

definition bst_new :: "'s \<Rightarrow> nat \<Rightarrow> nat \<Rightarrow> nat \<Rightarrow> nat \<Rightarrow> 's buffered_stream" where
  "bst_new a read_base read_capacity write_base write_capacity =
     brs_new (brs_new a write_base write_capacity) read_base read_capacity"

definition bst_flush :: "'s writer \<Rightarrow> 's buffered_stream \<Rightarrow> mem \<Rightarrow> ('s buffered_stream \<times> (exn + nat)) option"
where
  "bst_flush write_some b m = do {
     (w, r) \<leftarrow> bws_flush write_some (next_layer b) m;
     Some (b\<lparr>next_layer := w\<rparr>, r)
   }"

definition bst_flush_ec ::
  "'s writer \<Rightarrow> 's buffered_stream \<Rightarrow> mem \<Rightarrow> ('s buffered_stream \<times> nat \<times> error_code) option"
where
  "bst_flush_ec write_some b m = do {
     (w, n, ec) \<leftarrow> bws_flush_ec write_some (next_layer b) m;
     Some (b\<lparr>next_layer := w\<rparr>, n, ec)
   }"

definition bst_write_some_ec ::
  "'s writer \<Rightarrow> 's buffered_stream \<Rightarrow> mem \<Rightarrow> bufseq \<Rightarrow> ('s buffered_stream \<times> mem \<times> nat \<times> error_code) option"
where
  "bst_write_some_ec write_some b m buffers = do {
     (w, m1, n, ec) \<leftarrow> bws_write_some_ec write_some (next_layer b) m buffers;
     Some (b\<lparr>next_layer := w\<rparr>, m1, n, ec)
   }"

definition bst_fill_ec ::
  "'s reader \<Rightarrow> 's buffered_stream \<Rightarrow> mem \<Rightarrow> ('s buffered_stream \<times> mem \<times> nat \<times> error_code) option"
where
  "bst_fill_ec read_some = brs_fill_ec (bws_read_some read_some)"

definition bst_read_some_ec ::
  "'s reader \<Rightarrow> 's buffered_stream \<Rightarrow> mem \<Rightarrow> bufseq \<Rightarrow> ('s buffered_stream \<times> mem \<times> nat \<times> error_code) option"
where
  "bst_read_some_ec read_some = brs_read_some_ec (bws_read_some read_some)"

definition bst_peek_ec ::
  "'s reader \<Rightarrow> 's buffered_stream \<Rightarrow> mem \<Rightarrow> bufseq \<Rightarrow> ('s buffered_stream \<times> mem \<times> nat \<times> error_code) option"
where
  "bst_peek_ec read_some = brs_peek_ec (bws_read_some read_some)"

definition bst_in_avail :: "'s buffered_stream \<Rightarrow> nat" where
  "bst_in_avail = brs_in_avail"

end
