(* ===== verification/BufferedProps.thy ===== *)
theory BufferedProps
  imports BufferedStream IoProps
begin

text \<open>
  What the buffered streams promise. The read stream hands on the bytes of the next layer in order,
  the bytes not yet handed on being those in the storage; the write stream hands the bytes it has
  accepted to the next layer in order. The facts on \<open>fill\<close>, the copies and \<open>flush\<close> come first, then
  those on each operation, and the properties of whole sessions.
\<close>

section \<open>Filling\<close>

lemma fill_core:
  assumes ok: "sto_ok st"
  obtains st1 m1 where "sto_resize st m (sto_capacity st) = Some (st1, m1)"
    "buf_size (fill_buffer st1 (sto_size st)) = sto_capacity st - sto_size st"
    "\<And>data. length data \<le> sto_capacity st - sto_size st \<Longrightarrow>
       \<exists>st2 m2. sto_resize st1 (put_bytes m1 (baddrs (fill_buffer st1 (sto_size st))) data)
           (sto_size st + length data) = Some (st2, m2) \<and>
         sto_ok st2 \<and> same_vector st st2 \<and> sto_bytes st2 m2 = sto_bytes st m @ data \<and> begin_offset st2 = 0 \<and>
         unchanged_outside (sto_area st) m m2"
proof -
  obtain st1 m1 where r1: "sto_resize st m (sto_capacity st) = Some (st1, m1)" and ok1: "sto_ok st1"
    and same: "same_vector st st1" and size: "sto_size st1 = sto_capacity st"
    and pre: "take (sto_size st) (sto_bytes st1 m1) = take (sto_capacity st) (sto_bytes st m)"
    and unch: "unchanged_outside (sto_area st) m m1" and beg: "begin_offset st1 = 0"
    by (rule sto_resize_facts [OF ok, of "sto_capacity st" m]) auto
  let ?k = "sto_size st" and ?c = "sto_capacity st" and ?a = "sto_base st"
  have kc: "?k \<le> ?c" using ok by (auto simp: sto_ok_def)
  have v: "sto_base st1 = ?a" "sto_capacity st1 = ?c" "end_offset st1 = ?c"
    using same size ok1 beg by (simp_all add: same_vector_def)
  have fb: "baddrs (fill_buffer st1 ?k) = [?a + ?k..<?a + ?c]"
    unfolding fill_buffer_def baddrs_limit baddrs_plus baddrs_sto_data [OF ok1] size
    using beg v kc by (simp add: size_sub_def)
  have old: "get_bytes m1 [?a..<?a + ?k] = sto_bytes st m"
    using pre length_sto_bytes [OF ok, of m] kc beg v
    by (simp add: sto_bytes_def [of st1] sto_addrs_def get_bytes_def take_map take_upt_min min_def
        del: sto_size_ok split: if_splits)
  show thesis
  proof (rule that [OF r1])
    show "buf_size (fill_buffer st1 ?k) = ?c - ?k"
      using arg_cong [OF fb, of length] by simp
    fix data :: "byte list"
    assume len: "length data \<le> ?c - ?k"
    let ?m = "put_bytes m1 (baddrs (fill_buffer st1 ?k)) data" and ?n = "?k + length data"
    let ?st = "st1\<lparr>end_offset := begin_offset st1 + ?n\<rparr>"
    have n: "?n \<le> ?c" using len kc by simp
    have r2: "sto_resize st1 ?m ?n = Some (?st, ?m)"
      using n beg v by (simp add: sto_resize_def del: sto_size_ok)
    have ok2: "sto_ok ?st" using ok1 n beg v by (simp add: sto_ok_def del: sto_size_ok)
    have new: "get_bytes ?m [?a + ?k..<?a + ?n] = data"
    proof -
      have t: "take (length data) [?a + ?k..<?a + ?c] = [?a + ?k..<?a + ?n]"
        using n by (simp add: take_upt_min min_def add.assoc del: sto_size_ok)
      show ?thesis
        unfolding fb put_bytes_take [of m1 "[?a + ?k..<?a + ?c]" data] t
        by (rule get_put_bytes) simp_all
    qed
    have keep: "get_bytes ?m [?a..<?a + ?k] = sto_bytes st m"
      unfolding fb old [symmetric] by (rule get_bytes_frame) auto
    have "[?a..<?a + ?n] = [?a..<?a + ?k] @ [?a + ?k..<?a + ?n]"
      using upt_add_eq_append [OF le_add1, of ?a ?k "length data"] by (simp only: add.assoc)
    note split = this
    have "sto_bytes ?st ?m = sto_bytes st m @ data"
      unfolding sto_bytes_def [of ?st] sto_addrs_def using beg v new keep split by (simp del: sto_size_ok)
    moreover have "unchanged_outside (sto_area st) m ?m"
      by (rule unchanged_trans [OF unch], rule unchanged_put) (auto simp: fb sto_area_def)
    moreover have "same_vector st ?st" using v by (simp add: same_vector_def)
    moreover have "begin_offset ?st = 0" using beg by simp
    ultimately show "\<exists>st2 m2. sto_resize st1 ?m ?n = Some (st2, m2) \<and> sto_ok st2 \<and> same_vector st st2 \<and>
        sto_bytes st2 m2 = sto_bytes st m @ data \<and> begin_offset st2 = 0 \<and> unchanged_outside (sto_area st) m m2"
      using r2 ok2 by blast
  qed
qed


lemma guard_committed [simp]: "guard_destroy st m (guard_commit g) = Some (st, m)"
  by (simp add: guard_destroy_def guard_commit_def)

lemma guard_rollback: "sto_ok st \<Longrightarrow> guard_destroy st' m (guard_new st) = sto_resize st' m (sto_size st)"
  by (auto simp: guard_destroy_def guard_new_def sto_ok_def sto_size_def size_sub_def)

text \<open>A stream that delivers nothing when it reports an error.\<close>

definition clean_reader :: "'s reader \<Rightarrow> bool" where
  "clean_reader read_some \<longleftrightarrow> (\<forall>s sizes s' data ec. read_some s sizes = (s', data, ec) \<longrightarrow> failed ec \<longrightarrow> data = [])"

lemma clean_readerD: "clean_reader rs \<Longrightarrow> rs s sizes = (s', data, ec) \<Longrightarrow> failed ec \<Longrightarrow> data = []"
  unfolding clean_reader_def by blast

definition filled :: "('s \<Rightarrow> byte list) \<Rightarrow> 's bstream \<Rightarrow> mem \<Rightarrow> byte list \<Rightarrow> 's bstream \<Rightarrow> mem \<Rightarrow> bool" where
  "filled out b m data b' m' \<longleftrightarrow> sto_ok (storage b') \<and> same_vector (storage b) (storage b') \<and>
     out (next_layer b') = out (next_layer b) @ data \<and>
     sto_bytes (storage b') m' = sto_bytes (storage b) m @ data \<and>
     unchanged_outside (sto_area (storage b)) m m'"

lemma filled_refl: "sto_ok (storage b) \<Longrightarrow> filled out b m [] b m"
  by (simp add: filled_def)

lemma fill_round:
  assumes ok: "sto_ok (storage b)" and conf: "conforming_reader out read_some"
  obtains st1 m1 s1 data ec st2 m2 where "sto_resize (storage b) m (sto_capacity (storage b)) = Some (st1, m1)"
    "read_some (next_layer b) [buf_size (fill_buffer st1 (sto_size (storage b)))] = (s1, data, ec)"
    "buf_size (fill_buffer st1 (sto_size (storage b))) = sto_capacity (storage b) - sto_size (storage b)"
    "sto_resize st1 (put_bytes m1 (baddrs (fill_buffer st1 (sto_size (storage b)))) data)
       (sto_size (storage b) + length data) = Some (st2, m2)"
    "size_sub (sto_size st2) (sto_size (storage b)) = length data"
    "filled out b m data \<lparr>next_layer = s1, storage = st2\<rparr> m2" "begin_offset st2 = 0"
proof -
  let ?st = "storage b" and ?k = "sto_size (storage b)"
  obtain st1 m1 where r1: "sto_resize ?st m (sto_capacity ?st) = Some (st1, m1)"
    and sz: "buf_size (fill_buffer st1 ?k) = sto_capacity ?st - ?k"
    and fin: "\<And>data. length data \<le> sto_capacity ?st - ?k \<Longrightarrow>
       \<exists>st2 m2. sto_resize st1 (put_bytes m1 (baddrs (fill_buffer st1 ?k)) data) (?k + length data) = Some (st2, m2) \<and>
         sto_ok st2 \<and> same_vector ?st st2 \<and> sto_bytes st2 m2 = sto_bytes ?st m @ data \<and> begin_offset st2 = 0 \<and>
         unchanged_outside (sto_area ?st) m m2"
    by (rule fill_core [OF ok, of m]) blast
  obtain s1 data ec where rd: "read_some (next_layer b) [buf_size (fill_buffer st1 ?k)] = (s1, data, ec)"
    by (metis prod_cases3)
  have len: "length data \<le> sto_capacity ?st - ?k" and out: "out s1 = out (next_layer b) @ data"
    using conforming_readerD [OF conf rd] sz by simp_all
  from fin [OF len] obtain st2 m2 where
    r2: "sto_resize st1 (put_bytes m1 (baddrs (fill_buffer st1 ?k)) data) (?k + length data) = Some (st2, m2)"
    and ok2: "sto_ok st2" and same: "same_vector ?st st2" and bytes: "sto_bytes st2 m2 = sto_bytes ?st m @ data"
    and beg: "begin_offset st2 = 0" and unch: "unchanged_outside (sto_area ?st) m m2" by blast
  have "sto_size st2 = ?k + length data"
    using arg_cong [OF bytes, of length] length_sto_bytes [OF ok] length_sto_bytes [OF ok2] by simp
  then have "size_sub (sto_size st2) ?k = length data" by (simp add: size_sub_def)
  from that [OF r1 rd sz r2 this _ beg] show thesis
    using ok2 same bytes out unch by (simp add: filled_def)
qed

text \<open>The next layer's state is the same, or the one after a call of its \<open>read_some\<close>.\<close>

definition read_moved :: "'s reader \<Rightarrow> 's bstream \<Rightarrow> 's bstream \<Rightarrow> bool" where
  "read_moved read_some b b' \<longleftrightarrow> next_layer b' = next_layer b \<or>
     (\<exists>sizes data ec. read_some (next_layer b) sizes = (next_layer b', data, ec))"

lemma brs_fill_ec_facts:
  assumes ok: "sto_ok (storage b)" and conf: "conforming_reader out read_some"
  obtains b' m' data ec where "brs_fill_ec read_some b m = Some (b', m', length data, ec)"
    "filled out b m data b' m'" "read_moved read_some b b'"
proof (rule fill_round [OF ok conf, of m])
  fix st1 m1 s1 data ec st2 m2
  assume r: "sto_resize (storage b) m (sto_capacity (storage b)) = Some (st1, m1)"
    "read_some (next_layer b) [buf_size (fill_buffer st1 (sto_size (storage b)))] = (s1, data, ec)"
    "buf_size (fill_buffer st1 (sto_size (storage b))) = sto_capacity (storage b) - sto_size (storage b)"
    "sto_resize st1 (put_bytes m1 (baddrs (fill_buffer st1 (sto_size (storage b)))) data)
       (sto_size (storage b) + length data) = Some (st2, m2)"
    "size_sub (sto_size st2) (sto_size (storage b)) = length data"
    and fd: "filled out b m data \<lparr>next_layer = s1, storage = st2\<rparr> m2"
  have "brs_fill_ec read_some b m = Some (\<lparr>next_layer = s1, storage = st2\<rparr>, m2, length data, ec)"
    unfolding brs_fill_ec_def using r by (simp add: Let_def del: sto_size_ok)
  then show thesis by (rule that [OF _ fd]) (use r(2) in \<open>auto simp: read_moved_def\<close>)
qed

section \<open>Copying to the user\<close>

text \<open>The user's buffers do not overlap each other or the storage.\<close>

definition user_buffers :: "bufseq \<Rightarrow> sto \<Rightarrow> bool" where
  "user_buffers buffers st \<longleftrightarrow>
     distinct (addrs (bufs_of buffers)) \<and> set (addrs (bufs_of buffers)) \<inter> sto_area st = {}"

abbreviation uaddrs :: "bufseq \<Rightarrow> nat list" where
  "uaddrs buffers \<equiv> addrs (bufs_of buffers)"

lemma user_same: "user_buffers buffers st \<Longrightarrow> same_vector st st' \<Longrightarrow> user_buffers buffers st'"
  by (simp add: user_buffers_def same_vector_area)

lemma sto_copy_out:
  assumes ok: "sto_ok st" and user: "user_buffers buffers st"
    and n: "n = min (length (uaddrs buffers)) (length (sto_bytes st m))"
  obtains m' where "buffer_copy_max m buffers (One (sto_data st)) (sto_size st) = Some (m', n)"
    "get_bytes m' (take n (uaddrs buffers)) = take n (sto_bytes st m)"
    "unchanged_outside (set (take n (uaddrs buffers))) m m'"
proof -
  have area: "set (baddrs (sto_data st)) \<subseteq> sto_area st"
    using ok by (auto simp: baddrs_sto_data sto_area_def)
  have dj: "set (uaddrs buffers) \<inter> set (addrs (bufs_of (One (sto_data st)))) = {}"
    using user area by (auto simp: user_buffers_def)
  have len: "sto_size st \<le> length (baddrs (sto_data st))"
    using ok by (auto simp: baddrs_sto_data sto_ok_def simp del: length_baddrs)
  have eq: "min (sto_size st) (min (length (uaddrs buffers)) (length (baddrs (sto_data st)))) = n"
    using len n length_sto_bytes [OF ok, of m] by simp
  let ?m = "copied m (uaddrs buffers) (baddrs (sto_data st)) n"
  have c: "buffer_copy_max m buffers (One (sto_data st)) (sto_size st) = Some (?m, n)"
    using buffer_copy_max_copied [OF dj, of m "sto_size st"] eq by (simp add: Let_def del: length_baddrs)
  have t: "take n (sto_bytes st m) = get_bytes m (take n (baddrs (sto_data st)))"
    using n length_sto_bytes [OF ok, of m]
    by (simp add: sto_bytes_def sto_addrs_data [OF ok] get_bytes_def take_map min_def del: sto_size_ok)
  show thesis
  proof (rule that [OF c])
    show "get_bytes ?m (take n (uaddrs buffers)) = take n (sto_bytes st m)"
      unfolding copied_def t using user len n length_sto_bytes [OF ok, of m]
      by (intro get_put_bytes) (simp_all add: user_buffers_def del: sto_size_ok length_baddrs)
    show "unchanged_outside (set (take n (uaddrs buffers))) m ?m"
      unfolding copied_def by (rule unchanged_put) simp
  qed
qed


text \<open>
  \<open>handed out b m b' m' data got\<close>: the next layer has delivered \<open>data\<close>, \<open>got\<close> has been handed on, and
  what was in the storage with \<open>data\<close> is what has been handed on with what is in the storage now.
\<close>

definition handed ::
  "('s \<Rightarrow> byte list) \<Rightarrow> 's bstream \<Rightarrow> mem \<Rightarrow> byte list \<Rightarrow> byte list \<Rightarrow> 's bstream \<Rightarrow> mem \<Rightarrow> bool"
where
  "handed out b m data got b' m' \<longleftrightarrow> sto_ok (storage b') \<and> same_vector (storage b) (storage b') \<and>
     out (next_layer b') = out (next_layer b) @ data \<and>
     sto_bytes (storage b) m @ data = got @ sto_bytes (storage b') m'"

lemma handed_refl: "sto_ok (storage b) \<Longrightarrow> handed out b m [] [] b m"
  by (simp add: handed_def)

lemma filled_handed: "filled out b m data b' m' \<Longrightarrow> handed out b m data [] b' m'"
  by (simp add: filled_def handed_def)

lemma handed_trans:
  assumes "handed out b m data got b1 m1" "handed out b1 m1 data' got' b2 m2"
  shows "handed out b m (data @ data') (got @ got') b2 m2"
proof -
  have "sto_bytes (storage b) m @ data @ data' = got @ sto_bytes (storage b1) m1 @ data'"
    using assms(1) by (simp add: handed_def flip: append_assoc)
  also have "\<dots> = got @ got' @ sto_bytes (storage b2) m2" using assms(2) by (simp add: handed_def)
  finally show ?thesis using assms unfolding handed_def by (auto intro: same_vector_trans)
qed

lemma user_frame:
  assumes "sto_ok st" "user_buffers buffers st" "unchanged_outside (set (take n (uaddrs buffers))) m m'"
  shows "sto_bytes st m' = sto_bytes st m"
  unfolding sto_bytes_def
  by (rule unchanged_get [OF assms(3)])
     (use assms(2) sto_addrs_area [OF assms(1)] in \<open>auto simp: user_buffers_def dest: in_set_takeD\<close>)

lemma brs_peek_copy_facts:
  assumes ok: "sto_ok (storage b)" and user: "user_buffers buffers (storage b)"
    and n: "n = min (length (uaddrs buffers)) (length (sto_bytes (storage b) m))"
  obtains m' where "brs_peek_copy b m buffers = Some (m', n)"
    "get_bytes m' (take n (uaddrs buffers)) = take n (sto_bytes (storage b) m)"
    "handed out b m [] [] b m'" "unchanged_outside (set (take n (uaddrs buffers))) m m'"
proof -
  obtain m' where m': "buffer_copy_max m buffers (One (sto_data (storage b))) (sto_size (storage b)) = Some (m', n)"
    "get_bytes m' (take n (uaddrs buffers)) = take n (sto_bytes (storage b) m)"
    "unchanged_outside (set (take n (uaddrs buffers))) m m'"
    by (rule sto_copy_out [OF ok user n])
  have "handed out b m [] [] b m'"
    using ok user_frame [OF ok user m'(3)] by (simp add: handed_def)
  with m' show thesis by (intro that) (simp_all add: brs_peek_copy_def)
qed

lemma brs_copy_facts:
  assumes ok: "sto_ok (storage b)" and user: "user_buffers buffers (storage b)"
    and n: "n = min (length (uaddrs buffers)) (length (sto_bytes (storage b) m))"
  obtains b' m' where "brs_copy b m buffers = Some (b', m', n)" "next_layer b' = next_layer b"
    "handed out b m [] (get_bytes m' (take n (uaddrs buffers))) b' m'"
    "unchanged_outside (set (take n (uaddrs buffers))) m m'"
proof -
  let ?st = "storage b"
  obtain m' where m': "buffer_copy_max m buffers (One (sto_data ?st)) (sto_size ?st) = Some (m', n)"
    "get_bytes m' (take n (uaddrs buffers)) = take n (sto_bytes ?st m)"
    "unchanged_outside (set (take n (uaddrs buffers))) m m'"
    by (rule sto_copy_out [OF ok user n])
  have "n \<le> sto_size ?st" using n length_sto_bytes [OF ok, of m] by (simp del: sto_size_ok)
  then obtain st' where st': "sto_consume ?st n = Some st'" "sto_ok st'" "same_vector ?st st'"
    "\<And>m. sto_bytes st' m = drop n (sto_bytes ?st m)"
    using sto_consume_facts [OF ok] by metis
  have "handed out b m [] (get_bytes m' (take n (uaddrs buffers))) (b\<lparr>storage := st'\<rparr>) m'"
    unfolding handed_def m'(2) using st' user_frame [OF ok user m'(3)] by simp
  then show thesis
    by (intro that [of "b\<lparr>storage := st'\<rparr>" m']) (use m' st' in \<open>simp_all add: brs_copy_def\<close>)
qed

section \<open>Reading\<close>

text \<open>
  One step of the read stream: the next layer delivers \<open>data\<close> at most if the storage is empty, and
  the storage and the first \<open>n\<close> bytes of the user's buffers are all that is written.
\<close>

definition read_step ::
  "('s \<Rightarrow> byte list) \<Rightarrow> bufseq \<Rightarrow> 's bstream \<Rightarrow> mem \<Rightarrow> nat \<Rightarrow> byte list \<Rightarrow> 's bstream \<Rightarrow> mem \<Rightarrow> bool"
where
  "read_step out buffers b m n data b' m' \<longleftrightarrow>
     handed out b m data (get_bytes m' (take n (uaddrs buffers))) b' m' \<and>
     n = min (length (uaddrs buffers)) (length (sto_bytes (storage b) m @ data)) \<and>
     (data \<noteq> [] \<longrightarrow> sto_bytes (storage b) m = []) \<and>
     unchanged_outside (sto_area (storage b) \<union> set (take n (uaddrs buffers))) m m'"

lemma read_step_copy:
  assumes fd: "filled out b m data b1 m1" and user: "user_buffers buffers (storage b)"
    and only: "data \<noteq> [] \<longrightarrow> sto_bytes (storage b) m = []"
  obtains b' m' n where "brs_copy b1 m1 buffers = Some (b', m', n)" "next_layer b' = next_layer b1"
    "read_step out buffers b m n data b' m'"
proof -
  let ?n = "min (length (uaddrs buffers)) (length (sto_bytes (storage b1) m1))"
  have ok1: "sto_ok (storage b1)" and same: "same_vector (storage b) (storage b1)"
    using fd by (simp_all add: filled_def)
  obtain b' m' where c: "brs_copy b1 m1 buffers = Some (b', m', ?n)" "next_layer b' = next_layer b1"
    "handed out b1 m1 [] (get_bytes m' (take ?n (uaddrs buffers))) b' m'"
    "unchanged_outside (set (take ?n (uaddrs buffers))) m1 m'"
    by (rule brs_copy_facts [OF ok1 user_same [OF user same] refl])
  have "unchanged_outside (sto_area (storage b) \<union> set (take ?n (uaddrs buffers))) m m'"
    by (rule unchanged_trans [OF unchanged_mono unchanged_mono [OF c(4)]])
       (use fd in \<open>auto simp: filled_def\<close>)
  moreover have "handed out b m data (get_bytes m' (take ?n (uaddrs buffers))) b' m'"
    using handed_trans [OF filled_handed [OF fd] c(3)] by simp
  moreover have "sto_bytes (storage b1) m1 = sto_bytes (storage b) m @ data" using fd by (simp add: filled_def)
  ultimately show thesis using that [OF c(1,2)] only by (simp add: read_step_def)
qed

lemma read_step_none:
  assumes fd: "filled out b m [] b1 m1" and none: "uaddrs buffers = [] \<or> sto_bytes (storage b) m = []"
  shows "read_step out buffers b m 0 [] b1 m1"
proof -
  have "unchanged_outside (sto_area (storage b)) m m1" using fd by (simp add: filled_def)
  then show ?thesis using filled_handed [OF fd] none by (auto simp: read_step_def)
qed


lemma brs_read_some_ec_step:
  assumes ok: "sto_ok (storage b)" and conf: "conforming_reader out read_some"
    and user: "user_buffers buffers (storage b)"
  shows "\<exists>b' m' n ec data. brs_read_some_ec read_some b m buffers = Some (b', m', n, ec) \<and>
      read_step out buffers b m n data b' m' \<and> read_moved read_some b b' \<and>
      (sto_bytes (storage b) m \<noteq> [] \<or> uaddrs buffers = [] \<longrightarrow>
         next_layer b' = next_layer b \<and> data = [] \<and> ec = Ok_code)"
proof (cases "uaddrs buffers = []")
  case True
  moreover have "read_moved read_some b b" by (simp add: read_moved_def)
  ultimately show ?thesis using read_step_none [OF filled_refl [OF ok]]
    by (intro exI [of _ b] exI [of _ m] exI [of _ 0] exI [of _ Ok_code] exI [of _ "[]"])
       (auto simp: brs_read_some_ec_def buffer_size_eq)
next
  case room: False
  show ?thesis
  proof (cases "sto_empty (storage b)")
    case True
    then have none: "sto_bytes (storage b) m = []" using sto_empty_bytes [OF ok] by blast
    obtain b1 m1 data ec where f: "brs_fill_ec read_some b m = Some (b1, m1, length data, ec)"
      "filled out b m data b1 m1" and moved: "read_moved read_some b b1"
      by (rule brs_fill_ec_facts [OF ok conf])
    show ?thesis
    proof (cases "data = []")
      case True
      then show ?thesis using f moved read_step_none [of out b m b1 m1 buffers] none room \<open>sto_empty (storage b)\<close>
        by (intro exI [of _ b1] exI [of _ m1] exI [of _ 0] exI [of _ ec] exI [of _ "[]"])
           (auto simp: brs_read_some_ec_def buffer_size_eq)
    next
      case False
      obtain b' m' n where c: "brs_copy b1 m1 buffers = Some (b', m', n)" "next_layer b' = next_layer b1"
        "read_step out buffers b m n data b' m'"
        by (rule read_step_copy [OF f(2) user]) (use none in simp)
      moreover have "read_moved read_some b b'" using moved c(2) by (simp add: read_moved_def)
      ultimately show ?thesis using f False none room \<open>sto_empty (storage b)\<close>
        by (intro exI [of _ b'] exI [of _ m'] exI [of _ n] exI [of _ ec] exI [of _ data])
           (auto simp: brs_read_some_ec_def buffer_size_eq)
    qed
  next
    case False
    obtain b' m' n where c: "brs_copy b m buffers = Some (b', m', n)" "next_layer b' = next_layer b"
      "read_step out buffers b m n [] b' m'"
      by (rule read_step_copy [OF filled_refl [OF ok] user]) simp
    moreover have "read_moved read_some b b'" using c(2) by (simp add: read_moved_def)
    ultimately show ?thesis using False room
      by (intro exI [of _ b'] exI [of _ m'] exI [of _ n] exI [of _ Ok_code] exI [of _ "[]"])
         (auto simp: brs_read_some_ec_def buffer_size_eq)
  qed
qed

text \<open>\<open>read_some\<close> on a buffered read stream: no assertion fails, whatever the offsets of the storage.
  The bytes handed to the user followed by those left in the storage are those that were in the
  storage followed by what the next layer delivered: nothing is lost, repeated or reordered. The
  user receives as much as fits, the next layer is asked only when the storage is empty and there is
  room in the user's buffers, and nothing else is written.
\<close>

theorem brs_read_some_correct:
  assumes "sto_ok (storage b)" "conforming_reader out read_some" "user_buffers buffers (storage b)"
  shows "\<exists>b' m' n ec data. brs_read_some_ec read_some b m buffers = Some (b', m', n, ec) \<and>
    sto_ok (storage b') \<and> same_vector (storage b) (storage b') \<and>
    out (next_layer b') = out (next_layer b) @ data \<and>
    get_bytes m' (take n (uaddrs buffers)) @ sto_bytes (storage b') m' = sto_bytes (storage b) m @ data \<and>
    n = min (buffer_size (bufs_of buffers)) (length (sto_bytes (storage b) m @ data)) \<and>
    (sto_bytes (storage b) m \<noteq> [] \<or> buffer_size (bufs_of buffers) = 0 \<longrightarrow>
       next_layer b' = next_layer b \<and> data = [] \<and> ec = Ok_code) \<and>
    unchanged_outside (sto_area (storage b) \<union> set (take n (uaddrs buffers))) m m'"
  using brs_read_some_ec_step [OF assms, of m]
  by (simp add: read_step_def handed_def buffer_size_eq) metis

theorem brs_read_some_correct_witness:
  "\<exists>b' m' n ec data. brs_read_some_ec chunk_reader (brs_new ([], [1, 2, 3]) 100 4) (\<lambda>_. 0)
      (Many [\<lparr>buf_data = 0, buf_size = 1\<rparr>, \<lparr>buf_data = 3, buf_size = 2\<rparr>]) = Some (b', m', n, ec) \<and>
     fst (next_layer b') = data \<and> get_bytes m' (take n [0, 3, 4]) @ sto_bytes (storage b') m' = data"
proof -
  let ?u = "Many [\<lparr>buf_data = 0, buf_size = 1\<rparr>, \<lparr>buf_data = 3, buf_size = 2\<rparr>]"
  have a: "uaddrs ?u = [0, 3, 4]" by (simp add: baddrs_def upt_rec)
  let ?b = "brs_new ([], [1, 2, 3 :: byte]) 100 4"
  have ok: "sto_ok (storage ?b)" by (simp add: brs_new_def sto_new_ok size_max_def)
  have user: "user_buffers ?u (storage ?b)"
    unfolding user_buffers_def a by (simp add: brs_new_def sto_area_def sto_new_def)
  from brs_read_some_correct [OF ok chunk_reader_conforming user, of "\<lambda>_. 0"] show ?thesis
    unfolding a by (simp add: brs_new_def sto_new_ok) blast
qed

section \<open>Flushing and accepting\<close>

lemma baddrs_flush_buffer: "sto_ok st \<Longrightarrow> baddrs (flush_buffer st) = sto_addrs st"
  by (simp add: flush_buffer_def baddrs_limit sto_addrs_data del: sto_size_ok)

text \<open>\<open>flushed out b m n b'\<close>: the next layer has accepted the first \<open>n\<close> bytes of the storage.\<close>

definition flushed :: "('s \<Rightarrow> byte list) \<Rightarrow> 's bstream \<Rightarrow> nat \<Rightarrow> 's bstream \<Rightarrow> mem \<Rightarrow> bool" where
  "flushed out b n b' m \<longleftrightarrow> sto_ok (storage b') \<and> same_vector (storage b) (storage b') \<and>
     n \<le> length (sto_bytes (storage b) m) \<and>
     out (next_layer b') = out (next_layer b) @ take n (sto_bytes (storage b) m) \<and>
     sto_bytes (storage b') m = drop n (sto_bytes (storage b) m)"

lemma flush_write:
  assumes ok: "sto_ok (storage b)" and conf: "conforming_writer out write_some" and prog: "progressing_writer write_some"
  obtains n ec s1 where
    "write_buffer_sequence write_some (next_layer b) m (Single (flush_buffer (storage b))) transfer_all = Some (n, ec, s1)"
    "n \<le> length (sto_bytes (storage b) m)" "out s1 = out (next_layer b) @ take n (sto_bytes (storage b) m)"
    "\<not> failed ec \<longrightarrow> n = length (sto_bytes (storage b) m)"
proof -
  have a: "addrs (arg_bufs (Single (flush_buffer (storage b)))) = sto_addrs (storage b)"
    by (simp add: baddrs_flush_buffer [OF ok])
  have len: "length (sto_addrs (storage b)) = length (sto_bytes (storage b) m)" by (simp add: sto_bytes_def)
  obtain n ec s1 where w: "write_buffer_sequence write_some (next_layer b) m (Single (flush_buffer (storage b)))
      transfer_all = Some (n, ec, s1)" "n \<le> length (sto_addrs (storage b))"
    "out s1 = out (next_layer b) @ get_bytes m (take n (sto_addrs (storage b)))"
    "n = length (sto_addrs (storage b)) \<or> check_for_completion transfer_all ec n = 0"
    using write_returns [OF conf prog, of "Single (flush_buffer (storage b))" transfer_all "next_layer b" m 0]
    unfolding buffer_size_eq a by (simp only: arg_ok.simps library_conditions_stop simp_thms) blast
  show thesis
  proof (rule that [OF w(1)])
    show "n \<le> length (sto_bytes (storage b) m)" using w(2) unfolding len .
    show "out s1 = out (next_layer b) @ take n (sto_bytes (storage b) m)"
      unfolding w(3) sto_bytes_def take_get_bytes ..
    show "\<not> failed ec \<longrightarrow> n = length (sto_bytes (storage b) m)"
      using w(4) unfolding len check_transfer_all by (simp split: if_splits)
  qed
qed

lemma flushed_consume:
  assumes ok: "sto_ok (storage b)" and n: "n \<le> length (sto_bytes (storage b) m)"
    and out: "out s1 = out (next_layer b) @ take n (sto_bytes (storage b) m)"
  obtains st1 where "sto_consume (storage b) n = Some st1"
    "flushed out b n \<lparr>next_layer = s1, storage = st1\<rparr> m"
proof -
  have "n \<le> sto_size (storage b)" using n length_sto_bytes [OF ok, of m] by simp
  then show thesis
    by (rule sto_consume_facts [OF ok], intro that) (use n out in \<open>auto simp: flushed_def\<close>)
qed

text \<open>The next layer's state is the same, or the one after a \<open>write\<close>.\<close>

definition write_moved :: "'s writer \<Rightarrow> mem \<Rightarrow> 's bstream \<Rightarrow> 's bstream \<Rightarrow> bool" where
  "write_moved write_some m b b' \<longleftrightarrow> next_layer b' = next_layer b \<or>
     (\<exists>buf n ec. write_buffer_sequence write_some (next_layer b) m (Single buf) transfer_all =
        Some (n, ec, next_layer b'))"

lemma bws_flush_ec_facts:
  assumes "sto_ok (storage b)" "conforming_writer out write_some" "progressing_writer write_some"
  obtains b' n ec where "bws_flush_ec write_some b m = Some (b', n, ec)" "flushed out b n b' m"
    "\<not> failed ec \<longrightarrow> n = length (sto_bytes (storage b) m)" "write_moved write_some m b b'"
proof (rule flush_write [OF assms, of m])
  fix n ec s1
  assume w: "write_buffer_sequence write_some (next_layer b) m (Single (flush_buffer (storage b))) transfer_all =
      Some (n, ec, s1)" "n \<le> length (sto_bytes (storage b) m)"
    "out s1 = out (next_layer b) @ take n (sto_bytes (storage b) m)"
    "\<not> failed ec \<longrightarrow> n = length (sto_bytes (storage b) m)"
  obtain st1 where c: "sto_consume (storage b) n = Some st1"
    "flushed out b n \<lparr>next_layer = s1, storage = st1\<rparr> m"
    by (rule flushed_consume [OF assms(1) w(2,3)])
  show thesis
    by (rule that [OF _ c(2) w(4)]) (use w(1) c(1) in \<open>auto simp: bws_flush_ec_def write_moved_def\<close>)
qed

text \<open>\<open>accepted b m n buffers b' m'\<close>: the first \<open>n\<close> bytes of the user's are in the storage.\<close>

definition accepted :: "'s bstream \<Rightarrow> mem \<Rightarrow> nat \<Rightarrow> bufseq \<Rightarrow> 's bstream \<Rightarrow> mem \<Rightarrow> bool" where
  "accepted b m n buffers b' m' \<longleftrightarrow> sto_ok (storage b') \<and> same_vector (storage b) (storage b') \<and>
     next_layer b' = next_layer b \<and>
     sto_bytes (storage b') m' = sto_bytes (storage b) m @ get_bytes m (take n (uaddrs buffers)) \<and>
     unchanged_outside (sto_area (storage b)) m m'"

lemma bws_copy_facts:
  assumes ok: "sto_ok (storage b)" and user: "set (uaddrs buffers) \<inter> sto_area (storage b) = {}"
    and n: "n = min (length (uaddrs buffers)) (sto_capacity (storage b) - sto_size (storage b))"
  obtains b' m' where "bws_copy b m buffers = Some (b', m', n)" "accepted b m n buffers b' m'"
proof -
  let ?st = "storage b" and ?k = "sto_size (storage b)" and ?u = "uaddrs buffers"
  have kc: "?k \<le> sto_capacity ?st" using ok by (auto simp: sto_ok_def)
  then have le: "?k + n \<le> sto_capacity ?st" using n by simp
  obtain st1 m1 where r: "sto_resize ?st m (?k + n) = Some (st1, m1)" and ok1: "sto_ok st1"
    and same: "same_vector ?st st1" and size: "sto_size st1 = ?k + n"
    and pre: "take ?k (sto_bytes st1 m1) = take (?k + n) (sto_bytes ?st m)"
    and unch: "unchanged_outside (sto_area ?st) m m1"
    by (rule sto_resize_facts [OF ok le, of m]) blast
  let ?t = "buf_plus (sto_data st1) ?k" and ?d = "baddrs (sto_data st1)"
  have lend: "?k + n \<le> length ?d"
    using size ok1 by (auto simp: baddrs_sto_data sto_ok_def simp del: length_baddrs)
  have area: "set ?d \<subseteq> sto_area ?st"
    using ok1 unfolding same_vector_area [OF same, symmetric] by (auto simp: baddrs_sto_data sto_area_def)
  have dj: "set (addrs (bufs_of (One ?t))) \<inter> set ?u = {}"
    using area user by (auto simp: baddrs_plus dest: in_set_dropD)
  have "min n (min (length (baddrs ?t)) (length ?u)) = n"
    using lend n by (simp add: baddrs_plus del: length_baddrs sto_size_ok)
  then have cp: "buffer_copy_max m1 (One ?t) buffers n = Some (copied m1 (drop ?k ?d) ?u n, n)"
    using buffer_copy_max_copied [OF dj, of m1 n] by (simp add: Let_def baddrs_plus del: length_baddrs sto_size_ok)
  have len: "(if length ?u < size_sub (sto_capacity ?st) ?k then length ?u else size_sub (sto_capacity ?st) ?k) = n"
    using n kc by (auto simp: size_sub_def)
  let ?m = "copied m1 (drop ?k ?d) ?u n"
  have c: "bws_copy b m buffers = Some (b\<lparr>storage := st1\<rparr>, ?m, n)"
    unfolding bws_copy_def Let_def buffer_size_eq len using r cp by simp
  have src: "get_bytes m1 (take n ?u) = get_bytes m (take n ?u)"
    by (rule unchanged_get [OF unch]) (use user in \<open>auto dest: in_set_takeD\<close>)
  have dd: "distinct ?d" by (simp add: baddrs_def)
  have split: "sto_addrs st1 = take ?k ?d @ take n (drop ?k ?d)"
    unfolding sto_addrs_data [OF ok1] size by (rule take_add)
  have "take ?k (sto_bytes st1 m1) = get_bytes m1 (take ?k ?d)"
    using lend unfolding sto_bytes_def split by (simp add: take_get_bytes del: length_baddrs sto_size_ok)
  then have pre': "get_bytes m1 (take ?k ?d) = sto_bytes ?st m"
    using pre length_sto_bytes [OF ok, of m] by simp
  have "set (take ?k ?d) \<inter> set (take n (drop ?k ?d)) = {}"
    using dd by (auto simp: set_take_disj_set_drop_if_distinct dest!: in_set_takeD [of _ n])
       (metis disjoint_iff order_refl set_take_disj_set_drop_if_distinct)
  then have old: "get_bytes ?m (take ?k ?d) = sto_bytes ?st m"
    unfolding copied_def by (simp add: get_bytes_frame pre')
  have new: "get_bytes ?m (take n (drop ?k ?d)) = get_bytes m (take n ?u)"
    unfolding copied_def src using lend n dd
    by (intro get_put_bytes) (simp_all del: length_baddrs sto_size_ok)
  have "unchanged_outside (sto_area ?st) m ?m"
    unfolding copied_def
    by (rule unchanged_trans [OF unch], rule unchanged_put)
      (use area in \<open>auto dest!: in_set_takeD in_set_dropD\<close>)
  moreover have "sto_bytes st1 ?m = sto_bytes ?st m @ get_bytes m (take n ?u)"
    unfolding sto_bytes_def [of st1] split using old new by simp
  ultimately have "accepted b m n buffers (b\<lparr>storage := st1\<rparr>) ?m"
    using ok1 same by (simp add: accepted_def)
  then show thesis by (rule that [OF c])
qed


section \<open>Writing\<close>

definition write_step ::
  "('s \<Rightarrow> byte list) \<Rightarrow> bufseq \<Rightarrow> 's bstream \<Rightarrow> mem \<Rightarrow> nat \<Rightarrow> 's bstream \<Rightarrow> mem \<Rightarrow> bool"
where
  "write_step out buffers b m n b' m' \<longleftrightarrow> sto_ok (storage b') \<and> same_vector (storage b) (storage b') \<and>
     n \<le> length (uaddrs buffers) \<and>
     out (next_layer b') @ sto_bytes (storage b') m' =
       out (next_layer b) @ sto_bytes (storage b) m @ get_bytes m (take n (uaddrs buffers)) \<and>
     unchanged_outside (sto_area (storage b)) m m'"

lemma flushed_refl: "sto_ok (storage b) \<Longrightarrow> flushed out b 0 b m"
  by (simp add: flushed_def)

lemma flushed_step: "flushed out b k b1 m \<Longrightarrow> write_step out buffers b m 0 b1 m"
  unfolding flushed_def write_step_def by simp

lemma flushed_space:
  assumes ok: "sto_ok (storage b)" and fl: "flushed out b k b1 m"
  shows "sto_capacity (storage b1) - sto_size (storage b1) =
    sto_capacity (storage b) - sto_size (storage b) + k"
proof -
  have "sto_size (storage b1) = sto_size (storage b) - k" "k \<le> sto_size (storage b)"
    using fl length_sto_bytes [of "storage b1" m] length_sto_bytes [OF ok, of m]
    by (auto simp: flushed_def simp del: sto_size_ok)
  moreover have "sto_size (storage b) \<le> sto_capacity (storage b)" using ok by (auto simp: sto_ok_def)
  ultimately show ?thesis using fl by (simp add: flushed_def same_vector_def del: sto_size_ok)
qed

lemma flushed_copy:
  assumes ok: "sto_ok (storage b)" and fl: "flushed out b k b1 m"
    and user: "set (uaddrs buffers) \<inter> sto_area (storage b) = {}"
    and n: "n = min (length (uaddrs buffers)) (sto_capacity (storage b) - sto_size (storage b) + k)"
  obtains b' m' where "bws_copy b1 m buffers = Some (b', m', n)" "next_layer b' = next_layer b1"
    "write_step out buffers b m n b' m'"
proof -
  have ok1: "sto_ok (storage b1)" and same: "same_vector (storage b) (storage b1)"
    using fl by (simp_all add: flushed_def)
  obtain b' m' where c: "bws_copy b1 m buffers = Some (b', m', n)" "accepted b1 m n buffers b' m'"
    by (rule bws_copy_facts [OF ok1 _ n [folded flushed_space [OF ok fl]]])
       (use user in \<open>simp add: same_vector_area [OF same]\<close>)
  have eq: "out (next_layer b1) @ sto_bytes (storage b1) m = out (next_layer b) @ sto_bytes (storage b) m"
    using fl by (simp add: flushed_def)
  have "write_step out buffers b m n b' m'"
    using c(2) n same eq same_vector_area [OF same] unfolding write_step_def accepted_def
    by (auto intro: same_vector_trans simp flip: append_assoc)
  then show thesis using c by (intro that) (simp_all add: accepted_def)
qed

lemma bws_write_some_ec_step:
  assumes ok: "sto_ok (storage b)" and conf: "conforming_writer out write_some" and prog: "progressing_writer write_some"
    and user: "set (uaddrs buffers) \<inter> sto_area (storage b) = {}"
  shows "\<exists>b' m' n ec. bws_write_some_ec write_some b m buffers = Some (b', m', n, ec) \<and>
      write_step out buffers b m n b' m' \<and> write_moved write_some m b b' \<and>
      (sto_size (storage b) < sto_capacity (storage b) \<longrightarrow> next_layer b' = next_layer b \<and> ec = Ok_code) \<and>
      (\<not> failed ec \<and> 0 < sto_capacity (storage b) \<longrightarrow>
         n = min (length (uaddrs buffers))
               (if sto_size (storage b) = sto_capacity (storage b) then sto_capacity (storage b)
                else sto_capacity (storage b) - sto_size (storage b)))"
proof (cases "uaddrs buffers = []")
  case True
  moreover have "write_moved write_some m b b" by (simp add: write_moved_def)
  ultimately show ?thesis using flushed_step [OF flushed_refl [OF ok]]
    by (intro exI [of _ b] exI [of _ m] exI [of _ 0] exI [of _ Ok_code])
       (simp add: bws_write_some_ec_def buffer_size_eq)
next
  case room: False
  show ?thesis
  proof (cases "sto_size (storage b) = sto_capacity (storage b)")
    case True
    obtain b1 k ec where f: "bws_flush_ec write_some b m = Some (b1, k, ec)" "flushed out b k b1 m"
      "\<not> failed ec \<longrightarrow> k = length (sto_bytes (storage b) m)"
      and moved: "write_moved write_some m b b1"
      by (rule bws_flush_ec_facts [OF ok conf prog])
    have full: "\<not> failed ec \<longrightarrow> k = sto_capacity (storage b)" using f(3) length_sto_bytes [OF ok, of m] True by simp
    show ?thesis
    proof (cases "k = 0")
      case True
      then show ?thesis using f full moved flushed_step [OF f(2)] \<open>sto_size (storage b) = sto_capacity (storage b)\<close> room
        by (intro exI [of _ b1] exI [of _ m] exI [of _ 0] exI [of _ ec])
           (auto simp: bws_write_some_ec_def buffer_size_eq simp del: sto_size_ok)
    next
      case False
      obtain b' m' where c: "bws_copy b1 m buffers = Some (b', m', min (length (uaddrs buffers)) (sto_capacity (storage b) - sto_size (storage b) + k))" "next_layer b' = next_layer b1"
        "write_step out buffers b m (min (length (uaddrs buffers)) (sto_capacity (storage b) - sto_size (storage b) + k)) b' m'"
        by (rule flushed_copy [OF ok f(2) user refl])
      moreover have "write_moved write_some m b b'" using moved c(2) by (simp add: write_moved_def)
      ultimately show ?thesis using f full False \<open>sto_size (storage b) = sto_capacity (storage b)\<close> room
        by (intro exI [of _ b'] exI [of _ m'] exI [of _ "min (length (uaddrs buffers)) (sto_capacity (storage b) - sto_size (storage b) + k)"] exI [of _ ec])
           (simp add: bws_write_some_ec_def buffer_size_eq del: sto_size_ok)
    qed
  next
    case False
    obtain b' m' where c: "bws_copy b m buffers = Some (b', m', min (length (uaddrs buffers)) (sto_capacity (storage b) - sto_size (storage b) + 0))"
      "next_layer b' = next_layer b" "write_step out buffers b m (min (length (uaddrs buffers)) (sto_capacity (storage b) - sto_size (storage b) + 0)) b' m'"
      by (rule flushed_copy [OF ok flushed_refl [OF ok] user refl])
    moreover have "write_moved write_some m b b'" using c(2) by (simp add: write_moved_def)
    ultimately show ?thesis using False room
      by (intro exI [of _ b'] exI [of _ m'] exI [of _ "min (length (uaddrs buffers)) (sto_capacity (storage b) - sto_size (storage b))"] exI [of _ Ok_code])
         (simp add: bws_write_some_ec_def buffer_size_eq del: sto_size_ok)
  qed
qed

text \<open>\<open>write_some\<close> on a buffered write stream: no assertion fails and the operation returns. What
  the next layer has accepted, followed by what is in the storage, grows by exactly the first \<open>n\<close>
  bytes of the user's buffers: nothing is lost, repeated or reordered. The next layer is used only
  when the storage is full; without an error and with a storage of non-zero capacity something is
  accepted; and only the storage is written.
\<close>

theorem bws_write_some_correct:
  assumes "sto_ok (storage b)" "conforming_writer out write_some" "progressing_writer write_some"
    and "set (uaddrs buffers) \<inter> sto_area (storage b) = {}"
  shows "\<exists>b' m' n ec. bws_write_some_ec write_some b m buffers = Some (b', m', n, ec) \<and>
    sto_ok (storage b') \<and> same_vector (storage b) (storage b') \<and> n \<le> buffer_size (bufs_of buffers) \<and>
    out (next_layer b') @ sto_bytes (storage b') m' =
      out (next_layer b) @ sto_bytes (storage b) m @ get_bytes m (take n (uaddrs buffers)) \<and>
    (sto_size (storage b) < sto_capacity (storage b) \<longrightarrow> next_layer b' = next_layer b \<and> ec = Ok_code) \<and>
    (\<not> failed ec \<and> 0 < sto_capacity (storage b) \<longrightarrow>
       n = min (buffer_size (bufs_of buffers))
             (if sto_size (storage b) = sto_capacity (storage b) then sto_capacity (storage b)
              else sto_capacity (storage b) - sto_size (storage b))) \<and>
    unchanged_outside (sto_area (storage b)) m m'"
  using bws_write_some_ec_step [OF assms, of m] unfolding write_step_def buffer_size_eq by blast

theorem bws_write_some_correct_witness:
  "\<exists>b' m' n ec. bws_write_some_ec chunk_writer (brs_new [] 100 2) of_nat (One \<lparr>buf_data = 10, buf_size = 3\<rparr>) =
      Some (b', m', n, ec) \<and> next_layer b' @ sto_bytes (storage b') m' = take n [10, 11, 12]"
proof -
  let ?u = "One \<lparr>buf_data = 10, buf_size = 3\<rparr>" and ?b = "brs_new [] 100 2 :: byte list bstream"
  have a: "uaddrs ?u = [10, 11, 12]" by (simp add: baddrs_def upt_rec)
  have ok: "sto_ok (storage ?b)" by (simp add: brs_new_def sto_new_ok size_max_def)
  have user: "set (uaddrs ?u) \<inter> sto_area (storage ?b) = {}"
    unfolding a by (simp add: brs_new_def sto_area_def sto_new_def)
  from bws_write_some_correct [OF ok chunk_writer_conforming chunk_writer_progressing user, of of_nat] show ?thesis
    unfolding a by (auto simp: brs_new_def sto_new_ok get_bytes_def take_map [symmetric])
qed

end
