(* ===== verification/BufferedSession.thy ===== *)
theory BufferedSession
  imports BufferedProps
begin

text \<open>
  The buffered streams at work: what a flush that fails part of the way does to the three overloads
  of a write, the asynchronous operations against the synchronous ones, and sessions of arbitrary
  operations on a \<open>buffered_stream\<close>.
\<close>

section \<open>Flushes that fail part of the way\<close>

text \<open>C27: a write that finds the storage full, and whose flush sends \<open>k > 0\<close> bytes before it fails. The
  overload with an error code reports the error and a number of bytes that is not zero; the
  asynchronous operation reports the same error and zero bytes; and the overload that throws leaves
  in the storage the \<open>k\<close> bytes that the next layer already has, so that the next flush sends them a
  second time.
\<close>

theorem bws_partial_flush:
  assumes "sto_ok (storage b)" "conforming_writer out write_some" "progressing_writer write_some"
    and "set (uaddrs buffers) \<inter> sto_area (storage b) = {}" "uaddrs buffers \<noteq> []"
    and "sto_size (storage b) = sto_capacity (storage b)"
    and "write_buffer_sequence write_some (next_layer b) m (Single (flush_buffer (storage b))) transfer_all =
      Some (k, ec, s1)" "failed ec" "0 < k"
  shows "(\<exists>b' m' n. bws_write_some_ec write_some b m buffers = Some (b', m', n, ec) \<and>
      n = min (buffer_size (bufs_of buffers)) k \<and> 0 < n) \<and>
    (\<exists>b'. bws_async_write_some write_some b m buffers = Some (b', m, 0, ec)) \<and>
    bws_write_some write_some b m buffers = Some (b\<lparr>next_layer := s1\<rparr>, m, Inl (System_error ec)) \<and>
    out s1 @ sto_bytes (storage b) m =
      out (next_layer b) @ take k (sto_bytes (storage b) m) @ sto_bytes (storage b) m"
proof -
  note ok = assms(1) and user = assms(4) and room = assms(5) and full = assms(6) and w = assms(7)
  have k: "k \<le> length (sto_bytes (storage b) m)"
    "out s1 = out (next_layer b) @ take k (sto_bytes (storage b) m)"
    by (rule flush_write [OF assms(1-3), of m], use w in simp)+
  obtain st1 where c: "sto_consume (storage b) k = Some st1"
    "flushed out b k \<lparr>next_layer = s1, storage = st1\<rparr> m"
    by (rule flushed_consume [OF ok k])
  let ?b = "\<lparr>next_layer = s1, storage = st1\<rparr>"
  have fl: "bws_flush_ec write_some b m = Some (?b, k, ec)" by (simp add: bws_flush_ec_def w c(1))
  let ?n = "min (length (uaddrs buffers)) (sto_capacity (storage b) - sto_size (storage b) + k)"
  obtain b' m' where cp: "bws_copy ?b m buffers = Some (b', m', ?n)"
    by (rule flushed_copy [OF ok c(2) user refl])
  have n: "?n = min (length (uaddrs buffers)) k" using full by simp
  have "bws_write_some_ec write_some b m buffers = Some (b', m', min (length (uaddrs buffers)) k, ec)"
    using fl cp assms(9) room full unfolding n
    by (simp add: bws_write_some_ec_def buffer_size_eq del: sto_size_ok)
  moreover have "bws_async_write_some write_some b m buffers = Some (b\<lparr>next_layer := s1, storage := st1\<rparr>, m, 0, ec)"
    using w c(1) room full assms(8)
    by (simp add: bws_async_write_some_def initiate_async_buffered_write_some_def buffered_flush_handler_def
        buffered_write_some_handler_def buffer_size_eq del: sto_size_ok)
  moreover have "bws_write_some write_some b m buffers = Some (b\<lparr>next_layer := s1\<rparr>, m, Inl (System_error ec))"
    using w room full assms(8)
    by (simp add: bws_write_some_def bws_flush_def write_throw_def throw_error_def buffer_size_eq del: sto_size_ok)
  moreover have "0 < min (length (uaddrs buffers)) k" using room assms(9) by simp
  ultimately show ?thesis using k(2) unfolding buffer_size_eq by auto
qed

text \<open>A stream that accepts one byte and fails from then on.\<close>

definition one_byte_writer :: "byte list writer" where
  "one_byte_writer s bss =
     (if s = [] then (take 1 (concat bss), length (take 1 (concat bss)), Ok_code) else (s, 0, Sys_error 32))"

lemma one_byte_writer_ok: "conforming_writer id one_byte_writer" "progressing_writer one_byte_writer"
  by (auto simp: conforming_writer_def progressing_writer_def one_byte_writer_def min_def)

definition full_demo :: "byte list bstream" where
  "full_demo = \<lparr>next_layer = [], storage = \<lparr>begin_offset = 0, end_offset = 2, sto_base = 100, sto_capacity = 2\<rparr>\<rparr>"

lemmas write_eval = sto_data_def sto_buffer_def flush_buffer_def buf_plus_def buf_limit_def sto_size_def
  size_sub_def csb_new_def csb_empty_def csb_prepare_def csb_consume_def transfer_all_def
  default_max_transfer_size_def buf_bytes_def baddrs_def upt_rec

lemma full_demo_flush:
  "write_buffer_sequence one_byte_writer (next_layer full_demo) of_nat (Single (flush_buffer (storage full_demo)))
     transfer_all = Some (1, Sys_error 32, [100])"
  unfolding write_buffer_sequence_def
  by (subst write_loop.simps, simp add: write_eval full_demo_def one_byte_writer_def)+

theorem bws_partial_flush_witness:
  "(\<exists>b' m' n. bws_write_some_ec one_byte_writer full_demo of_nat (One \<lparr>buf_data = 10, buf_size = 3\<rparr>) =
       Some (b', m', n, Sys_error 32) \<and> 0 < n) \<and>
   bws_write_some one_byte_writer full_demo of_nat (One \<lparr>buf_data = 10, buf_size = 3\<rparr>) =
       Some (full_demo\<lparr>next_layer := [100]\<rparr>, of_nat, Inl (System_error (Sys_error 32)))"
proof -
  let ?u = "One \<lparr>buf_data = 10, buf_size = 3\<rparr>"
  have a: "uaddrs ?u = [10, 11, 12]" by (simp add: baddrs_def upt_rec)
  have ok: "sto_ok (storage full_demo)" "set (uaddrs ?u) \<inter> sto_area (storage full_demo) = {}" "uaddrs ?u \<noteq> []"
    "sto_size (storage full_demo) = sto_capacity (storage full_demo)"
    unfolding a by (simp_all add: full_demo_def sto_ok_def size_max_def sto_area_def)
  from bws_partial_flush [OF ok(1) one_byte_writer_ok ok(2-4) full_demo_flush] show ?thesis by auto
qed

section \<open>Asynchronous operations\<close>

text \<open>The next layer completes a read or a write of no bytes at once and without an error.\<close>

definition null_read :: "'s reader \<Rightarrow> bool" where
  "null_read read_some \<longleftrightarrow> (\<forall>s. read_some s [0] = (s, [], Ok_code))"

definition null_write :: "'s writer \<Rightarrow> bool" where
  "null_write write_some \<longleftrightarrow> (\<forall>s. write_some s [[]] = (s, 0, Ok_code))"

lemma bstream_both [simp]: "b\<lparr>next_layer := s, storage := st\<rparr> = \<lparr>next_layer = s, storage = st\<rparr>"
  by (cases b) simp

lemma sto_consume_0: "sto_ok st \<Longrightarrow> \<not> sto_empty st \<Longrightarrow> sto_consume st 0 = Some st"
  by (simp add: sto_consume_def sto_ok_def sto_empty_def)

lemma read_handler_copy:
  assumes "\<not> failed ec" "\<not> sto_empty (storage b)"
  shows "buffered_read_some_handler b m buffers ec =
    map_option (\<lambda>(b', m', n). (b', m', n, ec)) (brs_copy b m buffers)"
  using assms by (auto simp: buffered_read_some_handler_def brs_copy_def split: Option.bind_splits)

lemma copy_nothing:
  assumes "sto_ok (storage b)" "\<not> sto_empty (storage b)" "uaddrs buffers = []"
  shows "brs_copy b m buffers = Some (b, m, 0)"
proof -
  have "buffer_copy_max m buffers (One (sto_data (storage b))) (sto_size (storage b)) = Some (m, 0)"
    using assms buffer_copy_max_copied [of buffers "One (sto_data (storage b))" m "sto_size (storage b)"]
    by (simp add: copied_def)
  then show ?thesis using sto_consume_0 [OF assms(1,2)] by (simp add: brs_copy_def)
qed

lemma async_fill_read:
  assumes ok: "sto_ok (storage b)" and conf: "conforming_reader out read_some" and clean: "clean_reader read_some"
    and empty: "sto_empty (storage b)" and room: "uaddrs buffers \<noteq> []"
  shows "brs_async_read_some read_some b m buffers = brs_read_some_ec read_some b m buffers"
proof (rule fill_round [OF ok conf, of m])
  fix st1 m1 s1 data ec st2 m2
  assume r: "sto_resize (storage b) m (sto_capacity (storage b)) = Some (st1, m1)"
    "read_some (next_layer b) [buf_size (fill_buffer st1 (sto_size (storage b)))] = (s1, data, ec)"
    "buf_size (fill_buffer st1 (sto_size (storage b))) = sto_capacity (storage b) - sto_size (storage b)"
    "sto_resize st1 (put_bytes m1 (baddrs (fill_buffer st1 (sto_size (storage b)))) data)
       (sto_size (storage b) + length data) = Some (st2, m2)"
    "size_sub (sto_size st2) (sto_size (storage b)) = length data"
    and fd: "filled out b m data \<lparr>next_layer = s1, storage = st2\<rparr> m2"
  let ?b = "\<lparr>next_layer = s1, storage = st2\<rparr>"
  have f: "brs_fill_ec read_some b m = Some (?b, m2, length data, ec)"
    unfolding brs_fill_ec_def using r by (simp add: Let_def del: sto_size_ok)
  have a: "brs_async_read_some read_some b m buffers = buffered_read_some_handler ?b m2 buffers ec"
    unfolding brs_async_read_some_def initiate_async_buffered_read_some_def initiate_async_buffered_fill_def
      buffered_fill_handler_def
    using r empty room by (simp add: buffer_size_eq Let_def del: sto_size_ok)
  have none: "sto_bytes (storage b) m = []" using empty sto_empty_bytes [OF ok] by blast
  then have emp: "sto_empty st2 \<longleftrightarrow> data = []"
    using fd sto_empty_bytes [of st2 m2] by (simp add: filled_def)
  have cl: "failed ec \<Longrightarrow> data = []" by (rule clean_readerD [OF clean r(2)])
  show ?thesis
  proof (cases "data = []")
    case True
    then show ?thesis unfolding a using f empty room emp
      by (simp add: brs_read_some_ec_def buffered_read_some_handler_def buffer_size_eq)
  next
    case False
    then have "\<not> failed ec" "\<not> sto_empty (storage ?b)" using cl emp by auto
    then show ?thesis unfolding a read_handler_copy [OF \<open>\<not> failed ec\<close> \<open>\<not> sto_empty (storage ?b)\<close>]
      using f empty room False
      by (auto simp: brs_read_some_ec_def buffer_size_eq map_option_case split: Option.bind_splits option.splits)
  qed
qed

lemma brs_async_read_ec:
  assumes "sto_ok (storage b)" "conforming_reader out read_some" "clean_reader read_some" "null_read read_some"
  shows "brs_async_read_some read_some b m buffers = brs_read_some_ec read_some b m buffers"
proof (cases "uaddrs buffers = [] \<or> \<not> sto_empty (storage b)")
  case True
  have a: "brs_async_read_some read_some b m buffers = buffered_read_some_handler b m buffers Ok_code"
    unfolding brs_async_read_some_def initiate_async_buffered_read_some_def
    using True assms(4) by (auto simp: buffer_size_eq null_read_def)
  show ?thesis
  proof (cases "sto_empty (storage b)")
    case empty: True
    then show ?thesis unfolding a using True
      by (simp add: brs_read_some_ec_def buffered_read_some_handler_def buffer_size_eq)
  next
    case False
    then have h: "buffered_read_some_handler b m buffers Ok_code =
        map_option (\<lambda>(b', m', n). (b', m', n, Ok_code)) (brs_copy b m buffers)"
      by (rule read_handler_copy [rotated]) simp
    show ?thesis
    proof (cases "uaddrs buffers = []")
      case True
      then show ?thesis unfolding a h using copy_nothing [OF assms(1) False True]
        by (simp add: brs_read_some_ec_def buffer_size_eq)
    next
      case room: False
      then show ?thesis unfolding a h using False
        by (auto simp: brs_read_some_ec_def buffer_size_eq map_option_case split: Option.bind_splits option.splits)
    qed
  qed
next
  case False
  then show ?thesis by (intro async_fill_read [OF assms(1-3)]) auto
qed

text \<open>The throwing overloads.\<close>

lemma brs_fill_throws:
  assumes ok: "sto_ok (storage b)" and conf: "conforming_reader out read_some" and clean: "clean_reader read_some"
  obtains b' m' data ec where "brs_fill_ec read_some b m = Some (b', m', length data, ec)"
    "brs_fill read_some b m = Some (b', m', throw_error ec (length data))"
    "failed ec \<longrightarrow> data = []" "filled out b m data b' m'" "begin_offset (storage b') = 0"
proof (rule fill_round [OF ok conf, of m])
  fix st1 m1 s1 data ec st2 m2
  assume r: "sto_resize (storage b) m (sto_capacity (storage b)) = Some (st1, m1)"
    "read_some (next_layer b) [buf_size (fill_buffer st1 (sto_size (storage b)))] = (s1, data, ec)"
    "buf_size (fill_buffer st1 (sto_size (storage b))) = sto_capacity (storage b) - sto_size (storage b)"
    "sto_resize st1 (put_bytes m1 (baddrs (fill_buffer st1 (sto_size (storage b)))) data)
       (sto_size (storage b) + length data) = Some (st2, m2)"
    "size_sub (sto_size st2) (sto_size (storage b)) = length data"
    and fd: "filled out b m data \<lparr>next_layer = s1, storage = st2\<rparr> m2" and beg: "begin_offset st2 = 0"
  have cl: "failed ec \<longrightarrow> data = []" using clean_readerD [OF clean r(2)] by blast
  have "brs_fill_ec read_some b m = Some (\<lparr>next_layer = s1, storage = st2\<rparr>, m2, length data, ec)"
    unfolding brs_fill_ec_def using r by (simp add: Let_def del: sto_size_ok)
  moreover have "brs_fill read_some b m =
      Some (\<lparr>next_layer = s1, storage = st2\<rparr>, m2, throw_error ec (length data))"
    unfolding brs_fill_def using r cl
    by (cases "failed ec") (simp_all add: Let_def throw_error_def guard_rollback [OF ok] del: sto_size_ok)
  ultimately show thesis by (rule that) (use cl fd beg in simp_all)
qed

lemma copy_from_empty:
  assumes ok: "sto_ok (storage b)" and "sto_empty (storage b)" "begin_offset (storage b) = 0"
    and user: "user_buffers buffers (storage b)"
  shows "brs_copy b m buffers = Some (b, m, 0)"
proof -
  have sz: "sto_size (storage b) = 0" using ok assms(2) by (simp add: sto_empty_def)
  have dj: "set (uaddrs buffers) \<inter> set (addrs (bufs_of (One (sto_data (storage b))))) = {}"
    using user ok by (auto simp: user_buffers_def baddrs_sto_data sto_area_def disjoint_iff)
  have "buffer_copy_max m buffers (One (sto_data (storage b))) (sto_size (storage b)) = Some (m, 0)"
    unfolding sz buffer_copy_max_copied [OF dj] by (simp add: copied_def)
  moreover have "sto_consume (storage b) 0 = Some (storage b)"
    using assms(2,3) by (simp add: sto_consume_def sto_empty_def sto_clear_def)
  ultimately show ?thesis by (simp add: brs_copy_def)
qed

lemma brs_read_throws:
  assumes ok: "sto_ok (storage b)" and conf: "conforming_reader out read_some" and clean: "clean_reader read_some"
    and user: "user_buffers buffers (storage b)"
  shows "brs_read_some read_some b m buffers =
    map_option (\<lambda>(b', m', n, ec). (b', m', throw_error ec n)) (brs_read_some_ec read_some b m buffers)"
proof (cases "sto_empty (storage b) \<and> uaddrs buffers \<noteq> []")
  case True
  obtain b1 m1 data ec where f: "brs_fill_ec read_some b m = Some (b1, m1, length data, ec)"
    "brs_fill read_some b m = Some (b1, m1, throw_error ec (length data))"
    "failed ec \<longrightarrow> data = []" "filled out b m data b1 m1" "begin_offset (storage b1) = 0"
    by (rule brs_fill_throws [OF ok conf clean])
  have ok1: "sto_ok (storage b1)" and user1: "user_buffers buffers (storage b1)"
    using f(4) user by (auto simp: filled_def intro: user_same)
  show ?thesis
  proof (cases "data = []")
    case none: True
    have "sto_empty (storage b1)" using f(4) none True sto_empty_bytes [OF ok1, of m1] sto_empty_bytes [OF ok, of m]
      by (simp add: filled_def)
    from copy_from_empty [OF ok1 this f(5) user1] show ?thesis
      using f none True by (simp add: brs_read_some_def brs_read_some_ec_def buffer_size_eq throw_error_def)
  next
    case False
    then show ?thesis using f True
      by (auto simp: brs_read_some_def brs_read_some_ec_def buffer_size_eq throw_error_def map_option_case
          split: Option.bind_splits option.splits)
  qed
next
  case False
  then show ?thesis
    by (auto simp: brs_read_some_def brs_read_some_ec_def buffer_size_eq throw_error_def map_option_case
        split: Option.bind_splits option.splits)
qed

text \<open>C28: the three overloads of \<open>read_some\<close> on a buffered read stream agree, over a next layer that
  completes empty reads at once and delivers nothing with an error. The asynchronous one, from the
  initiating function through the completion of the next layer's read to the handlers, does exactly
  what the one with an error code does; the throwing one leaves the same state, rolled back by its
  guard when it throws, and throws exactly when the other reports an error.
\<close>

theorem brs_overloads_agree:
  assumes "sto_ok (storage b)" "conforming_reader out read_some" "clean_reader read_some" "null_read read_some"
    and "user_buffers buffers (storage b)"
  shows "brs_async_read_some read_some b m buffers = brs_read_some_ec read_some b m buffers \<and>
    brs_read_some read_some b m buffers =
      map_option (\<lambda>(b', m', n, ec). (b', m', throw_error ec n)) (brs_read_some_ec read_some b m buffers)"
  using brs_async_read_ec [OF assms(1-4)] brs_read_throws [OF assms(1-3,5)] by blast


definition null_ok_reader :: "(byte list \<times> byte list) reader" where
  "null_ok_reader s sizes = (if sum_list sizes = 0 then (s, [], Ok_code) else chunk_reader s sizes)"

lemma null_ok_reader_facts: "conforming_reader fst null_ok_reader" "clean_reader null_ok_reader" "null_read null_ok_reader"
  using chunk_reader_conforming
  by (auto simp: conforming_reader_def clean_reader_def null_read_def null_ok_reader_def chunk_reader_def Let_def
      split: prod.splits if_splits)

theorem brs_overloads_agree_witness:
  "brs_async_read_some null_ok_reader (brs_new ([], [1, 2, 3]) 100 4) (\<lambda>_. 0) (One \<lparr>buf_data = 10, buf_size = 3\<rparr>) =
   brs_read_some_ec null_ok_reader (brs_new ([], [1, 2, 3]) 100 4) (\<lambda>_. 0) (One \<lparr>buf_data = 10, buf_size = 3\<rparr>)"
proof -
  let ?u = "One \<lparr>buf_data = 10, buf_size = 3\<rparr>" and ?b = "brs_new ([], [1, 2, 3 :: byte]) 100 4"
  have a: "uaddrs ?u = [10, 11, 12]" by (simp add: baddrs_def upt_rec)
  have ok: "sto_ok (storage ?b)" by (simp add: brs_new_def sto_new_ok size_max_def)
  have user: "user_buffers ?u (storage ?b)"
    unfolding user_buffers_def a by (simp add: brs_new_def sto_area_def sto_new_def)
  from brs_overloads_agree [OF ok null_ok_reader_facts user] show ?thesis by blast
qed

section \<open>Sessions\<close>

text \<open>
  The calls a user makes on a \<open>buffered_stream\<close>. A session records the bytes the user has received
  (\<open>got\<close>) and those the stream has accepted from the user (\<open>put\<close>).
\<close>

datatype bst_op = Bst_fill | Bst_read bufseq | Bst_peek bufseq | Bst_flush | Bst_write bufseq

record 's session =
  ses_stream :: "'s buffered_stream"
  ses_mem :: mem
  ses_got :: "byte list"
  ses_put :: "byte list"

fun bst_do :: "'s reader \<Rightarrow> 's writer \<Rightarrow> 's session \<Rightarrow> bst_op \<Rightarrow> 's session option" where
  "bst_do read_some write_some x Bst_fill = do {
     (b1, m1, n, ec) \<leftarrow> bst_fill_ec read_some (ses_stream x) (ses_mem x);
     Some (x\<lparr>ses_stream := b1, ses_mem := m1\<rparr>)
   }"
| "bst_do read_some write_some x (Bst_read buffers) = do {
     (b1, m1, n, ec) \<leftarrow> bst_read_some_ec read_some (ses_stream x) (ses_mem x) buffers;
     Some (x\<lparr>ses_stream := b1, ses_mem := m1, ses_got := ses_got x @ get_bytes m1 (take n (uaddrs buffers))\<rparr>)
   }"
| "bst_do read_some write_some x (Bst_peek buffers) = do {
     (b1, m1, n, ec) \<leftarrow> bst_peek_ec read_some (ses_stream x) (ses_mem x) buffers;
     Some (x\<lparr>ses_stream := b1, ses_mem := m1\<rparr>)
   }"
| "bst_do read_some write_some x Bst_flush = do {
     (b1, n, ec) \<leftarrow> bst_flush_ec write_some (ses_stream x) (ses_mem x);
     Some (x\<lparr>ses_stream := b1\<rparr>)
   }"
| "bst_do read_some write_some x (Bst_write buffers) = do {
     (b1, m1, n, ec) \<leftarrow> bst_write_some_ec write_some (ses_stream x) (ses_mem x) buffers;
     Some (x\<lparr>ses_stream := b1, ses_mem := m1,
            ses_put := ses_put x @ get_bytes (ses_mem x) (take n (uaddrs buffers))\<rparr>)
   }"

fun bst_run :: "'s reader \<Rightarrow> 's writer \<Rightarrow> 's session \<Rightarrow> bst_op list \<Rightarrow> 's session option" where
  "bst_run read_some write_some x [] = Some x"
| "bst_run read_some write_some x (op # ops) = do {
     x1 \<leftarrow> bst_do read_some write_some x op;
     bst_run read_some write_some x1 ops
   }"

text \<open>
  A full-duplex stream: \<open>rout\<close> is what it has delivered, \<open>wout\<close> what it has accepted, and neither
  direction disturbs the other.
\<close>

definition duplex ::
  "('s \<Rightarrow> byte list) \<Rightarrow> ('s \<Rightarrow> byte list) \<Rightarrow> 's reader \<Rightarrow> 's writer \<Rightarrow> bool"
where
  "duplex rout wout read_some write_some \<longleftrightarrow>
     conforming_reader rout read_some \<and> conforming_writer wout write_some \<and> progressing_writer write_some \<and>
     (\<forall>s sizes s' data ec. read_some s sizes = (s', data, ec) \<longrightarrow> wout s' = wout s) \<and>
     (\<forall>s bss s' n ec. write_some s bss = (s', n, ec) \<longrightarrow> rout s' = rout s)"

lemma write_loop_keeps:
  assumes keeps: "\<forall>s bss s' n ec. write_some s bss = (s', n, ec) \<longrightarrow> f s' = f s"
    and res: "write_loop write_some cc m c ec s = Some (n, ec', s')"
  shows "f s' = f s"
proof -
  let ?P = "\<lambda>write_some' (cc' :: completion_condition) (m' :: mem) (c :: con) (ec :: error_code) s r.
    write_some' = write_some \<longrightarrow> f (snd (snd r)) = f s"
  have "?P write_some cc m c ec s (n, ec', s')"
  proof (rule write_loop.raw_induct [where P = ?P, OF _ res], intro impI)
    fix loop write_some' cc' m' c ec s r
    assume IH: "\<And>a b m c ec s r. loop a b m c ec s = Some r \<Longrightarrow> ?P a b m c ec s r"
      and body: "(if \<not> con_empty c then
        (let max_size = adapt_completion_condition_result (cc' ec (con_total_consumed c))
         in if max_size \<noteq> 0 then
              (case write_some' s (buf_bytes m' (con_prepare c max_size)) of (s1, n, ec1) \<Rightarrow>
                loop write_some' cc' m' (con_consume c n) ec1 s1)
            else Some (con_total_consumed c, ec, s))
      else Some (con_total_consumed c, ec, s)) = Some r"
      and eq: "write_some' = write_some"
    obtain s1 n ec1 where wr: "write_some s (buf_bytes m' (con_prepare c
        (adapt_completion_condition_result (cc' ec (con_total_consumed c))))) = (s1, n, ec1)"
      by (metis prod_cases3)
    have "f s1 = f s" using keeps wr by blast
    then show "f (snd (snd r)) = f s"
      using body IH eq wr by (auto simp: Let_def split: if_splits)
  qed
  then show ?thesis by simp
qed

lemma read_moved_keeps:
  assumes "read_moved read_some b b'" "\<forall>s sizes s' data ec. read_some s sizes = (s', data, ec) \<longrightarrow> f s' = f s"
  shows "f (next_layer b') = f (next_layer b)"
  using assms unfolding read_moved_def by metis

lemma write_moved_keeps:
  assumes "write_moved write_some m b b'" "\<forall>s bss s' n ec. write_some s bss = (s', n, ec) \<longrightarrow> f s' = f s"
  shows "f (next_layer b') = f (next_layer b)"
  using assms(1) write_loop_keeps [OF assms(2)] unfolding write_moved_def write_buffer_sequence_def by metis

text \<open>Peeking hands out copies and takes nothing.\<close>

lemma brs_peek_ec_step:
  assumes ok: "sto_ok (storage b)" and conf: "conforming_reader out read_some"
    and user: "user_buffers buffers (storage b)"
  obtains b' m' n ec data where "brs_peek_ec read_some b m buffers = Some (b', m', n, ec)"
    "handed out b m data [] b' m'" "read_moved read_some b b'"
    "get_bytes m' (take n (uaddrs buffers)) = take n (sto_bytes (storage b') m')"
    "unchanged_outside (sto_area (storage b) \<union> set (uaddrs buffers)) m m'"
proof (cases "sto_empty (storage b)")
  case False
  obtain m' where c: "brs_peek_copy b m buffers =
      Some (m', min (length (uaddrs buffers)) (length (sto_bytes (storage b) m)))"
    "get_bytes m' (take (min (length (uaddrs buffers)) (length (sto_bytes (storage b) m))) (uaddrs buffers)) =
      take (min (length (uaddrs buffers)) (length (sto_bytes (storage b) m))) (sto_bytes (storage b) m)"
    "handed out b m [] [] b m'"
    "unchanged_outside (set (take (min (length (uaddrs buffers)) (length (sto_bytes (storage b) m))) (uaddrs buffers))) m m'"
    by (rule brs_peek_copy_facts [OF ok user refl])
  have "sto_bytes (storage b) m' = sto_bytes (storage b) m" using c(3) by (simp add: handed_def)
  moreover have "unchanged_outside (sto_area (storage b) \<union> set (uaddrs buffers)) m m'"
    by (rule unchanged_mono [OF c(4)]) (auto dest: in_set_takeD)
  ultimately show thesis
    by (intro that [of b m' "min (length (uaddrs buffers)) (length (sto_bytes (storage b) m))" Ok_code "[]"])
       (use False c in \<open>auto simp: brs_peek_ec_def read_moved_def\<close>)
next
  case True
  obtain b1 m1 data ec where f: "brs_fill_ec read_some b m = Some (b1, m1, length data, ec)"
    "filled out b m data b1 m1" "read_moved read_some b b1"
    by (rule brs_fill_ec_facts [OF ok conf])
  have un: "unchanged_outside (sto_area (storage b) \<union> set (uaddrs buffers)) m m1"
    by (rule unchanged_mono [of "sto_area (storage b)"]) (use f(2) in \<open>auto simp: filled_def\<close>)
  show thesis
  proof (cases "data = []")
    case none: True
    then show thesis
      by (intro that [of b1 m1 0 ec "[]"]) (use f un True filled_handed [OF f(2)] in \<open>auto simp: brs_peek_ec_def\<close>)
  next
    case False
    have ok1: "sto_ok (storage b1)" and user1: "user_buffers buffers (storage b1)"
      using f(2) user by (auto simp: filled_def intro: user_same)
    obtain m' n where c: "brs_peek_copy b1 m1 buffers = Some (m', n)"
      "get_bytes m' (take n (uaddrs buffers)) = take n (sto_bytes (storage b1) m1)"
      "handed out b1 m1 [] [] b1 m'" "unchanged_outside (set (take n (uaddrs buffers))) m1 m'"
      by (rule brs_peek_copy_facts [OF ok1 user1 refl])
    have "sto_bytes (storage b1) m' = sto_bytes (storage b1) m1" using c(3) by (simp add: handed_def)
    moreover have "unchanged_outside (sto_area (storage b) \<union> set (uaddrs buffers)) m m'"
      by (rule unchanged_trans [OF un unchanged_mono [OF c(4)]]) (auto dest: in_set_takeD)
    moreover have "handed out b m data [] b1 m'"
      using handed_trans [OF filled_handed [OF f(2)] c(3)] by simp
    ultimately show thesis
      by (intro that [of b1 m' n ec data]) (use f c False True in \<open>auto simp: brs_peek_ec_def\<close>)
  qed
qed


text \<open>What holds throughout a session that starts with nothing delivered and nothing accepted.\<close>

definition ses_inv ::
  "('s \<Rightarrow> byte list) \<Rightarrow> ('s \<Rightarrow> byte list) \<Rightarrow> sto \<Rightarrow> sto \<Rightarrow> 's session \<Rightarrow> bool"
where
  "ses_inv rout wout vr vw x \<longleftrightarrow>
     (let b = ses_stream x; w = next_layer b; s = next_layer w; m = ses_mem x in
      sto_ok (storage b) \<and> sto_ok (storage w) \<and> same_vector vr (storage b) \<and> same_vector vw (storage w) \<and>
      sto_area vr \<inter> sto_area vw = {} \<and>
      rout s = ses_got x @ sto_bytes (storage b) m \<and>
      wout s @ sto_bytes (storage w) m = ses_put x)"

fun bst_op_ok :: "nat set \<Rightarrow> bst_op \<Rightarrow> bool" where
  "bst_op_ok A (Bst_read buffers) \<longleftrightarrow> distinct (uaddrs buffers) \<and> set (uaddrs buffers) \<inter> A = {}"
| "bst_op_ok A (Bst_peek buffers) \<longleftrightarrow> distinct (uaddrs buffers) \<and> set (uaddrs buffers) \<inter> A = {}"
| "bst_op_ok A (Bst_write buffers) \<longleftrightarrow> set (uaddrs buffers) \<inter> A = {}"
| "bst_op_ok A _ \<longleftrightarrow> True"

lemma storage_next_layer [simp]: "storage (b\<lparr>next_layer := w\<rparr>) = storage b"
  by (cases b) simp

lemma through_conforming: "conforming_reader rout read_some \<Longrightarrow>
    conforming_reader (rout \<circ> next_layer) (bws_read_some read_some)"
  unfolding conforming_reader_def bws_read_some_def by (auto split: prod.splits)

lemma through_keeps: "\<forall>w sizes w' data ec. bws_read_some read_some w sizes = (w', data, ec) \<longrightarrow> storage w' = storage w"
  by (auto simp: bws_read_some_def split: prod.splits)

lemma through_keeps_out: "\<forall>s sizes s' data ec. read_some s sizes = (s', data, ec) \<longrightarrow> f s' = f s \<Longrightarrow>
    \<forall>w sizes w' data ec. bws_read_some read_some w sizes = (w', data, ec) \<longrightarrow> f (next_layer w') = f (next_layer w)"
  by (auto simp: bws_read_some_def split: prod.splits)

lemma ses_read_side:
  assumes inv: "ses_inv rout wout vr vw x" and dup: "duplex rout wout read_some write_some"
    and h: "handed (rout \<circ> next_layer) (ses_stream x) (ses_mem x) data got b' m'"
    and moved: "read_moved (bws_read_some read_some) (ses_stream x) b'"
    and un: "unchanged_outside U (ses_mem x) m'" and dj: "U \<inter> sto_area vw = {}"
  shows "ses_inv rout wout vr vw (x\<lparr>ses_stream := b', ses_mem := m', ses_got := ses_got x @ got\<rparr>)"
proof -
  let ?b = "ses_stream x" and ?w = "next_layer (ses_stream x)"
  have st: "storage (next_layer b') = storage ?w"
    using moved through_keeps by (rule read_moved_keeps)
  have wo: "wout (next_layer (next_layer b')) = wout (next_layer ?w)"
    by (rule read_moved_keeps [OF moved, where f = "\<lambda>w. wout (next_layer w)"], rule through_keeps_out)
       (use dup in \<open>simp add: duplex_def\<close>)
  have okw: "sto_ok (storage ?w)" and aw: "sto_area (storage ?w) = sto_area vw"
    using inv by (simp_all add: ses_inv_def Let_def same_vector_area)
  have wb: "sto_bytes (storage ?w) m' = sto_bytes (storage ?w) (ses_mem x)"
    unfolding sto_bytes_def by (rule unchanged_get [OF un]) (use sto_addrs_area [OF okw] aw dj in blast)
  show ?thesis
    using inv h st wo wb same_vector_trans [of vr "storage ?b" "storage b'"]
    by (simp add: ses_inv_def Let_def handed_def)
qed

lemma ses_write_side:
  assumes inv: "ses_inv rout wout vr vw x" and dup: "duplex rout wout read_some write_some"
    and w: "write_step wout buffers (next_layer (ses_stream x)) (ses_mem x) n w' m'"
    and moved: "write_moved write_some (ses_mem x) (next_layer (ses_stream x)) w'"
  shows "ses_inv rout wout vr vw (x\<lparr>ses_stream := (ses_stream x)\<lparr>next_layer := w'\<rparr>, ses_mem := m',
    ses_put := ses_put x @ get_bytes (ses_mem x) (take n (uaddrs buffers))\<rparr>)"
proof -
  let ?b = "ses_stream x" and ?w = "next_layer (ses_stream x)"
  have ro: "rout (next_layer w') = rout (next_layer ?w)"
    by (rule write_moved_keeps [OF moved]) (use dup in \<open>simp add: duplex_def\<close>)
  have okb: "sto_ok (storage ?b)" and ar: "sto_area (storage ?b) = sto_area vr" and dj: "sto_area vr \<inter> sto_area vw = {}"
    and aw: "sto_area (storage ?w) = sto_area vw" and pt: "wout (next_layer ?w) @ sto_bytes (storage ?w) (ses_mem x) = ses_put x"
    using inv by (simp_all add: ses_inv_def Let_def same_vector_area)
  have rb: "sto_bytes (storage ?b) m' = sto_bytes (storage ?b) (ses_mem x)"
    unfolding sto_bytes_def
    by (rule unchanged_get [of "sto_area vw"]) (use w aw dj ar sto_addrs_area [OF okb] in \<open>auto simp: write_step_def\<close>)
  have "wout (next_layer w') @ sto_bytes (storage w') m' =
      ses_put x @ get_bytes (ses_mem x) (take n (uaddrs buffers))"
    using w pt by (simp add: write_step_def flip: append_assoc)
  then show ?thesis
    using inv w ro rb same_vector_trans [of vw "storage ?w" "storage w'"]
    by (simp add: ses_inv_def Let_def write_step_def)
qed

lemma bst_do_step:
  assumes inv: "ses_inv rout wout vr vw x" and dup: "duplex rout wout read_some write_some"
    and op: "bst_op_ok (sto_area vr \<union> sto_area vw) op"
  shows "\<exists>x'. bst_do read_some write_some x op = Some x' \<and> ses_inv rout wout vr vw x'"
proof -
  let ?b = "ses_stream x" and ?w = "next_layer (ses_stream x)" and ?m = "ses_mem x"
  have okb: "sto_ok (storage ?b)" and okw: "sto_ok (storage ?w)" and ar: "sto_area (storage ?b) = sto_area vr"
    and aw: "sto_area (storage ?w) = sto_area vw" and dj: "sto_area vr \<inter> sto_area vw = {}"
    using inv by (simp_all add: ses_inv_def Let_def same_vector_area)
  have conf: "conforming_reader (rout \<circ> next_layer) (bws_read_some read_some)"
    and wc: "conforming_writer wout write_some" "progressing_writer write_some"
    using dup by (simp_all add: duplex_def through_conforming)
  show ?thesis
  proof (cases op)
    case Bst_fill
    obtain b' m' data ec where f: "brs_fill_ec (bws_read_some read_some) ?b ?m = Some (b', m', length data, ec)"
      "filled (rout \<circ> next_layer) ?b ?m data b' m'" "read_moved (bws_read_some read_some) ?b b'"
      by (rule brs_fill_ec_facts [OF okb conf])
    then have un: "unchanged_outside (sto_area vr) ?m m'" by (simp add: filled_def ar)
    show ?thesis using ses_read_side [OF inv dup filled_handed [OF f(2)] f(3) un dj] f(1)
      by (simp add: Bst_fill bst_fill_ec_def)
  next
    case (Bst_read buffers)
    have user: "user_buffers buffers (storage ?b)" using op by (auto simp: Bst_read user_buffers_def ar)
    obtain b' m' n ec data where f: "brs_read_some_ec (bws_read_some read_some) ?b ?m buffers = Some (b', m', n, ec)"
      "read_step (rout \<circ> next_layer) buffers ?b ?m n data b' m'" "read_moved (bws_read_some read_some) ?b b'"
      using brs_read_some_ec_step [OF okb conf user, of ?m] by blast
    have un: "unchanged_outside (sto_area vr \<union> set (take n (uaddrs buffers))) ?m m'"
      using f(2) unfolding read_step_def ar by blast
    have h: "handed (rout \<circ> next_layer) ?b ?m data (get_bytes m' (take n (uaddrs buffers))) b' m'"
      using f(2) unfolding read_step_def by blast
    have "(sto_area vr \<union> set (take n (uaddrs buffers))) \<inter> sto_area vw = {}"
      using dj op by (auto simp: Bst_read dest: in_set_takeD)
    from ses_read_side [OF inv dup h f(3) un this] f(1) show ?thesis
      by (simp add: Bst_read bst_read_some_ec_def)
  next
    case (Bst_peek buffers)
    have user: "user_buffers buffers (storage ?b)" using op by (auto simp: Bst_peek user_buffers_def ar)
    obtain b' m' n ec data where f: "brs_peek_ec (bws_read_some read_some) ?b ?m buffers = Some (b', m', n, ec)"
      "handed (rout \<circ> next_layer) ?b ?m data [] b' m'" "read_moved (bws_read_some read_some) ?b b'"
      and un: "unchanged_outside (sto_area (storage ?b) \<union> set (uaddrs buffers)) ?m m'"
      by (rule brs_peek_ec_step [OF okb conf user])
    have "(sto_area (storage ?b) \<union> set (uaddrs buffers)) \<inter> sto_area vw = {}" using dj op by (auto simp: Bst_peek ar)
    from ses_read_side [OF inv dup f(2,3) un this] f(1) show ?thesis
      by (simp add: Bst_peek bst_peek_ec_def)
  next
    case Bst_flush
    obtain w' n ec where f: "bws_flush_ec write_some ?w ?m = Some (w', n, ec)" "flushed wout ?w n w' ?m"
      and mv: "write_moved write_some ?m ?w w'"
      by (rule bws_flush_ec_facts [OF okw wc])
    from ses_write_side [OF inv dup flushed_step [OF f(2), of "Many []"] mv] f(1) show ?thesis
      by (simp add: Bst_flush bst_flush_ec_def)
  next
    case (Bst_write buffers)
    have user: "set (uaddrs buffers) \<inter> sto_area (storage ?w) = {}" using op by (auto simp: Bst_write aw)
    obtain w' m' n ec where f: "bws_write_some_ec write_some ?w ?m buffers = Some (w', m', n, ec)"
      "write_step wout buffers ?w ?m n w' m'" "write_moved write_some ?m ?w w'"
      using bws_write_some_ec_step [OF okw wc user, of ?m] by blast
    from ses_write_side [OF inv dup f(2,3)] f(1) show ?thesis
      by (simp add: Bst_write bst_write_some_ec_def)
  qed
qed

lemma bst_run_inv:
  assumes "ses_inv rout wout vr vw x" "duplex rout wout read_some write_some"
    and "list_all (bst_op_ok (sto_area vr \<union> sto_area vw)) ops"
  shows "\<exists>x'. bst_run read_some write_some x ops = Some x' \<and> ses_inv rout wout vr vw x'"
  using assms(1,3)
proof (induction ops arbitrary: x)
  case (Cons op ops)
  then obtain x1 where "bst_do read_some write_some x op = Some x1" "ses_inv rout wout vr vw x1"
    using bst_do_step [OF Cons.prems(1) assms(2)] by auto
  with Cons.IH [OF this(2)] Cons.prems(2) show ?case by auto
qed simp

definition ses_start :: "'s buffered_stream \<Rightarrow> mem \<Rightarrow> 's session" where
  "ses_start b m = \<lparr>ses_stream = b, ses_mem = m, ses_got = [], ses_put = []\<rparr>"

lemma ses_start_inv:
  assumes "rout a = []" "wout a = []" "rc < size_max" "wc < size_max"
    and "{rb..<rb + rc} \<inter> {wb..<wb + wc} = {}"
  shows "ses_inv rout wout (sto_new rb rc) (sto_new wb wc) (ses_start (bst_new a rb rc wb wc) m)"
  using assms
  by (simp add: ses_inv_def ses_start_def bst_new_def brs_new_def sto_new_ok, simp add: sto_area_def sto_new_def)

lemma bst_run_fresh:
  assumes "duplex rout wout read_some write_some" "rout a = []" "wout a = []"
    and "rc < size_max" "wc < size_max" "{rb..<rb + rc} \<inter> {wb..<wb + wc} = {}"
    and "list_all (bst_op_ok ({rb..<rb + rc} \<union> {wb..<wb + wc})) ops"
  obtains x where "bst_run read_some write_some (ses_start (bst_new a rb rc wb wc) m0) ops = Some x"
    "ses_inv rout wout (sto_new rb rc) (sto_new wb wc) x"
proof -
  have "sto_area (sto_new rb rc) \<union> sto_area (sto_new wb wc) = {rb..<rb + rc} \<union> {wb..<wb + wc}"
    by (simp add: sto_area_def sto_new_def)
  then have "\<exists>x. bst_run read_some write_some (ses_start (bst_new a rb rc wb wc) m0) ops = Some x \<and>
    ses_inv rout wout (sto_new rb rc) (sto_new wb wc) x"
    using bst_run_inv [OF ses_start_inv [of rout a wout rc wc rb wb m0, OF assms(2-6)] assms(1), of ops] assms(7) by auto
  then show thesis using that by blast
qed

text \<open>A full-duplex stream of the two concrete streams.\<close>

definition both_reader :: "((byte list \<times> byte list) \<times> byte list) reader" where
  "both_reader s sizes = (let (r, data, ec) = chunk_reader (fst s) sizes in ((r, snd s), data, ec))"

definition both_writer :: "((byte list \<times> byte list) \<times> byte list) writer" where
  "both_writer s bss = (let (w, n, ec) = chunk_writer (snd s) bss in ((fst s, w), n, ec))"

lemma both_duplex: "duplex (fst \<circ> fst) snd both_reader both_writer"
  using chunk_reader_conforming chunk_writer_conforming chunk_writer_progressing
  unfolding duplex_def conforming_reader_def conforming_writer_def progressing_writer_def
    both_reader_def both_writer_def
  by (auto split: prod.splits)

definition demo_ops :: "bst_op list" where
  "demo_ops = [Bst_write (One \<lparr>buf_data = 10, buf_size = 3\<rparr>), Bst_fill,
     Bst_read (Many [\<lparr>buf_data = 0, buf_size = 1\<rparr>, \<lparr>buf_data = 3, buf_size = 2\<rparr>]), Bst_flush,
     Bst_peek (One \<lparr>buf_data = 10, buf_size = 3\<rparr>)]"

lemma demo_ops_ok: "list_all (bst_op_ok ({100..<100 + 4} \<union> {200..<200 + 2})) demo_ops"
  by (auto simp: demo_ops_def baddrs_def)

lemma demo_areas: "(4 :: nat) < size_max" "(2 :: nat) < size_max"
  "{100 :: nat..<100 + 4} \<inter> {200..<200 + 2} = {}"
  by (auto simp: size_max_def)

text \<open>C19: in any session on a fresh \<open>buffered_stream\<close> over a full-duplex stream, with fills, reads, peeks,
  flushes and writes in any order and through buffers of any shape: every call returns and no
  assertion fails. What the stream has delivered is what the user has received followed by what
  waits in the read storage, and what the user has written is what the stream has accepted followed
  by what waits in the write storage: in neither direction is a byte lost, repeated or reordered.
\<close>

theorem bst_session:
  assumes "duplex rout wout read_some write_some" "rout a = []" "wout a = []"
    and "rc < size_max" "wc < size_max" "{rb..<rb + rc} \<inter> {wb..<wb + wc} = {}"
    and "list_all (bst_op_ok ({rb..<rb + rc} \<union> {wb..<wb + wc})) ops"
  shows "\<exists>b m got put. bst_run read_some write_some (ses_start (bst_new a rb rc wb wc) m0) ops =
      Some \<lparr>ses_stream = b, ses_mem = m, ses_got = got, ses_put = put\<rparr> \<and>
    rout (next_layer (next_layer b)) = got @ sto_bytes (storage b) m \<and>
    put = wout (next_layer (next_layer b)) @ sto_bytes (storage (next_layer b)) m"
proof (rule bst_run_fresh [OF assms, of m0])
  fix x
  assume x: "bst_run read_some write_some (ses_start (bst_new a rb rc wb wc) m0) ops = Some x"
    "ses_inv rout wout (sto_new rb rc) (sto_new wb wc) x"
  from x show ?thesis by (cases x) (auto simp: ses_inv_def Let_def)
qed

theorem bst_session_witness:
  "\<exists>b m got put. bst_run both_reader both_writer (ses_start (bst_new (([], [1, 2, 3]), []) 100 4 200 2) of_nat) demo_ops =
      Some \<lparr>ses_stream = b, ses_mem = m, ses_got = got, ses_put = put\<rparr> \<and>
     put = snd (next_layer (next_layer b)) @ sto_bytes (storage (next_layer b)) m"
  using bst_session [OF both_duplex _ _ demo_areas demo_ops_ok, of "(([], [1, 2, 3]), [])" of_nat] by auto

text \<open>C29: the two storages of a \<open>buffered_stream\<close> stay well formed in every session: their offsets are in
  order and inside the vectors, the vectors stay where and as large as they were made, and
  \<open>in_avail\<close> and the bytes waiting to be sent never exceed them.
\<close>

theorem bst_well_formed:
  assumes "duplex rout wout read_some write_some" "rout a = []" "wout a = []"
    and "rc < size_max" "wc < size_max" "{rb..<rb + rc} \<inter> {wb..<wb + wc} = {}"
    and "list_all (bst_op_ok ({rb..<rb + rc} \<union> {wb..<wb + wc})) ops"
  shows "\<exists>x r w. bst_run read_some write_some (ses_start (bst_new a rb rc wb wc) m0) ops = Some x \<and>
    r = storage (ses_stream x) \<and> w = storage (next_layer (ses_stream x)) \<and>
    begin_offset r \<le> end_offset r \<and> end_offset r \<le> rc \<and> sto_capacity r = rc \<and> sto_base r = rb \<and>
    begin_offset w \<le> end_offset w \<and> end_offset w \<le> wc \<and> sto_capacity w = wc \<and> sto_base w = wb \<and>
    bst_in_avail (ses_stream x) \<le> rc \<and> sto_size w \<le> wc"
proof (rule bst_run_fresh [OF assms, of m0])
  fix x
  assume x: "bst_run read_some write_some (ses_start (bst_new a rb rc wb wc) m0) ops = Some x"
    "ses_inv rout wout (sto_new rb rc) (sto_new wb wc) x"
  have "sto_ok (storage (ses_stream x))" "sto_ok (storage (next_layer (ses_stream x)))"
    "same_vector (sto_new rb rc) (storage (ses_stream x))"
    "same_vector (sto_new wb wc) (storage (next_layer (ses_stream x)))"
    using x(2) by (simp_all add: ses_inv_def Let_def)
  then show ?thesis
    by (intro exI [of _ x] exI [of _ "storage (ses_stream x)"] exI [of _ "storage (next_layer (ses_stream x))"])
       (auto simp: x(1) sto_ok_def same_vector_def sto_new_def bst_in_avail_def brs_in_avail_def
         sto_size_def size_sub_def)
qed

theorem bst_well_formed_witness:
  "\<exists>x. bst_run both_reader both_writer (ses_start (bst_new (([], [1, 2, 3]), []) 100 4 200 2) of_nat) demo_ops = Some x \<and>
     bst_in_avail (ses_stream x) \<le> 4"
  using bst_well_formed [OF both_duplex _ _ demo_areas demo_ops_ok, of "(([], [1, 2, 3]), [])" of_nat] by auto

end
