(* ===== verification/ServiceRegistry.thy ===== *)
theory ServiceRegistry
  imports Prelude "HOL-Library.Monad_Syntax"
begin

text \<open>
  The services of an execution context: \<open>detail/service_registry.hpp\<close>, its \<open>impl\<close> files and
  \<open>impl/execution_context.ipp\<close>. The services are objects at addresses, linked by \<open>next_\<close>; following a
  pointer to an object that is not there, or a list without end, is \<open>None\<close>. \<open>do_use_service\<close> gives up
  the mutex while it creates a service, so it is two stretches, which the step relation \<open>reg_step\<close>
  interleaves with the calls of other threads and of the constructor of the service itself.
\<close>

section \<open>Keys and services\<close>

text \<open>\<open>execution_context::service::key\<close>; a null pointer is \<open>None\<close>.\<close>

record svc_key_type =
  type_info :: "nat option"
  key_id :: "nat option"

definition init_key :: "nat \<Rightarrow> svc_key_type" where
  "init_key type = \<lparr>type_info = Some type, key_id = None\<rparr>"

definition init_key_from_id :: "nat \<Rightarrow> svc_key_type" where
  "init_key_from_id ident = \<lparr>type_info = None, key_id = Some ident\<rparr>"

definition keys_match :: "svc_key_type \<Rightarrow> svc_key_type \<Rightarrow> bool" where
  "keys_match key1 key2 \<longleftrightarrow>
     (if key_id key1 \<noteq> None \<and> key_id key2 \<noteq> None \<and> key_id key1 = key_id key2 then True
      else if type_info key1 \<noteq> None \<and> type_info key2 \<noteq> None \<and> type_info key1 = type_info key2 then True
      else False)"

record service =
  svc_key :: svc_key_type
  svc_owner :: nat
  svc_next :: nat

definition service_new :: "nat \<Rightarrow> service" where
  "service_new owner = \<lparr>svc_key = \<lparr>type_info = None, key_id = None\<rparr>, svc_owner = owner, svc_next = 0\<rparr>"

record service_registry =
  reg_owner :: nat
  first_service :: nat
  reg_heap :: "nat \<Rightarrow> service option"

definition registry_new :: "nat \<Rightarrow> service_registry" where
  "registry_new owner = \<lparr>reg_owner = owner, first_service = 0, reg_heap = (\<lambda>_. None)\<rparr>"

section \<open>Looking up and adding\<close>

text \<open>The loop over the services, common to three functions; the null pointer when there is none.\<close>

partial_function (option) search_loop ::
  "(nat \<Rightarrow> service option) \<Rightarrow> svc_key_type \<Rightarrow> nat \<Rightarrow> nat option"
where
  "search_loop h key s =
     (if s \<noteq> 0 then do {
        v \<leftarrow> h s;
        if keys_match (svc_key v) key then Some s else search_loop h key (svc_next v)
      }
      else Some 0)"

declare search_loop.simps [code]

text \<open>\<open>do_use_service\<close> up to \<open>unlock\<close>, the creation of the service, and the rest from \<open>lock\<close> on.\<close>

definition use_service_find :: "service_registry \<Rightarrow> svc_key_type \<Rightarrow> nat option" where
  "use_service_find r key = search_loop (reg_heap r) key (first_service r)"

definition use_service_create :: "service_registry \<Rightarrow> svc_key_type \<Rightarrow> nat \<Rightarrow> service_registry" where
  "use_service_create r key a =
     r\<lparr>reg_heap := (reg_heap r)(a \<mapsto> (service_new (reg_owner r))\<lparr>svc_key := key\<rparr>)\<rparr>"

definition push_service :: "service_registry \<Rightarrow> nat \<Rightarrow> service \<Rightarrow> service_registry" where
  "push_service r a v =
     r\<lparr>reg_heap := (reg_heap r)(a \<mapsto> v\<lparr>svc_next := first_service r\<rparr>), first_service := a\<rparr>"

definition destroy_service :: "service_registry \<Rightarrow> nat \<Rightarrow> service_registry" where
  "destroy_service r a = r\<lparr>reg_heap := (reg_heap r)(a := None)\<rparr>"

definition use_service_link :: "service_registry \<Rightarrow> svc_key_type \<Rightarrow> nat \<Rightarrow> (service_registry \<times> nat) option" where
  "use_service_link r key new_service = do {
     s \<leftarrow> search_loop (reg_heap r) key (first_service r);
     if s \<noteq> 0 then Some (destroy_service r new_service, s)
     else do {
       v \<leftarrow> reg_heap r new_service;
       Some (push_service r new_service v, new_service)
     }
   }"

text \<open>The whole call when no other call comes between; \<open>a\<close> is the address of the service it may create.\<close>

definition do_use_service :: "service_registry \<Rightarrow> svc_key_type \<Rightarrow> nat \<Rightarrow> (service_registry \<times> nat) option" where
  "do_use_service r key a = do {
     s \<leftarrow> use_service_find r key;
     if s \<noteq> 0 then Some (r, s) else use_service_link (use_service_create r key a) key a
   }"

datatype registry_error = Invalid_service_owner | Service_already_exists

definition do_add_service ::
  "service_registry \<Rightarrow> svc_key_type \<Rightarrow> nat \<Rightarrow> (service_registry \<times> (registry_error + unit)) option"
where
  "do_add_service r key new_service = do {
     v \<leftarrow> reg_heap r new_service;
     if reg_owner r \<noteq> svc_owner v then Some (r, Inl Invalid_service_owner)
     else do {
       s \<leftarrow> search_loop (reg_heap r) key (first_service r);
       if s \<noteq> 0 then Some (r, Inl Service_already_exists)
       else Some (push_service r new_service (v\<lparr>svc_key := key\<rparr>), Inr ())
     }
   }"

definition do_has_service :: "service_registry \<Rightarrow> svc_key_type \<Rightarrow> bool option" where
  "do_has_service r key = do {
     s \<leftarrow> search_loop (reg_heap r) key (first_service r);
     Some (s \<noteq> 0)
   }"

section \<open>Forking, shutting down and destroying\<close>

text \<open>The services on which the virtual functions are called, in the order of the calls.\<close>

partial_function (option) shutdown_services_loop :: "(nat \<Rightarrow> service option) \<Rightarrow> nat \<Rightarrow> nat list option" where
  "shutdown_services_loop h s =
     (if s \<noteq> 0 then do {
        v \<leftarrow> h s;
        called \<leftarrow> shutdown_services_loop h (svc_next v);
        Some (s # called)
      }
      else Some [])"

definition shutdown_services :: "service_registry \<Rightarrow> nat list option" where
  "shutdown_services r = shutdown_services_loop (reg_heap r) (first_service r)"

partial_function (option) destroy_services :: "service_registry \<Rightarrow> (service_registry \<times> nat list) option" where
  "destroy_services r =
     (if first_service r \<noteq> 0 then do {
        v \<leftarrow> reg_heap r (first_service r);
        (r1, deleted) \<leftarrow> destroy_services ((destroy_service r (first_service r))\<lparr>first_service := svc_next v\<rparr>);
        Some (r1, first_service r # deleted)
      }
      else Some (r, []))"

datatype fork_event = Fork_prepare | Fork_parent | Fork_child

partial_function (option) collect_services :: "(nat \<Rightarrow> service option) \<Rightarrow> nat \<Rightarrow> nat list \<Rightarrow> nat list option" where
  "collect_services h s services =
     (if s \<noteq> 0 then do {
        v \<leftarrow> h s;
        collect_services h (svc_next v) (services @ [s])
      }
      else Some services)"

definition registry_notify_fork :: "service_registry \<Rightarrow> fork_event \<Rightarrow> nat list option" where
  "registry_notify_fork r fork_ev = do {
     services \<leftarrow> collect_services (reg_heap r) (first_service r) [];
     let num_services = length services;
     Some (if fork_ev = Fork_prepare then map (\<lambda>i. services ! i) [0..<num_services]
           else map (\<lambda>i. services ! (i - 1)) (rev [1..<num_services + 1]))
   }"

text \<open>\<open>execution_context::~execution_context\<close>, with what it does to the services in the order in which it does it.\<close>

datatype teardown_event = Shutdown_call nat | Delete_service nat

definition execution_context_destroy :: "service_registry \<Rightarrow> (service_registry \<times> teardown_event list) option" where
  "execution_context_destroy r = do {
     called \<leftarrow> shutdown_services r;
     (r1, deleted) \<leftarrow> destroy_services r;
     Some (r1, map Shutdown_call called @ map Delete_service deleted)
   }"

section \<open>Threads\<close>

text \<open>
  What a thread is doing: nothing, creating a service after it has found none, or about to take the
  mutex again with the service it has created. \<open>used\<close> records the results of the calls of
  \<open>do_use_service\<close>, \<open>joined\<close> the services that have become the registry's, the last one first.
\<close>

datatype reg_call = Reg_idle | Creating svc_key_type | Created svc_key_type nat

record reg_state =
  registry :: service_registry
  calls :: "nat \<Rightarrow> reg_call"
  used :: "(svc_key_type \<times> nat) list"
  joined :: "nat list"

text \<open>Keys as \<open>init_key\<close> and \<open>init_key_from_id\<close> make them.\<close>

definition key_ok :: "svc_key_type \<Rightarrow> bool" where
  "key_ok key \<longleftrightarrow> (\<exists>n. key = init_key n \<or> key = init_key_from_id n)"

text \<open>
  The steps: a call finds its service; it finds none and lets go of the mutex; it creates one, at a
  free address; its factory throws; it takes the mutex again. A service made by the user is added,
  or deleted by the user when \<open>do_add_service\<close> throws.
\<close>

inductive reg_step :: "reg_state \<Rightarrow> reg_state \<Rightarrow> bool" where
  use_found: "calls x t = Reg_idle \<Longrightarrow> key_ok key \<Longrightarrow> use_service_find (registry x) key = Some s \<Longrightarrow> s \<noteq> 0 \<Longrightarrow>
    reg_step x (x\<lparr>used := (key, s) # used x\<rparr>)"
| use_none: "calls x t = Reg_idle \<Longrightarrow> key_ok key \<Longrightarrow> use_service_find (registry x) key = Some 0 \<Longrightarrow>
    reg_step x (x\<lparr>calls := (calls x)(t := Creating key)\<rparr>)"
| use_create: "calls x t = Creating key \<Longrightarrow> a \<noteq> 0 \<Longrightarrow> reg_heap (registry x) a = None \<Longrightarrow>
    reg_step x (x\<lparr>registry := use_service_create (registry x) key a, calls := (calls x)(t := Created key a)\<rparr>)"
| use_throw: "calls x t = Creating key \<Longrightarrow> reg_step x (x\<lparr>calls := (calls x)(t := Reg_idle)\<rparr>)"
| use_link: "calls x t = Created key a \<Longrightarrow> use_service_link (registry x) key a = Some (r, s) \<Longrightarrow>
    reg_step x (x\<lparr>registry := r, calls := (calls x)(t := Reg_idle), used := (key, s) # used x,
      joined := (if s = a then [a] else []) @ joined x\<rparr>)"
| add_service: "calls x t = Reg_idle \<Longrightarrow> key_ok key \<Longrightarrow> a \<noteq> 0 \<Longrightarrow> reg_heap (registry x) a = None \<Longrightarrow>
    do_add_service ((registry x)\<lparr>reg_heap := (reg_heap (registry x))(a \<mapsto> service_new c)\<rparr>) key a = Some (r, Inr ()) \<Longrightarrow>
    reg_step x (x\<lparr>registry := r, joined := a # joined x\<rparr>)"
| add_throw: "calls x t = Reg_idle \<Longrightarrow> key_ok key \<Longrightarrow> a \<noteq> 0 \<Longrightarrow> reg_heap (registry x) a = None \<Longrightarrow>
    do_add_service ((registry x)\<lparr>reg_heap := (reg_heap (registry x))(a \<mapsto> service_new c)\<rparr>) key a = Some (r, Inl e) \<Longrightarrow>
    reg_step x (x\<lparr>registry := destroy_service r a\<rparr>)"

inductive_cases reg_stepE [consumes 1, case_names use_found use_none use_create use_throw use_link add_service add_throw]:
  "reg_step x y"

definition reg_start :: "nat \<Rightarrow> reg_state" where
  "reg_start owner = \<lparr>registry = registry_new owner, calls = (\<lambda>_. Reg_idle), used = [], joined = []\<rparr>"

inductive reg_reach :: "nat \<Rightarrow> reg_state \<Rightarrow> bool" for owner where
  start: "reg_reach owner (reg_start owner)"
| step: "reg_reach owner x \<Longrightarrow> reg_step x y \<Longrightarrow> reg_reach owner y"

end
