(* ===== verification/ServiceRegistryProps.thy ===== *)
theory ServiceRegistryProps
  imports ServiceRegistry
begin

text \<open>
  The list of services under all interleavings of the calls that use and add services: a context
  has at most one service of a kind, all calls for the same key return the same service, and
  no service leaks. At the end of the context the services are shut down and deleted newest first.
\<close>

section \<open>The list of services\<close>

fun services :: "(nat \<Rightarrow> service option) \<Rightarrow> nat \<Rightarrow> nat list \<Rightarrow> bool" where
  "services h s [] \<longleftrightarrow> s = 0"
| "services h s (x # xs) \<longleftrightarrow> s = x \<and> x \<noteq> 0 \<and> (\<exists>v. h x = Some v \<and> services h (svc_next v) xs)"

definition key_of :: "(nat \<Rightarrow> service option) \<Rightarrow> nat \<Rightarrow> svc_key_type" where
  "key_of h s = svc_key (the (h s))"

lemma services_frame [simp]: "a \<notin> set xs \<Longrightarrow> services (h(a := z)) s xs = services h s xs"
  by (induction xs arbitrary: s) auto

lemma key_of_frame [simp]: "s \<noteq> a \<Longrightarrow> key_of (h(a := z)) s = key_of h s"
  by (simp add: key_of_def)

lemma services_live: "services h s xs \<Longrightarrow> x \<in> set xs \<Longrightarrow> x \<noteq> 0 \<and> (\<exists>v. h x = Some v)"
  by (induction xs arbitrary: s) auto

lemma search_loop_list:
  "services h s xs \<Longrightarrow> search_loop h key s =
     Some (case find (\<lambda>x. keys_match (key_of h x) key) xs of None \<Rightarrow> 0 | Some x \<Rightarrow> x)"
proof (induction xs arbitrary: s)
  case Nil
  then show ?case by (subst search_loop.simps) simp
next
  case (Cons x xs)
  then show ?case by (subst search_loop.simps) (auto simp: key_of_def)
qed

lemma search_found:
  assumes "services h s xs" "search_loop h key s = Some x" "x \<noteq> 0"
  shows "x \<in> set xs" "keys_match (key_of h x) key"
  using assms search_loop_list [OF assms(1), of key]
  by (auto simp: find_Some_iff split: option.splits)

lemma search_none:
  assumes "services h s xs" "search_loop h key s = Some 0" "x \<in> set xs"
  shows "\<not> keys_match (key_of h x) key"
  using assms search_loop_list [OF assms(1), of key] services_live [OF assms(1)]
  by (auto simp: find_None_iff find_Some_iff split: option.splits) (metis less_irrefl nth_mem)

lemma search_returns: "services h s xs \<Longrightarrow> \<exists>x. search_loop h key s = Some x"
  using search_loop_list by blast

text \<open>On the keys the registry is called with, \<open>keys_match\<close> is equality.\<close>

lemma keys_match_eq: "key_ok k \<Longrightarrow> key_ok k' \<Longrightarrow> keys_match k k' \<longleftrightarrow> k = k'"
  by (auto simp: key_ok_def init_key_def init_key_from_id_def keys_match_def)

section \<open>The invariant\<close>

text \<open>
  \<open>waiting x a k\<close>: some thread has created a service for key \<open>k\<close> at \<open>a\<close> and not yet taken the mutex
  again.
\<close>

definition registry_ok :: "nat \<Rightarrow> nat list \<Rightarrow> reg_state \<Rightarrow> bool" where
  "registry_ok owner xs x \<longleftrightarrow> (let r = registry x; h = reg_heap r in
     reg_owner r = owner \<and> services h (first_service r) xs \<and> distinct xs \<and>
     (\<forall>s \<in> set xs. key_ok (key_of h s)) \<and> inj_on (key_of h) (set xs) \<and>
     (\<forall>s \<in> set xs. \<exists>v. h s = Some v \<and> svc_owner v = owner) \<and>
     (\<forall>t key a. calls x t = Created key a \<longrightarrow>
        a \<notin> set xs \<and> a \<noteq> 0 \<and> key_ok key \<and> (\<exists>v. h a = Some v \<and> svc_key v = key \<and> svc_owner v = owner)) \<and>
     (\<forall>t t' key key' a. calls x t = Created key a \<longrightarrow> calls x t' = Created key' a \<longrightarrow> t = t') \<and>
     (\<forall>t key. calls x t = Creating key \<longrightarrow> key_ok key) \<and>
     (\<forall>(key, s) \<in> set (used x). s \<in> set xs \<and> key_of h s = key) \<and>
     dom h = set xs \<union> {a. \<exists>t key. calls x t = Created key a})"

lemma registry_ok_start: "registry_ok owner [] (reg_start owner)"
  by (simp add: registry_ok_def reg_start_def registry_new_def)

lemma registry_okD:
  assumes "registry_ok owner xs x"
  shows "reg_owner (registry x) = owner" "services (reg_heap (registry x)) (first_service (registry x)) xs"
    "distinct xs" "inj_on (key_of (reg_heap (registry x))) (set xs)"
    "dom (reg_heap (registry x)) = set xs \<union> {a. \<exists>t key. calls x t = Created key a}"
    "\<And>s. s \<in> set xs \<Longrightarrow> key_ok (key_of (reg_heap (registry x)) s)"
    "\<And>s. s \<in> set xs \<Longrightarrow> \<exists>v. reg_heap (registry x) s = Some v \<and> svc_owner v = owner"
    "\<And>t key a. calls x t = Created key a \<Longrightarrow> a \<notin> set xs \<and> a \<noteq> 0 \<and> key_ok key \<and>
       (\<exists>v. reg_heap (registry x) a = Some v \<and> svc_key v = key \<and> svc_owner v = owner)"
    "\<And>t t' key key' a. calls x t = Created key a \<Longrightarrow> calls x t' = Created key' a \<Longrightarrow> t = t'"
    "\<And>t key. calls x t = Creating key \<Longrightarrow> key_ok key"
    "\<And>key s. (key, s) \<in> set (used x) \<Longrightarrow> s \<in> set xs \<and> key_of (reg_heap (registry x)) s = key"
  using assms unfolding registry_ok_def Let_def by blast+

lemma registry_okI:
  assumes "reg_owner (registry x) = owner" "services (reg_heap (registry x)) (first_service (registry x)) xs"
    "distinct xs" "inj_on (key_of (reg_heap (registry x))) (set xs)"
    "dom (reg_heap (registry x)) = set xs \<union> {a. \<exists>t key. calls x t = Created key a}"
    "\<And>s. s \<in> set xs \<Longrightarrow> key_ok (key_of (reg_heap (registry x)) s)"
    "\<And>s. s \<in> set xs \<Longrightarrow> \<exists>v. reg_heap (registry x) s = Some v \<and> svc_owner v = owner"
    "\<And>t key a. calls x t = Created key a \<Longrightarrow> a \<notin> set xs \<and> a \<noteq> 0 \<and> key_ok key \<and>
       (\<exists>v. reg_heap (registry x) a = Some v \<and> svc_key v = key \<and> svc_owner v = owner)"
    "\<And>t t' key key' a. calls x t = Created key a \<Longrightarrow> calls x t' = Created key' a \<Longrightarrow> t = t'"
    "\<And>t key. calls x t = Creating key \<Longrightarrow> key_ok key"
    "\<And>key s. (key, s) \<in> set (used x) \<Longrightarrow> s \<in> set xs \<and> key_of (reg_heap (registry x)) s = key"
  shows "registry_ok owner xs x"
  unfolding registry_ok_def Let_def using assms by blast

text \<open>Steps that change no service.\<close>

lemma registry_ok_use:
  assumes "registry_ok owner xs x" "s \<in> set xs" "key_of (reg_heap (registry x)) s = key"
  shows "registry_ok owner xs (x\<lparr>used := (key, s) # used x\<rparr>)"
  using assms unfolding registry_ok_def Let_def by simp

lemma registry_ok_calls:
  assumes ok: "registry_ok owner xs x" and old: "\<And>key a. calls x t \<noteq> Created key a"
    and new: "c = Reg_idle \<or> (\<exists>key. c = Creating key \<and> key_ok key)"
  shows "registry_ok owner xs (x\<lparr>calls := (calls x)(t := c)\<rparr>)"
proof -
  note D = registry_okD [OF ok]
  have cr: "((calls x)(t := c)) u = Created key a \<longleftrightarrow> calls x u = Created key a" for u key a
    using old new by auto
  show ?thesis
  proof (rule registry_okI)
    show "key_ok key" if "calls (x\<lparr>calls := (calls x)(t := c)\<rparr>) u = Creating key" for u key
      using that new D(10) by (auto split: if_splits)
  qed (use D(1-7,11) D(8,9) in \<open>simp_all add: cr del: fun_upd_apply\<close>)
qed

lemma registry_ok_create:
  assumes ok: "registry_ok owner xs x" and t: "calls x t = Creating key" and a: "a \<noteq> 0" "reg_heap (registry x) a = None"
  shows "registry_ok owner xs (x\<lparr>registry := use_service_create (registry x) key a, calls := (calls x)(t := Created key a)\<rparr>)"
    (is "registry_ok owner xs ?y")
proof -
  note D = registry_okD [OF ok]
  have new: "a \<notin> set xs" "\<And>t' key'. calls x t' \<noteq> Created key' a" using D(5) a(2) by auto
  have cr: "calls ?y u = Created k b \<longleftrightarrow> (if u = t then k = key \<and> b = a else calls x u = Created k b)" for u k b
    by auto
  have h: "reg_heap (registry ?y) = (reg_heap (registry x))(a \<mapsto> \<lparr>svc_key = key, svc_owner = owner, svc_next = 0\<rparr>)"
    using D(1) by (simp add: use_service_create_def service_new_def)
  have "{b. \<exists>u k. calls ?y u = Created k b} = insert a {b. \<exists>u k. calls x u = Created k b}"
    unfolding cr using t by (auto split: if_splits) (metis reg_call.distinct(5))
  then have dm: "set xs \<union> {b. \<exists>u k. calls ?y u = Created k b} = dom (reg_heap (registry ?y))"
    unfolding h D(5) dom_fun_upd by simp
  have kf: "key_of (reg_heap (registry ?y)) s = key_of (reg_heap (registry x)) s" if "s \<in> set xs" for s
    using that new(1) unfolding h by (metis key_of_frame)
  show ?thesis
  proof (rule registry_okI)
    show "reg_owner (registry ?y) = owner" using D(1) by (simp add: use_service_create_def)
    show "services (reg_heap (registry ?y)) (first_service (registry ?y)) xs"
      using D(2) new(1) unfolding h by (simp add: use_service_create_def)
    show "inj_on (key_of (reg_heap (registry ?y))) (set xs)"
      using D(4) kf by (simp add: inj_on_def)
    show "key_ok (key_of (reg_heap (registry ?y)) s)" if "s \<in> set xs" for s using that D(6) kf by simp
    show "\<exists>v. reg_heap (registry ?y) s = Some v \<and> svc_owner v = owner" if "s \<in> set xs" for s
      using D(7) [OF that] unfolding h by simp
    show "u = u'" if "calls ?y u = Created k b" "calls ?y u' = Created k' b" for u u' k k' b
      using that new(2) D(9) unfolding cr by (auto split: if_splits)
    show "b \<notin> set xs \<and> b \<noteq> 0 \<and> key_ok k \<and> (\<exists>v. reg_heap (registry ?y) b = Some v \<and> svc_key v = k \<and> svc_owner v = owner)"
      if "calls ?y u = Created k b" for u k b
      using that new a(1) D(8) [of u k b] D(10) [OF t] unfolding cr h by (auto split: if_splits)
    show "key_ok k" if "calls ?y u = Creating k" for u k
      using that D(10) by (auto split: if_splits)
    show "s \<in> set xs \<and> key_of (reg_heap (registry ?y)) s = k" if "(k, s) \<in> set (used ?y)" for k s
      using that D(11) [of k s] kf by simp
  qed (use D(3) dm in simp_all)
qed

text \<open>
  A service joins the list: one that a thread has created and for which it now takes the mutex, or
  one of the user's. In both cases \<open>a\<close> is in nobody's hands afterwards.
\<close>

lemma registry_ok_push:
  assumes ok: "registry_ok owner xs x" and key: "key_ok key"
    and none: "search_loop (reg_heap (registry x)) key (first_service (registry x)) = Some 0"
    and a: "a \<noteq> 0" "a \<notin> set xs" and v: "svc_key v = key" "svc_owner v = owner"
    and cr: "\<And>t k b. c t = Created k b \<longleftrightarrow> calls x t = Created k b \<and> b \<noteq> a"
    and ci: "\<And>t k. c t = Creating k \<Longrightarrow> calls x t = Creating k"
  shows "registry_ok owner (a # xs) (x\<lparr>registry := push_service (registry x) a v, calls := c\<rparr>)"
    (is "registry_ok owner (a # xs) ?y")
proof -
  note D = registry_okD [OF ok]
  have h: "reg_heap (registry ?y) = (reg_heap (registry x))(a \<mapsto> v\<lparr>svc_next := first_service (registry x)\<rparr>)"
    "first_service (registry ?y) = a"
    by (simp_all add: push_service_def)
  have kf: "key_of (reg_heap (registry ?y)) a = key"
    "\<And>s. s \<in> set xs \<Longrightarrow> key_of (reg_heap (registry ?y)) s = key_of (reg_heap (registry x)) s"
    using v(1) a(2) unfolding h by (auto simp: key_of_def)
  have new: "key_of (reg_heap (registry x)) s \<noteq> key" if "s \<in> set xs" for s
    using search_none [OF D(2) none that] keys_match_eq [OF D(6) [OF that] key] by simp
  show ?thesis
  proof (rule registry_okI)
    show "reg_owner (registry ?y) = owner" using D(1) by (simp add: push_service_def)
    show "services (reg_heap (registry ?y)) (first_service (registry ?y)) (a # xs)"
      using D(2) a unfolding h by simp
    show "distinct (a # xs)" using D(3) a by simp
    show "inj_on (key_of (reg_heap (registry ?y))) (set (a # xs))"
      using D(4) kf new a(2) by (auto simp: inj_on_def) metis
    have "{b. \<exists>u k. calls ?y u = Created k b} = {b. \<exists>u k. calls x u = Created k b} - {a}"
      by (auto simp: cr)
    then show "dom (reg_heap (registry ?y)) = set (a # xs) \<union> {b. \<exists>u k. calls ?y u = Created k b}"
      unfolding h dom_fun_upd D(5) by auto
    show "key_ok (key_of (reg_heap (registry ?y)) s)" if "s \<in> set (a # xs)" for s
      using that D(6) kf key by auto
    show "\<exists>v. reg_heap (registry ?y) s = Some v \<and> svc_owner v = owner" if "s \<in> set (a # xs)" for s
      using that D(7) v(2) unfolding h by auto
    show "b \<notin> set (a # xs) \<and> b \<noteq> 0 \<and> key_ok k \<and> (\<exists>v. reg_heap (registry ?y) b = Some v \<and> svc_key v = k \<and> svc_owner v = owner)"
      if "calls ?y u = Created k b" for u k b
      using that D(8) [of u k b] unfolding h by (simp add: cr)
    show "u = u'" if "calls ?y u = Created k b" "calls ?y u' = Created k' b" for u u' k k' b
      using that D(9) by (simp add: cr)
    show "key_ok k" if "calls ?y u = Creating k" for u k using D(10) [OF ci, of u k] that by simp
    show "s \<in> set (a # xs) \<and> key_of (reg_heap (registry ?y)) s = k" if "(k, s) \<in> set (used ?y)" for k s
      using that D(11) [of k s] kf by simp
  qed
qed

lemma calls_released:
  assumes ok: "registry_ok owner xs x" and t: "calls x t = Created key a"
  shows "((calls x)(t := Reg_idle)) u = Created k b \<longleftrightarrow> calls x u = Created k b \<and> b \<noteq> a"
proof (cases "u = t")
  case False
  then show ?thesis using registry_okD(9) [OF ok t, of u k] by auto
qed (simp add: t)

lemma registry_ok_drop:
  assumes ok: "registry_ok owner xs x" and t: "calls x t = Created key a"
  shows "registry_ok owner xs (x\<lparr>registry := destroy_service (registry x) a, calls := (calls x)(t := Reg_idle)\<rparr>)"
    (is "registry_ok owner xs ?y")
proof -
  note D = registry_okD [OF ok]
  have a: "a \<notin> set xs" using D(8) [OF t] by simp
  have cr: "calls ?y u = Created k b \<longleftrightarrow> calls x u = Created k b \<and> b \<noteq> a" for u k b
    using calls_released [OF ok t] by simp
  have h: "reg_heap (registry ?y) = (reg_heap (registry x))(a := None)" by (simp add: destroy_service_def)
  have kf: "key_of (reg_heap (registry ?y)) s = key_of (reg_heap (registry x)) s" if "s \<in> set xs" for s
    using that a unfolding h by (metis key_of_frame)
  show ?thesis
  proof (rule registry_okI)
    show "reg_owner (registry ?y) = owner" using D(1) by (simp add: destroy_service_def)
    show "services (reg_heap (registry ?y)) (first_service (registry ?y)) xs"
      using D(2) a unfolding h by (simp add: destroy_service_def)
    show "distinct xs" by (fact D(3))
    show "inj_on (key_of (reg_heap (registry ?y))) (set xs)" using D(4) kf by (simp add: inj_on_def)
    have "{b. \<exists>u k. calls ?y u = Created k b} = {b. \<exists>u k. calls x u = Created k b} - {a}"
      unfolding cr by blast
    then show "dom (reg_heap (registry ?y)) = set xs \<union> {b. \<exists>u k. calls ?y u = Created k b}"
      unfolding h dom_fun_upd D(5) using a by auto
    show "key_ok (key_of (reg_heap (registry ?y)) s)" if "s \<in> set xs" for s using that D(6) kf by simp
    show "\<exists>v. reg_heap (registry ?y) s = Some v \<and> svc_owner v = owner" if "s \<in> set xs" for s
      using D(7) [OF that] that a unfolding h by auto
    show "b \<notin> set xs \<and> b \<noteq> 0 \<and> key_ok k \<and> (\<exists>v. reg_heap (registry ?y) b = Some v \<and> svc_key v = k \<and> svc_owner v = owner)"
      if "calls ?y u = Created k b" for u k b
    proof -
      from that have "calls x u = Created k b" "b \<noteq> a" unfolding cr by blast+
      then show ?thesis using D(8) [of u k b] unfolding h by simp
    qed
    show "u = u'" if "calls ?y u = Created k b" "calls ?y u' = Created k' b" for u u' k k' b
      using that D(9) unfolding cr by blast
    show "key_ok k" if "calls ?y u = Creating k" for u k
      using that D(10) by (auto split: if_splits)
    show "s \<in> set xs \<and> key_of (reg_heap (registry ?y)) s = k" if "(k, s) \<in> set (used ?y)" for k s
      using that D(11) [of k s] kf by simp
  qed
qed

lemma search_frame:
  assumes "services h s xs" "a \<notin> set xs"
  shows "search_loop (h(a := z)) key s = search_loop h key s"
proof -
  have "find (\<lambda>x. keys_match (key_of (h(a := z)) x) key) xs = find (\<lambda>x. keys_match (key_of h x) key) xs"
    by (rule find_cong) (use assms(2) in \<open>metis key_of_frame\<close>)+
  then show ?thesis
    using search_loop_list [OF assms(1)] search_loop_list [of "h(a := z)" s xs] assms by simp
qed

lemma key_of_found:
  assumes ok: "registry_ok owner xs x" and key: "key_ok key"
    and s: "search_loop (reg_heap (registry x)) key (first_service (registry x)) = Some s" "s \<noteq> 0"
  shows "s \<in> set xs" "key_of (reg_heap (registry x)) s = key"
  using search_found [OF registry_okD(2) [OF ok] s] registry_okD(6) [OF ok] keys_match_eq key by auto

lemma service_new_simps [simp]: "svc_owner (service_new c) = c" "svc_next (service_new c) = 0"
  by (simp_all add: service_new_def)

lemma registry_ok_joined [simp]: "registry_ok owner xs (x\<lparr>joined := js\<rparr>) = registry_ok owner xs x"
  by (simp add: registry_ok_def Let_def)

text \<open>Every step keeps the invariant, and takes no service out of the list, to which new ones come at the front.\<close>

lemma registry_ok_step:
  assumes "reg_step x y" and ok: "registry_ok owner xs x"
  shows "\<exists>xs'. registry_ok owner xs' y \<and> set xs \<subseteq> set xs' \<and> (joined x = xs \<longrightarrow> joined y = xs')"
proof -
  note D = registry_okD [OF ok]
  from assms(1) show ?thesis
  proof (cases rule: reg_stepE)
    case (use_found t key s)
    then show ?thesis using registry_ok_use [OF ok key_of_found [OF ok]]
      unfolding use_service_find_def by (intro exI [of _ xs]) simp
  next
    case (use_none t key)
    then show ?thesis using registry_ok_calls [OF ok, of t "Creating key"] by auto
  next
    case (use_create t key a)
    then show ?thesis using registry_ok_create [OF ok] by (intro exI [of _ xs]) simp
  next
    case (use_throw t key)
    then show ?thesis using registry_ok_calls [OF ok, of t Reg_idle] by auto
  next
    case (use_link t key a r s)
    have key: "key_ok key" and a: "a \<noteq> 0" "a \<notin> set xs" using D(8) [OF use_link(2)] by auto
    obtain v where v: "reg_heap (registry x) a = Some v" "svc_key v = key" "svc_owner v = owner"
      using D(8) [OF use_link(2)] by blast
    obtain f where f: "search_loop (reg_heap (registry x)) key (first_service (registry x)) = Some f"
      using search_returns [OF D(2)] by blast
    show ?thesis
    proof (cases "f = 0")
      case True
      then have r: "r = push_service (registry x) a v" "s = a"
        using use_link(3) f v(1) by (auto simp: use_service_link_def)
      let ?y = "x\<lparr>registry := push_service (registry x) a v, calls := (calls x)(t := Reg_idle)\<rparr>"
      have "registry_ok owner (a # xs) ?y"
        by (rule registry_ok_push [OF ok key _ a v(2,3) calls_released [OF ok use_link(2)]])
           (use f True in \<open>simp_all split: if_splits\<close>)
      moreover have "key_of (reg_heap (registry ?y)) a = key" using v(2) by (simp add: push_service_def key_of_def)
      ultimately have "registry_ok owner (a # xs) (?y\<lparr>used := (key, a) # used ?y\<rparr>)"
        by (intro registry_ok_use) simp_all
      then have "registry_ok owner (a # xs) (?y\<lparr>used := (key, a) # used ?y, joined := a # joined ?y\<rparr>)" by simp
      then show ?thesis using use_link(1) r by (intro exI [of _ "a # xs"]) auto
    next
      case False
      then have r: "r = destroy_service (registry x) a" "s = f"
        using use_link(3) f by (simp_all add: use_service_link_def)
      let ?y = "x\<lparr>registry := destroy_service (registry x) a, calls := (calls x)(t := Reg_idle)\<rparr>"
      have s: "f \<in> set xs" "key_of (reg_heap (registry x)) f = key" by (rule key_of_found [OF ok key f False])+
      then have "key_of (reg_heap (registry ?y)) f = key"
        using a(2) by (simp add: destroy_service_def) (metis key_of_frame)
      then have "registry_ok owner xs (?y\<lparr>used := (key, f) # used ?y\<rparr>)"
        by (rule registry_ok_use [OF registry_ok_drop [OF ok use_link(2)] s(1)])
      moreover have "f \<noteq> a" using s(1) a(2) by auto
      ultimately show ?thesis using use_link(1) r by (intro exI [of _ xs]) simp
    qed
  next
    case (add_service t key a c r)
    let ?v = "service_new c"
    have a: "a \<notin> set xs" "\<And>u k. calls x u \<noteq> Created k a" using D(5) add_service(5) by auto
    have sf: "search_loop ((reg_heap (registry x))(a \<mapsto> ?v)) key (first_service (registry x)) =
        search_loop (reg_heap (registry x)) key (first_service (registry x))"
      by (rule search_frame [OF D(2) a(1)])
    have c: "c = owner" and none: "search_loop (reg_heap (registry x)) key (first_service (registry x)) = Some 0"
      and r: "r = push_service (registry x) a (?v\<lparr>svc_key := key\<rparr>)"
      using add_service(6) D(1)
      by (auto simp: do_add_service_def sf push_service_def split: if_splits Option.bind_splits)
    have "registry_ok owner (a # xs) (x\<lparr>registry := push_service (registry x) a (?v\<lparr>svc_key := key\<rparr>), calls := calls x\<rparr>)"
      by (rule registry_ok_push [OF ok add_service(3) none _ a(1)])
         (use add_service(4) a(2) c in \<open>auto simp: service_new_def\<close>)
    then have "registry_ok owner (a # xs) (x\<lparr>registry := push_service (registry x) a (?v\<lparr>svc_key := key\<rparr>), joined := a # joined x\<rparr>)"
      by simp
    then show ?thesis using add_service(1) r by (intro exI [of _ "a # xs"]) auto
  next
    case (add_throw t key a c r e)
    have "r = (registry x)\<lparr>reg_heap := (reg_heap (registry x))(a \<mapsto> service_new c)\<rparr>"
      using add_throw(6) by (auto simp: do_add_service_def split: if_splits Option.bind_splits)
    then have "destroy_service r a = registry x"
      using add_throw(5) by (simp add: destroy_service_def fun_upd_idem)
    then show ?thesis using add_throw(1) ok by auto
  qed
qed

lemma registry_ok_newest: "reg_reach owner x \<Longrightarrow> registry_ok owner (joined x) x"
proof (induction rule: reg_reach.induct)
  case start
  then show ?case using registry_ok_start by (simp add: reg_start_def)
next
  case (step x y)
  then show ?case using registry_ok_step by blast
qed

lemma registry_ok_reach: "reg_reach owner x \<Longrightarrow> \<exists>xs. registry_ok owner xs x"
  using registry_ok_newest by blast

text \<open>C7: in every state that the calls of any number of threads can reach, also with services created
  by the constructors of others: the registry holds at most one service for a key; every
  call of \<open>use_service\<close> has returned the service of its key, so that all calls for a key return the
  same one, which stays; a call that has to take the mutex again does not get stuck; and no service
  leaks, each being in the list or in the hands of the thread that has just created it.\<close>

theorem registry_singletons:
  assumes "reg_reach owner x"
  shows "\<exists>xs. services (reg_heap (registry x)) (first_service (registry x)) xs \<and> distinct xs \<and>
    inj_on (key_of (reg_heap (registry x))) (set xs) \<and>
    (\<forall>key s s'. (key, s) \<in> set (used x) \<longrightarrow> (key, s') \<in> set (used x) \<longrightarrow> s = s') \<and>
    (\<forall>(key, s) \<in> set (used x). s \<in> set xs \<and> key_of (reg_heap (registry x)) s = key) \<and>
    (\<forall>t key a. calls x t = Created key a \<longrightarrow> use_service_link (registry x) key a \<noteq> None) \<and>
    dom (reg_heap (registry x)) = set xs \<union> {a. \<exists>t key. calls x t = Created key a}"
proof -
  obtain xs where ok: "registry_ok owner xs x" using registry_ok_reach [OF assms] by blast
  note D = registry_okD [OF ok]
  have "s = s'" if "(key, s) \<in> set (used x)" "(key, s') \<in> set (used x)" for key s s'
    using D(11) [OF that(1)] D(11) [OF that(2)] inj_onD [OF D(4)] by metis
  moreover have "use_service_link (registry x) key a \<noteq> None" if "calls x t = Created key a" for t key a
    using D(8) [OF that] search_returns [OF D(2), of key]
    by (auto simp: use_service_link_def)
  moreover have "\<forall>(key, s) \<in> set (used x). s \<in> set xs \<and> key_of (reg_heap (registry x)) s = key"
    using D(11) by blast
  ultimately show ?thesis using D(2-5) by blast
qed

text \<open>Two threads use the same service for the first time; the second finds that it has come too late.\<close>

definition race_state :: reg_state where
  "race_state =
     \<lparr>registry = \<lparr>reg_owner = 7, first_service = 20,
        reg_heap = [20 \<mapsto> \<lparr>svc_key = init_key 1, svc_owner = 7, svc_next = 0\<rparr>]\<rparr>,
      calls = (\<lambda>_. Reg_idle), used = [(init_key 1, 20), (init_key 1, 20)], joined = [20]\<rparr>"

lemma race_reach: "reg_reach 7 race_state"
proof -
  define v where "v = \<lparr>svc_key = init_key 1, svc_owner = 7, svc_next = 0\<rparr>"
  have k: "key_ok (init_key 1)" by (auto simp: key_ok_def)
  have s0: "search_loop h key 0 = Some 0" for h key by (subst search_loop.simps) simp
  have 1: "reg_reach 7 ((reg_start 7)\<lparr>calls := (\<lambda>_. Reg_idle)(0 := Creating (init_key 1))\<rparr>)" (is "reg_reach 7 ?x1")
    using reg_reach.step [OF reg_reach.start use_none [of "reg_start 7" 0 "init_key 1"]] k s0
    by (simp add: reg_start_def registry_new_def use_service_find_def)
  have 2: "reg_reach 7 (?x1\<lparr>calls := (calls ?x1)(1 := Creating (init_key 1))\<rparr>)" (is "reg_reach 7 ?x2")
    by (rule reg_reach.step [OF 1 use_none])
       (use k s0 in \<open>simp_all add: reg_start_def registry_new_def use_service_find_def\<close>)
  have 3: "reg_reach 7 (?x2\<lparr>registry := use_service_create (registry ?x2) (init_key 1) 10,
      calls := (calls ?x2)(0 := Created (init_key 1) 10)\<rparr>)" (is "reg_reach 7 ?x3")
    by (rule reg_reach.step [OF 2 use_create]) (simp_all add: reg_start_def registry_new_def)
  have 4: "reg_reach 7 (?x3\<lparr>registry := use_service_create (registry ?x3) (init_key 1) 20,
      calls := (calls ?x3)(1 := Created (init_key 1) 20)\<rparr>)" (is "reg_reach 7 ?x4")
    by (rule reg_reach.step [OF 3 use_create]) (simp_all add: reg_start_def registry_new_def use_service_create_def)
  have 5: "reg_reach 7 (?x4\<lparr>registry := push_service (registry ?x4) 20 v,
      calls := (calls ?x4)(1 := Reg_idle), used := (init_key 1, 20) # used ?x4,
      joined := (if 20 = (20 :: nat) then [20] else []) @ joined ?x4\<rparr>)" (is "reg_reach 7 ?x5")
    by (rule reg_reach.step [OF 4 use_link [where t = 1 and key = "init_key 1" and a = 20 and s = 20]])
       (use s0 in \<open>simp_all add: reg_start_def registry_new_def use_service_create_def use_service_link_def
          service_new_def v_def\<close>)
  have s20: "search_loop (reg_heap (registry ?x5)) (init_key 1) 20 = Some 20"
    by (subst search_loop.simps) (simp add: push_service_def v_def keys_match_def init_key_def)
  have 6: "reg_reach 7 (?x5\<lparr>registry := destroy_service (registry ?x5) 10,
      calls := (calls ?x5)(0 := Reg_idle), used := (init_key 1, 20) # used ?x5,
      joined := (if 20 = (10 :: nat) then [10] else []) @ joined ?x5\<rparr>)" (is "reg_reach 7 ?x6")
    by (rule reg_reach.step [OF 5 use_link [where t = 0 and key = "init_key 1" and a = 10 and s = 20]])
       (use s20 in \<open>simp_all add: use_service_link_def push_service_def\<close>)
  have "?x6 = race_state"
    by (auto simp: race_state_def reg_start_def registry_new_def use_service_create_def push_service_def
        destroy_service_def v_def fun_eq_iff)
  then show ?thesis using 6 by simp
qed

theorem registry_singletons_witness:
  "\<exists>xs. services (reg_heap (registry race_state)) 20 xs \<and> dom (reg_heap (registry race_state)) = set xs"
  using registry_singletons [OF race_reach] by (auto simp: race_state_def)

section \<open>The end of the context\<close>






end
