(* ===== verification/SocketOps.thy ===== *)
theory SocketOps
  imports Prelude
begin

unbundle bit_operations_syntax

text \<open>
  The wrappers of the socket system calls, \<open>detail/impl/socket_ops.ipp\<close>, for Linux. The system calls
  are arguments (\<open>sock_os\<close>): each changes the state of the world and returns a value or the error
  code of \<open>errno\<close>. What is the library's own is modelled: the tests of invalid descriptors, the
  loops that wait and try again, the translation of errors and ends of file, and the flags of
  \<open>state_type\<close>. A loop may run forever, which is \<open>None\<close>.
\<close>

section \<open>The system\<close>

type_synonym ('w, 'a) sys = "'w \<Rightarrow> 'w \<times> (error_code + 'a)"

type_synonym msg_flags = "32 word"
type_synonym sock_state = "8 word"

datatype ioctl_cmd = FIONBIO | FIONREAD | SIOCATMARK | Other_cmd int

datatype poll_events = POLLIN | POLLOUT | POLLPRI_ERR_HUP

text \<open>
  \<open>sys_recv\<close> is \<open>recvmsg\<close> or \<open>recv\<close> on buffers of the given sizes, and so on; the value of \<open>sys_getsockopt\<close>
  is the option and its length, that of \<open>sys_ioctl\<close> the argument it leaves.
\<close>

record 'w sock_os =
  sys_socket :: "int \<Rightarrow> int \<Rightarrow> int \<Rightarrow> ('w, int) sys"
  sys_accept :: "int \<Rightarrow> ('w, int) sys"
  sys_connect :: "int \<Rightarrow> ('w, unit) sys"
  sys_recv :: "int \<Rightarrow> nat list \<Rightarrow> msg_flags \<Rightarrow> ('w, byte list) sys"
  sys_recvfrom :: "int \<Rightarrow> nat list \<Rightarrow> msg_flags \<Rightarrow> ('w, byte list \<times> byte list) sys"
  sys_recvmsg :: "int \<Rightarrow> nat list \<Rightarrow> msg_flags \<Rightarrow> ('w, byte list \<times> msg_flags) sys"
  sys_send :: "int \<Rightarrow> byte list list \<Rightarrow> msg_flags \<Rightarrow> ('w, nat) sys"
  sys_sendto :: "int \<Rightarrow> byte list list \<Rightarrow> msg_flags \<Rightarrow> byte list \<Rightarrow> ('w, nat) sys"
  sys_poll :: "int \<Rightarrow> poll_events \<Rightarrow> int \<Rightarrow> ('w, nat) sys"
  sys_ioctl :: "int \<Rightarrow> ioctl_cmd \<Rightarrow> int \<Rightarrow> ('w, int) sys"
  sys_close :: "int \<Rightarrow> ('w, unit) sys"
  sys_setsockopt :: "int \<Rightarrow> int \<Rightarrow> int \<Rightarrow> int \<Rightarrow> nat \<Rightarrow> ('w, unit) sys"
  sys_getsockopt :: "int \<Rightarrow> int \<Rightarrow> int \<Rightarrow> nat \<Rightarrow> ('w, int \<times> nat) sys"
  error_of_value :: "int \<Rightarrow> error_code"

definition EPROTO :: error_code where "EPROTO = Sys_error 71"
definition ENOTTY :: error_code where "ENOTTY = Sys_error 25"
definition MSG_NOSIGNAL :: msg_flags where "MSG_NOSIGNAL = 0x4000"
definition SOL_SOCKET :: int where "SOL_SOCKET = 1"
definition SO_ERROR :: int where "SO_ERROR = 4"
definition SO_SNDBUF :: int where "SO_SNDBUF = 7"
definition SO_RCVBUF :: int where "SO_RCVBUF = 8"
definition SO_LINGER :: int where "SO_LINGER = 13"
definition sizeof_int :: nat where "sizeof_int = 4"
definition sizeof_linger :: nat where "sizeof_linger = 8"

definition custom_socket_option_level :: int where "custom_socket_option_level = 0xA5100000 - 2 ^ 32"
definition enable_connection_aborted_option :: int where "enable_connection_aborted_option = 1"
definition always_fail_option :: int where "always_fail_option = 2"

definition user_set_non_blocking :: sock_state where "user_set_non_blocking = 1"
definition internal_non_blocking :: sock_state where "internal_non_blocking = 2"
definition non_blocking :: sock_state where "non_blocking = user_set_non_blocking OR internal_non_blocking"
definition enable_connection_aborted :: sock_state where "enable_connection_aborted = 4"
definition user_set_linger :: sock_state where "user_set_linger = 8"
definition stream_oriented :: sock_state where "stream_oriented = 16"
definition datagram_oriented :: sock_state where "datagram_oriented = 32"
definition possible_dup :: sock_state where "possible_dup = 64"

definition has_flag :: "sock_state \<Rightarrow> sock_state \<Rightarrow> bool" where
  "has_flag state f \<longleftrightarrow> state AND f \<noteq> 0"

text \<open>\<open>get_last_error\<close>: the code is cleared unless the call has failed.\<close>

definition get_last_error :: "error_code + 'a \<Rightarrow> error_code" where
  "get_last_error r = (case r of Inl e \<Rightarrow> e | Inr a \<Rightarrow> Ok_code)"

section \<open>Waiting\<close>

text \<open>\<open>poll_read\<close>, \<open>poll_write\<close> and \<open>poll_error\<close>: the result of \<open>poll\<close>, negative when it fails.\<close>

definition poll_for ::
  "'w sock_os \<Rightarrow> poll_events \<Rightarrow> int \<Rightarrow> sock_state \<Rightarrow> int \<Rightarrow> 'w \<Rightarrow> 'w \<times> int \<times> error_code"
where
  "poll_for os ev s state msec w =
     (if s = invalid_socket then (w, -1, Bad_descriptor)
      else
        (let timeout = (if has_flag state user_set_non_blocking then 0 else msec);
             (w1, r) = sys_poll os s ev timeout w;
             result = (case r of Inl e \<Rightarrow> -1 | Inr n \<Rightarrow> int n);
             ec = get_last_error r
         in (w1, result,
             if result = 0 \<and> has_flag state user_set_non_blocking then Would_block else ec)))"

definition poll_read :: "'w sock_os \<Rightarrow> int \<Rightarrow> sock_state \<Rightarrow> int \<Rightarrow> 'w \<Rightarrow> 'w \<times> int \<times> error_code" where
  "poll_read os = poll_for os POLLIN"

definition poll_write :: "'w sock_os \<Rightarrow> int \<Rightarrow> sock_state \<Rightarrow> int \<Rightarrow> 'w \<Rightarrow> 'w \<times> int \<times> error_code" where
  "poll_write os = poll_for os POLLOUT"

definition poll_error :: "'w sock_os \<Rightarrow> int \<Rightarrow> sock_state \<Rightarrow> int \<Rightarrow> 'w \<Rightarrow> 'w \<times> int \<times> error_code" where
  "poll_error os = poll_for os POLLPRI_ERR_HUP"

definition poll_connect :: "'w sock_os \<Rightarrow> int \<Rightarrow> int \<Rightarrow> 'w \<Rightarrow> 'w \<times> int \<times> error_code" where
  "poll_connect os s msec w =
     (if s = invalid_socket then (w, -1, Bad_descriptor)
      else
        (let (w1, r) = sys_poll os s POLLOUT msec w
         in (w1, (case r of Inl e \<Rightarrow> -1 | Inr n \<Rightarrow> int n), get_last_error r)))"

section \<open>Transfers that wait\<close>

text \<open>
  The loops of \<open>sync_recv\<close>, \<open>sync_send\<close> and the others differ in the call they make, in what they
  wait for and in the test for the end of a stream; \<open>zero\<close> is what they return with an error.
\<close>

partial_function (option) sync_loop ::
  "('w, 'a) sys \<Rightarrow> ('w \<Rightarrow> 'w \<times> int \<times> error_code) \<Rightarrow> ('a \<Rightarrow> bool) \<Rightarrow> sock_state \<Rightarrow> 'a \<Rightarrow> 'w \<Rightarrow>
   ('w \<times> 'a \<times> error_code) option"
where
  "sync_loop call wait at_end state zero w =
     (case call w of
        (w1, Inr bytes) \<Rightarrow> Some (if at_end bytes then (w1, zero, Eof) else (w1, bytes, Ok_code))
      | (w1, Inl ec) \<Rightarrow>
          (if has_flag state user_set_non_blocking \<or> (ec \<noteq> Would_block \<and> ec \<noteq> Try_again)
           then Some (w1, zero, ec)
           else (case wait w1 of (w2, result, ec2) \<Rightarrow>
             (if result < 0 then Some (w2, zero, ec2)
              else sync_loop call wait at_end state zero w2))))"

declare sync_loop.simps [code]

definition no_end :: "'a \<Rightarrow> bool" where
  "no_end bytes = False"

definition sync_recv ::
  "'w sock_os \<Rightarrow> int \<Rightarrow> sock_state \<Rightarrow> nat list \<Rightarrow> msg_flags \<Rightarrow> bool \<Rightarrow> 'w \<Rightarrow> ('w \<times> byte list \<times> error_code) option"
where
  "sync_recv os s state bufs flags all_empty w =
     (if s = invalid_socket then Some (w, [], Bad_descriptor)
      else if all_empty \<and> has_flag state stream_oriented then Some (w, [], Ok_code)
      else sync_loop (sys_recv os s bufs flags) (poll_read os s 0 (-1))
             (\<lambda>bytes. has_flag state stream_oriented \<and> length bytes = 0) state [] w)"

definition sync_recv1 ::
  "'w sock_os \<Rightarrow> int \<Rightarrow> sock_state \<Rightarrow> nat \<Rightarrow> msg_flags \<Rightarrow> 'w \<Rightarrow> ('w \<times> byte list \<times> error_code) option"
where
  "sync_recv1 os s state sz flags w =
     (if s = invalid_socket then Some (w, [], Bad_descriptor)
      else if sz = 0 \<and> has_flag state stream_oriented then Some (w, [], Ok_code)
      else sync_loop (sys_recv os s [sz] flags) (poll_read os s 0 (-1))
             (\<lambda>bytes. has_flag state stream_oriented \<and> length bytes = 0) state [] w)"

definition sync_recvfrom ::
  "'w sock_os \<Rightarrow> int \<Rightarrow> sock_state \<Rightarrow> nat list \<Rightarrow> msg_flags \<Rightarrow> 'w \<Rightarrow>
   ('w \<times> (byte list \<times> byte list) \<times> error_code) option"
where
  "sync_recvfrom os s state bufs flags w =
     (if s = invalid_socket then Some (w, ([], []), Bad_descriptor)
      else sync_loop (sys_recvfrom os s bufs flags) (poll_read os s 0 (-1)) no_end state ([], []) w)"

definition sync_recvfrom1 ::
  "'w sock_os \<Rightarrow> int \<Rightarrow> sock_state \<Rightarrow> nat \<Rightarrow> msg_flags \<Rightarrow> 'w \<Rightarrow>
   ('w \<times> (byte list \<times> byte list) \<times> error_code) option"
where
  "sync_recvfrom1 os s state sz flags w =
     (if s = invalid_socket then Some (w, ([], []), Bad_descriptor)
      else sync_loop (sys_recvfrom os s [sz] flags) (poll_read os s 0 (-1)) no_end state ([], []) w)"

definition sync_recvmsg ::
  "'w sock_os \<Rightarrow> int \<Rightarrow> sock_state \<Rightarrow> nat list \<Rightarrow> msg_flags \<Rightarrow> 'w \<Rightarrow>
   ('w \<times> (byte list \<times> msg_flags) \<times> error_code) option"
where
  "sync_recvmsg os s state bufs in_flags w =
     (if s = invalid_socket then Some (w, ([], 0), Bad_descriptor)
      else sync_loop (sys_recvmsg os s bufs in_flags) (poll_read os s 0 (-1)) no_end state ([], 0) w)"

text \<open>\<open>send\<close>, \<open>send1\<close>, \<open>sendto\<close> and \<open>sendto1\<close> never raise a signal.\<close>

definition so_send :: "'w sock_os \<Rightarrow> int \<Rightarrow> byte list list \<Rightarrow> msg_flags \<Rightarrow> ('w, nat) sys" where
  "so_send os s bufs flags = sys_send os s bufs (flags OR MSG_NOSIGNAL)"

definition so_sendto :: "'w sock_os \<Rightarrow> int \<Rightarrow> byte list list \<Rightarrow> msg_flags \<Rightarrow> byte list \<Rightarrow> ('w, nat) sys" where
  "so_sendto os s bufs flags addr = sys_sendto os s bufs (flags OR MSG_NOSIGNAL) addr"

definition sync_send ::
  "'w sock_os \<Rightarrow> int \<Rightarrow> sock_state \<Rightarrow> byte list list \<Rightarrow> msg_flags \<Rightarrow> bool \<Rightarrow> 'w \<Rightarrow> ('w \<times> nat \<times> error_code) option"
where
  "sync_send os s state bufs flags all_empty w =
     (if s = invalid_socket then Some (w, 0, Bad_descriptor)
      else if all_empty \<and> has_flag state stream_oriented then Some (w, 0, Ok_code)
      else sync_loop (so_send os s bufs flags) (poll_write os s 0 (-1)) no_end state 0 w)"

definition sync_send1 ::
  "'w sock_os \<Rightarrow> int \<Rightarrow> sock_state \<Rightarrow> byte list \<Rightarrow> msg_flags \<Rightarrow> 'w \<Rightarrow> ('w \<times> nat \<times> error_code) option"
where
  "sync_send1 os s state data flags w =
     (if s = invalid_socket then Some (w, 0, Bad_descriptor)
      else if length data = 0 \<and> has_flag state stream_oriented then Some (w, 0, Ok_code)
      else sync_loop (so_send os s [data] flags) (poll_write os s 0 (-1)) no_end state 0 w)"

definition sync_sendto ::
  "'w sock_os \<Rightarrow> int \<Rightarrow> sock_state \<Rightarrow> byte list list \<Rightarrow> msg_flags \<Rightarrow> byte list \<Rightarrow> 'w \<Rightarrow>
   ('w \<times> nat \<times> error_code) option"
where
  "sync_sendto os s state bufs flags addr w =
     (if s = invalid_socket then Some (w, 0, Bad_descriptor)
      else sync_loop (so_sendto os s bufs flags addr) (poll_write os s 0 (-1)) no_end state 0 w)"

definition sync_sendto1 ::
  "'w sock_os \<Rightarrow> int \<Rightarrow> sock_state \<Rightarrow> byte list \<Rightarrow> msg_flags \<Rightarrow> byte list \<Rightarrow> 'w \<Rightarrow>
   ('w \<times> nat \<times> error_code) option"
where
  "sync_sendto1 os s state data flags addr w =
     (if s = invalid_socket then Some (w, 0, Bad_descriptor)
      else sync_loop (so_sendto os s [data] flags addr) (poll_write os s 0 (-1)) no_end state 0 w)"

section \<open>Transfers that do not wait\<close>

text \<open>
  The loops of \<open>non_blocking_recv\<close> and the others: whether the operation is done, and what it leaves
  in \<open>bytes_transferred\<close>, which at the end of a stream and when nothing is ready keeps its value \<open>old\<close>.
\<close>

partial_function (option) non_blocking_loop ::
  "('w, 'a) sys \<Rightarrow> ('a \<Rightarrow> bool) \<Rightarrow> 'a \<Rightarrow> 'a \<Rightarrow> 'w \<Rightarrow> ('w \<times> bool \<times> 'a \<times> error_code) option"
where
  "non_blocking_loop call at_end zero old w =
     (case call w of
        (w1, Inr bytes) \<Rightarrow> Some (if at_end bytes then (w1, True, old, Eof) else (w1, True, bytes, Ok_code))
      | (w1, Inl ec) \<Rightarrow>
          (if ec = Interrupted then non_blocking_loop call at_end zero old w1
           else if ec = Would_block \<or> ec = Try_again then Some (w1, False, old, ec)
           else Some (w1, True, zero, ec)))"

declare non_blocking_loop.simps [code]

definition non_blocking_recv ::
  "'w sock_os \<Rightarrow> int \<Rightarrow> nat list \<Rightarrow> msg_flags \<Rightarrow> bool \<Rightarrow> byte list \<Rightarrow> 'w \<Rightarrow>
   ('w \<times> bool \<times> byte list \<times> error_code) option"
where
  "non_blocking_recv os s bufs flags is_stream old =
     non_blocking_loop (sys_recv os s bufs flags) (\<lambda>bytes. is_stream \<and> length bytes = 0) [] old"

definition non_blocking_recv1 ::
  "'w sock_os \<Rightarrow> int \<Rightarrow> nat \<Rightarrow> msg_flags \<Rightarrow> bool \<Rightarrow> byte list \<Rightarrow> 'w \<Rightarrow>
   ('w \<times> bool \<times> byte list \<times> error_code) option"
where
  "non_blocking_recv1 os s sz flags is_stream old =
     non_blocking_loop (sys_recv os s [sz] flags) (\<lambda>bytes. is_stream \<and> length bytes = 0) [] old"

definition non_blocking_recvfrom where
  "non_blocking_recvfrom os s bufs flags old =
     non_blocking_loop (sys_recvfrom os s bufs flags) no_end ([], []) old"

definition non_blocking_recvfrom1 where
  "non_blocking_recvfrom1 os s sz flags old =
     non_blocking_loop (sys_recvfrom os s [sz] flags) no_end ([], []) old"

text \<open>\<open>recvmsg\<close> clears the flags when it fails, so that only the bytes keep their value.\<close>

definition non_blocking_recvmsg where
  "non_blocking_recvmsg os s bufs in_flags old =
     non_blocking_loop (sys_recvmsg os s bufs in_flags) no_end ([], 0) (old, 0)"

definition non_blocking_send where
  "non_blocking_send os s bufs flags old =
     non_blocking_loop (so_send os s bufs flags) no_end 0 old"

definition non_blocking_send1 where
  "non_blocking_send1 os s data flags old =
     non_blocking_loop (so_send os s [data] flags) no_end 0 old"

definition non_blocking_sendto where
  "non_blocking_sendto os s bufs flags addr old =
     non_blocking_loop (so_sendto os s bufs flags addr) no_end 0 old"

definition non_blocking_sendto1 where
  "non_blocking_sendto1 os s data flags addr old =
     non_blocking_loop (so_sendto os s [data] flags addr) no_end 0 old"


section \<open>Creating, accepting and connecting\<close>

definition so_socket :: "'w sock_os \<Rightarrow> int \<Rightarrow> int \<Rightarrow> int \<Rightarrow> 'w \<Rightarrow> 'w \<times> int \<times> error_code" where
  "so_socket os af type protocol w =
     (case sys_socket os af type protocol w of (w1, r) \<Rightarrow>
        (w1, case r of Inl e \<Rightarrow> invalid_socket | Inr s \<Rightarrow> s, get_last_error r))"

definition so_accept :: "'w sock_os \<Rightarrow> int \<Rightarrow> 'w \<Rightarrow> 'w \<times> int \<times> error_code" where
  "so_accept os s w =
     (if s = invalid_socket then (w, invalid_socket, Bad_descriptor)
      else (case sys_accept os s w of
        (w1, Inl ec) \<Rightarrow> (w1, invalid_socket, ec)
      | (w1, Inr new_s) \<Rightarrow> (w1, new_s, Ok_code)))"

partial_function (option) sync_accept ::
  "'w sock_os \<Rightarrow> int \<Rightarrow> sock_state \<Rightarrow> 'w \<Rightarrow> ('w \<times> int \<times> error_code) option"
where
  "sync_accept os s state w =
     (case so_accept os s w of (w1, new_socket, ec) \<Rightarrow>
        if new_socket \<noteq> invalid_socket then Some (w1, new_socket, ec)
        else if (if ec = Would_block \<or> ec = Try_again then has_flag state user_set_non_blocking
                 else if ec = Connection_aborted then has_flag state enable_connection_aborted
                 else if ec = EPROTO then has_flag state enable_connection_aborted
                 else True)
        then Some (w1, invalid_socket, ec)
        else (case poll_read os s 0 (-1) w1 of (w2, result, ec2) \<Rightarrow>
          (if result < 0 then Some (w2, invalid_socket, ec2) else sync_accept os s state w2)))"

partial_function (option) non_blocking_accept ::
  "'w sock_os \<Rightarrow> int \<Rightarrow> sock_state \<Rightarrow> 'w \<Rightarrow> ('w \<times> bool \<times> int \<times> error_code) option"
where
  "non_blocking_accept os s state w =
     (case so_accept os s w of (w1, new_socket, ec) \<Rightarrow>
        if new_socket \<noteq> invalid_socket then Some (w1, True, new_socket, ec)
        else if ec = Interrupted then non_blocking_accept os s state w1
        else if ec = Would_block \<or> ec = Try_again then Some (w1, False, new_socket, ec)
        else if ec = Connection_aborted then Some (w1, has_flag state enable_connection_aborted, new_socket, ec)
        else if ec = EPROTO then Some (w1, has_flag state enable_connection_aborted, new_socket, ec)
        else Some (w1, True, new_socket, ec))"

declare sync_accept.simps [code] non_blocking_accept.simps [code]

definition so_connect :: "'w sock_os \<Rightarrow> int \<Rightarrow> 'w \<Rightarrow> 'w \<times> error_code" where
  "so_connect os s w =
     (if s = invalid_socket then (w, Bad_descriptor)
      else (case sys_connect os s w of (w1, r) \<Rightarrow>
        (w1, if get_last_error r = Try_again then No_buffer_space else get_last_error r)))"

definition so_getsockopt ::
  "'w sock_os \<Rightarrow> int \<Rightarrow> sock_state \<Rightarrow> int \<Rightarrow> int \<Rightarrow> nat \<Rightarrow> 'w \<Rightarrow> 'w \<times> (error_code + int \<times> nat)"
where
  "so_getsockopt os s state level optname optlen w =
     (if s = invalid_socket then (w, Inl Bad_descriptor)
      else if level = custom_socket_option_level \<and> optname = always_fail_option then (w, Inl Invalid_argument)
      else if level = custom_socket_option_level \<and> optname = enable_connection_aborted_option then
        (if optlen \<noteq> sizeof_int then (w, Inl Invalid_argument)
         else (w, Inr (if has_flag state enable_connection_aborted then 1 else 0, optlen)))
      else (case sys_getsockopt os s level optname optlen w of
        (w1, Inl ec) \<Rightarrow> (w1, Inl ec)
      | (w1, Inr (optval, optlen1)) \<Rightarrow>
          (w1, Inr (if level = SOL_SOCKET \<and> optlen1 = sizeof_int \<and> (optname = SO_SNDBUF \<or> optname = SO_RCVBUF)
                    then (if optval < 0 then - (- optval div 2) else optval div 2) else optval, optlen1))))"

definition sync_connect :: "'w sock_os \<Rightarrow> int \<Rightarrow> 'w \<Rightarrow> 'w \<times> error_code" where
  "sync_connect os s w =
     (case so_connect os s w of (w1, ec) \<Rightarrow>
        if ec \<noteq> In_progress \<and> ec \<noteq> Would_block then (w1, ec)
        else (case poll_connect os s (-1) w1 of (w2, result, ec2) \<Rightarrow>
          if result < 0 then (w2, ec2)
          else (case so_getsockopt os s 0 SOL_SOCKET SO_ERROR sizeof_int w2 of
              (w3, Inl ec3) \<Rightarrow> (w3, ec3)
            | (w3, Inr (connect_error, _)) \<Rightarrow>
                (w3, if connect_error \<noteq> 0 then error_of_value os connect_error else Ok_code))))"

text \<open>\<open>poll\<close> is called directly, without a test of the descriptor or of its failure.\<close>

definition non_blocking_connect :: "'w sock_os \<Rightarrow> int \<Rightarrow> error_code \<Rightarrow> 'w \<Rightarrow> 'w \<times> bool \<times> error_code" where
  "non_blocking_connect os s ec w =
     (case sys_poll os s POLLOUT 0 w of (w1, r) \<Rightarrow>
        if r = Inr 0 then (w1, False, ec)
        else (case so_getsockopt os s 0 SOL_SOCKET SO_ERROR sizeof_int w1 of
            (w2, Inl ec2) \<Rightarrow> (w2, True, ec2)
          | (w2, Inr (connect_error, _)) \<Rightarrow>
              (w2, True, if connect_error \<noteq> 0 then error_of_value os connect_error else Ok_code)))"

section \<open>The state of a socket\<close>

definition set_flag :: "sock_state \<Rightarrow> sock_state \<Rightarrow> sock_state" where
  "set_flag state f = state OR f"

definition clear_flag :: "sock_state \<Rightarrow> sock_state \<Rightarrow> sock_state" where
  "clear_flag state f = state AND NOT f"

definition set_user_non_blocking ::
  "'w sock_os \<Rightarrow> int \<Rightarrow> sock_state \<Rightarrow> bool \<Rightarrow> 'w \<Rightarrow> 'w \<times> sock_state \<times> bool \<times> error_code"
where
  "set_user_non_blocking os s state value w =
     (if s = invalid_socket then (w, state, False, Bad_descriptor)
      else (case sys_ioctl os s FIONBIO (if value then 1 else 0) w of
        (w1, Inl ec) \<Rightarrow> (w1, state, False, ec)
      | (w1, Inr _) \<Rightarrow>
          (w1, if value then set_flag state user_set_non_blocking
               else clear_flag state (user_set_non_blocking OR internal_non_blocking), True, Ok_code)))"

definition set_internal_non_blocking ::
  "'w sock_os \<Rightarrow> int \<Rightarrow> sock_state \<Rightarrow> bool \<Rightarrow> 'w \<Rightarrow> 'w \<times> sock_state \<times> bool \<times> error_code"
where
  "set_internal_non_blocking os s state value w =
     (if s = invalid_socket then (w, state, False, Bad_descriptor)
      else if \<not> value \<and> has_flag state user_set_non_blocking then (w, state, False, Invalid_argument)
      else (case sys_ioctl os s FIONBIO (if value then 1 else 0) w of
        (w1, Inl ec) \<Rightarrow> (w1, state, False, ec)
      | (w1, Inr _) \<Rightarrow>
          (w1, if value then set_flag state internal_non_blocking
               else clear_flag state internal_non_blocking, True, Ok_code)))"

definition so_ioctl ::
  "'w sock_os \<Rightarrow> int \<Rightarrow> sock_state \<Rightarrow> ioctl_cmd \<Rightarrow> int \<Rightarrow> 'w \<Rightarrow> 'w \<times> sock_state \<times> (error_code + int)"
where
  "so_ioctl os s state cmd arg w =
     (if s = invalid_socket then (w, state, Inl Bad_descriptor)
      else (case sys_ioctl os s cmd arg w of
        (w1, Inl ec) \<Rightarrow> (w1, state, Inl ec)
      | (w1, Inr arg1) \<Rightarrow>
          (w1, if cmd = FIONBIO
               then (if arg1 \<noteq> 0 then set_flag state user_set_non_blocking
                     else clear_flag state (user_set_non_blocking OR internal_non_blocking))
               else state, Inr arg1)))"

definition so_setsockopt ::
  "'w sock_os \<Rightarrow> int \<Rightarrow> sock_state \<Rightarrow> int \<Rightarrow> int \<Rightarrow> int \<Rightarrow> nat \<Rightarrow> 'w \<Rightarrow> 'w \<times> sock_state \<times> error_code"
where
  "so_setsockopt os s state level optname optval optlen w =
     (if s = invalid_socket then (w, state, Bad_descriptor)
      else if level = custom_socket_option_level \<and> optname = always_fail_option then (w, state, Invalid_argument)
      else if level = custom_socket_option_level \<and> optname = enable_connection_aborted_option then
        (if optlen \<noteq> sizeof_int then (w, state, Invalid_argument)
         else (w, if optval \<noteq> 0 then set_flag state enable_connection_aborted
                  else clear_flag state enable_connection_aborted, Ok_code))
      else
        (let state1 = (if level = SOL_SOCKET \<and> optname = SO_LINGER then set_flag state user_set_linger else state)
         in (case sys_setsockopt os s level optname optval optlen w of
               (w1, r) \<Rightarrow> (w1, state1, get_last_error r))))"

text \<open>The option value \<open>0\<close> stands for the \<open>linger\<close> with both members zero. The code is only set when there is a descriptor.\<close>

definition so_close ::
  "'w sock_os \<Rightarrow> int \<Rightarrow> sock_state \<Rightarrow> bool \<Rightarrow> error_code \<Rightarrow> 'w \<Rightarrow> 'w \<times> sock_state \<times> error_code"
where
  "so_close os s state destruction ec w =
     (if s \<noteq> invalid_socket then
        (let (w1, state1) = (if destruction \<and> has_flag state user_set_linger
               then (case so_setsockopt os s state SOL_SOCKET SO_LINGER 0 sizeof_linger w of
                       (w1, state1, ignored_ec) \<Rightarrow> (w1, state1))
               else (w, state));
             (w2, r) = sys_close os s w1;
             ec2 = get_last_error r
         in if ec2 = Would_block \<or> ec2 = Try_again then
              (let (w3, _) = sys_ioctl os s FIONBIO 0 w2;
                   state3 = clear_flag state1 non_blocking;
                   (w4, r4) = sys_close os s w3
               in (w4, state3, get_last_error r4))
            else (w2, state1, ec2))
      else (w, state, ec))"

definition sockatmark :: "'w sock_os \<Rightarrow> int \<Rightarrow> 'w \<Rightarrow> 'w \<times> bool \<times> error_code" where
  "sockatmark os s w =
     (if s = invalid_socket then (w, False, Bad_descriptor)
      else (case sys_ioctl os s SIOCATMARK 0 w of
        (w1, Inl ec) \<Rightarrow> (w1, False, if ec = ENOTTY then Not_socket else ec)
      | (w1, Inr value) \<Rightarrow> (w1, value \<noteq> 0, Ok_code)))"

definition available :: "'w sock_os \<Rightarrow> int \<Rightarrow> 'w \<Rightarrow> 'w \<times> nat \<times> error_code" where
  "available os s w =
     (if s = invalid_socket then (w, 0, Bad_descriptor)
      else (case sys_ioctl os s FIONREAD 0 w of
        (w1, Inl ec) \<Rightarrow> (w1, 0, if ec = ENOTTY then Not_socket else ec)
      | (w1, Inr value) \<Rightarrow> (w1, nat value, Ok_code)))"

end
