(* ===== verification/SocketPerform.thy ===== *)
theory SocketPerform
  imports EpollSteps SocketOps
begin

text \<open>
  What the reactor performs for a socket: the \<open>do_perform\<close> functions of the operations in
  \<open>detail/reactive_socket_*_op.hpp\<close>, \<open>detail/reactive_wait_op.hpp\<close> and
  \<open>detail/reactive_null_buffers_op.hpp\<close>, with \<open>detail/buffer_sequence_adapter.hpp\<close>, which gives the
  system calls at most 64 buffers, and \<open>detail/socket_holder.hpp\<close>. A buffer to receive into is
  its size, a buffer to send is its bytes; the bytes received are a result of the operation.
\<close>

unbundle bit_operations_syntax

section \<open>Native buffers\<close>

definition max_iov_len :: nat where "max_iov_len = 1024"

definition max_buffers :: nat where
  "max_buffers = (if 64 < max_iov_len then 64 else max_iov_len)"

text \<open>The argument of an operation: one buffer or a sequence, which the code distinguishes by type.\<close>

datatype 'b buffers_arg = Single_buffer 'b | Buffer_sequence "'b list"

record 'b bs_adapter =
  native_buffers :: "'b list"
  native_count :: nat
  total_buffer_size :: nat

fun bsa_init :: "('b \<Rightarrow> nat) \<Rightarrow> 'b list \<Rightarrow> 'b bs_adapter \<Rightarrow> 'b bs_adapter" where
  "bsa_init sz [] a = a"
| "bsa_init sz (b # bs) a =
     (if native_count a < max_buffers then
        bsa_init sz bs \<lparr>native_buffers = native_buffers a @ [b], native_count = native_count a + 1,
          total_buffer_size = total_buffer_size a + sz b\<rparr>
      else a)"

definition bsa_new :: "('b \<Rightarrow> nat) \<Rightarrow> 'b list \<Rightarrow> 'b bs_adapter" where
  "bsa_new sz bs = bsa_init sz bs \<lparr>native_buffers = [], native_count = 0, total_buffer_size = 0\<rparr>"

definition bsa_all_empty :: "'b bs_adapter \<Rightarrow> bool" where
  "bsa_all_empty a \<longleftrightarrow> total_buffer_size a = 0"

fun bsa_all_empty_loop :: "('b \<Rightarrow> nat) \<Rightarrow> 'b list \<Rightarrow> nat \<Rightarrow> bool" where
  "bsa_all_empty_loop sz [] i = True"
| "bsa_all_empty_loop sz (b # bs) i =
     (if i < max_buffers then (if sz b > 0 then False else bsa_all_empty_loop sz bs (i + 1)) else True)"

definition bsa_all_empty_seq :: "('b \<Rightarrow> nat) \<Rightarrow> 'b list \<Rightarrow> bool" where
  "bsa_all_empty_seq sz bs = bsa_all_empty_loop sz bs 0"

fun bsa_first :: "('b \<Rightarrow> nat) \<Rightarrow> 'b \<Rightarrow> 'b list \<Rightarrow> 'b" where
  "bsa_first sz none [] = none"
| "bsa_first sz none (b # bs) = (if sz b \<noteq> 0 then b else bsa_first sz none bs)"

fun bufs_all_empty :: "('b \<Rightarrow> nat) \<Rightarrow> 'b buffers_arg \<Rightarrow> bool" where
  "bufs_all_empty sz (Single_buffer b) = (sz b = 0)"
| "bufs_all_empty sz (Buffer_sequence bs) = bsa_all_empty_seq sz bs"

definition native :: "('b \<Rightarrow> nat) \<Rightarrow> 'b buffers_arg \<Rightarrow> 'b list" where
  "native sz bufs = (case bufs of Single_buffer b \<Rightarrow> [b] | Buffer_sequence bs \<Rightarrow> native_buffers (bsa_new sz bs))"

lemma diff_SucD: "m - i = Suc n \<Longrightarrow> m - Suc i = n"
  by simp

lemma bsa_init_eq:
  "native_count a = length (native_buffers a) \<Longrightarrow> native_count a \<le> max_buffers \<Longrightarrow>
   total_buffer_size a = sum_list (map sz (native_buffers a)) \<Longrightarrow>
   bsa_init sz bs a =
     \<lparr>native_buffers = native_buffers a @ take (max_buffers - native_count a) bs,
      native_count = native_count a + length (take (max_buffers - native_count a) bs),
      total_buffer_size = sum_list (map sz (native_buffers a @ take (max_buffers - native_count a) bs))\<rparr>"
proof (induction bs arbitrary: a)
  case (Cons b bs)
  then show ?case
    by (cases "max_buffers - native_count a") (simp_all add: diff_SucD)
qed simp

lemma bsa_new_eq:
  "bsa_new sz bs = \<lparr>native_buffers = take max_buffers bs, native_count = length (take max_buffers bs),
     total_buffer_size = sum_list (map sz (take max_buffers bs))\<rparr>"
  by (simp add: bsa_new_def bsa_init_eq)

lemma bsa_all_empty_loop_eq:
  "bsa_all_empty_loop sz bs i \<longleftrightarrow> (\<forall>b \<in> set (take (max_buffers - i) bs). sz b = 0)"
proof (induction bs arbitrary: i)
  case (Cons b bs)
  then show ?case by (cases "max_buffers - i") (auto dest: diff_SucD)
qed simp

lemma bufs_all_empty_eq: "bufs_all_empty sz bufs \<longleftrightarrow> sum_list (map sz (native sz bufs)) = 0"
  by (cases bufs) (auto simp: native_def bsa_all_empty_seq_def bsa_all_empty_loop_eq bsa_new_eq)

section \<open>Sockets in transit\<close>

text \<open>\<open>socket_holder\<close>: the socket it owns. Its destructor is \<open>holder_reset\<close>.\<close>

definition holder_reset :: "'w sock_os \<Rightarrow> int \<Rightarrow> 'w \<Rightarrow> 'w \<times> int" where
  "holder_reset os h w =
     (if h \<noteq> invalid_socket then
        (case so_close os h 0 True Ok_code w of (w1, state1, ec) \<Rightarrow> (w1, invalid_socket))
      else (w, h))"

definition holder_reset_to :: "'w sock_os \<Rightarrow> int \<Rightarrow> int \<Rightarrow> 'w \<Rightarrow> 'w \<times> int" where
  "holder_reset_to os h s w = (case holder_reset os h w of (w1, h1) \<Rightarrow> (w1, s))"

definition holder_release :: "int \<Rightarrow> int \<times> int" where
  "holder_release h = (h, invalid_socket)"

section \<open>Operations\<close>

datatype sock_op_kind =
    Recv_kind "nat buffers_arg" msg_flags
  | Recvfrom_kind "nat buffers_arg" msg_flags
  | Recvmsg_kind "nat list" msg_flags
  | Send_kind "byte list buffers_arg" msg_flags
  | Sendto_kind "byte list buffers_arg" msg_flags "byte list"
  | Accept_kind
  | Connect_kind
  | Wait_kind
  | Null_buffers_kind

text \<open>The members an operation is constructed with, and those that \<open>do_perform\<close> sets beside the \<open>reactor_op\<close>.\<close>

record sock_op =
  sop_socket :: int
  sop_state :: sock_state
  sop_kind :: sock_op_kind

record sop_result =
  res_data :: "byte list"
  res_addr :: "byte list"
  res_flags :: msg_flags
  res_socket :: int

type_synonym sop_mut = "reactor_op \<times> sop_result"

definition status_of :: "bool \<Rightarrow> perform_status" where
  "status_of finished = (if finished then Perform_done else Not_done)"

definition recv_do_perform ::
  "'w sock_os \<Rightarrow> int \<Rightarrow> sock_state \<Rightarrow> nat buffers_arg \<Rightarrow> msg_flags \<Rightarrow> sop_mut \<Rightarrow> 'w \<Rightarrow>
   (perform_status \<times> sop_mut \<times> 'w) option"
where
  "recv_do_perform os s state buffers flags = (\<lambda>(op, res) w.
     map_option (\<lambda>(w1, finished, data, ec).
         (let op1 = op\<lparr>rop_ec := ec, rop_bytes := length data\<rparr>;
              result = (if status_of finished = Perform_done \<and> has_flag state stream_oriented \<and>
                          rop_bytes op1 = 0 then Done_and_exhausted else status_of finished)
          in (result, (op1, res\<lparr>res_data := data\<rparr>), w1)))
       (case buffers of
          Single_buffer sz \<Rightarrow> non_blocking_recv1 os s sz flags (has_flag state stream_oriented) (res_data res) w
        | Buffer_sequence bs \<Rightarrow>
            (let bufs = bsa_new id bs
             in non_blocking_recv os s (native_buffers bufs) flags (has_flag state stream_oriented) (res_data res) w)))"

definition recvfrom_do_perform ::
  "'w sock_os \<Rightarrow> int \<Rightarrow> nat buffers_arg \<Rightarrow> msg_flags \<Rightarrow> sop_mut \<Rightarrow> 'w \<Rightarrow>
   (perform_status \<times> sop_mut \<times> 'w) option"
where
  "recvfrom_do_perform os s buffers flags = (\<lambda>(op, res) w.
     map_option (\<lambda>(w1, finished, (data, addr), ec).
         (status_of finished,
          (op\<lparr>rop_ec := ec, rop_bytes := length data\<rparr>,
           res\<lparr>res_data := data, res_addr := (if finished \<and> \<not> failed ec then addr else res_addr res)\<rparr>), w1))
       (case buffers of
          Single_buffer sz \<Rightarrow> non_blocking_recvfrom1 os s sz flags (res_data res, res_addr res) w
        | Buffer_sequence bs \<Rightarrow>
            (let bufs = bsa_new id bs
             in non_blocking_recvfrom os s (native_buffers bufs) flags (res_data res, res_addr res) w)))"

definition recvmsg_do_perform ::
  "'w sock_os \<Rightarrow> int \<Rightarrow> nat list \<Rightarrow> msg_flags \<Rightarrow> sop_mut \<Rightarrow> 'w \<Rightarrow> (perform_status \<times> sop_mut \<times> 'w) option"
where
  "recvmsg_do_perform os s bs in_flags = (\<lambda>(op, res) w.
     map_option (\<lambda>(w1, finished, (data, out_flags), ec).
         (status_of finished,
          (op\<lparr>rop_ec := ec, rop_bytes := length data\<rparr>, res\<lparr>res_data := data, res_flags := out_flags\<rparr>), w1))
       (non_blocking_recvmsg os s (native_buffers (bsa_new id bs)) in_flags (res_data res) w))"

definition send_do_perform ::
  "'w sock_os \<Rightarrow> int \<Rightarrow> sock_state \<Rightarrow> byte list buffers_arg \<Rightarrow> msg_flags \<Rightarrow> sop_mut \<Rightarrow> 'w \<Rightarrow>
   (perform_status \<times> sop_mut \<times> 'w) option"
where
  "send_do_perform os s state buffers flags = (\<lambda>(op, res) w.
     (case buffers of
        Single_buffer data \<Rightarrow>
          map_option (\<lambda>(w1, finished, bytes, ec).
              (let op1 = op\<lparr>rop_ec := ec, rop_bytes := bytes\<rparr>
               in (if status_of finished = Perform_done \<and> has_flag state stream_oriented \<and>
                     rop_bytes op1 < length data then Done_and_exhausted else status_of finished,
                   (op1, res), w1)))
            (non_blocking_send1 os s data flags (rop_bytes op) w)
      | Buffer_sequence bs \<Rightarrow>
          (let bufs = bsa_new length bs
           in map_option (\<lambda>(w1, finished, bytes, ec).
                (let op1 = op\<lparr>rop_ec := ec, rop_bytes := bytes\<rparr>
                 in (if status_of finished = Perform_done \<and> has_flag state stream_oriented \<and>
                       rop_bytes op1 < total_buffer_size bufs then Done_and_exhausted else status_of finished,
                     (op1, res), w1)))
              (non_blocking_send os s (native_buffers bufs) flags (rop_bytes op) w))))"

definition sendto_do_perform ::
  "'w sock_os \<Rightarrow> int \<Rightarrow> byte list buffers_arg \<Rightarrow> msg_flags \<Rightarrow> byte list \<Rightarrow> sop_mut \<Rightarrow> 'w \<Rightarrow>
   (perform_status \<times> sop_mut \<times> 'w) option"
where
  "sendto_do_perform os s buffers flags destination = (\<lambda>(op, res) w.
     map_option (\<lambda>(w1, finished, bytes, ec).
         (status_of finished, (op\<lparr>rop_ec := ec, rop_bytes := bytes\<rparr>, res), w1))
       (case buffers of
          Single_buffer data \<Rightarrow> non_blocking_sendto1 os s data flags destination (rop_bytes op) w
        | Buffer_sequence bs \<Rightarrow>
            (let bufs = bsa_new length bs
             in non_blocking_sendto os s (native_buffers bufs) flags destination (rop_bytes op) w)))"

definition accept_do_perform ::
  "'w sock_os \<Rightarrow> int \<Rightarrow> sock_state \<Rightarrow> sop_mut \<Rightarrow> 'w \<Rightarrow> (perform_status \<times> sop_mut \<times> 'w) option"
where
  "accept_do_perform os s state = (\<lambda>(op, res) w.
     map_option (\<lambda>(w1, finished, new_socket, ec).
         (case holder_reset_to os (res_socket res) new_socket w1 of (w2, h) \<Rightarrow>
            (status_of finished, (op\<lparr>rop_ec := ec\<rparr>, res\<lparr>res_socket := h\<rparr>), w2)))
       (non_blocking_accept os s state w))"

definition connect_do_perform :: "'w sock_os \<Rightarrow> int \<Rightarrow> sop_mut \<Rightarrow> 'w \<Rightarrow> perform_status \<times> sop_mut \<times> 'w" where
  "connect_do_perform os s = (\<lambda>(op, res) w.
     (case non_blocking_connect os s (rop_ec op) w of (w1, finished, ec) \<Rightarrow>
        (status_of finished, (op\<lparr>rop_ec := ec\<rparr>, res), w1)))"

definition wait_do_perform :: "sop_mut \<Rightarrow> 'w \<Rightarrow> perform_status \<times> sop_mut \<times> 'w" where
  "wait_do_perform m w = (Perform_done, m, w)"

definition null_buffers_do_perform :: "sop_mut \<Rightarrow> 'w \<Rightarrow> perform_status \<times> sop_mut \<times> 'w" where
  "null_buffers_do_perform m w = (Perform_done, m, w)"

text \<open>
  The function pointer called by \<open>perform\<close>. The holder of an accept operation is empty whenever
  an attempt is made, since the operation is constructed with none and an attempt that does not
  complete leaves none (\<open>accept_not_done_empty\<close>).
\<close>

definition sock_do_perform ::
  "'w sock_os \<Rightarrow> sock_op \<Rightarrow> sop_mut \<Rightarrow> 'w \<Rightarrow> (perform_status \<times> sop_mut \<times> 'w) option"
where
  "sock_do_perform os sop = (\<lambda>(op, res) w.
     (case sop_kind sop of
        Recv_kind bufs flags \<Rightarrow> recv_do_perform os (sop_socket sop) (sop_state sop) bufs flags (op, res) w
      | Recvfrom_kind bufs flags \<Rightarrow> recvfrom_do_perform os (sop_socket sop) bufs flags (op, res) w
      | Recvmsg_kind bs flags \<Rightarrow> recvmsg_do_perform os (sop_socket sop) bs flags (op, res) w
      | Send_kind bufs flags \<Rightarrow> send_do_perform os (sop_socket sop) (sop_state sop) bufs flags (op, res) w
      | Sendto_kind bufs flags addr \<Rightarrow> sendto_do_perform os (sop_socket sop) bufs flags addr (op, res) w
      | Accept_kind \<Rightarrow> accept_do_perform os (sop_socket sop) (sop_state sop) (op, res\<lparr>res_socket := invalid_socket\<rparr>) w
      | Connect_kind \<Rightarrow> Some (connect_do_perform os (sop_socket sop) (op, res) w)
      | Wait_kind \<Rightarrow> Some (wait_do_perform (op, res) w)
      | Null_buffers_kind \<Rightarrow> Some (null_buffers_do_perform (op, res) w)))"

end
