(* ===== verification/SocketOpsProps.thy ===== *)
theory SocketOpsProps
  imports SocketOps
begin

text \<open>
  What the loops around the system calls return: the answer of the last call, the earlier ones
  having been interrupted or having had to wait; and that they return.
\<close>

section \<open>Calls repeated while they are interrupted\<close>

inductive retried :: "('w, 'a) sys \<Rightarrow> 'w \<Rightarrow> 'w \<Rightarrow> bool" for call where
  now: "retried call w w"
| again: "call w = (w1, Inl Interrupted) \<Longrightarrow> retried call w1 w2 \<Longrightarrow> retried call w w2"

text \<open>Signals do not arrive for ever: some bound decreases with every interruption.\<close>

definition interrupts_end :: "('w \<Rightarrow> nat) \<Rightarrow> ('w, 'a) sys \<Rightarrow> bool" where
  "interrupts_end \<mu> call \<longleftrightarrow> (\<forall>w w1. call w = (w1, Inl Interrupted) \<longrightarrow> \<mu> w1 < \<mu> w)"

lemma interrupts_endD: "interrupts_end \<mu> call \<Longrightarrow> call w = (w1, Inl Interrupted) \<Longrightarrow> \<mu> w1 < \<mu> w"
  by (simp add: interrupts_end_def)

definition nb_answer :: "('a \<Rightarrow> bool) \<Rightarrow> 'a \<Rightarrow> 'a \<Rightarrow> error_code + 'a \<Rightarrow> bool \<times> 'a \<times> error_code" where
  "nb_answer at_end zero old r =
     (case r of
        Inr bytes \<Rightarrow> if at_end bytes then (True, old, Eof) else (True, bytes, Ok_code)
      | Inl ec \<Rightarrow> if ec = Would_block \<or> ec = Try_again then (False, old, ec) else (True, zero, ec))"

lemma non_blocking_loop_run:
  assumes "interrupts_end \<mu> call"
  shows "\<exists>w0 w1 r. retried call w w0 \<and> call w0 = (w1, r) \<and> r \<noteq> Inl Interrupted \<and>
    non_blocking_loop call at_end zero old w = Some (w1, nb_answer at_end zero old r)"
proof (induction "\<mu> w" arbitrary: w rule: less_induct)
  case less
  obtain w1 r where c: "call w = (w1, r)" by fastforce
  show ?case
  proof (cases "r = Inl Interrupted")
    case True
    then have "\<mu> w1 < \<mu> w" using interrupts_endD [OF assms] c by simp
    from less [OF this] True c show ?thesis
      by (subst non_blocking_loop.simps) (auto intro: retried.again)
  next
    case False
    then show ?thesis using c
      by (subst non_blocking_loop.simps)
         (auto simp: nb_answer_def split: sum.splits intro!: exI [of _ w] retried.now)
  qed
qed

text \<open>\<open>non_blocking_accept\<close> in the same terms.\<close>

definition accept_answer :: "sock_state \<Rightarrow> error_code + int \<Rightarrow> bool \<times> int \<times> error_code" where
  "accept_answer state r =
     (case r of
        Inr new_s \<Rightarrow> (True, new_s, Ok_code)
      | Inl ec \<Rightarrow>
          (if ec = Would_block \<or> ec = Try_again then False
           else if ec = Connection_aborted \<or> ec = EPROTO then has_flag state enable_connection_aborted
           else True, invalid_socket, ec))"

lemma non_blocking_accept_run:
  assumes intr: "interrupts_end \<mu> (sys_accept os s)" and s: "s \<noteq> invalid_socket"
    and fd: "\<And>w w1 n. sys_accept os s w = (w1, Inr n) \<Longrightarrow> n \<noteq> invalid_socket"
  shows "\<exists>w0 w1 r. retried (sys_accept os s) w w0 \<and> sys_accept os s w0 = (w1, r) \<and> r \<noteq> Inl Interrupted \<and>
    non_blocking_accept os s state w = Some (w1, accept_answer state r)"
proof (induction "\<mu> w" arbitrary: w rule: less_induct)
  case less
  obtain w1 r where c: "sys_accept os s w = (w1, r)" by fastforce
  show ?case
  proof (cases "r = Inl Interrupted")
    case True
    then have "\<mu> w1 < \<mu> w" using interrupts_endD [OF intr] c by simp
    from less [OF this] True c s show ?thesis
      by (subst non_blocking_accept.simps) (auto simp: so_accept_def intro: retried.again)
  next
    case False
    then show ?thesis using c s fd [of w]
      by (subst non_blocking_accept.simps)
         (auto simp: accept_answer_def so_accept_def EPROTO_def split: sum.splits intro!: exI [of _ w] retried.now)
  qed
qed

lemma accept_invalid: "non_blocking_accept os invalid_socket state w = Some (w, True, invalid_socket, Bad_descriptor)"
  by (subst non_blocking_accept.simps) (simp add: so_accept_def EPROTO_def)

section \<open>Calls repeated after waiting\<close>

inductive waited :: "('w, 'a) sys \<Rightarrow> ('w \<Rightarrow> 'w \<times> int \<times> error_code) \<Rightarrow> 'w \<Rightarrow> 'w \<Rightarrow> bool" for call wait where
  now: "waited call wait w w"
| again: "call w = (w1, Inl ec) \<Longrightarrow> ec = Would_block \<or> ec = Try_again \<Longrightarrow> wait w1 = (w2, result, ec2) \<Longrightarrow>
    0 \<le> result \<Longrightarrow> waited call wait w2 w3 \<Longrightarrow> waited call wait w w3"

definition waits_end :: "('w \<Rightarrow> nat) \<Rightarrow> ('w, 'a) sys \<Rightarrow> ('w \<Rightarrow> 'w \<times> int \<times> error_code) \<Rightarrow> bool" where
  "waits_end \<mu> call wait \<longleftrightarrow> (\<forall>w w1 ec w2 result ec2. call w = (w1, Inl ec) \<longrightarrow> ec = Would_block \<or> ec = Try_again \<longrightarrow>
     wait w1 = (w2, result, ec2) \<longrightarrow> 0 \<le> result \<longrightarrow> \<mu> w2 < \<mu> w)"

text \<open>The answer of the last call, or the error of the wait that failed.\<close>

definition sync_answer :: "('w, 'a) sys \<Rightarrow> ('w \<Rightarrow> 'w \<times> int \<times> error_code) \<Rightarrow> ('a \<Rightarrow> bool) \<Rightarrow> sock_state \<Rightarrow> 'a \<Rightarrow>
    'w \<Rightarrow> 'w \<times> 'a \<times> error_code \<Rightarrow> bool" where
  "sync_answer call wait at_end state zero w0 answer \<longleftrightarrow>
     (case call w0 of
        (w1, Inr bytes) \<Rightarrow> answer = (if at_end bytes then (w1, zero, Eof) else (w1, bytes, Ok_code))
      | (w1, Inl ec) \<Rightarrow>
          if has_flag state user_set_non_blocking \<or> (ec \<noteq> Would_block \<and> ec \<noteq> Try_again) then answer = (w1, zero, ec)
          else (case wait w1 of (w2, result, ec2) \<Rightarrow> result < 0 \<and> answer = (w2, zero, ec2)))"

lemma sync_loop_run:
  assumes "waits_end \<mu> call wait"
  shows "\<exists>w0 answer. waited call wait w w0 \<and> sync_answer call wait at_end state zero w0 answer \<and>
    sync_loop call wait at_end state zero w = Some answer"
proof (induction "\<mu> w" arbitrary: w rule: less_induct)
  case less
  obtain w1 r where c: "call w = (w1, r)" by fastforce
  obtain w2 result ec2 where wt: "wait w1 = (w2, result, ec2)" by (metis prod_cases3)
  show ?case
  proof (cases "\<exists>ec. r = Inl ec \<and> (ec = Would_block \<or> ec = Try_again) \<and> \<not> has_flag state user_set_non_blocking \<and> 0 \<le> result")
    case True
    then obtain ec where ec: "r = Inl ec" "ec = Would_block \<or> ec = Try_again"
      "\<not> has_flag state user_set_non_blocking" "0 \<le> result" by blast
    then have "\<mu> w2 < \<mu> w" using assms c wt unfolding waits_end_def by blast
    from less [OF this] obtain w0 answer where "waited call wait w2 w0"
      "sync_answer call wait at_end state zero w0 answer" "sync_loop call wait at_end state zero w2 = Some answer" by blast
    moreover from this(1) ec c wt have "waited call wait w w0" by (blast intro: waited.again)
    moreover have "sync_loop call wait at_end state zero w = sync_loop call wait at_end state zero w2"
      using ec c wt by (subst sync_loop.simps) auto
    ultimately show ?thesis by metis
  next
    case False
    then show ?thesis using c wt
      by (subst sync_loop.simps)
         (auto simp: sync_answer_def split: sum.splits intro!: exI [of _ w] waited.now)
  qed
qed

end
