(* ===== verification/SocketPerformProps.thy ===== *)
theory SocketPerformProps
  imports SocketPerform SocketOpsProps EpollProps
begin

text \<open>
  Socket operations under the epoll reactor. The reactor relies on a law of the \<open>perform\<close> functions: an
  attempt that does not complete, or that reports the descriptor exhausted, leaves it not
  ready or with an event pending. Here the law is derived for the socket operations from
  what the system calls promise, so that the reactor's guarantees hold for sockets. The operations
  stop, at an error or an end of file that they report or at an aborted connection, before they have
  found the descriptor exhausted; where that has happened is kept beside the world (\<open>passed\<close>).
\<close>

unbundle bit_operations_syntax

section \<open>Sockets as the reactor's operations\<close>

record 'w sock_world =
  sys_world :: 'w
  results :: "nat \<Rightarrow> sop_result"
  passed :: "did \<Rightarrow> op_type \<Rightarrow> bool"

text \<open>
  An attempt gave up if it has reported an error or the end of a stream as exhausting the descriptor, having moved
  nothing, or has failed to accept without having been told that there is no connection.
\<close>

definition blocked :: "error_code \<Rightarrow> bool" where
  "blocked e \<longleftrightarrow> e = Would_block \<or> e = Try_again"

definition given_up :: "sock_op \<Rightarrow> perform_status \<Rightarrow> reactor_op \<Rightarrow> bool" where
  "given_up sop status op \<longleftrightarrow> status = Done_and_exhausted \<and> rop_bytes op = 0 \<or>
     status = Not_done \<and> sop_kind sop = Accept_kind \<and> \<not> blocked (rop_ec op)"

text \<open>
  \<open>table d j n\<close> is the operation with identity \<open>n\<close>, started on descriptor state \<open>d\<close> as an operation
  of type \<open>j\<close>. The operation is left alone if its \<open>do_perform\<close> does not return, which
  \<open>sock_perform_returns\<close> excludes.
\<close>

type_synonym sop_table = "did \<Rightarrow> op_type \<Rightarrow> nat \<Rightarrow> sock_op"

definition sock_perform :: "'w sock_os \<Rightarrow> sop_table \<Rightarrow> did \<Rightarrow> op_type \<Rightarrow> reactor_op \<Rightarrow> 'w sock_world \<Rightarrow>
    perform_status \<times> reactor_op \<times> 'w sock_world" where
  "sock_perform os table d j op W =
     (case sock_do_perform os (table d j (rop_id op)) (op, results W (rop_id op)) (sys_world W) of
        None \<Rightarrow> (Not_done, op, W)
      | Some (status, (op1, res1), w1) \<Rightarrow>
          (status, op1, W\<lparr>sys_world := w1, results := (results W)(rop_id op := res1),
             passed := (if status = Perform_done then passed W
               else (passed W)(d := (passed W d)(j := given_up (table d j (rop_id op)) status op1)))\<rparr>))"

text \<open>
  The calls of the reactor itself do not touch the operations. A registration made or modified starts
  anew: the kernel reports whatever is ready then. Given up, a descriptor counts as not ready.
\<close>

definition lift_kernel :: "'w kernel \<Rightarrow> 'w sock_world kernel" where
  "lift_kernel k = \<lparr>ready = \<lambda>W d j. ready k (sys_world W) d j \<and> \<not> passed W d j,
     interest = \<lambda>W. interest k (sys_world W), pend = \<lambda>W. pend k (sys_world W), noted = passed\<rparr>"

definition sock_rx_os :: "'w sock_os \<Rightarrow> sop_table \<Rightarrow> 'w os \<Rightarrow> 'w sock_world os" where
  "sock_rx_os os table rxos = \<lparr>
     os_perform = sock_perform os table,
     os_epoll_ctl = (\<lambda>c fd ev p W. case os_epoll_ctl rxos c fd ev p (sys_world W) of (r, w) \<Rightarrow>
       (r, W\<lparr>sys_world := w,
             passed := (case p of
               Descr_ptr d \<Rightarrow> if r = 0 \<and> c \<noteq> Ctl_del then (passed W)(d := (\<lambda>_. False)) else passed W
             | _ \<Rightarrow> passed W)\<rparr>)),
     os_epoll_wait = (\<lambda>timeout W. case os_epoll_wait rxos timeout (sys_world W) of (evs, w) \<Rightarrow> (evs, W\<lparr>sys_world := w\<rparr>)),
     os_timerfd_settime = (\<lambda>abstime sec nsec W. W\<lparr>sys_world := os_timerfd_settime rxos abstime sec nsec (sys_world W)\<rparr>),
     os_interrupt = (\<lambda>W. W\<lparr>sys_world := os_interrupt rxos (sys_world W)\<rparr>),
     os_now = (\<lambda>W. os_now rxos (sys_world W))\<rparr>"

section \<open>What the system calls promise\<close>

definition call_keeps :: "'w kernel \<Rightarrow> ('w, 'a) sys \<Rightarrow> bool" where
  "call_keeps k f \<longleftrightarrow> (\<forall>w d. keeps k w (fst (f w)) d)"

definition fails_exhausted :: "'w kernel \<Rightarrow> did \<Rightarrow> op_type \<Rightarrow> ('w, 'a) sys \<Rightarrow> (error_code \<Rightarrow> bool) \<Rightarrow> bool" where
  "fails_exhausted k d j f E \<longleftrightarrow> (\<forall>w w' e. f w = (w', Inl e) \<longrightarrow> E e \<longrightarrow> covers (interest k w d) j \<longrightarrow> armed k w' d j)"

definition returns_exhausted :: "'w kernel \<Rightarrow> did \<Rightarrow> op_type \<Rightarrow> ('w, 'a) sys \<Rightarrow> ('a \<Rightarrow> bool) \<Rightarrow> bool" where
  "returns_exhausted k d j f P \<longleftrightarrow> (\<forall>w w' a. f w = (w', Inr a) \<longrightarrow> P a \<longrightarrow> covers (interest k w d) j \<longrightarrow> armed k w' d j)"

definition MSG_OOB :: msg_flags where "MSG_OOB = 1"

definition recv_type :: "msg_flags \<Rightarrow> op_type" where
  "recv_type flags = (if flags AND MSG_OOB \<noteq> 0 then Except_op else Read_op)"

text \<open>
  \<open>fd d\<close> is the socket of descriptor state \<open>d\<close>, \<open>stream\<close> tells the stream sockets. No call loses readiness,
  and interruptions end (\<open>\<mu>\<close>: signals do not keep arriving for ever). A call that would block leaves the
  descriptor not ready or an event pending; so does, on a stream, a send of less than was asked, and a \<open>poll\<close>
  that reports the socket not writable. Nothing is promised of a call that fails otherwise or finds
  the end of a stream.
\<close>

definition calls_law :: "('w \<Rightarrow> nat) \<Rightarrow> 'w sock_os \<Rightarrow> 'w kernel \<Rightarrow> bool" where
  "calls_law \<mu> os k \<longleftrightarrow>
     (\<forall>s bufs flags. call_keeps k (sys_recv os s bufs flags) \<and> interrupts_end \<mu> (sys_recv os s bufs flags)) \<and>
     (\<forall>s bufs flags. call_keeps k (sys_recvfrom os s bufs flags) \<and> interrupts_end \<mu> (sys_recvfrom os s bufs flags)) \<and>
     (\<forall>s bufs flags. call_keeps k (sys_recvmsg os s bufs flags) \<and> interrupts_end \<mu> (sys_recvmsg os s bufs flags)) \<and>
     (\<forall>s data flags. call_keeps k (sys_send os s data flags) \<and> interrupts_end \<mu> (sys_send os s data flags)) \<and>
     (\<forall>s data flags addr. call_keeps k (sys_sendto os s data flags addr) \<and> interrupts_end \<mu> (sys_sendto os s data flags addr)) \<and>
     (\<forall>s. call_keeps k (sys_accept os s) \<and> interrupts_end \<mu> (sys_accept os s) \<and>
        (\<forall>w w1 n. sys_accept os s w = (w1, Inr n) \<longrightarrow> n \<noteq> invalid_socket)) \<and>
     (\<forall>s ev msec. call_keeps k (sys_poll os s ev msec)) \<and>
     (\<forall>s level optname optlen. call_keeps k (sys_getsockopt os s level optname optlen))"

definition blocking_law :: "'w sock_os \<Rightarrow> 'w kernel \<Rightarrow> (did \<Rightarrow> int) \<Rightarrow> (did \<Rightarrow> bool) \<Rightarrow> bool" where
  "blocking_law os k fd stream \<longleftrightarrow> (\<forall>d.
     (\<forall>bufs flags. fails_exhausted k d (recv_type flags) (sys_recv os (fd d) bufs flags) blocked) \<and>
     (\<forall>bufs flags. fails_exhausted k d (recv_type flags) (sys_recvfrom os (fd d) bufs flags) blocked) \<and>
     (\<forall>bufs flags. fails_exhausted k d (recv_type flags) (sys_recvmsg os (fd d) bufs flags) blocked) \<and>
     (\<forall>data flags. fails_exhausted k d Write_op (sys_send os (fd d) data flags) blocked) \<and>
     (\<forall>data flags. stream d \<longrightarrow>
        returns_exhausted k d Write_op (sys_send os (fd d) data flags) (\<lambda>n. n < sum_list (map length data))) \<and>
     (\<forall>data flags addr. fails_exhausted k d Write_op (sys_sendto os (fd d) data flags addr) blocked) \<and>
     fails_exhausted k d Read_op (sys_accept os (fd d)) blocked \<and>
     returns_exhausted k d Write_op (sys_poll os (fd d) POLLOUT 0) (\<lambda>n. n = 0))"

text \<open>
  The operations that the socket service starts: on the descriptor of their socket, in the queue
  for what they wait for, a socket known as a stream being one.
\<close>

definition fits :: "(did \<Rightarrow> int) \<Rightarrow> (did \<Rightarrow> bool) \<Rightarrow> did \<Rightarrow> op_type \<Rightarrow> sock_op \<Rightarrow> bool" where
  "fits fd stream d j sop \<longleftrightarrow> sop_socket sop = fd d \<and> (has_flag (sop_state sop) stream_oriented \<longrightarrow> stream d) \<and>
     (case sop_kind sop of
        Recv_kind bufs flags \<Rightarrow> j = recv_type flags
      | Recvfrom_kind bufs flags \<Rightarrow> j = recv_type flags
      | Recvmsg_kind bufs flags \<Rightarrow> j = recv_type flags
      | Send_kind bufs flags \<Rightarrow> j = Write_op
      | Sendto_kind bufs flags addr \<Rightarrow> j = Write_op
      | Accept_kind \<Rightarrow> j = Read_op
      | Connect_kind \<Rightarrow> j = Write_op
      | Wait_kind \<Rightarrow> True
      | Null_buffers_kind \<Rightarrow> True)"

lemma calls_lawD:
  assumes "calls_law \<mu> os k"
  shows "call_keeps k (sys_recv os s bufs flags)" "interrupts_end \<mu> (sys_recv os s bufs flags)"
    "call_keeps k (sys_recvfrom os s bufs flags)" "interrupts_end \<mu> (sys_recvfrom os s bufs flags)"
    "call_keeps k (sys_recvmsg os s bufs flags)" "interrupts_end \<mu> (sys_recvmsg os s bufs flags)"
    "call_keeps k (sys_send os s data flags)" "interrupts_end \<mu> (sys_send os s data flags)"
    "call_keeps k (sys_sendto os s data flags addr)" "interrupts_end \<mu> (sys_sendto os s data flags addr)"
    "call_keeps k (sys_accept os s)" "interrupts_end \<mu> (sys_accept os s)"
    "sys_accept os s w = (w1, Inr n) \<Longrightarrow> n \<noteq> invalid_socket"
    "call_keeps k (sys_poll os s ev msec)" "call_keeps k (sys_getsockopt os s level optname optlen)"
  using assms unfolding calls_law_def by simp_all

lemma blocking_lawD:
  assumes "blocking_law os k fd stream"
  shows "fails_exhausted k d (recv_type flags) (sys_recv os (fd d) bufs flags) blocked"
    "fails_exhausted k d (recv_type flags) (sys_recvfrom os (fd d) bufs flags) blocked"
    "fails_exhausted k d (recv_type flags) (sys_recvmsg os (fd d) bufs flags) blocked"
    "fails_exhausted k d Write_op (sys_send os (fd d) data flags) blocked"
    "stream d \<Longrightarrow> returns_exhausted k d Write_op (sys_send os (fd d) data flags) (\<lambda>n. n < sum_list (map length data))"
    "fails_exhausted k d Write_op (sys_sendto os (fd d) data flags addr) blocked"
    "fails_exhausted k d Read_op (sys_accept os (fd d)) blocked"
    "returns_exhausted k d Write_op (sys_poll os (fd d) POLLOUT 0) (\<lambda>n. n = 0)"
  using assms unfolding blocking_law_def by simp_all

section \<open>The law of perform functions\<close>

text \<open>What one run of \<open>do_perform\<close> has to do.\<close>

definition performs :: "'w kernel \<Rightarrow> sock_op \<Rightarrow> did \<Rightarrow> op_type \<Rightarrow> reactor_op \<Rightarrow> 'w \<Rightarrow> (perform_status \<times> sop_mut \<times> 'w) option \<Rightarrow> bool"
where
  "performs k sop d j op w r \<longleftrightarrow> (\<exists>status op1 res1 w1. r = Some (status, (op1, res1), w1) \<and> rop_id op1 = rop_id op \<and>
     (\<forall>d'. keeps k w w1 d') \<and>
     (status \<noteq> Perform_done \<longrightarrow> \<not> given_up sop status op1 \<longrightarrow> covers (interest k w d) j \<longrightarrow> armed k w1 d j))"

lemma retried_keeps:
  assumes "retried f w w0" "call_keeps k f"
  shows "keeps k w w0 d"
  using assms by (induction rule: retried.induct) (auto simp: call_keeps_def intro: keeps_trans split: prod.splits; metis fst_conv keeps_trans)+

text \<open>The last call of a loop, made in a world that the interrupted calls have left as it was.\<close>

definition ran :: "'w kernel \<Rightarrow> ('w, 'a) sys \<Rightarrow> 'w \<Rightarrow> 'w \<Rightarrow> error_code + 'a \<Rightarrow> bool" where
  "ran k f w w1 r \<longleftrightarrow> r \<noteq> Inl Interrupted \<and> (\<forall>d. keeps k w w1 d) \<and>
     (\<exists>w0. f w0 = (w1, r) \<and> (\<forall>d. interest k w0 d = interest k w d))"

lemma ran_keeps: "ran k f w w1 r \<Longrightarrow> keeps k w w1 d"
  by (simp add: ran_def)

lemma ran_not_interrupted: "ran k f w w1 (Inl e) \<Longrightarrow> e \<noteq> Interrupted"
  by (auto simp: ran_def)

lemma ran_fails:
  "ran k f w w1 (Inl e) \<Longrightarrow> fails_exhausted k d j f E \<Longrightarrow> E e \<Longrightarrow> covers (interest k w d) j \<Longrightarrow> armed k w1 d j"
  unfolding ran_def fails_exhausted_def by metis

lemma ran_returns:
  "ran k f w w1 (Inr a) \<Longrightarrow> returns_exhausted k d j f P \<Longrightarrow> P a \<Longrightarrow> covers (interest k w d) j \<Longrightarrow> armed k w1 d j"
  unfolding ran_def returns_exhausted_def by metis

lemma ranI:
  assumes "retried f w w0" "f w0 = (w1, r)" "r \<noteq> Inl Interrupted" "call_keeps k f"
  shows "ran k f w w1 r"
proof -
  have k0: "keeps k w w0 d" for d by (rule retried_keeps [OF assms(1,4)])
  then have "keeps k w w1 d" for d
    using keeps_trans [OF k0] assms(2,4) by (metis call_keeps_def fst_conv)
  then show ?thesis using k0 assms(2,3) unfolding ran_def keeps_def by blast
qed

lemma loop_runs:
  assumes intr: "interrupts_end \<mu> f" and keep: "call_keeps k f"
  obtains w1 r where "non_blocking_loop f at_end zero old w = Some (w1, nb_answer at_end zero old r)" "ran k f w w1 r"
  using non_blocking_loop_run [OF intr] ranI [OF _ _ _ keep] by metis

lemma status_simps [simp]:
  "status_of finished = Perform_done \<longleftrightarrow> finished" "status_of finished = Not_done \<longleftrightarrow> \<not> finished"
  "status_of True = Perform_done" "status_of False = Not_done"
  by (simp_all add: status_of_def)

lemma native_simps [simp]:
  "native sz (Single_buffer b) = [b]" "native_buffers (bsa_new sz bs) = native sz (Buffer_sequence bs)"
  "total_buffer_size (bsa_new sz bs) = sum_list (map sz (native sz (Buffer_sequence bs)))"
  by (simp_all add: native_def bsa_new_eq)

lemma performsI:
  "r = Some (status, (op', res'), w') \<Longrightarrow> rop_id op' = rop_id op \<Longrightarrow> (\<And>d'. keeps k w w' d') \<Longrightarrow>
   (status \<noteq> Perform_done \<Longrightarrow> \<not> given_up sop status op' \<Longrightarrow> covers (interest k w d) j \<Longrightarrow> armed k w' d j) \<Longrightarrow>
   performs k sop d j op w r"
  unfolding performs_def by blast

lemma performs_at_once: "rop_id op' = rop_id op \<Longrightarrow> performs k sop d j op w (Some (Perform_done, (op', res'), w))"
  by (rule performsI [OF refl]) simp_all

lemma recv_performs:
  assumes law: "calls_law \<mu> os k" "blocking_law os k fd stream"
  shows "performs k sop d (recv_type flags) op w (recv_do_perform os (fd d) state bufs flags (op, res) w)"
proof -
  let ?f = "sys_recv os (fd d) (native id bufs) flags"
  let ?stop = "\<lambda>bytes. has_flag state stream_oriented \<and> length bytes = 0"
  have f: "interrupts_end \<mu> ?f" "call_keeps k ?f" using calls_lawD [OF law(1)] by simp_all
  obtain w1 r where run: "non_blocking_loop ?f ?stop [] (res_data res) w = Some (w1, nb_answer ?stop [] (res_data res) r)"
    and r: "ran k ?f w w1 r"
    by (rule loop_runs [OF f])
  have eq: "recv_do_perform os (fd d) state bufs flags (op, res) w =
    (let (finished, data, ec) = nb_answer ?stop [] (res_data res) r
     in Some (if finished \<and> has_flag state stream_oriented \<and> data = [] then Done_and_exhausted else status_of finished,
        (op\<lparr>rop_ec := ec, rop_bytes := length data\<rparr>, res\<lparr>res_data := data\<rparr>), w1))"
    using run by (cases bufs) (auto simp: recv_do_perform_def non_blocking_recv_def non_blocking_recv1_def Let_def
        split: prod.splits)
  obtain finished data ec where an: "nb_answer ?stop [] (res_data res) r = (finished, data, ec)"
    by (metis prod_cases3)
  have "armed k w1 d (recv_type flags)" if nf: "\<not> finished" and cov: "covers (interest k w d) (recv_type flags)"
  proof -
    obtain e where e: "r = Inl e" "blocked e"
      using nf an by (cases r) (auto simp: nb_answer_def blocked_def split: if_splits)
    show ?thesis by (rule ran_fails [OF r [unfolded e(1)] blocking_lawD(1) [OF law(2)] e(2) cov])
  qed
  then show ?thesis
    by (intro performsI [OF eq [unfolded an Let_def prod.case]] ran_keeps [OF r])
       (auto simp: given_up_def split: if_splits)
qed

lemma send_performs:
  assumes law: "calls_law \<mu> os k" "blocking_law os k fd stream"
    and st: "has_flag state stream_oriented \<Longrightarrow> stream d"
  shows "performs k sop d Write_op op w (send_do_perform os (fd d) state bufs flags (op, res) w)"
proof -
  let ?f = "so_send os (fd d) (native length bufs) flags"
  have f: "interrupts_end \<mu> ?f" "call_keeps k ?f" using calls_lawD [OF law(1)] by (simp_all add: so_send_def)
  obtain w1 r where run: "non_blocking_loop ?f no_end 0 (rop_bytes op) w = Some (w1, nb_answer no_end 0 (rop_bytes op) r)"
    and r: "ran k ?f w w1 r"
    by (rule loop_runs [OF f])
  have eq: "send_do_perform os (fd d) state bufs flags (op, res) w =
    (let (finished, bytes, ec) = nb_answer no_end 0 (rop_bytes op) r
     in Some (if finished \<and> has_flag state stream_oriented \<and> bytes < sum_list (map length (native length bufs))
          then Done_and_exhausted else status_of finished, (op\<lparr>rop_ec := ec, rop_bytes := bytes\<rparr>, res), w1))"
    using run by (cases bufs) (auto simp: send_do_perform_def non_blocking_send_def non_blocking_send1_def Let_def
        split: prod.splits)
  obtain finished bytes ec where an: "nb_answer no_end 0 (rop_bytes op) r = (finished, bytes, ec)"
    by (metis prod_cases3)
  have "armed k w1 d Write_op" if nf: "\<not> finished" and cov: "covers (interest k w d) Write_op"
  proof -
    obtain e where e: "r = Inl e" "blocked e"
      using nf an by (cases r) (auto simp: nb_answer_def no_end_def blocked_def split: if_splits)
    have "fails_exhausted k d Write_op ?f blocked" using blocking_lawD(4) [OF law(2)] by (simp add: so_send_def)
    from ran_fails [OF r [unfolded e(1)] this e(2) cov] show ?thesis .
  qed
  moreover have "armed k w1 d Write_op"
    if "has_flag state stream_oriented" "bytes < sum_list (map length (native length bufs))" "finished" "bytes \<noteq> 0"
      "covers (interest k w d) Write_op"
  proof -
    have n: "r = Inr bytes" using an that(3,4) by (cases r) (auto simp: nb_answer_def no_end_def split: if_splits)
    have "returns_exhausted k d Write_op ?f (\<lambda>n. n < sum_list (map length (native length bufs)))"
      using blocking_lawD(5) [OF law(2) st [OF that(1)]] by (simp add: so_send_def)
    from ran_returns [where P = "\<lambda>n. n < sum_list (map length (native length bufs))", OF r [unfolded n] this that(2,5)]
    show ?thesis .
  qed
  ultimately show ?thesis
    by (intro performsI [OF eq [unfolded an Let_def prod.case]] ran_keeps [OF r])
       (auto simp: given_up_def split: if_splits)
qed

text \<open>The operations that never report a descriptor exhausted.\<close>

lemma plain_performs:
  assumes intr: "interrupts_end \<mu> f" and keep: "call_keeps k f" and fe: "fails_exhausted k d j f blocked"
    and eq: "\<And>w1 finished a ec. non_blocking_loop f no_end zero old w = Some (w1, finished, a, ec) \<Longrightarrow>
      \<exists>op1 res1. r0 = Some (status_of finished, (op1, res1), w1) \<and> rop_id op1 = rop_id op"
  shows "performs k sop d j op w r0"
proof -
  obtain w1 r where run: "non_blocking_loop f no_end zero old w = Some (w1, nb_answer no_end zero old r)"
    and r: "ran k f w w1 r"
    by (rule loop_runs [OF intr keep])
  obtain finished a ec where an: "nb_answer no_end zero old r = (finished, a, ec)" by (metis prod_cases3)
  then obtain op1 res1 where "r0 = Some (status_of finished, (op1, res1), w1)" "rop_id op1 = rop_id op"
    using eq run by metis
  moreover have "finished \<or> (\<exists>e. r = Inl e \<and> blocked e)"
    using an by (auto simp: nb_answer_def no_end_def blocked_def split: sum.splits if_splits)
  moreover have "armed k w1 d j" if "\<not> finished" "covers (interest k w d) j"
    using calculation(3) that r ran_fails [OF _ fe] by blast
  ultimately show ?thesis unfolding performs_def using ran_keeps [OF r] by (metis status_simps(1))
qed

lemma recvfrom_performs:
  assumes law: "calls_law \<mu> os k" "blocking_law os k fd stream"
  shows "performs k sop d (recv_type flags) op w (recvfrom_do_perform os (fd d) bufs flags (op, res) w)"
proof (rule plain_performs)
  let ?f = "sys_recvfrom os (fd d) (native id bufs) flags"
  show "interrupts_end \<mu> ?f" "call_keeps k ?f" using calls_lawD [OF law(1)] by simp_all
  show "fails_exhausted k d (recv_type flags) ?f blocked" using blocking_lawD(2) [OF law(2)] by simp
  show "\<exists>op1 res1. recvfrom_do_perform os (fd d) bufs flags (op, res) w = Some (status_of finished, (op1, res1), w1) \<and>
      rop_id op1 = rop_id op"
    if "non_blocking_loop ?f no_end ([], []) (res_data res, res_addr res) w = Some (w1, finished, a, ec)" for w1 finished a ec
    using that by (cases bufs) (auto simp: recvfrom_do_perform_def non_blocking_recvfrom_def non_blocking_recvfrom1_def
        Let_def split: prod.splits)
qed

lemma recvmsg_performs:
  assumes law: "calls_law \<mu> os k" "blocking_law os k fd stream"
  shows "performs k sop d (recv_type flags) op w (recvmsg_do_perform os (fd d) bs flags (op, res) w)"
proof (rule plain_performs)
  let ?f = "sys_recvmsg os (fd d) (native id (Buffer_sequence bs)) flags"
  show "interrupts_end \<mu> ?f" "call_keeps k ?f" using calls_lawD [OF law(1)] by simp_all
  show "fails_exhausted k d (recv_type flags) ?f blocked" using blocking_lawD(3) [OF law(2)] by simp
  show "\<exists>op1 res1. recvmsg_do_perform os (fd d) bs flags (op, res) w = Some (status_of finished, (op1, res1), w1) \<and>
      rop_id op1 = rop_id op"
    if "non_blocking_loop ?f no_end ([], 0) (res_data res, 0) w = Some (w1, finished, a, ec)" for w1 finished a ec
    using that by (auto simp: recvmsg_do_perform_def non_blocking_recvmsg_def split: prod.splits)
qed

lemma sendto_performs:
  assumes law: "calls_law \<mu> os k" "blocking_law os k fd stream"
  shows "performs k sop d Write_op op w (sendto_do_perform os (fd d) bufs flags addr (op, res) w)"
proof (rule plain_performs)
  let ?f = "so_sendto os (fd d) (native length bufs) flags addr"
  show "interrupts_end \<mu> ?f" "call_keeps k ?f" using calls_lawD [OF law(1)] by (simp_all add: so_sendto_def)
  show "fails_exhausted k d Write_op ?f blocked" using blocking_lawD(6) [OF law(2)] by (simp add: so_sendto_def)
  show "\<exists>op1 res1. sendto_do_perform os (fd d) bufs flags addr (op, res) w = Some (status_of finished, (op1, res1), w1) \<and>
      rop_id op1 = rop_id op"
    if "non_blocking_loop ?f no_end 0 (rop_bytes op) w = Some (w1, finished, a, ec)" for w1 finished a ec
    using that by (cases bufs) (auto simp: sendto_do_perform_def non_blocking_sendto_def non_blocking_sendto1_def
        Let_def split: prod.splits)
qed

lemma holder_empty [simp]: "holder_reset_to os invalid_socket s w = (w, s)"
  by (simp add: holder_reset_to_def holder_reset_def)

lemma accept_performs:
  assumes law: "calls_law \<mu> os k" "blocking_law os k fd stream"
    and acc: "sop_kind sop = Accept_kind"
  shows "performs k sop d Read_op op w (accept_do_perform os (fd d) state (op, res\<lparr>res_socket := invalid_socket\<rparr>) w)"
proof (cases "fd d = invalid_socket")
  case True
  then show ?thesis
    by (simp add: accept_do_perform_def accept_invalid performs_at_once)
next
  case False
  let ?f = "sys_accept os (fd d)"
  obtain w0 w1 r where run: "retried ?f w w0" "?f w0 = (w1, r)" "r \<noteq> Inl Interrupted"
    "non_blocking_accept os (fd d) state w = Some (w1, accept_answer state r)"
    using non_blocking_accept_run [OF calls_lawD(12) [OF law(1)] False] calls_lawD(13) [OF law(1)] by metis
  have r: "ran k ?f w w1 r" by (rule ranI [OF run(1-3) calls_lawD(11) [OF law(1)]])
  obtain finished s ec where an: "accept_answer state r = (finished, s, ec)" by (metis prod_cases3)
  have eq: "accept_do_perform os (fd d) state (op, res\<lparr>res_socket := invalid_socket\<rparr>) w =
    Some (status_of finished, (op\<lparr>rop_ec := ec\<rparr>, res\<lparr>res_socket := s\<rparr>), w1)"
    by (simp add: accept_do_perform_def run(4) an)
  have "armed k w1 d Read_op" if nf: "\<not> finished" "blocked ec" and cov: "covers (interest k w d) Read_op"
  proof -
    obtain e where e: "r = Inl e" "blocked e"
      using nf an by (cases r) (auto simp: accept_answer_def split: if_splits)
    show ?thesis by (rule ran_fails [OF r [unfolded e(1)] blocking_lawD(7) [OF law(2)] e(2) cov])
  qed
  then show ?thesis
    by (intro performsI [OF eq] ran_keeps [OF r]) (auto simp: given_up_def acc)
qed

lemma getsockopt_keeps:
  assumes "calls_law \<mu> os k"
  shows "keeps k w (fst (so_getsockopt os s state level optname optlen w)) d"
  using calls_lawD(15) [OF assms, of s level optname optlen]
  by (auto simp: so_getsockopt_def call_keeps_def split: prod.splits sum.splits) (metis fst_conv)+

lemma connect_performs:
  assumes law: "calls_law \<mu> os k" "blocking_law os k fd stream"
  shows "performs k sop d Write_op op w (Some (connect_do_perform os (fd d) (op, res) w))"
proof -
  let ?f = "sys_poll os (fd d) POLLOUT 0"
  obtain w1 r where p: "?f w = (w1, r)" by fastforce
  have k1: "keeps k w w1 d'" for d'
    using calls_lawD(14) [OF law(1), of "fd d" POLLOUT 0] p by (metis call_keeps_def fst_conv)
  show ?thesis
  proof (cases "r = Inr 0")
    case True
    have "armed k w1 d Write_op" if "covers (interest k w d) Write_op"
      using blocking_lawD(8) [OF law(2)] p True that unfolding returns_exhausted_def by blast
    then show ?thesis
      by (intro performsI [where status = Not_done and w' = w1] k1)
         (simp_all add: connect_do_perform_def non_blocking_connect_def p True)
  next
    case False
    obtain w2 q where q: "so_getsockopt os (fd d) 0 SOL_SOCKET SO_ERROR sizeof_int w1 = (w2, q)" by fastforce
    have k2: "keeps k w w2 d'" for d'
      using keeps_trans [OF k1] getsockopt_keeps [OF law(1)] q by (metis fst_conv)
    obtain ec where "non_blocking_connect os (fd d) (rop_ec op) w = (w2, True, ec)"
      using p q False by (cases q) (auto simp: non_blocking_connect_def)
    then have "connect_do_perform os (fd d) (op, res) w = (Perform_done, (op\<lparr>rop_ec := ec\<rparr>, res), w2)"
      by (simp add: connect_do_perform_def)
    then show ?thesis using performsI [where op' = "op\<lparr>rop_ec := ec\<rparr>" and op = op and status = Perform_done and d = d and j = Write_op and
      res' = res, OF refl _ k2] by simp
  qed
qed

lemma sock_performs:
  assumes law: "calls_law \<mu> os k" "blocking_law os k fd stream" and fit: "fits fd stream d j sop"
  shows "performs k sop d j op w (sock_do_perform os sop (op, res) w)"
proof -
  have s: "sop_socket sop = fd d" "has_flag (sop_state sop) stream_oriented \<Longrightarrow> stream d"
    using fit by (simp_all add: fits_def)
  show ?thesis
  proof (cases "sop_kind sop")
    case (Send_kind bufs flags)
    then show ?thesis
      using fit send_performs [where sop = sop and op = op and w = w and bufs = bufs and flags = flags and state = "sop_state sop", OF law s(2)] s by (simp add: fits_def sock_do_perform_def)
  next
    case Accept_kind
    then show ?thesis
      using fit accept_performs [where d = d and op = op and w = w and state = "sop_state sop" and res = res, OF law Accept_kind] s by (simp add: fits_def sock_do_perform_def)
  next
    case Wait_kind
    then show ?thesis by (simp add: sock_do_perform_def wait_do_perform_def performs_at_once)
  next
    case Null_buffers_kind
    then show ?thesis by (simp add: sock_do_perform_def null_buffers_do_perform_def performs_at_once)
  qed (use fit s recv_performs [OF law] recvfrom_performs [OF law] recvmsg_performs [OF law] sendto_performs [OF law]
      connect_performs [OF law] in \<open>simp_all add: fits_def sock_do_perform_def\<close>)
qed

text \<open>So \<open>do_perform\<close> returns, and the reactor's law holds.\<close>

definition sockets_ok :: "('w \<Rightarrow> nat) \<Rightarrow> 'w sock_os \<Rightarrow> 'w kernel \<Rightarrow> (did \<Rightarrow> int) \<Rightarrow> (did \<Rightarrow> bool) \<Rightarrow> sop_table \<Rightarrow> bool" where
  "sockets_ok \<mu> os k fd stream table \<longleftrightarrow>
     calls_law \<mu> os k \<and> blocking_law os k fd stream \<and> (\<forall>d j n. fits fd stream d j (table d j n))"

lemma sock_perform_returns:
  assumes "sockets_ok \<mu> os k fd stream table"
  shows "sock_do_perform os (table d j n) (op, res) w \<noteq> None"
  using sock_performs [of \<mu> os k fd stream d j "table d j n" op w res] assms by (auto simp: sockets_ok_def performs_def)

lemma lift_kernel_simps [simp]:
  "interest (lift_kernel k) W d = interest k (sys_world W) d" "noted (lift_kernel k) = passed"
  "armed (lift_kernel k) W d j \<longleftrightarrow> passed W d j \<or> armed k (sys_world W) d j"
  by (auto simp: lift_kernel_def armed_def)

lemma lift_keeps:
  "keeps k (sys_world W) (sys_world W') d \<Longrightarrow> passed W' d = passed W d \<Longrightarrow> keeps (lift_kernel k) W W' d"
  by (auto simp: keeps_def)

lemma sock_perform_law:
  assumes "sockets_ok \<mu> os k fd stream table"
  shows "perform_law (sock_rx_os os table rxos) (lift_kernel k)"
  unfolding perform_law_def
proof (intro allI)
  fix d j op and W :: "'a sock_world"
  have "performs k (table d j (rop_id op)) d j op (sys_world W)
      (sock_do_perform os (table d j (rop_id op)) (op, results W (rop_id op)) (sys_world W))"
    using assms by (intro sock_performs) (auto simp: sockets_ok_def)
  then obtain status op1 res1 w1 where
    p: "sock_do_perform os (table d j (rop_id op)) (op, results W (rop_id op)) (sys_world W) = Some (status, (op1, res1), w1)"
      "rop_id op1 = rop_id op" "\<And>d'. keeps k (sys_world W) w1 d'"
      "status \<noteq> Perform_done \<Longrightarrow> \<not> given_up (table d j (rop_id op)) status op1 \<Longrightarrow>
        covers (interest k (sys_world W) d) j \<Longrightarrow> armed k w1 d j"
    unfolding performs_def by blast
  obtain W1 where W1: "W1 = W\<lparr>sys_world := w1, results := (results W)(rop_id op := res1),
      passed := (if status = Perform_done then passed W
        else (passed W)(d := (passed W d)(j := given_up (table d j (rop_id op)) status op1)))\<rparr>" by blast
  then have sw: "sys_world W1 = w1" by simp
  have kept: "interest k w1 d' = interest k (sys_world W) d'"
    "covers (interest k (sys_world W) d') i \<Longrightarrow> armed k (sys_world W) d' i \<Longrightarrow> armed k w1 d' i" for d' i
    using p(3) [of d'] by (auto simp: keeps_def)
  have "\<forall>d'. keeps (lift_kernel k) W W1 d'"
    unfolding keeps_def
  proof (intro conjI allI impI)
    fix d'
    show "interest (lift_kernel k) W1 d' = interest (lift_kernel k) W d'" using kept(1) sw by simp
    fix i assume a: "covers (interest (lift_kernel k) W d') i \<and> armed (lift_kernel k) W d' i"
    show "armed (lift_kernel k) W1 d' i"
    proof (cases "d' = d \<and> i = j \<and> status \<noteq> Perform_done")
      case True
      then show ?thesis using a p(4) sw by (auto simp: W1)
    next
      case False
      then have "passed W1 d' i = passed W d' i" by (auto simp: W1)
      then show ?thesis using a kept(2) [of d' i] sw by auto
    qed
  qed
  moreover have "status \<noteq> Perform_done \<longrightarrow> covers (interest k (sys_world W) d) j \<longrightarrow> armed (lift_kernel k) W1 d j"
    using p(4) sw by (auto simp: W1)
  moreover have "os_perform (sock_rx_os os table rxos) d j op W = (status, op1, W1)"
    by (simp add: sock_rx_os_def sock_perform_def p(1) W1)
  ultimately show "case os_perform (sock_rx_os os table rxos) d j op W of (st, op', w') \<Rightarrow>
       rop_id op' = rop_id op \<and> (\<forall>d'. keeps (lift_kernel k) W w' d') \<and>
       (st \<noteq> Perform_done \<longrightarrow> covers (interest (lift_kernel k) W d) j \<longrightarrow> armed (lift_kernel k) w' d j)"
    using p(2) by simp
qed

text \<open>The laws of the kernel's own calls carry over.\<close>

lemma lift_ctl_law:
  assumes "ctl_law rxos k"
  shows "ctl_law (sock_rx_os os table rxos) (lift_kernel k)"
proof -
  have "keeps k w w' d" if "os_epoll_ctl rxos c fd ev p w = (r, w')" "p \<noteq> Descr_ptr d \<or> r \<noteq> 0" for c fd ev p w r w' d
  proof -
    from assms have "ctl_frame rxos k" by (simp add: ctl_law_def)
    then have "case os_epoll_ctl rxos c fd ev p w of (r, w') \<Rightarrow>
       \<forall>d. p \<noteq> Descr_ptr d \<or> r \<noteq> 0 \<longrightarrow> keeps k w w' d" unfolding ctl_frame_def by (elim allE)
    with that show ?thesis by simp
  qed
  note frame = this
  have "ctl_frame (sock_rx_os os table rxos) (lift_kernel k)"
    unfolding ctl_frame_def
  proof (intro allI)
    fix c fd ev p and W :: "'a sock_world"
    obtain r w where e: "os_epoll_ctl rxos c fd ev p (sys_world W) = (r, w)" by fastforce
    let ?P = "case p of
       Descr_ptr d \<Rightarrow> if r = 0 \<and> c \<noteq> Ctl_del then (passed W)(d := (\<lambda>_. False)) else passed W
     | _ \<Rightarrow> passed W"
    have "keeps (lift_kernel k) W (W\<lparr>sys_world := w, passed := ?P\<rparr>) d" if "p \<noteq> Descr_ptr d \<or> r \<noteq> 0" for d
    proof (rule lift_keeps)
      show "keeps k (sys_world W) (sys_world (W\<lparr>sys_world := w, passed := ?P\<rparr>)) d" using frame [OF e that] by simp
      show "passed (W\<lparr>sys_world := w, passed := ?P\<rparr>) d = passed W d" using that by (cases p) auto
    qed
    moreover have "os_epoll_ctl (sock_rx_os os table rxos) c fd ev p W = (r, W\<lparr>sys_world := w, passed := ?P\<rparr>)"
      using e by (simp add: sock_rx_os_def)
    ultimately show "case os_epoll_ctl (sock_rx_os os table rxos) c fd ev p W of (r, w') \<Rightarrow>
        \<forall>d. p \<noteq> Descr_ptr d \<or> r \<noteq> 0 \<longrightarrow> keeps (lift_kernel k) W w' d" by simp
  qed
  moreover have "interest k w' d = ev \<and> (\<forall>j. covers ev j \<longrightarrow> armed k w' d j)"
    if "os_epoll_ctl rxos c fd ev (Descr_ptr d) w = (0, w')" "c \<noteq> Ctl_del" for c fd ev w w' d
  proof -
    from assms have "ctl_success rxos k" by (simp add: ctl_law_def)
    then have "case os_epoll_ctl rxos c fd ev (Descr_ptr d) w of (r, w') \<Rightarrow>
       \<forall>d'. Descr_ptr d = Descr_ptr d' \<longrightarrow> r = 0 \<longrightarrow> c \<noteq> Ctl_del \<longrightarrow>
         interest k w' d' = ev \<and> (\<forall>j. covers ev j \<longrightarrow> armed k w' d' j)" unfolding ctl_success_def by (elim allE)
    with that show ?thesis by simp
  qed
  then have "ctl_success (sock_rx_os os table rxos) (lift_kernel k)"
    unfolding ctl_success_def by (auto simp: sock_rx_os_def split: prod.splits)
  ultimately show ?thesis by (simp add: ctl_law_def)
qed

lemma lift_wait_law:
  assumes "wait_law rxos k"
  shows "wait_law (sock_rx_os os table rxos) (lift_kernel k)"
  unfolding wait_law_def
proof (intro allI)
  fix timeout and W :: "'a sock_world"
  have "case os_epoll_wait rxos timeout (sys_world W) of (evs, w') \<Rightarrow>
     (\<forall>d. interest k w' d = interest k (sys_world W) d \<and>
        (\<forall>j. covers (interest k (sys_world W) d) j \<longrightarrow> armed k (sys_world W) d j \<longrightarrow>
           armed k w' d j \<or> (\<exists>ev. (Descr_ptr d, ev) \<in> set evs \<and> delivers ev j)))"
    using assms unfolding wait_law_def by (elim allE)
  then show "case os_epoll_wait (sock_rx_os os table rxos) timeout W of (evs, w') \<Rightarrow>
     (\<forall>d. interest (lift_kernel k) w' d = interest (lift_kernel k) W d \<and>
        (\<forall>j. covers (interest (lift_kernel k) W d) j \<longrightarrow> armed (lift_kernel k) W d j \<longrightarrow>
           armed (lift_kernel k) w' d j \<or> (\<exists>ev. (Descr_ptr d, ev) \<in> set evs \<and> delivers ev j)))"
    by (auto simp: sock_rx_os_def split: prod.splits)
qed

lemma lift_settime_law: "settime_law rxos k \<Longrightarrow> settime_law (sock_rx_os os table rxos) (lift_kernel k)"
  by (auto simp: settime_law_def sock_rx_os_def intro!: lift_keeps)

end
