(* ===== verification/SocketReactor.thy ===== *)
theory SocketReactor
  imports SocketPerformProps
begin

text \<open>
  Sockets on the epoll reactor: the guarantee of the reactor with its assumption on the \<open>perform\<close>
  functions discharged by the socket operations; and the accept operation, which does not
  meet it for aborted connections.
\<close>

unbundle bit_operations_syntax

section \<open>No readiness of a socket is lost\<close>

lemma sock_edge:
  assumes "sockets_ok \<mu> os k fd stream table" "ctl_law rxos k" "wait_law rxos k" "settime_law rxos k"
  shows "edge_triggered (sock_rx_os os table rxos) (lift_kernel k)"
  using sock_perform_law [OF assms(1)] lift_ctl_law [OF assms(2)] lift_wait_law [OF assms(3)] lift_settime_law [OF assms(4)]
  by (simp add: edge_triggered_def)

text \<open>C5: sockets on the epoll reactor. The operations of sockets are performed through the retry
  loops, the native buffers and the translation of errors. They return although signals interrupt them,
  provided the signals end. In every state that clients, threads and the kernel can reach, if an operation waits on a socket, the
  kernel watches for its events; and if its call would now not block, an event that serves it is pending or on its way, or the
  last attempt that stopped there gave up (\<open>passed\<close>): it reported an error or the end of the stream, or an
  aborted connection, before the descriptor was exhausted, where edge-triggered events promise nothing.
  Assumed is what the system calls and edge-triggered epoll promise: that no call loses readiness
  (\<open>calls_law\<close>), that a call that would block, a send on a stream of less than was asked and a \<open>poll\<close> that finds the socket not writable
  exhaust it (\<open>blocking_law\<close>), and what modifying a registration and waiting do (\<open>ctl_law\<close>, \<open>wait_law\<close>, \<open>settime_law\<close>); \<open>fits\<close> says
  that each operation waits on its own socket in the queue for what it does. Excepted are the descriptors for which
  the kernel has refused the modification whose result is not looked at (\<open>refused\<close>).\<close>

theorem sockets_no_lost_readiness:
  assumes "sockets_ok \<mu> os k fd stream table" "ctl_law rxos k" "wait_law rxos k" "settime_law rxos k"
    and "rx_reach pnum pden (sock_rx_os os table rxos) (lift_kernel k)
      (reactor_new (sock_rx_os os table rxos) W tqs tfd ifd) st"
    and "op_queue_of (descr (rx st) d) j \<noteq> []" "d \<notin> refused st"
  shows "(\<forall>op res w. sock_do_perform os (table d j (rop_id op)) (op, res) w \<noteq> None) \<and>
    covers (interest k (sys_world (world (rx st))) d) j \<and>
    (ready k (sys_world (world (rx st))) d j \<longrightarrow>
       pend k (sys_world (world (rx st))) d j \<or> (\<exists>ev. (d, ev) \<in> set (inflight st) \<and> delivers ev j) \<or>
       passed (world (rx st)) d j)"
  using waiting_noticed [OF sock_edge [OF assms(1-4)] assms(5-7)] sock_perform_returns [OF assms(1)]
  by (auto simp: lift_kernel_def)

text \<open>A stream socket, number 9, over the kernel of \<open>EpollProps\<close>: a receive has to wait, then data arrives.\<close>

definition demo_use :: "int \<Rightarrow> op_type \<Rightarrow> demo_world \<Rightarrow> demo_world" where
  "demo_use s j w = w\<lparr>dw_ready := (dw_ready w)(nat (s - 9) := (dw_ready w (nat (s - 9)))(j := False))\<rparr>"

definition demo_call :: "int \<Rightarrow> op_type \<Rightarrow> 'a \<Rightarrow> (demo_world, 'a) sys" where
  "demo_call s j a w = (demo_use s j w, if dw_ready w (nat (s - 9)) j then Inr a else Inl Would_block)"

definition demo_sock_os :: "demo_world sock_os" where
  "demo_sock_os = \<lparr>
     sys_socket = (\<lambda>af type protocol w. (w, Inr 9)),
     sys_accept = (\<lambda>s. demo_call s Read_op 20),
     sys_connect = (\<lambda>s w. (w, Inl In_progress)),
     sys_recv = (\<lambda>s bufs flags. demo_call s (recv_type flags) (take (sum_list bufs) [104, 101, 108, 108, 111])),
     sys_recvfrom = (\<lambda>s bufs flags. demo_call s (recv_type flags) ([104], [127, 0, 0, 1])),
     sys_recvmsg = (\<lambda>s bufs flags. demo_call s (recv_type flags) ([104], 0)),
     sys_send = (\<lambda>s data flags. demo_call s Write_op (sum_list (map length data))),
     sys_sendto = (\<lambda>s data flags addr. demo_call s Write_op (sum_list (map length data))),
     sys_poll = (\<lambda>s ev msec w. if ev = POLLOUT \<and> \<not> dw_ready w (nat (s - 9)) Write_op then (w, Inr 0) else (w, Inr 1)),
     sys_ioctl = (\<lambda>s cmd arg w. (w, Inr arg)),
     sys_close = (\<lambda>s w. (w, Inr ())),
     sys_setsockopt = (\<lambda>s level optname optval optlen w. (w, Inr ())),
     sys_getsockopt = (\<lambda>s level optname optlen w. (w, Inr (0, optlen))),
     error_of_value = Sys_error\<rparr>"

definition demo_table :: sop_table where
  "demo_table d j n = \<lparr>sop_socket = 9 + int d, sop_state = stream_oriented,
     sop_kind = (case j of Read_op \<Rightarrow> Recv_kind (Single_buffer 5) 0 | Except_op \<Rightarrow> Recv_kind (Single_buffer 1) MSG_OOB
       | Write_op \<Rightarrow> Send_kind (Single_buffer [104, 105]) 0)\<rparr>"

lemma demo_call_law:
  "call_keeps demo_kernel (demo_call s j a)" "interrupts_end (\<lambda>_. 0) (demo_call s j a)"
  "fails_exhausted demo_kernel d j (demo_call (9 + int d) j a) E"
  "returns_exhausted demo_kernel d j (demo_call (9 + int d) j a) P"
  by (auto simp: call_keeps_def keeps_def armed_def demo_kernel_def demo_call_def demo_use_def interrupts_end_def
      fails_exhausted_def returns_exhausted_def)

lemma demo_sockets: "sockets_ok (\<lambda>_. 0) demo_sock_os demo_kernel (\<lambda>d. 9 + int d) (\<lambda>_. True) demo_table"
proof -
  have "calls_law (\<lambda>_. 0) demo_sock_os demo_kernel"
    by (simp add: calls_law_def demo_sock_os_def demo_call_law)
       (auto simp: call_keeps_def demo_call_def invalid_socket_def)
  moreover have "blocking_law demo_sock_os demo_kernel (\<lambda>d. 9 + int d) (\<lambda>_. True)"
    by (simp add: blocking_law_def demo_sock_os_def demo_call_law)
       (auto simp: returns_exhausted_def armed_def demo_kernel_def split: if_splits)
  moreover have "fits (\<lambda>d. 9 + int d) (\<lambda>_. True) d j (demo_table d j n)" for d j n
    by (cases j) (simp_all add: fits_def demo_table_def recv_type_def MSG_OOB_def)
  ultimately show ?thesis by (simp add: sockets_ok_def)
qed

lemma demo_laws: "ctl_law demo_os demo_kernel" "wait_law demo_os demo_kernel" "settime_law demo_os demo_kernel"
  using demo_edge by (simp_all add: edge_triggered_def)

abbreviation (input) demo_sos :: "demo_world sock_world os" where
  "demo_sos \<equiv> sock_rx_os demo_sock_os demo_table demo_os"

definition sdemo_world0 :: "demo_world sock_world" where
  "sdemo_world0 = \<lparr>sys_world = demo_world0,
     results = (\<lambda>_. \<lparr>res_data = [], res_addr = [], res_flags = 0, res_socket = invalid_socket\<rparr>),
     passed = (\<lambda>_ _. False)\<rparr>"

definition sdemo_reactor :: "demo_world sock_world reactor" where
  "sdemo_reactor = reactor_new demo_sos sdemo_world0 (tq_set_new (\<lambda>_. new_timer_queue)) 4 3"

definition sdemo_rx1 :: "demo_world sock_world reactor" where
  "sdemo_rx1 = snd (snd (register_descriptor demo_sos 0 9 sdemo_reactor))"

definition sdemo_st1 :: "demo_world sock_world rx_system" where
  "sdemo_st1 = (rx_init sdemo_reactor)\<lparr>rx := sdemo_rx1, usable := {0}\<rparr>"

definition sdemo_st2 :: "demo_world sock_world rx_system" where
  "sdemo_st2 = sdemo_st1\<lparr>rx := start_op demo_sos Read_op 9 (Some 0) demo_read False True (rx sdemo_st1), started := {#7#}\<rparr>"

definition sdemo_data :: "demo_world sock_world \<Rightarrow> demo_world sock_world" where
  "sdemo_data W = W\<lparr>sys_world := demo_data (sys_world W)\<rparr>"

definition sdemo_st3 :: "demo_world sock_world rx_system" where
  "sdemo_st3 = sdemo_st2\<lparr>rx := (rx sdemo_st2)\<lparr>world := sdemo_data (world (rx sdemo_st2))\<rparr>\<rparr>"

lemmas sdemo_defs = sdemo_st1_def sdemo_st2_def sdemo_st3_def sdemo_rx1_def sdemo_reactor_def sock_rx_os_def
  demo_os_def demo_kernel_def sdemo_world0_def demo_world0_def demo_read_def sdemo_data_def
  demo_data_def reactor_new_def register_own_def rx_init_def register_descriptor_def
  allocate_descriptor_state_def epoll_ctl_def pool_new_def pool_defs rx_state_defs start_op_def
  after_speculation_def queue_op_def new_descr_def

lemma sdemo_register:
  "register_descriptor demo_sos 0 9 sdemo_reactor = (0, Some 0, sdemo_rx1)"
  by (simp add: sdemo_defs Let_def)

lemma sdemo_first_attempt:
  assumes "\<not> dw_ready (sys_world W) 0 Read_op"
  shows "\<exists>op1 W1. sock_perform demo_sock_os demo_table 0 Read_op op W = (Not_done, op1, W1) \<and> \<not> passed W1 0 Read_op"
proof -
  have "non_blocking_loop (demo_call 9 Read_op a) e z old (sys_world W) =
      Some (demo_use 9 Read_op (sys_world W), False, old, Would_block)" for a e z and old :: "byte list"
    using assms by (subst non_blocking_loop.simps) (simp add: demo_call_def)
  then show ?thesis
    by (simp add: sock_perform_def sock_do_perform_def demo_table_def recv_do_perform_def non_blocking_recv1_def
        demo_sock_os_def recv_type_def MSG_OOB_def given_up_def)
qed

lemma sdemo_reach1: "rx_reach 1 1000000000 demo_sos (lift_kernel demo_kernel) sdemo_reactor sdemo_st1"
proof (rule rx_reach.step [OF rx_reach.init])
  have pool: "\<forall>live free. pool_rep (descrs (rx (rx_init sdemo_reactor))) live free \<longrightarrow> 0 \<notin> set live"
    by (auto simp: rx_init_def sdemo_reactor_def reactor_new_def register_own_def epoll_ctl_def sock_rx_os_def
        demo_os_def pool_new_def pool_rep_def)
  have "register_descriptor demo_sos 0 9 (rx (rx_init sdemo_reactor)) = (0, Some 0, sdemo_rx1)"
    by (simp add: rx_init_def sdemo_register)
  from rx_step.register [OF this pool, of 1 1000000000 "lift_kernel demo_kernel"]
  show "rx_step 1 1000000000 demo_sos (lift_kernel demo_kernel) (rx_init sdemo_reactor) sdemo_st1"
    by (simp add: sdemo_st1_def rx_init_def)
qed

lemma sdemo_not_refused: "\<not> rearm_refused demo_sos Read_op 9 (Some 0) True sdemo_rx1"
  by (simp add: rearm_refused_def sdemo_defs Let_def)

lemma sdemo_reach2: "rx_reach 1 1000000000 demo_sos (lift_kernel demo_kernel) sdemo_reactor sdemo_st2"
proof (rule rx_reach.step [OF sdemo_reach1])
  have "Some 0 = (None :: did option) \<or> (\<exists>d \<in> usable sdemo_st1. Some 0 = Some d)"
    by (simp add: sdemo_st1_def)
  from rx_step.start [OF this, where op = demo_read and os = demo_sos and k = "lift_kernel demo_kernel" and j = Read_op
      and fd = 9 and cont = False and spec = True and pnum = 1 and pden = 1000000000]
  show "rx_step 1 1000000000 demo_sos (lift_kernel demo_kernel) sdemo_st1 sdemo_st2"
    by (simp add: sdemo_st2_def sdemo_st1_def rx_init_def demo_read_def sdemo_not_refused)
qed

lemma sdemo_reach3: "rx_reach 1 1000000000 demo_sos (lift_kernel demo_kernel) sdemo_reactor sdemo_st3"
proof (rule rx_reach.step [OF sdemo_reach2])
  have "keeps (lift_kernel demo_kernel) w (sdemo_data w) d" for w d
    by (intro lift_keeps) (auto simp: keeps_def demo_kernel_def sdemo_data_def demo_data_def armed_def)
  then show "rx_step 1 1000000000 demo_sos (lift_kernel demo_kernel) sdemo_st2 sdemo_st3"
    unfolding sdemo_st3_def by (intro rx_step.environment) (simp_all add: sdemo_data_def)
qed

lemma sdemo_waits:
  "op_queue_of (descr (rx sdemo_st3) 0) Read_op \<noteq> []" "\<not> passed (world (rx sdemo_st3)) 0 Read_op"
proof -
  have "\<not> dw_ready (sys_world (world sdemo_rx1)) 0 Read_op" by (simp add: sdemo_defs Let_def)
  then obtain op1 W1 where "sock_perform demo_sock_os demo_table 0 Read_op demo_read (world sdemo_rx1) = (Not_done, op1, W1)"
    "\<not> passed W1 0 Read_op"
    using sdemo_first_attempt by blast
  moreover have "op_queue_of (descr sdemo_rx1 0) j = []" "try_speculative (descr sdemo_rx1 0) j"
    "registered_events (descr sdemo_rx1 0) = default_events" "\<not> ds_shutdown (descr sdemo_rx1 0)" for j
    by (simp_all add: sdemo_defs Let_def)
  ultimately show "op_queue_of (descr (rx sdemo_st3) 0) Read_op \<noteq> []" "\<not> passed (world (rx sdemo_st3)) 0 Read_op"
    by (simp_all add: sdemo_st3_def sdemo_st2_def sdemo_st1_def rx_init_def start_op_def after_speculation_def
        queue_op_def rx_state_defs sock_rx_os_def sdemo_data_def)
qed

lemma sdemo_none_refused: "0 \<notin> refused sdemo_st3"
  by (simp add: sdemo_st3_def sdemo_st2_def sdemo_st1_def rx_init_def)

theorem sockets_no_lost_readiness_witness:
  "covers (interest demo_kernel (sys_world (world (rx sdemo_st3))) 0) Read_op \<and>
   pend demo_kernel (sys_world (world (rx sdemo_st3))) 0 Read_op"
proof -
  have "inflight sdemo_st3 = []" by (simp add: sdemo_st3_def sdemo_st2_def sdemo_st1_def rx_init_def)
  moreover
  have "ready demo_kernel (sys_world (world (rx sdemo_st3))) 0 Read_op"
    by (simp add: sdemo_st3_def sdemo_data_def demo_data_def demo_kernel_def)
  ultimately show ?thesis
    using sockets_no_lost_readiness [OF demo_sockets demo_laws sdemo_reach3 [unfolded sdemo_reactor_def]
        sdemo_waits(1) sdemo_none_refused] sdemo_waits(2)
    by simp
qed

section \<open>Aborted connections\<close>

text \<open>C35: accepting without the option to report aborted connections: when \<open>accept\<close> finds that a
  connection was aborted, the operation counts as not done without another call, and the reactor
  leaves it in the queue with all those behind it, in the world the failed call has left. Whatever
  connections are still in the backlog there are not looked for, although the edge that announced them is spent.\<close>

theorem accept_aborted_unnoticed:
  assumes "table d Read_op (rop_id op) = \<lparr>sop_socket = s, sop_state = state, sop_kind = Accept_kind\<rparr>"
    and "s \<noteq> invalid_socket" "\<not> has_flag state enable_connection_aborted"
    and "sys_accept os s (sys_world W) = (w1, Inl e)" "e = Connection_aborted \<or> e = EPROTO"
  shows "\<exists>W1. perform_loop (sock_rx_os os table rxos) d Read_op (op # q) W ops =
      (ops, op\<lparr>rop_ec := e\<rparr> # q, False, W1) \<and> sys_world W1 = w1"
proof -
  have "non_blocking_accept os s state (sys_world W) = Some (w1, False, invalid_socket, e)"
    using assms(2-5) by (subst non_blocking_accept.simps) (auto simp: so_accept_def EPROTO_def)
  then show ?thesis
    using assms(1)
    by (simp add: sock_rx_os_def sock_perform_def sock_do_perform_def accept_do_perform_def)
qed

text \<open>A backlog with an aborted connection before a good one; after the attempt no event is pending.\<close>

definition backlog_os :: "demo_world sock_os" where
  "backlog_os = demo_sock_os\<lparr>sys_accept := (\<lambda>s w. (w, Inl Connection_aborted))\<rparr>"

theorem accept_aborted_unnoticed_witness:
  "\<exists>op1 W1. perform_loop (sock_rx_os backlog_os (\<lambda>_ _ _. \<lparr>sop_socket = 9, sop_state = stream_oriented, sop_kind = Accept_kind\<rparr>)
        demo_os) 0 Read_op [demo_read]
        (sdemo_world0\<lparr>sys_world := demo_world0\<lparr>dw_ready := (\<lambda>_ _. True)\<rparr>\<rparr>) [] = ([], [op1], False, W1) \<and>
     ready demo_kernel (sys_world W1) 0 Read_op \<and> \<not> pend demo_kernel (sys_world W1) 0 Read_op"
proof -
  let ?W = "sdemo_world0\<lparr>sys_world := demo_world0\<lparr>dw_ready := (\<lambda>_ _. True)\<rparr>\<rparr>"
  have "\<not> has_flag stream_oriented enable_connection_aborted"
    by (simp add: has_flag_def stream_oriented_def enable_connection_aborted_def)
  moreover have "sys_accept backlog_os 9 (sys_world ?W) = (sys_world ?W, Inl Connection_aborted)"
    by (simp add: backlog_os_def)
  ultimately show ?thesis
    using accept_aborted_unnoticed [of "\<lambda>_ _ _. \<lparr>sop_socket = 9, sop_state = stream_oriented, sop_kind = Accept_kind\<rparr>"
        0 demo_read 9 stream_oriented backlog_os ?W "sys_world ?W" Connection_aborted demo_os "[]" "[]"]
    by (fastforce simp: invalid_socket_def demo_kernel_def demo_world0_def)
qed

end
