(* ===== verification/SocketService.thy ===== *)
theory SocketService
  imports SocketPerformProps Completion
begin

text \<open>
  Sockets: \<open>detail/impl/reactive_socket_service_base.ipp\<close>, \<open>detail/reactive_socket_service_base.hpp\<close> and
  the operations of \<open>detail/reactive_socket_service.hpp\<close>, over the epoll reactor and the system
  calls. An implementation is a record; the world of the reactor is that of the system calls with
  the results of the operations. An asynchronous operation yields, beside the new state, the
  operation it constructs and the type for which its cancellation slot cancels.
\<close>

unbundle bit_operations_syntax

section \<open>Implementations\<close>

record sock_impl =
  impl_socket :: int
  impl_state :: sock_state
  impl_data :: "did option"

type_synonym 'w sock_reactor = "'w sock_world reactor"

text \<open>A system call made by the service.\<close>

definition in_sys :: "('w \<Rightarrow> 'w \<times> 'a) \<Rightarrow> 'w sock_reactor \<Rightarrow> 'w sock_reactor \<times> 'a" where
  "in_sys f s = (case f (sys_world (world s)) of (w, a) \<Rightarrow> (s\<lparr>world := (world s)\<lparr>sys_world := w\<rparr>\<rparr>, a))"

definition impl_construct :: "sock_impl \<Rightarrow> sock_impl" where
  "impl_construct impl = impl\<lparr>impl_socket := invalid_socket, impl_state := 0\<rparr>"

definition impl_is_open :: "sock_impl \<Rightarrow> bool" where
  "impl_is_open impl \<longleftrightarrow> impl_socket impl \<noteq> invalid_socket"

text \<open>The new implementation and the one moved from.\<close>

definition base_move_construct :: "sock_impl \<Rightarrow> sock_impl \<Rightarrow> sock_impl \<times> sock_impl" where
  "base_move_construct impl other_impl =
     (case move_descriptor (impl_data impl) (impl_data other_impl) of (target, source) \<Rightarrow>
        (\<lparr>impl_socket = impl_socket other_impl, impl_state = impl_state other_impl, impl_data = target\<rparr>,
         \<lparr>impl_socket = invalid_socket, impl_state = 0, impl_data = source\<rparr>))"

definition impl_destroy ::
  "'w sock_os \<Rightarrow> 'w sock_world os \<Rightarrow> sock_impl \<Rightarrow> 'w sock_reactor \<Rightarrow> sock_impl \<times> 'w sock_reactor"
where
  "impl_destroy os rxos impl s =
     (if impl_socket impl \<noteq> invalid_socket then
        (let (data1, s1) = deregister_descriptor rxos (impl_socket impl) (impl_data impl)
               (\<not> has_flag (impl_state impl) possible_dup) s;
             (s2, state2, ignored_ec) = in_sys (so_close os (impl_socket impl) (impl_state impl) True Ok_code) s1;
             (data3, s3) = cleanup_descriptor_data data1 s2
         in (impl\<lparr>impl_state := state2, impl_data := data3\<rparr>, s3))
      else (impl, s))"

definition base_move_assign ::
  "'w sock_os \<Rightarrow> 'w sock_world os \<Rightarrow> sock_impl \<Rightarrow> sock_impl \<Rightarrow> 'w sock_reactor \<Rightarrow> sock_impl \<times> sock_impl \<times> 'w sock_reactor"
where
  "base_move_assign os rxos impl other_impl s =
     (let (impl1, s1) = impl_destroy os rxos impl s;
          (impl2, other_impl2) = base_move_construct impl1 other_impl
      in (impl2, other_impl2, s1))"

definition impl_close ::
  "'w sock_os \<Rightarrow> 'w sock_world os \<Rightarrow> sock_impl \<Rightarrow> 'w sock_reactor \<Rightarrow> sock_impl \<times> 'w sock_reactor \<times> error_code"
where
  "impl_close os rxos impl s =
     (if impl_is_open impl then
        (let (data1, s1) = deregister_descriptor rxos (impl_socket impl) (impl_data impl)
               (\<not> has_flag (impl_state impl) possible_dup) s;
             (s2, state2, ec) = in_sys (so_close os (impl_socket impl) (impl_state impl) False Ok_code) s1;
             (data3, s3) = cleanup_descriptor_data data1 s2
         in (impl_construct (impl\<lparr>impl_state := state2, impl_data := data3\<rparr>), s3, ec))
      else (impl_construct impl, s, Ok_code))"

definition impl_release ::
  "'w sock_world os \<Rightarrow> sock_impl \<Rightarrow> 'w sock_reactor \<Rightarrow> sock_impl \<times> 'w sock_reactor \<times> int \<times> error_code"
where
  "impl_release rxos impl s =
     (if \<not> impl_is_open impl then (impl, s, invalid_socket, Bad_descriptor)
      else
        (let (data1, s1) = deregister_descriptor rxos (impl_socket impl) (impl_data impl) False s;
             (data2, s2) = cleanup_descriptor_data data1 s1;
             sock = impl_socket impl
         in (impl_construct (impl\<lparr>impl_data := data2\<rparr>), s2, sock, Ok_code)))"

definition impl_cancel :: "sock_impl \<Rightarrow> 'w sock_reactor \<Rightarrow> 'w sock_reactor \<times> error_code" where
  "impl_cancel impl s =
     (if \<not> impl_is_open impl then (s, Bad_descriptor) else (cancel_ops (impl_data impl) s, Ok_code))"

definition SOCK_STREAM :: int where "SOCK_STREAM = 1"
definition SOCK_DGRAM :: int where "SOCK_DGRAM = 2"

definition state_of_type :: "int \<Rightarrow> sock_state" where
  "state_of_type type =
     (if type = SOCK_STREAM then stream_oriented else if type = SOCK_DGRAM then datagram_oriented else 0)"

text \<open>\<open>fresh\<close> is the address of the descriptor state that the reactor may have to create.\<close>

definition do_open ::
  "'w sock_os \<Rightarrow> 'w sock_world os \<Rightarrow> did \<Rightarrow> sock_impl \<Rightarrow> int \<Rightarrow> int \<Rightarrow> int \<Rightarrow> 'w sock_reactor \<Rightarrow>
   sock_impl \<times> 'w sock_reactor \<times> error_code"
where
  "do_open os rxos fresh impl af type protocol s =
     (if impl_is_open impl then (impl, s, Already_open)
      else
        (case in_sys (so_socket os af type protocol) s of (s1, sock, ec) \<Rightarrow>
           if sock = invalid_socket then (impl, s1, ec)
           else
             (case register_descriptor rxos fresh sock s1 of (err, data, s2) \<Rightarrow>
                if err \<noteq> 0 then
                  (case in_sys (holder_reset os sock) s2 of (s3, sock3) \<Rightarrow>
                     (impl\<lparr>impl_data := data\<rparr>, s3, Sys_error err))
                else
                  (impl\<lparr>impl_socket := fst (holder_release sock), impl_state := state_of_type type,
                        impl_data := data\<rparr>, s2, Ok_code))))"

definition do_assign ::
  "'w sock_world os \<Rightarrow> did \<Rightarrow> sock_impl \<Rightarrow> int \<Rightarrow> int \<Rightarrow> 'w sock_reactor \<Rightarrow> sock_impl \<times> 'w sock_reactor \<times> error_code"
where
  "do_assign rxos fresh impl type native_socket s =
     (if impl_is_open impl then (impl, s, Already_open)
      else
        (case register_descriptor rxos fresh native_socket s of (err, data, s1) \<Rightarrow>
           if err \<noteq> 0 then (impl\<lparr>impl_data := data\<rparr>, s1, Sys_error err)
           else
             (impl\<lparr>impl_socket := native_socket, impl_state := state_of_type type OR possible_dup,
                   impl_data := data\<rparr>, s1, Ok_code)))"

section \<open>Options and modes\<close>

definition impl_io_control ::
  "'w sock_os \<Rightarrow> sock_impl \<Rightarrow> ioctl_cmd \<Rightarrow> int \<Rightarrow> 'w sock_reactor \<Rightarrow> sock_impl \<times> 'w sock_reactor \<times> (error_code + int)"
where
  "impl_io_control os impl cmd arg s =
     (case in_sys (so_ioctl os (impl_socket impl) (impl_state impl) cmd arg) s of (s1, state1, r) \<Rightarrow>
        (impl\<lparr>impl_state := state1\<rparr>, s1, r))"

definition impl_non_blocking :: "sock_impl \<Rightarrow> bool" where
  "impl_non_blocking impl \<longleftrightarrow> has_flag (impl_state impl) user_set_non_blocking"

definition impl_set_non_blocking ::
  "'w sock_os \<Rightarrow> sock_impl \<Rightarrow> bool \<Rightarrow> 'w sock_reactor \<Rightarrow> sock_impl \<times> 'w sock_reactor \<times> error_code"
where
  "impl_set_non_blocking os impl mode s =
     (case in_sys (set_user_non_blocking os (impl_socket impl) (impl_state impl) mode) s of (s1, state1, ok, ec) \<Rightarrow>
        (impl\<lparr>impl_state := state1\<rparr>, s1, ec))"

definition impl_native_non_blocking :: "sock_impl \<Rightarrow> bool" where
  "impl_native_non_blocking impl \<longleftrightarrow> has_flag (impl_state impl) internal_non_blocking"

definition impl_set_native_non_blocking ::
  "'w sock_os \<Rightarrow> sock_impl \<Rightarrow> bool \<Rightarrow> 'w sock_reactor \<Rightarrow> sock_impl \<times> 'w sock_reactor \<times> error_code"
where
  "impl_set_native_non_blocking os impl mode s =
     (case in_sys (set_internal_non_blocking os (impl_socket impl) (impl_state impl) mode) s of (s1, state1, ok, ec) \<Rightarrow>
        (impl\<lparr>impl_state := state1\<rparr>, s1, ec))"

definition impl_set_option ::
  "'w sock_os \<Rightarrow> sock_impl \<Rightarrow> int \<Rightarrow> int \<Rightarrow> int \<Rightarrow> nat \<Rightarrow> 'w sock_reactor \<Rightarrow> sock_impl \<times> 'w sock_reactor \<times> error_code"
where
  "impl_set_option os impl level optname optval optlen s =
     (case in_sys (so_setsockopt os (impl_socket impl) (impl_state impl) level optname optval optlen) s of
        (s1, state1, ec) \<Rightarrow> (impl\<lparr>impl_state := state1\<rparr>, s1, ec))"

section \<open>Starting operations\<close>

definition post :: "reactor_op \<Rightarrow> bool \<Rightarrow> 'w sock_reactor \<Rightarrow> 'w sock_reactor" where
  "post op is_continuation s = call (Post_immediate (Io_op op) is_continuation) s"

definition sock_start_op ::
  "'w sock_os \<Rightarrow> 'w sock_world os \<Rightarrow> sock_impl \<Rightarrow> op_type \<Rightarrow> reactor_op \<Rightarrow> bool \<Rightarrow> bool \<Rightarrow> bool \<Rightarrow>
   'w sock_reactor \<Rightarrow> sock_impl \<times> 'w sock_reactor"
where
  "sock_start_op os rxos impl j op is_continuation is_non_blocking noop s =
     (if \<not> noop then
        (if has_flag (impl_state impl) non_blocking then
           (impl, start_op rxos j (impl_socket impl) (impl_data impl) op is_continuation is_non_blocking s)
         else
           (case in_sys (set_internal_non_blocking os (impl_socket impl) (impl_state impl) True) s of
              (s1, state1, ok, ec) \<Rightarrow>
                (let impl1 = impl\<lparr>impl_state := state1\<rparr>; op1 = op\<lparr>rop_ec := ec\<rparr>
                 in if ok then
                      (impl1, start_op rxos j (impl_socket impl1) (impl_data impl1) op1 is_continuation is_non_blocking s1)
                    else (impl1, post op1 is_continuation s1))))
      else (impl, post op is_continuation s))"

definition start_accept_op ::
  "'w sock_os \<Rightarrow> 'w sock_world os \<Rightarrow> sock_impl \<Rightarrow> reactor_op \<Rightarrow> bool \<Rightarrow> bool \<Rightarrow> 'w sock_reactor \<Rightarrow> sock_impl \<times> 'w sock_reactor"
where
  "start_accept_op os rxos impl op is_continuation peer_is_open s =
     (if \<not> peer_is_open then sock_start_op os rxos impl Read_op op is_continuation True False s
      else (impl, post (op\<lparr>rop_ec := Already_open\<rparr>) is_continuation s))"

text \<open>The connect made once the socket does not block.\<close>

definition connect_now ::
  "'w sock_os \<Rightarrow> 'w sock_world os \<Rightarrow> sock_impl \<Rightarrow> reactor_op \<Rightarrow> bool \<Rightarrow> 'w sock_reactor \<Rightarrow> 'w sock_reactor"
where
  "connect_now os rxos impl op is_continuation s =
     (case in_sys (so_connect os (impl_socket impl)) s of (s1, ec) \<Rightarrow>
        (let op1 = op\<lparr>rop_ec := ec\<rparr>
         in if ec \<noteq> Ok_code \<and> (ec = In_progress \<or> ec = Would_block) then
              start_op rxos Connect_op (impl_socket impl) (impl_data impl) (op1\<lparr>rop_ec := Ok_code\<rparr>)
                is_continuation False s1
            else post op1 is_continuation s1))"

definition start_connect_op ::
  "'w sock_os \<Rightarrow> 'w sock_world os \<Rightarrow> sock_impl \<Rightarrow> reactor_op \<Rightarrow> bool \<Rightarrow> 'w sock_reactor \<Rightarrow> sock_impl \<times> 'w sock_reactor"
where
  "start_connect_op os rxos impl op is_continuation s =
     (if has_flag (impl_state impl) non_blocking then (impl, connect_now os rxos impl op is_continuation s)
      else
        (case in_sys (set_internal_non_blocking os (impl_socket impl) (impl_state impl) True) s of
           (s1, state1, ok, ec) \<Rightarrow>
             (let impl1 = impl\<lparr>impl_state := state1\<rparr>; op1 = op\<lparr>rop_ec := ec\<rparr>
              in if ok then (impl1, connect_now os rxos impl1 op1 is_continuation s1)
                 else (impl1, post op1 is_continuation s1))))"

end
