(* ===== verification/SocketCalls.thy ===== *)
theory SocketCalls
  imports SocketService
begin

text \<open>
  The operations that a socket offers: the member templates of \<open>reactive_socket_service_base\<close> and
  \<open>reactive_socket_service\<close> that transfer, accept, connect and wait, synchronously and asynchronously.
\<close>

unbundle bit_operations_syntax

section \<open>Synchronous operations\<close>

definition impl_send ::
  "'w sock_os \<Rightarrow> sock_impl \<Rightarrow> byte list buffers_arg \<Rightarrow> msg_flags \<Rightarrow> 'w \<Rightarrow> ('w \<times> nat \<times> error_code) option"
where
  "impl_send os impl buffers flags w =
     (case buffers of
        Single_buffer data \<Rightarrow> sync_send1 os (impl_socket impl) (impl_state impl) data flags w
      | Buffer_sequence bs \<Rightarrow>
          (let bufs = bsa_new length bs
           in sync_send os (impl_socket impl) (impl_state impl) (native_buffers bufs) flags (bsa_all_empty bufs) w))"

definition impl_receive ::
  "'w sock_os \<Rightarrow> sock_impl \<Rightarrow> nat buffers_arg \<Rightarrow> msg_flags \<Rightarrow> 'w \<Rightarrow> ('w \<times> byte list \<times> error_code) option"
where
  "impl_receive os impl buffers flags w =
     (case buffers of
        Single_buffer sz \<Rightarrow> sync_recv1 os (impl_socket impl) (impl_state impl) sz flags w
      | Buffer_sequence bs \<Rightarrow>
          (let bufs = bsa_new id bs
           in sync_recv os (impl_socket impl) (impl_state impl) (native_buffers bufs) flags (bsa_all_empty bufs) w))"

definition impl_receive_with_flags ::
  "'w sock_os \<Rightarrow> sock_impl \<Rightarrow> nat list \<Rightarrow> msg_flags \<Rightarrow> 'w \<Rightarrow> ('w \<times> (byte list \<times> msg_flags) \<times> error_code) option"
where
  "impl_receive_with_flags os impl bs in_flags w =
     sync_recvmsg os (impl_socket impl) (impl_state impl) (native_buffers (bsa_new id bs)) in_flags w"

definition impl_send_to ::
  "'w sock_os \<Rightarrow> sock_impl \<Rightarrow> byte list buffers_arg \<Rightarrow> byte list \<Rightarrow> msg_flags \<Rightarrow> 'w \<Rightarrow> ('w \<times> nat \<times> error_code) option"
where
  "impl_send_to os impl buffers destination flags w =
     (case buffers of
        Single_buffer data \<Rightarrow> sync_sendto1 os (impl_socket impl) (impl_state impl) data flags destination w
      | Buffer_sequence bs \<Rightarrow>
          (let bufs = bsa_new length bs
           in sync_sendto os (impl_socket impl) (impl_state impl) (native_buffers bufs) flags destination w))"

text \<open>The sender's address is resized, so taken over, unless there is an error.\<close>

definition impl_receive_from ::
  "'w sock_os \<Rightarrow> sock_impl \<Rightarrow> nat buffers_arg \<Rightarrow> byte list \<Rightarrow> msg_flags \<Rightarrow> 'w \<Rightarrow>
   ('w \<times> (byte list \<times> byte list) \<times> error_code) option"
where
  "impl_receive_from os impl buffers sender_endpoint flags w =
     map_option (\<lambda>(w1, (data, addr), ec). (w1, (data, if \<not> failed ec then addr else sender_endpoint), ec))
       (case buffers of
          Single_buffer sz \<Rightarrow> sync_recvfrom1 os (impl_socket impl) (impl_state impl) sz flags w
        | Buffer_sequence bs \<Rightarrow>
            (let bufs = bsa_new id bs
             in sync_recvfrom os (impl_socket impl) (impl_state impl) (native_buffers bufs) flags w))"

definition impl_connect :: "'w sock_os \<Rightarrow> sock_impl \<Rightarrow> 'w \<Rightarrow> 'w \<times> error_code" where
  "impl_connect os impl w = sync_connect os (impl_socket impl) w"

datatype wait_type = Wait_read | Wait_write | Wait_error

definition impl_wait :: "'w sock_os \<Rightarrow> sock_impl \<Rightarrow> wait_type \<Rightarrow> 'w \<Rightarrow> 'w \<times> error_code" where
  "impl_wait os impl wt w =
     (case (case wt of
              Wait_read \<Rightarrow> poll_read os (impl_socket impl) (impl_state impl) (-1) w
            | Wait_write \<Rightarrow> poll_write os (impl_socket impl) (impl_state impl) (-1) w
            | Wait_error \<Rightarrow> poll_error os (impl_socket impl) (impl_state impl) (-1) w) of
        (w1, result, ec) \<Rightarrow> (w1, ec))"

text \<open>\<open>accept\<close>: the peer is a socket of the same service, assigned unless it is open; the holder closes a socket it still has.\<close>

definition impl_accept ::
  "'w sock_os \<Rightarrow> 'w sock_world os \<Rightarrow> did \<Rightarrow> sock_impl \<Rightarrow> sock_impl \<Rightarrow> int \<Rightarrow> 'w sock_reactor \<Rightarrow>
   (sock_impl \<times> 'w sock_reactor \<times> error_code) option"
where
  "impl_accept os rxos fresh impl peer type s =
     (if impl_is_open peer then Some (peer, s, Already_open)
      else
        map_option (\<lambda>(w1, new_socket, ec).
            (let s1 = s\<lparr>world := (world s)\<lparr>sys_world := w1\<rparr>\<rparr>;
                 (peer2, s2, ec2, h2) =
                   (if new_socket \<noteq> invalid_socket then
                      (case do_assign rxos fresh peer type new_socket s1 of (peer1, s2, ec1) \<Rightarrow>
                         (peer1, s2, ec1, if \<not> failed ec1 then snd (holder_release new_socket) else new_socket))
                    else (peer, s1, ec, new_socket));
                 (s3, h3) = in_sys (holder_reset os h2) s2
             in (peer2, s3, ec2)))
          (sync_accept os (impl_socket impl) (impl_state impl) (sys_world (world s))))"

section \<open>Asynchronous operations\<close>

text \<open>
  The identity of an operation serves as the address of its cancellation handler. \<open>slot\<close> is whether
  the handler has a cancellation slot.
\<close>

definition with_key :: "bool \<Rightarrow> reactor_op \<Rightarrow> reactor_op" where
  "with_key slot op = (if slot then op\<lparr>rop_key := Some (rop_id op)\<rparr> else op)"

record op_cancellation =
  oc_type :: op_type
  oc_key :: nat

definition cancellation_for :: "bool \<Rightarrow> op_type \<Rightarrow> reactor_op \<Rightarrow> op_cancellation option" where
  "cancellation_for slot j op = (if slot then Some \<lparr>oc_type = j, oc_key = rop_id op\<rparr> else None)"

text \<open>\<open>reactor_op_cancellation::operator()\<close>; its pointer is to the implementation's \<open>reactor_data_\<close>.\<close>

definition cancel_operation :: "op_cancellation \<Rightarrow> sock_impl \<Rightarrow> cancellation_type \<Rightarrow> 'w sock_reactor \<Rightarrow> 'w sock_reactor" where
  "cancel_operation oc impl type s =
     (if type AND (ct_terminal OR ct_partial OR ct_total) \<noteq> 0 then
        cancel_ops_by_key (impl_data impl) (oc_type oc) (Some (oc_key oc)) s
      else s)"

definition op_for :: "sock_impl \<Rightarrow> sock_op_kind \<Rightarrow> sock_op" where
  "op_for impl kind = \<lparr>sop_socket = impl_socket impl, sop_state = impl_state impl, sop_kind = kind\<rparr>"

text \<open>
  Every operation yields the operation constructed, the cancellation, the implementation and the
  reactor.
\<close>

type_synonym 'w started_op = "sock_op \<times> op_cancellation option \<times> sock_impl \<times> 'w sock_reactor"

definition async_wait ::
  "'w sock_os \<Rightarrow> 'w sock_world os \<Rightarrow> sock_impl \<Rightarrow> wait_type \<Rightarrow> reactor_op \<Rightarrow> bool \<Rightarrow> bool \<Rightarrow> 'w sock_reactor \<Rightarrow> 'w started_op"
where
  "async_wait os rxos impl wt op slot cont s =
     (let op_type = (case wt of Wait_read \<Rightarrow> Read_op | Wait_write \<Rightarrow> Write_op | Wait_error \<Rightarrow> Except_op)
      in (op_for impl Wait_kind, cancellation_for slot op_type op,
          sock_start_op os rxos impl op_type (with_key slot op) cont False False s))"

definition async_send ::
  "'w sock_os \<Rightarrow> 'w sock_world os \<Rightarrow> sock_impl \<Rightarrow> byte list buffers_arg \<Rightarrow> msg_flags \<Rightarrow> reactor_op \<Rightarrow> bool \<Rightarrow> bool \<Rightarrow>
   'w sock_reactor \<Rightarrow> 'w started_op"
where
  "async_send os rxos impl buffers flags op slot cont s =
     (op_for impl (Send_kind buffers flags), cancellation_for slot Write_op op,
      sock_start_op os rxos impl Write_op (with_key slot op) cont True
        (has_flag (impl_state impl) stream_oriented \<and> bufs_all_empty length buffers) s)"

definition async_send_null ::
  "'w sock_os \<Rightarrow> 'w sock_world os \<Rightarrow> sock_impl \<Rightarrow> reactor_op \<Rightarrow> bool \<Rightarrow> bool \<Rightarrow> 'w sock_reactor \<Rightarrow> 'w started_op"
where
  "async_send_null os rxos impl op slot cont s =
     (op_for impl Null_buffers_kind, cancellation_for slot Write_op op,
      sock_start_op os rxos impl Write_op (with_key slot op) cont False False s)"

definition async_receive ::
  "'w sock_os \<Rightarrow> 'w sock_world os \<Rightarrow> sock_impl \<Rightarrow> nat buffers_arg \<Rightarrow> msg_flags \<Rightarrow> reactor_op \<Rightarrow> bool \<Rightarrow> bool \<Rightarrow>
   'w sock_reactor \<Rightarrow> 'w started_op"
where
  "async_receive os rxos impl buffers flags op slot cont s =
     (op_for impl (Recv_kind buffers flags), cancellation_for slot Read_op op,
      sock_start_op os rxos impl (if flags AND MSG_OOB \<noteq> 0 then Except_op else Read_op) (with_key slot op) cont
        (flags AND MSG_OOB = 0)
        (has_flag (impl_state impl) stream_oriented \<and> bufs_all_empty id buffers) s)"

definition async_receive_null ::
  "'w sock_os \<Rightarrow> 'w sock_world os \<Rightarrow> sock_impl \<Rightarrow> msg_flags \<Rightarrow> reactor_op \<Rightarrow> bool \<Rightarrow> bool \<Rightarrow> 'w sock_reactor \<Rightarrow> 'w started_op"
where
  "async_receive_null os rxos impl flags op slot cont s =
     (op_for impl Null_buffers_kind, cancellation_for slot Read_op op,
      sock_start_op os rxos impl (if flags AND MSG_OOB \<noteq> 0 then Except_op else Read_op) (with_key slot op) cont
        False False s)"

definition async_receive_with_flags ::
  "'w sock_os \<Rightarrow> 'w sock_world os \<Rightarrow> sock_impl \<Rightarrow> nat list \<Rightarrow> msg_flags \<Rightarrow> reactor_op \<Rightarrow> bool \<Rightarrow> bool \<Rightarrow>
   'w sock_reactor \<Rightarrow> 'w started_op"
where
  "async_receive_with_flags os rxos impl bs in_flags op slot cont s =
     (op_for impl (Recvmsg_kind bs in_flags), cancellation_for slot Read_op op,
      sock_start_op os rxos impl (if in_flags AND MSG_OOB \<noteq> 0 then Except_op else Read_op) (with_key slot op) cont
        (in_flags AND MSG_OOB = 0) False s)"

definition async_send_to ::
  "'w sock_os \<Rightarrow> 'w sock_world os \<Rightarrow> sock_impl \<Rightarrow> byte list buffers_arg \<Rightarrow> byte list \<Rightarrow> msg_flags \<Rightarrow> reactor_op \<Rightarrow> bool \<Rightarrow>
   bool \<Rightarrow> 'w sock_reactor \<Rightarrow> 'w started_op"
where
  "async_send_to os rxos impl buffers destination flags op slot cont s =
     (op_for impl (Sendto_kind buffers flags destination), cancellation_for slot Write_op op,
      sock_start_op os rxos impl Write_op (with_key slot op) cont True False s)"

definition async_receive_from ::
  "'w sock_os \<Rightarrow> 'w sock_world os \<Rightarrow> sock_impl \<Rightarrow> nat buffers_arg \<Rightarrow> msg_flags \<Rightarrow> reactor_op \<Rightarrow> bool \<Rightarrow> bool \<Rightarrow>
   'w sock_reactor \<Rightarrow> 'w started_op"
where
  "async_receive_from os rxos impl buffers flags op slot cont s =
     (op_for impl (Recvfrom_kind buffers flags), cancellation_for slot Read_op op,
      sock_start_op os rxos impl (if flags AND MSG_OOB \<noteq> 0 then Except_op else Read_op) (with_key slot op) cont
        True False s)"

definition async_accept ::
  "'w sock_os \<Rightarrow> 'w sock_world os \<Rightarrow> sock_impl \<Rightarrow> sock_impl \<Rightarrow> reactor_op \<Rightarrow> bool \<Rightarrow> bool \<Rightarrow> 'w sock_reactor \<Rightarrow> 'w started_op"
where
  "async_accept os rxos impl peer op slot cont s =
     (let slot1 = (slot \<and> \<not> impl_is_open peer)
      in (op_for impl Accept_kind, cancellation_for slot1 Read_op op,
          start_accept_op os rxos impl (with_key slot1 op) cont (impl_is_open peer) s))"

definition async_connect ::
  "'w sock_os \<Rightarrow> 'w sock_world os \<Rightarrow> sock_impl \<Rightarrow> reactor_op \<Rightarrow> bool \<Rightarrow> bool \<Rightarrow> 'w sock_reactor \<Rightarrow> 'w started_op"
where
  "async_connect os rxos impl op slot cont s =
     (op_for impl Connect_kind, cancellation_for slot Connect_op op,
      start_connect_op os rxos impl (with_key slot op) cont s)"

text \<open>\<open>do_complete\<close> of an accept operation, up to the call of the handler with \<open>ec_\<close>.\<close>

definition accept_do_assign ::
  "'w sock_world os \<Rightarrow> did \<Rightarrow> sock_impl \<Rightarrow> int \<Rightarrow> sop_mut \<Rightarrow> 'w sock_reactor \<Rightarrow> sock_impl \<times> sop_mut \<times> 'w sock_reactor"
where
  "accept_do_assign rxos fresh peer type = (\<lambda>(op, res) s.
     if res_socket res \<noteq> invalid_socket then
       (case do_assign rxos fresh peer type (res_socket res) s of (peer1, s1, ec) \<Rightarrow>
          (peer1, (op\<lparr>rop_ec := ec\<rparr>,
             if \<not> failed ec then res\<lparr>res_socket := snd (holder_release (res_socket res))\<rparr> else res), s1))
     else (peer, (op, res), s))"

definition accept_do_complete ::
  "'w sock_os \<Rightarrow> 'w sock_world os \<Rightarrow> bool \<Rightarrow> did \<Rightarrow> sock_impl \<Rightarrow> int \<Rightarrow> sop_mut \<Rightarrow> 'w sock_reactor \<Rightarrow>
   sock_impl \<times> error_code \<times> 'w sock_reactor"
where
  "accept_do_complete os rxos owner fresh peer type m s =
     (case (if owner then accept_do_assign rxos fresh peer type m s else (peer, m, s)) of
        (peer1, (op1, res1), s1) \<Rightarrow>
          (case in_sys (holder_reset os (res_socket res1)) s1 of (s2, h) \<Rightarrow> (peer1, rop_ec op1, s2)))"

end
