(* ===== verification/SocketLifecycle.thy ===== *)
theory SocketLifecycle
  imports SocketCalls
begin

text \<open>
  The life of a socket: whatever is done with an implementation, the process has open exactly the
  descriptors that it had apart from it and the one it owns, and its flags say what mode the
  kernel has the socket in.
\<close>

unbundle bit_operations_syntax

section \<open>The descriptors of the process\<close>

text \<open>
  What the kernel knows of a descriptor: whether it is open, whether it blocks, and whether the epoll descriptor of
  the reactor watches it, and for which descriptor state. Some descriptors, such as regular files, cannot be
  watched.
\<close>

datatype watch = Unwatched | Unwatchable | Watched did

record 'w fd_view =
  open_fds :: "'w \<Rightarrow> int set"
  nb_mode :: "'w \<Rightarrow> int \<Rightarrow> bool"
  watch_of :: "'w \<Rightarrow> int \<Rightarrow> watch"

definition same_fds :: "'w fd_view \<Rightarrow> 'w \<Rightarrow> 'w \<Rightarrow> bool" where
  "same_fds v w w' \<longleftrightarrow> open_fds v w' = open_fds v w \<and> nb_mode v w' = nb_mode v w"

definition same_view :: "'w fd_view \<Rightarrow> 'w \<Rightarrow> 'w \<Rightarrow> bool" where
  "same_view v w w' \<longleftrightarrow> same_fds v w w' \<and> watch_of v w' = watch_of v w"

definition same_others :: "'w fd_view \<Rightarrow> int \<Rightarrow> 'w \<Rightarrow> 'w \<Rightarrow> bool" where
  "same_others v s w w' \<longleftrightarrow> (\<forall>m. m \<noteq> s \<longrightarrow> nb_mode v w' m = nb_mode v w m \<and> watch_of v w' m = watch_of v w m)"

text \<open>
  What the system calls do: \<open>socket\<close> gives a new descriptor that blocks, \<open>close\<close> frees its number, even
  when it reports an error, except that a close that has to linger on a non-blocking socket is not
  carried out; \<open>FIONBIO\<close> sets the mode, and can always be cleared; \<open>EPOLL_CTL_ADD\<close>, when it succeeds, has the
  descriptor watched, and fails with \<open>EPERM\<close> only for one that cannot be; it may fail with any other error.
  Nothing else touches any of them, but for what \<open>epoll_ctl\<close> does to the watch of its own descriptor.
\<close>

definition socket_law :: "'w sock_os \<Rightarrow> 'w fd_view \<Rightarrow> bool" where
  "socket_law os v \<longleftrightarrow> (\<forall>af type protocol w w' r. sys_socket os af type protocol w = (w', r) \<longrightarrow>
     (case r of
        Inl e \<Rightarrow> e \<noteq> Ok_code \<and> same_view v w w'
      | Inr s \<Rightarrow> s \<noteq> invalid_socket \<and> s \<notin> open_fds v w \<and> open_fds v w' = insert s (open_fds v w) \<and>
          \<not> nb_mode v w' s \<and> same_others v s w w'))"

definition close_law :: "'w sock_os \<Rightarrow> 'w fd_view \<Rightarrow> bool" where
  "close_law os v \<longleftrightarrow> (\<forall>s w w' r. sys_close os s w = (w', r) \<longrightarrow>
     (if \<exists>e. r = Inl e \<and> blocked e then nb_mode v w s \<and> same_view v w w'
      else open_fds v w' = open_fds v w - {s} \<and> same_others v s w w'))"

definition mode_law :: "'w sock_os \<Rightarrow> 'w fd_view \<Rightarrow> bool" where
  "mode_law os v \<longleftrightarrow> (\<forall>s cmd arg w w' r. sys_ioctl os s cmd arg w = (w', r) \<longrightarrow>
     open_fds v w' = open_fds v w \<and> same_others v s w w' \<and> watch_of v w' = watch_of v w \<and>
     (case r of
        Inl e \<Rightarrow> nb_mode v w' s = nb_mode v w s \<and> \<not> (cmd = FIONBIO \<and> arg = 0 \<and> s \<in> open_fds v w)
      | Inr a \<Rightarrow> if cmd = FIONBIO then a = arg \<and> nb_mode v w' s = (arg \<noteq> 0) else nb_mode v w' s = nb_mode v w s))"

definition watch_law :: "'w sock_world os \<Rightarrow> 'w fd_view \<Rightarrow> bool" where
  "watch_law rxos v \<longleftrightarrow> (\<forall>c fd ev p W r W'. os_epoll_ctl rxos c fd ev p W = (r, W') \<longrightarrow>
     same_fds v (sys_world W) (sys_world W') \<and> same_others v fd (sys_world W) (sys_world W') \<and>
     (\<forall>d. c = Ctl_add \<longrightarrow> p = Descr_ptr d \<longrightarrow>
        (r = 0 \<longrightarrow> watch_of v (sys_world W') fd = Watched d) \<and>
        (r = EPERM \<longrightarrow> watch_of v (sys_world W') fd = Unwatchable)))"

definition fd_law :: "'w sock_os \<Rightarrow> 'w sock_world os \<Rightarrow> 'w fd_view \<Rightarrow> bool" where
  "fd_law os rxos v \<longleftrightarrow> socket_law os v \<and> close_law os v \<and> mode_law os v \<and> watch_law rxos v \<and>
     (\<forall>s level optname optval optlen w w' r. sys_setsockopt os s level optname optval optlen w = (w', r) \<longrightarrow>
        same_view v w w')"

lemma same_refl [simp]: "same_fds v w w" "same_view v w w" "same_others v s w w"
  by (simp_all add: same_fds_def same_view_def same_others_def)

lemma same_view_fds: "same_view v w w' \<Longrightarrow> same_fds v w w'"
  by (simp add: same_view_def)

lemma same_view_others: "same_view v w w' \<Longrightarrow> same_others v s w w'"
  by (simp add: same_view_def same_fds_def same_others_def)

lemma same_others_trans: "same_others v s w w1 \<Longrightarrow> same_others v s w1 w2 \<Longrightarrow> same_others v s w w2"
  by (simp add: same_others_def)

lemma fd_lawD:
  assumes "fd_law os rxos v"
  shows "socket_law os v" "close_law os v" "mode_law os v" "watch_law rxos v"
    "sys_setsockopt os s level optname optval optlen w = (w', r) \<Longrightarrow> same_view v w w'"
  using assms unfolding fd_law_def by blast+

lemma closeD:
  assumes "fd_law os rxos v" "sys_close os s w = (w', r)"
  shows "r = Inl e \<Longrightarrow> blocked e \<Longrightarrow> nb_mode v w s" "r = Inl e \<Longrightarrow> blocked e \<Longrightarrow> same_view v w w'"
    "\<not> (\<exists>e. r = Inl e \<and> blocked e) \<Longrightarrow> open_fds v w' = open_fds v w - {s}"
    "\<not> (\<exists>e. r = Inl e \<and> blocked e) \<Longrightarrow> same_others v s w w'"
proof -
  have law: "if \<exists>e. r = Inl e \<and> blocked e then nb_mode v w s \<and> same_view v w w'
      else open_fds v w' = open_fds v w - {s} \<and> same_others v s w w'"
    using fd_lawD(2) [OF assms(1)] assms(2) unfolding close_law_def by blast
  then show "r = Inl e \<Longrightarrow> blocked e \<Longrightarrow> nb_mode v w s" "r = Inl e \<Longrightarrow> blocked e \<Longrightarrow> same_view v w w'"
    "\<not> (\<exists>e. r = Inl e \<and> blocked e) \<Longrightarrow> open_fds v w' = open_fds v w - {s}"
    "\<not> (\<exists>e. r = Inl e \<and> blocked e) \<Longrightarrow> same_others v s w w'"
    by (auto split: if_splits)
qed

lemma modeD:
  assumes "fd_law os rxos v" "sys_ioctl os s cmd arg w = (w', r)"
  shows "open_fds v w' = open_fds v w" "same_others v s w w'"
    "watch_of v w' = watch_of v w"
    "r = Inl e \<Longrightarrow> nb_mode v w' s = nb_mode v w s"
    "r = Inl e \<Longrightarrow> s \<in> open_fds v w \<Longrightarrow> \<not> (cmd = FIONBIO \<and> arg = 0)"
    "r = Inr a \<Longrightarrow> cmd = FIONBIO \<Longrightarrow> a = arg \<and> nb_mode v w' s = (arg \<noteq> 0)"
    "r = Inr a \<Longrightarrow> cmd \<noteq> FIONBIO \<Longrightarrow> nb_mode v w' s = nb_mode v w s"
proof -
  have law: "open_fds v w' = open_fds v w \<and> same_others v s w w' \<and> watch_of v w' = watch_of v w \<and>
     (case r of
        Inl e \<Rightarrow> nb_mode v w' s = nb_mode v w s \<and> \<not> (cmd = FIONBIO \<and> arg = 0 \<and> s \<in> open_fds v w)
      | Inr a \<Rightarrow> if cmd = FIONBIO then a = arg \<and> nb_mode v w' s = (arg \<noteq> 0) else nb_mode v w' s = nb_mode v w s)"
    using fd_lawD(3) [OF assms(1)] assms(2) unfolding mode_law_def by blast
  then show "open_fds v w' = open_fds v w" "same_others v s w w'"
    "watch_of v w' = watch_of v w"
    "r = Inl e \<Longrightarrow> nb_mode v w' s = nb_mode v w s"
    "r = Inl e \<Longrightarrow> s \<in> open_fds v w \<Longrightarrow> \<not> (cmd = FIONBIO \<and> arg = 0)"
    "r = Inr a \<Longrightarrow> cmd = FIONBIO \<Longrightarrow> a = arg \<and> nb_mode v w' s = (arg \<noteq> 0)"
    "r = Inr a \<Longrightarrow> cmd \<noteq> FIONBIO \<Longrightarrow> nb_mode v w' s = nb_mode v w s"
    by (auto split: if_splits)
qed

text \<open>\<open>close\<close> frees the descriptor, if need be at the second attempt.\<close>

lemma setsockopt_view:
  assumes "fd_law os rxos v" "so_setsockopt os s state level optname optval optlen w = (w', state', ec)"
  shows "same_view v w w'"
  using assms fd_lawD(5) [OF assms(1)]
  by (auto simp: so_setsockopt_def Let_def split: if_splits prod.splits)

lemma so_close_frees:
  assumes law: "fd_law os rxos v" and s: "s \<noteq> invalid_socket" "s \<in> open_fds v w"
    and c: "so_close os s state destruction ec w = (w', state', ec')"
  shows "open_fds v w' = open_fds v w - {s}" "same_others v s w w'"
proof -
  obtain w1 state1 where w1: "(if destruction \<and> has_flag state user_set_linger
      then (case so_setsockopt os s state SOL_SOCKET SO_LINGER 0 sizeof_linger w of (w1, state1, ignored_ec) \<Rightarrow> (w1, state1))
      else (w, state)) = (w1, state1)" by fastforce
  have v1: "same_view v w w1"
    using w1 setsockopt_view [OF law] by (fastforce split: if_splits prod.splits)
  obtain w2 r where w2: "sys_close os s w1 = (w2, r)" by fastforce
  have bl: "get_last_error r = Would_block \<or> get_last_error r = Try_again \<longleftrightarrow> (\<exists>e. r = Inl e \<and> blocked e)"
    by (auto simp: get_last_error_def blocked_def split: sum.splits)
  have "open_fds v w' = open_fds v w - {s} \<and> same_others v s w w'"
  proof (cases "\<exists>e. r = Inl e \<and> blocked e")
    case True
    then have v2: "same_view v w1 w2" using closeD(2) [OF law w2] by blast
    obtain w3 q where w3: "sys_ioctl os s FIONBIO 0 w2 = (w3, q)" by fastforce
    obtain w4 r4 where w4: "sys_close os s w3 = (w4, r4)" by fastforce
    have "s \<in> open_fds v w2" using v1 v2 s(2) by (simp add: same_view_def same_fds_def)
    then have "\<not> nb_mode v w3 s" using modeD(5,6) [OF law w3] by (cases q) auto
    then have "\<not> (\<exists>e. r4 = Inl e \<and> blocked e)" using closeD(1) [OF law w4] by blast
    then have c4: "open_fds v w4 = open_fds v w3 - {s}" "same_others v s w3 w4" using closeD(3,4) [OF law w4] by blast+
    have "w' = w4"
      using c True s(1) w1 w2 w3 w4 unfolding so_close_def bl [symmetric] Let_def by (auto split: prod.splits)
    then show ?thesis
      using c4 v1 v2 modeD(1,2) [OF law w3] by (simp add: same_view_def same_fds_def same_others_def)
  next
    case False
    then have c2: "open_fds v w2 = open_fds v w1 - {s}" "same_others v s w1 w2" using closeD(3,4) [OF law w2] by blast+
    have "w' = w2"
      using c False s(1) w1 w2 unfolding so_close_def bl [symmetric] Let_def by (auto split: prod.splits)
    then show ?thesis using c2 v1 by (simp add: same_view_def same_fds_def same_others_def)
  qed
  then show "open_fds v w' = open_fds v w - {s}" "same_others v s w w'" by blast+
qed

text \<open>What the reactor does to register and deregister leaves the descriptors as they are.\<close>

abbreviation (input) sysw :: "'w sock_reactor \<Rightarrow> 'w" where
  "sysw s \<equiv> sys_world (world s)"

lemma set_descr_world [simp]: "world (set_descr d f s) = world s"
  by (simp add: set_descr_def)

lemma epoll_ctl_view:
  assumes "fd_law os rxos v" "epoll_ctl rxos c fd ev p s = (r, s')"
  shows "same_fds v (sysw s) (sysw s')" "same_others v fd (sysw s) (sysw s')"
    "c = Ctl_add \<Longrightarrow> p = Descr_ptr d \<Longrightarrow> r = 0 \<Longrightarrow> watch_of v (sysw s') fd = Watched d"
    "c = Ctl_add \<Longrightarrow> p = Descr_ptr d \<Longrightarrow> r = EPERM \<Longrightarrow> watch_of v (sysw s') fd = Unwatchable"
    "descr s' = descr s"
proof -
  obtain W where W: "os_epoll_ctl rxos c fd ev p (world s) = (r, W)" "s' = s\<lparr>world := W\<rparr>"
    using assms(2) by (auto simp: epoll_ctl_def split: prod.splits)
  have law: "same_fds v (sysw s) (sys_world W) \<and> same_others v fd (sysw s) (sys_world W) \<and>
     (\<forall>d. c = Ctl_add \<longrightarrow> p = Descr_ptr d \<longrightarrow>
        (r = 0 \<longrightarrow> watch_of v (sys_world W) fd = Watched d) \<and>
        (r = EPERM \<longrightarrow> watch_of v (sys_world W) fd = Unwatchable))"
    using fd_lawD(4) [OF assms(1)] W(1) unfolding watch_law_def by blast
  then show "same_fds v (sysw s) (sysw s')" "same_others v fd (sysw s) (sysw s')"
    "c = Ctl_add \<Longrightarrow> p = Descr_ptr d \<Longrightarrow> r = 0 \<Longrightarrow> watch_of v (sysw s') fd = Watched d"
    "c = Ctl_add \<Longrightarrow> p = Descr_ptr d \<Longrightarrow> r = EPERM \<Longrightarrow> watch_of v (sysw s') fd = Unwatchable"
    "descr s' = descr s"
    by (simp_all add: W(2))
qed

text \<open>
  A socket is registered: its implementation has a descriptor state, which the reactor has not shut down and which
  knows the socket, and the epoll descriptor watches the socket for that state, or cannot, and the state says so.
\<close>

definition registration :: "'w fd_view \<Rightarrow> 'w sock_reactor \<Rightarrow> did \<Rightarrow> int \<Rightarrow> bool" where
  "registration v s d fd \<longleftrightarrow> \<not> ds_shutdown (descr s d) \<and> ds_descriptor (descr s d) = fd \<and>
     (watch_of v (sysw s) fd = Watched d \<or>
      watch_of v (sysw s) fd = Unwatchable \<and> registered_events (descr s d) = 0)"

definition registered :: "'w fd_view \<Rightarrow> sock_impl \<Rightarrow> 'w sock_reactor \<Rightarrow> bool" where
  "registered v impl s \<longleftrightarrow> (\<exists>d. impl_data impl = Some d \<and> registration v s d (impl_socket impl))"

lemma register_view:
  assumes "fd_law os rxos v" "register_descriptor rxos fresh fd s = (r, data, s')"
  shows "same_fds v (sysw s) (sysw s')" "same_others v fd (sysw s) (sysw s')"
    "r = 0 \<Longrightarrow> \<exists>d. data = Some d \<and> registration v s' d fd"
proof -
  obtain s1 d where a: "allocate_descriptor_state fresh s = (s1, d)" by fastforce
  have w1: "world s1 = world s"
    using a by (auto simp: allocate_descriptor_state_def set_descr_def split: prod.splits if_splits)
  let ?s2 = "set_descr d (\<lambda>ds. ds\<lparr>ds_descriptor := fd, ds_shutdown := False,
    try_speculative := (\<lambda>_. True), registered_events := default_events\<rparr>) s1"
  obtain n s3 where c: "epoll_ctl rxos Ctl_add fd default_events (Descr_ptr d) ?s2 = (n, s3)" by fastforce
  note e = epoll_ctl_view [OF assms(1) c]
  have s': "data = Some d" "world s' = world s3"
    "s' = (if n = EPERM then set_descr d (\<lambda>ds. ds\<lparr>registered_events := 0\<rparr>) s3 else s3)" "r = (if n = EPERM then 0 else n)"
    using assms(2) by (auto simp: register_descriptor_def a Let_def c EPERM_def split: if_splits)
  show "same_fds v (sysw s) (sysw s')" "same_others v fd (sysw s) (sysw s')"
    using e(1,2) w1 s'(2) by simp_all
  have d3: "descr s3 d = (descr s1 d)\<lparr>ds_descriptor := fd, ds_shutdown := False,
    try_speculative := (\<lambda>_. True), registered_events := default_events\<rparr>"
    using e(5) by (simp add: set_descr_def)
  assume "r = 0"
  then have "registration v s' d fd"
    using e(3) [OF refl refl] e(4) [OF refl refl] d3 s'(2-4)
    by (auto simp: registration_def set_descr_def split: if_splits)
  then show "\<exists>d. data = Some d \<and> registration v s' d fd" using s'(1) by blast
qed

lemma abort_all_world: "abort_all js d s ops = (s', ops') \<Longrightarrow> world s' = world s"
  by (induction js arbitrary: s ops) (auto simp: set_queue_def set_descr_def)

lemma abort_all_descr:
  "abort_all js d s ops = (s', ops') \<Longrightarrow> ds_shutdown (descr s' e) = ds_shutdown (descr s e) \<and>
     ds_descriptor (descr s' e) = ds_descriptor (descr s e) \<and>
     registered_events (descr s' e) = registered_events (descr s e)"
proof (induction js arbitrary: s ops)
  case (Cons j js)
  then have "abort_all js d (set_queue d j [] s) (abort_loop (op_queue_of (descr s d) j) ops) = (s', ops')" by simp
  from Cons.IH [OF this] show ?case by (simp add: set_queue_def set_descr_def)
qed simp

lemma deregister_view:
  assumes "fd_law os rxos v" "deregister_descriptor rxos fd data closing s = (data', s')"
  shows "same_fds v (sysw s) (sysw s')"
proof (cases "\<exists>d. data = Some d \<and> \<not> ds_shutdown (descr s d)")
  case True
  then obtain d where d: "data = Some d" "\<not> ds_shutdown (descr s d)" by blast
  let ?s1 = "if closing then s else if registered_events (descr s d) \<noteq> 0
    then snd (epoll_ctl rxos Ctl_del fd 0 (Descr_ptr d) s) else s"
  have v1: "same_fds v (sysw s) (sysw ?s1)"
    using epoll_ctl_view(1) [OF assms(1), of Ctl_del fd 0 "Descr_ptr d" s "fst (epoll_ctl rxos Ctl_del fd 0 (Descr_ptr d) s)"
        "snd (epoll_ctl rxos Ctl_del fd 0 (Descr_ptr d) s)"] by simp
  obtain s2 ops where ab: "abort_all max_ops d ?s1 [] = (s2, ops)" by fastforce
  then have "s' = call (Post_deferred ops) (set_descr d (\<lambda>ds. ds\<lparr>ds_descriptor := -1, ds_shutdown := True\<rparr>) s2)"
    using assms(2) d by (simp add: deregister_descriptor_def Let_def)
  then show ?thesis using v1 abort_all_world [OF ab] by (simp add: call_def)
next
  case False
  then show ?thesis using assms(2) by (auto simp: deregister_descriptor_def split: option.splits)
qed

lemma cleanup_world: "cleanup_descriptor_data data s = (data', s') \<Longrightarrow> world s' = world s"
  by (auto simp: cleanup_descriptor_data_def free_descriptor_state_def split: option.splits)

lemma in_sys_eq: "in_sys f s = (s', a) \<longleftrightarrow>
    f (sysw s) = (sysw s', a) \<and> s' = s\<lparr>world := (world s)\<lparr>sys_world := sysw s'\<rparr>\<rparr>"
  by (auto simp: in_sys_def split: prod.splits)

section \<open>Flags\<close>

lemma flag_bits:
  "bit user_set_non_blocking n \<longleftrightarrow> n = 0" "bit internal_non_blocking n \<longleftrightarrow> n = 1"
  "bit enable_connection_aborted n \<longleftrightarrow> n = 2" "bit user_set_linger n \<longleftrightarrow> n = 3" "bit possible_dup n \<longleftrightarrow> n = 6"
proof -
  have p: "bit (push_bit m 1 :: sock_state) n \<longleftrightarrow> n = m" if "m < 8" for m
    using that by (simp only: bit_push_bit_iff bit_1_iff possible_bit_word) auto
  have e: "internal_non_blocking = push_bit 1 1" "enable_connection_aborted = push_bit 2 1"
    "user_set_linger = push_bit 3 1" "possible_dup = push_bit 6 1" "user_set_non_blocking = push_bit 0 1"
    by (simp_all add: internal_non_blocking_def enable_connection_aborted_def user_set_linger_def possible_dup_def
        user_set_non_blocking_def)
  show "bit user_set_non_blocking n \<longleftrightarrow> n = 0" "bit internal_non_blocking n \<longleftrightarrow> n = 1"
    "bit enable_connection_aborted n \<longleftrightarrow> n = 2" "bit user_set_linger n \<longleftrightarrow> n = 3" "bit possible_dup n \<longleftrightarrow> n = 6"
    unfolding e by (simp_all only: p)
qed

lemma has_flag_bits:
  "has_flag state user_set_non_blocking \<longleftrightarrow> bit state 0"
  "has_flag state possible_dup \<longleftrightarrow> bit state 6"
  "has_flag state non_blocking \<longleftrightarrow> bit state 0 \<or> bit state 1"
proof -
  have one: "state AND push_bit m 1 \<noteq> 0 \<longleftrightarrow> bit state m" for m
    by (simp add: bit_iff_and_push_bit_not_eq_0)
  have e: "internal_non_blocking = push_bit 1 1" "possible_dup = push_bit 6 1" "user_set_non_blocking = push_bit 0 1"
    by (simp_all add: internal_non_blocking_def possible_dup_def user_set_non_blocking_def)
  show "has_flag state user_set_non_blocking \<longleftrightarrow> bit state 0" "has_flag state possible_dup \<longleftrightarrow> bit state 6"
    unfolding has_flag_def e one by (rule refl)+
  have "state AND (a OR b) \<noteq> 0 \<longleftrightarrow> state AND a \<noteq> 0 \<or> state AND b \<noteq> 0" for a b :: sock_state
    by (simp add: bit.conj_disj_distrib) (metis or.left_neutral or_eq_0_iff)
  then show "has_flag state non_blocking \<longleftrightarrow> bit state 0 \<or> bit state 1"
    unfolding has_flag_def non_blocking_def e by (simp only: one)
qed

text \<open>
  What the flags say of the mode: a socket marked non-blocking is; one that is, is marked, unless the
  descriptor came from elsewhere.
\<close>

definition mode_ok :: "'w fd_view \<Rightarrow> 'w \<Rightarrow> int \<Rightarrow> sock_state \<Rightarrow> bool" where
  "mode_ok v w s state \<longleftrightarrow> (has_flag state non_blocking \<longrightarrow> nb_mode v w s) \<and>
     (\<not> has_flag state possible_dup \<longrightarrow> nb_mode v w s \<longrightarrow> has_flag state non_blocking)"

text \<open>A call of the mode functions: the descriptors stay, those of others keep their mode, the flags stay true.\<close>

definition mode_step :: "'w fd_view \<Rightarrow> int \<Rightarrow> sock_state \<Rightarrow> 'w \<Rightarrow> sock_state \<Rightarrow> 'w \<Rightarrow> bool" where
  "mode_step v s state w state' w' \<longleftrightarrow> open_fds v w' = open_fds v w \<and> same_others v s w w' \<and>
     watch_of v w' = watch_of v w \<and> (mode_ok v w s state \<longrightarrow> mode_ok v w' s state') \<and> (s = invalid_socket \<longrightarrow> w' = w \<and> state' = state)"

lemma mode_step_same: "same_view v w w' \<Longrightarrow> s \<noteq> invalid_socket \<or> w' = w \<Longrightarrow> mode_step v s state w state w'"
  by (auto simp: mode_step_def same_view_def same_fds_def same_others_def mode_ok_def)

lemmas mode_bits = mode_ok_def has_flag_bits flag_bits bit_or_iff bit_and_iff bit_not_iff set_flag_def clear_flag_def

lemma set_user_non_blocking_step:
  assumes law: "fd_law os rxos v" and c: "set_user_non_blocking os s state value w = (w', state', ok, ec)"
  shows "mode_step v s state w state' w'"
proof (cases "s = invalid_socket")
  case True
  then show ?thesis using c by (simp add: set_user_non_blocking_def mode_step_same)
next
  case False
  obtain w1 r where io: "sys_ioctl os s FIONBIO (if value then 1 else 0) w = (w1, r)" by fastforce
  note m = modeD [OF law io]
  show ?thesis
  proof (cases r)
    case (Inl e)
    then show ?thesis using c False io m(1-4) by (auto simp: set_user_non_blocking_def mode_step_def mode_ok_def)
  next
    case (Inr a)
    then have "nb_mode v w1 s = value" using m(6) by simp
    then show ?thesis using c False io m(1-3) Inr
      by (auto simp: set_user_non_blocking_def mode_step_def mode_bits)
  qed
qed

lemma set_internal_non_blocking_step:
  assumes law: "fd_law os rxos v" and c: "set_internal_non_blocking os s state value w = (w', state', ok, ec)"
  shows "mode_step v s state w state' w'"
    "ok \<Longrightarrow> value \<Longrightarrow> nb_mode v w' s \<and> has_flag state' non_blocking" "\<not> ok \<Longrightarrow> state' = state"
proof -
  have "mode_step v s state w state' w' \<and> (ok \<and> value \<longrightarrow> nb_mode v w' s \<and> has_flag state' non_blocking) \<and>
    (\<not> ok \<longrightarrow> state' = state)"
  proof (cases "s = invalid_socket \<or> (\<not> value \<and> has_flag state user_set_non_blocking)")
    case True
    then show ?thesis using c by (auto simp: set_internal_non_blocking_def mode_step_same split: if_splits)
  next
    case False
    obtain w1 r where io: "sys_ioctl os s FIONBIO (if value then 1 else 0) w = (w1, r)" by fastforce
    note m = modeD [OF law io]
    show ?thesis
    proof (cases r)
      case (Inl e)
      then have "w' = w1" "state' = state" "\<not> ok"
        using c False io by (simp_all add: set_internal_non_blocking_def split: if_splits)
      then show ?thesis using False m(1-3) m(4) [OF Inl] by (simp add: mode_step_def mode_ok_def)
    next
      case (Inr a)
      then have nb: "nb_mode v w1 s = value" using m(6) by simp
      have eq: "w' = w1" "ok" "state' = (if value then set_flag state internal_non_blocking
          else clear_flag state internal_non_blocking)"
        using c False io Inr by (simp_all add: set_internal_non_blocking_def split: if_splits)
      show ?thesis
      proof (cases "value")
        case True
        then show ?thesis using m(1-3) nb eq False by (simp add: mode_step_def mode_bits)
      next
        case v: False
        then have "\<not> bit state 0" using False by (simp add: has_flag_bits)
        then show ?thesis using m(1-3) nb eq False v by (simp add: mode_step_def mode_bits)
      qed
    qed
  qed
  then show "mode_step v s state w state' w'"
    "ok \<Longrightarrow> value \<Longrightarrow> nb_mode v w' s \<and> has_flag state' non_blocking" "\<not> ok \<Longrightarrow> state' = state" by blast+
qed

lemma so_ioctl_step:
  assumes law: "fd_law os rxos v" and c: "so_ioctl os s state cmd arg w = (w', state', r')"
  shows "mode_step v s state w state' w'"
proof (cases "s = invalid_socket")
  case True
  then show ?thesis using c by (simp add: so_ioctl_def mode_step_same)
next
  case False
  obtain w1 r where io: "sys_ioctl os s cmd arg w = (w1, r)" by fastforce
  note m = modeD [OF law io]
  show ?thesis
  proof (cases r)
    case (Inl e)
    then show ?thesis using c False io m(1-4) by (auto simp: so_ioctl_def mode_step_def mode_ok_def)
  next
    case (Inr a)
    show ?thesis
    proof (cases "cmd = FIONBIO")
      case True
      then have "nb_mode v w1 s = (a \<noteq> 0)" using m(6) [OF Inr] by simp
      then show ?thesis using c False io m(1-3) Inr True by (auto simp: so_ioctl_def mode_step_def mode_bits)
    next
      case other: False
      then show ?thesis using c False io m(1-3) m(7) [OF Inr] Inr by (auto simp: so_ioctl_def mode_step_def mode_ok_def)
    qed
  qed
qed

lemma so_setsockopt_step:
  assumes law: "fd_law os rxos v" and c: "so_setsockopt os s state level optname optval optlen w = (w', state', ec)"
  shows "mode_step v s state w state' w'"
proof (cases "s = invalid_socket")
  case True
  then show ?thesis using c by (simp add: so_setsockopt_def mode_step_same)
next
  case False
  have v: "same_view v w w'" by (rule setsockopt_view [OF law c])
  have "state' = state \<or> state' = set_flag state enable_connection_aborted \<or>
      state' = clear_flag state enable_connection_aborted \<or> state' = set_flag state user_set_linger"
    using c by (simp add: so_setsockopt_def Let_def split: if_splits prod.splits)
  then have "mode_ok v w s state \<longleftrightarrow> mode_ok v w s state'" by (elim disjE) (simp_all add: mode_bits)
  then show ?thesis using v False by (simp add: mode_step_def same_view_def same_fds_def same_others_def mode_ok_def)
qed

section \<open>Sessions\<close>

text \<open>
  A socket implementation with its service, and the other descriptors that the process has open.
\<close>

record 'w sock_session =
  ses_impl :: sock_impl
  ses_rx :: "'w sock_reactor"
  ses_others :: "int set"

definition own :: "sock_impl \<Rightarrow> int set" where
  "own impl = (if impl_is_open impl then {impl_socket impl} else {})"

text \<open>
  The steps: every operation that opens, takes over, closes, moves or gives up the descriptor or sets its
  modes, and whatever the rest of the process does to its own descriptors (\<open>elsewhere\<close>), such as
  the reactor performing operations, as long as the reactor is not shut down: the descriptor of the socket stays
  open, in its mode and watched, and its descriptor state stays its own, with a registration that remains for
  events or remains without. A destroyed implementation is constructed anew.
\<close>

definition kept_elsewhere :: "'w fd_view \<Rightarrow> sock_impl \<Rightarrow> 'w sock_reactor \<Rightarrow> 'w sock_reactor \<Rightarrow> bool" where
  "kept_elsewhere v impl s s' \<longleftrightarrow> (impl_is_open impl \<longrightarrow>
     nb_mode v (sysw s') (impl_socket impl) = nb_mode v (sysw s) (impl_socket impl) \<and>
     watch_of v (sysw s') (impl_socket impl) = watch_of v (sysw s) (impl_socket impl) \<and>
     (\<forall>d. impl_data impl = Some d \<longrightarrow> ds_shutdown (descr s' d) = ds_shutdown (descr s d) \<and>
        ds_descriptor (descr s' d) = ds_descriptor (descr s d) \<and>
        (registered_events (descr s' d) = 0) = (registered_events (descr s d) = 0)))"

inductive sock_step :: "'w sock_os \<Rightarrow> 'w sock_world os \<Rightarrow> 'w fd_view \<Rightarrow> 'w sock_session \<Rightarrow> 'w sock_session \<Rightarrow> bool"
  for os rxos v where
  step_open: "do_open os rxos fresh (ses_impl st) af type protocol (ses_rx st) = (impl', s', ec) \<Longrightarrow>
    sock_step os rxos v st (st\<lparr>ses_impl := impl', ses_rx := s'\<rparr>)"
| step_assign: "n \<in> ses_others st \<Longrightarrow> n \<noteq> invalid_socket \<Longrightarrow>
    do_assign rxos fresh (ses_impl st) type n (ses_rx st) = (impl', s', ec) \<Longrightarrow>
    sock_step os rxos v st (st\<lparr>ses_impl := impl', ses_rx := s',
      ses_others := (if ec = Ok_code then ses_others st - {n} else ses_others st)\<rparr>)"
| step_close: "impl_close os rxos (ses_impl st) (ses_rx st) = (impl', s', ec) \<Longrightarrow>
    sock_step os rxos v st (st\<lparr>ses_impl := impl', ses_rx := s'\<rparr>)"
| step_destroy: "impl_destroy os rxos (ses_impl st) (ses_rx st) = (impl', s') \<Longrightarrow>
    sock_step os rxos v st (st\<lparr>ses_impl := impl_construct impl', ses_rx := s'\<rparr>)"
| step_release: "impl_release rxos (ses_impl st) (ses_rx st) = (impl', s', n, ec) \<Longrightarrow>
    sock_step os rxos v st (st\<lparr>ses_impl := impl', ses_rx := s',
      ses_others := (if ec = Ok_code then insert n (ses_others st) else ses_others st)\<rparr>)"
| step_cancel: "impl_cancel (ses_impl st) (ses_rx st) = (s', ec) \<Longrightarrow> sock_step os rxos v st (st\<lparr>ses_rx := s'\<rparr>)"
| step_non_blocking: "impl_set_non_blocking os (ses_impl st) mode (ses_rx st) = (impl', s', ec) \<Longrightarrow>
    sock_step os rxos v st (st\<lparr>ses_impl := impl', ses_rx := s'\<rparr>)"
| step_native_non_blocking: "impl_set_native_non_blocking os (ses_impl st) mode (ses_rx st) = (impl', s', ec) \<Longrightarrow>
    sock_step os rxos v st (st\<lparr>ses_impl := impl', ses_rx := s'\<rparr>)"
| step_io_control: "impl_io_control os (ses_impl st) cmd arg (ses_rx st) = (impl', s', r) \<Longrightarrow>
    sock_step os rxos v st (st\<lparr>ses_impl := impl', ses_rx := s'\<rparr>)"
| step_set_option: "impl_set_option os (ses_impl st) level optname optval optlen (ses_rx st) = (impl', s', ec) \<Longrightarrow>
    sock_step os rxos v st (st\<lparr>ses_impl := impl', ses_rx := s'\<rparr>)"
| step_move: "base_move_construct new (ses_impl st) = (impl', other') \<Longrightarrow>
    sock_step os rxos v st (st\<lparr>ses_impl := impl'\<rparr>)"
| step_elsewhere: "open_fds v (sysw s') = others' \<union> own (ses_impl st) \<Longrightarrow> others' \<inter> own (ses_impl st) = {} \<Longrightarrow>
    kept_elsewhere v (ses_impl st) (ses_rx st) s' \<Longrightarrow>
    sock_step os rxos v st (st\<lparr>ses_rx := s', ses_others := others'\<rparr>)"

inductive sock_reach :: "'w sock_os \<Rightarrow> 'w sock_world os \<Rightarrow> 'w fd_view \<Rightarrow> 'w sock_session \<Rightarrow> bool"
  for os rxos v where
  start: "impl_socket impl = invalid_socket \<Longrightarrow> impl_state impl = 0 \<Longrightarrow> open_fds v (sysw s) = others \<Longrightarrow>
    sock_reach os rxos v \<lparr>ses_impl = impl, ses_rx = s, ses_others = others\<rparr>"
| step: "sock_reach os rxos v st \<Longrightarrow> sock_step os rxos v st st' \<Longrightarrow> sock_reach os rxos v st'"

definition impl_ok :: "'w fd_view \<Rightarrow> sock_impl \<Rightarrow> 'w sock_reactor \<Rightarrow> int set \<Rightarrow> bool" where
  "impl_ok v impl s others \<longleftrightarrow> open_fds v (sysw s) = others \<union> own impl \<and> others \<inter> own impl = {} \<and>
     (if impl_is_open impl then registered v impl s \<and> mode_ok v (sysw s) (impl_socket impl) (impl_state impl)
      else impl_state impl = 0)"

lemma own_simps [simp]: "impl_is_open impl \<Longrightarrow> own impl = {impl_socket impl}" "\<not> impl_is_open impl \<Longrightarrow> own impl = {}"
  by (simp_all add: own_def)

lemma construct_closed [simp]: "\<not> impl_is_open (impl_construct impl)" "impl_state (impl_construct impl) = 0"
  by (simp_all add: impl_construct_def impl_is_open_def)

lemma registration_view:
  "registration v s d fd \<Longrightarrow> watch_of v (sysw s') fd = watch_of v (sysw s) fd \<Longrightarrow>
   ds_shutdown (descr s' d) = ds_shutdown (descr s d) \<Longrightarrow> ds_descriptor (descr s' d) = ds_descriptor (descr s d) \<Longrightarrow>
   (registered_events (descr s' d) = 0) = (registered_events (descr s d) = 0) \<Longrightarrow> registration v s' d fd"
  by (simp add: registration_def)

lemma impl_ok_view:
  "impl_ok v impl s others \<Longrightarrow> same_view v (sysw s) (sysw s') \<Longrightarrow> descr s' = descr s \<Longrightarrow> impl_ok v impl s' others"
  by (cases "impl_is_open impl")
     (simp_all add: impl_ok_def same_view_def same_fds_def mode_ok_def registered_def registration_def)

lemma impl_ok_closed:
  "\<not> impl_is_open impl \<Longrightarrow> impl_ok v impl s others \<longleftrightarrow> open_fds v (sysw s) = others \<and> impl_state impl = 0"
  by (simp add: impl_ok_def own_def)

text \<open>Closing and destroying.\<close>

lemma shut_down:
  assumes law: "fd_law os rxos v" and ok: "impl_ok v impl s others" and open_impl: "impl_is_open impl"
    and d: "deregister_descriptor rxos (impl_socket impl) (impl_data impl) closing s = (data1, s1)"
    and c: "in_sys (so_close os (impl_socket impl) (impl_state impl) destruction Ok_code) s1 = (s2, state2, ec)"
    and u: "cleanup_descriptor_data data1 s2 = (data3, s3)"
  shows "impl_ok v (impl_construct impl') s3 others"
proof -
  have v1: "same_fds v (sysw s) (sysw s1)" by (rule deregister_view [OF law d])
  have s: "impl_socket impl \<noteq> invalid_socket" "impl_socket impl \<in> open_fds v (sysw s1)"
    using open_impl ok v1 by (auto simp: impl_is_open_def impl_ok_def same_fds_def own_def)
  have "so_close os (impl_socket impl) (impl_state impl) destruction Ok_code (sysw s1) = (sysw s2, state2, ec)"
    using c by (simp add: in_sys_eq)
  then have "open_fds v (sysw s2) = open_fds v (sysw s1) - {impl_socket impl}" by (rule so_close_frees(1) [OF law s])
  then show ?thesis
    using ok open_impl v1 cleanup_world [OF u] by (auto simp: impl_ok_def same_fds_def)
qed

lemma impl_close_ok:
  assumes law: "fd_law os rxos v" and ok: "impl_ok v impl s others"
    and c: "impl_close os rxos impl s = (impl', s', ec)"
  shows "impl_ok v impl' s' others"
proof (cases "impl_is_open impl")
  case True
  obtain data1 s1 s2 state2 ec2 data3 s3 where
    p: "deregister_descriptor rxos (impl_socket impl) (impl_data impl) (\<not> has_flag (impl_state impl) possible_dup) s = (data1, s1)"
      "in_sys (so_close os (impl_socket impl) (impl_state impl) False Ok_code) s1 = (s2, state2, ec2)"
      "cleanup_descriptor_data data1 s2 = (data3, s3)"
    by (metis prod_cases3 surj_pair)
  show ?thesis using shut_down [OF law ok True p] c True p by (auto simp: impl_close_def)
next
  case False
  then show ?thesis using ok c by (auto simp: impl_close_def impl_ok_def)
qed

lemma impl_destroy_ok:
  assumes law: "fd_law os rxos v" and ok: "impl_ok v impl s others"
    and c: "impl_destroy os rxos impl s = (impl', s')"
  shows "impl_ok v (impl_construct impl') s' others"
proof (cases "impl_is_open impl")
  case True
  obtain data1 s1 s2 state2 ec2 data3 s3 where
    p: "deregister_descriptor rxos (impl_socket impl) (impl_data impl) (\<not> has_flag (impl_state impl) possible_dup) s = (data1, s1)"
      "in_sys (so_close os (impl_socket impl) (impl_state impl) True Ok_code) s1 = (s2, state2, ec2)"
      "cleanup_descriptor_data data1 s2 = (data3, s3)"
    by (metis prod_cases3 surj_pair)
  show ?thesis using shut_down [OF law ok True p] c True p by (auto simp: impl_destroy_def impl_is_open_def)
next
  case False
  then have "impl' = impl" "s' = s" using c by (simp_all add: impl_destroy_def impl_is_open_def)
  then show ?thesis using ok False by (simp add: impl_ok_closed)
qed

lemma impl_release_ok:
  assumes law: "fd_law os rxos v" and ok: "impl_ok v impl s others"
    and c: "impl_release rxos impl s = (impl', s', n, ec)"
  shows "impl_ok v impl' s' (if ec = Ok_code then insert n others else others)"
proof (cases "impl_is_open impl")
  case True
  obtain data1 s1 data2 s2 where
    p: "deregister_descriptor rxos (impl_socket impl) (impl_data impl) False s = (data1, s1)"
      "cleanup_descriptor_data data1 s1 = (data2, s2)"
    by (metis surj_pair)
  have "same_fds v (sysw s) (sysw s2)" using deregister_view [OF law p(1)] cleanup_world [OF p(2)] by simp
  moreover have "impl' = impl_construct (impl\<lparr>impl_data := data2\<rparr>)" "s' = s2" "n = impl_socket impl" "ec = Ok_code"
    using c True p by (simp_all add: impl_release_def)
  ultimately show ?thesis using True ok by (simp add: impl_ok_def same_fds_def)
next
  case False
  then show ?thesis using ok c by (auto simp: impl_release_def)
qed

lemma base_move_ok:
  assumes "impl_ok v impl s others" "base_move_construct new impl = (impl', other')"
  shows "impl_ok v impl' s others" "\<not> impl_is_open other'"
  using assms by (auto simp: base_move_construct_def move_descriptor_def impl_ok_def own_def impl_is_open_def registered_def)

text \<open>Opening and assigning.\<close>

lemma holder_reset_frees:
  assumes law: "fd_law os rxos v" and s: "h \<noteq> invalid_socket" "h \<in> open_fds v (sysw s)"
    and c: "in_sys (holder_reset os h) s = (s', h')"
  shows "open_fds v (sysw s') = open_fds v (sysw s) - {h}" "same_others v h (sysw s) (sysw s')"
proof -
  obtain w1 state1 ec where w1: "so_close os h 0 True Ok_code (sysw s) = (w1, state1, ec)" by (metis prod_cases3)
  then have "sysw s' = w1" using c s(1) by (simp add: in_sys_eq holder_reset_def)
  then show "open_fds v (sysw s') = open_fds v (sysw s) - {h}" "same_others v h (sysw s) (sysw s')"
    using so_close_frees [OF law s w1] by simp_all
qed

lemma state_of_type_flags: "\<not> has_flag (state_of_type type) non_blocking" "\<not> has_flag (state_of_type type) possible_dup"
  "\<not> has_flag (state_of_type type OR possible_dup) non_blocking" "has_flag (state_of_type type OR possible_dup) possible_dup"
  by (auto simp: state_of_type_def has_flag_def stream_oriented_def datagram_oriented_def non_blocking_def
      user_set_non_blocking_def internal_non_blocking_def possible_dup_def)

lemma do_open_ok:
  assumes law: "fd_law os rxos v" and ok: "impl_ok v impl s others"
    and c: "do_open os rxos fresh impl af type protocol s = (impl', s', ec)"
  shows "impl_ok v impl' s' others"
proof (cases "impl_is_open impl")
  case True
  then show ?thesis using c ok by (simp add: do_open_def)
next
  case False
  have o0: "open_fds v (sysw s) = others" using ok False by (simp add: impl_ok_def)
  obtain w1 r where so: "sys_socket os af type protocol (sysw s) = (w1, r)" by fastforce
  let ?s1 = "s\<lparr>world := (world s)\<lparr>sys_world := w1\<rparr>\<rparr>"
  have law1: "case r of
        Inl e \<Rightarrow> e \<noteq> Ok_code \<and> same_view v (sysw s) w1
      | Inr n \<Rightarrow> n \<noteq> invalid_socket \<and> n \<notin> open_fds v (sysw s) \<and> open_fds v w1 = insert n (open_fds v (sysw s)) \<and>
          \<not> nb_mode v w1 n \<and> same_others v n (sysw s) w1"
    using fd_lawD(1) [OF law] so unfolding socket_law_def by blast
  show ?thesis
  proof (cases r)
    case (Inl e)
    then have "impl' = impl" "s' = ?s1"
      using c False so by (auto simp: do_open_def in_sys_def so_socket_def)
    then show ?thesis using impl_ok_view [OF ok, of ?s1] law1 Inl by simp
  next
    case (Inr n)
    obtain err data s2 where reg: "register_descriptor rxos fresh n ?s1 = (err, data, s2)" by (metis prod_cases3)
    have v2: "same_fds v w1 (sysw s2)" using register_view(1) [OF law reg] by simp
    have n: "n \<noteq> invalid_socket" "n \<notin> others" "open_fds v (sysw s2) = insert n others" "\<not> nb_mode v (sysw s2) n"
      using law1 Inr v2 o0 by (simp_all add: same_fds_def)
    obtain s3 h3 where h: "in_sys (holder_reset os n) s2 = (s3, h3)" by fastforce
    show ?thesis
    proof (cases "err = 0")
      case True
      then have "impl' = impl\<lparr>impl_socket := n, impl_state := state_of_type type, impl_data := data\<rparr>" "s' = s2"
        using c False so Inr reg n(1) by (auto simp: do_open_def in_sys_def so_socket_def holder_release_def)
      then show ?thesis using n register_view(3) [OF law reg True] state_of_type_flags
        by (simp add: impl_ok_def own_def impl_is_open_def mode_ok_def registered_def)
    next
      case err: False
      then have "impl' = impl\<lparr>impl_data := data\<rparr>" "s' = s3"
        using c False so Inr reg n(1) h by (auto simp: do_open_def in_sys_def [of "so_socket os af type protocol"] so_socket_def)
      moreover have "open_fds v (sysw s3) = others"
        using holder_reset_frees(1) [OF law n(1) _ h] n(2,3) by simp
      ultimately show ?thesis using ok False by (simp add: impl_ok_def own_def impl_is_open_def)
    qed
  qed
qed

lemma do_assign_ok:
  assumes law: "fd_law os rxos v" and ok: "impl_ok v impl s others" and n: "n \<in> others" "n \<noteq> invalid_socket"
    and c: "do_assign rxos fresh impl type n s = (impl', s', ec)"
  shows "impl_ok v impl' s' (if ec = Ok_code then others - {n} else others)" "ec = Ok_code \<Longrightarrow> impl_socket impl' = n"
    "same_fds v (sysw s) (sysw s')" "ec \<noteq> Ok_code \<Longrightarrow> impl_socket impl' = impl_socket impl"
    "register_descriptor rxos fresh n s = (r, data, s1) \<Longrightarrow>
      ec = (if impl_is_open impl then Already_open else if r = 0 then Ok_code else Sys_error r)"
proof -
  show "register_descriptor rxos fresh n s = (r, data, s1) \<Longrightarrow>
      ec = (if impl_is_open impl then Already_open else if r = 0 then Ok_code else Sys_error r)"
    using c by (auto simp: do_assign_def)
  have "impl_ok v impl' s' (if ec = Ok_code then others - {n} else others) \<and> (ec = Ok_code \<longrightarrow> impl_socket impl' = n) \<and>
    same_fds v (sysw s) (sysw s') \<and> (ec \<noteq> Ok_code \<longrightarrow> impl_socket impl' = impl_socket impl)"
  proof (cases "impl_is_open impl")
    case True
    then show ?thesis using c ok by (auto simp: do_assign_def)
  next
    case False
    obtain err data s1 where reg: "register_descriptor rxos fresh n s = (err, data, s1)" by (metis prod_cases3)
    have v1: "same_fds v (sysw s) (sysw s1)" using register_view(1) [OF law reg] by simp
    then have o1: "open_fds v (sysw s1) = others" using ok False by (simp add: impl_ok_def same_fds_def)
    show ?thesis
    proof (cases "err = 0")
      case True
      then have "impl' = impl\<lparr>impl_socket := n, impl_state := state_of_type type OR possible_dup, impl_data := data\<rparr>"
        "s' = s1" "ec = Ok_code"
        using c False reg by (auto simp: do_assign_def)
      then show ?thesis using n o1 v1 register_view(3) [OF law reg True] state_of_type_flags
        by (auto simp: impl_ok_def own_def impl_is_open_def mode_ok_def registered_def)
    next
      case err: False
      then have "impl' = impl\<lparr>impl_data := data\<rparr>" "s' = s1" "ec = Sys_error err"
        using c False reg by (auto simp: do_assign_def)
      then show ?thesis using ok False o1 v1 by (simp add: impl_ok_def own_def impl_is_open_def)
    qed
  qed
  then show "impl_ok v impl' s' (if ec = Ok_code then others - {n} else others)" "ec = Ok_code \<Longrightarrow> impl_socket impl' = n"
    "same_fds v (sysw s) (sysw s')" "ec \<noteq> Ok_code \<Longrightarrow> impl_socket impl' = impl_socket impl" by blast+
qed

lemma impl_cancel_ok:
  assumes ok: "impl_ok v impl s others" and c: "impl_cancel impl s = (s', ec)"
  shows "impl_ok v impl s' others"
proof (cases "impl_is_open impl")
  case True
  then obtain d where d: "impl_data impl = Some d" "registration v s d (impl_socket impl)"
    using ok by (auto simp: impl_ok_def registered_def)
  obtain s1 ops where a: "abort_all max_ops d s [] = (s1, ops)" by fastforce
  have s': "s' = call (Post_deferred ops) s1" using c True d(1) a by (simp add: impl_cancel_def cancel_ops_def)
  have "registration v s' d (impl_socket impl)"
    using registration_view [OF d(2), of s'] abort_all_world [OF a] abort_all_descr [OF a] by (simp add: s' call_def)
  then show ?thesis
    using ok True d(1) abort_all_world [OF a] by (simp add: impl_ok_def registered_def s' call_def)
next
  case False
  then show ?thesis using ok c by (simp add: impl_cancel_def)
qed

text \<open>Modes and options.\<close>

lemma mode_step_ok:
  assumes ok: "impl_ok v impl s others"
    and m: "mode_step v (impl_socket impl) (impl_state impl) (sysw s) state' (sysw s')" and d: "descr s' = descr s"
  shows "impl_ok v (impl\<lparr>impl_state := state'\<rparr>) s' others"
  using assms
  by (auto simp: impl_ok_def own_def impl_is_open_def mode_step_def registered_def registration_def split: if_splits)

lemma in_sys_descr: "in_sys f s = (s', a) \<Longrightarrow> descr s' = descr s"
  by (auto simp: in_sys_def split: prod.splits)

lemma sock_step_ok:
  assumes law: "fd_law os rxos v" and st: "sock_step os rxos v st st'"
    and ok: "impl_ok v (ses_impl st) (ses_rx st) (ses_others st)"
  shows "impl_ok v (ses_impl st') (ses_rx st') (ses_others st')"
  using st
proof cases
  case (step_open fresh af type protocol impl' s' ec)
  then show ?thesis using do_open_ok [OF law ok] by simp
next
  case (step_assign n fresh type impl' s' ec)
  then show ?thesis using do_assign_ok(1) [OF law ok step_assign(2,3,4)] by simp
next
  case (step_close impl' s' ec)
  then show ?thesis using impl_close_ok [OF law ok] by simp
next
  case (step_destroy impl' s')
  then show ?thesis using impl_destroy_ok [OF law ok] by simp
next
  case (step_release impl' s' n ec)
  then show ?thesis using impl_release_ok [OF law ok] by simp
next
  case (step_cancel s' ec)
  then show ?thesis using impl_cancel_ok [OF ok] by simp
next
  case (step_non_blocking mode impl' s' ec)
  then obtain state' b where *: "set_user_non_blocking os (impl_socket (ses_impl st)) (impl_state (ses_impl st)) mode
      (sysw (ses_rx st)) = (sysw s', state', b, ec)" "impl' = (ses_impl st)\<lparr>impl_state := state'\<rparr>" "descr s' = descr (ses_rx st)"
    by (auto simp: impl_set_non_blocking_def in_sys_def split: prod.splits)
  show ?thesis using mode_step_ok [OF ok set_user_non_blocking_step [OF law *(1)] *(3)] step_non_blocking(1) *(2) by simp
next
  case (step_native_non_blocking mode impl' s' ec)
  then obtain state' b where *: "set_internal_non_blocking os (impl_socket (ses_impl st)) (impl_state (ses_impl st)) mode
      (sysw (ses_rx st)) = (sysw s', state', b, ec)" "impl' = (ses_impl st)\<lparr>impl_state := state'\<rparr>" "descr s' = descr (ses_rx st)"
    by (auto simp: impl_set_native_non_blocking_def in_sys_def split: prod.splits)
  show ?thesis
    using mode_step_ok [OF ok set_internal_non_blocking_step(1) [OF law *(1)] *(3)] step_native_non_blocking(1) *(2) by simp
next
  case (step_io_control cmd arg impl' s' r)
  then obtain state' where *: "so_ioctl os (impl_socket (ses_impl st)) (impl_state (ses_impl st)) cmd arg
      (sysw (ses_rx st)) = (sysw s', state', r)" "impl' = (ses_impl st)\<lparr>impl_state := state'\<rparr>" "descr s' = descr (ses_rx st)"
    by (auto simp: impl_io_control_def in_sys_def split: prod.splits)
  show ?thesis using mode_step_ok [OF ok so_ioctl_step [OF law *(1)] *(3)] step_io_control(1) *(2) by simp
next
  case (step_set_option level optname optval optlen impl' s' ec)
  then obtain state' where *: "so_setsockopt os (impl_socket (ses_impl st)) (impl_state (ses_impl st)) level optname
      optval optlen (sysw (ses_rx st)) = (sysw s', state', ec)" "impl' = (ses_impl st)\<lparr>impl_state := state'\<rparr>" "descr s' = descr (ses_rx st)"
    by (auto simp: impl_set_option_def in_sys_def split: prod.splits)
  show ?thesis using mode_step_ok [OF ok so_setsockopt_step [OF law *(1)] *(3)] step_set_option(1) *(2) by simp
next
  case (step_move new impl' other')
  then show ?thesis using base_move_ok(1) [OF ok] by simp
next
  case (step_elsewhere s' others')
  show ?thesis
  proof (cases "impl_is_open (ses_impl st)")
    case True
    then obtain d where d: "impl_data (ses_impl st) = Some d"
      "registration v (ses_rx st) d (impl_socket (ses_impl st))"
      using ok by (auto simp: impl_ok_def registered_def)
    have "registration v s' d (impl_socket (ses_impl st))"
      using registration_view [OF d(2)] step_elsewhere(4) True d(1) by (simp add: kept_elsewhere_def)
    then show ?thesis
      using ok True d(1) step_elsewhere by (simp add: impl_ok_def registered_def kept_elsewhere_def mode_ok_def)
  next
    case False
    then show ?thesis using ok step_elsewhere by (simp add: impl_ok_closed)
  qed
qed

lemma sock_reach_ok:
  assumes "fd_law os rxos v" "sock_reach os rxos v st"
  shows "impl_ok v (ses_impl st) (ses_rx st) (ses_others st)"
  using assms(2)
proof induction
  case (start impl s others)
  then have "\<not> impl_is_open impl" by (simp add: impl_is_open_def)
  then show ?case using start by (simp add: impl_ok_def)
next
  case (step st st')
  then show ?case using sock_step_ok [OF assms(1)] by blast
qed

text \<open>C6: the descriptor of a socket, in any session of opening, assigning, closing, destroying,
  releasing, moving and setting modes and options, also when the calls fail: apart from the
  descriptors of the rest of the process exactly the one of the implementation is open, none when it is
  closed, so that no descriptor is leaked, closed twice or closed for others; an open socket is registered with the
  reactor, by a descriptor state that is not shut down and for which the epoll descriptor watches the socket, unless
  it cannot be watched and the state says so, while a socket that could not be registered, whatever the
  error, is not open; and its flags are right about the mode: one marked non-blocking is, and
  one that is but was not taken over from outside is marked. A closed socket has no flags. The rest of the process
  keeps off the descriptor and its registration, and does not shut the reactor down while the session lasts.\<close>

theorem socket_lifecycle:
  assumes "fd_law os rxos v" "sock_reach os rxos v st"
  shows "open_fds v (sysw (ses_rx st)) = ses_others st \<union> own (ses_impl st) \<and>
    ses_others st \<inter> own (ses_impl st) = {} \<and>
    (if impl_is_open (ses_impl st) then registered v (ses_impl st) (ses_rx st) \<and>
       mode_ok v (sysw (ses_rx st)) (impl_socket (ses_impl st)) (impl_state (ses_impl st))
     else impl_state (ses_impl st) = 0)"
  using sock_reach_ok [OF assms] by (simp add: impl_ok_def)

text \<open>A process with three descriptors opens a socket, and a receive has made it non-blocking.\<close>

record fd_world =
  fdw_open :: "int set"
  fdw_nb :: "int \<Rightarrow> bool"
  fdw_watch :: "int \<Rightarrow> watch"

definition fd_demo_view :: "fd_world fd_view" where
  "fd_demo_view = \<lparr>open_fds = fdw_open, nb_mode = fdw_nb, watch_of = fdw_watch\<rparr>"

definition fd_demo_os :: "fd_world sock_os" where
  "fd_demo_os = \<lparr>
     sys_socket = (\<lambda>af type protocol w. if 9 \<in> fdw_open w then (w, Inl (Sys_error 24))
       else (w\<lparr>fdw_open := insert 9 (fdw_open w), fdw_nb := (fdw_nb w)(9 := False)\<rparr>, Inr 9)),
     sys_accept = (\<lambda>s w. (w, Inl Would_block)),
     sys_connect = (\<lambda>s w. (w, Inl In_progress)),
     sys_recv = (\<lambda>s bufs flags w. (w, Inl Would_block)),
     sys_recvfrom = (\<lambda>s bufs flags w. (w, Inl Would_block)),
     sys_recvmsg = (\<lambda>s bufs flags w. (w, Inl Would_block)),
     sys_send = (\<lambda>s data flags w. (w, Inl Would_block)),
     sys_sendto = (\<lambda>s data flags addr w. (w, Inl Would_block)),
     sys_poll = (\<lambda>s ev msec w. (w, Inr 0)),
     sys_ioctl = (\<lambda>s cmd arg w. if cmd = FIONBIO then (w\<lparr>fdw_nb := (fdw_nb w)(s := arg \<noteq> 0)\<rparr>, Inr arg) else (w, Inr 0)),
     sys_close = (\<lambda>s w. if fdw_nb w s then (w, Inl Would_block) else (w\<lparr>fdw_open := fdw_open w - {s}\<rparr>, Inr ())),
     sys_setsockopt = (\<lambda>s level optname optval optlen w. (w, Inr ())),
     sys_getsockopt = (\<lambda>s level optname optlen w. (w, Inr (0, optlen))),
     error_of_value = Sys_error\<rparr>"

definition fd_demo_rxos :: "fd_world sock_world os" where
  "fd_demo_rxos = \<lparr>
     os_perform = (\<lambda>d j op W. (Not_done, op, W)),
     os_epoll_ctl = (\<lambda>c fd ev p W.
       if fd \<notin> fdw_open (sys_world W) then (9, W)
       else (0, W\<lparr>sys_world := (sys_world W)\<lparr>fdw_watch := (fdw_watch (sys_world W))(fd :=
         (case (c, p) of (Ctl_del, _) \<Rightarrow> Unwatched | (_, Descr_ptr d) \<Rightarrow> Watched d | _ \<Rightarrow> Unwatched))\<rparr>\<rparr>)),
     os_epoll_wait = (\<lambda>timeout W. ([], W)),
     os_timerfd_settime = (\<lambda>abstime sec nsec W. W),
     os_interrupt = (\<lambda>W. W),
     os_now = (\<lambda>W. 0)\<rparr>"

lemma fd_demo_law: "fd_law fd_demo_os fd_demo_rxos fd_demo_view"
proof -
  have "socket_law fd_demo_os fd_demo_view"
    by (auto simp: socket_law_def fd_demo_os_def fd_demo_view_def same_others_def invalid_socket_def)
  moreover have "close_law fd_demo_os fd_demo_view"
    by (auto simp: close_law_def fd_demo_os_def fd_demo_view_def same_others_def same_view_def same_fds_def blocked_def)
  moreover have "mode_law fd_demo_os fd_demo_view"
    by (auto simp: mode_law_def fd_demo_os_def fd_demo_view_def same_others_def)
  moreover have "watch_law fd_demo_rxos fd_demo_view"
    by (auto simp: watch_law_def fd_demo_rxos_def fd_demo_view_def same_others_def same_fds_def EPERM_def)
  ultimately show ?thesis
    by (auto simp: fd_law_def fd_demo_os_def same_view_def same_fds_def)
qed

definition fd_demo_start :: "fd_world sock_session" where
  "fd_demo_start = \<lparr>ses_impl = \<lparr>impl_socket = invalid_socket, impl_state = 0, impl_data = None\<rparr>,
     ses_rx = reactor_new fd_demo_rxos
       \<lparr>sys_world = \<lparr>fdw_open = {0, 1, 2}, fdw_nb = (\<lambda>_. False), fdw_watch = (\<lambda>_. Unwatched)\<rparr>,
        results = (\<lambda>_. \<lparr>res_data = [], res_addr = [], res_flags = 0, res_socket = invalid_socket\<rparr>),
        passed = (\<lambda>_ _. False)\<rparr>
       (tq_set_new (\<lambda>_. new_timer_queue)) 4 3,
     ses_others = {0, 1, 2}\<rparr>"

definition fd_demo_opened :: "fd_world sock_session" where
  "fd_demo_opened = (let (impl, s, ec) = do_open fd_demo_os fd_demo_rxos 0 (ses_impl fd_demo_start) 2 SOCK_STREAM 6 (ses_rx fd_demo_start)
     in fd_demo_start\<lparr>ses_impl := impl, ses_rx := s\<rparr>)"

definition fd_demo_native :: "fd_world sock_session" where
  "fd_demo_native = (let (impl, s, ec) = impl_set_native_non_blocking fd_demo_os (ses_impl fd_demo_opened) True (ses_rx fd_demo_opened)
     in fd_demo_opened\<lparr>ses_impl := impl, ses_rx := s\<rparr>)"

lemma fd_demo_reach: "sock_reach fd_demo_os fd_demo_rxos fd_demo_view fd_demo_native"
proof -
  have 1: "sock_reach fd_demo_os fd_demo_rxos fd_demo_view fd_demo_start"
    unfolding fd_demo_start_def
    by (rule sock_reach.start) (simp_all add: fd_demo_view_def reactor_new_def register_own_def epoll_ctl_def fd_demo_rxos_def Let_def)
  have "sock_step fd_demo_os fd_demo_rxos fd_demo_view fd_demo_start fd_demo_opened"
    unfolding fd_demo_opened_def by (auto split: prod.splits intro: step_open)
  moreover have "sock_step fd_demo_os fd_demo_rxos fd_demo_view fd_demo_opened fd_demo_native"
    unfolding fd_demo_native_def by (auto split: prod.splits intro: step_native_non_blocking)
  ultimately show ?thesis using 1 sock_reach.step by blast
qed

lemma fd_demo_facts: "impl_socket (ses_impl fd_demo_native) = 9" "ses_others fd_demo_native = {0, 1, 2}"
  by (simp_all add: fd_demo_native_def fd_demo_opened_def fd_demo_start_def do_open_def impl_is_open_def in_sys_def
      so_socket_def fd_demo_os_def reactor_new_def register_own_def epoll_ctl_def fd_demo_rxos_def invalid_socket_def
      register_descriptor_def allocate_descriptor_state_def pool_new_def pool_defs set_descr_def Let_def
      impl_set_native_non_blocking_def set_internal_non_blocking_def holder_release_def split: prod.splits)

theorem socket_lifecycle_witness:
  "open_fds fd_demo_view (sysw (ses_rx fd_demo_native)) = {0, 1, 2, 9} \<and>
   registered fd_demo_view (ses_impl fd_demo_native) (ses_rx fd_demo_native)"
proof -
  have "impl_is_open (ses_impl fd_demo_native)" by (simp add: impl_is_open_def fd_demo_facts invalid_socket_def)
  then show ?thesis
    using socket_lifecycle [OF fd_demo_law fd_demo_reach] fd_demo_facts by auto
qed

end
