(* ===== verification/SocketStart.thy ===== *)
theory SocketStart
  imports SocketLifecycle
begin

text \<open>
  Operations started on a socket: the socket does not block when the reactor gets them, they are what
  the reactor's guarantee asks for, and they are cancelled through their slots, except for receives
  of out-of-band data. The socket that an accept yields has an owner or is closed.
\<close>

unbundle bit_operations_syntax

section \<open>Starting\<close>

text \<open>
  The three ways in which \<open>start_op\<close> ends, and what decides between them: the operation completes at once, having
  nothing to do; the mode of the socket has to be set and the kernel refuses, and it completes with the error of
  that call; or the reactor gets it, the flags saying already that the socket does not block, or the kernel having set
  the mode.
\<close>

definition op_started ::
  "'w sock_os \<Rightarrow> 'w fd_view \<Rightarrow> 'w sock_world os \<Rightarrow> sock_impl \<Rightarrow> op_type \<Rightarrow> reactor_op \<Rightarrow> bool \<Rightarrow> bool \<Rightarrow> bool \<Rightarrow>
   'w sock_reactor \<Rightarrow> int set \<Rightarrow> sock_impl \<times> 'w sock_reactor \<Rightarrow> bool"
where
  "op_started os v rxos impl j op cont is_non_blocking noop s others = (\<lambda>(impl', s').
     if noop then impl' = impl \<and> s' = post op cont s
     else if has_flag (impl_state impl) non_blocking then
       impl' = impl \<and> nb_mode v (sysw s) (impl_socket impl) \<and>
       s' = start_op rxos j (impl_socket impl) (impl_data impl) op cont is_non_blocking s
     else case sys_ioctl os (impl_socket impl) FIONBIO 1 (sysw s) of (w, r) \<Rightarrow>
       (let s1 = s\<lparr>world := (world s)\<lparr>sys_world := w\<rparr>\<rparr>
        in case r of
             Inl e \<Rightarrow> impl' = impl \<and> impl_ok v impl s1 others \<and> s' = post (op\<lparr>rop_ec := e\<rparr>) cont s1
           | Inr _ \<Rightarrow> impl_socket impl' = impl_socket impl \<and> impl_data impl' = impl_data impl \<and>
               impl_ok v impl' s1 others \<and> nb_mode v w (impl_socket impl) \<and> has_flag (impl_state impl') non_blocking \<and>
               s' = start_op rxos j (impl_socket impl) (impl_data impl) (op\<lparr>rop_ec := Ok_code\<rparr>) cont is_non_blocking s1))"

lemma sock_start_op_started:
  assumes law: "fd_law os rxos v" and ok: "impl_ok v impl s others" and open_impl: "impl_is_open impl"
  shows "op_started os v rxos impl j op cont is_non_blocking noop s others
    (sock_start_op os rxos impl j op cont is_non_blocking noop s)"
proof -
  have mode: "mode_ok v (sysw s) (impl_socket impl) (impl_state impl)" using ok open_impl by (simp add: impl_ok_def)
  show ?thesis
  proof (cases "noop \<or> has_flag (impl_state impl) non_blocking")
    case True
    then show ?thesis using mode by (auto simp: op_started_def sock_start_op_def mode_ok_def)
  next
    case False
    obtain w r where io: "sys_ioctl os (impl_socket impl) FIONBIO 1 (sysw s) = (w, r)" by fastforce
    obtain s1 state1 good ec where *: "in_sys (set_internal_non_blocking os (impl_socket impl) (impl_state impl) True) s =
        (s1, state1, good, ec)" by (metis prod_cases4)
    then have c: "set_internal_non_blocking os (impl_socket impl) (impl_state impl) True (sysw s) = (sysw s1, state1, good, ec)"
      and s1: "s1 = s\<lparr>world := (world s)\<lparr>sys_world := sysw s1\<rparr>\<rparr>"
      by (simp_all add: in_sys_eq)
    note st = set_internal_non_blocking_step [OF law c]
    have ok1: "impl_ok v (impl\<lparr>impl_state := state1\<rparr>) s1 others"
      by (rule mode_step_ok [OF ok st(1) in_sys_descr [OF *]])
    have valid: "impl_socket impl \<noteq> invalid_socket" using open_impl by (simp add: impl_is_open_def)
    have res: "sysw s1 = w" "good = (\<exists>a. r = Inr a)" "ec = (case r of Inl e \<Rightarrow> e | Inr _ \<Rightarrow> Ok_code)"
      using c valid io False
      by (auto simp: set_internal_non_blocking_def get_last_error_def split: sum.splits if_splits)
    show ?thesis
    proof (cases r)
      case (Inr a)
      then show ?thesis using False * ok1 st(2) res io s1 unfolding op_started_def sock_start_op_def
        by (simp add: Let_def)
    next
      case (Inl e)
      then have "state1 = impl_state impl" using st(3) res(2) by simp
      then show ?thesis using Inl False * ok1 res io s1 unfolding op_started_def sock_start_op_def
        by (simp add: Let_def)
    qed
  qed
qed

text \<open>C18: an asynchronous send or receive, also with an address, on an open socket. A stream operation without room in
  its first 64 buffers completes at once with success, and only that. Any other operation is given to the reactor if the
  flags say that the socket does not block, and then the kernel has it in that mode; if they do not, the mode is
  set: the reactor gets the operation, with no error, when the call succeeds, and the flags and the kernel agree on the mode;
  when it fails the operation completes with exactly the error of that call and the socket is as it was. What the reactor
  gets is an operation that \<open>fits\<close> the descriptor and the queue, which is what its guarantee for sockets asks for.\<close>

theorem transfers_start:
  assumes "fd_law os rxos v" "impl_ok v impl s others" "impl_is_open impl"
    and "impl_socket impl = fd d" "has_flag (impl_state impl) stream_oriented = stream d"
  shows "(case async_send os rxos impl data flags op slot cont s of (sop, oc, r) \<Rightarrow>
      let noop = stream d \<and> sum_list (map length (native length data)) = 0 in
      op_started os v rxos impl Write_op (with_key slot op) cont True noop s others r \<and> fits fd stream d Write_op sop) \<and>
    (case async_receive os rxos impl bufs flags op slot cont s of (sop, oc, r) \<Rightarrow>
      let noop = stream d \<and> sum_list (native id bufs) = 0 in
      op_started os v rxos impl (recv_type flags) (with_key slot op) cont (flags AND MSG_OOB = 0) noop s others r \<and>
      fits fd stream d (recv_type flags) sop) \<and>
    (case async_send_to os rxos impl data addr flags op slot cont s of (sop, oc, r) \<Rightarrow>
      op_started os v rxos impl Write_op (with_key slot op) cont True False s others r \<and> fits fd stream d Write_op sop) \<and>
    (case async_receive_from os rxos impl bufs flags op slot cont s of (sop, oc, r) \<Rightarrow>
      op_started os v rxos impl (recv_type flags) (with_key slot op) cont True False s others r \<and>
      fits fd stream d (recv_type flags) sop)"
  using sock_start_op_started [OF assms(1-3)] assms(4,5)
  by (simp add: async_send_def async_receive_def async_send_to_def async_receive_from_def op_for_def fits_def Let_def
      bufs_all_empty_eq recv_type_def del: sum_list_eq_0_iff)

theorem transfers_start_witness:
  "op_started fd_demo_os fd_demo_view fd_demo_rxos (ses_impl fd_demo_native) Read_op demo_read False True False
     (ses_rx fd_demo_native) {0, 1, 2}
     (snd (snd (async_receive fd_demo_os fd_demo_rxos (ses_impl fd_demo_native) (Single_buffer 5) 0 demo_read False False
        (ses_rx fd_demo_native))))"
proof -
  let ?st = "fd_demo_native"
  have "impl_ok fd_demo_view (ses_impl ?st) (ses_rx ?st) {0, 1, 2}"
    using sock_reach_ok [OF fd_demo_law fd_demo_reach] by (simp add: fd_demo_facts)
  moreover have "impl_is_open (ses_impl ?st)" by (simp add: impl_is_open_def fd_demo_facts invalid_socket_def)
  ultimately show ?thesis
    using transfers_start [OF fd_demo_law, where impl = "ses_impl ?st" and s = "ses_rx ?st" and others = "{0, 1, 2}" and
        fd = "\<lambda>_. 9" and d = 0 and stream = "\<lambda>_. has_flag (impl_state (ses_impl ?st)) stream_oriented" and
        flags = 0 and op = demo_read and slot = False and cont = False and bufs = "Single_buffer 5"]
    by (simp add: fd_demo_facts with_key_def recv_type_def case_prod_beta)
qed

section \<open>Cancelling\<close>

text \<open>An attempt leaves the identity and the key of an operation alone.\<close>

definition keyed_alike :: "reactor_op \<Rightarrow> reactor_op \<Rightarrow> bool" where
  "keyed_alike op op' \<longleftrightarrow> rop_id op' = rop_id op \<and> rop_key op' = rop_key op"

lemma keyed_alike_refl [simp]: "keyed_alike op op"
  by (simp add: keyed_alike_def)

lemma sock_do_perform_keyed:
  "sock_do_perform os sop (op, res) w = Some (status, (op1, res1), w1) \<Longrightarrow> keyed_alike op op1"
  by (cases "sop_kind sop")
     (auto simp: sock_do_perform_def keyed_alike_def recv_do_perform_def recvfrom_do_perform_def recvmsg_do_perform_def
       send_do_perform_def sendto_do_perform_def accept_do_perform_def connect_do_perform_def wait_do_perform_def
       null_buffers_do_perform_def Let_def split: prod.splits buffers_arg.splits if_splits)

lemma sock_perform_keyed:
  "os_perform (sock_rx_os os table rxos) d j op W = (status, op1, W1) \<Longrightarrow> keyed_alike op op1"
  by (auto simp: sock_rx_os_def sock_perform_def dest: sock_do_perform_keyed split: option.splits prod.splits)

text \<open>What \<open>start_op\<close> leaves waiting: what was waiting, and the operation with its key.\<close>

lemma after_speculation_waiting:
  "q \<in> set (op_queue_of (descr (after_speculation os j d fd op cont s) d) j) \<Longrightarrow>
   q \<in> set (op_queue_of (descr s d) j) \<or> q = op"
  by (auto simp: after_speculation_def fail_op_def queue_op_def call_def set_queue_def set_descr_def epoll_ctl_def Let_def
      split: prod.splits if_splits)

lemma start_op_waiting:
  assumes perf: "\<And>W status op1 W1. os_perform os d j op W = (status, op1, W1) \<Longrightarrow> keyed_alike op op1"
    and q: "q \<in> set (op_queue_of (descr (start_op os j fd (Some d) op cont spec s) d) j)"
  shows "q \<in> set (op_queue_of (descr s d) j) \<or> keyed_alike op q"
proof -
  obtain status op1 w where p: "os_perform os d j op (world s) = (status, op1, w)" by (metis prod_cases3)
  have k: "keyed_alike op op1" by (rule perf [OF p])
  show ?thesis
    using q k after_speculation_waiting [of q os j d fd op1 cont "s\<lparr>world := w\<rparr>"]
      after_speculation_waiting [of q os j d fd op cont s]
    by (auto simp: start_op_def p Let_def call_def fail_op_def queue_op_def set_queue_def set_descr_def
        set_speculative_def epoll_ctl_def split: if_splits prod.splits)
qed

lemma sock_start_op_waiting:
  assumes c: "sock_start_op os (sock_rx_os os table rxos) impl j op cont spec noop s = (impl', s')"
    and d: "impl_data impl = Some d" and q: "q \<in> set (op_queue_of (descr s' d) j)"
  shows "impl_data impl' = Some d" "q \<in> set (op_queue_of (descr s d) j) \<or> keyed_alike op q"
proof -
  let ?rx = "sock_rx_os os table rxos"
  obtain s1 state1 good ec where *: "in_sys (set_internal_non_blocking os (impl_socket impl) (impl_state impl) True) s =
      (s1, state1, good, ec)" by (metis prod_cases4)
  have d1: "descr s1 = descr s" by (rule in_sys_descr [OF *])
  have k: "keyed_alike op q" if "keyed_alike (op\<lparr>rop_ec := e\<rparr>) q" for e using that by (simp add: keyed_alike_def)
  have st: "q \<in> set (op_queue_of (descr t d) j) \<or> keyed_alike o1 q"
    if "q \<in> set (op_queue_of (descr (start_op ?rx j fd (Some d) o1 cont spec t) d) j)" for fd o1 t
    by (rule start_op_waiting [OF sock_perform_keyed that])
  show "impl_data impl' = Some d"
    using c d * by (auto simp: sock_start_op_def Let_def split: if_splits)
  show "q \<in> set (op_queue_of (descr s d) j) \<or> keyed_alike op q"
  proof (cases "noop \<or> \<not> has_flag (impl_state impl) non_blocking \<and> \<not> good")
    case True
    then show ?thesis using c * q d1 by (auto simp: sock_start_op_def Let_def post_def call_def split: if_splits)
  next
    case False
    then obtain e t where t: "s' = start_op ?rx j (impl_socket impl) (Some d) (op\<lparr>rop_ec := e\<rparr>) cont spec t" "descr t = descr s"
    proof (cases "has_flag (impl_state impl) non_blocking")
      case f: True
      show ?thesis using that [of "rop_ec op" s] c d f False by (auto simp: sock_start_op_def)
    next
      case f: False
      show ?thesis using that [of ec s1] c d f False * d1 by (simp add: sock_start_op_def Let_def)
    qed
    from st [OF q [unfolded t(1)]] show ?thesis using k t(2) by metis
  qed
qed

text \<open>C36: cancelling an asynchronous receive through its cancellation slot: the operation is started with a slot,
  its identity being no other's in the queue, and waits there, and later, in whatever state the reactor is by then, still
  waits, with its identity and key, which no attempt changes. A receive of normal data leaves the queue of reads and
  is posted as aborted, and the operations with other keys stay. A receive of out-of-band data waits in the queue for exceptional
  conditions, but its slot was connected for the queue of reads: cancelling it leaves it waiting, and that whole queue as it
  is.\<close>

theorem receive_slot_cancellation:
  assumes "async_receive os (sock_rx_os os table rxos) impl bufs flags op True cont s0 = (sop, Some oc, impl', s1)"
    and "impl_data impl = Some d" "rop_id op \<notin> rop_id ` set (op_queue_of (descr s0 d) (recv_type flags))"
    and "op1 \<in> set (op_queue_of (descr s1 d) (recv_type flags))" "rop_id op1 = rop_id op"
    and "op2 \<in> set (op_queue_of (descr s d) (recv_type flags))" "keyed_alike op1 op2"
    and "type AND (ct_terminal OR ct_partial OR ct_total) \<noteq> 0"
  shows "if flags AND MSG_OOB = 0
    then op_queue_of (descr (cancel_operation oc impl' type s) d) Read_op =
        [q \<leftarrow> op_queue_of (descr s d) Read_op. rop_key q \<noteq> Some (rop_id op)] \<and>
      op2 \<notin> set (op_queue_of (descr (cancel_operation oc impl' type s) d) Read_op) \<and>
      (\<exists>ops. calls (cancel_operation oc impl' type s) = calls s @ [Post_deferred ops] \<and> Io_op (aborted op2) \<in> set ops)
    else op_queue_of (descr (cancel_operation oc impl' type s) d) Except_op = op_queue_of (descr s d) Except_op \<and>
      op2 \<in> set (op_queue_of (descr (cancel_operation oc impl' type s) d) Except_op)"
proof -
  have oc: "oc = \<lparr>oc_type = Read_op, oc_key = rop_id op\<rparr>"
    using assms(1) by (auto simp: async_receive_def cancellation_for_def)
  have start: "sock_start_op os (sock_rx_os os table rxos) impl (recv_type flags) (with_key True op) cont (flags AND MSG_OOB = 0)
      (has_flag (impl_state impl) stream_oriented \<and> bufs_all_empty id bufs) s0 = (impl', s1)"
    using assms(1) by (simp add: async_receive_def recv_type_def)
  note w = sock_start_op_waiting [OF start assms(2,4)]
  have key: "rop_key op2 = Some (rop_id op)"
  proof -
    have "op1 \<notin> set (op_queue_of (descr s0 d) (recv_type flags))"
      using assms(3,5) by (metis imageI)
    then show ?thesis using w(2) assms(7) by (simp add: keyed_alike_def with_key_def)
  qed
  obtain ops rest where l: "cancel_rop_loop (Some (rop_id op)) (op_queue_of (descr s d) Read_op) [] [] = (ops, rest)" by fastforce
  have c: "cancel_operation oc impl' type s = call (Post_deferred ops) (set_queue d Read_op rest s)"
    using w(1) assms(8) l by (simp add: cancel_operation_def oc cancel_ops_by_key_def)
  have q: "op_queue_of (descr (call c (set_queue d Read_op rest s)) d) j = (if j = Read_op then rest else op_queue_of (descr s d) j)"
    "calls (call c (set_queue d Read_op rest s)) = calls s @ [c]" for c j
    by (simp_all add: call_def set_queue_def set_descr_def)
  show ?thesis
  proof (cases "flags AND MSG_OOB = 0")
    case True
    then have "op2 \<in> set (op_queue_of (descr s d) Read_op)" using assms(6) by (simp add: recv_type_def)
    then show ?thesis using True l key unfolding c q by (auto simp: cancel_rop_loop_eq)
  next
    case False
    then show ?thesis using assms(6) unfolding c q by (simp add: recv_type_def)
  qed
qed

text \<open>The opened socket starts a receive of each kind, which waits, and it is cancelled.\<close>

definition plain_demo_os :: "fd_world os" where
  "plain_demo_os = \<lparr>
     os_perform = (\<lambda>d j op w. (Not_done, op, w)),
     os_epoll_ctl = (\<lambda>c fd ev p w. (0, w)),
     os_epoll_wait = (\<lambda>timeout w. ([], w)),
     os_timerfd_settime = (\<lambda>abstime sec nsec w. w),
     os_interrupt = (\<lambda>w. w),
     os_now = (\<lambda>w. 0)\<rparr>"

definition demo_receive :: "msg_flags \<Rightarrow> fd_world started_op" where
  "demo_receive flags = async_receive fd_demo_os
     (sock_rx_os fd_demo_os (\<lambda>_ _ _. op_for (ses_impl fd_demo_native) (Recv_kind (Single_buffer 5) flags)) plain_demo_os)
     (ses_impl fd_demo_native) (Single_buffer 5) flags demo_read True False (ses_rx fd_demo_native)"

lemma fd_demo_registered:
  "impl_data (ses_impl fd_demo_native) = Some 0"
  "op_queue_of (descr (ses_rx fd_demo_native) 0) = (\<lambda>_. [])"
  "registered_events (descr (ses_rx fd_demo_native) 0) = default_events"
  "try_speculative (descr (ses_rx fd_demo_native) 0) j" "\<not> ds_shutdown (descr (ses_rx fd_demo_native) 0)"
  "impl_state (ses_impl fd_demo_native) = set_flag stream_oriented internal_non_blocking"
  by (simp_all add: fd_demo_native_def fd_demo_opened_def fd_demo_start_def do_open_def impl_is_open_def in_sys_def
      so_socket_def fd_demo_os_def reactor_new_def register_own_def epoll_ctl_def fd_demo_rxos_def invalid_socket_def
      register_descriptor_def allocate_descriptor_state_def pool_new_def pool_defs set_descr_def Let_def new_descr_def
      impl_set_native_non_blocking_def set_internal_non_blocking_def holder_release_def state_of_type_def
      split: prod.splits)

lemma fd_demo_flags: "has_flag (set_flag stream_oriented internal_non_blocking) non_blocking"
  "EPERM \<noteq> 0"
  by (simp_all add: has_flag_bits flag_bits set_flag_def bit_or_iff EPERM_def)

lemma fd_demo_calls:
  "sys_recv fd_demo_os s bufs fl w = (w, Inl Would_block)"
  by (simp add: fd_demo_os_def)

lemma demo_attempt:
  "os_perform (sock_rx_os fd_demo_os (\<lambda>_ _ _. op_for impl (Recv_kind (Single_buffer 5) 0)) rxos) d j op W =
     (st, op1, W1) \<Longrightarrow> st = Not_done"
  by (simp add: sock_rx_os_def sock_perform_def op_for_def sock_do_perform_def recv_do_perform_def non_blocking_recv1_def
      non_blocking_loop.simps [of "sys_recv fd_demo_os s b f" for s b f] fd_demo_calls Let_def status_of_def)

lemma demo_receive_waits:
  assumes "flags = 0 \<or> flags = MSG_OOB"
  obtains sop impl' s1 op1 where "demo_receive flags = (sop, Some \<lparr>oc_type = Read_op, oc_key = 7\<rparr>, impl', s1)"
    "op_queue_of (descr s1 0) (recv_type flags) = [op1]" "rop_id op1 = 7"
proof -
  let ?rx = "sock_rx_os fd_demo_os (\<lambda>_ _ _. op_for (ses_impl fd_demo_native) (Recv_kind (Single_buffer 5) flags)) plain_demo_os"
  let ?op = "demo_read\<lparr>rop_key := Some 7\<rparr>"
  let ?s = "ses_rx fd_demo_native"
  let ?s1 = "start_op ?rx (recv_type flags) 9 (Some 0) ?op False (flags AND MSG_OOB = 0) ?s"
  have d: "demo_receive flags = (op_for (ses_impl fd_demo_native) (Recv_kind (Single_buffer 5) flags),
      Some \<lparr>oc_type = Read_op, oc_key = 7\<rparr>, ses_impl fd_demo_native, ?s1)"
    using fd_demo_flags by (simp add: demo_receive_def async_receive_def cancellation_for_def sock_start_op_def with_key_def
        fd_demo_registered fd_demo_facts demo_read_def recv_type_def bufs_all_empty_eq native_def)
  obtain st op1 W1 where p: "os_perform ?rx 0 (recv_type flags) ?op (world ?s) = (st, op1, W1)" by (metis prod_cases3)
  have op1: "rop_id op1 = 7" using sock_perform_keyed [OF p] by (simp add: keyed_alike_def demo_read_def)
  have "\<exists>q. op_queue_of (descr ?s1 0) (recv_type flags) = [q] \<and> rop_id q = 7"
  proof (cases "flags = 0")
    case True
    then have st: "st = Not_done" using demo_attempt p by metis
    show ?thesis
      using True p op1 st
      by (simp add: start_op_def fd_demo_registered after_speculation_def queue_op_def call_def set_queue_def set_descr_def
          recv_type_def)
  next
    case False
    then have "flags = MSG_OOB" using assms by blast
    then show ?thesis
      by (simp add: start_op_def fd_demo_registered queue_op_def call_def set_queue_def set_descr_def epoll_ctl_def
          recv_type_def MSG_OOB_def demo_read_def Let_def split: prod.splits)
  qed
  then show ?thesis using that d by blast
qed

theorem receive_slot_cancellation_witness:
  "(\<exists>sop oc impl' s1 op1. demo_receive 0 = (sop, Some oc, impl', s1) \<and> op1 \<in> set (op_queue_of (descr s1 0) Read_op) \<and>
     op_queue_of (descr (cancel_operation oc impl' ct_terminal s1) 0) Read_op = []) \<and>
   (\<exists>sop oc impl' s1 op1. demo_receive MSG_OOB = (sop, Some oc, impl', s1) \<and>
     op1 \<in> set (op_queue_of (descr (cancel_operation oc impl' ct_terminal s1) 0) Except_op))"
proof -
  have ct: "ct_terminal AND (ct_terminal OR ct_partial OR ct_total) \<noteq> 0"
    by (simp add: ct_terminal_def ct_partial_def ct_total_def)
  note slot = receive_slot_cancellation [OF _ fd_demo_registered(1), where op = demo_read and type = ct_terminal, OF _ _ _ _ _ _ ct]
  obtain sop impl' s1 op1 where a: "demo_receive 0 = (sop, Some \<lparr>oc_type = Read_op, oc_key = 7\<rparr>, impl', s1)"
    "op_queue_of (descr s1 0) (recv_type 0) = [op1]" "rop_id op1 = 7"
    by (rule demo_receive_waits [of 0]) simp_all
  have 1: "op1 \<notin> set (op_queue_of (descr (cancel_operation \<lparr>oc_type = Read_op, oc_key = 7\<rparr> impl' ct_terminal s1) 0) Read_op)
    \<and> op_queue_of (descr (cancel_operation \<lparr>oc_type = Read_op, oc_key = 7\<rparr> impl' ct_terminal s1) 0) Read_op =
        [q \<leftarrow> op_queue_of (descr s1 0) Read_op. rop_key q \<noteq> Some 7]"
    using slot [OF a(1) [unfolded demo_receive_def], of op1 op1 s1] a(2,3)
    by (auto simp: fd_demo_registered recv_type_def demo_read_def split: if_splits)
  then have r0: "op_queue_of (descr (cancel_operation \<lparr>oc_type = Read_op, oc_key = 7\<rparr> impl' ct_terminal s1) 0) Read_op = []"
    using a(2) by (auto simp: recv_type_def split: if_splits)
  obtain sop2 impl2 s2 op2 where b: "demo_receive MSG_OOB = (sop2, Some \<lparr>oc_type = Read_op, oc_key = 7\<rparr>, impl2, s2)"
    "op_queue_of (descr s2 0) (recv_type MSG_OOB) = [op2]" "rop_id op2 = 7"
    by (rule demo_receive_waits [of MSG_OOB]) simp_all
  have 2: "op2 \<in> set (op_queue_of (descr (cancel_operation \<lparr>oc_type = Read_op, oc_key = 7\<rparr> impl2 ct_terminal s2) 0) Except_op)"
    using slot [OF b(1) [unfolded demo_receive_def], of op2 op2 s2] b(2,3)
    by (simp add: fd_demo_registered recv_type_def demo_read_def MSG_OOB_def)
  have "op1 \<in> set (op_queue_of (descr s1 0) Read_op)" using a(2) by (simp add: recv_type_def)
  then show ?thesis using a(1) r0 b(1) 2 by blast
qed

section \<open>Accepted sockets\<close>

text \<open>C17: the socket that an accept operation has obtained, when the operation completes or is destroyed. The operation
  being run, and the peer not open by then, everything turns on what the registration of the socket with the reactor
  reports: after success the socket is the peer's, open, registered and owned by it alone, and the handler gets no error;
  after any error the socket is closed, the peer stays closed, and the handler gets that error. When the peer is open by
  then, or the operation is destroyed without being run, the socket is closed and the peer keeps what it has.
  In every case nothing else is opened or closed, and the peer is left in order.\<close>

theorem accepted_socket_owned:
  assumes law: "fd_law os rxos v" and ok: "impl_ok v peer s others"
    and n: "res_socket res \<in> others" "res_socket res \<noteq> invalid_socket"
    and reg: "register_descriptor rxos fresh (res_socket res) s = (r, data, s1)"
    and c: "accept_do_complete os rxos owner fresh peer type (op, res) s = (peer', ec, s')"
  shows "impl_ok v peer' s' (others - {res_socket res}) \<and>
    (if owner \<and> \<not> impl_is_open peer \<and> r = 0 then own peer' = {res_socket res} \<and> ec = Ok_code
     else own peer' = own peer \<and> ec = (if \<not> owner then rop_ec op else if impl_is_open peer then Already_open else Sys_error r))"
proof -
  let ?n = "res_socket res"
  have closes: "impl_ok v p t2 (others - {?n})"
    if "in_sys (holder_reset os ?n) t1 = (t2, h)" "impl_ok v p t1 others" for t1 t2 h p
  proof -
    have "?n \<in> open_fds v (sysw t1)" using that(2) n(1) by (simp add: impl_ok_def)
    note f = holder_reset_frees [OF law n(2) this that(1)]
    have "?n \<notin> own p" using that(2) n(1) by (auto simp: impl_ok_def)
    then show ?thesis using that(2) f in_sys_descr [OF that(1)]
      by (cases "impl_is_open p")
         (auto simp: impl_ok_def same_others_def mode_ok_def registered_def registration_def)
  qed
  obtain s2 h where h0: "in_sys (holder_reset os ?n) s = (s2, h)" by fastforce
  show ?thesis
  proof (cases owner)
    case False
    then have "peer' = peer" "s' = s2" "ec = rop_ec op" using c h0 by (auto simp: accept_do_complete_def)
    then show ?thesis using closes [OF h0 ok] False by simp
  next
    case True
    obtain peer1 t1 ec1 where as: "do_assign rxos fresh peer type ?n s = (peer1, t1, ec1)" by (metis prod_cases3)
    note d = do_assign_ok [OF law ok n as]
    note ec1 = d(5) [OF reg]
    show ?thesis
    proof (cases "failed ec1")
      case bad: True
      then have e: "ec1 \<noteq> Ok_code" by (simp add: failed_def)
      obtain s3 h3 where h1: "in_sys (holder_reset os ?n) t1 = (s3, h3)" by fastforce
      then have "peer' = peer1" "s' = s3" "ec = ec1"
        using c True as n(2) bad by (auto simp: accept_do_complete_def accept_do_assign_def)
      moreover have "own peer1 = own peer" using d(4) [OF e] by (simp add: own_def impl_is_open_def)
      ultimately show ?thesis using closes [OF h1] d(1) e ec1 True by (auto split: if_splits)
    next
      case good: False
      then have e: "ec1 = Ok_code" by (simp add: failed_def)
      have *: "peer' = peer1" "s' = t1" "ec = ec1"
        using c True as n(2) good
        by (auto simp: accept_do_complete_def accept_do_assign_def holder_release_def in_sys_def holder_reset_def)
      have "own peer1 = {?n}" using d(2) [OF e] n(2) by (simp add: own_def impl_is_open_def)
      then show ?thesis using d(1) * e ec1 True by (auto split: if_splits)
    qed
  qed
qed

theorem accepted_socket_owned_witness:
  "\<exists>peer' ec s'. accept_do_complete fd_demo_os fd_demo_rxos True 1 (ses_impl fd_demo_start) 1
      (demo_read, \<lparr>res_data = [], res_addr = [], res_flags = 0, res_socket = 2\<rparr>) (ses_rx fd_demo_start) = (peer', ec, s') \<and>
     impl_ok fd_demo_view peer' s' {0, 1} \<and> own peer' = {2} \<and> ec = Ok_code"
proof -
  let ?res = "\<lparr>res_data = [], res_addr = [], res_flags = 0, res_socket = 2\<rparr>"
  obtain peer' ec s' where c: "accept_do_complete fd_demo_os fd_demo_rxos True 1 (ses_impl fd_demo_start) 1
      (demo_read, ?res) (ses_rx fd_demo_start) = (peer', ec, s')" by (metis prod_cases3)
  have ok: "impl_ok fd_demo_view (ses_impl fd_demo_start) (ses_rx fd_demo_start) {0, 1, 2}"
    by (simp add: impl_ok_def impl_is_open_def fd_demo_start_def fd_demo_view_def reactor_new_def register_own_def
        epoll_ctl_def fd_demo_rxos_def Let_def)
  have closed: "\<not> impl_is_open (ses_impl fd_demo_start)" by (simp add: impl_is_open_def fd_demo_start_def)
  obtain r data s1 where reg: "register_descriptor fd_demo_rxos 1 2 (ses_rx fd_demo_start) = (r, data, s1)"
    by (metis prod_cases3)
  then have "r = 0"
    by (simp add: fd_demo_start_def reactor_new_def register_own_def epoll_ctl_def fd_demo_rxos_def Let_def
        register_descriptor_def allocate_descriptor_state_def pool_new_def pool_defs set_descr_def split: prod.splits)
  moreover have "{0, 1, 2} - {2} = {0, 1 :: int}" by auto
  ultimately show ?thesis
    using accepted_socket_owned [OF fd_demo_law ok, of ?res 1 r data s1 True 1 demo_read peer' ec s'] reg c closed
    by (simp add: invalid_socket_def)
qed

end
