(* ===== verification/SocketReceive.thy ===== *)
theory SocketReceive
  imports SocketCalls
begin

text \<open>Receiving synchronously: the bytes delivered, the errors, and that the call returns.\<close>

unbundle bit_operations_syntax

text \<open>
  What \<open>recv\<close> and \<open>poll\<close> do, where \<open>out\<close> is the bytes delivered so far: \<open>recv\<close> delivers no more than there is
  room for, and nothing when it fails; \<open>poll\<close> delivers nothing and does not fail for being unable to wait.
\<close>

definition recv_law :: "'w sock_os \<Rightarrow> int \<Rightarrow> ('w \<Rightarrow> byte list) \<Rightarrow> bool" where
  "recv_law os s out \<longleftrightarrow>
     (\<forall>bufs flags w w1 r. sys_recv os s bufs flags w = (w1, r) \<longrightarrow>
        (case r of Inl e \<Rightarrow> failed e \<and> out w1 = out w
         | Inr data \<Rightarrow> length data \<le> sum_list bufs \<and> out w1 = out w @ data)) \<and>
     (\<forall>ev msec w w1 r. sys_poll os s ev msec w = (w1, r) \<longrightarrow>
        out w1 = out w \<and> (case r of Inl e \<Rightarrow> failed e \<and> e \<noteq> Would_block \<and> e \<noteq> Try_again | Inr n \<Rightarrow> True))"

lemma recv_lawD:
  assumes "recv_law os s out"
  shows "sys_recv os s bufs flags w = (w1, Inl e) \<Longrightarrow> failed e \<and> out w1 = out w"
    "sys_recv os s bufs flags w = (w1, Inr data) \<Longrightarrow> length data \<le> sum_list bufs \<and> out w1 = out w @ data"
    "sys_poll os s ev msec w = (w1, r) \<Longrightarrow> out w1 = out w"
    "sys_poll os s ev msec w = (w1, Inl e) \<Longrightarrow> failed e \<and> e \<noteq> Would_block \<and> e \<noteq> Try_again"
proof -
  have law: "case r of Inl e \<Rightarrow> failed e \<and> out w1 = out w | Inr data \<Rightarrow> length data \<le> sum_list bufs \<and> out w1 = out w @ data"
    if "sys_recv os s bufs flags w = (w1, r)" for r
    using assms that unfolding recv_law_def by blast
  show "sys_recv os s bufs flags w = (w1, Inl e) \<Longrightarrow> failed e \<and> out w1 = out w"
    "sys_recv os s bufs flags w = (w1, Inr data) \<Longrightarrow> length data \<le> sum_list bufs \<and> out w1 = out w @ data"
    using law [of "Inl e"] law [of "Inr data"] by simp_all
  have poll: "out w1 = out w \<and> (case r of Inl e \<Rightarrow> failed e \<and> e \<noteq> Would_block \<and> e \<noteq> Try_again | Inr n \<Rightarrow> True)"
    if "sys_poll os s ev msec w = (w1, r)" for r
    using assms that unfolding recv_law_def by blast
  show "sys_poll os s ev msec w = (w1, r) \<Longrightarrow> out w1 = out w"
    "sys_poll os s ev msec w = (w1, Inl e) \<Longrightarrow> failed e \<and> e \<noteq> Would_block \<and> e \<noteq> Try_again"
    using poll [of r] poll [of "Inl e"] by simp_all
qed

lemma poll_read_out:
  assumes "recv_law os s out" "s \<noteq> invalid_socket" "poll_read os s 0 (-1) w = (w1, result, ec)"
  shows "out w1 = out w" "result < 0 \<Longrightarrow> failed ec \<and> ec \<noteq> Would_block \<and> ec \<noteq> Try_again"
proof -
  obtain w2 r where p: "sys_poll os s POLLIN (-1) w = (w2, r)" by fastforce
  have "\<not> has_flag 0 user_set_non_blocking" by (simp add: has_flag_def)
  then have "w1 = w2" "result = (case r of Inl e \<Rightarrow> -1 | Inr n \<Rightarrow> int n)" "ec = get_last_error r"
    using assms(2,3) p by (simp_all add: poll_read_def poll_for_def)
  then show "out w1 = out w" "result < 0 \<Longrightarrow> failed ec \<and> ec \<noteq> Would_block \<and> ec \<noteq> Try_again"
    using recv_lawD(3,4) [OF assms(1)] p by (auto simp: get_last_error_def split: sum.splits)
qed

lemma waited_out:
  assumes "waited (sys_recv os s bufs flags) (poll_read os s 0 (-1)) w w0" "recv_law os s out" "s \<noteq> invalid_socket"
  shows "out w0 = out w"
  using assms(1)
proof induction
  case (again w w1 ec w2 result ec2 w3)
  then show ?case using recv_lawD(1) [OF assms(2)] poll_read_out(1) [OF assms(2,3)] by metis
qed simp

lemma impl_receive_loop:
  assumes "impl_socket impl \<noteq> invalid_socket"
  shows "impl_receive os impl bufs flags w =
    (if sum_list (native id bufs) = 0 \<and> has_flag (impl_state impl) stream_oriented then Some (w, [], Ok_code)
     else sync_loop (sys_recv os (impl_socket impl) (native id bufs) flags) (poll_read os (impl_socket impl) 0 (-1))
       (\<lambda>bytes. has_flag (impl_state impl) stream_oriented \<and> length bytes = 0) (impl_state impl) [] w)"
  using assms
  by (cases bufs) (simp_all add: impl_receive_def sync_recv1_def sync_recv_def Let_def bsa_all_empty_def del: sum_list_eq_0_iff)

text \<open>C16: a synchronous receive on an open socket returns, provided that data it waited for cannot be
  taken away for ever (\<open>waits_end\<close>). It delivers the bytes it reports, in order and no more than fit in its first
  64 buffers, and none with an error. On a stream success without bytes means that there was no room,
  and the end of the stream is an error. That the call would block is reported only to a user who
  asked not to block, although the library makes sockets non-blocking for its own purposes.\<close>

theorem receive_correct:
  assumes "impl_is_open impl" "recv_law os (impl_socket impl) out"
    and "waits_end \<mu> (sys_recv os (impl_socket impl) (native id bufs) flags) (poll_read os (impl_socket impl) 0 (-1))"
  shows "\<exists>w' data ec. impl_receive os impl bufs flags w = Some (w', data, ec) \<and>
    out w' = out w @ data \<and> length data \<le> sum_list (native id bufs) \<and>
    (failed ec \<longrightarrow> data = []) \<and>
    (has_flag (impl_state impl) stream_oriented \<longrightarrow> \<not> failed ec \<longrightarrow> (data = [] \<longleftrightarrow> sum_list (native id bufs) = 0)) \<and>
    (ec = Would_block \<or> ec = Try_again \<longrightarrow> has_flag (impl_state impl) user_set_non_blocking)"
proof (cases "sum_list (native id bufs) = 0 \<and> has_flag (impl_state impl) stream_oriented")
  case True
  then show ?thesis using assms(1) by (simp add: impl_receive_loop impl_is_open_def)
next
  case False
  let ?call = "sys_recv os (impl_socket impl) (native id bufs) flags"
  let ?wait = "poll_read os (impl_socket impl) 0 (-1)"
  let ?stop = "\<lambda>bytes. has_flag (impl_state impl) stream_oriented \<and> length bytes = 0"
  have s: "impl_socket impl \<noteq> invalid_socket" using assms(1) by (simp add: impl_is_open_def)
  obtain w0 w' data ec where run: "waited ?call ?wait w w0" "sync_answer ?call ?wait ?stop (impl_state impl) [] w0 (w', data, ec)"
    "sync_loop ?call ?wait ?stop (impl_state impl) [] w = Some (w', data, ec)"
    using sync_loop_run [OF assms(3)] by (metis prod_cases3)
  have o0: "out w0 = out w" by (rule waited_out [OF run(1) assms(2) s])
  have eq: "impl_receive os impl bufs flags w = Some (w', data, ec)"
    using impl_receive_loop [OF s, of os bufs flags w] False run(3) by (simp del: sum_list_eq_0_iff)
  obtain w1 r where c: "?call w0 = (w1, r)" by fastforce
  have "out w' = out w @ data \<and> length data \<le> sum_list (native id bufs) \<and> (failed ec \<longrightarrow> data = []) \<and>
    (has_flag (impl_state impl) stream_oriented \<longrightarrow> \<not> failed ec \<longrightarrow> data \<noteq> []) \<and>
    (ec = Would_block \<or> ec = Try_again \<longrightarrow> has_flag (impl_state impl) user_set_non_blocking)"
  proof (cases r)
    case (Inr bytes)
    then show ?thesis using run(2) c recv_lawD(2) [OF assms(2), of "native id bufs" flags w0 w1 bytes] o0
      by (auto simp: sync_answer_def split: if_splits)
  next
    case (Inl e)
    then have e: "failed e" "out w1 = out w" using c recv_lawD(1) [OF assms(2)] o0 by metis+
    obtain w2 result ec2 where p: "?wait w1 = (w2, result, ec2)" by (metis prod_cases3)
    show ?thesis using run(2) c Inl e poll_read_out [OF assms(2) s p] p
      by (auto simp: sync_answer_def split: if_splits)
  qed
  then show ?thesis using eq False by (auto simp del: sum_list_eq_0_iff)
qed

text \<open>A stream that delivers its bytes as they are asked for; \<open>recv\<close> has to wait first when the flag is set.\<close>

definition stream_os :: "(bool \<times> byte list \<times> byte list) sock_os" where
  "stream_os = \<lparr>
     sys_socket = (\<lambda>af type protocol w. (w, Inr 9)),
     sys_accept = (\<lambda>s w. (w, Inr 10)),
     sys_connect = (\<lambda>s w. (w, Inr ())),
     sys_recv = (\<lambda>s bufs flags (wait, done_bytes, rest).
       if wait then ((wait, done_bytes, rest), Inl Would_block)
       else ((wait, done_bytes @ take (sum_list bufs) rest, drop (sum_list bufs) rest), Inr (take (sum_list bufs) rest))),
     sys_recvfrom = (\<lambda>s bufs flags w. (w, Inl Would_block)),
     sys_recvmsg = (\<lambda>s bufs flags w. (w, Inl Would_block)),
     sys_send = (\<lambda>s data flags w. (w, Inr (sum_list (map length data)))),
     sys_sendto = (\<lambda>s data flags addr w. (w, Inr (sum_list (map length data)))),
     sys_poll = (\<lambda>s ev msec (wait, done_bytes, rest). ((False, done_bytes, rest), Inr 1)),
     sys_ioctl = (\<lambda>s cmd arg w. (w, Inr arg)),
     sys_close = (\<lambda>s w. (w, Inr ())),
     sys_setsockopt = (\<lambda>s level optname optval optlen w. (w, Inr ())),
     sys_getsockopt = (\<lambda>s level optname optlen w. (w, Inr (0, optlen))),
     error_of_value = Sys_error\<rparr>"

definition stream_impl :: sock_impl where
  "stream_impl = \<lparr>impl_socket = 9, impl_state = stream_oriented OR internal_non_blocking, impl_data = Some 0\<rparr>"

theorem receive_correct_witness:
  "\<exists>w' data ec. impl_receive stream_os stream_impl (Buffer_sequence [2, 0, 3]) 0 (True, [], [1, 2, 3, 4, 5, 6, 7]) = Some (w', data, ec) \<and>
     fst (snd w') = data \<and> length data \<le> 5"
proof -
  have "impl_is_open stream_impl" by (simp add: stream_impl_def impl_is_open_def invalid_socket_def)
  moreover have "recv_law stream_os (impl_socket stream_impl) (\<lambda>w. fst (snd w))"
    by (auto simp: recv_law_def stream_os_def failed_def split: if_splits)
  moreover have "waits_end (\<lambda>w. if fst w then 1 else 0) (sys_recv stream_os (impl_socket stream_impl) (native id (Buffer_sequence [2, 0, 3])) 0)
      (poll_read stream_os (impl_socket stream_impl) 0 (-1))"
    by (auto simp: waits_end_def stream_os_def poll_read_def poll_for_def Let_def split: if_splits)
  moreover have "sum_list (native id (Buffer_sequence [2, 0, 3])) = 5"
    by (simp add: native_def bsa_new_eq max_buffers_def max_iov_len_def)
  ultimately show ?thesis
    using receive_correct [of stream_impl stream_os "\<lambda>w. fst (snd w)" "\<lambda>w. if fst w then 1 else 0"
        "Buffer_sequence [2, 0, 3]" 0 "(True, [], [1, 2, 3, 4, 5, 6, 7])"] by auto
qed

end
