(* ===== verification/Spec2Isabelle.thy ===== *)
theory Spec2Isabelle
  imports TimerQueueProps OpQueue IpProps IpMask IpTextProps ReadUntilProps SchedulerProps StrandProps ChannelProps TimerSetProps EpollProps EpollTimers WriteDynbuf SelectProps BufferedSession ServiceRegistryProps SocketReactor SocketStart SocketReceive
begin

text \<open>
  Verification of the Asio C++ library, the header-only tree under \<open>src/Asio/include/asio\<close>; all paths
  below are relative to it. This theory only collects the others; the properties stand at the
  end of the theories of the components they are about, each after a text block that numbers it.

  \<^bold>\<open>The program.\<close> Asio runs asynchronous operations. A program starts an operation on a socket or
  a timer; the operation waits in the \<^emph>\<open>reactor\<close> (\<open>detail/impl/epoll_reactor.ipp\<close>), in the queue of its
  descriptor or in a \<open>timer_queue\<close>; when the kernel says that the descriptor is ready, or the
  timer has expired, the operation moves to the queue of the \<^emph>\<open>scheduler\<close> (\<open>detail/impl/scheduler.ipp\<close>),
  whose threads call its handler. The reactor is itself an operation of the scheduler (the
  \<^emph>\<open>task\<close>), run by one thread at a time. \<^emph>\<open>Strands\<close> and \<^emph>\<open>channels\<close> are built on the scheduler. Above them
  the \<^emph>\<open>composed operations\<close> \<open>read\<close>, \<open>write\<close> and \<open>read_until\<close> repeat single reads and writes over
  \<^emph>\<open>buffers\<close> until a \<^emph>\<open>completion condition\<close> is met. The address and network types of \<open>ip/\<close> are values
  used by the sockets and parse and print text.

  \<^bold>\<open>Conventions.\<close> A class is a record, its member functions take and return the record. Objects linked
  by pointers (\<open>op_queue\<close>, the timers of a queue, the pool of descriptor states, the queues
  of a set) are addresses in a store, with a predicate that says which list the store
  represents. \<open>std::list\<close> is the sequence of its nodes. An exception or an error code is a value
  (\<open>exn + 'a\<close>, \<open>error_code\<close>). Sizes are naturals; where the code
  subtracts or truncates them the wrap-around is written out (\<open>size_sub\<close>, \<open>int_of_size\<close>); the
  octets and halves of addresses and the event masks are words; durations are integers with
  the overflow of \<open>int64_t\<close> as \<open>None\<close> (\<open>s64\<close>). A loop whose end is not evident is \<open>partial_function (option)\<close>,
  and the properties prove that it returns. Code that several threads run is cut at its mutex
  operations into \<^emph>\<open>stretches\<close>, and an inductive step relation interleaves the stretches of any number
  of threads in any order; nothing bounds the number of threads, operations or steps.
  Streams, system calls, the clock, \<open>perform\<close> functions of operations, the growth policy of
  containers and the regular expression library are arguments, with what the code relies on
  of them as hypotheses (\<open>conforming_reader\<close>, \<open>progressing_reader\<close>, \<open>edge_triggered\<close>, \<open>scanner\<close>, \<open>calls_law\<close>,
  \<open>blocking_law\<close>, \<open>timerfd_law\<close>, \<open>fd_law\<close>),
  each satisfied by a concrete instance in a witness. The interfaces between components are locales
  (\<open>dynamic_buffer\<close>, \<open>dynamic_buffer_v2\<close>, \<open>iterated_map\<close>, and others), interpreted on
  the model of the component that provides them.

  \<^bold>\<open>Queues of operations and timers.\<close>
  \<^item> \<open>OpQueue\<close>: \<open>detail/op_queue.hpp\<close> at the level of its pointers, as a queue of lists (refinement).
  \<^item> \<open>ObjectPool\<close>: \<open>detail/object_pool.hpp\<close>, the live and the free list.
  \<^item> \<open>BinaryHeap\<close>, \<open>TimerQueue\<close>, \<open>TimerQueueCorrect\<close>, \<open>TimerQueueProps\<close>: \<open>detail/timer_queue.hpp\<close>. The heap
    order, the heap index of every timer and the list of active timers are an invariant of every
    member function; enqueueing, cancelling, moving and taking the ready timers do what they say.
  \<^item> \<open>ChronoTime\<close>, \<open>TimerQueueSet\<close>, \<open>TimerSetProps\<close>: \<open>detail/chrono_time_traits.hpp\<close> with saturation and
    overflow, and \<open>detail/timer_queue_set.hpp\<close>, whose wait never lasts past the earliest timer.
  \<^item> \<open>HashMap\<close>, \<open>HashMapCorrect\<close>: \<open>detail/hash_map.hpp\<close>. One list of all entries in which the entries
    of a bucket stay neighbours under insertion, removal and rehashing; hence a finite map.
  \<^item> \<open>ReactorOpQueue\<close>: \<open>detail/reactor_op_queue.hpp\<close> over it, a queue of operations per descriptor.

  \<^bold>\<open>Scheduler, strands, channels.\<close>
  \<^item> \<open>Scheduler\<close>, \<open>SchedulerSteps\<close>, \<open>SchedulerInv\<close>, \<open>SchedulerWake\<close>, \<open>SchedulerProps\<close>: \<open>detail/scheduler.hpp\<close>,
    \<open>detail/impl/scheduler.ipp\<close>, \<open>detail/posix_event.hpp\<close>. The invariant: the outstanding work
    counted is the work there is, every operation is in one place, one thread at most is in the task.
    No wake-up is lost, and the scheduler stops only when there is no work.
  \<^item> \<open>Strand\<close>, \<open>StrandProps\<close>: \<open>detail/impl/strand_executor_service.{hpp,ipp}\<close>. Handlers of a strand
    never run concurrently, and in the order they were queued.
  \<^item> \<open>Channel\<close>, \<open>ChannelProps\<close>: \<open>experimental/detail/channel_service.hpp\<close> and its \<open>impl\<close> file. Every message is received
    once and in order; closing, resetting and moving are described branch by branch.

  \<^bold>\<open>Reactor.\<close>
  \<^item> \<open>EpollReactor\<close>: every member function of \<open>epoll_reactor\<close>, for a build with \<open>timerfd\<close>.
  \<^item> \<open>EpollSteps\<close>, \<open>EpollInv\<close>, \<open>EpollProps\<close>: its clients, the threads performing operations and the thread
    that waits, in any order. Over any kernel at all, whatever its calls return: no
    operation is lost or delivered twice, and the work counted with the scheduler is right. Over an edge-triggered kernel,
    whose \<open>epoll_ctl\<close> may fail at any time: when a descriptor is ready and an operation waits on it, an event is
    pending, except on a descriptor on which a modification that arms it again for a waiting operation has been refused: the code
    ignores that result, and the steps keep those descriptors in \<open>refused\<close>.
  \<^item> \<open>EpollTimers\<close>: the \<open>timerfd\<close>, which a setting of zero disarms, never expires later than the earliest timer.
  \<^item> \<open>SelectReactor\<close>, \<open>SelectProps\<close>: \<open>detail/impl/select_reactor.{hpp,ipp}\<close> and
    \<open>detail/posix_fd_set_adapter.hpp\<close> for POSIX systems without epoll. The sets given to \<open>select\<close> are the
    descriptors with waiting operations, and every operation started is accounted for, also with
    clients at work while \<open>run\<close> is inside \<open>select\<close>.

  \<^bold>\<open>Sockets and services.\<close>
  \<^item> \<open>SocketOps\<close>, \<open>SocketOpsProps\<close>: \<open>detail/impl/socket_ops.ipp\<close>, the wrappers of the socket system calls with
    their retry loops, error translation and state flags; the calls themselves are the record
    \<open>sock_os\<close> of arguments, over a world of any type.
  \<^item> \<open>SocketPerform\<close>, \<open>SocketPerformProps\<close>, \<open>SocketReactor\<close>: \<open>detail/buffer_sequence_adapter.hpp\<close>,
    \<open>detail/socket_holder.hpp\<close> and the \<open>do_perform\<close> functions of \<open>detail/reactive_socket_*_op.hpp\<close>. They meet the contract
    that the epoll reactor puts on its operations, so its guarantee holds for sockets, from what the system calls
    promise when they would block. Where an operation reports an error or an end of file as
    having exhausted the descriptor, or an accept stops at an aborted connection, the kernel has promised nothing; the world keeps where that
    has happened (\<open>passed\<close>), and the guarantee excepts it until the descriptor is armed again.
  \<^item> \<open>SocketService\<close>, \<open>SocketCalls\<close>, \<open>SocketLifecycle\<close>, \<open>SocketStart\<close>, \<open>SocketReceive\<close>:
    \<open>detail/reactive_socket_service_base.hpp\<close>, its \<open>impl\<close> file and \<open>detail/reactive_socket_service.hpp\<close>. No descriptor
    leaks or is closed twice, an open socket is registered with the reactor and watched by the kernel (\<open>watch_of\<close>), whatever errors its
    registration may meet, the flags agree with the mode the kernel has the socket in, operations
    reach the reactor only with the socket non-blocking, and a receive delivers what it reports.
  \<^item> \<open>ServiceRegistry\<close>, \<open>ServiceRegistryProps\<close>: \<open>detail/impl/service_registry.{hpp,ipp}\<close> and the end of
    \<open>impl/execution_context.ipp\<close>. One service for a key, whatever threads ask for it at once; at the end each is
    shut down and then deleted, once, the last added first, as the log of that sequence shows.

  \<^bold>\<open>Buffers and composed operations.\<close>
  \<^item> \<open>Buffers\<close>: \<open>buffer.hpp\<close>, buffers as address ranges of a byte memory, and \<open>buffer_copy\<close> in all its cases.
  \<^item> \<open>DynamicBuffer\<close>, \<open>DynamicBufferLaws\<close>: \<open>dynamic_string_buffer\<close>, \<open>dynamic_vector_buffer\<close>,
    \<open>basic_streambuf.hpp\<close>; the contracts of both versions of dynamic buffers. A \<open>streambuf\<close> keeps to
    them as far as its sizes fit an \<open>int\<close> (\<open>db_fits\<close>), to which its code converts them.
  \<^item> \<open>ConsumingBuffers\<close>, \<open>Completion\<close>: \<open>detail/consuming_buffers.hpp\<close>, \<open>completion_condition.hpp\<close>,
    \<open>cancellation_state.hpp\<close>.
  \<^item> \<open>ReadWrite\<close>, \<open>WriteLoop\<close>, \<open>AsyncOps\<close>, \<open>IoProps\<close>, \<open>ReadDynbuf\<close>, \<open>ReadDynbufProps\<close>, \<open>WriteDynbuf\<close>:
    \<open>impl/read.hpp\<close> and \<open>impl/write.hpp\<close>. The loops transfer each byte once and in order
    and stop for the reasons documented, for any completion condition, and return for one that stops at an error; the asynchronous
    operations do what the synchronous do, asking the condition as often, and stay within that under cancellation.
  \<^item> \<open>Search\<close>, \<open>ReadUntil\<close>, \<open>ReadUntilProps\<close>: \<open>impl/read_until.hpp\<close> for characters, strings, regular expressions
    and match conditions; no match is missed across reads, and nothing is read once there is one (\<open>reads_unmatched\<close>).
  \<^item> \<open>BufferedStorage\<close>, \<open>BufferedStream\<close>, \<open>BufferedProps\<close>, \<open>BufferedSession\<close>: \<open>detail/buffered_stream_storage.hpp\<close>,
    \<open>impl/buffered_read_stream.hpp\<close>, \<open>impl/buffered_write_stream.hpp\<close> and \<open>buffered_stream.hpp\<close>, with the
    storage in the memory of \<open>Buffers\<close>. In any session no assertion fails and no byte is lost, repeated
    or reordered in either direction; a flush that throws part of the way is the exception.

  \<^bold>\<open>Addresses.\<close>
  \<^item> \<open>InetText\<close>: \<open>inet_ntop\<close> and \<open>inet_pton\<close> of \<open>detail/impl/socket_ops.ipp\<close> as written out there.
  \<^item> \<open>IpAddress\<close>, \<open>IpNetwork\<close>, \<open>IpProps\<close>, \<open>IpMask\<close>, \<open>IpTextProps\<close>: \<open>ip/address*.hpp\<close>, \<open>ip/network_v*.hpp\<close>,
    iterators and ranges, with parsing and printing as round trips.

  \<^bold>\<open>Not modelled.\<close> In the scheduler: a running function called inside a handler, and exceptions thrown by
  handlers. In the strand and channel services: the linked list of all implementations. In the
  epoll reactor: creating the epoll and timer descriptors; the internal descriptors have their
  operations but no step. Of \<open>socket_ops.ipp\<close> the functions that only pass on a call (\<open>bind\<close>, \<open>listen\<close>,
  \<open>shutdown\<close>, \<open>select\<close>, the names of sockets and hosts) and the branches of other systems; of a socket's
  implementation the protocol and the addresses, which are bytes here. The classes of \<open>basic_socket.hpp\<close> and its
  descendants forward to the service. The resolver, files, serial ports and signals are system calls. The kqueue and \<open>/dev/poll\<close> reactors, the Windows back ends and
  \<open>io_uring\<close> depend on kernels with other contracts. Executors, associators,
  completion tokens, coroutines and type traits are resolved by the compiler; handler memory,
  deprecated hooks and copies of operations have no effect on the behaviour modelled. SSL
  wraps OpenSSL. Memory exhaustion is left out except where a container's maximum size is reached.
\<close>

end
